(* ===== verification/Prelude.thy ===== *)
theory Prelude
  imports Main "HOL-Library.Word"
begin

unbundle bit_operations_syntax

text \<open>
  Shared vocabulary of the development: the machine integer types of the kernel, the
  wrap-around arithmetic of \<^verbatim>\<open>size_t\<close> / \<^verbatim>\<open>uint64_t\<close> on natural numbers, the "first slot
  that satisfies" loop which most of the fixed-size kernel tables use, the bounded string copy
  loop, and the named collections of rewrite rules that the component theories extend.
\<close>

section \<open>Machine integers\<close>

type_synonym u8 = "8 word"
type_synonym u16 = "16 word"
type_synonym u32 = "32 word"
type_synonym u64 = "64 word"

text \<open>Addresses and sizes are natural numbers below \<open>2^64\<close>; the operations below wrap the way
  unsigned 64-bit arithmetic does.\<close>

type_synonym addr = nat

abbreviation u64_limit :: nat where
  "u64_limit \<equiv> 18446744073709551616"

definition add64 :: "nat \<Rightarrow> nat \<Rightarrow> nat" where
  "add64 a b = (a + b) mod u64_limit"

definition sub64 :: "nat \<Rightarrow> nat \<Rightarrow> nat" where
  "sub64 a b = (a + (u64_limit - b mod u64_limit)) mod u64_limit"

definition mul64 :: "nat \<Rightarrow> nat \<Rightarrow> nat" where
  "mul64 a b = (a * b) mod u64_limit"

named_theorems wrap_simps \<open>wrap-around arithmetic that does not wrap\<close>
named_theorems loop_simps \<open>what the scanning loops return\<close>

lemma u64_limit_pow: "u64_limit = 2 ^ 64"
  by simp

lemma add64_less [simp]: "add64 a b < u64_limit"
  by (simp add: add64_def)

lemma sub64_less [simp]: "sub64 a b < u64_limit"
  by (simp add: sub64_def)

lemma mul64_less [simp]: "mul64 a b < u64_limit"
  by (simp add: mul64_def)

lemma add64_eq [wrap_simps]: "a + b < u64_limit \<Longrightarrow> add64 a b = a + b"
  by (simp add: add64_def)

lemma mul64_eq [wrap_simps]: "a * b < u64_limit \<Longrightarrow> mul64 a b = a * b"
  by (simp add: mul64_def)

lemma sub64_eq [wrap_simps]:
  assumes "b \<le> a" and "a < u64_limit"
  shows "sub64 a b = a - b"
proof -
  from assms have "b mod u64_limit = b" by simp
  moreover from assms have "a + (u64_limit - b) = a - b + u64_limit" by linarith
  ultimately have "sub64 a b = (a - b + u64_limit) mod u64_limit"
    by (simp only: sub64_def)
  also have "\<dots> = (a - b) mod u64_limit" by (rule mod_add_self2)
  also have "\<dots> = a - b" using assms by simp
  finally show ?thesis .
qed

lemma sub64_underflow:
  assumes "a < b" and "b < u64_limit"
  shows "sub64 a b = u64_limit - (b - a)"
  using assms by (simp add: sub64_def)

lemma add64_sub64:
  assumes "a < u64_limit" and "b < u64_limit"
  shows "add64 (sub64 a b) b = a"
proof (cases "b \<le> a")
  case True
  with assms show ?thesis by (simp add: sub64_eq add64_eq)
next
  case False
  with assms have "sub64 a b + b = a + u64_limit" by (simp add: sub64_underflow)
  with assms show ?thesis by (simp add: add64_def)
qed

text \<open>The same at 32 bits.\<close>

abbreviation u32_limit :: nat where
  "u32_limit \<equiv> 4294967296"

definition add32 :: "nat \<Rightarrow> nat \<Rightarrow> nat" where
  "add32 a b = (a + b) mod u32_limit"

definition sub32 :: "nat \<Rightarrow> nat \<Rightarrow> nat" where
  "sub32 a b = (a + (u32_limit - b mod u32_limit)) mod u32_limit"

definition mul32 :: "nat \<Rightarrow> nat \<Rightarrow> nat" where
  "mul32 a b = (a * b) mod u32_limit"

lemma add32_eq [wrap_simps]: "a + b < u32_limit \<Longrightarrow> add32 a b = a + b"
  by (simp add: add32_def)

lemma mul32_eq [wrap_simps]: "a * b < u32_limit \<Longrightarrow> mul32 a b = a * b"
  by (simp add: mul32_def)

lemma sub32_eq [wrap_simps]:
  assumes "b \<le> a" and "a < u32_limit"
  shows "sub32 a b = a - b"
proof -
  from assms have "b mod u32_limit = b" by simp
  moreover from assms have "a + (u32_limit - b) = a - b + u32_limit" by linarith
  ultimately have "sub32 a b = (a - b + u32_limit) mod u32_limit" by (simp only: sub32_def)
  also have "\<dots> = (a - b) mod u32_limit" by (rule mod_add_self2)
  also have "\<dots> = a - b" using assms by simp
  finally show ?thesis .
qed

text \<open>Conversions between \<^verbatim>\<open>int32_t\<close> and \<^verbatim>\<open>uint32_t\<close>.\<close>

definition u32_of :: "int \<Rightarrow> nat" where
  "u32_of i = nat (i mod 4294967296)"

definition i32_of :: "nat \<Rightarrow> int" where
  "i32_of n = (let m = n mod u32_limit in if m < 2147483648 then int m else int m - 4294967296)"

lemma u32_of_nat [wrap_simps]: "n < u32_limit \<Longrightarrow> u32_of (int n) = n"
  by (simp add: u32_of_def)

lemma i32_of_small [wrap_simps]: "n < 2147483648 \<Longrightarrow> i32_of n = int n"
  by (simp add: i32_of_def)

lemma u32_of_i32_of: "n < u32_limit \<Longrightarrow> u32_of (i32_of n) = n"
  by (simp add: u32_of_def i32_of_def Let_def)

lemma i32_of_u32_of: "-2147483648 \<le> i \<Longrightarrow> i < 2147483648 \<Longrightarrow> i32_of (u32_of i) = i"
proof (cases "0 \<le> i")
  case True
  assume "i < 2147483648"
  with True show ?thesis by (simp add: u32_of_def i32_of_def Let_def)
next
  case False
  assume "-2147483648 \<le> i"
  with False have "i mod 4294967296 = i + 4294967296"
    using mod_add_self2 [of i 4294967296] mod_pos_pos_trivial [of "i + 4294967296" 4294967296] by linarith
  with False \<open>-2147483648 \<le> i\<close> show ?thesis by (simp add: u32_of_def i32_of_def Let_def)
qed

text \<open>A sum or a difference of \<^verbatim>\<open>int32_t\<close> values, in two's complement: the language leaves the overflow undefined, the
  machine's addition wraps.  The theorems about such code state the range in which nothing wraps.\<close>

definition wrap32 :: "int \<Rightarrow> int" where
  "wrap32 v = (v + 2147483648) mod 4294967296 - 2147483648"

lemma wrap32_id [wrap_simps]: "-2147483648 \<le> v \<Longrightarrow> v < 2147483648 \<Longrightarrow> wrap32 v = v"
  by (simp add: wrap32_def)

lemma wrap32_range: "-2147483648 \<le> wrap32 v \<and> wrap32 v < 2147483648"
  using pos_mod_bound [of 4294967296 "v + 2147483648"] pos_mod_sign [of 4294967296 "v + 2147483648"] by (simp add: wrap32_def)

text \<open>A position and a length of \<^verbatim>\<open>int32_t\<close> whose end is one too.\<close>

definition span32 :: "int \<Rightarrow> int \<Rightarrow> bool" where
  "span32 x n \<longleftrightarrow> -2147483648 < x \<and> x < 2147483648 \<and> -2147483648 \<le> n \<and> n < 2147483648 \<and>
     -2147483648 \<le> x + n \<and> x + n < 2147483648"

section \<open>The first slot that satisfies a test\<close>

text \<open>\<^verbatim>\<open>for (i = 0; i < MAX; i++) if (test(table[i])) { slot = i; break; }\<close>\<close>

fun first_slot :: "('a \<Rightarrow> bool) \<Rightarrow> 'a list \<Rightarrow> nat option" where
  "first_slot P [] = None"
| "first_slot P (x # xs) = (if P x then Some 0 else map_option Suc (first_slot P xs))"

lemma first_slot_None [loop_simps]: "first_slot P xs = None \<longleftrightarrow> (\<forall>x \<in> set xs. \<not> P x)"
  by (induction xs) auto

lemma first_slot_SomeD:
  "first_slot P xs = Some i \<Longrightarrow> i < length xs \<and> P (xs ! i) \<and> (\<forall>j < i. \<not> P (xs ! j))"
proof (induction xs arbitrary: i)
  case Nil
  then show ?case by simp
next
  case (Cons x xs)
  show ?case
  proof (cases "P x")
    case True
    with Cons.prems show ?thesis by simp
  next
    case False
    with Cons.prems obtain k where k: "first_slot P xs = Some k" "i = Suc k" by auto
    from Cons.IH [OF k(1)] k(2) False show ?thesis
      by (auto simp: nth_Cons split: nat.splits)
  qed
qed

lemma first_slot_length: "first_slot P xs = Some i \<Longrightarrow> i < length xs"
  by (auto dest: first_slot_SomeD)

lemma first_slot_holds: "first_slot P xs = Some i \<Longrightarrow> P (xs ! i)"
  by (auto dest: first_slot_SomeD)

lemma first_slot_ex: "i < length xs \<Longrightarrow> P (xs ! i) \<Longrightarrow> \<exists>k. first_slot P xs = Some k"
  by (metis first_slot_None nth_mem option.exhaust)

lemma first_slot_eqI:
  assumes "i < length xs" and "P (xs ! i)" and "\<And>j. j < i \<Longrightarrow> \<not> P (xs ! j)"
  shows "first_slot P xs = Some i"
proof -
  obtain k where k: "first_slot P xs = Some k"
    using first_slot_ex assms(1,2) by blast
  from first_slot_SomeD [OF k] assms have "k = i"
    by (meson linorder_neqE_nat)
  with k show ?thesis by simp
qed

text \<open>Peeling the first index off a bounded quantifier.\<close>

lemma all_from_Suc:
  "P i \<Longrightarrow> (\<forall>k. i \<le> k \<and> k < n \<longrightarrow> P k) \<longleftrightarrow> (\<forall>k. Suc i \<le> k \<and> k < n \<longrightarrow> P k)"
  by (metis Suc_leD Suc_leI le_neq_implies_less)

section \<open>Dropping one element\<close>

lemma distinct_drop_nth:
  "distinct xs \<Longrightarrow> k < length xs \<Longrightarrow>
     distinct (take k xs @ drop (Suc k) xs) \<and>
     set (take k xs @ drop (Suc k) xs) = set xs - {xs ! k}"
proof -
  assume d: "distinct xs" and k: "k < length xs"
  from k have xs: "xs = take k xs @ xs ! k # drop (Suc k) xs" by (rule id_take_nth_drop)
  from d have "distinct (take k xs @ xs ! k # drop (Suc k) xs)" using xs by simp
  then have "distinct (take k xs @ drop (Suc k) xs)"
    and "xs ! k \<notin> set (take k xs @ drop (Suc k) xs)" by auto
  moreover have "set xs = insert (xs ! k) (set (take k xs @ drop (Suc k) xs))"
    by (subst xs) auto
  ultimately show ?thesis by auto
qed

section \<open>Bounded copies of C strings\<close>

text \<open>\<^verbatim>\<open>while (src[i] && i < n) { dst[i] = src[i]; i++; } dst[i] = 0;\<close>  A C string is the
  list of its characters before the terminating NUL, so the loop stops at the end of the list.\<close>

fun copy_name :: "nat \<Rightarrow> string \<Rightarrow> string" where
  "copy_name n [] = []"
| "copy_name 0 (c # cs) = []"
| "copy_name (Suc n) (c # cs) = c # copy_name n cs"

lemma copy_name_take: "copy_name n s = take n s"
  by (induction n s rule: copy_name.induct) auto

lemma length_copy_name [simp]: "length (copy_name n s) \<le> n"
  by (simp add: copy_name_take)

lemma copy_name_short [simp]: "length s \<le> n \<Longrightarrow> copy_name n s = s"
  by (simp add: copy_name_take)

section \<open>Counting active entries of a table\<close>

definition count_if :: "('a \<Rightarrow> bool) \<Rightarrow> 'a list \<Rightarrow> nat" where
  "count_if P xs = length (filter P xs)"

lemma count_if_simps [simp]:
  "count_if P [] = 0"
  "count_if P (x # xs) = (if P x then Suc (count_if P xs) else count_if P xs)"
  by (simp_all add: count_if_def)

lemma count_if_le [simp]: "count_if P xs \<le> length xs"
  by (simp add: count_if_def)

lemma count_if_full: "count_if P xs = length xs \<longleftrightarrow> (\<forall>x \<in> set xs. P x)"
proof (induction xs)
  case Nil
  then show ?case by simp
next
  case (Cons x xs)
  have "count_if P xs \<noteq> Suc (length xs)"
    using count_if_le [of P xs] by linarith
  with Cons show ?case by auto
qed

lemma count_if_update:
  assumes "i < length xs"
  shows "count_if P (xs[i := y]) + (if P (xs ! i) then 1 else 0)
       = count_if P xs + (if P y then 1 else 0)"
  using assms
proof (induction xs arbitrary: i)
  case Nil
  then show ?case by simp
next
  case (Cons x xs)
  show ?case
  proof (cases i)
    case 0
    then show ?thesis by simp
  next
    case (Suc j)
    with Cons show ?thesis by auto
  qed
qed

lemma count_if_set:
  "i < length xs \<Longrightarrow> \<not> P (xs ! i) \<Longrightarrow> P y \<Longrightarrow> count_if P (xs[i := y]) = Suc (count_if P xs)"
  using count_if_update [of i xs P y] by simp

lemma count_if_unset:
  "i < length xs \<Longrightarrow> P (xs ! i) \<Longrightarrow> \<not> P y \<Longrightarrow> Suc (count_if P (xs[i := y])) = count_if P xs"
  using count_if_update [of i xs P y] by simp

lemma count_if_keep:
  "i < length xs \<Longrightarrow> P (xs ! i) = P y \<Longrightarrow> count_if P (xs[i := y]) = count_if P xs"
  using count_if_update [of i xs P y] by auto

end
