(* ===== verification/Heap_Interface.thy ===== *)
theory Heap_Interface
  imports Prelude
begin

text \<open>
  The contract of a heap: \<open>live s\<close> is the set of (pointer, size) pairs handed out and not yet freed.
  A successful allocation adds one block that overlaps no live block; a release removes exactly its
  block.  Proved once from the laws: over any sequence of requests that returns, the live blocks never
  overlap; the extension \<open>heap_allocator\<close> adds that every allocation returns, so every sequence does.
\<close>

definition overlap :: "addr \<times> nat \<Rightarrow> addr \<times> nat \<Rightarrow> bool" where
  "overlap b c \<longleftrightarrow> fst b < fst c + snd c \<and> fst c < fst b + snd b"

definition pairwise_disjoint :: "(addr \<times> nat) set \<Rightarrow> bool" where
  "pairwise_disjoint B \<longleftrightarrow> (\<forall>b \<in> B. \<forall>c \<in> B. b \<noteq> c \<longrightarrow> \<not> overlap b c)"

lemma pairwise_disjointD:
  "pairwise_disjoint B \<Longrightarrow> b \<in> B \<Longrightarrow> c \<in> B \<Longrightarrow> b \<noteq> c \<Longrightarrow> \<not> overlap b c"
  by (simp add: pairwise_disjoint_def)

text \<open>Requests of a client; a release names one of the pointers it got, by position.\<close>

datatype heap_req = HAlloc nat | HFree nat

fun run_heap ::
  "('s \<Rightarrow> nat \<Rightarrow> (addr \<times> 's) option) \<Rightarrow> ('s \<Rightarrow> addr \<Rightarrow> 's) \<Rightarrow> heap_req list \<Rightarrow> 's \<Rightarrow> addr list
     \<Rightarrow> (addr list \<times> 's) option" where
  "run_heap alloc free [] s owned = Some (owned, s)"
| "run_heap alloc free (HAlloc n # rs) s owned =
     (case alloc s n of
        None \<Rightarrow> None
      | Some (p, s') \<Rightarrow> run_heap alloc free rs s' (if p = 0 then owned else p # owned))"
| "run_heap alloc free (HFree k # rs) s owned =
     (if k < length owned
      then run_heap alloc free rs (free s (owned ! k)) (take k owned @ drop (Suc k) owned)
      else run_heap alloc free rs s owned)"

text \<open>The sizes the requests ask for are all below the bound \<open>mx\<close>.\<close>

definition sizes_below :: "nat \<Rightarrow> heap_req list \<Rightarrow> bool" where
  "sizes_below mx rs \<longleftrightarrow> (\<forall>n. HAlloc n \<in> set rs \<longrightarrow> n \<le> mx)"

locale heap_laws =
  fixes alloc :: "'s \<Rightarrow> nat \<Rightarrow> (addr \<times> 's) option"
    and free :: "'s \<Rightarrow> addr \<Rightarrow> 's"
    and live :: "'s \<Rightarrow> (addr \<times> nat) set"
    and inv :: "'s \<Rightarrow> bool"
    and mx :: nat
  assumes alloc_inv: "inv s \<Longrightarrow> n \<le> mx \<Longrightarrow> alloc s n = Some (p, s') \<Longrightarrow> inv s'"
    and alloc_null: "inv s \<Longrightarrow> n \<le> mx \<Longrightarrow> alloc s n = Some (0, s') \<Longrightarrow> live s' = live s"
    and alloc_live: "inv s \<Longrightarrow> n \<le> mx \<Longrightarrow> alloc s n = Some (p, s') \<Longrightarrow> p \<noteq> 0 \<Longrightarrow>
      p \<notin> fst ` live s \<and> (\<exists>k \<ge> n. live s' = insert (p, k) (live s))"
    and free_inv: "inv s \<Longrightarrow> (p, k) \<in> live s \<Longrightarrow> inv (free s p)"
    and free_live: "inv s \<Longrightarrow> (p, k) \<in> live s \<Longrightarrow> live (free s p) = live s - {(p, k)}"
    and disjoint: "inv s \<Longrightarrow> pairwise_disjoint (live s)"
    and live_unique: "inv s \<Longrightarrow> (p, k) \<in> live s \<Longrightarrow> (p, j) \<in> live s \<Longrightarrow> k = j"
begin

lemma alloc_no_overlap:
  assumes "inv s" and "n \<le> mx" and "alloc s n = Some (p, s')" and "p \<noteq> 0"
  shows "\<exists>k \<ge> n. (p, k) \<in> live s' \<and> (\<forall>b \<in> live s. \<not> overlap (p, k) b)"
proof -
  from alloc_live [OF assms] obtain k where p: "p \<notin> fst ` live s" and k: "k \<ge> n"
    and l: "live s' = insert (p, k) (live s)" by auto
  have d: "pairwise_disjoint (live s')" using disjoint alloc_inv assms by blast
  have "\<not> overlap (p, k) b" if "b \<in> live s" for b
  proof (rule pairwise_disjointD [OF d])
    show "(p, k) \<noteq> b" using p that by force
  qed (use that l in auto)
  with k l show ?thesis by blast
qed

text \<open>The two kinds of request keep what a client knows of the pointers it owns.\<close>

lemma owned_alloc:
  assumes "inv s" and "n \<le> mx" and al: "alloc s n = Some (p, t)"
    and o: "distinct owned" "set owned \<subseteq> fst ` live s" and o': "owned' = (if p = 0 then owned else p # owned)"
  shows "inv t \<and> distinct owned' \<and> set owned' \<subseteq> fst ` live t"
proof (cases "p = 0")
  case True
  with alloc_null [OF assms(1,2)] alloc_inv [OF assms(1-3)] al o o' show ?thesis by simp
next
  case False
  from alloc_live [OF assms(1-3) False] alloc_inv [OF assms(1-3)] o o' False
  show ?thesis by (force simp: image_iff)
qed

lemma owned_free:
  assumes "inv s" and k: "k < length owned" and o: "distinct owned" "set owned \<subseteq> fst ` live s"
    and o': "owned' = take k owned @ drop (Suc k) owned"
  shows "inv (free s (owned ! k)) \<and> distinct owned' \<and> set owned' \<subseteq> fst ` live (free s (owned ! k))"
proof -
  let ?p = "owned ! k"
  from k have "?p \<in> fst ` live s" using o(2) nth_mem by blast
  then obtain j where j: "(?p, j) \<in> live s" by force
  note d = distinct_drop_nth [OF o(1) k]
  have "q \<in> fst ` (live s - {(?p, j)})" if q: "q \<in> set owned'" for q
  proof -
    from q d o' have "q \<noteq> ?p" "q \<in> set owned" by auto
    with o(2) obtain i where "(q, i) \<in> live s" by auto
    with \<open>q \<noteq> ?p\<close> show ?thesis by (intro image_eqI [of _ _ "(q, i)"]) auto
  qed
  then have "set owned' \<subseteq> fst ` live (free s ?p)" using free_live [OF assms(1) j] by auto
  with free_inv [OF assms(1) j] d o' show ?thesis by simp
qed

lemma run_heap_returned:
  assumes "inv s" and "sizes_below mx rs" and "distinct owned" and "set owned \<subseteq> fst ` live s"
    and "run_heap alloc free rs s owned = Some (owned', s')"
  shows "inv s' \<and> distinct owned' \<and> set owned' \<subseteq> fst ` live s'"
  using assms
proof (induction rs arbitrary: s owned)
  case Nil
  then show ?case by auto
next
  case (Cons r rs)
  from Cons.prems(2) have rs: "sizes_below mx rs" by (auto simp: sizes_below_def)
  show ?case
  proof (cases r)
    case (HAlloc n)
    with Cons.prems(2) have n: "n \<le> mx" by (auto simp: sizes_below_def)
    from Cons.prems(5) HAlloc obtain p t where al: "alloc s n = Some (p, t)" by (auto split: option.splits)
    note step = owned_alloc [OF Cons.prems(1) n al Cons.prems(3,4) refl]
    have "run_heap alloc free rs t (if p = 0 then owned else p # owned) = Some (owned', s')"
      using Cons.prems(5) HAlloc al by simp
    from Cons.IH [OF _ rs _ _ this] step show ?thesis by blast
  next
    case (HFree k)
    show ?thesis
    proof (cases "k < length owned")
      case True
      note step = owned_free [OF Cons.prems(1) True Cons.prems(3,4) refl]
      have "run_heap alloc free rs (free s (owned ! k)) (take k owned @ drop (Suc k) owned) = Some (owned', s')"
        using Cons.prems(5) HFree True by simp
      from Cons.IH [OF _ rs _ _ this] step show ?thesis by blast
    next
      case False
      with Cons.prems(5) HFree have "run_heap alloc free rs s owned = Some (owned', s')" by simp
      from Cons.IH [OF Cons.prems(1) rs Cons.prems(3,4) this] show ?thesis .
    qed
  qed
qed

end

locale heap_allocator = heap_laws +
  assumes alloc_total: "inv s \<Longrightarrow> n \<le> mx \<Longrightarrow> \<exists>p s'. alloc s n = Some (p, s')"
begin

lemma run_heap_total:
  assumes "inv s" and "sizes_below mx rs" and "distinct owned" and "set owned \<subseteq> fst ` live s"
  shows "\<exists>owned' s'. run_heap alloc free rs s owned = Some (owned', s')"
  using assms
proof (induction rs arbitrary: s owned)
  case Nil
  then show ?case by auto
next
  case (Cons r rs)
  from Cons.prems(2) have rs: "sizes_below mx rs" by (auto simp: sizes_below_def)
  show ?case
  proof (cases r)
    case (HAlloc n)
    with Cons.prems(2) have n: "n \<le> mx" by (auto simp: sizes_below_def)
    obtain p t where al: "alloc s n = Some (p, t)" using alloc_total Cons.prems(1) n by blast
    from owned_alloc [OF Cons.prems(1) n al Cons.prems(3,4) refl] Cons.IH [OF _ rs]
    have "\<exists>owned' s'. run_heap alloc free rs t (if p = 0 then owned else p # owned) = Some (owned', s')"
      by blast
    then show ?thesis using HAlloc al by simp
  next
    case (HFree k)
    show ?thesis
    proof (cases "k < length owned")
      case True
      from owned_free [OF Cons.prems(1) True Cons.prems(3,4) refl] Cons.IH [OF _ rs]
      have "\<exists>owned' s'. run_heap alloc free rs (free s (owned ! k)) (take k owned @ drop (Suc k) owned) =
        Some (owned', s')" by blast
      then show ?thesis using HFree True by simp
    next
      case False
      with Cons.IH [OF Cons.prems(1) rs Cons.prems(3,4)] HFree show ?thesis by simp
    qed
  qed
qed

lemma run_heap_owned:
  assumes "inv s" and "sizes_below mx rs" and "distinct owned" and "set owned \<subseteq> fst ` live s"
  shows "\<exists>owned' s'. run_heap alloc free rs s owned = Some (owned', s') \<and> inv s' \<and>
     distinct owned' \<and> set owned' \<subseteq> fst ` live s'"
  using run_heap_total [OF assms] run_heap_returned [OF assms] by blast

end

end
