(* ===== verification/KHeap.thy ===== *)
theory KHeap
  imports Heap_Interface
begin

text \<open>
  The kernel heap, \<^verbatim>\<open>kernel/mm/heap.cpp\<close>.  The segment headers live in the heap memory and are
  linked by pointers, so the memory is an explicit store: \<open>hp_mem h a\<close> is what a
  \<^verbatim>\<open>HeapSegmentHeader*\<close> with value \<open>a\<close> reads.  The linked list is walked the way the code walks
  it; the abstract specification is the list of segments that tile the heap, and the refinement
  theorems relate the two.  \<^verbatim>\<open>heapLock\<close> makes each operation atomic (theory \<open>Locks\<close>).
\<close>

section \<open>State\<close>

record HeapSegmentHeader =
  hs_length :: nat
  hs_next :: addr
  hs_prev :: addr
  hs_free :: bool
  hs_magic :: nat

type_synonym heap_mem = "addr \<Rightarrow> HeapSegmentHeader"

record kheap =
  hp_mem :: heap_mem
  firstSegment :: addr
  heapStart :: addr
  heapSize :: nat

text \<open>\<^verbatim>\<open>sizeof(HeapSegmentHeader)\<close>: three 8-byte words, a \<^verbatim>\<open>bool\<close>, 3 bytes of padding and the
  \<^verbatim>\<open>uint32_t\<close> magic.\<close>

abbreviation HDR :: nat where
  "HDR \<equiv> 32"

abbreviation MAGIC :: nat where
  "MAGIC \<equiv> 0xC0FFEE"

definition upd :: "heap_mem \<Rightarrow> addr \<Rightarrow> (HeapSegmentHeader \<Rightarrow> HeapSegmentHeader) \<Rightarrow> heap_mem" where
  "upd m a f = m(a := f (m a))"

section \<open>Operations\<close>

definition kheap_Init :: "heap_mem \<Rightarrow> addr \<Rightarrow> nat \<Rightarrow> kheap" where
  "kheap_Init m startAddress sz =
     \<lparr>hp_mem = m(startAddress := \<lparr>hs_length = sub64 sz HDR, hs_next = 0, hs_prev = 0,
                                  hs_free = True, hs_magic = MAGIC\<rparr>),
      firstSegment = startAddress, heapStart = startAddress, heapSize = sz\<rparr>"

text \<open>\<^verbatim>\<open>(size + 15) & ~15\<close>\<close>

definition align16 :: "nat \<Rightarrow> nat" where
  "align16 n = add64 n 15 div 16 * 16"

text \<open>The split of \<^verbatim>\<open>Allocate\<close>, write by write (the new header may alias the old one when
  \<^verbatim>\<open>current + 32 + size\<close> wraps).\<close>

definition split_segment :: "heap_mem \<Rightarrow> addr \<Rightarrow> nat \<Rightarrow> heap_mem" where
  "split_segment m current sz =
     (let newSegment = add64 (add64 current HDR) sz;
          m1 = upd m newSegment (\<lambda>h. h\<lparr>
                 hs_length := sub64 (sub64 (hs_length (m current)) sz) HDR,
                 hs_free := True, hs_magic := MAGIC,
                 hs_next := hs_next (m current), hs_prev := current\<rparr>);
          m2 = (if hs_next (m1 current) \<noteq> 0
                then upd m1 (hs_next (m1 current)) (\<lambda>h. h\<lparr>hs_prev := newSegment\<rparr>) else m1)
      in upd m2 current (\<lambda>h. h\<lparr>hs_length := sz, hs_next := newSegment, hs_free := False\<rparr>))"

partial_function (option) alloc_loop :: "heap_mem \<Rightarrow> nat \<Rightarrow> addr \<Rightarrow> (addr \<times> heap_mem) option" where
  "alloc_loop m sz current =
     (if current = 0 then Some (0, m)
      else if hs_free (m current) \<and> hs_length (m current) = sz
      then Some (add64 current HDR, upd m current (\<lambda>h. h\<lparr>hs_free := False\<rparr>))
      else if hs_free (m current) \<and> hs_length (m current) > add64 sz HDR
      then Some (add64 current HDR, split_segment m current sz)
      else alloc_loop m sz (hs_next (m current)))"

definition kheap_Allocate :: "kheap \<Rightarrow> nat \<Rightarrow> (addr \<times> kheap) option" where
  "kheap_Allocate h sz0 =
     (let sz = align16 sz0
      in if sz = 0 then Some (0, h)
         else map_option (\<lambda>(p, m). (p, h\<lparr>hp_mem := m\<rparr>)) (alloc_loop (hp_mem h) sz (firstSegment h)))"

definition CombineFreeSegments :: "heap_mem \<Rightarrow> addr \<Rightarrow> addr \<Rightarrow> heap_mem" where
  "CombineFreeSegments m a b =
     (if a = 0 \<or> b = 0 then m
      else if \<not> hs_free (m a) \<or> \<not> hs_free (m b) then m
      else if hs_next (m a) \<noteq> b then m
      else
        let m1 = upd m a (\<lambda>h. h\<lparr>hs_length := add64 (hs_length h) (add64 (hs_length (m b)) HDR),
                                hs_next := hs_next (m b)\<rparr>)
        in if hs_next (m1 b) \<noteq> 0 then upd m1 (hs_next (m1 b)) (\<lambda>h. h\<lparr>hs_prev := a\<rparr>) else m1)"

definition free_header :: "heap_mem \<Rightarrow> addr \<Rightarrow> heap_mem" where
  "free_header m header =
     (if hs_magic (m header) \<noteq> MAGIC then m
      else
        let m1 = upd m header (\<lambda>h. h\<lparr>hs_free := True\<rparr>);
            n = hs_next (m1 header);
            m2 = (if n \<noteq> 0 \<and> hs_free (m1 n) then CombineFreeSegments m1 header n else m1);
            p = hs_prev (m2 header)
        in if p \<noteq> 0 \<and> hs_free (m2 p) then CombineFreeSegments m2 p header else m2)"

definition kheap_Free :: "kheap \<Rightarrow> addr \<Rightarrow> kheap" where
  "kheap_Free h ptr =
     (if ptr = 0 then h else h\<lparr>hp_mem := free_header (hp_mem h) (sub64 ptr HDR)\<rparr>)"

definition kheap_GetSize :: "kheap \<Rightarrow> nat" where
  "kheap_GetSize h = heapSize h"

definition kheap_GetBase :: "kheap \<Rightarrow> addr" where
  "kheap_GetBase h = heapStart h"

partial_function (option) sum_free :: "heap_mem \<Rightarrow> nat \<Rightarrow> addr \<Rightarrow> nat option" where
  "sum_free m acc current =
     (if current = 0 then Some acc
      else sum_free m (if hs_free (m current) then add64 acc (hs_length (m current)) else acc)
             (hs_next (m current)))"

definition kheap_GetFree :: "kheap \<Rightarrow> nat option" where
  "kheap_GetFree h = sum_free (hp_mem h) 0 (firstSegment h)"

definition kheap_GetUsed :: "kheap \<Rightarrow> nat option" where
  "kheap_GetUsed h = map_option (\<lambda>f. sub64 (sub64 (heapSize h) f) HDR) (kheap_GetFree h)"

definition kmalloc :: "kheap \<Rightarrow> nat \<Rightarrow> (addr \<times> kheap) option" where
  "kmalloc h sz = kheap_Allocate h sz"

definition kfree :: "kheap \<Rightarrow> addr \<Rightarrow> kheap" where
  "kfree h ptr = kheap_Free h ptr"

section \<open>The abstract heap: segments that tile the area\<close>

record seg =
  sg_addr :: addr
  sg_len :: nat
  sg_free :: bool

abbreviation mk_seg :: "addr \<Rightarrow> nat \<Rightarrow> bool \<Rightarrow> seg" where
  "mk_seg a l f \<equiv> \<lparr>sg_addr = a, sg_len = l, sg_free = f\<rparr>"

fun alloc_segs :: "nat \<Rightarrow> seg list \<Rightarrow> addr \<times> seg list" where
  "alloc_segs sz [] = (0, [])"
| "alloc_segs sz (s # ss) =
     (if sg_free s \<and> sg_len s = sz then (sg_addr s + HDR, s\<lparr>sg_free := False\<rparr> # ss)
      else if sg_free s \<and> sg_len s > sz + HDR
      then (sg_addr s + HDR,
            mk_seg (sg_addr s) sz False
              # mk_seg (sg_addr s + HDR + sz) (sg_len s - sz - HDR) True # ss)
      else let (p, ss') = alloc_segs sz ss in (p, s # ss'))"

text \<open>Freeing marks the segment and merges every pair of neighbours that are both free.\<close>

fun coalesce :: "seg list \<Rightarrow> seg list" where
  "coalesce [] = []"
| "coalesce (s # ss) =
     (case coalesce ss of
        [] \<Rightarrow> [s]
      | t # ts \<Rightarrow> if sg_free s \<and> sg_free t
                  then s\<lparr>sg_len := sg_len s + HDR + sg_len t\<rparr> # ts
                  else s # t # ts)"

definition free_segs :: "addr \<Rightarrow> seg list \<Rightarrow> seg list" where
  "free_segs a ss = coalesce (map (\<lambda>s. if sg_addr s = a then s\<lparr>sg_free := True\<rparr> else s) ss)"

text \<open>How a list of segments is laid out in the memory: from the predecessor \<open>p\<close> to the
  address \<open>n\<close> that follows.\<close>

definition first_addr :: "seg list \<Rightarrow> addr \<Rightarrow> addr" where
  "first_addr ss n = (case ss of [] \<Rightarrow> n | s # _ \<Rightarrow> sg_addr s)"

definition last_addr :: "addr \<Rightarrow> seg list \<Rightarrow> addr" where
  "last_addr p ss = (if ss = [] then p else sg_addr (last ss))"

fun chain :: "heap_mem \<Rightarrow> addr \<Rightarrow> seg list \<Rightarrow> addr \<Rightarrow> bool" where
  "chain m p [] n = True"
| "chain m p (s # ss) n =
     (m (sg_addr s) = \<lparr>hs_length = sg_len s, hs_next = first_addr ss n, hs_prev = p,
                       hs_free = sg_free s, hs_magic = MAGIC\<rparr>
      \<and> chain m (sg_addr s) ss n)"

fun tiles :: "addr \<Rightarrow> addr \<Rightarrow> seg list \<Rightarrow> bool" where
  "tiles a e [] = (a = e)"
| "tiles a e (s # ss) = (sg_addr s = a \<and> 16 dvd sg_len s \<and> tiles (a + HDR + sg_len s) e ss)"

fun no_free_pair :: "seg list \<Rightarrow> bool" where
  "no_free_pair (s # t # ss) = (\<not> (sg_free s \<and> sg_free t) \<and> no_free_pair (t # ss))"
| "no_free_pair _ = True"

definition heap_ok :: "kheap \<Rightarrow> seg list \<Rightarrow> bool" where
  "heap_ok h ss \<longleftrightarrow>
     ss \<noteq> [] \<and> 0 < heapStart h \<and> 16 dvd heapStart h \<and> heapStart h + heapSize h < u64_limit \<and>
     firstSegment h = heapStart h \<and> chain (hp_mem h) 0 ss 0 \<and>
     tiles (heapStart h) (heapStart h + heapSize h) ss \<and> no_free_pair ss"

section \<open>Layout lemmas\<close>

lemma first_addr_simps [simp]:
  "first_addr [] n = n" "first_addr (s # ss) n = sg_addr s"
  by (simp_all add: first_addr_def)

lemma last_addr_simps [simp]:
  "last_addr p [] = p" "last_addr p (s # ss) = last_addr (sg_addr s) ss"
  "last_addr p (ss @ [s]) = sg_addr s"
  by (simp_all add: last_addr_def)

lemma first_addr_append [simp]: "first_addr (xs @ ys) n = first_addr xs (first_addr ys n)"
  by (cases xs) simp_all

lemma chain_append [simp]:
  "chain m p (xs @ ys) n \<longleftrightarrow> chain m p xs (first_addr ys n) \<and> chain m (last_addr p xs) ys n"
  by (induction xs arbitrary: p) auto

lemma chain_upd [simp]:
  "a \<notin> sg_addr ` set ss \<Longrightarrow> chain (upd m a f) p ss n = chain m p ss n"
  by (induction ss arbitrary: p) (auto simp: upd_def)

lemma chain_cong: "(\<And>s. s \<in> set ss \<Longrightarrow> m' (sg_addr s) = m (sg_addr s)) \<Longrightarrow> chain m' p ss n = chain m p ss n"
  by (induction ss arbitrary: p) auto

lemma upd_apply [simp]: "upd m a f x = (if x = a then f (m a) else m x)"
  by (simp add: upd_def)

lemma tiles_append [simp]: "tiles a e (xs @ ys) \<longleftrightarrow> (\<exists>b. tiles a b xs \<and> tiles b e ys)"
  by (induction xs arbitrary: a) auto

lemma tiles_le: "tiles a e ss \<Longrightarrow> a \<le> e"
  by (induction ss arbitrary: a) fastforce+

lemma tiles_bounds:
  "tiles a e ss \<Longrightarrow> s \<in> set ss \<Longrightarrow> a \<le> sg_addr s \<and> sg_addr s + HDR + sg_len s \<le> e"
  by (induction ss arbitrary: a) (fastforce dest: tiles_le)+

lemma tiles_distinct: "tiles a e ss \<Longrightarrow> distinct (map sg_addr ss)"
proof (induction ss arbitrary: a)
  case Nil
  then show ?case by simp
next
  case (Cons s ss)
  then have t: "tiles (a + HDR + sg_len s) e ss" and a: "sg_addr s = a" by auto
  have "\<forall>u \<in> set ss. sg_addr u \<noteq> a" using tiles_bounds [OF t] by force
  with Cons.IH [OF t] a show ?case by auto
qed

lemma tiles_disjoint:
  "tiles a e ss \<Longrightarrow> s \<in> set ss \<Longrightarrow> t \<in> set ss \<Longrightarrow> sg_addr s < sg_addr t \<Longrightarrow>
   sg_addr s + HDR + sg_len s \<le> sg_addr t"
proof (induction ss arbitrary: a)
  case Nil
  then show ?case by simp
next
  case (Cons u us)
  then have us: "tiles (a + HDR + sg_len u) e us" and a: "sg_addr u = a" by auto
  show ?case
  proof (cases "s = u")
    case True
    with Cons.prems(3,4) have "t \<in> set us" by auto
    with tiles_bounds [OF us] True a show ?thesis by force
  next
    case False
    with Cons.prems(2) have s: "s \<in> set us" by simp
    with tiles_bounds [OF us s] a Cons.prems(3,4) have "t \<in> set us" by auto
    with Cons.IH [OF us s] Cons.prems(4) show ?thesis by blast
  qed
qed

lemma tiles_aligned: "tiles a e ss \<Longrightarrow> 16 dvd a \<Longrightarrow> s \<in> set ss \<Longrightarrow> 16 dvd sg_addr s"
proof (induction ss arbitrary: a)
  case Nil
  then show ?case by simp
next
  case (Cons u us)
  have "16 dvd a + HDR + sg_len u"
  proof -
    have "(16::nat) dvd 32" by (simp add: dvd_def)
    with Cons.prems show ?thesis by (simp add: dvd_add)
  qed
  with Cons show ?case by auto
qed

section \<open>Allocation refines the abstract heap\<close>

lemma first_addr_alloc [simp]: "first_addr (snd (alloc_segs sz ss)) n = first_addr ss n"
  by (cases ss) (auto simp: split_beta)

lemma tiles_alloc: "tiles a e ss \<Longrightarrow> 16 dvd sz \<Longrightarrow> tiles a e (snd (alloc_segs sz ss))"
proof (induction ss arbitrary: a)
  case Nil
  then show ?case by simp
next
  case (Cons s ss)
  show ?case
  proof (cases "sg_free s \<and> sg_len s > sz + HDR \<and> sg_len s \<noteq> sz")
    case True
    have "(16::nat) dvd 32" by (simp add: dvd_def)
    moreover have "16 dvd sg_len s" using Cons.prems by simp
    ultimately have "16 dvd sg_len s - sz - HDR" using Cons.prems(2) by (intro dvd_diff_nat) auto
    with True Cons.prems show ?thesis by (auto simp: add.assoc)
  next
    case False
    with Cons show ?thesis by (auto simp: split_beta)
  qed
qed

lemma split_segment_chain:
  assumes "chain m p (s # ss) 0" and "tiles (sg_addr s) e (s # ss)" and "e < u64_limit"
    and "0 < sg_addr s" and "sz + HDR < sg_len s"
  shows "chain (split_segment m (sg_addr s) sz) p
      (mk_seg (sg_addr s) sz False # mk_seg (sg_addr s + HDR + sz) (sg_len s - sz - HDR) True # ss) 0
    \<and> (\<forall>x < sg_addr s. split_segment m (sg_addr s) sz x = m x)"
proof -
  let ?a = "sg_addr s" and ?n = "sg_addr s + HDR + sz"
  from assms(2) have t: "tiles (?a + HDR + sg_len s) e ss" by simp
  from tiles_le [OF t] assms(3,5) have nw: "add64 (add64 ?a HDR) sz = ?n"
    "sub64 (sub64 (sg_len s) sz) HDR = sg_len s - sz - HDR"
    by (simp_all add: add64_eq sub64_eq)
  have hd: "hs_next (m ?a) = first_addr ss 0" "hs_length (m ?a) = sg_len s" using assms(1) by auto
  have far: "?n < sg_addr u" if "u \<in> set ss" for u
    using tiles_bounds [OF t that] assms(5) by simp
  then have out: "?n \<notin> sg_addr ` set ss" "?a \<notin> sg_addr ` set ss" by force+
  show ?thesis
  proof (cases ss)
    case Nil
    then show ?thesis using assms(1)
      by (auto simp: split_segment_def Let_def nw hd)
  next
    case (Cons u us)
    with far [of u] tiles_distinct [OF t] assms(4)
    have u: "?n < sg_addr u" "0 < sg_addr u" "sg_addr u \<notin> sg_addr ` set us"
      by auto
    from out Cons have out': "?n \<notin> sg_addr ` set us" "?a \<notin> sg_addr ` set us" by auto
    show ?thesis using assms(1) Cons u out'
      by (auto simp: split_segment_def Let_def nw hd)
  qed
qed

lemma alloc_loop_refines:
  assumes "chain m p ss 0" and "tiles a e ss" and "0 < a" and "e < u64_limit"
    and "sz + HDR < u64_limit"
  shows "\<exists>m'. alloc_loop m sz (first_addr ss 0) = Some (fst (alloc_segs sz ss), m') \<and>
    chain m' p (snd (alloc_segs sz ss)) 0 \<and> (\<forall>x < a. m' x = m x)"
  using assms(1-3)
proof (induction ss arbitrary: a p)
  case Nil
  then show ?case by (subst alloc_loop.simps) simp
next
  case (Cons s ss)
  let ?a = "sg_addr s"
  from Cons.prems have a: "?a = a" and t: "tiles (a + HDR + sg_len s) e ss"
    and h: "hs_length (m ?a) = sg_len s" "hs_free (m ?a) = sg_free s"
      "hs_next (m ?a) = first_addr ss 0" and c: "chain m ?a ss 0" by auto
  from tiles_le [OF t] assms(4) have nw: "add64 ?a HDR = ?a + HDR" "a + HDR + sg_len s < u64_limit"
    by (simp_all add: add64_eq a)
  have nw2: "add64 sz HDR = sz + HDR" using assms(5) by (simp add: add64_eq)
  have step: "alloc_loop m sz ?a =
     (if sg_free s \<and> sg_len s = sz then Some (?a + HDR, upd m ?a (\<lambda>h. h\<lparr>hs_free := False\<rparr>))
      else if sg_free s \<and> sg_len s > sz + HDR then Some (?a + HDR, split_segment m ?a sz)
      else alloc_loop m sz (first_addr ss 0))"
  proof -
    have "?a \<noteq> 0" using Cons.prems(3) a by simp
    then show ?thesis by (subst alloc_loop.simps) (simp add: h nw nw2)
  qed
  have out: "?a \<notin> sg_addr ` set ss" using tiles_distinct [OF Cons.prems(2)] by auto
  consider (exact) "sg_free s \<and> sg_len s = sz" | (split) "sg_free s \<and> sg_len s > sz + HDR"
    | (skip) "\<not> (sg_free s \<and> sg_len s = sz)" "\<not> (sg_free s \<and> sg_len s > sz + HDR)" by blast
  then show ?case
  proof cases
    case exact
    with step Cons.prems out a show ?thesis by auto
  next
    case split
    with split_segment_chain [of m p s ss e sz] Cons.prems assms(4) a step show ?thesis by auto
  next
    case skip
    have a': "0 < a + HDR + sg_len s" using Cons.prems(3) by simp
    obtain m' where m': "alloc_loop m sz (first_addr ss 0) = Some (fst (alloc_segs sz ss), m')"
      "chain m' ?a (snd (alloc_segs sz ss)) 0" "\<forall>x < a + HDR + sg_len s. m' x = m x"
      using Cons.IH [OF c t a'] by blast
    have "m' ?a = m ?a" using m'(3) a by simp
    with m' step skip Cons.prems a show ?thesis by (auto simp: split_beta)
  qed
qed

lemma no_free_pair_Cons: "no_free_pair (s # ss) \<longleftrightarrow>
    no_free_pair ss \<and> (\<forall>t ts. ss = t # ts \<longrightarrow> \<not> (sg_free s \<and> sg_free t))"
  by (cases ss) auto

lemma alloc_segs_hd_free:
  "snd (alloc_segs sz ss) = t # ts \<Longrightarrow> sg_free t \<Longrightarrow> \<exists>us. ss = t # us"
  by (cases ss) (auto simp: split_beta split: if_splits)

lemma no_free_pair_alloc: "no_free_pair ss \<Longrightarrow> no_free_pair (snd (alloc_segs sz ss))"
proof (induction ss)
  case Nil
  then show ?case by simp
next
  case (Cons s ss)
  then show ?case
    by (auto simp: no_free_pair_Cons split_beta dest!: alloc_segs_hd_free)
qed

section \<open>Release refines the abstract heap\<close>

lemma CombineFreeSegments_chain:
  assumes "chain m p (us @ u # v # ws) 0" and "distinct (map sg_addr (us @ u # v # ws))"
    and "0 \<notin> sg_addr ` set (us @ u # v # ws)" and "sg_free u" and "sg_free v"
    and "sg_len u + sg_len v + HDR < u64_limit"
  shows "chain (CombineFreeSegments m (sg_addr u) (sg_addr v)) p
           (us @ u\<lparr>sg_len := sg_len u + HDR + sg_len v\<rparr> # ws) 0"
proof -
  let ?a = "sg_addr u" and ?b = "sg_addr v"
  have nw: "add64 (sg_len u) (add64 (sg_len v) HDR) = sg_len u + HDR + sg_len v"
    using assms(6) by (simp add: add64_eq)
  from assms(1) have hd: "hs_free (m ?a)" "hs_free (m ?b)" "hs_next (m ?a) = ?b"
    "hs_length (m ?a) = sg_len u" "hs_length (m ?b) = sg_len v" "hs_next (m ?b) = first_addr ws 0"
    using assms(4,5) by auto
  show ?thesis
  proof (cases ws)
    case Nil
    with assms nw hd show ?thesis by (auto simp: CombineFreeSegments_def Let_def)
  next
    case (Cons w ws')
    with assms nw hd show ?thesis by (auto simp: CombineFreeSegments_def Let_def)
  qed
qed

lemma coalesce_id: "no_free_pair ss \<Longrightarrow> coalesce ss = ss"
  by (induction ss) (auto simp: no_free_pair_Cons split: list.splits)

lemma coalesce_hd_free: "coalesce (s # ss) = t # ts \<Longrightarrow> sg_free t = sg_free s"
  by (auto split: list.splits if_splits)

lemma no_free_pair_coalesce: "no_free_pair (coalesce ss)"
  by (induction ss) (auto simp: no_free_pair_Cons split: list.splits if_splits)

lemma coalesce_append: "coalesce (xs @ ys) = coalesce (xs @ coalesce ys)"
  by (induction xs) (simp_all add: coalesce_id no_free_pair_coalesce)

lemma no_free_pair_appendD: "no_free_pair (xs @ ys) \<Longrightarrow> no_free_pair xs \<and> no_free_pair ys"
  by (induction xs) (auto simp: no_free_pair_Cons)

lemma no_free_pair_snoc:
  "no_free_pair (xs @ [x]) \<Longrightarrow> no_free_pair (y # ys) \<Longrightarrow> sg_free y = sg_free x \<Longrightarrow>
   no_free_pair (xs @ y # ys)"
proof (induction xs)
  case Nil
  then show ?case by simp
next
  case (Cons z zs)
  show ?case
  proof (cases zs)
    case Nil
    from Cons.prems Nil have "\<not> (sg_free z \<and> sg_free y)" by simp
    with Cons.prems(2) Nil show ?thesis by simp
  next
    case (Cons w ws)
    with Cons.prems(1) have "no_free_pair (zs @ [x])" "\<not> (sg_free z \<and> sg_free w)" by simp_all
    with Cons.IH Cons.prems(2,3) have "no_free_pair (zs @ y # ys)" by blast
    with \<open>\<not> (sg_free z \<and> sg_free w)\<close> Cons show ?thesis by simp
  qed
qed

text \<open>What \<^verbatim>\<open>Free\<close> leaves when the segment is \<open>s\<close>, in the two steps of the code: first the merge with
  the right neighbour, then with the left one.\<close>

definition merge_right :: "seg \<Rightarrow> seg list \<Rightarrow> seg list" where
  "merge_right s ys =
     (case ys of
        y # ys' \<Rightarrow> if sg_free y then s\<lparr>sg_len := sg_len s + HDR + sg_len y\<rparr> # ys' else s # ys
      | [] \<Rightarrow> [s])"

definition merge_left :: "seg list \<Rightarrow> seg list \<Rightarrow> seg list" where
  "merge_left xs zs =
     (case zs of
        [] \<Rightarrow> xs
      | z # zs' \<Rightarrow>
          if xs \<noteq> [] \<and> sg_free (last xs)
          then butlast xs @ (last xs)\<lparr>sg_len := sg_len (last xs) + HDR + sg_len z\<rparr> # zs'
          else xs @ zs)"

lemma merge_right_coalesce:
  "no_free_pair ys \<Longrightarrow> sg_free s \<Longrightarrow> coalesce (s # ys) = merge_right s ys"
  by (auto simp: merge_right_def coalesce_id no_free_pair_Cons split: list.splits)

lemma merge_right_shape:
  assumes "no_free_pair ys" and "sg_free s"
  obtains z zs where "merge_right s ys = z # zs" "sg_addr z = sg_addr s" "sg_free z"
    "no_free_pair (z # zs)"
proof -
  have n: "no_free_pair (merge_right s ys)"
    using merge_right_coalesce [OF assms] no_free_pair_coalesce by metis
  show thesis
  proof (cases ys)
    case Nil
    with that [of s "[]"] assms(2) show thesis by (simp add: merge_right_def)
  next
    case (Cons y ys')
    with that [of "s\<lparr>sg_len := sg_len s + HDR + sg_len y\<rparr>" ys'] that [of s ys] assms(2) n
    show thesis by (cases "sg_free y") (simp_all add: merge_right_def)
  qed
qed

lemma merge_left_coalesce:
  assumes "no_free_pair xs" and "no_free_pair (z # zs)" and "sg_free z"
  shows "coalesce (xs @ z # zs) = merge_left xs (z # zs)"
proof (cases "xs \<noteq> [] \<and> sg_free (last xs)")
  case True
  then obtain us u where xs: "xs = us @ [u]" and u: "sg_free u" by (metis append_butlast_last_id)
  let ?v = "u\<lparr>sg_len := sg_len u + HDR + sg_len z\<rparr>"
  have "coalesce (u # z # zs) = ?v # zs"
    using u assms(2,3) coalesce_id [OF assms(2)] by simp
  then have "coalesce (xs @ z # zs) = coalesce (us @ ?v # zs)"
    using coalesce_append [of us "u # z # zs"] xs by simp
  moreover have "no_free_pair (?v # zs)"
    using assms(2,3) by (auto simp: no_free_pair_Cons)
  then have "no_free_pair (us @ ?v # zs)"
    using no_free_pair_snoc [of us u ?v zs] assms(1) xs by simp
  ultimately show ?thesis using True xs by (simp add: merge_left_def coalesce_id)
next
  case False
  have "no_free_pair (xs @ z # zs)"
  proof (cases xs rule: rev_cases)
    case Nil
    with assms(2) show ?thesis by simp
  next
    case (snoc us u)
    with False assms(2) have "no_free_pair (u # z # zs)" by simp
    with no_free_pair_snoc [of us u u "z # zs"] assms(1) snoc show ?thesis by simp
  qed
  with False show ?thesis by (auto simp: merge_left_def coalesce_id)
qed

lemma free_segs_split:
  assumes "no_free_pair (xs @ s # ys)" and "distinct (map sg_addr (xs @ s # ys))"
  shows "free_segs (sg_addr s) (xs @ s # ys) = merge_left xs (merge_right (s\<lparr>sg_free := True\<rparr>) ys)"
proof -
  let ?f = "\<lambda>t. if sg_addr t = sg_addr s then t\<lparr>sg_free := True\<rparr> else t"
  from assms(2) have d: "sg_addr s \<notin> sg_addr ` set xs" "sg_addr s \<notin> sg_addr ` set ys" by simp_all
  have "?f t = t" if "t \<in> set xs" for t using d(1) imageI [OF that, of sg_addr] by (metis (full_types))
  then have mx: "map ?f xs = xs" by (rule map_idI)
  have "?f t = t" if "t \<in> set ys" for t using d(2) imageI [OF that, of sg_addr] by (metis (full_types))
  then have my: "map ?f ys = ys" by (rule map_idI)
  from mx my
  have "free_segs (sg_addr s) (xs @ s # ys) = coalesce (xs @ s\<lparr>sg_free := True\<rparr> # ys)"
    by (simp add: free_segs_def)
  also have "\<dots> = coalesce (xs @ coalesce (s\<lparr>sg_free := True\<rparr> # ys))" by (rule coalesce_append)
  also have "coalesce (s\<lparr>sg_free := True\<rparr> # ys) = merge_right (s\<lparr>sg_free := True\<rparr>) ys"
    using no_free_pair_appendD [OF assms(1)] by (intro merge_right_coalesce) (auto simp: no_free_pair_Cons)
  finally have eq: "free_segs (sg_addr s) (xs @ s # ys)
      = coalesce (xs @ merge_right (s\<lparr>sg_free := True\<rparr>) ys)" .
  from no_free_pair_appendD [OF assms(1)] have "no_free_pair xs" "no_free_pair ys"
    by (auto simp: no_free_pair_Cons)
  then show ?thesis
  proof -
    assume x: "no_free_pair xs" and y: "no_free_pair ys"
    have "sg_free (s\<lparr>sg_free := True\<rparr>)" by simp
    from merge_right_shape [OF y this] obtain z zs where
      z: "merge_right (s\<lparr>sg_free := True\<rparr>) ys = z # zs" "sg_free z" "no_free_pair (z # zs)" by blast
    show ?thesis using eq merge_left_coalesce [OF x z(3,2)] by (simp only: z(1))
  qed
qed

lemma tiles_merge_right:
  "tiles a e (s # ys) \<Longrightarrow> tiles a e (merge_right (s\<lparr>sg_free := True\<rparr>) ys)"
  by (cases ys) (auto simp: merge_right_def add.assoc add.left_commute)

lemma tiles_merge_left:
  assumes "tiles a b xs" and "tiles b e (z # zs)"
  shows "tiles a e (merge_left xs (z # zs))"
proof (cases xs rule: rev_cases)
  case Nil
  with assms show ?thesis by (simp add: merge_left_def)
next
  case (snoc us u)
  with assms have u: "tiles a (sg_addr u) us" "sg_addr z = sg_addr u + HDR + sg_len u"
    "16 dvd sg_len u" "16 dvd sg_len z" "tiles (sg_addr z + HDR + sg_len z) e zs" "b = sg_addr z"
    by auto
  have eq: "sg_addr u + HDR + (sg_len u + HDR + sg_len z) = sg_addr z + HDR + sg_len z"
    using u(2) by simp
  have "16 dvd sg_len u + HDR + sg_len z"
  proof -
    have "(16::nat) dvd 32" by (simp add: dvd_def)
    with u(3,4) show ?thesis by (simp only: dvd_add)
  qed
  moreover have "tiles (sg_addr u + HDR + (sg_len u + HDR + sg_len z)) e zs"
    by (simp only: eq u(5))
  ultimately have "tiles (sg_addr u) e (u\<lparr>sg_len := sg_len u + HDR + sg_len z\<rparr> # zs)"
    by (simp only: tiles.simps seg.simps seg.update_convs) simp
  with u(1) have m: "tiles a e (us @ u\<lparr>sg_len := sg_len u + HDR + sg_len z\<rparr> # zs)"
    unfolding tiles_append by blast
  have k: "tiles a e (xs @ z # zs)" unfolding tiles_append using assms by blast
  have "merge_left xs (z # zs) =
      (if sg_free u then us @ u\<lparr>sg_len := sg_len u + HDR + sg_len z\<rparr> # zs else xs @ z # zs)"
    using snoc by (simp add: merge_left_def)
  with m k show ?thesis by metis
qed

lemma chain_mark:
  assumes "chain m p (xs @ s # ys) 0" and "distinct (map sg_addr (xs @ s # ys))"
  shows "chain (upd m (sg_addr s) (\<lambda>h. h\<lparr>hs_free := True\<rparr>)) p (xs @ s\<lparr>sg_free := True\<rparr> # ys) 0"
  using assms by auto

text \<open>The two merge steps of the code, on a chain whose segment \<open>s\<close> is already marked free.\<close>

lemma right_step:
  assumes "chain m p (xs @ s # ys) 0" and "distinct (map sg_addr (xs @ s # ys))"
    and "0 \<notin> sg_addr ` set (xs @ s # ys)" and "sg_free s" and "tiles a e (s # ys)" and "e < u64_limit"
  shows "chain (if hs_next (m (sg_addr s)) \<noteq> 0 \<and> hs_free (m (hs_next (m (sg_addr s))))
                then CombineFreeSegments m (sg_addr s) (hs_next (m (sg_addr s))) else m) p
           (xs @ merge_right s ys) 0"
proof (cases ys)
  case Nil
  with assms(1) show ?thesis by (simp add: merge_right_def)
next
  case (Cons y ys')
  from assms(1) Cons have n: "hs_next (m (sg_addr s)) = sg_addr y" "hs_free (m (sg_addr y)) = sg_free y"
    by auto
  have "sg_addr y \<noteq> 0" using assms(3) Cons by auto
  show ?thesis
  proof (cases "sg_free y")
    case True
    from assms(5) Cons have "a + HDR + sg_len s + HDR + sg_len y \<le> e"
      by (auto dest: tiles_le)
    with assms(6) have "sg_len s + sg_len y + HDR < u64_limit" by linarith
    with CombineFreeSegments_chain [of m p xs s y ys'] assms(1-4) Cons True n \<open>sg_addr y \<noteq> 0\<close>
    show ?thesis by (simp add: merge_right_def)
  next
    case False
    with assms(1) Cons n show ?thesis by (simp add: merge_right_def)
  qed
qed

lemma left_step:
  assumes "chain m 0 (xs @ z # zs) 0" and "distinct (map sg_addr (xs @ z # zs))"
    and "0 \<notin> sg_addr ` set (xs @ z # zs)" and "sg_free z" and "tiles a e (xs @ z # zs)" and "e < u64_limit"
  shows "chain (if hs_prev (m (sg_addr z)) \<noteq> 0 \<and> hs_free (m (hs_prev (m (sg_addr z))))
                then CombineFreeSegments m (hs_prev (m (sg_addr z))) (sg_addr z) else m) 0
           (merge_left xs (z # zs)) 0"
proof (cases xs rule: rev_cases)
  case Nil
  with assms(1) show ?thesis by (simp add: merge_left_def)
next
  case (snoc us u)
  from assms(1) snoc have n: "hs_prev (m (sg_addr z)) = sg_addr u" "hs_free (m (sg_addr u)) = sg_free u"
    by auto
  have "sg_addr u \<noteq> 0" using assms(3) snoc by auto
  show ?thesis
  proof (cases "sg_free u")
    case True
    from assms(5) snoc obtain b where "tiles b e (u # z # zs)" by auto
    then have "b + HDR + sg_len u + HDR + sg_len z \<le> e" by (auto dest: tiles_le)
    with assms(6) have "sg_len u + sg_len z + HDR < u64_limit" by linarith
    with CombineFreeSegments_chain [of m 0 us u z zs] assms(1-4) snoc True n \<open>sg_addr u \<noteq> 0\<close>
    show ?thesis by (simp add: merge_left_def)
  next
    case False
    with assms(1) snoc n show ?thesis by (simp add: merge_left_def)
  qed
qed

lemma heap_ok_facts:
  assumes "heap_ok h ss"
  shows "distinct (map sg_addr ss)" and "0 \<notin> sg_addr ` set ss"
  using assms tiles_distinct tiles_bounds unfolding heap_ok_def by (blast, fastforce)

lemma heap_ok_tiles: "heap_ok h ss \<Longrightarrow> tiles (heapStart h) (heapStart h + heapSize h) ss"
  by (simp add: heap_ok_def)

lemma tiles_nonnull: "tiles a e ss \<Longrightarrow> 0 < a \<Longrightarrow> 0 \<notin> sg_addr ` set ss"
  using tiles_bounds by fastforce

text \<open>What \<^verbatim>\<open>Free\<close> does to the header of a segment of the list.\<close>

lemma free_header_refines:
  assumes c: "chain m 0 (xs @ s # ys) 0" and t: "tiles a e (xs @ s # ys)" and a: "0 < a"
    and e: "e < u64_limit" and nf: "no_free_pair (xs @ s # ys)"
  shows "chain (free_header m (sg_addr s)) 0 (free_segs (sg_addr s) (xs @ s # ys)) 0 \<and>
    tiles a e (free_segs (sg_addr s) (xs @ s # ys))"
proof -
  let ?s = "s\<lparr>sg_free := True\<rparr>" and ?h = "sg_addr s"
  let ?m1 = "upd m ?h (\<lambda>h. h\<lparr>hs_free := True\<rparr>)"
  let ?n = "hs_next (?m1 ?h)"
  let ?m2 = "if ?n \<noteq> 0 \<and> hs_free (?m1 ?n) then CombineFreeSegments ?m1 ?h ?n else ?m1"
  let ?p = "hs_prev (?m2 ?h)"
  let ?m3 = "if ?p \<noteq> 0 \<and> hs_free (?m2 ?p) then CombineFreeSegments ?m2 ?p ?h else ?m2"
  have d: "distinct (map sg_addr (xs @ s # ys))" using tiles_distinct [OF t] .
  from t obtain b where tb: "tiles a b xs" "tiles b e (s # ys)" unfolding tiles_append by blast
  from tb(2) have ts: "tiles b e (?s # ys)" by simp
  have t1: "tiles a e (xs @ ?s # ys)" unfolding tiles_append using tb(1) ts by blast
  have "no_free_pair ys" using no_free_pair_appendD [OF nf] by (simp add: no_free_pair_Cons)
  moreover have as: "sg_addr ?s = ?h" by simp
  moreover have fs: "sg_free ?s" by simp
  ultimately obtain z zs where z: "merge_right ?s ys = z # zs" "sg_addr z = sg_addr ?s" "sg_free z"
    using merge_right_shape by blast
  have tz: "tiles b e (z # zs)" using tiles_merge_right [OF tb(2)] z(1) by simp
  then have t2: "tiles a e (xs @ z # zs)" unfolding tiles_append using tb(1) by blast
  have "chain ?m1 0 (xs @ ?s # ys) 0" by (rule chain_mark [OF c d])
  from right_step [OF this tiles_distinct [OF t1] tiles_nonnull [OF t1 a] fs ts e]
  have c2: "chain ?m2 0 (xs @ z # zs) 0" by (simp only: z(1) as)
  have zh: "sg_addr z = ?h" using z(2) by simp
  from left_step [OF c2 tiles_distinct [OF t2] tiles_nonnull [OF t2 a] z(3) t2 e]
  have c3: "chain ?m3 0 (merge_left xs (z # zs)) 0" by (simp only: zh)
  have "hs_magic (m ?h) = MAGIC" using c by simp
  then have "free_header m ?h = ?m3" unfolding free_header_def Let_def by simp
  moreover have "free_segs ?h (xs @ s # ys) = merge_left xs (z # zs)"
    using free_segs_split [OF nf d] by (simp only: z(1))
  ultimately show ?thesis using c3 tiles_merge_left [OF tb(1) tz] by simp
qed

lemma free_segs_Nil: "free_segs a ss = [] \<longleftrightarrow> ss = []"
  by (cases ss) (auto simp: free_segs_def split: list.splits if_splits)

lemma kheap_Free_refines:
  assumes ok: "heap_ok h ss" and s: "s \<in> set ss"
  shows "heap_ok (kheap_Free h (sg_addr s + HDR)) (free_segs (sg_addr s) ss)"
proof -
  from s obtain xs ys where ss: "ss = xs @ s # ys" by (meson split_list)
  from ok ss have c: "chain (hp_mem h) 0 (xs @ s # ys) 0"
    and t: "tiles (heapStart h) (heapStart h + heapSize h) (xs @ s # ys)"
    and a: "0 < heapStart h" and e: "heapStart h + heapSize h < u64_limit"
    and nf: "no_free_pair (xs @ s # ys)" unfolding heap_ok_def by blast+
  have "sg_addr s + HDR < u64_limit" using tiles_bounds [OF t, of s] e by simp
  then have "sub64 (sg_addr s + HDR) HDR = sg_addr s" by (simp add: sub64_eq)
  then have f: "kheap_Free h (sg_addr s + HDR) = h\<lparr>hp_mem := free_header (hp_mem h) (sg_addr s)\<rparr>"
    by (simp add: kheap_Free_def)
  have "no_free_pair (free_segs (sg_addr s) ss)"
    unfolding free_segs_def by (rule no_free_pair_coalesce)
  with free_header_refines [OF c t a e nf] ok ss show ?thesis
    unfolding f heap_ok_def by (simp add: free_segs_Nil)
qed

lemma kheap_Allocate_refines:
  assumes ok: "heap_ok h ss" and n: "n \<le> u64_limit - 64" and z: "align16 n \<noteq> 0"
  shows "\<exists>h'. kheap_Allocate h n = Some (fst (alloc_segs (align16 n) ss), h') \<and>
    heap_ok h' (snd (alloc_segs (align16 n) ss))"
proof -
  have "align16 n = (n + 15) div 16 * 16" using n by (simp add: align16_def add64_eq)
  then have "align16 n + HDR < u64_limit" using n by linarith
  moreover have dvd: "16 dvd align16 n" by (simp add: align16_def)
  moreover from ok have c: "chain (hp_mem h) 0 ss 0"
    and t: "tiles (heapStart h) (heapStart h + heapSize h) ss"
    and a: "0 < heapStart h" and e: "heapStart h + heapSize h < u64_limit"
    and nf: "no_free_pair ss" unfolding heap_ok_def by blast+
  ultimately obtain m' where m': "alloc_loop (hp_mem h) (align16 n) (first_addr ss 0)
       = Some (fst (alloc_segs (align16 n) ss), m')" "chain m' 0 (snd (alloc_segs (align16 n) ss)) 0"
    using alloc_loop_refines [OF c t a e] by blast
  from ok t have "first_addr ss 0 = firstSegment h" by (cases ss) (auto simp: heap_ok_def)
  with m' z have "kheap_Allocate h n
      = Some (fst (alloc_segs (align16 n) ss), h\<lparr>hp_mem := m'\<rparr>)"
    by (simp add: kheap_Allocate_def)
  moreover have "snd (alloc_segs (align16 n) ss) \<noteq> []"
    using ok by (cases ss) (auto simp: heap_ok_def split_beta)
  ultimately show ?thesis
    using ok m' tiles_alloc [OF t dvd] no_free_pair_alloc [OF nf] by (auto simp: heap_ok_def)
qed

section \<open>The blocks in use, read off the memory\<close>

partial_function (option) walk :: "heap_mem \<Rightarrow> addr \<Rightarrow> seg list option" where
  "walk m a =
     (if a = 0 then Some []
      else Option.bind (walk m (hs_next (m a)))
             (\<lambda>ss. Some (mk_seg a (hs_length (m a)) (hs_free (m a)) # ss)))"

definition segs_of :: "kheap \<Rightarrow> seg list option" where
  "segs_of h = walk (hp_mem h) (firstSegment h)"

definition heap_inv :: "kheap \<Rightarrow> bool" where
  "heap_inv h \<longleftrightarrow> (case segs_of h of None \<Rightarrow> False | Some ss \<Rightarrow> heap_ok h ss)"

definition live_segs :: "seg list \<Rightarrow> (addr \<times> nat) set" where
  "live_segs ss = (\<lambda>s. (sg_addr s + HDR, sg_len s)) ` set (filter (\<lambda>s. \<not> sg_free s) ss)"

definition heap_live :: "kheap \<Rightarrow> (addr \<times> nat) set" where
  "heap_live h = (case segs_of h of None \<Rightarrow> {} | Some ss \<Rightarrow> live_segs ss)"

lemma walk_chain:
  "chain m p ss 0 \<Longrightarrow> 0 \<notin> sg_addr ` set ss \<Longrightarrow> walk m (first_addr ss 0) = Some ss"
proof (induction ss arbitrary: p)
  case Nil
  then show ?case by (subst walk.simps) simp
next
  case (Cons s ss)
  then have "walk m (first_addr ss 0) = Some ss" by auto
  with Cons.prems show ?case by (subst walk.simps) simp
qed

lemma heap_ok_walk: "heap_ok h ss \<Longrightarrow> segs_of h = Some ss"
proof -
  assume ok: "heap_ok h ss"
  then have "first_addr ss 0 = firstSegment h" by (cases ss) (auto simp: heap_ok_def)
  moreover from ok have "chain (hp_mem h) 0 ss 0" by (simp add: heap_ok_def)
  ultimately show "segs_of h = Some ss"
    using walk_chain heap_ok_facts(2) [OF ok] by (fastforce simp: segs_of_def)
qed

lemma heap_ok_inv: "heap_ok h ss \<Longrightarrow> heap_inv h \<and> heap_live h = live_segs ss"
  by (simp add: heap_inv_def heap_live_def heap_ok_walk)

lemma heap_invE:
  assumes "heap_inv h" obtains ss where "heap_ok h ss" "heap_live h = live_segs ss"
  using assms by (auto simp: heap_inv_def heap_live_def split: option.splits)

lemma live_segs_append [simp]: "live_segs (xs @ ys) = live_segs xs \<union> live_segs ys"
  by (auto simp: live_segs_def)

lemma live_segs_Cons [simp]:
  "live_segs (s # ss) = (if sg_free s then {} else {(sg_addr s + HDR, sg_len s)}) \<union> live_segs ss"
  by (auto simp: live_segs_def)

lemma live_segs_Nil [simp]: "live_segs [] = {}"
  by (simp add: live_segs_def)

lemma live_segs_coalesce: "live_segs (coalesce ss) = live_segs ss"
proof (induction ss)
  case Nil
  then show ?case by simp
next
  case (Cons s ss)
  show ?case
  proof (cases "coalesce ss")
    case Nil
    with Cons show ?thesis by simp
  next
    case (Cons t ts)
    from Cons.IH Cons have ih: "live_segs (t # ts) = live_segs ss" by simp
    show ?thesis
    proof (cases "sg_free s \<and> sg_free t")
      case True
      with ih Cons show ?thesis by simp
    next
      case False
      then have "live_segs (coalesce (s # ss)) = live_segs (s # t # ts)" using Cons by simp
      then show ?thesis by (simp only: live_segs_Cons [of s] ih)
    qed
  qed
qed

lemma live_alloc_segs:
  "0 \<notin> sg_addr ` set ss \<Longrightarrow> fst (alloc_segs sz ss) \<noteq> 0 \<Longrightarrow>
   live_segs (snd (alloc_segs sz ss)) = insert (fst (alloc_segs sz ss), sz) (live_segs ss) \<and>
   (\<exists>s \<in> set ss. sg_free s \<and> fst (alloc_segs sz ss) = sg_addr s + HDR)"
  by (induction ss) (auto simp: split_beta)

lemma null_alloc_segs: "fst (alloc_segs sz ss) = 0 \<Longrightarrow> snd (alloc_segs sz ss) = ss"
  by (induction ss) (auto simp: split_beta split: if_splits)

lemma distinct_addr_eq:
  "distinct (map sg_addr ss) \<Longrightarrow> s \<in> set ss \<Longrightarrow> t \<in> set ss \<Longrightarrow> sg_addr s = sg_addr t \<Longrightarrow> s = t"
  unfolding distinct_map by (blast dest: inj_onD)

lemma live_segs_iff:
  "(p, k) \<in> live_segs ss \<longleftrightarrow> (\<exists>s \<in> set ss. \<not> sg_free s \<and> p = sg_addr s + HDR \<and> k = sg_len s)"
  by (auto simp: live_segs_def)

lemma live_free_segs:
  assumes d: "distinct (map sg_addr ss)" and s: "s \<in> set ss"
  shows "live_segs (free_segs (sg_addr s) ss) = live_segs ss - {(sg_addr s + HDR, sg_len s)}"
proof -
  let ?f = "\<lambda>t. if sg_addr t = sg_addr s then t\<lparr>sg_free := True\<rparr> else t"
  have "(p, k) \<in> live_segs (map ?f ss) \<longleftrightarrow> (p, k) \<in> live_segs ss \<and> p \<noteq> sg_addr s + HDR" for p k
    unfolding live_segs_iff by (auto split: if_splits)
  moreover have "(p, k) \<in> live_segs ss \<Longrightarrow> p = sg_addr s + HDR \<Longrightarrow> k = sg_len s" for p k
    unfolding live_segs_iff using distinct_addr_eq [OF d _ s] by auto
  ultimately show ?thesis unfolding free_segs_def live_segs_coalesce by auto
qed

lemma live_segs_disjoint:
  assumes t: "tiles a e ss"
  shows "pairwise_disjoint (live_segs ss)"
proof -
  have "\<not> overlap (sg_addr s + HDR, sg_len s) (sg_addr u + HDR, sg_len u)"
    if su: "s \<in> set ss" "u \<in> set ss" and ne: "s \<noteq> u" for s u
  proof -
    have "sg_addr s \<noteq> sg_addr u" using distinct_addr_eq [OF tiles_distinct [OF t] su] ne by blast
    then consider "sg_addr s < sg_addr u" | "sg_addr u < sg_addr s" by linarith
    then show ?thesis
      by cases (use tiles_disjoint [OF t su] tiles_disjoint [OF t su(2,1)] in \<open>auto simp: overlap_def\<close>)
  qed
  then show ?thesis unfolding pairwise_disjoint_def live_segs_def by auto
qed

section \<open>The heap interface, interpreted\<close>

abbreviation kheap_max :: nat where
  "kheap_max \<equiv> 18446744073709551552"

lemma align16_facts:
  assumes "n \<le> kheap_max"
  shows "n \<le> align16 n" and "align16 n = 0 \<longleftrightarrow> n = 0" and "16 dvd align16 n" and "align16 n < n + 16"
proof -
  have eq: "align16 n = (n + 15) div 16 * 16" using assms by (simp add: align16_def add64_eq)
  show "n \<le> align16 n" "align16 n < n + 16" unfolding eq by linarith+
  show "align16 n = 0 \<longleftrightarrow> n = 0" unfolding eq by (simp add: div_eq_0_iff)
  show "16 dvd align16 n" by (simp add: eq)
qed

lemma kheap_Allocate_zero: "kheap_Allocate h 0 = Some (0, h)"
  by (simp add: kheap_Allocate_def align16_def add64_def)

lemma kheap_Allocate_cases:
  assumes ok: "heap_ok h ss" and n: "n \<le> kheap_max"
  obtains "n = 0" "kheap_Allocate h n = Some (0, h)"
  | h' where "n \<noteq> 0" "kheap_Allocate h n = Some (fst (alloc_segs (align16 n) ss), h')"
      "heap_ok h' (snd (alloc_segs (align16 n) ss))"
  using kheap_Allocate_refines [OF ok, of n] align16_facts(2) [OF n] n kheap_Allocate_zero [of h]
  by (cases "n = 0") auto

interpretation kheap: heap_allocator kheap_Allocate kheap_Free heap_live heap_inv kheap_max
proof
  fix s :: kheap and n p s'
  assume inv: "heap_inv s" and n: "n \<le> kheap_max"
  from inv obtain ss where ok: "heap_ok s ss" and l: "heap_live s = live_segs ss" by (rule heap_invE)
  note nn = heap_ok_facts(2) [OF ok]
  show "\<exists>p s'. kheap_Allocate s n = Some (p, s')"
    by (rule kheap_Allocate_cases [OF ok n]) auto
  show "heap_inv s'" if "kheap_Allocate s n = Some (p, s')"
    by (rule kheap_Allocate_cases [OF ok n]) (use that inv heap_ok_inv in auto)
  show "heap_live s' = heap_live s" if "kheap_Allocate s n = Some (0, s')"
    by (rule kheap_Allocate_cases [OF ok n])
      (use that l heap_ok_inv null_alloc_segs [of "align16 n" ss] in auto)
  show "p \<notin> fst ` heap_live s \<and> (\<exists>k \<ge> n. heap_live s' = insert (p, k) (heap_live s))"
    if al: "kheap_Allocate s n = Some (p, s')" and p: "p \<noteq> 0"
  proof (rule kheap_Allocate_cases [OF ok n])
    assume "kheap_Allocate s n = Some (0, s)" with al p show ?thesis by simp
  next
    fix h'
    assume h': "kheap_Allocate s n = Some (fst (alloc_segs (align16 n) ss), h')"
      "heap_ok h' (snd (alloc_segs (align16 n) ss))"
    with al p have pe: "p = fst (alloc_segs (align16 n) ss)" and se: "s' = h'" by auto
    from live_alloc_segs [OF nn, of "align16 n"] p pe obtain t where
      lv: "live_segs (snd (alloc_segs (align16 n) ss)) = insert (p, align16 n) (live_segs ss)"
      and t: "t \<in> set ss" "sg_free t" "p = sg_addr t + HDR" by auto
    have "(p, k) \<notin> live_segs ss" for k
      unfolding live_segs_iff using distinct_addr_eq [OF heap_ok_facts(1) [OF ok] t(1)] t by auto
    then have "p \<notin> fst ` live_segs ss" by auto
    with lv l h'(2) se heap_ok_inv align16_facts(1) [OF n] show ?thesis by metis
  qed
next
  fix s :: kheap and p k j
  assume inv: "heap_inv s"
  from inv obtain ss where ok: "heap_ok s ss" and l: "heap_live s = live_segs ss" by (rule heap_invE)
  show "pairwise_disjoint (heap_live s)"
    using live_segs_disjoint heap_ok_tiles [OF ok] l by simp
  assume "(p, k) \<in> heap_live s"
  then obtain t where t: "t \<in> set ss" "\<not> sg_free t" "p = sg_addr t + HDR" "k = sg_len t"
    unfolding l live_segs_iff by blast
  from kheap_Free_refines [OF ok t(1)] t(3)
  have f: "heap_ok (kheap_Free s p) (free_segs (sg_addr t) ss)" by simp
  then show "heap_inv (kheap_Free s p)" using heap_ok_inv by blast
  from heap_ok_inv [OF f] live_free_segs [OF heap_ok_facts(1) [OF ok] t(1)] l t
  show "heap_live (kheap_Free s p) = heap_live s - {(p, k)}" by simp
  show "k = j" if "(p, j) \<in> heap_live s"
    using that distinct_addr_eq [OF heap_ok_facts(1) [OF ok] t(1)] t unfolding l live_segs_iff by auto
qed

lemma kheap_Init_ok:
  assumes "0 < a" and "16 dvd a" and "16 dvd n" and "HDR \<le> n" and "a + n < u64_limit"
  shows "heap_ok (kheap_Init m a n) [mk_seg a (n - HDR) True]"
proof -
  have "(16::nat) dvd 32" by (simp add: dvd_def)
  with assms have "16 dvd n - HDR" by (intro dvd_diff_nat) auto
  moreover have "sub64 n HDR = n - HDR" using assms by (intro sub64_eq) linarith+
  ultimately show ?thesis using assms by (simp add: heap_ok_def kheap_Init_def)
qed

section \<open>Accounting\<close>

definition free_total :: "seg list \<Rightarrow> nat" where
  "free_total ss = sum_list (map sg_len (filter sg_free ss))"

definition used_total :: "seg list \<Rightarrow> nat" where
  "used_total ss = sum_list (map sg_len (filter (\<lambda>s. \<not> sg_free s) ss))"

lemma tiles_total: "tiles a e ss \<Longrightarrow> a + HDR * length ss + free_total ss + used_total ss = e"
proof (induction ss arbitrary: a)
  case Nil
  then show ?case by (simp add: free_total_def used_total_def)
next
  case (Cons s ss)
  then have "a + HDR + sg_len s + HDR * length ss + free_total ss + used_total ss = e" by simp
  then show ?case by (simp add: free_total_def used_total_def)
qed

lemma sum_free_chain:
  "chain m p ss 0 \<Longrightarrow> 0 \<notin> sg_addr ` set ss \<Longrightarrow> acc + free_total ss < u64_limit \<Longrightarrow>
   sum_free m acc (first_addr ss 0) = Some (acc + free_total ss)"
proof (induction ss arbitrary: p acc)
  case Nil
  then show ?case by (subst sum_free.simps) (simp add: free_total_def)
next
  case (Cons s ss)
  let ?acc = "if sg_free s then add64 acc (sg_len s) else acc"
  have t: "free_total (s # ss) = (if sg_free s then sg_len s else 0) + free_total ss"
    by (simp add: free_total_def)
  have acc: "?acc + free_total ss = acc + free_total (s # ss)"
    using Cons.prems(3) unfolding t by (auto simp: add64_eq)
  with Cons.prems have "sum_free m ?acc (first_addr ss 0) = Some (?acc + free_total ss)"
    by (intro Cons.IH [of "sg_addr s"]) auto
  with Cons.prems acc show ?case by (subst sum_free.simps) auto
qed

section \<open>A request whose rounded size wraps\<close>

text \<open>A used segment whose \<^verbatim>\<open>next\<close> is itself is never left by the search loop.\<close>

lemma alloc_loop_stuck:
  assumes "a \<noteq> 0" and "\<not> hs_free (m a)" and "hs_next (m a) = a"
  shows "alloc_loop m sz a = None"
proof -
  have "\<not> (m' = m \<and> a' = a)" if "alloc_loop m' sz' a' = Some r" for m' sz' a' r
    by (rule alloc_loop.raw_induct [OF _ that]) (use assms in \<open>auto split: if_splits\<close>)
  then show ?thesis by (metis option.exhaust)
qed

lemma split_segment_wrap:
  assumes "a + HDR < u64_limit"
  shows "add64 (add64 a HDR) 18446744073709551584 = a"
proof -
  have "add64 a HDR = a + HDR" using assms by (simp add: add64_eq)
  moreover have "a + HDR + 18446744073709551584 = a + u64_limit" by simp
  ultimately show ?thesis using assms by (simp add: add64_def del: add.assoc)
qed

lemma alloc_segs_null:
  "fst (alloc_segs z ts) = 0 \<longleftrightarrow>
     (\<forall>s \<in> set ts. sg_free s \<longrightarrow> sg_len s \<noteq> z \<and> sg_len s \<le> z + HDR)"
  by (induction ts) (auto simp: split_beta)

lemma alloc_segs_in_range:
  assumes ok: "heap_ok h ss" and n: "n \<le> kheap_max" and p: "p = fst (alloc_segs (align16 n) ss)" "p \<noteq> 0"
  shows "16 dvd p \<and> heapStart h \<le> p \<and> p + n \<le> heapStart h + heapSize h"
proof -
  from live_alloc_segs [OF heap_ok_facts(2) [OF ok], of "align16 n"] p
  obtain t where t: "t \<in> set ss" "p = sg_addr t + HDR"
    and "live_segs (snd (alloc_segs (align16 n) ss)) = insert (p, align16 n) (live_segs ss)" by auto
  then have "(p, align16 n) \<in> live_segs (snd (alloc_segs (align16 n) ss))" by blast
  then obtain u where u: "u \<in> set (snd (alloc_segs (align16 n) ss))" "p = sg_addr u + HDR"
    "align16 n = sg_len u" unfolding live_segs_iff by blast
  have "tiles (heapStart h) (heapStart h + heapSize h) (snd (alloc_segs (align16 n) ss))"
    using tiles_alloc heap_ok_tiles [OF ok] align16_facts(3) [OF n] by blast
  note b = tiles_bounds [OF this u(1)]
  have "16 dvd heapStart h" using ok by (simp add: heap_ok_def)
  then have "16 dvd sg_addr t" using tiles_aligned heap_ok_tiles [OF ok] t(1) by blast
  moreover have "(16::nat) dvd 32" by (simp add: dvd_def)
  ultimately have "16 dvd p" unfolding t(2) by (rule dvd_add)
  moreover have "heapStart h \<le> p" "p + n \<le> heapStart h + heapSize h"
    using b u align16_facts(1) [OF n] by linarith+
  ultimately show ?thesis by blast
qed

section \<open>Properties\<close>

text \<open>C3. The pointer-linked heap implements the list of segments that tile its area: \<^verbatim>\<open>Allocate\<close>
  returns and is first fit on the list, and \<^verbatim>\<open>Free\<close> of a segment marks it and merges free neighbours;
  both keep the list well formed, with no two adjacent free segments.\<close>

theorem kheap_refines_segments:
  assumes "heap_ok h ss"
  shows "(n \<noteq> 0 \<and> n \<le> kheap_max \<longrightarrow>
      (\<exists>h'. kheap_Allocate h n = Some (fst (alloc_segs (align16 n) ss), h') \<and>
            heap_ok h' (snd (alloc_segs (align16 n) ss)))) \<and>
    (s \<in> set ss \<longrightarrow> heap_ok (kheap_Free h (sg_addr s + HDR)) (free_segs (sg_addr s) ss))"
  using kheap_Allocate_refines [OF assms] kheap_Free_refines [OF assms] align16_facts(2) by auto

theorem kheap_refines_segments_witness:
  "heap_ok (kheap_Free (kheap_Init (\<lambda>_. undefined) 4096 1024) (4096 + HDR))
     (free_segs 4096 [mk_seg 4096 992 True])
   \<and> (\<exists>h'. kheap_Allocate (kheap_Init (\<lambda>_. undefined) 4096 1024) 100
        = Some (fst (alloc_segs (align16 100) [mk_seg 4096 992 True]), h'))"
proof -
  have ok: "heap_ok (kheap_Init (\<lambda>_. undefined) 4096 1024) [mk_seg 4096 992 True]"
    using kheap_Init_ok [of 4096 1024] by (simp add: dvd_def)
  from kheap_refines_segments [OF ok, of 100 "mk_seg 4096 992 True"] show ?thesis by force
qed

text \<open>C4. Over any sequence of allocations of at most \<open>2 ^ 64 - 64\<close> bytes (\<open>kheap_max\<close>) and releases from an initialised heap
  every request returns, the pointers a client owns are distinct live blocks, live blocks never overlap, and the
  list of segments stays well formed.  The bound is needed: \<open>kheap_Allocate_wraps\<close> below shows that a request of
  \<open>2 ^ 64 - 47\<close> to \<open>2 ^ 64 - 32\<close> bytes breaks the list.\<close>

theorem kheap_blocks_never_overlap:
  assumes "0 < a" and "16 dvd a" and "16 dvd n" and "HDR \<le> n" and "a + n < u64_limit"
    and "sizes_below kheap_max rs"
  shows "\<exists>owned h. run_heap kheap_Allocate kheap_Free rs (kheap_Init m a n) [] = Some (owned, h) \<and>
    distinct owned \<and> set owned \<subseteq> fst ` heap_live h \<and> pairwise_disjoint (heap_live h) \<and> heap_inv h"
proof -
  have "heap_inv (kheap_Init m a n)" using heap_ok_inv kheap_Init_ok [OF assms(1-5)] by blast
  from kheap.run_heap_owned [OF this assms(6), of "[]"] kheap.disjoint show ?thesis by auto
qed

theorem kheap_blocks_never_overlap_witness:
  "\<exists>owned h. run_heap kheap_Allocate kheap_Free [HAlloc 20, HAlloc 40, HFree 1, HAlloc 8]
       (kheap_Init (\<lambda>_. undefined) 4096 1024) [] = Some (owned, h) \<and>
    distinct owned \<and> set owned \<subseteq> fst ` heap_live h \<and> pairwise_disjoint (heap_live h) \<and> heap_inv h"
  by (rule kheap_blocks_never_overlap) (auto simp: dvd_def sizes_below_def)

text \<open>\<^verbatim>\<open>Allocate\<close> fails only when no free segment fits: null means a zero size, or that every
  free segment is shorter than the request or too short to be split.  A non-null result is 16-byte
  aligned when the heap is and lies inside the heap.\<close>

theorem kheap_Allocate_result:
  assumes "heap_ok h ss" and "n \<le> kheap_max" and "kheap_Allocate h n = Some (p, h')"
  shows "(p = 0 \<longleftrightarrow> n = 0 \<or> (\<forall>s \<in> set ss. sg_free s \<longrightarrow>
           sg_len s \<noteq> align16 n \<and> sg_len s \<le> align16 n + HDR)) \<and>
    (p \<noteq> 0 \<longrightarrow> 16 dvd p \<and> heapStart h \<le> p \<and> p + n \<le> heapStart h + heapSize h)"
proof (rule kheap_Allocate_cases [OF assms(1,2)])
  assume "n = 0" "kheap_Allocate h n = Some (0, h)"
  with assms(3) show ?thesis by simp
next
  fix h2
  assume "n \<noteq> 0" "kheap_Allocate h n = Some (fst (alloc_segs (align16 n) ss), h2)"
  moreover from this assms(3) have "p = fst (alloc_segs (align16 n) ss)" by simp
  ultimately show ?thesis
    using alloc_segs_null [of "align16 n" ss] alloc_segs_in_range [OF assms(1,2)] by simp
qed

lemma example_heap_ok:
  "heap_ok (kheap_Init (\<lambda>_. undefined) 4096 1024) [mk_seg 4096 992 True]"
  using kheap_Init_ok [of 4096 1024] by (simp add: dvd_def)

lemma example_heap_alloc: "\<exists>h'. kheap_Allocate (kheap_Init (\<lambda>_. undefined) 4096 1024) 100 = Some (4128, h')"
  using kheap_Allocate_refines [OF example_heap_ok, of 100] by (auto simp: align16_def add64_def)

theorem kheap_Allocate_result_witness:
  "\<exists>h'. kheap_Allocate (kheap_Init (\<lambda>_. undefined) 4096 1024) 100 = Some (4128, h') \<and>
     16 dvd (4128::nat) \<and> 4128 + 100 \<le> heapStart (kheap_Init (\<lambda>_. undefined) 4096 1024) + 1024"
proof -
  obtain h' where h': "kheap_Allocate (kheap_Init (\<lambda>_. undefined) 4096 1024) 100 = Some (4128, h')"
    using example_heap_alloc by blast
  from kheap_Allocate_result [OF example_heap_ok _ h'] h' show ?thesis by (auto simp: kheap_Init_def)
qed

text \<open>\<^verbatim>\<open>GetFree\<close> returns the sum of the free lengths and \<^verbatim>\<open>GetUsed\<close> the bytes of the used segments
  plus one header for every segment after the first; the two and the first header add up to the heap.\<close>

theorem kheap_accounting:
  assumes "heap_ok h ss"
  shows "kheap_GetFree h = Some (free_total ss) \<and>
    kheap_GetUsed h = Some (used_total ss + HDR * (length ss - 1)) \<and>
    kheap_GetSize h = free_total ss + (used_total ss + HDR * (length ss - 1)) + HDR"
proof -
  from assms have e: "heapSize h < u64_limit" and ne: "0 < length ss" by (auto simp: heap_ok_def)
  from tiles_total [OF heap_ok_tiles [OF assms]]
  have tot: "HDR * length ss + free_total ss + used_total ss = heapSize h" by simp
  moreover have "HDR * length ss = HDR * (length ss - 1) + HDR" using ne by (cases ss) auto
  ultimately have size: "heapSize h = free_total ss + (used_total ss + HDR * (length ss - 1)) + HDR"
    by linarith
  have c: "chain (hp_mem h) 0 ss 0" and f: "first_addr ss 0 = firstSegment h"
    using assms by (cases ss; auto simp: heap_ok_def)+
  have "kheap_GetFree h = Some (free_total ss)"
    using sum_free_chain [OF c heap_ok_facts(2) [OF assms], of 0] f e size
    by (simp add: kheap_GetFree_def)
  with size e show ?thesis by (simp add: kheap_GetUsed_def kheap_GetSize_def sub64_eq)
qed

theorem kheap_accounting_witness:
  "kheap_GetFree (kheap_Init (\<lambda>_. undefined) 4096 1024) = Some 992 \<and>
   kheap_GetUsed (kheap_Init (\<lambda>_. undefined) 4096 1024) = Some 0"
  using kheap_accounting [OF example_heap_ok] by (simp add: free_total_def used_total_def)

text \<open>A request of \<open>2^64 - 47\<close> to \<open>2^64 - 32\<close> bytes on a heap whose first segment is free is
  not refused: the rounded size plus the header wraps to 0, the split puts the new header on top of
  the old one, a pointer to a block of \<open>2^64 - 32\<close> bytes is returned, and no later allocation returns.\<close>

theorem kheap_Allocate_wraps:
  assumes "heap_ok h (s # ss)" and "sg_free s" and "0 < sg_len s"
    and "u64_limit - 48 < n" and "n \<le> u64_limit - HDR"
  shows "\<exists>h'. kmalloc h n = Some (heapStart h + HDR, h') \<and>
    hs_next (hp_mem h' (heapStart h)) = heapStart h \<and>
    (\<forall>k. align16 k \<noteq> 0 \<longrightarrow> kmalloc h' k = None)"
proof -
  let ?z = "18446744073709551584 :: nat" and ?a = "heapStart h"
  let ?h = "h\<lparr>hp_mem := split_segment (hp_mem h) ?a ?z\<rparr>"
  from assms(1) have st: "sg_addr s = ?a" "firstSegment h = ?a" "0 < ?a" by (auto simp: heap_ok_def)
  from tiles_bounds [OF heap_ok_tiles [OF assms(1)], of s] assms(1)
  have a: "?a + HDR < u64_limit" and len: "sg_len s < ?z"
    unfolding st by (auto simp: heap_ok_def)
  from assms(1) have hd: "hs_free (hp_mem h ?a)" "hs_length (hp_mem h ?a) = sg_len s"
    using assms(2) st by (auto simp: heap_ok_def)
  have "(n + 15) div 16 = 1152921504606846974" using assms(4,5) by linarith
  then have al: "align16 n = ?z" using assms(4,5) by (simp add: align16_def add64_eq)
  have "add64 ?z HDR = 0" by (simp add: add64_def)
  then have loop: "alloc_loop (hp_mem h) ?z ?a = Some (add64 ?a HDR, split_segment (hp_mem h) ?a ?z)"
    using hd st(3) len assms(3) by (subst alloc_loop.simps) simp
  have stuck: "hs_next (hp_mem ?h ?a) = ?a" "\<not> hs_free (hp_mem ?h ?a)"
    using split_segment_wrap [OF a] by (simp_all add: split_segment_def Let_def)
  have "kmalloc h n = Some (?a + HDR, ?h)"
    using loop al st a by (simp add: kmalloc_def kheap_Allocate_def add64_eq)
  moreover have "kmalloc ?h k = None" if "align16 k \<noteq> 0" for k
    using alloc_loop_stuck [of ?a "hp_mem ?h"] stuck st that by (simp add: kmalloc_def kheap_Allocate_def)
  ultimately show ?thesis using stuck by blast
qed

theorem kheap_Allocate_wraps_witness:
  "\<exists>h'. kmalloc (kheap_Init (\<lambda>_. undefined) 4096 1024) (u64_limit - 40) = Some (4128, h') \<and>
     kmalloc h' 16 = None"
proof -
  from kheap_Allocate_wraps [OF example_heap_ok, of "u64_limit - 40"] obtain h' where
    "kmalloc (kheap_Init (\<lambda>_. undefined) 4096 1024) (u64_limit - 40) = Some (4128, h')"
    "\<forall>k. align16 k \<noteq> 0 \<longrightarrow> kmalloc h' k = None" by (auto simp: kheap_Init_def)
  moreover have "align16 16 \<noteq> 0" by (simp add: align16_def add64_def)
  ultimately show ?thesis by blast
qed

end
