(* ===== verification/Bitmap.thy ===== *)
theory Bitmap
  imports Prelude
begin

unbundle bit_operations_syntax

text \<open>
  The allocation bitmap of \<^verbatim>\<open>kernel/utils/bitmap.h\<close>.  The \<^verbatim>\<open>data\<close> pointer is modelled by the
  bytes it gives access to, as a total function of the offset: an access past \<^verbatim>\<open>size\<close> reaches
  the memory that follows the buffer, as it does in C++, and the safety theorems of the physical
  memory manager say when that cannot happen.  The main result is that the byte-filling
  \<^verbatim>\<open>SetRange\<close> equals the bit-by-bit loop it optimises.
\<close>

record bitmap =
  bm_data :: "nat \<Rightarrow> u8"
  bm_size :: nat

definition bitmap_Init :: "(nat \<Rightarrow> u8) \<Rightarrow> nat \<Rightarrow> bitmap" where
  "bitmap_Init buffer sizeBytes = \<lparr>bm_data = buffer, bm_size = sizeBytes\<rparr>"

definition bitmap_Get :: "bitmap \<Rightarrow> nat \<Rightarrow> bool" where
  "bitmap_Get b index =
     (let byteIndex = index div 8; bitIndex = index mod 8
      in bm_data b byteIndex AND push_bit bitIndex 1 \<noteq> 0)"

definition bitmap_Set :: "bitmap \<Rightarrow> nat \<Rightarrow> bool \<Rightarrow> bitmap" where
  "bitmap_Set b index value =
     (let byteIndex = index div 8; bitIndex = index mod 8; d = bm_data b byteIndex
      in b\<lparr>bm_data := (bm_data b)(byteIndex :=
             (if value then d OR push_bit bitIndex 1 else d AND NOT (push_bit bitIndex 1)))\<rparr>)"

text \<open>The three loops of \<^verbatim>\<open>SetRange\<close>: bits up to the next byte boundary, whole bytes, the
  remaining bits.\<close>

function align_loop :: "bool \<Rightarrow> nat \<Rightarrow> bitmap \<Rightarrow> nat \<Rightarrow> bitmap \<times> nat" where
  "align_loop value end' b index =
     (if index mod 8 \<noteq> 0 \<and> index < end'
      then align_loop value end' (bitmap_Set b index value) (index + 1)
      else (b, index))"
  by pat_completeness auto
termination
  by (relation "measure (\<lambda>(v, e, b, i). e - i)") auto

fun fill_bytes :: "u8 \<Rightarrow> nat \<Rightarrow> nat \<Rightarrow> bitmap \<Rightarrow> bitmap" where
  "fill_bytes fill byteStart 0 b = b"
| "fill_bytes fill byteStart (Suc n) b =
     (let b' = fill_bytes fill byteStart n b
      in b'\<lparr>bm_data := (bm_data b')(byteStart + n := fill)\<rparr>)"

function tail_loop :: "bool \<Rightarrow> nat \<Rightarrow> bitmap \<Rightarrow> nat \<Rightarrow> bitmap" where
  "tail_loop value end' b index =
     (if index < end'
      then tail_loop value end' (bitmap_Set b index value) (index + 1)
      else b)"
  by pat_completeness auto
termination
  by (relation "measure (\<lambda>(v, e, b, i). e - i)") auto

definition bitmap_SetRange :: "bitmap \<Rightarrow> nat \<Rightarrow> nat \<Rightarrow> bool \<Rightarrow> bitmap" where
  "bitmap_SetRange b index count value =
     (if count = 0 then b
      else
        let end' = add64 index count;
            (b1, index1) = align_loop value end' b index;
            byteStart = index1 div 8;
            byteEnd = end' div 8;
            fill = (if value then 255 else 0);
            (b2, index2) =
              (if byteEnd > byteStart
               then (fill_bytes fill byteStart (byteEnd - byteStart) b1, byteEnd * 8)
               else (b1, index1))
        in tail_loop value end' b2 index2)"

declare align_loop.simps [simp del] tail_loop.simps [simp del]

section \<open>Single bits\<close>

lemma bitmap_Get_bit: "bitmap_Get b i = bit (bm_data b (i div 8)) (i mod 8)"
  by (simp add: bitmap_Get_def Let_def bit_iff_and_push_bit_not_eq_0)

lemma div_mod_8_eq: "i div 8 = j div 8 \<Longrightarrow> i mod 8 = j mod 8 \<Longrightarrow> i = (j::nat)"
  by (metis div_mult_mod_eq)

lemma bitmap_Get_Set [simp]:
  "bitmap_Get (bitmap_Set b i v) j = (if i = j then v else bitmap_Get b j)"
proof (cases "i div 8 = j div 8")
  case False
  then show ?thesis by (auto simp: bitmap_Get_bit bitmap_Set_def Let_def)
next
  case True
  have "j mod 8 < 8" by simp
  moreover have "i mod 8 = j mod 8 \<longleftrightarrow> i = j"
    using True div_mod_8_eq by blast
  ultimately show ?thesis
    using True
    by (auto simp: bitmap_Get_bit bitmap_Set_def Let_def bit_simps)
qed

lemma bm_size_Set [simp]: "bm_size (bitmap_Set b i v) = bm_size b"
  by (simp add: bitmap_Set_def Let_def)

lemma bm_data_Set_other: "k \<noteq> i div 8 \<Longrightarrow> bm_data (bitmap_Set b i v) k = bm_data b k"
  by (simp add: bitmap_Set_def Let_def)

lemma u8_eqI: "(\<And>n. n < 8 \<Longrightarrow> bit a n = bit b n) \<Longrightarrow> a = (b :: u8)"
  by (rule bit_word_eqI) simp

lemma bitmap_eqI:
  assumes "bm_size a = bm_size b" and "\<And>p. bitmap_Get a p = bitmap_Get b p"
  shows "a = (b :: bitmap)"
proof -
  have "bm_data a k = bm_data b k" for k
  proof (rule u8_eqI)
    fix n :: nat
    assume n: "n < 8"
    then have "(8 * k + n) div 8 = k" and "(8 * k + n) mod 8 = n" by simp_all
    with assms(2) [of "8 * k + n"] show "bit (bm_data a k) n = bit (bm_data b k) n"
      by (simp add: bitmap_Get_bit)
  qed
  then have "bm_data a = bm_data b" by blast
  with assms(1) show ?thesis by simp
qed

section \<open>Ranges\<close>

lemma align_loop_spec:
  assumes "align_loop v e b i = (b', i')" and "i \<le> e"
  shows "i \<le> i' \<and> i' \<le> e \<and> (i' = e \<or> i' mod 8 = 0) \<and> bm_size b' = bm_size b \<and>
    (\<forall>p. bitmap_Get b' p = (if i \<le> p \<and> p < i' then v else bitmap_Get b p))"
  using assms
proof (induction v e b i rule: align_loop.induct)
  case (1 v e b i)
  show ?case
  proof (cases "i mod 8 \<noteq> 0 \<and> i < e")
    case True
    with "1.prems" have "align_loop v e (bitmap_Set b i v) (i + 1) = (b', i')"
      by (simp add: align_loop.simps [of v e b i])
    from "1.IH" [OF True this] True show ?thesis by auto
  next
    case False
    with "1.prems" show ?thesis by (auto simp: align_loop.simps [of v e b i])
  qed
qed

lemma fill_bytes_data:
  "bm_data (fill_bytes f s n b) k = (if s \<le> k \<and> k < s + n then f else bm_data b k)"
  by (induction n) (auto simp: Let_def)

lemma fill_bytes_size [simp]: "bm_size (fill_bytes f s n b) = bm_size b"
  by (induction n) (auto simp: Let_def)

lemma fill_bytes_Get:
  "bitmap_Get (fill_bytes (if v then 255 else 0) s n b) p =
     (if 8 * s \<le> p \<and> p < 8 * (s + n) then v else bitmap_Get b p)"
proof -
  have range: "s \<le> p div 8 \<and> p div 8 < s + n \<longleftrightarrow> 8 * s \<le> p \<and> p < 8 * (s + n)"
    by (auto simp: less_mult_imp_div_less)
  have "bit (255 :: u8) (p mod 8)"
  proof -
    have "(255 :: u8) = mask 8" by (simp add: mask_eq_exp_minus_1)
    then show ?thesis by (simp only: bit_mask_iff) simp
  qed
  then show ?thesis
    by (simp add: bitmap_Get_bit fill_bytes_data range)
qed

lemma tail_loop_Get:
  "bitmap_Get (tail_loop v e b i) p = (if i \<le> p \<and> p < e then v else bitmap_Get b p)"
proof (induction v e b i rule: tail_loop.induct)
  case (1 v e b i)
  then show ?case
    by (cases "i < e") (auto simp: tail_loop.simps [of v e b i])
qed

lemma tail_loop_size [simp]: "bm_size (tail_loop v e b i) = bm_size b"
proof (induction v e b i rule: tail_loop.induct)
  case (1 v e b i)
  then show ?case by (cases "i < e") (auto simp: tail_loop.simps [of v e b i])
qed

lemma bitmap_SetRange_size [simp]:
  assumes "i + c < u64_limit"
  shows "bm_size (bitmap_SetRange b i c v) = bm_size b"
proof -
  obtain b1 i1 where a: "align_loop v (i + c) b i = (b1, i1)" by fastforce
  from align_loop_spec [OF a] have "bm_size b1 = bm_size b" by simp
  with a assms show ?thesis by (simp add: bitmap_SetRange_def Let_def add64_eq)
qed

lemma bitmap_SetRange_Get:
  assumes "i + c < u64_limit"
  shows "bitmap_Get (bitmap_SetRange b i c v) p =
    (if i \<le> p \<and> p < i + c then v else bitmap_Get b p)"
proof (cases "c = 0")
  case True
  then show ?thesis by (auto simp add: bitmap_SetRange_def)
next
  case False
  let ?e = "i + c"
  obtain b1 i1 where a: "align_loop v ?e b i = (b1, i1)" by fastforce
  note s = align_loop_spec [OF a, simplified]
  show ?thesis
  proof (cases "?e div 8 > i1 div 8")
    case True
    with s have "i1 mod 8 = 0" by auto
    then have i1: "8 * (i1 div 8) = i1" by (metis add_0_right mult_div_mod_eq)
    have e: "?e div 8 * 8 \<le> ?e" by simp
    have i1e: "i1 < ?e div 8 * 8" using True i1 by (metis mult.commute mult_less_cancel2 zero_less_numeral)
    let ?b2 = "fill_bytes (if v then 255 else 0) (i1 div 8) (?e div 8 - i1 div 8) b1"
    have g: "bitmap_Get ?b2 q = (if i1 \<le> q \<and> q < ?e div 8 * 8 then v else bitmap_Get b1 q)" for q
      using True i1 by (simp add: fill_bytes_Get mult.commute)
    have "bitmap_SetRange b i c v = tail_loop v ?e ?b2 (?e div 8 * 8)"
      using False True a assms by (simp add: bitmap_SetRange_def Let_def add64_eq)
    moreover have "bitmap_Get (tail_loop v ?e ?b2 (?e div 8 * 8)) p =
      (if i \<le> p \<and> p < ?e then v else bitmap_Get b p)"
      using s e i1e by (simp only: tail_loop_Get g) auto
    ultimately show ?thesis by simp
  next
    case f: False
    then have "bitmap_SetRange b i c v = tail_loop v ?e b1 i1"
      using False a assms by (simp add: bitmap_SetRange_def Let_def add64_eq)
    then show ?thesis using s by (auto simp: tail_loop_Get)
  qed
qed

text \<open>Only the bytes that hold a bit of the range change.\<close>

lemma bm_data_of_Get:
  "(\<And>n. n < 8 \<Longrightarrow> bitmap_Get a (8 * k + n) = bitmap_Get b (8 * k + n)) \<Longrightarrow> bm_data a k = bm_data b k"
proof (rule u8_eqI)
  fix n :: nat
  assume eq: "\<And>n. n < 8 \<Longrightarrow> bitmap_Get a (8 * k + n) = bitmap_Get b (8 * k + n)" and n: "n < 8"
  then have "(8 * k + n) div 8 = k" and "(8 * k + n) mod 8 = n" by simp_all
  with eq [OF n] show "bit (bm_data a k) n = bit (bm_data b k) n"
    by (simp add: bitmap_Get_bit)
qed

lemma bitmap_SetRange_frame:
  assumes "i + c < u64_limit" and "i + c \<le> 8 * k"
  shows "bm_data (bitmap_SetRange b i c v) k = bm_data b k"
  by (rule bm_data_of_Get) (use assms in \<open>simp add: bitmap_SetRange_Get\<close>)

text \<open>The loop that \<^verbatim>\<open>SetRange\<close> replaces: one \<^verbatim>\<open>Set\<close> per page (the commented-out body of the
  loop in \<^verbatim>\<open>PMM::Init\<close>).\<close>

definition set_each :: "bitmap \<Rightarrow> nat \<Rightarrow> nat \<Rightarrow> bool \<Rightarrow> bitmap" where
  "set_each b start count value = fold (\<lambda>p b. bitmap_Set b (start + p) value) [0..<count] b"

lemma set_each_size [simp]: "bm_size (set_each b i c v) = bm_size b"
  by (induction c) (auto simp: set_each_def)

lemma set_each_Get:
  "bitmap_Get (set_each b i c v) p = (if i \<le> p \<and> p < i + c then v else bitmap_Get b p)"
  by (induction c) (auto simp: set_each_def)

text \<open>\<^verbatim>\<open>Bitmap::SetRange\<close>, which fills whole bytes in the middle of the range, leaves exactly
  the bitmap that setting the bits one at a time leaves, for every start, count and value whose
  end does not wrap around.\<close>

theorem SetRange_equals_bitwise:
  assumes "start + count < u64_limit"
  shows "bitmap_SetRange b start count value = set_each b start count value"
  using assms by (intro bitmap_eqI) (simp_all add: bitmap_SetRange_Get set_each_Get)

lemma SetRange_equals_bitwise_witness:
  "bitmap_SetRange (bitmap_Init (\<lambda>_. 0) 4) 3 18 True = set_each (bitmap_Init (\<lambda>_. 0) 4) 3 18 True"
  by (rule SetRange_equals_bitwise) simp

end
