(* ===== verification/Page_Allocator.thy ===== *)
theory Page_Allocator
  imports Prelude
begin

text \<open>
  The contract between the physical memory manager and the code that takes page frames from it
  (\<^verbatim>\<open>MMU::AllocateTable\<close>, \<^verbatim>\<open>UserHeap::Init\<close>): a frame that is handed out was not in use, is in
  use afterwards, and nothing else changes; a null result means that every frame is in use.
  From these laws follow, once for every allocator, that any sequence of allocations and releases
  never hands out a frame that is still owned.
\<close>

text \<open>A client's requests, and the frames it owns after running them.  A release names a frame by
  its position among the owned ones.\<close>

datatype frame_req = ReqAlloc | ReqFree nat

fun run_reqs ::
  "('s \<Rightarrow> addr \<times> 's) \<Rightarrow> ('s \<Rightarrow> addr \<Rightarrow> 's) \<Rightarrow> frame_req list \<Rightarrow> 's \<Rightarrow> addr list \<Rightarrow> addr list \<times> 's" where
  "run_reqs alloc free [] s owned = (owned, s)"
| "run_reqs alloc free (ReqAlloc # rs) s owned =
     (let (a, s') = alloc s
      in run_reqs alloc free rs s' (if a = 0 then owned else a # owned))"
| "run_reqs alloc free (ReqFree k # rs) s owned =
     (if k < length owned
      then run_reqs alloc free rs (free s (owned ! k)) (take k owned @ drop (Suc k) owned)
      else run_reqs alloc free rs s owned)"

locale page_allocator =
  fixes alloc :: "'s \<Rightarrow> addr \<times> 's"
    and free :: "'s \<Rightarrow> addr \<Rightarrow> 's"
    and frames :: "'s \<Rightarrow> addr set"
    and in_use :: "'s \<Rightarrow> addr set"
    and inv :: "'s \<Rightarrow> bool"
  assumes alloc_fresh: "inv s \<Longrightarrow> alloc s = (a, s') \<Longrightarrow> a \<noteq> 0 \<Longrightarrow>
      a \<in> frames s \<and> a \<notin> in_use s \<and> in_use s' = insert a (in_use s)"
    and alloc_null: "inv s \<Longrightarrow> alloc s = (0, s') \<Longrightarrow> s' = s \<and> frames s \<subseteq> in_use s"
    and alloc_keeps: "inv s \<Longrightarrow> alloc s = (a, s') \<Longrightarrow> inv s' \<and> frames s' = frames s"
    and free_releases: "inv s \<Longrightarrow> a \<in> frames s \<Longrightarrow> in_use (free s a) = in_use s - {a}"
    and free_keeps: "inv s \<Longrightarrow> a \<in> frames s \<Longrightarrow> inv (free s a) \<and> frames (free s a) = frames s"
    and null_no_frame: "0 \<notin> frames s"
begin

lemma alloc_succeeds:
  assumes "inv s" and "alloc s = (a, s')" and "\<not> frames s \<subseteq> in_use s"
  shows "a \<noteq> 0"
  using assms alloc_null by auto

lemma run_reqs_owned:
  assumes "inv s" and "distinct owned" and "set owned \<subseteq> frames s \<inter> in_use s"
    and "run_reqs alloc free rs s owned = (owned', s')"
  shows "inv s' \<and> frames s' = frames s \<and> distinct owned' \<and> set owned' \<subseteq> frames s' \<inter> in_use s'"
  using assms
proof (induction rs arbitrary: s owned)
  case Nil
  then show ?case by auto
next
  case (Cons r rs)
  show ?case
  proof (cases r)
    case ReqAlloc
    obtain a t where a: "alloc s = (a, t)" by fastforce
    note keep = alloc_keeps [OF Cons.prems(1) a]
    let ?o = "if a = 0 then owned else a # owned"
    have "distinct ?o \<and> set ?o \<subseteq> frames t \<inter> in_use t"
    proof (cases "a = 0")
      case True
      with a alloc_null [OF Cons.prems(1)] have "t = s" by blast
      with True Cons.prems show ?thesis by simp
    next
      case False
      with alloc_fresh [OF Cons.prems(1) a] keep Cons.prems(2,3) show ?thesis by auto
    qed
    moreover from Cons.prems(4) ReqAlloc a
    have "run_reqs alloc free rs t ?o = (owned', s')" by simp
    ultimately show ?thesis using Cons.IH [of t ?o] keep by auto
  next
    case (ReqFree k)
    show ?thesis
    proof (cases "k < length owned")
      case True
      let ?a = "owned ! k" and ?o = "take k owned @ drop (Suc k) owned"
      from True Cons.prems(3) have f: "?a \<in> frames s" by (meson IntE nth_mem subsetD)
      note d = distinct_drop_nth [OF Cons.prems(2) True]
      note k = free_keeps [OF Cons.prems(1) f] free_releases [OF Cons.prems(1) f]
      from d k Cons.prems(3) have "set ?o \<subseteq> frames (free s ?a) \<inter> in_use (free s ?a)" by auto
      moreover from Cons.prems(4) ReqFree True
      have "run_reqs alloc free rs (free s ?a) ?o = (owned', s')" by simp
      ultimately show ?thesis using Cons.IH [of "free s ?a" ?o] d k by auto
    next
      case False
      with Cons.prems(4) ReqFree have "run_reqs alloc free rs s owned = (owned', s')" by simp
      with Cons.IH Cons.prems(1-3) show ?thesis by blast
    qed
  qed
qed

lemma run_reqs_fresh:
  assumes "inv s" and "run_reqs alloc free rs s [] = (owned', s')"
  shows "distinct owned' \<and> set owned' \<subseteq> frames s \<and> 0 \<notin> set owned'"
proof -
  from run_reqs_owned [of s "[]" rs owned' s'] assms
  have "frames s' = frames s \<and> distinct owned' \<and> set owned' \<subseteq> frames s'" by auto
  then show ?thesis using null_no_frame by auto
qed

end

end
