(* ===== verification/PMM.thy ===== *)
theory PMM
  imports Bitmap Page_Allocator
begin

text \<open>
  The physical memory manager, \<^verbatim>\<open>kernel/mm/pmm.cpp\<close>: the state is the bitmap, the memory
  counters, \<^verbatim>\<open>highestAddr\<close> and the search hint \<^verbatim>\<open>lastFreeIndex\<close>.  \<^verbatim>\<open>Init\<close> reads the UEFI memory
  map of \<^verbatim>\<open>shared/boot_info.h\<close>; its panic (\<^verbatim>\<open>while(1)\<close>) is the error value \<open>PmmPanic\<close>.  A null
  pointer is the address 0, as in C++.
\<close>

section \<open>State and boot information\<close>

record MemoryDescriptor =
  md_type :: nat
  md_physAddr :: nat
  md_numPages :: nat

record BootInfo =
  memoryMap :: "MemoryDescriptor list"
  memoryMapSize :: nat
  memoryMapDescriptorSize :: nat

record pmm =
  pm_bitmap :: bitmap
  totalRAM :: nat
  freeRAM :: nat
  bitmapSize :: nat
  highestAddr :: nat
  lastFreeIndex :: nat

datatype pmm_error = PmmPanic

text \<open>\<^verbatim>\<open>MemoryType\<close>: LoaderCode 1, LoaderData 2, BootServicesCode 3, BootServicesData 4,
  ConventionalMemory 7.\<close>

definition IsUsableMemory :: "nat \<Rightarrow> bool" where
  "IsUsableMemory type \<longleftrightarrow> type = 7 \<or> type = 3 \<or> type = 4 \<or> type = 1 \<or> type = 2"

section \<open>Init\<close>

definition region_end :: "MemoryDescriptor \<Rightarrow> nat" where
  "region_end d = add64 (md_physAddr d) (mul64 (md_numPages d) 4096)"

definition map_entries :: "BootInfo \<Rightarrow> MemoryDescriptor list" where
  "map_entries bi = take (memoryMapSize bi div memoryMapDescriptorSize bi) (memoryMap bi)"

fun highest_addr_loop :: "nat \<Rightarrow> MemoryDescriptor list \<Rightarrow> nat" where
  "highest_addr_loop h [] = h"
| "highest_addr_loop h (d # ds) =
     highest_addr_loop (if region_end d > h then region_end d else h) ds"

text \<open>The two searches for the bitmap buffer: above 1 MB first, then anywhere.\<close>

definition fits_bitmap :: "nat \<Rightarrow> MemoryDescriptor \<Rightarrow> bool" where
  "fits_bitmap sz d \<longleftrightarrow> IsUsableMemory (md_type d) \<and> mul64 (md_numPages d) 4096 \<ge> sz"

text \<open>The first loop runs while \<^verbatim>\<open>!bitmapBuffer\<close>, so a region at address 0 would not stop it;
  \<open>\<ge> 0x100000\<close> excludes that case.  The second loop takes the first region that fits; address 0
  there leaves \<^verbatim>\<open>bitmapBuffer\<close> null.\<close>

definition find_bitmap_buffer :: "nat \<Rightarrow> MemoryDescriptor list \<Rightarrow> nat option" where
  "find_bitmap_buffer sz ds =
     (case find (\<lambda>d. fits_bitmap sz d \<and> md_physAddr d \<ge> 0x100000) ds of
        Some d \<Rightarrow> Some (md_physAddr d)
      | None \<Rightarrow>
          (case find (fits_bitmap sz) ds of
             Some d \<Rightarrow> (if md_physAddr d = 0 then None else Some (md_physAddr d))
           | None \<Rightarrow> None))"

fun free_usable_loop :: "pmm \<Rightarrow> MemoryDescriptor list \<Rightarrow> pmm" where
  "free_usable_loop s [] = s"
| "free_usable_loop s (d # ds) =
     free_usable_loop
       (if IsUsableMemory (md_type d)
        then let startPage = md_physAddr d div 4096; count = md_numPages d
             in s\<lparr>totalRAM := add64 (totalRAM s) (mul64 count 4096),
                  pm_bitmap := bitmap_SetRange (pm_bitmap s) startPage count False,
                  freeRAM := add64 (freeRAM s) (mul64 count 4096)\<rparr>
        else s) ds"

definition reserve_pages :: "nat \<Rightarrow> nat \<Rightarrow> pmm \<Rightarrow> pmm" where
  "reserve_pages startPage pages s =
     s\<lparr>pm_bitmap := bitmap_SetRange (pm_bitmap s) startPage pages True,
       freeRAM := (if freeRAM s \<ge> mul64 pages 4096 then freeRAM s - mul64 pages 4096
                   else freeRAM s)\<rparr>"

definition low_pages :: nat where
  "low_pages = 0x10000000 div 4096"

definition kernel_start_page :: nat where
  "kernel_start_page = 0x40000000 div 4096"

definition kernel_pages :: nat where
  "kernel_pages = 0x01000000 div 4096"

text \<open>\<open>mem a\<close> is the byte at physical address \<open>a\<close>; the buffer the bitmap takes over is
  \<open>\<lambda>i. mem (buf + i)\<close>.\<close>

definition pmm_Init :: "(nat \<Rightarrow> u8) \<Rightarrow> BootInfo \<Rightarrow> pmm \<Rightarrow> pmm_error + pmm" where
  "pmm_Init mem bi s =
     (let entries = map_entries bi;
          h0 = highest_addr_loop 0 entries;
          h = (if h0 < 0x1000000 then 0x1000000 else h0);
          totalPages = h div 4096;
          bsize = totalPages div 8 + 1
      in case find_bitmap_buffer bsize entries of
           None \<Rightarrow> Inl PmmPanic
         | Some buf \<Rightarrow>
             let bm0 = bitmap_Init (\<lambda>i. mem (buf + i)) bsize;
                 bm1 = fill_bytes 255 0 bsize bm0;
                 s1 = s\<lparr>pm_bitmap := bm1, totalRAM := 0, freeRAM := 0,
                        bitmapSize := bsize, highestAddr := h\<rparr>;
                 s2 = free_usable_loop s1 entries;
                 s3 = reserve_pages (buf div 4096) ((bsize + 4095) div 4096) s2;
                 s4 = reserve_pages 0 low_pages s3;
                 s5 = reserve_pages kernel_start_page kernel_pages s4
             in Inr s5)"

section \<open>Allocation and release\<close>

text \<open>\<^verbatim>\<open>for (i = from; i < to; i++) if (!bitmap.Get(i)) ...\<close>\<close>

function scan_free :: "bitmap \<Rightarrow> nat \<Rightarrow> nat \<Rightarrow> nat option" where
  "scan_free b i to' =
     (if i < to' then (if \<not> bitmap_Get b i then Some i else scan_free b (i + 1) to') else None)"
  by pat_completeness auto
termination
  by (relation "measure (\<lambda>(b, i, to'). to' - i)") auto

declare scan_free.simps [simp del]

definition take_page :: "pmm \<Rightarrow> nat \<Rightarrow> pmm" where
  "take_page s i = s\<lparr>pm_bitmap := bitmap_Set (pm_bitmap s) i True,
                     freeRAM := sub64 (freeRAM s) 4096,
                     lastFreeIndex := i + 1\<rparr>"

definition AllocPage :: "pmm \<Rightarrow> nat \<times> pmm" where
  "AllocPage s =
     (let limit = highestAddr s div 4096
      in case scan_free (pm_bitmap s) (lastFreeIndex s) limit of
           Some i \<Rightarrow> (i * 4096, take_page s i)
         | None \<Rightarrow>
             (case scan_free (pm_bitmap s) 0 (lastFreeIndex s) of
                Some i \<Rightarrow> (i * 4096, take_page s i)
              | None \<Rightarrow> (0, s)))"

text \<open>The inner loop of \<^verbatim>\<open>AllocContiguous\<close>: the offset of the first page in use among
  \<open>i .. pages - 1\<close>, or \<open>None\<close> when all of them are free (\<^verbatim>\<open>found\<close>).\<close>

function first_used :: "bitmap \<Rightarrow> nat \<Rightarrow> nat \<Rightarrow> nat \<Rightarrow> nat option" where
  "first_used b start pages i =
     (if i < pages
      then (if bitmap_Get b (add64 start i) then Some i else first_used b start pages (i + 1))
      else None)"
  by pat_completeness auto
termination
  by (relation "measure (\<lambda>(b, s, p, i). p - i)") auto

declare first_used.simps [simp del]

text \<open>The outer loop: \<open>lst\<close> is \<^verbatim>\<open>limit - pages\<close>; a page in use at offset \<open>j\<close> makes the search
  skip to \<^verbatim>\<open>start + j + 1\<close>.  The loop returns \<open>Some None\<close> when it ends without a run of free
  pages; \<open>None\<close> would be a loop that never ends.\<close>

partial_function (option) find_run :: "bitmap \<Rightarrow> nat \<Rightarrow> nat \<Rightarrow> nat \<Rightarrow> nat option option" where
  "find_run b lst pages start =
     (if start \<le> lst
      then (case first_used b start pages 0 of
              None \<Rightarrow> Some (Some start)
            | Some j \<Rightarrow> find_run b lst pages (add64 (add64 start j) 1))
      else Some None)"

fun mark_run :: "nat \<Rightarrow> nat \<Rightarrow> pmm \<Rightarrow> pmm" where
  "mark_run start 0 s = s"
| "mark_run start (Suc n) s =
     (let s' = mark_run start n s
      in s'\<lparr>pm_bitmap := bitmap_Set (pm_bitmap s') (add64 start n) True,
            freeRAM := sub64 (freeRAM s') 4096\<rparr>)"

definition AllocContiguous :: "pmm \<Rightarrow> nat \<Rightarrow> (nat \<times> pmm) option" where
  "AllocContiguous s pages =
     (let limit = highestAddr s div 4096;
          start0 = 0x10000000 div 4096;
          start_search = (if lastFreeIndex s > start0 then lastFreeIndex s else start0)
      in case find_run (pm_bitmap s) (sub64 limit pages) pages start_search of
           None \<Rightarrow> None
         | Some None \<Rightarrow> Some (0, s)
         | Some (Some start) \<Rightarrow>
             let s' = mark_run start pages s
             in Some (mul64 start 4096,
                   s'\<lparr>lastFreeIndex :=
                        (if add64 start pages > lastFreeIndex s' then add64 start pages
                         else lastFreeIndex s')\<rparr>))"

definition FreePage :: "pmm \<Rightarrow> nat \<Rightarrow> pmm" where
  "FreePage s address =
     (let page = address div 4096
      in if bitmap_Get (pm_bitmap s) page
         then s\<lparr>pm_bitmap := bitmap_Set (pm_bitmap s) page False,
                freeRAM := add64 (freeRAM s) 4096\<rparr>
         else s)"

definition GetTotalMemory :: "pmm \<Rightarrow> nat" where
  "GetTotalMemory s = totalRAM s"

definition GetFreeMemory :: "pmm \<Rightarrow> nat" where
  "GetFreeMemory s = freeRAM s"

section \<open>What the scans find\<close>

lemma scan_free_Some:
  "scan_free b i n = Some p \<Longrightarrow> i \<le> p \<and> p < n \<and> \<not> bitmap_Get b p \<and> (\<forall>q. i \<le> q \<and> q < p \<longrightarrow> bitmap_Get b q)"
proof (induction b i n rule: scan_free.induct)
  case (1 b i n)
  show ?case
  proof (cases "i < n \<and> bitmap_Get b i")
    case True
    with "1.prems" have "scan_free b (i + 1) n = Some p" by (simp add: scan_free.simps [of b i])
    with "1.IH" True show ?thesis
      by (metis Suc_eq_plus1 Suc_leD le_antisym not_less_eq_eq)
  next
    case False
    with "1.prems" show ?thesis by (auto simp: scan_free.simps [of b i] split: if_splits)
  qed
qed

lemma scan_free_None: "scan_free b i n = None \<longleftrightarrow> (\<forall>q. i \<le> q \<and> q < n \<longrightarrow> bitmap_Get b q)"
proof (induction b i n rule: scan_free.induct)
  case (1 b i n)
  show ?case
  proof (cases "i < n \<and> bitmap_Get b i")
    case True
    then have "scan_free b i n = scan_free b (i + 1) n" by (simp add: scan_free.simps [of b i])
    with True 1 all_from_Suc [of "bitmap_Get b" i n] show ?thesis by simp
  next
    case False
    then show ?thesis by (auto simp: scan_free.simps [of b i])
  qed
qed

lemma first_used_None:
  "start + pages < u64_limit \<Longrightarrow>
   first_used b start pages i = None \<longleftrightarrow> (\<forall>k. i \<le> k \<and> k < pages \<longrightarrow> \<not> bitmap_Get b (start + k))"
proof (induction b start pages i rule: first_used.induct)
  case (1 b start pages i)
  show ?case
  proof (cases "i < pages \<and> \<not> bitmap_Get b (start + i)")
    case True
    then have "first_used b start pages i = first_used b start pages (i + 1)"
      using "1.prems" by (simp add: first_used.simps [of b start pages i] add64_eq)
    moreover have "bitmap_Get b (add64 start i) = bitmap_Get b (start + i)"
      using True "1.prems" by (simp add: add64_eq)
    ultimately show ?thesis
      using True 1 all_from_Suc [of "\<lambda>k. \<not> bitmap_Get b (start + k)" i pages] by simp
  next
    case False
    then show ?thesis using "1.prems"
      by (auto simp: first_used.simps [of b start pages i] add64_eq)
  qed
qed

lemma first_used_Some:
  "start + pages < u64_limit \<Longrightarrow> first_used b start pages i = Some j \<Longrightarrow>
   i \<le> j \<and> j < pages \<and> bitmap_Get b (start + j)"
proof (induction b start pages i rule: first_used.induct)
  case (1 b start pages i)
  show ?case
  proof (cases "i < pages \<and> \<not> bitmap_Get b (start + i)")
    case True
    with 1 show ?thesis
      by (simp add: first_used.simps [of b start pages i] add64_eq)
  next
    case False
    with "1.prems" show ?thesis
      by (auto simp: first_used.simps [of b start pages i] add64_eq split: if_splits)
  qed
qed

text \<open>A run of free pages of the given length starts at \<open>p\<close>.\<close>

definition free_run :: "bitmap \<Rightarrow> nat \<Rightarrow> nat \<Rightarrow> bool" where
  "free_run b pages p \<longleftrightarrow> (\<forall>k < pages. \<not> bitmap_Get b (p + k))"

lemma find_run_spec:
  assumes "lst + pages < u64_limit"
  shows "\<exists>r. find_run b lst pages start = Some r \<and>
    (case r of
       Some p \<Rightarrow> start \<le> p \<and> p \<le> lst \<and> free_run b pages p \<and>
         (\<forall>q. start \<le> q \<and> q < p \<longrightarrow> \<not> free_run b pages q)
     | None \<Rightarrow> \<forall>q. start \<le> q \<and> q \<le> lst \<longrightarrow> \<not> free_run b pages q)"
  using assms
proof (induction "Suc (lst + pages) - start" arbitrary: start rule: less_induct)
  case less
  show ?case
  proof (cases "start \<le> lst")
    case False
    then show ?thesis by (subst find_run.simps) auto
  next
    case True
    then have nw: "start + pages < u64_limit" using less.prems by simp
    show ?thesis
    proof (cases "first_used b start pages 0")
      case None
      with first_used_None [OF nw] have "free_run b pages start" by (simp add: free_run_def)
      with None True show ?thesis by (subst find_run.simps) auto
    next
      case (Some j)
      from first_used_Some [OF nw Some] have j: "j < pages" "bitmap_Get b (start + j)" by auto
      let ?n = "start + j + 1"
      have skip: "\<not> free_run b pages q" if "start \<le> q" "q < ?n" for q
      proof -
        from that have "start + j - q < pages" and "q + (start + j - q) = start + j"
          using j(1) by auto
        with j(2) show ?thesis by (metis free_run_def)
      qed
      have "add64 (add64 start j) 1 = ?n" using j nw by (simp add: add64_eq)
      then have step: "find_run b lst pages start = find_run b lst pages ?n"
        using True Some by (subst find_run.simps) simp
      have "Suc (lst + pages) - ?n < Suc (lst + pages) - start" using True j by simp
      then obtain r where r: "find_run b lst pages ?n = Some r"
        and spec: "case r of
           Some p \<Rightarrow> ?n \<le> p \<and> p \<le> lst \<and> free_run b pages p \<and>
             (\<forall>q. ?n \<le> q \<and> q < p \<longrightarrow> \<not> free_run b pages q)
         | None \<Rightarrow> \<forall>q. ?n \<le> q \<and> q \<le> lst \<longrightarrow> \<not> free_run b pages q"
        using less.hyps less.prems by blast
      have "case r of
           Some p \<Rightarrow> start \<le> p \<and> p \<le> lst \<and> free_run b pages p \<and>
             (\<forall>q. start \<le> q \<and> q < p \<longrightarrow> \<not> free_run b pages q)
         | None \<Rightarrow> \<forall>q. start \<le> q \<and> q \<le> lst \<longrightarrow> \<not> free_run b pages q"
      proof (cases r)
        case None
        then have "\<not> free_run b pages q" if "start \<le> q" "q \<le> lst" for q
          using spec skip [of q] that by (cases "q < ?n") auto
        with None show ?thesis by simp
      next
        case (Some p)
        then have "\<not> free_run b pages q" if "start \<le> q" "q < p" for q
          using spec skip [of q] that by (cases "q < ?n") auto
        with Some spec show ?thesis by simp
      qed
      with step r show ?thesis by simp
    qed
  qed
qed

lemma mark_run_spec:
  assumes "start + n < u64_limit"
  shows "bitmap_Get (pm_bitmap (mark_run start n s)) q =
           (start \<le> q \<and> q < start + n \<or> bitmap_Get (pm_bitmap s) q)
       \<and> bm_size (pm_bitmap (mark_run start n s)) = bm_size (pm_bitmap s)
       \<and> highestAddr (mark_run start n s) = highestAddr s
       \<and> lastFreeIndex (mark_run start n s) = lastFreeIndex s"
  using assms
proof (induction n)
  case 0
  then show ?case by auto
next
  case (Suc n)
  then show ?case by (auto simp: Let_def add64_eq less_Suc_eq)
qed

lemma sub64_sub64: "sub64 (sub64 a b) c = sub64 a (b + c)"
proof -
  let ?L = "u64_limit"
  have i: "int (sub64 x y) = (int x - int y) mod int ?L" for x y
  proof -
    have "int (sub64 x y) = (int x + (int ?L - int y mod int ?L)) mod int ?L"
      by (simp add: sub64_def zmod_int of_nat_diff algebra_simps)
    also have "\<dots> = (int x - int y) mod int ?L"
      by (smt (verit) mod_add_self2 mod_diff_right_eq)
    finally show ?thesis .
  qed
  have "int (sub64 (sub64 a b) c) = ((int a - int b) mod int ?L - int c) mod int ?L"
    by (simp only: i)
  also have "\<dots> = (int a - int (b + c)) mod int ?L"
    by (simp add: mod_diff_left_eq algebra_simps)
  also have "\<dots> = int (sub64 a (b + c))" by (simp only: i)
  finally show ?thesis by simp
qed

lemma mark_run_freeRAM:
  "freeRAM s < u64_limit \<Longrightarrow> freeRAM (mark_run start n s) = sub64 (freeRAM s) (n * 4096)"
  by (induction n) (auto simp: Let_def sub64_sub64 add.commute sub64_eq)

section \<open>The invariant of the allocator\<close>

definition page_limit :: "pmm \<Rightarrow> nat" where
  "page_limit s = highestAddr s div 4096"

definition page_used :: "pmm \<Rightarrow> nat \<Rightarrow> bool" where
  "page_used s p = bitmap_Get (pm_bitmap s) p"

text \<open>The bitmap has a bit for every page below \<^verbatim>\<open>highestAddr\<close>, the hint is inside, and page 0 (whose
  address is the null pointer) is never handed out.\<close>

definition pmm_inv :: "pmm \<Rightarrow> bool" where
  "pmm_inv s \<longleftrightarrow>
     highestAddr s < u64_limit \<and> lastFreeIndex s \<le> page_limit s \<and> freeRAM s < u64_limit \<and>
     bm_size (pm_bitmap s) = page_limit s div 8 + 1 \<and> page_used s 0"

lemma page_limit_less: "pmm_inv s \<Longrightarrow> page_limit s < u64_limit div 4096"
  unfolding pmm_inv_def page_limit_def by (auto intro!: less_mult_imp_div_less)

lemma AllocPage_cases:
  assumes "pmm_inv s"
  obtains (found) p where "AllocPage s = (p * 4096, take_page s p)" "p < page_limit s"
      "\<not> page_used s p" "p \<noteq> 0"
  | (full) "AllocPage s = (0, s)" "\<forall>p < page_limit s. page_used s p"
proof -
  let ?b = "pm_bitmap s" and ?h = "lastFreeIndex s" and ?l = "page_limit s"
  from assms have h: "?h \<le> ?l" and z: "bitmap_Get ?b 0"
    by (auto simp: pmm_inv_def page_used_def)
  show ?thesis
  proof (cases "scan_free ?b ?h ?l")
    case (Some p)
    from scan_free_Some [OF Some] have p: "p < ?l" "\<not> bitmap_Get ?b p" by auto
    with z have p0: "p \<noteq> 0" by metis
    show ?thesis
    proof (rule found)
      show "AllocPage s = (p * 4096, take_page s p)"
        using Some by (simp add: AllocPage_def page_limit_def Let_def)
    qed (use p p0 in \<open>auto simp: page_used_def\<close>)
  next
    case None
    show ?thesis
    proof (cases "scan_free ?b 0 ?h")
      case (Some p)
      from scan_free_Some [OF Some] h have p: "p < ?l" "\<not> bitmap_Get ?b p" by auto
      with z have p0: "p \<noteq> 0" by metis
      show ?thesis
      proof (rule found)
        show "AllocPage s = (p * 4096, take_page s p)"
          using None Some by (simp add: AllocPage_def page_limit_def Let_def)
      qed (use p p0 in \<open>auto simp: page_used_def\<close>)
    next
      case full': None
      from None full' have "\<forall>p < ?l. bitmap_Get ?b p"
        by (metis linorder_not_le scan_free_None zero_le)
      with None full' show ?thesis
        by (intro full) (auto simp: AllocPage_def page_limit_def Let_def page_used_def)
    qed
  qed
qed

lemma page_used_take_page [simp]: "page_used (take_page s p) q \<longleftrightarrow> p = q \<or> page_used s q"
  by (auto simp: page_used_def take_page_def)

lemma page_limit_take_page [simp]: "page_limit (take_page s p) = page_limit s"
  by (simp add: page_limit_def take_page_def)

lemma pmm_inv_take_page: "pmm_inv s \<Longrightarrow> p < page_limit s \<Longrightarrow> pmm_inv (take_page s p)"
  by (simp add: pmm_inv_def) (simp add: take_page_def page_limit_def)

lemma page_used_FreePage:
  "page_used (FreePage s a) q \<longleftrightarrow> page_used s q \<and> q \<noteq> a div 4096"
  by (auto simp: page_used_def FreePage_def Let_def)

lemma FreePage_fields [simp]:
  "page_limit (FreePage s a) = page_limit s"
  "highestAddr (FreePage s a) = highestAddr s"
  "lastFreeIndex (FreePage s a) = lastFreeIndex s"
  "bm_size (pm_bitmap (FreePage s a)) = bm_size (pm_bitmap s)"
  by (simp_all add: FreePage_def Let_def page_limit_def)

lemma pmm_inv_FreePage: "pmm_inv s \<Longrightarrow> 4096 \<le> a \<Longrightarrow> pmm_inv (FreePage s a)"
  by (auto simp: pmm_inv_def page_used_FreePage) (simp add: FreePage_def Let_def)

section \<open>PMM keeps the page allocator contract\<close>

definition pmm_frames :: "pmm \<Rightarrow> addr set" where
  "pmm_frames s = {p * 4096 | p. 0 < p \<and> p < page_limit s}"

definition pmm_in_use :: "pmm \<Rightarrow> addr set" where
  "pmm_in_use s = {p * 4096 | p. 0 < p \<and> p < page_limit s \<and> page_used s p}"

lemma pmm_in_use_take_page:
  "0 < p \<Longrightarrow> p < page_limit s \<Longrightarrow> pmm_in_use (take_page s p) = insert (p * 4096) (pmm_in_use s)"
  by (auto simp: pmm_in_use_def)

lemma pmm_in_use_FreePage: "pmm_in_use (FreePage s (p * 4096)) = pmm_in_use s - {p * 4096}"
  by (auto simp: pmm_in_use_def page_used_FreePage)

interpretation frames: page_allocator AllocPage FreePage pmm_frames pmm_in_use pmm_inv
proof
  fix s a s'
  assume inv: "pmm_inv s" and al: "AllocPage s = (a, s')"
  show "pmm_inv s' \<and> pmm_frames s' = pmm_frames s"
    using inv
  proof (cases rule: AllocPage_cases)
    case (found p)
    with al inv show ?thesis by (auto simp: pmm_frames_def pmm_inv_take_page)
  next
    case full
    with al inv show ?thesis by simp
  qed
next
  fix s a s'
  assume inv: "pmm_inv s" and al: "AllocPage s = (a, s')" and nz: "a \<noteq> 0"
  show "a \<in> pmm_frames s \<and> a \<notin> pmm_in_use s \<and> pmm_in_use s' = insert a (pmm_in_use s)"
    using inv
  proof (cases rule: AllocPage_cases)
    case (found p)
    with al have a: "a = p * 4096" "s' = take_page s p" by auto
    from found have "a \<in> pmm_frames s" by (auto simp: pmm_frames_def a)
    moreover from found have "a \<notin> pmm_in_use s" by (auto simp: pmm_in_use_def a)
    ultimately show ?thesis using found pmm_in_use_take_page [of p s] by (simp add: a)
  next
    case full
    with al nz show ?thesis by simp
  qed
next
  fix s s'
  assume inv: "pmm_inv s" and al: "AllocPage s = (0, s')"
  show "s' = s \<and> pmm_frames s \<subseteq> pmm_in_use s"
    using inv
  proof (cases rule: AllocPage_cases)
    case (found p)
    with al show ?thesis by simp
  next
    case full
    with al show ?thesis by (auto simp: pmm_frames_def pmm_in_use_def)
  qed
next
  fix s a
  assume "pmm_inv s" and a: "a \<in> pmm_frames s"
  then show "pmm_in_use (FreePage s a) = pmm_in_use s - {a}"
    by (auto simp: pmm_frames_def pmm_in_use_FreePage)
next
  fix s a
  assume inv: "pmm_inv s" and a: "a \<in> pmm_frames s"
  from a have "4096 \<le> a" by (auto simp: pmm_frames_def)
  with inv show "pmm_inv (FreePage s a) \<and> pmm_frames (FreePage s a) = pmm_frames s"
    by (simp add: pmm_inv_FreePage pmm_frames_def)
next
  show "0 \<notin> pmm_frames s" for s by (simp add: pmm_frames_def)
qed

section \<open>Initialisation\<close>

text \<open>No region of the memory map wraps around.\<close>

definition sane_map :: "MemoryDescriptor list \<Rightarrow> bool" where
  "sane_map ds \<longleftrightarrow> (\<forall>d \<in> set ds. md_physAddr d + md_numPages d * 4096 < u64_limit)"

text \<open>Page \<open>p\<close> lies in a region of a usable type.\<close>

definition usable_page :: "MemoryDescriptor list \<Rightarrow> nat \<Rightarrow> bool" where
  "usable_page ds p \<longleftrightarrow> (\<exists>d \<in> set ds. IsUsableMemory (md_type d) \<and>
     md_physAddr d div 4096 \<le> p \<and> p < md_physAddr d div 4096 + md_numPages d)"

lemma sane_map_Cons:
  "sane_map (d # ds) \<Longrightarrow> md_physAddr d div 4096 + md_numPages d < u64_limit \<and> sane_map ds"
  by (auto simp: sane_map_def)

lemma free_usable_loop_spec:
  assumes "sane_map ds"
  shows "page_used (free_usable_loop s ds) p \<longleftrightarrow> page_used s p \<and> \<not> usable_page ds p"
    and "bm_size (pm_bitmap (free_usable_loop s ds)) = bm_size (pm_bitmap s)"
    and "highestAddr (free_usable_loop s ds) = highestAddr s"
    and "lastFreeIndex (free_usable_loop s ds) = lastFreeIndex s"
    and "bitmapSize (free_usable_loop s ds) = bitmapSize s"
    and "freeRAM s < u64_limit \<Longrightarrow> freeRAM (free_usable_loop s ds) < u64_limit"
  using assms
proof (induction s ds rule: free_usable_loop.induct)
  case (1 s)
  { case 1 then show ?case by (simp add: usable_page_def) }
  { case 2 then show ?case by simp }
  { case 3 then show ?case by simp }
  { case 4 then show ?case by simp }
  { case 5 then show ?case by simp }
  { case 6 then show ?case by simp }
next
  case (2 s d ds)
  note IH = 2
  { case 1
    note c = sane_map_Cons [OF 1]
    show ?case
      using IH(1) c by (auto simp: usable_page_def page_used_def Let_def bitmap_SetRange_Get) }
  { case 2 with IH(2) sane_map_Cons [OF 2] show ?case by (auto simp: Let_def) }
  { case 3 with IH(3) sane_map_Cons [OF 3] show ?case by (auto simp: Let_def) }
  { case 4 with IH(4) sane_map_Cons [OF 4] show ?case by (auto simp: Let_def) }
  { case 5 with IH(5) sane_map_Cons [OF 5] show ?case by (auto simp: Let_def) }
  { case 6 with IH(6) sane_map_Cons [OF 6(2)] show ?case by (auto simp: Let_def) }
qed

lemma reserve_pages_spec:
  assumes "start + n < u64_limit"
  shows "page_used (reserve_pages start n s) p \<longleftrightarrow> start \<le> p \<and> p < start + n \<or> page_used s p"
    and "bm_size (pm_bitmap (reserve_pages start n s)) = bm_size (pm_bitmap s)"
    and "highestAddr (reserve_pages start n s) = highestAddr s"
    and "lastFreeIndex (reserve_pages start n s) = lastFreeIndex s"
    and "bitmapSize (reserve_pages start n s) = bitmapSize s"
    and "freeRAM s < u64_limit \<Longrightarrow> freeRAM (reserve_pages start n s) < u64_limit"
  using assms by (auto simp: reserve_pages_def page_used_def bitmap_SetRange_Get)

lemmas init_page_simps = free_usable_loop_spec reserve_pages_spec

lemma highest_addr_loop_less: "h < u64_limit \<Longrightarrow> highest_addr_loop h ds < u64_limit"
  by (induction h ds rule: highest_addr_loop.induct) (auto simp: region_end_def)

lemma find_bitmap_buffer_in:
  "find_bitmap_buffer sz ds = Some buf \<Longrightarrow> \<exists>d \<in> set ds. md_physAddr d = buf \<and> fits_bitmap sz d"
  by (auto simp: find_bitmap_buffer_def find_Some_iff split: option.splits if_splits)

text \<open>The stages of a successful \<^verbatim>\<open>Init\<close>, with the buffer it chose.\<close>

definition init_start :: "(nat \<Rightarrow> u8) \<Rightarrow> nat \<Rightarrow> nat \<Rightarrow> nat \<Rightarrow> pmm \<Rightarrow> pmm" where
  "init_start mem buf bsize h s =
     s\<lparr>pm_bitmap := fill_bytes 255 0 bsize (bitmap_Init (\<lambda>i. mem (buf + i)) bsize),
       totalRAM := 0, freeRAM := 0, bitmapSize := bsize, highestAddr := h\<rparr>"

lemma page_used_init_start: "p < 8 * bsize \<Longrightarrow> page_used (init_start mem buf bsize h s) p"
  using fill_bytes_Get [of True 0 bsize "bitmap_Init (\<lambda>i. mem (buf + i)) bsize" p]
  by (simp add: init_start_def page_used_def)

lemma pmm_Init_stages:
  assumes "pmm_Init mem bi s = Inr s'"
  obtains buf h where "h < u64_limit" "h = max 0x1000000 (highest_addr_loop 0 (map_entries bi))"
    "find_bitmap_buffer (h div 4096 div 8 + 1) (map_entries bi) = Some buf"
    "s' = reserve_pages kernel_start_page kernel_pages (reserve_pages 0 low_pages
        (reserve_pages (buf div 4096) ((h div 4096 div 8 + 1 + 4095) div 4096)
          (free_usable_loop (init_start mem buf (h div 4096 div 8 + 1) h s) (map_entries bi))))"
proof -
  let ?h0 = "highest_addr_loop 0 (map_entries bi)"
  let ?h = "if ?h0 < 0x1000000 then 0x1000000 else ?h0"
  from assms obtain buf where
    "find_bitmap_buffer (?h div 4096 div 8 + 1) (map_entries bi) = Some buf"
    unfolding pmm_Init_def Let_def by (auto split: option.splits)
  moreover from this assms have "s' = reserve_pages kernel_start_page kernel_pages
      (reserve_pages 0 low_pages (reserve_pages (buf div 4096)
        ((?h div 4096 div 8 + 1 + 4095) div 4096)
        (free_usable_loop (init_start mem buf (?h div 4096 div 8 + 1) ?h s) (map_entries bi))))"
    unfolding pmm_Init_def Let_def init_start_def by simp
  moreover have "?h < u64_limit" using highest_addr_loop_less [of 0] by simp
  ultimately show thesis by (intro that [of ?h buf]) auto
qed

section \<open>Properties\<close>

lemma pmm_inv_limit_bytes: "pmm_inv s \<Longrightarrow> page_limit s * 4096 < u64_limit"
  unfolding pmm_inv_def page_limit_def
  by (meson div_times_less_eq_dividend le_less_trans)

lemma AllocPage_freeRAM: "p \<noteq> 0 \<Longrightarrow> freeRAM (take_page s p) = sub64 (freeRAM s) 4096"
  by (simp add: take_page_def)

text \<open>C1. \<^verbatim>\<open>PMM::AllocPage\<close> is correct on both branches: a non-null result is the address of a page
  below \<^verbatim>\<open>highestAddr\<close> that was free, it is marked used and no other page changes, and 4096 bytes
  are taken from \<^verbatim>\<open>freeRAM\<close>; a null result leaves the state alone and is returned only when every
  page is in use (the search from the hint and the fallback together miss nothing).\<close>

theorem AllocPage_correct:
  assumes "pmm_inv s" and "AllocPage s = (a, s')"
  shows "pmm_inv s' \<and>
    (if a = 0 then s' = s \<and> (\<forall>p < page_limit s. page_used s p)
     else a mod 4096 = 0 \<and> a div 4096 < page_limit s \<and> \<not> page_used s (a div 4096) \<and>
          (\<forall>q. page_used s' q \<longleftrightarrow> q = a div 4096 \<or> page_used s q) \<and>
          freeRAM s' = sub64 (freeRAM s) 4096)"
  using assms(1)
proof (cases rule: AllocPage_cases)
  case (found p)
  with assms show ?thesis by (auto simp: pmm_inv_take_page AllocPage_freeRAM)
next
  case full
  with assms show ?thesis by auto
qed

text \<open>A small machine for the witnesses: 16 MB, all pages used but page 5.\<close>

definition tiny_pmm :: pmm where
  "tiny_pmm = \<lparr>pm_bitmap = bitmap_Set (bitmap_Init (\<lambda>k. if k < 513 then 255 else 0) 513) 5 False,
     totalRAM = 0x1000000, freeRAM = 8192, bitmapSize = 513, highestAddr = 0x1000000,
     lastFreeIndex = 4090\<rparr>"

lemma Get_ones: "bitmap_Get (bitmap_Init (\<lambda>k. if k < n then 255 else 0) m) p \<longleftrightarrow> p < 8 * n"
proof -
  have "(255 :: u8) = mask 8" by (simp add: mask_eq_exp_minus_1)
  then have "bit (255 :: u8) (p mod 8)" by (simp only: bit_mask_iff) simp
  moreover have "p div 8 < n \<longleftrightarrow> p < 8 * n" by (auto simp: less_mult_imp_div_less mult.commute)
  ultimately show ?thesis by (simp add: bitmap_Get_bit bitmap_Init_def)
qed

lemma tiny_pmm_used: "page_used tiny_pmm p \<longleftrightarrow> p \<noteq> 5 \<and> p < 4104"
  by (auto simp: page_used_def tiny_pmm_def Get_ones)

lemma tiny_pmm_inv: "pmm_inv tiny_pmm"
  by (simp add: pmm_inv_def tiny_pmm_used page_limit_def)
     (simp add: tiny_pmm_def bitmap_Init_def)

lemma AllocPage_correct_witness: "\<exists>a s'. AllocPage tiny_pmm = (a, s') \<and> a \<noteq> 0 \<and> page_used s' 5"
proof -
  obtain a s' where al: "AllocPage tiny_pmm = (a, s')" by fastforce
  note c = AllocPage_correct [OF tiny_pmm_inv al]
  have l: "page_limit tiny_pmm = 4096" by (simp add: page_limit_def tiny_pmm_def)
  have "a \<noteq> 0"
  proof
    assume "a = 0"
    with c have "page_used tiny_pmm 5" by (simp add: l)
    then show False by (simp add: tiny_pmm_used)
  qed
  moreover from c this have "a div 4096 < 4096" "\<not> page_used tiny_pmm (a div 4096)"
    by (auto simp: l)
  then have "a div 4096 = 5" by (auto simp: tiny_pmm_used)
  ultimately show ?thesis using c al by (intro exI [of _ a] exI [of _ s']) auto
qed

text \<open>C2. Any sequence of page allocations and releases by clients leaves them with pairwise
  distinct, page-aligned, non-null frames below \<^verbatim>\<open>highestAddr\<close>: no frame is ever handed out while
  it is owned.\<close>

theorem pmm_requests_never_share_a_frame:
  assumes "pmm_inv s" and "run_reqs AllocPage FreePage rs s [] = (owned, s')"
  shows "distinct owned \<and> (\<forall>a \<in> set owned. a \<noteq> 0 \<and> a mod 4096 = 0 \<and> a < highestAddr s)"
proof -
  note f = frames.run_reqs_fresh [OF assms]
  have "a mod 4096 = 0 \<and> a < highestAddr s" if "a \<in> pmm_frames s" for a
  proof -
    from that obtain p where "a = p * 4096" "p < page_limit s" by (auto simp: pmm_frames_def)
    moreover from this have "p * 4096 < page_limit s * 4096" by simp
    moreover have "page_limit s * 4096 \<le> highestAddr s" by (simp add: page_limit_def)
    ultimately show ?thesis by simp
  qed
  then have "\<forall>a \<in> set owned. a mod 4096 = 0 \<and> a < highestAddr s" using f by auto
  moreover have "a \<noteq> 0" if "a \<in> set owned" for a using f that by metis
  ultimately show ?thesis using f by simp
qed

lemma pmm_requests_never_share_a_frame_witness:
  "distinct (fst (run_reqs AllocPage FreePage [ReqAlloc, ReqAlloc, ReqFree 0, ReqAlloc] tiny_pmm []))"
proof -
  obtain owned s' where r: "run_reqs AllocPage FreePage
      [ReqAlloc, ReqAlloc, ReqFree 0, ReqAlloc] tiny_pmm [] = (owned, s')" by (rule prod.exhaust)
  from pmm_requests_never_share_a_frame [OF tiny_pmm_inv r] show ?thesis
    by (simp only: r fst_conv)
qed

lemma AllocContiguous_start:
  assumes "pmm_inv s" and "pages \<le> page_limit s" and "start \<le> page_limit s - pages"
  shows "add64 start pages = start + pages" "mul64 start 4096 = start * 4096"
proof -
  note b = pmm_inv_limit_bytes [OF assms(1)]
  from assms have "start + pages \<le> page_limit s" by simp
  with b show "add64 start pages = start + pages" by (simp add: add64_eq)
  from assms have "start * 4096 \<le> page_limit s * 4096" by simp
  with b show "mul64 start 4096 = start * 4096" by (simp add: mul64_eq)
qed

lemma AllocContiguous_max:
  "AllocContiguous s pages =
     (case find_run (pm_bitmap s) (sub64 (page_limit s) pages) pages (max (lastFreeIndex s) 65536) of
        None \<Rightarrow> None
      | Some None \<Rightarrow> Some (0, s)
      | Some (Some start) \<Rightarrow>
          Some (mul64 start 4096,
            (mark_run start pages s)\<lparr>lastFreeIndex :=
               (if add64 start pages > lastFreeIndex (mark_run start pages s)
                then add64 start pages else lastFreeIndex (mark_run start pages s))\<rparr>))"
proof -
  have "(if lastFreeIndex s > 0x10000000 div 4096 then lastFreeIndex s else 0x10000000 div 4096)
      = max (lastFreeIndex s) 65536" by auto
  then show ?thesis by (simp only: AllocContiguous_def Let_def page_limit_def)
qed

text \<open>\<^verbatim>\<open>PMM::AllocContiguous\<close>, for a request that fits the machine, always returns; a non-null
  result is the lowest run of free pages at or after the search start (256 MB or the hint), the
  whole run and nothing else becomes used, and \<^verbatim>\<open>freeRAM\<close> drops by its size; a null result means
  that no such run exists.  The skip-ahead over a page in use never misses a run.\<close>

theorem AllocContiguous_correct:
  assumes "pmm_inv s" and "pages \<le> page_limit s"
  shows "\<exists>a s'. AllocContiguous s pages = Some (a, s') \<and> pmm_inv s' \<and>
    (let first = max (lastFreeIndex s) 65536; p = a div 4096
     in if a = 0
        then s' = s \<and> (\<forall>q. first \<le> q \<and> q + pages \<le> page_limit s \<longrightarrow>
               (\<exists>k < pages. page_used s (q + k)))
        else a = p * 4096 \<and> first \<le> p \<and> p + pages \<le> page_limit s \<and>
             (\<forall>k < pages. \<not> page_used s (p + k)) \<and>
             (\<forall>q. page_used s' q \<longleftrightarrow> p \<le> q \<and> q < p + pages \<or> page_used s q) \<and>
             (\<forall>q. first \<le> q \<and> q < p \<longrightarrow> (\<exists>k < pages. page_used s (q + k))) \<and>
             freeRAM s' = sub64 (freeRAM s) (pages * 4096))"
proof -
  let ?f = "max (lastFreeIndex s) 65536" and ?l = "page_limit s - pages"
  note b = pmm_inv_limit_bytes [OF assms(1)]
  have lst: "sub64 (page_limit s) pages = ?l" using assms b by (simp add: sub64_eq)
  from b assms have "?l + pages < u64_limit" by simp
  from find_run_spec [OF this, of "pm_bitmap s" ?f] obtain r
    where r: "find_run (pm_bitmap s) ?l pages ?f = Some r"
      and spec: "case r of
       Some p \<Rightarrow> ?f \<le> p \<and> p \<le> ?l \<and> free_run (pm_bitmap s) pages p \<and>
         (\<forall>q. ?f \<le> q \<and> q < p \<longrightarrow> \<not> free_run (pm_bitmap s) pages q)
     | None \<Rightarrow> \<forall>q. ?f \<le> q \<and> q \<le> ?l \<longrightarrow> \<not> free_run (pm_bitmap s) pages q" by auto
  have le: "q \<le> ?l \<longleftrightarrow> q + pages \<le> page_limit s" for q using assms(2) by auto
  show ?thesis
  proof (cases r)
    case None
    with r lst have "AllocContiguous s pages = Some (0, s)" by (simp add: AllocContiguous_max)
    moreover from spec None have "\<forall>q. ?f \<le> q \<and> q + pages \<le> page_limit s \<longrightarrow>
        (\<exists>k < pages. page_used s (q + k))"
      by (auto simp: le free_run_def page_used_def)
    ultimately show ?thesis using assms(1) by (intro exI [of _ 0] exI [of _ s]) (simp add: Let_def)
  next
    case (Some p)
    with spec have p: "?f \<le> p" "p \<le> ?l" "free_run (pm_bitmap s) pages p"
      and first: "\<forall>q. ?f \<le> q \<and> q < p \<longrightarrow> \<not> free_run (pm_bitmap s) pages q" by auto
    note st = AllocContiguous_start [OF assms p(2)]
    from p have pl: "p + pages \<le> page_limit s" by (simp add: le)
    with b have nw: "p + pages < u64_limit" by simp
    let ?s = "(mark_run p pages s)\<lparr>lastFreeIndex :=
        (if p + pages > lastFreeIndex (mark_run p pages s) then p + pages
         else lastFreeIndex (mark_run p pages s))\<rparr>"
    have al: "AllocContiguous s pages = Some (p * 4096, ?s)"
      using r lst Some st by (simp add: AllocContiguous_max)
    note m = mark_run_spec [OF nw, of s]
    have used: "page_used ?s q \<longleftrightarrow> p \<le> q \<and> q < p + pages \<or> page_used s q" for q
      using m [of q] by (simp add: page_used_def)
    have ram: "freeRAM ?s = sub64 (freeRAM s) (pages * 4096)"
      using assms(1) by (simp add: mark_run_freeRAM pmm_inv_def)
    have "pmm_inv ?s"
      using assms(1) m pl ram used unfolding pmm_inv_def page_limit_def by auto
    with al used ram p pl first show ?thesis
      by (intro exI [of _ "p * 4096"] exI [of _ ?s])
         (auto simp: Let_def free_run_def page_used_def)
  qed
qed

lemma AllocContiguous_correct_witness:
  "\<exists>a s'. AllocContiguous tiny_pmm 2 = Some (a, s') \<and> a = 0"
proof -
  have l: "page_limit tiny_pmm = 4096" by (simp add: page_limit_def tiny_pmm_def)
  then have "2 \<le> page_limit tiny_pmm" by simp
  from AllocContiguous_correct [OF tiny_pmm_inv this] show ?thesis
    by (fastforce simp: Let_def l split: if_splits)
qed

text \<open>A request for more pages than the machine has makes \<^verbatim>\<open>limit - pages\<close> wrap around: when the
  memory behind the bitmap reads as zero bits, the request is granted with an address range that
  ends above \<^verbatim>\<open>highestAddr\<close>.\<close>

theorem AllocContiguous_underflow:
  assumes "pmm_inv s" and "page_limit s < pages" and "pages < 2 ^ 40"
    and "start = max (lastFreeIndex s) 65536" and "free_run (pm_bitmap s) pages start"
  shows "\<exists>s'. AllocContiguous s pages = Some (start * 4096, s') \<and> page_limit s < start + pages"
proof -
  from page_limit_less [OF assms(1)] have l: "page_limit s < 4503599627370496" by simp
  have lst: "sub64 (page_limit s) pages = u64_limit - (pages - page_limit s)"
    using assms(2,3) by (simp add: sub64_underflow)
  have h: "lastFreeIndex s \<le> page_limit s" using assms(1) by (simp add: pmm_inv_def)
  then have st: "start < 4503599627370496" using l assms(4) by auto
  then have nw: "start + pages < u64_limit" using assms(3) by simp
  from first_used_None [OF nw, of "pm_bitmap s" 0] assms(5)
  have "first_used (pm_bitmap s) start pages 0 = None" by (simp add: free_run_def)
  moreover have "start \<le> u64_limit - (pages - page_limit s)" using st assms(3) by simp
  ultimately have "find_run (pm_bitmap s) (sub64 (page_limit s) pages) pages start
      = Some (Some start)" by (subst find_run.simps) (simp add: lst)
  with assms(4) have "\<exists>s'. AllocContiguous s pages = Some (mul64 start 4096, s')"
    by (simp add: AllocContiguous_max)
  moreover have "mul64 start 4096 = start * 4096" using st by (simp add: mul64_eq)
  ultimately show ?thesis using assms(2) by auto
qed

lemma AllocContiguous_underflow_witness:
  "\<exists>s'. AllocContiguous tiny_pmm 5000 = Some (65536 * 4096, s')"
proof -
  have "free_run (pm_bitmap tiny_pmm) 5000 65536"
    using tiny_pmm_used by (auto simp: free_run_def page_used_def)
  then have "\<exists>s'. AllocContiguous tiny_pmm 5000 = Some (65536 * 4096, s') \<and>
      page_limit tiny_pmm < 65536 + 5000"
    by (intro AllocContiguous_underflow tiny_pmm_inv)
       (simp_all add: tiny_pmm_def page_limit_def)
  then show ?thesis by blast
qed

lemma init_reserved_sizes:
  assumes "h < u64_limit" and "md_physAddr d + md_numPages d * 4096 < u64_limit"
    and "fits_bitmap (h div 4096 div 8 + 1) d"
  shows "md_physAddr d div 4096 + (h div 4096 div 8 + 1 + 4095) div 4096 < u64_limit"
proof -
  have "h div 4096 div 8 < u64_limit div 4096 div 8"
    using assms(1) by (intro less_mult_imp_div_less) simp
  then have "(h div 4096 div 8 + 1 + 4095) div 4096 < 1000000000000" by simp
  moreover have "md_physAddr d div 4096 < 4503599627370496"
    using assms(2) by (intro less_mult_imp_div_less) simp
  ultimately show ?thesis by simp
qed

lemma init_start_fields [simp]:
  "bm_size (pm_bitmap (init_start mem buf bsize h s)) = bsize"
  "bitmapSize (init_start mem buf bsize h s) = bsize"
  "highestAddr (init_start mem buf bsize h s) = h"
  "lastFreeIndex (init_start mem buf bsize h s) = lastFreeIndex s"
  "freeRAM (init_start mem buf bsize h s) = 0"
  by (simp_all add: init_start_def bitmap_Init_def)

lemma pmm_Init_result:
  assumes "pmm_Init mem bi s = Inr s'" and "sane_map (map_entries bi)"
  obtains buf h where "h < u64_limit" "h = max 0x1000000 (highest_addr_loop 0 (map_entries bi))"
    "highestAddr s' = h"
    "bm_size (pm_bitmap s') = h div 4096 div 8 + 1" "bitmapSize s' = h div 4096 div 8 + 1"
    "lastFreeIndex s' = lastFreeIndex s" "freeRAM s' < u64_limit"
    "\<And>p. page_used s' p \<longleftrightarrow> 262144 \<le> p \<and> p < 266240 \<or> p < 65536 \<or>
      buf div 4096 \<le> p \<and> p < buf div 4096 + (h div 4096 div 8 + 1 + 4095) div 4096 \<or>
      page_used (init_start mem buf (h div 4096 div 8 + 1) h s) p \<and>
        \<not> usable_page (map_entries bi) p"
proof -
  from assms(1) obtain buf h where h: "h < u64_limit"
      "h = max 0x1000000 (highest_addr_loop 0 (map_entries bi))"
    and buf: "find_bitmap_buffer (h div 4096 div 8 + 1) (map_entries bi) = Some buf"
    and s': "s' = reserve_pages kernel_start_page kernel_pages (reserve_pages 0 low_pages
        (reserve_pages (buf div 4096) ((h div 4096 div 8 + 1 + 4095) div 4096)
          (free_usable_loop (init_start mem buf (h div 4096 div 8 + 1) h s) (map_entries bi))))"
    by (rule pmm_Init_stages)
  let ?bs = "h div 4096 div 8 + 1"
  from find_bitmap_buffer_in [OF buf] assms(2)
  obtain d where "md_physAddr d = buf" "fits_bitmap ?bs d"
      "md_physAddr d + md_numPages d * 4096 < u64_limit" by (auto simp: sane_map_def)
  then have nw: "buf div 4096 + (?bs + 4095) div 4096 < u64_limit"
    using init_reserved_sizes [OF h(1)] by auto
  have sizes: "low_pages = 65536" "kernel_start_page = 262144" "kernel_pages = 4096"
    by (simp_all add: low_pages_def kernel_start_page_def kernel_pages_def)
  note simps = s' sizes init_page_simps assms(2)
  show thesis
    by (rule that [of h buf]) (use nw h in \<open>simp_all add: simps\<close>)
qed

text \<open>After a successful \<^verbatim>\<open>PMM::Init\<close> on a memory map whose regions do not wrap, a page that the
  bitmap covers is free exactly when it lies in a usable region and outside the low 256 MB, the 16 MB
  of the kernel image at 1 GB and the pages of the bitmap itself; and the allocator's invariant
  holds, so the allocation theorems apply from boot.\<close>

theorem pmm_Init_free_pages:
  assumes "pmm_Init mem bi s = Inr s'" and "sane_map (map_entries bi)" and "lastFreeIndex s = 0"
  shows "pmm_inv s' \<and> (\<exists>buf. \<forall>p < 8 * bitmapSize s'. \<not> page_used s' p \<longleftrightarrow>
     usable_page (map_entries bi) p \<and> 65536 \<le> p \<and> \<not> (262144 \<le> p \<and> p < 266240) \<and>
     \<not> (buf div 4096 \<le> p \<and> p < buf div 4096 + (bitmapSize s' + 4095) div 4096))"
  using assms(1,2)
proof (rule pmm_Init_result)
  fix buf h
  assume r: "h < u64_limit" "highestAddr s' = h"
    "bm_size (pm_bitmap s') = h div 4096 div 8 + 1" "bitmapSize s' = h div 4096 div 8 + 1"
    "lastFreeIndex s' = lastFreeIndex s" "freeRAM s' < u64_limit"
    and used: "\<And>p. page_used s' p \<longleftrightarrow> 262144 \<le> p \<and> p < 266240 \<or> p < 65536 \<or>
      buf div 4096 \<le> p \<and> p < buf div 4096 + (h div 4096 div 8 + 1 + 4095) div 4096 \<or>
      page_used (init_start mem buf (h div 4096 div 8 + 1) h s) p \<and>
        \<not> usable_page (map_entries bi) p"
  have "pmm_inv s'"
    using r assms(3) used [of 0] by (simp add: pmm_inv_def page_limit_def)
  moreover have "\<forall>p < 8 * bitmapSize s'. \<not> page_used s' p \<longleftrightarrow>
     usable_page (map_entries bi) p \<and> 65536 \<le> p \<and> \<not> (262144 \<le> p \<and> p < 266240) \<and>
     \<not> (buf div 4096 \<le> p \<and> p < buf div 4096 + (bitmapSize s' + 4095) div 4096)"
    using page_used_init_start [of _ "h div 4096 div 8 + 1" mem buf h s] by (auto simp: used r)
  ultimately show ?thesis by blast
qed

text \<open>A machine with 2 GB: low memory, one large conventional region, a reserved hole.\<close>

definition two_gb_map :: BootInfo where
  "two_gb_map = \<lparr>memoryMap = [\<lparr>md_type = 7, md_physAddr = 0, md_numPages = 160\<rparr>,
       \<lparr>md_type = 0, md_physAddr = 0xA0000, md_numPages = 96\<rparr>,
       \<lparr>md_type = 7, md_physAddr = 0x100000, md_numPages = 524032\<rparr>],
     memoryMapSize = 144, memoryMapDescriptorSize = 48\<rparr>"

definition zero_pmm :: pmm where
  "zero_pmm = \<lparr>pm_bitmap = bitmap_Init (\<lambda>_. 0) 0, totalRAM = 0, freeRAM = 0, bitmapSize = 0,
     highestAddr = 0, lastFreeIndex = 0\<rparr>"

lemma two_gb_init: "\<exists>s'. pmm_Init (\<lambda>_. 0) two_gb_map zero_pmm = Inr s'"
  by (simp add: pmm_Init_def two_gb_map_def map_entries_def region_end_def add64_def mul64_def
      find_bitmap_buffer_def fits_bitmap_def IsUsableMemory_def Let_def)

lemma pmm_Init_free_pages_witness:
  "\<exists>s'. pmm_Init (\<lambda>_. 0) two_gb_map zero_pmm = Inr s' \<and> pmm_inv s'"
proof -
  from two_gb_init obtain s' where s': "pmm_Init (\<lambda>_. 0) two_gb_map zero_pmm = Inr s'" by blast
  have "sane_map (map_entries two_gb_map)"
    by (simp add: sane_map_def map_entries_def two_gb_map_def)
  from pmm_Init_free_pages [OF s' this] s' show ?thesis by (simp add: zero_pmm_def)
qed

text \<open>On a machine whose highest address is below 1 GB, \<^verbatim>\<open>PMM::Init\<close> writes outside the bitmap
  buffer it chose: reserving the kernel image sets the byte at offset 32768 to 0xFF although the
  buffer has at most 32768 bytes.\<close>

theorem pmm_Init_writes_past_bitmap:
  assumes "pmm_Init mem bi s = Inr s'" and "sane_map (map_entries bi)"
    and "highestAddr s' < 0x40000000"
  shows "bm_size (pm_bitmap s') \<le> 32768 \<and> bm_data (pm_bitmap s') 32768 = 255"
  using assms(1,2)
proof (rule pmm_Init_result)
  fix buf h
  assume h: "highestAddr s' = h" and size: "bm_size (pm_bitmap s') = h div 4096 div 8 + 1"
    and used: "\<And>p. page_used s' p \<longleftrightarrow> 262144 \<le> p \<and> p < 266240 \<or> p < 65536 \<or>
      buf div 4096 \<le> p \<and> p < buf div 4096 + (h div 4096 div 8 + 1 + 4095) div 4096 \<or>
      page_used (init_start mem buf (h div 4096 div 8 + 1) h s) p \<and>
        \<not> usable_page (map_entries bi) p"
  from assms(3) h size have "bm_size (pm_bitmap s') \<le> 32768" by simp
  moreover have "bm_data (pm_bitmap s') 32768 = 255"
  proof (rule u8_eqI)
    fix n :: nat assume n: "n < 8"
    then have "page_used s' (262144 + n)" by (simp add: used)
    moreover have "(262144 + n) div 8 = 32768" "(262144 + n) mod 8 = n" using n by presburger+
    ultimately have "bit (bm_data (pm_bitmap s') 32768) n"
      by (simp add: page_used_def bitmap_Get_bit)
    moreover have "bit (255 :: u8) n"
      using Get_ones [of 1 0 n] n by (simp add: bitmap_Get_bit bitmap_Init_def)
    ultimately show "bit (bm_data (pm_bitmap s') 32768) n = bit (255 :: u8) n" by simp
  qed
  ultimately show ?thesis by simp
qed

definition half_gb_map :: BootInfo where
  "half_gb_map = \<lparr>memoryMap = [\<lparr>md_type = 7, md_physAddr = 0x100000, md_numPages = 130816\<rparr>],
     memoryMapSize = 48, memoryMapDescriptorSize = 48\<rparr>"

lemma pmm_Init_writes_past_bitmap_witness:
  "\<exists>s'. pmm_Init (\<lambda>_. 0) half_gb_map zero_pmm = Inr s' \<and> bm_data (pm_bitmap s') 32768 = 255"
proof -
  have "\<exists>s'. pmm_Init (\<lambda>_. 0) half_gb_map zero_pmm = Inr s'"
    by (simp add: pmm_Init_def half_gb_map_def map_entries_def region_end_def add64_def mul64_def
        find_bitmap_buffer_def fits_bitmap_def IsUsableMemory_def Let_def)
  then obtain s' where s': "pmm_Init (\<lambda>_. 0) half_gb_map zero_pmm = Inr s'" by blast
  have m: "sane_map (map_entries half_gb_map)"
    by (simp add: sane_map_def map_entries_def half_gb_map_def)
  have "highestAddr s' < 0x40000000"
    by (rule pmm_Init_result [OF s' m])
       (simp add: half_gb_map_def map_entries_def region_end_def add64_def mul64_def)
  from pmm_Init_writes_past_bitmap [OF s' m this] s' show ?thesis by blast
qed

end
