(* ===== verification/MMU.thy ===== *)
theory MMU
  imports PMM
begin

text \<open>
  The x86-64 page tables, \<^verbatim>\<open>kernel/hal/arch/x86_64/mmu.cpp\<close>.  Physical memory is seen through the
  identity map the kernel runs on: \<open>pg_mem s p i\<close> is the 64-bit word \<open>i\<close> of the page at physical
  address \<open>p\<close> (\<^verbatim>\<open>((uint64_t*)p)[i]\<close>; table addresses are page aligned because \<^verbatim>\<open>PTE_ADDR_MASK\<close> clears
  the low 12 bits).  CR3, the WP bit of CR0 and the addresses given to \<^verbatim>\<open>invlpg\<close> are part of the
  state; page tables come from the physical memory manager of theory \<open>PMM\<close>.
\<close>

section \<open>State and constants\<close>

record mmu =
  pg_mem :: "u64 \<Rightarrow> nat \<Rightarrow> u64"
  cr3 :: u64
  cr0_wp :: bool
  kernel_pml4 :: u64
  invlpg :: "u64 list"
  mm_pmm :: pmm

abbreviation PTE_PRESENT :: u64 where "PTE_PRESENT \<equiv> 1"
abbreviation PTE_WRITABLE :: u64 where "PTE_WRITABLE \<equiv> 2"
abbreviation PTE_USER :: u64 where "PTE_USER \<equiv> 4"
abbreviation PTE_PWT :: u64 where "PTE_PWT \<equiv> 8"
abbreviation PTE_PCD :: u64 where "PTE_PCD \<equiv> 16"
abbreviation PTE_HUGE :: u64 where "PTE_HUGE \<equiv> 128"
abbreviation PTE_GLOBAL :: u64 where "PTE_GLOBAL \<equiv> 256"
abbreviation PTE_NX :: u64 where "PTE_NX \<equiv> 0x8000000000000000"
abbreviation PTE_ADDR_MASK :: u64 where "PTE_ADDR_MASK \<equiv> 0x000FFFFFFFFFF000"

abbreviation PAGE_WRITABLE :: u32 where "PAGE_WRITABLE \<equiv> 2"
abbreviation PAGE_USER :: u32 where "PAGE_USER \<equiv> 4"
abbreviation PAGE_EXECUTABLE :: u32 where "PAGE_EXECUTABLE \<equiv> 8"
abbreviation PAGE_NOCACHE :: u32 where "PAGE_NOCACHE \<equiv> 16"
abbreviation PAGE_WRITETHROUGH :: u32 where "PAGE_WRITETHROUGH \<equiv> 32"
abbreviation PAGE_GLOBAL :: u32 where "PAGE_GLOBAL \<equiv> 64"

definition table_index :: "nat \<Rightarrow> u64 \<Rightarrow> nat" where
  "table_index sh a = unat (drop_bit sh a AND 0x1FF)"

abbreviation PML4_INDEX :: "u64 \<Rightarrow> nat" where "PML4_INDEX \<equiv> table_index 39"
abbreviation PDPT_INDEX :: "u64 \<Rightarrow> nat" where "PDPT_INDEX \<equiv> table_index 30"
abbreviation PD_INDEX :: "u64 \<Rightarrow> nat" where "PD_INDEX \<equiv> table_index 21"
abbreviation PT_INDEX :: "u64 \<Rightarrow> nat" where "PT_INDEX \<equiv> table_index 12"

definition DisableWriteProtect :: "mmu \<Rightarrow> mmu" where
  "DisableWriteProtect s = s\<lparr>cr0_wp := False\<rparr>"

definition EnableWriteProtect :: "mmu \<Rightarrow> mmu" where
  "EnableWriteProtect s = s\<lparr>cr0_wp := True\<rparr>"

definition FlushTLB :: "u64 \<Rightarrow> mmu \<Rightarrow> mmu" where
  "FlushTLB virt s = s\<lparr>invlpg := virt # invlpg s\<rparr>"

definition set_entry :: "u64 \<Rightarrow> nat \<Rightarrow> u64 \<Rightarrow> mmu \<Rightarrow> mmu" where
  "set_entry t i e s = s\<lparr>pg_mem := (pg_mem s)(t := (pg_mem s t)(i := e))\<rparr>"

section \<open>Operations\<close>

definition ConvertFlags :: "u32 \<Rightarrow> u64" where
  "ConvertFlags flags =
     (let p0 = PTE_PRESENT;
          p1 = (if flags AND PAGE_WRITABLE \<noteq> 0 then p0 OR PTE_WRITABLE else p0);
          p2 = (if flags AND PAGE_USER \<noteq> 0 then p1 OR PTE_USER else p1);
          p3 = (if flags AND PAGE_NOCACHE \<noteq> 0 then p2 OR PTE_PCD else p2);
          p4 = (if flags AND PAGE_WRITETHROUGH \<noteq> 0 then p3 OR PTE_PWT else p3);
          p5 = (if flags AND PAGE_GLOBAL \<noteq> 0 then p4 OR PTE_GLOBAL else p4)
      in if flags AND PAGE_EXECUTABLE = 0 then p5 OR PTE_NX else p5)"

definition clear_table :: "u64 \<Rightarrow> mmu \<Rightarrow> mmu" where
  "clear_table t s = s\<lparr>pg_mem := (pg_mem s)(t := (\<lambda>i. if i < 512 then 0 else pg_mem s t i))\<rparr>"

definition AllocateTable :: "mmu \<Rightarrow> u64 \<times> mmu" where
  "AllocateTable s =
     (let (page, p') = AllocPage (mm_pmm s); s' = s\<lparr>mm_pmm := p'\<rparr>
      in if page = 0 then (0, s')
         else (word_of_nat page, clear_table (word_of_nat page) s'))"

definition GetCurrentPageTable :: "mmu \<Rightarrow> u64" where
  "GetCurrentPageTable s = cr3 s AND PTE_ADDR_MASK"

definition mmu_Init :: "mmu \<Rightarrow> mmu" where
  "mmu_Init s = s\<lparr>kernel_pml4 := cr3 s AND PTE_ADDR_MASK\<rparr>"

text \<open>One level of \<^verbatim>\<open>MapPage\<close>: follow entry \<open>i\<close> of the table \<open>t\<close>, creating the next table when the
  entry is not present.  \<open>huge\<close> says whether the level checks for a huge page, \<open>restore\<close> whether that
  failure re-enables write protection (only the PD level does).\<close>

definition map_level ::
  "bool \<Rightarrow> bool \<Rightarrow> u64 \<Rightarrow> bool \<Rightarrow> u64 \<Rightarrow> nat \<Rightarrow> mmu \<Rightarrow> u64 option \<times> mmu" where
  "map_level huge restore dir_flags needs_executable t i s =
     (if pg_mem s t i AND PTE_PRESENT = 0
      then (let (n, s1) = AllocateTable s
            in if n = 0 then (None, s1)
               else (Some n, set_entry t i ((n AND PTE_ADDR_MASK) OR PTE_PRESENT OR PTE_WRITABLE OR PTE_USER) s1))
      else if huge \<and> pg_mem s t i AND PTE_HUGE \<noteq> 0
      then (None, if restore then EnableWriteProtect s else s)
      else (let s1 = set_entry t i (pg_mem s t i OR dir_flags) s;
                s2 = (if needs_executable then set_entry t i (pg_mem s1 t i AND NOT PTE_NX) s1 else s1)
            in (Some (pg_mem s2 t i AND PTE_ADDR_MASK), s2)))"

definition dir_flags_of :: "u32 \<Rightarrow> u64" where
  "dir_flags_of flags =
     (let d0 = PTE_PRESENT;
          d1 = (if flags AND PAGE_WRITABLE \<noteq> 0 then d0 OR PTE_WRITABLE else d0)
      in if flags AND PAGE_USER \<noteq> 0 then d1 OR PTE_USER else d1)"

definition MapPage :: "mmu \<Rightarrow> u64 \<Rightarrow> u64 \<Rightarrow> u32 \<Rightarrow> bool \<times> mmu" where
  "MapPage s0 virt phys flags =
     (let s = DisableWriteProtect s0;
          pte_flags = ConvertFlags flags;
          dir_flags = dir_flags_of flags;
          ex = (flags AND PAGE_EXECUTABLE \<noteq> 0);
          pml4 = GetCurrentPageTable s AND PTE_ADDR_MASK
      in if pml4 = 0 then (False, EnableWriteProtect s)
         else case map_level False False dir_flags ex pml4 (PML4_INDEX virt) s of
           (None, s1) \<Rightarrow> (False, s1)
         | (Some pdpt, s1) \<Rightarrow>
             (case map_level True False dir_flags ex pdpt (PDPT_INDEX virt) s1 of
                (None, s2) \<Rightarrow> (False, s2)
              | (Some pd, s2) \<Rightarrow>
                  (case map_level True True dir_flags ex pd (PD_INDEX virt) s2 of
                     (None, s3) \<Rightarrow> (False, s3)
                   | (Some pt, s3) \<Rightarrow>
                       (True, EnableWriteProtect (FlushTLB virt
                          (set_entry pt (PT_INDEX virt) ((phys AND PTE_ADDR_MASK) OR pte_flags) s3))))))"

partial_function (option) map_range_loop ::
  "mmu \<Rightarrow> u64 \<Rightarrow> u64 \<Rightarrow> u64 \<Rightarrow> u32 \<Rightarrow> u64 \<Rightarrow> (bool \<times> mmu) option" where
  "map_range_loop s virt_start phys_start sz flags offset =
     (if offset < sz
      then let r = MapPage s (virt_start + offset) (phys_start + offset) flags
           in if \<not> fst r then Some (False, snd r)
              else map_range_loop (snd r) virt_start phys_start sz flags (offset + 0x1000)
      else Some (True, s))"

definition MapRange :: "mmu \<Rightarrow> u64 \<Rightarrow> u64 \<Rightarrow> u64 \<Rightarrow> u32 \<Rightarrow> (bool \<times> mmu) option" where
  "MapRange s virt_start phys_start sz flags = map_range_loop s virt_start phys_start sz flags 0"

definition UnmapPage :: "mmu \<Rightarrow> u64 \<Rightarrow> mmu" where
  "UnmapPage s virt =
     (if kernel_pml4 s = 0 then s
      else let e1 = pg_mem s (kernel_pml4 s) (PML4_INDEX virt); pdpt = e1 AND PTE_ADDR_MASK
           in if pdpt = 0 \<or> e1 AND PTE_PRESENT = 0 then s
              else let e2 = pg_mem s pdpt (PDPT_INDEX virt); pd = e2 AND PTE_ADDR_MASK
                   in if pd = 0 \<or> e2 AND PTE_PRESENT = 0 then s
                      else let e3 = pg_mem s pd (PD_INDEX virt); pt = e3 AND PTE_ADDR_MASK
                           in if pt = 0 \<or> e3 AND PTE_PRESENT = 0 then s
                              else FlushTLB virt (set_entry pt (PT_INDEX virt) 0 s))"

definition GetPhysical :: "mmu \<Rightarrow> u64 \<Rightarrow> u64" where
  "GetPhysical s virt =
     (let pml4 = GetCurrentPageTable s AND PTE_ADDR_MASK
      in if pml4 = 0 then 0
         else let e1 = pg_mem s pml4 (PML4_INDEX virt)
              in if e1 AND PTE_PRESENT = 0 then 0
                 else let e2 = pg_mem s (e1 AND PTE_ADDR_MASK) (PDPT_INDEX virt)
                      in if e2 AND PTE_PRESENT = 0 then 0
                         else let e3 = pg_mem s (e2 AND PTE_ADDR_MASK) (PD_INDEX virt)
                              in if e3 AND PTE_PRESENT = 0 then 0
                                 else let e4 = pg_mem s (e3 AND PTE_ADDR_MASK) (PT_INDEX virt)
                                      in if e4 AND PTE_PRESENT = 0 then 0
                                         else (e4 AND PTE_ADDR_MASK) OR (virt AND 0xFFF))"

definition SwitchPageTable :: "mmu \<Rightarrow> u64 \<Rightarrow> mmu" where
  "SwitchPageTable s table_phys = s\<lparr>cr3 := table_phys\<rparr>"

definition CreatePageTable :: "mmu \<Rightarrow> u64 \<times> mmu" where
  "CreatePageTable s =
     (let (pml4, s1) = AllocateTable s
      in if pml4 = 0 then (0, s1)
         else if kernel_pml4 s1 \<noteq> 0
         then let s2 = set_entry pml4 0 (pg_mem s1 (kernel_pml4 s1) 0) s1
              in (pml4, foldl (\<lambda>s' i. set_entry pml4 i (pg_mem s' (kernel_pml4 s') i) s') s2 [256..<512])
         else (pml4, s1))"

definition ClonePageTable :: "mmu \<Rightarrow> u64 \<times> mmu" where
  "ClonePageTable s = CreatePageTable s"

definition mmu_free :: "mmu \<Rightarrow> u64 \<Rightarrow> mmu" where
  "mmu_free s p = s\<lparr>mm_pmm := FreePage (mm_pmm s) (unat p)\<rparr>"

definition destroy_pd :: "u64 \<Rightarrow> mmu \<Rightarrow> mmu" where
  "destroy_pd pd s =
     foldl (\<lambda>s' k. if pg_mem s' pd k AND PTE_PRESENT \<noteq> 0
                    then mmu_free s' (pg_mem s' pd k AND PTE_ADDR_MASK) else s') s [0..<512]"

definition destroy_pdpt :: "u64 \<Rightarrow> mmu \<Rightarrow> mmu" where
  "destroy_pdpt pdpt s =
     foldl (\<lambda>s' j. if pg_mem s' pdpt j AND PTE_PRESENT \<noteq> 0
                    then let pd = pg_mem s' pdpt j AND PTE_ADDR_MASK in mmu_free (destroy_pd pd s') pd
                    else s') s [0..<512]"

definition DestroyPageTable :: "mmu \<Rightarrow> u64 \<Rightarrow> mmu" where
  "DestroyPageTable s table_phys =
     (if table_phys = 0 then s
      else mmu_free
        (foldl (\<lambda>s' i. if pg_mem s' table_phys i AND PTE_PRESENT \<noteq> 0
                        then let pdpt = pg_mem s' table_phys i AND PTE_ADDR_MASK
                             in mmu_free (destroy_pdpt pdpt s') pdpt
                        else s') s [1..<256]) table_phys)"

definition IsMapped :: "mmu \<Rightarrow> u64 \<Rightarrow> bool" where
  "IsMapped s virt \<longleftrightarrow> GetPhysical s virt \<noteq> 0"

definition GetPageFlags :: "mmu \<Rightarrow> u64 \<Rightarrow> u32" where
  "GetPageFlags s virt = 0"

section \<open>Entries\<close>

named_theorems pte_simps \<open>what the flag operations leave of an entry\<close>

lemma new_entry [pte_simps]:
  "((n AND PTE_ADDR_MASK) OR PTE_PRESENT OR PTE_WRITABLE OR PTE_USER) AND PTE_ADDR_MASK = n AND PTE_ADDR_MASK"
  "((n AND PTE_ADDR_MASK) OR PTE_PRESENT OR PTE_WRITABLE OR PTE_USER) AND PTE_PRESENT = 1"
  "((n AND PTE_ADDR_MASK) OR PTE_PRESENT OR PTE_WRITABLE OR PTE_USER) AND PTE_HUGE = 0"
  for n :: u64
  by (simp_all add: bit.conj_disj_distrib2 and.assoc)

lemma dir_flags_bits [pte_simps]:
  "dir_flags_of f AND PTE_ADDR_MASK = 0" "dir_flags_of f AND PTE_PRESENT = 1"
  "dir_flags_of f AND PTE_HUGE = 0"
  by (simp_all add: dir_flags_of_def Let_def)

lemma ConvertFlags_bits [pte_simps]:
  "ConvertFlags f AND PTE_ADDR_MASK = 0" "ConvertFlags f AND PTE_PRESENT = 1"
  by (simp_all add: ConvertFlags_def Let_def bit.conj_disj_distrib2)

lemma dir_entry [pte_simps]:
  assumes "d AND PTE_ADDR_MASK = 0" "d AND PTE_PRESENT = 1" "d AND PTE_HUGE = 0"
  shows "(e OR d) AND PTE_ADDR_MASK = e AND PTE_ADDR_MASK" "(e OR d) AND PTE_PRESENT = 1"
    "(e OR d) AND PTE_HUGE = e AND PTE_HUGE"
    "((e OR d) AND NOT PTE_NX) AND PTE_ADDR_MASK = e AND PTE_ADDR_MASK"
    "((e OR d) AND NOT PTE_NX) AND PTE_PRESENT = 1"
    "((e OR d) AND NOT PTE_NX) AND PTE_HUGE = e AND PTE_HUGE"
  using assms by (simp_all add: bit.conj_disj_distrib2 and.assoc or_eq_0_iff)

lemma leaf_entry [pte_simps]:
  "((p AND PTE_ADDR_MASK) OR ConvertFlags f) AND PTE_ADDR_MASK = p AND PTE_ADDR_MASK"
  "((p AND PTE_ADDR_MASK) OR ConvertFlags f) AND PTE_PRESENT = 1"
  by (simp_all add: bit.conj_disj_distrib2 and.assoc pte_simps)

section \<open>Well-formed page tables\<close>

text \<open>\<open>L n\<close> is the set of tables of level \<open>n\<close> (1 for the PML4 to 4 for the page tables).  The levels
  are disjoint, their pages are in use in the physical memory manager, and a present entry that is
  not a huge page leads to the next level.\<close>

definition is_huge :: "nat \<Rightarrow> u64 \<Rightarrow> bool" where
  "is_huge n e \<longleftrightarrow> 2 \<le> n \<and> e AND PTE_HUGE \<noteq> 0"

definition pt_wf :: "mmu \<Rightarrow> (nat \<Rightarrow> u64 set) \<Rightarrow> bool" where
  "pt_wf s L \<longleftrightarrow>
     pmm_inv (mm_pmm s) \<and> highestAddr (mm_pmm s) \<le> 2 ^ 52 \<and> GetCurrentPageTable s \<in> L 1 \<and>
     (\<forall>m n. m \<noteq> n \<longrightarrow> L m \<inter> L n = {}) \<and>
     (\<forall>n. \<forall>t \<in> L n. t \<noteq> 0 \<and> t AND PTE_ADDR_MASK = t \<and> page_used (mm_pmm s) (unat t div 4096)) \<and>
     (\<forall>n \<in> {1, 2, 3}. \<forall>t \<in> L n. \<forall>i < 512. pg_mem s t i AND PTE_PRESENT \<noteq> 0 \<longrightarrow>
        \<not> is_huge n (pg_mem s t i) \<longrightarrow> pg_mem s t i AND PTE_ADDR_MASK \<in> L (Suc n))"

text \<open>No table is reached through two entries.\<close>

definition leads :: "mmu \<Rightarrow> nat \<Rightarrow> u64 \<Rightarrow> nat \<Rightarrow> u64 \<Rightarrow> bool" where
  "leads s n t i c \<longleftrightarrow> pg_mem s t i AND PTE_PRESENT \<noteq> 0 \<and> \<not> is_huge n (pg_mem s t i) \<and> pg_mem s t i AND PTE_ADDR_MASK = c"

definition unshared :: "mmu \<Rightarrow> (nat \<Rightarrow> u64 set) \<Rightarrow> bool" where
  "unshared s L \<longleftrightarrow> (\<forall>n \<in> {1, 2, 3}. \<forall>t \<in> L n. \<forall>u \<in> L n. \<forall>i < 512. \<forall>j < 512. \<forall>c.
     leads s n t i c \<longrightarrow> leads s n u j c \<longrightarrow> t = u \<and> i = j)"

lemma unsharedD:
  "unshared s L \<Longrightarrow> n \<in> {1, 2, 3} \<Longrightarrow> t \<in> L n \<Longrightarrow> u \<in> L n \<Longrightarrow> i < 512 \<Longrightarrow> j < 512 \<Longrightarrow>
   leads s n t i c \<Longrightarrow> leads s n u j c \<Longrightarrow> t = u \<and> i = j"
  unfolding unshared_def by blast

lemma unshared_leads:
  assumes "unshared s L" and "\<And>n t i c. n \<in> {1, 2, 3} \<Longrightarrow> t \<in> L n \<Longrightarrow> leads s' n t i c \<Longrightarrow> leads s n t i c"
  shows "unshared s' L"
  unfolding unshared_def
proof (intro ballI allI impI)
  fix n t u i j c
  assume a: "n \<in> {1, 2, 3 :: nat}" "t \<in> L n" "u \<in> L n" "i < 512" "j < 512" "leads s' n t i c" "leads s' n u j c"
  from unsharedD [OF assms(1) a(1-5) assms(2) [OF a(1,2,6)] assms(2) [OF a(1,3,7)]] show "t = u \<and> i = j" .
qed

text \<open>What a step of the walk keeps: present entries keep their target, and page tables their contents.\<close>

definition same_target :: "u64 \<Rightarrow> u64 \<Rightarrow> bool" where
  "same_target e e' \<longleftrightarrow> (e AND PTE_PRESENT \<noteq> 0 \<longrightarrow>
     e' AND PTE_PRESENT \<noteq> 0 \<and> e' AND PTE_HUGE = e AND PTE_HUGE \<and> e' AND PTE_ADDR_MASK = e AND PTE_ADDR_MASK)"

definition pt_keeps :: "(nat \<Rightarrow> u64 set) \<Rightarrow> mmu \<Rightarrow> mmu \<Rightarrow> bool" where
  "pt_keeps L s s' \<longleftrightarrow> cr3 s' = cr3 s \<and> kernel_pml4 s' = kernel_pml4 s \<and>
     (\<forall>n. \<forall>t \<in> L n. \<forall>i < 512. same_target (pg_mem s t i) (pg_mem s' t i)) \<and>
     (\<forall>t \<in> L 4. \<forall>i. pg_mem s' t i = pg_mem s t i)"

lemma pt_wf_disjoint: "pt_wf s L \<Longrightarrow> m \<noteq> n \<Longrightarrow> L m \<inter> L n = {}"
  by (simp add: pt_wf_def)

lemma pt_wf_table:
  "pt_wf s L \<Longrightarrow> t \<in> L n \<Longrightarrow>
     t \<noteq> 0 \<and> t AND PTE_ADDR_MASK = t \<and> page_used (mm_pmm s) (unat t div 4096)"
  by (simp add: pt_wf_def)

lemma pt_wf_child:
  "pt_wf s L \<Longrightarrow> n \<in> {1, 2, 3} \<Longrightarrow> t \<in> L n \<Longrightarrow> i < 512 \<Longrightarrow> pg_mem s t i AND PTE_PRESENT \<noteq> 0 \<Longrightarrow>
   \<not> is_huge n (pg_mem s t i) \<Longrightarrow> pg_mem s t i AND PTE_ADDR_MASK \<in> L (Suc n)"
  unfolding pt_wf_def by (elim conjE) (drule (1) bspec, drule (1) bspec, simp)

lemma pt_wf_pmm: "pt_wf s L \<Longrightarrow> pmm_inv (mm_pmm s) \<and> highestAddr (mm_pmm s) \<le> 2 ^ 52"
  by (simp add: pt_wf_def)

lemma table_index_less [simp]: "table_index k a < 512"
proof -
  have "unat (drop_bit k a AND 0x1FF) \<le> unat (0x1FF :: u64)"
    using word_and_le1 [of "drop_bit k a" "0x1FF"] by (simp only: word_le_nat_alt)
  then show ?thesis by (simp add: table_index_def)
qed

lemma same_target_refl [simp]: "same_target e e"
  by (simp add: same_target_def)

lemma same_target_trans: "same_target e f \<Longrightarrow> same_target f g \<Longrightarrow> same_target e g"
  by (auto simp: same_target_def)

lemma pt_keeps_refl [simp]: "pt_keeps L s s"
  by (simp add: pt_keeps_def)

lemma pt_keeps_trans:
  assumes "pt_keeps L s s'" and "pt_keeps L' s' s''" and "\<And>n. L n \<subseteq> L' n"
  shows "pt_keeps L s s''"
proof -
  have "same_target (pg_mem s t i) (pg_mem s'' t i)" if "t \<in> L n" "i < 512" for n t i
    using assms(1,2) assms(3) [of n] that unfolding pt_keeps_def by (blast intro: same_target_trans)
  moreover have "pg_mem s'' t i = pg_mem s t i" if "t \<in> L 4" for t i
    using assms(1,2) assms(3) [of 4] that unfolding pt_keeps_def by auto
  ultimately show ?thesis using assms(1,2) unfolding pt_keeps_def by simp
qed

lemma set_entry_mem: "pg_mem (set_entry t i e s) u j = (if u = t \<and> j = i then e else pg_mem s u j)"
  by (simp add: set_entry_def)

lemma set_entry_fields [simp]:
  "cr3 (set_entry t i e s) = cr3 s" "kernel_pml4 (set_entry t i e s) = kernel_pml4 s"
  "mm_pmm (set_entry t i e s) = mm_pmm s" "cr0_wp (set_entry t i e s) = cr0_wp s"
  "GetCurrentPageTable (set_entry t i e s) = GetCurrentPageTable s"
  by (simp_all add: set_entry_def GetCurrentPageTable_def)

text \<open>Rewriting a directory entry without changing its target.\<close>

lemma set_entry_wf:
  assumes wf: "pt_wf s L" and t: "t \<in> L n" "n \<in> {1, 2, 3}" and i: "i < 512"
    and st: "same_target (pg_mem s t i) e" and p: "pg_mem s t i AND PTE_PRESENT \<noteq> 0"
  shows "pt_wf (set_entry t i e s) L" and "pt_keeps L s (set_entry t i e s)"
proof -
  note child = pt_wf_child [OF wf]
  have "pg_mem (set_entry t i e s) u j AND PTE_ADDR_MASK \<in> L (Suc m)"
    if m: "m \<in> {1, 2, 3}" "u \<in> L m" "j < 512" "pg_mem (set_entry t i e s) u j AND PTE_PRESENT \<noteq> 0"
      "\<not> is_huge m (pg_mem (set_entry t i e s) u j)" for m u j
  proof (cases "u = t \<and> j = i")
    case True
    with m have "\<not> is_huge m e" by (simp add: set_entry_mem)
    then have "\<not> is_huge m (pg_mem s u j)" using st p True by (simp add: same_target_def is_huge_def)
    with child [of m u j] m(1-3) p True st show ?thesis by (simp add: set_entry_mem same_target_def)
  next
    case False
    then have "pg_mem (set_entry t i e s) u j = pg_mem s u j" by (auto simp: set_entry_mem)
    with child [of m u j] m show ?thesis by simp
  qed
  then show "pt_wf (set_entry t i e s) L" using wf unfolding pt_wf_def by simp
  have "n \<noteq> 4" using t(2) by auto
  then have "L n \<inter> L 4 = {}" by (rule pt_wf_disjoint [OF wf])
  then have "t \<notin> L 4" using t(1) by blast
  then show "pt_keeps L s (set_entry t i e s)"
    using st unfolding pt_keeps_def by (auto simp: set_entry_mem)
qed

text \<open>A fresh page belongs to no table yet.\<close>

lemma unat_page: "a < 2 ^ 52 \<Longrightarrow> unat (word_of_nat a :: u64) = a"
  by (simp add: unat_of_nat)

lemma masked_page:
  assumes "a < 2 ^ 52" and "a mod 4096 = 0"
  shows "(word_of_nat a :: u64) AND PTE_ADDR_MASK = word_of_nat a"
proof -
  let ?w = "word_of_nat a :: u64"
  have m: "PTE_ADDR_MASK = push_bit 12 (mask 40)" by (simp add: mask_eq_exp_minus_1 push_bit_eq_mult)
  from assms(2) obtain k where k: "a = 4096 * k" by (auto simp: mod_eq_0_iff_dvd dvd_def)
  with assms(1) have "k < 2 ^ 40" by simp
  have "?w = push_bit 12 (word_of_nat k)" by (simp add: k push_bit_eq_mult)
  moreover have "push_bit 12 (word_of_nat k) AND PTE_ADDR_MASK = push_bit 12 ((word_of_nat k :: u64) AND mask 40)"
    unfolding m by simp
  moreover have "(word_of_nat k :: u64) AND mask 40 = word_of_nat k"
  proof (rule bit_word_eqI)
    fix i :: nat
    have "take_bit 40 k = k" using \<open>k < 2 ^ 40\<close> by (rule take_bit_nat_eq_self)
    then have "bit k i \<Longrightarrow> i < 40" using bit_take_bit_iff [of 40 k i] by simp
    then show "bit ((word_of_nat k :: u64) AND mask 40) i \<longleftrightarrow> bit (word_of_nat k :: u64) i"
      by (auto simp: bit_and_iff bit_mask_iff bit_of_nat_iff)
  qed
  ultimately show ?thesis by simp
qed

lemma AllocateTable_fresh:
  assumes wf: "pt_wf s L" and al: "AllocateTable s = (n, s1)" and n: "n \<noteq> 0"
  shows "n \<notin> L k" and "n AND PTE_ADDR_MASK = n"
    and "s1 = clear_table n (s\<lparr>mm_pmm := mm_pmm s1\<rparr>)" and "pmm_inv (mm_pmm s1)"
    and "highestAddr (mm_pmm s1) \<le> 2 ^ 52"
    and "\<And>q. page_used (mm_pmm s1) q \<longleftrightarrow> q = unat n div 4096 \<or> page_used (mm_pmm s) q"
proof -
  note inv = pt_wf_pmm [OF wf]
  have "\<exists>p. AllocPage (mm_pmm s) = (p * 4096, take_page (mm_pmm s) p) \<and> p < page_limit (mm_pmm s) \<and>
      \<not> page_used (mm_pmm s) p \<and> p \<noteq> 0"
  proof (rule AllocPage_cases [OF conjunct1 [OF inv]])
    assume "AllocPage (mm_pmm s) = (0, mm_pmm s)"
    with al n show ?thesis by (simp add: AllocateTable_def Let_def)
  qed blast
  then obtain p where p: "AllocPage (mm_pmm s) = (p * 4096, take_page (mm_pmm s) p)"
    "p < page_limit (mm_pmm s)" "\<not> page_used (mm_pmm s) p" "p \<noteq> 0" by blast
  let ?a = "p * 4096" and ?p = "take_page (mm_pmm s) p"
  from al p have na: "n = word_of_nat ?a" and s1: "s1 = clear_table n (s\<lparr>mm_pmm := ?p\<rparr>)"
    by (auto simp: AllocateTable_def Let_def)
  have lim: "?a < 2 ^ 52"
    using p(2) inv by (simp add: page_limit_def) linarith
  have ua: "unat n = ?a" using na unat_page [OF lim] by simp
  have p1: "mm_pmm s1 = ?p" by (simp add: s1 clear_table_def)
  show "n \<notin> L k" using pt_wf_table [OF wf, of n k] p(3) ua by auto
  show "n AND PTE_ADDR_MASK = n" using masked_page [OF lim] na by simp
  show "s1 = clear_table n (s\<lparr>mm_pmm := mm_pmm s1\<rparr>)" unfolding p1 by (rule s1)
  show "pmm_inv (mm_pmm s1)" using pmm_inv_take_page inv p(2) p1 by simp
  show "highestAddr (mm_pmm s1) \<le> 2 ^ 52" using inv p1 by (simp add: take_page_def)
  show "page_used (mm_pmm s1) q \<longleftrightarrow> q = unat n div 4096 \<or> page_used (mm_pmm s) q" for q
    using p1 ua by auto
qed

lemma map_level_new:
  assumes wf: "pt_wf s L" and t: "t \<in> L k" "k \<in> {1, 2, 3}" and i: "i < 512"
    and np: "pg_mem s t i AND PTE_PRESENT = 0" and al: "AllocateTable s = (n, s1)" and n: "n \<noteq> 0"
  defines "e \<equiv> (n AND PTE_ADDR_MASK) OR PTE_PRESENT OR PTE_WRITABLE OR PTE_USER"
  defines "L' \<equiv> L(Suc k := insert n (L (Suc k)))" and "s' \<equiv> set_entry t i e s1"
  shows "pt_wf s' L'" and "pt_keeps L s s'" and "pg_mem s' t i = e" and "n \<in> L' (Suc k)"
proof -
  note f = AllocateTable_fresh [OF wf al n]
  have tn: "t \<noteq> n" using t(1) f(1) by blast
  have mem: "pg_mem s' u j = (if u = t \<and> j = i then e else if u = n \<and> j < 512 then 0 else pg_mem s u j)" for u j
    unfolding s'_def by (subst f(3)) (auto simp: set_entry_mem clear_table_def tn)
  have fields: "cr3 s' = cr3 s" "kernel_pml4 s' = kernel_pml4 s"
    unfolding s'_def by (subst f(3), simp add: clear_table_def)+
  have pm: "mm_pmm s' = mm_pmm s1" by (simp add: s'_def)
  have eb: "e AND PTE_ADDR_MASK = n" "e AND PTE_PRESENT = 1" "e AND PTE_HUGE = 0"
    unfolding e_def new_entry using f(2) by simp_all
  have disj: "L' a \<inter> L' b = {}" if "a \<noteq> b" for a b
    using pt_wf_disjoint [OF wf that] f(1) that by (auto simp: L'_def)
  have tab: "u \<noteq> 0 \<and> u AND PTE_ADDR_MASK = u \<and> page_used (mm_pmm s') (unat u div 4096)" if "u \<in> L' m" for m u
    using pt_wf_table [OF wf, of u m] pt_wf_table [OF wf, of u "Suc k"] that f(2,6) n
    by (auto simp: L'_def pm split: if_splits)
  have child: "pg_mem s' u j AND PTE_ADDR_MASK \<in> L' (Suc m)"
    if m: "m \<in> {1, 2, 3}" "u \<in> L' m" "j < 512" "pg_mem s' u j AND PTE_PRESENT \<noteq> 0"
      "\<not> is_huge m (pg_mem s' u j)" for m u j
  proof -
    consider (t) "u = t" "j = i" | (n) "u = n" | (old) "\<not> (u = t \<and> j = i)" "u \<noteq> n" by blast
    then show ?thesis
    proof cases
      case t
      have "m = k"
      proof (rule ccontr)
        assume "m \<noteq> k"
        with disj [OF this] m(2) t assms(2) show False by (auto simp: L'_def)
      qed
      with t mem eb show ?thesis by (simp add: L'_def)
    next
      case n
      with mem m(3,4) tn show ?thesis by simp
    next
      case old
      then have mo: "pg_mem s' u j = pg_mem s u j" using mem by auto
      have "u \<in> L m" using m(2) old by (auto simp: L'_def split: if_splits)
      from pt_wf_child [OF wf m(1) this m(3)] m(4,5) mo have "pg_mem s u j AND PTE_ADDR_MASK \<in> L (Suc m)" by simp
      with mo show ?thesis by (auto simp: L'_def)
    qed
  qed
  have root: "GetCurrentPageTable s' \<in> L' 1"
    using wf t(2) by (auto simp: pt_wf_def L'_def GetCurrentPageTable_def fields)
  show "pt_wf s' L'" unfolding pt_wf_def using f(4,5) pm disj tab child root by simp
  have "same_target (pg_mem s u j) (pg_mem s' u j)" if "u \<in> L m" for m u j
    using that f(1) np mem by (auto simp: same_target_def)
  moreover have "pg_mem s' u j = pg_mem s u j" if "u \<in> L 4" for u j
  proof -
    have "k \<noteq> 4" using t(2) by auto
    then have "u \<noteq> t" using pt_wf_disjoint [OF wf, of k 4] t(1) that by blast
    with that f(1) mem show ?thesis by auto
  qed
  ultimately show "pt_keeps L s s'" unfolding pt_keeps_def using fields by simp
  show "pg_mem s' t i = e" by (simp add: mem)
  show "n \<in> L' (Suc k)" by (simp add: L'_def)
qed

lemma AllocateTable_fail:
  assumes wf: "pt_wf s L" and al: "AllocateTable s = (0, s1)"
  shows "s1 = s"
proof (rule AllocPage_cases [OF conjunct1 [OF pt_wf_pmm [OF wf]]])
  assume "AllocPage (mm_pmm s) = (0, mm_pmm s)"
  with al show ?thesis by (simp add: AllocateTable_def Let_def)
next
  fix p
  assume p: "AllocPage (mm_pmm s) = (p * 4096, take_page (mm_pmm s) p)" "p < page_limit (mm_pmm s)" "p \<noteq> 0"
  have "p * 4096 < 2 ^ 52" using p(2) pt_wf_pmm [OF wf] by (simp add: page_limit_def) linarith
  from unat_page [OF this] have "unat (word_of_nat (p * 4096) :: u64) \<noteq> 0" using p(3) by simp
  then have "(word_of_nat (p * 4096) :: u64) \<noteq> 0" by (metis unsigned_0)
  with al p show ?thesis by (simp add: AllocateTable_def Let_def)
qed

lemma wp_fields [simp]:
  "pg_mem (EnableWriteProtect s) = pg_mem s" "cr3 (EnableWriteProtect s) = cr3 s"
  "kernel_pml4 (EnableWriteProtect s) = kernel_pml4 s" "mm_pmm (EnableWriteProtect s) = mm_pmm s"
  "cr0_wp (EnableWriteProtect s)"
  "pg_mem (DisableWriteProtect s) = pg_mem s" "cr3 (DisableWriteProtect s) = cr3 s"
  "kernel_pml4 (DisableWriteProtect s) = kernel_pml4 s" "mm_pmm (DisableWriteProtect s) = mm_pmm s"
  "pg_mem (FlushTLB v s) = pg_mem s" "cr3 (FlushTLB v s) = cr3 s"
  "kernel_pml4 (FlushTLB v s) = kernel_pml4 s" "mm_pmm (FlushTLB v s) = mm_pmm s"
  "\<not> cr0_wp (DisableWriteProtect s)"
  by (simp_all add: EnableWriteProtect_def DisableWriteProtect_def FlushTLB_def)

lemma pt_wf_fields:
  "pg_mem s' = pg_mem s \<Longrightarrow> cr3 s' = cr3 s \<Longrightarrow> mm_pmm s' = mm_pmm s \<Longrightarrow> pt_wf s' L = pt_wf s L"
  by (simp add: pt_wf_def GetCurrentPageTable_def)

lemma pt_keeps_fields:
  "pg_mem s' = pg_mem s \<Longrightarrow> cr3 s' = cr3 s \<Longrightarrow> kernel_pml4 s' = kernel_pml4 s \<Longrightarrow> pt_keeps L s s'"
  by (simp add: pt_keeps_def)

lemma unshared_same_target:
  assumes "same_target (pg_mem s t i) e" and "pg_mem s t i AND PTE_PRESENT \<noteq> 0" and "unshared s L"
  shows "unshared (set_entry t i e s) L"
  by (rule unshared_leads [OF assms(3)])
    (use assms(1,2) in \<open>auto simp: leads_def set_entry_mem same_target_def is_huge_def split: if_splits\<close>)

lemma unshared_fields: "pg_mem s' = pg_mem s \<Longrightarrow> unshared s L \<Longrightarrow> unshared s' L"
  by (simp add: unshared_def leads_def)

lemma unshared_new:
  assumes wf: "pt_wf s L" and t: "t \<in> L k" "k \<in> {1, 2, 3}"
    and np: "pg_mem s t i AND PTE_PRESENT = 0" and al: "AllocateTable s = (n, s1)" and n: "n \<noteq> 0" and u: "unshared s L"
  defines "e \<equiv> (n AND PTE_ADDR_MASK) OR PTE_PRESENT OR PTE_WRITABLE OR PTE_USER"
  shows "unshared (set_entry t i e s1) (L(Suc k := insert n (L (Suc k))))" (is "unshared ?s ?L")
proof -
  note f = AllocateTable_fresh [OF wf al n]
  have tn: "t \<noteq> n" using t(1) f(1) by blast
  have mem: "pg_mem ?s v j = (if v = t \<and> j = i then e else if v = n \<and> j < 512 then 0 else pg_mem s v j)" for v j
    by (subst f(3)) (auto simp: set_entry_mem clear_table_def tn)
  have eb: "e AND PTE_ADDR_MASK = n" unfolding e_def new_entry using f(2) by simp
  have old: "v \<in> L m \<and> leads s m v j c \<and> c \<in> L (Suc m) \<or> v = t \<and> j = i \<and> c = n"
    if "m \<in> {1, 2, 3}" "v \<in> ?L m" "j < 512" "leads ?s m v j c" for m v j c
  proof (cases "v = t \<and> j = i")
    case True
    with that(4) mem eb show ?thesis by (simp add: leads_def)
  next
    case False
    with that(3) mem have mm: "pg_mem ?s v j = (if v = n then 0 else pg_mem s v j)" by auto
    have vn: "v \<noteq> n" using that(4) mm by (auto simp: leads_def)
    with that(4) mm have l: "leads s m v j c" by (simp add: leads_def)
    have v: "v \<in> L m" using that(2) vn by (auto split: if_splits)
    from pt_wf_child [OF wf that(1) v that(3)] l have "c \<in> L (Suc m)" by (auto simp: leads_def)
    with v l show ?thesis by blast
  qed
  show ?thesis unfolding unshared_def
  proof (intro ballI allI impI)
    fix m v w a b c
    assume m: "m \<in> {1, 2, 3 :: nat}" and v: "v \<in> ?L m" and w: "w \<in> ?L m" and ab: "a < 512" "b < 512"
      and l: "leads ?s m v a c" "leads ?s m w b c"
    from old [OF m v ab(1) l(1)] old [OF m w ab(2) l(2)] f(1) unsharedD [OF u m _ _ ab] show "v = w \<and> a = b" by blast
  qed
qed

text \<open>The result of one level: the tables stay well formed, translations are kept, and when the level
  succeeds its entry is present and leads to the returned table.\<close>

definition level_ok :: "(nat \<Rightarrow> u64 set) \<Rightarrow> nat \<Rightarrow> u64 \<Rightarrow> nat \<Rightarrow> mmu \<Rightarrow> u64 option \<Rightarrow> mmu \<Rightarrow> (nat \<Rightarrow> u64 set) \<Rightarrow> bool" where
  "level_ok L k t i s r s' L' \<longleftrightarrow> pt_wf s' L' \<and> (\<forall>n. L n \<subseteq> L' n) \<and> pt_keeps L s s' \<and>
     (unshared s L \<longrightarrow> unshared s' L') \<and> (\<forall>q. page_used (mm_pmm s) q \<longrightarrow> page_used (mm_pmm s') q) \<and>
     (\<forall>n. r = Some n \<longrightarrow> n \<in> L' (Suc k) \<and> pg_mem s' t i AND PTE_PRESENT \<noteq> 0 \<and>
        \<not> is_huge k (pg_mem s' t i) \<and> pg_mem s' t i AND PTE_ADDR_MASK = n)"

lemma map_level_existing:
  assumes wf: "pt_wf s L" and t: "t \<in> L k" "k \<in> {1, 2, 3}" and i: "i < 512"
    and p: "pg_mem s t i AND PTE_PRESENT \<noteq> 0" and h: "\<not> is_huge k (pg_mem s t i)"
    and s1_def: "s1 = set_entry t i (pg_mem s t i OR dir_flags_of f) s"
    and s2_def: "s2 = (if ex then set_entry t i (pg_mem s1 t i AND NOT PTE_NX) s1 else s1)"
  shows "level_ok L k t i s (Some (pg_mem s2 t i AND PTE_ADDR_MASK)) s2 L"
proof -
  let ?e = "pg_mem s t i"
  define e2 where "e2 = (if ex then (?e OR dir_flags_of f) AND NOT PTE_NX else ?e OR dir_flags_of f)"
  have s2: "s2 = set_entry t i e2 s"
    by (simp add: s2_def s1_def e2_def set_entry_mem) (simp add: set_entry_def)
  note d = dir_entry [OF dir_flags_bits [of f], of ?e]
  have st: "same_target ?e e2" "e2 AND PTE_HUGE = ?e AND PTE_HUGE" "e2 AND PTE_PRESENT = 1"
    "e2 AND PTE_ADDR_MASK = ?e AND PTE_ADDR_MASK"
    using d by (auto simp: same_target_def e2_def)
  note w = set_entry_wf [OF wf t i st(1) p]
  have u: "unshared s L \<longrightarrow> unshared (set_entry t i e2 s) L"
    using unshared_same_target [OF st(1) p] by blast
  have "?e AND PTE_ADDR_MASK \<in> L (Suc k)" by (rule pt_wf_child [OF wf t(2,1) i p h])
  with w st h u show ?thesis unfolding level_ok_def s2
    by (simp add: set_entry_mem is_huge_def)
qed

lemma map_level_ok:
  assumes wf: "pt_wf s L" and t: "t \<in> L k" "k \<in> {1, 2, 3}" and i: "i < 512"
    and r: "map_level (2 \<le> k) restore (dir_flags_of f) ex t i s = (r, s')"
  shows "\<exists>L'. level_ok L k t i s r s' L'"
proof (cases "pg_mem s t i AND PTE_PRESENT = 0")
  case True
  obtain n s1 where al: "AllocateTable s = (n, s1)" by (rule prod.exhaust)
  show ?thesis
  proof (cases "n = 0")
    case n: True
    with True r al AllocateTable_fail [OF wf] wf show ?thesis
      by (intro exI [of _ L]) (simp add: map_level_def level_ok_def)
  next
    case False
    note m = map_level_new [OF wf t i True al False]
    let ?L = "L(Suc k := insert n (L (Suc k)))"
    have n: "n AND PTE_ADDR_MASK = n" by (rule AllocateTable_fresh(2) [OF wf al False])
    have rs: "r = Some n" "s' = set_entry t i ((n AND PTE_ADDR_MASK) OR PTE_PRESENT OR PTE_WRITABLE OR PTE_USER) s1"
      using r True al False by (simp_all add: map_level_def)
    have u: "unshared s L \<longrightarrow> unshared s' ?L" unfolding rs(2) using unshared_new [OF wf t True al False] by blast
    have pu: "\<forall>q. page_used (mm_pmm s) q \<longrightarrow> page_used (mm_pmm s') q"
      using AllocateTable_fresh(6) [OF wf al False] by (simp add: rs(2))
    have "level_ok L k t i s r s' ?L" using u pu unfolding level_ok_def rs
      using m new_entry [of n] n by (auto simp: is_huge_def)
    then show ?thesis by blast
  qed
next
  case False
  show ?thesis
  proof (cases "is_huge k (pg_mem s t i)")
    case True
    with False r have "r = None" "s' = (if restore then EnableWriteProtect s else s)"
      by (auto simp: map_level_def is_huge_def)
    moreover from this have e: "pg_mem s' = pg_mem s" "cr3 s' = cr3 s" "mm_pmm s' = mm_pmm s"
      "kernel_pml4 s' = kernel_pml4 s" by simp_all
    moreover have "pt_wf s' L" using wf pt_wf_fields [OF e(1-3)] by simp
    moreover have "pt_keeps L s s'" by (rule pt_keeps_fields [OF e(1,2,4)])
    moreover have "unshared s L \<longrightarrow> unshared s' L" using unshared_fields [OF e(1)] by blast
    ultimately have "level_ok L k t i s r s' L" unfolding level_ok_def by simp
    then show ?thesis by blast
  next
    case nh: False
    then have c: "\<not> (2 \<le> k \<and> pg_mem s t i AND PTE_HUGE \<noteq> 0)" by (simp add: is_huge_def)
    note rr = r [unfolded map_level_def Let_def if_not_P [OF False] if_not_P [OF c] prod.inject]
    have "Some (pg_mem s' t i AND PTE_ADDR_MASK) = r"
      using conjunct1 [OF rr] unfolding conjunct2 [OF rr] .
    with map_level_existing [OF wf t i False nh refl conjunct2 [OF rr, symmetric]]
    show ?thesis by auto
  qed
qed

section \<open>Translation\<close>

text \<open>The page table slot a virtual address resolves to through directories without huge pages.\<close>

definition leaf_slot :: "mmu \<Rightarrow> u64 \<Rightarrow> (u64 \<times> nat) option" where
  "leaf_slot s v =
     (let e1 = pg_mem s (GetCurrentPageTable s) (PML4_INDEX v);
          e2 = pg_mem s (e1 AND PTE_ADDR_MASK) (PDPT_INDEX v);
          e3 = pg_mem s (e2 AND PTE_ADDR_MASK) (PD_INDEX v)
      in if e1 AND PTE_PRESENT = 0 \<or> e2 AND PTE_PRESENT = 0 \<or> is_huge 2 e2 \<or>
            e3 AND PTE_PRESENT = 0 \<or> is_huge 3 e3
         then None else Some (e3 AND PTE_ADDR_MASK, PT_INDEX v))"

lemma leaf_slotI:
  assumes "t1 = GetCurrentPageTable s"
    and "pg_mem s t1 (PML4_INDEX v) AND PTE_PRESENT \<noteq> 0" "pg_mem s t1 (PML4_INDEX v) AND PTE_ADDR_MASK = t2"
    and "pg_mem s t2 (PDPT_INDEX v) AND PTE_PRESENT \<noteq> 0" "\<not> is_huge 2 (pg_mem s t2 (PDPT_INDEX v))"
    and "pg_mem s t2 (PDPT_INDEX v) AND PTE_ADDR_MASK = t3"
    and "pg_mem s t3 (PD_INDEX v) AND PTE_PRESENT \<noteq> 0" "\<not> is_huge 3 (pg_mem s t3 (PD_INDEX v))"
    and "pg_mem s t3 (PD_INDEX v) AND PTE_ADDR_MASK = t4"
  shows "leaf_slot s v = Some (t4, PT_INDEX v)"
  unfolding leaf_slot_def Let_def using assms by simp

lemma leaf_slotE:
  assumes "leaf_slot s v = Some (t4, i)"
  obtains t1 t2 t3 where "i = PT_INDEX v" "t1 = GetCurrentPageTable s"
    "pg_mem s t1 (PML4_INDEX v) AND PTE_PRESENT \<noteq> 0" "pg_mem s t1 (PML4_INDEX v) AND PTE_ADDR_MASK = t2"
    "pg_mem s t2 (PDPT_INDEX v) AND PTE_PRESENT \<noteq> 0" "\<not> is_huge 2 (pg_mem s t2 (PDPT_INDEX v))"
    "pg_mem s t2 (PDPT_INDEX v) AND PTE_ADDR_MASK = t3"
    "pg_mem s t3 (PD_INDEX v) AND PTE_PRESENT \<noteq> 0" "\<not> is_huge 3 (pg_mem s t3 (PD_INDEX v))"
    "pg_mem s t3 (PD_INDEX v) AND PTE_ADDR_MASK = t4"
  using assms unfolding leaf_slot_def Let_def by (simp split: if_splits)

lemma root_masked: "GetCurrentPageTable s AND PTE_ADDR_MASK = GetCurrentPageTable s"
  by (simp add: GetCurrentPageTable_def and.assoc)

lemma root_level: "pt_wf s L \<Longrightarrow> GetCurrentPageTable s \<in> L 1"
  by (simp add: pt_wf_def)

lemma root_nonnull: "pt_wf s L \<Longrightarrow> GetCurrentPageTable s \<noteq> 0"
  using pt_wf_table root_level by blast

lemma GetPhysical_leaf:
  assumes "leaf_slot s v = Some (t, i)" and "GetCurrentPageTable s \<noteq> 0"
  shows "GetPhysical s v = (if pg_mem s t i AND PTE_PRESENT = 0 then 0
     else (pg_mem s t i AND PTE_ADDR_MASK) OR (v AND 0xFFF))"
  using assms(1)
  by (rule leaf_slotE) (use assms(2) in \<open>simp add: GetPhysical_def Let_def root_masked\<close>)

lemma leaf_slot_level:
  assumes wf: "pt_wf s L" and l: "leaf_slot s v = Some (t, i)"
  shows "t \<in> L 4 \<and> i < 512"
  using l
proof (rule leaf_slotE)
  fix t1 t2 t3
  assume a: "i = PT_INDEX v" "t1 = GetCurrentPageTable s"
    "pg_mem s t1 (PML4_INDEX v) AND PTE_PRESENT \<noteq> 0" "pg_mem s t1 (PML4_INDEX v) AND PTE_ADDR_MASK = t2"
    "pg_mem s t2 (PDPT_INDEX v) AND PTE_PRESENT \<noteq> 0" "\<not> is_huge 2 (pg_mem s t2 (PDPT_INDEX v))"
    "pg_mem s t2 (PDPT_INDEX v) AND PTE_ADDR_MASK = t3"
    "pg_mem s t3 (PD_INDEX v) AND PTE_PRESENT \<noteq> 0" "\<not> is_huge 3 (pg_mem s t3 (PD_INDEX v))"
    "pg_mem s t3 (PD_INDEX v) AND PTE_ADDR_MASK = t"
  have "t1 \<in> L 1" using root_level [OF wf] a(2) by simp
  from pt_wf_child [OF wf _ this _ a(3)] a(4) have "t2 \<in> L (Suc 1)" by (simp add: is_huge_def)
  then have "t2 \<in> L 2" by (simp add: numeral_2_eq_2)
  from pt_wf_child [OF wf _ this _ a(5,6)] a(7) have "t3 \<in> L 3" by simp
  from pt_wf_child [OF wf _ this _ a(8,9)] a(1,10) show ?thesis by simp
qed

lemma same_targetD:
  assumes "same_target e e'" and "e AND PTE_PRESENT \<noteq> 0"
  shows "e' AND PTE_PRESENT \<noteq> 0" "e' AND PTE_ADDR_MASK = e AND PTE_ADDR_MASK" "is_huge n e' = is_huge n e"
  using assms by (simp_all add: same_target_def is_huge_def)

lemma pt_keepsD: "pt_keeps L s s' \<Longrightarrow> t \<in> L n \<Longrightarrow> i < 512 \<Longrightarrow> same_target (pg_mem s t i) (pg_mem s' t i)"
  by (simp add: pt_keeps_def)

lemma pt_keeps_root: "pt_keeps L s s' \<Longrightarrow> GetCurrentPageTable s' = GetCurrentPageTable s"
  by (simp add: pt_keeps_def GetCurrentPageTable_def)

lemma leaf_slot_keeps:
  assumes wf: "pt_wf s L" and k: "pt_keeps L s s'" and l: "leaf_slot s v = Some sl"
  shows "leaf_slot s' v = Some sl"
proof -
  obtain t i where sl: "sl = (t, i)" by (rule prod.exhaust)
  from l [unfolded sl] show ?thesis unfolding sl
  proof (rule leaf_slotE)
    fix t1 t2 t3
    assume a: "i = PT_INDEX v" "t1 = GetCurrentPageTable s"
      "pg_mem s t1 (PML4_INDEX v) AND PTE_PRESENT \<noteq> 0" "pg_mem s t1 (PML4_INDEX v) AND PTE_ADDR_MASK = t2"
      "pg_mem s t2 (PDPT_INDEX v) AND PTE_PRESENT \<noteq> 0" "\<not> is_huge 2 (pg_mem s t2 (PDPT_INDEX v))"
      "pg_mem s t2 (PDPT_INDEX v) AND PTE_ADDR_MASK = t3"
      "pg_mem s t3 (PD_INDEX v) AND PTE_PRESENT \<noteq> 0" "\<not> is_huge 3 (pg_mem s t3 (PD_INDEX v))"
      "pg_mem s t3 (PD_INDEX v) AND PTE_ADDR_MASK = t"
    have l1: "t1 \<in> L 1" using root_level [OF wf] a(2) by simp
    from pt_wf_child [OF wf _ this _ a(3)] a(4) have "t2 \<in> L (Suc 1)" by (simp add: is_huge_def)
    then have l2: "t2 \<in> L 2" by (simp add: numeral_2_eq_2)
    from pt_wf_child [OF wf _ this _ a(5,6)] a(7) have l3: "t3 \<in> L 3" by simp
    note k1 = same_targetD [OF pt_keepsD [OF k l1 table_index_less] a(3)]
    note k2 = same_targetD [OF pt_keepsD [OF k l2 table_index_less] a(5)]
    note k3 = same_targetD [OF pt_keepsD [OF k l3 table_index_less] a(8)]
    have "t1 = GetCurrentPageTable s'" using a(2) pt_keeps_root [OF k] by simp
    then show "leaf_slot s' v = Some (t, i)" unfolding a(1)
      by (rule leaf_slotI [of t1 _ _ t2 t3]) (simp_all add: k1 k2 k3 a(4,6,7,9,10))
  qed
qed

text \<open>Writing a page table entry changes no directory.\<close>

lemma set_leaf_wf:
  assumes wf: "pt_wf s L" and t: "t \<in> L 4"
  shows "pt_wf (set_entry t i e s) L" and "leaf_slot (set_entry t i e s) v = leaf_slot s v"
proof -
  have ne: "u \<noteq> t" if "u \<in> L m" "m \<in> {1, 2, 3}" for u m
    using pt_wf_disjoint [OF wf, of m 4] that t by force
  have mem: "pg_mem (set_entry t i e s) u = pg_mem s u" if "u \<in> L m" "m \<in> {1, 2, 3}" for u m
    using ne [OF that] by (simp add: set_entry_def)
  have "pg_mem (set_entry t i e s) u j AND PTE_ADDR_MASK \<in> L (Suc m)"
    if m: "m \<in> {1, 2, 3}" "u \<in> L m" "j < 512" "pg_mem (set_entry t i e s) u j AND PTE_PRESENT \<noteq> 0"
      "\<not> is_huge m (pg_mem (set_entry t i e s) u j)" for m u j
    using pt_wf_child [OF wf m(1-3)] m(4,5) unfolding mem [OF m(2,1)] by blast
  then show "pt_wf (set_entry t i e s) L" using wf unfolding pt_wf_def by simp
  let ?e1 = "pg_mem s (GetCurrentPageTable s) (PML4_INDEX v)"
  let ?e2 = "pg_mem s (?e1 AND PTE_ADDR_MASK) (PDPT_INDEX v)"
  have m1: "pg_mem (set_entry t i e s) (GetCurrentPageTable s) = pg_mem s (GetCurrentPageTable s)"
    by (rule mem [OF root_level [OF wf]]) simp
  have m2: "pg_mem (set_entry t i e s) (?e1 AND PTE_ADDR_MASK) = pg_mem s (?e1 AND PTE_ADDR_MASK)"
    if "?e1 AND PTE_PRESENT \<noteq> 0"
    by (rule mem [of _ "Suc 1"]) (use pt_wf_child [OF wf _ root_level [OF wf] _ that] in \<open>simp_all add: is_huge_def\<close>)
  have m3: "pg_mem (set_entry t i e s) (?e2 AND PTE_ADDR_MASK) = pg_mem s (?e2 AND PTE_ADDR_MASK)"
    if "?e1 AND PTE_PRESENT \<noteq> 0" "?e2 AND PTE_PRESENT \<noteq> 0" "\<not> is_huge 2 ?e2"
  proof -
    have "?e1 AND PTE_ADDR_MASK \<in> L 2"
      using pt_wf_child [OF wf _ root_level [OF wf] _ that(1)] by (simp add: is_huge_def numeral_2_eq_2)
    from pt_wf_child [OF wf _ this _ that(2,3)] show ?thesis by (intro mem [of _ 3]) simp_all
  qed
  show "leaf_slot (set_entry t i e s) v = leaf_slot s v"
    by (cases "?e1 AND PTE_PRESENT \<noteq> 0"; cases "?e2 AND PTE_PRESENT \<noteq> 0"; cases "is_huge 2 ?e2")
      (simp_all add: leaf_slot_def Let_def m1 m2 m3)
qed

lemma leaf_slot_fields:
  "pg_mem s' = pg_mem s \<Longrightarrow> cr3 s' = cr3 s \<Longrightarrow> leaf_slot s' v = leaf_slot s v"
  by (simp add: leaf_slot_def GetCurrentPageTable_def)

lemma GetPhysical_fields:
  "pg_mem s' = pg_mem s \<Longrightarrow> cr3 s' = cr3 s \<Longrightarrow> GetPhysical s' v = GetPhysical s v"
  by (simp only: GetPhysical_def GetCurrentPageTable_def)

text \<open>The walk of \<^verbatim>\<open>MapPage\<close>: the state before the last write.\<close>

definition map_walk_ok :: "(nat \<Rightarrow> u64 set) \<Rightarrow> mmu \<Rightarrow> u64 \<Rightarrow> u64 \<Rightarrow> u32 \<Rightarrow> bool \<Rightarrow> mmu \<Rightarrow> mmu \<Rightarrow> (nat \<Rightarrow> u64 set) \<Rightarrow> bool" where
  "map_walk_ok L s virt phys flags ok s' s3 L' \<longleftrightarrow> pt_wf s3 L' \<and> (\<forall>n. L n \<subseteq> L' n) \<and> pt_keeps L s s3 \<and>
     (unshared s L \<longrightarrow> unshared s3 L') \<and> (\<forall>q. page_used (mm_pmm s) q \<longrightarrow> page_used (mm_pmm s3) q) \<and>
     (if ok
      then \<exists>pt. leaf_slot s3 virt = Some (pt, PT_INDEX virt) \<and>
             s' = EnableWriteProtect (FlushTLB virt
                    (set_entry pt (PT_INDEX virt) ((phys AND PTE_ADDR_MASK) OR ConvertFlags flags) s3))
      else s' = s3)"

lemma MapPage_walk:
  assumes wf: "pt_wf s L" and r: "MapPage s virt phys flags = (ok, s')"
  shows "\<exists>s3 L'. map_walk_ok L s virt phys flags ok s' s3 L'"
proof -
  let ?d = "dir_flags_of flags" and ?x = "flags AND PAGE_EXECUTABLE \<noteq> 0"
  let ?s = "DisableWriteProtect s" and ?root = "GetCurrentPageTable s"
  have root: "GetCurrentPageTable ?s = ?root" by (simp add: GetCurrentPageTable_def)
  have wf0: "pt_wf ?s L" using wf pt_wf_fields [of ?s s L] by simp
  have k0: "pt_keeps L s ?s" by (rule pt_keeps_fields) simp_all
  have one: "(1::nat) \<in> {1, 2, 3}" "(2::nat) \<in> {1, 2, 3}" "(3::nat) \<in> {1, 2, 3}" by simp_all
  have lv: "(2 \<le> (1::nat)) = False" "(2 \<le> (2::nat)) = True" "(2 \<le> (3::nat)) = True" by simp_all
  obtain r1 s1 where m1: "map_level False False ?d ?x ?root (PML4_INDEX virt) ?s = (r1, s1)" by (rule prod.exhaust)
  from map_level_ok [OF wf0 root_level [OF wf] one(1) table_index_less, unfolded lv, OF m1]
  obtain L1 where l1: "level_ok L 1 ?root (PML4_INDEX virt) ?s r1 s1 L1" by blast
  have u0: "unshared s L \<longrightarrow> unshared ?s L" using unshared_fields [of ?s s L] by simp
  have q1: "pt_wf s1 L1" "\<And>n. L n \<subseteq> L1 n" "pt_keeps L s s1" and u1: "unshared s L \<longrightarrow> unshared s1 L1"
    and g1: "\<forall>q. page_used (mm_pmm s) q \<longrightarrow> page_used (mm_pmm s1) q"
    using l1 u0 pt_keeps_trans [OF k0, of L s1] unfolding level_ok_def by auto
  show ?thesis
  proof (cases r1)
    case None
    then have "ok = False" "s' = s1"
      using r m1 root_nonnull [OF wf] by (auto simp: MapPage_def Let_def root root_masked)
    with q1 u1 g1 have "map_walk_ok L s virt phys flags ok s' s1 L1" by (simp add: map_walk_ok_def)
    then show ?thesis by blast
  next
    case (Some pdpt)
    with l1 have p1: "pdpt \<in> L1 2" "pg_mem s1 ?root (PML4_INDEX virt) AND PTE_PRESENT \<noteq> 0"
      "pg_mem s1 ?root (PML4_INDEX virt) AND PTE_ADDR_MASK = pdpt"
      unfolding level_ok_def by (simp_all add: numeral_2_eq_2)
    obtain r2 s2 where m2: "map_level True False ?d ?x pdpt (PDPT_INDEX virt) s1 = (r2, s2)" by (rule prod.exhaust)
    from map_level_ok [OF q1(1) p1(1) one(2) table_index_less, unfolded lv, OF m2]
    obtain L2 where l2: "level_ok L1 2 pdpt (PDPT_INDEX virt) s1 r2 s2 L2" by blast
    have k12: "pt_keeps L1 s1 s2" and w2: "pt_wf s2 L2" and L12: "\<And>n. L1 n \<subseteq> L2 n"
      and u2: "unshared s L \<longrightarrow> unshared s2 L2" and g2: "\<forall>q. page_used (mm_pmm s) q \<longrightarrow> page_used (mm_pmm s2) q"
      using l2 u1 g1 unfolding level_ok_def by auto
    have q2: "pt_keeps L s s2" by (rule pt_keeps_trans [OF q1(3) k12 q1(2)])
    have L2: "L n \<subseteq> L2 n" for n using q1(2) L12 by blast
    show ?thesis
    proof (cases r2)
      case None
      then have "ok = False" "s' = s2"
        using r m1 m2 Some root_nonnull [OF wf] by (auto simp: MapPage_def Let_def root root_masked)
      with q2 w2 L2 u2 g2 have "map_walk_ok L s virt phys flags ok s' s2 L2" by (simp add: map_walk_ok_def)
      then show ?thesis by blast
    next
      case Some2: (Some pd)
      with l2 have p2: "pd \<in> L2 3" "pg_mem s2 pdpt (PDPT_INDEX virt) AND PTE_PRESENT \<noteq> 0"
        "\<not> is_huge 2 (pg_mem s2 pdpt (PDPT_INDEX virt))" "pg_mem s2 pdpt (PDPT_INDEX virt) AND PTE_ADDR_MASK = pd"
        unfolding level_ok_def by simp_all
      obtain r3 s3 where m3: "map_level True True ?d ?x pd (PD_INDEX virt) s2 = (r3, s3)" by (rule prod.exhaust)
      from map_level_ok [OF w2 p2(1) one(3) table_index_less, unfolded lv, OF m3]
      obtain L3 where l3: "level_ok L2 3 pd (PD_INDEX virt) s2 r3 s3 L3" by blast
      have k23: "pt_keeps L2 s2 s3" and w3: "pt_wf s3 L3" and L23: "\<And>n. L2 n \<subseteq> L3 n"
        and u3: "unshared s L \<longrightarrow> unshared s3 L3" and g3: "\<forall>q. page_used (mm_pmm s) q \<longrightarrow> page_used (mm_pmm s3) q"
        using l3 u2 g2 unfolding level_ok_def by auto
      have q3: "pt_keeps L s s3" by (rule pt_keeps_trans [OF q2 k23 L2])
      have L3: "L n \<subseteq> L3 n" for n using L2 L23 by blast
      show ?thesis
      proof (cases r3)
        case None
        then have "ok = False" "s' = s3"
          using r m1 m2 m3 Some Some2 root_nonnull [OF wf] by (auto simp: MapPage_def Let_def root root_masked)
        with q3 w3 L3 u3 g3 have "map_walk_ok L s virt phys flags ok s' s3 L3" by (simp add: map_walk_ok_def)
        then show ?thesis by blast
      next
        case Some3: (Some pt)
        with l3 have p3: "pg_mem s3 pd (PD_INDEX virt) AND PTE_PRESENT \<noteq> 0"
          "\<not> is_huge 3 (pg_mem s3 pd (PD_INDEX virt))" "pg_mem s3 pd (PD_INDEX virt) AND PTE_ADDR_MASK = pt"
          unfolding level_ok_def by simp_all
        have k13: "pt_keeps L1 s1 s3" by (rule pt_keeps_trans [OF k12 k23 L12])
        have "?root \<in> L1 1" using root_level [OF wf] q1(2) by blast
        note t1 = same_targetD [OF pt_keepsD [OF k13 this table_index_less] p1(2)]
        have "pdpt \<in> L2 2" using p1(1) L12 by blast
        note t2 = same_targetD [OF pt_keepsD [OF k23 this table_index_less] p2(2)]
        have "?root = GetCurrentPageTable s3" using pt_keeps_root [OF q3] by simp
        then have "leaf_slot s3 virt = Some (pt, PT_INDEX virt)"
          by (rule leaf_slotI [of _ _ _ pdpt pd]) (simp_all add: t1 t2 p1 p2 p3)
        moreover have "ok = True" "s' = EnableWriteProtect (FlushTLB virt
            (set_entry pt (PT_INDEX virt) ((phys AND PTE_ADDR_MASK) OR ConvertFlags flags) s3))"
          using r m1 m2 m3 Some Some2 Some3 root_nonnull [OF wf]
          by (auto simp: MapPage_def Let_def root root_masked)
        ultimately have "map_walk_ok L s virt phys flags ok s' s3 L3"
          using q3 w3 L3 u3 g3 by (simp add: map_walk_ok_def)
        then show ?thesis by blast
      qed
    qed
  qed
qed

section \<open>Destroying and creating a page table\<close>

text \<open>The tables below a user page table, in the order the code frees them.\<close>

definition pd_list :: "(u64 \<Rightarrow> nat \<Rightarrow> u64) \<Rightarrow> u64 \<Rightarrow> u64 list" where
  "pd_list m pd = concat (map (\<lambda>k. if m pd k AND PTE_PRESENT \<noteq> 0 then [m pd k AND PTE_ADDR_MASK] else []) [0..<512])"

definition pdpt_list :: "(u64 \<Rightarrow> nat \<Rightarrow> u64) \<Rightarrow> u64 \<Rightarrow> u64 list" where
  "pdpt_list m pdpt = concat (map (\<lambda>j. if m pdpt j AND PTE_PRESENT \<noteq> 0
     then pd_list m (m pdpt j AND PTE_ADDR_MASK) @ [m pdpt j AND PTE_ADDR_MASK] else []) [0..<512])"

definition user_tables :: "(u64 \<Rightarrow> nat \<Rightarrow> u64) \<Rightarrow> u64 \<Rightarrow> u64 list" where
  "user_tables m root = concat (map (\<lambda>i. if m root i AND PTE_PRESENT \<noteq> 0
     then pdpt_list m (m root i AND PTE_ADDR_MASK) @ [m root i AND PTE_ADDR_MASK] else []) [1..<256]) @ [root]"

lemma mmu_free_mem [simp]: "pg_mem (foldl mmu_free s xs) = pg_mem s"
  by (induction xs arbitrary: s) (simp_all add: mmu_free_def)

lemma foldl_free_concat:
  assumes "\<And>s k. pg_mem s = m \<Longrightarrow> F s k = foldl mmu_free s (f k)"
  shows "pg_mem s = m \<Longrightarrow> foldl F s ks = foldl mmu_free s (concat (map f ks))"
proof (induction ks arbitrary: s)
  case Nil
  then show ?case by simp
next
  case (Cons k ks)
  from assms [OF Cons.prems, of k] Cons.IH [of "foldl mmu_free s (f k)"] Cons.prems show ?case by simp
qed

lemma destroy_pd_list: "destroy_pd pd s = foldl mmu_free s (pd_list (pg_mem s) pd)"
  unfolding destroy_pd_def pd_list_def by (rule foldl_free_concat [OF _ refl]) simp

lemma destroy_pdpt_list: "destroy_pdpt pdpt s = foldl mmu_free s (pdpt_list (pg_mem s) pdpt)"
  unfolding destroy_pdpt_def pdpt_list_def
  by (rule foldl_free_concat [OF _ refl]) (simp add: Let_def destroy_pd_list)

lemma DestroyPageTable_list:
  assumes "root \<noteq> 0"
  shows "DestroyPageTable s root = foldl mmu_free s (user_tables (pg_mem s) root)"
proof -
  let ?F = "\<lambda>s' i. if pg_mem s' root i AND PTE_PRESENT \<noteq> 0
     then let pdpt = pg_mem s' root i AND PTE_ADDR_MASK in mmu_free (destroy_pdpt pdpt s') pdpt else s'"
  have "foldl ?F s [1..<256] = foldl mmu_free s (concat (map (\<lambda>i. if pg_mem s root i AND PTE_PRESENT \<noteq> 0
     then pdpt_list (pg_mem s) (pg_mem s root i AND PTE_ADDR_MASK) @ [pg_mem s root i AND PTE_ADDR_MASK] else []) [1..<256]))"
    by (rule foldl_free_concat [OF _ refl]) (simp add: Let_def destroy_pdpt_list)
  with assms show ?thesis unfolding DestroyPageTable_def user_tables_def foldl_append by simp
qed

lemma page_used_foldl_free:
  "page_used (mm_pmm (foldl mmu_free s xs)) p \<longleftrightarrow> page_used (mm_pmm s) p \<and> (\<forall>t \<in> set xs. p \<noteq> unat t div 4096)"
  by (induction xs arbitrary: s) (auto simp: mmu_free_def page_used_FreePage)

lemma copy_kernel_half:
  assumes "pml4 \<noteq> kernel_pml4 s"
  shows "foldl (\<lambda>s' i. set_entry pml4 i (pg_mem s' (kernel_pml4 s') i) s') s is
    = s\<lparr>pg_mem := (pg_mem s)(pml4 := (\<lambda>i. if i \<in> set is then pg_mem s (kernel_pml4 s) i else pg_mem s pml4 i))\<rparr>"
  using assms
proof (induction "is" arbitrary: s)
  case Nil
  then show ?case by simp
next
  case (Cons j js)
  let ?s = "set_entry pml4 j (pg_mem s (kernel_pml4 s) j) s"
  have "pg_mem ?s (kernel_pml4 ?s) = pg_mem s (kernel_pml4 s)" "pml4 \<noteq> kernel_pml4 ?s"
    using Cons.prems by (simp_all add: set_entry_def)
  with Cons.IH [of ?s] show ?case by (auto simp: set_entry_def fun_eq_iff)
qed

text \<open>The tables after \<^verbatim>\<open>CreatePageTable\<close>: one new PML4 with entry 0 and the upper half of the
  kernel's, everything else as before.\<close>

lemma CreatePageTable_mem:
  assumes wf: "pt_wf s L" and k: "kernel_pml4 s \<in> L 1" and c: "CreatePageTable s = (root, s')" and r: "root \<noteq> 0"
  shows "pg_mem s' = (pg_mem s)(root := (\<lambda>i. if i = 0 \<or> 256 \<le> i \<and> i < 512 then pg_mem s (kernel_pml4 s) i
           else if i < 512 then 0 else pg_mem s root i))"
    and "root \<notin> L n" and "root AND PTE_ADDR_MASK = root"
proof -
  obtain n1 s1 where al: "AllocateTable s = (n1, s1)" by (rule prod.exhaust)
  with c r have n1: "n1 \<noteq> 0" by (auto simp: CreatePageTable_def)
  note f = AllocateTable_fresh [OF wf al n1]
  have k0: "kernel_pml4 s \<noteq> 0" "kernel_pml4 s \<noteq> n1" using pt_wf_table [OF wf k] k f(1) by auto
  have s1: "kernel_pml4 s1 = kernel_pml4 s"
    "pg_mem s1 = (pg_mem s)(n1 := (\<lambda>i. if i < 512 then 0 else pg_mem s n1 i))"
    by (subst f(3), simp add: clear_table_def cong: if_cong)+
  let ?s2 = "set_entry n1 0 (pg_mem s1 (kernel_pml4 s1) 0) s1"
  have rn: "root = n1"
    and s': "s' = foldl (\<lambda>s' i. set_entry n1 i (pg_mem s' (kernel_pml4 s') i) s') ?s2 [256..<512]"
    using c al n1 k0(1) s1(1) by (auto simp: CreatePageTable_def Let_def simp del: upt_rec_numeral)
  have "n1 \<noteq> kernel_pml4 ?s2" using k0 s1 by simp
  from copy_kernel_half [OF this, of "[256..<512]"]
  have m: "pg_mem s' = (pg_mem ?s2)(n1 := (\<lambda>i. if i \<in> set [256..<512] then pg_mem ?s2 (kernel_pml4 ?s2) i else pg_mem ?s2 n1 i))"
    unfolding s' by (simp del: upt_rec_numeral set_upt)
  show "pg_mem s' = (pg_mem s)(root := (\<lambda>i. if i = 0 \<or> 256 \<le> i \<and> i < 512 then pg_mem s (kernel_pml4 s) i
           else if i < 512 then 0 else pg_mem s root i))"
    unfolding m rn set_upt using k0 s1 by (auto simp: fun_eq_iff set_entry_mem)
  show "root \<notin> L n" "root AND PTE_ADDR_MASK = root" using f(1,2) rn by simp_all
qed

section \<open>Properties\<close>

lemma MapPage_effect:
  assumes "pt_wf s L" and "MapPage s virt phys flags = (ok, s')"
  shows "(\<exists>L'. pt_wf s' L') \<and>
    (ok \<longrightarrow> cr0_wp s' \<and> hd (invlpg s') = virt \<and>
       GetPhysical s' virt = (phys AND PTE_ADDR_MASK) OR (virt AND 0xFFF)) \<and>
    (\<forall>v sl. leaf_slot s v = Some sl \<longrightarrow> (ok \<longrightarrow> leaf_slot s' virt \<noteq> Some sl) \<longrightarrow>
       GetPhysical s' v = GetPhysical s v)"
proof -
  from MapPage_walk [OF assms] obtain s3 L' where w: "map_walk_ok L s virt phys flags ok s' s3 L'" by blast
  then have wf3: "pt_wf s3 L'" and k: "pt_keeps L s s3" and sub: "L 4 \<subseteq> L' 4"
    by (simp_all add: map_walk_ok_def)
  have keep: "GetPhysical s3 v = GetPhysical s v" if "leaf_slot s v = Some (t, i)" for v t i
  proof -
    have "t \<in> L 4" using leaf_slot_level [OF assms(1) that] by simp
    then have "pg_mem s3 t i = pg_mem s t i" using k by (simp add: pt_keeps_def)
    then show ?thesis
      using GetPhysical_leaf [OF that root_nonnull [OF assms(1)]]
        GetPhysical_leaf [OF leaf_slot_keeps [OF assms(1) k that] root_nonnull [OF wf3]] by simp
  qed
  show ?thesis
  proof (cases ok)
    case False
    with w have "s' = s3" by (simp add: map_walk_ok_def)
    with False wf3 keep show ?thesis by auto
  next
    case True
    let ?e = "(phys AND PTE_ADDR_MASK) OR ConvertFlags flags"
    from True w obtain pt where pt: "leaf_slot s3 virt = Some (pt, PT_INDEX virt)"
      and s': "s' = EnableWriteProtect (FlushTLB virt (set_entry pt (PT_INDEX virt) ?e s3))"
      by (auto simp: map_walk_ok_def)
    let ?s4 = "set_entry pt (PT_INDEX virt) ?e s3"
    have p4: "pt \<in> L' 4" using leaf_slot_level [OF wf3 pt] by simp
    note sl = set_leaf_wf [OF wf3 p4, of "PT_INDEX virt" ?e]
    have mem: "pg_mem s' = pg_mem ?s4" "cr3 s' = cr3 ?s4" "mm_pmm s' = mm_pmm ?s4" by (simp_all add: s')
    have wf': "pt_wf s' L'" using sl(1) pt_wf_fields [OF mem] by simp
    have ls: "leaf_slot s' v = leaf_slot s3 v" for v using leaf_slot_fields [OF mem(1,2)] sl(2) by simp
    have new: "GetPhysical s' virt = (phys AND PTE_ADDR_MASK) OR (virt AND 0xFFF)"
      using GetPhysical_leaf [OF _ root_nonnull [OF wf'], of virt] pt ls leaf_entry [of phys flags]
      by (simp add: mem set_entry_mem)
    have old: "GetPhysical s' v = GetPhysical s v"
      if v: "leaf_slot s v = Some (t, i)" "leaf_slot s' virt \<noteq> Some (t, i)" for v t i
    proof -
      have "pg_mem s' t i = pg_mem s3 t i" using v(2) ls pt by (auto simp: mem set_entry_mem)
      moreover have "leaf_slot s3 v = Some (t, i)" by (rule leaf_slot_keeps [OF assms(1) k v(1)])
      ultimately have "GetPhysical s' v = GetPhysical s3 v"
        using GetPhysical_leaf [OF _ root_nonnull [OF wf']] GetPhysical_leaf [OF _ root_nonnull [OF wf3]] ls
        by simp
      with keep [OF v(1)] show ?thesis by simp
    qed
    from wf' new old True s' show ?thesis by (auto simp: FlushTLB_def EnableWriteProtect_def)
  qed
qed

text \<open>C5. \<^verbatim>\<open>MapPage\<close> keeps the page tables well formed.  When it returns true the virtual address
  translates to the requested frame plus the page offset, the TLB entry was flushed and write
  protection is on again; every other address that resolved to a different slot translates as before,
  whether or not the call succeeded.\<close>

theorem MapPage_correct:
  assumes "pt_wf s L" and "MapPage s virt phys flags = (ok, s')"
  shows "(\<exists>L'. pt_wf s' L') \<and>
    (ok \<longrightarrow> cr0_wp s' \<and> hd (invlpg s') = virt \<and>
       GetPhysical s' virt = (phys AND PTE_ADDR_MASK) OR (virt AND 0xFFF)) \<and>
    (\<forall>v sl. leaf_slot s v = Some sl \<longrightarrow> (ok \<longrightarrow> leaf_slot s' virt \<noteq> Some sl) \<longrightarrow>
       GetPhysical s' v = GetPhysical s v)"
  by (rule MapPage_effect [OF assms])

text \<open>A machine with one table per level, and no page mapped.\<close>

definition demo_mmu :: mmu where
  "demo_mmu = \<lparr>pg_mem = (\<lambda>t i. if i = 0 then (if t = 0x10000 then 0x11003 else if t = 0x11000 then 0x12003
                 else if t = 0x12000 then 0x13003 else 0) else 0),
     cr3 = 0x10000, cr0_wp = True, kernel_pml4 = 0x10000, invlpg = [], mm_pmm = tiny_pmm\<rparr>"

definition demo_levels :: "nat \<Rightarrow> u64 set" where
  "demo_levels n = (if n = 1 then {0x10000} else if n = 2 then {0x11000} else if n = 3 then {0x12000}
     else if n = 4 then {0x13000} else {})"

lemma demo_wf: "pt_wf demo_mmu demo_levels"
  unfolding pt_wf_def
  by (intro conjI) (auto simp: demo_mmu_def demo_levels_def tiny_pmm_inv tiny_pmm_used GetCurrentPageTable_def
      is_huge_def, simp add: tiny_pmm_def)

theorem MapPage_correct_witness:
  "\<exists>s'. MapPage demo_mmu 0x1234 0x5000 2 = (True, s') \<and> GetPhysical s' 0x1234 = 0x5234"
proof -
  obtain ok s' where m: "MapPage demo_mmu 0x1234 0x5000 2 = (ok, s')" by (rule prod.exhaust)
  moreover have "fst (MapPage demo_mmu 0x1234 0x5000 2)"
    by (simp add: MapPage_def demo_mmu_def map_level_def set_entry_def DisableWriteProtect_def Let_def
        GetCurrentPageTable_def table_index_def dir_flags_of_def)
  ultimately have ok by simp
  with MapPage_correct [OF demo_wf m] m show ?thesis by simp
qed

text \<open>\<^verbatim>\<open>UnmapPage\<close> under the kernel page table removes the translation of the address and keeps
  that of every address in another slot.\<close>

theorem UnmapPage_correct:
  assumes "pt_wf s L" and "kernel_pml4 s = GetCurrentPageTable s" and "leaf_slot s virt = Some sl"
  shows "GetPhysical (UnmapPage s virt) virt = 0 \<and> \<not> IsMapped (UnmapPage s virt) virt \<and>
    (\<forall>v sl'. leaf_slot s v = Some sl' \<longrightarrow> sl' \<noteq> sl \<longrightarrow> GetPhysical (UnmapPage s virt) v = GetPhysical s v)"
proof -
  obtain t i where sl: "sl = (t, i)" by (rule prod.exhaust)
  note wf = assms(1) and l = assms(3) [unfolded sl]
  have t4: "t \<in> L 4" using leaf_slot_level [OF wf l] by simp
  have u: "UnmapPage s virt = FlushTLB virt (set_entry t i 0 s)"
    using l
  proof (rule leaf_slotE)
    fix t1 t2 t3
    assume a: "i = PT_INDEX virt" "t1 = GetCurrentPageTable s"
      "pg_mem s t1 (PML4_INDEX virt) AND PTE_PRESENT \<noteq> 0" "pg_mem s t1 (PML4_INDEX virt) AND PTE_ADDR_MASK = t2"
      "pg_mem s t2 (PDPT_INDEX virt) AND PTE_PRESENT \<noteq> 0" "\<not> is_huge 2 (pg_mem s t2 (PDPT_INDEX virt))"
      "pg_mem s t2 (PDPT_INDEX virt) AND PTE_ADDR_MASK = t3"
      "pg_mem s t3 (PD_INDEX virt) AND PTE_PRESENT \<noteq> 0" "\<not> is_huge 3 (pg_mem s t3 (PD_INDEX virt))"
      "pg_mem s t3 (PD_INDEX virt) AND PTE_ADDR_MASK = t"
    have l1: "t1 \<in> L 1" using root_level [OF wf] a(2) by simp
    from pt_wf_child [OF wf _ this _ a(3)] a(4) have "t2 \<in> L (Suc 1)" by (simp add: is_huge_def)
    then have l2: "t2 \<in> L 2" by (simp add: numeral_2_eq_2)
    from pt_wf_child [OF wf _ this _ a(5,6)] a(7) have l3: "t3 \<in> L 3" by simp
    have nz: "t1 \<noteq> 0" "t2 \<noteq> 0" "t3 \<noteq> 0" "t \<noteq> 0"
      using pt_wf_table [OF wf l1] pt_wf_table [OF wf l2] pt_wf_table [OF wf l3] pt_wf_table [OF wf t4] by simp_all
    have "kernel_pml4 s = t1" using a(2) assms(2) by simp
    then show ?thesis unfolding UnmapPage_def Let_def using nz a(1,3-5,7,8,10) by simp
  qed
  let ?s = "set_entry t i 0 s"
  note sw = set_leaf_wf [OF wf t4, of i 0]
  have r: "GetCurrentPageTable ?s \<noteq> 0" by (rule root_nonnull [OF sw(1)])
  have phys: "GetPhysical (UnmapPage s virt) v = GetPhysical ?s v" for v
    unfolding u by (rule GetPhysical_fields) simp_all
  have "GetPhysical ?s virt = 0"
    using GetPhysical_leaf [OF sw(2) [THEN trans, OF l] r] by (simp add: set_entry_mem)
  moreover have "GetPhysical ?s v = GetPhysical s v" if "leaf_slot s v = Some sl'" "sl' \<noteq> sl" for v sl'
  proof -
    obtain t' i' where sl': "sl' = (t', i')" by (rule prod.exhaust)
    with that sl have "pg_mem ?s t' i' = pg_mem s t' i'" by (auto simp: set_entry_mem)
    then show ?thesis using GetPhysical_leaf [OF sw(2) [THEN trans, OF that(1) [unfolded sl']] r]
        GetPhysical_leaf [OF that(1) [unfolded sl'] root_nonnull [OF wf]] by simp
  qed
  ultimately show ?thesis using phys by (simp add: IsMapped_def)
qed

theorem UnmapPage_correct_witness: "\<not> IsMapped (UnmapPage demo_mmu 0x1234) 0x1234"
proof -
  have "leaf_slot demo_mmu 0x1234 = Some (0x13000, 1)"
    by (simp add: leaf_slot_def demo_mmu_def GetCurrentPageTable_def table_index_def is_huge_def)
  moreover have "kernel_pml4 demo_mmu = GetCurrentPageTable demo_mmu"
    by (simp add: demo_mmu_def GetCurrentPageTable_def)
  ultimately show ?thesis using UnmapPage_correct [OF demo_wf] by blast
qed

text \<open>\<^verbatim>\<open>UnmapPage\<close> walks the kernel page table while \<^verbatim>\<open>MapPage\<close> and \<^verbatim>\<open>GetPhysical\<close> walk the active
  one: an address the kernel table has no PML4 entry for stays mapped in the active table.\<close>

theorem UnmapPage_ignores_active_table:
  assumes "pg_mem s (kernel_pml4 s) (PML4_INDEX virt) AND PTE_PRESENT = 0" and "IsMapped s virt"
  shows "IsMapped (UnmapPage s virt) virt \<and> GetPhysical (UnmapPage s virt) virt = GetPhysical s virt"
proof -
  have "UnmapPage s virt = s" using assms(1) by (simp add: UnmapPage_def Let_def)
  with assms(2) show ?thesis by simp
qed

definition demo_user_mmu :: mmu where
  "demo_user_mmu = demo_mmu\<lparr>pg_mem := (\<lambda>t i. if t = 0x13000 \<and> i = 1 then 0x5007 else pg_mem demo_mmu t i),
     kernel_pml4 := 0x14000\<rparr>"

theorem UnmapPage_ignores_active_table_witness:
  "IsMapped (UnmapPage demo_user_mmu 0x1234) 0x1234"
  by (rule conjunct1 [OF UnmapPage_ignores_active_table])
    (simp_all add: demo_user_mmu_def demo_mmu_def IsMapped_def GetPhysical_def GetCurrentPageTable_def table_index_def Let_def)

text \<open>When \<^verbatim>\<open>MapPage\<close> cannot allocate a directory it returns false with the write protection of
  the processor still switched off.\<close>

theorem MapPage_out_of_memory_clears_wp:
  assumes "pt_wf s L" and "pg_mem s (GetCurrentPageTable s) (PML4_INDEX virt) AND PTE_PRESENT = 0"
    and "\<forall>p < page_limit (mm_pmm s). page_used (mm_pmm s) p"
  shows "\<exists>s'. MapPage s virt phys flags = (False, s') \<and> \<not> cr0_wp s'"
proof -
  let ?s = "DisableWriteProtect s"
  have "AllocPage (mm_pmm s) = (0, mm_pmm s)"
    by (rule AllocPage_cases [OF conjunct1 [OF pt_wf_pmm [OF assms(1)]]]) (use assms(3) in auto)
  then have "AllocateTable ?s = (0, ?s)" by (simp add: AllocateTable_def Let_def DisableWriteProtect_def)
  then have "map_level False False d x (GetCurrentPageTable s) (PML4_INDEX virt) ?s = (None, ?s)" for d x
    using assms(2) by (simp add: map_level_def)
  moreover have "GetCurrentPageTable ?s = GetCurrentPageTable s" by (simp add: GetCurrentPageTable_def)
  ultimately have "MapPage s virt phys flags = (False, ?s)"
    using root_nonnull [OF assms(1)] by (simp add: MapPage_def Let_def root_masked)
  then show ?thesis by simp
qed

theorem MapPage_out_of_memory_clears_wp_witness:
  "\<exists>s'. MapPage (demo_mmu\<lparr>mm_pmm := take_page tiny_pmm 5\<rparr>) 0x8000000000 0x5000 2 = (False, s') \<and> \<not> cr0_wp s'"
proof (rule MapPage_out_of_memory_clears_wp)
  let ?s = "demo_mmu\<lparr>mm_pmm := take_page tiny_pmm 5\<rparr>"
  have lim: "page_limit tiny_pmm = 4096" by (simp add: page_limit_def tiny_pmm_def)
  then have inv: "pmm_inv (take_page tiny_pmm 5)" using pmm_inv_take_page [OF tiny_pmm_inv] by simp
  show "\<forall>p < page_limit (mm_pmm ?s). page_used (mm_pmm ?s) p" using lim by (auto simp: tiny_pmm_used)
  show "pg_mem ?s (GetCurrentPageTable ?s) (PML4_INDEX 0x8000000000) AND PTE_PRESENT = 0"
    by (simp add: demo_mmu_def GetCurrentPageTable_def table_index_def)
  have "highestAddr (take_page tiny_pmm 5) = highestAddr (mm_pmm demo_mmu)"
    by (simp add: take_page_def demo_mmu_def)
  moreover have "page_used (take_page tiny_pmm 5) q" if "page_used (mm_pmm demo_mmu) q" for q
    using that by (simp add: demo_mmu_def)
  ultimately show "pt_wf ?s demo_levels"
    using demo_wf inv unfolding pt_wf_def by (simp add: GetCurrentPageTable_def)
qed

text \<open>C6. \<^verbatim>\<open>DestroyPageTable\<close> returns exactly the user half's page tables, directories and the PML4 to
  the physical memory manager: every other page, mapped frames included, keeps its state.\<close>

theorem DestroyPageTable_frees_tables:
  assumes "root \<noteq> 0"
  shows "(\<forall>p. page_used (mm_pmm (DestroyPageTable s root)) p \<longleftrightarrow>
      page_used (mm_pmm s) p \<and> (\<forall>t \<in> set (user_tables (pg_mem s) root). p \<noteq> unat t div 4096)) \<and>
    pg_mem (DestroyPageTable s root) = pg_mem s"
  unfolding DestroyPageTable_list [OF assms] by (simp add: page_used_foldl_free)

theorem DestroyPageTable_frees_tables_witness:
  "\<not> page_used (mm_pmm (DestroyPageTable demo_mmu 0x10000)) 16"
proof -
  have "(0x10000 :: u64) \<noteq> 0" by simp
  from DestroyPageTable_frees_tables [OF this, of demo_mmu] show ?thesis
    by (simp add: user_tables_def del: upt_rec_numeral)
qed

text \<open>C7. A table made by \<^verbatim>\<open>CreatePageTable\<close> translates the identity map and the upper half exactly as
  the kernel's own table does and maps nothing else.\<close>

theorem CreatePageTable_shares_kernel:
  assumes "pt_wf s L" and "kernel_pml4 s = GetCurrentPageTable s" and "CreatePageTable s = (root, s')" and "root \<noteq> 0"
  shows "(if PML4_INDEX v = 0 \<or> 256 \<le> PML4_INDEX v
     then leaf_slot s v = Some sl \<longrightarrow> GetPhysical (SwitchPageTable s' root) v = GetPhysical s v
     else GetPhysical (SwitchPageTable s' root) v = 0)"
proof -
  note wf = assms(1)
  let ?k = "GetCurrentPageTable s" and ?s = "SwitchPageTable s' root"
  have k: "kernel_pml4 s \<in> L 1" using root_level [OF wf] assms(2) by simp
  note c = CreatePageTable_mem [OF wf k assms(3,4)]
  have root: "GetCurrentPageTable ?s = root" using c(3) by (simp add: SwitchPageTable_def GetCurrentPageTable_def)
  have keep: "pg_mem ?s t i = pg_mem s t i" if "t \<in> L n" for t n i
    using c(1) c(2) [of n] that by (auto simp: SwitchPageTable_def)
  have top: "pg_mem ?s root (PML4_INDEX v) = (if PML4_INDEX v = 0 \<or> 256 \<le> PML4_INDEX v
      then pg_mem s ?k (PML4_INDEX v) else 0)"
    using c(1) assms(2) by (simp add: SwitchPageTable_def)
  show ?thesis
  proof (cases "PML4_INDEX v = 0 \<or> 256 \<le> PML4_INDEX v")
    case False
    with top root assms(4) c(3) show ?thesis by (simp add: GetPhysical_def Let_def)
  next
    case True
    note top' = top [unfolded if_P [OF True]]
    have "GetPhysical ?s v = GetPhysical s v" if l: "leaf_slot s v = Some (t, i)" for t i
    proof -
      have "leaf_slot ?s v = Some (t, i)" using l
      proof (rule leaf_slotE)
        fix t1 t2 t3
        assume a: "i = PT_INDEX v" "t1 = GetCurrentPageTable s"
          "pg_mem s t1 (PML4_INDEX v) AND PTE_PRESENT \<noteq> 0" "pg_mem s t1 (PML4_INDEX v) AND PTE_ADDR_MASK = t2"
          "pg_mem s t2 (PDPT_INDEX v) AND PTE_PRESENT \<noteq> 0" "\<not> is_huge 2 (pg_mem s t2 (PDPT_INDEX v))"
          "pg_mem s t2 (PDPT_INDEX v) AND PTE_ADDR_MASK = t3"
          "pg_mem s t3 (PD_INDEX v) AND PTE_PRESENT \<noteq> 0" "\<not> is_huge 3 (pg_mem s t3 (PD_INDEX v))"
          "pg_mem s t3 (PD_INDEX v) AND PTE_ADDR_MASK = t"
        have l1: "t1 \<in> L 1" using root_level [OF wf] a(2) by simp
        from pt_wf_child [OF wf _ this _ a(3)] a(4) have "t2 \<in> L (Suc 1)" by (simp add: is_huge_def)
        then have l2: "t2 \<in> L 2" by (simp add: numeral_2_eq_2)
        from pt_wf_child [OF wf _ this _ a(5,6)] a(7) have l3: "t3 \<in> L 3" by simp
        note top1 = top' [folded a(2)]
        show ?thesis unfolding a(1)
          by (rule leaf_slotI [OF root [symmetric], of _ t2 t3])
            (simp_all only: top1 keep [OF l2] keep [OF l3] a(3-10) not_False_eq_True)
      qed
      moreover have "pg_mem ?s t i = pg_mem s t i" by (rule keep [of t 4]) (use leaf_slot_level [OF wf l] in simp)
      moreover have "GetCurrentPageTable ?s \<noteq> 0" using root assms(4) by simp
      ultimately show ?thesis using GetPhysical_leaf GetPhysical_leaf [OF l root_nonnull [OF wf]] by simp
    qed
    with True show ?thesis by (cases sl) simp
  qed
qed

theorem CreatePageTable_shares_kernel_witness:
  "\<exists>root s'. CreatePageTable demo_mmu = (root, s') \<and> root \<noteq> 0 \<and>
     GetPhysical (SwitchPageTable s' root) 0x1234 = GetPhysical demo_mmu 0x1234"
proof -
  obtain root s' where c: "CreatePageTable demo_mmu = (root, s')" by (rule prod.exhaust)
  have lim: "page_limit tiny_pmm = 4096" by (simp add: page_limit_def tiny_pmm_def)
  have "AllocPage tiny_pmm = (0x5000, take_page tiny_pmm 5)"
    by (rule AllocPage_cases [OF tiny_pmm_inv]) (auto simp: tiny_pmm_used lim dest: spec [of _ 5])
  then have r: "root \<noteq> 0" using c
    by (auto simp: CreatePageTable_def AllocateTable_def demo_mmu_def Let_def clear_table_def simp del: upt_rec_numeral)
  have l: "leaf_slot demo_mmu 0x1234 = Some (0x13000, 1)"
    by (simp add: leaf_slot_def demo_mmu_def GetCurrentPageTable_def table_index_def is_huge_def)
  have k: "kernel_pml4 demo_mmu = GetCurrentPageTable demo_mmu"
    by (simp add: demo_mmu_def GetCurrentPageTable_def)
  from CreatePageTable_shares_kernel [OF demo_wf k c r, of "0x1234" "(0x13000, 1)"] l c r show ?thesis
    by (simp add: table_index_def)
qed

end
