(* ===== verification/Bounded_Fifo.thy ===== *)
theory Bounded_Fifo
  imports Prelude
begin

text \<open>
  The contract of the kernel's bounded queues (evdev, the per-task event queues, the input stash):
  a push appends at the end unless the queue is full, a pop takes from the front.  Proved once from
  the laws: over any interleaving of pushes and pops the consumer sees the accepted elements in the
  order they were pushed, none lost and none twice.  The second half holds the arithmetic of the
  ring representation all of them use: an array, the index of the oldest element and a count.
\<close>

section \<open>The interface\<close>

datatype 'e fifo_op = Push 'e | Pop

fun run_fifo ::
  "('e \<Rightarrow> 'q \<Rightarrow> bool \<times> 'q) \<Rightarrow> ('q \<Rightarrow> ('e \<times> 'q) option) \<Rightarrow> 'e fifo_op list \<Rightarrow> 'q
     \<Rightarrow> 'e list \<times> 'e list \<times> 'q" where
  "run_fifo push pop [] q = ([], [], q)"
| "run_fifo push pop (Push e # ops) q =
     (let (ok, q1) = push e q; (acc, out, q2) = run_fifo push pop ops q1
      in (if ok then e # acc else acc, out, q2))"
| "run_fifo push pop (Pop # ops) q =
     (case pop q of
        None \<Rightarrow> run_fifo push pop ops q
      | Some (e, q1) \<Rightarrow> let (acc, out, q2) = run_fifo push pop ops q1 in (acc, e # out, q2))"

locale bounded_fifo =
  fixes push :: "'e \<Rightarrow> 'q \<Rightarrow> bool \<times> 'q"
    and pop :: "'q \<Rightarrow> ('e \<times> 'q) option"
    and contents :: "'q \<Rightarrow> 'e list"
    and inv :: "'q \<Rightarrow> bool"
    and cap :: nat
  assumes push_room: "inv q \<Longrightarrow> length (contents q) < cap \<Longrightarrow> push e q = (ok, q') \<Longrightarrow>
      ok \<and> contents q' = contents q @ [e]"
    and push_full: "inv q \<Longrightarrow> length (contents q) = cap \<Longrightarrow> push e q = (ok, q') \<Longrightarrow>
      \<not> ok \<and> contents q' = contents q"
    and push_inv: "inv q \<Longrightarrow> push e q = (ok, q') \<Longrightarrow> inv q'"
    and pop_empty: "inv q \<Longrightarrow> contents q = [] \<Longrightarrow> pop q = None"
    and pop_front: "inv q \<Longrightarrow> contents q = e # es \<Longrightarrow> \<exists>q'. pop q = Some (e, q') \<and> contents q' = es \<and> inv q'"
    and bounded: "inv q \<Longrightarrow> length (contents q) \<le> cap"
begin

lemma push_contents:
  assumes "inv q" and "push e q = (ok, q')"
  shows "contents q' = (if ok then contents q @ [e] else contents q)"
  using push_room [OF assms(1) _ assms(2)] push_full [OF assms(1) _ assms(2)] bounded [OF assms(1)]
  by (cases "length (contents q) < cap") auto

lemma run_fifo_order:
  "inv q \<Longrightarrow> run_fifo push pop ops q = (acc, out, q') \<Longrightarrow>
   inv q' \<and> contents q @ acc = out @ contents q' \<and> length (contents q') \<le> cap"
proof (induction ops arbitrary: q acc out q')
  case Nil
  then show ?case using bounded by auto
next
  case (Cons oper ops)
  show ?case
  proof (cases oper)
    case (Push e)
    obtain ok q1 where p: "push e q = (ok, q1)" by (rule prod.exhaust)
    obtain acc1 out1 q2 where r: "run_fifo push pop ops q1 = (acc1, out1, q2)"
      by (metis prod_cases3)
    from Cons.prems(2) Push p r have e: "acc = (if ok then e # acc1 else acc1)" "out = out1" "q' = q2" by auto
    from Cons.IH [OF push_inv [OF Cons.prems(1) p] r] push_contents [OF Cons.prems(1) p] e
    show ?thesis by auto
  next
    case Pop
    show ?thesis
    proof (cases "contents q")
      case Nil
      with pop_empty [OF Cons.prems(1)] Cons.prems Pop show ?thesis
        using Cons.IH [OF Cons.prems(1)] by simp
    next
      case (Cons e es)
      with pop_front [OF Cons.prems(1)] obtain q1 where
        q1: "pop q = Some (e, q1)" "contents q1 = es" "inv q1" by blast
      obtain acc1 out1 q2 where r: "run_fifo push pop ops q1 = (acc1, out1, q2)"
        by (metis prod_cases3)
      from Cons.prems(2) Pop q1 r have "acc = acc1" "out = e # out1" "q' = q2" by auto
      with Cons.IH [OF q1(3) r] q1(2) Cons show ?thesis by simp
    qed
  qed
qed

end

section \<open>Rings\<close>

definition ring :: "'a list \<Rightarrow> nat \<Rightarrow> nat \<Rightarrow> 'a list" where
  "ring buf t0 c = map (\<lambda>k. buf ! ((t0 + k) mod length buf)) [0..<c]"

lemma length_ring [simp]: "length (ring buf t0 c) = c"
  by (simp add: ring_def)

lemma ring_0 [simp]: "ring buf t0 0 = []"
  by (simp add: ring_def)

lemma mod_add_inj:
  assumes "(t0 + a) mod n = (t0 + b) mod n" and "a < n" and "b < (n::nat)"
  shows "a = b"
proof -
  have "int ((t0 + a) mod n) = int ((t0 + b) mod n)" using assms(1) by simp
  then have "(int t0 + int a) mod int n = (int t0 + int b) mod int n" by (simp add: zmod_int)
  then have "int n dvd int a - int b" by (simp add: mod_eq_dvd_iff)
  moreover have "\<bar>int a - int b\<bar> < int n" using assms(2,3) by linarith
  ultimately have "int a - int b = 0" using dvd_imp_le_int [of "int a - int b" "int n"] by linarith
  then show ?thesis by simp
qed

lemma ring_push:
  assumes "c < length buf"
  shows "ring (buf[(t0 + c) mod length buf := e]) t0 (Suc c) = ring buf t0 c @ [e]"
proof -
  let ?n = "length buf" and ?h = "(t0 + c) mod length buf"
  have h: "?h < ?n" using assms by (intro mod_less_divisor) linarith
  have "buf[?h := e] ! ((t0 + k) mod ?n) = buf ! ((t0 + k) mod ?n)" if "k < c" for k
    using mod_add_inj [of t0 k ?n c] that assms by (metis nat_neq_iff nth_list_update_neq order_less_trans)
  with h show ?thesis by (simp add: ring_def)
qed

lemma ring_pop:
  assumes "0 < c" and "c \<le> length buf"
  shows "ring buf t0 c = buf ! (t0 mod length buf) # ring buf ((t0 + 1) mod length buf) (c - 1)"
proof (rule nth_equalityI)
  show "length (ring buf t0 c) = length (buf ! (t0 mod length buf) # ring buf ((t0 + 1) mod length buf) (c - 1))"
    using assms by simp
next
  fix i
  assume "i < length (ring buf t0 c)"
  then have i: "i < c" by simp
  show "ring buf t0 c ! i = (buf ! (t0 mod length buf) # ring buf ((t0 + 1) mod length buf) (c - 1)) ! i"
  proof (cases i)
    case 0
    with assms show ?thesis by (simp add: ring_def)
  next
    case (Suc j)
    have "((t0 + 1) mod length buf + j) mod length buf = (t0 + Suc j) mod length buf"
      by (simp add: mod_add_left_eq)
    moreover have "j < c - 1" using i Suc by linarith
    ultimately show ?thesis using i Suc by (simp add: ring_def)
  qed
qed

lemma ring_tail_mod [simp]: "ring buf (t0 mod length buf) c = ring buf t0 c"
  by (simp add: ring_def mod_add_left_eq)

section \<open>Rings with a head and a tail\<close>

text \<open>Several queues keep the index of the next free slot (head) and of the oldest element (tail) and no
  count: they are empty when the two meet, and full one slot before they would meet again.\<close>

definition ht_len :: "nat \<Rightarrow> nat \<Rightarrow> nat \<Rightarrow> nat" where
  "ht_len n h t0 = (h + n - t0) mod n"

lemma ht_len_cases: "h < n \<Longrightarrow> t0 < n \<Longrightarrow> ht_len n h t0 = (if t0 \<le> h then h - t0 else h + n - t0)"
  by (auto simp: ht_len_def mod_if)

lemma ht_next: "h < n \<Longrightarrow> (h + 1) mod n = (if h + 1 = n then 0 else h + 1)" for h n :: nat
  using mod_Suc [of h n] by simp

lemma ht_len_less: "h < n \<Longrightarrow> ht_len n h t0 < n"
  by (simp add: ht_len_def)

lemma ht_len_0: "h < n \<Longrightarrow> t0 < n \<Longrightarrow> ht_len n h t0 = 0 \<longleftrightarrow> h = t0"
  by (auto simp: ht_len_cases)

lemma ht_head: "h < n \<Longrightarrow> t0 < n \<Longrightarrow> (t0 + ht_len n h t0) mod n = h"
  by (auto simp: ht_len_cases)

lemma ht_full: "h < n \<Longrightarrow> t0 < n \<Longrightarrow> (h + 1) mod n = t0 \<longleftrightarrow> ht_len n h t0 + 1 = n"
  unfolding ht_next by (auto simp: ht_len_cases)

lemma ht_len_push: "h < n \<Longrightarrow> t0 < n \<Longrightarrow> (h + 1) mod n \<noteq> t0 \<Longrightarrow> ht_len n ((h + 1) mod n) t0 = Suc (ht_len n h t0)"
  unfolding ht_next by (auto simp: ht_len_cases)

lemma ht_len_pop: "h < n \<Longrightarrow> t0 < n \<Longrightarrow> h \<noteq> t0 \<Longrightarrow> ht_len n h ((t0 + 1) mod n) = ht_len n h t0 - 1"
  unfolding ht_next by (auto simp: ht_len_cases)

lemma ht_ring_push:
  assumes "h < length buf" and "t0 < length buf" and "(h + 1) mod length buf \<noteq> t0"
  shows "ring (buf[h := e]) t0 (ht_len (length buf) ((h + 1) mod length buf) t0) =
         ring buf t0 (ht_len (length buf) h t0) @ [e]"
  using ring_push [OF ht_len_less [OF assms(1)], of t0 t0 e] ht_head [OF assms(1,2)] ht_len_push [OF assms] by simp

lemma ht_ring_pop:
  assumes "h < length buf" and "t0 < length buf" and "h \<noteq> t0"
  shows "ring buf t0 (ht_len (length buf) h t0) =
         buf ! t0 # ring buf ((t0 + 1) mod length buf) (ht_len (length buf) h ((t0 + 1) mod length buf))"
proof -
  have "0 < ht_len (length buf) h t0" using ht_len_0 [OF assms(1,2)] assms(3) by simp
  from ring_pop [OF this less_imp_le [OF ht_len_less [OF assms(1)]]] ht_len_pop [OF assms] assms(2) show ?thesis by simp
qed

end
