(* ===== verification/Scheduler.thy ===== *)
theory Scheduler
  imports KHeap MMU Bounded_Fifo
begin

text \<open>
  The scheduler, \<^verbatim>\<open>kernel/process/scheduler.cpp\<close>: tasks are linked into a circular list by their
  \<^verbatim>\<open>next\<close> pointers, so they live in an explicit store from addresses to \<open>Task\<close> records.  Task
  structures and kernel stacks come from the kernel heap (theory \<open>KHeap\<close>), page tables from the MMU
  (theory \<open>MMU\<close>); both are part of the scheduler's state.  \<^verbatim>\<open>Yield\<close> raises interrupt 0x20, whose
  handler calls \<^verbatim>\<open>Schedule\<close>: it is the next step, not part of the caller's.
\<close>

section \<open>State\<close>

datatype TaskState = READY | RUNNING | SLEEPING | DEAD

record FileDescriptor =
  fd_node :: addr
  fd_offset :: nat
  fd_flags :: nat
  in_use :: bool

record OSEvent =
  os_type :: nat
  os_dx :: int
  os_dy :: int
  os_buttons :: nat
  os_scancode :: nat
  os_ascii :: nat

record Task =
  stack_pointer :: addr
  t_id :: nat
  t_state :: TaskState
  t_cr3 :: u64
  wake_up_time :: nat
  kernel_stack_top :: addr
  fdTable :: "FileDescriptor list"
  eventQueue :: "OSEvent list"
  eventHead :: nat
  eventTail :: nat
  t_next :: addr

record StackFrame =
  f_r15 :: nat
  f_r14 :: nat
  f_r13 :: nat
  f_r12 :: nat
  f_r11 :: nat
  f_r10 :: nat
  f_r9 :: nat
  f_r8 :: nat
  f_rbp :: nat
  f_rdi :: nat
  f_rsi :: nat
  f_rdx :: nat
  f_rcx :: nat
  f_rbx :: nat
  f_rax :: nat
  f_interrupt_number :: nat
  f_error_code :: nat
  f_rip :: nat
  f_cs :: nat
  f_rflags :: nat
  f_rsp :: nat
  f_ss :: nat

record sched =
  sc_task :: "addr \<Rightarrow> Task"
  sc_frame :: "addr \<Rightarrow> StackFrame"
  currentTask :: addr
  tasksHead :: addr
  idleTask :: addr
  nextTaskId :: nat
  eventPushCount :: nat
  eventPopCount :: nat
  eventDropCount :: nat
  sc_heap :: kheap
  sc_mmu :: mmu
  tss_rsp0 :: nat

abbreviation EVENT_QUEUE_SIZE :: nat where "EVENT_QUEUE_SIZE \<equiv> 128"
abbreviation MAX_PROCESS_FDS :: nat where "MAX_PROCESS_FDS \<equiv> 32"

text \<open>\<^verbatim>\<open>sizeof(Task)\<close> (48 bytes of words, 32 descriptors of 24, 128 events of 24, two indices and the
  link) and \<^verbatim>\<open>sizeof(StackFrame)\<close> (22 words).\<close>

abbreviation TASK_SIZE :: nat where "TASK_SIZE \<equiv> 3904"
abbreviation FRAME_SIZE :: nat where "FRAME_SIZE \<equiv> 176"
abbreviation STACK_SIZE :: nat where "STACK_SIZE \<equiv> 16384"

definition zero_task :: Task where
  "zero_task = \<lparr>stack_pointer = 0, t_id = 0, t_state = READY, t_cr3 = 0, wake_up_time = 0, kernel_stack_top = 0,
     fdTable = replicate MAX_PROCESS_FDS \<lparr>fd_node = 0, fd_offset = 0, fd_flags = 0, in_use = False\<rparr>,
     eventQueue = replicate EVENT_QUEUE_SIZE
       \<lparr>os_type = 0, os_dx = 0, os_dy = 0, os_buttons = 0, os_scancode = 0, os_ascii = 0\<rparr>,
     eventHead = 0, eventTail = 0, t_next = 0\<rparr>"

definition zero_frame :: StackFrame where
  "zero_frame = \<lparr>f_r15 = 0, f_r14 = 0, f_r13 = 0, f_r12 = 0, f_r11 = 0, f_r10 = 0, f_r9 = 0, f_r8 = 0,
     f_rbp = 0, f_rdi = 0, f_rsi = 0, f_rdx = 0, f_rcx = 0, f_rbx = 0, f_rax = 0,
     f_interrupt_number = 0, f_error_code = 0, f_rip = 0, f_cs = 0, f_rflags = 0, f_rsp = 0, f_ss = 0\<rparr>"

definition upd_task :: "addr \<Rightarrow> (Task \<Rightarrow> Task) \<Rightarrow> sched \<Rightarrow> sched" where
  "upd_task a f s = s\<lparr>sc_task := (sc_task s)(a := f (sc_task s a))\<rparr>"

text \<open>\<^verbatim>\<open>fdTable[0..2].in_use = true\<close>\<close>

definition std_streams :: "Task \<Rightarrow> Task" where
  "std_streams t = t\<lparr>fdTable := (fdTable t)[0 := (fdTable t ! 0)\<lparr>in_use := True\<rparr>,
     1 := (fdTable t ! 1)\<lparr>in_use := True\<rparr>, 2 := (fdTable t ! 2)\<lparr>in_use := True\<rparr>]\<rparr>"

section \<open>Creating tasks\<close>

definition link_task :: "addr \<Rightarrow> sched \<Rightarrow> sched" where
  "link_task a s =
     (let s1 = upd_task a (\<lambda>t. t\<lparr>t_next := t_next (sc_task s (tasksHead s))\<rparr>) s
      in upd_task (tasksHead s1) (\<lambda>t. t\<lparr>t_next := a\<rparr>) s1)"

text \<open>\<open>entry\<close> is the address of the task's code.\<close>

definition CreateTask :: "nat \<Rightarrow> sched \<Rightarrow> sched option" where
  "CreateTask entry s =
     Option.bind (kmalloc (sc_heap s) TASK_SIZE) (\<lambda>(newTask, h1).
       if newTask = 0 then Some (s\<lparr>sc_heap := h1\<rparr>)
       else
         let s1 = upd_task newTask (\<lambda>_. zero_task\<lparr>t_id := nextTaskId s, wake_up_time := 0, t_cr3 := cr3 (sc_mmu s)\<rparr>)
                    (s\<lparr>sc_heap := h1, nextTaskId := add64 (nextTaskId s) 1\<rparr>)
         in Option.bind (kmalloc h1 STACK_SIZE) (\<lambda>(stackBase, h2).
              if stackBase = 0 then Some (s1\<lparr>sc_heap := kfree h2 newTask\<rparr>)
              else
                let stackTop = add64 stackBase STACK_SIZE;
                    framePtr = sub64 stackTop FRAME_SIZE;
                    frame = zero_frame\<lparr>f_rip := entry, f_cs := 0x08, f_rflags := 0x202, f_rsp := framePtr, f_ss := 0x10\<rparr>;
                    s2 = s1\<lparr>sc_heap := h2, sc_frame := (sc_frame s1)(framePtr := frame)\<rparr>;
                    s3 = upd_task newTask (\<lambda>t. std_streams (t\<lparr>stack_pointer := framePtr,
                           kernel_stack_top := stackTop, t_state := READY\<rparr>)) s2
                in Some (link_task newTask s3)))"

definition CreateUserTask :: "nat \<Rightarrow> nat \<Rightarrow> u64 \<Rightarrow> nat \<Rightarrow> sched \<Rightarrow> sched option" where
  "CreateUserTask entry user_stack table arg1 s =
     Option.bind (kmalloc (sc_heap s) TASK_SIZE) (\<lambda>(newTask, h1).
       if newTask = 0 then Some (s\<lparr>sc_heap := h1\<rparr>)
       else
         let s1 = upd_task newTask (\<lambda>_. zero_task\<lparr>t_id := nextTaskId s, wake_up_time := 0, t_cr3 := table\<rparr>)
                    (s\<lparr>sc_heap := h1, nextTaskId := add64 (nextTaskId s) 1\<rparr>)
         in Option.bind (kmalloc h1 STACK_SIZE) (\<lambda>(kstackBase, h2).
              if kstackBase = 0 then Some (s1\<lparr>sc_heap := kfree h2 newTask\<rparr>)
              else
                let kstackTop = sub64 (add64 kstackBase STACK_SIZE) FRAME_SIZE;
                    frame = zero_frame\<lparr>f_rip := entry, f_cs := 0x23, f_rflags := 0x202, f_rsp := user_stack,
                              f_ss := 0x1B, f_rdi := arg1\<rparr>;
                    s2 = s1\<lparr>sc_heap := h2, sc_frame := (sc_frame s1)(kstackTop := frame)\<rparr>;
                    s3 = upd_task newTask (\<lambda>t. std_streams (t\<lparr>stack_pointer := kstackTop,
                           kernel_stack_top := add64 kstackBase STACK_SIZE, t_state := READY\<rparr>)) s2
                in Some (link_task newTask s3)))"

text \<open>\<^verbatim>\<open>Init\<close> does not clear the memory of the main task: the fields it does not write keep what the
  heap block held.  A failed allocation hangs the kernel (\<open>None\<close>).\<close>

definition sched_Init :: "nat \<Rightarrow> nat \<Rightarrow> sched \<Rightarrow> sched option" where
  "sched_Init boot_stack idle_entry s =
     Option.bind (kmalloc (sc_heap s) TASK_SIZE) (\<lambda>(mainTask, h1).
       if mainTask = 0 then None
       else
         let s1 = upd_task mainTask (\<lambda>t. std_streams (t\<lparr>t_id := 0, stack_pointer := 0, eventHead := 0,
                     eventTail := 0, t_cr3 := cr3 (sc_mmu s), kernel_stack_top := boot_stack,
                     t_state := RUNNING, t_next := mainTask\<rparr>))
                    (s\<lparr>sc_heap := h1, currentTask := mainTask, tasksHead := mainTask\<rparr>)
         in Option.bind (CreateTask idle_entry s1) (\<lambda>s2.
              let idle = t_next (sc_task s2 (tasksHead s2))
              in Some (upd_task idle (\<lambda>t. t\<lparr>t_state := READY\<rparr>) (s2\<lparr>idleTask := idle\<rparr>))))"

section \<open>State changes of the running task\<close>

definition sched_Sleep :: "nat \<Rightarrow> nat \<Rightarrow> sched \<Rightarrow> sched" where
  "sched_Sleep now ms s =
     (if currentTask s = 0 then s
      else upd_task (currentTask s) (\<lambda>t. t\<lparr>wake_up_time := add64 now ms, t_state := SLEEPING\<rparr>) s)"

definition sched_Exit :: "sched \<Rightarrow> sched" where
  "sched_Exit s =
     (if currentTask s = 0 \<or> t_id (sc_task s (currentTask s)) = 0 then s
      else upd_task (currentTask s) (\<lambda>t. t\<lparr>t_state := DEAD\<rparr>) s)"

section \<open>Reaping and switching\<close>

definition close_fds :: "Task \<Rightarrow> Task" where
  "close_fds t = t\<lparr>fdTable := take 3 (fdTable t) @
     map (\<lambda>d. if in_use d then d\<lparr>in_use := False, fd_node := 0\<rparr> else d) (drop 3 (fdTable t))\<rparr>"

definition destroy_task :: "addr \<Rightarrow> sched \<Rightarrow> sched" where
  "destroy_task task s =
     (let s1 = upd_task task close_fds s;
          t = sc_task s1 task;
          s2 = (if t_cr3 t \<noteq> 0 \<and> t_cr3 t \<noteq> t_cr3 (sc_task s1 (tasksHead s1))
                then s1\<lparr>sc_mmu := DestroyPageTable (sc_mmu s1) (t_cr3 t)\<rparr> else s1);
          s3 = (if kernel_stack_top t \<noteq> 0
                then s2\<lparr>sc_heap := kfree (sc_heap s2) (sub64 (kernel_stack_top t) STACK_SIZE)\<rparr> else s2)
      in s3\<lparr>sc_heap := kfree (sc_heap s3) task\<rparr>)"

fun reap_loop :: "nat \<Rightarrow> addr \<Rightarrow> addr \<Rightarrow> sched \<Rightarrow> sched" where
  "reap_loop 0 prev task s = s"
| "reap_loop (Suc n) prev task s =
     (if task = tasksHead s then s
      else if task \<noteq> currentTask s \<and> task \<noteq> idleTask s \<and> t_state (sc_task s task) = DEAD
      then let s1 = upd_task prev (\<lambda>t. t\<lparr>t_next := t_next (sc_task s task)\<rparr>) s;
               s2 = destroy_task task s1
           in reap_loop n prev (t_next (sc_task s2 prev)) s2
      else reap_loop n task (t_next (sc_task s task)) s)"

definition ReapDeadTasks :: "sched \<Rightarrow> sched" where
  "ReapDeadTasks s =
     (if tasksHead s = 0 then s
      else reap_loop 64 (tasksHead s) (t_next (sc_task s (tasksHead s))) s)"

partial_function (option) find_next :: "nat \<Rightarrow> addr \<Rightarrow> addr \<Rightarrow> sched \<Rightarrow> (addr \<times> sched) option" where
  "find_next now start nxt s =
     (if nxt = start then Some (nxt, s)
      else let s1 = (if t_state (sc_task s nxt) = SLEEPING \<and> now \<ge> wake_up_time (sc_task s nxt)
                     then upd_task nxt (\<lambda>t. t\<lparr>t_state := READY\<rparr>) s else s)
           in if t_state (sc_task s1 nxt) = READY \<or> t_state (sc_task s1 nxt) = RUNNING then Some (nxt, s1)
              else find_next now start (t_next (sc_task s1 nxt)) s1)"

text \<open>What \<^verbatim>\<open>Schedule\<close> does when the search came back to the current task.\<close>

definition no_other_task :: "nat \<Rightarrow> sched \<Rightarrow> addr \<times> sched" where
  "no_other_task now s =
     (let cur = currentTask s; t = sc_task s cur;
          to_idle = (if idleTask s \<noteq> 0 \<and> idleTask s \<noteq> cur
                     then (idleTask s, upd_task (idleTask s) (\<lambda>t. t\<lparr>t_state := RUNNING\<rparr>) s) else (cur, s))
      in if t_state t = SLEEPING
         then if now \<ge> wake_up_time t then (cur, upd_task cur (\<lambda>t. t\<lparr>t_state := RUNNING\<rparr>) s) else to_idle
         else if t_state t = DEAD then to_idle
         else (cur, s))"

definition load_cr3 :: "u64 \<Rightarrow> mmu \<Rightarrow> mmu" where
  "load_cr3 table m = (if table \<noteq> cr3 m AND NOT 0xFFF then m\<lparr>cr3 := table\<rparr> else m)"

definition switch_to :: "addr \<Rightarrow> sched \<Rightarrow> sched" where
  "switch_to nxt s =
     (let s1 = upd_task nxt (\<lambda>t. t\<lparr>t_state := RUNNING\<rparr>) (s\<lparr>currentTask := nxt\<rparr>)
      in s1\<lparr>sc_mmu := load_cr3 (t_cr3 (sc_task s1 nxt)) (sc_mmu s1),
            tss_rsp0 := kernel_stack_top (sc_task s1 nxt)\<rparr>)"

definition Schedule :: "nat \<Rightarrow> addr \<Rightarrow> sched \<Rightarrow> (addr \<times> sched) option" where
  "Schedule now current_rsp s =
     (if currentTask s = 0 then Some (current_rsp, s)
      else let start = currentTask s;
               s1 = upd_task start (\<lambda>t. t\<lparr>stack_pointer := current_rsp\<rparr>) s
           in Option.bind (find_next now start (t_next (sc_task s1 start)) s1) (\<lambda>(nxt, s2).
                let (nxt', s3) = (if nxt = start then no_other_task now s2 else (nxt, s2));
                    s4 = ReapDeadTasks (switch_to nxt' s3)
                in Some (stack_pointer (sc_task s4 (currentTask s4)), s4)))"

definition GetCurrentTaskId :: "sched \<Rightarrow> nat" where
  "GetCurrentTaskId s = (if currentTask s \<noteq> 0 then t_id (sc_task s (currentTask s)) else 0)"

partial_function (option) find_id :: "nat \<Rightarrow> addr \<Rightarrow> sched \<Rightarrow> addr option" where
  "find_id i t s =
     (if t_id (sc_task s t) = i then Some t
      else if t_next (sc_task s t) = tasksHead s then Some 0
      else find_id i (t_next (sc_task s t)) s)"

definition GetTaskById :: "nat \<Rightarrow> sched \<Rightarrow> addr option" where
  "GetTaskById i s = (if tasksHead s = 0 then Some 0 else find_id i (tasksHead s) s)"

section \<open>Event queues\<close>

definition task_push :: "OSEvent \<Rightarrow> Task \<Rightarrow> bool \<times> Task" where
  "task_push ev t =
     (let nxt = (eventHead t + 1) mod EVENT_QUEUE_SIZE
      in if nxt = eventTail t then (False, t)
         else (True, t\<lparr>eventQueue := (eventQueue t)[eventHead t := ev], eventHead := nxt\<rparr>))"

definition PushEventToTask :: "nat \<Rightarrow> OSEvent \<Rightarrow> sched \<Rightarrow> (bool \<times> sched) option" where
  "PushEventToTask taskId ev s =
     Option.bind (GetTaskById taskId s) (\<lambda>a.
       if a = 0 then Some (False, s)
       else let (ok, t) = task_push ev (sc_task s a)
            in if \<not> ok then Some (False, s\<lparr>eventDropCount := add64 (eventDropCount s) 1\<rparr>)
               else Some (True, upd_task a (\<lambda>_. if t_state t = SLEEPING then t\<lparr>t_state := READY\<rparr> else t)
                                 (s\<lparr>eventPushCount := add64 (eventPushCount s) 1\<rparr>)))"

definition task_pop :: "Task \<Rightarrow> (OSEvent \<times> Task) option" where
  "task_pop t =
     (if eventHead t = eventTail t then None
      else Some (eventQueue t ! eventTail t, t\<lparr>eventTail := (eventTail t + 1) mod EVENT_QUEUE_SIZE\<rparr>))"

definition PopEventFromCurrentTask :: "sched \<Rightarrow> (OSEvent \<times> sched) option" where
  "PopEventFromCurrentTask s =
     (if currentTask s = 0 then None
      else case task_pop (sc_task s (currentTask s)) of
             None \<Rightarrow> None
           | Some (ev, t) \<Rightarrow> Some (ev, upd_task (currentTask s) (\<lambda>_. t)
                               (s\<lparr>eventPopCount := add64 (eventPopCount s) 1\<rparr>)))"

section \<open>The circular list\<close>

fun linked :: "(addr \<Rightarrow> Task) \<Rightarrow> addr \<Rightarrow> addr list \<Rightarrow> addr \<Rightarrow> bool" where
  "linked T a [] z \<longleftrightarrow> t_next (T a) = z"
| "linked T a (x # xs) z \<longleftrightarrow> t_next (T a) = x \<and> linked T x xs z"

text \<open>The tasks of the list, from the head on, with the current and the idle task among them.\<close>

definition ring_ok :: "sched \<Rightarrow> addr list \<Rightarrow> bool" where
  "ring_ok s ts \<longleftrightarrow> ts \<noteq> [] \<and> hd ts = tasksHead s \<and> distinct ts \<and> 0 \<notin> set ts \<and>
     linked (sc_task s) (hd ts) (tl ts) (hd ts) \<and> currentTask s \<in> set ts \<and> idleTask s \<in> set ts"

lemma upd_task_simps [simp]:
  "sc_task (upd_task a f s) b = (if b = a then f (sc_task s a) else sc_task s b)"
  "currentTask (upd_task a f s) = currentTask s" "tasksHead (upd_task a f s) = tasksHead s"
  "idleTask (upd_task a f s) = idleTask s" "sc_heap (upd_task a f s) = sc_heap s"
  "sc_mmu (upd_task a f s) = sc_mmu s" "tss_rsp0 (upd_task a f s) = tss_rsp0 s"
  "nextTaskId (upd_task a f s) = nextTaskId s"
  by (simp_all add: upd_task_def)

lemma linked_append: "linked T a (xs @ y # ys) z \<longleftrightarrow> linked T a xs y \<and> linked T y ys z"
  by (induction xs arbitrary: a) auto

lemma linked_cong:
  "(\<And>x. x \<in> set (a # xs) \<Longrightarrow> t_next (T' x) = t_next (T x)) \<Longrightarrow> linked T' a xs z = linked T a xs z"
  by (induction xs arbitrary: a) auto

text \<open>The list seen from any of its tasks.\<close>

lemma linked_rotate:
  assumes "linked T h us h" and "distinct (h # us)" and "c \<in> set (h # us)"
  obtains vs where "linked T c vs c" "distinct (c # vs)" "set (c # vs) = set (h # us)" "length vs = length us"
proof (cases "c = h")
  case True
  with assms that [of us] show ?thesis by simp
next
  case False
  with assms(3) obtain xs ys where us: "us = xs @ c # ys" by (auto dest: split_list)
  with assms(1) have "linked T h xs c" "linked T c ys h" by (simp_all add: linked_append)
  then have "linked T c (ys @ h # xs) c" by (simp add: linked_append)
  with assms(2) us that [of "ys @ h # xs"] show ?thesis by auto
qed

lemma ring_rotate:
  assumes "ring_ok s ts"
  obtains vs where "linked (sc_task s) (currentTask s) vs (currentTask s)"
    "distinct (currentTask s # vs)" "set (currentTask s # vs) = set ts" "Suc (length vs) = length ts"
proof -
  from assms obtain us where ts: "ts = tasksHead s # us" by (cases ts) (auto simp: ring_ok_def)
  with assms have l: "linked (sc_task s) (tasksHead s) us (tasksHead s)" "distinct (tasksHead s # us)"
    "currentTask s \<in> set (tasksHead s # us)" by (auto simp: ring_ok_def)
  show ?thesis by (rule linked_rotate [OF l]) (use ts that in auto)
qed

section \<open>The search for the next task\<close>

definition runnable :: "nat \<Rightarrow> Task \<Rightarrow> bool" where
  "runnable now t \<longleftrightarrow> t_state t = READY \<or> t_state t = RUNNING \<or> (t_state t = SLEEPING \<and> wake_up_time t \<le> now)"

definition wake :: "addr \<Rightarrow> sched \<Rightarrow> sched" where
  "wake a s = (if t_state (sc_task s a) = SLEEPING then upd_task a (\<lambda>t. t\<lparr>t_state := READY\<rparr>) s else s)"

lemma find_next_spec:
  assumes "linked (sc_task s) a vs c" and "c \<notin> set vs"
  shows "find_next now c (t_next (sc_task s a)) s =
    Some (case find (\<lambda>x. runnable now (sc_task s x)) vs of None \<Rightarrow> (c, s) | Some r \<Rightarrow> (r, wake r s))"
  using assms
proof (induction vs arbitrary: a)
  case Nil
  then show ?case by (subst find_next.simps) simp
next
  case (Cons v vs)
  then have v: "t_next (sc_task s a) = v" "v \<noteq> c" and ih: "find_next now c (t_next (sc_task s v)) s =
      Some (case find (\<lambda>x. runnable now (sc_task s x)) vs of None \<Rightarrow> (c, s) | Some r \<Rightarrow> (r, wake r s))"
    by auto
  show ?case
  proof (cases "runnable now (sc_task s v)")
    case True
    then show ?thesis unfolding v(1) using v(2)
      by (subst find_next.simps) (auto simp: Let_def runnable_def wake_def)
  next
    case False
    then have "find_next now c v s = find_next now c (t_next (sc_task s v)) s"
      using v(2) by (subst find_next.simps) (cases "t_state (sc_task s v)"; auto simp: Let_def runnable_def)
    with False v ih show ?thesis by simp
  qed
qed

section \<open>Reaping\<close>

definition reaped :: "sched \<Rightarrow> addr \<Rightarrow> bool" where
  "reaped s x \<longleftrightarrow> x \<noteq> currentTask s \<and> x \<noteq> idleTask s \<and> t_state (sc_task s x) = DEAD"

lemma cr3_DestroyPageTable [simp]: "cr3 (DestroyPageTable m t) = cr3 m"
proof -
  have "cr3 (foldl mmu_free m' xs) = cr3 m'" for m' xs
    by (induction xs arbitrary: m') (simp_all add: mmu_free_def)
  then show ?thesis by (cases "t = 0") (simp add: DestroyPageTable_def, simp add: DestroyPageTable_list)
qed

lemma destroy_task_simps [simp]:
  "sc_task (destroy_task a s) b = (if b = a then close_fds (sc_task s a) else sc_task s b)"
  "currentTask (destroy_task a s) = currentTask s" "tasksHead (destroy_task a s) = tasksHead s"
  "idleTask (destroy_task a s) = idleTask s" "tss_rsp0 (destroy_task a s) = tss_rsp0 s"
  "nextTaskId (destroy_task a s) = nextTaskId s" "cr3 (sc_mmu (destroy_task a s)) = cr3 (sc_mmu s)"
  by (simp_all add: destroy_task_def Let_def upd_task_def)

lemma close_fds_fields [simp]:
  "t_next (close_fds t) = t_next t" "t_state (close_fds t) = t_state t" "t_id (close_fds t) = t_id t"
  "stack_pointer (close_fds t) = stack_pointer t" "kernel_stack_top (close_fds t) = kernel_stack_top t"
  "t_cr3 (close_fds t) = t_cr3 t"
  by (simp_all add: close_fds_def)

lemma linked_unlink:
  assumes "linked (sc_task s) u us h" and "p \<noteq> u" and "p \<notin> set us" and "u \<notin> set us"
  shows "linked (sc_task (destroy_task u (upd_task p (\<lambda>t. t\<lparr>t_next := t_next (sc_task s u)\<rparr>) s))) p us h"
    (is "linked (sc_task ?s2) p us h")
proof (cases us)
  case Nil
  with assms show ?thesis by simp
next
  case (Cons x xs)
  have "linked (sc_task ?s2) x xs h = linked (sc_task s) x xs h"
    by (rule linked_cong) (use Cons assms(3,4) in auto)
  with assms Cons show ?thesis by simp
qed

text \<open>The loop removes the dead tasks from the list and touches the others only through their links.\<close>

lemma reap_loop_spec:
  assumes "linked (sc_task s) p us (tasksHead s)" and "distinct (p # us)" and "tasksHead s \<notin> set us" and "length us \<le> n"
  shows "let s' = reap_loop n p (t_next (sc_task s p)) s in
    linked (sc_task s') p (filter (\<lambda>x. \<not> reaped s x) us) (tasksHead s) \<and>
    currentTask s' = currentTask s \<and> tasksHead s' = tasksHead s \<and> idleTask s' = idleTask s \<and> tss_rsp0 s' = tss_rsp0 s \<and>
    cr3 (sc_mmu s') = cr3 (sc_mmu s) \<and>
    (\<forall>x. x \<notin> set us \<or> \<not> reaped s x \<longrightarrow> (sc_task s' x)\<lparr>t_next := 0\<rparr> = (sc_task s x)\<lparr>t_next := 0\<rparr>) \<and>
    (\<forall>x. x \<notin> set (p # us) \<longrightarrow> sc_task s' x = sc_task s x)"
  using assms
proof (induction us arbitrary: p n s)
  case Nil
  then show ?case by (cases n) simp_all
next
  case (Cons u us)
  then obtain m where n: "n = Suc m" "length us \<le> m" by (cases n) auto
  have pu: "t_next (sc_task s p) = u" and lu: "linked (sc_task s) u us (tasksHead s)" and nu: "u \<noteq> tasksHead s"
    and d: "distinct (u # us)" "distinct (p # us)" "p \<noteq> u" "tasksHead s \<notin> set us" "p \<notin> set us" "u \<notin> set us"
    using Cons.prems by auto
  show ?case
  proof (cases "reaped s u")
    case False
    then have step: "reap_loop n p u s = reap_loop m u (t_next (sc_task s u)) s"
      using nu n by (auto simp: reaped_def)
    from Cons.IH [OF lu d(1,4) n(2)] False d pu show ?thesis
      by (auto simp: step Let_def pu fun_eq_iff linked_append intro: linked_cong)
  next
    case True
    let ?s1 = "upd_task p (\<lambda>t. t\<lparr>t_next := t_next (sc_task s u)\<rparr>) s"
    let ?s2 = "destroy_task u ?s1"
    have step: "reap_loop n p u s = reap_loop m p (t_next (sc_task ?s2 p)) ?s2"
      using True nu n d(3) by (simp add: reaped_def Let_def)
    have l2: "linked (sc_task ?s2) p us (tasksHead ?s2)"
      using linked_unlink [OF lu d(3,5,6)] by simp
    have r: "reaped ?s2 x = reaped s x" if "x \<noteq> u" for x using that by (auto simp: reaped_def)
    have f: "filter (\<lambda>x. \<not> reaped ?s2 x) us = filter (\<lambda>x. \<not> reaped s x) us"
    proof (rule filter_cong [OF refl])
      fix x
      assume "x \<in> set us"
      with d(6) have "x \<noteq> u" by blast
      from r [OF this] show "(\<not> reaped ?s2 x) = (\<not> reaped s x)" by simp
    qed
    let ?s' = "reap_loop m p (t_next (sc_task ?s2 p)) ?s2"
    have "tasksHead ?s2 \<notin> set us" using d(4) by simp
    note ih = Cons.IH [OF l2 d(2) this n(2), unfolded Let_def f]
    have keep: "(sc_task ?s' x)\<lparr>t_next := 0\<rparr> = (sc_task s x)\<lparr>t_next := 0\<rparr>"
      if "x \<notin> set (u # us) \<or> \<not> reaped s x" for x
    proof -
      have xu: "x \<noteq> u" using that True by auto
      then have "x \<notin> set us \<or> \<not> reaped ?s2 x" using that r by auto
      then have "(sc_task ?s' x)\<lparr>t_next := 0\<rparr> = (sc_task ?s2 x)\<lparr>t_next := 0\<rparr>" using ih by blast
      with xu show ?thesis by simp
    qed
    have same: "sc_task ?s' x = sc_task s x" if "x \<notin> set (p # u # us)" for x
    proof -
      have "x \<notin> set (p # us)" using that by simp
      then have "sc_task ?s' x = sc_task ?s2 x" using ih by blast
      with that show ?thesis by simp
    qed
    from ih keep same True show ?thesis unfolding step pu Let_def by simp
  qed
qed

text \<open>What the loop returns to the heap, in order: the stack and the structure of every reaped task.\<close>

definition free_task_memory :: "(addr \<Rightarrow> Task) \<Rightarrow> kheap \<Rightarrow> addr \<Rightarrow> kheap" where
  "free_task_memory T h x =
     kfree (if kernel_stack_top (T x) \<noteq> 0 then kfree h (sub64 (kernel_stack_top (T x)) STACK_SIZE) else h) x"

lemma foldl_free_cong:
  "(\<And>x. x \<in> set xs \<Longrightarrow> kernel_stack_top (T' x) = kernel_stack_top (T x)) \<Longrightarrow>
   foldl (free_task_memory T') h xs = foldl (free_task_memory T) h xs"
  by (induction xs arbitrary: h) (simp_all add: free_task_memory_def)

lemma destroy_task_heap: "sc_heap (destroy_task x s) = free_task_memory (sc_task s) (sc_heap s) x"
  by (simp add: destroy_task_def free_task_memory_def Let_def)

lemma reap_loop_heap:
  assumes "linked (sc_task s) p us (tasksHead s)" and "distinct (p # us)" and "tasksHead s \<notin> set us" and "length us \<le> n"
  shows "sc_heap (reap_loop n p (t_next (sc_task s p)) s)
     = foldl (free_task_memory (sc_task s)) (sc_heap s) (filter (reaped s) us)"
  using assms
proof (induction us arbitrary: p n s)
  case Nil
  then show ?case by (cases n) simp_all
next
  case (Cons u us)
  then obtain m where n: "n = Suc m" "length us \<le> m" by (cases n) auto
  have pu: "t_next (sc_task s p) = u" and lu: "linked (sc_task s) u us (tasksHead s)" and nu: "u \<noteq> tasksHead s"
    and d: "distinct (u # us)" "distinct (p # us)" "p \<noteq> u" "tasksHead s \<notin> set us" "p \<notin> set us" "u \<notin> set us"
    using Cons.prems by auto
  show ?case
  proof (cases "reaped s u")
    case False
    then have step: "reap_loop n p u s = reap_loop m u (t_next (sc_task s u)) s"
      using nu n by (auto simp: reaped_def)
    from Cons.IH [OF lu d(1,4) n(2)] False show ?thesis by (simp add: step pu)
  next
    case True
    let ?s1 = "upd_task p (\<lambda>t. t\<lparr>t_next := t_next (sc_task s u)\<rparr>) s"
    let ?s2 = "destroy_task u ?s1"
    have step: "reap_loop n p u s = reap_loop m p (t_next (sc_task ?s2 p)) ?s2"
      using True nu n d(3) by (simp add: reaped_def Let_def)
    have l2: "linked (sc_task ?s2) p us (tasksHead ?s2)"
      using linked_unlink [OF lu d(3,5,6)] by simp
    have f: "filter (reaped ?s2) us = filter (reaped s) us"
      using d(6) by (intro filter_cong refl) (auto simp: reaped_def)
    have "tasksHead ?s2 \<notin> set us" using d(4) by simp
    from Cons.IH [OF l2 d(2) this n(2)]
    have "sc_heap (reap_loop n p u s) = foldl (free_task_memory (sc_task ?s2)) (sc_heap ?s2) (filter (reaped s) us)"
      by (simp only: step f)
    also have "\<dots> = foldl (free_task_memory (sc_task s)) (sc_heap ?s2) (filter (reaped s) us)"
      by (rule foldl_free_cong) auto
    also have "sc_heap ?s2 = free_task_memory (sc_task s) (sc_heap s) u"
      using d(3) by (simp add: destroy_task_heap free_task_memory_def)
    finally show ?thesis using True pu by simp
  qed
qed

section \<open>One call of Schedule\<close>

lemma switch_to_simps [simp]:
  "sc_task (switch_to n s) x = (if x = n then (sc_task s n)\<lparr>t_state := RUNNING\<rparr> else sc_task s x)"
  "currentTask (switch_to n s) = n" "tasksHead (switch_to n s) = tasksHead s"
  "idleTask (switch_to n s) = idleTask s" "tss_rsp0 (switch_to n s) = kernel_stack_top (sc_task s n)"
  "sc_heap (switch_to n s) = sc_heap s" "sc_mmu (switch_to n s) = load_cr3 (t_cr3 (sc_task s n)) (sc_mmu s)"
  by (simp_all add: switch_to_def Let_def)

lemma switch_to_upd_state [simp]: "switch_to n (upd_task n (\<lambda>t. t\<lparr>t_state := x\<rparr>) s) = switch_to n s"
  by (simp add: switch_to_def upd_task_def Let_def)

lemma switch_to_wake [simp]: "switch_to n (wake n s) = switch_to n s"
  by (simp add: wake_def)

text \<open>The task the call picks: the first runnable one after the current task in list order; with none,
  the current task itself, or the idle task when the current one sleeps or is dead.\<close>

definition next_task :: "nat \<Rightarrow> sched \<Rightarrow> addr list \<Rightarrow> addr" where
  "next_task now s vs =
     (case find (\<lambda>x. runnable now (sc_task s x)) vs of
        Some r \<Rightarrow> r
      | None \<Rightarrow> if runnable now (sc_task s (currentTask s)) \<or> idleTask s = 0 then currentTask s else idleTask s)"

lemma find_cong: "(\<And>x. x \<in> set xs \<Longrightarrow> P x = Q x) \<Longrightarrow> find P xs = find Q xs"
  by (induction xs) auto

lemma no_other_task_switch:
  assumes "no_other_task now s = (n, s3)"
  shows "n = (if runnable now (sc_task s (currentTask s)) \<or> idleTask s = 0 then currentTask s else idleTask s)
     \<and> switch_to n s3 = switch_to n s"
  using assms by (cases "t_state (sc_task s (currentTask s))")
    (auto simp: no_other_task_def Let_def runnable_def split: if_splits)

lemma Schedule_stages:
  fixes now rsp :: nat
  assumes c: "currentTask s \<noteq> 0" and l: "linked (sc_task s) (currentTask s) vs (currentTask s)"
    and d: "currentTask s \<notin> set vs"
  defines "s1 \<equiv> upd_task (currentTask s) (\<lambda>t. t\<lparr>stack_pointer := rsp\<rparr>) s"
  defines "s4 \<equiv> ReapDeadTasks (switch_to (next_task now s vs) s1)"
  shows "Schedule now rsp s = Some (stack_pointer (sc_task s4 (currentTask s4)), s4)"
proof -
  let ?c = "currentTask s"
  have "linked (sc_task s1) ?c vs ?c = linked (sc_task s) ?c vs ?c"
    by (rule linked_cong) (simp add: s1_def)
  with l have l1: "linked (sc_task s1) ?c vs ?c" by simp
  have fe: "find (\<lambda>x. runnable now (sc_task s1 x)) vs = find (\<lambda>x. runnable now (sc_task s x)) vs"
    by (rule find_cong) (use d in \<open>auto simp: s1_def\<close>)
  have tn: "t_next (sc_task s1 ?c) = t_next (sc_task s ?c)" by (simp add: s1_def)
  note fn = find_next_spec [OF l1 d, of now, unfolded fe tn]
  show ?thesis
  proof (cases "find (\<lambda>x. runnable now (sc_task s x)) vs")
    case None
    obtain n s3 where n: "no_other_task now s1 = (n, s3)" by (rule prod.exhaust)
    have "runnable now (sc_task s1 ?c) = runnable now (sc_task s ?c)" by (simp add: s1_def runnable_def)
    moreover have "currentTask s1 = ?c" "idleTask s1 = idleTask s" by (simp_all add: s1_def)
    ultimately have "n = next_task now s vs"
      using conjunct1 [OF no_other_task_switch [OF n]] None by (simp only: next_task_def option.simps)
    moreover note conjunct2 [OF no_other_task_switch [OF n]]
    ultimately show ?thesis using None fn n c
      by (simp add: Schedule_def Let_def s1_def [symmetric] s4_def)
  next
    case (Some r)
    then have "r \<in> set vs" by (auto simp: find_Some_iff)
    then have "r \<noteq> ?c" using d by auto
    with Some fn c show ?thesis
      by (simp add: Schedule_def Let_def s1_def [symmetric] s4_def next_task_def)
  qed
qed

lemma linked_unique:
  "linked T a xs c \<Longrightarrow> linked T a ys c \<Longrightarrow> c \<notin> set xs \<Longrightarrow> c \<notin> set ys \<Longrightarrow> xs = ys"
proof (induction xs arbitrary: a ys)
  case Nil
  then show ?case by (cases ys) auto
next
  case (Cons x xs)
  then show ?case by (cases ys) auto
qed

lemma ring_others:
  assumes "ring_ok s ts" and "linked (sc_task s) (currentTask s) vs (currentTask s)" and "currentTask s \<notin> set vs"
  shows "set (currentTask s # vs) = set ts" and "distinct (currentTask s # vs)" and "Suc (length vs) = length ts"
proof -
  obtain ws where w: "linked (sc_task s) (currentTask s) ws (currentTask s)"
    "distinct (currentTask s # ws)" "set (currentTask s # ws) = set ts" "Suc (length ws) = length ts"
    by (rule ring_rotate [OF assms(1)])
  from linked_unique [OF assms(2) w(1) assms(3)] w(2) have "vs = ws" by simp
  with w show "set (currentTask s # vs) = set ts" "distinct (currentTask s # vs)" "Suc (length vs) = length ts"
    by simp_all
qed

lemma next_task_in:
  assumes "ring_ok s ts" and "set (currentTask s # vs) = set ts"
  shows "next_task now s vs \<in> set ts"
  using assms by (auto simp: next_task_def ring_ok_def find_Some_iff split: option.splits)

lemma Reap_ring:
  assumes ts: "ts = tasksHead s # us" and l: "linked (sc_task s) (tasksHead s) us (tasksHead s)"
    and d: "distinct ts" "0 \<notin> set ts" and n: "length us \<le> 64"
  defines "s' \<equiv> ReapDeadTasks s"
  shows "linked (sc_task s') (tasksHead s) (filter (\<lambda>x. \<not> reaped s x) us) (tasksHead s)"
    and "currentTask s' = currentTask s" and "tasksHead s' = tasksHead s" and "idleTask s' = idleTask s"
    and "tss_rsp0 s' = tss_rsp0 s" and "cr3 (sc_mmu s') = cr3 (sc_mmu s)"
    and "x \<notin> set us \<or> \<not> reaped s x \<Longrightarrow> (sc_task s' x)\<lparr>t_next := 0\<rparr> = (sc_task s x)\<lparr>t_next := 0\<rparr>"
    and "sc_heap s' = foldl (free_task_memory (sc_task s)) (sc_heap s) (filter (reaped s) us)"
proof -
  have h: "tasksHead s \<noteq> 0" "distinct (tasksHead s # us)" "tasksHead s \<notin> set us" using ts d by auto
  have s': "s' = reap_loop 64 (tasksHead s) (t_next (sc_task s (tasksHead s))) s"
    using h(1) by (simp add: s'_def ReapDeadTasks_def)
  note r = reap_loop_spec [OF l h(2,3) n, unfolded Let_def, folded s']
  show "linked (sc_task s') (tasksHead s) (filter (\<lambda>x. \<not> reaped s x) us) (tasksHead s)"
    "currentTask s' = currentTask s" "tasksHead s' = tasksHead s" "idleTask s' = idleTask s"
    "tss_rsp0 s' = tss_rsp0 s" "cr3 (sc_mmu s') = cr3 (sc_mmu s)"
    using r by blast+
  show "x \<notin> set us \<or> \<not> reaped s x \<Longrightarrow> (sc_task s' x)\<lparr>t_next := 0\<rparr> = (sc_task s x)\<lparr>t_next := 0\<rparr>"
    using r by blast
  show "sc_heap s' = foldl (free_task_memory (sc_task s)) (sc_heap s) (filter (reaped s) us)"
    unfolding s' by (rule reap_loop_heap [OF l h(2,3) n])
qed

lemma Schedule_result:
  fixes now rsp :: nat
  assumes ok: "ring_ok s ts" and len: "length ts \<le> 65"
    and l: "linked (sc_task s) (currentTask s) vs (currentTask s)" and cv: "currentTask s \<notin> set vs"
  defines "n \<equiv> next_task now s vs"
  obtains s' where "Schedule now rsp s = Some (stack_pointer (sc_task s' n), s')" "currentTask s' = n"
    "t_state (sc_task s' n) = RUNNING"
    "stack_pointer (sc_task s' n) = (if n = currentTask s then rsp else stack_pointer (sc_task s n))"
    "tss_rsp0 s' = kernel_stack_top (sc_task s n)"
    "cr3 (sc_mmu s') = cr3 (load_cr3 (t_cr3 (sc_task s n)) (sc_mmu s))"
    "ring_ok s' (filter (\<lambda>x. x \<in> {n, idleTask s, tasksHead s} \<or> t_state (sc_task s x) \<noteq> DEAD) ts)"
    "sc_heap s' = foldl (free_task_memory (sc_task s)) (sc_heap s)
       (filter (\<lambda>x. x \<notin> {n, idleTask s, tasksHead s} \<and> t_state (sc_task s x) = DEAD) ts)"
    "\<And>x. x \<in> set ts \<Longrightarrow> x \<noteq> n \<Longrightarrow> t_state (sc_task s x) \<noteq> DEAD \<Longrightarrow>
       t_state (sc_task s' x) = t_state (sc_task s x)"
proof -
  let ?c = "currentTask s" and ?h = "tasksHead s"
  let ?s1 = "upd_task ?c (\<lambda>t. t\<lparr>stack_pointer := rsp\<rparr>) s"
  define s2 where "s2 = switch_to n ?s1"
  define s' where "s' = ReapDeadTasks s2"
  from ok obtain us where ts: "ts = ?h # us" by (cases ts) (auto simp: ring_ok_def)
  have nts: "n \<in> set ts" unfolding n_def by (rule next_task_in [OF ok ring_others(1) [OF ok l cv]])
  have t2: "sc_task s2 x = (let t = (if x = ?c then (sc_task s ?c)\<lparr>stack_pointer := rsp\<rparr> else sc_task s x)
      in if x = n then t\<lparr>t_state := RUNNING\<rparr> else t)" for x by (simp add: s2_def Let_def)
  have f2: "tasksHead s2 = ?h" "idleTask s2 = idleTask s" "currentTask s2 = n" "sc_heap s2 = sc_heap s"
    "tss_rsp0 s2 = kernel_stack_top (sc_task s n)" "cr3 (sc_mmu s2) = cr3 (load_cr3 (t_cr3 (sc_task s n)) (sc_mmu s))"
    by (simp_all add: s2_def)
  have "linked (sc_task s2) ?h us ?h = linked (sc_task s) ?h us ?h"
    by (rule linked_cong) (simp add: t2 Let_def)
  then have l2: "linked (sc_task s2) (tasksHead s2) us (tasksHead s2)"
    using ok ts f2 by (simp add: ring_ok_def)
  have d: "distinct ts" "0 \<notin> set ts" using ok by (simp_all add: ring_ok_def)
  have "length us \<le> 64" using len ts by simp
  note r = Reap_ring [OF ts [folded f2(1)] l2 d this, folded s'_def]
  have re: "reaped s2 x \<longleftrightarrow> x \<notin> {n, idleTask s} \<and> t_state (sc_task s x) = DEAD" for x
    by (auto simp: reaped_def f2 t2 Let_def)
  have hu: "?h \<notin> set us" using d ts by simp
  have fl: "filter (\<lambda>x. x \<in> {n, idleTask s, ?h} \<or> t_state (sc_task s x) \<noteq> DEAD) ts
      = ?h # filter (\<lambda>x. \<not> reaped s2 x) us"
    unfolding ts using hu re by (auto intro: filter_cong)
  have fh: "filter (\<lambda>x. x \<notin> {n, idleTask s, ?h} \<and> t_state (sc_task s x) = DEAD) ts = filter (reaped s2) us"
    unfolding ts using hu re by (auto intro: filter_cong)
  have keep: "(sc_task s' x)\<lparr>t_next := 0\<rparr> = (sc_task s2 x)\<lparr>t_next := 0\<rparr>"
    if "x \<in> {n, idleTask s, ?h} \<or> t_state (sc_task s x) \<noteq> DEAD" for x
    by (rule r(7)) (use that re hu in auto)
  have field: "t_state (sc_task s' x) = t_state (sc_task s2 x)" "stack_pointer (sc_task s' x) = stack_pointer (sc_task s2 x)"
    if "x \<in> {n, idleTask s, ?h} \<or> t_state (sc_task s x) \<noteq> DEAD" for x
    using arg_cong [OF keep [OF that], of t_state] arg_cong [OF keep [OF that], of stack_pointer] by simp_all
  have c0: "?c \<noteq> 0" using ok unfolding ring_ok_def by metis
  have "Schedule now rsp s = Some (stack_pointer (sc_task s' n), s')"
    using Schedule_stages [OF c0 l cv, of now rsp] r(2) f2(3) unfolding s'_def s2_def n_def by simp
  moreover have "ring_ok s' (filter (\<lambda>x. x \<in> {n, idleTask s, ?h} \<or> t_state (sc_task s x) \<noteq> DEAD) ts)"
    using r(1-4) f2 ok nts d fl unfolding ring_ok_def by (simp add: ts) (auto simp: re)
  moreover have "sc_heap s' = foldl (free_task_memory (sc_task s)) (sc_heap s)
       (filter (\<lambda>x. x \<notin> {n, idleTask s, ?h} \<and> t_state (sc_task s x) = DEAD) ts)"
    unfolding fh r(8) f2(4) by (rule foldl_free_cong) (simp add: t2 Let_def)
  moreover have "t_state (sc_task s' x) = t_state (sc_task s x)"
    if "x \<in> set ts" "x \<noteq> n" "t_state (sc_task s x) \<noteq> DEAD" for x
    using field(1) [of x] that by (simp add: t2 Let_def)
  ultimately show ?thesis
    using that r(2,5,6) f2 field [of n] by (simp add: t2 Let_def)
qed

section \<open>Round robin without terminated tasks\<close>

lemma reap_none:
  "linked (sc_task s) p us (tasksHead s) \<Longrightarrow> \<forall>x \<in> set us. \<not> reaped s x \<Longrightarrow>
   reap_loop n p (t_next (sc_task s p)) s = s"
proof (induction n arbitrary: p us)
  case 0
  then show ?case by simp
next
  case (Suc n)
  show ?case
  proof (cases us)
    case Nil
    with Suc.prems show ?thesis by simp
  next
    case (Cons u vs)
    with Suc.prems have "\<not> reaped s u" "t_next (sc_task s p) = u" by auto
    with Suc.IH [of u vs] Suc.prems Cons show ?thesis by (auto simp: reaped_def)
  qed
qed

text \<open>With no dead task a call only moves the CPU: links stay, no other task changes.\<close>

lemma Schedule_alive:
  assumes ok: "ring_ok s ts" and alive: "\<forall>x \<in> set ts. t_state (sc_task s x) \<noteq> DEAD"
    and l: "linked (sc_task s) (currentTask s) vs (currentTask s)" and cv: "currentTask s \<notin> set vs"
    and n: "n = next_task now s vs"
  obtains s' where "Schedule now rsp s = Some (stack_pointer (sc_task s' n), s')" "currentTask s' = n"
    "ring_ok s' ts" "\<And>x. t_next (sc_task s' x) = t_next (sc_task s x)"
    "\<And>x. t_state (sc_task s' x) = (if x = n then RUNNING else t_state (sc_task s x))"
proof -
  let ?c = "currentTask s" and ?h = "tasksHead s"
  let ?s2 = "switch_to n (upd_task ?c (\<lambda>t. t\<lparr>stack_pointer := rsp\<rparr>) s)"
  from ok obtain us where ts: "ts = ?h # us" by (cases ts) (auto simp: ring_ok_def)
  have nts: "n \<in> set ts" unfolding n by (rule next_task_in [OF ok ring_others(1) [OF ok l cv]])
  have nx: "t_next (sc_task ?s2 x) = t_next (sc_task s x)" for x by simp
  have st: "t_state (sc_task ?s2 x) = (if x = n then RUNNING else t_state (sc_task s x))" for x by simp
  have lk: "linked (sc_task ?s2) ?h us ?h"
    using ok ts linked_cong [of ?h us "sc_task ?s2" "sc_task s" ?h] nx by (simp add: ring_ok_def)
  have "\<not> reaped ?s2 x" if "x \<in> set us" for x using that alive ts st by (auto simp: reaped_def)
  with reap_none [of ?s2 ?h us 64] lk have "ReapDeadTasks ?s2 = ?s2" by (simp add: ReapDeadTasks_def)
  moreover have "?c \<noteq> 0" using ok unfolding ring_ok_def by metis
  ultimately have "Schedule now rsp s = Some (stack_pointer (sc_task ?s2 n), ?s2)"
    using Schedule_stages [OF _ l cv, of now rsp] n by simp
  moreover have "ring_ok ?s2 ts" using ok nts lk ts by (simp add: ring_ok_def)
  ultimately show ?thesis using that [of ?s2] nx st by simp
qed

fun run_sched :: "(nat \<times> addr) list \<Rightarrow> sched \<Rightarrow> sched option" where
  "run_sched [] s = Some s"
| "run_sched ((now, rsp) # ins) s = Option.bind (Schedule now rsp s) (\<lambda>(r, s'). run_sched ins s')"

lemma next_task_prefix:
  assumes "runnable now (sc_task s x)"
  shows "next_task now s (pre @ x # post) = x \<or>
    (\<exists>p1 p2. pre = p1 @ next_task now s (pre @ x # post) # p2)"
proof (induction pre)
  case Nil
  with assms show ?case by (simp add: next_task_def)
next
  case (Cons y ys)
  show ?case
  proof (cases "runnable now (sc_task s y)")
    case True
    then have "next_task now s ((y # ys) @ x # post) = y" by (simp add: next_task_def)
    then show ?thesis by (metis append_Nil)
  next
    case False
    then have "next_task now s ((y # ys) @ x # post) = next_task now s (ys @ x # post)"
      by (simp add: next_task_def)
    with Cons show ?thesis by (metis append_Cons)
  qed
qed

lemma ready_reached:
  assumes "ring_ok s ts" and "\<forall>y \<in> set ts. t_state (sc_task s y) \<noteq> DEAD"
    and "linked (sc_task s) (currentTask s) (pre @ x # post) (currentTask s)"
    and "currentTask s \<notin> set (pre @ x # post)" and "t_state (sc_task s x) = READY" and "length pre < length ins"
  shows "\<exists>k s'. k \<le> Suc (length pre) \<and> run_sched (take k ins) s = Some s' \<and> currentTask s' = x"
  using assms
proof (induction pre arbitrary: s ins post rule: length_induct)
  case (1 pre)
  let ?c = "currentTask s" and ?vs = "pre @ x # post"
  obtain now rsp more where ins: "ins = (now, rsp) # more" using 1(7) by (cases ins) auto
  define n where nd: "n = next_task now s ?vs"
  obtain s' where s': "Schedule now rsp s = Some (stack_pointer (sc_task s' n), s')" "currentTask s' = n"
    "ring_ok s' ts" "\<And>y. t_next (sc_task s' y) = t_next (sc_task s y)"
    "\<And>y. t_state (sc_task s' y) = (if y = n then RUNNING else t_state (sc_task s y))"
    by (rule Schedule_alive [OF 1(2-5) nd, of rsp]) blast
  have "runnable now (sc_task s x)" using 1(6) by (simp add: runnable_def)
  from next_task_prefix [OF this, of pre post, folded nd] show ?case
  proof (elim disjE exE)
    assume "n = x"
    with s' ins show ?thesis by (intro exI [of _ "Suc 0"] exI [of _ s']) simp
  next
    fix p1 p2
    assume pre: "pre = p1 @ n # p2"
    let ?T = "sc_task s"
    from 1(4) pre have l1: "linked ?T ?c p1 n" "linked ?T n (p2 @ x # post) ?c"
      by (simp_all add: linked_append)
    then have "linked ?T n (p2 @ x # (post @ ?c # p1)) n" by (simp add: linked_append)
    then have l': "linked (sc_task s') (currentTask s') (p2 @ x # (post @ ?c # p1)) (currentTask s')"
      using linked_cong [of n "p2 @ x # (post @ ?c # p1)" "sc_task s'" ?T n] s'(2,4) by simp
    have d: "distinct (?c # ?vs)" by (rule ring_others(2) [OF 1(2,4,5)])
    then have d': "currentTask s' \<notin> set (p2 @ x # (post @ ?c # p1))" and xn: "x \<noteq> n"
      using pre s'(2) by (auto simp: distinct_append)
    have alive: "\<forall>y \<in> set ts. t_state (sc_task s' y) \<noteq> DEAD" using 1(3) s'(5) by simp
    have rd: "t_state (sc_task s' x) = READY" using 1(6) s'(5) xn by simp
    have len: "length p2 < length pre" "length p2 < length more" using pre ins 1(7) by (simp_all add: pre)
    from 1(1)[rule_format, OF len(1) s'(3) bspec [OF alive] l' d' rd len(2)]
    obtain k s'' where k: "k \<le> Suc (length p2)" "run_sched (take k more) s' = Some s''" "currentTask s'' = x"
      by blast
    have "Suc k \<le> Suc (length pre)" using k(1) len(1) by simp
    moreover have "run_sched (take (Suc k) ins) s = Some s''" using k(2) s'(1) ins by simp
    ultimately show ?thesis using k(3) by blast
  qed
qed

section \<open>Event queues are bounded queues\<close>

definition queue_len :: "Task \<Rightarrow> nat" where
  "queue_len t = (eventHead t + EVENT_QUEUE_SIZE - eventTail t) mod EVENT_QUEUE_SIZE"

definition queue_inv :: "Task \<Rightarrow> bool" where
  "queue_inv t \<longleftrightarrow> length (eventQueue t) = EVENT_QUEUE_SIZE \<and> eventHead t < EVENT_QUEUE_SIZE \<and>
     eventTail t < EVENT_QUEUE_SIZE"

definition task_events :: "Task \<Rightarrow> OSEvent list" where
  "task_events t = ring (eventQueue t) (eventTail t) (queue_len t)"

lemma succ_mod: "h < EVENT_QUEUE_SIZE \<Longrightarrow> (h + 1) mod EVENT_QUEUE_SIZE = (if h = 127 then 0 else h + 1)"
  by (auto simp: less_Suc_eq_le)

lemma queue_len_cases:
  "eventHead t < EVENT_QUEUE_SIZE \<Longrightarrow> eventTail t < EVENT_QUEUE_SIZE \<Longrightarrow>
   queue_len t = (if eventTail t \<le> eventHead t then eventHead t - eventTail t
                  else eventHead t + EVENT_QUEUE_SIZE - eventTail t)"
  by (auto simp: queue_len_def mod_if)

lemma queue_head:
  assumes "queue_inv t"
  shows "(eventTail t + queue_len t) mod EVENT_QUEUE_SIZE = eventHead t"
    and "queue_len t < EVENT_QUEUE_SIZE" and "queue_len t = 0 \<longleftrightarrow> eventHead t = eventTail t"
    and "(eventHead t + 1) mod EVENT_QUEUE_SIZE = eventTail t \<longleftrightarrow> queue_len t = 127"
proof -
  from assms have b: "eventHead t < EVENT_QUEUE_SIZE" "eventTail t < EVENT_QUEUE_SIZE" by (simp_all add: queue_inv_def)
  note l = queue_len_cases [OF b]
  show "(eventTail t + queue_len t) mod EVENT_QUEUE_SIZE = eventHead t" using l b by auto
  show "queue_len t < EVENT_QUEUE_SIZE" "queue_len t = 0 \<longleftrightarrow> eventHead t = eventTail t" using l b by auto
  show "(eventHead t + 1) mod EVENT_QUEUE_SIZE = eventTail t \<longleftrightarrow> queue_len t = 127"
    unfolding succ_mod [OF b(1)] using l b by auto
qed

interpretation taskq: bounded_fifo task_push task_pop task_events queue_inv 127
proof
  fix q :: Task and e ok q' es
  assume inv: "queue_inv q"
  note h = queue_head [OF inv]
  have len: "length (eventQueue q) = EVENT_QUEUE_SIZE" using inv by (simp add: queue_inv_def)
  have b: "eventHead q < EVENT_QUEUE_SIZE" "eventTail q < EVENT_QUEUE_SIZE" using inv by (simp_all add: queue_inv_def)
  show "length (task_events q) \<le> 127" using h(2) by (simp add: task_events_def)
  show "task_pop q = None" if "task_events q = []"
    using arg_cong [OF that, of length] h(3) by (simp add: task_events_def task_pop_def)
  show "\<exists>q'. task_pop q = Some (e, q') \<and> task_events q' = es \<and> queue_inv q'" if c: "task_events q = e # es"
  proof -
    let ?q = "q\<lparr>eventTail := (eventTail q + 1) mod EVENT_QUEUE_SIZE\<rparr>"
    have cnt: "0 < queue_len q" using arg_cong [OF c, of length] by (simp add: task_events_def)
    have "queue_len ?q = queue_len q - 1"
      using cnt b succ_mod [OF b(2)] by (auto simp: queue_len_cases)
    with ring_pop [of "queue_len q" "eventQueue q" "eventTail q"] cnt h(2) len c inv
    have "eventQueue q ! eventTail q = e" "task_events ?q = es"
      by (simp_all add: task_events_def queue_inv_def)
    moreover have "queue_inv ?q" using inv by (simp add: queue_inv_def)
    ultimately show ?thesis using cnt h(3) by (simp add: task_pop_def)
  qed
  assume p: "task_push e q = (ok, q')"
  show "queue_inv q'" using inv p by (auto simp: task_push_def queue_inv_def Let_def split: if_splits)
  show "ok \<and> task_events q' = task_events q @ [e]" if "length (task_events q) < 127"
  proof -
    let ?q = "q\<lparr>eventQueue := (eventQueue q)[eventHead q := e], eventHead := (eventHead q + 1) mod EVENT_QUEUE_SIZE\<rparr>"
    have lt: "queue_len q < 127" using that by (simp add: task_events_def)
    with h(4) p have q': "ok" "q' = ?q" by (auto simp: task_push_def Let_def)
    have "queue_len ?q = Suc (queue_len q)"
      using lt b succ_mod [OF b(1)] by (auto simp: queue_len_cases)
    with ring_push [of "queue_len q" "eventQueue q" "eventTail q" e] h(1) lt len
    have "task_events ?q = task_events q @ [e]" by (simp add: task_events_def)
    with q' show ?thesis by simp
  qed
  show "\<not> ok \<and> task_events q' = task_events q" if "length (task_events q) = 127"
    using that h(4) p by (auto simp: task_events_def task_push_def Let_def)
qed

section \<open>Creation\<close>

lemma ring_ok_cong:
  assumes "ring_ok s ts" and "\<And>x. x \<in> set ts \<Longrightarrow> t_next (sc_task s' x) = t_next (sc_task s x)"
    and "tasksHead s' = tasksHead s" "currentTask s' = currentTask s" "idleTask s' = idleTask s"
  shows "ring_ok s' ts"
proof -
  from assms(1) obtain us where ts: "ts = tasksHead s # us" by (cases ts) (auto simp: ring_ok_def)
  have "linked (sc_task s') (tasksHead s) us (tasksHead s) = linked (sc_task s) (tasksHead s) us (tasksHead s)"
    by (rule linked_cong) (use assms(2) ts in auto)
  with assms ts show ?thesis by (simp add: ring_ok_def)
qed

lemma link_task_ring:
  assumes "ring_ok s ts" and "a \<notin> set ts" and "a \<noteq> 0"
  shows "ring_ok (link_task a s) (tasksHead s # a # tl ts)"
proof -
  from assms(1) obtain us where ts: "ts = tasksHead s # us" by (cases ts) (auto simp: ring_ok_def)
  let ?s = "link_task a s"
  have t: "sc_task ?s x = (if x = tasksHead s then (sc_task s x)\<lparr>t_next := a\<rparr>
      else if x = a then (sc_task s a)\<lparr>t_next := t_next (sc_task s (tasksHead s))\<rparr> else sc_task s x)" for x
    using assms(2) ts by (auto simp: link_task_def Let_def)
  have f: "tasksHead ?s = tasksHead s" "currentTask ?s = currentTask s" "idleTask ?s = idleTask s"
    by (simp_all add: link_task_def Let_def)
  have l: "linked (sc_task s) (tasksHead s) us (tasksHead s)" and d: "distinct (tasksHead s # us)"
    using assms(1) ts by (simp_all add: ring_ok_def)
  have "linked (sc_task ?s) a us (tasksHead s)"
  proof (cases us)
    case Nil
    with l assms(2) ts show ?thesis by (simp add: t)
  next
    case (Cons u vs)
    have "linked (sc_task ?s) u vs (tasksHead s) = linked (sc_task s) u vs (tasksHead s)"
      by (rule linked_cong) (use d Cons assms(2) ts in \<open>auto simp: t\<close>)
    with l Cons assms(2) ts show ?thesis by (simp add: t)
  qed
  with assms ts show ?thesis by (auto simp: ring_ok_def f) (simp_all add: t)
qed

lemma link_task_other: "x \<noteq> tasksHead s \<Longrightarrow> (sc_task (link_task a s) x)\<lparr>t_next := 0\<rparr> = (sc_task s x)\<lparr>t_next := 0\<rparr>"
  by (simp add: link_task_def Let_def)

lemma link_task_fields [simp]:
  "sc_heap (link_task a s) = sc_heap s" "sc_frame (link_task a s) = sc_frame s"
  by (simp_all add: link_task_def Let_def upd_task_def)

lemma CreateTask_success:
  assumes rk: "ring_ok s ts" and a: "kheap_Allocate (sc_heap s) TASK_SIZE = Some (a, h1)"
    and b: "kheap_Allocate h1 STACK_SIZE = Some (b, h2)" and "a \<noteq> 0" and "b \<noteq> 0" and at: "a \<notin> set ts"
  obtains s' where "CreateTask entry s = Some s'" "sc_heap s' = h2" "ring_ok s' (tasksHead s # a # tl ts)"
    "t_state (sc_task s' a) = READY" "t_id (sc_task s' a) = nextTaskId s"
    "f_rip (sc_frame s' (stack_pointer (sc_task s' a))) = entry"
    "f_cs (sc_frame s' (stack_pointer (sc_task s' a))) = 0x08"
    "f_rflags (sc_frame s' (stack_pointer (sc_task s' a))) = 0x202"
    "f_rsp (sc_frame s' (stack_pointer (sc_task s' a))) = stack_pointer (sc_task s' a)"
    "kernel_stack_top (sc_task s' a) = add64 (stack_pointer (sc_task s' a)) FRAME_SIZE"
proof -
  let ?top = "add64 b STACK_SIZE" and ?fp = "sub64 (add64 b STACK_SIZE) FRAME_SIZE"
  let ?fr = "zero_frame\<lparr>f_rip := entry, f_cs := 0x08, f_rflags := 0x202, f_rsp := ?fp, f_ss := 0x10\<rparr>"
  let ?s1 = "upd_task a (\<lambda>_. zero_task\<lparr>t_id := nextTaskId s, wake_up_time := 0, t_cr3 := cr3 (sc_mmu s)\<rparr>)
               (s\<lparr>sc_heap := h1, nextTaskId := add64 (nextTaskId s) 1\<rparr>)"
  let ?s2 = "?s1\<lparr>sc_heap := h2, sc_frame := (sc_frame ?s1)(?fp := ?fr)\<rparr>"
  let ?s3 = "upd_task a (\<lambda>t. std_streams (t\<lparr>stack_pointer := ?fp, kernel_stack_top := ?top, t_state := READY\<rparr>)) ?s2"
  define s' where "s' = link_task a ?s3"
  have "CreateTask entry s = Some s'"
    using assms(2-5) by (simp add: CreateTask_def kmalloc_def Let_def s'_def)
  moreover have "sc_heap s' = h2" by (simp add: s'_def)
  moreover have "ring_ok ?s3 ts" by (rule ring_ok_cong [OF rk]) (use at in auto)
  then have "ring_ok s' (tasksHead s # a # tl ts)"
    using link_task_ring [OF _ at assms(4), of ?s3] by (simp add: s'_def)
  moreover have fr: "sc_frame s' ?fp = ?fr" by (simp add: s'_def upd_task_def)
  moreover have "tasksHead s \<in> set ts" using rk unfolding ring_ok_def by (metis hd_in_set)
  then have "a \<noteq> tasksHead ?s3" using at by auto
  note o = link_task_other [OF this, of a, folded s'_def]
  have "t_state (sc_task s' a) = READY" "t_id (sc_task s' a) = nextTaskId s" "stack_pointer (sc_task s' a) = ?fp"
    "kernel_stack_top (sc_task s' a) = ?top"
    using arg_cong [OF o, of t_state] arg_cong [OF o, of t_id] arg_cong [OF o, of stack_pointer]
      arg_cong [OF o, of kernel_stack_top] by (simp_all add: std_streams_def)
  moreover have "add64 ?fp FRAME_SIZE = ?top" by (rule add64_sub64) simp_all
  ultimately show ?thesis using that [of s'] by simp
qed

section \<open>Finding a task\<close>

lemma find_id_spec:
  "linked (sc_task s) a us (tasksHead s) \<Longrightarrow> tasksHead s \<notin> set us \<Longrightarrow>
   find_id i a s = Some (case find (\<lambda>x. t_id (sc_task s x) = i) (a # us) of Some x \<Rightarrow> x | None \<Rightarrow> 0)"
proof (induction us arbitrary: a)
  case Nil
  then show ?case by (subst find_id.simps) simp
next
  case (Cons u us)
  then show ?case by (subst find_id.simps) auto
qed

lemma GetTaskById_spec:
  assumes "ring_ok s ts"
  shows "GetTaskById i s = Some (case find (\<lambda>x. t_id (sc_task s x) = i) ts of Some x \<Rightarrow> x | None \<Rightarrow> 0)"
proof -
  from assms obtain us where ts: "ts = tasksHead s # us" by (cases ts) (auto simp: ring_ok_def)
  with assms show ?thesis using find_id_spec [of s "tasksHead s" us i]
    by (auto simp: GetTaskById_def ring_ok_def)
qed

section \<open>Properties\<close>

text \<open>C9. \<^verbatim>\<open>Schedule\<close> returns, and is round robin: it saves the stack pointer of the running task and
  gives the CPU to the first runnable task after it in list order (with none, it keeps the running task,
  or runs the idle task when that one sleeps or has exited).  The chosen task's stack pointer is
  returned, its kernel stack is in the TSS, and exactly the dead tasks leave the list.\<close>

theorem Schedule_round_robin:
  assumes "ring_ok s ts" and "length ts \<le> 65"
    and "linked (sc_task s) (currentTask s) vs (currentTask s)" and "currentTask s \<notin> set vs"
    and "n = next_task now s vs"
  shows "\<exists>s'. Schedule now rsp s = Some (if n = currentTask s then rsp else stack_pointer (sc_task s n), s') \<and>
    currentTask s' = n \<and> t_state (sc_task s' n) = RUNNING \<and> tss_rsp0 s' = kernel_stack_top (sc_task s n) \<and>
    ring_ok s' (filter (\<lambda>x. x \<in> {n, idleTask s, tasksHead s} \<or> t_state (sc_task s x) \<noteq> DEAD) ts)"
proof -
  obtain s' where a: "Schedule now rsp s = Some (stack_pointer (sc_task s' n), s')" "currentTask s' = n"
    "t_state (sc_task s' n) = RUNNING"
    "stack_pointer (sc_task s' n) = (if n = currentTask s then rsp else stack_pointer (sc_task s n))"
    "tss_rsp0 s' = kernel_stack_top (sc_task s n)"
    "ring_ok s' (filter (\<lambda>x. x \<in> {n, idleTask s, tasksHead s} \<or> t_state (sc_task s x) \<noteq> DEAD) ts)"
    by (rule Schedule_result [OF assms(1-4), of now rsp, folded assms(5)]) (rule that, assumption+)
  show ?thesis using a(1) [unfolded a(4)] a(2,3,5,6) by blast
qed

definition demo_task :: "nat \<Rightarrow> TaskState \<Rightarrow> addr \<Rightarrow> Task" where
  "demo_task i st nx = zero_task\<lparr>t_id := i, t_state := st, t_next := nx, stack_pointer := 1000 + i,
     kernel_stack_top := 20000 * (i + 1)\<rparr>"

text \<open>Main task at 4096, idle task at 8192, a third task at 12288 in state \<open>st\<close>; \<open>cur\<close> is running.\<close>

definition demo_sched :: "addr \<Rightarrow> TaskState \<Rightarrow> sched" where
  "demo_sched cur st = \<lparr>sc_task = (\<lambda>a. if a = 4096 then demo_task 0 RUNNING 8192 else if a = 8192 then demo_task 1 READY 12288
       else demo_task 2 st 4096), sc_frame = (\<lambda>_. zero_frame), currentTask = cur, tasksHead = 4096, idleTask = 8192,
     nextTaskId = 3, eventPushCount = 0, eventPopCount = 0, eventDropCount = 0,
     sc_heap = kheap_Init (\<lambda>_. undefined) 65536 32768, sc_mmu = demo_mmu, tss_rsp0 = 0\<rparr>"

lemma demo_ring: "cur \<in> {4096, 8192, 12288} \<Longrightarrow> ring_ok (demo_sched cur st) [4096, 8192, 12288]"
  by (auto simp: ring_ok_def demo_sched_def demo_task_def)

theorem Schedule_round_robin_witness:
  "\<exists>s'. Schedule 5 777 (demo_sched 4096 READY) = Some (1001, s') \<and> currentTask s' = 8192"
proof -
  let ?s = "demo_sched 4096 READY"
  have "linked (sc_task ?s) (currentTask ?s) [8192, 12288] (currentTask ?s)" "currentTask ?s \<notin> set [8192, 12288]"
    "8192 = next_task 5 ?s [8192, 12288]"
    by (simp_all add: demo_sched_def demo_task_def next_task_def runnable_def)
  from Schedule_round_robin [OF demo_ring _ this, of 777] obtain s' where
    "Schedule 5 777 ?s = Some (if 8192 = currentTask ?s then 777 else stack_pointer (sc_task ?s 8192), s')"
    "currentTask s' = 8192" by auto
  moreover have "currentTask ?s = 4096" "stack_pointer (sc_task ?s 8192) = 1001"
    by (simp_all add: demo_sched_def demo_task_def)
  ultimately show ?thesis by simp
qed

text \<open>C10. No ready task is starved: as long as no task has exited, a task that is ready is running
  after at most as many timer interrupts as there are tasks, whatever the clock and the sleepers do.\<close>

theorem ready_task_gets_cpu:
  assumes "ring_ok s ts" and "\<forall>y \<in> set ts. t_state (sc_task s y) \<noteq> DEAD"
    and "x \<in> set ts" and "t_state (sc_task s x) = READY" and "length ts \<le> length ticks"
  shows "\<exists>k s'. k \<le> length ts \<and> run_sched (take k ticks) s = Some s' \<and> currentTask s' = x"
proof (cases "x = currentTask s")
  case True
  then show ?thesis by (intro exI [of _ 0] exI [of _ s]) simp
next
  case False
  obtain vs where v: "linked (sc_task s) (currentTask s) vs (currentTask s)"
    "distinct (currentTask s # vs)" "set (currentTask s # vs) = set ts" "Suc (length vs) = length ts"
    by (rule ring_rotate [OF assms(1)])
  with assms(3) False have "x \<in> set vs" by auto
  then obtain pre post where vs: "vs = pre @ x # post" by (meson split_list)
  have len: "length pre < length ticks" "Suc (length pre) \<le> length ts" using v(4) vs assms(5) by auto
  have "currentTask s \<notin> set (pre @ x # post)" using v(2) vs by simp
  from ready_reached [OF assms(1,2) v(1) [unfolded vs] this assms(4) len(1)] len(2) show ?thesis
    using le_trans by blast
qed

theorem ready_task_gets_cpu_witness:
  "\<exists>k s'. k \<le> 3 \<and> run_sched (take k [(1, 50), (2, 60), (3, 70)]) (demo_sched 4096 READY) = Some s' \<and>
     currentTask s' = 12288"
proof -
  have "\<forall>y \<in> set [4096, 8192, 12288]. t_state (sc_task (demo_sched 4096 READY) y) \<noteq> DEAD"
    "t_state (sc_task (demo_sched 4096 READY) 12288) = READY"
    by (simp_all add: demo_sched_def demo_task_def)
  from ready_task_gets_cpu [OF demo_ring this(1) _ this(2), of "[(1, 50), (2, 60), (3, 70)]"] show ?thesis
    by (simp add: numeral_3_eq_3)
qed

text \<open>The call of \<^verbatim>\<open>Schedule\<close> that switches away from an exited task returns that task's kernel
  stack to the heap although the call itself is still running on it: the freed block is the one the
  interrupted stack pointer lies in.\<close>

theorem Schedule_frees_running_stack:
  assumes "ring_ok s ts" and "length ts \<le> 65" and "t_state (sc_task s (currentTask s)) = DEAD"
    and "currentTask s \<notin> {idleTask s, tasksHead s}" and "kernel_stack_top (sc_task s (currentTask s)) = stack + STACK_SIZE"
    and "stack \<le> rsp" and "rsp < stack + STACK_SIZE" and "stack + STACK_SIZE < u64_limit"
  shows "\<exists>r s' h ys. Schedule now rsp s = Some (r, s') \<and>
    sc_heap s' = foldl (free_task_memory (sc_task s)) (kfree (kfree h stack) (currentTask s)) ys"
proof -
  let ?c = "currentTask s"
  obtain vs where v: "linked (sc_task s) ?c vs ?c" "distinct (?c # vs)" by (rule ring_rotate [OF assms(1)])
  then have cv: "?c \<notin> set vs" by simp
  let ?n = "next_task now s vs"
  have "idleTask s \<noteq> 0" using assms(1) unfolding ring_ok_def by metis
  then have nc: "?n \<noteq> ?c"
    using cv assms(3,4) by (auto simp: next_task_def find_Some_iff runnable_def split: option.splits)
  obtain s' where s': "Schedule now rsp s = Some (stack_pointer (sc_task s' ?n), s')"
    "sc_heap s' = foldl (free_task_memory (sc_task s)) (sc_heap s)
       (filter (\<lambda>x. x \<notin> {?n, idleTask s, tasksHead s} \<and> t_state (sc_task s x) = DEAD) ts)"
    by (rule Schedule_result [OF assms(1,2) v(1) cv, of now rsp]) blast
  let ?F = "filter (\<lambda>x. x \<notin> {?n, idleTask s, tasksHead s} \<and> t_state (sc_task s x) = DEAD) ts"
  have "?c \<in> set ?F" using assms(1,3,4) nc by (auto simp: ring_ok_def)
  then obtain xs ys where F: "?F = xs @ ?c # ys" by (meson split_list)
  have "sub64 (kernel_stack_top (sc_task s ?c)) STACK_SIZE = stack"
    unfolding assms(5) using assms(8) by (simp add: sub64_eq)
  then have "free_task_memory (sc_task s) h ?c = kfree (kfree h stack) ?c" for h
    using assms(5) by (simp add: free_task_memory_def)
  then have "sc_heap s' = foldl (free_task_memory (sc_task s))
      (kfree (kfree (foldl (free_task_memory (sc_task s)) (sc_heap s) xs) stack) ?c) ys"
    unfolding s'(2) F by simp
  with s'(1) show ?thesis by blast
qed

theorem Schedule_frees_running_stack_witness:
  "\<exists>r s' h ys. Schedule 5 50000 (demo_sched 12288 DEAD) = Some (r, s') \<and>
     sc_heap s' = foldl (free_task_memory (sc_task (demo_sched 12288 DEAD))) (kfree (kfree h 43616) 12288) ys"
proof -
  let ?s = "demo_sched 12288 DEAD"
  have c: "currentTask ?s = 12288" by (simp add: demo_sched_def)
  have "t_state (sc_task ?s (currentTask ?s)) = DEAD" "currentTask ?s \<notin> {idleTask ?s, tasksHead ?s}"
    "kernel_stack_top (sc_task ?s (currentTask ?s)) = 43616 + STACK_SIZE"
    by (simp_all add: demo_sched_def demo_task_def)
  from Schedule_frees_running_stack [OF demo_ring _ this, of 50000 5] show ?thesis unfolding c by simp
qed

text \<open>\<^verbatim>\<open>CreateTask\<close> returns.  It either leaves the task list as it was (the heap is exhausted), or
  links one new task right after the head: a block the heap had not handed out, ready, with the next id,
  and a stack frame that starts the entry point in kernel mode with interrupts on.\<close>

theorem CreateTask_links_new_task:
  assumes "ring_ok s ts" and "heap_inv (sc_heap s)" and "set ts \<subseteq> fst ` heap_live (sc_heap s)"
  shows "\<exists>s'. CreateTask entry s = Some s' \<and> heap_inv (sc_heap s') \<and>
    (ring_ok s' ts \<and> heap_live (sc_heap s') = heap_live (sc_heap s) \<or>
     (\<exists>a t fr. a \<notin> set ts \<and> ring_ok s' (tasksHead s # a # tl ts) \<and> a \<in> fst ` heap_live (sc_heap s') \<and>
        t = sc_task s' a \<and> t_state t = READY \<and> t_id t = nextTaskId s \<and>
        fr = sc_frame s' (stack_pointer t) \<and> f_rip fr = entry \<and> f_cs fr = 0x08 \<and> f_rflags fr = 0x202 \<and>
        f_rsp fr = stack_pointer t \<and> kernel_stack_top t = add64 (stack_pointer t) FRAME_SIZE))"
proof -
  note inv = assms(2)
  have mx: "TASK_SIZE \<le> kheap_max" "STACK_SIZE \<le> kheap_max" by simp_all
  obtain a h1 where a: "kheap_Allocate (sc_heap s) TASK_SIZE = Some (a, h1)"
    using kheap.alloc_total [OF inv mx(1)] by blast
  have i1: "heap_inv h1" by (rule kheap.alloc_inv [OF inv mx(1) a])
  show ?thesis
  proof (cases "a = 0")
    case True
    with a have "CreateTask entry s = Some (s\<lparr>sc_heap := h1\<rparr>)" by (simp add: CreateTask_def kmalloc_def)
    moreover have "ring_ok (s\<lparr>sc_heap := h1\<rparr>) ts" by (rule ring_ok_cong [OF assms(1)]) simp_all
    moreover have "heap_live h1 = heap_live (sc_heap s)" using kheap.alloc_null [OF inv mx(1)] a True by simp
    ultimately show ?thesis using i1 by (intro exI [of _ "s\<lparr>sc_heap := h1\<rparr>"]) simp
  next
    case False
    from kheap.alloc_live [OF inv mx(1) a False] obtain k where
      a1: "a \<notin> fst ` heap_live (sc_heap s)" "heap_live h1 = insert (a, k) (heap_live (sc_heap s))" by blast
    have at: "a \<notin> set ts" using a1(1) assms(3) by blast
    let ?s1 = "upd_task a (\<lambda>_. zero_task\<lparr>t_id := nextTaskId s, wake_up_time := 0, t_cr3 := cr3 (sc_mmu s)\<rparr>)
                 (s\<lparr>sc_heap := h1, nextTaskId := add64 (nextTaskId s) 1\<rparr>)"
    obtain b h2 where b: "kheap_Allocate h1 STACK_SIZE = Some (b, h2)"
      using kheap.alloc_total [OF i1 mx(2)] by blast
    have i2: "heap_inv h2" by (rule kheap.alloc_inv [OF i1 mx(2) b])
    show ?thesis
    proof (cases "b = 0")
      case True
      let ?s = "?s1\<lparr>sc_heap := kfree h2 a\<rparr>"
      have l2: "heap_live h2 = insert (a, k) (heap_live (sc_heap s))"
        using kheap.alloc_null [OF i1 mx(2)] b True a1(2) by simp
      then have "(a, k) \<in> heap_live h2" by simp
      from kheap.free_live [OF i2 this] kheap.free_inv [OF i2 this] l2 a1(1)
      have "heap_live (kfree h2 a) = heap_live (sc_heap s)" "heap_inv (kfree h2 a)"
        by (force simp: kfree_def image_iff)+
      moreover have "CreateTask entry s = Some ?s"
        using a b False True by (simp add: CreateTask_def kmalloc_def Let_def)
      moreover have "ring_ok ?s ts" by (rule ring_ok_cong [OF assms(1)]) (use at in auto)
      ultimately show ?thesis by (intro exI [of _ ?s]) simp
    next
      case b0: False
      obtain s' where s': "CreateTask entry s = Some s'" "sc_heap s' = h2" "ring_ok s' (tasksHead s # a # tl ts)"
        "t_state (sc_task s' a) = READY" "t_id (sc_task s' a) = nextTaskId s"
        "f_rip (sc_frame s' (stack_pointer (sc_task s' a))) = entry"
        "f_cs (sc_frame s' (stack_pointer (sc_task s' a))) = 0x08"
        "f_rflags (sc_frame s' (stack_pointer (sc_task s' a))) = 0x202"
        "f_rsp (sc_frame s' (stack_pointer (sc_task s' a))) = stack_pointer (sc_task s' a)"
        "kernel_stack_top (sc_task s' a) = add64 (stack_pointer (sc_task s' a)) FRAME_SIZE"
        by (rule CreateTask_success [OF assms(1) a b False b0 at])
      from kheap.alloc_live [OF i1 mx(2) b b0] a1(2) have "a \<in> fst ` heap_live (sc_heap s')" using s'(2) by auto
      with s' i2 at show ?thesis by (intro exI [of _ s']) auto
    qed
  qed
qed

definition one_task_sched :: "kheap \<Rightarrow> sched" where
  "one_task_sched h = (demo_sched 65568 READY)\<lparr>sc_task := (\<lambda>a. demo_task 0 RUNNING 65568), tasksHead := 65568,
     idleTask := 65568, sc_heap := h\<rparr>"

theorem CreateTask_links_new_task_witness:
  "\<exists>h s'. ring_ok (one_task_sched h) [65568] \<and> CreateTask 4660 (one_task_sched h) = Some s' \<and> heap_inv (sc_heap s')"
proof -
  let ?h0 = "kheap_Init (\<lambda>_. undefined) 65536 65536"
  have "heap_ok ?h0 [mk_seg 65536 65504 True]" using kheap_Init_ok [of 65536 65536] by (simp add: dvd_def)
  from kheap_Allocate_refines [OF this, of TASK_SIZE]
  obtain h where h: "heap_ok h [mk_seg 65536 3904 False, mk_seg 69472 61568 True]"
    by (auto simp: align16_def add64_def)
  have inv: "heap_inv h" and live: "heap_live h = {(65568, 3904)}" using heap_ok_inv [OF h] by simp_all
  have r: "ring_ok (one_task_sched h) [65568]"
    by (simp add: ring_ok_def one_task_sched_def demo_sched_def demo_task_def)
  have hh: "sc_heap (one_task_sched h) = h" by (simp add: one_task_sched_def)
  from CreateTask_links_new_task [OF r, unfolded hh, OF inv, of 4660] live r show ?thesis by auto
qed

text \<open>One \<^verbatim>\<open>PushEventToTask\<close>, with what it keeps, so that pushes can be chained.\<close>

lemma PushEventToTask_step:
  assumes "ring_ok s ts" and "find (\<lambda>y. t_id (sc_task s y) = i) ts = Some x" and "queue_inv (sc_task s x)"
  obtains s' where "PushEventToTask i ev s = Some (length (task_events (sc_task s x)) < 127, s')"
    "\<And>y. y \<noteq> x \<Longrightarrow> sc_task s' y = sc_task s y"
    "if length (task_events (sc_task s x)) < 127
     then task_events (sc_task s' x) = task_events (sc_task s x) @ [ev] \<and> t_state (sc_task s' x) \<noteq> SLEEPING
     else sc_task s' x = sc_task s x \<and> eventDropCount s' = add64 (eventDropCount s) 1"
    "ring_ok s' ts" "find (\<lambda>y. t_id (sc_task s' y) = i) ts = Some x" "queue_inv (sc_task s' x)"
proof -
  let ?t = "sc_task s x"
  have "x \<in> set ts" using assms(2) by (auto simp: find_Some_iff)
  then have x0: "x \<noteq> 0" using assms(1) unfolding ring_ok_def by metis
  have id: "GetTaskById i s = Some x" using GetTaskById_spec [OF assms(1)] assms(2) by simp
  obtain ok t where p: "task_push ev ?t = (ok, t)" by (rule prod.exhaust)
  have keep: "t_next t = t_next ?t" "t_id t = t_id ?t" using p by (auto simp: task_push_def Let_def split: if_splits)
  show ?thesis
  proof (cases "length (task_events ?t) < 127")
    case True
    from taskq.push_room [OF assms(3) True p] have ok: "ok" "task_events t = task_events ?t @ [ev]" by auto
    let ?t' = "if t_state t = SLEEPING then t\<lparr>t_state := READY\<rparr> else t"
    let ?s = "upd_task x (\<lambda>_. ?t') (s\<lparr>eventPushCount := add64 (eventPushCount s) 1\<rparr>)"
    have push: "PushEventToTask i ev s = Some (True, ?s)" using id x0 p ok by (simp add: PushEventToTask_def)
    have ev: "task_events ?t' = task_events t" "queue_inv ?t' = queue_inv t"
      by (simp_all add: task_events_def queue_len_def queue_inv_def)
    have ring: "ring_ok ?s ts" by (rule ring_ok_cong [OF assms(1)]) (use keep in auto)
    have "(\<lambda>y. t_id (sc_task ?s y) = i) = (\<lambda>y. t_id (sc_task s y) = i)" using keep by auto
    then have "find (\<lambda>y. t_id (sc_task ?s y) = i) ts = Some x" using assms(2) by simp
    with push ring ev ok True taskq.push_inv [OF assms(3) p] show ?thesis by (intro that [of ?s]) auto
  next
    case False
    with taskq.bounded [OF assms(3)] have "length (task_events ?t) = 127" by linarith
    from taskq.push_full [OF assms(3) this p] have "\<not> ok" by simp
    then have "PushEventToTask i ev s = Some (False, s\<lparr>eventDropCount := add64 (eventDropCount s) 1\<rparr>)"
      using id x0 p by (simp add: PushEventToTask_def)
    moreover have "ring_ok (s\<lparr>eventDropCount := add64 (eventDropCount s) 1\<rparr>) ts"
      by (rule ring_ok_cong [OF assms(1)]) simp_all
    ultimately show ?thesis using that False assms(2,3) by simp
  qed
qed

text \<open>C11. \<^verbatim>\<open>PushEventToTask\<close> appends the event to the queue of the first task with the given id and
  wakes it when it sleeps; a queue that holds 127 events refuses it and counts the drop.  No other task
  changes.  \<^verbatim>\<open>PopEventFromCurrentTask\<close> takes the oldest event.\<close>

theorem PushEventToTask_delivers:
  assumes "ring_ok s ts" and "find (\<lambda>y. t_id (sc_task s y) = i) ts = Some x" and "queue_inv (sc_task s x)"
  shows "\<exists>ok s'. PushEventToTask i ev s = Some (ok, s') \<and> (\<forall>y. y \<noteq> x \<longrightarrow> sc_task s' y = sc_task s y) \<and>
    (if length (task_events (sc_task s x)) < 127
     then ok \<and> task_events (sc_task s' x) = task_events (sc_task s x) @ [ev] \<and> t_state (sc_task s' x) \<noteq> SLEEPING
     else \<not> ok \<and> sc_task s' x = sc_task s x \<and> eventDropCount s' = add64 (eventDropCount s) 1) \<and>
    (currentTask s = x \<and> task_events (sc_task s x) = e # es \<longrightarrow>
       (\<exists>s''. PopEventFromCurrentTask s = Some (e, s'') \<and> task_events (sc_task s'' x) = es))"
proof -
  have "x \<in> set ts" using assms(2) by (auto simp: find_Some_iff)
  then have x0: "x \<noteq> 0" using assms(1) unfolding ring_ok_def by metis
  have pop: "\<exists>s''. PopEventFromCurrentTask s = Some (e, s'') \<and> task_events (sc_task s'' x) = es"
    if "currentTask s = x" "task_events (sc_task s x) = e # es"
    using taskq.pop_front [OF assms(3) that(2)] that(1) x0 by (auto simp: PopEventFromCurrentTask_def)
  obtain s' where s': "PushEventToTask i ev s = Some (length (task_events (sc_task s x)) < 127, s')"
    "\<And>y. y \<noteq> x \<Longrightarrow> sc_task s' y = sc_task s y"
    "if length (task_events (sc_task s x)) < 127
     then task_events (sc_task s' x) = task_events (sc_task s x) @ [ev] \<and> t_state (sc_task s' x) \<noteq> SLEEPING
     else sc_task s' x = sc_task s x \<and> eventDropCount s' = add64 (eventDropCount s) 1"
    by (rule PushEventToTask_step [OF assms, where ev = ev], rule that)
  show ?thesis
    by (rule exI [of _ "length (task_events (sc_task s x)) < 127"], rule exI [of _ s'])
      (use s' pop in \<open>auto split: if_splits\<close>)
qed

theorem PushEventToTask_delivers_witness:
  "\<exists>s'. PushEventToTask 2 \<lparr>os_type = 3, os_dx = 0, os_dy = 0, os_buttons = 0, os_scancode = 30, os_ascii = 97\<rparr>
      (demo_sched 4096 SLEEPING) = Some (True, s') \<and> length (task_events (sc_task s' 12288)) = 1 \<and>
      t_state (sc_task s' 12288) \<noteq> SLEEPING"
proof -
  let ?s = "demo_sched 4096 SLEEPING"
  have q: "queue_inv (sc_task ?s 12288)" "task_events (sc_task ?s 12288) = []"
    by (simp_all add: queue_inv_def demo_sched_def demo_task_def zero_task_def task_events_def queue_len_def)
  have "find (\<lambda>y. t_id (sc_task ?s y) = 2) [4096, 8192, 12288] = Some 12288"
    by (simp add: demo_sched_def demo_task_def)
  from PushEventToTask_delivers [OF demo_ring this q(1)] q(2) show ?thesis by fastforce
qed

end
