(* ===== verification/Evdev.thy ===== *)
theory Evdev
  imports Bounded_Fifo
begin

text \<open>
  The event device ring, \<^verbatim>\<open>kernel/hal/input/evdev.cpp\<close>: a 4096-entry array with write position, read
  position and count, and the helpers the drivers call.  Interrupts are off around each access, so
  every operation is one atomic step.  The time stamp counter is an argument.
\<close>

section \<open>State\<close>

record InputEvent =
  time_us :: nat
  ie_type :: nat
  ie_code :: nat
  ie_value :: int

record evdev =
  ringBuffer :: "InputEvent list"
  ev_head :: nat
  ev_tail :: nat
  ev_count :: nat
  totalEvents :: nat
  droppedEvents :: nat

abbreviation BUFFER_SIZE :: nat where "BUFFER_SIZE \<equiv> 4096"
abbreviation EV_SYN :: nat where "EV_SYN \<equiv> 0"
abbreviation EV_KEY :: nat where "EV_KEY \<equiv> 1"
abbreviation EV_REL :: nat where "EV_REL \<equiv> 2"
abbreviation REL_X :: nat where "REL_X \<equiv> 0"
abbreviation REL_Y :: nat where "REL_Y \<equiv> 1"
abbreviation REL_WHEEL :: nat where "REL_WHEEL \<equiv> 8"
abbreviation SYN_REPORT :: nat where "SYN_REPORT \<equiv> 0"
abbreviation KEY_RELEASE :: int where "KEY_RELEASE \<equiv> 0"
abbreviation KEY_PRESS :: int where "KEY_PRESS \<equiv> 1"

abbreviation mk_event :: "nat \<Rightarrow> nat \<Rightarrow> nat \<Rightarrow> int \<Rightarrow> InputEvent" where
  "mk_event now ty code v \<equiv> \<lparr>time_us = now, ie_type = ty, ie_code = code, ie_value = v\<rparr>"

section \<open>Operations\<close>

definition evdev_Init :: "evdev \<Rightarrow> evdev" where
  "evdev_Init s = s\<lparr>ev_head := 0, ev_tail := 0, ev_count := 0, totalEvents := 0, droppedEvents := 0\<rparr>"

definition evdev_PushEvent :: "InputEvent \<Rightarrow> evdev \<Rightarrow> bool \<times> evdev" where
  "evdev_PushEvent ev s =
     (if ev_count s \<ge> BUFFER_SIZE
      then (False, s\<lparr>droppedEvents := add64 (droppedEvents s) 1\<rparr>)
      else (True, s\<lparr>ringBuffer := (ringBuffer s)[ev_head s := ev],
                    ev_head := (ev_head s + 1) mod BUFFER_SIZE,
                    ev_count := ev_count s + 1,
                    totalEvents := add64 (totalEvents s) 1\<rparr>))"

definition evdev_PopEvent :: "evdev \<Rightarrow> (InputEvent \<times> evdev) option" where
  "evdev_PopEvent s =
     (if ev_count s = 0 then None
      else Some (ringBuffer s ! ev_tail s,
                 s\<lparr>ev_tail := (ev_tail s + 1) mod BUFFER_SIZE, ev_count := ev_count s - 1\<rparr>))"

definition GetEventCount :: "evdev \<Rightarrow> nat" where "GetEventCount s = ev_count s"
definition GetTotalEvents :: "evdev \<Rightarrow> nat" where "GetTotalEvents s = totalEvents s"
definition GetDroppedEvents :: "evdev \<Rightarrow> nat" where "GetDroppedEvents s = droppedEvents s"

definition PushRelativeMotion :: "nat \<Rightarrow> int \<Rightarrow> int \<Rightarrow> evdev \<Rightarrow> evdev" where
  "PushRelativeMotion now dx dy s =
     (let s1 = (if dx \<noteq> 0 then snd (evdev_PushEvent (mk_event now EV_REL REL_X dx) s) else s)
      in if dy \<noteq> 0 then snd (evdev_PushEvent (mk_event now EV_REL REL_Y dy) s1) else s1)"

definition PushButton :: "nat \<Rightarrow> nat \<Rightarrow> bool \<Rightarrow> evdev \<Rightarrow> evdev" where
  "PushButton now button pressed s =
     snd (evdev_PushEvent (mk_event now EV_KEY button (if pressed then KEY_PRESS else KEY_RELEASE)) s)"

definition PushScroll :: "nat \<Rightarrow> int \<Rightarrow> evdev \<Rightarrow> evdev" where
  "PushScroll now delta s = snd (evdev_PushEvent (mk_event now EV_REL REL_WHEEL delta) s)"

definition PushKey :: "nat \<Rightarrow> nat \<Rightarrow> int \<Rightarrow> evdev \<Rightarrow> evdev" where
  "PushKey now keycode st s = snd (evdev_PushEvent (mk_event now EV_KEY keycode st) s)"

definition PushSync :: "nat \<Rightarrow> evdev \<Rightarrow> evdev" where
  "PushSync now s = snd (evdev_PushEvent (mk_event now EV_SYN SYN_REPORT 0) s)"

section \<open>The ring is a bounded queue\<close>

definition evdev_inv :: "evdev \<Rightarrow> bool" where
  "evdev_inv s \<longleftrightarrow> length (ringBuffer s) = BUFFER_SIZE \<and> ev_count s \<le> BUFFER_SIZE \<and>
     ev_tail s < BUFFER_SIZE \<and> ev_head s = (ev_tail s + ev_count s) mod BUFFER_SIZE"

definition evdev_contents :: "evdev \<Rightarrow> InputEvent list" where
  "evdev_contents s = ring (ringBuffer s) (ev_tail s) (ev_count s)"

lemma evdev_push_room:
  assumes inv: "evdev_inv s" and room: "ev_count s < BUFFER_SIZE"
  shows "evdev_contents (snd (evdev_PushEvent ev s)) = evdev_contents s @ [ev]"
proof -
  have len: "length (ringBuffer s) = BUFFER_SIZE" and hd: "ev_head s = (ev_tail s + ev_count s) mod BUFFER_SIZE"
    using inv by (simp_all add: evdev_inv_def)
  from ring_push [of "ev_count s" "ringBuffer s" "ev_tail s" ev] room show ?thesis
    by (simp add: evdev_contents_def evdev_PushEvent_def len hd)
qed

lemma evdev_push_inv: "evdev_inv s \<Longrightarrow> evdev_inv (snd (evdev_PushEvent ev s))"
  by (auto simp: evdev_inv_def evdev_PushEvent_def mod_Suc_eq)

lemma evdev_pop_front:
  assumes inv: "evdev_inv s" and c: "evdev_contents s = e # es"
  shows "\<exists>s'. evdev_PopEvent s = Some (e, s') \<and> evdev_contents s' = es \<and> evdev_inv s'"
proof -
  have len: "length (ringBuffer s) = BUFFER_SIZE" and tl: "ev_tail s < BUFFER_SIZE"
    and cnt: "0 < ev_count s" "ev_count s \<le> BUFFER_SIZE"
    using inv arg_cong [OF c, of length] by (simp_all add: evdev_inv_def evdev_contents_def)
  from ring_pop [of "ev_count s" "ringBuffer s" "ev_tail s"] cnt len c tl
  have r: "ringBuffer s ! ev_tail s = e" "ring (ringBuffer s) ((ev_tail s + 1) mod BUFFER_SIZE) (ev_count s - 1) = es"
    by (simp_all add: evdev_contents_def)
  have h: "ev_tail s + ev_count s = Suc (ev_tail s) + (ev_count s - 1)" using cnt by simp
  have "(ev_tail s + ev_count s) mod BUFFER_SIZE = (Suc (ev_tail s) mod BUFFER_SIZE + (ev_count s - 1)) mod BUFFER_SIZE"
    unfolding h by (simp only: mod_add_left_eq)
  then have "evdev_inv (s\<lparr>ev_tail := (ev_tail s + 1) mod BUFFER_SIZE, ev_count := ev_count s - 1\<rparr>)"
    using inv by (auto simp: evdev_inv_def)
  with r cnt show ?thesis by (simp add: evdev_PopEvent_def evdev_contents_def)
qed

interpretation evq: bounded_fifo evdev_PushEvent evdev_PopEvent evdev_contents evdev_inv BUFFER_SIZE
proof
  fix q :: evdev and e e' ok q' es
  assume inv: "evdev_inv q"
  show "length (evdev_contents q) \<le> BUFFER_SIZE" using inv by (simp add: evdev_inv_def evdev_contents_def)
  show "evdev_PopEvent q = None" if "evdev_contents q = []"
    using arg_cong [OF that, of length] by (simp add: evdev_contents_def evdev_PopEvent_def)
  show "\<exists>q'. evdev_PopEvent q = Some (e, q') \<and> evdev_contents q' = es \<and> evdev_inv q'"
    if "evdev_contents q = e # es"
    using evdev_pop_front [OF inv that] .
  assume p: "evdev_PushEvent e q = (ok, q')"
  show "evdev_inv q'" using evdev_push_inv [OF inv, of e] p by simp
  show "ok \<and> evdev_contents q' = evdev_contents q @ [e]" if "length (evdev_contents q) < BUFFER_SIZE"
    using evdev_push_room [OF inv, of e] that p by (auto simp: evdev_contents_def evdev_PushEvent_def)
  show "\<not> ok \<and> evdev_contents q' = evdev_contents q" if "length (evdev_contents q) = BUFFER_SIZE"
    using that p by (auto simp: evdev_contents_def evdev_PushEvent_def)
qed

section \<open>Properties\<close>

text \<open>C8. From initialisation, over any interleaving of pushes and pops, the consumers of the evdev
  ring get the accepted events in push order, none lost and none twice.\<close>

theorem evdev_order:
  assumes "length (ringBuffer s) = BUFFER_SIZE"
    and "run_fifo evdev_PushEvent evdev_PopEvent ops (evdev_Init s) = (accepted, popped, s')"
  shows "accepted = popped @ evdev_contents s' \<and> evdev_inv s'"
proof -
  have "evdev_inv (evdev_Init s)" "evdev_contents (evdev_Init s) = []"
    using assms(1) by (simp_all add: evdev_inv_def evdev_Init_def evdev_contents_def)
  with evq.run_fifo_order [OF _ assms(2)] show ?thesis by simp
qed

definition demo_evdev :: evdev where
  "demo_evdev = \<lparr>ringBuffer = replicate BUFFER_SIZE (mk_event 0 0 0 0), ev_head = 7, ev_tail = 9, ev_count = 3,
     totalEvents = 0, droppedEvents = 0\<rparr>"

theorem evdev_order_witness:
  "\<exists>accepted popped s'. run_fifo evdev_PushEvent evdev_PopEvent [Push (mk_event 1 1 30 1), Pop, Pop]
      (evdev_Init demo_evdev) = (accepted, popped, s') \<and> accepted = popped @ evdev_contents s'"
proof -
  obtain accepted popped s' where r: "run_fifo evdev_PushEvent evdev_PopEvent [Push (mk_event 1 1 30 1), Pop, Pop]
      (evdev_Init demo_evdev) = (accepted, popped, s')" by (metis prod_cases3)
  have "length (ringBuffer demo_evdev) = BUFFER_SIZE" by (simp add: demo_evdev_def)
  from evdev_order [OF this r] r show ?thesis by blast
qed

end
