(* ===== verification/Input_Manager.thy ===== *)
theory Input_Manager
  imports Scheduler Bounded_Fifo
begin

text \<open>
  The input manager, \<^verbatim>\<open>kernel/hal/input/input_manager.cpp\<close>: the table of input devices and the stash of
  256 events that collects input until a compositor registers.  Drivers are function pointers that
  change a driver state \<open>'w\<close>; events for a registered compositor go to its queue in the scheduler.
\<close>

section \<open>State\<close>

datatype InputEventType = KEY_PRESS | KEY_RELEASE | MOUSE_MOVE | MOUSE_BUTTON_DOWN | MOUSE_BUTTON_UP

record HalInputEvent =
  ie_type :: InputEventType
  ie_keycode :: nat
  ie_scancode_raw :: "8 word"
  ie_ascii :: char
  ie_mouse_x :: "16 word"
  ie_mouse_y :: "16 word"
  ie_mouse_buttons :: "8 word"

record 'w IInputDevice =
  dev_name :: string
  dev_init :: "('w \<Rightarrow> 'w) option"
  dev_on_interrupt :: "('w \<Rightarrow> 'w) option"
  dev_poll_event :: "('w \<Rightarrow> HalInputEvent option \<times> 'w) option"

record 'w input_manager =
  im_devices :: "'w IInputDevice option list"
  im_deviceCount :: nat
  g_eventStash :: "OSEvent list"
  g_stashHead :: nat
  g_stashTail :: nat
  g_stashCount :: nat
  g_compositorPID :: nat

abbreviation MAX_INPUT_DEVICES :: nat where "MAX_INPUT_DEVICES \<equiv> 8"
abbreviation STASH_SIZE :: nat where "STASH_SIZE \<equiv> 256"

section \<open>Devices\<close>

text \<open>\<^verbatim>\<open>Init\<close> does not reset the compositor's id.\<close>

definition im_Init :: "'w input_manager \<Rightarrow> 'w input_manager" where
  "im_Init im = im\<lparr>im_devices := replicate MAX_INPUT_DEVICES None, im_deviceCount := 0,
     g_stashHead := 0, g_stashTail := 0, g_stashCount := 0\<rparr>"

definition RegisterDevice :: "'w IInputDevice option \<Rightarrow> 'w input_manager \<Rightarrow> 'w \<Rightarrow> 'w input_manager \<times> 'w" where
  "RegisterDevice device im w =
     (case device of
        None \<Rightarrow> (im, w)
      | Some d \<Rightarrow>
          if im_deviceCount im \<ge> MAX_INPUT_DEVICES then (im, w)
          else (im\<lparr>im_devices := (im_devices im)[im_deviceCount im := Some d], im_deviceCount := im_deviceCount im + 1\<rparr>,
                case dev_init d of Some f \<Rightarrow> f w | None \<Rightarrow> w))"

text \<open>The loop over the first \<open>deviceCount\<close> entries, which stops at the first device with an event.\<close>

fun poll_loop :: "'w IInputDevice option list \<Rightarrow> 'w \<Rightarrow> HalInputEvent option \<times> 'w" where
  "poll_loop [] w = (None, w)"
| "poll_loop (None # ds) w = poll_loop ds w"
| "poll_loop (Some d # ds) w =
     (case dev_poll_event d of
        None \<Rightarrow> poll_loop ds w
      | Some f \<Rightarrow> (case f w of (Some e, w1) \<Rightarrow> (Some e, w1) | (None, w1) \<Rightarrow> poll_loop ds w1))"

definition PollEvent :: "'w input_manager \<Rightarrow> 'w \<Rightarrow> HalInputEvent option \<times> 'w" where
  "PollEvent im w = poll_loop (take (im_deviceCount im) (im_devices im)) w"

definition GetDeviceCount :: "'w input_manager \<Rightarrow> nat" where
  "GetDeviceCount im = im_deviceCount im"

fun interrupt_loop :: "'w IInputDevice option list \<Rightarrow> 'w \<Rightarrow> 'w" where
  "interrupt_loop [] w = w"
| "interrupt_loop (None # ds) w = interrupt_loop ds w"
| "interrupt_loop (Some d # ds) w =
     interrupt_loop ds (case dev_on_interrupt d of Some f \<Rightarrow> f w | None \<Rightarrow> w)"

definition DispatchInterrupt :: "nat \<Rightarrow> 'w input_manager \<Rightarrow> 'w \<Rightarrow> 'w" where
  "DispatchInterrupt irq im w = interrupt_loop (take (im_deviceCount im) (im_devices im)) w"

section \<open>The event pipeline\<close>

definition stash_push :: "OSEvent \<Rightarrow> 'w input_manager \<Rightarrow> bool \<times> 'w input_manager" where
  "stash_push ev im =
     (if g_stashCount im < STASH_SIZE
      then (True, im\<lparr>g_eventStash := (g_eventStash im)[g_stashHead im := ev],
                     g_stashHead := (g_stashHead im + 1) mod STASH_SIZE, g_stashCount := g_stashCount im + 1\<rparr>)
      else (False, im))"

definition stash_pop :: "'w input_manager \<Rightarrow> (OSEvent \<times> 'w input_manager) option" where
  "stash_pop im =
     (if g_stashCount im > 0
      then Some (g_eventStash im ! g_stashTail im,
                 im\<lparr>g_stashTail := (g_stashTail im + 1) mod STASH_SIZE, g_stashCount := g_stashCount im - 1\<rparr>)
      else None)"

lemma stash_pop_count: "stash_pop im = Some (ev, im1) \<Longrightarrow> g_stashCount im1 < g_stashCount im"
  by (auto simp: stash_pop_def split: if_splits)

function drain_loop :: "'w input_manager \<Rightarrow> sched \<Rightarrow> ('w input_manager \<times> sched) option" where
  "drain_loop im s =
     (case stash_pop im of
        None \<Rightarrow> Some (im, s)
      | Some (ev, im1) \<Rightarrow>
          Option.bind (PushEventToTask (g_compositorPID im) ev s) (\<lambda>(ok, s1).
            if \<not> ok then Some (im1\<lparr>g_stashCount := 0\<rparr>, s1) else drain_loop im1 s1))"
  by pat_completeness auto
termination by (relation "measure (\<lambda>(im, s). g_stashCount im)") (auto dest: stash_pop_count)

declare drain_loop.simps [simp del]

definition SetCompositorPID :: "nat \<Rightarrow> 'w input_manager \<Rightarrow> sched \<Rightarrow> ('w input_manager \<times> sched) option" where
  "SetCompositorPID pid im s =
     (let im1 = im\<lparr>g_compositorPID := pid\<rparr>
      in if g_stashCount im1 > 0 \<and> g_compositorPID im1 > 0 then drain_loop im1 s else Some (im1, s))"

definition GetCompositorPID :: "'w input_manager \<Rightarrow> nat" where
  "GetCompositorPID im = g_compositorPID im"

definition im_PushEvent :: "OSEvent \<Rightarrow> 'w input_manager \<Rightarrow> sched \<Rightarrow> ('w input_manager \<times> sched) option" where
  "im_PushEvent ev im s =
     (if g_compositorPID im > 0
      then Option.bind (PushEventToTask (g_compositorPID im) ev s) (\<lambda>(ok, s1). Some (im, s1))
      else Some (snd (stash_push ev im), s))"

definition GetNextOSEvent :: "sched \<Rightarrow> (OSEvent \<times> sched) option" where
  "GetNextOSEvent s = PopEventFromCurrentTask s"

section \<open>The stash is a bounded queue\<close>

definition stash :: "'w input_manager \<Rightarrow> OSEvent list" where
  "stash im = ring (g_eventStash im) (g_stashTail im) (g_stashCount im)"

definition stash_inv :: "'w input_manager \<Rightarrow> bool" where
  "stash_inv im \<longleftrightarrow> length (g_eventStash im) = STASH_SIZE \<and> g_stashTail im < STASH_SIZE \<and>
     g_stashCount im \<le> STASH_SIZE \<and> g_stashHead im = (g_stashTail im + g_stashCount im) mod STASH_SIZE"

interpretation stashq: bounded_fifo stash_push stash_pop stash stash_inv STASH_SIZE
proof
  fix q :: "'a input_manager" and e ok q' es
  assume inv: "stash_inv q"
  then have len: "length (g_eventStash q) = 256" "g_stashTail q < 256" "g_stashCount q \<le> 256"
    "g_stashHead q = (g_stashTail q + g_stashCount q) mod 256" by (simp_all add: stash_inv_def)
  show "length (stash q) \<le> STASH_SIZE" using len by (simp add: stash_def)
  show "stash_pop q = None" if "stash q = []"
    using arg_cong [OF that, of length] by (simp add: stash_def stash_pop_def)
  show "\<exists>q'. stash_pop q = Some (e, q') \<and> stash q' = es \<and> stash_inv q'" if c: "stash q = e # es"
  proof -
    have cnt: "0 < g_stashCount q" using arg_cong [OF c, of length] by (simp add: stash_def)
    from ring_pop [OF cnt, of "g_eventStash q" "g_stashTail q"] len c have
      "g_eventStash q ! g_stashTail q = e"
      "ring (g_eventStash q) ((g_stashTail q + 1) mod 256) (g_stashCount q - 1) = es" by (simp_all add: stash_def)
    moreover have "((g_stashTail q + 1) mod 256 + (g_stashCount q - 1)) mod 256 = (g_stashTail q + g_stashCount q) mod 256"
      using cnt mod_add_left_eq [of "g_stashTail q + 1" 256 "g_stashCount q - 1"] by simp
    ultimately show ?thesis using cnt len by (simp add: stash_pop_def stash_def stash_inv_def)
  qed
  assume p: "stash_push e q = (ok, q')"
  have h: "((g_stashTail q + g_stashCount q) mod 256 + 1) mod 256 = (g_stashTail q + (g_stashCount q + 1)) mod 256"
    by (simp add: mod_Suc_eq)
  then show "stash_inv q'" using len p by (auto simp: stash_push_def stash_inv_def split: if_splits)
  show "ok \<and> stash q' = stash q @ [e]" if "length (stash q) < STASH_SIZE"
  proof -
    have lt: "g_stashCount q < 256" using that by (simp add: stash_def)
    then have "g_stashCount q < length (g_eventStash q)" using len by simp
    from ring_push [OF this, of "g_stashTail q" e] lt p len show ?thesis by (auto simp: stash_push_def stash_def)
  qed
  show "\<not> ok \<and> stash q' = stash q" if "length (stash q) = STASH_SIZE"
    using that p by (auto simp: stash_def stash_push_def)
qed

section \<open>Draining\<close>

lemma drain_loop_spec:
  fixes im :: "'w input_manager"
  assumes "stash_inv im" and "ring_ok s ts" and "find (\<lambda>y. t_id (sc_task s y) = g_compositorPID im) ts = Some x"
    and "queue_inv (sc_task s x)"
  shows "\<exists>im' s'. drain_loop im s = Some (im', s') \<and> g_stashCount im' = 0 \<and> g_compositorPID im' = g_compositorPID im \<and>
    task_events (sc_task s' x) = task_events (sc_task s x) @ take (127 - length (task_events (sc_task s x))) (stash im) \<and>
    (\<forall>y. y \<noteq> x \<longrightarrow> sc_task s' y = sc_task s y) \<and> ring_ok s' ts \<and> queue_inv (sc_task s' x) \<and>
    (length (task_events (sc_task s x)) + length (stash im) \<le> 127 \<longrightarrow> stash_inv im')"
  using assms
proof (induction "stash im" arbitrary: im s)
  case Nil
  then have e: "stash im = []" by simp
  then have "drain_loop im s = Some (im, s)" using stashq.pop_empty [OF Nil.prems(1)] by (simp add: drain_loop.simps)
  moreover have "g_stashCount im = 0" using arg_cong [OF e, of length] by (simp add: stash_def)
  ultimately show ?case using e Nil.prems by simp
next
  case (Cons e es)
  let ?q = "task_events (sc_task s x)"
  obtain im1 where p: "stash_pop im = Some (e, im1)" "stash im1 = es" "stash_inv im1"
    using stashq.pop_front [OF Cons.prems(1) Cons.hyps(2) [symmetric]] by blast
  have pid: "g_compositorPID im1 = g_compositorPID im" using p(1) by (auto simp: stash_pop_def split: if_splits)
  obtain s1 where s1: "PushEventToTask (g_compositorPID im) e s = Some (length ?q < 127, s1)"
    "\<And>y. y \<noteq> x \<Longrightarrow> sc_task s1 y = sc_task s y"
    "if length ?q < 127 then task_events (sc_task s1 x) = ?q @ [e] \<and> t_state (sc_task s1 x) \<noteq> SLEEPING
     else sc_task s1 x = sc_task s x \<and> eventDropCount s1 = add64 (eventDropCount s) 1"
    "ring_ok s1 ts" "find (\<lambda>y. t_id (sc_task s1 y) = g_compositorPID im) ts = Some x" "queue_inv (sc_task s1 x)"
    by (rule PushEventToTask_step [OF Cons.prems(2-4), where ev = e], rule that)
  show ?case
  proof (cases "length ?q < 127")
    case True
    from Cons.hyps(1) [OF p(2) [symmetric] p(3) s1(4) _ s1(6)] pid s1(5) obtain im' s' where r:
      "drain_loop im1 s1 = Some (im', s')" "g_stashCount im' = 0" "g_compositorPID im' = g_compositorPID im"
      "task_events (sc_task s' x) = task_events (sc_task s1 x) @ take (127 - length (task_events (sc_task s1 x))) (stash im1)"
      "\<forall>y. y \<noteq> x \<longrightarrow> sc_task s' y = sc_task s1 y" "ring_ok s' ts" "queue_inv (sc_task s' x)"
      "length (task_events (sc_task s1 x)) + length (stash im1) \<le> 127 \<longrightarrow> stash_inv im'" by auto
    have d: "drain_loop im s = Some (im', s')" using p(1) s1(1) True r(1) by (simp add: drain_loop.simps [of im])
    have q1: "task_events (sc_task s1 x) = ?q @ [e]" using s1(3) True by simp
    have "take (127 - length ?q) (stash im) = e # take (127 - length (?q @ [e])) es"
      using True Cons.hyps(2) by (cases "127 - length ?q") (simp_all add: Cons.hyps(2) [symmetric] diff_Suc)
    then have ev: "task_events (sc_task s' x) = ?q @ take (127 - length ?q) (stash im)" using r(4) q1 p(2) by simp
    have st: "length ?q + length (stash im) \<le> 127 \<longrightarrow> stash_inv im'" using r(8) q1 p(2) by (simp add: Cons.hyps(2) [symmetric])
    have "\<forall>y. y \<noteq> x \<longrightarrow> sc_task s' y = sc_task s y" using r(5) s1(2) by simp
    with d r(2,3,6,7) ev st show ?thesis by blast
  next
    case False
    then have "drain_loop im s = Some (im1\<lparr>g_stashCount := 0\<rparr>, s1)" using p(1) s1(1) by (simp add: drain_loop.simps [of im])
    with False s1 pid show ?thesis by (simp add: Cons.hyps(2) [symmetric])
  qed
qed

section \<open>Properties\<close>

text \<open>C14. Events that arrive before a compositor are kept in order, up to 256, and the later ones dropped; when a
  task registers as the compositor, the waiting events are appended to its queue in the order they
  arrived, as many as fit the queue's 127 places; the rest is dropped, the stash is empty, and no other
  task is touched.\<close>

theorem early_events_reach_compositor:
  fixes im :: "'w input_manager"
  assumes "stash_inv im" and "stash im = []" and "g_compositorPID im = 0"
    and "ring_ok s ts" and "find (\<lambda>y. t_id (sc_task s y) = pid) ts = Some x" and "queue_inv (sc_task s x)" and "0 < pid"
  shows "\<exists>im1 im' s'. foldl (\<lambda>r ev. Option.bind r (\<lambda>(im, s). im_PushEvent ev im s)) (Some (im, s)) evs = Some (im1, s) \<and>
    SetCompositorPID pid im1 s = Some (im', s') \<and> stash im1 = take 256 evs \<and> stash im' = [] \<and> GetCompositorPID im' = pid \<and>
    task_events (sc_task s' x) = task_events (sc_task s x) @ take (127 - length (task_events (sc_task s x))) (take 256 evs) \<and>
    (\<forall>y. y \<noteq> x \<longrightarrow> sc_task s' y = sc_task s y)"
proof -
  have push: "\<exists>im1. foldl (\<lambda>r ev. Option.bind r (\<lambda>(im, s). im_PushEvent ev im s)) (Some (im, s)) evs = Some (im1, s) \<and>
      stash_inv im1 \<and> stash im1 = take 256 evs \<and> g_compositorPID im1 = 0"
  proof (induction evs rule: rev_induct)
    case Nil
    then show ?case using assms(1-3) by simp
  next
    case (snoc e evs)
    then obtain im1 where i: "foldl (\<lambda>r ev. Option.bind r (\<lambda>(im, s). im_PushEvent ev im s)) (Some (im, s)) evs = Some (im1, s)"
      "stash_inv im1" "stash im1 = take 256 evs" "g_compositorPID im1 = 0" by blast
    obtain ok im2 where p: "stash_push e im1 = (ok, im2)" by (rule prod.exhaust)
    have "im_PushEvent e im1 s = Some (im2, s)" using i(4) p by (simp add: im_PushEvent_def)
    moreover have "stash_inv im2" by (rule stashq.push_inv [OF i(2) p])
    moreover have "stash im2 = take 256 (evs @ [e])"
      using stashq.push_room [OF i(2) _ p] stashq.push_full [OF i(2) _ p] i(3) by (cases "length evs < 256") auto
    moreover have "g_compositorPID im2 = 0" using i(4) p by (auto simp: stash_push_def split: if_splits)
    ultimately show ?case using i(1) by simp
  qed
  then obtain im1 where i: "foldl (\<lambda>r ev. Option.bind r (\<lambda>(im, s). im_PushEvent ev im s)) (Some (im, s)) evs = Some (im1, s)"
    "stash_inv im1" "stash im1 = take 256 evs" by blast
  let ?im = "im1\<lparr>g_compositorPID := pid\<rparr>"
  have inv: "stash_inv ?im" "stash ?im = stash im1" using i(2) by (simp_all add: stash_inv_def stash_def)
  have f: "find (\<lambda>y. t_id (sc_task s y) = g_compositorPID ?im) ts = Some x" using assms(5) by simp
  from drain_loop_spec [OF inv(1) assms(4) f assms(6)] obtain im' s' where d:
    "drain_loop ?im s = Some (im', s')" "g_stashCount im' = 0" "g_compositorPID im' = pid"
    "task_events (sc_task s' x) = task_events (sc_task s x) @ take (127 - length (task_events (sc_task s x))) (stash im1)"
    "\<forall>y. y \<noteq> x \<longrightarrow> sc_task s' y = sc_task s y" using inv(2) by auto
  have "SetCompositorPID pid im1 s = Some (im', s') \<or> SetCompositorPID pid im1 s = Some (?im, s) \<and> g_stashCount im1 = 0"
    using d(1) assms(7) by (simp add: SetCompositorPID_def Let_def)
  then show ?thesis
  proof (elim disjE conjE)
    assume "SetCompositorPID pid im1 s = Some (im', s')"
    with i d show ?thesis by (auto simp: stash_def GetCompositorPID_def)
  next
    assume a: "SetCompositorPID pid im1 s = Some (?im, s)" "g_stashCount im1 = 0"
    then have "stash im1 = []" by (simp add: stash_def)
    with a i(1,3) show ?thesis by (intro exI [of _ im1] exI [of _ ?im] exI [of _ s]) (simp add: GetCompositorPID_def stash_def)
  qed
qed

definition demo_event :: OSEvent where
  "demo_event = \<lparr>os_type = 3, os_dx = 0, os_dy = 0, os_buttons = 0, os_scancode = 30, os_ascii = 97\<rparr>"

definition demo_im :: "unit input_manager" where
  "demo_im = \<lparr>im_devices = replicate 8 None, im_deviceCount = 0, g_eventStash = replicate 256 demo_event,
     g_stashHead = 0, g_stashTail = 0, g_stashCount = 0, g_compositorPID = 0\<rparr>"

theorem early_events_reach_compositor_witness:
  "\<exists>im1 im' s'. im_PushEvent demo_event demo_im (demo_sched 4096 SLEEPING) = Some (im1, demo_sched 4096 SLEEPING) \<and>
     SetCompositorPID 2 im1 (demo_sched 4096 SLEEPING) = Some (im', s') \<and> task_events (sc_task s' 12288) = [demo_event]"
proof -
  let ?s = "demo_sched 4096 SLEEPING"
  have i: "stash_inv demo_im" "stash demo_im = []" "g_compositorPID demo_im = 0"
    by (simp_all add: stash_inv_def stash_def demo_im_def)
  have q: "queue_inv (sc_task ?s 12288)" "task_events (sc_task ?s 12288) = []"
    by (simp_all add: queue_inv_def demo_sched_def demo_task_def zero_task_def task_events_def queue_len_def)
  have f: "find (\<lambda>y. t_id (sc_task ?s y) = 2) [4096, 8192, 12288] = Some 12288"
    by (simp add: demo_sched_def demo_task_def)
  from early_events_reach_compositor [OF i demo_ring f q(1), of "[demo_event]"] q(2) show ?thesis by auto
qed

end
