(* ===== verification/KStd.thy ===== *)
theory KStd
  imports Prelude
begin

text \<open>
  The C library routines the kernel carries itself, \<^verbatim>\<open>kernel/utils/std.cpp\<close>.  A C string is the list
  of its characters before the terminating NUL; the memory routines work on a byte memory, loop by
  loop, so that overlapping ranges behave as they do in the code.
\<close>

section \<open>Strings\<close>

definition uchar :: "char \<Rightarrow> int" where
  "uchar c = of_char c"

text \<open>The byte at the front of a string: the NUL when it is exhausted.\<close>

definition byte0 :: "string \<Rightarrow> int" where
  "byte0 s = (case s of [] \<Rightarrow> 0 | c # _ \<Rightarrow> uchar c)"

fun kstrlen_loop :: "string \<Rightarrow> nat \<Rightarrow> nat" where
  "kstrlen_loop [] len = len"
| "kstrlen_loop (c # cs) len = kstrlen_loop cs (len + 1)"

definition kstrlen :: "string \<Rightarrow> nat" where
  "kstrlen s = kstrlen_loop s 0"

fun kstrcmp :: "string \<Rightarrow> string \<Rightarrow> int" where
  "kstrcmp (c # s1) (d # s2) = (if c = d then kstrcmp s1 s2 else uchar c - uchar d)"
| "kstrcmp s1 s2 = byte0 s1 - byte0 s2"

fun kstrncmp :: "string \<Rightarrow> string \<Rightarrow> nat \<Rightarrow> int" where
  "kstrncmp s1 s2 0 = 0"
| "kstrncmp (c # s1) (d # s2) (Suc n) = (if c = d then kstrncmp s1 s2 n else uchar c - uchar d)"
| "kstrncmp s1 s2 (Suc n) = byte0 s1 - byte0 s2"

text \<open>\<^verbatim>\<open>char\<close> is signed on this target: the comparison of \<^verbatim>\<open>kstricmp\<close> is of signed bytes.\<close>

definition schar :: "char \<Rightarrow> int" where
  "schar c = (if uchar c < 128 then uchar c else uchar c - 256)"

definition to_lower :: "int \<Rightarrow> int" where
  "to_lower c = (if c \<ge> 65 \<and> c \<le> 90 then c - 65 + 97 else c)"

definition sbyte0 :: "string \<Rightarrow> int" where
  "sbyte0 s = (case s of [] \<Rightarrow> 0 | c # _ \<Rightarrow> schar c)"

fun kstricmp :: "string \<Rightarrow> string \<Rightarrow> int" where
  "kstricmp (c # s1) (d # s2) =
     (if to_lower (schar c) \<noteq> to_lower (schar d) then to_lower (schar c) - to_lower (schar d)
      else kstricmp s1 s2)"
| "kstricmp s1 s2 = to_lower (sbyte0 s1) - to_lower (sbyte0 s2)"

section \<open>Memory\<close>

type_synonym bytes = "addr \<Rightarrow> u8"

fun kmemcmp_loop :: "bytes \<Rightarrow> addr \<Rightarrow> addr \<Rightarrow> nat \<Rightarrow> nat \<Rightarrow> int" where
  "kmemcmp_loop m p1 p2 0 i = 0"
| "kmemcmp_loop m p1 p2 (Suc k) i =
     (if m (p1 + i) \<noteq> m (p2 + i) then int (unat (m (p1 + i))) - int (unat (m (p2 + i)))
      else kmemcmp_loop m p1 p2 k (i + 1))"

definition kmemcmp :: "bytes \<Rightarrow> addr \<Rightarrow> addr \<Rightarrow> nat \<Rightarrow> int" where
  "kmemcmp m s1 s2 n = kmemcmp_loop m s1 s2 n 0"

text \<open>\<^verbatim>\<open>for (i = 0; i < n; i++) d[i] = s[i];\<close> with \<open>k\<close> iterations left.\<close>

fun copy_up :: "nat \<Rightarrow> nat \<Rightarrow> addr \<Rightarrow> addr \<Rightarrow> bytes \<Rightarrow> bytes" where
  "copy_up 0 i d s m = m"
| "copy_up (Suc k) i d s m = copy_up k (i + 1) d s (m(d + i := m (s + i)))"

text \<open>\<^verbatim>\<open>for (i = n; i > 0; i--) d[i - 1] = s[i - 1];\<close>\<close>

fun copy_down :: "nat \<Rightarrow> addr \<Rightarrow> addr \<Rightarrow> bytes \<Rightarrow> bytes" where
  "copy_down 0 d s m = m"
| "copy_down (Suc k) d s m = copy_down k d s (m(d + k := m (s + k)))"

definition kmemcpy :: "bytes \<Rightarrow> addr \<Rightarrow> addr \<Rightarrow> nat \<Rightarrow> bytes" where
  "kmemcpy m dest src n = copy_up n 0 dest src m"

fun kmemset :: "bytes \<Rightarrow> addr \<Rightarrow> int \<Rightarrow> nat \<Rightarrow> bytes" where
  "kmemset m p c 0 = m"
| "kmemset m p c (Suc n) = kmemset (m(p := word_of_int c)) (p + 1) c n"

definition memmove :: "bytes \<Rightarrow> addr \<Rightarrow> addr \<Rightarrow> nat \<Rightarrow> bytes" where
  "memmove m dest src n =
     (if dest = src \<or> n = 0 then m
      else if dest < src then copy_up n 0 dest src m
      else copy_down n dest src m)"

section \<open>Numbers to strings\<close>

abbreviation digit_chars :: string where
  "digit_chars \<equiv> ''0123456789ABCDEFGHIJKLMNOPQRSTUVWXYZ''"

text \<open>The digits in the order the \<^verbatim>\<open>do\<close> loop writes them, least significant first.\<close>

function digits_loop :: "nat \<Rightarrow> nat \<Rightarrow> string" where
  "digits_loop base v =
     (if base < 2 then []
      else let v' = v div base; c = digit_chars ! (v - v' * base)
           in if v' = 0 then [c] else c # digits_loop base v')"
  by pat_completeness auto
termination
  by (relation "measure snd") (auto simp: div_eq_0_iff)

declare digits_loop.simps [simp del]

text \<open>The in-place reversal of the positions \<open>i .. j\<close>.\<close>

function reverse_loop :: "string \<Rightarrow> nat \<Rightarrow> nat \<Rightarrow> string" where
  "reverse_loop xs i j = (if i < j then reverse_loop (xs[j := xs ! i, i := xs ! j]) (i + 1) (j - 1) else xs)"
  by pat_completeness auto
termination
  by (relation "measure (\<lambda>(xs, i, j). j - i)") auto

declare reverse_loop.simps [simp del]

text \<open>Negating the smallest \<^verbatim>\<open>int\<close> is undefined behaviour: \<open>None\<close>.\<close>

definition kitoa :: "int \<Rightarrow> int \<Rightarrow> string option" where
  "kitoa v base =
     (if base < 2 \<or> base > 36 then Some ''''
      else if v < 0 \<and> - v > 2147483647 then None
      else let sign = (if v < 0 \<and> base = 10 then ''-'' else '''');
               s = sign @ digits_loop (nat base) (nat \<bar>v\<bar>)
           in Some (reverse_loop s (length sign) (length s - 1)))"

section \<open>What the string routines compute\<close>

lemma kstrlen_loop_eq: "kstrlen_loop s n = n + length s"
  by (induction s arbitrary: n) simp_all

lemma kstrlen_length [simp]: "kstrlen s = length s"
  by (simp add: kstrlen_def kstrlen_loop_eq)

lemma uchar_inj [simp]: "uchar c = uchar d \<longleftrightarrow> c = d"
  by (simp add: uchar_def)

lemma uchar_pos: "c \<noteq> CHR 0x00 \<Longrightarrow> 0 < uchar c"
proof -
  assume "c \<noteq> CHR 0x00"
  then have "uchar c \<noteq> uchar (CHR 0x00)" unfolding uchar_inj .
  moreover have "uchar (CHR 0x00) = 0" by (simp add: uchar_def)
  moreover have "0 \<le> uchar c" by (simp add: uchar_def of_char_def)
  ultimately show ?thesis by linarith
qed

definition c_string :: "string \<Rightarrow> bool" where
  "c_string s \<longleftrightarrow> CHR 0x00 \<notin> set s"

lemma c_string_Cons [simp]: "c_string (c # s) \<longleftrightarrow> c \<noteq> CHR 0x00 \<and> c_string s"
  by (auto simp: c_string_def)

lemma byte0_eq_0 [simp]: "c_string s \<Longrightarrow> byte0 s = 0 \<longleftrightarrow> s = []"
proof (cases s)
  case (Cons c cs)
  assume "c_string s"
  with Cons have "0 < uchar c" by (intro uchar_pos) simp
  with Cons show ?thesis by (simp add: byte0_def)
qed (simp add: byte0_def)

lemma byte0_Nil [simp]: "byte0 [] = 0"
  by (simp add: byte0_def)

lemma kstrcmp_eq_0: "c_string s1 \<Longrightarrow> c_string s2 \<Longrightarrow> kstrcmp s1 s2 = 0 \<longleftrightarrow> s1 = s2"
  by (induction s1 s2 rule: kstrcmp.induct) auto

lemma kstrncmp_eq_0:
  "c_string s1 \<Longrightarrow> c_string s2 \<Longrightarrow> kstrncmp s1 s2 n = 0 \<longleftrightarrow> take n s1 = take n s2"
  by (induction s1 s2 n rule: kstrncmp.induct) (auto simp: take_Suc)

section \<open>What the memory routines compute\<close>

lemma copy_up_spec:
  "(\<And>j k. i \<le> j \<Longrightarrow> j < k \<Longrightarrow> k < i + n \<Longrightarrow> d + j \<noteq> s + k) \<Longrightarrow>
   copy_up n i d s m x = (if d + i \<le> x \<and> x < d + i + n then m (s + (x - d)) else m x)"
proof (induction n arbitrary: i m)
  case 0
  then show ?case by auto
next
  case (Suc n)
  let ?m = "m(d + i := m (s + i))"
  have "copy_up n (i + 1) d s ?m x = (if d + (i + 1) \<le> x \<and> x < d + (i + 1) + n then ?m (s + (x - d)) else ?m x)"
    by (rule Suc.IH) (use Suc.prems in auto)
  moreover have "?m (s + (x - d)) = m (s + (x - d))" if "d + (i + 1) \<le> x" "x < d + (i + 1) + n"
  proof -
    have "i < x - d" "x - d < i + Suc n" using that by linarith+
    then have "s + (x - d) \<noteq> d + i" using Suc.prems [of i "x - d"] by simp
    then show ?thesis by simp
  qed
  ultimately show ?case by auto
qed

lemma copy_down_spec:
  "(\<And>j k. j < k \<Longrightarrow> k < n \<Longrightarrow> d + k \<noteq> s + j) \<Longrightarrow>
   copy_down n d s m x = (if d \<le> x \<and> x < d + n then m (s + (x - d)) else m x)"
proof (induction n arbitrary: m)
  case 0
  then show ?case by auto
next
  case (Suc n)
  let ?m = "m(d + n := m (s + n))"
  have "copy_down n d s ?m x = (if d \<le> x \<and> x < d + n then ?m (s + (x - d)) else ?m x)"
    by (rule Suc.IH) (use Suc.prems in auto)
  moreover have "?m (s + (x - d)) = m (s + (x - d))" if "d \<le> x" "x < d + n"
  proof -
    have "x - d < n" using that by linarith
    then have "s + (x - d) \<noteq> d + n" using Suc.prems [of "x - d" n] by simp
    then show ?thesis by simp
  qed
  ultimately show ?case by auto
qed

lemma kmemset_spec: "kmemset m p c n x = (if p \<le> x \<and> x < p + n then word_of_int c else m x)"
  by (induction n arbitrary: m p) auto

section \<open>What kitoa computes\<close>

definition digit_val :: "char \<Rightarrow> nat" where
  "digit_val c = length (takeWhile (\<lambda>d. d \<noteq> c) digit_chars)"

fun lsd_value :: "nat \<Rightarrow> string \<Rightarrow> nat" where
  "lsd_value base [] = 0"
| "lsd_value base (c # cs) = digit_val c + base * lsd_value base cs"

text \<open>The number a decimal string with an optional sign denotes.\<close>

definition parse_dec :: "string \<Rightarrow> int" where
  "parse_dec s = (if s \<noteq> [] \<and> hd s = CHR ''-'' then - int (lsd_value 10 (rev (tl s))) else int (lsd_value 10 (rev s)))"

lemma length_takeWhile_neq: "distinct xs \<Longrightarrow> k < length xs \<Longrightarrow> length (takeWhile (\<lambda>y. y \<noteq> xs ! k) xs) = k"
proof (induction xs arbitrary: k)
  case Nil
  then show ?case by simp
next
  case (Cons x xs)
  then show ?case by (cases k) auto
qed

lemma digit_val_nth: "k < 36 \<Longrightarrow> digit_val (digit_chars ! k) = k"
  unfolding digit_val_def by (rule length_takeWhile_neq) simp_all

lemma digits_loop_step:
  "2 \<le> base \<Longrightarrow> digits_loop base v = (if v div base = 0 then [digit_chars ! (v mod base)]
     else digit_chars ! (v mod base) # digits_loop base (v div base))"
  by (subst digits_loop.simps) (auto simp: Let_def minus_div_mult_eq_mod div_eq_0_iff)

lemma digit_index: "2 \<le> base \<Longrightarrow> base \<le> 36 \<Longrightarrow> v mod base < 36" for v base :: nat
  using mod_less_divisor [of base v] by linarith

lemma div_smaller: "2 \<le> base \<Longrightarrow> v div base \<noteq> 0 \<Longrightarrow> v div base < v" for v base :: nat
  by (intro div_less_dividend) (auto intro: gr0I)

lemma digits_loop_value:
  assumes "2 \<le> base" and "base \<le> 36"
  shows "lsd_value base (digits_loop base v) = v"
proof (induction v rule: less_induct)
  case (less v)
  have dv: "digit_val (digit_chars ! (v mod base)) = v mod base"
    by (rule digit_val_nth [OF digit_index [OF assms]])
  show ?case
  proof (cases "v div base = 0")
    case True
    then have "v mod base = v" by (auto simp: div_eq_0_iff)
    with dv show ?thesis unfolding trans [OF digits_loop_step [OF assms(1), of v] if_P [OF True]] by simp
  next
    case False
    with less.IH [OF div_smaller [OF assms(1) False]] dv show ?thesis
      unfolding trans [OF digits_loop_step [OF assms(1), of v] if_not_P [OF False]] by simp
  qed
qed

lemma digits_loop_chars:
  assumes "2 \<le> base" and "base \<le> 36"
  shows "digits_loop base v \<noteq> [] \<and> set (digits_loop base v) \<subseteq> set digit_chars"
proof (induction v rule: less_induct)
  case (less v)
  have c: "digit_chars ! (v mod base) \<in> set digit_chars"
  proof (rule nth_mem)
    have "length digit_chars = 36" by simp
    then show "v mod base < length digit_chars" using digit_index [OF assms, of v] by (simp only:)
  qed
  show ?case
  proof (cases "v div base = 0")
    case True
    with c show ?thesis unfolding trans [OF digits_loop_step [OF assms(1), of v] if_P [OF True]]
      by (simp only: set_simps insert_subset empty_subsetI list.distinct not_False_eq_True simp_thms)
  next
    case False
    with less.IH [OF div_smaller [OF assms(1) False]] c show ?thesis
      unfolding trans [OF digits_loop_step [OF assms(1), of v] if_not_P [OF False]]
      by (simp only: set_simps insert_subset empty_subsetI list.distinct not_False_eq_True simp_thms)
  qed
qed

lemma reverse_loop_spec:
  "i \<le> j + 1 \<Longrightarrow> j < length xs \<Longrightarrow>
   reverse_loop xs i j = take i xs @ rev (take (j + 1 - i) (drop i xs)) @ drop (j + 1) xs"
proof (induction xs i j rule: reverse_loop.induct)
  case (1 xs i j)
  show ?case
  proof (cases "i < j")
    case False
    with 1 have "j + 1 - i \<le> 1" by simp
    then have "rev (take (j + 1 - i) (drop i xs)) = take (j + 1 - i) (drop i xs)"
      by (cases "drop i xs") (auto simp: le_Suc_eq)
    moreover have "drop (j + 1) xs = drop (j + 1 - i) (drop i xs)" using 1(2) by simp
    ultimately show ?thesis using False by (subst reverse_loop.simps) (simp only: append_take_drop_id if_False)
  next
    case True
    let ?ys = "xs[j := xs ! i, i := xs ! j]"
    have ih: "reverse_loop ?ys (i + 1) (j - 1) =
        take (i + 1) ?ys @ rev (take (j - 1 + 1 - (i + 1)) (drop (i + 1) ?ys)) @ drop (j - 1 + 1) ?ys"
      using 1 True by (intro 1(1)) auto
    have j: "j - 1 + 1 = j" using True by simp
    have "take (i + 1) ?ys = take i xs @ [xs ! j]"
      using True 1(3) by (simp add: take_Suc_conv_app_nth)
    moreover have "drop j ?ys = xs ! i # drop (j + 1) xs"
      using True 1(3) by (simp add: drop_update_swap Cons_nth_drop_Suc [symmetric])
    moreover have "take (j - (i + 1)) (drop (i + 1) ?ys) = take (j - (i + 1)) (drop (i + 1) xs)"
      using True by (simp add: drop_update_swap take_update_swap list_update_beyond)
    moreover have "take (j + 1 - i) (drop i xs) = xs ! i # take (j - (i + 1)) (drop (i + 1) xs) @ [xs ! j]"
    proof -
      have "drop i xs = xs ! i # drop (Suc i) xs" using True 1(3) by (simp add: Cons_nth_drop_Suc)
      moreover have "take (Suc (j - Suc i)) (drop (Suc i) xs) = take (j - Suc i) (drop (Suc i) xs) @ [xs ! j]"
        using True 1(3) by (simp add: take_Suc_conv_app_nth)
      moreover have "j + 1 - i = Suc (Suc (j - Suc i))" using True by simp
      ultimately show ?thesis by simp
    qed
    ultimately show ?thesis using True ih by (subst reverse_loop.simps) (simp add: j)
  qed
qed

section \<open>Properties\<close>

text \<open>\<^verbatim>\<open>memmove\<close> copies correctly whatever the overlap of source and destination: every byte of the
  destination holds what the source held before the call, every other byte is unchanged.\<close>

theorem memmove_correct:
  "memmove m dest src n x = (if dest \<le> x \<and> x < dest + n then m (src + (x - dest)) else m x)"
proof -
  consider "dest = src \<or> n = 0" | "dest < src" "n \<noteq> 0" | "src < dest" "n \<noteq> 0" by linarith
  then show ?thesis
  proof cases
    case 1
    then show ?thesis by (auto simp: memmove_def)
  next
    case 2
    then have "copy_up n 0 dest src m x = (if dest + 0 \<le> x \<and> x < dest + 0 + n then m (src + (x - dest)) else m x)"
      by (intro copy_up_spec) linarith
    with 2 show ?thesis by (simp add: memmove_def)
  next
    case 3
    then have "copy_down n dest src m x = (if dest \<le> x \<and> x < dest + n then m (src + (x - dest)) else m x)"
      by (intro copy_down_spec) linarith
    with 3 show ?thesis by (simp add: memmove_def)
  qed
qed

text \<open>\<^verbatim>\<open>kitoa\<close> in base 10 round trips: for every \<^verbatim>\<open>int\<close> but the smallest, reading the string back
  gives the number.\<close>

theorem kitoa_decimal_roundtrip:
  assumes "- 2147483648 < v" and "v < 2147483648"
  shows "\<exists>s. kitoa v 10 = Some s \<and> parse_dec s = v"
proof -
  let ?d = "digits_loop 10 (nat \<bar>v\<bar>)" and ?sign = "if v < 0 then ''-'' else ''''"
  have d: "?d \<noteq> []" "set ?d \<subseteq> set digit_chars" using digits_loop_chars [of 10] by auto
  have val: "lsd_value 10 ?d = nat \<bar>v\<bar>" by (rule digits_loop_value) simp_all
  have "reverse_loop (?sign @ ?d) (length ?sign) (length (?sign @ ?d) - 1) = ?sign @ rev ?d"
    using d(1) by (subst reverse_loop_spec) (auto simp: Suc_diff_Suc)
  then have k: "kitoa v 10 = Some (?sign @ rev ?d)" using assms by (simp add: kitoa_def Let_def)
  have "CHR ''-'' \<notin> set digit_chars" by simp
  then have "hd (rev ?d) \<noteq> CHR ''-''" using d hd_in_set [of "rev ?d"] by auto
  then have "parse_dec (?sign @ rev ?d) = v" using val d(1) by (cases "v < 0") (auto simp: parse_dec_def)
  with k show ?thesis by blast
qed

theorem kitoa_decimal_roundtrip_witness: "\<exists>s. kitoa (- 407) 10 = Some s \<and> parse_dec s = - 407"
  by (rule kitoa_decimal_roundtrip) simp_all

end
