(* ===== verification/VFS.thy ===== *)
theory VFS
  imports KHeap KStd
begin

text \<open>
  The virtual file system, \<^verbatim>\<open>kernel/fs/vfs.cpp\<close>: nodes linked by \<^verbatim>\<open>parent\<close>, \<^verbatim>\<open>firstChild\<close> and
  \<^verbatim>\<open>nextSibling\<close> pointers in a store, allocated from the kernel heap; file contents are bytes of the
  kernel's memory.  Sibling loops are partial functions (a cyclic list would hang the kernel), and the
  lemmas show that they return on well-formed directories.  Function pointers are addresses; calling
  one is an argument of the model, since no file system of the tree installs any.
\<close>

section \<open>State\<close>

datatype NodeType = FILE | DIRECTORY

record VFSNode =
  n_name :: string
  n_type :: NodeType
  n_size :: nat
  n_data :: addr
  n_parent :: addr
  firstChild :: addr
  nextSibling :: addr
  n_read :: addr
  n_write :: addr

record vfs =
  vn :: "addr \<Rightarrow> VFSNode"
  rootNode :: addr
  vf_heap :: kheap
  vf_bytes :: bytes

record FileStat =
  st_name :: string
  st_type :: NodeType
  st_size :: nat
  st_created :: nat
  st_modified :: nat
  st_accessed :: nat
  st_mode :: nat

text \<open>\<^verbatim>\<open>sizeof(VFSNode)\<close>\<close>

abbreviation NODE_SIZE :: nat where "NODE_SIZE \<equiv> 120"

definition zero_node :: VFSNode where
  "zero_node = \<lparr>n_name = [], n_type = FILE, n_size = 0, n_data = 0, n_parent = 0, firstChild = 0,
     nextSibling = 0, n_read = 0, n_write = 0\<rparr>"

definition upd_node :: "addr \<Rightarrow> (VFSNode \<Rightarrow> VFSNode) \<Rightarrow> vfs \<Rightarrow> vfs" where
  "upd_node a f s = s\<lparr>vn := (vn s)(a := f (vn s a))\<rparr>"

section \<open>Lookup\<close>

definition vfs_Init :: "vfs \<Rightarrow> vfs" where
  "vfs_Init s = s\<lparr>rootNode := 0\<rparr>"

definition SetRoot :: "addr \<Rightarrow> vfs \<Rightarrow> vfs" where
  "SetRoot root s = s\<lparr>rootNode := root\<rparr>"

partial_function (option) find_sibling :: "vfs \<Rightarrow> string \<Rightarrow> addr \<Rightarrow> addr option" where
  "find_sibling s name child =
     (if child = 0 then Some 0
      else if kstrcmp (n_name (vn s child)) name = 0 then Some child
      else find_sibling s name (nextSibling (vn s child)))"

definition FindChild :: "vfs \<Rightarrow> addr \<Rightarrow> string \<Rightarrow> addr option" where
  "FindChild s parent name =
     (if parent = 0 \<or> n_type (vn s parent) \<noteq> DIRECTORY then Some 0
      else find_sibling s name (firstChild (vn s parent)))"

fun open_loop :: "vfs \<Rightarrow> addr \<Rightarrow> string \<Rightarrow> string \<Rightarrow> addr option" where
  "open_loop s current component [] =
     (if component \<noteq> [] then FindChild s current component else Some current)"
| "open_loop s current component (c # path) =
     (if c = CHR ''/''
      then if component \<noteq> []
           then Option.bind (FindChild s current component) (\<lambda>n.
                  if n = 0 then Some 0 else open_loop s n [] path)
           else open_loop s current component path
      else open_loop s current (if length component < 63 then component @ [c] else component) path)"

definition skip_slash :: "string \<Rightarrow> string" where
  "skip_slash path = (case path of c # cs \<Rightarrow> if c = CHR ''/'' then cs else path | [] \<Rightarrow> [])"

definition vfs_Open :: "vfs \<Rightarrow> string \<Rightarrow> addr option" where
  "vfs_Open s path =
     (if rootNode s = 0 then Some 0
      else if kstrcmp path ''/'' = 0 then Some (rootNode s)
      else open_loop s (rootNode s) [] (skip_slash path))"

section \<open>Reading and writing\<close>

text \<open>The bytes delivered to the buffer; \<open>call\<close> is what a non-null read pointer does.\<close>

definition vfs_Read :: "(addr \<Rightarrow> addr \<Rightarrow> nat \<Rightarrow> nat \<Rightarrow> u8 list) \<Rightarrow> vfs \<Rightarrow> addr \<Rightarrow> nat \<Rightarrow> nat \<Rightarrow> u8 list" where
  "vfs_Read call s node offset sz =
     (if node = 0 then []
      else let n = vn s node in
        if n_type n \<noteq> FILE then []
        else if n_read n \<noteq> 0 then call (n_read n) node offset sz
        else if n_data n = 0 then []
        else if offset \<ge> n_size n then []
        else let available = n_size n - offset; toRead = (if sz < available then sz else available)
             in map (\<lambda>i. vf_bytes s (n_data n + offset + i)) [0..<toRead])"

definition vfs_Write :: "(addr \<Rightarrow> addr \<Rightarrow> nat \<Rightarrow> u8 list \<Rightarrow> nat) \<Rightarrow> vfs \<Rightarrow> addr \<Rightarrow> nat \<Rightarrow> u8 list \<Rightarrow> nat" where
  "vfs_Write call s node offset buffer =
     (if node = 0 then 0
      else if n_type (vn s node) \<noteq> FILE then 0
      else if n_write (vn s node) \<noteq> 0 then call (n_write (vn s node)) node offset buffer
      else 0)"

section \<open>Creating and removing\<close>

text \<open>The common part of \<^verbatim>\<open>CreateFile\<close> and \<^verbatim>\<open>Mkdir\<close>: they differ in the type of the node.\<close>

definition create_node :: "NodeType \<Rightarrow> vfs \<Rightarrow> string \<Rightarrow> (addr \<times> vfs) option" where
  "create_node ty s path0 =
     (if rootNode s = 0 then Some (0, s)
      else let path = skip_slash path0
           in if CHR ''/'' \<in> set path then Some (0, s)
              else Option.bind (FindChild s (rootNode s) path) (\<lambda>existing.
                if existing \<noteq> 0 then Some (0, s)
                else Option.bind (kmalloc (vf_heap s) NODE_SIZE) (\<lambda>(newNode, h).
                  let s1 = s\<lparr>vf_heap := h\<rparr>
                  in if newNode = 0 then Some (0, s1)
                     else let s2 = upd_node newNode (\<lambda>_. zero_node\<lparr>n_name := copy_name 63 path, n_type := ty,
                                     n_size := 0, n_data := 0, n_parent := rootNode s,
                                     nextSibling := firstChild (vn s (rootNode s))\<rparr>) s1
                          in Some (newNode, upd_node (rootNode s2) (\<lambda>n. n\<lparr>firstChild := newNode\<rparr>) s2))))"

definition CreateFile :: "vfs \<Rightarrow> string \<Rightarrow> (addr \<times> vfs) option" where
  "CreateFile s path = create_node FILE s path"

definition Mkdir :: "vfs \<Rightarrow> string \<Rightarrow> (addr \<times> vfs) option" where
  "Mkdir s path = create_node DIRECTORY s path"

partial_function (option) find_prev :: "vfs \<Rightarrow> addr \<Rightarrow> addr \<Rightarrow> addr option" where
  "find_prev s node prev =
     (if prev = 0 \<or> nextSibling (vn s prev) = node then Some prev
      else find_prev s node (nextSibling (vn s prev)))"

definition unlink_node :: "vfs \<Rightarrow> addr \<Rightarrow> addr \<Rightarrow> vfs option" where
  "unlink_node s parent node =
     (if firstChild (vn s parent) = node
      then Some (upd_node parent (\<lambda>p. p\<lparr>firstChild := nextSibling (vn s node)\<rparr>) s)
      else Option.bind (find_prev s node (firstChild (vn s parent))) (\<lambda>prev.
             Some (if prev \<noteq> 0 then upd_node prev (\<lambda>p. p\<lparr>nextSibling := nextSibling (vn s node)\<rparr>) s else s)))"

definition vfs_Delete :: "vfs \<Rightarrow> string \<Rightarrow> (bool \<times> vfs) option" where
  "vfs_Delete s path =
     Option.bind (vfs_Open s path) (\<lambda>node.
       if node = 0 \<or> node = rootNode s then Some (False, s)
       else if n_type (vn s node) \<noteq> FILE then Some (False, s)
       else if n_parent (vn s node) = 0 then Some (False, s)
       else Option.bind (unlink_node s (n_parent (vn s node)) node) (\<lambda>s1.
              let h1 = (if n_data (vn s1 node) \<noteq> 0 then kfree (vf_heap s1) (n_data (vn s1 node)) else vf_heap s1)
              in Some (True, s1\<lparr>vf_heap := kfree h1 node\<rparr>)))"

definition Rmdir :: "vfs \<Rightarrow> string \<Rightarrow> (bool \<times> vfs) option" where
  "Rmdir s path =
     Option.bind (vfs_Open s path) (\<lambda>node.
       if node = 0 \<or> node = rootNode s then Some (False, s)
       else if n_type (vn s node) \<noteq> DIRECTORY then Some (False, s)
       else if firstChild (vn s node) \<noteq> 0 then Some (False, s)
       else if n_parent (vn s node) = 0 then Some (False, s)
       else Option.bind (unlink_node s (n_parent (vn s node)) node) (\<lambda>s1.
              Some (True, s1\<lparr>vf_heap := kfree (vf_heap s1) node\<rparr>)))"

definition Rename :: "vfs \<Rightarrow> string \<Rightarrow> string \<Rightarrow> (bool \<times> vfs) option" where
  "Rename s oldpath newpath =
     Option.bind (vfs_Open s oldpath) (\<lambda>node.
       if node = 0 \<or> node = rootNode s then Some (False, s)
       else Some (True, upd_node node (\<lambda>n. n\<lparr>n_name := copy_name 63 (skip_slash newpath)\<rparr>) s))"

definition vfs_Stat :: "vfs \<Rightarrow> string \<Rightarrow> FileStat option option" where
  "vfs_Stat s path =
     Option.bind (vfs_Open s path) (\<lambda>node.
       if node = 0 then Some None
       else Some (Some \<lparr>st_name = copy_name 63 (n_name (vn s node)), st_type = n_type (vn s node),
              st_size = n_size (vn s node), st_created = 0, st_modified = 0, st_accessed = 0, st_mode = 493\<rparr>))"

partial_function (option) list_siblings :: "vfs \<Rightarrow> addr \<Rightarrow> addr list option" where
  "list_siblings s child =
     (if child = 0 then Some []
      else Option.bind (list_siblings s (nextSibling (vn s child))) (\<lambda>xs. Some (child # xs)))"

text \<open>\<^verbatim>\<open>ListDir\<close>: the array of children (empty for its null results) and the heap block that holds it.\<close>

definition ListDir :: "vfs \<Rightarrow> addr \<Rightarrow> (addr list \<times> vfs) option" where
  "ListDir s dir =
     (if dir = 0 \<or> n_type (vn s dir) \<noteq> DIRECTORY then Some ([], s)
      else Option.bind (list_siblings s (firstChild (vn s dir))) (\<lambda>xs.
        if xs = [] then Some ([], s)
        else Option.bind (kmalloc (vf_heap s) (length xs * 8)) (\<lambda>(p, h).
               Some (if p = 0 then [] else xs, s\<lparr>vf_heap := h\<rparr>))))"

section \<open>Well-formed root directory\<close>

fun siblings :: "(addr \<Rightarrow> VFSNode) \<Rightarrow> addr \<Rightarrow> addr list \<Rightarrow> bool" where
  "siblings N a [] \<longleftrightarrow> a = 0"
| "siblings N a (k # ks) \<longleftrightarrow> a = k \<and> k \<noteq> 0 \<and> siblings N (nextSibling (N k)) ks"

text \<open>\<open>ks\<close> are the entries of the root directory in list order.\<close>

definition root_ok :: "vfs \<Rightarrow> addr list \<Rightarrow> bool" where
  "root_ok s ks \<longleftrightarrow> rootNode s \<noteq> 0 \<and> n_type (vn s (rootNode s)) = DIRECTORY \<and>
     siblings (vn s) (firstChild (vn s (rootNode s))) ks \<and> distinct (rootNode s # ks) \<and>
     (\<forall>k \<in> set ks. c_string (n_name (vn s k)) \<and> n_parent (vn s k) = rootNode s) \<and>
     heap_inv (vf_heap s) \<and> set (rootNode s # ks) \<subseteq> fst ` heap_live (vf_heap s)"

lemma upd_node_simps [simp]:
  "vn (upd_node a f s) x = (if x = a then f (vn s a) else vn s x)"
  "rootNode (upd_node a f s) = rootNode s" "vf_heap (upd_node a f s) = vf_heap s"
  "vf_bytes (upd_node a f s) = vf_bytes s"
  by (simp_all add: upd_node_def)

lemma siblings_cong:
  "(\<And>k. k \<in> set ks \<Longrightarrow> nextSibling (N' k) = nextSibling (N k)) \<Longrightarrow> siblings N' a ks = siblings N a ks"
  by (induction ks arbitrary: a) auto

lemma siblings_nonnull: "siblings N a ks \<Longrightarrow> 0 \<notin> set ks"
  by (induction ks arbitrary: a) auto

lemma siblings_append:
  "siblings N a (xs @ y # ys) \<Longrightarrow> siblings N (nextSibling (N y)) ys \<and> y \<noteq> 0"
  by (induction xs arbitrary: a) auto

lemma find_sibling_spec:
  "siblings (vn s) a ks \<Longrightarrow> \<forall>k \<in> set ks. c_string (n_name (vn s k)) \<Longrightarrow> c_string name \<Longrightarrow>
   find_sibling s name a = Some (case find (\<lambda>k. n_name (vn s k) = name) ks of Some k \<Rightarrow> k | None \<Rightarrow> 0)"
proof (induction ks arbitrary: a)
  case Nil
  then show ?case by (subst find_sibling.simps) simp
next
  case (Cons k ks)
  then show ?case by (subst find_sibling.simps) (auto simp: kstrcmp_eq_0)
qed

definition entry_named :: "vfs \<Rightarrow> addr list \<Rightarrow> string \<Rightarrow> addr" where
  "entry_named s ks name = (case find (\<lambda>k. n_name (vn s k) = name) ks of Some k \<Rightarrow> k | None \<Rightarrow> 0)"

lemma FindChild_root:
  "root_ok s ks \<Longrightarrow> c_string name \<Longrightarrow> FindChild s (rootNode s) name = Some (entry_named s ks name)"
  by (simp add: FindChild_def root_ok_def find_sibling_spec entry_named_def)

text \<open>A name that is a single path component.\<close>

definition component :: "string \<Rightarrow> bool" where
  "component n \<longleftrightarrow> n \<noteq> [] \<and> c_string n \<and> CHR ''/'' \<notin> set n"

lemma open_loop_component:
  "CHR ''/'' \<notin> set path \<Longrightarrow> length buf \<le> 63 \<Longrightarrow> buf @ path \<noteq> [] \<Longrightarrow>
   open_loop s cur buf path = FindChild s cur (take 63 (buf @ path))"
proof (induction path arbitrary: buf)
  case Nil
  then show ?case by simp
next
  case (Cons c path)
  show ?case
  proof (cases "length buf < 63")
    case True
    with Cons.prems Cons.IH [of "buf @ [c]"] show ?thesis by auto
  next
    case False
    with Cons.prems have "length buf = 63" by simp
    moreover from this have "buf \<noteq> []" by auto
    ultimately show ?thesis using Cons.prems Cons.IH [of buf] by auto
  qed
qed

lemma skip_slash_simps [simp]:
  "CHR ''/'' \<notin> set n \<Longrightarrow> skip_slash n = n" "skip_slash (CHR ''/'' # n) = n"
  by (auto simp: skip_slash_def split: list.splits)

lemma Open_component:
  assumes "root_ok s ks" and "component n"
  shows "vfs_Open s (CHR ''/'' # n) = Some (entry_named s ks (take 63 n))"
proof -
  have r: "rootNode s \<noteq> 0" using assms(1) by (simp add: root_ok_def)
  have c: "c_string (CHR ''/'' # n)" "c_string (take 63 n)" using assms(2)
    by (auto simp: component_def c_string_def dest: in_set_takeD)
  then have "kstrcmp (CHR ''/'' # n) ''/'' \<noteq> 0"
    using assms(2) kstrcmp_eq_0 [of "CHR ''/'' # n" "''/''"] by (simp add: component_def)
  moreover have "open_loop s (rootNode s) [] n = FindChild s (rootNode s) (take 63 n)"
    using assms(2) open_loop_component [of n "[]"] by (simp add: component_def)
  ultimately show ?thesis using r FindChild_root [OF assms(1) c(2)] by (simp add: vfs_Open_def)
qed

lemma create_node_cases:
  assumes ok: "root_ok s ks" and n: "component n"
  obtains (refused) "create_node ty s (CHR ''/'' # n) = Some (0, s)" "entry_named s ks n \<noteq> 0"
  | (oom) h where "create_node ty s (CHR ''/'' # n) = Some (0, s\<lparr>vf_heap := h\<rparr>)" "entry_named s ks n = 0"
      "kheap_Allocate (vf_heap s) NODE_SIZE = Some (0, h)"
  | (made) a s' where "create_node ty s (CHR ''/'' # n) = Some (a, s')" "entry_named s ks n = 0"
      "a \<notin> set (rootNode s # ks)" "root_ok s' (a # ks)" "n_name (vn s' a) = take 63 n" "n_type (vn s' a) = ty"
      "\<And>k. k \<in> set ks \<Longrightarrow> vn s' k = vn s k" "rootNode s' = rootNode s"
      "\<exists>h. kheap_Allocate (vf_heap s) NODE_SIZE = Some (a, h)"
proof -
  let ?r = "rootNode s"
  have r: "?r \<noteq> 0" using ok by (simp add: root_ok_def)
  have nc: "c_string n" "CHR ''/'' \<notin> set n" using n by (simp_all add: component_def)
  note fc = FindChild_root [OF ok nc(1)]
  have inv: "heap_inv (vf_heap s)" using ok by (simp add: root_ok_def)
  have mx: "NODE_SIZE \<le> kheap_max" by simp
  show ?thesis
  proof (cases "entry_named s ks n = 0")
    case False
    then show ?thesis using refused fc r nc by (simp add: create_node_def Let_def)
  next
    case True
    obtain a h where a: "kheap_Allocate (vf_heap s) NODE_SIZE = Some (a, h)"
      using kheap.alloc_total [OF inv mx] by blast
    show ?thesis
    proof (cases "a = 0")
      case a0: True
      then show ?thesis using oom [of h] fc r nc a True by (simp add: create_node_def Let_def kmalloc_def)
    next
      case False
      let ?s2 = "upd_node a (\<lambda>_. zero_node\<lparr>n_name := copy_name 63 n, n_type := ty, n_size := 0, n_data := 0,
          n_parent := ?r, nextSibling := firstChild (vn s ?r)\<rparr>) (s\<lparr>vf_heap := h\<rparr>)"
      let ?s' = "upd_node ?r (\<lambda>n. n\<lparr>firstChild := a\<rparr>) ?s2"
      from kheap.alloc_live [OF inv mx a False] obtain k where
        a1: "a \<notin> fst ` heap_live (vf_heap s)" "heap_live h = insert (a, k) (heap_live (vf_heap s))" by blast
      have at: "a \<notin> set (?r # ks)" using a1(1) ok unfolding root_ok_def by blast
      have c: "create_node ty s (CHR ''/'' # n) = Some (a, ?s')"
        using fc r nc a True False by (simp add: create_node_def Let_def kmalloc_def)
      have same: "vn ?s' k = vn s k" if "k \<in> set ks" for k using that at ok by (auto simp: root_ok_def)
      have "siblings (vn ?s') (firstChild (vn s ?r)) ks = siblings (vn s) (firstChild (vn s ?r)) ks"
        by (rule siblings_cong) (simp only: same)
      moreover have "c_string (copy_name 63 n)" using nc(1) by (auto simp: c_string_def copy_name_take dest: in_set_takeD)
      ultimately have "root_ok ?s' (a # ks)"
        using ok at False a1(2) kheap.alloc_inv [OF inv mx a] same unfolding root_ok_def by auto
      moreover have "n_name (vn ?s' a) = take 63 n" "n_type (vn ?s' a) = ty"
        using at by (auto simp: copy_name_take)
      moreover have "rootNode ?s' = ?r" by simp
      moreover have "\<exists>h. kheap_Allocate (vf_heap s) NODE_SIZE = Some (a, h)" using a by simp
      ultimately show ?thesis using made [OF c True at] same by blast
    qed
  qed
qed

section \<open>Unlinking\<close>

lemma find_prev_spec:
  "siblings (vn s) a (xs @ p # x # ys) \<Longrightarrow> x \<notin> set (xs @ [p]) \<Longrightarrow> find_prev s x a = Some p"
proof (induction xs arbitrary: a)
  case Nil
  then show ?case by (subst find_prev.simps) simp
next
  case (Cons z zs)
  have "nextSibling (vn s z) \<noteq> x" using Cons.prems by (cases zs) auto
  with Cons show ?case by (subst find_prev.simps) auto
qed

lemma siblings_drop_mid:
  "siblings N a (xs @ p # x # ys) \<Longrightarrow> distinct (xs @ p # x # ys) \<Longrightarrow>
   siblings (N(p := (N p)\<lparr>nextSibling := nextSibling (N x)\<rparr>)) a (xs @ p # ys)"
proof (induction xs arbitrary: a)
  case Nil
  let ?N = "N(p := (N p)\<lparr>nextSibling := nextSibling (N x)\<rparr>)"
  have "siblings ?N (nextSibling (N x)) ys = siblings N (nextSibling (N x)) ys"
    by (rule siblings_cong) (use Nil.prems in auto)
  moreover have "nextSibling (?N p) = nextSibling (N x)" by simp
  ultimately show ?case using Nil.prems by (simp only: append_Nil siblings.simps simp_thms)
next
  case (Cons z zs)
  then show ?case by auto
qed

lemma unlink_root_entry:
  assumes ok: "root_ok s ks" and x: "x \<in> set ks"
  obtains s' where "unlink_node s (rootNode s) x = Some s'" "vf_heap s' = vf_heap s" "rootNode s' = rootNode s"
    "siblings (vn s') (firstChild (vn s' (rootNode s))) (remove1 x ks)"
    "\<And>k. n_name (vn s' k) = n_name (vn s k)" "\<And>k. n_parent (vn s' k) = n_parent (vn s k)"
    "\<And>k. n_type (vn s' k) = n_type (vn s k)" "\<And>k. n_data (vn s' k) = n_data (vn s k)"
proof -
  let ?r = "rootNode s"
  have sb: "siblings (vn s) (firstChild (vn s ?r)) ks" and d: "distinct ks" "?r \<notin> set ks"
    using ok by (simp_all add: root_ok_def)
  from x obtain xs ys where ks: "ks = xs @ x # ys" "x \<notin> set xs" by (meson split_list_first)
  then have rm: "remove1 x ks = xs @ ys" by (simp add: remove1_append)
  show ?thesis
  proof (cases xs rule: rev_cases)
    case Nil
    let ?s = "upd_node ?r (\<lambda>p. p\<lparr>firstChild := nextSibling (vn s x)\<rparr>) s"
    from Nil ks sb have f: "firstChild (vn s ?r) = x" "siblings (vn s) (nextSibling (vn s x)) ys" by auto
    then have "siblings (vn ?s) (nextSibling (vn s x)) ys"
      using siblings_cong [of ys "vn ?s" "vn s"] by simp
    with f rm Nil that [of ?s] show ?thesis by (simp add: unlink_node_def)
  next
    case (snoc zs p)
    let ?s = "upd_node p (\<lambda>q. q\<lparr>nextSibling := nextSibling (vn s x)\<rparr>) s"
    have k: "ks = zs @ p # x # ys" using ks(1) snoc by simp
    have pr: "p \<noteq> ?r" "p \<noteq> 0" using d(2) k siblings_nonnull [OF sb] by auto
    have "firstChild (vn s ?r) \<noteq> x" using sb d(1) k by (cases zs) auto
    moreover have "find_prev s x (firstChild (vn s ?r)) = Some p"
      by (rule find_prev_spec) (use sb d(1) k in auto)
    ultimately have u: "unlink_node s ?r x = Some ?s" using pr by (simp add: unlink_node_def)
    have vn': "vn ?s = (vn s)(p := (vn s p)\<lparr>nextSibling := nextSibling (vn s x)\<rparr>)" by (simp add: upd_node_def)
    have "siblings (vn ?s) (firstChild (vn s ?r)) (zs @ p # ys)"
      unfolding vn' by (rule siblings_drop_mid) (use sb d(1) k in auto)
    then have "siblings (vn ?s) (firstChild (vn ?s ?r)) (remove1 x ks)" using pr rm snoc by simp
    with u that [of ?s] show ?thesis by simp
  qed
qed

lemma kfree_no_magic: "hs_magic (hp_mem h (sub64 p HDR)) \<noteq> MAGIC \<Longrightarrow> kfree h p = h"
  by (simp add: kfree_def kheap_Free_def free_header_def)

lemma entry_named_in: "entry_named s ks n = x \<Longrightarrow> x \<noteq> 0 \<Longrightarrow> x \<in> set ks \<and> n_name (vn s x) = n"
  by (auto simp: entry_named_def find_Some_iff split: option.splits)

lemma entry_named_remove1:
  assumes "\<And>k. n_name (vn s' k) = n_name (vn s k)" and "n_name (vn s x) \<noteq> m"
  shows "entry_named s' (remove1 x ks) m = entry_named s ks m"
proof -
  have "find (\<lambda>k. n_name (vn s k) = m) (remove1 x ks) = find (\<lambda>k. n_name (vn s k) = m) ks"
    using assms(2) by (induction ks) auto
  with assms(1) show ?thesis by (simp add: entry_named_def)
qed

lemma entry_named_gone:
  assumes "distinct (map (\<lambda>k. n_name (vn s k)) ks)" and "x \<in> set ks" and "\<And>k. n_name (vn s' k) = n_name (vn s k)"
  shows "entry_named s' (remove1 x ks) (n_name (vn s x)) = 0"
proof -
  have "n_name (vn s k) \<noteq> n_name (vn s x)" if "k \<in> set (remove1 x ks)" for k
    using that assms(1,2) by (auto simp: distinct_map set_remove1_eq dest: inj_onD)
  then have "find (\<lambda>k. n_name (vn s' k) = n_name (vn s x)) (remove1 x ks) = None"
    using assms(3) by (simp add: find_None_iff)
  then show ?thesis by (simp add: entry_named_def)
qed

section \<open>Properties\<close>

text \<open>C12. \<^verbatim>\<open>CreateFile\<close> and \<^verbatim>\<open>Open\<close> round trip: a new entry of at most 63 characters is found under its
  path, the other entries resolve as before, and a name that exists is refused with nothing changed.  The call fails for no
  reason but that and a heap that refuses the node.\<close>

theorem CreateFile_then_Open:
  assumes "root_ok s ks" and "component n" and "length n \<le> 63"
  shows "\<exists>a s'. CreateFile s (CHR ''/'' # n) = Some (a, s') \<and>
    (a = 0 \<longleftrightarrow> vfs_Open s (CHR ''/'' # n) \<noteq> Some 0 \<or> (\<exists>h. kheap_Allocate (vf_heap s) NODE_SIZE = Some (0, h))) \<and>
    (vfs_Open s (CHR ''/'' # n) \<noteq> Some 0 \<longrightarrow> s' = s) \<and>
    (if a = 0 then vn s' = vn s \<and> rootNode s' = rootNode s
     else root_ok s' (a # ks) \<and> vfs_Open s (CHR ''/'' # n) = Some 0 \<and> vfs_Open s' (CHR ''/'' # n) = Some a \<and>
       n_type (vn s' a) = FILE \<and>
       (\<forall>m. component m \<and> take 63 m \<noteq> n \<longrightarrow> vfs_Open s' (CHR ''/'' # m) = vfs_Open s (CHR ''/'' # m)))"
  using assms(1,2)
proof (cases rule: create_node_cases [where ty = FILE])
  case refused
  then show ?thesis using Open_component [OF assms(1,2)] assms(3) by (simp add: CreateFile_def)
next
  case (oom h)
  then show ?thesis using Open_component [OF assms(1,2)] assms(3) by (simp add: CreateFile_def)
next
  case (made a s')
  have a0: "a \<noteq> 0" using made(4) by (auto simp: root_ok_def)
  have e: "entry_named s' (a # ks) m = (if m = n then a else entry_named s ks m)" for m
  proof -
    have "find (\<lambda>k. n_name (vn s' k) = m) ks = find (\<lambda>k. n_name (vn s k) = m) ks"
      using made(7) by (induction ks) auto
    then show ?thesis using made(5) assms(3) by (auto simp: entry_named_def)
  qed
  have "vfs_Open s' (CHR ''/'' # m) = vfs_Open s (CHR ''/'' # m)" if "component m" "take 63 m \<noteq> n" for m
    using Open_component [OF made(4) that(1)] Open_component [OF assms(1) that(1)] that(2) e by simp
  moreover have "vfs_Open s' (CHR ''/'' # n) = Some a" "vfs_Open s (CHR ''/'' # n) = Some 0"
    using Open_component [OF made(4) assms(2)] Open_component [OF assms(1,2)] e assms(3) made(2) by simp_all
  moreover have "\<nexists>h. kheap_Allocate (vf_heap s) NODE_SIZE = Some (0, h)" using made(9) a0 by auto
  ultimately show ?thesis using made(1,4,6) a0 by (simp add: CreateFile_def)
qed

definition demo_vfs :: vfs where
  "demo_vfs = \<lparr>vn = (\<lambda>_. zero_node\<lparr>n_name := ''/'', n_type := DIRECTORY\<rparr>), rootNode = 65568,
     vf_heap = \<lparr>hp_mem = (\<lambda>a. if a = 65536 then \<lparr>hs_length = 128, hs_next = 65696, hs_prev = 0, hs_free = False, hs_magic = MAGIC\<rparr>
         else \<lparr>hs_length = 1856, hs_next = 0, hs_prev = 65536, hs_free = True, hs_magic = MAGIC\<rparr>),
       firstSegment = 65536, heapStart = 65536, heapSize = 2048\<rparr>,
     vf_bytes = (\<lambda>_. 0)\<rparr>"

lemma demo_vfs_heap: "heap_ok (vf_heap demo_vfs) [mk_seg 65536 128 False, mk_seg 65696 1856 True]"
  by (simp add: heap_ok_def demo_vfs_def dvd_def)

lemma demo_vfs_ok: "root_ok demo_vfs []"
proof -
  from heap_ok_inv [OF demo_vfs_heap] show ?thesis
    by (simp add: root_ok_def) (simp add: demo_vfs_def zero_node_def)
qed

theorem CreateFile_then_Open_witness:
  "\<exists>a s'. CreateFile demo_vfs ''/notes'' = Some (a, s') \<and> a \<noteq> 0 \<and> vfs_Open s' ''/notes'' = Some a \<and>
     vfs_Open s' ''/other'' = Some 0"
proof -
  have c: "component ''notes''" "component ''other''" "length ''notes'' \<le> 63" by (simp_all add: component_def c_string_def)
  have "\<nexists>h. kheap_Allocate (vf_heap demo_vfs) NODE_SIZE = Some (0, h)"
    using kheap_Allocate_result [OF demo_vfs_heap, of NODE_SIZE 0] by (auto simp: align16_def add64_def)
  moreover have o: "vfs_Open demo_vfs ''/notes'' = Some 0" "vfs_Open demo_vfs ''/other'' = Some 0"
    using Open_component [OF demo_vfs_ok c(1)] Open_component [OF demo_vfs_ok c(2)] by (simp_all add: entry_named_def)
  ultimately show ?thesis using CreateFile_then_Open [OF demo_vfs_ok c(1,3)] c(2) by (auto split: if_splits)
qed

text \<open>\<^verbatim>\<open>Delete\<close> of a file of the root directory (with no data, or data that is not a heap block)
  removes exactly that entry: its path no longer resolves, every other path does as before.\<close>

theorem Delete_removes_entry:
  assumes "root_ok s ks" and "distinct (map (\<lambda>k. n_name (vn s k)) ks)" and "component n"
    and "vfs_Open s (CHR ''/'' # n) = Some x" and "x \<noteq> 0" and "n_type (vn s x) = FILE"
    and "n_data (vn s x) = 0 \<or> hs_magic (hp_mem (vf_heap s) (sub64 (n_data (vn s x)) HDR)) \<noteq> MAGIC"
  shows "\<exists>s'. vfs_Delete s (CHR ''/'' # n) = Some (True, s') \<and> root_ok s' (remove1 x ks) \<and>
    vfs_Open s' (CHR ''/'' # n) = Some 0 \<and>
    (\<forall>m. component m \<and> take 63 m \<noteq> take 63 n \<longrightarrow> vfs_Open s' (CHR ''/'' # m) = vfs_Open s (CHR ''/'' # m))"
proof -
  note ok = assms(1)
  have "entry_named s ks (take 63 n) = x" using Open_component [OF ok assms(3)] assms(4) by simp
  from entry_named_in [OF this assms(5)] have x: "x \<in> set ks" "n_name (vn s x) = take 63 n" by auto
  have p: "n_parent (vn s x) = rootNode s" "rootNode s \<noteq> 0" "x \<noteq> rootNode s" "distinct ks"
    using ok x(1) by (auto simp: root_ok_def)
  obtain u where u: "unlink_node s (rootNode s) x = Some u" "vf_heap u = vf_heap s" "rootNode u = rootNode s"
    "siblings (vn u) (firstChild (vn u (rootNode s))) (remove1 x ks)"
    "\<And>k. n_name (vn u k) = n_name (vn s k)" "\<And>k. n_parent (vn u k) = n_parent (vn s k)"
    "\<And>k. n_type (vn u k) = n_type (vn s k)" "\<And>k. n_data (vn u k) = n_data (vn s k)"
    by (rule unlink_root_entry [OF ok x(1)]) blast
  let ?s = "u\<lparr>vf_heap := kfree (vf_heap s) x\<rparr>"
  have "vfs_Delete s (CHR ''/'' # n) = Some (True, ?s)"
    using assms(4-7) p u(1,2,8) by (auto simp: vfs_Delete_def Let_def kfree_no_magic)
  moreover have inv: "heap_inv (vf_heap s)" using ok by (simp add: root_ok_def)
  have "x \<in> fst ` heap_live (vf_heap s)" using ok x(1) by (auto simp: root_ok_def)
  then obtain k where k: "(x, k) \<in> heap_live (vf_heap s)" by force
  have live: "heap_live (kfree (vf_heap s) x) = heap_live (vf_heap s) - {(x, k)}" "heap_inv (kfree (vf_heap s) x)"
    using kheap.free_live [OF inv k] kheap.free_inv [OF inv k] by (simp_all add: kfree_def)
  have "y \<in> fst ` heap_live (kfree (vf_heap s) x)" if "y \<in> set (rootNode s # remove1 x ks)" for y
  proof -
    have "y \<noteq> x" "y \<in> set (rootNode s # ks)" using that p(3,4) by (auto dest: set_remove1_subset [THEN subsetD])
    with ok obtain j where "(y, j) \<in> heap_live (vf_heap s)" by (force simp: root_ok_def)
    with \<open>y \<noteq> x\<close> live(1) show ?thesis by (intro image_eqI [of _ _ "(y, j)"]) auto
  qed
  then have sub: "set (rootNode s # remove1 x ks) \<subseteq> fst ` heap_live (kfree (vf_heap s) x)" by blast
  have ok': "root_ok ?s (remove1 x ks)"
    using ok u(3-7) live(2) sub p(4) unfolding root_ok_def by (auto dest: set_remove1_subset [THEN subsetD])
  have nm: "n_name (vn ?s k) = n_name (vn s k)" for k using u(5) by simp
  have "vfs_Open ?s (CHR ''/'' # n) = Some 0"
    using Open_component [OF ok' assms(3)] entry_named_gone [OF assms(2) x(1) nm] x(2) by simp
  moreover have "vfs_Open ?s (CHR ''/'' # m) = vfs_Open s (CHR ''/'' # m)" if "component m" "take 63 m \<noteq> take 63 n" for m
    using Open_component [OF ok' that(1)] Open_component [OF ok that(1)] entry_named_remove1 [OF nm, of x "take 63 m" ks] that(2) x(2)
    by simp
  ultimately show ?thesis using ok' by blast
qed

definition demo_vfs2 :: "string \<Rightarrow> vfs" where
  "demo_vfs2 n = \<lparr>vn = (\<lambda>a. if a = 65728 then zero_node\<lparr>n_name := n, n_parent := 65568\<rparr>
         else zero_node\<lparr>n_name := ''/'', n_type := DIRECTORY, firstChild := 65728\<rparr>), rootNode = 65568,
     vf_heap = \<lparr>hp_mem = (\<lambda>a. if a = 65536 then \<lparr>hs_length = 128, hs_next = 65696, hs_prev = 0, hs_free = False, hs_magic = MAGIC\<rparr>
         else if a = 65696 then \<lparr>hs_length = 128, hs_next = 65856, hs_prev = 65536, hs_free = False, hs_magic = MAGIC\<rparr>
         else \<lparr>hs_length = 1696, hs_next = 0, hs_prev = 65696, hs_free = True, hs_magic = MAGIC\<rparr>),
       firstSegment = 65536, heapStart = 65536, heapSize = 2048\<rparr>,
     vf_bytes = (\<lambda>_. 0)\<rparr>"

lemma demo_vfs2_ok: "c_string n \<Longrightarrow> root_ok (demo_vfs2 n) [65728]"
proof -
  assume c: "c_string n"
  have "heap_ok (vf_heap (demo_vfs2 n)) [mk_seg 65536 128 False, mk_seg 65696 128 False, mk_seg 65856 1696 True]"
    by (simp add: heap_ok_def demo_vfs2_def dvd_def)
  from heap_ok_inv [OF this] c show ?thesis
    by (simp add: root_ok_def) (simp add: demo_vfs2_def zero_node_def)
qed

theorem Delete_removes_entry_witness:
  "\<exists>s'. vfs_Delete (demo_vfs2 ''notes'') ''/notes'' = Some (True, s') \<and> vfs_Open s' ''/notes'' = Some 0"
proof -
  let ?s = "demo_vfs2 ''notes''"
  have ok: "root_ok ?s [65728]" by (rule demo_vfs2_ok) (simp add: c_string_def)
  have c: "component ''notes''" by (simp add: component_def c_string_def)
  have o: "vfs_Open ?s ''/notes'' = Some 65728"
    using Open_component [OF ok c] by (simp add: entry_named_def demo_vfs2_def zero_node_def)
  have t: "n_type (vn ?s 65728) = FILE" "n_data (vn ?s 65728) = 0" by (simp_all add: demo_vfs2_def zero_node_def)
  from Delete_removes_entry [OF ok _ c o] t show ?thesis by auto
qed

text \<open>The existence check of \<^verbatim>\<open>CreateFile\<close> compares the whole name with the stored 63 characters, so
  a longer name that is already there (and that \<^verbatim>\<open>Open\<close> finds) is not refused: unless memory runs out, a
  second entry with the same stored name appears.\<close>

theorem CreateFile_long_name_duplicates:
  assumes "root_ok s ks" and "component n" and "63 < length n" and "\<forall>k \<in> set ks. length (n_name (vn s k)) \<le> 63"
    and "vfs_Open s (CHR ''/'' # n) = Some x" and "x \<noteq> 0"
  shows "\<exists>a s'. CreateFile s (CHR ''/'' # n) = Some (a, s') \<and>
    (a \<noteq> 0 \<longrightarrow> root_ok s' (a # ks) \<and> x \<in> set ks \<and> a \<noteq> x \<and> n_name (vn s' a) = n_name (vn s' x))"
  using assms(1,2)
proof (cases rule: create_node_cases [where ty = FILE])
  case refused
  from entry_named_in [OF refl refused(2)] assms(3,4) show ?thesis by auto
next
  case (oom h)
  then show ?thesis by (simp add: CreateFile_def)
next
  case (made a s')
  have "entry_named s ks (take 63 n) = x" using Open_component [OF assms(1,2)] assms(5) by simp
  from entry_named_in [OF this assms(6)] made show ?thesis by (auto simp: CreateFile_def)
qed

theorem CreateFile_long_name_duplicates_witness:
  "\<exists>a s'. CreateFile (demo_vfs2 (replicate 63 CHR ''a'')) (CHR ''/'' # replicate 64 CHR ''a'') = Some (a, s') \<and>
     (a \<noteq> 0 \<longrightarrow> n_name (vn s' a) = n_name (vn s' 65728))"
proof -
  let ?n = "replicate 64 CHR ''a''" and ?s = "demo_vfs2 (replicate 63 CHR ''a'')"
  have ok: "root_ok ?s [65728]" by (rule demo_vfs2_ok) (simp add: c_string_def)
  have c: "component ?n" by (simp add: component_def c_string_def)
  have o: "vfs_Open ?s (CHR ''/'' # ?n) = Some 65728"
    using Open_component [OF ok c] by (simp add: entry_named_def demo_vfs2_def zero_node_def)
  have "\<forall>k \<in> set [65728]. length (n_name (vn ?s k)) \<le> 63" by (simp add: demo_vfs2_def zero_node_def)
  from CreateFile_long_name_duplicates [OF ok c _ this o] show ?thesis by auto
qed

end
