(* ===== verification/InitRD.thy ===== *)
theory InitRD
  imports VFS
begin

text \<open>
  The initial RAM disk, \<^verbatim>\<open>kernel/fs/initrd.cpp\<close>: the root, \<^verbatim>\<open>/etc\<close> and \<^verbatim>\<open>/initrd\<close> directories, and the TAR
  archive the boot loader left in memory, whose regular files become nodes of \<^verbatim>\<open>/initrd\<close> that point into
  the archive.  The archive is read byte by byte from the kernel's memory; what an archive
  holds is stated by the TAR format (\<open>archive_at\<close>, \<open>archive_files\<close>), apart from the code that parses it.
\<close>

section \<open>Nodes\<close>

definition CreateDirNode :: "string \<Rightarrow> vfs \<Rightarrow> (addr \<times> vfs) option" where
  "CreateDirNode name s =
     Option.bind (kmalloc (vf_heap s) NODE_SIZE) (\<lambda>(node, h).
       if node = 0 then Some (0, s\<lparr>vf_heap := h\<rparr>)
       else Some (node, upd_node node (\<lambda>_. zero_node\<lparr>n_name := copy_name 63 name, n_type := DIRECTORY,
                          n_size := 0, n_data := 0\<rparr>) (s\<lparr>vf_heap := h\<rparr>)))"

text \<open>\<open>store_string a str m\<close> writes the characters of \<open>str\<close> and the terminating NUL at \<open>a\<close>.\<close>

definition store_string :: "addr \<Rightarrow> string \<Rightarrow> bytes \<Rightarrow> bytes" where
  "store_string a str m x =
     (if a \<le> x \<and> x < a + length str then word_of_nat (of_char (str ! (x - a)))
      else if x = a + length str then 0 else m x)"

definition CreateFileNode :: "string \<Rightarrow> string option \<Rightarrow> vfs \<Rightarrow> (addr \<times> vfs) option" where
  "CreateFileNode name content s =
     Option.bind (kmalloc (vf_heap s) NODE_SIZE) (\<lambda>(node, h).
       if node = 0 then Some (0, s\<lparr>vf_heap := h\<rparr>)
       else let s1 = upd_node node (\<lambda>_. zero_node\<lparr>n_name := copy_name 63 name, n_type := FILE\<rparr>) (s\<lparr>vf_heap := h\<rparr>)
            in case content of
                 None \<Rightarrow> Some (node, upd_node node (\<lambda>n. n\<lparr>n_size := 0, n_data := 0\<rparr>) s1)
               | Some c \<Rightarrow>
                   Option.bind (kmalloc h (kstrlen c mod 2 ^ 32 + 1)) (\<lambda>(d, h2).
                     let s2 = upd_node node (\<lambda>n. n\<lparr>n_size := kstrlen c mod 2 ^ 32, n_data := d\<rparr>) (s1\<lparr>vf_heap := h2\<rparr>)
                     in Some (node, if d \<noteq> 0 then s2\<lparr>vf_bytes := store_string d c (vf_bytes s2)\<rparr> else s2)))"

definition AddChild :: "addr \<Rightarrow> addr \<Rightarrow> vfs \<Rightarrow> vfs" where
  "AddChild parent child s =
     (if parent = 0 \<or> child = 0 then s
      else let s1 = upd_node child (\<lambda>n. n\<lparr>n_parent := parent, nextSibling := firstChild (vn s parent)\<rparr>) s
           in upd_node parent (\<lambda>n. n\<lparr>firstChild := child\<rparr>) s1)"

definition CreateTarFileNode :: "string \<Rightarrow> addr \<Rightarrow> nat \<Rightarrow> vfs \<Rightarrow> (addr \<times> vfs) option" where
  "CreateTarFileNode name dat sz s =
     Option.bind (kmalloc (vf_heap s) NODE_SIZE) (\<lambda>(node, h).
       if node = 0 then Some (0, s\<lparr>vf_heap := h\<rparr>)
       else Some (node, upd_node node (\<lambda>_. zero_node\<lparr>n_name := copy_name 63 name, n_type := FILE,
                          n_size := sz, n_data := dat\<rparr>) (s\<lparr>vf_heap := h\<rparr>)))"

section \<open>The archive\<close>

definition char_at :: "bytes \<Rightarrow> addr \<Rightarrow> char" where
  "char_at m a = char_of (unat (m a))"

text \<open>The C string at an address.\<close>

partial_function (option) cstr_at :: "bytes \<Rightarrow> addr \<Rightarrow> string option" where
  "cstr_at m a =
     (if m a = 0 then Some []
      else Option.bind (cstr_at m (a + 1)) (\<lambda>cs. Some (char_at m a # cs)))"

fun octal_loop :: "bytes \<Rightarrow> addr \<Rightarrow> nat \<Rightarrow> nat \<Rightarrow> nat" where
  "octal_loop m c 0 n = n"
| "octal_loop m c (Suc sz) n =
     (if m c = 0 then n
      else if m c < 48 \<or> m c > 55 then n
      else octal_loop m (c + 1) sz (add64 (mul64 n 8) (unat (m c) - 48)))"

definition OctalToDec :: "bytes \<Rightarrow> addr \<Rightarrow> nat \<Rightarrow> nat" where
  "OctalToDec m str sz = octal_loop m str sz 0"

text \<open>The loop from the end of the name to the last slash.\<close>

fun basename_loop :: "string \<Rightarrow> nat \<Rightarrow> string" where
  "basename_loop s 0 = s"
| "basename_loop s (Suc i) = (if s ! i = CHR ''/'' then drop (Suc i) s else basename_loop s i)"

definition aligned_size :: "nat \<Rightarrow> nat" where
  "aligned_size n = add64 n 511 div 512 * 512"

text \<open>\<open>d\<close> is the \<^verbatim>\<open>/initrd\<close> directory (0 when it could not be made).\<close>

definition tar_entry :: "addr \<Rightarrow> addr \<Rightarrow> vfs \<Rightarrow> vfs option" where
  "tar_entry d ptr s =
     (let m = vf_bytes s; fileSize = OctalToDec m (ptr + 124) 11; typeflag = m (ptr + 156)
      in if typeflag = 48 \<or> typeflag = 0
         then Option.bind (cstr_at m ptr) (\<lambda>name.
                Option.bind (CreateTarFileNode (basename_loop name (kstrlen name)) (ptr + 512) (fileSize mod 2 ^ 32) s) (\<lambda>(node, s1).
                  Some (if node \<noteq> 0 \<and> d \<noteq> 0 then AddChild d node s1 else s1)))
         else Some s)"

partial_function (option) tar_loop :: "addr \<Rightarrow> addr \<Rightarrow> addr \<Rightarrow> vfs \<Rightarrow> vfs option" where
  "tar_loop d ptr stop s =
     (if ptr < stop
      then if vf_bytes s ptr = 0 then Some s
           else Option.bind (tar_entry d ptr s) (\<lambda>s1.
                  tar_loop d (add64 ptr (512 + aligned_size (OctalToDec (vf_bytes s) (ptr + 124) 11))) stop s1)
      else Some s)"

text \<open>\<^verbatim>\<open>Init\<close>; the result is the root node (0 when it could not be allocated).\<close>

definition initrd_Init :: "addr \<Rightarrow> nat \<Rightarrow> vfs \<Rightarrow> (addr \<times> vfs) option" where
  "initrd_Init initrdAddr initrdSize s =
     Option.bind (CreateDirNode ''/'' s) (\<lambda>(root, s1).
       if root = 0 then Some (0, s1)
       else Option.bind (CreateDirNode ''etc'' s1) (\<lambda>(etcDir, s2).
         let s3 = (if etcDir \<noteq> 0 then AddChild root etcDir s2 else s2)
         in Option.bind (CreateDirNode ''initrd'' s3) (\<lambda>(initDir, s4).
           let s5 = (if initDir \<noteq> 0 then AddChild root initDir s4 else s4)
           in Option.bind (CreateFileNode ''boot.cfg'' (Some (''showlogo=1'' @ [CHR 0x0A] @ ''verbose=1'' @ [CHR 0x0A])) s5) (\<lambda>(cfg, s6).
             let s7 = (if cfg \<noteq> 0 \<and> etcDir \<noteq> 0 then AddChild etcDir cfg s6 else s6)
             in Option.bind (if initrdAddr \<noteq> 0 \<and> initrdSize > 0
                             then tar_loop initDir initrdAddr (add64 initrdAddr initrdSize) s7 else Some s7) (\<lambda>s8.
                  Some (root, SetRoot root s8))))))"

section \<open>What the archive holds\<close>

text \<open>An entry is its name, size and whether it is a regular file; \<open>tar_at\<close> says that the memory holds
  the entries \<open>es\<close> from \<open>p\<close> on.\<close>

fun tar_at :: "bytes \<Rightarrow> addr \<Rightarrow> addr \<Rightarrow> (string \<times> nat \<times> bool) list \<Rightarrow> bool" where
  "tar_at m p stop [] \<longleftrightarrow> (p < stop \<longrightarrow> m p = 0)"
| "tar_at m p stop ((nm, sz, reg) # es) \<longleftrightarrow>
     p < stop \<and> m p \<noteq> 0 \<and> cstr_at m p = Some nm \<and> OctalToDec m (p + 124) 11 = sz \<and>
     reg = (m (p + 156) = 48 \<or> m (p + 156) = 0) \<and> p + (512 + aligned_size sz) < u64_limit \<and>
     tar_at m (p + (512 + aligned_size sz)) stop es"

text \<open>The files it should produce, as stored name, address of the contents and size: every regular file
  for whose node the heap has room.\<close>

fun loaded :: "kheap \<Rightarrow> addr \<Rightarrow> (string \<times> nat \<times> bool) list \<Rightarrow> (string \<times> addr \<times> nat) list" where
  "loaded h p [] = []"
| "loaded h p ((nm, sz, reg) # es) =
     (if reg
      then (case kheap_Allocate h NODE_SIZE of
              None \<Rightarrow> []
            | Some (a, h') \<Rightarrow> (if a = 0 then [] else [(take 63 (basename_loop nm (length nm)), p + 512, sz mod 2 ^ 32)])
                              @ loaded h' (p + (512 + aligned_size sz)) es)
      else loaded h (p + (512 + aligned_size sz)) es)"

definition node_desc :: "vfs \<Rightarrow> addr \<Rightarrow> string \<times> addr \<times> nat" where
  "node_desc s k = (n_name (vn s k), n_data (vn s k), n_size (vn s k))"

definition dir_ok :: "vfs \<Rightarrow> addr \<Rightarrow> addr list \<Rightarrow> bool" where
  "dir_ok s d ks \<longleftrightarrow> d \<noteq> 0 \<and> n_type (vn s d) = DIRECTORY \<and> siblings (vn s) (firstChild (vn s d)) ks \<and>
     distinct (d # ks) \<and> heap_inv (vf_heap s) \<and> set (d # ks) \<subseteq> fst ` heap_live (vf_heap s)"

lemma basename_no_slash: "i \<le> length s \<Longrightarrow> CHR ''/'' \<notin> set (drop i s) \<Longrightarrow> CHR ''/'' \<notin> set (basename_loop s i)"
proof (induction i)
  case 0
  then show ?case by simp
next
  case (Suc i)
  show ?case
  proof (cases "s ! i = CHR ''/''")
    case True
    with Suc.prems show ?thesis by simp
  next
    case False
    have "drop i s = s ! i # drop (Suc i) s" using Suc.prems(1) by (simp add: Cons_nth_drop_Suc)
    with Suc False show ?thesis by simp
  qed
qed

text \<open>One file node more in the directory.\<close>

lemma add_tar_file:
  assumes ok: "dir_ok s d ks"
  obtains (oom) h where "kheap_Allocate (vf_heap s) NODE_SIZE = Some (0, h)"
      "CreateTarFileNode n p z s = Some (0, s\<lparr>vf_heap := h\<rparr>)" "dir_ok (s\<lparr>vf_heap := h\<rparr>) d ks"
  | (made) a s1 where "CreateTarFileNode n p z s = Some (a, s1)" "a \<noteq> 0" "dir_ok (AddChild d a s1) d (a # ks)"
      "node_desc (AddChild d a s1) a = (take 63 n, p, z)" "n_read (vn (AddChild d a s1) a) = 0"
      "n_type (vn (AddChild d a s1) a) = FILE" "vf_bytes (AddChild d a s1) = vf_bytes s"
      "\<And>k. k \<in> set ks \<Longrightarrow> vn (AddChild d a s1) k = vn s k"
      "kheap_Allocate (vf_heap s) NODE_SIZE = Some (a, vf_heap (AddChild d a s1))"
proof -
  have inv: "heap_inv (vf_heap s)" and mx: "NODE_SIZE \<le> kheap_max" using ok by (simp_all add: dir_ok_def)
  obtain a h where a: "kheap_Allocate (vf_heap s) NODE_SIZE = Some (a, h)"
    using kheap.alloc_total [OF inv mx] by blast
  have ih: "heap_inv h" by (rule kheap.alloc_inv [OF inv mx a])
  show ?thesis
  proof (cases "a = 0")
    case True
    then have "heap_live h = heap_live (vf_heap s)" using kheap.alloc_null [OF inv mx] a by simp
    then have "dir_ok (s\<lparr>vf_heap := h\<rparr>) d ks" using ok ih by (simp add: dir_ok_def)
    then show ?thesis using oom [of h] a True by (simp add: CreateTarFileNode_def kmalloc_def)
  next
    case False
    let ?s1 = "upd_node a (\<lambda>_. zero_node\<lparr>n_name := copy_name 63 n, n_type := FILE, n_size := z, n_data := p\<rparr>) (s\<lparr>vf_heap := h\<rparr>)"
    let ?s = "AddChild d a ?s1"
    from kheap.alloc_live [OF inv mx a False] obtain k where
      a1: "a \<notin> fst ` heap_live (vf_heap s)" "heap_live h = insert (a, k) (heap_live (vf_heap s))" by blast
    have at: "a \<notin> set (d # ks)" using a1(1) ok unfolding dir_ok_def by blast
    have d: "d \<noteq> 0" "d \<notin> set ks" using ok by (simp_all add: dir_ok_def)
    have same: "vn ?s k = vn s k" if "k \<in> set ks" for k
      using that at d False by (auto simp: AddChild_def Let_def)
    have "siblings (vn ?s) (firstChild (vn s d)) ks = siblings (vn s) (firstChild (vn s d)) ks"
      by (rule siblings_cong) (simp only: same)
    then have "dir_ok ?s d (a # ks)"
      using ok at False d a1(2) ih unfolding dir_ok_def by (auto simp: AddChild_def Let_def)
    then show ?thesis
      using made [of a ?s1] same at False d a
      by (simp add: CreateTarFileNode_def kmalloc_def node_desc_def AddChild_def Let_def copy_name_take zero_node_def)
  qed
qed

text \<open>Relinking a node changes only its \<^verbatim>\<open>nextSibling\<close>.\<close>

lemma same_but_link:
  assumes "(n :: VFSNode)\<lparr>nextSibling := 0\<rparr> = n'\<lparr>nextSibling := 0\<rparr>"
  shows "n_name n = n_name n'" "n_data n = n_data n'" "n_size n = n_size n'" "n_type n = n_type n'" "n_read n = n_read n'"
  using assms by (cases n, cases n', simp)+

lemma tar_entry_spec:
  assumes ok: "dir_ok s d ks" and c: "cstr_at (vf_bytes s) p = Some nm" and z: "OctalToDec (vf_bytes s) (p + 124) 11 = sz"
    and reg: "reg = (vf_bytes s (p + 156) = 48 \<or> vf_bytes s (p + 156) = 0)"
  obtains (skip) s' where "tar_entry d p s = Some s'" "dir_ok s' d ks" "vf_bytes s' = vf_bytes s" "vn s' = vn s"
      "if reg then kheap_Allocate (vf_heap s) NODE_SIZE = Some (0, vf_heap s') else vf_heap s' = vf_heap s"
  | (add) a s' where "tar_entry d p s = Some s'" "dir_ok s' d (a # ks)" "vf_bytes s' = vf_bytes s" reg
      "node_desc s' a = (take 63 (basename_loop nm (length nm)), p + 512, sz mod 2 ^ 32)"
      "n_read (vn s' a) = 0" "n_type (vn s' a) = FILE" "\<And>k. k \<in> set ks \<Longrightarrow> vn s' k = vn s k"
      "kheap_Allocate (vf_heap s) NODE_SIZE = Some (a, vf_heap s')" "a \<noteq> 0"
proof (cases reg)
  case False
  with reg ok skip [of s] show ?thesis by (simp add: tar_entry_def Let_def)
next
  case True
  have d: "d \<noteq> 0" using ok by (simp add: dir_ok_def)
  from ok show ?thesis
  proof (cases rule: add_tar_file [where n = "basename_loop nm (length nm)" and p = "p + 512" and z = "sz mod 2 ^ 32"])
    case (oom h)
    then have "tar_entry d p s = Some (s\<lparr>vf_heap := h\<rparr>)"
      using True reg c z by (auto simp: tar_entry_def Let_def)
    with oom(1,3) skip [of "s\<lparr>vf_heap := h\<rparr>"] True show ?thesis by simp
  next
    case (made a s1)
    then have "tar_entry d p s = Some (AddChild d a s1)"
      using True reg c z d by (auto simp: tar_entry_def Let_def)
    with made True add [of "AddChild d a s1" a] show ?thesis by simp
  qed
qed

section \<open>The loop\<close>

text \<open>The loop, over the headers as the parsing functions read them.\<close>

lemma tar_loop_nodes:
  assumes "dir_ok s d ks" and "tar_at (vf_bytes s) p stop es"
  shows "\<exists>s' news. tar_loop d p stop s = Some s' \<and> dir_ok s' d (rev news @ ks) \<and> vf_bytes s' = vf_bytes s \<and>
    map (node_desc s') news = loaded (vf_heap s) p es \<and>
    (\<forall>k \<in> set news. n_type (vn s' k) = FILE \<and> n_read (vn s' k) = 0) \<and> (\<forall>k \<in> set ks. vn s' k \<lparr>nextSibling := 0\<rparr> = vn s k \<lparr>nextSibling := 0\<rparr>)"
  using assms
proof (induction es arbitrary: s p ks)
  case Nil
  then have "tar_loop d p stop s = Some s" by (subst tar_loop.simps) simp
  with Nil show ?case by (intro exI [of _ s] exI [of _ "[]"]) simp
next
  case (Cons e es)
  obtain nm sz reg where e: "e = (nm, sz, reg)" by (metis prod_cases3)
  let ?m = "vf_bytes s" and ?q = "p + (512 + aligned_size sz)"
  from Cons.prems(2) e have t: "p < stop" "?m p \<noteq> 0" "cstr_at ?m p = Some nm" "OctalToDec ?m (p + 124) 11 = sz"
    "reg = (?m (p + 156) = 48 \<or> ?m (p + 156) = 0)" "?q < u64_limit" "tar_at ?m ?q stop es" by auto
  have step: "tar_loop d p stop s = Option.bind (tar_entry d p s) (tar_loop d ?q stop)"
    using t(1,2,4,6) by (subst tar_loop.simps) (simp add: add64_eq)
  from Cons.prems(1) t(3-5) show ?case
  proof (cases rule: tar_entry_spec)
    case (skip s1)
    from Cons.IH [OF skip(2), of ?q] t(7) skip(3) obtain s' news where r:
      "tar_loop d ?q stop s1 = Some s'" "dir_ok s' d (rev news @ ks)" "vf_bytes s' = vf_bytes s1"
      "map (node_desc s') news = loaded (vf_heap s1) ?q es"
      "\<forall>k \<in> set news. n_type (vn s' k) = FILE \<and> n_read (vn s' k) = 0"
      "\<forall>k \<in> set ks. vn s' k \<lparr>nextSibling := 0\<rparr> = vn s1 k \<lparr>nextSibling := 0\<rparr>" by auto
    then show ?thesis using step skip e by (intro exI [of _ s'] exI [of _ news]) (auto split: if_splits)
  next
    case (add a s1)
    from Cons.IH [OF add(2), of ?q] t(7) add(3) obtain s' news where r:
      "tar_loop d ?q stop s1 = Some s'" "dir_ok s' d (rev news @ a # ks)" "vf_bytes s' = vf_bytes s1"
      "map (node_desc s') news = loaded (vf_heap s1) ?q es"
      "\<forall>k \<in> set news. n_type (vn s' k) = FILE \<and> n_read (vn s' k) = 0"
      "\<forall>k \<in> set (a # ks). vn s' k \<lparr>nextSibling := 0\<rparr> = vn s1 k \<lparr>nextSibling := 0\<rparr>" by auto
    have same: "vn s' a \<lparr>nextSibling := 0\<rparr> = vn s1 a \<lparr>nextSibling := 0\<rparr>" using r(6) by simp
    have "node_desc s' a = node_desc s1 a" "n_type (vn s' a) = FILE" "n_read (vn s' a) = 0"
      unfolding node_desc_def same_but_link [OF same] using add(6,7) by simp_all
    then show ?thesis using r step add e by (intro exI [of _ s'] exI [of _ "a # news"]) simp
  qed
qed

section \<open>The archive format\<close>

text \<open>
  What a TAR archive is, stated without the functions above.  An entry is its name, its contents and whether it is a
  regular file.  A header block holds the name at 0, ended by a NUL, the length of the contents as eleven octal digits at 124 and
  the type at 156; the contents follow at 512, and the next header comes after as many blocks of 512 bytes as they need.
\<close>

type_synonym tar_item = "string \<times> u8 list \<times> bool"

definition octal_digit :: "nat \<Rightarrow> nat \<Rightarrow> u8" where
  "octal_digit n k = word_of_nat (48 + n div 8 ^ (10 - k) mod 8)"

definition header_at :: "bytes \<Rightarrow> addr \<Rightarrow> tar_item \<Rightarrow> bool" where
  "header_at m p = (\<lambda>(nm, cs, reg).
     nm \<noteq> [] \<and> length nm < 100 \<and> CHR 0x00 \<notin> set nm \<and> (\<forall>i < length nm. m (p + i) = word_of_nat (of_char (nm ! i))) \<and>
     m (p + length nm) = 0 \<and> length cs < 8 ^ 11 \<and> (\<forall>k < 11. m (p + 124 + k) = octal_digit (length cs) k) \<and>
     (reg \<longleftrightarrow> m (p + 156) = 48 \<or> m (p + 156) = 0) \<and> (\<forall>i < length cs. m (p + 512 + i) = cs ! i))"

definition blocks :: "u8 list \<Rightarrow> nat" where
  "blocks cs = (length cs + 511) div 512"

fun archive_at :: "bytes \<Rightarrow> addr \<Rightarrow> addr \<Rightarrow> tar_item list \<Rightarrow> bool" where
  "archive_at m p stop [] \<longleftrightarrow> (p < stop \<longrightarrow> m p = 0)"
| "archive_at m p stop (e # es) \<longleftrightarrow>
     p < stop \<and> header_at m p e \<and> p + 512 * (1 + blocks (fst (snd e))) < 2 ^ 64 \<and>
     archive_at m (p + 512 * (1 + blocks (fst (snd e)))) stop es"

text \<open>The part of a path after its last slash.\<close>

definition base_name :: "string \<Rightarrow> string" where
  "base_name s = rev (takeWhile (\<lambda>c. c \<noteq> CHR ''/'') (rev s))"

text \<open>The files of the archive, as name, place and length of the contents and the contents: every regular file for whose node the
  heap, which gives one block for each, has room.\<close>

fun archive_files :: "kheap \<Rightarrow> addr \<Rightarrow> tar_item list \<Rightarrow> ((string \<times> addr \<times> nat) \<times> u8 list) list" where
  "archive_files h p [] = []"
| "archive_files h p ((nm, cs, reg) # es) =
     (if reg
      then (case kheap_Allocate h NODE_SIZE of
              None \<Rightarrow> []
            | Some (a, h') \<Rightarrow> (if a = 0 then [] else [((take 63 (base_name nm), p + 512, length cs mod 2 ^ 32),
                                                        take (length cs mod 2 ^ 32) cs)])
                              @ archive_files h' (p + 512 * (1 + blocks cs)) es)
      else archive_files h (p + 512 * (1 + blocks cs)) es)"

text \<open>The contents of a file node, read from the memory.\<close>

definition node_content :: "vfs \<Rightarrow> addr \<Rightarrow> u8 list" where
  "node_content s k = map (\<lambda>i. vf_bytes s (n_data (vn s k) + i)) [0..<n_size (vn s k)]"

lemma cstr_at_name:
  assumes "\<forall>i < length nm. m (p + i) = word_of_nat (of_char (nm ! i))" "CHR 0x00 \<notin> set nm" "m (p + length nm) = 0"
  shows "cstr_at m p = Some nm"
  using assms
proof (induction nm arbitrary: p)
  case Nil
  then show ?case by (subst cstr_at.simps) simp
next
  case (Cons c nm)
  have "m p = word_of_nat (of_char c)" using Cons.prems(1) by (metis add_0_right length_greater_0_conv list.distinct(1) nth_Cons_0)
  moreover have "(of_char c :: nat) < 256" by (rule nat_of_char_less_256)
  moreover have "(of_char c :: nat) \<noteq> 0" using Cons.prems(2) of_char_eq_iff [where 'a = nat, of c "CHR 0x00"] by auto
  ultimately have c: "m p \<noteq> 0" "char_at m p = c" by (simp_all add: char_at_def unat_of_nat word_of_nat_eq_0_iff nat_dvd_not_less)
  have "cstr_at m (p + 1) = Some nm"
  proof (rule Cons.IH)
    show "\<forall>i<length nm. m (p + 1 + i) = word_of_nat (of_char (nm ! i))" using Cons.prems(1) by (auto simp: nth_Cons')
  qed (use Cons.prems in auto)
  with c show ?case by (subst cstr_at.simps) simp
qed

lemma octal_loop_digits:
  assumes "\<forall>k < n. m (c + k) = word_of_nat (48 + N div 8 ^ (n - 1 - k) mod 8)" "(acc + 1) * 8 ^ n \<le> 2 ^ 64"
  shows "octal_loop m c n acc = acc * 8 ^ n + N mod 8 ^ n"
  using assms
proof (induction n arbitrary: c acc)
  case 0
  then show ?case by simp
next
  case (Suc n)
  let ?d = "N div 8 ^ n mod 8"
  have d: "?d < 8" by simp
  have m: "m c = word_of_nat (48 + ?d)" using Suc.prems(1) [rule_format, of 0] by simp
  have u: "unat (m c) = 48 + ?d" unfolding m unat_of_nat using d by simp
  have "acc * 8 + 8 \<le> (2 :: nat) ^ 64"
  proof -
    have "(acc + 1) * 8 * 1 \<le> (acc + 1) * 8 * 8 ^ n" by (rule mult_le_mono2) simp
    also have "\<dots> = (acc + 1) * 8 ^ Suc n" by (simp add: algebra_simps)
    finally show ?thesis using Suc.prems(2) by (simp add: algebra_simps)
  qed
  with d have a: "add64 (mul64 acc 8) ?d = acc * 8 + ?d" by (simp add: add64_def mul64_def)
  have n: "\<not> m c < 48" "\<not> m c > 55" "m c \<noteq> 0" using u d by (auto simp: word_less_nat_alt)
  have IH: "octal_loop m (c + 1) n (acc * 8 + ?d) = (acc * 8 + ?d) * 8 ^ n + N mod 8 ^ n"
  proof (rule Suc.IH)
    show "\<forall>k<n. m (c + 1 + k) = word_of_nat (48 + N div 8 ^ (n - 1 - k) mod 8)"
      using Suc.prems(1) [rule_format, of "Suc k" for k] by simp
    have "(acc * 8 + ?d + 1) * 8 ^ n \<le> (acc * 8 + 8) * 8 ^ n" using d by (intro mult_le_mono1) linarith
    also have "\<dots> = (acc + 1) * 8 ^ Suc n" by (simp add: algebra_simps)
    finally show "(acc * 8 + ?d + 1) * 8 ^ n \<le> 2 ^ 64" using Suc.prems(2) by (rule le_trans)
  qed
  have "N mod 8 ^ Suc n = 8 ^ n * ?d + N mod 8 ^ n" using mod_mult2_eq [of N "8 ^ n" 8] by (simp add: mult.commute)
  then show ?case using n u a IH by (simp add: algebra_simps)
qed

lemma OctalToDec_digits:
  assumes "\<forall>k < 11. m (c + k) = octal_digit N k" "N < 8 ^ 11"
  shows "OctalToDec m c 11 = N"
  using octal_loop_digits [of 11 m c N 0] assms by (simp add: OctalToDec_def octal_digit_def)

lemma basename_loop_base_name: "basename_loop s (length s) = base_name s"
proof -
  have "basename_loop s i = base_name s" if "i \<le> length s" "CHR ''/'' \<notin> set (drop i s)" for i
    using that
  proof (induction i)
    case 0
    then have "\<forall>c \<in> set (rev s). c \<noteq> CHR ''/''" by auto
    then have "takeWhile (\<lambda>c. c \<noteq> CHR ''/'') (rev s) = rev s" by (simp only: takeWhile_eq_all_conv)
    then show ?case unfolding base_name_def by (simp only: basename_loop.simps rev_rev_ident)
  next
    case (Suc i)
    have dr: "drop i s = s ! i # drop (Suc i) s" using Suc.prems(1) by (simp add: Cons_nth_drop_Suc)
    show ?case
    proof (cases "s ! i = CHR ''/''")
      case True
      have "rev s = rev (drop (Suc i) s) @ CHR ''/'' # rev (take i s)"
        using dr True by (metis append_take_drop_id append_Cons append_Nil append_assoc rev.simps(2) rev_append)
      moreover have "takeWhile (\<lambda>c. c \<noteq> CHR ''/'') (rev (drop (Suc i) s) @ CHR ''/'' # ys) = rev (drop (Suc i) s)" for ys
        using Suc.prems(2) by (subst takeWhile_append2) auto
      ultimately show ?thesis using True by (simp add: base_name_def)
    next
      case False
      with Suc dr show ?thesis by simp
    qed
  qed
  then show ?thesis by simp
qed

lemma aligned_size_blocks: "length cs < 8 ^ 11 \<Longrightarrow> 512 + aligned_size (length cs) = 512 * (1 + blocks cs)"
  by (simp add: aligned_size_def blocks_def add64_def)

text \<open>The parsing functions read a header as the format has it.\<close>

lemma archive_tar_at:
  assumes "archive_at m p stop es"
  shows "tar_at m p stop (map (\<lambda>(nm, cs, reg). (nm, length cs, reg)) es)"
  using assms
proof (induction es arbitrary: p)
  case Nil
  then show ?case by simp
next
  case (Cons e es)
  obtain nm cs reg where e: "e = (nm, cs, reg)" by (metis prod_cases3)
  from Cons.prems e have h: "header_at m p (nm, cs, reg)" by simp
  then have l: "length cs < 8 ^ 11" and c: "cstr_at m p = Some nm" and o: "OctalToDec m (p + 124) 11 = length cs"
    by (auto simp: header_at_def intro!: cstr_at_name OctalToDec_digits)
  have "m p \<noteq> 0" using c h by (subst (asm) cstr_at.simps) (auto simp: header_at_def)
  with Cons e h l c o show ?case by (simp add: aligned_size_blocks header_at_def)
qed

lemma archive_loaded:
  assumes "archive_at m p stop es"
  shows "loaded h p (map (\<lambda>(nm, cs, reg). (nm, length cs, reg)) es) = map fst (archive_files h p es)"
    and "\<forall>((n, a, z), cs) \<in> set (archive_files h p es). map (\<lambda>i. m (a + i)) [0..<z] = cs"
  using assms
proof (induction es arbitrary: p h)
  case Nil
  { case 1 then show ?case by simp }
  { case 2 then show ?case by simp }
next
  case (Cons e es)
  obtain nm cs reg where e: "e = (nm, cs, reg)" by (metis prod_cases3)
  have u: "\<And>p. archive_at m p stop (e # es) \<Longrightarrow> length cs < 8 ^ 11"
    "\<And>p. archive_at m p stop (e # es) \<Longrightarrow> archive_at m (p + 512 * (1 + blocks cs)) stop es"
    using e by (simp_all add: header_at_def)
  { case (1 p h)
    have "512 + aligned_size (length cs) = 512 * (1 + blocks cs)" by (rule aligned_size_blocks [OF u(1) [OF 1]])
    with Cons.IH(1) [OF u(2) [OF 1]] e show ?case
      by (simp only: list.map split loaded.simps archive_files.simps) (simp add: basename_loop_base_name split: option.split) }
  { case (2 p h)
    have "map (\<lambda>i. m (p + 512 + i)) [0..<length cs mod 2 ^ 32] = take (length cs mod 2 ^ 32) cs"
      using 2 e by (intro nth_equalityI) (auto simp: header_at_def)
    with Cons.IH(2) [OF u(2) [OF 2]] e show ?case
      by (cases "kheap_Allocate h NODE_SIZE") (fastforce split: if_splits)+ }
qed

section \<open>Properties\<close>

text \<open>C13. Parsing an archive terminates, and the files it adds to \<^verbatim>\<open>/initrd\<close> are the regular files of the
  archive in order (newest first in the list; a file is left out only when the heap cannot give its node),
  each under the part of its name after the last slash, cut to 63 characters, with the length of its contents (modulo
  \<open>2 ^ 32\<close>), and reading the bytes the node points at gives its contents; the archive
  and the entries that were in the directory before are not changed.  The archive is described by the TAR format: eleven octal
  digits of length, contents padded to blocks of 512 bytes.\<close>

theorem tar_loop_loads_files:
  assumes "dir_ok s d ks" and "archive_at (vf_bytes s) p stop es"
  shows "\<exists>s' news. tar_loop d p stop s = Some s' \<and> dir_ok s' d (rev news @ ks) \<and> vf_bytes s' = vf_bytes s \<and>
    map (\<lambda>k. (node_desc s' k, node_content s' k)) news = archive_files (vf_heap s) p es \<and>
    (\<forall>k \<in> set news. n_type (vn s' k) = FILE \<and> n_read (vn s' k) = 0) \<and> (\<forall>k \<in> set ks. vn s' k \<lparr>nextSibling := 0\<rparr> = vn s k \<lparr>nextSibling := 0\<rparr>)"
proof -
  let ?es = "map (\<lambda>(nm, cs, reg). (nm, length cs, reg)) es"
  obtain s' news where r: "tar_loop d p stop s = Some s'" "dir_ok s' d (rev news @ ks)" "vf_bytes s' = vf_bytes s"
    "map (node_desc s') news = map fst (archive_files (vf_heap s) p es)"
    "\<forall>k \<in> set news. n_type (vn s' k) = FILE \<and> n_read (vn s' k) = 0"
    "\<forall>k \<in> set ks. vn s' k \<lparr>nextSibling := 0\<rparr> = vn s k \<lparr>nextSibling := 0\<rparr>"
    using tar_loop_nodes [OF assms(1) archive_tar_at [OF assms(2)]] archive_loaded(1) [OF assms(2)] by metis
  have "map (\<lambda>k. (node_desc s' k, node_content s' k)) news = archive_files (vf_heap s) p es"
  proof (rule nth_equalityI)
    show l: "length (map (\<lambda>k. (node_desc s' k, node_content s' k)) news) = length (archive_files (vf_heap s) p es)"
      using r(4) by (metis length_map)
    fix i assume "i < length (map (\<lambda>k. (node_desc s' k, node_content s' k)) news)"
    then have i: "i < length news" "i < length (archive_files (vf_heap s) p es)" using l by simp_all
    obtain n a z cs where x: "archive_files (vf_heap s) p es ! i = ((n, a, z), cs)" by (metis prod_cases3 prod.collapse)
    have d: "node_desc s' (news ! i) = (n, a, z)" using arg_cong [OF r(4), of "\<lambda>l. l ! i"] i x by simp
    have "map (\<lambda>i. vf_bytes s (a + i)) [0..<z] = cs"
      using archive_loaded(2) [OF assms(2)] nth_mem [OF i(2)] x by fastforce
    with d r(3) i x show "map (\<lambda>k. (node_desc s' k, node_content s' k)) news ! i = archive_files (vf_heap s) p es ! i"
      by (simp add: node_desc_def node_content_def)
  qed
  with r show ?thesis by blast
qed

text \<open>An archive at 4096: a file \<^verbatim>\<open>a/b\<close> of nine bytes (its length has the octal digits 11), and after it the directory \<^verbatim>\<open>d\<close>.\<close>

definition demo_content :: "u8 list" where
  "demo_content = [10, 20, 30, 40, 50, 60, 70, 80, 90]"

definition demo_tar :: bytes where
  "demo_tar x =
     (if x = 4096 then 97 else if x = 4097 then 47 else if x = 4098 then 98
      else if 4220 \<le> x \<and> x < 4229 then 48 else if x = 4229 \<or> x = 4230 then 49 else if x = 4252 then 48
      else if 4608 \<le> x \<and> x < 4617 then demo_content ! (x - 4608)
      else if x = 5120 then 100 else if 5244 \<le> x \<and> x < 5255 then 48 else if x = 5276 then 53 else 0)"

lemma less_11: "(\<forall>k < 11. P k) \<longleftrightarrow> P 0 \<and> P 1 \<and> P 2 \<and> P 3 \<and> P 4 \<and> P 5 \<and> P 6 \<and> P 7 \<and> P 8 \<and> P 9 \<and> P (10 :: nat)"
  by (simp add: numeral_eq_Suc less_Suc_eq all_conj_distrib imp_ex)

lemma demo_tar_archive:
  "archive_at demo_tar 4096 6144 [(''a/b'', demo_content, True), (''d'', [], False)]"
proof -
  have "header_at demo_tar 4096 (''a/b'', demo_content, True)"
    by (simp add: header_at_def less_11 octal_digit_def demo_content_def demo_tar_def of_char_def less_Suc_eq all_conj_distrib nth_Cons')
  moreover have "header_at demo_tar 5120 (''d'', [], False)"
    by (simp add: header_at_def less_11 octal_digit_def demo_tar_def)
  ultimately show ?thesis by (simp add: blocks_def demo_content_def demo_tar_def)
qed

theorem tar_loop_loads_files_witness:
  "\<exists>s' a. tar_loop 65568 4096 6144 (demo_vfs\<lparr>vf_bytes := demo_tar\<rparr>) = Some s' \<and>
     dir_ok s' 65568 [a] \<and> node_desc s' a = (''b'', 4608, 9) \<and> node_content s' a = [10, 20, 30, 40, 50, 60, 70, 80, 90]"
proof -
  let ?s = "demo_vfs\<lparr>vf_bytes := demo_tar\<rparr>" and ?es = "[(''a/b'', demo_content, True), (''d'', [], False)]"
  have ok: "dir_ok ?s 65568 []"
    using demo_vfs_ok by (auto simp: dir_ok_def root_ok_def demo_vfs_def zero_node_def)
  have t: "archive_at (vf_bytes ?s) 4096 6144 ?es" using demo_tar_archive by simp
  obtain h where h: "kheap_Allocate (vf_heap demo_vfs) NODE_SIZE = Some (65728, h)"
  proof -
    have "heap_ok (vf_heap demo_vfs) [mk_seg 65536 128 False, mk_seg 65696 1856 True]"
      by (simp add: heap_ok_def demo_vfs_def dvd_def)
    from kheap_Allocate_refines [OF this, of NODE_SIZE] that show thesis by (auto simp: align16_def add64_def)
  qed
  from tar_loop_loads_files [OF ok t] obtain s' news where r: "tar_loop 65568 4096 6144 ?s = Some s'"
    "dir_ok s' 65568 (rev news @ [])"
    "map (\<lambda>k. (node_desc s' k, node_content s' k)) news = archive_files (vf_heap ?s) 4096 ?es" by blast
  have "archive_files (vf_heap ?s) 4096 ?es = [((''b'', 4608, 9), demo_content)]"
    using h by (simp add: base_name_def demo_content_def)
  with r(3) obtain a where "news = [a]" "node_desc s' a = (''b'', 4608, 9)" "node_content s' a = demo_content" by auto
  with r show ?thesis by (auto simp: demo_content_def)
qed

end
