(* ===== verification/Block_Device.thy ===== *)
theory Block_Device
  imports KStd KHeap
begin

text \<open>
  The block device interface, \<^verbatim>\<open>kernel/hal/storage/block_device.h\<close>: a driver is a record of function
  pointers that act on the state \<open>'d\<close> of the hardware.  The contract a driver promises is the locale
  \<open>block_device\<close>: a disk is an array of sectors, a read returns a range of it and a write replaces one.
\<close>

section \<open>The interface\<close>

record 'd IBlockDevice =
  bd_name :: string
  bd_sector_size :: nat
  bd_total_sectors :: nat
  bd_total_bytes :: nat
  bd_read_blocks :: "('d \<Rightarrow> nat \<Rightarrow> nat \<Rightarrow> u8 list option \<times> 'd) option"
  bd_write_blocks :: "('d \<Rightarrow> nat \<Rightarrow> nat \<Rightarrow> u8 list \<Rightarrow> bool \<times> 'd) option"

section \<open>Sectors\<close>

text \<open>The bytes of the sectors \<open>lba .. lba + count - 1\<close> of a disk \<open>c\<close>.\<close>

definition sectors :: "(nat \<Rightarrow> u8 list) \<Rightarrow> nat \<Rightarrow> nat \<Rightarrow> u8 list" where
  "sectors c lba count = concat (map c [lba..<lba + count])"

text \<open>The disk after the bytes \<open>buf\<close> were written to the sectors from \<open>lba\<close> on.\<close>

definition put_sectors :: "nat \<Rightarrow> nat \<Rightarrow> nat \<Rightarrow> u8 list \<Rightarrow> (nat \<Rightarrow> u8 list) \<Rightarrow> nat \<Rightarrow> u8 list" where
  "put_sectors ss lba count buf c l =
     (if lba \<le> l \<and> l < lba + count then take ss (drop ((l - lba) * ss) buf) else c l)"

lemma sectors_0 [simp]: "sectors c lba 0 = []"
  by (simp add: sectors_def)

lemma sectors_Suc: "sectors c lba (Suc n) = c lba @ sectors c (Suc lba) n"
  by (simp add: sectors_def upt_rec)

lemma sectors_one [simp]: "sectors c lba 1 = c lba"
  by (simp add: sectors_def)

lemma length_sectors:
  "(\<And>l. lba \<le> l \<Longrightarrow> l < lba + n \<Longrightarrow> length (c l) = ss) \<Longrightarrow> length (sectors c lba n) = n * ss"
proof (induction n arbitrary: lba)
  case 0
  then show ?case by simp
next
  case (Suc n)
  have "length (c lba) = ss" by (rule Suc.prems) simp_all
  moreover have "length (sectors c (Suc lba) n) = n * ss" by (rule Suc.IH, rule Suc.prems) simp_all
  ultimately show ?case by (simp add: sectors_Suc)
qed

text \<open>Reading back what was written.\<close>

lemma sectors_put_sectors:
  "length buf = n * ss \<Longrightarrow> sectors (put_sectors ss lba n buf c) lba n = buf"
proof (induction n arbitrary: lba buf c)
  case 0
  then show ?case by simp
next
  case (Suc n)
  let ?c = "put_sectors ss lba (Suc n) buf c"
  have "?c l = put_sectors ss (Suc lba) n (drop ss buf) c l" if l: "Suc lba \<le> l" "l < Suc lba + n" for l
  proof -
    have "(l - lba) * ss = (l - Suc lba) * ss + ss" using l(1) by (auto dest!: le_Suc_ex)
    with l show ?thesis by (simp add: put_sectors_def)
  qed
  then have "sectors ?c (Suc lba) n = sectors (put_sectors ss (Suc lba) n (drop ss buf) c) (Suc lba) n"
    unfolding sectors_def by (intro arg_cong [of _ _ concat] map_cong) auto
  also have "\<dots> = drop ss buf" using Suc.prems by (intro Suc.IH) simp
  finally have "sectors ?c (Suc lba) n = drop ss buf" .
  moreover have "?c lba = take ss buf" by (simp add: put_sectors_def)
  ultimately show ?case by (simp add: sectors_Suc)
qed

lemma sectors_cong: "(\<And>l. lba \<le> l \<Longrightarrow> l < lba + n \<Longrightarrow> c l = c' l) \<Longrightarrow> sectors c lba n = sectors c' lba n"
  unfolding sectors_def by (intro arg_cong [of _ _ concat] map_cong) auto

section \<open>The contract\<close>

text \<open>\<open>disk d\<close> is the contents of the device in the hardware state \<open>d\<close>, \<open>ready d\<close> that it has been
  initialised.  Requests outside the disk are refused (up to the wrap-around of \<^verbatim>\<open>lba + count\<close>).\<close>

locale block_device =
  fixes dev :: "'d IBlockDevice"
    and rd :: "'d \<Rightarrow> nat \<Rightarrow> nat \<Rightarrow> u8 list option \<times> 'd"
    and wr :: "'d \<Rightarrow> nat \<Rightarrow> nat \<Rightarrow> u8 list \<Rightarrow> bool \<times> 'd"
    and disk :: "'d \<Rightarrow> nat \<Rightarrow> u8 list"
    and ready :: "'d \<Rightarrow> bool"
  assumes rd_fun: "bd_read_blocks dev = Some rd" and wr_fun: "bd_write_blocks dev = Some wr"
    and name_short: "length (bd_name dev) < 16" and name_string: "c_string (bd_name dev)"
    and sector_pos: "0 < bd_sector_size dev"
    and total_limit: "bd_total_sectors dev < u64_limit"
    and sector_length: "ready d \<Longrightarrow> l < bd_total_sectors dev \<Longrightarrow> length (disk d l) = bd_sector_size dev"
    and read_ok: "ready d \<Longrightarrow> lba + count \<le> bd_total_sectors dev \<Longrightarrow> rd d lba count = (Some (sectors (disk d) lba count), d)"
    and read_out: "ready d \<Longrightarrow> bd_total_sectors dev < lba + count \<Longrightarrow> lba + count < u64_limit \<Longrightarrow> rd d lba count = (None, d)"
    and write_ok: "ready d \<Longrightarrow> lba + count \<le> bd_total_sectors dev \<Longrightarrow> length buf = count * bd_sector_size dev \<Longrightarrow>
      \<exists>d'. wr d lba count buf = (True, d') \<and> ready d' \<and>
        (\<forall>l < bd_total_sectors dev. disk d' l = put_sectors (bd_sector_size dev) lba count buf (disk d) l)"
    and write_out: "ready d \<Longrightarrow> bd_total_sectors dev < lba + count \<Longrightarrow> lba + count < u64_limit \<Longrightarrow> wr d lba count buf = (False, d)"
begin

lemma length_read: "ready d \<Longrightarrow> lba + count \<le> bd_total_sectors dev \<Longrightarrow>
   length (sectors (disk d) lba count) = count * bd_sector_size dev"
  by (rule length_sectors) (simp add: sector_length)

lemma write_read:
  assumes "ready d" and "lba + count \<le> bd_total_sectors dev" and "length buf = count * bd_sector_size dev"
  shows "\<exists>d'. wr d lba count buf = (True, d') \<and> rd d' lba count = (Some buf, d')"
proof -
  from write_ok [OF assms] obtain d' where d': "wr d lba count buf = (True, d')" "ready d'"
    "\<forall>l < bd_total_sectors dev. disk d' l = put_sectors (bd_sector_size dev) lba count buf (disk d) l" by blast
  have "sectors (disk d') lba count = sectors (put_sectors (bd_sector_size dev) lba count buf (disk d)) lba count"
    using d'(3) assms(2) by (intro sectors_cong) auto
  then have "rd d' lba count = (Some buf, d')"
    using read_ok [OF d'(2) assms(2)] sectors_put_sectors [OF assms(3)] by simp
  with d'(1) show ?thesis by blast
qed

end

end
