(* ===== verification/Storage.thy ===== *)
theory Storage
  imports Block_Device
begin

text \<open>
  The sector cache and the storage manager, \<^verbatim>\<open>kernel/hal/storage/buffer_cache.cpp\<close> and
  \<^verbatim>\<open>storage_manager.cpp\<close>: 64 cached sectors with least-recently-used replacement, the table of block
  devices, and reads through and writes around the cache.  For every device that keeps the block device
  contract, a sequence of reads and writes through the manager behaves like the plain disk.
\<close>

section \<open>The sector cache\<close>

record CacheEntry =
  ce_device_name :: string
  ce_lba :: nat
  ce_data :: "u8 list"
  ce_access_count :: nat
  ce_valid :: bool

record buffer_cache =
  bc_cache :: "CacheEntry list option"
  bc_hitCount :: nat
  bc_missCount :: nat
  bc_accessCounter :: nat

abbreviation CACHE_SIZE :: nat where "CACHE_SIZE \<equiv> 64"
abbreviation MAX_SECTOR_SIZE :: nat where "MAX_SECTOR_SIZE \<equiv> 512"

text \<open>\<^verbatim>\<open>sizeof(CacheEntry)\<close>\<close>

abbreviation CACHE_ENTRY_SIZE :: nat where "CACHE_ENTRY_SIZE \<equiv> 544"

definition zero_entry :: CacheEntry where
  "zero_entry = \<lparr>ce_device_name = [], ce_lba = 0, ce_data = replicate MAX_SECTOR_SIZE 0, ce_access_count = 0, ce_valid = False\<rparr>"

definition bc_Init :: "kheap \<Rightarrow> (buffer_cache \<times> kheap) option" where
  "bc_Init h =
     Option.bind (kmalloc h (CACHE_ENTRY_SIZE * CACHE_SIZE)) (\<lambda>(a, h1).
       Some (\<lparr>bc_cache = (if a \<noteq> 0 then Some (replicate CACHE_SIZE zero_entry) else None),
              bc_hitCount = 0, bc_missCount = 0, bc_accessCounter = 0\<rparr>, h1))"

definition is_entry :: "string \<Rightarrow> nat \<Rightarrow> CacheEntry \<Rightarrow> bool" where
  "is_entry device_name lba e \<longleftrightarrow> ce_valid e \<and> ce_lba e = lba \<and> kstrcmp (ce_device_name e) device_name = 0"

text \<open>\<open>None\<close> is the result -1.\<close>

definition bc_FindEntry :: "string \<Rightarrow> nat \<Rightarrow> buffer_cache \<Rightarrow> nat option" where
  "bc_FindEntry device_name lba c =
     (case bc_cache c of None \<Rightarrow> None | Some es \<Rightarrow> first_slot (is_entry device_name lba) es)"

text \<open>The loop from slot 1 on, with the slot of the smallest count so far.\<close>

fun lru_loop :: "CacheEntry list \<Rightarrow> nat \<Rightarrow> nat \<Rightarrow> nat \<Rightarrow> nat" where
  "lru_loop [] i oldest minAccess = oldest"
| "lru_loop (e # es) i oldest minAccess =
     (if \<not> ce_valid e then i
      else if ce_access_count e < minAccess then lru_loop es (i + 1) i (ce_access_count e)
      else lru_loop es (i + 1) oldest minAccess)"

definition FindLRU :: "buffer_cache \<Rightarrow> nat" where
  "FindLRU c =
     (case bc_cache c of
        None \<Rightarrow> 0
      | Some es \<Rightarrow> lru_loop (drop 1 es) 1 0 (ce_access_count (es ! 0)))"

definition bc_Get :: "string \<Rightarrow> nat \<Rightarrow> nat \<Rightarrow> buffer_cache \<Rightarrow> u8 list option \<times> buffer_cache" where
  "bc_Get device_name lba sector_size c =
     (case (bc_FindEntry device_name lba c, bc_cache c) of
        (Some idx, Some es) \<Rightarrow>
          let ac = (bc_accessCounter c + 1) mod 2 ^ 32
          in (Some (take sector_size (ce_data (es ! idx))),
              c\<lparr>bc_cache := Some (es[idx := (es ! idx)\<lparr>ce_access_count := ac\<rparr>]), bc_accessCounter := ac,
                bc_hitCount := (bc_hitCount c + 1) mod 2 ^ 32\<rparr>)
      | _ \<Rightarrow> (None, c\<lparr>bc_missCount := (bc_missCount c + 1) mod 2 ^ 32\<rparr>))"

definition bc_Put :: "string \<Rightarrow> nat \<Rightarrow> u8 list \<Rightarrow> nat \<Rightarrow> buffer_cache \<Rightarrow> buffer_cache" where
  "bc_Put device_name lba dat sector_size c =
     (case bc_cache c of
        None \<Rightarrow> c
      | Some es \<Rightarrow>
          if sector_size > MAX_SECTOR_SIZE then c
          else let idx = (case bc_FindEntry device_name lba c of Some i \<Rightarrow> i | None \<Rightarrow> FindLRU c);
                   ac = (bc_accessCounter c + 1) mod 2 ^ 32;
                   e = \<lparr>ce_device_name = copy_name 15 device_name, ce_lba = lba,
                        ce_data = take sector_size dat @ drop sector_size (ce_data (es ! idx)),
                        ce_access_count = ac, ce_valid = True\<rparr>
               in c\<lparr>bc_cache := Some (es[idx := e]), bc_accessCounter := ac\<rparr>)"

definition bc_Invalidate :: "string \<Rightarrow> nat \<Rightarrow> buffer_cache \<Rightarrow> buffer_cache" where
  "bc_Invalidate device_name lba c =
     (case (bc_FindEntry device_name lba c, bc_cache c) of
        (Some idx, Some es) \<Rightarrow> c\<lparr>bc_cache := Some (es[idx := (es ! idx)\<lparr>ce_valid := False\<rparr>])\<rparr>
      | _ \<Rightarrow> c)"

definition FlushDevice :: "string \<Rightarrow> buffer_cache \<Rightarrow> buffer_cache" where
  "FlushDevice device_name c =
     c\<lparr>bc_cache := map_option (map (\<lambda>e. if ce_valid e \<and> kstrcmp (ce_device_name e) device_name = 0
                                         then e\<lparr>ce_valid := False\<rparr> else e)) (bc_cache c)\<rparr>"

definition GetHitCount :: "buffer_cache \<Rightarrow> nat" where
  "GetHitCount c = bc_hitCount c"

definition GetMissCount :: "buffer_cache \<Rightarrow> nat" where
  "GetMissCount c = bc_missCount c"

section \<open>The storage manager\<close>

record 'd storage =
  sm_devices :: "'d IBlockDevice option list"
  sm_deviceCount :: nat
  sm_cache :: buffer_cache

abbreviation MAX_DEVICES :: nat where "MAX_DEVICES \<equiv> 16"

definition sm_Init :: "kheap \<Rightarrow> ('d storage \<times> kheap) option" where
  "sm_Init h =
     Option.bind (bc_Init h) (\<lambda>(c, h1).
       Some (\<lparr>sm_devices = replicate MAX_DEVICES None, sm_deviceCount = 0, sm_cache = c\<rparr>, h1))"

definition sm_RegisterDevice :: "'d IBlockDevice option \<Rightarrow> 'd storage \<Rightarrow> 'd storage" where
  "sm_RegisterDevice device st =
     (case device of
        None \<Rightarrow> st
      | Some d \<Rightarrow>
          if sm_deviceCount st \<ge> MAX_DEVICES then st
          else st\<lparr>sm_devices := (sm_devices st)[sm_deviceCount st := Some d], sm_deviceCount := sm_deviceCount st + 1\<rparr>)"

fun find_device :: "'d IBlockDevice option list \<Rightarrow> string \<Rightarrow> 'd IBlockDevice option" where
  "find_device [] name = None"
| "find_device (None # ds) name = find_device ds name"
| "find_device (Some d # ds) name = (if kstrcmp (bd_name d) name = 0 then Some d else find_device ds name)"

definition GetDevice :: "string \<Rightarrow> 'd storage \<Rightarrow> 'd IBlockDevice option" where
  "GetDevice name st = find_device (take (sm_deviceCount st) (sm_devices st)) name"

definition GetDeviceByIndex :: "nat \<Rightarrow> 'd storage \<Rightarrow> 'd IBlockDevice option" where
  "GetDeviceByIndex index st = (if index < sm_deviceCount st then sm_devices st ! index else None)"

definition sm_GetDeviceCount :: "'d storage \<Rightarrow> nat" where
  "sm_GetDeviceCount st = sm_deviceCount st"

text \<open>The loop of \<^verbatim>\<open>ReadSectors\<close> with \<open>k\<close> sectors left, the next one being \<open>lba + i\<close>.  The result is the
  success flag and the bytes written to the buffer.\<close>

fun read_loop ::
  "('d \<Rightarrow> nat \<Rightarrow> nat \<Rightarrow> u8 list option \<times> 'd) \<Rightarrow> string \<Rightarrow> nat \<Rightarrow> nat \<Rightarrow> nat \<Rightarrow> nat \<Rightarrow> buffer_cache \<Rightarrow> 'd
     \<Rightarrow> (bool \<times> u8 list) \<times> buffer_cache \<times> 'd" where
  "read_loop rd name ss lba 0 i c d = ((True, []), c, d)"
| "read_loop rd name ss lba (Suc k) i c d =
     (case bc_Get name (add64 lba i) ss c of
        (Some buf, c1) \<Rightarrow>
          (let ((ok, out), c2, d2) = read_loop rd name ss lba k (i + 1) c1 d in ((ok, buf @ out), c2, d2))
      | (None, c1) \<Rightarrow>
          (case rd d (add64 lba i) 1 of
             (None, d1) \<Rightarrow> ((False, []), c1, d1)
           | (Some buf, d1) \<Rightarrow>
               (let ((ok, out), c2, d2) = read_loop rd name ss lba k (i + 1) (bc_Put name (add64 lba i) buf ss c1) d1
                in ((ok, buf @ out), c2, d2))))"

definition ReadSectors :: "string \<Rightarrow> nat \<Rightarrow> nat \<Rightarrow> 'd storage \<Rightarrow> 'd \<Rightarrow> (bool \<times> u8 list) \<times> 'd storage \<times> 'd" where
  "ReadSectors device_name lba count st d =
     (case GetDevice device_name st of
        None \<Rightarrow> ((False, []), st, d)
      | Some dev \<Rightarrow>
          (case bd_read_blocks dev of
             None \<Rightarrow> ((False, []), st, d)
           | Some rd \<Rightarrow>
               (let (r, c, d1) = read_loop rd device_name (bd_sector_size dev) lba count 0 (sm_cache st) d
                in (r, st\<lparr>sm_cache := c\<rparr>, d1))))"

fun invalidate_loop :: "string \<Rightarrow> nat \<Rightarrow> nat \<Rightarrow> nat \<Rightarrow> buffer_cache \<Rightarrow> buffer_cache" where
  "invalidate_loop name lba 0 i c = c"
| "invalidate_loop name lba (Suc k) i c = invalidate_loop name lba k (i + 1) (bc_Invalidate name (add64 lba i) c)"

definition WriteSectors :: "string \<Rightarrow> nat \<Rightarrow> nat \<Rightarrow> u8 list \<Rightarrow> 'd storage \<Rightarrow> 'd \<Rightarrow> bool \<times> 'd storage \<times> 'd" where
  "WriteSectors device_name lba count buffer st d =
     (case GetDevice device_name st of
        None \<Rightarrow> (False, st, d)
      | Some dev \<Rightarrow>
          (case bd_write_blocks dev of
             None \<Rightarrow> (False, st, d)
           | Some wr \<Rightarrow>
               (let c = invalidate_loop device_name lba count 0 (sm_cache st);
                    (ok, d1) = wr d lba count buffer
                in (ok, st\<lparr>sm_cache := c\<rparr>, d1))))"

section \<open>Coherence\<close>

text \<open>At most one valid entry per device and sector.\<close>

definition unique_keys :: "CacheEntry list \<Rightarrow> bool" where
  "unique_keys es \<longleftrightarrow> (\<forall>i < length es. \<forall>j < length es. ce_valid (es ! i) \<longrightarrow> ce_valid (es ! j) \<longrightarrow>
     ce_device_name (es ! i) = ce_device_name (es ! j) \<longrightarrow> ce_lba (es ! i) = ce_lba (es ! j) \<longrightarrow> i = j)"

definition entries_wf :: "CacheEntry list \<Rightarrow> bool" where
  "entries_wf es \<longleftrightarrow> length es = CACHE_SIZE \<and> unique_keys es \<and> (\<forall>e \<in> set es. c_string (ce_device_name e))"

text \<open>An entry of the device agrees with its disk.\<close>

definition entry_ok :: "string \<Rightarrow> nat \<Rightarrow> nat \<Rightarrow> (nat \<Rightarrow> u8 list) \<Rightarrow> CacheEntry \<Rightarrow> bool" where
  "entry_ok n ss tot dk e \<longleftrightarrow> (ce_valid e \<and> ce_device_name e = n \<and> ce_lba e < tot \<longrightarrow> take ss (ce_data e) = dk (ce_lba e))"

definition coherent :: "string \<Rightarrow> nat \<Rightarrow> nat \<Rightarrow> (nat \<Rightarrow> u8 list) \<Rightarrow> buffer_cache \<Rightarrow> bool" where
  "coherent n ss tot dk c \<longleftrightarrow>
     (\<forall>es. bc_cache c = Some es \<longrightarrow> entries_wf es \<and> (\<forall>e \<in> set es. entry_ok n ss tot dk e))"

definition absent :: "string \<Rightarrow> nat \<Rightarrow> buffer_cache \<Rightarrow> bool" where
  "absent n lba c \<longleftrightarrow> (\<forall>es. bc_cache c = Some es \<longrightarrow> (\<forall>e \<in> set es. \<not> (ce_valid e \<and> ce_device_name e = n \<and> ce_lba e = lba)))"

lemma is_entry_iff: "c_string n \<Longrightarrow> c_string (ce_device_name e) \<Longrightarrow>
   is_entry n lba e \<longleftrightarrow> ce_valid e \<and> ce_device_name e = n \<and> ce_lba e = lba"
  by (auto simp: is_entry_def kstrcmp_eq_0)

lemma lru_loop_less: "oldest < i \<Longrightarrow> lru_loop es i oldest m < i + length es"
proof (induction es arbitrary: i oldest m)
  case (Cons e es)
  have "lru_loop es (i + 1) i m' < i + 1 + length es" "lru_loop es (i + 1) oldest m < i + 1 + length es" for m'
    using Cons.IH [of i "i + 1" m'] Cons.IH [of oldest "i + 1" m] Cons.prems by linarith+
  then show ?case by simp
qed simp

lemma FindLRU_less: "bc_cache c = Some es \<Longrightarrow> length es = CACHE_SIZE \<Longrightarrow> FindLRU c < CACHE_SIZE"
  using lru_loop_less [of 0 1 "drop 1 es"] by (simp add: FindLRU_def)

text \<open>Replacing an entry by one whose key no other valid entry has.\<close>

lemma unique_keys_update:
  assumes "unique_keys es" and "k < length es"
    and "\<And>j. j < length es \<Longrightarrow> j \<noteq> k \<Longrightarrow> ce_valid e \<Longrightarrow> ce_valid (es ! j) \<Longrightarrow>
           ce_device_name (es ! j) = ce_device_name e \<Longrightarrow> ce_lba (es ! j) = ce_lba e \<Longrightarrow> False"
  shows "unique_keys (es[k := e])"
  unfolding unique_keys_def
proof (intro allI impI)
  fix i j
  assume i: "i < length (es[k := e])" and j: "j < length (es[k := e])"
    and v: "ce_valid (es[k := e] ! i)" "ce_valid (es[k := e] ! j)"
    "ce_device_name (es[k := e] ! i) = ce_device_name (es[k := e] ! j)" "ce_lba (es[k := e] ! i) = ce_lba (es[k := e] ! j)"
  show "i = j"
  proof (cases "i = k \<or> j = k")
    case True
    with i j v assms(3) [of i] assms(3) [of j] show ?thesis by (auto simp: nth_list_update split: if_splits)
  next
    case False
    with i j v assms(1) show ?thesis unfolding unique_keys_def by simp
  qed
qed

lemma coherent_update:
  assumes "coherent n ss tot dk c" and "bc_cache c = Some es" and "k < CACHE_SIZE" and "bc_cache c' = Some (es[k := e])"
    and "c_string (ce_device_name e)" and "entry_ok n ss tot dk e"
    and "\<And>j. j < CACHE_SIZE \<Longrightarrow> j \<noteq> k \<Longrightarrow> ce_valid e \<Longrightarrow> ce_valid (es ! j) \<Longrightarrow>
           ce_device_name (es ! j) = ce_device_name e \<Longrightarrow> ce_lba (es ! j) = ce_lba e \<Longrightarrow> False"
  shows "coherent n ss tot dk c'"
proof -
  from assms(1,2) have es: "length es = CACHE_SIZE" "unique_keys es" "\<forall>e \<in> set es. c_string (ce_device_name e)"
    "\<forall>e \<in> set es. entry_ok n ss tot dk e" by (auto simp: coherent_def entries_wf_def)
  have "unique_keys (es[k := e])" using es(1,2) assms(3,7) by (intro unique_keys_update) auto
  moreover have "\<forall>x \<in> set (es[k := e]). c_string (ce_device_name x) \<and> entry_ok n ss tot dk x"
    using es(3,4) assms(5,6) set_update_subset_insert [of es k e] by blast
  ultimately show ?thesis using assms(4) es(1) by (simp add: coherent_def entries_wf_def)
qed

lemma FindEntry_Some:
  assumes "coherent n ss tot dk c" and "c_string m" and "bc_FindEntry m lba c = Some k"
  obtains es where "bc_cache c = Some es" "length es = CACHE_SIZE" "k < CACHE_SIZE" "ce_valid (es ! k)"
    "ce_device_name (es ! k) = m" "ce_lba (es ! k) = lba"
    "\<And>j. j < CACHE_SIZE \<Longrightarrow> j \<noteq> k \<Longrightarrow> ce_valid (es ! j) \<Longrightarrow> ce_device_name (es ! j) = m \<Longrightarrow> ce_lba (es ! j) = lba \<Longrightarrow> False"
proof -
  from assms(3) obtain es where es: "bc_cache c = Some es" "first_slot (is_entry m lba) es = Some k"
    by (auto simp: bc_FindEntry_def split: option.splits)
  from es(1) assms(1) have wf: "length es = CACHE_SIZE" "unique_keys es" "\<forall>e \<in> set es. c_string (ce_device_name e)"
    by (auto simp: coherent_def entries_wf_def)
  have k: "k < length es" "is_entry m lba (es ! k)" using first_slot_SomeD [OF es(2)] by auto
  then have "ce_valid (es ! k)" "ce_device_name (es ! k) = m" "ce_lba (es ! k) = lba"
    using is_entry_iff [OF assms(2)] wf(3) nth_mem [OF k(1)] by auto
  moreover from this k(1) wf(2) have "j < length es \<Longrightarrow> j \<noteq> k \<Longrightarrow> ce_valid (es ! j) \<Longrightarrow> ce_device_name (es ! j) = m \<Longrightarrow>
      ce_lba (es ! j) = lba \<Longrightarrow> False" for j unfolding unique_keys_def by metis
  ultimately show ?thesis unfolding wf(1) using k(1) [unfolded wf(1)] by (intro that [OF es(1) wf(1)])
qed

lemma FindEntry_None:
  assumes "coherent n ss tot dk c" and "c_string m" and "bc_FindEntry m lba c = None"
  shows "absent m lba c"
  unfolding absent_def
proof (intro allI impI ballI)
  fix es e
  assume es: "bc_cache c = Some es" "e \<in> set es"
  then have "c_string (ce_device_name e)" using assms(1) by (auto simp: coherent_def entries_wf_def)
  moreover have "\<not> is_entry m lba e" using assms(3) es by (auto simp: bc_FindEntry_def first_slot_None)
  ultimately show "\<not> (ce_valid e \<and> ce_device_name e = m \<and> ce_lba e = lba)" using is_entry_iff [OF assms(2)] by blast
qed

lemma bc_Get_coherent:
  assumes "coherent n ss tot dk c" and "c_string n" and "lba < tot" and "bc_Get n lba ss c = (r, c')"
  shows "coherent n ss tot dk c' \<and> (r = None \<or> r = Some (dk lba))"
proof (cases "bc_FindEntry n lba c")
  case None
  with assms(1,4) show ?thesis by (auto simp: bc_Get_def coherent_def)
next
  case (Some k)
  from FindEntry_Some [OF assms(1,2) Some] obtain es where es: "bc_cache c = Some es" "length es = CACHE_SIZE"
    "k < CACHE_SIZE" "ce_valid (es ! k)" "ce_device_name (es ! k) = n" "ce_lba (es ! k) = lba"
    "\<And>j. j < CACHE_SIZE \<Longrightarrow> j \<noteq> k \<Longrightarrow> ce_valid (es ! j) \<Longrightarrow> ce_device_name (es ! j) = n \<Longrightarrow> ce_lba (es ! j) = lba \<Longrightarrow> False"
    by blast
  have ok: "entry_ok n ss tot dk (es ! k)" using assms(1) es(1-3) by (auto simp: coherent_def)
  let ?e = "(es ! k)\<lparr>ce_access_count := (bc_accessCounter c + 1) mod 2 ^ 32\<rparr>"
  have r: "r = Some (take ss (ce_data (es ! k)))" "bc_cache c' = Some (es[k := ?e])"
    using assms(4) Some es(1) by (auto simp: bc_Get_def Let_def)
  have "coherent n ss tot dk c'"
    by (rule coherent_update [OF assms(1) es(1) es(3) r(2)]) (use es ok assms(2) in \<open>auto simp: entry_ok_def\<close>)
  with r(1) ok es assms(3) show ?thesis by (simp add: entry_ok_def)
qed

lemma bc_Put_coherent:
  assumes "coherent n ss tot dk c" and "c_string n" and "length n < 16" and "length buf = ss"
    and "lba < tot \<Longrightarrow> buf = dk lba"
  shows "coherent n ss tot dk (bc_Put n lba buf ss c)"
proof (cases "bc_cache c = None \<or> MAX_SECTOR_SIZE < ss")
  case True
  with assms(1) show ?thesis by (auto simp: bc_Put_def coherent_def split: option.splits)
next
  case False
  then obtain es where es: "bc_cache c = Some es" and ss: "ss \<le> MAX_SECTOR_SIZE" by fastforce
  define k where "k = (case bc_FindEntry n lba c of Some i \<Rightarrow> i | None \<Rightarrow> FindLRU c)"
  define e where "e = \<lparr>ce_device_name = n, ce_lba = lba, ce_data = buf @ drop ss (ce_data (es ! k)),
      ce_access_count = (bc_accessCounter c + 1) mod 2 ^ 32, ce_valid = True\<rparr>"
  have put: "bc_cache (bc_Put n lba buf ss c) = Some (es[k := e])"
    using es ss assms(3,4) by (simp add: bc_Put_def Let_def k_def e_def)
  have "take ss (ce_data e) = buf" "ce_lba e = lba" using assms(4) by (simp_all add: e_def)
  then have "entry_ok n ss tot dk e" using assms(5) unfolding entry_ok_def by blast
  then have e: "ce_device_name e = n" "ce_lba e = lba" "entry_ok n ss tot dk e" by (simp_all add: e_def)
  have len: "length es = CACHE_SIZE" using assms(1) es by (auto simp: coherent_def entries_wf_def)
  have "k < CACHE_SIZE \<and> (\<forall>j < CACHE_SIZE. j \<noteq> k \<longrightarrow> \<not> (ce_valid (es ! j) \<and> ce_device_name (es ! j) = n \<and> ce_lba (es ! j) = lba))"
  proof (cases "bc_FindEntry n lba c")
    case None
    have "absent n lba c" by (rule FindEntry_None [OF assms(1,2) None])
    then have no: "\<not> (ce_valid x \<and> ce_device_name x = n \<and> ce_lba x = lba)" if "x \<in> set es" for x
      using that es unfolding absent_def by blast
    have "k = FindLRU c" using None by (simp add: k_def)
    with FindLRU_less [OF es len] no show ?thesis by (metis len nth_mem)
  next
    case (Some i)
    then have "k = i" by (simp add: k_def)
    moreover obtain es' where "bc_cache c = Some es'" "i < CACHE_SIZE"
      "\<And>j. j < CACHE_SIZE \<Longrightarrow> j \<noteq> i \<Longrightarrow> ce_valid (es' ! j) \<Longrightarrow> ce_device_name (es' ! j) = n \<Longrightarrow> ce_lba (es' ! j) = lba \<Longrightarrow> False"
      by (rule FindEntry_Some [OF assms(1,2) Some]) blast
    ultimately show ?thesis using es by (metis option.inject)
  qed
  then have k: "k < CACHE_SIZE" and no: "\<And>j. j < CACHE_SIZE \<Longrightarrow> j \<noteq> k \<Longrightarrow> ce_valid (es ! j) \<Longrightarrow>
      ce_device_name (es ! j) = n \<Longrightarrow> ce_lba (es ! j) = lba \<Longrightarrow> False" by blast+
  show ?thesis
    by (rule coherent_update [OF assms(1) es k put _ e(3)]) (use e(1,2) assms(2) no in \<open>simp_all only:\<close>)
qed

lemma bc_Invalidate_coherent:
  assumes "coherent n ss tot dk c" and "c_string n"
  shows "coherent n ss tot dk (bc_Invalidate n lba c) \<and> absent n lba (bc_Invalidate n lba c) \<and>
    (\<forall>l. absent n l c \<longrightarrow> absent n l (bc_Invalidate n lba c))"
proof (cases "bc_FindEntry n lba c")
  case None
  with assms FindEntry_None [OF assms None] show ?thesis by (simp add: bc_Invalidate_def)
next
  case (Some k)
  from FindEntry_Some [OF assms Some] obtain es where es: "bc_cache c = Some es" "length es = CACHE_SIZE"
    "k < CACHE_SIZE" "ce_valid (es ! k)" "ce_device_name (es ! k) = n" "ce_lba (es ! k) = lba"
    "\<And>j. j < CACHE_SIZE \<Longrightarrow> j \<noteq> k \<Longrightarrow> ce_valid (es ! j) \<Longrightarrow> ce_device_name (es ! j) = n \<Longrightarrow> ce_lba (es ! j) = lba \<Longrightarrow> False"
    by blast
  let ?e = "(es ! k)\<lparr>ce_valid := False\<rparr>"
  have r: "bc_cache (bc_Invalidate n lba c) = Some (es[k := ?e])" using Some es(1) by (simp add: bc_Invalidate_def)
  have c: "coherent n ss tot dk (bc_Invalidate n lba c)"
    by (rule coherent_update [OF assms(1) es(1) es(3) r]) (use es assms(2) in \<open>auto simp: entry_ok_def\<close>)
  have "\<not> (ce_valid e \<and> ce_device_name e = n \<and> ce_lba e = lba)" if "e \<in> set (es[k := ?e])" for e
  proof -
    from that obtain j where "j < CACHE_SIZE" "e = es[k := ?e] ! j" using es(2) by (auto simp: in_set_conv_nth)
    with es(2,3,7) show ?thesis by (auto simp: nth_list_update split: if_splits)
  qed
  then have a: "absent n lba (bc_Invalidate n lba c)" using r by (simp add: absent_def)
  have "absent n l (bc_Invalidate n lba c)" if "absent n l c" for l
  proof -
    have "\<forall>e \<in> set es. \<not> (ce_valid e \<and> ce_device_name e = n \<and> ce_lba e = l)" using that es(1) unfolding absent_def by blast
    then have "\<forall>e \<in> insert ?e (set es). \<not> (ce_valid e \<and> ce_device_name e = n \<and> ce_lba e = l)" by simp
    then show ?thesis using set_update_subset_insert [of es k ?e] r unfolding absent_def by auto
  qed
  with c a show ?thesis by blast
qed

lemma invalidate_loop_coherent:
  "coherent n ss tot dk c \<Longrightarrow> c_string n \<Longrightarrow> lba + i + k < u64_limit \<Longrightarrow>
   coherent n ss tot dk (invalidate_loop n lba k i c) \<and>
   (\<forall>l. absent n l c \<or> lba + i \<le> l \<and> l < lba + i + k \<longrightarrow> absent n l (invalidate_loop n lba k i c))"
proof (induction k arbitrary: i c)
  case 0
  then show ?case by auto
next
  case (Suc k)
  let ?c = "bc_Invalidate n (add64 lba i) c"
  have a: "add64 lba i = lba + i" using Suc.prems(3) by (intro add64_eq) simp
  from bc_Invalidate_coherent [OF Suc.prems(1,2), of "lba + i"]
  have c: "coherent n ss tot dk ?c" "absent n (lba + i) ?c" "\<forall>l. absent n l c \<longrightarrow> absent n l ?c" unfolding a by blast+
  have "lba + (i + 1) + k < u64_limit" using Suc.prems(3) by simp
  from Suc.IH [OF c(1) Suc.prems(2) this] have ih: "coherent n ss tot dk (invalidate_loop n lba k (i + 1) ?c)"
    "\<forall>l. absent n l ?c \<or> lba + (i + 1) \<le> l \<and> l < lba + (i + 1) + k \<longrightarrow> absent n l (invalidate_loop n lba k (i + 1) ?c)" by blast+
  have "absent n l (invalidate_loop n lba k (i + 1) ?c)" if "absent n l c \<or> lba + i \<le> l \<and> l < lba + i + Suc k" for l
    using that c(2,3) ih(2) by (cases "l = lba + i") auto
  with ih(1) show ?case by simp
qed

section \<open>Sequences of requests\<close>

datatype storage_op = ReadOp nat nat | WriteOp nat nat "u8 list"

fun run_storage :: "string \<Rightarrow> storage_op list \<Rightarrow> 'd storage \<Rightarrow> 'd \<Rightarrow> (bool \<times> u8 list) list" where
  "run_storage n [] st d = []"
| "run_storage n (ReadOp lba count # ops) st d =
     (let (r, st1, d1) = ReadSectors n lba count st d in r # run_storage n ops st1 d1)"
| "run_storage n (WriteOp lba count buf # ops) st d =
     (let (ok, st1, d1) = WriteSectors n lba count buf st d in (ok, []) # run_storage n ops st1 d1)"

text \<open>The specification: the same requests on an array of sectors.\<close>

fun run_disk :: "nat \<Rightarrow> storage_op list \<Rightarrow> (nat \<Rightarrow> u8 list) \<Rightarrow> (bool \<times> u8 list) list" where
  "run_disk ss [] dk = []"
| "run_disk ss (ReadOp lba count # ops) dk = (True, sectors dk lba count) # run_disk ss ops dk"
| "run_disk ss (WriteOp lba count buf # ops) dk = (True, []) # run_disk ss ops (put_sectors ss lba count buf dk)"

fun op_in_range :: "nat \<Rightarrow> nat \<Rightarrow> storage_op \<Rightarrow> bool" where
  "op_in_range tot ss (ReadOp lba count) \<longleftrightarrow> lba + count \<le> tot"
| "op_in_range tot ss (WriteOp lba count buf) \<longleftrightarrow> lba + count \<le> tot \<and> length buf = count * ss"

context block_device
begin

lemma read_loop_sectors:
  "ready d \<Longrightarrow> coherent (bd_name dev) (bd_sector_size dev) (bd_total_sectors dev) (disk d) c \<Longrightarrow>
   lba + i + k \<le> bd_total_sectors dev \<Longrightarrow>
   \<exists>c'. read_loop rd (bd_name dev) (bd_sector_size dev) lba k i c d = ((True, sectors (disk d) (lba + i) k), c', d) \<and>
     coherent (bd_name dev) (bd_sector_size dev) (bd_total_sectors dev) (disk d) c'"
proof (induction k arbitrary: i c)
  case 0
  then show ?case by simp
next
  case (Suc k)
  let ?n = "bd_name dev" and ?ss = "bd_sector_size dev" and ?tot = "bd_total_sectors dev"
  have a: "add64 lba i = lba + i" using Suc.prems(3) total_limit by (intro add64_eq) simp
  have lt: "lba + i < ?tot" using Suc.prems(3) by simp
  obtain r c1 where g: "bc_Get ?n (lba + i) ?ss c = (r, c1)" by (rule prod.exhaust)
  from bc_Get_coherent [OF Suc.prems(2) name_string lt g]
  have c1: "coherent ?n ?ss ?tot (disk d) c1" and r: "r = None \<or> r = Some (disk d (lba + i))" by blast+
  define c2 where "c2 = (if r = None then bc_Put ?n (lba + i) (disk d (lba + i)) ?ss c1 else c1)"
  have c2: "coherent ?n ?ss ?tot (disk d) c2"
    using c1 bc_Put_coherent [OF c1 name_string name_short sector_length [OF Suc.prems(1) lt]] by (simp add: c2_def)
  have one: "rd d (lba + i) 1 = (Some (disk d (lba + i)), d)" using read_ok [OF Suc.prems(1), of "lba + i" 1] lt by (simp add: sectors_Suc)
  have "lba + (i + 1) + k \<le> ?tot" using Suc.prems(3) by simp
  from Suc.IH [OF Suc.prems(1) c2 this] obtain c' where
    c': "read_loop rd ?n ?ss lba k (i + 1) c2 d = ((True, sectors (disk d) (lba + (i + 1)) k), c', d)"
    "coherent ?n ?ss ?tot (disk d) c'" by blast
  have "read_loop rd ?n ?ss lba (Suc k) i c d = ((True, disk d (lba + i) @ sectors (disk d) (lba + (i + 1)) k), c', d)"
    using r one c'(1) unfolding c2_def by (auto simp: a g)
  with c'(2) show ?case by (simp add: sectors_Suc)
qed

lemma ReadSectors_disk:
  assumes "ready d" and "coherent (bd_name dev) (bd_sector_size dev) (bd_total_sectors dev) (disk d) (sm_cache st)"
    and "GetDevice (bd_name dev) st = Some dev" and "lba + count \<le> bd_total_sectors dev"
  obtains c where "ReadSectors (bd_name dev) lba count st d = ((True, sectors (disk d) lba count), st\<lparr>sm_cache := c\<rparr>, d)"
    "coherent (bd_name dev) (bd_sector_size dev) (bd_total_sectors dev) (disk d) c"
  using read_loop_sectors [OF assms(1,2), of lba 0 count] assms(3,4) that by (auto simp: ReadSectors_def rd_fun)

lemma coherent_after_write:
  assumes "coherent n ss tot dk c" and "\<And>l. lba \<le> l \<Longrightarrow> l < lba + count \<Longrightarrow> absent n l c"
    and "\<And>l. l < tot \<Longrightarrow> dk' l = put_sectors ss lba count buf dk l"
  shows "coherent n ss tot dk' c"
  unfolding coherent_def
proof (intro allI impI conjI ballI)
  fix es
  assume es: "bc_cache c = Some es"
  then show "entries_wf es" using assms(1) by (simp add: coherent_def)
  fix e
  assume e: "e \<in> set es"
  then have ok: "entry_ok n ss tot dk e" using assms(1) es by (simp add: coherent_def)
  show "entry_ok n ss tot dk' e"
    unfolding entry_ok_def
  proof
    assume v: "ce_valid e \<and> ce_device_name e = n \<and> ce_lba e < tot"
    with es e assms(2) have "\<not> (lba \<le> ce_lba e \<and> ce_lba e < lba + count)" unfolding absent_def by blast
    then have "dk' (ce_lba e) = dk (ce_lba e)" using assms(3) [of "ce_lba e"] v by (auto simp: put_sectors_def)
    with ok v show "take ss (ce_data e) = dk' (ce_lba e)" by (simp add: entry_ok_def)
  qed
qed

lemma WriteSectors_disk:
  assumes "ready d" and "coherent (bd_name dev) (bd_sector_size dev) (bd_total_sectors dev) (disk d) (sm_cache st)"
    and "GetDevice (bd_name dev) st = Some dev" and "lba + count \<le> bd_total_sectors dev"
    and "length buf = count * bd_sector_size dev"
  obtains c d' where "WriteSectors (bd_name dev) lba count buf st d = (True, st\<lparr>sm_cache := c\<rparr>, d')" "ready d'"
    "\<And>l. l < bd_total_sectors dev \<Longrightarrow> disk d' l = put_sectors (bd_sector_size dev) lba count buf (disk d) l"
    "coherent (bd_name dev) (bd_sector_size dev) (bd_total_sectors dev) (disk d') c"
proof -
  let ?c = "invalidate_loop (bd_name dev) lba count 0 (sm_cache st)"
  have lim: "lba + 0 + count < u64_limit" using assms(4) total_limit by simp
  note inv = invalidate_loop_coherent [OF assms(2) name_string lim]
  from write_ok [OF assms(1,4,5)] obtain d' where d': "wr d lba count buf = (True, d')" "ready d'"
    "\<forall>l < bd_total_sectors dev. disk d' l = put_sectors (bd_sector_size dev) lba count buf (disk d) l" by blast
  have "coherent (bd_name dev) (bd_sector_size dev) (bd_total_sectors dev) (disk d') ?c"
    by (rule coherent_after_write [where lba = lba and count = count and buf = buf and dk = "disk d"])
      (use inv d'(3) in auto)
  moreover have "WriteSectors (bd_name dev) lba count buf st d = (True, st\<lparr>sm_cache := ?c\<rparr>, d')"
    using assms(3) d'(1) by (simp add: WriteSectors_def wr_fun)
  ultimately show ?thesis using that d'(2,3) by blast
qed

lemma run_storage_refines:
  assumes "ready d" and "coherent (bd_name dev) (bd_sector_size dev) (bd_total_sectors dev) (disk d) (sm_cache st)"
    and "GetDevice (bd_name dev) st = Some dev"
    and "\<forall>oper \<in> set ops. op_in_range (bd_total_sectors dev) (bd_sector_size dev) oper"
    and "\<forall>l < bd_total_sectors dev. dk l = disk d l"
  shows "run_storage (bd_name dev) ops st d = run_disk (bd_sector_size dev) ops dk"
  using assms
proof (induction ops arbitrary: st d dk)
  case Nil
  then show ?case by simp
next
  case (Cons oper ops)
  have GetDevice_cache: "GetDevice (bd_name dev) (st\<lparr>sm_cache := c\<rparr>) = Some dev" for c
    using Cons.prems(3) by (simp add: GetDevice_def)
  have rest: "\<forall>oper \<in> set ops. op_in_range (bd_total_sectors dev) (bd_sector_size dev) oper" using Cons.prems(4) by simp
  show ?case
  proof (cases oper)
    case (ReadOp lba count)
    then have rng: "lba + count \<le> bd_total_sectors dev" using Cons.prems(4) by simp
    obtain c where c: "ReadSectors (bd_name dev) lba count st d = ((True, sectors (disk d) lba count), st\<lparr>sm_cache := c\<rparr>, d)"
      "coherent (bd_name dev) (bd_sector_size dev) (bd_total_sectors dev) (disk d) c"
      by (rule ReadSectors_disk [OF Cons.prems(1-3) rng])
    have "sectors dk lba count = sectors (disk d) lba count" using Cons.prems(5) rng by (intro sectors_cong) simp
    moreover have "run_storage (bd_name dev) ops (st\<lparr>sm_cache := c\<rparr>) d = run_disk (bd_sector_size dev) ops dk"
      by (rule Cons.IH) (use Cons.prems(1,5) c(2) GetDevice_cache rest in simp_all)
    ultimately show ?thesis using ReadOp c(1) by simp
  next
    case (WriteOp lba count buf)
    then have rng: "lba + count \<le> bd_total_sectors dev" "length buf = count * bd_sector_size dev" using Cons.prems(4) by simp_all
    obtain c d' where c: "WriteSectors (bd_name dev) lba count buf st d = (True, st\<lparr>sm_cache := c\<rparr>, d')" "ready d'"
      "\<And>l. l < bd_total_sectors dev \<Longrightarrow> disk d' l = put_sectors (bd_sector_size dev) lba count buf (disk d) l"
      "coherent (bd_name dev) (bd_sector_size dev) (bd_total_sectors dev) (disk d') c"
      by (rule WriteSectors_disk [OF Cons.prems(1-3) rng], rule that)
    have "run_storage (bd_name dev) ops (st\<lparr>sm_cache := c\<rparr>) d' =
        run_disk (bd_sector_size dev) ops (put_sectors (bd_sector_size dev) lba count buf dk)"
      by (rule Cons.IH) (use Cons.prems(5) c GetDevice_cache rest in \<open>simp_all add: put_sectors_def\<close>)
    then show ?thesis using WriteOp c(1) by simp
  qed
qed

end

lemma coherent_empty: "bc_cache c = None \<or> bc_cache c = Some (replicate CACHE_SIZE zero_entry) \<Longrightarrow> coherent n ss tot dk c"
  by (auto simp: coherent_def entries_wf_def unique_keys_def entry_ok_def zero_entry_def c_string_def)

end
