(* ===== verification/Ramdisk.thy ===== *)
theory Ramdisk
  imports Storage
begin

text \<open>
  The RAM disk, \<^verbatim>\<open>kernel/drivers/ramdisk.cpp\<close>: 256 sectors of 512 bytes in a heap block of the kernel's
  memory.  It keeps the block device contract, so the storage manager on top of it behaves like an array
  of sectors.
\<close>

section \<open>The driver\<close>

text \<open>\<^verbatim>\<open>diskData\<close> and the kernel's memory.\<close>

record ramdisk =
  diskData :: addr
  rd_mem :: bytes

abbreviation SECTOR_SIZE :: nat where "SECTOR_SIZE \<equiv> 512"
abbreviation SECTOR_COUNT :: nat where "SECTOR_COUNT \<equiv> 256"

text \<open>\<open>n\<close> bytes from address \<open>a\<close> on, and storing them, with the addresses of the machine.\<close>

definition load_bytes :: "bytes \<Rightarrow> addr \<Rightarrow> nat \<Rightarrow> u8 list" where
  "load_bytes m a n = map (\<lambda>k. m (add64 a k)) [0..<n]"

definition store_bytes :: "bytes \<Rightarrow> addr \<Rightarrow> nat \<Rightarrow> u8 list \<Rightarrow> bytes" where
  "store_bytes m a n buf = (\<lambda>x. if sub64 x a < n then buf ! sub64 x a else m x)"

definition ReadBlocks :: "ramdisk \<Rightarrow> nat \<Rightarrow> nat \<Rightarrow> u8 list option \<times> ramdisk" where
  "ReadBlocks s lba count =
     (if diskData s = 0 then (None, s)
      else if add64 lba count > SECTOR_COUNT then (None, s)
      else (Some (load_bytes (rd_mem s) (add64 (diskData s) (mul64 lba SECTOR_SIZE)) (count * SECTOR_SIZE mod 2 ^ 32)), s))"

definition WriteBlocks :: "ramdisk \<Rightarrow> nat \<Rightarrow> nat \<Rightarrow> u8 list \<Rightarrow> bool \<times> ramdisk" where
  "WriteBlocks s lba count buffer =
     (if diskData s = 0 then (False, s)
      else if add64 lba count > SECTOR_COUNT then (False, s)
      else (True, s\<lparr>rd_mem := store_bytes (rd_mem s) (add64 (diskData s) (mul64 lba SECTOR_SIZE))
                                (count * SECTOR_SIZE mod 2 ^ 32) buffer\<rparr>))"

definition ramdisk_device :: "ramdisk IBlockDevice" where
  "ramdisk_device = \<lparr>bd_name = ''rd0'', bd_sector_size = SECTOR_SIZE, bd_total_sectors = SECTOR_COUNT,
     bd_total_bytes = SECTOR_SIZE * SECTOR_COUNT, bd_read_blocks = Some ReadBlocks, bd_write_blocks = Some WriteBlocks\<rparr>"

text \<open>\<^verbatim>\<open>Init\<close>; registering a storage device is \<^verbatim>\<open>StorageManager::RegisterDevice\<close>.\<close>

definition ramdisk_Init :: "kheap \<Rightarrow> ramdisk \<Rightarrow> ramdisk storage \<Rightarrow> (kheap \<times> ramdisk \<times> ramdisk storage) option" where
  "ramdisk_Init h s st =
     Option.bind (kmalloc h (SECTOR_SIZE * SECTOR_COUNT)) (\<lambda>(a, h1).
       if a = 0 then Some (h1, s\<lparr>diskData := 0\<rparr>, st)
       else Some (h1, s\<lparr>diskData := a, rd_mem := kmemset (rd_mem s) a 0 (SECTOR_SIZE * SECTOR_COUNT)\<rparr>,
                  sm_RegisterDevice (Some ramdisk_device) st))"

section \<open>The contract\<close>

definition rd_disk :: "ramdisk \<Rightarrow> nat \<Rightarrow> u8 list" where
  "rd_disk s l = map (\<lambda>k. rd_mem s (diskData s + l * SECTOR_SIZE + k)) [0..<SECTOR_SIZE]"

definition rd_ready :: "ramdisk \<Rightarrow> bool" where
  "rd_ready s \<longleftrightarrow> 0 < diskData s \<and> diskData s + SECTOR_SIZE * SECTOR_COUNT < u64_limit"

lemma sectors_rd_disk:
  "sectors (rd_disk s) lba n = map (\<lambda>k. rd_mem s (diskData s + lba * SECTOR_SIZE + k)) [0..<n * SECTOR_SIZE]"
proof (induction n arbitrary: lba)
  case 0
  then show ?case by simp
next
  case (Suc n)
  have shift: "map (\<lambda>k. rd_mem s (diskData s + Suc lba * SECTOR_SIZE + k)) [0..<n * SECTOR_SIZE] =
      map (\<lambda>k. rd_mem s (diskData s + lba * SECTOR_SIZE + k)) [SECTOR_SIZE..<SECTOR_SIZE + n * SECTOR_SIZE]"
    by (rule nth_equalityI) (simp_all add: algebra_simps del: upt_rec_numeral)
  have "[0..<Suc n * SECTOR_SIZE] = [0..<SECTOR_SIZE] @ [SECTOR_SIZE..<SECTOR_SIZE + n * SECTOR_SIZE]"
    using upt_add_eq_append [of 0 SECTOR_SIZE "n * SECTOR_SIZE"] by (simp del: upt_rec_numeral)
  with Suc.IH shift show ?case by (simp add: sectors_Suc rd_disk_def del: upt_rec_numeral)
qed

lemma rd_ready_range: "rd_ready s \<Longrightarrow> x \<le> SECTOR_SIZE * SECTOR_COUNT \<Longrightarrow> diskData s + x < u64_limit"
  by (simp add: rd_ready_def)

lemma ReadBlocks_ok:
  assumes "rd_ready s" and "lba + count \<le> SECTOR_COUNT"
  shows "ReadBlocks s lba count = (Some (sectors (rd_disk s) lba count), s)"
proof -
  have lba: "add64 (diskData s) (mul64 lba SECTOR_SIZE) = diskData s + lba * SECTOR_SIZE"
    using rd_ready_range [OF assms(1), of "lba * SECTOR_SIZE"] assms(2) by (simp add: add64_eq mul64_eq)
  have at: "add64 (diskData s + lba * SECTOR_SIZE) k = diskData s + lba * SECTOR_SIZE + k" if "k < count * SECTOR_SIZE" for k
    using rd_ready_range [OF assms(1), of "lba * SECTOR_SIZE + k"] assms(2) that by (intro add64_eq) simp
  have "load_bytes (rd_mem s) (diskData s + lba * SECTOR_SIZE) (count * SECTOR_SIZE) = sectors (rd_disk s) lba count"
    unfolding load_bytes_def sectors_rd_disk by (rule map_cong [OF refl]) (simp only: at set_upt atLeastLessThan_iff)
  moreover have "count * SECTOR_SIZE mod 2 ^ 32 = count * SECTOR_SIZE" using assms(2) by simp
  ultimately show ?thesis using assms by (simp add: ReadBlocks_def rd_ready_def add64_eq lba)
qed

lemma WriteBlocks_ok:
  assumes "rd_ready s" and "lba + count \<le> SECTOR_COUNT" and "length buf = count * SECTOR_SIZE"
  obtains s' where "WriteBlocks s lba count buf = (True, s')" "rd_ready s'"
    "\<And>l. l < SECTOR_COUNT \<Longrightarrow> rd_disk s' l = put_sectors SECTOR_SIZE lba count buf (rd_disk s) l"
proof -
  let ?b = "diskData s + lba * SECTOR_SIZE" and ?n = "count * SECTOR_SIZE"
  let ?s = "s\<lparr>rd_mem := store_bytes (rd_mem s) ?b ?n buf\<rparr>"
  have b: "add64 (diskData s) (mul64 lba SECTOR_SIZE) = ?b" "?b + ?n < u64_limit"
    using rd_ready_range [OF assms(1), of "lba * SECTOR_SIZE"] rd_ready_range [OF assms(1), of "lba * SECTOR_SIZE + ?n"] assms(2)
    by (simp_all add: add64_eq mul64_eq)
  have w: "WriteBlocks s lba count buf = (True, ?s)"
    using assms by (simp add: WriteBlocks_def rd_ready_def add64_eq b(1) [simplified])
  have store: "rd_mem ?s x = (if ?b \<le> x \<and> x < ?b + ?n then buf ! (x - ?b) else rd_mem s x)" if "x < u64_limit" for x
    using that b(2) by (cases "?b \<le> x") (auto simp: store_bytes_def sub64_eq sub64_underflow)
  have "rd_disk ?s l = put_sectors SECTOR_SIZE lba count buf (rd_disk s) l" if l: "l < SECTOR_COUNT" for l
  proof (rule nth_equalityI)
    have "(l - lba) * SECTOR_SIZE + SECTOR_SIZE \<le> length buf" if "lba \<le> l" "l < lba + count"
      using that assms(3) by (auto dest!: le_Suc_ex)
    then show len: "length (rd_disk ?s l) = length (put_sectors SECTOR_SIZE lba count buf (rd_disk s) l)"
      by (auto simp: rd_disk_def put_sectors_def simp del: upt_rec_numeral)
    fix k
    assume "k < length (rd_disk ?s l)"
    then have k: "k < SECTOR_SIZE" by (simp add: rd_disk_def del: upt_rec_numeral)
    let ?x = "diskData s + l * SECTOR_SIZE + k"
    have "?x < u64_limit" using rd_ready_range [OF assms(1), of "l * SECTOR_SIZE + k"] l k by simp
    then have lhs: "rd_disk ?s l ! k = (if ?b \<le> ?x \<and> ?x < ?b + ?n then buf ! (?x - ?b) else rd_mem s ?x)"
      using k store by (simp add: rd_disk_def del: upt_rec_numeral)
    have iff: "?b \<le> ?x \<and> ?x < ?b + ?n \<longleftrightarrow> lba \<le> l \<and> l < lba + count" using k by linarith
    show "rd_disk ?s l ! k = put_sectors SECTOR_SIZE lba count buf (rd_disk s) l ! k"
    proof (cases "lba \<le> l \<and> l < lba + count")
      case True
      then have "?x - ?b = (l - lba) * SECTOR_SIZE + k" by (auto simp: le_iff_add)
      moreover have "(l - lba) * SECTOR_SIZE + k < length buf" using True k assms(3) by (auto simp: le_iff_add)
      ultimately show ?thesis using True iff lhs k by (simp add: put_sectors_def)
    next
      case False
      with iff lhs k show ?thesis by (auto simp: put_sectors_def rd_disk_def simp del: upt_rec_numeral)
    qed
  qed
  with w assms(1) that [of ?s] show ?thesis by (simp add: rd_ready_def)
qed

interpretation rd0: block_device ramdisk_device ReadBlocks WriteBlocks rd_disk rd_ready
proof
  show "bd_read_blocks ramdisk_device = Some ReadBlocks" "bd_write_blocks ramdisk_device = Some WriteBlocks"
    "length (bd_name ramdisk_device) < 16" "c_string (bd_name ramdisk_device)" "0 < bd_sector_size ramdisk_device"
    "bd_total_sectors ramdisk_device < u64_limit" by (simp_all add: ramdisk_device_def c_string_def)
  fix d l lba count buf
  assume d: "rd_ready d"
  show "length (rd_disk d l) = bd_sector_size ramdisk_device" by (simp add: rd_disk_def ramdisk_device_def del: upt_rec_numeral)
  show "ReadBlocks d lba count = (Some (sectors (rd_disk d) lba count), d)" if "lba + count \<le> bd_total_sectors ramdisk_device"
    using that by (intro ReadBlocks_ok [OF d]) (simp add: ramdisk_device_def)
  show "\<exists>d'. WriteBlocks d lba count buf = (True, d') \<and> rd_ready d' \<and> (\<forall>l < bd_total_sectors ramdisk_device.
      rd_disk d' l = put_sectors (bd_sector_size ramdisk_device) lba count buf (rd_disk d) l)"
    if "lba + count \<le> bd_total_sectors ramdisk_device" "length buf = count * bd_sector_size ramdisk_device"
    using WriteBlocks_ok [OF d, of lba count buf] that by (auto simp: ramdisk_device_def)
  assume "bd_total_sectors ramdisk_device < lba + count" "lba + count < u64_limit"
  then show "ReadBlocks d lba count = (None, d)" "WriteBlocks d lba count buf = (False, d)"
    by (simp_all add: ReadBlocks_def WriteBlocks_def ramdisk_device_def add64_eq)
qed

section \<open>Properties\<close>

lemma kmalloc_below:
  assumes "heap_inv h" and "n \<le> kheap_max" and "kmalloc h n = Some (p, h')" and "p \<noteq> 0"
  shows "p + n < u64_limit \<and> heap_inv h'"
proof -
  from assms(1) obtain ss where ok: "heap_ok h ss" by (rule heap_invE)
  have "p = fst (alloc_segs (align16 n) ss)"
    by (rule kheap_Allocate_cases [OF ok assms(2)]) (use assms(3,4) in \<open>simp_all add: kmalloc_def\<close>)
  from alloc_segs_in_range [OF ok assms(2) this assms(4)] ok have "p + n < u64_limit" by (simp add: heap_ok_def)
  with kheap.alloc_inv [OF assms(1,2)] assms(3) show ?thesis by (simp add: kmalloc_def)
qed

text \<open>C17. After the storage manager and the RAM disk are initialised, every sequence of in-range reads and
  writes of \<^verbatim>\<open>rd0\<close> through the cached storage manager returns what the same sequence returns on a plain
  array of sectors that starts out zero: the cache is never stale.\<close>

theorem cached_storage_refines_disk:
  assumes "heap_inv h" and "sm_Init h = Some (st, h1)" and "ramdisk_Init h1 s st = Some (h2, s', st')" and "diskData s' \<noteq> 0"
    and "\<forall>oper \<in> set ops. op_in_range SECTOR_COUNT SECTOR_SIZE oper"
  shows "run_storage ''rd0'' ops st' s' = run_disk SECTOR_SIZE ops (\<lambda>_. replicate SECTOR_SIZE 0)"
proof -
  let ?N = "SECTOR_SIZE * SECTOR_COUNT"
  from assms(2) obtain a where a: "kmalloc h (CACHE_ENTRY_SIZE * CACHE_SIZE) = Some (a, h1)"
    and st: "sm_devices st = replicate 16 None" "sm_deviceCount st = 0"
    "bc_cache (sm_cache st) = None \<or> bc_cache (sm_cache st) = Some (replicate CACHE_SIZE zero_entry)"
    by (auto simp: sm_Init_def bc_Init_def bind_eq_Some_conv)
  have h1: "heap_inv h1" using kheap.alloc_inv [OF assms(1) _ a [unfolded kmalloc_def]] by simp
  from assms(3,4) obtain b where b: "kmalloc h1 ?N = Some (b, h2)" "b \<noteq> 0" "diskData s' = b"
    "rd_mem s' = kmemset (rd_mem s) b 0 ?N" "st' = sm_RegisterDevice (Some ramdisk_device) st"
    by (auto simp: ramdisk_Init_def bind_eq_Some_conv split: if_splits)
  have ready: "rd_ready s'" using kmalloc_below [OF h1 _ b(1,2)] b(2,3) by (simp add: rd_ready_def)
  have dev: "GetDevice (bd_name ramdisk_device) st' = Some ramdisk_device"
  proof -
    have "take 1 ((replicate 16 None)[0 := Some ramdisk_device]) = [Some ramdisk_device]" by (simp add: numeral_eq_Suc)
    then have "take (sm_deviceCount st') (sm_devices st') = [Some ramdisk_device]"
      using st(1,2) b(5) by (simp add: sm_RegisterDevice_def)
    then show ?thesis by (simp add: GetDevice_def kstrcmp_eq_0 [OF rd0.name_string rd0.name_string])
  qed
  have coh: "coherent (bd_name ramdisk_device) (bd_sector_size ramdisk_device) (bd_total_sectors ramdisk_device) (rd_disk s') (sm_cache st')"
    by (rule coherent_empty) (use st b(5) in \<open>simp add: sm_RegisterDevice_def\<close>)
  have zero: "\<forall>l < bd_total_sectors ramdisk_device. replicate SECTOR_SIZE 0 = rd_disk s' l"
  proof (intro allI impI)
    fix l
    assume "l < bd_total_sectors ramdisk_device"
    then have l: "l < SECTOR_COUNT" by (simp add: ramdisk_device_def)
    show "replicate SECTOR_SIZE 0 = rd_disk s' l"
      using l b(3,4) by (intro nth_equalityI) (simp_all add: rd_disk_def kmemset_spec del: upt_rec_numeral)
  qed
  have rng: "\<forall>oper \<in> set ops. op_in_range (bd_total_sectors ramdisk_device) (bd_sector_size ramdisk_device) oper"
    using assms(5) by (simp add: ramdisk_device_def)
  from rd0.run_storage_refines [OF ready coh dev rng zero] show ?thesis by (simp add: ramdisk_device_def)
qed

definition demo_heap :: kheap where
  "demo_heap = kheap_Init (\<lambda>_. undefined) 4096 262144"

lemma demo_heap_boot:
  "\<exists>st h1 h2 s' st'. sm_Init demo_heap = Some (st, h1) \<and>
     ramdisk_Init h1 \<lparr>diskData = 0, rd_mem = (\<lambda>_. 0)\<rparr> st = Some (h2, s', st') \<and> diskData s' \<noteq> 0"
proof -
  have ok: "heap_ok demo_heap [mk_seg 4096 262112 True]"
    using kheap_Init_ok [of 4096 262144] by (simp add: demo_heap_def dvd_def)
  from kheap_Allocate_refines [OF this, of 34816] obtain h1 where
    h1: "kheap_Allocate demo_heap 34816 = Some (4128, h1)" "heap_ok h1 [mk_seg 4096 34816 False, mk_seg 38944 227264 True]"
    by (auto simp: align16_def add64_def)
  from kheap_Allocate_refines [OF this(2), of 131072] obtain h2 where "kheap_Allocate h1 131072 = Some (38976, h2)"
    by (auto simp: align16_def add64_def)
  with h1(1) show ?thesis by (simp add: sm_Init_def bc_Init_def ramdisk_Init_def kmalloc_def)
qed

theorem cached_storage_refines_disk_witness:
  "\<exists>st (s :: ramdisk). run_storage ''rd0'' [WriteOp 3 1 (replicate 512 7), ReadOp 3 1] st s = [(True, []), (True, replicate 512 7)]"
proof -
  from demo_heap_boot obtain st h1 h2 s' st' where b: "sm_Init demo_heap = Some (st, h1)"
    "ramdisk_Init h1 \<lparr>diskData = 0, rd_mem = (\<lambda>_. 0)\<rparr> st = Some (h2, s', st')" "diskData s' \<noteq> 0" by blast
  have "heap_ok demo_heap [mk_seg 4096 262112 True]"
    using kheap_Init_ok [of 4096 262144] by (simp add: demo_heap_def dvd_def)
  then have inv: "heap_inv demo_heap" using heap_ok_inv by blast
  have rng: "\<forall>oper \<in> set [WriteOp 3 1 (replicate 512 7), ReadOp 3 1]. op_in_range SECTOR_COUNT SECTOR_SIZE oper" by simp
  have "sectors (put_sectors SECTOR_SIZE 3 1 (replicate 512 7) dk) 3 1 = replicate 512 7" for dk
    by (rule sectors_put_sectors) simp
  then show ?thesis using cached_storage_refines_disk [OF inv b rng]
    by (intro exI [of _ st'] exI [of _ s']) (simp del: sectors_one)
qed

text \<open>The range check of the driver adds \<^verbatim>\<open>lba\<close> and \<^verbatim>\<open>count\<close> in 64 bits: a sector number just below
  \<open>2^64\<close> passes it and reads the memory in front of the disk.\<close>

lemma ReadBlocks_wraps:
  assumes "rd_ready s" and "SECTOR_SIZE \<le> diskData s"
  shows "\<exists>buf. ReadBlocks s (u64_limit - 1) 1 = (Some buf, s) \<and> length buf = SECTOR_SIZE \<and> buf ! 0 = rd_mem s (diskData s - SECTOR_SIZE)"
proof -
  have "add64 (u64_limit - 1) 1 = 0" by (simp add: add64_def)
  moreover have "mul64 (u64_limit - 1) SECTOR_SIZE = u64_limit - SECTOR_SIZE" by (simp add: mul64_def)
  moreover have "add64 (diskData s) (u64_limit - SECTOR_SIZE) = diskData s - SECTOR_SIZE"
    using assms rd_ready_range [OF assms(1), of 0] by (simp add: add64_def mod_if)
  moreover have "add64 (diskData s - SECTOR_SIZE) 0 = diskData s - SECTOR_SIZE"
    using rd_ready_range [OF assms(1), of 0] by (simp add: add64_def)
  ultimately show ?thesis using assms
    by (simp add: ReadBlocks_def rd_ready_def load_bytes_def del: upt_rec_numeral)
qed

end
