(* ===== verification/Mount.thy ===== *)
theory Mount
  imports KStd "HOL-Library.Sublist"
begin

text \<open>
  The mount table, \<^verbatim>\<open>kernel/fs/mount.cpp\<close>: sixteen slots, the registered file system drivers, and the
  longest-prefix search \<^verbatim>\<open>FindMount\<close>.  A driver's table of operations is the type parameter \<open>'o\<close>: the
  code of this file stores it and never calls it.  The operations that change the table are compared with a table of sixteen places
  and the list of registered drivers (\<open>mount_spec_step\<close>).
\<close>

section \<open>State\<close>

record 'o IFileSystem =
  fs_name :: "string option"
  fs_ops :: 'o
  fs_private_data :: addr

record 'o MountPoint =
  mp_path :: string
  mp_device :: string
  mp_fs_type :: string
  mp_flags :: nat
  mp_fs :: "'o IFileSystem option"
  mp_active :: bool

record 'o mount_state =
  mt_mounts :: "'o MountPoint list"
  mt_mountCount :: int
  mt_registeredFS :: "'o IFileSystem option list"
  mt_fsCount :: nat

abbreviation MAX_MOUNT_POINTS :: nat where "MAX_MOUNT_POINTS \<equiv> 16"
abbreviation MAX_PATH_LENGTH :: nat where "MAX_PATH_LENGTH \<equiv> 64"
abbreviation MAX_DEVICE_LENGTH :: nat where "MAX_DEVICE_LENGTH \<equiv> 32"
abbreviation MAX_FSTYPE_LENGTH :: nat where "MAX_FSTYPE_LENGTH \<equiv> 16"
abbreviation MAX_FS :: nat where "MAX_FS \<equiv> 16"

section \<open>Operations\<close>

definition mount_Init :: "'o mount_state \<Rightarrow> 'o mount_state" where
  "mount_Init st = st\<lparr>mt_mountCount := 0, mt_fsCount := 0,
     mt_mounts := map (\<lambda>m. m\<lparr>mp_active := False, mp_fs := None\<rparr>) (mt_mounts st)\<rparr>"

text \<open>The \<open>name\<close> argument is not used by the code.\<close>

definition RegisterFS :: "string \<Rightarrow> 'o IFileSystem option \<Rightarrow> 'o mount_state \<Rightarrow> bool \<times> 'o mount_state" where
  "RegisterFS name fs_template st =
     (if mt_fsCount st \<ge> MAX_FS then (False, st)
      else (True, st\<lparr>mt_registeredFS := (mt_registeredFS st)[mt_fsCount st := fs_template],
                     mt_fsCount := mt_fsCount st + 1\<rparr>))"

text \<open>The outer option is \<open>None\<close> when the search dereferences a null driver or a null name.\<close>

fun find_fs :: "'o IFileSystem option list \<Rightarrow> string \<Rightarrow> 'o IFileSystem option option" where
  "find_fs [] name = Some None"
| "find_fs (None # fss) name = None"
| "find_fs (Some fs # fss) name =
     (case fs_name fs of
        None \<Rightarrow> None
      | Some n \<Rightarrow> if kstrcmp n name = 0 then Some (Some fs) else find_fs fss name)"

definition GetFSByName :: "string \<Rightarrow> 'o mount_state \<Rightarrow> 'o IFileSystem option option" where
  "GetFSByName name st = find_fs (take (mt_fsCount st) (mt_registeredFS st)) name"

text \<open>The first inactive slot at or after \<open>i\<close>.\<close>

fun free_slot :: "'o MountPoint list \<Rightarrow> nat \<Rightarrow> nat option" where
  "free_slot [] i = None"
| "free_slot (m # ms) i = (if \<not> mp_active m then Some i else free_slot ms (i + 1))"

text \<open>\<^verbatim>\<open>Mount\<close>; a null path or device leaves the empty string.\<close>

definition mount_Mount ::
  "string option \<Rightarrow> string option \<Rightarrow> string \<Rightarrow> nat \<Rightarrow> 'o mount_state \<Rightarrow> (bool \<times> 'o mount_state) option" where
  "mount_Mount device path fs_type flags st =
     (if mt_mountCount st \<ge> int MAX_MOUNT_POINTS then Some (False, st)
      else case free_slot (mt_mounts st) 0 of
             None \<Rightarrow> Some (False, st)
           | Some slot \<Rightarrow>
               Option.bind (GetFSByName fs_type st) (\<lambda>r. case r of
                 None \<Rightarrow> Some (False, st)
               | Some fs \<Rightarrow>
                   Some (True, st\<lparr>mt_mounts := (mt_mounts st)[slot :=
                        \<lparr>mp_path = copy_name (MAX_PATH_LENGTH - 1) (case path of Some p \<Rightarrow> p | None \<Rightarrow> []),
                         mp_device = copy_name (MAX_DEVICE_LENGTH - 1) (case device of Some d \<Rightarrow> d | None \<Rightarrow> []),
                         mp_fs_type = copy_name (MAX_FSTYPE_LENGTH - 1) fs_type,
                         mp_flags = flags, mp_fs = Some fs, mp_active = True\<rparr>],
                      mt_mountCount := mt_mountCount st + 1\<rparr>)))"

fun unmount_slot :: "'o MountPoint list \<Rightarrow> string \<Rightarrow> nat \<Rightarrow> nat option" where
  "unmount_slot [] path i = None"
| "unmount_slot (m # ms) path i =
     (if mp_active m \<and> kstrcmp (mp_path m) path = 0 then Some i else unmount_slot ms path (i + 1))"

definition Unmount :: "string \<Rightarrow> 'o mount_state \<Rightarrow> bool \<times> 'o mount_state" where
  "Unmount path st =
     (case unmount_slot (mt_mounts st) path 0 of
        None \<Rightarrow> (False, st)
      | Some i \<Rightarrow> (True, st\<lparr>mt_mounts := (mt_mounts st)[i := (mt_mounts st ! i)\<lparr>mp_active := False, mp_fs := None\<rparr>],
                            mt_mountCount := mt_mountCount st - 1\<rparr>))"

text \<open>\<^verbatim>\<open>path[j]\<close> of a C string: the NUL at its end.\<close>

definition char0 :: "string \<Rightarrow> nat \<Rightarrow> char" where
  "char0 s j = (if j < length s then s ! j else CHR 0x00)"

text \<open>The comparison loop: \<open>k\<close> characters left, at position \<open>j\<close>.\<close>

fun match_loop :: "string \<Rightarrow> string \<Rightarrow> nat \<Rightarrow> nat \<Rightarrow> bool" where
  "match_loop path mpath 0 j = True"
| "match_loop path mpath (Suc k) j = (if char0 path j \<noteq> char0 mpath j then False else match_loop path mpath k (j + 1))"

text \<open>The search over the slots from \<open>i\<close> on, with the best slot so far and its length.\<close>

fun find_mount_loop :: "string \<Rightarrow> 'o MountPoint list \<Rightarrow> nat \<Rightarrow> nat option \<Rightarrow> nat \<Rightarrow> nat option \<times> nat" where
  "find_mount_loop path [] i best best_len = (best, best_len)"
| "find_mount_loop path (m # ms) i best best_len =
     (if \<not> mp_active m then find_mount_loop path ms (i + 1) best best_len
      else let len = kstrlen (mp_path m); mtch = match_loop path (mp_path m) len 0
           in if mtch \<and> len > best_len \<and> (char0 path len = CHR ''/'' \<or> char0 path len = CHR 0x00 \<or> len = 1)
              then find_mount_loop path ms (i + 1) (Some i) len
              else find_mount_loop path ms (i + 1) best best_len)"

text \<open>The slot and the remaining path (the out parameter, set only when a mount is found).\<close>

definition FindMount :: "string \<Rightarrow> 'o mount_state \<Rightarrow> (nat \<times> string) option" where
  "FindMount path st =
     (case find_mount_loop path (mt_mounts st) 0 None 0 of
        (None, _) \<Rightarrow> None
      | (Some i, best_len) \<Rightarrow>
          let rem = drop best_len path
          in Some (i, case rem of CHR ''/'' # r \<Rightarrow> r | _ \<Rightarrow> rem))"

definition GetMount :: "int \<Rightarrow> 'o mount_state \<Rightarrow> 'o MountPoint option" where
  "GetMount index st =
     (if index < 0 \<or> index \<ge> int MAX_MOUNT_POINTS then None
      else let m = mt_mounts st ! nat index in if mp_active m then Some m else None)"

definition GetMountCount :: "'o mount_state \<Rightarrow> int" where
  "GetMountCount st = mt_mountCount st"

definition AddMount :: "string option \<Rightarrow> 'o IFileSystem option \<Rightarrow> 'o mount_state \<Rightarrow> bool \<times> 'o mount_state" where
  "AddMount path fs st =
     (case (path, fs) of
        (Some p, Some f) \<Rightarrow>
          (case free_slot (mt_mounts st) 0 of
             None \<Rightarrow> (False, st)
           | Some slot \<Rightarrow>
               let len = (if kstrlen p \<ge> MAX_PATH_LENGTH then MAX_PATH_LENGTH - 1 else kstrlen p);
                   ty = (case fs_name f of
                           None \<Rightarrow> []
                         | Some n \<Rightarrow> take (if kstrlen n \<ge> MAX_FSTYPE_LENGTH then MAX_FSTYPE_LENGTH - 1 else kstrlen n) n)
               in (True, st\<lparr>mt_mounts := (mt_mounts st)[slot :=
                      \<lparr>mp_path = take len p, mp_device = [], mp_fs_type = ty, mp_flags = 0, mp_fs = Some f, mp_active = True\<rparr>],
                    mt_mountCount := mt_mountCount st + 1\<rparr>))
      | _ \<Rightarrow> (False, st))"

section \<open>The table\<close>

text \<open>The counter is the number of active slots, and the paths are C strings.\<close>

definition mount_inv :: "'o mount_state \<Rightarrow> bool" where
  "mount_inv st \<longleftrightarrow> length (mt_mounts st) = MAX_MOUNT_POINTS \<and>
     mt_mountCount st = int (length (filter mp_active (mt_mounts st))) \<and>
     (\<forall>m \<in> set (mt_mounts st). mp_active m \<longrightarrow> c_string (mp_path m) \<and> mp_fs m \<noteq> None)"

lemma free_slot_Some: "free_slot ms i = Some j \<Longrightarrow> \<exists>k < length ms. j = i + k \<and> \<not> mp_active (ms ! k)"
proof (induction ms arbitrary: i)
  case (Cons m ms)
  show ?case
  proof (cases "mp_active m")
    case True
    with Cons obtain k where "k < length ms" "j = i + 1 + k" "\<not> mp_active (ms ! k)" by fastforce
    then show ?thesis by (intro exI [of _ "Suc k"]) simp
  next
    case False
    with Cons.prems show ?thesis by auto
  qed
qed simp

lemma free_slot_None: "free_slot ms i = None \<longleftrightarrow> (\<forall>m \<in> set ms. mp_active m)"
  by (induction ms arbitrary: i) auto

lemma unmount_slot_Some:
  "unmount_slot ms p i = Some j \<Longrightarrow> \<exists>k < length ms. j = i + k \<and> mp_active (ms ! k) \<and> kstrcmp (mp_path (ms ! k)) p = 0"
proof (induction ms arbitrary: i)
  case (Cons m ms)
  show ?case
  proof (cases "mp_active m \<and> kstrcmp (mp_path m) p = 0")
    case True
    with Cons.prems show ?thesis by auto
  next
    case False
    with Cons.prems have "unmount_slot ms p (i + 1) = Some j" by (simp only: unmount_slot.simps if_False)
    from Cons.IH [OF this] obtain k where "k < length ms" "j = i + 1 + k" "mp_active (ms ! k)" "kstrcmp (mp_path (ms ! k)) p = 0"
      by blast
    then show ?thesis by (intro exI [of _ "Suc k"]) simp
  qed
qed simp

lemma filter_update_count:
  "k < length ms \<Longrightarrow> length (filter P (ms[k := x])) + (if P (ms ! k) then 1 else 0) =
     length (filter P ms) + (if P x then 1 else 0)"
proof (induction ms arbitrary: k)
  case (Cons m ms)
  then show ?case by (cases k) auto
qed simp

lemma c_string_take: "c_string s \<Longrightarrow> c_string (take n s)"
  by (auto simp: c_string_def dest: in_set_takeD)

lemma mount_inv_set:
  assumes "mount_inv st" and "k < MAX_MOUNT_POINTS" and "\<not> mp_active (mt_mounts st ! k)" and "mp_active m"
    and "c_string (mp_path m)" and "mp_fs m \<noteq> None"
  shows "mount_inv (st\<lparr>mt_mounts := (mt_mounts st)[k := m], mt_mountCount := mt_mountCount st + 1\<rparr>)"
proof -
  have k: "k < length (mt_mounts st)" using assms(1,2) by (simp add: mount_inv_def)
  have "length (filter mp_active ((mt_mounts st)[k := m])) = length (filter mp_active (mt_mounts st)) + 1"
    using filter_update_count [OF k, of mp_active m] assms(3,4) by simp
  moreover have "\<forall>x \<in> set ((mt_mounts st)[k := m]). mp_active x \<longrightarrow> c_string (mp_path x) \<and> mp_fs x \<noteq> None"
    using assms(1,5,6) set_update_subset_insert [of "mt_mounts st" k m] unfolding mount_inv_def by blast
  ultimately show ?thesis using assms(1) by (simp add: mount_inv_def)
qed

lemma mount_Init_inv: "length (mt_mounts st) = MAX_MOUNT_POINTS \<Longrightarrow> mount_inv (mount_Init st)"
  by (auto simp: mount_inv_def mount_Init_def filter_empty_conv)

lemma AddMount_inv:
  assumes "mount_inv st" and "c_string p" and "AddMount (Some p) fs st = (ok, st')"
  shows "mount_inv st'"
proof (cases "fs = None \<or> free_slot (mt_mounts st) 0 = None")
  case True
  with assms(1,3) show ?thesis by (auto simp: AddMount_def split: option.splits)
next
  case False
  then obtain f j where f: "fs = Some f" "free_slot (mt_mounts st) 0 = Some j" by (cases fs; cases "free_slot (mt_mounts st) 0") auto
  from free_slot_Some [OF f(2)] assms(1) have j: "j < MAX_MOUNT_POINTS" "\<not> mp_active (mt_mounts st ! j)"
    by (auto simp: mount_inv_def)
  show ?thesis using assms f mount_inv_set [OF assms(1) j] by (auto simp: AddMount_def Let_def c_string_take)
qed

lemma mount_Mount_inv:
  assumes "mount_inv st" and "c_string p" and "mount_Mount dev (Some p) ty fl st = Some (ok, st')"
  shows "mount_inv st'"
proof (cases "ok")
  case True
  then obtain j fs where f: "free_slot (mt_mounts st) 0 = Some j"
    "st' = st\<lparr>mt_mounts := (mt_mounts st)[j := \<lparr>mp_path = copy_name 63 p, mp_device = copy_name 31 (case dev of Some d \<Rightarrow> d | None \<Rightarrow> []),
        mp_fs_type = copy_name 15 ty, mp_flags = fl, mp_fs = Some fs, mp_active = True\<rparr>], mt_mountCount := mt_mountCount st + 1\<rparr>"
    using assms(3) by (auto simp: mount_Mount_def bind_eq_Some_conv split: if_splits option.splits)
  from free_slot_Some [OF f(1)] assms(1) have j: "j < MAX_MOUNT_POINTS" "\<not> mp_active (mt_mounts st ! j)"
    by (auto simp: mount_inv_def)
  show ?thesis using f(2) mount_inv_set [OF assms(1) j] assms(2) by (simp add: copy_name_take c_string_take)
next
  case False
  with assms(1,3) show ?thesis by (auto simp: mount_Mount_def bind_eq_Some_conv split: if_splits option.splits)
qed

lemma Unmount_inv:
  assumes "mount_inv st" and "Unmount p st = (ok, st')"
  shows "mount_inv st'"
proof (cases "unmount_slot (mt_mounts st) p 0")
  case None
  with assms show ?thesis by (simp add: Unmount_def)
next
  case (Some j)
  from unmount_slot_Some [OF this] have j: "j < length (mt_mounts st)" "mp_active (mt_mounts st ! j)" by auto
  let ?m = "(mt_mounts st ! j)\<lparr>mp_active := False, mp_fs := None\<rparr>"
  have "length (filter mp_active ((mt_mounts st)[j := ?m])) + 1 = length (filter mp_active (mt_mounts st))"
    using filter_update_count [OF j(1), of mp_active ?m] j(2) by simp
  moreover have "\<forall>x \<in> set ((mt_mounts st)[j := ?m]). mp_active x \<longrightarrow> c_string (mp_path x) \<and> mp_fs x \<noteq> None"
  proof
    fix x
    assume "x \<in> set ((mt_mounts st)[j := ?m])"
    then have "x = ?m \<or> x \<in> set (mt_mounts st)" using set_update_subset_insert [of "mt_mounts st" j ?m] by blast
    then show "mp_active x \<longrightarrow> c_string (mp_path x) \<and> mp_fs x \<noteq> None" using assms(1) unfolding mount_inv_def by auto
  qed
  ultimately show ?thesis using assms Some by (auto simp: Unmount_def mount_inv_def)
qed

section \<open>The search\<close>

text \<open>What the search is for: an active mount whose path is a prefix of the path that ends at a component
  boundary (a one-character mount path matches every path it is a prefix of).\<close>

definition mount_matches :: "string \<Rightarrow> 'o MountPoint \<Rightarrow> bool" where
  "mount_matches path m \<longleftrightarrow> mp_active m \<and> mp_path m \<noteq> [] \<and> prefix (mp_path m) path \<and>
     (length (mp_path m) = 1 \<or> (case drop (length (mp_path m)) path of [] \<Rightarrow> True | c # _ \<Rightarrow> c = CHR ''/''))"

lemma match_loop_all: "match_loop path mpath k j \<longleftrightarrow> (\<forall>i < k. char0 path (j + i) = char0 mpath (j + i))"
proof (induction k arbitrary: j)
  case (Suc k)
  have "(\<forall>i < Suc k. char0 path (j + i) = char0 mpath (j + i)) \<longleftrightarrow>
      char0 path j = char0 mpath j \<and> (\<forall>i < k. char0 path (j + 1 + i) = char0 mpath (j + 1 + i))"
    by (auto simp: less_Suc_eq_0_disj)
  with Suc show ?case by simp
qed simp

lemma match_loop_prefix:
  assumes "c_string mpath" and "c_string path"
  shows "match_loop path mpath (length mpath) 0 \<longleftrightarrow> prefix mpath path"
proof
  assume "match_loop path mpath (length mpath) 0"
  then have eq: "char0 path i = mpath ! i" if "i < length mpath" for i
    using that by (auto simp: match_loop_all char0_def)
  have nth: "i < length path \<and> path ! i = mpath ! i" if "i < length mpath" for i
  proof -
    have "mpath ! i \<noteq> CHR 0x00" using assms(1) nth_mem [OF that] by (auto simp: c_string_def)
    with eq [OF that] show ?thesis by (auto simp: char0_def split: if_splits)
  qed
  have "length mpath \<le> length path" using nth [of "length mpath - 1"] by (cases mpath) auto
  then have "take (length mpath) path = mpath" using nth by (intro nth_equalityI) auto
  then show "prefix mpath path" by (metis take_is_prefix)
next
  assume "prefix mpath path"
  then obtain r where "path = mpath @ r" by (auto simp: prefix_def)
  then show "match_loop path mpath (length mpath) 0" by (simp add: match_loop_all char0_def nth_append)
qed

lemma boundary_eq:
  assumes "c_string path"
  shows "(char0 path n = CHR ''/'' \<or> char0 path n = CHR 0x00) \<longleftrightarrow> (case drop n path of [] \<Rightarrow> True | c # _ \<Rightarrow> c = CHR ''/'')"
proof (cases "n < length path")
  case True
  then have "drop n path = path ! n # drop (Suc n) path" by (simp add: Cons_nth_drop_Suc)
  moreover have "path ! n \<noteq> CHR 0x00" using assms nth_mem [OF True] by (auto simp: c_string_def)
  ultimately show ?thesis using True by (simp add: char0_def)
qed (simp add: char0_def)

lemma find_mount_loop_spec:
  assumes "c_string path" and "\<forall>m \<in> set ms. mp_active m \<longrightarrow> c_string (mp_path m)"
    and "find_mount_loop path ms i b bl = (b', bl')"
  shows "b' = b \<and> bl' = bl \<and> (\<forall>m \<in> set ms. mount_matches path m \<longrightarrow> length (mp_path m) \<le> bl) \<or>
    (\<exists>k < length ms. b' = Some (i + k) \<and> bl' = length (mp_path (ms ! k)) \<and> mount_matches path (ms ! k) \<and> bl < bl' \<and>
      (\<forall>j < length ms. mount_matches path (ms ! j) \<longrightarrow> length (mp_path (ms ! j)) \<le> bl' \<and> (j < k \<longrightarrow> length (mp_path (ms ! j)) < bl')))"
    (is "?none b bl ms \<or> (\<exists>k < length ms. ?found i bl ms k)")
  using assms(2,3)
proof (induction ms arbitrary: i b bl)
  case Nil
  then show ?case by simp
next
  case (Cons m ms)
  let ?n = "length (mp_path m)"
  have m: "mount_matches path m \<longleftrightarrow> mp_active m \<and> 0 < ?n \<and> match_loop path (mp_path m) ?n 0 \<and>
      (char0 path ?n = CHR ''/'' \<or> char0 path ?n = CHR 0x00 \<or> ?n = 1)"
    using match_loop_prefix [OF _ assms(1), of "mp_path m"] boundary_eq [OF assms(1), of ?n] Cons.prems(1)
    by (cases "mp_active m") (auto simp: mount_matches_def)
  have cs: "\<forall>m \<in> set ms. mp_active m \<longrightarrow> c_string (mp_path m)" using Cons.prems(1) by simp
  show ?case
  proof (cases "mount_matches path m \<and> bl < ?n")
    case True
    then have "find_mount_loop path ms (i + 1) (Some i) ?n = (b', bl')" using Cons.prems(2) m by (simp add: Let_def split: if_splits)
    from Cons.IH [OF cs this] show ?thesis
    proof
      assume "b' = Some i \<and> bl' = ?n \<and> (\<forall>m \<in> set ms. mount_matches path m \<longrightarrow> length (mp_path m) \<le> ?n)"
      with True have "?found i bl (m # ms) 0" by (auto simp: nth_Cons')
      then show ?thesis by blast
    next
      assume "\<exists>k < length ms. ?found (i + 1) ?n ms k"
      then obtain k where k: "k < length ms" "?found (i + 1) ?n ms k" by blast
      with True have "?found i bl (m # ms) (Suc k)" by (auto simp: nth_Cons')
      moreover have "Suc k < length (m # ms)" using k(1) by simp
      ultimately show ?thesis by blast
    qed
  next
    case False
    then have r: "find_mount_loop path ms (i + 1) b bl = (b', bl')" using Cons.prems(2) m by (auto simp: Let_def split: if_splits)
    from Cons.IH [OF cs this] show ?thesis
    proof
      assume "b' = b \<and> bl' = bl \<and> (\<forall>m \<in> set ms. mount_matches path m \<longrightarrow> length (mp_path m) \<le> bl)"
      with False show ?thesis by auto
    next
      assume "\<exists>k < length ms. ?found (i + 1) bl ms k"
      then obtain k where k: "k < length ms" "?found (i + 1) bl ms k" by blast
      with False have "?found i bl (m # ms) (Suc k)" by (auto simp: nth_Cons')
      moreover have "Suc k < length (m # ms)" using k(1) by simp
      ultimately show ?thesis by blast
    qed
  qed
qed

section \<open>Properties\<close>

text \<open>Sequences of operations on the table, with the answer of each.\<close>

datatype 'o mount_op =
    OpRegister string "'o IFileSystem option"
  | OpMount "string option" "string option" string nat
  | OpAdd string "'o IFileSystem option"
  | OpUnmount string

fun mount_step :: "'o mount_op \<Rightarrow> 'o mount_state \<Rightarrow> (bool \<times> 'o mount_state) option" where
  "mount_step (OpRegister name fs) st = Some (RegisterFS name fs st)"
| "mount_step (OpMount dev path ty fl) st = mount_Mount dev path ty fl st"
| "mount_step (OpAdd path fs) st = Some (AddMount (Some path) fs st)"
| "mount_step (OpUnmount path) st = Some (Unmount path st)"

fun run_mounts :: "'o mount_op list \<Rightarrow> 'o mount_state \<Rightarrow> (bool list \<times> 'o mount_state) option" where
  "run_mounts [] st = Some ([], st)"
| "run_mounts (oper # ops) st =
     Option.bind (mount_step oper st) (\<lambda>(ok, st1).
       Option.bind (run_mounts ops st1) (\<lambda>(oks, st2). Some (ok # oks, st2)))"

text \<open>A registered driver is an object with a name; the strings are C strings.\<close>

fun mount_op_ok :: "'o mount_op \<Rightarrow> bool" where
  "mount_op_ok (OpRegister name fs) \<longleftrightarrow> (case fs of None \<Rightarrow> False | Some f \<Rightarrow> (case fs_name f of None \<Rightarrow> False | Some n \<Rightarrow> c_string n))"
| "mount_op_ok (OpMount dev path ty fl) \<longleftrightarrow> (case path of None \<Rightarrow> True | Some p \<Rightarrow> c_string p) \<and> c_string ty"
| "mount_op_ok (OpAdd path fs) \<longleftrightarrow> c_string path"
| "mount_op_ok (OpUnmount path) \<longleftrightarrow> c_string path"

text \<open>
  What the table promises: sixteen places, each empty or with a mount (path, device, type name, flags and driver), and the drivers
  registered so far.  A mount takes the first empty place, and the first driver of that name.
\<close>

type_synonym 'o mount_entry = "string \<times> string \<times> string \<times> nat \<times> 'o IFileSystem"
type_synonym 'o mount_spec = "'o mount_entry option list \<times> 'o IFileSystem list"

definition first_index :: "('a \<Rightarrow> bool) \<Rightarrow> 'a list \<Rightarrow> nat option" where
  "first_index P xs = find (\<lambda>i. P (xs ! i)) [0..<length xs]"

definition text_of :: "string option \<Rightarrow> string" where
  "text_of t = (case t of None \<Rightarrow> [] | Some s \<Rightarrow> s)"

fun mount_spec_step :: "'o mount_op \<Rightarrow> 'o mount_spec \<Rightarrow> bool \<times> 'o mount_spec" where
  "mount_spec_step (OpRegister name fs) (tab, ds) =
     (if length ds < 16 then (True, tab, ds @ [the fs]) else (False, tab, ds))"
| "mount_spec_step (OpMount dev path ty fl) (tab, ds) =
     (case (first_index Option.is_none tab, find (\<lambda>d. fs_name d = Some ty) ds) of
        (Some i, Some d) \<Rightarrow>
          (True, tab[i := Some (take 63 (text_of path), take 31 (text_of dev), take 15 ty, fl, d)], ds)
      | _ \<Rightarrow> (False, tab, ds))"
| "mount_spec_step (OpAdd path fs) (tab, ds) =
     (case (first_index Option.is_none tab, fs) of
        (Some i, Some d) \<Rightarrow> (True, tab[i := Some (take 63 path, [], take 15 (text_of (fs_name d)), 0, d)], ds)
      | _ \<Rightarrow> (False, tab, ds))"
| "mount_spec_step (OpUnmount path) (tab, ds) =
     (case first_index (\<lambda>e. case e of None \<Rightarrow> False | Some (p, _) \<Rightarrow> p = path) tab of
        None \<Rightarrow> (False, tab, ds)
      | Some i \<Rightarrow> (True, tab[i := None], ds))"

fun mount_spec_run :: "'o mount_op list \<Rightarrow> 'o mount_spec \<Rightarrow> bool list \<times> 'o mount_spec" where
  "mount_spec_run [] sp = ([], sp)"
| "mount_spec_run (oper # ops) sp =
     (let (ok, sp1) = mount_spec_step oper sp; (oks, sp2) = mount_spec_run ops sp1 in (ok # oks, sp2))"

text \<open>The places of the code's table and the relation to the specification.\<close>

definition place :: "'o MountPoint \<Rightarrow> 'o mount_entry option" where
  "place m = (if mp_active m then Some (mp_path m, mp_device m, mp_fs_type m, mp_flags m, the (mp_fs m)) else None)"

definition mount_rel :: "'o mount_state \<Rightarrow> 'o mount_spec \<Rightarrow> bool" where
  "mount_rel st = (\<lambda>(tab, ds). mount_inv st \<and> tab = map place (mt_mounts st) \<and> mt_fsCount st = length ds \<and> length ds \<le> 16 \<and>
     length (mt_registeredFS st) = 16 \<and> take (length ds) (mt_registeredFS st) = map Some ds \<and>
     (\<forall>d \<in> set ds. case fs_name d of None \<Rightarrow> False | Some n \<Rightarrow> c_string n))"

lemma first_index_Cons: "first_index P (x # xs) = (if P x then Some 0 else map_option Suc (first_index P xs))"
proof -
  have "find (\<lambda>i. P ((x # xs) ! i)) (map Suc js) = map_option Suc (find (\<lambda>i. P (xs ! i)) js)" for js
    by (induction js) auto
  then show ?thesis by (simp add: first_index_def upt_conv_Cons map_Suc_upt [symmetric] del: upt_Suc)
qed

lemma map_plus_Suc: "map_option ((+) (Suc i)) j = map_option (\<lambda>x. Suc (i + x)) j"
  by (cases j) simp_all

lemma map_plus_0: "map_option ((+) (0 :: nat)) j = j"
  by (cases j) simp_all

lemma free_slot_first: "free_slot ms i = map_option ((+) i) (first_index Option.is_none (map place ms))"
  by (induction ms arbitrary: i)
    (simp_all add: first_index_Cons place_def option.map_comp comp_def map_plus_Suc first_index_def [of _ "[]"] del: map_map)

lemma unmount_slot_first:
  assumes "\<forall>m \<in> set ms. mp_active m \<longrightarrow> c_string (mp_path m)" "c_string p"
  shows "unmount_slot ms p i = map_option ((+) i) (first_index (\<lambda>e. case e of None \<Rightarrow> False | Some (q, _) \<Rightarrow> q = p) (map place ms))"
  using assms(1)
  by (induction ms arbitrary: i)
    (use assms(2) in \<open>auto simp: first_index_Cons place_def option.map_comp comp_def map_plus_Suc first_index_def [of _ "[]"] kstrcmp_eq_0\<close>)

lemma find_fs_find:
  assumes "\<forall>d \<in> set ds. case fs_name d of None \<Rightarrow> False | Some n \<Rightarrow> c_string n" "c_string ty"
  shows "find_fs (map Some ds) ty = Some (find (\<lambda>d. fs_name d = Some ty) ds)"
  using assms(1) by (induction ds) (use assms(2) in \<open>auto simp: kstrcmp_eq_0 split: option.splits\<close>)

lemma mount_rel_Init:
  assumes "length (mt_mounts st) = MAX_MOUNT_POINTS" and "length (mt_registeredFS st) = MAX_FS"
  shows "mount_rel (mount_Init st) (replicate 16 None, [])"
proof -
  have "map place (mt_mounts (mount_Init st)) = replicate 16 None"
    using assms(1) by (intro nth_equalityI) (simp_all add: mount_Init_def place_def)
  then show ?thesis using assms mount_Init_inv [OF assms(1)] by (simp add: mount_rel_def mount_Init_def)
qed

text \<open>Each operation answers as the specification does, and keeps the relation.\<close>

lemma RegisterFS_rel:
  assumes "mount_rel st (tab, ds)" and "fs_name f = Some n" "c_string n"
  shows "fst (RegisterFS name (Some f) st) = fst (mount_spec_step (OpRegister name (Some f)) (tab, ds)) \<and>
    mount_rel (snd (RegisterFS name (Some f) st)) (snd (mount_spec_step (OpRegister name (Some f)) (tab, ds)))"
proof (cases "length ds < 16")
  case True
  have "take (Suc (length ds)) ((mt_registeredFS st)[length ds := Some f]) = map Some ds @ [Some f]"
    using assms(1) True by (simp add: mount_rel_def take_Suc_conv_app_nth)
  with assms True show ?thesis by (simp add: mount_rel_def RegisterFS_def mount_inv_def)
next
  case False
  then have "RegisterFS name (Some f) st = (False, st)" using assms(1) by (simp add: mount_rel_def RegisterFS_def)
  then show ?thesis using assms(1) False by simp
qed

lemma mount_rel_full:
  assumes "mount_rel st (tab, ds)" and "first_index Option.is_none tab = Some i"
  shows "mt_mountCount st < 16"
proof -
  have inv: "mount_inv st" and t: "tab = map place (mt_mounts st)" using assms(1) by (simp_all add: mount_rel_def)
  have "free_slot (mt_mounts st) 0 = Some i" using assms(2) t by (simp add: free_slot_first)
  from free_slot_Some [OF this] obtain k where k: "k < length (mt_mounts st)" "\<not> mp_active (mt_mounts st ! k)" by auto
  then have "length (filter mp_active (mt_mounts st)) < length (mt_mounts st)" by (intro length_filter_less [of "mt_mounts st ! k"]) auto
  with inv show ?thesis by (simp add: mount_inv_def)
qed

lemma mount_Mount_rel:
  assumes r: "mount_rel st (tab, ds)" and ok: "mount_op_ok (OpMount dev path ty fl)"
  shows "\<exists>st'. mount_Mount dev path ty fl st = Some (fst (mount_spec_step (OpMount dev path ty fl) (tab, ds)), st') \<and>
    mount_rel st' (snd (mount_spec_step (OpMount dev path ty fl) (tab, ds)))"
proof -
  have t: "tab = map place (mt_mounts st)" and inv: "mount_inv st" using r by (simp_all add: mount_rel_def)
  have g: "GetFSByName ty st = Some (find (\<lambda>d. fs_name d = Some ty) ds)"
    using r ok by (simp add: GetFSByName_def mount_rel_def find_fs_find)
  have f: "free_slot (mt_mounts st) 0 = first_index Option.is_none tab" by (simp add: free_slot_first t map_plus_0)
  show ?thesis
  proof (cases "first_index Option.is_none tab")
    case None
    with f r show ?thesis by (auto simp: mount_Mount_def)
  next
    case i: (Some i)
    have c: "\<not> int MAX_MOUNT_POINTS \<le> mt_mountCount st" using mount_rel_full [OF r i] by simp
    show ?thesis
    proof (cases "find (\<lambda>d. fs_name d = Some ty) ds")
      case None
      with c i f g r show ?thesis by (simp add: mount_Mount_def)
    next
      case (Some d)
      have m: "mount_Mount dev path ty fl st = mount_Mount dev (Some (text_of path)) ty fl st"
        by (cases path) (simp_all only: mount_Mount_def text_of_def option.case)
      obtain st' where st': "mount_Mount dev path ty fl st = Some (True, st')"
        "mt_mounts st' = (mt_mounts st)[i := \<lparr>mp_path = take 63 (text_of path), mp_device = take 31 (text_of dev),
          mp_fs_type = take 15 ty, mp_flags = fl, mp_fs = Some d, mp_active = True\<rparr>]"
        "mt_fsCount st' = mt_fsCount st" "mt_registeredFS st' = mt_registeredFS st"
        using Some c i f g by (simp add: mount_Mount_def copy_name_take text_of_def)
      have "mount_inv st'"
        by (rule mount_Mount_inv [OF inv _ st'(1) [unfolded m]]) (use ok in \<open>auto simp: text_of_def c_string_def split: option.splits\<close>)
      with st' i Some r t show ?thesis by (simp add: mount_rel_def map_update place_def)
    qed
  qed
qed

lemma AddMount_rel:
  assumes r: "mount_rel st (tab, ds)" and ok: "c_string path"
  shows "fst (AddMount (Some path) fs st) = fst (mount_spec_step (OpAdd path fs) (tab, ds)) \<and>
    mount_rel (snd (AddMount (Some path) fs st)) (snd (mount_spec_step (OpAdd path fs) (tab, ds)))"
proof -
  have t: "tab = map place (mt_mounts st)" and inv: "mount_inv st" using r by (simp_all add: mount_rel_def)
  have f: "free_slot (mt_mounts st) 0 = first_index Option.is_none tab" by (simp add: free_slot_first t map_plus_0)
  show ?thesis
  proof (cases "first_index Option.is_none tab = None \<or> fs = None")
    case True
    with f r show ?thesis by (auto simp: AddMount_def split: option.splits)
  next
    case False
    then obtain i d where i: "first_index Option.is_none tab = Some i" "fs = Some d"
      by (cases fs; cases "first_index Option.is_none tab") simp_all
    let ?st = "snd (AddMount (Some path) fs st)"
    have l: "take (if length n \<ge> k then k - 1 else length n) n = take (k - 1) n" if "0 < k" for n :: string and k using that by auto
    have a: "AddMount (Some path) fs st = (True, ?st)"
      "mt_mounts ?st = (mt_mounts st)[i := \<lparr>mp_path = take 63 path, mp_device = [],
          mp_fs_type = take 15 (text_of (fs_name d)), mp_flags = 0, mp_fs = Some d, mp_active = True\<rparr>]"
      "mt_fsCount ?st = mt_fsCount st" "mt_registeredFS ?st = mt_registeredFS st"
      using i f l [of 64 path] l [of 16] by (simp_all add: AddMount_def Let_def text_of_def split: option.split)
    have "mount_inv ?st" by (rule AddMount_inv [OF inv ok a(1)])
    have "fst (AddMount (Some path) fs st)" using a(1) by (metis fst_conv)
    with a(2-) \<open>mount_inv ?st\<close> i r t show ?thesis by (simp add: mount_rel_def map_update place_def)
  qed
qed

lemma Unmount_rel:
  assumes r: "mount_rel st (tab, ds)" and ok: "c_string path"
  shows "fst (Unmount path st) = fst (mount_spec_step (OpUnmount path) (tab, ds)) \<and>
    mount_rel (snd (Unmount path st)) (snd (mount_spec_step (OpUnmount path) (tab, ds)))"
proof -
  have t: "tab = map place (mt_mounts st)" and inv: "mount_inv st" using r by (simp_all add: mount_rel_def)
  have f: "unmount_slot (mt_mounts st) path 0 = first_index (\<lambda>e. case e of None \<Rightarrow> False | Some (q, _) \<Rightarrow> q = path) tab"
    using unmount_slot_first [of "mt_mounts st" path 0] inv ok t by (auto simp: mount_inv_def map_plus_0)
  have inv': "mount_inv (snd (Unmount path st))" by (rule Unmount_inv [OF inv]) (rule prod.collapse [symmetric])
  show ?thesis
  proof (cases "unmount_slot (mt_mounts st) path 0")
    case None
    with f r show ?thesis by (simp add: Unmount_def)
  next
    case (Some i)
    have u: "Unmount path st = (True, st\<lparr>mt_mounts := (mt_mounts st)[i := (mt_mounts st ! i)\<lparr>mp_active := False, mp_fs := None\<rparr>],
        mt_mountCount := mt_mountCount st - 1\<rparr>)" using Some by (simp add: Unmount_def)
    have f1: "first_index (\<lambda>e. case e of None \<Rightarrow> False | Some (q, _) \<Rightarrow> q = path) tab = Some i" using f Some by simp
    have "place ((mt_mounts st ! i)\<lparr>mp_active := False, mp_fs := None\<rparr>) = None" by (simp add: place_def)
    with u f1 r inv' show ?thesis by (simp add: mount_rel_def map_update)
  qed
qed

lemma mount_step_rel:
  assumes "mount_rel st sp" and "mount_op_ok oper"
  shows "\<exists>st'. mount_step oper st = Some (fst (mount_spec_step oper sp), st') \<and> mount_rel st' (snd (mount_spec_step oper sp))"
proof -
  obtain tab ds where sp: "sp = (tab, ds)" by (rule prod.exhaust)
  note r = assms(1) [unfolded sp]
  show ?thesis
  proof (cases oper)
    case (OpRegister name fs)
    with assms(2) obtain f n where f: "fs = Some f" "fs_name f = Some n" "c_string n" by (auto split: option.splits)
    obtain ok st1 where s: "RegisterFS name (Some f) st = (ok, st1)" by (rule prod.exhaust)
    from RegisterFS_rel [OF r f(2,3), of name] s OpRegister f(1) show ?thesis
      unfolding sp by (simp del: mount_spec_step.simps)
  next
    case (OpMount dev path ty fl)
    with mount_Mount_rel [OF r] assms(2) sp show ?thesis by simp
  next
    case (OpAdd path fs)
    obtain ok st1 where s: "AddMount (Some path) fs st = (ok, st1)" by (rule prod.exhaust)
    from AddMount_rel [OF r, of path fs] s assms(2) OpAdd show ?thesis
      unfolding sp by (simp del: mount_spec_step.simps)
  next
    case (OpUnmount path)
    obtain ok st1 where s: "Unmount path st = (ok, st1)" by (rule prod.exhaust)
    from Unmount_rel [OF r, of path] s assms(2) OpUnmount show ?thesis
      unfolding sp by (simp del: mount_spec_step.simps)
  qed
qed

lemma run_mounts_rel:
  "mount_rel st sp \<Longrightarrow> \<forall>oper \<in> set ops. mount_op_ok oper \<Longrightarrow>
   \<exists>st'. run_mounts ops st = Some (fst (mount_spec_run ops sp), st') \<and> mount_rel st' (snd (mount_spec_run ops sp))"
proof (induction ops arbitrary: st sp)
  case Nil
  then show ?case by simp
next
  case (Cons oper ops)
  from mount_step_rel [OF Cons.prems(1), of oper] Cons.prems(2) obtain st1 where
    1: "mount_step oper st = Some (fst (mount_spec_step oper sp), st1)" "mount_rel st1 (snd (mount_spec_step oper sp))" by auto
  from Cons.IH [OF 1(2)] Cons.prems(2) obtain st' where
    "run_mounts ops st1 = Some (fst (mount_spec_run ops (snd (mount_spec_step oper sp))), st')"
    "mount_rel st' (snd (mount_spec_run ops (snd (mount_spec_step oper sp))))" by auto
  with 1(1) show ?case by (simp add: split_beta Let_def)
qed

text \<open>C16. Any sequence of driver registrations, mounts, added mounts and unmounts after \<^verbatim>\<open>Init\<close> returns, answers each
  operation and leaves in the sixteen places of the table exactly what the specification says: a mount goes to the first free
  place, with its path cut to 63 characters and the first registered driver whose name is the type, and is refused only when there is no
  place or no such driver; an unmount frees the first place of that path.  The counter is the number of occupied
  places, and every active slot has a driver.  Names and paths are C strings, and a registered driver has a name (\<open>mount_op_ok\<close>).\<close>

theorem mount_table_refines_places:
  assumes "length (mt_mounts st) = MAX_MOUNT_POINTS" and "length (mt_registeredFS st) = MAX_FS"
    and "\<forall>oper \<in> set ops. mount_op_ok oper"
  shows "\<exists>st' tab ds oks. run_mounts ops (mount_Init st) = Some (oks, st') \<and>
    mount_spec_run ops (replicate 16 None, []) = (oks, tab, ds) \<and> map place (mt_mounts st') = tab \<and>
    take (mt_fsCount st') (mt_registeredFS st') = map Some ds \<and>
    GetMountCount st' = int (length (filter (\<lambda>e. e \<noteq> None) tab)) \<and>
    (\<forall>m \<in> set (mt_mounts st'). mp_active m \<longrightarrow> mp_fs m \<noteq> None)"
proof -
  obtain oks tab ds where sp: "mount_spec_run ops (replicate 16 None, []) = (oks, tab, ds)" by (metis prod_cases3)
  from run_mounts_rel [OF mount_rel_Init [OF assms(1,2)] assms(3)] sp obtain st' where
    r: "run_mounts ops (mount_Init st) = Some (oks, st')" "mount_rel st' (tab, ds)" by auto
  have t: "tab = map place (mt_mounts st')" and inv: "mount_inv st'" using r(2) by (simp_all add: mount_rel_def)
  have "length (filter (\<lambda>e. e \<noteq> None) (map place ms)) = length (filter mp_active ms)" for ms :: "'a MountPoint list"
    by (induction ms) (simp_all add: place_def)
  with inv t have "GetMountCount st' = int (length (filter (\<lambda>e. e \<noteq> None) tab))" by (simp add: mount_inv_def GetMountCount_def)
  moreover have "\<forall>m \<in> set (mt_mounts st'). mp_active m \<longrightarrow> mp_fs m \<noteq> None" using inv unfolding mount_inv_def by blast
  ultimately show ?thesis using r sp t by (auto simp: mount_rel_def)
qed

text \<open>C15. \<^verbatim>\<open>FindMount\<close> returns null exactly when no active mount matches the path; otherwise the slot it
  returns is a matching mount with the longest path (the first such slot), and the remaining path is
  what follows the mount path, without one leading slash.\<close>

theorem FindMount_longest_prefix:
  assumes "mount_inv st" and "c_string path"
  shows "case FindMount path st of
      None \<Rightarrow> \<forall>m \<in> set (mt_mounts st). \<not> mount_matches path m
    | Some (i, rem) \<Rightarrow> i < MAX_MOUNT_POINTS \<and> mount_matches path (mt_mounts st ! i) \<and>
        (\<forall>j < MAX_MOUNT_POINTS. mount_matches path (mt_mounts st ! j) \<longrightarrow>
           length (mp_path (mt_mounts st ! j)) < length (mp_path (mt_mounts st ! i)) \<or>
           mp_path (mt_mounts st ! j) = mp_path (mt_mounts st ! i) \<and> i \<le> j) \<and>
        (path = mp_path (mt_mounts st ! i) @ rem \<or> path = mp_path (mt_mounts st ! i) @ CHR ''/'' # rem)"
proof -
  let ?ms = "mt_mounts st"
  have len: "length ?ms = MAX_MOUNT_POINTS" using assms(1) by (simp add: mount_inv_def)
  have cs: "\<forall>m \<in> set ?ms. mp_active m \<longrightarrow> c_string (mp_path m)" using assms(1) unfolding mount_inv_def by blast
  obtain b bl where r: "find_mount_loop path ?ms 0 None 0 = (b, bl)" by (rule prod.exhaust)
  from find_mount_loop_spec [OF assms(2) cs r] show ?thesis
  proof
    assume "b = None \<and> bl = 0 \<and> (\<forall>m \<in> set ?ms. mount_matches path m \<longrightarrow> length (mp_path m) \<le> 0)"
    with r show ?thesis by (auto simp: FindMount_def mount_matches_def)
  next
    assume "\<exists>k < length ?ms. b = Some (0 + k) \<and> bl = length (mp_path (?ms ! k)) \<and> mount_matches path (?ms ! k) \<and> 0 < bl \<and>
      (\<forall>j < length ?ms. mount_matches path (?ms ! j) \<longrightarrow> length (mp_path (?ms ! j)) \<le> bl \<and> (j < k \<longrightarrow> length (mp_path (?ms ! j)) < bl))"
    then obtain k where k: "k < length ?ms" "b = Some k" "bl = length (mp_path (?ms ! k))" "mount_matches path (?ms ! k)"
      "\<forall>j < length ?ms. mount_matches path (?ms ! j) \<longrightarrow> length (mp_path (?ms ! j)) \<le> bl \<and> (j < k \<longrightarrow> length (mp_path (?ms ! j)) < bl)"
      by auto
    let ?p = "mp_path (?ms ! k)"
    let ?rem = "case drop bl path of CHR ''/'' # r \<Rightarrow> r | _ \<Rightarrow> drop bl path"
    have find: "FindMount path st = Some (k, ?rem)" using r k(2) by (simp add: FindMount_def Let_def)
    have "path = ?p @ drop bl path" using k(3,4) by (auto simp: mount_matches_def prefix_def)
    moreover have "?rem = drop bl path \<or> drop bl path = CHR ''/'' # ?rem" by (auto split: list.split char.split bool.split)
    ultimately have rem: "path = ?p @ ?rem \<or> path = ?p @ CHR ''/'' # ?rem" by metis
    have "length (mp_path (?ms ! j)) < length ?p \<or> mp_path (?ms ! j) = ?p \<and> k \<le> j"
      if "j < MAX_MOUNT_POINTS" "mount_matches path (?ms ! j)" for j
    proof (cases "length (mp_path (?ms ! j)) < length ?p")
      case False
      with k(3,5) that len have "length (mp_path (?ms ! j)) = length ?p" "k \<le> j" by (auto simp: not_less [symmetric])
      moreover have "prefix (mp_path (?ms ! j)) path" "prefix ?p path" using that(2) k(4) by (simp_all add: mount_matches_def)
      ultimately show ?thesis by (auto simp: prefix_def append_eq_append_conv)
    qed simp
    with find k(1,4) rem len show ?thesis by simp
  qed
qed

definition demo_mount :: "string \<Rightarrow> bool \<Rightarrow> unit MountPoint" where
  "demo_mount p a = \<lparr>mp_path = p, mp_device = [], mp_fs_type = ''fat32'', mp_flags = 0,
     mp_fs = Some \<lparr>fs_name = Some ''fat32'', fs_ops = (), fs_private_data = 0\<rparr>, mp_active = a\<rparr>"

definition demo_mounts :: "unit mount_state" where
  "demo_mounts = \<lparr>mt_mounts = demo_mount ''/'' True # demo_mount ''/data'' True # replicate 14 (demo_mount [] False),
     mt_mountCount = 2, mt_registeredFS = replicate 16 None, mt_fsCount = 0\<rparr>"

theorem FindMount_longest_prefix_witness:
  "\<exists>i rem. FindMount ''/data/x'' demo_mounts = Some (i, rem) \<and> i < MAX_MOUNT_POINTS \<and>
     length ''/data'' \<le> length (mp_path (mt_mounts demo_mounts ! i))"
proof -
  have inv: "mount_inv demo_mounts"
    by (simp add: mount_inv_def demo_mounts_def demo_mount_def c_string_def)
  have m: "mount_matches ''/data/x'' (mt_mounts demo_mounts ! 1)" "mp_path (mt_mounts demo_mounts ! 1) = ''/data''"
    by (simp_all add: mount_matches_def demo_mounts_def demo_mount_def)
  have "1 < length (mt_mounts demo_mounts)" by (simp add: demo_mounts_def)
  then have mem: "mt_mounts demo_mounts ! 1 \<in> set (mt_mounts demo_mounts)" by (rule nth_mem)
  note r = FindMount_longest_prefix [OF inv, of "''/data/x''"]
  have c: "c_string ''/data/x''" by (simp add: c_string_def)
  show ?thesis
  proof (cases "FindMount ''/data/x'' demo_mounts")
    case None
    with r c m(1) mem show ?thesis by auto
  next
    case (Some ir)
    obtain i rem where ir: "ir = (i, rem)" by (rule prod.exhaust)
    from r [OF c] Some ir have "i < MAX_MOUNT_POINTS" and
      all: "\<forall>j < MAX_MOUNT_POINTS. mount_matches ''/data/x'' (mt_mounts demo_mounts ! j) \<longrightarrow>
           length (mp_path (mt_mounts demo_mounts ! j)) < length (mp_path (mt_mounts demo_mounts ! i)) \<or>
           mp_path (mt_mounts demo_mounts ! j) = mp_path (mt_mounts demo_mounts ! i) \<and> i \<le> j" by simp_all
    moreover from all m have "length ''/data'' < length (mp_path (mt_mounts demo_mounts ! i)) \<or>
        ''/data'' = mp_path (mt_mounts demo_mounts ! i)"
      by (metis one_less_numeral_iff semiring_norm(76))
    then have "length ''/data'' \<le> length (mp_path (mt_mounts demo_mounts ! i))" by (metis order_le_less)
    ultimately show ?thesis using Some ir by blast
  qed
qed

text \<open>A driver is registered; a mount of its type succeeds, one of another type is refused; a second mount goes to the next place, and
  unmounting the first frees its place.\<close>

definition demo_fs :: "unit IFileSystem" where
  "demo_fs = \<lparr>fs_name = Some ''fat32'', fs_ops = (), fs_private_data = 0\<rparr>"

definition demo_mount_ops :: "unit mount_op list" where
  "demo_mount_ops = [OpRegister ''fat32'' (Some demo_fs), OpMount (Some ''sda'') (Some ''/a'') ''fat32'' 0,
     OpMount None (Some ''/b'') ''ext2'' 0, OpAdd ''/b'' (Some demo_fs), OpUnmount ''/a'']"

theorem mount_table_refines_places_witness:
  "\<exists>st'. run_mounts demo_mount_ops (mount_Init demo_mounts) = Some ([True, True, False, True, True], st') \<and>
     map place (mt_mounts st') = (replicate 16 None)[1 := Some (''/b'', [], ''fat32'', 0, demo_fs)] \<and> GetMountCount st' = 1"
proof -
  have "mount_spec_run demo_mount_ops (replicate 16 None, []) =
      ([True, True, False, True, True], (replicate 16 None)[1 := Some (''/b'', [], ''fat32'', 0, demo_fs)], [demo_fs])"
    by (simp add: demo_mount_ops_def demo_fs_def first_index_def upt_conv_Cons text_of_def numeral_eq_Suc del: upt_Suc)
  moreover have "\<forall>oper \<in> set demo_mount_ops. mount_op_ok oper" by (simp add: demo_mount_ops_def demo_fs_def c_string_def)
  moreover have "length (filter (\<lambda>e. e \<noteq> None) ((replicate 16 None)[1 := Some (''/b'', [], ''fat32'', 0, demo_fs)])) = 1"
    by (simp add: numeral_eq_Suc)
  ultimately show ?thesis
    using mount_table_refines_places [of demo_mounts demo_mount_ops] by (auto simp: demo_mounts_def)
qed

end
