(* ===== verification/FAT32.thy ===== *)
theory FAT32
  imports Ramdisk Mount
begin

text \<open>
  The FAT32 driver, \<^verbatim>\<open>kernel/fs/drivers/fat32.cpp\<close>, over a block device and the kernel heap: mounting,
  the allocation table, cluster chains, directory search, path resolution and file reads.  Every buffer
  is taken from and given back to the heap as in the code.  The result \<open>None\<close> of an operation means that it
  does not return: a cluster chain that never ends, a division by zero or a null function pointer.
\<close>

section \<open>Structures\<close>

record 'd FAT32State =
  fa_device :: "'d IBlockDevice"
  partition_start :: nat
  bytes_per_sector :: nat
  sectors_per_cluster :: nat
  reserved_sectors :: nat
  num_fats :: nat
  sectors_per_fat :: nat
  root_cluster :: nat
  total_clusters :: nat
  fat_start_lba :: nat
  data_start_lba :: nat
  cluster_size :: nat
  fat_cache :: addr
  fat_cache_size :: nat

record FAT32FileInfo =
  fi_name :: string
  fi_cluster :: nat
  fi_size :: nat
  fi_attr :: u8
  fi_is_directory :: bool

abbreviation FAT32_SIGNATURE :: nat where "FAT32_SIGNATURE \<equiv> 43605"
abbreviation FAT32_CLUSTER_FREE :: nat where "FAT32_CLUSTER_FREE \<equiv> 0"
abbreviation FAT32_CLUSTER_EOF :: nat where "FAT32_CLUSTER_EOF \<equiv> 268435448"
abbreviation FAT32_ATTR_VOLUME_ID :: u8 where "FAT32_ATTR_VOLUME_ID \<equiv> 8"
abbreviation FAT32_ATTR_DIRECTORY :: u8 where "FAT32_ATTR_DIRECTORY \<equiv> 16"
abbreviation FAT32_ATTR_LFN :: u8 where "FAT32_ATTR_LFN \<equiv> 15"

text \<open>\<^verbatim>\<open>sizeof(FAT32State)\<close>, \<^verbatim>\<open>sizeof(IFileSystem)\<close>, \<^verbatim>\<open>sizeof(FAT32DirEntry)\<close>\<close>

abbreviation FAT32STATE_SIZE :: nat where "FAT32STATE_SIZE \<equiv> 72"
abbreviation IFILESYSTEM_SIZE :: nat where "IFILESYSTEM_SIZE \<equiv> 88"
abbreviation DIRENTRY_SIZE :: nat where "DIRENTRY_SIZE \<equiv> 32"

text \<open>Little-endian fields of a buffer.\<close>

definition le8 :: "u8 list \<Rightarrow> nat \<Rightarrow> nat" where
  "le8 b k = unat (b ! k)"

definition le16 :: "u8 list \<Rightarrow> nat \<Rightarrow> nat" where
  "le16 b k = unat (b ! k) + 256 * unat (b ! (k + 1))"

definition le32 :: "u8 list \<Rightarrow> nat \<Rightarrow> nat" where
  "le32 b k = unat (b ! k) + 256 * unat (b ! (k + 1)) + 65536 * unat (b ! (k + 2)) + 16777216 * unat (b ! (k + 3))"

definition put_le32 :: "u8 list \<Rightarrow> nat \<Rightarrow> nat \<Rightarrow> u8 list" where
  "put_le32 b k v = b[k := word_of_nat v, k + 1 := word_of_nat (v div 256), k + 2 := word_of_nat (v div 65536),
     k + 3 := word_of_nat (v div 16777216)]"

section \<open>Buffers\<close>

text \<open>\<^verbatim>\<open>p = kmalloc(n); if (!p) return r0; ... kfree(p); return r;\<close> (the code frees the buffer on every path).\<close>

definition with_buffer ::
  "kheap \<Rightarrow> 'd \<Rightarrow> nat \<Rightarrow> 'r \<Rightarrow> (kheap \<Rightarrow> ('r \<times> kheap \<times> 'd) option) \<Rightarrow> ('r \<times> kheap \<times> 'd) option" where
  "with_buffer h d n r0 body =
     Option.bind (kmalloc h n) (\<lambda>(p, h1).
       if p = 0 then Some (r0, h1, d)
       else Option.bind (body h1) (\<lambda>(r, h2, d2). Some (r, kfree h2 p, d2)))"

section \<open>Sectors and clusters\<close>

definition ClusterToLBA :: "'d FAT32State \<Rightarrow> nat \<Rightarrow> nat" where
  "ClusterToLBA st cluster = add64 (data_start_lba st) (mul64 (sub32 cluster 2) (sectors_per_cluster st))"

definition fat_ReadSectors :: "'d FAT32State \<Rightarrow> nat \<Rightarrow> nat \<Rightarrow> 'd \<Rightarrow> (u8 list option \<times> 'd) option" where
  "fat_ReadSectors st lba count d =
     (case bd_read_blocks (fa_device st) of
        None \<Rightarrow> None
      | Some rd \<Rightarrow> Some (rd d (add64 (partition_start st) lba) count))"

definition fat_WriteSectors :: "'d FAT32State \<Rightarrow> nat \<Rightarrow> nat \<Rightarrow> u8 list \<Rightarrow> 'd \<Rightarrow> (bool \<times> 'd) option" where
  "fat_WriteSectors st lba count buffer d =
     (case bd_write_blocks (fa_device st) of
        None \<Rightarrow> None
      | Some wr \<Rightarrow> Some (wr d (add64 (partition_start st) lba) count buffer))"

text \<open>The sector of the table that holds the entry of a cluster, and the offset in it; no result when
  \<^verbatim>\<open>bytes_per_sector\<close> is 0.\<close>

definition fat_position :: "'d FAT32State \<Rightarrow> nat \<Rightarrow> (nat \<times> nat) option" where
  "fat_position st cluster =
     (let fat_offset = mul32 cluster 4
      in if bytes_per_sector st = 0 then None
         else Some (fat_offset div bytes_per_sector st, fat_offset mod bytes_per_sector st))"

definition GetNextCluster :: "'d FAT32State \<Rightarrow> nat \<Rightarrow> kheap \<Rightarrow> 'd \<Rightarrow> (nat \<times> kheap \<times> 'd) option" where
  "GetNextCluster st cluster h d =
     (if cluster < 2 \<or> cluster \<ge> add32 (total_clusters st) 2 then Some (FAT32_CLUSTER_EOF, h, d)
      else Option.bind (fat_position st cluster) (\<lambda>(fat_sector, entry_offset).
        with_buffer h d (bytes_per_sector st) FAT32_CLUSTER_EOF (\<lambda>h1.
          Option.bind (fat_ReadSectors st (add32 (fat_start_lba st) fat_sector) 1 d) (\<lambda>(r, d1).
            case r of
              None \<Rightarrow> Some (FAT32_CLUSTER_EOF, h1, d1)
            | Some buffer \<Rightarrow> Some (le32 buffer entry_offset mod 2 ^ 28, h1, d1)))))"

text \<open>The loop over the copies of the table; the results of the writes are ignored.\<close>

fun write_fats :: "'d FAT32State \<Rightarrow> nat \<Rightarrow> u8 list \<Rightarrow> nat \<Rightarrow> nat \<Rightarrow> 'd \<Rightarrow> 'd option" where
  "write_fats st fat_sector buffer 0 i d = Some d"
| "write_fats st fat_sector buffer (Suc k) i d =
     Option.bind (fat_WriteSectors st (add32 (add32 (fat_start_lba st) (mul32 i (sectors_per_fat st))) fat_sector) 1 buffer d)
       (\<lambda>(ok, d1). write_fats st fat_sector buffer k (i + 1) d1)"

definition SetFATEntry :: "'d FAT32State \<Rightarrow> nat \<Rightarrow> nat \<Rightarrow> kheap \<Rightarrow> 'd \<Rightarrow> (bool \<times> kheap \<times> 'd) option" where
  "SetFATEntry st cluster val h d =
     Option.bind (fat_position st cluster) (\<lambda>(fat_sector, entry_offset).
       with_buffer h d (bytes_per_sector st) False (\<lambda>h1.
         Option.bind (fat_ReadSectors st (add32 (fat_start_lba st) fat_sector) 1 d) (\<lambda>(r, d1).
           case r of
             None \<Rightarrow> Some (False, h1, d1)
           | Some buffer \<Rightarrow>
               let entry = le32 buffer entry_offset;
                   buf1 = put_le32 buffer entry_offset (entry div 2 ^ 28 * 2 ^ 28 + val mod 2 ^ 28)
               in Option.bind (write_fats st fat_sector buf1 (num_fats st) 0 d1) (\<lambda>d2. Some (True, h1, d2)))))"

definition ReadCluster :: "'d FAT32State \<Rightarrow> nat \<Rightarrow> 'd \<Rightarrow> (u8 list option \<times> 'd) option" where
  "ReadCluster st cluster d = fat_ReadSectors st (ClusterToLBA st cluster) (sectors_per_cluster st) d"

definition WriteCluster :: "'d FAT32State \<Rightarrow> nat \<Rightarrow> u8 list \<Rightarrow> 'd \<Rightarrow> (bool \<times> 'd) option" where
  "WriteCluster st cluster buffer d = fat_WriteSectors st (ClusterToLBA st cluster) (sectors_per_cluster st) buffer d"

text \<open>The scan for a free entry: \<open>k\<close> clusters left, the next one being \<open>c\<close>.\<close>

fun allocate_loop :: "'d FAT32State \<Rightarrow> nat \<Rightarrow> nat \<Rightarrow> kheap \<Rightarrow> 'd \<Rightarrow> (nat \<times> kheap \<times> 'd) option" where
  "allocate_loop st 0 c h d = Some (0, h, d)"
| "allocate_loop st (Suc k) c h d =
     Option.bind (GetNextCluster st c h d) (\<lambda>(entry, h1, d1).
       if entry = FAT32_CLUSTER_FREE
       then Option.bind (SetFATEntry st c FAT32_CLUSTER_EOF h1 d1) (\<lambda>(ok, h2, d2).
              with_buffer h2 d2 (cluster_size st) c (\<lambda>h3.
                Option.bind (WriteCluster st c (replicate (cluster_size st) 0) d2) (\<lambda>(ok2, d3). Some (c, h3, d3))))
       else allocate_loop st k (c + 1) h1 d1)"

definition AllocateCluster :: "'d FAT32State \<Rightarrow> kheap \<Rightarrow> 'd \<Rightarrow> (nat \<times> kheap \<times> 'd) option" where
  "AllocateCluster st h d = allocate_loop st (add32 (total_clusters st) 2 - 2) 2 h d"

section \<open>Directories\<close>

definition byte_char :: "u8 \<Rightarrow> char" where
  "byte_char b = char_of (unat b)"

text \<open>The copy loops of \<^verbatim>\<open>Parse83Name\<close>, up to the padding.\<close>

definition trim_spaces :: "u8 list \<Rightarrow> string" where
  "trim_spaces bs = takeWhile (\<lambda>c. c \<noteq> CHR '' '') (map byte_char bs)"

definition lower_char :: "char \<Rightarrow> char" where
  "lower_char c = (if of_char c \<ge> (65::nat) \<and> of_char c \<le> (90::nat) then char_of (of_char c + 32 :: nat) else c)"

text \<open>The result is the C string in \<^verbatim>\<open>out\<close>: it ends at the first NUL.\<close>

definition Parse83Name :: "u8 list \<Rightarrow> string" where
  "Parse83Name e =
     (let nm = trim_spaces (take 8 e); x = take 3 (drop 8 e);
          full = (if byte_char (e ! 8) \<noteq> CHR '' '' then nm @ CHR ''.'' # trim_spaces x else nm)
      in map lower_char (takeWhile (\<lambda>c. c \<noteq> CHR 0x00) full))"

definition entry_info :: "u8 list \<Rightarrow> FAT32FileInfo" where
  "entry_info e = \<lparr>fi_name = copy_name 255 (Parse83Name e),
     fi_cluster = le16 e 20 * 65536 + le16 e 26, fi_size = le32 e 28, fi_attr = e ! 11,
     fi_is_directory = (e ! 11 AND FAT32_ATTR_DIRECTORY \<noteq> 0)\<rparr>"

text \<open>Entries that the loops pass over: deleted, long-name and volume-label ones.\<close>

definition skip_entry :: "u8 list \<Rightarrow> bool" where
  "skip_entry e \<longleftrightarrow> e ! 0 = 229 \<or> e ! 11 AND FAT32_ATTR_LFN = FAT32_ATTR_LFN \<or> e ! 11 AND FAT32_ATTR_VOLUME_ID \<noteq> 0"

text \<open>The directory entries of a cluster.\<close>

definition dir_entries :: "'d FAT32State \<Rightarrow> u8 list \<Rightarrow> u8 list list" where
  "dir_entries st buffer = map (\<lambda>i. take DIRENTRY_SIZE (drop (i * DIRENTRY_SIZE) buffer)) [0..<cluster_size st div DIRENTRY_SIZE]"

text \<open>The loop over the entries of one cluster: the end marker stops the search, a match ends it, otherwise
  it goes on with the next cluster.\<close>

datatype scan = ScanEnd | ScanFound FAT32FileInfo | ScanNext

fun scan_entries :: "string \<Rightarrow> u8 list list \<Rightarrow> scan" where
  "scan_entries name [] = ScanNext"
| "scan_entries name (e # es) =
     (if e ! 0 = 0 then ScanEnd
      else if skip_entry e then scan_entries name es
      else if kstricmp (Parse83Name e) name = 0 then ScanFound (entry_info e)
      else scan_entries name es)"

partial_function (option) find_entry_loop ::
  "'d FAT32State \<Rightarrow> nat \<Rightarrow> string \<Rightarrow> kheap \<Rightarrow> 'd \<Rightarrow> (FAT32FileInfo option \<times> kheap \<times> 'd) option" where
  "find_entry_loop st cluster name h d =
     (if cluster \<ge> 2 \<and> cluster < FAT32_CLUSTER_EOF
      then Option.bind (ReadCluster st cluster d) (\<lambda>(r, d1).
             case r of
               None \<Rightarrow> Some (None, h, d1)
             | Some buffer \<Rightarrow>
                 (case scan_entries name (dir_entries st buffer) of
                    ScanEnd \<Rightarrow> Some (None, h, d1)
                  | ScanFound info \<Rightarrow> Some (Some info, h, d1)
                  | ScanNext \<Rightarrow>
                      Option.bind (GetNextCluster st cluster h d1) (\<lambda>(next, h2, d2). find_entry_loop st next name h2 d2)))
      else Some (None, h, d))"

definition FindEntry :: "'d FAT32State \<Rightarrow> nat \<Rightarrow> string \<Rightarrow> kheap \<Rightarrow> 'd \<Rightarrow> (FAT32FileInfo option \<times> kheap \<times> 'd) option" where
  "FindEntry st dir_cluster name h d =
     with_buffer h d (cluster_size st) None (\<lambda>h1. find_entry_loop st dir_cluster name h1 d)"

section \<open>Paths\<close>

text \<open>\<^verbatim>\<open>if (*path == '/') path++;\<close>\<close>

definition drop_slash :: "string \<Rightarrow> string" where
  "drop_slash p = (if p \<noteq> [] \<and> hd p = CHR ''/'' then tl p else p)"

lemma drop_slash_le: "length (drop_slash p) \<le> length p"
  by (simp add: drop_slash_def)

text \<open>The component loop; \<open>out\<close> is what \<^verbatim>\<open>*out\<close> holds (\<open>None\<close> while nothing was assigned).\<close>

definition next_component :: "string \<Rightarrow> string \<times> string" where
  "next_component path =
     (let c = takeWhile (\<lambda>x. x \<noteq> CHR ''/'') (take 63 path); rest = drop (length c) path
      in (c, drop_slash rest))"

lemma next_component_shorter: "path \<noteq> [] \<Longrightarrow> length (snd (next_component path)) < length path"
proof -
  assume "path \<noteq> []"
  then obtain x xs where p: "path = x # xs" by (cases path) auto
  let ?c = "takeWhile (\<lambda>x. x \<noteq> CHR ''/'') (take 63 path)"
  show ?thesis
  proof (cases "x = CHR ''/''")
    case True
    then show ?thesis by (simp add: next_component_def drop_slash_def p)
  next
    case False
    then have "0 < length ?c" by (simp add: p)
    moreover have "length (snd (next_component path)) \<le> length (drop (length ?c) path)"
      unfolding next_component_def Let_def snd_conv by (rule drop_slash_le)
    moreover have "0 < length path" by (simp add: p)
    ultimately show ?thesis unfolding length_drop by linarith
  qed
qed

function path_loop ::
  "'d FAT32State \<Rightarrow> nat \<Rightarrow> string \<Rightarrow> FAT32FileInfo option \<Rightarrow> kheap \<Rightarrow> 'd
     \<Rightarrow> ((bool \<times> FAT32FileInfo option) \<times> kheap \<times> 'd) option" where
  "path_loop st current_cluster path out h d =
     (if path = [] then Some ((True, out), h, d)
      else Option.bind (FindEntry st current_cluster (fst (next_component path)) h d) (\<lambda>(r, h1, d1).
             case r of
               None \<Rightarrow> Some ((False, out), h1, d1)
             | Some info \<Rightarrow>
                 if snd (next_component path) \<noteq> [] \<and> \<not> fi_is_directory info then Some ((False, out), h1, d1)
                 else path_loop st (fi_cluster info) (snd (next_component path)) (Some info) h1 d1))"
  by pat_completeness auto
termination
  by (relation "measure (\<lambda>(st, c, path, out, h, d). length path)") (auto simp: next_component_shorter)

declare path_loop.simps [simp del]

text \<open>The result is the file information when the path resolves.  (A path of one slash only, or an empty one,
  is the root; after the slash is skipped the loop runs at least once, so \<open>out\<close> is set on success.)\<close>

definition ParsePath :: "'d FAT32State \<Rightarrow> string \<Rightarrow> kheap \<Rightarrow> 'd \<Rightarrow> (FAT32FileInfo option \<times> kheap \<times> 'd) option" where
  "ParsePath st path h d =
     (if path = [] \<or> path = ''/''
      then Some (Some \<lparr>fi_name = ''/'', fi_cluster = root_cluster st, fi_size = 0, fi_attr = FAT32_ATTR_DIRECTORY, fi_is_directory = True\<rparr>, h, d)
      else Option.bind (path_loop st (root_cluster st) (drop_slash path) None h d) (\<lambda>((ok, out), h1, d1).
             Some (if ok then out else None, h1, d1)))"

section \<open>Mounting\<close>

text \<open>The state computed from the boot sector; no result when \<^verbatim>\<open>sectors_per_cluster\<close> is 0, because the code
  divides by it.\<close>

definition fat_geometry :: "'d IBlockDevice \<Rightarrow> nat \<Rightarrow> u8 list \<Rightarrow> 'd FAT32State option" where
  "fat_geometry dev part b =
     (let bps = le16 b 11; spc = le8 b 13; res = le16 b 14; nf = le8 b 16; spf = le32 b 36;
          fat_start = res; data_start = add32 fat_start (mul32 nf spf);
          data_sectors = sub32 (le32 b 32) data_start
      in if spc = 0 then None
         else Some \<lparr>fa_device = dev, partition_start = part, bytes_per_sector = bps, sectors_per_cluster = spc,
                reserved_sectors = res, num_fats = nf, sectors_per_fat = spf, root_cluster = le32 b 44,
                total_clusters = data_sectors div spc, fat_start_lba = fat_start, data_start_lba = data_start,
                cluster_size = mul32 spc bps, fat_cache = 0, fat_cache_size = 0\<rparr>)"

text \<open>The result is the address of the file system instance, the address of its state and the state.\<close>

definition fat32_Mount ::
  "'d IBlockDevice \<Rightarrow> nat \<Rightarrow> kheap \<Rightarrow> 'd \<Rightarrow> ((addr \<times> addr \<times> 'd FAT32State) option \<times> kheap \<times> 'd) option" where
  "fat32_Mount dev part h d =
     Option.bind (kmalloc h FAT32STATE_SIZE) (\<lambda>(state, h1).
       if state = 0 then Some (None, h1, d)
       else Option.bind (kmalloc h1 512) (\<lambda>(boot_sector, h2).
         if boot_sector = 0 then Some (None, kfree h2 state, d)
         else case bd_read_blocks dev of
                None \<Rightarrow> None
              | Some rd \<Rightarrow>
                  (case rd d part 1 of
                     (None, d1) \<Rightarrow> Some (None, kfree (kfree h2 boot_sector) state, d1)
                   | (Some b, d1) \<Rightarrow>
                       if le16 b 510 \<noteq> FAT32_SIGNATURE then Some (None, kfree (kfree h2 boot_sector) state, d1)
                       else if le16 b 22 \<noteq> 0 then Some (None, kfree (kfree h2 boot_sector) state, d1)
                       else Option.bind (fat_geometry dev part b) (\<lambda>st.
                         Option.bind (kmalloc (kfree h2 boot_sector) IFILESYSTEM_SIZE) (\<lambda>(fs, h3).
                           if fs = 0 then Some (None, kfree h3 state, d1)
                           else Some (Some (fs, state, st), h3, d1))))))"

text \<open>\<open>fs\<close> and \<open>private_data\<close> are addresses (0 for null), \<open>cache\<close> the state's \<^verbatim>\<open>fat_cache\<close>.\<close>

definition fat32_Unmount :: "addr \<Rightarrow> addr \<Rightarrow> addr \<Rightarrow> kheap \<Rightarrow> kheap" where
  "fat32_Unmount fs private_data cache h =
     (let h1 = (if fs \<noteq> 0 \<and> private_data \<noteq> 0
                then kfree (if cache \<noteq> 0 then kfree h cache else h) private_data else h)
      in if fs \<noteq> 0 then kfree h1 fs else h1)"

section \<open>Files\<close>

text \<open>The loop of \<^verbatim>\<open>fs_read\<close>; \<open>out\<close> is what has been copied, so \<^verbatim>\<open>bytes_read\<close> is its length.\<close>

partial_function (option) fs_read_loop ::
  "'d FAT32State \<Rightarrow> nat \<Rightarrow> nat \<Rightarrow> nat \<Rightarrow> nat \<Rightarrow> u8 list \<Rightarrow> kheap \<Rightarrow> 'd \<Rightarrow> ((int \<times> u8 list) \<times> kheap \<times> 'd) option" where
  "fs_read_loop st sz offset cluster current_offset out h d =
     (if cluster \<ge> 2 \<and> cluster < FAT32_CLUSTER_EOF \<and> length out < sz
      then if add64 current_offset (cluster_size st) \<le> offset
           then Option.bind (GetNextCluster st cluster h d) (\<lambda>(next, h1, d1).
                  fs_read_loop st sz offset next (add64 current_offset (cluster_size st)) out h1 d1)
           else Option.bind (ReadCluster st cluster d) (\<lambda>(r, d1).
                  case r of
                    None \<Rightarrow> Some ((if length out > 0 then i32_of (length out) else -1, out), h, d1)
                  | Some cluster_buf \<Rightarrow>
                      let cluster_offset = (if current_offset < offset then offset - current_offset else 0);
                          copy_size = sub64 (cluster_size st) cluster_offset;
                          copy_size = (if copy_size > sz - length out then sz - length out else copy_size)
                      in Option.bind (GetNextCluster st cluster h d1) (\<lambda>(next, h2, d2).
                           fs_read_loop st sz offset next (add64 current_offset (cluster_size st))
                             (out @ take copy_size (drop cluster_offset cluster_buf)) h2 d2))
      else Some ((i32_of (length out), out), h, d))"

text \<open>\<^verbatim>\<open>fs_read\<close>: the returned number and the bytes put into the buffer.  The returned value is the \<^verbatim>\<open>size_t\<close>
  count converted to \<^verbatim>\<open>int\<close>, which is the count itself for reads below 2 GB.\<close>

definition fs_read :: "'d FAT32State option \<Rightarrow> string \<Rightarrow> nat \<Rightarrow> nat \<Rightarrow> kheap \<Rightarrow> 'd \<Rightarrow> ((int \<times> u8 list) \<times> kheap \<times> 'd) option" where
  "fs_read state path sz offset h d =
     (case state of
        None \<Rightarrow> Some ((-1, []), h, d)
      | Some st \<Rightarrow>
          Option.bind (ParsePath st path h d) (\<lambda>(r, h1, d1).
            case r of
              None \<Rightarrow> Some ((-1, []), h1, d1)
            | Some info \<Rightarrow>
                if fi_is_directory info then Some ((-1, []), h1, d1)
                else if offset \<ge> fi_size info then Some ((0, []), h1, d1)
                else let sz = (if add64 offset sz > fi_size info then fi_size info - offset else sz)
                     in with_buffer h1 d1 (cluster_size st) (-1, []) (\<lambda>h2.
                          fs_read_loop st sz offset (fi_cluster info) 0 [] h2 d1)))"

text \<open>The operations the driver does not implement.\<close>

definition fs_write :: "string \<Rightarrow> u8 list \<Rightarrow> nat \<Rightarrow> int" where "fs_write path buf offset = -1"
definition fs_create :: "string \<Rightarrow> nat \<Rightarrow> int" where "fs_create path mode = -1"
definition fs_remove :: "string \<Rightarrow> int" where "fs_remove path = -1"
definition fs_mkdir :: "string \<Rightarrow> int" where "fs_mkdir path = -1"
definition fs_rmdir :: "string \<Rightarrow> int" where "fs_rmdir path = -1"

text \<open>\<^verbatim>\<open>fs_stat\<close>: return value and name, is-directory and size of the filled buffer.\<close>

definition fs_stat :: "'d FAT32State option \<Rightarrow> string \<Rightarrow> kheap \<Rightarrow> 'd \<Rightarrow> ((int \<times> (string \<times> bool \<times> nat) option) \<times> kheap \<times> 'd) option" where
  "fs_stat state path h d =
     (case state of
        None \<Rightarrow> Some ((-1, None), h, d)
      | Some st \<Rightarrow>
          Option.bind (ParsePath st path h d) (\<lambda>(r, h1, d1).
            case r of
              None \<Rightarrow> Some ((-1, None), h1, d1)
            | Some info \<Rightarrow> Some ((0, Some (copy_name 63 (fi_name info), fi_is_directory info, fi_size info)), h1, d1)))"

text \<open>The entry loop of \<^verbatim>\<open>fs_readdir\<close> on one cluster: the entries put out (name, type, size) and whether the end
  marker was reached.  (\<^verbatim>\<open>max_entries\<close> is an \<^verbatim>\<open>int\<close>: a negative value behaves like 0.)\<close>

fun readdir_entries :: "nat \<Rightarrow> u8 list list \<Rightarrow> (string \<times> nat \<times> nat) list \<Rightarrow> (string \<times> nat \<times> nat) list \<times> bool" where
  "readdir_entries mx [] out = (out, False)"
| "readdir_entries mx (e # es) out =
     (if length out \<ge> mx then (out, False)
      else if e ! 0 = 0 then (out, True)
      else if skip_entry e \<or> byte_char (e ! 0) = CHR ''.'' then readdir_entries mx es out
      else readdir_entries mx es (out @ [(copy_name 63 (Parse83Name e),
             if e ! 11 AND FAT32_ATTR_DIRECTORY \<noteq> 0 then 1 else 0, le32 e 28)]))"

partial_function (option) readdir_loop ::
  "'d FAT32State \<Rightarrow> nat \<Rightarrow> nat \<Rightarrow> (string \<times> nat \<times> nat) list \<Rightarrow> kheap \<Rightarrow> 'd
     \<Rightarrow> ((int \<times> (string \<times> nat \<times> nat) list) \<times> kheap \<times> 'd) option" where
  "readdir_loop st mx cluster out h d =
     (if cluster \<ge> 2 \<and> cluster < FAT32_CLUSTER_EOF \<and> length out < mx
      then Option.bind (ReadCluster st cluster d) (\<lambda>(r, d1).
             case r of
               None \<Rightarrow> Some ((int (length out), out), h, d1)
             | Some buffer \<Rightarrow>
                 let (out1, fin) = readdir_entries mx (dir_entries st buffer) out
                 in if fin then Some ((int (length out1), out1), h, d1)
                    else Option.bind (GetNextCluster st cluster h d1) (\<lambda>(next, h2, d2). readdir_loop st mx next out1 h2 d2))
      else Some ((int (length out), out), h, d))"

definition fs_readdir ::
  "'d FAT32State option \<Rightarrow> string \<Rightarrow> nat \<Rightarrow> kheap \<Rightarrow> 'd \<Rightarrow> ((int \<times> (string \<times> nat \<times> nat) list) \<times> kheap \<times> 'd) option" where
  "fs_readdir state path max_entries h d =
     (case state of
        None \<Rightarrow> Some ((-1, []), h, d)
      | Some st \<Rightarrow>
          Option.bind (ParsePath st path h d) (\<lambda>(r, h1, d1).
            case r of
              None \<Rightarrow> Some ((-1, []), h1, d1)
            | Some dir_info \<Rightarrow>
                if \<not> fi_is_directory dir_info then Some ((-1, []), h1, d1)
                else with_buffer h1 d1 (cluster_size st) (-1, []) (\<lambda>h2.
                       readdir_loop st max_entries (fi_cluster dir_info) [] h2 d1)))"

end
