(* ===== verification/Mount_Manager.thy ===== *)
theory Mount_Manager
  imports FAT32
begin

text \<open>
  Finding file systems: the MBR partition table (\<^verbatim>\<open>kernel/hal/storage/partition.cpp\<close>), the NTFS stub
  (\<^verbatim>\<open>kernel/fs/drivers/ntfs.cpp\<close>) and the automatic mounting of \<^verbatim>\<open>kernel/fs/mount_manager.cpp\<close>.  A pointer to a
  block device is its index in the storage manager's table.
\<close>

section \<open>Partitions\<close>

datatype PartitionType = PT_EMPTY | PT_FAT12 | PT_FAT16 | PT_FAT32 | PT_LINUX | PT_NTFS | PT_UNKNOWN

record Partition =
  pt_name :: string
  pt_parent :: nat
  pt_start_lba :: nat
  pt_sector_count :: nat
  pt_type :: PartitionType
  pt_bootable :: bool

record partition_table =
  pm_partitions :: "Partition list"
  pm_partitionCount :: nat

abbreviation MAX_PARTITIONS :: nat where "MAX_PARTITIONS \<equiv> 32"

definition MBRTypeToPartitionType :: "nat \<Rightarrow> PartitionType" where
  "MBRTypeToPartitionType t =
     (if t = 0x00 then PT_EMPTY
      else if t = 0x01 then PT_FAT12
      else if t = 0x04 \<or> t = 0x06 \<or> t = 0x0E then PT_FAT16
      else if t = 0x0B \<or> t = 0x0C then PT_FAT32
      else if t = 0x07 then PT_NTFS
      else if t = 0x83 then PT_LINUX
      else PT_UNKNOWN)"

text \<open>The entry of slot \<open>i\<close> of the boot record is at byte \<open>446 + 16 * i\<close>.\<close>

definition mbr_partition :: "nat \<Rightarrow> string \<Rightarrow> u8 list \<Rightarrow> nat \<Rightarrow> Partition" where
  "mbr_partition device name b i =
     (let e = 446 + 16 * i
      in \<lparr>pt_name = copy_name 12 name @ [CHR ''p'', char_of (49 + i)], pt_parent = device,
          pt_start_lba = le32 b (e + 8), pt_sector_count = le32 b (e + 12),
          pt_type = MBRTypeToPartitionType (le8 b (e + 4)), pt_bootable = (le8 b e = 0x80)\<rparr>)"

text \<open>The loop over the four slots, from slot \<open>i\<close> with \<open>k\<close> left; a full table ends it.\<close>

fun scan_mbr :: "nat \<Rightarrow> string \<Rightarrow> u8 list \<Rightarrow> nat \<Rightarrow> nat \<Rightarrow> nat \<Rightarrow> partition_table \<Rightarrow> nat \<times> partition_table" where
  "scan_mbr device name b 0 i found t = (found, t)"
| "scan_mbr device name b (Suc k) i found t =
     (if le8 b (446 + 16 * i + 4) \<noteq> 0 \<and> le32 b (446 + 16 * i + 12) > 0
      then if pm_partitionCount t \<ge> MAX_PARTITIONS then (found, t)
           else scan_mbr device name b k (i + 1) (found + 1)
                  (t\<lparr>pm_partitions := (pm_partitions t)[pm_partitionCount t := mbr_partition device name b i],
                     pm_partitionCount := pm_partitionCount t + 1\<rparr>)
      else scan_mbr device name b k (i + 1) found t)"

definition ScanDevice :: "nat \<Rightarrow> 'd IBlockDevice option \<Rightarrow> partition_table \<Rightarrow> 'd \<Rightarrow> nat \<times> partition_table \<times> 'd" where
  "ScanDevice idx device t d =
     (case device of
        None \<Rightarrow> (0, t, d)
      | Some dev \<Rightarrow>
          (case bd_read_blocks dev of
             None \<Rightarrow> (0, t, d)
           | Some rd \<Rightarrow>
               (case rd d 0 1 of
                  (None, d1) \<Rightarrow> (0, t, d1)
                | (Some b, d1) \<Rightarrow>
                    if le16 b 510 \<noteq> 0xAA55 then (0, t, d1)
                    else (let (found, t1) = scan_mbr idx (bd_name dev) b 4 0 0 t in (found, t1, d1)))))"

definition GetPartition :: "nat \<Rightarrow> partition_table \<Rightarrow> Partition option" where
  "GetPartition index t = (if index < pm_partitionCount t then Some (pm_partitions t ! index) else None)"

definition GetPartitionCount :: "partition_table \<Rightarrow> nat" where
  "GetPartitionCount t = pm_partitionCount t"

section \<open>The NTFS stub\<close>

record 'd NTFSState =
  nt_device :: "'d IBlockDevice"
  nt_partition_start :: nat
  nt_bootSector :: "u8 list"

abbreviation NTFSSTATE_SIZE :: nat where "NTFSSTATE_SIZE \<equiv> 528"

text \<open>The code uses the two allocations without checking them: writing through a null pointer is the result \<open>None\<close>.\<close>

definition ntfs_Mount :: "'d IBlockDevice \<Rightarrow> nat \<Rightarrow> kheap \<Rightarrow> 'd \<Rightarrow> ((addr \<times> addr \<times> 'd NTFSState) option \<times> kheap \<times> 'd) option" where
  "ntfs_Mount dev start_lba h d =
     (case bd_read_blocks dev of
        None \<Rightarrow> None
      | Some rd \<Rightarrow>
          (case rd d start_lba 1 of
             (None, d1) \<Rightarrow> Some (None, h, d1)
           | (Some b, d1) \<Rightarrow>
               if kstrncmp (takeWhile (\<lambda>c. c \<noteq> CHR 0x00) (map byte_char (drop 3 b))) ''NTFS'' 4 \<noteq> 0 then Some (None, h, d1)
               else Option.bind (kmalloc h NTFSSTATE_SIZE) (\<lambda>(state, h1).
                      if state = 0 then None
                      else Option.bind (kmalloc h1 IFILESYSTEM_SIZE) (\<lambda>(fs, h2).
                        if fs = 0 then None
                        else Some (Some (fs, state, \<lparr>nt_device = dev, nt_partition_start = start_lba, nt_bootSector = b\<rparr>), h2, d1)))))"

definition ntfs_Read :: "string \<Rightarrow> nat \<Rightarrow> nat \<Rightarrow> int" where "ntfs_Read path sz offset = 0"
definition ntfs_Write :: "string \<Rightarrow> u8 list \<Rightarrow> nat \<Rightarrow> int" where "ntfs_Write path buf offset = -1"
definition ntfs_Readdir :: "string \<Rightarrow> nat \<Rightarrow> int" where "ntfs_Readdir path max_entries = 0"

section \<open>The mount manager\<close>

record MountInfo =
  mi_path :: string
  mi_fstype :: string
  mi_device :: string

text \<open>The driver behind an \<^verbatim>\<open>IFileSystem\<close>.\<close>

datatype 'd fs_driver = FatDriver "'d FAT32State" | NtfsDriver "'d NTFSState"

record 'd mount_world =
  mw_storage :: "'d storage"
  mw_parts :: partition_table
  mw_table :: "'d fs_driver mount_state"
  mw_heap :: kheap
  mw_dev :: 'd
  mm_mounts :: "MountInfo list"
  mm_mountCount :: nat

abbreviation MAX_MOUNTS :: nat where "MAX_MOUNTS \<equiv> 8"

definition IsFAT32 :: "'d IBlockDevice \<Rightarrow> nat \<Rightarrow> kheap \<Rightarrow> 'd \<Rightarrow> (bool \<times> kheap \<times> 'd) option" where
  "IsFAT32 dev part h d =
     with_buffer h d 512 False (\<lambda>h1.
       case bd_read_blocks dev of
         None \<Rightarrow> None
       | Some rd \<Rightarrow>
           (case rd d part 1 of
              (None, d1) \<Rightarrow> Some (False, h1, d1)
            | (Some b, d1) \<Rightarrow>
                Some (\<not> (le8 b 510 \<noteq> 0x55 \<or> le8 b 511 \<noteq> 0xAA) \<and> le16 b 22 = 0 \<and>
                      map byte_char (take 5 (drop 82 b)) = ''FAT32'', h1, d1)))"

definition zero_info :: MountInfo where
  "zero_info = \<lparr>mi_path = [], mi_fstype = [], mi_device = []\<rparr>"

definition mm_Init :: "'d mount_world \<Rightarrow> 'd mount_world" where
  "mm_Init w = w\<lparr>mm_mounts := (replicate MAX_MOUNTS zero_info)[0 := \<lparr>mi_path = ''/initrd'', mi_fstype = ''initrd'', mi_device = []\<rparr>],
     mm_mountCount := 1\<rparr>"

text \<open>The path of the file system number \<open>mounted\<close>.  The loop \<^verbatim>\<open>while (num[z]) mount_path[5+z] = num[z++];\<close>
  evaluates \<^verbatim>\<open>num[z++]\<close> before the left-hand side (C++17), so digit \<open>z\<close> lands at \<open>6 + z\<close>, the final NUL replaces
  the last digit, and the character at 5 is whatever the stack held, here \<open>g\<close>.\<close>

definition mount_path :: "nat \<Rightarrow> char \<Rightarrow> string" where
  "mount_path mounted g =
     (if mounted = 0 then ''/data''
      else case kitoa (int mounted) 10 of
             None \<Rightarrow> []
           | Some num \<Rightarrow> takeWhile (\<lambda>c. c \<noteq> CHR 0x00) (''/disk'' @ g # butlast num))"

definition record_mount :: "string \<Rightarrow> string \<Rightarrow> string \<Rightarrow> 'd mount_world \<Rightarrow> 'd mount_world" where
  "record_mount path fstype device w =
     (if mm_mountCount w < MAX_MOUNTS
      then w\<lparr>mm_mounts := (mm_mounts w)[mm_mountCount w := \<lparr>mi_path = path, mi_fstype = fstype, mi_device = device\<rparr>],
             mm_mountCount := mm_mountCount w + 1\<rparr>
      else w)"

text \<open>\<^verbatim>\<open>if (Mount::AddMount(mount_path, fs)) { ... mounted++; }\<close>: the new number of mounts and whether this one
  succeeded.\<close>

definition add_mount ::
  "string \<Rightarrow> string \<Rightarrow> string \<Rightarrow> addr \<Rightarrow> 'd fs_driver \<Rightarrow> nat \<Rightarrow> 'd mount_world \<Rightarrow> nat \<times> bool \<times> 'd mount_world" where
  "add_mount path fstype device priv drv mounted w =
     (let (ok, tab) = AddMount (Some path) (Some \<lparr>fs_name = Some fstype, fs_ops = drv, fs_private_data = priv\<rparr>) (mw_table w)
      in if ok then (mounted + 1, True, record_mount path fstype device (w\<lparr>mw_table := tab\<rparr>))
         else (mounted, False, w))"

text \<open>One partition of the device \<open>dev\<close>.\<close>

definition try_partition ::
  "'d IBlockDevice \<Rightarrow> Partition \<Rightarrow> char \<Rightarrow> nat \<times> bool \<times> 'd mount_world \<Rightarrow> (nat \<times> bool \<times> 'd mount_world) option" where
  "try_partition dev part g = (\<lambda>(mounted, found, w).
     Option.bind (IsFAT32 dev (pt_start_lba part) (mw_heap w) (mw_dev w)) (\<lambda>(is_fat, h1, d1).
       if is_fat
       then Option.bind (fat32_Mount dev (pt_start_lba part) h1 d1) (\<lambda>(r, h2, d2).
              let w2 = w\<lparr>mw_heap := h2, mw_dev := d2\<rparr>
              in case r of
                   None \<Rightarrow> Some (mounted, found, w2)
                 | Some (fs, state, st) \<Rightarrow>
                     (let (m, ok, w3) = add_mount (mount_path mounted g) ''fat32'' (pt_name part) state (FatDriver st) mounted w2
                      in Some (m, found \<or> ok, w3)))
       else Option.bind (ntfs_Mount dev (pt_start_lba part) h1 d1) (\<lambda>(r, h2, d2).
              let w2 = w\<lparr>mw_heap := h2, mw_dev := d2\<rparr>
              in case r of
                   None \<Rightarrow> Some (mounted, found, w2)
                 | Some (fs, state, st) \<Rightarrow>
                     (let (m, ok, w3) = add_mount (mount_path mounted g) ''ntfs'' (pt_name part) state (NtfsDriver st) mounted w2
                      in Some (m, found \<or> ok, w3)))))"

fun partition_loop ::
  "nat \<Rightarrow> 'd IBlockDevice \<Rightarrow> char \<Rightarrow> Partition list \<Rightarrow> nat \<times> bool \<times> 'd mount_world \<Rightarrow> (nat \<times> bool \<times> 'd mount_world) option" where
  "partition_loop idx dev g [] s = Some s"
| "partition_loop idx dev g (p # ps) s =
     (if pt_parent p \<noteq> idx then partition_loop idx dev g ps s
      else Option.bind (try_partition dev p g s) (partition_loop idx dev g ps))"

text \<open>One device: its partitions, then the whole device as a FAT32 volume when none was mounted.\<close>

definition scan_device :: "nat \<Rightarrow> 'd IBlockDevice \<Rightarrow> char \<Rightarrow> nat \<Rightarrow> 'd mount_world \<Rightarrow> (nat \<times> 'd mount_world) option" where
  "scan_device idx dev g mounted w =
     (let (partitionsFound, t, d1) = ScanDevice idx (Some dev) (mw_parts w) (mw_dev w);
          w1 = w\<lparr>mw_parts := t, mw_dev := d1\<rparr>
      in Option.bind (if partitionsFound > 0
                      then partition_loop idx dev g (take (pm_partitionCount t) (pm_partitions t)) (mounted, False, w1)
                      else Some (mounted, False, w1)) (\<lambda>(m, mountedPartition, w2).
           if mountedPartition then Some (m, w2)
           else Option.bind (IsFAT32 dev 0 (mw_heap w2) (mw_dev w2)) (\<lambda>(is_fat, h3, d3).
                  let w3 = w2\<lparr>mw_heap := h3, mw_dev := d3\<rparr>
                  in if \<not> is_fat then Some (m, w3)
                     else Option.bind (fat32_Mount dev 0 h3 d3) (\<lambda>(r, h4, d4).
                            let w4 = w3\<lparr>mw_heap := h4, mw_dev := d4\<rparr>
                            in case r of
                                 None \<Rightarrow> Some (m, w4)
                               | Some (fs, state, st) \<Rightarrow>
                                   (let (m2, ok, w5) = add_mount ''/data'' ''fat32'' (bd_name dev) state (FatDriver st) m w4
                                    in Some (m2, w5))))))"

fun device_loop :: "char \<Rightarrow> nat \<Rightarrow> nat \<Rightarrow> nat \<Rightarrow> 'd mount_world \<Rightarrow> (nat \<times> 'd mount_world) option" where
  "device_loop g 0 i mounted w = Some (mounted, w)"
| "device_loop g (Suc k) i mounted w =
     (case GetDeviceByIndex i (mw_storage w) of
        None \<Rightarrow> device_loop g k (i + 1) mounted w
      | Some dev \<Rightarrow> Option.bind (scan_device i dev g mounted w) (\<lambda>(m, w1). device_loop g k (i + 1) m w1))"

definition ScanAndMount :: "char \<Rightarrow> 'd mount_world \<Rightarrow> (nat \<times> 'd mount_world) option" where
  "ScanAndMount g w = device_loop g (sm_GetDeviceCount (mw_storage w)) 0 0 w"

definition mm_GetMountCount :: "'d mount_world \<Rightarrow> nat" where
  "mm_GetMountCount w = mm_mountCount w"

definition GetMountInfo :: "int \<Rightarrow> 'd mount_world \<Rightarrow> MountInfo option" where
  "GetMountInfo index w = (if index < 0 \<or> index \<ge> int (mm_mountCount w) then None else Some (mm_mounts w ! nat index))"

section \<open>Properties\<close>

text \<open>The path of the second to tenth file system does not contain its number: the copy loop puts the digit
  over the place where the terminating NUL is then written, so all of them get the same path (\<^verbatim>\<open>/disk\<close> and one
  character of uninitialised memory), and \<^verbatim>\<open>FindMount\<close> can only reach the first.\<close>

theorem mount_paths_collide:
  assumes "0 < m" and "m < 10" and "0 < n" and "n < 10"
  shows "mount_path m g = mount_path n g \<and> mount_path m g = (if g = CHR 0x00 then ''/disk'' else ''/disk'' @ [g])"
proof -
  have digit: "mount_path k g = (if g = CHR 0x00 then ''/disk'' else ''/disk'' @ [g])" if "0 < k" "k < 10" for k
  proof -
    have "digits_loop 10 k = [digit_chars ! k]" using that by (simp add: digits_loop.simps Let_def)
    then have "kitoa (int k) 10 = Some [digit_chars ! k]" by (simp add: kitoa_def reverse_loop.simps Let_def)
    with that show ?thesis by (simp add: mount_path_def)
  qed
  from digit [OF assms(1,2)] digit [OF assms(3,4)] show ?thesis by simp
qed

theorem mount_paths_collide_witness: "mount_path 1 CHR ''x'' = mount_path 2 CHR ''x''"
  using mount_paths_collide [of 1 2 "CHR ''x''"] by simp

end
