(* ===== verification/FAT32_Read.thy ===== *)
theory FAT32_Read
  imports FAT32
begin

text \<open>
  What the FAT32 driver computes on a device that keeps the block device contract: the entry of a cluster
  in the allocation table, the chain of a file, and that \<^verbatim>\<open>fs_read\<close> returns the bytes of the chain.  The
  scratch buffers do not disturb the heap: allocating and freeing one gives back the same segments.
\<close>

section \<open>Scratch buffers\<close>

lemma mark_other: "a \<notin> sg_addr ` set ss \<Longrightarrow> map (\<lambda>s. if sg_addr s = a then s\<lparr>sg_free := True\<rparr> else s) ss = ss"
  by (induction ss) auto

lemma alloc_then_free_segs:
  "no_free_pair ss \<Longrightarrow> distinct (map sg_addr ss) \<Longrightarrow> fst (alloc_segs k ss) \<noteq> 0 \<Longrightarrow>
   \<exists>s \<in> set (snd (alloc_segs k ss)). sg_addr s \<in> sg_addr ` set ss \<and> fst (alloc_segs k ss) = sg_addr s + HDR \<and>
     free_segs (sg_addr s) (snd (alloc_segs k ss)) = ss"
proof (induction ss)
  case Nil
  then show ?case by simp
next
  case (Cons s ss)
  have other: "sg_addr s \<notin> sg_addr ` set ss" using Cons.prems(2) by auto
  consider (exact) "sg_free s \<and> sg_len s = k" | (split) "sg_free s \<and> k + HDR < sg_len s" "\<not> (sg_free s \<and> sg_len s = k)"
    | (rest) "\<not> (sg_free s \<and> sg_len s = k)" "\<not> (sg_free s \<and> k + HDR < sg_len s)" by blast
  then show ?case
  proof cases
    case exact
    then have same: "s\<lparr>sg_free := True\<rparr> = s" by (cases s) simp
    have "free_segs (sg_addr s) (snd (alloc_segs k (s # ss))) = coalesce (s\<lparr>sg_free := True\<rparr> # ss)"
      using exact mark_other [OF other] by (simp add: free_segs_def del: coalesce.simps)
    then have "free_segs (sg_addr s) (snd (alloc_segs k (s # ss))) = coalesce (s # ss)" unfolding same .
    with exact coalesce_id [OF Cons.prems(1)] show ?thesis by auto
  next
    case split
    let ?a = "mk_seg (sg_addr s) k False" and ?b = "mk_seg (sg_addr s + HDR + k) (sg_len s - k - HDR) True"
    have s: "s = mk_seg (sg_addr s) (sg_len s) True" using split(1) by (cases s) simp
    have "no_free_pair (?b # ss)" using Cons.prems(1) split(1) by (simp add: no_free_pair_Cons)
    then have "coalesce (?b # ss) = ?b # ss" by (rule coalesce_id)
    then have "coalesce (?a\<lparr>sg_free := True\<rparr> # ?b # ss) = mk_seg (sg_addr s) (sg_len s) True # ss"
      unfolding coalesce.simps(2) [of "?a\<lparr>sg_free := True\<rparr>"] using split(1) by simp
    then have co: "coalesce (?a\<lparr>sg_free := True\<rparr> # ?b # ss) = s # ss" unfolding s [symmetric] .
    have alloc: "alloc_segs k (s # ss) = (sg_addr s + HDR, ?a # ?b # ss)" using split by auto
    have "free_segs (sg_addr s) (?a # ?b # ss) = coalesce (?a\<lparr>sg_free := True\<rparr> # ?b # ss)"
      using mark_other [OF other] by (simp add: free_segs_def del: coalesce.simps)
    with co alloc show ?thesis by auto
  next
    case rest
    obtain p ss' where r: "alloc_segs k ss = (p, ss')" by (rule prod.exhaust)
    have step: "alloc_segs k (s # ss) = (p, s # ss')" using rest r by auto
    have "no_free_pair ss" using Cons.prems(1) by (simp add: no_free_pair_Cons)
    from Cons.IH [OF this] Cons.prems(2,3) r step obtain t where t: "t \<in> set ss'" "sg_addr t \<in> sg_addr ` set ss"
      "p = sg_addr t + HDR" "free_segs (sg_addr t) ss' = ss" by auto
    have "free_segs (sg_addr t) (s # ss') = coalesce ([s] @ ss)"
      unfolding coalesce_append [of "[s]" ss] using t(2,4) other coalesce_append [of "[s]"]
      by (auto simp: free_segs_def simp del: coalesce.simps)
    with t step coalesce_id [OF Cons.prems(1)] show ?thesis by auto
  qed
qed

text \<open>A heap with these segments can give a buffer of \<open>n\<close> bytes, and what it looks like then.\<close>

definition room :: "nat \<Rightarrow> seg list \<Rightarrow> bool" where
  "room n ss \<longleftrightarrow> 0 < n \<and> n \<le> kheap_max \<and> fst (alloc_segs (align16 n) ss) \<noteq> 0"

definition taken :: "nat \<Rightarrow> seg list \<Rightarrow> seg list" where
  "taken n ss = snd (alloc_segs (align16 n) ss)"

lemma with_buffer_ok:
  assumes "heap_ok h ss" and "room n ss"
    and "\<And>h1. heap_ok h1 (taken n ss) \<Longrightarrow> \<exists>h2. body h1 = Some (r, h2, d2) \<and> heap_ok h2 (taken n ss)"
  shows "\<exists>h'. with_buffer h d n r0 body = Some (r, h', d2) \<and> heap_ok h' ss"
proof -
  let ?p = "fst (alloc_segs (align16 n) ss)"
  have n: "n \<le> kheap_max" "n \<noteq> 0" "?p \<noteq> 0" using assms(2) by (simp_all add: room_def)
  obtain h1 where h1: "kheap_Allocate h n = Some (?p, h1)" "heap_ok h1 (taken n ss)"
    by (rule kheap_Allocate_cases [OF assms(1) n(1)]) (use n(2) in \<open>auto simp: taken_def\<close>)
  from assms(3) [OF h1(2)] obtain h2 where h2: "body h1 = Some (r, h2, d2)" "heap_ok h2 (taken n ss)" by blast
  have "no_free_pair ss" "distinct (map sg_addr ss)"
    using assms(1) tiles_distinct [OF heap_ok_tiles [OF assms(1)]] by (simp_all add: heap_ok_def)
  from alloc_then_free_segs [OF this n(3)] obtain t where t: "t \<in> set (taken n ss)" "?p = sg_addr t + HDR"
    "free_segs (sg_addr t) (taken n ss) = ss" by (auto simp: taken_def)
  have "heap_ok (kfree h2 ?p) ss" using kheap_Free_refines [OF h2(2) t(1)] t(2,3) by (simp add: kfree_def)
  moreover have "with_buffer h d n r0 body = Some (r, kfree h2 ?p, d2)"
    using h1(1) h2(1) n(3) by (simp add: with_buffer_def kmalloc_def)
  ultimately show ?thesis by blast
qed

section \<open>The volume\<close>

text \<open>A mounted volume that fits its device: the tables and the clusters lie on the disk, and the entries of
  the table are whole words of its sectors.\<close>

definition fat_ok :: "'d FAT32State \<Rightarrow> 'd IBlockDevice \<Rightarrow> bool" where
  "fat_ok st dev \<longleftrightarrow> fa_device st = dev \<and> bytes_per_sector st = bd_sector_size dev \<and> 4 dvd bytes_per_sector st \<and>
     0 < bytes_per_sector st \<and> 0 < num_fats st \<and>
     cluster_size st = sectors_per_cluster st * bytes_per_sector st \<and> total_clusters st + 2 \<le> FAT32_CLUSTER_EOF \<and>
     (total_clusters st + 2) * 4 \<le> sectors_per_fat st * bytes_per_sector st \<and>
     fat_start_lba st + num_fats st * sectors_per_fat st \<le> data_start_lba st \<and>
     data_start_lba st + total_clusters st * sectors_per_cluster st < u32_limit \<and>
     partition_start st + data_start_lba st + total_clusters st * sectors_per_cluster st \<le> bd_total_sectors dev"

definition fat_sector_of :: "'d FAT32State \<Rightarrow> nat \<Rightarrow> nat" where
  "fat_sector_of st c = partition_start st + fat_start_lba st + c * 4 div bytes_per_sector st"

definition fat_entry :: "'d FAT32State \<Rightarrow> (nat \<Rightarrow> u8 list) \<Rightarrow> nat \<Rightarrow> nat" where
  "fat_entry st dk c = le32 (dk (fat_sector_of st c)) (c * 4 mod bytes_per_sector st) mod 2 ^ 28"

definition cluster_data :: "'d FAT32State \<Rightarrow> (nat \<Rightarrow> u8 list) \<Rightarrow> nat \<Rightarrow> u8 list" where
  "cluster_data st dk c =
     sectors dk (partition_start st + data_start_lba st + (c - 2) * sectors_per_cluster st) (sectors_per_cluster st)"

definition is_cluster :: "'d FAT32State \<Rightarrow> nat \<Rightarrow> bool" where
  "is_cluster st c \<longleftrightarrow> 2 \<le> c \<and> c < total_clusters st + 2"

text \<open>The clusters of a chain in order.\<close>

fun fat_chain :: "'d FAT32State \<Rightarrow> (nat \<Rightarrow> u8 list) \<Rightarrow> nat \<Rightarrow> nat list \<Rightarrow> bool" where
  "fat_chain st dk c [] \<longleftrightarrow> c < 2 \<or> FAT32_CLUSTER_EOF \<le> c"
| "fat_chain st dk c (x # xs) \<longleftrightarrow> x = c \<and> is_cluster st c \<and> fat_chain st dk (fat_entry st dk c) xs"

definition chain_data :: "'d FAT32State \<Rightarrow> (nat \<Rightarrow> u8 list) \<Rightarrow> nat list \<Rightarrow> u8 list" where
  "chain_data st dk cs = concat (map (cluster_data st dk) cs)"

lemma fat_ok_bounds:
  assumes "fat_ok st dev" and "is_cluster st c"
  shows "c < FAT32_CLUSTER_EOF" and "mul32 c 4 = c * 4" and "c * 4 div bytes_per_sector st < sectors_per_fat st"
    and "fat_start_lba st + c * 4 div bytes_per_sector st < data_start_lba st"
    and "add32 (total_clusters st) 2 = total_clusters st + 2"
    and "(c - 2) * sectors_per_cluster st + sectors_per_cluster st \<le> total_clusters st * sectors_per_cluster st"
proof -
  have c: "2 \<le> c" "c < total_clusters st + 2" using assms(2) by (simp_all add: is_cluster_def)
  show "c < FAT32_CLUSTER_EOF" "mul32 c 4 = c * 4" "add32 (total_clusters st) 2 = total_clusters st + 2"
    using assms(1) c by (simp_all add: fat_ok_def mul32_eq add32_eq)
  have "(total_clusters st + 2) * 4 \<le> sectors_per_fat st * bytes_per_sector st" using assms(1) unfolding fat_ok_def by blast
  moreover have "c * 4 < (total_clusters st + 2) * 4" using c(2) by simp
  ultimately have "c * 4 < sectors_per_fat st * bytes_per_sector st" by (rule less_le_trans [rotated])
  then show s: "c * 4 div bytes_per_sector st < sectors_per_fat st" by (simp add: less_mult_imp_div_less)
  have "0 < num_fats st" using assms(1) by (simp add: fat_ok_def)
  then have "sectors_per_fat st \<le> num_fats st * sectors_per_fat st" by simp
  moreover have "fat_start_lba st + num_fats st * sectors_per_fat st \<le> data_start_lba st" using assms(1) by (simp add: fat_ok_def)
  ultimately show "fat_start_lba st + c * 4 div bytes_per_sector st < data_start_lba st" using s by linarith
  have "Suc (c - 2) * sectors_per_cluster st \<le> total_clusters st * sectors_per_cluster st"
    using c by (intro mult_le_mono1) simp
  then show "(c - 2) * sectors_per_cluster st + sectors_per_cluster st \<le> total_clusters st * sectors_per_cluster st"
    by (simp add: add.commute)
qed

section \<open>Reading the table and the clusters\<close>

context block_device
begin

lemma fat_read_ok:
  assumes "fat_ok st dev" and "ready d" and "partition_start st + lba + n \<le> bd_total_sectors dev"
  shows "fat_ReadSectors st lba n d = Some (Some (sectors (disk d) (partition_start st + lba) n), d)"
proof -
  have "fa_device st = dev" using assms(1) by (simp add: fat_ok_def)
  moreover have "add64 (partition_start st) lba = partition_start st + lba"
    using assms(3) total_limit by (intro add64_eq) linarith
  ultimately show ?thesis using read_ok [OF assms(2,3)] by (simp add: fat_ReadSectors_def rd_fun)
qed

lemma fat_sector_in_range:
  assumes "fat_ok st dev" and "is_cluster st c"
  shows "fat_sector_of st c < bd_total_sectors dev"
    and "add32 (fat_start_lba st) (c * 4 div bytes_per_sector st) = fat_start_lba st + c * 4 div bytes_per_sector st"
proof -
  note b = fat_ok_bounds [OF assms]
  have "partition_start st + data_start_lba st \<le> bd_total_sectors dev" "data_start_lba st < u32_limit"
    using assms(1) by (simp_all add: fat_ok_def)
  with b(4) show "fat_sector_of st c < bd_total_sectors dev"
    "add32 (fat_start_lba st) (c * 4 div bytes_per_sector st) = fat_start_lba st + c * 4 div bytes_per_sector st"
    by (simp_all add: fat_sector_of_def add32_eq)
qed

lemma fat_read_sector:
  assumes "fat_ok st dev" and "is_cluster st c" and "ready d"
  shows "fat_ReadSectors st (add32 (fat_start_lba st) (c * 4 div bytes_per_sector st)) 1 d =
    Some (Some (disk d (fat_sector_of st c)), d)"
  using fat_read_ok [OF assms(1,3), of "fat_start_lba st + c * 4 div bytes_per_sector st" 1]
    fat_sector_in_range [OF assms(1,2)]
  by (simp add: fat_sector_of_def sectors_Suc add.assoc)

lemma GetNextCluster_ok:
  assumes "fat_ok st dev" and "is_cluster st c" and "ready d" and "heap_ok h ss" and "room (bytes_per_sector st) ss"
  shows "\<exists>h'. GetNextCluster st c h d = Some (fat_entry st (disk d) c, h', d) \<and> heap_ok h' ss"
proof -
  note b = fat_ok_bounds [OF assms(1,2)]
  have bps: "0 < bytes_per_sector st" using assms(1) by (simp add: fat_ok_def)
  let ?body = "\<lambda>h1. Option.bind (fat_ReadSectors st (add32 (fat_start_lba st) (c * 4 div bytes_per_sector st)) 1 d) (\<lambda>(r, d1).
      case r of None \<Rightarrow> Some (FAT32_CLUSTER_EOF, h1, d1)
      | Some buffer \<Rightarrow> Some (le32 buffer (c * 4 mod bytes_per_sector st) mod 2 ^ 28, h1, d1))"
  have body: "?body h1 = Some (fat_entry st (disk d) c, h1, d)" for h1
    unfolding fat_read_sector [OF assms(1-3)] by (simp add: fat_entry_def)
  have "\<exists>h'. with_buffer h d (bytes_per_sector st) FAT32_CLUSTER_EOF ?body = Some (fat_entry st (disk d) c, h', d) \<and> heap_ok h' ss"
    by (rule with_buffer_ok [OF assms(4,5)], rule exI, rule conjI, rule body, assumption)
  moreover have "GetNextCluster st c h d = with_buffer h d (bytes_per_sector st) FAT32_CLUSTER_EOF ?body"
    using assms(2) b(2,5) bps by (simp add: GetNextCluster_def fat_position_def is_cluster_def Let_def)
  ultimately show ?thesis by simp
qed

lemma cluster_lba:
  assumes "fat_ok st dev" and "is_cluster st c"
  shows "ClusterToLBA st c = data_start_lba st + (c - 2) * sectors_per_cluster st"
    and "partition_start st + (data_start_lba st + (c - 2) * sectors_per_cluster st) + sectors_per_cluster st \<le> bd_total_sectors dev"
proof -
  note b = fat_ok_bounds [OF assms]
  have lim: "data_start_lba st + total_clusters st * sectors_per_cluster st < u32_limit"
    "partition_start st + data_start_lba st + total_clusters st * sectors_per_cluster st \<le> bd_total_sectors dev"
    using assms(1) by (simp_all add: fat_ok_def)
  with b(6) show "partition_start st + (data_start_lba st + (c - 2) * sectors_per_cluster st) + sectors_per_cluster st \<le> bd_total_sectors dev"
    by linarith
  have "sub32 c 2 = c - 2" using b(1) assms(2) by (intro sub32_eq) (simp_all add: is_cluster_def)
  moreover have "mul64 (c - 2) (sectors_per_cluster st) = (c - 2) * sectors_per_cluster st"
    using b(6) lim(1) by (intro mul64_eq) linarith
  moreover have "add64 (data_start_lba st) ((c - 2) * sectors_per_cluster st) = data_start_lba st + (c - 2) * sectors_per_cluster st"
    using b(6) lim(1) by (intro add64_eq) linarith
  ultimately show "ClusterToLBA st c = data_start_lba st + (c - 2) * sectors_per_cluster st" by (simp add: ClusterToLBA_def)
qed

lemma ReadCluster_ok:
  assumes "fat_ok st dev" and "is_cluster st c" and "ready d"
  shows "ReadCluster st c d = Some (Some (cluster_data st (disk d) c), d)"
  unfolding ReadCluster_def cluster_lba(1) [OF assms(1,2)] fat_read_ok [OF assms(1,3) cluster_lba(2) [OF assms(1,2)]]
  by (simp add: cluster_data_def add.assoc)

lemma length_cluster_data:
  assumes "fat_ok st dev" and "is_cluster st c" and "ready d"
  shows "length (cluster_data st (disk d) c) = cluster_size st"
  using length_read [OF assms(3), of "partition_start st + data_start_lba st + (c - 2) * sectors_per_cluster st" "sectors_per_cluster st"]
    cluster_lba(2) [OF assms(1,2)] assms(1) by (simp add: cluster_data_def fat_ok_def add.assoc)

end

section \<open>Directories and paths on the disk\<close>

text \<open>The search of a directory as one list of entries.\<close>

definition dir_lookup :: "'d FAT32State \<Rightarrow> (nat \<Rightarrow> u8 list) \<Rightarrow> nat list \<Rightarrow> string \<Rightarrow> FAT32FileInfo option" where
  "dir_lookup st dk cs name =
     (case scan_entries name (concat (map (\<lambda>c. dir_entries st (cluster_data st dk c)) cs)) of
        ScanFound info \<Rightarrow> Some info
      | _ \<Rightarrow> None)"

text \<open>The path \<open>p\<close> leads from the directory at cluster \<open>c\<close> to \<open>info\<close>.\<close>

inductive resolves :: "'d FAT32State \<Rightarrow> (nat \<Rightarrow> u8 list) \<Rightarrow> nat \<Rightarrow> string \<Rightarrow> FAT32FileInfo \<Rightarrow> bool"
  for st :: "'d FAT32State" and dk :: "nat \<Rightarrow> u8 list" where
  resolves_last: "p \<noteq> [] \<Longrightarrow> fat_chain st dk c cs \<Longrightarrow> dir_lookup st dk cs (fst (next_component p)) = Some info \<Longrightarrow>
     snd (next_component p) = [] \<Longrightarrow> resolves st dk c p info"
| resolves_dir: "p \<noteq> [] \<Longrightarrow> fat_chain st dk c cs \<Longrightarrow> dir_lookup st dk cs (fst (next_component p)) = Some i \<Longrightarrow>
     snd (next_component p) \<noteq> [] \<Longrightarrow> fi_is_directory i \<Longrightarrow> resolves st dk (fi_cluster i) (snd (next_component p)) info \<Longrightarrow>
     resolves st dk c p info"

lemma scan_entries_append:
  "scan_entries name (es @ fs) = (case scan_entries name es of ScanNext \<Rightarrow> scan_entries name fs | r \<Rightarrow> r)"
  by (induction es) auto

lemma dir_lookup_Cons:
  "dir_lookup st dk (c # cs) name =
     (case scan_entries name (dir_entries st (cluster_data st dk c)) of
        ScanEnd \<Rightarrow> None | ScanFound info \<Rightarrow> Some info | ScanNext \<Rightarrow> dir_lookup st dk cs name)"
  by (simp add: dir_lookup_def scan_entries_append split: scan.split)

context block_device
begin

lemma find_entry_loop_ok:
  assumes "fat_ok st dev" and "ready d" and "room (bytes_per_sector st) ss"
  shows "fat_chain st (disk d) c cs \<Longrightarrow> heap_ok h ss \<Longrightarrow>
    \<exists>h'. find_entry_loop st c name h d = Some (dir_lookup st (disk d) cs name, h', d) \<and> heap_ok h' ss"
proof (induction cs arbitrary: c h)
  case Nil
  then have "find_entry_loop st c name h d = Some (None, h, d)" by (subst find_entry_loop.simps) auto
  with Nil.prems(2) show ?case by (simp add: dir_lookup_def)
next
  case (Cons x cs)
  then have x: "x = c" and c: "is_cluster st c" and rest: "fat_chain st (disk d) (fat_entry st (disk d) c) cs" by auto
  have rng: "2 \<le> c \<and> c < FAT32_CLUSTER_EOF" using fat_ok_bounds(1) [OF assms(1) c] c by (simp add: is_cluster_def)
  note step = find_entry_loop.simps [of st c name h d] ReadCluster_ok [OF assms(1) c assms(2)]
  show ?case
  proof (cases "scan_entries name (dir_entries st (cluster_data st (disk d) c)) = ScanNext")
    case True
    obtain h1 where h1: "GetNextCluster st c h d = Some (fat_entry st (disk d) c, h1, d)" "heap_ok h1 ss"
      using GetNextCluster_ok [OF assms(1) c assms(2) Cons.prems(2) assms(3)] by blast
    from Cons.IH [OF rest h1(2)] obtain h' where
      h': "find_entry_loop st (fat_entry st (disk d) c) name h1 d = Some (dir_lookup st (disk d) cs name, h', d)" "heap_ok h' ss" by blast
    have "find_entry_loop st c name h d = Some (dir_lookup st (disk d) cs name, h', d)"
      unfolding step(1) using rng step(2) True h1(1) h'(1) by simp
    with h'(2) True x show ?thesis by (simp add: dir_lookup_Cons)
  next
    case False
    then have "find_entry_loop st c name h d = Some (dir_lookup st (disk d) (x # cs) name, h, d)"
      unfolding step(1) using rng step(2) x by (simp add: dir_lookup_Cons split: scan.split)
    with Cons.prems(2) show ?thesis by blast
  qed
qed

lemma FindEntry_ok:
  assumes "fat_ok st dev" and "ready d" and "fat_chain st (disk d) c cs" and "heap_ok h ss"
    and "room (cluster_size st) ss" and "room (bytes_per_sector st) (taken (cluster_size st) ss)"
  shows "\<exists>h'. FindEntry st c name h d = Some (dir_lookup st (disk d) cs name, h', d) \<and> heap_ok h' ss"
  unfolding FindEntry_def
  by (rule with_buffer_ok [OF assms(4,5)], rule find_entry_loop_ok [OF assms(1,2,6,3)])

lemma path_loop_ok:
  assumes "resolves st (disk d) c p info" and "fat_ok st dev" and "ready d"
    and "room (cluster_size st) ss" and "room (bytes_per_sector st) (taken (cluster_size st) ss)"
  shows "heap_ok h ss \<Longrightarrow> \<exists>h'. path_loop st c p out h d = Some ((True, Some info), h', d) \<and> heap_ok h' ss"
  using assms(1)
proof (induction arbitrary: out h)
  case (resolves_last p c cs info)
  from FindEntry_ok [OF assms(2,3) resolves_last(2,5) assms(4,5), of "fst (next_component p)"] resolves_last(3)
  obtain h1 where h1: "FindEntry st c (fst (next_component p)) h d = Some (Some info, h1, d)" "heap_ok h1 ss" by auto
  have "path_loop st (fi_cluster info) [] (Some info) h1 d = Some ((True, Some info), h1, d)" by (simp add: path_loop.simps)
  then have "path_loop st c p out h d = Some ((True, Some info), h1, d)"
    using resolves_last(1,4) h1(1) by (simp add: path_loop.simps [of st c p])
  with h1(2) show ?case by blast
next
  case (resolves_dir p c cs i info)
  from FindEntry_ok [OF assms(2,3) resolves_dir(2,8) assms(4,5), of "fst (next_component p)"] resolves_dir(3)
  obtain h1 where h1: "FindEntry st c (fst (next_component p)) h d = Some (Some i, h1, d)" "heap_ok h1 ss" by auto
  from resolves_dir(7) [OF h1(2)] obtain h' where
    h': "path_loop st (fi_cluster i) (snd (next_component p)) (Some i) h1 d = Some ((True, Some info), h', d)" "heap_ok h' ss" by blast
  then have "path_loop st c p out h d = Some ((True, Some info), h', d)"
    using resolves_dir(1,5) h1(1) by (simp add: path_loop.simps [of st c p])
  with h'(2) show ?case by blast
qed

lemma ParsePath_ok:
  assumes "resolves st (disk d) (root_cluster st) (drop_slash path) info" and "fat_ok st dev" and "ready d"
    and "room (cluster_size st) ss" and "room (bytes_per_sector st) (taken (cluster_size st) ss)" and "heap_ok h ss"
  shows "\<exists>h'. ParsePath st path h d = Some (Some info, h', d) \<and> heap_ok h' ss"
proof -
  have "drop_slash path \<noteq> []" using assms(1) by (cases rule: resolves.cases) auto
  then have ne: "\<not> (path = [] \<or> path = ''/'')" by (auto simp: drop_slash_def)
  from path_loop_ok [OF assms(1-5), of h None] assms(6) obtain h' where
    h': "path_loop st (root_cluster st) (drop_slash path) None h d = Some ((True, Some info), h', d)" "heap_ok h' ss" by blast
  have "ParsePath st path h d = Some (Some info, h', d)"
    unfolding ParsePath_def if_not_P [OF ne] h'(1) by simp
  with h'(2) show ?thesis by blast
qed

section \<open>Reading a file\<close>

lemma fs_read_loop_ok:
  assumes "fat_ok st dev" and "ready d" and "room (bytes_per_sector st) ss" and "0 < cluster_size st"
  shows "fat_chain st (disk d) c cs \<Longrightarrow> heap_ok h ss \<Longrightarrow> pos + length cs * cluster_size st < u64_limit \<Longrightarrow>
    \<exists>h'. fs_read_loop st sz off c pos out h d =
      Some ((i32_of (length (out @ take (sz - length out) (drop (off - pos) (chain_data st (disk d) cs)))),
             out @ take (sz - length out) (drop (off - pos) (chain_data st (disk d) cs))), h', d) \<and> heap_ok h' ss"
proof (induction cs arbitrary: c h pos out)
  case Nil
  then have "fs_read_loop st sz off c pos out h d = Some ((i32_of (length out), out), h, d)" by (subst fs_read_loop.simps) auto
  with Nil.prems(2) show ?case by (simp add: chain_data_def)
next
  case (Cons x cs)
  then have x: "x = c" and c: "is_cluster st c" and rest: "fat_chain st (disk d) (fat_entry st (disk d) c) cs" by auto
  have rng: "2 \<le> c" "c < FAT32_CLUSTER_EOF" using fat_ok_bounds(1) [OF assms(1) c] c by (simp_all add: is_cluster_def)
  let ?X = "cluster_data st (disk d) c" and ?F = "chain_data st (disk d) cs" and ?n = "cluster_size st"
  have data: "chain_data st (disk d) (x # cs) = ?X @ ?F" and len: "length ?X = ?n"
    using x length_cluster_data [OF assms(1) c assms(2)] by (simp_all add: chain_data_def)
  have lim: "pos + ?n + length cs * ?n < u64_limit" using Cons.prems(3) by (simp add: add.assoc)
  then have pos: "add64 pos ?n = pos + ?n" and n: "?n < u64_limit" by (simp_all add: add64_eq)
  obtain h1 where h1: "GetNextCluster st c h d = Some (fat_entry st (disk d) c, h1, d)" "heap_ok h1 ss"
    using GetNextCluster_ok [OF assms(1) c assms(2) Cons.prems(2) assms(3)] by blast
  note IH = Cons.IH [OF rest h1(2) lim]
  show ?case
  proof (cases "length out < sz")
    case False
    then have "fs_read_loop st sz off c pos out h d = Some ((i32_of (length out), out), h, d)" by (subst fs_read_loop.simps) simp
    with False Cons.prems(2) show ?thesis by simp
  next
    case more: True
    show ?thesis
    proof (cases "pos + ?n \<le> off")
      case True
      have "drop (off - pos) (?X @ ?F) = drop (off - (pos + ?n)) ?F" using True len by simp
      moreover have "fs_read_loop st sz off c pos out h d = fs_read_loop st sz off (fat_entry st (disk d) c) (pos + ?n) out h1 d"
        using rng more True h1(1) by (subst fs_read_loop.simps) (simp add: pos)
      ultimately show ?thesis using IH [of out] data by simp
    next
      case False
      let ?co = "off - pos" and ?k = "min (?n - (off - pos)) (sz - length out)"
      let ?out = "out @ take ?k (drop ?co ?X)"
      have co: "(if pos < off then off - pos else 0) = ?co" "sub64 ?n ?co = ?n - ?co"
        using False n by (simp_all add: sub64_eq)
      have step: "fs_read_loop st sz off c pos out h d = fs_read_loop st sz off (fat_entry st (disk d) c) (pos + ?n) ?out h1 d"
        using rng more False h1(1) ReadCluster_ok [OF assms(1) c assms(2)]
        by (subst fs_read_loop.simps) (simp add: pos co Let_def min_def not_le)
      have z: "off - (pos + ?n) = 0" using False by simp
      have k: "length ?out = length out + ?k" using len by simp
      have "drop ?co (?X @ ?F) = drop ?co ?X @ ?F" using False len by simp
      then have "take (sz - length out) (drop ?co (?X @ ?F)) = take ?k (drop ?co ?X) @ take (sz - length ?out) ?F"
      proof -
        have "sz - length ?out = sz - length out - (?n - ?co)" unfolding k by simp
        moreover have "take (sz - length out) (drop ?co ?X) = take ?k (drop ?co ?X)"
          using len by (simp add: min_def)
        ultimately show ?thesis using \<open>drop ?co (?X @ ?F) = drop ?co ?X @ ?F\<close> len by (simp only: take_append length_drop)
      qed
      then have fin: "?out @ take (sz - length ?out) (drop (off - (pos + ?n)) ?F) = out @ take (sz - length out) (drop ?co (?X @ ?F))"
        unfolding z by simp
      show ?thesis unfolding step data using IH [of ?out] unfolding fin .
    qed
  qed
qed

lemma fs_read_ok:
  assumes "fat_ok st dev" and "ready d" and "heap_ok h ss"
    and "room (cluster_size st) ss" and "room (bytes_per_sector st) (taken (cluster_size st) ss)"
    and "resolves st (disk d) (root_cluster st) (drop_slash path) info" and "\<not> fi_is_directory info"
    and "fat_chain st (disk d) (fi_cluster info) cs" and "length cs * cluster_size st < u64_limit" and "off + sz < u64_limit"
    and "r = take sz (drop off (take (fi_size info) (chain_data st (disk d) cs)))"
  shows "\<exists>h'. fs_read (Some st) path sz off h d = Some ((i32_of (length r), r), h', d) \<and> heap_ok h' ss"
proof -
  obtain h1 where p: "ParsePath st path h d = Some (Some info, h1, d)" "heap_ok h1 ss"
    using ParsePath_ok [OF assms(6,1,2,4,5,3)] by blast
  have pos: "0 < cluster_size st" using assms(4) by (simp add: room_def)
  show ?thesis
  proof (cases "fi_size info \<le> off")
    case True
    then have "fs_read (Some st) path sz off h d = Some ((0, []), h1, d)" using p(1) assms(7) by (simp add: fs_read_def)
    with True p(2) assms(11) show ?thesis by (simp add: i32_of_small)
  next
    case False
    define n where "n = (if fi_size info < add64 off sz then fi_size info - off else sz)"
    have "n = min sz (fi_size info - off)" using assms(10) False unfolding n_def add64_eq [OF assms(10)] by (auto simp: min_def)
    then have r: "r = take n (drop off (chain_data st (disk d) cs))"
      using assms(11) by (simp add: drop_take min.commute)
    have loop: "\<exists>h'. fs_read_loop st n off (fi_cluster info) 0 [] h2 d = Some ((i32_of (length r), r), h', d) \<and>
        heap_ok h' (taken (cluster_size st) ss)" if "heap_ok h2 (taken (cluster_size st) ss)" for h2
      using fs_read_loop_ok [OF assms(1,2,5) pos assms(8) that, of 0 n off "[]"] assms(9) r by simp
    have "\<exists>h'. with_buffer h1 d (cluster_size st) (-1, []) (\<lambda>h2. fs_read_loop st n off (fi_cluster info) 0 [] h2 d) =
        Some ((i32_of (length r), r), h', d) \<and> heap_ok h' ss"
      by (rule with_buffer_ok [OF p(2) assms(4) loop])
    then show ?thesis using p(1) assms(7) False by (simp add: fs_read_def n_def Let_def)
  qed
qed

end

section \<open>Changing the table\<close>

lemma le32_put_le32:
  assumes "k + 3 < length b"
  shows "le32 (put_le32 b k v) k = v mod u32_limit"
proof -
  have "unat (word_of_nat x :: u8) = x mod 256" for x by (simp add: unat_of_nat)
  then have "le32 (put_le32 b k v) k = v mod 256 + 256 * (v div 256 mod 256) + 65536 * (v div 65536 mod 256) + 16777216 * (v div 16777216 mod 256)"
    using assms by (simp add: le32_def put_le32_def)
  also have "\<dots> = v mod u32_limit"
    using mod_mult2_eq [of v 256 256] mod_mult2_eq [of v 65536 256] mod_mult2_eq [of v 16777216 256] by (simp add: div_mult2_eq [symmetric])
  finally show ?thesis .
qed

lemma le32_put_le32_other:
  "j + 4 \<le> k \<or> k + 4 \<le> j \<Longrightarrow> le32 (put_le32 b k v) j = le32 b j"
  by (auto simp: le32_def put_le32_def)

lemma length_put_le32 [simp]: "length (put_le32 b k v) = length b"
  by (simp add: put_le32_def)

lemma le32_less: "le32 b k < u32_limit"
  using unsigned_less [of "b ! k", where ?'a = nat] unsigned_less [of "b ! (k + 1)", where ?'a = nat]
    unsigned_less [of "b ! (k + 2)", where ?'a = nat] unsigned_less [of "b ! (k + 3)", where ?'a = nat]
  by (simp add: le32_def)

text \<open>Two entries of the table are the same word or do not overlap.\<close>

lemma fat_words_apart:
  assumes "4 dvd (n::nat)" and "0 < n" and "c * 4 div n = c' * 4 div n" and "c \<noteq> c'"
  shows "c' * 4 mod n + 4 \<le> c * 4 mod n \<or> c * 4 mod n + 4 \<le> c' * 4 mod n"
proof -
  obtain k where n: "n = 4 * k" using assms(1) by blast
  have m: "x * 4 mod n = x mod k * 4" "x * 4 div n = x div k" for x
    using n assms(2) by (simp_all add: mult.commute [of x 4] mult_mod_right [symmetric])
  have "c mod k \<noteq> c' mod k" using assms(3,4) unfolding m by (metis mod_div_mult_eq)
  then show ?thesis unfolding m by linarith
qed

end
