(* ===== verification/FAT32_Alloc.thy ===== *)
theory FAT32_Alloc
  imports FAT32_Read
begin

text \<open>
  Changing the allocation table on a device that keeps the block device contract: \<^verbatim>\<open>SetFATEntry\<close> changes one
  entry and nothing else, \<^verbatim>\<open>AllocateCluster\<close> takes the first free cluster; and the properties of the driver
  on the RAM disk.
\<close>

lemma fat_copy_bounds:
  assumes "fat_ok st dev" and "j < num_fats st" and "s < sectors_per_fat st"
  shows "fat_start_lba st + j * sectors_per_fat st + s < data_start_lba st" and "j * sectors_per_fat st < u32_limit"
    and "data_start_lba st < u32_limit" and "partition_start st + data_start_lba st \<le> bd_total_sectors dev"
proof -
  have ok: "fat_start_lba st + num_fats st * sectors_per_fat st \<le> data_start_lba st" "data_start_lba st < u32_limit"
    "partition_start st + data_start_lba st \<le> bd_total_sectors dev" using assms(1) by (simp_all add: fat_ok_def)
  have "Suc j * sectors_per_fat st \<le> num_fats st * sectors_per_fat st" using assms(2) by (intro mult_le_mono1) simp
  then have j: "j * sectors_per_fat st + sectors_per_fat st \<le> num_fats st * sectors_per_fat st" by (simp add: add.commute)
  with ok assms(3) show "fat_start_lba st + j * sectors_per_fat st + s < data_start_lba st" "j * sectors_per_fat st < u32_limit"
    "data_start_lba st < u32_limit" "partition_start st + data_start_lba st \<le> bd_total_sectors dev" by linarith+
qed

definition copy_sector :: "'d FAT32State \<Rightarrow> nat \<Rightarrow> nat \<Rightarrow> nat" where
  "copy_sector st s j = partition_start st + (fat_start_lba st + j * sectors_per_fat st + s)"

context block_device
begin

lemma fat_write_ok:
  assumes "fat_ok st dev" and "ready d" and "partition_start st + lba + n \<le> bd_total_sectors dev"
    and "length buf = n * bytes_per_sector st"
  shows "\<exists>d'. fat_WriteSectors st lba n buf d = Some (True, d') \<and> ready d' \<and>
    (\<forall>l < bd_total_sectors dev. disk d' l = put_sectors (bytes_per_sector st) (partition_start st + lba) n buf (disk d) l)"
proof -
  have dev: "fa_device st = dev" "bytes_per_sector st = bd_sector_size dev" using assms(1) by (simp_all add: fat_ok_def)
  have "add64 (partition_start st) lba = partition_start st + lba"
    using assms(3) total_limit by (intro add64_eq) linarith
  with write_ok [OF assms(2,3), of buf] assms(4) dev show ?thesis by (auto simp: fat_WriteSectors_def wr_fun)
qed

lemma write_fats_ok:
  assumes "fat_ok st dev" and "s < sectors_per_fat st" and "length buf = bytes_per_sector st"
  shows "ready d \<Longrightarrow> i + k \<le> num_fats st \<Longrightarrow> \<exists>d'. write_fats st s buf k i d = Some d' \<and> ready d' \<and>
    (\<forall>l < bd_total_sectors dev. disk d' l = (if l \<in> copy_sector st s ` {i..<i + k} then buf else disk d l))"
proof (induction k arbitrary: i d)
  case 0
  then show ?case by simp
next
  case (Suc k)
  have i: "i < num_fats st" using Suc.prems(2) by simp
  note b = fat_copy_bounds [OF assms(1) i assms(2)]
  let ?l = "fat_start_lba st + i * sectors_per_fat st + s"
  have lba: "add32 (add32 (fat_start_lba st) (mul32 i (sectors_per_fat st))) s = ?l" using b by (simp add: add32_eq mul32_eq)
  have "partition_start st + ?l + 1 \<le> bd_total_sectors dev" using b(1,4) by linarith
  from fat_write_ok [OF assms(1) Suc.prems(1) this] assms(3) obtain d1 where
    d1: "fat_WriteSectors st ?l 1 buf d = Some (True, d1)" "ready d1"
    "\<forall>l < bd_total_sectors dev. disk d1 l = put_sectors (bytes_per_sector st) (partition_start st + ?l) 1 buf (disk d) l" by auto
  have "i + 1 + k \<le> num_fats st" using Suc.prems(2) by simp
  from Suc.IH [OF d1(2) this] obtain d' where d': "write_fats st s buf k (i + 1) d1 = Some d'" "ready d'"
    "\<forall>l < bd_total_sectors dev. disk d' l = (if l \<in> copy_sector st s ` {i + 1..<i + 1 + k} then buf else disk d1 l)" by blast
  have one: "put_sectors (bytes_per_sector st) (partition_start st + ?l) 1 buf (disk d) l =
      (if l = copy_sector st s i then buf else disk d l)" for l
    using assms(3) by (auto simp: put_sectors_def copy_sector_def)
  have set: "{i..<i + Suc k} = insert i {i + 1..<i + 1 + k}" by auto
  have "disk d' l = (if l \<in> copy_sector st s ` {i..<i + Suc k} then buf else disk d l)" if "l < bd_total_sectors dev" for l
  proof -
    have "disk d1 l = (if l = copy_sector st s i then buf else disk d l)" using d1(3) that by (simp only: one)
    moreover have "disk d' l = (if l \<in> copy_sector st s ` {i + 1..<i + 1 + k} then buf else disk d1 l)" using d'(3) that by blast
    ultimately show ?thesis unfolding set image_insert by (auto split: if_splits)
  qed
  moreover have "write_fats st s buf (Suc k) i d = Some d'"
    unfolding write_fats.simps(2) lba d1(1) using d'(1) by simp
  ultimately show ?case using d'(2) by blast
qed

lemma cluster_data_cong:
  assumes "fat_ok st dev" and "is_cluster st c"
    and "\<And>l. partition_start st + data_start_lba st \<le> l \<Longrightarrow> l < bd_total_sectors dev \<Longrightarrow> dk' l = dk l"
  shows "cluster_data st dk' c = cluster_data st dk c"
  unfolding cluster_data_def
  by (rule sectors_cong, rule assms(3)) (use cluster_lba(2) [OF assms(1,2)] in linarith)+

text \<open>The entry of a cluster after the sector of another entry was rewritten in all copies.\<close>

lemma SetFATEntry_ok:
  assumes "fat_ok st dev" and "is_cluster st c" and "ready d" and "heap_ok h ss" and "room (bytes_per_sector st) ss"
  obtains h' d' where "SetFATEntry st c v h d = Some (True, h', d')" "heap_ok h' ss" "ready d'"
    "\<And>c'. is_cluster st c' \<Longrightarrow> fat_entry st (disk d') c' = (if c' = c then v mod 2 ^ 28 else fat_entry st (disk d) c')"
    "\<And>c'. is_cluster st c' \<Longrightarrow> cluster_data st (disk d') c' = cluster_data st (disk d) c'"
proof -
  let ?n = "bytes_per_sector st"
  let ?s = "c * 4 div ?n" and ?k = "c * 4 mod ?n" and ?old = "disk d (fat_sector_of st c)"
  note b = fat_ok_bounds [OF assms(1,2)]
  have n: "0 < ?n" "4 dvd ?n" "?n = bd_sector_size dev" using assms(1) unfolding fat_ok_def by blast+
  let ?new = "put_le32 ?old ?k (le32 ?old ?k div 2 ^ 28 * 2 ^ 28 + v mod 2 ^ 28)"
  have len: "length ?old = ?n" using sector_length [OF assms(3) fat_sector_in_range(1) [OF assms(1,2)]] n(3) by simp
  have k: "?k + 3 < length ?old"
  proof -
    obtain m where "?n = 4 * m" using n(2) by blast
    then have "?k = c mod m * 4" "c mod m < m" using n(1) by (simp_all add: mult.commute [of c 4] mult_mod_right [symmetric])
    then show ?thesis using len \<open>?n = 4 * m\<close> by linarith
  qed
  have newlen: "length ?new = ?n" using len by simp
  from write_fats_ok [OF assms(1) b(3) newlen assms(3), of 0 "num_fats st"] obtain d' where
    d': "write_fats st ?s ?new (num_fats st) 0 d = Some d'" "ready d'"
    "\<forall>l < bd_total_sectors dev. disk d' l = (if l \<in> copy_sector st ?s ` {0..<num_fats st} then ?new else disk d l)" by auto
  let ?body = "\<lambda>h1. Option.bind (fat_ReadSectors st (add32 (fat_start_lba st) ?s) 1 d) (\<lambda>(r, d1).
      case r of None \<Rightarrow> Some (False, h1, d1)
      | Some buffer \<Rightarrow>
          let entry = le32 buffer ?k; buf1 = put_le32 buffer ?k (entry div 2 ^ 28 * 2 ^ 28 + v mod 2 ^ 28)
          in Option.bind (write_fats st ?s buf1 (num_fats st) 0 d1) (\<lambda>d2. Some (True, h1, d2)))"
  have body: "?body h1 = Some (True, h1, d')" for h1
    unfolding fat_read_sector [OF assms(1-3)] using d'(1) by (simp add: Let_def)
  have "\<exists>h'. with_buffer h d ?n False ?body = Some (True, h', d') \<and> heap_ok h' ss"
    by (rule with_buffer_ok [OF assms(4,5)], rule exI, rule conjI, rule body, assumption)
  moreover have "SetFATEntry st c v h d = with_buffer h d ?n False ?body"
    using b(2) n(1) by (simp add: SetFATEntry_def fat_position_def Let_def)
  ultimately obtain h' where h': "SetFATEntry st c v h d = Some (True, h', d')" "heap_ok h' ss" by auto
  have entry: "fat_entry st (disk d') c' = (if c' = c then v mod 2 ^ 28 else fat_entry st (disk d) c')" if c': "is_cluster st c'" for c'
  proof (cases "c' * 4 div ?n = ?s")
    case True
    then have sec: "fat_sector_of st c' = fat_sector_of st c" by (simp add: fat_sector_of_def)
    have "fat_sector_of st c = copy_sector st ?s 0" by (simp add: fat_sector_of_def copy_sector_def)
    moreover have "0 < num_fats st" using assms(1) by (simp add: fat_ok_def)
    ultimately have "disk d' (fat_sector_of st c) = ?new"
      using d'(3) fat_sector_in_range(1) [OF assms(1,2)] by (simp add: image_iff Bex_def) (metis)
    then have d: "fat_entry st (disk d') c' = le32 ?new (c' * 4 mod ?n) mod 2 ^ 28"
      unfolding fat_entry_def sec by simp
    show ?thesis
    proof (cases "c' = c")
      case True
      have "le32 ?new ?k = (le32 ?old ?k div 2 ^ 28 * 2 ^ 28 + v mod 2 ^ 28) mod u32_limit" by (rule le32_put_le32 [OF k])
      then have "le32 ?new ?k mod 2 ^ 28 = v mod 2 ^ 28" by (simp add: mod_mod_cancel)
      with d True show ?thesis by simp
    next
      case False
      have "le32 ?new (c' * 4 mod ?n) = le32 ?old (c' * 4 mod ?n)"
        by (rule le32_put_le32_other, rule fat_words_apart [OF n(2,1)]) (use True False in auto)
      with d False show ?thesis unfolding fat_entry_def sec by simp
    qed
  next
    case False
    then have ne: "c' \<noteq> c" by auto
    note b' = fat_ok_bounds [OF assms(1) c']
    have "fat_sector_of st c' \<notin> copy_sector st ?s ` {0..<num_fats st}"
    proof
      assume "fat_sector_of st c' \<in> copy_sector st ?s ` {0..<num_fats st}"
      then obtain j where "fat_sector_of st c' = copy_sector st ?s j" by blast
      then have j: "c' * 4 div ?n = j * sectors_per_fat st + ?s" by (simp add: fat_sector_of_def copy_sector_def)
      show False
      proof (cases j)
        case 0
        with j False show False by simp
      next
        case (Suc i)
        with j b'(3) show False by simp
      qed
    qed
    with d'(3) fat_sector_in_range(1) [OF assms(1) c'] have "disk d' (fat_sector_of st c') = disk d (fat_sector_of st c')" by simp
    with ne show ?thesis by (simp add: fat_entry_def)
  qed
  have data: "cluster_data st (disk d') c' = cluster_data st (disk d) c'" if c': "is_cluster st c'" for c'
  proof (rule cluster_data_cong [OF assms(1) c'])
    fix l
    assume l: "partition_start st + data_start_lba st \<le> l" "l < bd_total_sectors dev"
    have "l \<notin> copy_sector st ?s ` {0..<num_fats st}"
    proof
      assume "l \<in> copy_sector st ?s ` {0..<num_fats st}"
      then obtain j where "j < num_fats st" "l = copy_sector st ?s j" by auto
      with fat_copy_bounds(1) [OF assms(1) _ b(3), of j] l(1) show False by (simp add: copy_sector_def)
    qed
    with d'(3) l(2) show "disk d' l = disk d l" by simp
  qed
  show ?thesis by (rule that [OF h' d'(2) entry data])
qed

text \<open>Writing zeros to a cluster.\<close>

lemma WriteCluster_ok:
  assumes "fat_ok st dev" and "is_cluster st c" and "ready d" and "length buf = cluster_size st"
  obtains d' where "WriteCluster st c buf d = Some (True, d')" "ready d'"
    "\<And>c'. is_cluster st c' \<Longrightarrow> fat_entry st (disk d') c' = fat_entry st (disk d) c'"
    "\<And>c'. is_cluster st c' \<Longrightarrow> cluster_data st (disk d') c' = (if c' = c then buf else cluster_data st (disk d) c')"
proof -
  let ?n = "bytes_per_sector st" and ?k = "sectors_per_cluster st" and ?P = "partition_start st" and ?D = "data_start_lba st"
  let ?at = "\<lambda>c. ?P + (?D + (c - 2) * ?k)"
  note l = cluster_lba [OF assms(1,2)]
  have len: "length buf = ?k * ?n" using assms(1,4) by (simp add: fat_ok_def)
  from fat_write_ok [OF assms(1,3) l(2) len] obtain d' where d': "WriteCluster st c buf d = Some (True, d')" "ready d'"
    "\<forall>l < bd_total_sectors dev. disk d' l = put_sectors ?n (?at c) ?k buf (disk d) l"
    by (auto simp: WriteCluster_def l(1))
  have entry: "fat_entry st (disk d') c' = fat_entry st (disk d) c'" if c': "is_cluster st c'" for c'
  proof -
    have "fat_sector_of st c' < ?at c" using fat_ok_bounds(4) [OF assms(1) c'] by (simp add: fat_sector_of_def)
    with d'(3) fat_sector_in_range(1) [OF assms(1) c'] show ?thesis by (simp add: fat_entry_def put_sectors_def)
  qed
  have data: "cluster_data st (disk d') c' = (if c' = c then buf else cluster_data st (disk d) c')" if c': "is_cluster st c'" for c'
  proof -
    note l' = cluster_lba(2) [OF assms(1) c']
    have "sectors (disk d') (?at c') ?k = sectors (put_sectors ?n (?at c) ?k buf (disk d)) (?at c') ?k"
      using d'(3) l' by (intro sectors_cong) auto
    moreover have "sectors (put_sectors ?n (?at c) ?k buf (disk d)) (?at c') ?k = sectors (disk d) (?at c') ?k" if ne: "c' \<noteq> c"
    proof (rule sectors_cong)
      fix x
      assume x: "?at c' \<le> x" "x < ?at c' + ?k"
      have "(c' - 2) * ?k + ?k \<le> (c - 2) * ?k \<or> (c - 2) * ?k + ?k \<le> (c' - 2) * ?k"
      proof (cases "c' < c")
        case True
        then have "Suc (c' - 2) * ?k \<le> (c - 2) * ?k" using c' unfolding is_cluster_def by (intro mult_le_mono1) linarith
        then show ?thesis by (simp add: add.commute)
      next
        case False
        then have "Suc (c - 2) * ?k \<le> (c' - 2) * ?k" using ne assms(2) unfolding is_cluster_def by (intro mult_le_mono1) linarith
        then show ?thesis by (simp add: add.commute)
      qed
      with x have "\<not> (?at c \<le> x \<and> x < ?at c + ?k)" by linarith
      then show "put_sectors ?n (?at c) ?k buf (disk d) x = disk d x" by (simp only: put_sectors_def if_False)
    qed
    ultimately show ?thesis using sectors_put_sectors [OF len, of "?at c" "disk d"] by (simp add: cluster_data_def add.assoc)
  qed
  show ?thesis by (rule that [OF d'(1,2) entry data])
qed

text \<open>What taking the cluster \<open>r\<close> does to the volume.\<close>

lemma take_cluster:
  assumes "fat_ok st dev" and "is_cluster st c" and "ready d" and "heap_ok h ss"
    and "room (bytes_per_sector st) ss" and "room (cluster_size st) ss"
  obtains h' d' where "Option.bind (SetFATEntry st c FAT32_CLUSTER_EOF h d) (\<lambda>(ok, h2, d2).
       with_buffer h2 d2 (cluster_size st) c (\<lambda>h3.
         Option.bind (WriteCluster st c (replicate (cluster_size st) 0) d2) (\<lambda>(ok2, d3). Some (c, h3, d3)))) = Some (c, h', d')"
    "heap_ok h' ss" "ready d'"
    "\<And>c'. is_cluster st c' \<Longrightarrow> fat_entry st (disk d') c' = (if c' = c then FAT32_CLUSTER_EOF else fat_entry st (disk d) c')"
    "\<And>c'. is_cluster st c' \<Longrightarrow> cluster_data st (disk d') c' = (if c' = c then replicate (cluster_size st) 0 else cluster_data st (disk d) c')"
proof -
  let ?z = "replicate (cluster_size st) (0::u8)"
  obtain h2 d2 where s: "SetFATEntry st c FAT32_CLUSTER_EOF h d = Some (True, h2, d2)" "heap_ok h2 ss" "ready d2"
    "\<And>c'. is_cluster st c' \<Longrightarrow> fat_entry st (disk d2) c' = (if c' = c then FAT32_CLUSTER_EOF mod 2 ^ 28 else fat_entry st (disk d) c')"
    "\<And>c'. is_cluster st c' \<Longrightarrow> cluster_data st (disk d2) c' = cluster_data st (disk d) c'"
    by (rule SetFATEntry_ok [OF assms(1-5), where v = FAT32_CLUSTER_EOF], rule that)
  obtain d3 where w: "WriteCluster st c ?z d2 = Some (True, d3)" "ready d3"
    "\<And>c'. is_cluster st c' \<Longrightarrow> fat_entry st (disk d3) c' = fat_entry st (disk d2) c'"
    "\<And>c'. is_cluster st c' \<Longrightarrow> cluster_data st (disk d3) c' = (if c' = c then ?z else cluster_data st (disk d2) c')"
    by (rule WriteCluster_ok [OF assms(1,2) s(3), where buf = ?z], rule length_replicate, rule that)
  have "\<exists>h'. with_buffer h2 d2 (cluster_size st) c (\<lambda>h3. Option.bind (WriteCluster st c ?z d2) (\<lambda>(ok2, d3). Some (c, h3, d3))) =
      Some (c, h', d3) \<and> heap_ok h' ss"
    by (rule with_buffer_ok [OF s(2) assms(6)]) (simp add: w(1))
  then obtain h' where h': "with_buffer h2 d2 (cluster_size st) c (\<lambda>h3. Option.bind (WriteCluster st c ?z d2) (\<lambda>(ok2, d3). Some (c, h3, d3))) =
      Some (c, h', d3)" "heap_ok h' ss" by blast
  show ?thesis
  proof (rule that [OF _ h'(2) w(2)])
    show "Option.bind (SetFATEntry st c FAT32_CLUSTER_EOF h d) (\<lambda>(ok, h2, d2).
       with_buffer h2 d2 (cluster_size st) c (\<lambda>h3. Option.bind (WriteCluster st c ?z d2) (\<lambda>(ok2, d3). Some (c, h3, d3)))) = Some (c, h', d3)"
      using s(1) h'(1) by simp
  qed (simp_all add: w(3,4) s(4,5))
qed

lemma allocate_loop_ok:
  assumes "fat_ok st dev" and "ready d" and "room (bytes_per_sector st) ss" and "room (cluster_size st) ss"
  shows "heap_ok h ss \<Longrightarrow> 2 \<le> c \<Longrightarrow> c + k = total_clusters st + 2 \<Longrightarrow>
    \<exists>r h' d'. allocate_loop st k c h d = Some (r, h', d') \<and> ready d' \<and> heap_ok h' ss \<and>
      (if \<forall>x. c \<le> x \<and> is_cluster st x \<longrightarrow> fat_entry st (disk d) x \<noteq> FAT32_CLUSTER_FREE then r = 0 \<and> d' = d
       else c \<le> r \<and> is_cluster st r \<and> fat_entry st (disk d) r = FAT32_CLUSTER_FREE \<and>
         (\<forall>x. c \<le> x \<and> x < r \<longrightarrow> fat_entry st (disk d) x \<noteq> FAT32_CLUSTER_FREE) \<and>
         (\<forall>x. is_cluster st x \<longrightarrow>
            fat_entry st (disk d') x = (if x = r then FAT32_CLUSTER_EOF else fat_entry st (disk d) x) \<and>
            cluster_data st (disk d') x = (if x = r then replicate (cluster_size st) 0 else cluster_data st (disk d) x)))"
proof (induction k arbitrary: c h)
  case 0
  then have "\<not> is_cluster st x" if "c \<le> x" for x using that by (simp add: is_cluster_def)
  with 0 assms(2) show ?case by auto
next
  case (Suc k)
  have c: "is_cluster st c" using Suc.prems(2,3) by (simp add: is_cluster_def)
  obtain h1 where h1: "GetNextCluster st c h d = Some (fat_entry st (disk d) c, h1, d)" "heap_ok h1 ss"
    using GetNextCluster_ok [OF assms(1) c assms(2) Suc.prems(1) assms(3)] by blast
  show ?case
  proof (cases "fat_entry st (disk d) c = FAT32_CLUSTER_FREE")
    case True
    obtain h' d' where t: "Option.bind (SetFATEntry st c FAT32_CLUSTER_EOF h1 d) (\<lambda>(ok, h2, d2).
       with_buffer h2 d2 (cluster_size st) c (\<lambda>h3.
         Option.bind (WriteCluster st c (replicate (cluster_size st) 0) d2) (\<lambda>(ok2, d3). Some (c, h3, d3)))) = Some (c, h', d')"
      "heap_ok h' ss" "ready d'"
      "\<And>c'. is_cluster st c' \<Longrightarrow> fat_entry st (disk d') c' = (if c' = c then FAT32_CLUSTER_EOF else fat_entry st (disk d) c')"
      "\<And>c'. is_cluster st c' \<Longrightarrow> cluster_data st (disk d') c' = (if c' = c then replicate (cluster_size st) 0 else cluster_data st (disk d) c')"
      by (rule take_cluster [OF assms(1) c assms(2) h1(2) assms(3,4)], rule that)
    have "allocate_loop st (Suc k) c h d = Some (c, h', d')" using h1(1) t(1) True by simp
    moreover have "\<not> (\<forall>x. c \<le> x \<and> is_cluster st x \<longrightarrow> fat_entry st (disk d) x \<noteq> FAT32_CLUSTER_FREE)" using c True by blast
    ultimately show ?thesis using t(2-5) c True by auto
  next
    case False
    have "c + 1 + k = total_clusters st + 2" "2 \<le> c + 1" using Suc.prems(2,3) by simp_all
    from Suc.IH [OF h1(2) this(2,1)] obtain r h' d' where r: "allocate_loop st k (c + 1) h1 d = Some (r, h', d')" "ready d'" "heap_ok h' ss"
      "if \<forall>x. c + 1 \<le> x \<and> is_cluster st x \<longrightarrow> fat_entry st (disk d) x \<noteq> FAT32_CLUSTER_FREE then r = 0 \<and> d' = d
       else c + 1 \<le> r \<and> is_cluster st r \<and> fat_entry st (disk d) r = FAT32_CLUSTER_FREE \<and>
         (\<forall>x. c + 1 \<le> x \<and> x < r \<longrightarrow> fat_entry st (disk d) x \<noteq> FAT32_CLUSTER_FREE) \<and>
         (\<forall>x. is_cluster st x \<longrightarrow>
            fat_entry st (disk d') x = (if x = r then FAT32_CLUSTER_EOF else fat_entry st (disk d) x) \<and>
            cluster_data st (disk d') x = (if x = r then replicate (cluster_size st) 0 else cluster_data st (disk d) x))"
      by blast
    have step: "allocate_loop st (Suc k) c h d = Some (r, h', d')" using h1(1) False r(1) by simp
    have all: "fat_entry st (disk d) x \<noteq> FAT32_CLUSTER_FREE"
      if "\<forall>x. c + 1 \<le> x \<and> Q x \<longrightarrow> fat_entry st (disk d) x \<noteq> FAT32_CLUSTER_FREE" "c \<le> x" "Q x" for Q x
      using that False by (cases "x = c") auto
    show ?thesis
    proof (cases "\<forall>x. c + 1 \<le> x \<and> is_cluster st x \<longrightarrow> fat_entry st (disk d) x \<noteq> FAT32_CLUSTER_FREE")
      case True
      then have none: "\<forall>x. c \<le> x \<and> is_cluster st x \<longrightarrow> fat_entry st (disk d) x \<noteq> FAT32_CLUSTER_FREE"
        using all [OF True] by blast
      have "r = 0 \<and> d' = d" using r(4) unfolding if_P [OF True] .
      then show ?thesis unfolding if_P [OF none] using step r(2,3) by blast
    next
      case some: False
      then have some': "\<not> (\<forall>x. c \<le> x \<and> is_cluster st x \<longrightarrow> fat_entry st (disk d) x \<noteq> FAT32_CLUSTER_FREE)"
        by (meson add_leD1)
      note r4 = r(4) [unfolded if_not_P [OF some]]
      have low: "\<forall>x. c \<le> x \<and> x < r \<longrightarrow> fat_entry st (disk d) x \<noteq> FAT32_CLUSTER_FREE"
        using r4 all [of "\<lambda>x. x < r"] by blast
      have "c \<le> r" using r4 by simp
      then show ?thesis unfolding if_not_P [OF some'] using low r4 step r(2,3) by blast
    qed
  qed
qed

end

section \<open>Chains that do not end\<close>

lemma find_entry_loop_diverges:
  assumes "fat_ok st ramdisk_device" and "rd_ready d" and "room (bytes_per_sector st) ss"
    and "\<And>c. c \<in> S \<Longrightarrow> is_cluster st c \<and> fat_entry st (rd_disk d) c \<in> S \<and>
           scan_entries name (dir_entries st (cluster_data st (rd_disk d) c)) = ScanNext"
  shows "find_entry_loop st c name h d' = Some r \<Longrightarrow> c \<in> S \<Longrightarrow> heap_ok h ss \<Longrightarrow> d' = d \<Longrightarrow> False"
proof -
  let ?P = "\<lambda>st' c nm h d' r. st' = st \<longrightarrow> nm = name \<longrightarrow> c \<in> S \<longrightarrow> heap_ok h ss \<longrightarrow> d' \<noteq> d"
  assume "find_entry_loop st c name h d' = Some r"
  then have "?P st c name h d' r"
  proof (rule find_entry_loop.raw_induct [where P = ?P, rotated])
    fix f st' c nm h d' r
    assume IH: "\<And>st' c nm h d' r. f st' c nm h d' = Some r \<Longrightarrow> ?P st' c nm h d' r"
      and eq: "(if 2 \<le> c \<and> c < FAT32_CLUSTER_EOF
           then Option.bind (ReadCluster st' c d') (\<lambda>(r, d1).
                  case r of None \<Rightarrow> Some (None, h, d1)
                  | Some buffer \<Rightarrow>
                      (case scan_entries nm (dir_entries st' buffer) of ScanEnd \<Rightarrow> Some (None, h, d1)
                       | ScanFound info \<Rightarrow> Some (Some info, h, d1)
                       | ScanNext \<Rightarrow> Option.bind (GetNextCluster st' c h d1) (\<lambda>(next, h2, d2). f st' next nm h2 d2)))
           else Some (None, h, d')) = Some r"
    show "?P st' c nm h d' r"
    proof (intro impI notI)
      assume e: "st' = st" "nm = name" "c \<in> S" "heap_ok h ss" "d' = d"
      have c: "is_cluster st c" "fat_entry st (rd_disk d) c \<in> S"
        "scan_entries name (dir_entries st (cluster_data st (rd_disk d) c)) = ScanNext" using assms(4) [OF e(3)] by auto
      have rng: "2 \<le> c \<and> c < FAT32_CLUSTER_EOF" using fat_ok_bounds(1) [OF assms(1) c(1)] c(1) by (simp add: is_cluster_def)
      obtain h1 where h1: "GetNextCluster st c h d = Some (fat_entry st (rd_disk d) c, h1, d)" "heap_ok h1 ss"
        using rd0.GetNextCluster_ok [OF assms(1) c(1) assms(2) e(4) assms(3)] by blast
      have "f st (fat_entry st (rd_disk d) c) name h1 d = Some r"
        using eq rng c(3) h1(1) rd0.ReadCluster_ok [OF assms(1) c(1) assms(2)] by (simp add: e)
      from IH [OF this] c(2) h1(2) show False by blast
    qed
  qed
  moreover assume "c \<in> S" "heap_ok h ss" "d' = d"
  ultimately show False by blast
qed

section \<open>Properties\<close>

text \<open>C18. On a RAM disk volume, \<^verbatim>\<open>fs_read\<close> of a path that resolves to a file with the cluster chain \<open>cs\<close> returns
  exactly the requested slice of the file: the bytes of the chain from the offset on, cut at the file's size
  and at the requested number, with its length as a 32-bit \<^verbatim>\<open>int\<close>; the disk is not changed and the heap is given back as it was.\<close>

theorem fs_read_returns_file:
  assumes "fat_ok st ramdisk_device" and "rd_ready d" and "heap_ok h ss"
    and "room (cluster_size st) ss" and "room (bytes_per_sector st) (taken (cluster_size st) ss)"
    and "resolves st (rd_disk d) (root_cluster st) (drop_slash path) info" and "\<not> fi_is_directory info"
    and "fat_chain st (rd_disk d) (fi_cluster info) cs" and "length cs * cluster_size st < u64_limit" and "off + sz < u64_limit"
    and "r = take sz (drop off (take (fi_size info) (chain_data st (rd_disk d) cs)))"
  shows "\<exists>h'. fs_read (Some st) path sz off h d = Some ((i32_of (length r), r), h', d) \<and> heap_ok h' ss"
  by (rule rd0.fs_read_ok [OF assms])

text \<open>C19. \<^verbatim>\<open>AllocateCluster\<close> on a RAM disk volume returns the first free cluster, marks it as the end of a chain in the
  table and clears it; every other entry and cluster keeps its value.  It returns 0, and changes nothing,
  exactly when no cluster is free.\<close>

theorem AllocateCluster_first_free:
  assumes "fat_ok st ramdisk_device" and "rd_ready d" and "heap_ok h ss"
    and "room (bytes_per_sector st) ss" and "room (cluster_size st) ss"
  shows "\<exists>r h' d'. AllocateCluster st h d = Some (r, h', d') \<and> rd_ready d' \<and> heap_ok h' ss \<and>
    (if \<forall>x. is_cluster st x \<longrightarrow> fat_entry st (rd_disk d) x \<noteq> FAT32_CLUSTER_FREE then r = 0 \<and> d' = d
     else is_cluster st r \<and> fat_entry st (rd_disk d) r = FAT32_CLUSTER_FREE \<and>
       (\<forall>x. is_cluster st x \<and> x < r \<longrightarrow> fat_entry st (rd_disk d) x \<noteq> FAT32_CLUSTER_FREE) \<and>
       (\<forall>x. is_cluster st x \<longrightarrow>
          fat_entry st (rd_disk d') x = (if x = r then FAT32_CLUSTER_EOF else fat_entry st (rd_disk d) x) \<and>
          cluster_data st (rd_disk d') x = (if x = r then replicate (cluster_size st) 0 else cluster_data st (rd_disk d) x)))"
proof -
  have "add32 (total_clusters st) 2 = total_clusters st + 2" using assms(1) by (simp add: fat_ok_def add32_eq)
  then have a: "AllocateCluster st h d = allocate_loop st (total_clusters st) 2 h d" by (simp add: AllocateCluster_def)
  have two: "2 \<le> x \<and> is_cluster st x \<longleftrightarrow> is_cluster st x" for x by (auto simp: is_cluster_def)
  have low: "(\<forall>x. 2 \<le> x \<and> x < r \<longrightarrow> P x) \<Longrightarrow> (\<forall>x. is_cluster st x \<and> x < r \<longrightarrow> P x)" for r P by (simp add: is_cluster_def)
  have sum: "2 + total_clusters st = total_clusters st + 2" by simp
  from rd0.allocate_loop_ok [OF assms(1,2,4,5,3) order_refl sum, unfolded two] obtain r h' d' where
    r: "AllocateCluster st h d = Some (r, h', d')" "rd_ready d'" "heap_ok h' ss"
    "if \<forall>x. is_cluster st x \<longrightarrow> fat_entry st (rd_disk d) x \<noteq> FAT32_CLUSTER_FREE then r = 0 \<and> d' = d
     else 2 \<le> r \<and> is_cluster st r \<and> fat_entry st (rd_disk d) r = FAT32_CLUSTER_FREE \<and>
       (\<forall>x. 2 \<le> x \<and> x < r \<longrightarrow> fat_entry st (rd_disk d) x \<noteq> FAT32_CLUSTER_FREE) \<and>
       (\<forall>x. is_cluster st x \<longrightarrow>
          fat_entry st (rd_disk d') x = (if x = r then FAT32_CLUSTER_EOF else fat_entry st (rd_disk d) x) \<and>
          cluster_data st (rd_disk d') x = (if x = r then replicate (cluster_size st) 0 else cluster_data st (rd_disk d) x))"
    unfolding a by blast
  show ?thesis
  proof (cases "\<forall>x. is_cluster st x \<longrightarrow> fat_entry st (rd_disk d) x \<noteq> FAT32_CLUSTER_FREE")
    case True
    show ?thesis unfolding if_P [OF True] using r(1-3) r(4) [unfolded if_P [OF True]] by blast
  next
    case False
    show ?thesis unfolding if_not_P [OF False] using r(1-3) r(4) [unfolded if_not_P [OF False]] low by blast
  qed
qed

text \<open>A directory whose cluster chain runs in a circle (a set of clusters closed under the table, none of
  which holds the name or the end marker) makes \<^verbatim>\<open>FindEntry\<close> loop forever: it has no result.\<close>

theorem FindEntry_cycle_hangs:
  assumes "fat_ok st ramdisk_device" and "rd_ready d" and "heap_ok h ss"
    and "room (cluster_size st) ss" and "room (bytes_per_sector st) (taken (cluster_size st) ss)" and "c \<in> S"
    and "\<And>c. c \<in> S \<Longrightarrow> is_cluster st c \<and> fat_entry st (rd_disk d) c \<in> S \<and>
           scan_entries name (dir_entries st (cluster_data st (rd_disk d) c)) = ScanNext"
  shows "FindEntry st c name h d = None"
proof -
  obtain p h1 where p: "kmalloc h (cluster_size st) = Some (p, h1)" "p \<noteq> 0" "heap_ok h1 (taken (cluster_size st) ss)"
  proof -
    have n: "cluster_size st \<le> kheap_max" "cluster_size st \<noteq> 0" "fst (alloc_segs (align16 (cluster_size st)) ss) \<noteq> 0"
      using assms(4) by (simp_all add: room_def)
    show thesis by (rule kheap_Allocate_cases [OF assms(3) n(1)]) (use n that in \<open>auto simp: kmalloc_def taken_def\<close>)
  qed
  have "find_entry_loop st c name h1 d = None"
    using find_entry_loop_diverges [OF assms(1,2,5,7) _ assms(6) p(3) refl] by (cases "find_entry_loop st c name h1 d") auto
  then show ?thesis using p(1,2) by (simp add: FindEntry_def with_buffer_def)
qed

section \<open>A small volume\<close>

text \<open>512-byte clusters, one table in sector 1; the root directory in cluster 2 holds the file \<^verbatim>\<open>a\<close> of two bytes in
  cluster 3.\<close>

definition demo_volume :: ramdisk where
  "demo_volume = \<lparr>diskData = 4096, rd_mem = (\<lambda>_. 0)
     (4616 := 0xF8, 4617 := 0xFF, 4618 := 0xFF, 4619 := 0x0F, 4620 := 0xF8, 4621 := 0xFF, 4622 := 0xFF, 4623 := 0x0F,
      5120 := 65, 5121 := 32, 5122 := 32, 5123 := 32, 5124 := 32, 5125 := 32, 5126 := 32, 5127 := 32,
      5128 := 32, 5129 := 32, 5130 := 32, 5131 := 0x20, 5146 := 3, 5148 := 2, 5632 := 72, 5633 := 105)\<rparr>"

definition demo_fat :: "ramdisk FAT32State" where
  "demo_fat = \<lparr>fa_device = ramdisk_device, partition_start = 0, bytes_per_sector = 512, sectors_per_cluster = 1,
     reserved_sectors = 1, num_fats = 1, sectors_per_fat = 1, root_cluster = 2, total_clusters = 4, fat_start_lba = 1,
     data_start_lba = 2, cluster_size = 512, fat_cache = 0, fat_cache_size = 0\<rparr>"

definition demo_file :: FAT32FileInfo where
  "demo_file = \<lparr>fi_name = ''a'', fi_cluster = 3, fi_size = 2, fi_attr = 0x20, fi_is_directory = False\<rparr>"

lemma demo_fat_ok: "fat_ok demo_fat ramdisk_device" "rd_ready demo_volume"
  by (simp_all add: fat_ok_def demo_fat_def ramdisk_device_def rd_ready_def demo_volume_def)

lemma demo_heap_segments: "heap_ok demo_heap [mk_seg 4096 262112 True]"
  using kheap_Init_ok [of 4096 262144] by (simp add: demo_heap_def dvd_def)

lemma demo_room:
  "room 512 [mk_seg 4096 262112 True]" "room 512 (taken 512 [mk_seg 4096 262112 True])"
  by (simp_all add: room_def taken_def align16_def add64_def)

lemma nth_rd_disk: "k < SECTOR_SIZE \<Longrightarrow> rd_disk s l ! k = rd_mem s (diskData s + l * SECTOR_SIZE + k)"
  by (simp add: rd_disk_def del: upt_rec_numeral)

lemma take_rd_disk: "n \<le> SECTOR_SIZE \<Longrightarrow> take n (rd_disk s l) = map (\<lambda>k. rd_mem s (diskData s + l * SECTOR_SIZE + k)) [0..<n]"
  by (simp add: rd_disk_def take_map del: upt_rec_numeral)

lemma demo_entries:
  "fat_entry demo_fat (rd_disk demo_volume) 2 = FAT32_CLUSTER_EOF" "fat_entry demo_fat (rd_disk demo_volume) 3 = FAT32_CLUSTER_EOF"
  "fat_entry demo_fat (rd_disk demo_volume) 4 = FAT32_CLUSTER_FREE"
  by (simp_all add: fat_entry_def fat_sector_of_def demo_fat_def le32_def nth_rd_disk) (simp_all add: demo_volume_def)

lemma demo_chains: "fat_chain demo_fat (rd_disk demo_volume) 2 [2]" "fat_chain demo_fat (rd_disk demo_volume) 3 [3]"
  using demo_entries by (simp_all add: is_cluster_def demo_fat_def)

lemma demo_cluster: "2 \<le> c \<Longrightarrow> cluster_data demo_fat dk c = dk c"
  by (auto simp: cluster_data_def demo_fat_def sectors_Suc dest!: le_Suc_ex)

lemma demo_first_entry:
  "take 32 (rd_disk demo_volume 2) =
     [65, 32, 32, 32, 32, 32, 32, 32, 32, 32, 32, 32, 0, 0, 0, 0, 0, 0, 0, 0, 0, 0, 0, 0, 0, 0, 3, 0, 2, 0, 0, 0]"
  by (simp add: take_rd_disk upt_conv_Cons) (simp add: demo_volume_def)

lemma demo_lookup: "dir_lookup demo_fat (rd_disk demo_volume) [2] ''a'' = Some demo_file"
proof -
  have "dir_entries demo_fat (rd_disk demo_volume 2) =
      take 32 (rd_disk demo_volume 2) # map (\<lambda>i. take 32 (drop (i * 32) (rd_disk demo_volume 2))) [1..<16]"
    by (simp add: dir_entries_def demo_fat_def upt_conv_Cons [of 0] del: upt_rec_numeral)
  then show ?thesis
    by (simp add: dir_lookup_def demo_cluster demo_first_entry skip_entry_def Parse83Name_def trim_spaces_def byte_char_def
        char_of_def bit_iff_odd lower_char_def entry_info_def demo_file_def le16_def le32_def)
qed

theorem fs_read_returns_file_witness:
  "\<exists>h'. fs_read (Some demo_fat) ''/a'' 100 0 demo_heap demo_volume = Some ((2, [72, 105]), h', demo_volume)"
proof -
  let ?dk = "rd_disk demo_volume"
  have room: "room (cluster_size demo_fat) [mk_seg 4096 262112 True]"
    "room (bytes_per_sector demo_fat) (taken (cluster_size demo_fat) [mk_seg 4096 262112 True])"
    using demo_room by (simp_all add: demo_fat_def)
  have "resolves demo_fat ?dk 2 ''a'' demo_file"
    by (rule resolves_last [OF _ demo_chains(1)]) (simp_all add: next_component_def drop_slash_def demo_lookup)
  then have res: "resolves demo_fat ?dk (root_cluster demo_fat) (drop_slash ''/a'') demo_file"
    by (simp add: demo_fat_def drop_slash_def)
  have "take 2 (?dk 3) = [72, 105]" by (simp add: take_rd_disk upt_conv_Cons) (simp add: demo_volume_def)
  then have r: "[72, 105] = take 100 (drop 0 (take (fi_size demo_file) (chain_data demo_fat ?dk [3])))"
    by (simp add: chain_data_def demo_cluster demo_file_def)
  have chain: "fat_chain demo_fat ?dk (fi_cluster demo_file) [3]" using demo_chains(2) by (simp add: demo_file_def)
  from fs_read_returns_file [OF demo_fat_ok demo_heap_segments room res _ chain _ _ r] show ?thesis
    by (auto simp: demo_file_def demo_fat_def i32_of_small)
qed

theorem AllocateCluster_first_free_witness:
  "\<exists>r h' d'. AllocateCluster demo_fat demo_heap demo_volume = Some (r, h', d') \<and> is_cluster demo_fat r"
proof -
  have room: "room (bytes_per_sector demo_fat) [mk_seg 4096 262112 True]" "room (cluster_size demo_fat) [mk_seg 4096 262112 True]"
    using demo_room by (simp_all add: demo_fat_def)
  have "is_cluster demo_fat 4" by (simp add: is_cluster_def demo_fat_def)
  then have "\<not> (\<forall>x. is_cluster demo_fat x \<longrightarrow> fat_entry demo_fat (rd_disk demo_volume) x \<noteq> FAT32_CLUSTER_FREE)"
    using demo_entries(3) by blast
  from AllocateCluster_first_free [OF demo_fat_ok demo_heap_segments room, unfolded if_not_P [OF this]] show ?thesis by blast
qed

text \<open>A volume whose cluster 2 is its own successor and holds only deleted entries.\<close>

definition demo_loop :: ramdisk where
  "demo_loop = \<lparr>diskData = 4096, rd_mem = (\<lambda>a. if a = 4616 then 2 else if 5120 \<le> a then 0xE5 else 0)\<rparr>"

theorem FindEntry_cycle_hangs_witness: "FindEntry demo_fat 2 ''a'' demo_heap demo_loop = None"
proof -
  have room: "room (cluster_size demo_fat) [mk_seg 4096 262112 True]"
    "room (bytes_per_sector demo_fat) (taken (cluster_size demo_fat) [mk_seg 4096 262112 True])"
    using demo_room by (simp_all add: demo_fat_def)
  have ready: "rd_ready demo_loop" by (simp add: rd_ready_def demo_loop_def)
  have "fat_entry demo_fat (rd_disk demo_loop) 2 = 2"
    by (simp add: fat_entry_def fat_sector_of_def demo_fat_def le32_def nth_rd_disk) (simp add: demo_loop_def)
  moreover have "rd_disk demo_loop 2 = replicate 512 0xE5"
    by (rule nth_equalityI) (simp_all add: rd_disk_def demo_loop_def del: upt_rec_numeral)
  moreover have "scan_entries n (map (\<lambda>i. take 32 (drop (i * 32) (replicate 512 0xE5))) xs) = ScanNext" if "set xs \<subseteq> {0..<16}" for n xs
    using that by (induction xs) (auto simp: skip_entry_def)
  then have "scan_entries ''a'' (dir_entries demo_fat (replicate 512 0xE5)) = ScanNext"
    by (simp add: dir_entries_def demo_fat_def)
  ultimately have S: "c \<in> {2} \<Longrightarrow> is_cluster demo_fat c \<and> fat_entry demo_fat (rd_disk demo_loop) c \<in> {2} \<and>
      scan_entries ''a'' (dir_entries demo_fat (cluster_data demo_fat (rd_disk demo_loop) c)) = ScanNext" for c
    by (auto simp: is_cluster_def demo_cluster) (simp_all add: demo_fat_def)
  show ?thesis by (rule FindEntry_cycle_hangs [OF demo_fat_ok(1) ready demo_heap_segments room _ S]) simp_all
qed

end
