(* ===== verification/Locks.thy ===== *)
theory Locks
  imports Prelude
begin

text \<open>
  The locks of \<^verbatim>\<open>kernel/arch/common/spinlock.h\<close>: the test-and-set spin lock, the ticket lock and the
  reader-writer lock.  Each function is one atomic access to the lock word per step: a thread carries
  the point of the function it has reached, and the system's step relation lets any thread take its
  next step, so that a run is an arbitrary interleaving.  Memory is sequentially consistent: every
  store of the source is one of the \<^verbatim>\<open>__sync\<close> builtins, which are barriers.  The busy-wait hints
  (\<^verbatim>\<open>pause\<close>, \<^verbatim>\<open>yield\<close>) have no effect on the state.  A guard object (\<^verbatim>\<open>LockGuard\<close>, \<^verbatim>\<open>ReadGuard\<close>,
  \<^verbatim>\<open>WriteGuard\<close>) is a thread that goes from its idle point through the acquiring function to its
  section and back through the releasing one.
\<close>

section \<open>The interface: at most one holder\<close>

locale lock_system =
  fixes init :: 's
    and stp :: "'s \<Rightarrow> 's \<Rightarrow> bool"
    and inv :: "'s \<Rightarrow> bool"
    and holds :: "'s \<Rightarrow> nat \<Rightarrow> bool"
  assumes init_inv: "inv init"
    and stp_inv: "inv s \<Longrightarrow> stp s s' \<Longrightarrow> inv s'"
    and one_holder: "inv s \<Longrightarrow> holds s t \<Longrightarrow> holds s u \<Longrightarrow> t = u"
begin

lemma reachable_inv: "stp\<^sup>*\<^sup>* init s \<Longrightarrow> inv s"
  by (induction rule: rtranclp_induct) (auto intro: init_inv stp_inv)

lemma mutual_exclusion:
  assumes "stp\<^sup>*\<^sup>* init s" and "holds s t" and "holds s u"
  shows "t = u"
  using one_holder reachable_inv assms by blast

end

section \<open>Spin lock\<close>

record Spinlock =
  locked :: u32

definition SPINLOCK_INIT :: Spinlock where
  "SPINLOCK_INIT = \<lparr>locked = 0\<rparr>"

text \<open>\<^verbatim>\<open>__sync_lock_test_and_set(&lock->locked, 1)\<close>: the old value, and 1 is stored.\<close>

definition test_and_set :: "Spinlock \<Rightarrow> u32 \<times> Spinlock" where
  "test_and_set l = (locked l, l\<lparr>locked := 1\<rparr>)"

text \<open>One turn of the loop of \<^verbatim>\<open>Lock\<close>: whether the lock was taken.\<close>

definition Lock :: "Spinlock \<Rightarrow> bool \<times> Spinlock" where
  "Lock l = (let (old, l1) = test_and_set l in (\<not> old \<noteq> 0, l1))"

definition Unlock :: "Spinlock \<Rightarrow> Spinlock" where
  "Unlock l = l\<lparr>locked := 0\<rparr>"

definition TryLock :: "Spinlock \<Rightarrow> bool \<times> Spinlock" where
  "TryLock l = (let (old, l1) = test_and_set l in (old = 0, l1))"

lemmas spin_defs = test_and_set_def Lock_def TryLock_def Unlock_def SPINLOCK_INIT_def

datatype spin_pc = S_idle | S_spin | S_held

record spin_sys =
  spin_lock :: Spinlock
  spin_at :: "nat \<Rightarrow> spin_pc"

definition spin_init :: spin_sys where
  "spin_init = \<lparr>spin_lock = SPINLOCK_INIT, spin_at = (\<lambda>_. S_idle)\<rparr>"

inductive spin_step :: "spin_sys \<Rightarrow> spin_sys \<Rightarrow> bool" where
  spin_call: "spin_at s t = S_idle \<Longrightarrow> spin_step s (s\<lparr>spin_at := (spin_at s)(t := S_spin)\<rparr>)"
| spin_turn: "spin_at s t = S_spin \<Longrightarrow> Lock (spin_lock s) = (ok, l) \<Longrightarrow>
    spin_step s (s\<lparr>spin_lock := l, spin_at := (spin_at s)(t := if ok then S_held else S_spin)\<rparr>)"
| spin_try: "spin_at s t = S_idle \<Longrightarrow> TryLock (spin_lock s) = (ok, l) \<Longrightarrow>
    spin_step s (s\<lparr>spin_lock := l, spin_at := (spin_at s)(t := if ok then S_held else S_idle)\<rparr>)"
| spin_release: "spin_at s t = S_held \<Longrightarrow>
    spin_step s (s\<lparr>spin_lock := Unlock (spin_lock s), spin_at := (spin_at s)(t := S_idle)\<rparr>)"

definition spin_inv :: "spin_sys \<Rightarrow> bool" where
  "spin_inv s \<longleftrightarrow> (\<forall>t u. spin_at s t = S_held \<longrightarrow> spin_at s u = S_held \<longrightarrow> t = u) \<and>
     (locked (spin_lock s) = 0 \<longleftrightarrow> (\<forall>t. spin_at s t \<noteq> S_held))"

lemma spin_acquire_inv:
  assumes inv: "spin_inv s" and t: "spin_at s t \<noteq> S_held" "p \<noteq> S_held"
  shows "spin_inv (s\<lparr>spin_lock := spin_lock s\<lparr>locked := 1\<rparr>,
                     spin_at := (spin_at s)(t := if locked (spin_lock s) = 0 then S_held else p)\<rparr>)"
proof (cases "locked (spin_lock s) = 0")
  case True
  with inv have "spin_at s u \<noteq> S_held" for u by (simp add: spin_inv_def)
  with True show ?thesis by (simp add: spin_inv_def)
next
  case False
  have "((spin_at s)(t := p)) u = S_held \<longleftrightarrow> spin_at s u = S_held" for u using t by simp
  with False inv show ?thesis by (simp add: spin_inv_def)
qed

lemma spin_step_inv: "spin_step s s' \<Longrightarrow> spin_inv s \<Longrightarrow> spin_inv s'"
proof (induction rule: spin_step.induct)
  case (spin_call s t)
  then have "((spin_at s)(t := S_spin)) u = S_held \<longleftrightarrow> spin_at s u = S_held" for u by simp
  with spin_call(2) show ?case by (simp add: spin_inv_def)
next
  case (spin_turn s t ok l)
  with spin_acquire_inv [of s t S_spin] show ?case by (auto simp: spin_defs)
next
  case (spin_try s t ok l)
  with spin_acquire_inv [of s t S_idle] show ?case by (auto simp: spin_defs)
next
  case (spin_release s t)
  then show ?case by (auto simp: spin_inv_def spin_defs)
qed

interpretation spin: lock_system spin_init spin_step spin_inv "\<lambda>s t. spin_at s t = S_held"
proof unfold_locales
  show "spin_inv spin_init" by (simp add: spin_inv_def spin_init_def spin_defs)
qed (use spin_step_inv in \<open>auto simp: spin_inv_def\<close>)

section \<open>Ticket lock\<close>

record TicketLock =
  next_ticket :: u32
  now_serving :: u32

definition TICKET_LOCK_INIT :: TicketLock where
  "TICKET_LOCK_INIT = \<lparr>next_ticket = 0, now_serving = 0\<rparr>"

text \<open>The points of \<^verbatim>\<open>LockTicket\<close>: before it, in its loop with the ticket drawn, past it.\<close>

datatype ticket_pc = T_idle | T_wait u32 | T_held

fun LockTicket :: "ticket_pc \<Rightarrow> TicketLock \<Rightarrow> ticket_pc \<times> TicketLock" where
  "LockTicket T_idle l = (T_wait (next_ticket l), l\<lparr>next_ticket := next_ticket l + 1\<rparr>)"
| "LockTicket (T_wait my_ticket) l = (if now_serving l \<noteq> my_ticket then T_wait my_ticket else T_held, l)"
| "LockTicket T_held l = (T_held, l)"

definition UnlockTicket :: "TicketLock \<Rightarrow> TicketLock" where
  "UnlockTicket l = l\<lparr>now_serving := now_serving l + 1\<rparr>"

record ticket_sys =
  tlock :: TicketLock
  ticket_at :: "nat \<Rightarrow> ticket_pc"

definition ticket_init :: ticket_sys where
  "ticket_init = \<lparr>tlock = TICKET_LOCK_INIT, ticket_at = (\<lambda>_. T_idle)\<rparr>"

inductive ticket_step :: "nat \<Rightarrow> ticket_sys \<Rightarrow> ticket_sys \<Rightarrow> bool" for N where
  ticket_lock: "t < N \<Longrightarrow> ticket_at s t \<noteq> T_held \<Longrightarrow> LockTicket (ticket_at s t) (tlock s) = (p, l) \<Longrightarrow>
    ticket_step N s (s\<lparr>tlock := l, ticket_at := (ticket_at s)(t := p)\<rparr>)"
| ticket_unlock: "t < N \<Longrightarrow> ticket_at s t = T_held \<Longrightarrow>
    ticket_step N s (s\<lparr>tlock := UnlockTicket (tlock s), ticket_at := (ticket_at s)(t := T_idle)\<rparr>)"

text \<open>The threads that have a ticket, and how many releases each is away from its turn.\<close>

definition ticket_busy :: "ticket_sys \<Rightarrow> nat set" where
  "ticket_busy s = {t. ticket_at s t \<noteq> T_idle}"

definition ticket_place :: "ticket_sys \<Rightarrow> nat \<Rightarrow> nat" where
  "ticket_place s t = (case ticket_at s t of T_wait k \<Rightarrow> unat (k - now_serving (tlock s)) | _ \<Rightarrow> 0)"

definition ticket_inv :: "nat \<Rightarrow> ticket_sys \<Rightarrow> bool" where
  "ticket_inv N s \<longleftrightarrow> ticket_busy s \<subseteq> {..<N} \<and>
     bij_betw (ticket_place s) (ticket_busy s) {..<card (ticket_busy s)} \<and>
     next_ticket (tlock s) = now_serving (tlock s) + of_nat (card (ticket_busy s))"

abbreviation max_tickets :: nat where
  "max_tickets \<equiv> 4294967296"

lemma ticket_inv_finite: "ticket_inv N s \<Longrightarrow> finite (ticket_busy s)"
  using finite_subset by (auto simp: ticket_inv_def)

lemma unat_of_nat_ticket: "k < max_tickets \<Longrightarrow> unat (of_nat k :: u32) = k"
  by (simp add: unat_of_nat)

text \<open>Drawing a ticket puts the thread at the end of the line.\<close>

lemma ticket_draw_inv:
  assumes inv: "ticket_inv N s" and N: "N \<le> max_tickets" and t: "t < N" "ticket_at s t = T_idle"
    and s': "s' = s\<lparr>tlock := tlock s\<lparr>next_ticket := next_ticket (tlock s) + 1\<rparr>,
                   ticket_at := (ticket_at s)(t := T_wait (next_ticket (tlock s)))\<rparr>"
  shows "ticket_inv N s'"
proof -
  let ?n = "card (ticket_busy s)"
  have fin: "finite (ticket_busy s)" using ticket_inv_finite [OF inv] .
  have new: "t \<notin> ticket_busy s" using t(2) by (simp add: ticket_busy_def)
  have busy: "ticket_busy s' = insert t (ticket_busy s)" by (auto simp: s' ticket_busy_def)
  have "insert t (ticket_busy s) \<subseteq> {..<N}" using inv t(1) by (auto simp: ticket_inv_def)
  then have "card (insert t (ticket_busy s)) \<le> N"
    using card_mono [of "{..<N}" "insert t (ticket_busy s)"] by simp
  then have n: "?n < max_tickets" using new fin N by simp
  have same: "ticket_place s' u = ticket_place s u" if "u \<in> ticket_busy s" for u
    using that new by (cases "ticket_at s u") (auto simp: s' ticket_place_def)
  have "next_ticket (tlock s) - now_serving (tlock s) = of_nat ?n"
    using inv by (simp add: ticket_inv_def)
  then have last: "ticket_place s' t = ?n"
    using unat_of_nat_ticket [OF n] by (simp add: s' ticket_place_def)
  have "bij_betw (ticket_place s') (ticket_busy s) {..<?n}"
    using inv same bij_betw_cong [of "ticket_busy s" "ticket_place s'" "ticket_place s"]
    by (simp add: ticket_inv_def)
  then have "bij_betw (ticket_place s') (ticket_busy s \<union> {t}) ({..<?n} \<union> {ticket_place s' t})"
    using new last by (intro notIn_Un_bij_betw) auto
  then have "bij_betw (ticket_place s') (ticket_busy s') {..<Suc ?n}"
    using busy last by (simp add: lessThan_Suc)
  moreover have "card (ticket_busy s') = Suc ?n" using busy new fin by simp
  moreover have "ticket_busy s' \<subseteq> {..<N}" using inv t(1) busy by (simp add: ticket_inv_def)
  moreover have "next_ticket (tlock s') = now_serving (tlock s') + of_nat (Suc ?n)"
    using inv by (simp add: ticket_inv_def s')
  ultimately show ?thesis unfolding ticket_inv_def by (simp only:)
qed

lemma ticket_enter_inv:
  assumes inv: "ticket_inv N s" and t: "ticket_at s t = T_wait (now_serving (tlock s))"
  shows "ticket_inv N (s\<lparr>ticket_at := (ticket_at s)(t := T_held)\<rparr>)" (is "ticket_inv N ?s'")
proof -
  have "ticket_busy ?s' = ticket_busy s" using t by (auto simp: ticket_busy_def)
  moreover have "ticket_place ?s' u = ticket_place s u" for u
    using t by (cases "ticket_at s u") (auto simp: ticket_place_def)
  then have "ticket_place ?s' = ticket_place s" ..
  ultimately show ?thesis using inv by (simp add: ticket_inv_def)
qed

lemma ticket_place_inj:
  assumes "ticket_inv N s" and "t \<in> ticket_busy s" and "u \<in> ticket_busy s"
    and "ticket_place s t = ticket_place s u"
  shows "t = u"
  using assms by (auto simp: ticket_inv_def bij_betw_def dest: inj_onD)

text \<open>A release moves everybody else one place forward.\<close>

lemma ticket_release_place:
  assumes inv: "ticket_inv N s" and t: "ticket_at s t = T_held" and u: "u \<in> ticket_busy s" "u \<noteq> t"
    and s': "s' = s\<lparr>tlock := UnlockTicket (tlock s), ticket_at := (ticket_at s)(t := T_idle)\<rparr>"
  shows "ticket_place s u \<noteq> 0" and "ticket_place s' u = ticket_place s u - 1"
proof -
  have "t \<in> ticket_busy s" "ticket_place s t = 0"
    using t by (auto simp: ticket_busy_def ticket_place_def)
  then show pos: "ticket_place s u \<noteq> 0" using ticket_place_inj [OF inv u(1)] u(2) by metis
  show "ticket_place s' u = ticket_place s u - 1"
  proof (cases "ticket_at s u")
    case (T_wait k)
    then have "k - now_serving (tlock s) \<noteq> 0" using pos by (auto simp: ticket_place_def)
    then have "unat (k - now_serving (tlock s) - 1) = unat (k - now_serving (tlock s)) - 1"
      by (rule unat_minus_one)
    then show ?thesis using T_wait u by (simp add: s' ticket_place_def UnlockTicket_def diff_diff_eq)
  qed (use pos u in \<open>auto simp: ticket_place_def ticket_busy_def\<close>)
qed

lemma ticket_release_inv:
  assumes inv: "ticket_inv N s" and t: "ticket_at s t = T_held"
    and s': "s' = s\<lparr>tlock := UnlockTicket (tlock s), ticket_at := (ticket_at s)(t := T_idle)\<rparr>"
  shows "ticket_inv N s'"
proof -
  let ?n = "card (ticket_busy s)" and ?B = "ticket_busy s - {t}"
  have fin: "finite (ticket_busy s)" using ticket_inv_finite [OF inv] .
  have mem: "t \<in> ticket_busy s" and p0: "ticket_place s t = 0"
    using t by (auto simp: ticket_busy_def ticket_place_def)
  have busy: "ticket_busy s' = ?B" by (auto simp: s' ticket_busy_def)
  have bij: "bij_betw (ticket_place s) (ticket_busy s) {..<?n}" using inv by (simp add: ticket_inv_def)
  have n: "0 < ?n" using mem fin card_gt_0_iff by blast
  have rest: "bij_betw (ticket_place s) ?B ({..<?n} - {0})"
    using bij_betw_DiffI [OF bij, of "{t}" "{0}"] p0 mem n by (simp add: bij_betw_def)
  have "bij_betw (\<lambda>x. x - 1) ({..<?n} - {0}) {..<?n - 1}"
    by (rule bij_betw_byWitness [where f' = Suc]) auto
  from bij_betw_trans [OF rest this]
  have "bij_betw (\<lambda>u. ticket_place s u - 1) ?B {..<?n - 1}" by (simp add: o_def)
  then have "bij_betw (ticket_place s') ?B {..<?n - 1}"
    using bij_betw_cong [of ?B "ticket_place s'" "\<lambda>u. ticket_place s u - 1"]
      ticket_release_place [OF inv t _ _ s'] by simp
  moreover have "card ?B = ?n - 1" using mem fin by simp
  moreover have "(of_nat ?n :: u32) = 1 + of_nat (?n - 1)" using n by (simp add: of_nat_diff)
  ultimately show ?thesis using inv busy by (auto simp: ticket_inv_def s' UnlockTicket_def)
qed

lemma ticket_step_inv:
  assumes "ticket_step N s s'" and "N \<le> max_tickets" and "ticket_inv N s"
  shows "ticket_inv N s'"
  using assms(1)
proof cases
  case (ticket_lock t p l)
  show ?thesis
  proof (cases "ticket_at s t")
    case T_idle
    with ticket_lock ticket_draw_inv [OF assms(3,2) ticket_lock(2) T_idle refl] show ?thesis by simp
  next
    case (T_wait k)
    show ?thesis
    proof (cases "now_serving (tlock s) = k")
      case True
      with T_wait have "ticket_at s t = T_wait (now_serving (tlock s))" by simp
      from ticket_enter_inv [OF assms(3) this] ticket_lock T_wait True show ?thesis by auto
    next
      case False
      with ticket_lock T_wait have "s' = s" by (auto simp: fun_upd_idem)
      with assms(3) show ?thesis by simp
    qed
  qed (use ticket_lock in simp)
next
  case (ticket_unlock t)
  with ticket_release_inv [OF assms(3)] show ?thesis by simp
qed

lemma ticket_inv_init: "ticket_inv N ticket_init"
  by (simp add: ticket_inv_def ticket_init_def TICKET_LOCK_INIT_def ticket_busy_def bij_betw_def)

interpretation ticket: lock_system ticket_init "ticket_step max_tickets" "ticket_inv max_tickets"
  "\<lambda>s t. ticket_at s t = T_held"
proof unfold_locales
  fix s t u
  assume "ticket_inv max_tickets s" "ticket_at s t = T_held" "ticket_at s u = T_held"
  then show "t = u" using ticket_place_inj [of max_tickets s t u]
    by (simp add: ticket_busy_def ticket_place_def)
qed (use ticket_inv_init ticket_step_inv in auto)

section \<open>Reader-writer lock\<close>

record RWLock =
  readers :: u32
  writer :: u32
  write_lock :: Spinlock

definition RWLOCK_INIT :: RWLock where
  "RWLOCK_INIT = \<lparr>readers = 0, writer = 0, write_lock = SPINLOCK_INIT\<rparr>"

text \<open>The points of the four functions.  \<^verbatim>\<open>readers\<close> is an \<^verbatim>\<open>int32_t\<close>: \<^verbatim>\<open>readers > 0\<close> compares signed.\<close>

datatype rw_pc = Idle
  | RL_wait | RL_inc | RL_check | RL_undo | Reading
  | WL_lock | WL_flag | WL_wait | Writing | WU_unlock

fun ReadLock :: "rw_pc \<Rightarrow> RWLock \<Rightarrow> rw_pc \<times> RWLock" where
  "ReadLock RL_wait l = (if writer l \<noteq> 0 then RL_wait else RL_inc, l)"
| "ReadLock RL_inc l = (RL_check, l\<lparr>readers := readers l + 1\<rparr>)"
| "ReadLock RL_check l = (if writer l \<noteq> 0 then RL_undo else Reading, l)"
| "ReadLock RL_undo l = (RL_wait, l\<lparr>readers := readers l - 1\<rparr>)"
| "ReadLock p l = (p, l)"

definition ReadUnlock :: "RWLock \<Rightarrow> RWLock" where
  "ReadUnlock l = l\<lparr>readers := readers l - 1\<rparr>"

fun WriteLock :: "rw_pc \<Rightarrow> RWLock \<Rightarrow> rw_pc \<times> RWLock" where
  "WriteLock WL_lock l =
     (let (ok, sl) = Lock (write_lock l) in (if ok then WL_flag else WL_lock, l\<lparr>write_lock := sl\<rparr>))"
| "WriteLock WL_flag l = (WL_wait, l\<lparr>writer := writer l + 1\<rparr>)"
| "WriteLock WL_wait l = (if 0 <s readers l then WL_wait else Writing, l)"
| "WriteLock p l = (p, l)"

fun WriteUnlock :: "rw_pc \<Rightarrow> RWLock \<Rightarrow> rw_pc \<times> RWLock" where
  "WriteUnlock Writing l = (WU_unlock, l\<lparr>writer := writer l - 1\<rparr>)"
| "WriteUnlock WU_unlock l = (Idle, l\<lparr>write_lock := Unlock (write_lock l)\<rparr>)"
| "WriteUnlock p l = (p, l)"

record rw_sys =
  rwlock :: RWLock
  rw_at :: "nat \<Rightarrow> rw_pc"

definition rw_init :: rw_sys where
  "rw_init = \<lparr>rwlock = RWLOCK_INIT, rw_at = (\<lambda>_. Idle)\<rparr>"

definition rw_go :: "nat \<Rightarrow> rw_pc \<times> RWLock \<Rightarrow> rw_sys \<Rightarrow> rw_sys" where
  "rw_go t pl s = s\<lparr>rwlock := snd pl, rw_at := (rw_at s)(t := fst pl)\<rparr>"

inductive rw_step :: "nat \<Rightarrow> rw_sys \<Rightarrow> rw_sys \<Rightarrow> bool" for N where
  call_read: "t < N \<Longrightarrow> rw_at s t = Idle \<Longrightarrow> rw_step N s (rw_go t (RL_wait, rwlock s) s)"
| read_lock: "t < N \<Longrightarrow> rw_at s t \<in> {RL_wait, RL_inc, RL_check, RL_undo} \<Longrightarrow>
    rw_step N s (rw_go t (ReadLock (rw_at s t) (rwlock s)) s)"
| read_unlock: "t < N \<Longrightarrow> rw_at s t = Reading \<Longrightarrow> rw_step N s (rw_go t (Idle, ReadUnlock (rwlock s)) s)"
| call_write: "t < N \<Longrightarrow> rw_at s t = Idle \<Longrightarrow> rw_step N s (rw_go t (WL_lock, rwlock s) s)"
| write_lock: "t < N \<Longrightarrow> rw_at s t \<in> {WL_lock, WL_flag, WL_wait} \<Longrightarrow>
    rw_step N s (rw_go t (WriteLock (rw_at s t) (rwlock s)) s)"
| write_unlock: "t < N \<Longrightarrow> rw_at s t \<in> {Writing, WU_unlock} \<Longrightarrow>
    rw_step N s (rw_go t (WriteUnlock (rw_at s t) (rwlock s)) s)"

text \<open>Who is counted in \<^verbatim>\<open>readers\<close>, who holds \<^verbatim>\<open>write_lock\<close>, who is counted in \<^verbatim>\<open>writer\<close>.\<close>

definition rd_counted :: "rw_pc \<Rightarrow> bool" where
  "rd_counted p \<longleftrightarrow> p \<in> {RL_check, RL_undo, Reading}"

definition wr_owner :: "rw_pc \<Rightarrow> bool" where
  "wr_owner p \<longleftrightarrow> p \<in> {WL_flag, WL_wait, Writing, WU_unlock}"

definition wr_flagged :: "rw_pc \<Rightarrow> bool" where
  "wr_flagged p \<longleftrightarrow> p \<in> {WL_wait, Writing}"

lemmas rw_points = rd_counted_def wr_owner_def wr_flagged_def

definition at_points :: "(rw_pc \<Rightarrow> bool) \<Rightarrow> rw_sys \<Rightarrow> nat set" where
  "at_points P s = {t. P (rw_at s t)}"

definition rw_inv :: "nat \<Rightarrow> rw_sys \<Rightarrow> bool" where
  "rw_inv N s \<longleftrightarrow> (\<forall>t. rw_at s t \<noteq> Idle \<longrightarrow> t < N) \<and>
     readers (rwlock s) = of_nat (card (at_points rd_counted s)) \<and>
     (\<forall>t u. wr_owner (rw_at s t) \<longrightarrow> wr_owner (rw_at s u) \<longrightarrow> t = u) \<and>
     (locked (write_lock (rwlock s)) = 0 \<longleftrightarrow> at_points wr_owner s = {}) \<and>
     writer (rwlock s) = of_nat (card (at_points wr_flagged s)) \<and>
     (at_points (\<lambda>p. p = Writing) s \<noteq> {} \<longrightarrow> at_points (\<lambda>p. p = Reading) s = {})"

abbreviation max_readers :: nat where
  "max_readers \<equiv> 2147483647"

definition one_if :: "bool \<Rightarrow> u32" where
  "one_if b = (if b then 1 else 0)"

lemma at_points_go:
  "at_points P (rw_go t pl s) = (if P (fst pl) then insert t (at_points P s) else at_points P s - {t})"
  by (auto simp: at_points_def rw_go_def)

lemma mem_at_points: "t \<in> at_points P s \<longleftrightarrow> P (rw_at s t)"
  by (simp add: at_points_def)

lemma card_at_points_go:
  assumes "finite (at_points P s)"
  shows "(of_nat (card (at_points P (rw_go t pl s))) :: u32) =
    of_nat (card (at_points P s)) + one_if (P (fst pl)) - one_if (P (rw_at s t))"
proof (cases "t \<in> at_points P s")
  case True
  then have "card (at_points P s) = Suc (card (at_points P s - {t}))"
    using assms by (metis card.remove)
  with True show ?thesis by (auto simp: at_points_go one_if_def mem_at_points insert_absorb)
next
  case False
  with assms show ?thesis by (simp add: at_points_go one_if_def mem_at_points)
qed

lemma rw_invD:
  assumes "rw_inv N s"
  shows "rw_at s t \<noteq> Idle \<Longrightarrow> t < N"
    and "readers (rwlock s) = of_nat (card (at_points rd_counted s))"
    and "wr_owner (rw_at s t) \<Longrightarrow> wr_owner (rw_at s u) \<Longrightarrow> t = u"
    and "locked (write_lock (rwlock s)) = 0 \<longleftrightarrow> at_points wr_owner s = {}"
    and "writer (rwlock s) = of_nat (card (at_points wr_flagged s))"
    and "rw_at s t = Writing \<Longrightarrow> rw_at s u \<noteq> Reading"
  using assms unfolding rw_inv_def at_points_def by (simp_all, blast)

lemma at_points_subset:
  assumes inv: "rw_inv N s" and P: "\<not> P Idle"
  shows "at_points P s \<subseteq> {..<N}"
proof
  fix t
  assume "t \<in> at_points P s"
  then have "rw_at s t \<noteq> Idle" using P by (auto simp: at_points_def)
  then show "t \<in> {..<N}" using rw_invD(1) [OF inv] by simp
qed

lemma rw_finite: "rw_inv N s \<Longrightarrow> \<not> P Idle \<Longrightarrow> finite (at_points P s)"
  by (rule finite_subset [OF at_points_subset]) simp_all

lemma flagged_owner: "wr_flagged p \<Longrightarrow> wr_owner p"
  by (auto simp: rw_points)

lemma not_idle [simp]: "\<not> rd_counted Idle" "\<not> wr_flagged Idle" "\<not> wr_owner Idle"
  by (simp_all add: rw_points)

lemma writer_zero:
  assumes inv: "rw_inv N s" and zero: "writer (rwlock s) = 0"
  shows "at_points wr_flagged s = {}"
proof (rule ccontr)
  assume "at_points wr_flagged s \<noteq> {}"
  then obtain t where t: "wr_flagged (rw_at s t)" by (auto simp: at_points_def)
  have "u = t" if "wr_flagged (rw_at s u)" for u
    using rw_invD(3) [OF inv flagged_owner [OF that] flagged_owner [OF t]] .
  then have "at_points wr_flagged s \<subseteq> {t}" unfolding at_points_def by blast
  with t have "at_points wr_flagged s = {t}" unfolding at_points_def by blast
  then show False using rw_invD(5) [OF inv] zero by simp
qed

lemma readers_not_positive:
  assumes inv: "rw_inv N s" and N: "N \<le> max_readers" and le: "\<not> 0 <s readers (rwlock s)"
  shows "at_points rd_counted s = {}"
proof -
  let ?n = "card (at_points rd_counted s)"
  have "at_points rd_counted s \<subseteq> {..<N}" using at_points_subset [OF inv] by simp
  then have "?n \<le> N" using card_mono [of "{..<N}" "at_points rd_counted s"] by simp
  then have n: "?n \<le> max_readers" using N by simp
  have "sint (of_nat ?n :: u32) = int ?n"
    using n by (simp add: signed_of_nat signed_take_bit_int_eq_self)
  then have "?n = 0" using le rw_invD(2) [OF inv] by (simp add: word_sless_alt)
  then show ?thesis using rw_finite [OF inv] by simp
qed

text \<open>What a step of one thread must do to the lock for the invariant to stay true.\<close>

lemma rw_go_inv:
  fixes s t pl
  defines "p \<equiv> fst pl" and "l \<equiv> snd pl" and "q \<equiv> rw_at s t"
  assumes inv: "rw_inv N s" and t: "t < N"
    and rd: "readers l = readers (rwlock s) + one_if (rd_counted p) - one_if (rd_counted q)"
    and wr: "writer l = writer (rwlock s) + one_if (wr_flagged p) - one_if (wr_flagged q)"
    and lk: "if wr_owner p = wr_owner q then locked (write_lock l) = 0 \<longleftrightarrow> locked (write_lock (rwlock s)) = 0
             else if wr_owner p then locked (write_lock (rwlock s)) = 0 \<and> locked (write_lock l) = 1
             else locked (write_lock l) = 0"
    and enter_read: "p = Reading \<Longrightarrow> q \<noteq> Reading \<Longrightarrow> writer (rwlock s) = 0"
    and enter_write: "p = Writing \<Longrightarrow> q \<noteq> Writing \<Longrightarrow> at_points rd_counted s = {}"
  shows "rw_inv N (rw_go t pl s)" (is "rw_inv N ?s")
proof -
  have at: "rw_at ?s = (rw_at s)(t := p)" and lock: "rwlock ?s = l"
    by (simp_all add: rw_go_def p_def l_def)
  note D = rw_invD [OF inv]
  have 1: "\<forall>u. rw_at ?s u \<noteq> Idle \<longrightarrow> u < N" using D(1) t by (simp add: at)
  have 2: "readers (rwlock ?s) = of_nat (card (at_points rd_counted ?s))"
    using card_at_points_go [OF rw_finite [OF inv], of rd_counted t pl] D(2) rd
    by (simp add: lock p_def q_def)
  have 3: "writer (rwlock ?s) = of_nat (card (at_points wr_flagged ?s))"
    using card_at_points_go [OF rw_finite [OF inv], of wr_flagged t pl] D(5) wr
    by (simp add: lock p_def q_def)
  have none: "\<not> wr_owner (rw_at s u)" if "wr_owner p" "\<not> wr_owner q" for u
    using lk that D(4) by (auto simp: at_points_def)
  have 4: "u = v" if "wr_owner (rw_at ?s u)" "wr_owner (rw_at ?s v)" for u v
    using that D(3) none q_def by (cases \<open>wr_owner q\<close>) (auto simp: at split: if_splits)
  have 5: "locked (write_lock (rwlock ?s)) = 0 \<longleftrightarrow> at_points wr_owner ?s = {}"
  proof (cases "wr_owner p")
    case True
    then have "at_points wr_owner ?s \<noteq> {}" by (simp add: at_points_go p_def)
    moreover have "locked (write_lock l) \<noteq> 0"
      using lk True D(4) q_def by (auto simp: at_points_def split: if_splits)
    ultimately show ?thesis by (simp add: lock)
  next
    case False
    have "at_points wr_owner ?s = {}" if "wr_owner q"
      using D(3) that False q_def by (auto simp: at_points_go p_def mem_at_points)
    moreover have "at_points wr_owner ?s = at_points wr_owner s" if "\<not> wr_owner q"
      using that False q_def by (auto simp: at_points_go p_def mem_at_points)
    ultimately show ?thesis using lk False D(4) by (auto simp: lock split: if_splits)
  qed
  have 6: "at_points (\<lambda>p. p = Reading) ?s = {}" if "at_points (\<lambda>p. p = Writing) ?s \<noteq> {}"
  proof (rule ccontr)
    assume "at_points (\<lambda>p. p = Reading) ?s \<noteq> {}"
    with that obtain u v where uv: "rw_at ?s u = Writing" "rw_at ?s v = Reading"
      by (auto simp: at_points_def)
    then have ne: "u \<noteq> v" by auto
    have no_old: "\<not> (rw_at s u = Writing \<and> rw_at s v = Reading)" using D(6) by blast
    consider "u = t" "p = Writing" "q \<noteq> Writing" "rw_at s v = Reading"
      | "v = t" "p = Reading" "q \<noteq> Reading" "rw_at s u = Writing"
      using uv ne no_old by (auto simp: at q_def split: if_splits)
    then show False
    proof cases
      case 1
      with enter_write show False by (auto simp: at_points_def rd_counted_def)
    next
      case 2
      with enter_read writer_zero [OF inv] show False by (auto simp: at_points_def wr_flagged_def)
    qed
  qed
  show ?thesis unfolding rw_inv_def using 1 2 3 4 5 6 by blast
qed

lemma rw_step_inv:
  assumes "rw_step N s s'" and N: "N \<le> max_readers" and inv: "rw_inv N s"
  shows "rw_inv N s'"
  using assms(1)
proof cases
  case (read_lock t)
  then show ?thesis
    by (auto intro!: rw_go_inv [OF inv] simp: rw_points one_if_def split: if_splits)
next
  case (write_lock t)
  then show ?thesis
    by (auto intro!: rw_go_inv [OF inv] readers_not_positive [OF inv N]
        simp: rw_points one_if_def spin_defs split: if_splits)
qed (auto intro!: rw_go_inv [OF inv] simp: rw_points one_if_def ReadUnlock_def Unlock_def)

lemma rw_inv_init: "rw_inv N rw_init"
  by (simp add: rw_inv_def rw_init_def RWLOCK_INIT_def SPINLOCK_INIT_def at_points_def)

interpretation rw: lock_system rw_init "rw_step max_readers" "rw_inv max_readers"
  "\<lambda>s t. wr_owner (rw_at s t)"
proof unfold_locales
  show "t = u" if "rw_inv max_readers s" "wr_owner (rw_at s t)" "wr_owner (rw_at s u)" for s t u
    using rw_invD(3) [OF that] .
qed (use rw_inv_init rw_step_inv in auto)

text \<open>Fewer threads have fewer runs.\<close>

lemma rtranclp_step_mono:
  assumes "(f N)\<^sup>*\<^sup>* x y" and "\<And>s s'. f N s s' \<Longrightarrow> f M s s'"
  shows "(f M)\<^sup>*\<^sup>* x y"
  using assms(1) by (rule rtranclp_mono [THEN predicate2D, rotated]) (use assms(2) in blast)

lemma ticket_step_mono: "ticket_step N s s' \<Longrightarrow> N \<le> M \<Longrightarrow> ticket_step M s s'"
  by (induction rule: ticket_step.induct) (auto intro: ticket_step.intros)

lemma rw_step_mono: "rw_step N s s' \<Longrightarrow> N \<le> M \<Longrightarrow> rw_step M s s'"
  by (induction rule: rw_step.induct) (auto intro: rw_step.intros)

lemma ticket_inv_next:
  assumes inv: "ticket_inv N s" and busy: "ticket_at s t \<noteq> T_idle"
  shows "\<exists>u<N. ticket_at s u = T_held \<or> ticket_at s u = T_wait (now_serving (tlock s))"
proof -
  have "t \<in> ticket_busy s" using busy by (simp add: ticket_busy_def)
  then have "0 < card (ticket_busy s)" using ticket_inv_finite [OF inv] card_gt_0_iff by blast
  then have "0 \<in> ticket_place s ` ticket_busy s" using inv by (auto simp: ticket_inv_def bij_betw_def)
  then obtain u where u: "u \<in> ticket_busy s" "ticket_place s u = 0" by (metis imageE)
  then have "ticket_at s u = T_held \<or> ticket_at s u = T_wait (now_serving (tlock s))"
    by (cases "ticket_at s u") (auto simp: ticket_busy_def ticket_place_def unat_eq_0)
  moreover have "u < N" using inv u(1) by (auto simp: ticket_inv_def)
  ultimately show ?thesis by blast
qed

lemma ticket_wait_bound:
  assumes inv: "ticket_inv N s" and wait: "ticket_at s t = T_wait k"
  shows "unat (k - now_serving (tlock s)) < N"
proof -
  have t: "t \<in> ticket_busy s" using wait by (simp add: ticket_busy_def)
  have "ticket_place s t < card (ticket_busy s)"
    using inv t by (auto simp: ticket_inv_def dest: bij_betwE)
  moreover have "card (ticket_busy s) \<le> N"
    using inv card_mono [of "{..<N}" "ticket_busy s"] by (simp add: ticket_inv_def)
  ultimately show ?thesis using wait by (simp add: ticket_place_def)
qed

lemma ticket_wait_step:
  assumes "ticket_step N s s'" and inv: "ticket_inv N s" and wait: "ticket_at s t = T_wait k"
  shows "(ticket_at s' t = T_wait k \<and>
          unat (k - now_serving (tlock s')) =
            unat (k - now_serving (tlock s)) - (if tlock s' = UnlockTicket (tlock s) then 1 else 0)) \<or>
         (ticket_at s' t = T_held \<and> k = now_serving (tlock s))"
  using assms(1)
proof cases
  case (ticket_lock u p l)
  have same: "now_serving l = now_serving (tlock s)"
    using ticket_lock(4) by (cases "ticket_at s u") auto
  then have "l \<noteq> UnlockTicket (tlock s)" by (auto simp: UnlockTicket_def)
  with ticket_lock wait same show ?thesis by (cases "u = t") (auto split: if_splits)
next
  case (ticket_unlock u)
  have "t \<in> ticket_busy s" "t \<noteq> u" using wait ticket_unlock(3) by (auto simp: ticket_busy_def)
  from ticket_release_place(2) [OF inv ticket_unlock(3) this ticket_unlock(1)] wait ticket_unlock(1) \<open>t \<noteq> u\<close>
  show ?thesis by (simp add: ticket_place_def)
qed

section \<open>Properties\<close>

text \<open>C20. For at most \<open>2^32\<close> threads, in every interleaving of \<^verbatim>\<open>LockTicket\<close> and \<^verbatim>\<open>UnlockTicket\<close> and
  in spite of the 32-bit counters wrapping: at most one thread is in its section; whenever some
  thread has a ticket there is one that is in its section or whose turn it is, so the lock never
  gets stuck; and a waiting thread is at most \<open>N - 1\<close> releases away from its turn, every release
  brings it one nearer, nothing pushes it back, and it enters only on its turn.\<close>

theorem ticket_lock_fair:
  assumes "N \<le> max_tickets" and "(ticket_step N)\<^sup>*\<^sup>* ticket_init s"
  shows "(\<forall>t u. ticket_at s t = T_held \<and> ticket_at s u = T_held \<longrightarrow> t = u) \<and>
    ((\<exists>t. ticket_at s t \<noteq> T_idle) \<longrightarrow>
       (\<exists>u<N. ticket_at s u = T_held \<or> ticket_at s u = T_wait (now_serving (tlock s)))) \<and>
    (\<forall>t k. ticket_at s t = T_wait k \<longrightarrow>
       unat (k - now_serving (tlock s)) < N \<and>
       (\<forall>s'. ticket_step N s s' \<longrightarrow>
          (ticket_at s' t = T_wait k \<and>
           unat (k - now_serving (tlock s')) =
             unat (k - now_serving (tlock s)) - (if tlock s' = UnlockTicket (tlock s) then 1 else 0)) \<or>
          (ticket_at s' t = T_held \<and> k = now_serving (tlock s))))"
proof -
  have inv: "ticket_inv N s"
    using assms(2)
    by (induction rule: rtranclp_induct) (auto intro: ticket_inv_init ticket_step_inv [OF _ assms(1)])
  have run: "(ticket_step max_tickets)\<^sup>*\<^sup>* ticket_init s"
    using assms(2) ticket_step_mono [OF _ assms(1)] by (rule rtranclp_step_mono)
  show ?thesis
    using ticket.mutual_exclusion [OF run] ticket_inv_next [OF inv] ticket_wait_bound [OF inv]
      ticket_wait_step [OF _ inv] by blast
qed

text \<open>Two threads have drawn tickets 0 and 1 and thread 0 has entered: thread 1 waits one release away.\<close>

definition ticket_demo :: ticket_sys where
  "ticket_demo = \<lparr>tlock = \<lparr>next_ticket = 2, now_serving = 0\<rparr>,
     ticket_at = (\<lambda>_. T_idle)(0 := T_held, 1 := T_wait 1)\<rparr>"

lemma ticket_demo_run: "(ticket_step 2)\<^sup>*\<^sup>* ticket_init ticket_demo"
proof -
  let ?s1 = "\<lparr>tlock = \<lparr>next_ticket = 1, now_serving = 0\<rparr>, ticket_at = (\<lambda>_. T_idle)(0 := T_wait 0)\<rparr>"
  let ?s2 = "\<lparr>tlock = \<lparr>next_ticket = 1, now_serving = 0\<rparr>, ticket_at = (\<lambda>_. T_idle)(0 := T_held)\<rparr>"
  have "ticket_step 2 ticket_init ?s1"
    using ticket_step.ticket_lock [of 0 2 ticket_init] by (simp add: ticket_init_def TICKET_LOCK_INIT_def)
  moreover have "ticket_step 2 ?s1 ?s2" using ticket_step.ticket_lock [of 0 2 ?s1] by simp
  moreover have "ticket_step 2 ?s2 ticket_demo"
    using ticket_step.ticket_lock [of 1 2 ?s2] by (simp add: ticket_demo_def)
  ultimately show ?thesis by (meson rtranclp.rtrancl_refl rtranclp.rtrancl_into_rtrancl)
qed

theorem ticket_lock_fair_witness:
  "(2::nat) \<le> max_tickets \<and> (ticket_step 2)\<^sup>*\<^sup>* ticket_init ticket_demo \<and>
   ticket_at ticket_demo 1 = T_wait 1 \<and> unat (1 - now_serving (tlock ticket_demo)) < 2"
proof -
  have wait: "ticket_at ticket_demo 1 = T_wait 1" by (simp add: ticket_demo_def)
  have N: "(2::nat) \<le> max_tickets" by simp
  from ticket_lock_fair [OF N ticket_demo_run] wait
  have "unat (1 - now_serving (tlock ticket_demo)) < 2" by blast
  with wait N ticket_demo_run show ?thesis by (intro conjI)
qed

text \<open>C21. For fewer than \<open>2^31\<close> threads, in every interleaving of the four functions of the
  reader-writer lock, a thread in a write section excludes every other writer and every reader, and
  when all sections are left the lock is back in its initial state (no counter leaks, whatever
  retries of the readers happened).\<close>

theorem rw_lock_exclusion:
  assumes "N \<le> max_readers" and "(rw_step N)\<^sup>*\<^sup>* rw_init s"
  shows "(\<forall>t u. rw_at s t = Writing \<longrightarrow> rw_at s u \<noteq> Reading \<and> (rw_at s u = Writing \<longrightarrow> t = u)) \<and>
    ((\<forall>t. rw_at s t = Idle) \<longrightarrow> rwlock s = RWLOCK_INIT)"
proof -
  have "(rw_step max_readers)\<^sup>*\<^sup>* rw_init s"
    using assms(2) rw_step_mono [OF _ assms(1)] by (rule rtranclp_step_mono)
  then have inv: "rw_inv max_readers s" by (rule rw.reachable_inv)
  have "rwlock s = RWLOCK_INIT" if "\<forall>t. rw_at s t = Idle"
    using rw_invD(2,4,5) [OF inv] that by (simp add: at_points_def RWLOCK_INIT_def SPINLOCK_INIT_def)
  then show ?thesis using rw_invD(3,6) [OF inv] by (auto simp: wr_owner_def)
qed

text \<open>One reader is in its section and a writer has set the flag and waits for it.\<close>

definition rw_demo :: rw_sys where
  "rw_demo = \<lparr>rwlock = \<lparr>readers = 1, writer = 1, write_lock = \<lparr>locked = 1\<rparr>\<rparr>,
     rw_at = (\<lambda>_. Idle)(0 := Reading, 1 := WL_wait)\<rparr>"

lemma rw_demo_run: "(rw_step 2)\<^sup>*\<^sup>* rw_init rw_demo"
proof -
  let ?s = "\<lambda>r w k p q. \<lparr>rwlock = \<lparr>readers = r, writer = w, write_lock = \<lparr>locked = k\<rparr>\<rparr>,
                         rw_at = (\<lambda>_. Idle)(0 := p, 1 := q)\<rparr>"
  note go = rw_go_def spin_defs
  have "rw_step 2 rw_init (?s 0 0 0 RL_wait Idle)"
    using call_read [of 0 2 rw_init] by (simp add: go rw_init_def RWLOCK_INIT_def fun_upd_idem)
  moreover have "rw_step 2 (?s 0 0 0 RL_wait Idle) (?s 0 0 0 RL_inc Idle)"
    using read_lock [of 0 2 "?s 0 0 0 RL_wait Idle"] by (simp add: go fun_upd_twist)
  moreover have "rw_step 2 (?s 0 0 0 RL_inc Idle) (?s 1 0 0 RL_check Idle)"
    using read_lock [of 0 2 "?s 0 0 0 RL_inc Idle"] by (simp add: go fun_upd_twist)
  moreover have "rw_step 2 (?s 1 0 0 RL_check Idle) (?s 1 0 0 Reading Idle)"
    using read_lock [of 0 2 "?s 1 0 0 RL_check Idle"] by (simp add: go fun_upd_twist)
  moreover have "rw_step 2 (?s 1 0 0 Reading Idle) (?s 1 0 0 Reading WL_lock)"
    using call_write [of 1 2 "?s 1 0 0 Reading Idle"] by (simp add: go)
  moreover have "rw_step 2 (?s 1 0 0 Reading WL_lock) (?s 1 0 1 Reading WL_flag)"
    using write_lock [of 1 2 "?s 1 0 0 Reading WL_lock"] by (simp add: go)
  moreover have "rw_step 2 (?s 1 0 1 Reading WL_flag) rw_demo"
    using write_lock [of 1 2 "?s 1 0 1 Reading WL_flag"] by (simp add: go rw_demo_def)
  ultimately show ?thesis by (meson rtranclp.rtrancl_refl rtranclp.rtrancl_into_rtrancl)
qed

theorem rw_lock_exclusion_witness:
  "(2::nat) \<le> max_readers \<and> (rw_step 2)\<^sup>*\<^sup>* rw_init rw_demo \<and> rw_at rw_demo 0 = Reading \<and>
   rw_at rw_demo 1 \<noteq> Writing"
proof -
  have reading: "rw_at rw_demo 0 = Reading" by (simp add: rw_demo_def)
  have N: "(2::nat) \<le> max_readers" by simp
  from rw_lock_exclusion [OF N rw_demo_run] reading have "rw_at rw_demo 1 \<noteq> Writing" by blast
  with reading N rw_demo_run show ?thesis by (intro conjI)
qed

end
