(* ===== verification/User_Heap.thy ===== *)
theory User_Heap
  imports PMM KHeap KStd Locks
begin

text \<open>
  The user heap, \<^verbatim>\<open>kernel/mm/user_heap.cpp\<close>: best fit over a doubly linked free list whose block headers
  live in the heap itself, so the headers are an explicit store, as in theory \<open>KHeap\<close>.  The lock is part of
  the state: operations run one after the other, and taking a lock that is already taken does not return
  (the result \<open>None\<close>), since the only holder it can have is the caller.  Console output is left out.
\<close>

section \<open>State\<close>

record UHeapBlock =
  ub_magic :: nat
  ub_size :: nat
  ub_priority :: nat
  ub_flags :: u8
  ub_next :: addr
  ub_prev :: addr

record UHeapStats =
  total_size :: nat
  used_size :: nat
  free_size :: nat
  high_priority :: nat
  expansion_count :: nat
  alloc_count :: nat
  free_count :: nat

type_synonym ublocks = "addr \<Rightarrow> UHeapBlock"

record uheap =
  uh_mem :: ublocks
  uh_bytes :: bytes
  uh_base :: addr
  uh_size :: nat
  uh_used :: nat
  freeList :: addr
  uh_lock :: Spinlock
  uh_stats :: UHeapStats
  uh_pmm :: pmm
  uh_kheap :: kheap

text \<open>\<^verbatim>\<open>sizeof(UHeapBlock)\<close>: 4 + 4 + 1 + 1 + 2 bytes, 4 of padding and two pointers.\<close>

abbreviation UHDR :: nat where "UHDR \<equiv> 32"
abbreviation UHEAP_MAGIC :: nat where "UHEAP_MAGIC \<equiv> 0x55484550"
abbreviation UHEAP_INITIAL_SIZE :: nat where "UHEAP_INITIAL_SIZE \<equiv> 4 * 1024 * 1024"
abbreviation UHEAP_MAX_SIZE :: nat where "UHEAP_MAX_SIZE \<equiv> 256 * 1024 * 1024"
abbreviation UHEAP_EXPAND_SIZE :: nat where "UHEAP_EXPAND_SIZE \<equiv> 1024 * 1024"
abbreviation MEM_PRIORITY_HIGH :: nat where "MEM_PRIORITY_HIGH \<equiv> 1"
abbreviation MEM_PRIORITY_NORMAL :: nat where "MEM_PRIORITY_NORMAL \<equiv> 2"
abbreviation MEM_PRIORITY_LOW :: nat where "MEM_PRIORITY_LOW \<equiv> 3"
abbreviation UHEAP_PINNED :: u8 where "UHEAP_PINNED \<equiv> 1"
abbreviation UHEAP_ZEROED :: u8 where "UHEAP_ZEROED \<equiv> 2"

definition uput :: "ublocks \<Rightarrow> addr \<Rightarrow> (UHeapBlock \<Rightarrow> UHeapBlock) \<Rightarrow> ublocks" where
  "uput m a f = m(a := f (m a))"

definition enter :: "uheap \<Rightarrow> uheap option" where
  "enter s = (let (ok, l) = Lock (uh_lock s) in if ok then Some (s\<lparr>uh_lock := l\<rparr>) else None)"

definition leave :: "uheap \<Rightarrow> uheap" where
  "leave s = s\<lparr>uh_lock := Unlock (uh_lock s)\<rparr>"

section \<open>Operations\<close>

definition zero_stats :: UHeapStats where
  "zero_stats = \<lparr>total_size = 0, used_size = 0, free_size = 0, high_priority = 0, expansion_count = 0,
     alloc_count = 0, free_count = 0\<rparr>"

text \<open>The static variables before \<^verbatim>\<open>Init\<close>.\<close>

definition uheap_static :: "ublocks \<Rightarrow> bytes \<Rightarrow> pmm \<Rightarrow> kheap \<Rightarrow> uheap" where
  "uheap_static m b p k = \<lparr>uh_mem = m, uh_bytes = b, uh_base = 0, uh_size = 0, uh_used = 0, freeList = 0,
     uh_lock = SPINLOCK_INIT, uh_stats = zero_stats, uh_pmm = p, uh_kheap = k\<rparr>"

definition uheap_Init :: "uheap \<Rightarrow> uheap option" where
  "uheap_Init s0 =
     Option.bind (enter s0) (\<lambda>s.
     Option.bind (AllocContiguous (uh_pmm s) ((UHEAP_INITIAL_SIZE + 4095) div 4096)) (\<lambda>(base, p).
       let s1 = s\<lparr>uh_pmm := p, uh_base := base\<rparr>
       in if base = 0 then Some (leave s1)
          else Some (leave (s1\<lparr>uh_size := UHEAP_INITIAL_SIZE, uh_used := 0, freeList := base,
                 uh_mem := uput (uh_mem s1) base (\<lambda>b. b\<lparr>ub_magic := UHEAP_MAGIC, ub_size := UHEAP_INITIAL_SIZE,
                     ub_priority := MEM_PRIORITY_LOW, ub_flags := 0, ub_next := 0, ub_prev := 0\<rparr>),
                 uh_stats := (uh_stats s1)\<lparr>total_size := UHEAP_INITIAL_SIZE,
                     free_size := UHEAP_INITIAL_SIZE - UHDR, used_size := 0\<rparr>\<rparr>))))"

text \<open>The search loop of \<^verbatim>\<open>Allocate\<close>: \<open>best\<close> is the smallest block that fits so far, 0 before the first.\<close>

partial_function (option) find_best :: "ublocks \<Rightarrow> nat \<Rightarrow> addr \<Rightarrow> addr \<Rightarrow> addr option" where
  "find_best m totalSize block best =
     (if block = 0 then Some best
      else if ub_size (m block) \<ge> totalSize \<and> (best = 0 \<or> ub_size (m block) < ub_size (m best))
      then (if ub_size (m block) = totalSize then Some block
            else find_best m totalSize (ub_next (m block)) block)
      else find_best m totalSize (ub_next (m block)) best)"

definition unlink_block :: "ublocks \<Rightarrow> addr \<Rightarrow> addr \<Rightarrow> ublocks \<times> addr" where
  "unlink_block m fl best =
     (let m1 = (if ub_prev (m best) \<noteq> 0 then uput m (ub_prev (m best)) (\<lambda>b. b\<lparr>ub_next := ub_next (m best)\<rparr>) else m);
          m2 = (if ub_next (m1 best) \<noteq> 0 then uput m1 (ub_next (m1 best)) (\<lambda>b. b\<lparr>ub_prev := ub_prev (m1 best)\<rparr>) else m1)
      in (m2, if fl = best then ub_next (m2 best) else fl))"

definition push_block :: "ublocks \<Rightarrow> addr \<Rightarrow> addr \<Rightarrow> nat \<Rightarrow> ublocks" where
  "push_block m fl block sz =
     (let m1 = uput m block (\<lambda>b. b\<lparr>ub_magic := UHEAP_MAGIC, ub_size := sz mod u32_limit, ub_priority := MEM_PRIORITY_LOW,
                 ub_flags := 0, ub_next := fl, ub_prev := 0\<rparr>)
      in if fl \<noteq> 0 then uput m1 fl (\<lambda>b. b\<lparr>ub_prev := block\<rparr>) else m1)"

definition split_block :: "ublocks \<Rightarrow> addr \<Rightarrow> addr \<Rightarrow> nat \<Rightarrow> ublocks \<times> addr" where
  "split_block m fl best totalSize =
     (if ub_size (m best) > add64 (add64 totalSize UHDR) 32
      then let remainder = add64 best totalSize;
               m1 = push_block m fl remainder (sub64 (ub_size (m best)) totalSize)
           in (uput m1 best (\<lambda>b. b\<lparr>ub_size := totalSize mod u32_limit\<rparr>), remainder)
      else (m, fl))"

definition count_alloc :: "nat \<Rightarrow> nat \<Rightarrow> uheap \<Rightarrow> uheap" where
  "count_alloc priority sz s =
     (let used = add64 (uh_used s) sz; st = uh_stats s
      in s\<lparr>uh_used := used,
           uh_stats := st\<lparr>used_size := used, free_size := sub64 (uh_size s) used,
             alloc_count := add64 (alloc_count st) 1,
             high_priority := (if priority \<le> MEM_PRIORITY_HIGH then add64 (high_priority st) sz else high_priority st)\<rparr>\<rparr>)"

text \<open>\<^verbatim>\<open>Allocate\<close> from the point where \<^verbatim>\<open>best\<close> is found.\<close>

definition take_best :: "uheap \<Rightarrow> addr \<Rightarrow> nat \<Rightarrow> nat \<Rightarrow> nat \<Rightarrow> u8 \<Rightarrow> addr \<times> uheap" where
  "take_best s best sz totalSize priority flags =
     (let (m1, fl1) = unlink_block (uh_mem s) (freeList s) best;
          (m2, fl2) = split_block m1 fl1 best totalSize;
          m3 = uput m2 best (\<lambda>b. b\<lparr>ub_magic := UHEAP_MAGIC, ub_priority := priority, ub_flags := flags,
                 ub_next := 0, ub_prev := 0\<rparr>);
          s1 = count_alloc priority (ub_size (m3 best)) (s\<lparr>uh_mem := m3, freeList := fl2\<rparr>);
          ptr = add64 best UHDR;
          s2 = (if flags AND UHEAP_ZEROED \<noteq> 0 then s1\<lparr>uh_bytes := kmemset (uh_bytes s1) ptr 0 sz\<rparr> else s1)
      in (ptr, s2))"

definition uheap_Expand :: "uheap \<Rightarrow> nat \<Rightarrow> (bool \<times> uheap) option" where
  "uheap_Expand s0 bytes =
     Option.bind (enter s0) (\<lambda>s.
       if add64 (uh_size s) bytes > UHEAP_MAX_SIZE then Some (False, leave s)
       else Option.bind (kmalloc (uh_kheap s) bytes) (\<lambda>(newMem, k).
         if newMem = 0 then Some (False, leave (s\<lparr>uh_kheap := k\<rparr>))
         else let sz = add64 (uh_size s) bytes; st = uh_stats s
              in Some (True, leave (s\<lparr>uh_kheap := k, uh_mem := push_block (uh_mem s) (freeList s) newMem bytes,
                   freeList := newMem, uh_size := sz,
                   uh_stats := st\<lparr>total_size := sz, free_size := add64 (free_size st) bytes,
                                  expansion_count := add64 (expansion_count st) 1\<rparr>\<rparr>))))"

partial_function (option) uheap_Allocate ::
  "uheap \<Rightarrow> nat \<Rightarrow> nat \<Rightarrow> u8 \<Rightarrow> (addr \<times> uheap) option" where
  "uheap_Allocate s0 size0 priority flags =
     (if size0 = 0 then Some (0, s0)
      else Option.bind (enter s0) (\<lambda>s.
        let sz = align16 size0; totalSize = add64 sz UHDR
        in Option.bind (find_best (uh_mem s) totalSize (freeList s) 0) (\<lambda>best.
             if best = 0
             then Option.bind (uheap_Expand s (if totalSize > UHEAP_EXPAND_SIZE then totalSize else UHEAP_EXPAND_SIZE))
                    (\<lambda>(ok, s1). if \<not> ok then Some (0, leave s1)
                       else Option.bind (uheap_Allocate s1 sz priority flags) (\<lambda>(p, s2). Some (p, leave s2)))
             else let (p, s1) = take_best s best sz totalSize priority flags in Some (p, leave s1))))"

partial_function (option) find_place :: "ublocks \<Rightarrow> addr \<Rightarrow> addr \<Rightarrow> addr \<Rightarrow> (addr \<times> addr) option" where
  "find_place m block prev current =
     (if current \<noteq> 0 \<and> current < block then find_place m block current (ub_next (m current))
      else Some (prev, current))"

definition insert_block :: "ublocks \<Rightarrow> addr \<Rightarrow> addr \<Rightarrow> addr \<Rightarrow> addr \<Rightarrow> ublocks \<times> addr" where
  "insert_block m fl block prev current =
     (let m1 = uput m block (\<lambda>b. b\<lparr>ub_next := current, ub_prev := prev\<rparr>);
          (m2, fl2) = (if prev \<noteq> 0 then (uput m1 prev (\<lambda>b. b\<lparr>ub_next := block\<rparr>), fl) else (m1, block))
      in (if current \<noteq> 0 then uput m2 current (\<lambda>b. b\<lparr>ub_prev := block\<rparr>) else m2, fl2))"

text \<open>\<open>merge_block m a b\<close>: the merge of the block at \<open>b\<close> into the one at \<open>a\<close>, when the code takes them for adjacent.\<close>

definition merge_block :: "ublocks \<Rightarrow> addr \<Rightarrow> addr \<Rightarrow> ublocks" where
  "merge_block m a b =
     (if add64 (add64 a UHDR) (ub_size (m a)) = b
      then let m1 = uput m a (\<lambda>x. x\<lparr>ub_size := add32 (ub_size x) (add32 UHDR (ub_size (m b)))\<rparr>);
               m2 = uput m1 a (\<lambda>x. x\<lparr>ub_next := ub_next (m1 b)\<rparr>)
           in if ub_next (m2 b) \<noteq> 0 then uput m2 (ub_next (m2 b)) (\<lambda>x. x\<lparr>ub_prev := a\<rparr>) else m2
      else m)"

definition count_free :: "nat \<Rightarrow> nat \<Rightarrow> uheap \<Rightarrow> uheap" where
  "count_free priority sz s =
     (let used = sub64 (uh_used s) sz; st = uh_stats s
      in s\<lparr>uh_used := used,
           uh_stats := st\<lparr>used_size := used, free_size := sub64 (uh_size s) used,
             free_count := add64 (free_count st) 1,
             high_priority := (if priority \<le> MEM_PRIORITY_HIGH then sub64 (high_priority st) sz else high_priority st)\<rparr>\<rparr>)"

definition uheap_Free :: "uheap \<Rightarrow> addr \<Rightarrow> uheap option" where
  "uheap_Free s0 ptr =
     (if ptr = 0 then Some s0
      else Option.bind (enter s0) (\<lambda>s.
        let block = sub64 ptr UHDR
        in if ub_magic (uh_mem s block) \<noteq> UHEAP_MAGIC then Some (leave s)
           else let s1 = count_free (ub_priority (uh_mem s block)) (ub_size (uh_mem s block)) s
                in Option.bind (find_place (uh_mem s1) block 0 (freeList s1)) (\<lambda>(prev, current).
                     let (m1, fl1) = insert_block (uh_mem s1) (freeList s1) block prev current;
                         m2 = (if current \<noteq> 0 then merge_block m1 block current else m1);
                         m3 = (if prev \<noteq> 0 then merge_block m2 prev block else m2)
                     in Some (leave (s1\<lparr>uh_mem := m3, freeList := fl1\<rparr>)))))"

definition uheap_Realloc :: "uheap \<Rightarrow> addr \<Rightarrow> nat \<Rightarrow> (addr \<times> uheap) option" where
  "uheap_Realloc s ptr new_size =
     (if ptr = 0 then uheap_Allocate s new_size MEM_PRIORITY_NORMAL 0
      else if new_size = 0 then map_option (\<lambda>s1. (0, s1)) (uheap_Free s ptr)
      else
        let block = uh_mem s (sub64 ptr UHDR);
            old_size = sub64 (ub_size block) UHDR
        in if new_size \<le> old_size then Some (ptr, s)
           else Option.bind (uheap_Allocate s new_size (ub_priority block) (ub_flags block)) (\<lambda>(new_ptr, s1).
             if new_ptr = 0 then Some (0, s1)
             else map_option (\<lambda>s2. (new_ptr, s2))
                    (uheap_Free (s1\<lparr>uh_bytes := kmemcpy (uh_bytes s1) new_ptr ptr old_size\<rparr>) ptr)))"

text \<open>\<^verbatim>\<open>SetPriority\<close>, \<^verbatim>\<open>Pin\<close> and \<^verbatim>\<open>Unpin\<close>: one header field of a valid block.\<close>

definition change_block :: "(UHeapBlock \<Rightarrow> UHeapBlock) \<Rightarrow> uheap \<Rightarrow> addr \<Rightarrow> (bool \<times> uheap) option" where
  "change_block f s0 ptr =
     (if ptr = 0 then Some (False, s0)
      else Option.bind (enter s0) (\<lambda>s.
        let block = sub64 ptr UHDR
        in if ub_magic (uh_mem s block) \<noteq> UHEAP_MAGIC then Some (False, leave s)
           else Some (True, leave (s\<lparr>uh_mem := uput (uh_mem s) block f\<rparr>))))"

definition SetPriority :: "uheap \<Rightarrow> addr \<Rightarrow> nat \<Rightarrow> (bool \<times> uheap) option" where
  "SetPriority s ptr priority = change_block (\<lambda>b. b\<lparr>ub_priority := priority\<rparr>) s ptr"

definition Pin :: "uheap \<Rightarrow> addr \<Rightarrow> (bool \<times> uheap) option" where
  "Pin s ptr = change_block (\<lambda>b. b\<lparr>ub_flags := ub_flags b OR UHEAP_PINNED\<rparr>) s ptr"

definition Unpin :: "uheap \<Rightarrow> addr \<Rightarrow> (bool \<times> uheap) option" where
  "Unpin s ptr = change_block (\<lambda>b. b\<lparr>ub_flags := ub_flags b AND NOT UHEAP_PINNED\<rparr>) s ptr"

text \<open>\<^verbatim>\<open>GetBlockInfo\<close> with a non-null \<^verbatim>\<open>info\<close>: \<open>None\<close> for \<^verbatim>\<open>false\<close>.\<close>

definition GetBlockInfo :: "uheap \<Rightarrow> addr \<Rightarrow> UHeapBlock option" where
  "GetBlockInfo s ptr =
     (if ptr = 0 then None
      else let block = uh_mem s (sub64 ptr UHDR)
           in if ub_magic block \<noteq> UHEAP_MAGIC then None else Some block)"

definition GetStats :: "uheap \<Rightarrow> UHeapStats" where
  "GetStats s = uh_stats s"

definition ReclaimMemory :: "uheap \<Rightarrow> nat \<Rightarrow> nat \<Rightarrow> nat" where
  "ReclaimMemory s target max_priority = 0"

definition IsUserAddress :: "uheap \<Rightarrow> addr \<Rightarrow> bool" where
  "IsUserAddress s ptr \<longleftrightarrow> ptr \<ge> uh_base s \<and> ptr < add64 (uh_base s) (uh_size s)"

section \<open>Linked lists of blocks\<close>

text \<open>\<open>dseg m p xs q\<close>: the blocks \<open>xs\<close> are linked in this order, the first one's \<^verbatim>\<open>prev\<close> is \<open>p\<close> and the
  last one's \<^verbatim>\<open>next\<close> is \<open>q\<close>.\<close>

definition head_or :: "addr list \<Rightarrow> addr \<Rightarrow> addr" where
  "head_or xs q = (case xs of [] \<Rightarrow> q | x # _ \<Rightarrow> x)"

definition last_or :: "addr \<Rightarrow> addr list \<Rightarrow> addr" where
  "last_or p xs = (if xs = [] then p else List.last xs)"

lemma head_or_simps [simp]: "head_or [] q = q" "head_or (x # xs) q = x"
  by (simp_all add: head_or_def)

lemma last_or_simps [simp]: "last_or p [] = p" "last_or p (x # xs) = last_or x xs" "last_or p (xs @ [x]) = x"
  by (simp_all add: last_or_def)

lemma head_or_append: "head_or (xs @ ys) q = head_or xs (head_or ys q)"
  by (cases xs) auto

fun dseg :: "ublocks \<Rightarrow> addr \<Rightarrow> addr list \<Rightarrow> addr \<Rightarrow> bool" where
  "dseg m p [] q \<longleftrightarrow> True"
| "dseg m p (x # xs) q \<longleftrightarrow> x \<noteq> 0 \<and> ub_prev (m x) = p \<and> ub_next (m x) = head_or xs q \<and> dseg m x xs q"

lemma dseg_append: "dseg m p (xs @ ys) q \<longleftrightarrow> dseg m p xs (head_or ys q) \<and> dseg m (last_or p xs) ys q"
  by (induction xs arbitrary: p) (auto simp: head_or_append)

lemma dseg_nonzero: "dseg m p xs q \<Longrightarrow> 0 \<notin> set xs"
  by (induction xs arbitrary: p) auto

text \<open>The links of a list depend on the links of its blocks only.\<close>

lemma dseg_cong:
  assumes "\<And>x. x \<in> set xs \<Longrightarrow> ub_next (m' x) = ub_next (m x) \<and> ub_prev (m' x) = ub_prev (m x)"
  shows "dseg m' p xs q = dseg m p xs q"
  using assms by (induction xs arbitrary: p) auto

lemma dseg_set_next:
  assumes "dseg m p xs q" and "distinct xs" and "xs \<noteq> []"
  shows "dseg (uput m (last_or p xs) (\<lambda>b. b\<lparr>ub_next := r\<rparr>)) p xs r"
  using assms
proof (induction xs arbitrary: p)
  case (Cons x xs)
  then show ?case by (cases xs) (auto simp: uput_def last_or_def)
qed simp

lemma dseg_set_prev:
  assumes "dseg m p xs q" and "distinct xs" and "xs \<noteq> []"
  shows "dseg (uput m (head_or xs q) (\<lambda>b. b\<lparr>ub_prev := r\<rparr>)) r xs q"
proof (cases xs)
  case (Cons x ys)
  with assms have "dseg (uput m x (\<lambda>b. b\<lparr>ub_prev := r\<rparr>)) x ys q"
    by (subst dseg_cong [of _ _ m]) (auto simp: uput_def)
  with Cons assms show ?thesis by (simp add: uput_def)
qed (use assms in simp)

lemma dseg_uput_other:
  assumes "a \<notin> set xs"
  shows "dseg (uput m a f) p xs q = dseg m p xs q"
  by (rule dseg_cong) (use assms in \<open>auto simp: uput_def\<close>)

text \<open>Setting both ends of a gap: \<open>xs\<close> ends in \<open>r\<close>, \<open>ys\<close> starts after \<open>s\<close>.\<close>

definition relink :: "ublocks \<Rightarrow> addr \<Rightarrow> addr \<Rightarrow> addr \<Rightarrow> addr \<Rightarrow> ublocks" where
  "relink m p r q s =
     (let m1 = (if p \<noteq> 0 then uput m p (\<lambda>b. b\<lparr>ub_next := r\<rparr>) else m)
      in if q \<noteq> 0 then uput m1 q (\<lambda>b. b\<lparr>ub_prev := s\<rparr>) else m1)"

lemma relink_ends:
  assumes xs: "dseg m 0 xs q0" and ys: "dseg m p0 ys 0" and d: "distinct (xs @ ys)"
    and m': "m' = relink m (last_or 0 xs) r (head_or ys 0) s"
  shows "dseg m' 0 xs r" and "dseg m' s ys 0"
proof -
  note nz = dseg_nonzero [OF xs] dseg_nonzero [OF ys]
  let ?m1 = "if last_or 0 xs \<noteq> 0 then uput m (last_or 0 xs) (\<lambda>b. b\<lparr>ub_next := r\<rparr>) else m"
  have 1: "dseg ?m1 0 xs r"
  proof (cases "xs = []")
    case False
    then have "last_or 0 xs \<noteq> 0" using nz(1) by (metis last_in_set last_or_def)
    then show ?thesis using dseg_set_next [OF xs _ False] d by simp
  qed simp
  have 2: "dseg ?m1 p0 ys 0"
  proof (cases "xs = []")
    case False
    then have "last_or 0 xs \<notin> set ys"
      using d by (metis disjoint_iff distinct_append last_in_set last_or_def)
    then show ?thesis using ys by (simp add: dseg_uput_other)
  qed (use ys in simp)
  show "dseg m' 0 xs r" "dseg m' s ys 0"
  proof -
    show "dseg m' s ys 0"
    proof (cases ys)
      case (Cons y zs)
      then have "head_or ys 0 \<noteq> 0" using nz(2) by auto
      then show ?thesis using dseg_set_prev [OF 2, of s] d Cons by (simp add: m' relink_def Let_def)
    qed simp
    show "dseg m' 0 xs r"
    proof (cases ys)
      case Nil
      then show ?thesis using 1 by (simp add: m' relink_def Let_def)
    next
      case (Cons y zs)
      then have "y \<notin> set xs" using d by auto
      then show ?thesis using 1 Cons by (simp add: m' relink_def Let_def dseg_uput_other)
    qed
  qed
qed

lemma relink_size [simp]:
  "ub_size (relink m p r q s a) = ub_size (m a)" "ub_magic (relink m p r q s a) = ub_magic (m a)"
  by (auto simp: relink_def uput_def Let_def)

lemma relink_other: "a \<noteq> p \<Longrightarrow> a \<noteq> q \<Longrightarrow> relink m p r q s a = m a"
  by (auto simp: relink_def uput_def Let_def)

text \<open>The three list operations of the code in these terms.\<close>

lemma unlink_is_relink:
  assumes "ub_prev (m b) \<noteq> b"
  shows "unlink_block m fl b =
    (let m2 = relink m (ub_prev (m b)) (ub_next (m b)) (ub_next (m b)) (ub_prev (m b))
     in (m2, if fl = b then ub_next (m2 b) else fl))"
proof -
  have "(if ub_prev (m b) \<noteq> 0 then uput m (ub_prev (m b)) (\<lambda>x. x\<lparr>ub_next := ub_next (m b)\<rparr>) else m) b = m b"
    using assms by (auto simp: uput_def)
  then show ?thesis unfolding unlink_block_def relink_def Let_def by (simp only:)
qed

lemma unlink_block_correct:
  assumes l: "dseg m 0 (xs @ b # ys) 0" and d: "distinct (xs @ b # ys)"
    and u: "unlink_block m (head_or (xs @ b # ys) 0) b = (m', fl')"
  shows "dseg m' 0 (xs @ ys) 0" and "fl' = head_or (xs @ ys) 0"
    and "\<And>a. ub_size (m' a) = ub_size (m a)" and "\<And>a. ub_magic (m' a) = ub_magic (m a)"
proof -
  from l have xs: "dseg m 0 xs b" and b: "b \<noteq> 0" "ub_prev (m b) = last_or 0 xs" "ub_next (m b) = head_or ys 0"
    and ys: "dseg m b ys 0" by (auto simp: dseg_append)
  have nb: "last_or 0 xs \<noteq> b" "head_or ys 0 \<noteq> b" using d b(1) by (auto simp: last_or_def head_or_def split: list.splits)
  let ?m = "relink m (last_or 0 xs) (head_or ys 0) (head_or ys 0) (last_or 0 xs)"
  have uu: "unlink_block m fl b = (?m, if fl = b then ub_next (?m b) else fl)" for fl
    using unlink_is_relink [of m b fl] nb(1) b(2,3) by (simp add: Let_def)
  then have m': "m' = ?m" using u by simp
  from relink_ends [OF xs ys _ m'] d show "dseg m' 0 (xs @ ys) 0" by (simp add: dseg_append)
  show "ub_size (m' a) = ub_size (m a)" "ub_magic (m' a) = ub_magic (m a)" for a by (simp_all add: m')
  have "m' b = m b" using nb by (simp add: m' relink_other)
  then have "ub_next (m' b) = head_or ys 0" using b by simp
  moreover have "head_or (xs @ b # ys) 0 = b \<longleftrightarrow> xs = []" using d by (cases xs) auto
  moreover have "fl' = (if head_or (xs @ b # ys) 0 = b then ub_next (m' b) else head_or (xs @ b # ys) 0)"
    using u uu m' by (auto split: if_splits)
  ultimately show "fl' = head_or (xs @ ys) 0" by (cases xs) auto
qed

text \<open>Linking a block \<open>b\<close> whose links already point to its neighbours.\<close>

lemma relink_insert:
  assumes xs: "dseg m 0 xs q0" and ys: "dseg m p0 ys 0" and d: "distinct (xs @ b # ys)"
    and b: "b \<noteq> 0" "ub_prev (m b) = last_or 0 xs" "ub_next (m b) = head_or ys 0"
    and m': "m' = relink m (last_or 0 xs) b (head_or ys 0) b"
  shows "dseg m' 0 (xs @ b # ys) 0" and "m' b = m b"
proof -
  have "last_or 0 xs \<noteq> b" "head_or ys 0 \<noteq> b"
    using d b(1) by (auto simp: last_or_def head_or_def split: list.splits)
  then show mb: "m' b = m b" by (simp add: m' relink_other)
  from relink_ends [OF xs ys _ m'] d mb b show "dseg m' 0 (xs @ b # ys) 0" by (simp add: dseg_append)
qed

lemma insert_block_correct:
  assumes l: "dseg m 0 (xs @ ys) 0" and d: "distinct (xs @ b # ys)" and b: "b \<noteq> 0"
    and i: "insert_block m (head_or (xs @ ys) 0) b (last_or 0 xs) (head_or ys 0) = (m', fl')"
  shows "dseg m' 0 (xs @ b # ys) 0" and "fl' = head_or (xs @ b # ys) 0"
    and "\<And>a. ub_size (m' a) = ub_size (m a)" and "\<And>a. ub_magic (m' a) = ub_magic (m a)"
proof -
  let ?m1 = "uput m b (\<lambda>x. x\<lparr>ub_next := head_or ys 0, ub_prev := last_or 0 xs\<rparr>)"
  have m': "m' = relink ?m1 (last_or 0 xs) b (head_or ys 0) b"
    and fl: "fl' = (if last_or 0 xs \<noteq> 0 then head_or (xs @ ys) 0 else b)"
    using i by (auto simp: insert_block_def relink_def Let_def split: if_splits)
  from l d have xs: "dseg ?m1 0 xs (head_or ys 0)" and ys: "dseg ?m1 (last_or 0 xs) ys 0"
    by (auto simp: dseg_append dseg_uput_other)
  show "dseg m' 0 (xs @ b # ys) 0"
    by (rule relink_insert(1) [OF xs ys d b _ _ m']) (simp_all add: uput_def)
  show "ub_size (m' a) = ub_size (m a)" "ub_magic (m' a) = ub_magic (m a)" for a
    by (simp_all add: m' uput_def)
  have "0 \<notin> set xs" using dseg_nonzero [OF xs] .
  then have "last_or 0 xs \<noteq> 0 \<longleftrightarrow> xs \<noteq> []" by (metis last_in_set last_or_def)
  then show "fl' = head_or (xs @ b # ys) 0" using fl by (cases xs) auto
qed

lemma push_block_correct:
  assumes l: "dseg m 0 fl 0" and d: "distinct (b # fl)" and b: "b \<noteq> 0"
    and m': "m' = push_block m (head_or fl 0) b n"
  shows "dseg m' 0 (b # fl) 0" and "ub_size (m' b) = n mod u32_limit" and "ub_magic (m' b) = UHEAP_MAGIC"
    and "\<And>a. a \<noteq> b \<Longrightarrow> ub_size (m' a) = ub_size (m a)" and "\<And>a. a \<noteq> b \<Longrightarrow> ub_magic (m' a) = ub_magic (m a)"
proof -
  let ?m1 = "uput m b (\<lambda>x. x\<lparr>ub_magic := UHEAP_MAGIC, ub_size := n mod u32_limit, ub_priority := MEM_PRIORITY_LOW,
                 ub_flags := 0, ub_next := head_or fl 0, ub_prev := 0\<rparr>)"
  have e: "m' = relink ?m1 (last_or 0 []) b (head_or fl 0) b"
    by (simp add: m' push_block_def relink_def Let_def)
  have ys: "dseg ?m1 0 fl 0" using l d by (simp add: dseg_uput_other)
  have "dseg m' 0 ([] @ b # fl) 0"
    by (rule relink_insert(1) [OF _ ys _ b _ _ e]) (use d in \<open>simp_all add: uput_def\<close>)
  then show "dseg m' 0 (b # fl) 0" by simp
  show "ub_size (m' b) = n mod u32_limit" "ub_magic (m' b) = UHEAP_MAGIC" by (simp_all add: e uput_def)
  show "ub_size (m' a) = ub_size (m a)" "ub_magic (m' a) = ub_magic (m a)" if "a \<noteq> b" for a
    using that by (simp_all add: e uput_def)
qed

section \<open>The search loops\<close>

lemma find_best_spec:
  assumes "dseg m p xs 0" and "best = 0 \<or> ub_size (m best) \<ge> k"
  shows "\<exists>b. find_best m k (head_or xs 0) best = Some b \<and> (b = best \<or> b \<in> set xs) \<and>
     (b \<noteq> 0 \<longrightarrow> ub_size (m b) \<ge> k \<and> (\<forall>x \<in> set xs. ub_size (m x) \<ge> k \<longrightarrow> ub_size (m b) \<le> ub_size (m x)) \<and>
        (best \<noteq> 0 \<longrightarrow> ub_size (m b) \<le> ub_size (m best))) \<and>
     (b = 0 \<longrightarrow> best = 0 \<and> (\<forall>x \<in> set xs. ub_size (m x) < k))"
  using assms
proof (induction xs arbitrary: p best)
  case Nil
  then show ?case by (auto simp: find_best.simps)
next
  case (Cons x xs)
  from Cons.prems(1) have x: "x \<noteq> 0" "ub_next (m x) = head_or xs 0" and l: "dseg m x xs 0" by auto
  let ?better = "ub_size (m x) \<ge> k \<and> (best = 0 \<or> ub_size (m x) < ub_size (m best))"
  consider "?better" "ub_size (m x) = k" | "?better" "ub_size (m x) \<noteq> k" | "\<not> ?better" by blast
  then show ?case
  proof cases
    case 1
    then show ?thesis using x Cons.prems(2) by (auto simp: find_best.simps [of m k x best])
  next
    case 2
    then have "find_best m k x best = find_best m k (head_or xs 0) x"
      using x by (simp add: find_best.simps [of m k x best])
    with Cons.IH [OF l, of x] 2 x(1) show ?thesis by fastforce
  next
    case 3
    then have "find_best m k x best = find_best m k (head_or xs 0) best"
      using x by (auto simp add: find_best.simps [of m k x best])
    with Cons.IH [OF l Cons.prems(2)] 3 Cons.prems(2) show ?thesis by fastforce
  qed
qed

lemma find_place_spec:
  assumes "dseg m p xs 0"
  shows "find_place m b p (head_or xs 0) =
    Some (last_or p (takeWhile (\<lambda>x. x < b) xs), head_or (dropWhile (\<lambda>x. x < b) xs) 0)"
  using assms
proof (induction xs arbitrary: p)
  case Nil
  then show ?case by (simp add: find_place.simps)
next
  case (Cons x xs)
  then show ?case by (auto simp: find_place.simps [of m b p x])
qed

section \<open>The invariant: blocks that tile the heap\<close>

fun utiles :: "ublocks \<Rightarrow> addr \<Rightarrow> addr \<Rightarrow> addr list \<Rightarrow> bool" where
  "utiles m a e [] \<longleftrightarrow> a = e"
| "utiles m a e (t # ts) \<longleftrightarrow> t = a \<and> 48 \<le> ub_size (m t) \<and> 16 dvd ub_size (m t) \<and> ub_magic (m t) = UHEAP_MAGIC \<and>
     utiles m (a + ub_size (m t)) e ts"

lemma utiles_append: "utiles m a e (xs @ ys) \<longleftrightarrow> (\<exists>c. utiles m a c xs \<and> utiles m c e ys)"
  by (induction xs arbitrary: a) auto

lemma utiles_cong:
  assumes "\<And>t. t \<in> set ts \<Longrightarrow> ub_size (m' t) = ub_size (m t) \<and> ub_magic (m' t) = ub_magic (m t)"
  shows "utiles m' a e ts = utiles m a e ts"
  using assms by (induction ts arbitrary: a) auto

lemma utiles_bounds:
  "utiles m a e ts \<Longrightarrow> a \<le> e \<and> (\<forall>t \<in> set ts. a \<le> t \<and> t + ub_size (m t) \<le> e \<and> 48 \<le> ub_size (m t) \<and>
     16 dvd ub_size (m t) \<and> ub_magic (m t) = UHEAP_MAGIC)"
  by (induction ts arbitrary: a) force+

lemma utiles_distinct: "utiles m a e ts \<Longrightarrow> distinct ts"
proof (induction ts arbitrary: a)
  case (Cons t ts)
  then have "\<forall>u \<in> set ts. t + ub_size (m t) \<le> u" "0 < ub_size (m t)"
    using utiles_bounds [of m "a + ub_size (m t)" e ts] by auto
  with Cons show ?case by auto
qed simp

text \<open>Between the end of a block and a later block there is nothing, or room for at least one block.\<close>

lemma utiles_gap:
  "utiles m a e ts \<Longrightarrow> t \<in> set ts \<Longrightarrow> u \<in> set ts \<Longrightarrow> t < u \<Longrightarrow>
   t + ub_size (m t) = u \<or> t + ub_size (m t) + 48 \<le> u"
proof (induction ts arbitrary: a)
  case (Cons x ts)
  then have x: "x = a" and r: "utiles m (a + ub_size (m x)) e ts" by auto
  note b = utiles_bounds [OF r]
  show ?case
  proof (cases "t = x")
    case True
    then have u: "u \<in> set ts" using Cons.prems by auto
    then show ?thesis
    proof (cases ts)
      case (Cons y ys)
      with r have y: "y = a + ub_size (m x)" "48 \<le> ub_size (m y)" "utiles m (y + ub_size (m y)) e ys" by auto
      from utiles_bounds [OF y(3)] u Cons have "u = y \<or> y + ub_size (m y) \<le> u" by auto
      then show ?thesis using y True x by auto
    qed simp
  next
    case False
    then have "t \<in> set ts" using Cons.prems by simp
    moreover have "u \<noteq> x" using Cons.prems(4) b \<open>t \<in> set ts\<close> x by auto
    ultimately show ?thesis using Cons.IH [OF r] Cons.prems by auto
  qed
qed simp

lemma utiles_sum: "utiles m a e ts \<Longrightarrow> a + (\<Sum>t \<in> set ts. ub_size (m t)) = e"
proof (induction ts arbitrary: a)
  case (Cons t ts)
  then have "t \<notin> set ts" using utiles_distinct by fastforce
  with Cons show ?case by (auto simp: add.assoc [symmetric])
qed simp

text \<open>Cutting the block \<open>t\<close> at \<open>k\<close>.\<close>

lemma utiles_cut:
  assumes t: "utiles m a e (xs @ t # ys)" and k: "48 \<le> k" "16 dvd k" "k + 48 \<le> ub_size (m t)"
    and m': "ub_size (m' t) = k" "ub_size (m' (t + k)) = ub_size (m t) - k"
      "ub_magic (m' t) = UHEAP_MAGIC" "ub_magic (m' (t + k)) = UHEAP_MAGIC"
      "\<And>u. u \<in> set xs \<union> set ys \<Longrightarrow> ub_size (m' u) = ub_size (m u) \<and> ub_magic (m' u) = ub_magic (m u)"
  shows "utiles m' a e (xs @ t # (t + k) # ys)"
proof -
  from t have xs: "utiles m a t xs" and ys: "utiles m (t + ub_size (m t)) e ys" and d: "16 dvd ub_size (m t)"
    by (auto simp: utiles_append)
  have "utiles m' a t xs" using xs m'(5) utiles_cong [of xs m' m] by simp
  moreover have "utiles m' (t + ub_size (m t)) e ys" using ys m'(5) utiles_cong [of ys m' m] by simp
  moreover have "16 dvd ub_size (m t) - k" using d k(2) by (rule dvd_diff_nat)
  ultimately show ?thesis using k m'(1-4) by (auto simp: utiles_append)
qed

definition uheap_ok :: "uheap \<Rightarrow> addr list \<Rightarrow> addr list \<Rightarrow> bool" where
  "uheap_ok s ts fl \<longleftrightarrow>
     utiles (uh_mem s) (uh_base s) (uh_base s + uh_size s) ts \<and> dseg (uh_mem s) 0 fl 0 \<and>
     freeList s = head_or fl 0 \<and> distinct fl \<and> set fl \<subseteq> set ts \<and> 0 < uh_base s \<and> 16 dvd uh_base s \<and>
     uh_base s + uh_size s + 64 < u64_limit \<and> uh_size s < u32_limit \<and>
     uh_used s = (\<Sum>t \<in> set ts - set fl. ub_size (uh_mem s t))"

lemma uheap_okD:
  assumes "uheap_ok s ts fl"
  shows "utiles (uh_mem s) (uh_base s) (uh_base s + uh_size s) ts" and "dseg (uh_mem s) 0 fl 0"
    and "freeList s = head_or fl 0" and "distinct fl" and "set fl \<subseteq> set ts" and "0 < uh_base s"
    and "uh_base s + uh_size s + 64 < u64_limit" and "uh_size s < u32_limit"
    and "uh_used s = (\<Sum>t \<in> set ts - set fl. ub_size (uh_mem s t))" and "16 dvd uh_base s"
  using assms by (simp_all add: uheap_ok_def)

lemma uheap_ok_tile:
  assumes "uheap_ok s ts fl" and "t \<in> set ts"
  shows "uh_base s \<le> t" and "t + ub_size (uh_mem s t) \<le> uh_base s + uh_size s" and "48 \<le> ub_size (uh_mem s t)"
    and "16 dvd ub_size (uh_mem s t)" and "ub_magic (uh_mem s t) = UHEAP_MAGIC" and "t \<noteq> 0"
    and "t + 64 < u64_limit" and "ub_size (uh_mem s t) < u32_limit"
  using utiles_bounds [OF uheap_okD(1) [OF assms(1)]] assms(2) uheap_okD(6-8) [OF assms(1)]
  by (auto intro: le_less_trans)

text \<open>The lock, the statistics, the bytes and the allocators below play no part in it.\<close>

lemma uheap_ok_cong:
  assumes "uh_mem s' = uh_mem s" "uh_base s' = uh_base s" "uh_size s' = uh_size s" "uh_used s' = uh_used s"
    "freeList s' = freeList s"
  shows "uheap_ok s' ts fl = uheap_ok s ts fl"
  using assms by (simp add: uheap_ok_def)

section \<open>Allocation\<close>

lemma split_block_ok:
  assumes l: "dseg m 0 fl 0" and d: "distinct (b # fl)" and t: "utiles m a e ts" and b: "b \<in> set ts"
    and sub: "set fl \<subseteq> set ts" and a: "0 < a" and e: "e + 64 < u64_limit" and sz: "ub_size (m b) < u32_limit"
    and k: "48 \<le> k" "16 dvd k" "k \<le> ub_size (m b)" and s: "split_block m (head_or fl 0) b k = (m', f')"
  shows "\<exists>ts' fl'. dseg m' 0 fl' 0 \<and> f' = head_or fl' 0 \<and> distinct (b # fl') \<and> utiles m' a e ts' \<and>
    set fl' \<subseteq> set ts' \<and> set ts' - set fl' = set ts - set fl \<and> k \<le> ub_size (m' b) \<and>
    (\<forall>u \<in> set ts. u \<noteq> b \<longrightarrow> ub_size (m' u) = ub_size (m u))"
proof -
  note bb = bspec [OF conjunct2 [OF utiles_bounds [OF t]] b]
  have w: "add64 (add64 k UHDR) 32 = k + 64" using k(3) sz by (simp add: add64_eq)
  show ?thesis
  proof (cases "ub_size (m b) > k + 64")
    case False
    then have "m' = m" "f' = head_or fl 0" using s w by (auto simp: split_block_def)
    then show ?thesis using l d t sub k by (intro exI [of _ ts] exI [of _ fl]) auto
  next
    case True
    let ?r = "b + k" and ?n = "ub_size (m b) - k"
    have r: "add64 b k = ?r" using bb e k(3) by (simp add: add64_eq)
    have n: "sub64 (ub_size (m b)) k = ?n" using k(3) sz by (simp add: sub64_eq)
    let ?m1 = "push_block m (head_or fl 0) ?r ?n"
    have m': "m' = uput ?m1 b (\<lambda>x. x\<lparr>ub_size := k mod u32_limit\<rparr>)" and f': "f' = ?r"
      using s w True r n by (auto simp: split_block_def Let_def)
    have new: "?r \<notin> set ts"
    proof
      assume "?r \<in> set ts"
      moreover have "b < ?r" using k(1) by simp
      ultimately show False using utiles_gap [OF t b, of ?r] True by linarith
    qed
    then have d1: "distinct (?r # fl)" using d sub by auto
    have rz: "?r \<noteq> 0" using k by simp
    note p = push_block_correct [OF l d1 rz refl, where n = ?n]
    have rb: "?r \<noteq> b" using k by simp
    have 1: "dseg m' 0 (?r # fl) 0" using p(1) d rb k by (simp only: m') (subst dseg_uput_other; auto)
    obtain us vs where ts: "ts = us @ b # vs" using b by (meson split_list)
    have db: "b \<notin> set us \<union> set vs" using utiles_distinct [OF t] ts by auto
    have same: "ub_size (m' u) = ub_size (m u) \<and> ub_magic (m' u) = ub_magic (m u)" if "u \<in> set ts" "u \<noteq> b" for u
    proof -
      have "u \<noteq> ?r" using that new by auto
      then show ?thesis using p(4,5) that k by (simp add: m' uput_def)
    qed
    have kk: "k mod u32_limit = k" "?n mod u32_limit = ?n" using k(3) sz by simp_all
    have sizes: "ub_size (m' b) = k" "ub_size (m' ?r) = ?n" "ub_magic (m' b) = UHEAP_MAGIC" "ub_magic (m' ?r) = UHEAP_MAGIC"
      using p(2,3) p(5) [OF rb [symmetric]] bb kk rb by (simp_all add: m' uput_def)
    have "utiles m' a e (us @ b # ?r # vs)"
    proof (rule utiles_cut [where m = m and m' = m'])
      show "utiles m a e (us @ b # vs)" using t ts by simp
      show "48 \<le> k" "16 dvd k" "ub_size (m' b) = k" "ub_size (m' ?r) = ?n"
        "ub_magic (m' b) = UHEAP_MAGIC" "ub_magic (m' ?r) = UHEAP_MAGIC" using k sizes by simp_all
      show "k + 48 \<le> ub_size (m b)" using True by simp
      show "ub_size (m' u) = ub_size (m u) \<and> ub_magic (m' u) = ub_magic (m u)" if "u \<in> set us \<union> set vs" for u
        using same [of u] that ts db by auto
    qed
    moreover have "set (us @ b # ?r # vs) - set (?r # fl) = set ts - set fl" using ts new by auto
    moreover have "f' = head_or (?r # fl) 0" "distinct (b # ?r # fl)" "k \<le> ub_size (m' b)"
      using f' d d1 rb sizes(1) by auto
    moreover have "set (?r # fl) \<subseteq> set (us @ b # ?r # vs)" using sub ts by auto
    ultimately show ?thesis using 1 same by blast
  qed
qed

lemma count_alloc_fields [simp]:
  "uh_mem (count_alloc pr n s) = uh_mem s" "freeList (count_alloc pr n s) = freeList s"
  "uh_base (count_alloc pr n s) = uh_base s" "uh_size (count_alloc pr n s) = uh_size s"
  "uh_lock (count_alloc pr n s) = uh_lock s" "uh_used (count_alloc pr n s) = add64 (uh_used s) n"
  by (simp_all add: count_alloc_def Let_def)

lemma take_best_fields:
  assumes tb: "take_best s b sz k priority flags = (p, s')"
    and u: "unlink_block (uh_mem s) (freeList s) b = (m1, f1)" and sp: "split_block m1 f1 b k = (m2, f2)"
  shows "uh_mem s' = uput m2 b (\<lambda>b. b\<lparr>ub_magic := UHEAP_MAGIC, ub_priority := priority, ub_flags := flags,
                       ub_next := 0, ub_prev := 0\<rparr>) \<and>
     freeList s' = f2 \<and> uh_base s' = uh_base s \<and> uh_size s' = uh_size s \<and> uh_lock s' = uh_lock s \<and>
     uh_used s' = add64 (uh_used s) (ub_size (m2 b)) \<and> p = add64 b UHDR"
  using tb unfolding take_best_def u sp Let_def prod.case
  by (cases "flags AND UHEAP_ZEROED = 0") (auto simp: uput_def)

lemma take_best_ok:
  assumes ok: "uheap_ok s ts (xs @ b # ys)" and k: "48 \<le> k" "16 dvd k" "k \<le> ub_size (uh_mem s b)"
    and tb: "take_best s b sz k priority flags = (p, s')"
  shows "p = b + UHDR \<and> uh_lock s' = uh_lock s \<and> (\<exists>ts' fl'. uheap_ok s' ts' fl' \<and>
     set ts' - set fl' = insert b (set ts - set (xs @ b # ys)) \<and> k \<le> ub_size (uh_mem s' b) \<and>
     (\<forall>u \<in> set ts - set (xs @ b # ys). ub_size (uh_mem s' u) = ub_size (uh_mem s u)))"
proof -
  let ?fl = "xs @ b # ys" and ?m = "uh_mem s" and ?e = "uh_base s + uh_size s"
  note D = uheap_okD [OF ok]
  have b: "b \<in> set ts" using D(5) by auto
  note T = uheap_ok_tile [OF ok b]
  obtain m1 f1 where u: "unlink_block ?m (freeList s) b = (m1, f1)" by (rule prod.exhaust)
  note U = unlink_block_correct [OF D(2,4) u [unfolded D(3)]]
  obtain m2 f2 where sp: "split_block m1 f1 b k = (m2, f2)" by (rule prod.exhaust)
  have t1: "utiles m1 (uh_base s) ?e ts" using D(1) U(3,4) utiles_cong [of ts m1 ?m] by simp
  have "\<exists>ts' fl'. dseg m2 0 fl' 0 \<and> f2 = head_or fl' 0 \<and> distinct (b # fl') \<and> utiles m2 (uh_base s) ?e ts' \<and>
    set fl' \<subseteq> set ts' \<and> set ts' - set fl' = set ts - set (xs @ ys) \<and> k \<le> ub_size (m2 b) \<and>
    (\<forall>u \<in> set ts. u \<noteq> b \<longrightarrow> ub_size (m2 u) = ub_size (m1 u))"
  proof (rule split_block_ok [OF U(1) _ t1 b _ D(6,7) _ k(1,2)])
    show "distinct (b # xs @ ys)" "set (xs @ ys) \<subseteq> set ts" using D(4,5) by auto
    show "ub_size (m1 b) < u32_limit" "k \<le> ub_size (m1 b)" using U(3) T(8) k(3) by simp_all
    show "split_block m1 (head_or (xs @ ys) 0) b k = (m2, f2)" using sp U(2) by simp
  qed
  then obtain ts' fl' where l: "dseg m2 0 fl' 0" "f2 = head_or fl' 0" "distinct (b # fl')"
    and t2: "utiles m2 (uh_base s) ?e ts'" "set fl' \<subseteq> set ts'"
    and S: "set ts' - set fl' = set ts - set (xs @ ys)" and kb: "k \<le> ub_size (m2 b)"
    and same: "\<And>u. u \<in> set ts \<Longrightarrow> u \<noteq> b \<Longrightarrow> ub_size (m2 u) = ub_size (?m u)" using U(3) by auto
  let ?m3 = "uput m2 b (\<lambda>b. b\<lparr>ub_magic := UHEAP_MAGIC, ub_priority := priority, ub_flags := flags, ub_next := 0, ub_prev := 0\<rparr>)"
  have S': "set ts' - set fl' = insert b (set ts - set ?fl)" using S b D(4) by auto
  have b': "b \<in> set ts'" using S' by blast
  note B2 = conjunct2 [OF utiles_bounds [OF t2(1)]]
  have m3: "ub_size (?m3 u) = ub_size (m2 u)" for u by (simp add: uput_def)
  have t3: "utiles ?m3 (uh_base s) ?e ts'"
    using t2(1) B2 b' by (subst utiles_cong [of ts' _ m2]) (auto simp: uput_def)
  have l3: "dseg ?m3 0 fl' 0" using l(1,3) by (subst dseg_uput_other) auto
  have s': "uh_mem s' = ?m3 \<and> freeList s' = f2 \<and> uh_base s' = uh_base s \<and> uh_size s' = uh_size s \<and>
      uh_lock s' = uh_lock s \<and> uh_used s' = add64 (uh_used s) (ub_size (m2 b)) \<and> p = add64 b UHDR"
    using take_best_fields [OF tb u sp] .
  let ?L = "set ts - set ?fl"
  have "finite ?L" "b \<notin> ?L" by auto
  have sum: "(\<Sum>t \<in> insert b ?L. ub_size (m2 t)) = ub_size (m2 b) + uh_used s"
    using D(9) same by (simp add: sum.insert)
  have "(\<Sum>t \<in> insert b ?L. ub_size (m2 t)) \<le> (\<Sum>t \<in> set ts'. ub_size (m2 t))"
    by (rule sum_mono2) (use S' in auto)
  then have "ub_size (m2 b) + uh_used s \<le> uh_size s" using utiles_sum [OF t2(1)] sum by linarith
  then have used: "uh_used s' = (\<Sum>t \<in> set ts' - set fl'. ub_size (?m3 t))"
    using s' sum S' m3 D(8) by (simp add: add64_eq add.commute)
  have "uheap_ok s' ts' fl'"
    unfolding uheap_ok_def using s' t3 l3 l(2,3) t2(2) D(6-8,10) used by simp
  moreover have "p = b + UHDR" "uh_lock s' = uh_lock s" using s' T(7) by (simp_all add: add64_eq)
  moreover have "k \<le> ub_size (uh_mem s' b)" using s' kb m3 by simp
  moreover have "ub_size (uh_mem s' u) = ub_size (uh_mem s u)" if "u \<in> ?L" for u
    using s' m3 same [of u] that by auto
  ultimately show ?thesis using S' by blast
qed

end
