(* ===== verification/User_Heap_Safety.thy ===== *)
theory User_Heap_Safety
  imports User_Heap
begin

text \<open>
  What the user heap promises: it interprets the heap contract, so that blocks handed out never overlap;
  and what it does not do: a released block is never merged with its neighbours, and a request that no free
  block can serve never returns, because \<^verbatim>\<open>Expand\<close> takes the lock its caller holds.
\<close>

section \<open>Live blocks\<close>

text \<open>The blocks in address order and the free list, walked from the headers.\<close>

partial_function (option) walk_tiles :: "ublocks \<Rightarrow> addr \<Rightarrow> addr \<Rightarrow> addr list option" where
  "walk_tiles m e a =
     (if a \<ge> e then Some [] else Option.bind (walk_tiles m e (a + ub_size (m a))) (\<lambda>ts. Some (a # ts)))"

partial_function (option) walk_free :: "ublocks \<Rightarrow> addr \<Rightarrow> addr list option" where
  "walk_free m a = (if a = 0 then Some [] else Option.bind (walk_free m (ub_next (m a))) (\<lambda>fl. Some (a # fl)))"

definition used_blocks :: "uheap \<Rightarrow> addr set" where
  "used_blocks s =
     (case (walk_tiles (uh_mem s) (uh_base s + uh_size s) (uh_base s), walk_free (uh_mem s) (freeList s)) of
        (Some ts, Some fl) \<Rightarrow> set ts - set fl
      | _ \<Rightarrow> {})"

text \<open>A block the caller owns: the pointer past the header, and the bytes up to the next block.\<close>

definition uheap_live :: "uheap \<Rightarrow> (addr \<times> nat) set" where
  "uheap_live s = (\<lambda>t. (t + UHDR, ub_size (uh_mem s t) - UHDR)) ` used_blocks s"

lemma walk_tiles_utiles: "utiles m a e ts \<Longrightarrow> walk_tiles m e a = Some ts"
proof (induction ts arbitrary: a)
  case Nil
  then show ?case by (subst walk_tiles.simps) simp
next
  case (Cons t ts)
  have "t = a" "0 < ub_size (m t)" and rest: "utiles m (a + ub_size (m t)) e ts" using Cons.prems by auto
  moreover have "a + ub_size (m t) \<le> e" using utiles_bounds [OF rest] by blast
  ultimately show ?case using Cons.IH [OF rest] by (subst walk_tiles.simps) simp
qed

lemma walk_free_dseg: "dseg m p fl 0 \<Longrightarrow> walk_free m (head_or fl 0) = Some fl"
proof (induction fl arbitrary: p)
  case Nil
  then show ?case by (subst walk_free.simps) simp
next
  case (Cons x fl)
  then show ?case by (subst walk_free.simps) auto
qed

lemma used_blocks_ok: "uheap_ok s ts fl \<Longrightarrow> used_blocks s = set ts - set fl"
  using walk_tiles_utiles [OF uheap_okD(1)] walk_free_dseg [OF uheap_okD(2)] uheap_okD(3)
  by (simp add: used_blocks_def)

definition uheap_inv :: "uheap \<Rightarrow> bool" where
  "uheap_inv s \<longleftrightarrow> locked (uh_lock s) = 0 \<and> (\<exists>ts fl. uheap_ok s ts fl)"

lemma uheap_invE:
  assumes "uheap_inv s"
  obtains ts fl where "uheap_ok s ts fl" and "used_blocks s = set ts - set fl" and "locked (uh_lock s) = 0"
  using assms used_blocks_ok unfolding uheap_inv_def by blast

lemma uheap_ok_lock: "uheap_ok (s\<lparr>uh_lock := l\<rparr>) ts fl = uheap_ok s ts fl"
  by (rule uheap_ok_cong) simp_all

lemma enter_free: "locked (uh_lock s) = 0 \<Longrightarrow> enter s = Some (s\<lparr>uh_lock := (uh_lock s)\<lparr>locked := 1\<rparr>\<rparr>)"
  by (simp add: enter_def spin_defs)

lemma enter_taken: "locked (uh_lock s) \<noteq> 0 \<Longrightarrow> enter s = None"
  by (simp add: enter_def spin_defs)

lemma leave_lock: "locked (uh_lock (leave s)) = 0"
  by (simp add: leave_def spin_defs)

lemma uheap_live_disjoint:
  assumes ok: "uheap_ok s ts fl"
  shows "pairwise_disjoint (uheap_live s)"
proof -
  note t = uheap_okD(1) [OF ok]
  have "\<not> overlap (x + UHDR, ub_size (uh_mem s x) - UHDR) (y + UHDR, ub_size (uh_mem s y) - UHDR)"
    if x: "x \<in> set ts" and y: "y \<in> set ts" and ne: "x \<noteq> y" for x y
  proof -
    have "48 \<le> ub_size (uh_mem s x)" "48 \<le> ub_size (uh_mem s y)"
      using uheap_ok_tile(3) [OF ok] x y by auto
    moreover have "x + ub_size (uh_mem s x) \<le> y \<or> y + ub_size (uh_mem s y) \<le> x"
      using utiles_gap [OF t x y] utiles_gap [OF t y x] ne by linarith
    ultimately show ?thesis by (auto simp: overlap_def)
  qed
  then show ?thesis unfolding pairwise_disjoint_def uheap_live_def used_blocks_ok [OF ok] by blast
qed

section \<open>Allocation\<close>

definition uheap_max :: nat where
  "uheap_max = u32_limit"

lemma align16_request:
  assumes "0 < n" and "n \<le> uheap_max"
  shows "n \<le> align16 n" and "16 \<le> align16 n" and "16 dvd align16 n" and "align16 n \<le> n + 15"
  using assms by (auto simp: align16_def uheap_max_def add64_eq)

text \<open>A request whose size no free block has does not return.\<close>

lemma uheap_Allocate_none:
  assumes inv: "uheap_ok s ts fl" and free: "locked (uh_lock s) = 0" and n: "0 < n" "n \<le> uheap_max"
    and none: "\<forall>b \<in> set fl. ub_size (uh_mem s b) < align16 n + UHDR"
  shows "uheap_Allocate s n priority flags = None"
proof -
  let ?s = "s\<lparr>uh_lock := (uh_lock s)\<lparr>locked := 1\<rparr>\<rparr>"
  have w: "add64 (align16 n) UHDR = align16 n + UHDR"
    using align16_request(4) [OF n] n(2) by (simp add: add64_eq uheap_max_def)
  from find_best_spec [OF uheap_okD(2) [OF inv], of 0 "align16 n + UHDR"] none uheap_okD(3) [OF inv]
    uheap_ok_tile(6) [OF inv] uheap_okD(5) [OF inv]
  have b: "find_best (uh_mem s) (align16 n + UHDR) (freeList s) 0 = Some 0" by fastforce
  have "uheap_Expand ?s k = None" for k by (simp add: uheap_Expand_def enter_taken)
  with b w show ?thesis
    using n(1) by (subst uheap_Allocate.simps) (simp add: enter_free [OF free] Let_def)
qed

lemma uheap_Allocate_some:
  assumes ok: "uheap_ok s ts fl" and free: "locked (uh_lock s) = 0" and n: "0 < n" "n \<le> uheap_max"
    and b: "b \<in> set fl" "align16 n + UHDR \<le> ub_size (uh_mem s b)"
  shows "\<exists>c s'. uheap_Allocate s n priority flags = Some (c + UHDR, s') \<and> uheap_inv s' \<and> c \<in> set fl \<and>
     (\<forall>x \<in> set fl. align16 n + UHDR \<le> ub_size (uh_mem s x) \<longrightarrow> ub_size (uh_mem s c) \<le> ub_size (uh_mem s x)) \<and>
     used_blocks s' = insert c (used_blocks s) \<and> align16 n + UHDR \<le> ub_size (uh_mem s' c) \<and>
     (\<forall>u \<in> used_blocks s. ub_size (uh_mem s' u) = ub_size (uh_mem s u))"
proof -
  let ?s = "s\<lparr>uh_lock := (uh_lock s)\<lparr>locked := 1\<rparr>\<rparr>" and ?k = "align16 n + UHDR"
  note A = align16_request [OF n]
  have w: "add64 (align16 n) UHDR = ?k" using A(4) n(2) by (simp add: add64_eq uheap_max_def)
  from find_best_spec [OF uheap_okD(2) [OF ok], of 0 ?k] b uheap_okD(3) [OF ok]
  obtain c where c: "find_best (uh_mem s) ?k (freeList s) 0 = Some c" "c \<noteq> 0" "c \<in> set fl" "?k \<le> ub_size (uh_mem s c)"
    and best: "\<forall>x \<in> set fl. ?k \<le> ub_size (uh_mem s x) \<longrightarrow> ub_size (uh_mem s c) \<le> ub_size (uh_mem s x)"
    by fastforce
  from c(3) obtain xs ys where fl: "fl = xs @ c # ys" by (meson split_list)
  have ok1: "uheap_ok ?s ts (xs @ c # ys)" using ok fl by (simp add: uheap_ok_lock)
  obtain p s1 where tb: "take_best ?s c (align16 n) ?k priority flags = (p, s1)" by (rule prod.exhaust)
  have k: "48 \<le> ?k" "16 dvd ?k" "?k \<le> ub_size (uh_mem ?s c)" using A(2,3) c(4) by simp_all
  from take_best_ok [OF ok1 k tb] obtain ts' fl' where p: "p = c + UHDR" and ok': "uheap_ok s1 ts' fl'"
    and S: "set ts' - set fl' = insert c (set ts - set fl)" and kc: "?k \<le> ub_size (uh_mem s1 c)"
    and same: "\<forall>u \<in> set ts - set fl. ub_size (uh_mem s1 u) = ub_size (uh_mem s u)" using fl by auto
  have al: "uheap_Allocate s n priority flags = Some (p, leave s1)"
    using n(1) c(1,2) w tb by (subst uheap_Allocate.simps) (simp add: enter_free [OF free] Let_def)
  have ok2: "uheap_ok (leave s1) ts' fl'" using ok' by (simp add: leave_def uheap_ok_lock)
  have "uheap_inv (leave s1)" using ok2 leave_lock unfolding uheap_inv_def by blast
  moreover have "uh_mem (leave s1) = uh_mem s1" by (simp add: leave_def)
  ultimately show ?thesis using al p S kc same best c(3) used_blocks_ok [OF ok] used_blocks_ok [OF ok2] by auto
qed

lemma uheap_live_insert:
  assumes "used_blocks s' = insert c (used_blocks s)" and "\<forall>u \<in> used_blocks s. ub_size (uh_mem s' u) = ub_size (uh_mem s u)"
  shows "uheap_live s' = insert (c + UHDR, ub_size (uh_mem s' c) - UHDR) (uheap_live s)"
  using assms by (auto simp: uheap_live_def)

section \<open>Release\<close>

text \<open>No free block is where the code looks for a neighbour: the test skips a header too many.\<close>

lemma merge_block_never:
  assumes ok: "uheap_ok s ts fl" and a: "a \<in> set ts" and b: "b \<in> set ts"
    and m: "ub_size (m a) = ub_size (uh_mem s a)"
  shows "merge_block m a b = m"
proof -
  note T = uheap_ok_tile [OF ok a]
  have "add64 (add64 a UHDR) (ub_size (m a)) = a + UHDR + ub_size (m a)"
    using T(2,7) uheap_okD(7) [OF ok] m by (simp add: add64_eq)
  moreover have "a + UHDR + ub_size (m a) \<noteq> b"
  proof
    assume e: "a + UHDR + ub_size (m a) = b"
    then have "a < b" using T(3) m by linarith
    then show False using utiles_gap [OF uheap_okD(1) [OF ok] a b] e m by linarith
  qed
  ultimately show ?thesis by (simp add: merge_block_def)
qed

lemma count_free_fields [simp]:
  "uh_mem (count_free pr n s) = uh_mem s" "freeList (count_free pr n s) = freeList s"
  "uh_base (count_free pr n s) = uh_base s" "uh_size (count_free pr n s) = uh_size s"
  "uh_lock (count_free pr n s) = uh_lock s" "uh_used (count_free pr n s) = sub64 (uh_used s) n"
  by (simp_all add: count_free_def Let_def)

lemma distinct_insert_mid: "distinct (xs @ ys) \<Longrightarrow> b \<notin> set (xs @ ys) \<Longrightarrow> distinct (xs @ b # ys)"
  by auto

lemma set_insert_place: "set (takeWhile P xs @ b # dropWhile P xs) = insert b (set xs)"
proof -
  have "set (takeWhile P xs) \<union> set (dropWhile P xs) = set xs" by (metis set_append takeWhile_dropWhile_id)
  then show ?thesis by auto
qed

lemma uheap_Free_ok:
  assumes ok: "uheap_ok s ts fl" and free: "locked (uh_lock s) = 0" and b: "b \<in> set ts - set fl"
  shows "\<exists>s'. uheap_Free s (b + UHDR) = Some s' \<and> locked (uh_lock s') = 0 \<and>
     uheap_ok s' ts (takeWhile (\<lambda>x. x < b) fl @ b # dropWhile (\<lambda>x. x < b) fl) \<and>
     (\<forall>u. ub_size (uh_mem s' u) = ub_size (uh_mem s u))"
proof -
  let ?xs = "takeWhile (\<lambda>x. x < b) fl" and ?ys = "dropWhile (\<lambda>x. x < b) fl" and ?m = "uh_mem s"
  let ?s = "s\<lparr>uh_lock := (uh_lock s)\<lparr>locked := 1\<rparr>\<rparr>"
  note D = uheap_okD [OF ok]
  have bt: "b \<in> set ts" using b by simp
  note T = uheap_ok_tile [OF ok bt]
  have p: "sub64 (b + UHDR) UHDR = b" using T(7) by (simp add: sub64_eq)
  have place: "find_place ?m b 0 (freeList s) = Some (last_or 0 ?xs, head_or ?ys 0)"
    using find_place_spec [OF D(2)] D(3) by simp
  obtain m1 f1 where ins: "insert_block ?m (freeList s) b (last_or 0 ?xs) (head_or ?ys 0) = (m1, f1)" by (rule prod.exhaust)
  have l: "dseg ?m 0 (?xs @ ?ys) 0" using D(2) by simp
  have d: "distinct (?xs @ b # ?ys)" by (rule distinct_insert_mid) (use D(4) b in simp_all)
  have fl: "set (?xs @ b # ?ys) = insert b (set fl)"
    by (rule set_insert_place)
  have ins': "insert_block ?m (head_or (?xs @ ?ys) 0) b (last_or 0 ?xs) (head_or ?ys 0) = (m1, f1)"
    using ins D(3) by simp
  note I = insert_block_correct [OF l d T(6) ins']
  let ?c = "count_free (ub_priority (?m b)) (ub_size (?m b)) ?s"
  let ?s' = "leave (?c\<lparr>uh_mem := m1, freeList := f1\<rparr>)"
  have sub: "set ?xs \<subseteq> set ts" "set ?ys \<subseteq> set ts"
    using D(5) set_takeWhileD [of _ "\<lambda>x. x < b" fl] set_dropWhileD [of _ "\<lambda>x. x < b" fl] by blast+
  have cur: "(if head_or ?ys 0 \<noteq> 0 then merge_block m1 b (head_or ?ys 0) else m1) = m1"
  proof (cases "?ys")
    case Nil
    show ?thesis unfolding Nil head_or_simps by simp
  next
    case (Cons y zs)
    then have "y \<in> set ts" using sub(2) by simp
    from merge_block_never [OF ok bt this, of m1] I(3) Cons show ?thesis by simp
  qed
  have prv: "(if last_or 0 ?xs \<noteq> 0 then merge_block m1 (last_or 0 ?xs) b else m1) = m1"
  proof (cases "?xs = []")
    case False
    then have "last_or 0 ?xs \<in> set ts" using sub(1) last_in_set [OF False] by (auto simp: last_or_def)
    from merge_block_never [OF ok this bt, of m1] I(3) show ?thesis by simp
  qed simp
  have ret: "uheap_Free s (b + UHDR) = Some ?s'"
  proof -
    have "uheap_Free s (b + UHDR) = Some (leave (?c\<lparr>uh_mem :=
        (if last_or 0 ?xs \<noteq> 0
         then merge_block (if head_or ?ys 0 \<noteq> 0 then merge_block m1 b (head_or ?ys 0) else m1) (last_or 0 ?xs) b
         else (if head_or ?ys 0 \<noteq> 0 then merge_block m1 b (head_or ?ys 0) else m1)), freeList := f1\<rparr>))"
      using place ins T(5) p by (simp add: uheap_Free_def enter_free [OF free] Let_def)
    then show ?thesis unfolding cur prv .
  qed
  have "b \<notin> set fl" using b by simp
  then have sum: "(\<Sum>t \<in> set ts - set fl. ub_size (?m t)) =
      ub_size (?m b) + (\<Sum>t \<in> set ts - insert b (set fl). ub_size (?m t))"
    using sum.remove [of "set ts - set fl" b "\<lambda>t. ub_size (?m t)"] b by (simp add: Diff_insert [of "set ts" b "set fl"])
  have "(\<Sum>t \<in> set ts - set fl. ub_size (?m t)) \<le> (\<Sum>t \<in> set ts. ub_size (?m t))" by (rule sum_mono2) auto
  then have le: "uh_used s \<le> uh_size s" using utiles_sum [OF D(1)] D(9) by linarith
  have used: "sub64 (uh_used s) (ub_size (?m b)) = (\<Sum>t \<in> set ts - insert b (set fl). ub_size (?m t))"
    using sum D(8,9) le by (simp add: sub64_eq)
  have "uheap_ok ?s' ts (?xs @ b # ?ys)"
    unfolding uheap_ok_def fl
    using I D(1,5-8,10) d used bt utiles_cong [of ts m1 ?m] by (simp add: leave_def)
  moreover have "\<forall>u. ub_size (uh_mem ?s' u) = ub_size (?m u)" using I(3) by (simp add: leave_def)
  ultimately show ?thesis using ret leave_lock by blast
qed

section \<open>The heap contract\<close>

text \<open>\<^verbatim>\<open>Free\<close> as a total function, for the contract; on a live block it returns.\<close>

definition uheap_release :: "uheap \<Rightarrow> addr \<Rightarrow> uheap" where
  "uheap_release s p = (case uheap_Free s p of Some s' \<Rightarrow> s' | None \<Rightarrow> s)"

lemma uheap_live_mem:
  assumes "(p, k) \<in> uheap_live s"
  obtains b where "b \<in> used_blocks s" and "p = b + UHDR" and "k = ub_size (uh_mem s b) - UHDR"
  using assms by (auto simp: uheap_live_def)

lemma uheap_release_ok:
  assumes inv: "uheap_inv s" and live: "(p, k) \<in> uheap_live s"
  shows "uheap_Free s p = Some (uheap_release s p)" and "uheap_inv (uheap_release s p)"
    and "uheap_live (uheap_release s p) = uheap_live s - {(p, k)}"
proof -
  from inv obtain ts fl where ok: "uheap_ok s ts fl" and u: "used_blocks s = set ts - set fl"
    and free: "locked (uh_lock s) = 0" by (rule uheap_invE)
  from live obtain b where b: "b \<in> used_blocks s" "p = b + UHDR" and k: "k = ub_size (uh_mem s b) - UHDR"
    by (rule uheap_live_mem)
  let ?fl = "takeWhile (\<lambda>x. x < b) fl @ b # dropWhile (\<lambda>x. x < b) fl"
  from uheap_Free_ok [OF ok free b(1) [unfolded u]] obtain s' where s': "uheap_Free s p = Some s'"
    "locked (uh_lock s') = 0" and ok': "uheap_ok s' ts ?fl" and same: "\<And>v. ub_size (uh_mem s' v) = ub_size (uh_mem s v)"
    using b(2) by auto
  have rel: "uheap_release s p = s'" using s' by (simp add: uheap_release_def)
  show "uheap_Free s p = Some (uheap_release s p)" using s'(1) rel by simp
  show "uheap_inv (uheap_release s p)" using s'(2) ok' rel unfolding uheap_inv_def by blast
  have "set ?fl = insert b (set fl)"
    by (rule set_insert_place)
  then have "used_blocks s' = used_blocks s - {b}" using used_blocks_ok [OF ok'] u by auto
  then show "uheap_live (uheap_release s p) = uheap_live s - {(p, k)}"
    using rel same b(2) k unfolding uheap_live_def by force
qed

text \<open>What an allocation that returned did.\<close>

lemma uheap_Allocate_returned:
  assumes inv: "uheap_inv s" and n: "n \<le> uheap_max" and al: "uheap_Allocate s n priority flags = Some (p, s')"
  shows "uheap_inv s' \<and> (if n = 0 then p = 0 \<and> s' = s
     else p \<noteq> 0 \<and> p \<notin> fst ` uheap_live s \<and> (\<exists>k \<ge> n. uheap_live s' = insert (p, k) (uheap_live s)))"
proof (cases "n = 0")
  case True
  with al have "p = 0" "s' = s" by (simp_all add: uheap_Allocate.simps [of s 0])
  with True inv show ?thesis by simp
next
  case False
  from inv obtain ts fl where ok: "uheap_ok s ts fl" and u: "used_blocks s = set ts - set fl"
    and free: "locked (uh_lock s) = 0" by (rule uheap_invE)
  have n0: "0 < n" using False by simp
  have "\<exists>b \<in> set fl. align16 n + UHDR \<le> ub_size (uh_mem s b)"
    using uheap_Allocate_none [OF ok free n0 n] al by (metis linorder_not_le option.distinct(1))
  then obtain b where b: "b \<in> set fl" "align16 n + UHDR \<le> ub_size (uh_mem s b)" by blast
  from uheap_Allocate_some [OF ok free n0 n b, of priority flags] obtain c t where
    t: "uheap_Allocate s n priority flags = Some (c + UHDR, t)" "uheap_inv t" "c \<in> set fl"
      "used_blocks t = insert c (used_blocks s)" "align16 n + UHDR \<le> ub_size (uh_mem t c)"
      "\<forall>v \<in> used_blocks s. ub_size (uh_mem t v) = ub_size (uh_mem s v)" by blast
  have "t = s'" and p: "p = c + UHDR" using al t(1) by simp_all
  then have c: "p = c + UHDR" "uheap_inv s'" "c \<in> set fl" "used_blocks s' = insert c (used_blocks s)"
      "align16 n + UHDR \<le> ub_size (uh_mem s' c)" "\<forall>v \<in> used_blocks s. ub_size (uh_mem s' v) = ub_size (uh_mem s v)"
    using t(2-6) by simp_all
  have "n \<le> ub_size (uh_mem s' c) - UHDR" using c(5) align16_request(1) [OF n0 n] by linarith
  moreover have "p \<notin> fst ` uheap_live s"
  proof
    assume "p \<in> fst ` uheap_live s"
    then obtain d where "d \<in> used_blocks s" "p = d + UHDR" unfolding uheap_live_def by force
    with c(1,3) u show False by simp
  qed
  moreover have "uheap_live s' = insert (p, ub_size (uh_mem s' c) - UHDR) (uheap_live s)"
    using uheap_live_insert [OF c(4,6)] c(1) by simp
  moreover have "p \<noteq> 0" using c(1) by simp
  ultimately show ?thesis using c(2) False by metis
qed

interpretation uheap: heap_laws "\<lambda>s n. uheap_Allocate s n priority flags" uheap_release uheap_live uheap_inv uheap_max
  for priority flags
proof
  fix s :: uheap and n p s'
  assume inv: "uheap_inv s" and n: "n \<le> uheap_max"
  note R = uheap_Allocate_returned [OF inv n, of priority flags]
  show "uheap_inv s'" if "uheap_Allocate s n priority flags = Some (p, s')" using R [OF that] by blast
  show "uheap_live s' = uheap_live s" if "uheap_Allocate s n priority flags = Some (0, s')"
    using R [OF that] by (metis)
  show "p \<notin> fst ` uheap_live s \<and> (\<exists>k \<ge> n. uheap_live s' = insert (p, k) (uheap_live s))"
    if "uheap_Allocate s n priority flags = Some (p, s')" "p \<noteq> 0" using R [OF that(1)] that(2) by metis
next
  fix s :: uheap and p k j
  assume inv: "uheap_inv s"
  then obtain ts fl where ok: "uheap_ok s ts fl" by (rule uheap_invE)
  show "pairwise_disjoint (uheap_live s)" using uheap_live_disjoint [OF ok] .
  show "uheap_inv (uheap_release s p)" "uheap_live (uheap_release s p) = uheap_live s - {(p, k)}"
    if "(p, k) \<in> uheap_live s" using uheap_release_ok(2,3) [OF inv that] by blast+
  show "k = j" if "(p, k) \<in> uheap_live s" "(p, j) \<in> uheap_live s" using that by (auto simp: uheap_live_def)
qed

section \<open>Initialisation\<close>

lemma AllocContiguous_aligned:
  assumes inv: "pmm_inv p" and n: "n \<le> page_limit p" and al: "AllocContiguous p n = Some (a, p')" and a: "a \<noteq> 0"
  shows "4096 dvd a" and "a + n * 4096 \<le> page_limit p * 4096"
proof -
  let ?l = "page_limit p - n" and ?f = "max (lastFreeIndex p) 65536"
  note b = pmm_inv_limit_bytes [OF inv]
  have l: "sub64 (page_limit p) n = ?l" using n b by (simp add: sub64_eq)
  have f: "(if lastFreeIndex p > 65536 then lastFreeIndex p else 65536) = ?f" by (simp add: max_def)
  from b n have "?l + n < u64_limit" by simp
  from find_run_spec [OF this, of "pm_bitmap p" ?f] al a l obtain q where q: "q \<le> ?l" "a = mul64 q 4096"
    by (auto simp: AllocContiguous_def Let_def page_limit_def [symmetric] f split: option.splits)
  have "(q + n) * 4096 \<le> page_limit p * 4096" using q(1) n by (intro mult_le_mono1) linarith
  then have "a = q * 4096" "a + n * 4096 \<le> page_limit p * 4096" using q(2) b by (simp_all add: mul64_eq algebra_simps)
  then show "4096 dvd a" "a + n * 4096 \<le> page_limit p * 4096" by simp_all
qed

lemma uheap_Init_ok:
  assumes inv: "pmm_inv p" and n: "1024 \<le> page_limit p"
    and init: "uheap_Init (uheap_static m b p k) = Some s" and base: "uh_base s \<noteq> 0"
  shows "uheap_inv s" and "uheap_live s = {}" and "uheap_ok s [uh_base s] [uh_base s]"
    and "ub_size (uh_mem s (uh_base s)) = UHEAP_INITIAL_SIZE" and "locked (uh_lock s) = 0"
proof -
  have e: "enter (uheap_static m b p k) = Some (uheap_static m b p k\<lparr>uh_lock := \<lparr>locked = 1\<rparr>\<rparr>)"
    by (simp add: enter_def uheap_static_def spin_defs)
  obtain a p' where al: "AllocContiguous p 1024 = Some (a, p')" and a: "a \<noteq> 0" and s: "uh_base s = a"
    "uh_size s = UHEAP_INITIAL_SIZE" "uh_used s = 0" "freeList s = a" "locked (uh_lock s) = 0"
    "uh_mem s = uput m a (\<lambda>b. b\<lparr>ub_magic := UHEAP_MAGIC, ub_size := UHEAP_INITIAL_SIZE,
                     ub_priority := MEM_PRIORITY_LOW, ub_flags := 0, ub_next := 0, ub_prev := 0\<rparr>)"
    using init base e
    by (auto simp: uheap_Init_def uheap_static_def leave_def spin_defs Let_def bind_eq_Some_conv split: if_splits)
  note A = AllocContiguous_aligned [OF inv n al a]
  obtain c where c: "a = 4096 * c" using A(1) by (auto elim: dvdE)
  have "4096 * (c + 1024) < 4096 * (u64_limit div 4096)"
    using A(2) pmm_inv_limit_bytes [OF inv] c by simp
  then have top: "a + UHEAP_INITIAL_SIZE + 64 < u64_limit" using c by simp
  have ok: "uheap_ok s [a] [a]"
    unfolding uheap_ok_def using s a top c by (simp add: uput_def)
  then show "uheap_inv s" using s(5) unfolding uheap_inv_def by blast
  show "uheap_live s = {}" using used_blocks_ok [OF ok] by (simp add: uheap_live_def)
  show "uheap_ok s [uh_base s] [uh_base s]" "ub_size (uh_mem s (uh_base s)) = UHEAP_INITIAL_SIZE" "locked (uh_lock s) = 0"
    using ok s by (simp_all add: uput_def)
qed

section \<open>Properties\<close>

text \<open>C22. From a successful \<^verbatim>\<open>Init\<close>, over any sequence of \<^verbatim>\<open>Allocate\<close> requests of at most \<open>2 ^ 32\<close> bytes (\<open>uheap_max\<close>) and
  \<^verbatim>\<open>Free\<close> requests that returns, the
  pointers the client owns are distinct live blocks, no two live blocks overlap, and \<^verbatim>\<open>heapUsed\<close> is the
  number of bytes of the blocks in use with their headers.  The sizes are bounded because the code's rounding wraps near
  \<open>2 ^ 64\<close> (lemma \<open>uheap_request_wraps\<close>), which it does not check.\<close>

theorem uheap_blocks_never_overlap:
  assumes "pmm_inv p" and "1024 \<le> page_limit p"
    and "uheap_Init (uheap_static m b p k) = Some s" and "uh_base s \<noteq> 0"
    and "sizes_below uheap_max rs"
    and "run_heap (\<lambda>s n. uheap_Allocate s n priority flags) uheap_release rs s [] = Some (owned, s')"
  shows "distinct owned \<and> set owned \<subseteq> fst ` uheap_live s' \<and> pairwise_disjoint (uheap_live s') \<and>
    uh_used s' = (\<Sum>t \<in> used_blocks s'. ub_size (uh_mem s' t))"
proof -
  note I = uheap_Init_ok [OF assms(1-4)]
  from uheap.run_heap_returned [OF I(1) assms(5) _ _ assms(6)]
  have inv: "uheap_inv s'" and owned: "distinct owned" "set owned \<subseteq> fst ` uheap_live s'" by simp_all
  from inv obtain ts fl where ok: "uheap_ok s' ts fl" and "used_blocks s' = set ts - set fl" by (rule uheap_invE)
  with uheap_okD(9) [OF ok] uheap_live_disjoint [OF ok] owned show ?thesis by simp
qed

definition roomy_pmm :: pmm where
  "roomy_pmm = \<lparr>pm_bitmap = bitmap_Init (\<lambda>k. if k < 2 then 255 else 0) 16385, totalRAM = 0x20000000,
     freeRAM = 0x1FFF8000, bitmapSize = 16385, highestAddr = 0x20000000, lastFreeIndex = 0\<rparr>"

lemma roomy_pmm_limit: "page_limit roomy_pmm = 131072"
  by (simp add: page_limit_def roomy_pmm_def)

lemma roomy_pmm_inv: "pmm_inv roomy_pmm"
  by (simp add: pmm_inv_def roomy_pmm_limit)
     (simp add: roomy_pmm_def page_used_def Get_ones, simp add: bitmap_Init_def)

lemma roomy_pmm_run: "\<exists>a p'. AllocContiguous roomy_pmm 1024 = Some (a, p') \<and> a \<noteq> 0"
proof -
  have l: "sub64 (highestAddr roomy_pmm div 4096) 1024 = 130048" by (simp add: roomy_pmm_def sub64_eq)
  have "free_run (pm_bitmap roomy_pmm) 1024 65536" by (simp add: free_run_def roomy_pmm_def Get_ones)
  with find_run_spec [of 130048 1024 "pm_bitmap roomy_pmm" 65536] obtain q where
    "find_run (pm_bitmap roomy_pmm) 130048 1024 65536 = Some (Some q)" "65536 \<le> q" "q \<le> 130048"
    by (auto split: option.splits)
  moreover have "lastFreeIndex roomy_pmm = 0" by (simp add: roomy_pmm_def)
  ultimately show ?thesis using l by (simp add: AllocContiguous_def Let_def mul64_eq)
qed

definition roomy_uheap :: uheap where
  "roomy_uheap = uheap_static (\<lambda>_. \<lparr>ub_magic = 0, ub_size = 0, ub_priority = 0, ub_flags = 0, ub_next = 0, ub_prev = 0\<rparr>)
     (\<lambda>_. 0) roomy_pmm (kheap_Init (\<lambda>_. undefined) 4096 262144)"

theorem uheap_blocks_never_overlap_witness:
  "\<exists>s owned s'. uheap_Init roomy_uheap = Some s \<and>
     run_heap (\<lambda>s n. uheap_Allocate s n 2 0) uheap_release [HAlloc 100] s [] = Some (owned, s') \<and>
     owned \<noteq> [] \<and> pairwise_disjoint (uheap_live s')"
proof -
  obtain a p' where al: "AllocContiguous roomy_pmm 1024 = Some (a, p')" "a \<noteq> 0" using roomy_pmm_run by blast
  then obtain s where s: "uheap_Init roomy_uheap = Some s" "uh_base s \<noteq> 0"
    by (auto simp: uheap_Init_def roomy_uheap_def uheap_static_def enter_def leave_def spin_defs Let_def)
  have n: "1024 \<le> page_limit roomy_pmm" by (simp add: roomy_pmm_limit)
  note I = uheap_Init_ok [OF roomy_pmm_inv n s(1) [unfolded roomy_uheap_def] s(2)]
  have m: "(0::nat) < 100" "100 \<le> uheap_max" by (simp_all add: uheap_max_def)
  have k: "align16 100 + UHDR \<le> ub_size (uh_mem s (uh_base s))" using align16_request(4) [OF m] I(4) by simp
  from uheap_Allocate_some [OF I(3,5) m _ k, of 2 0] obtain c t where
    t: "uheap_Allocate s 100 2 0 = Some (c + UHDR, t)" by auto
  then have run: "run_heap (\<lambda>s n. uheap_Allocate s n 2 0) uheap_release [HAlloc 100] s [] = Some ([c + UHDR], t)"
    by simp
  have "sizes_below uheap_max [HAlloc 100]" using m by (simp add: sizes_below_def)
  from uheap_blocks_never_overlap [OF roomy_pmm_inv n s(1) [unfolded roomy_uheap_def] s(2) this run]
  have "pairwise_disjoint (uheap_live t)" by simp
  with s(1) run show ?thesis by blast
qed

text \<open>A request of \<open>2 ^ 64 - 15\<close> bytes or more is not zero, but its rounded size is: the allocator works with a block that is
  only a header, and the header of the next block follows at the address it returned.\<close>

lemma uheap_request_wraps:
  assumes "u64_limit - 15 \<le> n" and "n < u64_limit"
  shows "n \<noteq> 0 \<and> align16 n = 0 \<and> add64 (align16 n) UHDR = UHDR"
proof -
  define k where "k = n - (u64_limit - 15)"
  then have k: "n = u64_limit - 15 + k" "k < 15" using assms by simp_all
  then have "align16 n = 0" by (simp add: align16_def add64_def)
  with assms(1) show ?thesis by (simp add: add64_def)
qed

text \<open>An \<^verbatim>\<open>Allocate\<close> that finds no free block large enough never returns: \<^verbatim>\<open>Expand\<close> waits for the lock that
  \<^verbatim>\<open>Allocate\<close> holds.  In particular every request before \<^verbatim>\<open>Init\<close> hangs, although the code
  means to grow the heap from the kernel heap.\<close>

theorem uheap_Allocate_deadlocks:
  assumes "0 < n" and "n \<le> uheap_max"
  shows "uheap_Allocate (uheap_static m b p k) n priority flags = None \<and>
    (uheap_inv s \<and> walk_free (uh_mem s) (freeList s) = Some fl \<and>
       (\<forall>c \<in> set fl. ub_size (uh_mem s c) < align16 n + UHDR) \<longrightarrow>
     uheap_Allocate s n priority flags = None)"
proof
  let ?s = "uheap_static m b p k" and ?t = "uheap_static m b p k\<lparr>uh_lock := \<lparr>locked = 1\<rparr>\<rparr>"
  have "enter ?s = Some ?t" by (simp add: enter_def uheap_static_def spin_defs)
  moreover have "find_best (uh_mem ?t) j (freeList ?t) 0 = Some 0" for j
    by (subst find_best.simps) (simp add: uheap_static_def)
  moreover have "uheap_Expand ?t j = None" for j by (simp add: uheap_Expand_def enter_taken)
  ultimately show "uheap_Allocate ?s n priority flags = None"
    using assms(1) by (subst uheap_Allocate.simps) (simp add: Let_def)
  show "uheap_inv s \<and> walk_free (uh_mem s) (freeList s) = Some fl \<and>
       (\<forall>c \<in> set fl. ub_size (uh_mem s c) < align16 n + UHDR) \<longrightarrow> uheap_Allocate s n priority flags = None"
  proof
    assume a: "uheap_inv s \<and> walk_free (uh_mem s) (freeList s) = Some fl \<and>
       (\<forall>c \<in> set fl. ub_size (uh_mem s c) < align16 n + UHDR)"
    then have "uheap_inv s" by (rule conjunct1)
    then obtain ts fl' where ok: "uheap_ok s ts fl'" and "used_blocks s = set ts - set fl'"
      and l: "locked (uh_lock s) = 0" by (rule uheap_invE)
    have "fl' = fl" using walk_free_dseg [OF uheap_okD(2) [OF ok]] uheap_okD(3) [OF ok] a by simp
    with a uheap_Allocate_none [OF ok l assms] show "uheap_Allocate s n priority flags = None" by simp
  qed
qed

theorem uheap_Allocate_deadlocks_witness: "(0::nat) < 64 \<and> uheap_Allocate roomy_uheap 64 2 0 = None"
proof -
  have m: "(0::nat) < 64" "64 \<le> uheap_max" by (simp_all add: uheap_max_def)
  from uheap_Allocate_deadlocks [OF m] m(1) show ?thesis unfolding roomy_uheap_def by blast
qed

end
