(* ===== verification/Audio.thy ===== *)
theory Audio
  imports Bounded_Fifo "HOL-Library.Signed_Division"
begin

text \<open>
  Audio: the ring buffer between the kernel and the sound device (\<^verbatim>\<open>kernel/hal/audio/ring_buffer.h\<close>) and
  the eight-channel mixer (\<^verbatim>\<open>mixer.cpp\<close>).  The template parameter \<^verbatim>\<open>SIZE\<close> of the ring is the length of its
  buffer, a power of two; positions are 32-bit counters that run on and wrap.
  What the mixer should compute is stated per sample (\<open>part\<close>, \<open>clip16\<close>), without the code's helpers.
\<close>

section \<open>The ring buffer\<close>

record audio_ring =
  ar_buffer :: "u8 list"
  write_pos :: u32
  read_pos :: u32

text \<open>\<^verbatim>\<open>SIZE\<close> and \<^verbatim>\<open>SIZE - 1\<close>, the mask.\<close>

definition ar_mask :: "audio_ring \<Rightarrow> u32" where
  "ar_mask r = of_nat (length (ar_buffer r)) - 1"

definition ar_Init :: "audio_ring \<Rightarrow> audio_ring" where
  "ar_Init r = \<lparr>ar_buffer = replicate (length (ar_buffer r)) 0, write_pos = 0, read_pos = 0\<rparr>"

definition WriteAvailable :: "audio_ring \<Rightarrow> u32" where
  "WriteAvailable r = ar_mask r - ((write_pos r - read_pos r) AND ar_mask r)"

definition ReadAvailable :: "audio_ring \<Rightarrow> u32" where
  "ReadAvailable r = (write_pos r - read_pos r) AND ar_mask r"

fun write_bytes :: "u8 list \<Rightarrow> u32 \<Rightarrow> u32 \<Rightarrow> u8 list \<Rightarrow> u8 list" where
  "write_bytes buf msk w [] = buf"
| "write_bytes buf msk w (d # ds) = write_bytes (buf[unat w := d]) msk ((w + 1) AND msk) ds"

text \<open>\<open>data\<close> holds the \<^verbatim>\<open>len\<close> bytes to write; the result is how many were taken.\<close>

definition ar_Write :: "u8 list \<Rightarrow> audio_ring \<Rightarrow> nat \<times> audio_ring" where
  "ar_Write data r =
     (let available = unat (WriteAvailable r);
          len = (if length data > available then available else length data)
      in (len, r\<lparr>ar_buffer := write_bytes (ar_buffer r) (ar_mask r) (write_pos r AND ar_mask r) (take len data),
                 write_pos := write_pos r + of_nat len\<rparr>))"

fun read_bytes :: "u8 list \<Rightarrow> u32 \<Rightarrow> u32 \<Rightarrow> nat \<Rightarrow> u8 list" where
  "read_bytes buf msk r 0 = []"
| "read_bytes buf msk r (Suc n) = buf ! unat r # read_bytes buf msk ((r + 1) AND msk) n"

definition ar_Read :: "nat \<Rightarrow> audio_ring \<Rightarrow> u8 list \<times> audio_ring" where
  "ar_Read len0 r =
     (let available = unat (ReadAvailable r);
          len = (if len0 > available then available else len0)
      in (read_bytes (ar_buffer r) (ar_mask r) (read_pos r AND ar_mask r) len,
          r\<lparr>read_pos := read_pos r + of_nat len\<rparr>))"

definition GetReadPos :: "audio_ring \<Rightarrow> u32" where
  "GetReadPos r = read_pos r AND ar_mask r"

definition AdvanceRead :: "u32 \<Rightarrow> audio_ring \<Rightarrow> audio_ring" where
  "AdvanceRead n r = r\<lparr>read_pos := read_pos r + n\<rparr>"

definition ar_Clear :: "audio_ring \<Rightarrow> audio_ring" where
  "ar_Clear r = r\<lparr>write_pos := 0, read_pos := 0\<rparr>"

definition IsEmpty :: "audio_ring \<Rightarrow> bool" where
  "IsEmpty r \<longleftrightarrow> ReadAvailable r = 0"

definition IsFull :: "audio_ring \<Rightarrow> bool" where
  "IsFull r \<longleftrightarrow> WriteAvailable r = 0"

subsection \<open>The ring is a bounded queue of bytes\<close>

definition ar_filled :: "audio_ring \<Rightarrow> nat" where
  "ar_filled r = unat (write_pos r - read_pos r)"

definition ar_contents :: "audio_ring \<Rightarrow> u8 list" where
  "ar_contents r = ring (ar_buffer r) (unat (read_pos r)) (ar_filled r)"

lemma length_ar_contents: "length (ar_contents r) = ar_filled r"
  by (simp add: ar_contents_def)

definition ar_inv :: "nat \<Rightarrow> audio_ring \<Rightarrow> bool" where
  "ar_inv k r \<longleftrightarrow> 0 < k \<and> k < 32 \<and> length (ar_buffer r) = 2 ^ k \<and> ar_filled r < 2 ^ k"

lemma unat_and_pow:
  assumes "k < 32"
  shows "unat ((x :: u32) AND (of_nat (2 ^ k) - 1)) = unat x mod 2 ^ k"
proof -
  have "(of_nat (2 ^ k) - 1 :: u32) = mask k" by (simp add: mask_eq_exp_minus_1)
  then have "x AND (of_nat (2 ^ k) - 1) = take_bit k x" by (simp add: take_bit_eq_mask)
  then have "unat (x AND (of_nat (2 ^ k) - 1)) = take_bit k (unat x)" by (simp only: unsigned_take_bit_eq)
  then show ?thesis by (simp only: take_bit_eq_mod)
qed

lemma ar_mask_facts:
  assumes "ar_inv k r"
  shows "unat (x AND ar_mask r) = unat x mod 2 ^ k" and "unat (ar_mask r) = 2 ^ k - 1"
proof -
  have k: "k < 32" and l: "length (ar_buffer r) = 2 ^ k" using assms by (simp_all add: ar_inv_def)
  show "unat (x AND ar_mask r) = unat x mod 2 ^ k"
    unfolding ar_mask_def l by (rule unat_and_pow [OF k])
  have "(2 :: nat) ^ k < 2 ^ 32" using k by (intro power_strict_increasing) auto
  then have "unat (of_nat (2 ^ k) :: u32) = 2 ^ k" by (simp only: unat_of_nat) simp
  moreover have "(of_nat (2 ^ k) :: u32) \<noteq> 0"
  proof
    assume "(of_nat (2 ^ k) :: u32) = 0"
    with calculation show False by (metis unat_0 power_not_zero zero_neq_numeral)
  qed
  ultimately show "unat (ar_mask r) = 2 ^ k - 1"
    unfolding ar_mask_def l using unat_minus_one [of "of_nat (2 ^ k) :: u32"] by argo
qed

lemma ReadAvailable_filled:
  assumes "ar_inv k r"
  shows "unat (ReadAvailable r) = ar_filled r"
  using assms by (simp add: ReadAvailable_def ar_mask_facts(1) [OF assms] ar_filled_def ar_inv_def)

lemma WriteAvailable_free:
  assumes "ar_inv k r"
  shows "unat (WriteAvailable r) = 2 ^ k - 1 - ar_filled r"
proof -
  have le: "ReadAvailable r \<le> ar_mask r"
    using ReadAvailable_filled [OF assms] ar_mask_facts(2) [OF assms] assms
    by (auto simp add: word_le_nat_alt ar_inv_def)
  have "WriteAvailable r = ar_mask r - ReadAvailable r" by (simp add: WriteAvailable_def ReadAvailable_def)
  then show ?thesis
    using unat_sub [OF le] ReadAvailable_filled [OF assms] ar_mask_facts(2) [OF assms] by simp
qed

lemma write_bytes_ring:
  assumes "\<And>x. unat (x AND msk) = unat x mod length buf" and "unat w = (t0 + c) mod length buf"
    and "c + length ds \<le> length buf" and "length buf < 4294967296"
  shows "ring (write_bytes buf msk w ds) t0 (c + length ds) = ring buf t0 c @ ds \<and>
    length (write_bytes buf msk w ds) = length buf"
  using assms
proof (induction ds arbitrary: buf w c)
  case (Cons d ds)
  let ?n = "length buf" and ?buf = "buf[(t0 + c) mod length buf := d]" and ?w = "(w + 1) AND msk"
  have "0 < ?n" using Cons.prems(3) by (simp only: list.size)
  then have w: "unat w < ?n" using Cons.prems(2) by simp
  have "unat (w + 1) = unat w + 1" using w Cons.prems(4) by (simp add: unat_word_ariths)
  then have "unat ?w = (t0 + Suc c) mod length ?buf"
    using Cons.prems(1) [of "w + 1"] Cons.prems(2) by (simp add: mod_Suc_eq)
  then have "ring (write_bytes ?buf msk ?w ds) t0 (Suc c + length ds) = ring ?buf t0 (Suc c) @ ds \<and>
    length (write_bytes ?buf msk ?w ds) = length ?buf"
    using Cons.IH [of ?buf ?w "Suc c"] Cons.prems(1,3,4) by simp
  moreover have "ring ?buf t0 (Suc c) = ring buf t0 c @ [d]" using Cons.prems(3) by (intro ring_push) simp
  ultimately show ?case using Cons.prems(2) by simp
qed simp

lemma read_bytes_ring:
  assumes "\<And>x. unat (x AND msk) = unat x mod length buf" and "unat r = t0 mod length buf"
    and "length buf < 4294967296" and "0 < length buf"
  shows "read_bytes buf msk r n = ring buf t0 n"
  using assms(2)
proof (induction n arbitrary: r t0)
  case (Suc n)
  have "unat r < length buf" using Suc.prems assms(4) by simp
  then have "unat (r + 1) = unat r + 1" using assms(3) by (simp add: unat_word_ariths)
  then have "unat ((r + 1) AND msk) = (t0 + 1) mod length buf"
    using assms(1) [of "r + 1"] Suc.prems by (simp add: mod_Suc_eq)
  from Suc.IH [OF this] Suc.prems show ?case
    by (simp add: ring_def upt_conv_Cons [of 0] map_Suc_upt [symmetric] del: upt_Suc map_Suc_upt)
qed simp

lemma ring_take: "take m (ring buf t0 n) = ring buf t0 (min m n)"
  by (simp add: ring_def take_map min_def)

lemma ring_drop:
  assumes "m \<le> n"
  shows "drop m (ring buf t0 n) = ring buf (t0 + m) (n - m)"
proof (rule nth_equalityI)
  fix i
  assume "i < length (drop m (ring buf t0 n))"
  then have "m + i < n" by simp
  then show "drop m (ring buf t0 n) ! i = ring buf (t0 + m) (n - m) ! i"
    using assms by (simp add: ring_def add.assoc)
qed simp

lemma ring_mod_start: "(t0 :: nat) mod length buf = t1 mod length buf \<Longrightarrow> ring buf t0 n = ring buf t1 n"
  by (metis ring_tail_mod)

lemma unat_add_mod_pow:
  assumes "k < 32"
  shows "unat ((x :: u32) + of_nat n) mod 2 ^ k = (unat x + n) mod 2 ^ k"
proof -
  have d: "(2::nat) ^ k dvd 2 ^ 32" using assms by (intro le_imp_power_dvd) simp
  have "unat (x + of_nat n) = (unat x + n) mod 2 ^ 32"
    by (simp add: unat_word_ariths unat_of_nat mod_add_right_eq)
  then show ?thesis using d by (simp add: mod_mod_cancel)
qed

text \<open>A write appends what fits; a read takes the oldest bytes.\<close>

lemma ar_Write_correct:
  assumes inv: "ar_inv k r" and w: "ar_Write data r = (n, r')"
  shows "ar_inv k r' \<and> n = min (length data) (2 ^ k - 1 - ar_filled r) \<and>
    ar_contents r' = ar_contents r @ take n data"
proof -
  note M = ar_mask_facts(1) [OF inv]
  from inv have k: "k < 32" and l: "length (ar_buffer r) = 2 ^ k" and f: "ar_filled r < 2 ^ k"
    by (simp_all add: ar_inv_def)
  have p: "(2::nat) ^ k < 4294967296" using power_strict_increasing [OF k, of "2 :: nat"] by simp
  have n: "n = min (length data) (2 ^ k - 1 - ar_filled r)"
    and r': "r' = r\<lparr>ar_buffer := write_bytes (ar_buffer r) (ar_mask r) (write_pos r AND ar_mask r) (take n data),
                 write_pos := write_pos r + of_nat n\<rparr>"
    using w WriteAvailable_free [OF inv] by (auto simp: ar_Write_def Let_def)
  have nf: "ar_filled r + n < 2 ^ k" using n f by linarith
  have filled: "ar_filled r' = ar_filled r + n"
  proof -
    have "write_pos r + of_nat n - read_pos r = (write_pos r - read_pos r) + of_nat n" by (simp only: diff_conv_add_uminus ac_simps)
    moreover have "unat ((write_pos r - read_pos r) + of_nat n) = ar_filled r + n"
      using nf p by (simp add: unat_word_ariths unat_of_nat ar_filled_def mod_add_right_eq)
    ultimately have "unat (write_pos r + of_nat n - read_pos r) = ar_filled r + n" by (simp only:)
    then show ?thesis unfolding ar_filled_def [of r'] by (simp add: r')
  qed
  have "write_pos r = read_pos r + of_nat (ar_filled r)" by (simp add: ar_filled_def)
  then have start: "unat (write_pos r AND ar_mask r) = (unat (read_pos r) + ar_filled r) mod length (ar_buffer r)"
    using M unat_add_mod_pow [OF k] l by metis
  have "ring (write_bytes (ar_buffer r) (ar_mask r) (write_pos r AND ar_mask r) (take n data)) (unat (read_pos r))
      (ar_filled r + length (take n data)) = ring (ar_buffer r) (unat (read_pos r)) (ar_filled r) @ take n data \<and>
    length (write_bytes (ar_buffer r) (ar_mask r) (write_pos r AND ar_mask r) (take n data)) = length (ar_buffer r)"
    by (rule write_bytes_ring [OF _ start]) (use M l nf n p in simp_all)
  moreover have "length (take n data) = n" using n by simp
  ultimately show ?thesis using n filled nf inv by (simp add: r' ar_contents_def ar_inv_def)
qed

lemma ar_Read_correct:
  assumes inv: "ar_inv k r" and rd: "ar_Read m r = (out, r')"
  shows "ar_inv k r' \<and> out = take m (ar_contents r) \<and> ar_contents r' = drop m (ar_contents r)"
proof -
  note M = ar_mask_facts(1) [OF inv]
  from inv have k: "k < 32" and l: "length (ar_buffer r) = 2 ^ k" and f: "ar_filled r < 2 ^ k"
    by (simp_all add: ar_inv_def)
  have p: "(2::nat) ^ k < 4294967296" using power_strict_increasing [OF k, of "2 :: nat"] by simp
  let ?n = "min m (ar_filled r)"
  have out: "out = read_bytes (ar_buffer r) (ar_mask r) (read_pos r AND ar_mask r) ?n"
    and r': "r' = r\<lparr>read_pos := read_pos r + of_nat ?n\<rparr>"
    using rd ReadAvailable_filled [OF inv] by (auto simp: ar_Read_def Let_def min_def)
  have "out = ring (ar_buffer r) (unat (read_pos r)) ?n"
    unfolding out by (rule read_bytes_ring) (use M l p in simp_all)
  then have "out = take m (ar_contents r)" by (simp add: ar_contents_def ring_take)
  moreover have filled: "ar_filled r' = ar_filled r - ?n"
  proof -
    have le: "of_nat ?n \<le> write_pos r - read_pos r" using f p
      by (simp add: word_le_nat_alt unat_of_nat ar_filled_def)
    have e: "write_pos r - (read_pos r + of_nat ?n) = (write_pos r - read_pos r) - of_nat ?n"
      by (rule diff_diff_eq [symmetric])
    have "write_pos r' = write_pos r" "read_pos r' = read_pos r + of_nat ?n" by (simp_all add: r')
    then have "ar_filled r' = unat ((write_pos r - read_pos r) - of_nat ?n)"
      unfolding ar_filled_def [of r'] by (simp only: e)
    also have "\<dots> = ar_filled r - unat (of_nat ?n :: u32)"
      using unat_sub [OF le] by (simp only: ar_filled_def)
    also have "unat (of_nat ?n :: u32) = ?n" using f p by (simp add: unat_of_nat)
    finally show ?thesis .
  qed
  moreover have "ar_contents r' = drop m (ar_contents r)"
  proof -
    have "unat (read_pos r + of_nat ?n) mod length (ar_buffer r) = (unat (read_pos r) + ?n) mod length (ar_buffer r)"
      using unat_add_mod_pow [OF k] l by simp
    note start = ring_mod_start [OF this]
    have "ar_buffer r' = ar_buffer r" "read_pos r' = read_pos r + of_nat ?n" by (simp_all add: r')
    then have "ar_contents r' = ring (ar_buffer r) (unat (read_pos r) + ?n) (ar_filled r - ?n)"
      unfolding ar_contents_def filled by (simp only: start)
    also have "\<dots> = drop ?n (ar_contents r)" by (simp add: ar_contents_def ring_drop)
    also have "\<dots> = drop m (ar_contents r)"
      by (cases "m \<le> ar_filled r") (simp_all add: min_def length_ar_contents)
    finally show ?thesis .
  qed
  moreover have "ar_inv k r'"
  proof -
    have "ar_buffer r' = ar_buffer r" by (simp add: r')
    moreover have "ar_filled r' < 2 ^ k" using filled f by linarith
    ultimately show ?thesis using inv by (simp add: ar_inv_def)
  qed
  ultimately show ?thesis by blast
qed

definition ar_push :: "u8 \<Rightarrow> audio_ring \<Rightarrow> bool \<times> audio_ring" where
  "ar_push b r = (let (n, r') = ar_Write [b] r in (n = 1, r'))"

definition ar_pop :: "audio_ring \<Rightarrow> (u8 \<times> audio_ring) option" where
  "ar_pop r = (case ar_Read 1 r of ([], r') \<Rightarrow> None | (b # bs, r') \<Rightarrow> Some (b, r'))"

interpretation audioq: bounded_fifo ar_push ar_pop ar_contents "ar_inv k" "2 ^ k - 1" for k
proof
  fix r r' :: audio_ring and e ok
  assume inv: "ar_inv k r"
  then have f: "ar_filled r < 2 ^ k" by (simp add: ar_inv_def)
  obtain n q where w: "ar_Write [e] r = (n, q)" by (rule prod.exhaust)
  note W = ar_Write_correct [OF inv w]
  show "ok \<and> ar_contents r' = ar_contents r @ [e]"
    if "length (ar_contents r) < 2 ^ k - 1" "ar_push e r = (ok, r')"
    using that W w by (auto simp: ar_push_def length_ar_contents)
  show "\<not> ok \<and> ar_contents r' = ar_contents r"
    if "length (ar_contents r) = 2 ^ k - 1" "ar_push e r = (ok, r')"
    using that W w by (auto simp: ar_push_def length_ar_contents)
  show "ar_inv k r'" if "ar_push e r = (ok, r')" using that W w by (auto simp: ar_push_def)
  show "length (ar_contents r) \<le> 2 ^ k - 1" using f by (auto simp: length_ar_contents)
  obtain out q where rd: "ar_Read 1 r = (out, q)" by (rule prod.exhaust)
  note R = ar_Read_correct [OF inv rd]
  show "ar_pop r = None" if "ar_contents r = []" using that R rd by (simp add: ar_pop_def)
  show "\<exists>q'. ar_pop r = Some (e, q') \<and> ar_contents q' = es \<and> ar_inv k q'" if "ar_contents r = e # es" for es
    using that R rd by (simp add: ar_pop_def)
qed

text \<open>A producer that writes and a consumer that reads blocks of bytes, in any order.\<close>

datatype ring_op = RWrite "u8 list" | RRead nat

fun run_ring :: "ring_op list \<Rightarrow> audio_ring \<Rightarrow> u8 list \<times> u8 list \<times> audio_ring" where
  "run_ring [] r = ([], [], r)"
| "run_ring (RWrite data # ops) r =
     (let (n, r1) = ar_Write data r; (acc, out, r2) = run_ring ops r1 in (take n data @ acc, out, r2))"
| "run_ring (RRead n # ops) r =
     (let (bs, r1) = ar_Read n r; (acc, out, r2) = run_ring ops r1 in (acc, bs @ out, r2))"

lemma run_ring_order:
  "ar_inv k r \<Longrightarrow> run_ring ops r = (acc, out, r') \<Longrightarrow> ar_inv k r' \<and> ar_contents r @ acc = out @ ar_contents r'"
proof (induction ops arbitrary: r acc out r')
  case (Cons oper ops)
  show ?case
  proof (cases oper)
    case (RWrite data)
    obtain n r1 where w: "ar_Write data r = (n, r1)" by (rule prod.exhaust)
    obtain a o1 r2 where run: "run_ring ops r1 = (a, o1, r2)" by (rule prod_cases3)
    note W = ar_Write_correct [OF Cons.prems(1) w]
    from Cons.IH [OF _ run] W have "ar_inv k r2" "ar_contents r1 @ a = o1 @ ar_contents r2" by blast+
    with Cons.prems(2) RWrite w run W show ?thesis by simp
  next
    case (RRead n)
    obtain bs r1 where rd: "ar_Read n r = (bs, r1)" by (rule prod.exhaust)
    obtain a o1 r2 where run: "run_ring ops r1 = (a, o1, r2)" by (rule prod_cases3)
    note R = ar_Read_correct [OF Cons.prems(1) rd]
    from Cons.IH [OF _ run] R have I: "ar_inv k r2" "ar_contents r1 @ a = o1 @ ar_contents r2" by blast+
    have "ar_contents r = bs @ ar_contents r1" using R by simp
    with I Cons.prems(2) RRead rd run show ?thesis by simp
  qed
qed simp

lemma ar_Init_inv:
  assumes "length (ar_buffer r) = 2 ^ k" and "0 < k" and "k < 32"
  shows "ar_inv k (ar_Init r)" and "ar_contents (ar_Init r) = []"
  using assms by (simp_all add: ar_inv_def ar_Init_def ar_filled_def ar_contents_def)

text \<open>C23. From \<^verbatim>\<open>Init\<close>, for any power of two up to \<open>2^31\<close> and any interleaving of \<^verbatim>\<open>Write\<close> and \<^verbatim>\<open>Read\<close> calls, also
  when the 32-bit positions wrap: the bytes read, followed by those still in the ring, are the bytes
  that were accepted, in order; \<^verbatim>\<open>ReadAvailable\<close> is what is in the ring and \<^verbatim>\<open>WriteAvailable\<close> the rest of its
  capacity of \<^verbatim>\<open>SIZE - 1\<close>.\<close>

theorem audio_ring_order:
  assumes "length (ar_buffer r) = 2 ^ k" and "0 < k" and "k < 32"
    and "run_ring ops (ar_Init r) = (accepted, got, r')"
  shows "accepted = got @ ar_contents r' \<and>
    unat (ReadAvailable r') = length (ar_contents r') \<and>
    unat (WriteAvailable r') = 2 ^ k - 1 - length (ar_contents r') \<and> length (ar_contents r') \<le> 2 ^ k - 1 \<and>
    IsEmpty r' = (ar_contents r' = []) \<and> IsFull r' = (length (ar_contents r') = 2 ^ k - 1)"
proof -
  note I = ar_Init_inv [OF assms(1-3)]
  from run_ring_order [OF I(1) assms(4)] I(2)
  have inv: "ar_inv k r'" and o: "accepted = got @ ar_contents r'" by simp_all
  note A = ReadAvailable_filled [OF inv] WriteAvailable_free [OF inv]
  have le: "ar_filled r' \<le> 2 ^ k - 1" using inv by (auto simp: ar_inv_def)
  have "IsEmpty r' = (ar_filled r' = 0)" using A(1) by (metis IsEmpty_def unat_eq_0)
  moreover have "IsFull r' = (ar_filled r' = 2 ^ k - 1)" using A(2) le by (metis IsFull_def unat_eq_0 diff_is_0_eq le_antisym order_refl)
  moreover have "ar_contents r' = [] \<longleftrightarrow> ar_filled r' = 0" by (simp add: length_ar_contents [symmetric])
  ultimately show ?thesis using o A le by (simp add: length_ar_contents)
qed

lemma audio_ring_order_witness:
  "\<exists>acc out r'. run_ring [RWrite [1, 2], RRead 1, RWrite [3, 4, 5], RRead 2]
      (ar_Init \<lparr>ar_buffer = [0, 0, 0, 0], write_pos = 0, read_pos = 0\<rparr>) = (acc, out, r') \<and> acc = out @ ar_contents r'"
proof -
  let ?r = "\<lparr>ar_buffer = [0, 0, 0, 0], write_pos = 0, read_pos = 0\<rparr> :: audio_ring"
  obtain acc out r' where run: "run_ring [RWrite [1, 2], RRead 1, RWrite [3, 4, 5], RRead 2] (ar_Init ?r) = (acc, out, r')"
    by (rule prod_cases3)
  have "length (ar_buffer ?r) = 2 ^ 2" "(0::nat) < 2" "(2::nat) < 32" by simp_all
  from audio_ring_order [OF this run] run show ?thesis by blast
qed

section \<open>The mixer\<close>

record AudioChannel =
  ac_active :: bool
  ac_data :: addr
  ac_size :: nat
  ac_position :: nat
  ac_volume :: nat
  ac_loop :: bool

record mixer =
  channels :: "AudioChannel list"
  activeCount :: nat

abbreviation MAX_AUDIO_CHANNELS :: nat where "MAX_AUDIO_CHANNELS \<equiv> 8"

definition mixer_Init :: mixer where
  "mixer_Init = \<lparr>channels = replicate MAX_AUDIO_CHANNELS \<lparr>ac_active = False, ac_data = 0, ac_size = 0, ac_position = 0,
     ac_volume = 255, ac_loop = False\<rparr>, activeCount = 0\<rparr>"

fun free_channel :: "AudioChannel list \<Rightarrow> nat \<Rightarrow> nat option" where
  "free_channel [] i = None"
| "free_channel (c # cs) i = (if \<not> ac_active c then Some i else free_channel cs (i + 1))"

text \<open>\<^verbatim>\<open>Play\<close>: the channel, or \<open>None\<close> for -1.\<close>

definition mixer_Play :: "addr \<Rightarrow> nat \<Rightarrow> nat \<Rightarrow> bool \<Rightarrow> mixer \<Rightarrow> nat option \<times> mixer" where
  "mixer_Play dat sz vol lp mx =
     (case free_channel (channels mx) 0 of
        None \<Rightarrow> (None, mx)
      | Some i \<Rightarrow> (Some i, \<lparr>channels = (channels mx)[i := \<lparr>ac_active = True, ac_data = dat, ac_size = sz,
            ac_position = 0, ac_volume = vol, ac_loop = lp\<rparr>], activeCount = add32 (activeCount mx) 1\<rparr>))"

definition StopChannel :: "int \<Rightarrow> mixer \<Rightarrow> mixer" where
  "StopChannel channel mx =
     (if channel \<ge> 0 \<and> channel < int MAX_AUDIO_CHANNELS
      then let i = nat channel
           in if ac_active (channels mx ! i)
              then \<lparr>channels = (channels mx)[i := (channels mx ! i)\<lparr>ac_active := False\<rparr>],
                    activeCount = sub32 (activeCount mx) 1\<rparr>
              else mx
      else mx)"

definition StopAll :: "mixer \<Rightarrow> mixer" where
  "StopAll mx = \<lparr>channels = map (\<lambda>c. c\<lparr>ac_active := False\<rparr>) (channels mx), activeCount = 0\<rparr>"

definition SetChannelVolume :: "int \<Rightarrow> nat \<Rightarrow> mixer \<Rightarrow> mixer" where
  "SetChannelVolume channel vol mx =
     (if channel \<ge> 0 \<and> channel < int MAX_AUDIO_CHANNELS
      then mx\<lparr>channels := (channels mx)[nat channel := (channels mx ! nat channel)\<lparr>ac_volume := vol\<rparr>]\<rparr>
      else mx)"

text \<open>The 16-bit sample at a position, scaled by the volume; C++ division rounds towards zero.\<close>

definition sample_at :: "(addr \<Rightarrow> u8) \<Rightarrow> AudioChannel \<Rightarrow> nat \<Rightarrow> int" where
  "sample_at m c pos =
     (let lo = unat (m (add64 (ac_data c) pos)); hi = unat (m (add64 (ac_data c) (add32 pos 1)))
      in sint (of_nat (lo + hi * 256) :: u16))"

definition scaled_sample :: "(addr \<Rightarrow> u8) \<Rightarrow> AudioChannel \<Rightarrow> nat \<Rightarrow> int" where
  "scaled_sample m c pos = (sample_at m c pos * int (ac_volume c)) sdiv 255"

definition saturate :: "int \<Rightarrow> int" where
  "saturate v = (if v > 32767 then 32767 else if v < - 32768 then - 32768 else v)"

text \<open>The inner loop of \<^verbatim>\<open>Mix\<close> from sample \<open>i\<close> on, with \<open>n\<close> samples to go.\<close>

fun mix_channel :: "(addr \<Rightarrow> u8) \<Rightarrow> nat \<Rightarrow> nat \<Rightarrow> AudioChannel \<Rightarrow> int list \<Rightarrow> AudioChannel \<times> int list" where
  "mix_channel m i 0 c outp = (c, outp)"
| "mix_channel m i (Suc n) c outp =
     (if ac_position c \<ge> ac_size c \<and> \<not> ac_loop c then (c\<lparr>ac_active := False\<rparr>, outp)
      else let pos = (if ac_position c \<ge> ac_size c then 0 else ac_position c);
               c1 = c\<lparr>ac_position := add32 pos 2\<rparr>
           in mix_channel m (i + 1) n c1 (outp[i := saturate (outp ! i + scaled_sample m c pos)]))"

fun mix_channels :: "(addr \<Rightarrow> u8) \<Rightarrow> nat \<Rightarrow> AudioChannel list \<Rightarrow> nat \<Rightarrow> int list \<Rightarrow> AudioChannel list \<times> nat \<times> int list" where
  "mix_channels m samples [] active outp = ([], active, outp)"
| "mix_channels m samples (c # cs) active outp =
     (if \<not> ac_active c \<or> ac_data c = 0
      then let (cs1, a1, o1) = mix_channels m samples cs active outp in (c # cs1, a1, o1)
      else let (c1, o1) = mix_channel m 0 samples c outp;
               (cs1, a1, o2) = mix_channels m samples cs (if ac_active c1 then active else sub32 active 1) o1
           in (c1 # cs1, a1, o2))"

definition Mix :: "(addr \<Rightarrow> u8) \<Rightarrow> nat \<Rightarrow> mixer \<Rightarrow> int list \<times> mixer" where
  "Mix m samples mx =
     (let (cs, a, outp) = mix_channels m samples (channels mx) (activeCount mx) (replicate samples 0)
      in (outp, \<lparr>channels = cs, activeCount = a\<rparr>))"

definition GetActiveChannels :: "mixer \<Rightarrow> nat" where
  "GetActiveChannels mx = activeCount mx"

subsection \<open>What the mixer computes\<close>

text \<open>The byte offset of the \<open>i\<close>-th sample a channel plays from now on; \<open>None\<close> when it has run out.\<close>

definition sample_index :: "AudioChannel \<Rightarrow> nat \<Rightarrow> nat option" where
  "sample_index c i =
     (if ac_loop c then Some ((ac_position c + 2 * i) mod ac_size c)
      else if ac_position c + 2 * i < ac_size c then Some (ac_position c + 2 * i) else None)"

definition play_sample :: "(addr \<Rightarrow> u8) \<Rightarrow> AudioChannel \<Rightarrow> nat \<Rightarrow> int \<Rightarrow> int" where
  "play_sample m c i acc =
     (case sample_index c i of None \<Rightarrow> acc | Some p \<Rightarrow> saturate (acc + scaled_sample m c p))"

text \<open>
  The same stated without the code's functions.  A sample is two bytes, the low one first, read as a signed 16-bit number; its part
  of the output is that number times the volume divided by 255, rounded towards zero.  The parts are added channel after channel,
  and each sum is cut to what 16 bits hold.
\<close>

definition s16 :: "u8 \<Rightarrow> u8 \<Rightarrow> int" where
  "s16 lo hi = (let u = int (unat lo) + 256 * int (unat hi) in if u < 32768 then u else u - 65536)"

definition at_volume :: "nat \<Rightarrow> int \<Rightarrow> int" where
  "at_volume vol v = (if 0 \<le> v then (v * int vol) div 255 else - ((- v * int vol) div 255))"

definition clip16 :: "int \<Rightarrow> int" where
  "clip16 v = max (- 32768) (min 32767 v)"

definition part :: "(addr \<Rightarrow> u8) \<Rightarrow> AudioChannel \<Rightarrow> nat \<Rightarrow> int" where
  "part m c i =
     (case sample_index c i of
        None \<Rightarrow> 0
      | Some p \<Rightarrow> at_volume (ac_volume c) (s16 (m ((ac_data c + p) mod 2 ^ 64)) (m ((ac_data c + (p + 1)) mod 2 ^ 64))))"

lemma saturate_clip16: "saturate v = clip16 v"
  by (simp add: saturate_def clip16_def)

lemma sample_at_s16:
  assumes "p + 1 < u32_limit"
  shows "sample_at m c p = s16 (m ((ac_data c + p) mod 2 ^ 64)) (m ((ac_data c + (p + 1)) mod 2 ^ 64))"
proof -
  have S: "sint (of_nat (lo + hi * 256) :: u16) = (let u = int lo + 256 * int hi in if u < 32768 then u else u - 65536)"
    if "lo < 256" "hi < 256" for lo hi
  proof -
    have l: "lo + hi * 256 < 2 ^ 16" using that by simp
    let ?w = "of_nat (lo + hi * 256) :: u16"
    have "unat ?w = lo + hi * 256" using l by (simp only: unat_of_nat) simp
    then have u: "uint ?w = int lo + 256 * int hi" by (simp add: uint_nat)
    have m: "(x + 32768) mod 65536 - 32768 = (if x < 32768 then x else x - 65536)" if "0 \<le> x" "x < 65536" for x :: int
    proof (cases "x < 32768")
      case False
      have "(x + 32768) mod 65536 = (x - 32768 + 65536) mod 65536" by (rule arg_cong [where f = "\<lambda>z. z mod 65536"]) simp
      also have "\<dots> = x - 32768" using False that by (simp only: mod_add_self2) simp
      finally show ?thesis using False by simp
    qed (use that in simp)
    show ?thesis unfolding sint_uint u Let_def using that m [of "int lo + 256 * int hi"]
      by (simp add: signed_take_bit_eq_take_bit_shift take_bit_eq_mod)
  qed
  have b: "unat b < 256" for b :: u8 using unsigned_less [of b, where 'a = nat] by simp
  have "add32 p 1 = p + 1" using assms by (simp add: add32_def)
  then show ?thesis by (simp only: sample_at_def s16_def add64_def Let_def S [OF b b]) simp
qed

lemma scaled_sample_at_volume: "scaled_sample m c p = at_volume (ac_volume c) (sample_at m c p)"
  by (simp add: scaled_sample_def at_volume_def signed_divide_int_def sgn_if mult_le_0_iff zero_le_mult_iff abs_mult)

definition is_playing :: "AudioChannel \<Rightarrow> bool" where
  "is_playing c \<longleftrightarrow> ac_active c \<and> ac_data c \<noteq> 0"

text \<open>Whole 16-bit samples, at least one of them, and a size that leaves room for the last step of the position.\<close>

definition channel_ok :: "AudioChannel \<Rightarrow> bool" where
  "channel_ok c \<longleftrightarrow> 2 dvd ac_size c \<and> 2 dvd ac_position c \<and> ac_position c \<le> ac_size c \<and> 0 < ac_size c \<and>
     ac_size c + 2 < u32_limit"

definition active_total :: "AudioChannel list \<Rightarrow> nat" where
  "active_total cs = length (filter ac_active cs)"

lemma scaled_sample_cong:
  "ac_data c' = ac_data c \<Longrightarrow> ac_volume c' = ac_volume c \<Longrightarrow> scaled_sample m c' p = scaled_sample m c p"
  by (simp add: scaled_sample_def sample_at_def)

lemma channel_step:
  assumes ok: "channel_ok c" and go: "\<not> (ac_position c \<ge> ac_size c \<and> \<not> ac_loop c)"
    and c1: "c1 = c\<lparr>ac_position := add32 (if ac_position c \<ge> ac_size c then 0 else ac_position c) 2\<rparr>"
  shows "channel_ok c1" and "sample_index c 0 = Some (if ac_position c \<ge> ac_size c then 0 else ac_position c)"
    and "sample_index c1 i = sample_index c (Suc i)" and "scaled_sample m c1 p = scaled_sample m c p"
proof -
  let ?p = "if ac_position c \<ge> ac_size c then 0 else ac_position c"
  have sz: "2 dvd ac_size c" "2 dvd ac_position c" "ac_position c \<le> ac_size c" "0 < ac_size c" "ac_size c + 2 < u32_limit"
    using ok by (simp_all add: channel_ok_def)
  have p: "?p < ac_size c" "2 dvd ?p" using sz by auto
  then have a: "add32 ?p 2 = ?p + 2" using sz(5) by (simp add: add32_def)
  have "?p + 2 \<le> ac_size c" using p sz(1) by (auto elim!: dvdE)
  then show "channel_ok c1" using sz p(2) a by (simp add: c1 channel_ok_def)
  show "sample_index c 0 = Some ?p" using go sz by (auto simp: sample_index_def)
  show "sample_index c1 i = sample_index c (Suc i)"
  proof (cases "ac_position c \<ge> ac_size c")
    case True
    then have "ac_position c = ac_size c" "ac_loop c" using sz(3) go by auto
    moreover have "(ac_size c + (2 + 2 * i)) mod ac_size c = (2 + 2 * i) mod ac_size c" by (rule mod_add_self1)
    ultimately show ?thesis using a by (simp add: c1 sample_index_def)
  next
    case False
    then show ?thesis using a by (simp add: c1 sample_index_def add.assoc)
  qed
  show "scaled_sample m c1 p = scaled_sample m c p" by (rule scaled_sample_cong) (simp_all add: c1)
qed

lemma mix_channel_correct:
  assumes "channel_ok c" and "i + n = length outp" and "mix_channel m i n c outp = (c', out')"
  shows "channel_ok c' \<and> length out' = length outp \<and>
    (\<forall>j < length outp. out' ! j = (if j < i then outp ! j else play_sample m c (j - i) (outp ! j)))"
  using assms
proof (induction n arbitrary: i c outp)
  case 0
  then show ?case by simp
next
  case (Suc n)
  show ?case
  proof (cases "ac_position c \<ge> ac_size c \<and> \<not> ac_loop c")
    case True
    then have "c' = c\<lparr>ac_active := False\<rparr>" "out' = outp" using Suc.prems(3) by auto
    moreover have "sample_index c j = None" for j using True by (simp add: sample_index_def)
    ultimately show ?thesis using Suc.prems(1) by (simp add: channel_ok_def play_sample_def)
  next
    case False
    let ?p = "if ac_position c \<ge> ac_size c then 0 else ac_position c"
    let ?c1 = "c\<lparr>ac_position := add32 ?p 2\<rparr>" and ?o = "outp[i := saturate (outp ! i + scaled_sample m c ?p)]"
    note S = channel_step [OF Suc.prems(1) False refl]
    have "mix_channel m (i + 1) n ?c1 ?o = (c', out')" using Suc.prems(3) False by (simp add: Let_def)
    from Suc.IH [OF S(1) _ this] Suc.prems(2)
    have I: "channel_ok c'" "length out' = length outp"
      "\<forall>j < length outp. out' ! j = (if j < i + 1 then ?o ! j else play_sample m ?c1 (j - (i + 1)) (?o ! j))"
      by simp_all
    have "out' ! j = (if j < i then outp ! j else play_sample m c (j - i) (outp ! j))" if j: "j < length outp" for j
    proof -
      consider "j < i" | "j = i" | "i < j" by linarith
      then show ?thesis
      proof cases
        case 1
        then show ?thesis using I(3) j by simp
      next
        case 2
        then show ?thesis using I(3) j S(2) by (simp add: play_sample_def)
      next
        case 3
        then obtain d where d: "j = i + Suc d" using less_iff_Suc_add by auto
        have "play_sample m ?c1 d (outp ! j) = play_sample m c (Suc d) (outp ! j)"
          unfolding play_sample_def S(3) S(4) ..
        then show ?thesis using I(3) j d by simp
      qed
    qed
    with I show ?thesis by blast
  qed
qed

text \<open>All channels: sample by sample instead of channel by channel.\<close>

definition mix_sample :: "(addr \<Rightarrow> u8) \<Rightarrow> AudioChannel list \<Rightarrow> nat \<Rightarrow> int \<Rightarrow> int" where
  "mix_sample m cs i v = foldl (\<lambda>acc c. if is_playing c then play_sample m c i acc else acc) v cs"

lemma mix_channel_active:
  assumes "mix_channel m i n c outp = (c', out')" and "ac_active c'"
  shows "ac_active c"
  using assms by (induction m i n c outp rule: mix_channel.induct) (auto simp: Let_def split: if_splits)

lemma mix_channels_correct:
  assumes "\<forall>c \<in> set cs. is_playing c \<longrightarrow> channel_ok c"
    and "mix_channels m (length outp) cs active outp = (cs', active', out')"
    and "active_total cs \<le> active" and "active < u32_limit"
  shows "length cs' = length cs \<and> length out' = length outp \<and>
    (\<forall>j < length outp. out' ! j = mix_sample m cs j (outp ! j)) \<and>
    active' + active_total cs = active + active_total cs' \<and>
    (\<forall>c \<in> set cs'. is_playing c \<longrightarrow> channel_ok c)"
  using assms
proof (induction cs arbitrary: active outp cs')
  case Nil
  then show ?case by (simp add: mix_sample_def active_total_def)
next
  case (Cons c cs)
  show ?case
  proof (cases "is_playing c")
    case False
    obtain ds a o1 where r: "mix_channels m (length outp) cs active outp = (ds, a, o1)" by (rule prod_cases3)
    from Cons.prems(3) have le: "active_total cs \<le> active" by (simp add: active_total_def split: if_splits)
    have e: "cs' = c # ds" "active' = a" "out' = o1"
      using Cons.prems(2) False r by (auto simp: is_playing_def)
    have "\<forall>c \<in> set cs. is_playing c \<longrightarrow> channel_ok c" using Cons.prems(1) by simp
    from Cons.IH [OF this r [folded e(2,3)] le Cons.prems(4)] False Cons.prems(3) show ?thesis
      unfolding e(1) by (simp add: mix_sample_def active_total_def)
  next
    case True
    let ?a1 = "\<lambda>c1. if ac_active c1 then active else sub32 active 1"
    obtain c1 o1 where r1: "mix_channel m 0 (length outp) c outp = (c1, o1)" by (rule prod.exhaust)
    obtain ds a o2 where r: "mix_channels m (length outp) cs (?a1 c1) o1 = (ds, a, o2)" by (rule prod_cases3)
    have ok: "channel_ok c" using Cons.prems(1) True by simp
    from mix_channel_correct [OF ok _ r1] have C: "channel_ok c1" "length o1 = length outp"
      "\<forall>j < length outp. o1 ! j = play_sample m c j (outp ! j)" by simp_all
    have act: "ac_active c" "ac_data c \<noteq> 0" using True by (simp_all add: is_playing_def)
    have e: "cs' = c1 # ds" "active' = a" "out' = o2" using Cons.prems(2) act r1 r by auto
    have pos: "0 < active" and le: "Suc (active_total cs) \<le> active"
      using Cons.prems(3) act by (simp_all add: active_total_def)
    then have s1: "sub32 active 1 = active - 1" using Cons.prems(4) by (simp add: sub32_def mod_if)
    have le1: "active_total cs \<le> ?a1 c1" "?a1 c1 < u32_limit" using le s1 Cons.prems(4) by auto
    have "\<forall>c \<in> set cs. is_playing c \<longrightarrow> channel_ok c" using Cons.prems(1) by simp
    from Cons.IH [OF this r [folded C(2) e(2,3)] le1]
    have I: "length ds = length cs" "length out' = length outp" "\<forall>j < length outp. out' ! j = mix_sample m cs j (o1 ! j)"
      "active' + active_total cs = ?a1 c1 + active_total ds"
      "\<forall>c \<in> set ds. is_playing c \<longrightarrow> channel_ok c" using C(2) by simp_all
    have "active' + active_total (c # cs) = active + active_total cs'"
      using I(4) s1 pos act by (auto simp: e(1) active_total_def split: if_splits)
    moreover have "\<forall>j < length outp. out' ! j = mix_sample m (c # cs) j (outp ! j)"
      using I(3) C(3) True by (simp add: mix_sample_def)
    ultimately show ?thesis using I C(1) unfolding e(1) by simp
  qed
qed

text \<open>The counter is the number of active channels.\<close>

definition mixer_ok :: "mixer \<Rightarrow> bool" where
  "mixer_ok mx \<longleftrightarrow> length (channels mx) = MAX_AUDIO_CHANNELS \<and> activeCount mx = active_total (channels mx) \<and>
     (\<forall>c \<in> set (channels mx). is_playing c \<longrightarrow> channel_ok c)"

lemma active_total_le: "active_total cs \<le> length cs"
  by (simp add: active_total_def)

lemma active_total_update:
  "i < length cs \<Longrightarrow> active_total (cs[i := c]) + of_bool (ac_active (cs ! i)) = active_total cs + of_bool (ac_active c)"
  unfolding active_total_def
proof (induction cs arbitrary: i)
  case (Cons x xs)
  then show ?case by (cases i) auto
qed simp

lemma free_channel_Some:
  "free_channel cs i = Some j \<Longrightarrow> i \<le> j \<and> j - i < length cs \<and> \<not> ac_active (cs ! (j - i))"
proof (induction cs i rule: free_channel.induct)
  case (2 c cs i)
  then show ?case by (auto simp: nth_Cons' split: if_splits)
qed simp

lemma mixer_Init_ok: "mixer_ok mixer_Init"
  by (simp add: mixer_ok_def mixer_Init_def active_total_def is_playing_def)

lemma mixer_Play_ok:
  assumes ok: "mixer_ok mx" and p: "mixer_Play dat sz vol lp mx = (r, mx')"
    and sz: "2 dvd sz" "0 < sz" "sz + 2 < u32_limit"
  shows "mixer_ok mx'"
proof (cases "free_channel (channels mx) 0")
  case None
  then show ?thesis using ok p by (simp add: mixer_Play_def)
next
  case (Some i)
  let ?c = "\<lparr>ac_active = True, ac_data = dat, ac_size = sz, ac_position = 0, ac_volume = vol, ac_loop = lp\<rparr>"
  have i: "i < length (channels mx)" "\<not> ac_active (channels mx ! i)" using free_channel_Some [OF Some] by simp_all
  have mx': "mx' = \<lparr>channels = (channels mx)[i := ?c], activeCount = add32 (activeCount mx) 1\<rparr>"
    using p Some by (auto simp: mixer_Play_def)
  have "active_total (channels mx) \<le> 8" using active_total_le [of "channels mx"] ok by (simp add: mixer_ok_def)
  then have "activeCount mx' = active_total (channels mx')"
    using active_total_update [OF i(1), of ?c] i(2) ok by (simp add: mx' mixer_ok_def add32_def)
  moreover have "channel_ok ?c" using sz by (simp add: channel_ok_def)
  then have "\<forall>c \<in> set ((channels mx)[i := ?c]). is_playing c \<longrightarrow> channel_ok c"
    using ok set_update_subset_insert [of "channels mx" i ?c] by (auto simp: mixer_ok_def)
  ultimately show ?thesis using ok by (simp add: mixer_ok_def mx')
qed

lemma StopAll_ok: "mixer_ok mx \<Longrightarrow> mixer_ok (StopAll mx)"
  by (auto simp: mixer_ok_def StopAll_def active_total_def is_playing_def filter_empty_conv)

lemma StopChannel_ok:
  assumes "mixer_ok mx"
  shows "mixer_ok (StopChannel ch mx)"
proof (cases "ch \<ge> 0 \<and> ch < 8 \<and> ac_active (channels mx ! nat ch)")
  case True
  let ?c = "(channels mx ! nat ch)\<lparr>ac_active := False\<rparr>"
  have l: "nat ch < length (channels mx)" using True assms by (simp add: mixer_ok_def nat_less_iff)
  have a: "active_total (channels mx) = active_total ((channels mx)[nat ch := ?c]) + 1"
    using active_total_update [OF l, of ?c] True by simp
  have "active_total (channels mx) \<le> 8" using active_total_le [of "channels mx"] assms by (simp add: mixer_ok_def)
  then have "sub32 (activeCount mx) 1 = active_total ((channels mx)[nat ch := ?c])"
    using a assms by (simp add: mixer_ok_def sub32_def)
  moreover have "\<not> is_playing ?c" by (simp add: is_playing_def)
  then have "\<forall>c \<in> set ((channels mx)[nat ch := ?c]). is_playing c \<longrightarrow> channel_ok c"
    using assms set_update_subset_insert [of "channels mx" "nat ch" ?c] by (auto simp: mixer_ok_def)
  ultimately show ?thesis using True assms by (simp add: StopChannel_def mixer_ok_def Let_def)
next
  case False
  then have "StopChannel ch mx = mx" by (auto simp: StopChannel_def Let_def)
  then show ?thesis using assms by simp
qed

lemma SetChannelVolume_ok:
  assumes "mixer_ok mx"
  shows "mixer_ok (SetChannelVolume ch v mx)"
proof (cases "ch \<ge> 0 \<and> ch < 8")
  case True
  let ?c = "(channels mx ! nat ch)\<lparr>ac_volume := v\<rparr>"
  have l: "nat ch < length (channels mx)" using True assms by (simp add: mixer_ok_def nat_less_iff)
  then have "channels mx ! nat ch \<in> set (channels mx)" by simp
  then have "is_playing ?c \<longrightarrow> channel_ok ?c" using assms by (simp add: mixer_ok_def is_playing_def channel_ok_def)
  then have "\<forall>c \<in> set ((channels mx)[nat ch := ?c]). is_playing c \<longrightarrow> channel_ok c"
    using assms set_update_subset_insert [of "channels mx" "nat ch" ?c] by (auto simp: mixer_ok_def)
  then show ?thesis using active_total_update [OF l, of ?c] True assms by (simp add: SetChannelVolume_def mixer_ok_def)
next
  case False
  then have "SetChannelVolume ch v mx = mx" by (auto simp: SetChannelVolume_def)
  then show ?thesis using assms by simp
qed

lemma sample_index_lt: "channel_ok c \<Longrightarrow> sample_index c i = Some p \<Longrightarrow> p + 1 < u32_limit"
  by (auto simp: channel_ok_def sample_index_def split: if_splits dest: mod_less_divisor [of "ac_size c" "ac_position c + 2 * i"])

lemma play_sample_part:
  assumes "channel_ok c" and "acc = clip16 acc"
  shows "play_sample m c i acc = clip16 (acc + part m c i)"
proof (cases "sample_index c i")
  case None
  with assms(2) show ?thesis by (simp add: play_sample_def part_def)
next
  case (Some p)
  with sample_at_s16 [OF sample_index_lt [OF assms(1) Some]] show ?thesis
    by (simp add: play_sample_def part_def saturate_clip16 scaled_sample_at_volume)
qed

lemma clip16_idem: "clip16 v = clip16 (clip16 v)"
  by (simp add: clip16_def)

lemma mix_sample_parts:
  assumes "\<forall>c \<in> set cs. is_playing c \<longrightarrow> channel_ok c" and "v = clip16 v"
  shows "mix_sample m cs i v = foldl (\<lambda>acc x. clip16 (acc + x)) v (map (\<lambda>c. part m c i) (filter is_playing cs))"
  using assms
proof (induction cs arbitrary: v)
  case Nil
  then show ?case by (simp add: mix_sample_def)
next
  case (Cons c cs)
  show ?case
  proof (cases "is_playing c")
    case True
    have "play_sample m c i v = clip16 (v + part m c i)" using Cons.prems True by (intro play_sample_part) simp_all
    with Cons.IH [of "clip16 (v + part m c i)"] Cons.prems(1) True clip16_idem show ?thesis by (simp add: mix_sample_def)
  next
    case False
    with Cons show ?thesis by (simp add: mix_sample_def)
  qed
qed

text \<open>While no sum leaves the 16-bit range nothing is cut.\<close>

lemma clip_sums_plain:
  "(\<forall>k \<le> length xs. \<bar>v + sum_list (take k xs)\<bar> \<le> 32767) \<Longrightarrow> foldl (\<lambda>acc x. clip16 (acc + x)) v xs = v + sum_list xs"
proof (induction xs arbitrary: v)
  case Nil
  then show ?case by simp
next
  case (Cons x xs)
  have "\<bar>v + x\<bar> \<le> 32767" using Cons.prems [rule_format, of 1] by simp
  then have c: "clip16 (v + x) = v + x" by (simp add: clip16_def)
  have "\<forall>k \<le> length xs. \<bar>v + x + sum_list (take k xs)\<bar> \<le> 32767"
  proof (intro allI impI)
    fix k assume "k \<le> length xs"
    with Cons.prems [rule_format, of "Suc k"] show "\<bar>v + x + sum_list (take k xs)\<bar> \<le> 32767" by (simp add: add.assoc)
  qed
  from Cons.IH [OF this] c show ?case by (simp add: add.assoc)
qed

text \<open>C24. \<^verbatim>\<open>Mix\<close>, which adds channel by channel into the output and moves positions as it goes, computes
  each output sample from the parts of the playing channels: they are added in the order of the channels, each sum cut to the range
  of 16 bits, and where no sum leaves that range the output is their plain sum.  A part is the channel's next 16-bit sample
  (little-endian, signed) times the volume over 255, towards zero; a channel runs out at its end or starts over when it loops.
  The mixer's invariant is kept, in particular the counter of active channels.\<close>

theorem Mix_equals_sum:
  assumes "mixer_ok mx" and "Mix m samples mx = (outp, mx')"
  shows "mixer_ok mx' \<and> length outp = samples \<and>
    (\<forall>i < samples.
       let parts = map (\<lambda>c. part m c i) (filter is_playing (channels mx))
       in outp ! i = foldl (\<lambda>acc x. clip16 (acc + x)) 0 parts \<and>
          ((\<forall>k \<le> length parts. \<bar>sum_list (take k parts)\<bar> \<le> 32767) \<longrightarrow> outp ! i = sum_list parts))"
proof -
  obtain cs a o1 where r: "mix_channels m samples (channels mx) (activeCount mx) (replicate samples 0) = (cs, a, o1)"
    by (rule prod_cases3)
  have e: "outp = o1" "mx' = \<lparr>channels = cs, activeCount = a\<rparr>" using assms(2) r by (auto simp: Mix_def)
  have "active_total (channels mx) \<le> 8" using active_total_le [of "channels mx"] assms(1) by (simp add: mixer_ok_def)
  then have "activeCount mx < u32_limit" "active_total (channels mx) \<le> activeCount mx"
    using assms(1) by (simp_all add: mixer_ok_def)
  from mix_channels_correct [OF _ _ this(2,1), of m "replicate samples 0" cs a o1] r assms(1)
  have M: "length cs = length (channels mx)" "length o1 = samples"
    "\<forall>j < samples. o1 ! j = mix_sample m (channels mx) j (replicate samples 0 ! j)"
    "a + active_total (channels mx) = activeCount mx + active_total cs" "\<forall>c \<in> set cs. is_playing c \<longrightarrow> channel_ok c"
    by (simp_all add: mixer_ok_def)
  have S: "mix_sample m (channels mx) i 0 = foldl (\<lambda>acc x. clip16 (acc + x)) 0 (map (\<lambda>c. part m c i) (filter is_playing (channels mx)))" for i
    using assms(1) by (intro mix_sample_parts) (simp_all add: mixer_ok_def clip16_def)
  have 1: "mixer_ok mx'" and 2: "length outp = samples" using M assms(1) by (simp_all add: e mixer_ok_def)
  have 3: "\<forall>i < samples. let parts = map (\<lambda>c. part m c i) (filter is_playing (channels mx))
       in outp ! i = foldl (\<lambda>acc x. clip16 (acc + x)) 0 parts \<and>
          ((\<forall>k \<le> length parts. \<bar>sum_list (take k parts)\<bar> \<le> 32767) \<longrightarrow> outp ! i = sum_list parts)"
  proof (intro allI impI)
    fix i assume "i < samples"
    define parts where "parts = map (\<lambda>c. part m c i) (filter is_playing (channels mx))"
    have A: "outp ! i = foldl (\<lambda>acc x. clip16 (acc + x)) 0 parts"
      using M(3) S [of i] \<open>i < samples\<close> by (simp add: e parts_def)
    have B: "outp ! i = sum_list parts" if "\<forall>k \<le> length parts. \<bar>sum_list (take k parts)\<bar> \<le> 32767"
      using clip_sums_plain [of parts 0] that A by simp
    show "let parts = map (\<lambda>c. part m c i) (filter is_playing (channels mx))
       in outp ! i = foldl (\<lambda>acc x. clip16 (acc + x)) 0 parts \<and>
          ((\<forall>k \<le> length parts. \<bar>sum_list (take k parts)\<bar> \<le> 32767) \<longrightarrow> outp ! i = sum_list parts)"
      unfolding Let_def parts_def [symmetric] by (rule conjI [OF A impI [OF B]])
  qed
  show ?thesis by (rule conjI [OF 1 conjI [OF 2 3]])
qed

text \<open>Two channels: one plays the samples -2 and 300 at half the volume, the other -32768 twice.  The first sums are -1 - 32768, which is
  cut, and 150 - 32768.\<close>

definition demo_samples :: "addr \<Rightarrow> u8" where
  "demo_samples x =
     (if x = 4096 then 0xFE else if x = 4097 then 0xFF else if x = 4098 then 0x2C else if x = 4099 then 1
      else if x = 8193 \<or> x = 8195 then 0x80 else 0)"

definition demo_mixer :: mixer where
  "demo_mixer = snd (mixer_Play 8192 4 255 False (snd (mixer_Play 4096 4 128 False mixer_Init)))"

lemma replicate_8: "replicate 8 x = x # x # replicate 6 x"
  by (simp add: numeral_eq_Suc)

definition demo_channel :: "addr \<Rightarrow> nat \<Rightarrow> AudioChannel" where
  "demo_channel a vol = \<lparr>ac_active = True, ac_data = a, ac_size = 4, ac_position = 0, ac_volume = vol, ac_loop = False\<rparr>"

definition idle_channel :: AudioChannel where
  "idle_channel = \<lparr>ac_active = False, ac_data = 0, ac_size = 0, ac_position = 0, ac_volume = 255, ac_loop = False\<rparr>"

lemma demo_channels: "channels demo_mixer = demo_channel 4096 128 # demo_channel 8192 255 # replicate 6 idle_channel"
  by (simp add: demo_mixer_def mixer_Play_def mixer_Init_def replicate_8 demo_channel_def idle_channel_def)

lemma demo_playing: "filter is_playing (channels demo_mixer) = [demo_channel 4096 128, demo_channel 8192 255]"
  by (simp add: demo_channels is_playing_def demo_channel_def idle_channel_def)

lemma demo_part:
  "part demo_samples (demo_channel 4096 128) 0 = -1" "part demo_samples (demo_channel 4096 128) 1 = 150"
  "part demo_samples (demo_channel 8192 255) 0 = -32768" "part demo_samples (demo_channel 8192 255) 1 = -32768"
  by (simp_all add: part_def sample_index_def demo_channel_def at_volume_def s16_def demo_samples_def)

lemma demo_parts:
  "map (\<lambda>c. part demo_samples c 0) (filter is_playing (channels demo_mixer)) = [-1, -32768]"
  "map (\<lambda>c. part demo_samples c 1) (filter is_playing (channels demo_mixer)) = [150, -32768]"
  by (simp_all add: demo_playing demo_part del: One_nat_def)

theorem Mix_equals_sum_witness:
  "\<exists>outp mx'. Mix demo_samples 3 demo_mixer = (outp, mx') \<and> outp ! 0 = -32768 \<and> outp ! 1 = -32618"
proof -
  obtain outp mx' where r: "Mix demo_samples 3 demo_mixer = (outp, mx')" by (rule prod.exhaust)
  have "mixer_ok (snd (mixer_Play 4096 4 128 False mixer_Init))"
    by (rule mixer_Play_ok [OF mixer_Init_ok prod.collapse [symmetric]]) simp_all
  then have "mixer_ok demo_mixer"
    unfolding demo_mixer_def by (rule mixer_Play_ok [OF _ prod.collapse [symmetric]]) simp_all
  note M = Mix_equals_sum [OF this r]
  have "outp ! 0 = foldl (\<lambda>acc x. clip16 (acc + x)) 0 [-1, -32768]" using M demo_parts(1) by (simp add: Let_def)
  moreover have "outp ! 1 = foldl (\<lambda>acc x. clip16 (acc + x)) 0 [150, -32768]"
    using M demo_parts(2) by (simp add: Let_def)
  ultimately show ?thesis using r by (simp add: clip16_def)
qed

end
