(* ===== verification/Dirty_Rects.thy ===== *)
theory Dirty_Rects
  imports Prelude
begin

text \<open>
  The dirty rectangles of the compositor, \<^verbatim>\<open>kernel/hal/video/dirty_rects.h\<close>: up to 32 rectangles that have to be
  drawn again.  Coordinates are 32-bit words; \<^verbatim>\<open>int32_t\<close> comparisons are signed, and the two comparisons of
  the merge that mix \<^verbatim>\<open>int32_t\<close> and \<^verbatim>\<open>uint32_t\<close> are unsigned, as in C++.
\<close>

record Rect =
  rc_x :: u32
  rc_y :: u32
  rc_w :: u32
  rc_h :: u32
  rc_valid :: bool

record dirty_rects =
  dr_rects :: "Rect list"
  dr_count :: nat

abbreviation MAX_DIRTY_RECTS :: nat where "MAX_DIRTY_RECTS \<equiv> 32"

definition dr_Init :: "dirty_rects \<Rightarrow> dirty_rects" where
  "dr_Init s = \<lparr>dr_rects = map (\<lambda>r. r\<lparr>rc_valid := False\<rparr>) (dr_rects s), dr_count = 0\<rparr>"

definition touches :: "u32 \<Rightarrow> u32 \<Rightarrow> u32 \<Rightarrow> u32 \<Rightarrow> Rect \<Rightarrow> bool" where
  "touches x y w h r \<longleftrightarrow> x <s rc_x r + rc_w r \<and> rc_x r <s x + w \<and> y <s rc_y r + rc_h r \<and> rc_y r <s y + h"

definition merge_rect :: "u32 \<Rightarrow> u32 \<Rightarrow> u32 \<Rightarrow> u32 \<Rightarrow> Rect \<Rightarrow> Rect" where
  "merge_rect x y w h r =
     (let nx = (if x <s rc_x r then x else rc_x r);
          ny = (if y <s rc_y r then y else rc_y r);
          nx2 = (if x + w > rc_x r + rc_w r then x + w else rc_x r + rc_w r);
          ny2 = (if y + h > rc_y r + rc_h r then y + h else rc_y r + rc_h r)
      in r\<lparr>rc_x := nx, rc_y := ny, rc_w := nx2 - nx, rc_h := ny2 - ny\<rparr>)"

text \<open>The merge loop: the first valid rectangle among the first \<open>n\<close> from \<open>i\<close> on that the new one touches.\<close>

fun find_touching :: "u32 \<Rightarrow> u32 \<Rightarrow> u32 \<Rightarrow> u32 \<Rightarrow> Rect list \<Rightarrow> nat \<Rightarrow> nat \<Rightarrow> nat option" where
  "find_touching x y w h rs i 0 = None"
| "find_touching x y w h rs i (Suc n) =
     (if \<not> rc_valid (rs ! i) then find_touching x y w h rs (i + 1) n
      else if touches x y w h (rs ! i) then Some i
      else find_touching x y w h rs (i + 1) n)"

definition Mark :: "u32 \<Rightarrow> u32 \<Rightarrow> u32 \<Rightarrow> u32 \<Rightarrow> dirty_rects \<Rightarrow> dirty_rects" where
  "Mark x y w h s =
     (if dr_count s \<ge> MAX_DIRTY_RECTS
      then \<lparr>dr_rects = (dr_rects s)[0 := \<lparr>rc_x = 0, rc_y = 0, rc_w = 0xFFFF, rc_h = 0xFFFF, rc_valid = True\<rparr>], dr_count = 1\<rparr>
      else case find_touching x y w h (dr_rects s) 0 (dr_count s) of
          Some i \<Rightarrow> s\<lparr>dr_rects := (dr_rects s)[i := merge_rect x y w h (dr_rects s ! i)]\<rparr>
        | None \<Rightarrow> \<lparr>dr_rects = (dr_rects s)[dr_count s := \<lparr>rc_x = x, rc_y = y, rc_w = w, rc_h = h, rc_valid = True\<rparr>],
                   dr_count = dr_count s + 1\<rparr>)"

definition GetCount :: "dirty_rects \<Rightarrow> nat" where
  "GetCount s = dr_count s"

definition GetRect :: "nat \<Rightarrow> dirty_rects \<Rightarrow> Rect" where
  "GetRect i s = dr_rects s ! i"

definition dr_Clear :: "dirty_rects \<Rightarrow> dirty_rects" where
  "dr_Clear s = \<lparr>dr_rects = map (\<lambda>r. r\<lparr>rc_valid := False\<rparr>) (dr_rects s), dr_count = 0\<rparr>"

definition HasDirty :: "dirty_rects \<Rightarrow> bool" where
  "HasDirty s \<longleftrightarrow> dr_count s > 0"

section \<open>Nothing marked is lost\<close>

definition in_box :: "nat \<Rightarrow> nat \<Rightarrow> u32 \<Rightarrow> u32 \<Rightarrow> u32 \<Rightarrow> u32 \<Rightarrow> bool" where
  "in_box px py x y w h \<longleftrightarrow> unat x \<le> px \<and> px < unat x + unat w \<and> unat y \<le> py \<and> py < unat y + unat h"

definition box_ok :: "u32 \<Rightarrow> u32 \<Rightarrow> u32 \<Rightarrow> u32 \<Rightarrow> bool" where
  "box_ok x y w h \<longleftrightarrow> unat x + unat w < 2147483648 \<and> unat y + unat h < 2147483648"

definition in_rect :: "nat \<Rightarrow> nat \<Rightarrow> Rect \<Rightarrow> bool" where
  "in_rect px py r \<longleftrightarrow> rc_valid r \<and> in_box px py (rc_x r) (rc_y r) (rc_w r) (rc_h r)"

definition rect_ok :: "Rect \<Rightarrow> bool" where
  "rect_ok r \<longleftrightarrow> rc_valid r \<and> box_ok (rc_x r) (rc_y r) (rc_w r) (rc_h r)"

definition covered :: "dirty_rects \<Rightarrow> nat \<Rightarrow> nat \<Rightarrow> bool" where
  "covered s px py \<longleftrightarrow> (\<exists>i < dr_count s. in_rect px py (dr_rects s ! i))"

definition dr_inv :: "dirty_rects \<Rightarrow> bool" where
  "dr_inv s \<longleftrightarrow> length (dr_rects s) = MAX_DIRTY_RECTS \<and> dr_count s \<le> MAX_DIRTY_RECTS \<and>
     (\<forall>i < dr_count s. rect_ok (dr_rects s ! i))"

lemma sint_small:
  assumes "unat (x :: u32) < 2147483648"
  shows "sint x = int (unat x)"
proof -
  have u: "uint x = int (unat x)" by simp
  have "int (unat x) < int 2147483648" using assms by (rule of_nat_less_iff [THEN iffD2])
  then have "uint x < 2 ^ 31" by simp
  moreover have "- (2 ^ 31) \<le> uint x" by (rule order_trans [OF _ unsigned_greater_eq]) simp
  ultimately have "signed_take_bit 31 (uint x) = uint x" by (intro signed_take_bit_int_eq_self) simp_all
  then have "sint x = uint x" by (simp add: sint_uint)
  then show ?thesis using u by (rule trans)
qed

lemma sless_small:
  assumes "unat (x :: u32) < 2147483648" and "unat y < 2147483648"
  shows "x <s y \<longleftrightarrow> unat x < unat y"
  unfolding word_sless_alt sint_small [OF assms(1)] sint_small [OF assms(2)] by (rule of_nat_less_iff)

lemma unat_add_small: "unat (x :: u32) + unat w < 2147483648 \<Longrightarrow> unat (x + w) = unat x + unat w"
  by (simp add: unat_word_ariths)

lemma merge_axis:
  fixes x rx w rw :: u32
  assumes "unat x + unat w < 2147483648" and "unat rx + unat rw < 2147483648"
    and nx: "nx = (if x <s rx then x else rx)" and nx2: "nx2 = (if x + w > rx + rw then x + w else rx + rw)"
  shows "unat nx = min (unat x) (unat rx)" and "unat nx + unat (nx2 - nx) = max (unat x + unat w) (unat rx + unat rw)"
proof -
  show n: "unat nx = min (unat x) (unat rx)" using assms by (simp add: sless_small min_def)
  note A = unat_add_small [OF assms(1)] unat_add_small [OF assms(2)]
  have n2: "unat nx2 = max (unat x + unat w) (unat rx + unat rw)"
    using A by (auto simp: nx2 word_less_nat_alt max_def)
  have "nx \<le> nx2" using n n2 by (simp add: word_le_nat_alt)
  then show "unat nx + unat (nx2 - nx) = max (unat x + unat w) (unat rx + unat rw)"
    using n2 by (simp add: unat_sub word_le_nat_alt)
qed

lemma merge_rect_covers:
  assumes b: "box_ok x y w h" and r: "rect_ok r" and m: "m = merge_rect x y w h r"
  shows "rect_ok m" and "in_box px py x y w h \<or> in_rect px py r \<Longrightarrow> in_rect px py m"
proof -
  have B: "unat x + unat w < 2147483648" "unat y + unat h < 2147483648"
    "unat (rc_x r) + unat (rc_w r) < 2147483648" "unat (rc_y r) + unat (rc_h r) < 2147483648"
    using b r by (simp_all add: box_ok_def rect_ok_def)
  note X = merge_axis [OF B(1,3) refl refl] and Y = merge_axis [OF B(2,4) refl refl]
  have M: "unat (rc_x m) = min (unat x) (unat (rc_x r))" "unat (rc_y m) = min (unat y) (unat (rc_y r))"
    "unat (rc_x m) + unat (rc_w m) = max (unat x + unat w) (unat (rc_x r) + unat (rc_w r))"
    "unat (rc_y m) + unat (rc_h m) = max (unat y + unat h) (unat (rc_y r) + unat (rc_h r))"
    using X Y by (simp_all add: m merge_rect_def Let_def)
  have v: "rc_valid m" using r by (simp add: m merge_rect_def rect_ok_def Let_def)
  then show "rect_ok m" using M(3,4) B by (simp add: rect_ok_def box_ok_def)
  show "in_rect px py m" if "in_box px py x y w h \<or> in_rect px py r"
    using that v unfolding in_rect_def in_box_def M(3,4) unfolding M(1,2) by auto
qed

lemma find_touching_Some:
  "find_touching x y w h rs i n = Some j \<Longrightarrow> i \<le> j \<and> j < i + n \<and> rc_valid (rs ! j) \<and> touches x y w h (rs ! j)"
  by (induction x y w h rs i n rule: find_touching.induct) (auto split: if_splits)

text \<open>\<^verbatim>\<open>Mark\<close> keeps the table well formed (at most 32 rectangles, all valid), and after it every pixel of
  the screen area that was to be drawn before, or lies in the marked rectangle, is covered by one of the
  rectangles, whether the rectangle is merged, added, or replaced by the whole screen when the table is
  full.  Coordinates are on the screen: a rectangle starts at 0 or later and ends before \<open>2^31\<close>.\<close>

theorem Mark_covers:
  assumes inv: "dr_inv s" and box: "box_ok x y w h" and px: "px < 65535" "py < 65535"
  shows "dr_inv (Mark x y w h s) \<and> HasDirty (Mark x y w h s) \<and>
    (covered s px py \<or> in_box px py x y w h \<longrightarrow> covered (Mark x y w h s) px py)"
proof -
  have len: "length (dr_rects s) = 32" and c: "dr_count s \<le> 32" using inv by (simp_all add: dr_inv_def)
  have R: "rect_ok (dr_rects s ! i)" if "i < dr_count s" for i using inv that by (simp add: dr_inv_def)
  consider (full) "dr_count s \<ge> 32"
    | (merged) i where "\<not> dr_count s \<ge> 32" "find_touching x y w h (dr_rects s) 0 (dr_count s) = Some i"
    | (new) "\<not> dr_count s \<ge> 32" "find_touching x y w h (dr_rects s) 0 (dr_count s) = None"
    by (cases "find_touching x y w h (dr_rects s) 0 (dr_count s)") auto
  then show ?thesis
  proof cases
    case full
    then show ?thesis using len px
      by (simp add: Mark_def dr_inv_def HasDirty_def covered_def in_box_def box_ok_def in_rect_def rect_ok_def)
  next
    case merged
    let ?m = "merge_rect x y w h (dr_rects s ! i)"
    have i: "i < dr_count s" using find_touching_Some [OF merged(2)] by simp
    note M = merge_rect_covers [OF box R [OF i] refl]
    have e: "Mark x y w h s = s\<lparr>dr_rects := (dr_rects s)[i := ?m]\<rparr>" using merged by (simp add: Mark_def)
    have at: "(dr_rects s)[i := ?m] ! j = (if j = i then ?m else dr_rects s ! j)" if "j < dr_count s" for j
      using i len c that by (simp add: nth_list_update)
    have "rect_ok ((dr_rects s)[i := ?m] ! j)" if "j < dr_count s" for j
      unfolding at [OF that] using M(1) R [OF that] by simp
    then have "dr_inv (Mark x y w h s)" using inv by (simp add: e dr_inv_def)
    moreover have "covered (Mark x y w h s) px py" if old: "covered s px py \<or> in_box px py x y w h"
    proof -
      have "\<exists>j < dr_count s. in_rect px py ((dr_rects s)[i := ?m] ! j)"
      proof (cases "in_box px py x y w h \<or> in_rect px py (dr_rects s ! i)")
        case True
        then show ?thesis using M(2) at [OF i] i by auto
      next
        case False
        with old obtain j where j: "j < dr_count s" "in_rect px py (dr_rects s ! j)" by (auto simp: covered_def)
        then have "in_rect px py ((dr_rects s)[i := ?m] ! j)" unfolding at [OF j(1)] using False by auto
        with j(1) show ?thesis by blast
      qed
      then show ?thesis by (simp add: e covered_def)
    qed
    ultimately show ?thesis using i by (auto simp: HasDirty_def e)
  next
    case new
    let ?r = "\<lparr>rc_x = x, rc_y = y, rc_w = w, rc_h = h, rc_valid = True\<rparr>"
    have e: "Mark x y w h s = \<lparr>dr_rects = (dr_rects s)[dr_count s := ?r], dr_count = dr_count s + 1\<rparr>"
      using new by (simp add: Mark_def)
    have n: "dr_count s < length (dr_rects s)" using len new(1) by simp
    have r: "rect_ok ?r" using box by (simp add: rect_ok_def)
    have at: "(dr_rects s)[dr_count s := ?r] ! j = (if j = dr_count s then ?r else dr_rects s ! j)"
      if "j < dr_count s + 1" for j using n that by (simp add: nth_list_update)
    have "rect_ok ((dr_rects s)[dr_count s := ?r] ! j)" if "j < dr_count s + 1" for j
      unfolding at [OF that] using r R [of j] that by auto
    then have "dr_inv (Mark x y w h s)" using len new(1) by (simp add: e dr_inv_def)
    moreover have "covered (Mark x y w h s) px py" if old: "covered s px py \<or> in_box px py x y w h"
    proof (cases "in_box px py x y w h")
      case True
      then have "in_rect px py ((dr_rects s)[dr_count s := ?r] ! dr_count s)"
        using n by (simp add: in_rect_def)
      then show ?thesis by (auto simp: e covered_def)
    next
      case False
      with old obtain j where "j < dr_count s" "in_rect px py (dr_rects s ! j)" by (auto simp: covered_def)
      then have "in_rect px py ((dr_rects s)[dr_count s := ?r] ! j)" "j < dr_count s + 1" using at [of j] by auto
      then show ?thesis unfolding covered_def e by auto
    qed
    ultimately show ?thesis by (auto simp: HasDirty_def e)
  qed
qed

definition no_rects :: dirty_rects where
  "no_rects = \<lparr>dr_rects = replicate 32 \<lparr>rc_x = 0, rc_y = 0, rc_w = 0, rc_h = 0, rc_valid = False\<rparr>, dr_count = 0\<rparr>"

lemma Mark_covers_witness: "covered (Mark 10 20 30 40 (Mark 5 5 10 20 no_rects)) 12 8"
proof -
  have inv: "dr_inv no_rects" by (simp add: dr_inv_def no_rects_def)
  have b: "box_ok 5 5 10 20" "box_ok 10 20 30 40" by (simp_all add: box_ok_def)
  have p: "(12::nat) < 65535" "(8::nat) < 65535" by simp_all
  note 1 = Mark_covers [OF inv b(1) p]
  from Mark_covers [OF conjunct1 [OF 1] b(2) p] 1 show ?thesis by (simp add: in_box_def)
qed

end
