(* ===== verification/Keymap.thy ===== *)
theory Keymap
  imports KStd
begin

text \<open>
  Keyboard layouts, \<^verbatim>\<open>kernel/hal/input/keymap.cpp\<close>: the three built-in tables (US, Spanish, Latin
  American), the list of registered layouts and the translation of a scancode with its modifiers.
  The tables are built by the assignments of the source, in its order, on arrays of 128 zeros.
  The messages on the early terminal are not modelled.
\<close>

section \<open>State\<close>

record Keymap =
  km_id :: string
  km_name :: string
  km_normal :: "nat list"
  km_shift :: "nat list"
  km_altgr :: "nat list"
  km_caps :: "nat list"

record keymap_hal =
  keymaps :: "Keymap list"
  currentKeymap :: "Keymap option"

abbreviation MAX_KEYMAPS :: nat where "MAX_KEYMAPS \<equiv> 8"

definition zero_keymap :: Keymap where
  "zero_keymap = \<lparr>km_id = [], km_name = [], km_normal = replicate 128 0, km_shift = replicate 128 0,
     km_altgr = replicate 128 0, km_caps = replicate 128 0\<rparr>"

definition assign_keys :: "(nat \<times> nat) list \<Rightarrow> nat list \<Rightarrow> nat list" where
  "assign_keys ks table = foldl (\<lambda>t (i, v). t[i := v]) table ks"

section \<open>The built-in layouts\<close>

definition us_normal :: "(nat \<times> nat) list" where
  "us_normal =
   [(0x02, of_char CHR ''1''), (0x03, of_char CHR ''2''), (0x04, of_char CHR ''3''), (0x05, of_char CHR ''4''),
    (0x06, of_char CHR ''5''), (0x07, of_char CHR ''6''), (0x08, of_char CHR ''7''), (0x09, of_char CHR ''8''),
    (0x0A, of_char CHR ''9''), (0x0B, of_char CHR ''0''), (0x0C, of_char CHR ''-''), (0x0D, of_char CHR ''=''),
    (0x0E, of_char (CHR 0x08)), (0x0F, of_char (CHR 0x09)), (0x10, of_char CHR ''q''),
    (0x11, of_char CHR ''w''), (0x12, of_char CHR ''e''), (0x13, of_char CHR ''r''), (0x14, of_char CHR ''t''),
    (0x15, of_char CHR ''y''), (0x16, of_char CHR ''u''), (0x17, of_char CHR ''i''), (0x18, of_char CHR ''o''),
    (0x19, of_char CHR ''p''), (0x1A, of_char CHR ''[''), (0x1B, of_char CHR '']''),
    (0x1C, of_char (CHR 0x0A)), (0x1E, of_char CHR ''a''), (0x1F, of_char CHR ''s''),
    (0x20, of_char CHR ''d''), (0x21, of_char CHR ''f''), (0x22, of_char CHR ''g''), (0x23, of_char CHR ''h''),
    (0x24, of_char CHR ''j''), (0x25, of_char CHR ''k''), (0x26, of_char CHR ''l''), (0x27, of_char CHR '';''),
    (0x28, of_char (CHR 0x27)), (0x29, of_char (CHR 0x60)), (0x2B, of_char (CHR 0x5C)),
    (0x2C, of_char CHR ''z''), (0x2D, of_char CHR ''x''), (0x2E, of_char CHR ''c''), (0x2F, of_char CHR ''v''),
    (0x30, of_char CHR ''b''), (0x31, of_char CHR ''n''), (0x32, of_char CHR ''m''), (0x33, of_char CHR '',''),
    (0x34, of_char CHR ''.''), (0x35, of_char CHR ''/''), (0x39, of_char CHR '' '')]"

definition us_shift :: "(nat \<times> nat) list" where
  "us_shift =
   [(0x02, of_char CHR ''!''), (0x03, of_char CHR ''@''), (0x04, of_char CHR ''#''), (0x05, of_char CHR ''$''),
    (0x06, of_char CHR ''%''), (0x07, of_char CHR ''^''), (0x08, of_char CHR ''&''), (0x09, of_char CHR ''*''),
    (0x0A, of_char CHR ''(''), (0x0B, of_char CHR '')''), (0x0C, of_char CHR ''_''), (0x0D, of_char CHR ''+''),
    (0x1A, of_char CHR ''{''), (0x1B, of_char CHR ''}''), (0x27, of_char CHR '':''),
    (0x28, of_char (CHR 0x22)), (0x29, of_char CHR ''~''), (0x2B, of_char CHR ''|''),
    (0x33, of_char CHR ''<''), (0x34, of_char CHR ''>''), (0x35, of_char CHR ''?'')]"

text \<open>\<^verbatim>\<open>for (i = lo; i <= hi; i++) shift[i] = normal[i] - 32\<close>, stored in 16 bits.\<close>

definition upper_range :: "nat \<Rightarrow> nat \<Rightarrow> nat list \<Rightarrow> nat list \<Rightarrow> nat list" where
  "upper_range lo hi normal shift = foldl (\<lambda>t i. t[i := (normal ! i + 65504) mod 65536]) shift [lo..<Suc hi]"

definition InitKeymapUS :: Keymap where
  "InitKeymapUS =
     (let normal = assign_keys us_normal (replicate 128 0);
          s0 = assign_keys (take 12 us_shift) (replicate 128 0);
          s1 = upper_range 0x2C 0x32 normal (upper_range 0x1E 0x26 normal (upper_range 0x10 0x19 normal s0))
      in zero_keymap\<lparr>km_id := ''US'', km_normal := normal, km_shift := assign_keys (drop 12 us_shift) s1\<rparr>)"

definition es_normal :: "(nat \<times> nat) list" where
  "es_normal =
   [(0x02, of_char CHR ''1''), (0x03, of_char CHR ''2''), (0x04, of_char CHR ''3''), (0x05, of_char CHR ''4''),
    (0x06, of_char CHR ''5''), (0x07, of_char CHR ''6''), (0x08, of_char CHR ''7''), (0x09, of_char CHR ''8''),
    (0x0A, of_char CHR ''9''), (0x0B, of_char CHR ''0''), (0x0C, of_char (CHR 0x27)),
    (0x0D, of_char CHR ''!''), (0x0E, of_char (CHR 0x08)), (0x0F, of_char (CHR 0x09)),
    (0x10, of_char CHR ''q''), (0x11, of_char CHR ''w''), (0x12, of_char CHR ''e''), (0x13, of_char CHR ''r''),
    (0x14, of_char CHR ''t''), (0x15, of_char CHR ''y''), (0x16, of_char CHR ''u''), (0x17, of_char CHR ''i''),
    (0x18, of_char CHR ''o''), (0x19, of_char CHR ''p''), (0x1A, of_char (CHR 0x60)),
    (0x1B, of_char CHR ''+''), (0x1C, of_char (CHR 0x0A)), (0x1E, of_char CHR ''a''),
    (0x1F, of_char CHR ''s''), (0x20, of_char CHR ''d''), (0x21, of_char CHR ''f''), (0x22, of_char CHR ''g''),
    (0x23, of_char CHR ''h''), (0x24, of_char CHR ''j''), (0x25, of_char CHR ''k''), (0x26, of_char CHR ''l''),
    (0x27, 0xF1), (0x28, of_char (CHR 0x27)), (0x29, of_char CHR ''|''), (0x2B, 0xE7),
    (0x2C, of_char CHR ''z''), (0x2D, of_char CHR ''x''), (0x2E, of_char CHR ''c''), (0x2F, of_char CHR ''v''),
    (0x30, of_char CHR ''b''), (0x31, of_char CHR ''n''), (0x32, of_char CHR ''m''), (0x33, of_char CHR '',''),
    (0x34, of_char CHR ''.''), (0x35, of_char CHR ''-''), (0x39, of_char CHR '' ''), (0x56, of_char CHR ''<'')]"

definition es_shift :: "(nat \<times> nat) list" where
  "es_shift =
   [(0x02, of_char CHR ''!''), (0x03, of_char (CHR 0x22)), (0x04, of_char CHR ''#''),
    (0x05, of_char CHR ''$''), (0x06, of_char CHR ''%''), (0x07, of_char CHR ''&''), (0x08, of_char CHR ''/''),
    (0x09, of_char CHR ''(''), (0x0A, of_char CHR '')''), (0x0B, of_char CHR ''=''), (0x0C, of_char CHR ''?''),
    (0x0D, of_char CHR ''?''), (0x10, of_char CHR ''Q''), (0x11, of_char CHR ''W''), (0x12, of_char CHR ''E''),
    (0x13, of_char CHR ''R''), (0x14, of_char CHR ''T''), (0x15, of_char CHR ''Y''), (0x16, of_char CHR ''U''),
    (0x17, of_char CHR ''I''), (0x18, of_char CHR ''O''), (0x19, of_char CHR ''P''), (0x1A, of_char CHR ''^''),
    (0x1B, of_char CHR ''*''), (0x1E, of_char CHR ''A''), (0x1F, of_char CHR ''S''), (0x20, of_char CHR ''D''),
    (0x21, of_char CHR ''F''), (0x22, of_char CHR ''G''), (0x23, of_char CHR ''H''), (0x24, of_char CHR ''J''),
    (0x25, of_char CHR ''K''), (0x26, of_char CHR ''L''), (0x27, 0xD1), (0x28, of_char (CHR 0x22)),
    (0x29, of_char (CHR 0x5C)), (0x2B, 0xC7), (0x2C, of_char CHR ''Z''), (0x2D, of_char CHR ''X''),
    (0x2E, of_char CHR ''C''), (0x2F, of_char CHR ''V''), (0x30, of_char CHR ''B''), (0x31, of_char CHR ''N''),
    (0x32, of_char CHR ''M''), (0x33, of_char CHR '';''), (0x34, of_char CHR '':''), (0x35, of_char CHR ''_''),
    (0x56, of_char CHR ''>'')]"

definition es_altgr :: "(nat \<times> nat) list" where
  "es_altgr =
   [(0x03, of_char CHR ''@''), (0x04, of_char CHR ''#'')]"

definition InitKeymapES :: Keymap where
  "InitKeymapES = zero_keymap\<lparr>km_id := ''ES'', km_normal := assign_keys es_normal (replicate 128 0),
     km_shift := assign_keys es_shift (replicate 128 0), km_altgr := assign_keys es_altgr (replicate 128 0)\<rparr>"

text \<open>The same loop, for the keys whose normal character is a lower-case letter.\<close>

definition upper_letters :: "nat \<Rightarrow> nat \<Rightarrow> nat list \<Rightarrow> nat list \<Rightarrow> nat list" where
  "upper_letters lo hi normal shift =
     foldl (\<lambda>t i. if of_char CHR ''a'' \<le> normal ! i \<and> normal ! i \<le> of_char CHR ''z''
                   then t[i := normal ! i - 32] else t) shift [lo..<Suc hi]"

definition InitKeymapLA :: "Keymap \<Rightarrow> Keymap" where
  "InitKeymapLA keymapES =
     (let n = km_normal keymapES
      in keymapES\<lparr>km_id := ''LA'',
           km_shift := upper_letters 0x2C 0x32 n (upper_letters 0x1E 0x26 n (upper_letters 0x10 0x19 n (km_shift keymapES)))\<rparr>)"

definition keymap_Init :: keymap_hal where
  "keymap_Init = \<lparr>keymaps = [InitKeymapUS, InitKeymapES, InitKeymapLA InitKeymapES],
     currentKeymap = Some InitKeymapUS\<rparr>"

section \<open>Operations\<close>

definition has_id :: "string \<Rightarrow> Keymap \<Rightarrow> bool" where
  "has_id i k \<longleftrightarrow> kstrcmp (km_id k) i = 0"

definition GetKeymap :: "string \<Rightarrow> keymap_hal \<Rightarrow> Keymap option" where
  "GetKeymap i s = map_option (nth (keymaps s)) (first_slot (has_id i) (keymaps s))"

definition SetKeymap :: "string \<Rightarrow> keymap_hal \<Rightarrow> bool \<times> keymap_hal" where
  "SetKeymap i s =
     (case first_slot (has_id i) (keymaps s) of
        None \<Rightarrow> (False, s)
      | Some k \<Rightarrow> (True, s\<lparr>currentKeymap := Some (keymaps s ! k)\<rparr>))"

definition GetCurrentKeymap :: "keymap_hal \<Rightarrow> Keymap option" where
  "GetCurrentKeymap s = currentKeymap s"

definition Translate :: "keymap_hal \<Rightarrow> nat \<Rightarrow> bool \<Rightarrow> bool \<Rightarrow> bool \<Rightarrow> nat" where
  "Translate s scancode shift altgr caps =
     (case currentKeymap s of
        None \<Rightarrow> 0
      | Some k \<Rightarrow>
          if scancode \<ge> 128 then 0
          else if altgr \<and> km_altgr k ! scancode \<noteq> 0 then km_altgr k ! scancode
          else if (shift \<or> caps) \<and> km_shift k ! scancode \<noteq> 0 then km_shift k ! scancode
          else km_normal k ! scancode)"

definition RegisterKeymap :: "Keymap \<Rightarrow> keymap_hal \<Rightarrow> keymap_hal" where
  "RegisterKeymap k s = (if length (keymaps s) < MAX_KEYMAPS then s\<lparr>keymaps := keymaps s @ [k]\<rparr> else s)"

definition IsModifier :: "nat \<Rightarrow> bool" where
  "IsModifier scancode \<longleftrightarrow> scancode = 0x2A \<or> scancode = 0x36 \<or> scancode = 0x1D \<or> scancode = 0x38 \<or>
     scancode = 0x38 \<or> scancode = 0x3A"

definition GetKeymapCount :: "keymap_hal \<Rightarrow> nat" where
  "GetKeymapCount s = length (keymaps s)"

section \<open>The tables\<close>

lemma length_assign_keys [simp]: "length (assign_keys ks t) = length t"
  by (induction ks arbitrary: t) (auto simp: assign_keys_def)

lemma assign_keys_Cons: "assign_keys ((i, v) # ks) t = assign_keys ks (t[i := v])"
  by (simp add: assign_keys_def)

lemma assign_keys_other: "i \<notin> fst ` set ks \<Longrightarrow> assign_keys ks t ! i = t ! i"
  by (induction ks arbitrary: t) (auto simp: assign_keys_def)

lemma assign_keys_nth:
  "distinct (map fst ks) \<Longrightarrow> (i, v) \<in> set ks \<Longrightarrow> i < length t \<Longrightarrow> assign_keys ks t ! i = v"
proof (induction ks arbitrary: t)
  case Nil
  then show ?case by simp
next
  case (Cons k ks)
  obtain j w where k: "k = (j, w)" by (cases k)
  show ?case
  proof (cases "(i, v) \<in> set ks")
    case True
    with Cons k show ?thesis by (simp add: assign_keys_Cons)
  next
    case False
    with Cons.prems k have "j = i" "w = v" "i \<notin> fst ` set ks" by auto
    with Cons.prems k show ?thesis by (simp add: assign_keys_Cons assign_keys_other)
  qed
qed

lemma assign_keys_values: "set (assign_keys ks t) \<subseteq> set t \<union> snd ` set ks"
proof (induction ks arbitrary: t)
  case Nil
  then show ?case by (simp add: assign_keys_def)
next
  case (Cons k ks)
  then have "set (assign_keys ks (t[fst k := snd k])) \<subseteq> set (t[fst k := snd k]) \<union> snd ` set ks" .
  then show ?case using set_update_subset_insert [of t "fst k" "snd k"]
    by (cases k) (auto simp: assign_keys_Cons)
qed

lemma nth_foldl_update:
  "i < length t \<Longrightarrow> distinct is' \<Longrightarrow> foldl (\<lambda>t i. if P i then t[i := f i] else t) t is' ! i = (if i \<in> set is' \<and> P i then f i else t ! i)"
proof (induction is' arbitrary: t)
  case Nil
  then show ?case by simp
next
  case (Cons a is')
  then show ?case by (cases "a = i") auto
qed

lemma length_foldl_update [simp]: "length (foldl (\<lambda>t i. if P i then t[i := f i] else t) t is') = length t"
  by (induction is' arbitrary: t) auto

lemma upper_range_nth:
  "i < length t \<Longrightarrow> upper_range lo hi n t ! i = (if lo \<le> i \<and> i \<le> hi then (n ! i + 65504) mod 65536 else t ! i)"
  using nth_foldl_update [of i t "[lo..<Suc hi]" "\<lambda>_. True" "\<lambda>i. (n ! i + 65504) mod 65536"]
  by (simp add: upper_range_def del: upt_Suc)

lemma length_upper_range [simp]: "length (upper_range lo hi n t) = length t"
  using length_foldl_update [of "\<lambda>_. True" "\<lambda>i. (n ! i + 65504) mod 65536" t "[lo..<Suc hi]"]
  by (simp add: upper_range_def del: upt_Suc)

lemma upper_letters_nth:
  "i < length t \<Longrightarrow> upper_letters lo hi n t ! i =
     (if lo \<le> i \<and> i \<le> hi \<and> 97 \<le> n ! i \<and> n ! i \<le> 122 then n ! i - 32 else t ! i)"
  using nth_foldl_update [of i t "[lo..<Suc hi]" "\<lambda>i. 97 \<le> n ! i \<and> n ! i \<le> 122" "\<lambda>i. n ! i - 32"]
  by (simp add: upper_letters_def del: upt_Suc)

lemma length_upper_letters [simp]: "length (upper_letters lo hi n t) = length t"
  using length_foldl_update [of "\<lambda>i. 97 \<le> n ! i \<and> n ! i \<le> 122" "\<lambda>i. n ! i - 32" t "[lo..<Suc hi]"]
  by (simp add: upper_letters_def del: upt_Suc)

lemma us_keys_distinct: "distinct (map fst us_normal)" "distinct (map fst (take 12 us_shift))" "distinct (map fst (drop 12 us_shift))"
  by (simp_all add: us_normal_def us_shift_def)

lemma keymap_Init_simps [simp]:
  "currentKeymap keymap_Init = Some InitKeymapUS"
  "keymaps keymap_Init = [InitKeymapUS, InitKeymapES, InitKeymapLA InitKeymapES]"
  by (simp_all add: keymap_Init_def)

lemma InitKeymap_fields [simp]:
  "km_id InitKeymapUS = ''US''" "km_id InitKeymapES = ''ES''" "km_id (InitKeymapLA k) = ''LA''"
  "km_normal (InitKeymapLA k) = km_normal k" "km_altgr (InitKeymapLA k) = km_altgr k"
  "km_normal InitKeymapUS = assign_keys us_normal (replicate 128 0)" "km_altgr InitKeymapUS = replicate 128 0"
  "km_normal InitKeymapES = assign_keys es_normal (replicate 128 0)"
  "km_shift InitKeymapES = assign_keys es_shift (replicate 128 0)"
  "km_altgr InitKeymapES = assign_keys es_altgr (replicate 128 0)"
  by (simp_all add: InitKeymapUS_def InitKeymapES_def InitKeymapLA_def Let_def zero_keymap_def)

text \<open>A key of the US layout: its character, the shifted character of the keys the source lists, and the
  upper-case letter of the letter keys.\<close>

lemma us_normal_nth: "(i, v) \<in> set us_normal \<Longrightarrow> i < 128 \<Longrightarrow> km_normal InitKeymapUS ! i = v"
  by (simp add: assign_keys_nth us_keys_distinct)

lemma us_shift_nth:
  assumes "(i, v) \<in> set us_shift" and "i < 128"
  shows "km_shift InitKeymapUS ! i = v"
proof (cases "(i, v) \<in> set (drop 12 us_shift)")
  case True
  with assms(2) show ?thesis by (simp add: InitKeymapUS_def Let_def assign_keys_nth us_keys_distinct)
next
  case False
  have "us_shift = take 12 us_shift @ drop 12 us_shift" by simp
  then have t: "(i, v) \<in> set (take 12 us_shift)" using False assms(1) by (metis Un_iff set_append)
  then have "i \<le> 0x0D" by (auto simp: us_shift_def)
  moreover from this have "i \<notin> fst ` set (drop 12 us_shift)" by (auto simp: us_shift_def)
  ultimately show ?thesis using assms(2) t
    by (simp add: InitKeymapUS_def Let_def assign_keys_other upper_range_nth assign_keys_nth us_keys_distinct)
qed

definition letter_key :: "nat \<Rightarrow> bool" where
  "letter_key i \<longleftrightarrow> (0x10 \<le> i \<and> i \<le> 0x19) \<or> (0x1E \<le> i \<and> i \<le> 0x26) \<or> (0x2C \<le> i \<and> i \<le> 0x32)"

lemma us_letter_nth:
  assumes "letter_key i"
  shows "km_shift InitKeymapUS ! i = (km_normal InitKeymapUS ! i + 65504) mod 65536"
proof -
  have "fst ` set (drop 12 us_shift) = {0x1A, 0x1B, 0x27, 0x28, 0x29, 0x2B, 0x33, 0x34, 0x35}" by (auto simp: us_shift_def)
  with assms have "i \<notin> fst ` set (drop 12 us_shift)" by (auto simp: letter_key_def)
  with assms show ?thesis
    by (auto simp: InitKeymapUS_def Let_def assign_keys_other upper_range_nth letter_key_def)
qed

text \<open>What a key can produce, whatever the modifiers.\<close>

lemma Translate_cases:
  "currentKeymap s = Some k \<Longrightarrow> sc < 128 \<Longrightarrow>
   Translate s sc shift altgr caps \<in> {km_altgr k ! sc, km_shift k ! sc, km_normal k ! sc}"
  by (simp add: Translate_def)

lemma Translate_range: "\<not> sc < 128 \<Longrightarrow> Translate s sc shift altgr caps = 0"
  by (simp add: Translate_def split: option.split)

section \<open>Properties\<close>

lemma us_all_values: "{32..<127} \<subseteq> snd ` set us_normal \<union> snd ` set us_shift \<union> {65..<91}"
proof -
  have "\<forall>c \<in> set [32..<127]. c \<in> snd ` set us_normal \<or> c \<in> snd ` set us_shift \<or> 65 \<le> c \<and> c < 91"
    by (simp add: us_normal_def us_shift_def)
  then show ?thesis unfolding atLeastLessThan_upt [of 32 127] by (auto simp del: upt_rec_numeral upt.simps set_upt)
qed

lemma us_letters: "\<forall>c \<in> {97..<123}. \<exists>i. letter_key i \<and> (i, c) \<in> set us_normal"
proof -
  have "\<forall>c \<in> set [97..<123]. \<exists>i. letter_key i \<and> (i, c) \<in> set us_normal"
    by (simp add: us_normal_def letter_key_def ex_disj_distrib conj_disj_distribL)
  then show ?thesis unfolding atLeastLessThan_upt [of 97 123] .
qed

lemma us_keys_range: "fst ` set us_normal \<subseteq> {..<128}" "fst ` set us_shift \<subseteq> {..<128}"
  by (auto simp: us_normal_def us_shift_def)

lemma us_layout_ascii_key:
  assumes "32 \<le> c" and "c < 127"
  shows "\<exists>sc shift. sc < 128 \<and> Translate keymap_Init sc shift False False = c"
proof -
  have "c \<in> {32..<127}" using assms by simp
  with us_all_values have "c \<in> snd ` set us_normal \<union> snd ` set us_shift \<union> {65..<91}" by (rule subsetD)
  then consider (normal) i where "(i, c) \<in> set us_normal" | (shift) i where "(i, c) \<in> set us_shift"
    | (upper) "c \<in> {65..<91}"
    by (elim UnE imageE) (metis prod.collapse)+
  then show ?thesis
  proof cases
    case normal
    then have "i < 128" using us_keys_range by force
    with normal show ?thesis
      by (intro exI [of _ i] exI [of _ False]) (simp add: Translate_def us_normal_nth del: InitKeymap_fields)
  next
    case shift
    then have "i < 128" using us_keys_range by force
    with shift assms(1) show ?thesis
      by (intro exI [of _ i] exI [of _ True]) (simp add: Translate_def us_shift_nth del: InitKeymap_fields)
  next
    case upper
    then have "c + 32 \<in> {97..<123}" by simp
    with us_letters obtain i where i: "letter_key i" "(i, c + 32) \<in> set us_normal" by blast
    then have "i < 128" using us_keys_range by force
    with i upper have "km_shift InitKeymapUS ! i = c"
      by (simp add: us_letter_nth us_normal_nth del: InitKeymap_fields)
    with \<open>i < 128\<close> upper show ?thesis
      by (intro exI [of _ i] exI [of _ True]) (simp add: Translate_def)
  qed
qed

text \<open>With the layout of the boot (US) every printable ASCII character can be typed: some key gives it,
  with or without shift.\<close>

theorem us_layout_types_ascii:
  assumes "32 \<le> c" and "c < 127"
  shows "\<exists>sc shift. sc < 128 \<and> Translate keymap_Init sc shift False False = c"
  using us_layout_ascii_key [OF assms] .

theorem us_layout_types_ascii_witness:
  "\<exists>sc shift. sc < 128 \<and> Translate keymap_Init sc shift False False = 126"
  using us_layout_types_ascii [of 126] by simp

lemma es_keys_values:
  "snd ` set es_normal \<inter> {91, 93, 123, 125, 126} = {}"
  "snd ` set es_shift \<inter> {91, 93, 123, 125, 126} = {}"
  "snd ` set es_altgr \<inter> {91, 93, 123, 125, 126} = {}"
  by (simp_all add: es_normal_def es_shift_def es_altgr_def)

lemma assigned_values_avoid:
  "snd ` set ks \<inter> {91, 93, 123, 125, 126} = {} \<Longrightarrow> set (assign_keys ks (replicate 128 0)) \<inter> {91, 93, 123, 125, 126} = {}"
proof -
  assume a: "snd ` set ks \<inter> {91, 93, 123, 125, 126} = {}"
  have "set (assign_keys ks (replicate 128 0)) \<subseteq> insert 0 (snd ` set ks)"
    using assign_keys_values [of ks "replicate 128 0"] by simp
  then have "set (assign_keys ks (replicate 128 0)) \<inter> {91, 93, 123, 125, 126} \<subseteq> insert 0 (snd ` set ks) \<inter> {91, 93, 123, 125, 126}"
    by (rule Int_mono) (rule subset_refl)
  also have "\<dots> = {}" using a by (simp add: Int_insert_left)
  finally show ?thesis by simp
qed

lemma es_values:
  "set (km_normal InitKeymapES) \<inter> {91, 93, 123, 125, 126} = {}"
  "set (km_shift InitKeymapES) \<inter> {91, 93, 123, 125, 126} = {}"
  "set (km_altgr InitKeymapES) \<inter> {91, 93, 123, 125, 126} = {}"
  unfolding InitKeymap_fields by (intro assigned_values_avoid es_keys_values)+

lemma la_shift: "sc < 128 \<Longrightarrow> km_shift (InitKeymapLA InitKeymapES) ! sc \<notin> {91, 93, 123, 125, 126}"
proof -
  assume sc: "sc < 128"
  let ?n = "km_normal InitKeymapES" and ?s = "km_shift InitKeymapES"
  have eq: "km_shift (InitKeymapLA InitKeymapES) =
      upper_letters 0x2C 0x32 ?n (upper_letters 0x1E 0x26 ?n (upper_letters 0x10 0x19 ?n ?s))"
    by (simp add: InitKeymapLA_def Let_def)
  have "?s ! sc \<in> set ?s" using sc by simp
  then have "?s ! sc \<notin> {91, 93, 123, 125, 126}" using es_values(2) by blast
  moreover have "km_shift (InitKeymapLA InitKeymapES) ! sc = ?s ! sc \<or>
      (97 \<le> ?n ! sc \<and> ?n ! sc \<le> 122 \<and> km_shift (InitKeymapLA InitKeymapES) ! sc = ?n ! sc - 32)"
  proof -
    have "sc < length ?s" using sc by simp
    then show ?thesis unfolding eq by (simp add: upper_letters_nth del: InitKeymap_fields)
  qed
  ultimately show ?thesis by auto
qed

text \<open>With the Spanish and the Latin American layouts no key and no combination of modifiers gives a
  bracket, a brace or a tilde.\<close>

theorem spanish_layouts_lack_brackets:
  assumes "i = ''ES'' \<or> i = ''LA''" and "c \<in> {of_char CHR ''['', of_char CHR '']'', of_char (CHR 0x7B), of_char (CHR 0x7D), of_char (CHR 0x7E)}"
  shows "fst (SetKeymap i keymap_Init) \<and> Translate (snd (SetKeymap i keymap_Init)) sc shift altgr caps \<noteq> c"
proof -
  let ?s = "snd (SetKeymap i keymap_Init)"
  define k where "k = (if i = ''ES'' then InitKeymapES else InitKeymapLA InitKeymapES)"
  have cmp: "kstrcmp ''US'' ''ES'' \<noteq> 0" "kstrcmp ''US'' ''LA'' \<noteq> 0" "kstrcmp ''ES'' ''LA'' \<noteq> 0" "kstrcmp ''ES'' ''ES'' = 0"
    "kstrcmp ''LA'' ''LA'' = 0" by code_simp+
  have set: "fst (SetKeymap i keymap_Init) \<and> currentKeymap ?s = Some k"
    using assms(1) cmp by (auto simp: SetKeymap_def has_id_def k_def)
  have c: "c \<in> {91, 93, 123, 125, 126}" using assms(2) by simp
  show ?thesis
  proof (cases "sc < 128")
    case True
    then have "km_altgr k ! sc \<in> set (km_altgr InitKeymapES)" "km_normal k ! sc \<in> set (km_normal InitKeymapES)"
      by (simp_all add: k_def)
    with es_values(1,3) c have "km_altgr k ! sc \<noteq> c" "km_normal k ! sc \<noteq> c" by (metis IntI empty_iff)+
    moreover have "km_shift InitKeymapES ! sc \<in> set (km_shift InitKeymapES)" using True by simp
    then have "km_shift k ! sc \<noteq> c" using la_shift [OF True] es_values(2) c by (cases "i = ''ES''") (auto simp: k_def)
    ultimately have "Translate ?s sc shift altgr caps \<noteq> c" using Translate_cases [of ?s k sc shift altgr caps] set True by auto
    with set show ?thesis by blast
  next
    case False
    then have "Translate ?s sc shift altgr caps = 0" by (rule Translate_range)
    with set c show ?thesis by auto
  qed
qed

theorem spanish_layouts_lack_brackets_witness:
  "Translate (snd (SetKeymap ''ES'' keymap_Init)) 0x1A False True False \<noteq> of_char CHR ''[''"
  using spanish_layouts_lack_brackets [of "''ES''" "of_char CHR ''[''"] by simp

text \<open>Caps lock acts as a second shift on every key, digits and punctuation included; the table \<^verbatim>\<open>caps\<close> of
  the layout is never read.\<close>

lemma caps_is_shift: "Translate s sc False altgr True = Translate s sc True altgr False"
  by (cases "currentKeymap s") (simp_all add: Translate_def)

lemma caps_table_unused:
  "Translate (s\<lparr>currentKeymap := Some (k\<lparr>km_caps := t\<rparr>)\<rparr>) sc shift altgr caps =
   Translate (s\<lparr>currentKeymap := Some k\<rparr>) sc shift altgr caps"
  by (simp add: Translate_def)

end
