(* ===== verification/Keyboard.thy ===== *)
theory Keyboard
  imports Keymap Input_Manager
begin

text \<open>
  The PS/2 keyboard driver, \<^verbatim>\<open>kernel/drivers/x86/keyboard.cpp\<close>: a state machine over scancodes which
  tracks the modifier keys, translates the others with the current layout (theory \<open>Keymap\<close>), hands an
  event to the input manager (theory \<open>Input_Manager\<close>) and keeps one in a ring of 64 slots for the
  kernel's own readers.  An interrupt is given by what the two ports return, the status and the data byte.
  Typing is described by the rows of a US keyboard and the make and break codes of its keys (\<open>typed\<close>).
\<close>

section \<open>State\<close>

record keyboard =
  kb_buffer :: "HalInputEvent list"
  kb_read :: nat
  kb_write :: nat
  shiftPressed :: bool
  capsLock :: bool
  ctrlPressed :: bool
  altPressed :: bool

abbreviation EVENT_BUFFER_SIZE :: nat where "EVENT_BUFFER_SIZE \<equiv> 64"

text \<open>\<^verbatim>\<open>while (IO::inb(0x64) & 1) IO::inb(0x60);\<close> on the bytes the controller still holds: it takes them all
  and changes nothing of the driver.\<close>

definition kb_Init :: "keyboard \<Rightarrow> keyboard" where
  "kb_Init kb = kb"

section \<open>The interrupt handler\<close>

definition kb_push :: "HalInputEvent \<Rightarrow> keyboard \<Rightarrow> bool \<times> keyboard" where
  "kb_push e kb =
     (let nxt = (kb_write kb + 1) mod EVENT_BUFFER_SIZE
      in if nxt \<noteq> kb_read kb then (True, kb\<lparr>kb_buffer := (kb_buffer kb)[kb_write kb := e], kb_write := nxt\<rparr>)
         else (False, kb))"

text \<open>The effect of a modifier key; \<open>None\<close> for a key that is reported.\<close>

definition modifier_key :: "nat \<Rightarrow> bool \<Rightarrow> keyboard \<Rightarrow> keyboard option" where
  "modifier_key keyCode keyRelease kb =
     (if keyCode = 0x2A \<or> keyCode = 0x36 then Some (kb\<lparr>shiftPressed := \<not> keyRelease\<rparr>)
      else if keyCode = 0x1D then Some (kb\<lparr>ctrlPressed := \<not> keyRelease\<rparr>)
      else if keyCode = 0x38 then Some (kb\<lparr>altPressed := \<not> keyRelease\<rparr>)
      else if keyCode = 0x3A \<and> \<not> keyRelease then Some (kb\<lparr>capsLock := \<not> capsLock kb\<rparr>)
      else None)"

definition key_event :: "keymap_hal \<Rightarrow> u8 \<Rightarrow> keyboard \<Rightarrow> HalInputEvent" where
  "key_event km scancode kb =
     (let keyRelease = (scancode AND 0x80 \<noteq> 0); keyCode = unat (scancode AND 0x7F);
          translated = Translate km keyCode (shiftPressed kb) (altPressed kb) (capsLock kb)
      in \<lparr>ie_type = (if keyRelease then KEY_RELEASE else KEY_PRESS), ie_keycode = keyCode,
          ie_scancode_raw = scancode,
          ie_ascii = (if keyRelease then CHR 0x00 else if translated < 256 then char_of translated else CHR 0x00),
          ie_mouse_x = 0, ie_mouse_y = 0, ie_mouse_buttons = 0\<rparr>)"

text \<open>\<^verbatim>\<open>osEv.ascii = event.ascii\<close> converts a signed \<^verbatim>\<open>char\<close> to 32 bits.\<close>

definition key_os_event :: "HalInputEvent \<Rightarrow> keyboard \<Rightarrow> OSEvent" where
  "key_os_event e kb =
     \<lparr>os_type = (if ie_type e = KEY_RELEASE then 4 else 3), os_dx = 0, os_dy = 0,
      os_buttons = (if shiftPressed kb then 1 else 0) + (if ctrlPressed kb then 2 else 0) + (if altPressed kb then 4 else 0),
      os_scancode = ie_keycode e, os_ascii = nat (schar (ie_ascii e) mod 2 ^ 32)\<rparr>"

text \<open>The last component says whether the debug overlay is toggled (F12); drawing it is not modelled.\<close>

definition kb_OnInterrupt ::
  "keymap_hal \<Rightarrow> u8 \<Rightarrow> u8 \<Rightarrow> keyboard \<Rightarrow> 'w input_manager \<Rightarrow> sched
     \<Rightarrow> (keyboard \<times> 'w input_manager \<times> sched \<times> bool) option" where
  "kb_OnInterrupt km status scancode kb im s =
     (if status AND 1 = 0 then Some (kb, im, s, False)
      else case modifier_key (unat (scancode AND 0x7F)) (scancode AND 0x80 \<noteq> 0) kb of
        Some kb1 \<Rightarrow> Some (kb1, im, s, False)
      | None \<Rightarrow>
          let e = key_event km scancode kb
          in Option.bind (im_PushEvent (key_os_event e kb) im s) (\<lambda>(im1, s1).
               Some (snd (kb_push e kb), im1, s1, scancode = 0x58)))"

definition kb_PollEvent :: "keyboard \<Rightarrow> (HalInputEvent \<times> keyboard) option" where
  "kb_PollEvent kb =
     (if kb_read kb = kb_write kb then None
      else Some (kb_buffer kb ! kb_read kb, kb\<lparr>kb_read := (kb_read kb + 1) mod EVENT_BUFFER_SIZE\<rparr>))"

text \<open>\<^verbatim>\<open>Keyboard::GetChar\<close> takes one event of any input device, and gives its character if it is a key press.\<close>

definition GetChar :: "'w input_manager \<Rightarrow> 'w \<Rightarrow> char \<times> 'w" where
  "GetChar im w =
     (case PollEvent im w of
        (None, w1) \<Rightarrow> (CHR 0x00, w1)
      | (Some e, w1) \<Rightarrow> (if ie_type e = KEY_PRESS \<and> ie_ascii e \<noteq> CHR 0x00 then ie_ascii e else CHR 0x00, w1))"

text \<open>The driver's entry in the table of input devices, with the driver as its state.  Its interrupt handler also
  changes the input manager and the scheduler: it is \<open>kb_OnInterrupt\<close>, called by the interrupt dispatcher.\<close>

definition kb_device :: "keyboard IInputDevice" where
  "kb_device = \<lparr>dev_name = ''PS2Keyboard'', dev_init = Some kb_Init, dev_on_interrupt = None,
     dev_poll_event = Some (\<lambda>kb. case kb_PollEvent kb of None \<Rightarrow> (None, kb) | Some (e, kb1) \<Rightarrow> (Some e, kb1))\<rparr>"

section \<open>The ring\<close>

definition kb_inv :: "keyboard \<Rightarrow> bool" where
  "kb_inv kb \<longleftrightarrow> length (kb_buffer kb) = EVENT_BUFFER_SIZE \<and> kb_read kb < EVENT_BUFFER_SIZE \<and> kb_write kb < EVENT_BUFFER_SIZE"

definition kb_events :: "keyboard \<Rightarrow> HalInputEvent list" where
  "kb_events kb = ring (kb_buffer kb) (kb_read kb) (ht_len EVENT_BUFFER_SIZE (kb_write kb) (kb_read kb))"

interpretation kbq: bounded_fifo kb_push kb_PollEvent kb_events kb_inv 63
proof
  fix q :: keyboard and e ok q' es
  assume inv: "kb_inv q"
  then have b: "kb_write q < 64" "kb_read q < 64" and len: "length (kb_buffer q) = 64" by (simp_all add: kb_inv_def)
  note full = ht_full [OF b] and push = ht_ring_push [of "kb_write q" "kb_buffer q" "kb_read q", unfolded len, OF b]
    and pop = ht_ring_pop [of "kb_write q" "kb_buffer q" "kb_read q", unfolded len, OF b]
  show "length (kb_events q) \<le> 63" using ht_len_less [OF b(1), of "kb_read q"] by (simp add: kb_events_def)
  show "kb_PollEvent q = None" if "kb_events q = []"
    using arg_cong [OF that, of length] ht_len_0 [OF b] by (simp add: kb_events_def kb_PollEvent_def)
  show "\<exists>q'. kb_PollEvent q = Some (e, q') \<and> kb_events q' = es \<and> kb_inv q'" if c: "kb_events q = e # es"
  proof -
    have ne: "kb_write q \<noteq> kb_read q" using arg_cong [OF c, of length] ht_len_0 [OF b] by (auto simp: kb_events_def)
    with c pop have "kb_buffer q ! kb_read q = e"
      "kb_events (q\<lparr>kb_read := (kb_read q + 1) mod 64\<rparr>) = es" by (simp_all add: kb_events_def)
    then show ?thesis using ne inv by (auto simp: kb_PollEvent_def kb_inv_def)
  qed
  assume p: "kb_push e q = (ok, q')"
  show "kb_inv q'" using inv p by (auto simp: kb_push_def kb_inv_def Let_def split: if_splits)
  show "ok \<and> kb_events q' = kb_events q @ [e]" if "length (kb_events q) < 63"
    using that p full push [of e] by (auto simp: kb_push_def kb_events_def Let_def split: if_splits)
  show "\<not> ok \<and> kb_events q' = kb_events q" if "length (kb_events q) = 63"
    using that p full by (auto simp: kb_push_def kb_events_def Let_def split: if_splits)
qed

lemma kb_push_modifiers [simp]:
  "shiftPressed (snd (kb_push e kb)) = shiftPressed kb" "altPressed (snd (kb_push e kb)) = altPressed kb"
  "capsLock (snd (kb_push e kb)) = capsLock kb" "ctrlPressed (snd (kb_push e kb)) = ctrlPressed kb"
  by (simp_all add: kb_push_def Let_def)

lemma kb_push_events:
  assumes "kb_inv kb" and "length (kb_events kb) < 63"
  shows "kb_inv (snd (kb_push e kb))" "kb_events (snd (kb_push e kb)) = kb_events kb @ [e]"
proof -
  obtain ok kb1 where p: "kb_push e kb = (ok, kb1)" by (rule prod.exhaust)
  from kbq.push_room [OF assms p] kbq.push_inv [OF assms(1) p] p
  show "kb_inv (snd (kb_push e kb))" "kb_events (snd (kb_push e kb)) = kb_events kb @ [e]" by simp_all
qed

section \<open>Typing\<close>

text \<open>A sequence of interrupts that all find a byte, and a kernel thread that reads characters.\<close>

fun kb_run :: "keymap_hal \<Rightarrow> u8 list \<Rightarrow> keyboard \<Rightarrow> 'w input_manager \<Rightarrow> sched
    \<Rightarrow> (keyboard \<times> 'w input_manager \<times> sched) option" where
  "kb_run km [] kb im s = Some (kb, im, s)"
| "kb_run km (c # cs) kb im s =
     Option.bind (kb_OnInterrupt km 1 c kb im s) (\<lambda>(kb1, im1, s1, f12). kb_run km cs kb1 im1 s1)"

fun read_chars :: "nat \<Rightarrow> 'w input_manager \<Rightarrow> 'w \<Rightarrow> string" where
  "read_chars 0 im w = []"
| "read_chars (Suc n) im w = (let (c, w1) = GetChar im w in c # read_chars n im w1)"

lemma kb_run_append:
  "kb_run km (cs @ ds) kb im s = Option.bind (kb_run km cs kb im s) (\<lambda>(kb1, im1, s1). kb_run km ds kb1 im1 s1)"
proof (induction cs arbitrary: kb im s)
  case Nil
  then show ?case by simp
next
  case (Cons c cs)
  then show ?case by (cases "kb_OnInterrupt km 1 c kb im s") auto
qed

lemma push_no_compositor: "g_compositorPID im = 0 \<Longrightarrow> \<exists>im1. im_PushEvent ev im s = Some (im1, s) \<and> g_compositorPID im1 = 0"
  by (simp add: im_PushEvent_def stash_push_def)

lemma scancode_bits:
  assumes "sc < 128"
  shows "unat (word_of_nat sc AND 0x7F :: u8) = sc" and "word_of_nat sc AND 0x80 = (0 :: u8)"
proof -
  let ?w = "word_of_nat sc :: u8"
  have u: "unat ?w = sc" using assms by (simp add: unsigned_of_nat take_bit_eq_mod)
  have "?w AND 0x7F = take_bit 7 ?w" by (simp add: take_bit_eq_mask mask_eq_exp_minus_1)
  then have "unat (?w AND 0x7F) = take_bit 7 (unat ?w)" by (simp only: unsigned_take_bit_eq)
  then show "unat (?w AND 0x7F) = sc" unfolding u using assms by (simp add: take_bit_eq_mod)
  have "unat (drop_bit 7 ?w) = drop_bit 7 (unat ?w)" by (rule unat_drop_bit_eq)
  then have "unat (drop_bit 7 ?w) = 0" unfolding u using assms by (simp add: drop_bit_eq_div)
  then have "drop_bit 7 ?w = 0" by (simp only: unat_eq_zero)
  then have "\<not> bit ?w 7" by (simp add: bit_iff_odd_drop_bit)
  then have "?w AND 2 ^ 7 = 0" by (rule and_exp_eq_0_iff_not_bit [THEN iffD2])
  then show "?w AND 0x80 = 0" by simp
qed

text \<open>A key that is not a modifier, pressed or released: its event goes into the ring if there is room.\<close>

lemma key_step:
  assumes "kb_inv kb" and "g_compositorPID im = 0" and "\<not> IsModifier (unat (w AND 0x7F))"
  shows "\<exists>kb1 im1. kb_run km [w] kb im s = Some (kb1, im1, s) \<and> kb_inv kb1 \<and> g_compositorPID im1 = 0 \<and>
     shiftPressed kb1 = shiftPressed kb \<and> altPressed kb1 = altPressed kb \<and> capsLock kb1 = capsLock kb \<and>
     kb_events kb1 = take 63 (kb_events kb @ [key_event km w kb])"
proof -
  let ?e = "key_event km w kb"
  have m: "modifier_key (unat (w AND 0x7F)) r kb = None" for r using assms(3) by (simp add: modifier_key_def IsModifier_def)
  from push_no_compositor [OF assms(2), of "key_os_event ?e kb" s] obtain im1 where
    im1: "im_PushEvent (key_os_event ?e kb) im s = Some (im1, s)" "g_compositorPID im1 = 0" by blast
  obtain ok kb1 where p: "kb_push ?e kb = (ok, kb1)" by (rule prod.exhaust)
  have "kb_events kb1 = take 63 (kb_events kb @ [?e])"
  proof (cases "length (kb_events kb) < 63")
    case True
    with kbq.push_room [OF assms(1) True p] show ?thesis by simp
  next
    case False
    then have l: "length (kb_events kb) = 63" using kbq.bounded [OF assms(1)] by simp
    with kbq.push_full [OF assms(1) l p] show ?thesis by simp
  qed
  moreover have "kb_run km [w] kb im s = Some (kb1, im1, s)" using im1 m p by (simp add: kb_OnInterrupt_def Let_def)
  moreover have "shiftPressed kb1 = shiftPressed kb \<and> altPressed kb1 = altPressed kb \<and> capsLock kb1 = capsLock kb"
    using p kb_push_modifiers [of ?e kb] by simp
  ultimately show ?thesis using kbq.push_inv [OF assms(1) p] im1(2) by blast
qed

text \<open>What \<^verbatim>\<open>GetChar\<close> makes of an event.\<close>

definition event_char :: "HalInputEvent \<Rightarrow> char" where
  "event_char e = (if ie_type e = KEY_PRESS then ie_ascii e else CHR 0x00)"

lemma press_char:
  assumes "sc < 128" and "Translate km sc (shiftPressed kb) (altPressed kb) (capsLock kb) = of_char c"
  shows "event_char (key_event km (word_of_nat sc) kb) = c"
proof -
  have "(of_char c :: nat) < 256" by (rule nat_of_char_less_256)
  with assms scancode_bits [OF assms(1)] show ?thesis by (simp add: event_char_def key_event_def Let_def)
qed

lemma break_bits:
  assumes "sc < 128"
  shows "unat (word_of_nat (sc + 128) AND 0x7F :: u8) = sc" and "word_of_nat (sc + 128) AND 0x80 \<noteq> (0 :: u8)"
proof -
  let ?w = "word_of_nat (sc + 128) :: u8"
  have u: "unat ?w = sc + 128" using assms by (simp only: unat_of_nat) simp
  have "?w AND 0x7F = take_bit 7 ?w" by (simp only: take_bit_eq_mask mask_eq_exp_minus_1) simp
  then have "unat (?w AND 0x7F) = take_bit 7 (unat ?w)" by (simp only: unsigned_take_bit_eq)
  then show "unat (?w AND 0x7F) = sc" unfolding u using assms by (simp add: take_bit_eq_mod)
  have "unat (drop_bit 7 ?w) = drop_bit 7 (unat ?w)" by (rule unat_drop_bit_eq)
  then have "unat (drop_bit 7 ?w) = 1" unfolding u using assms by (simp add: drop_bit_eq_div)
  then have "drop_bit 7 ?w = 1" by (simp add: word_unat_eq_iff)
  then have "bit ?w 7" by (simp only: bit_iff_odd_drop_bit) simp
  then have "?w AND 2 ^ 7 \<noteq> 0" by (simp only: and_exp_eq_0_iff_not_bit) simp
  then show "?w AND 0x80 \<noteq> 0" by simp
qed

lemma release_char:
  assumes "sc < 128"
  shows "event_char (key_event km (word_of_nat (sc + 128)) kb) = CHR 0x00"
  using break_bits [OF assms] by (simp only: event_char_def key_event_def Let_def if_True HalInputEvent.simps) simp

lemma shift_steps:
  "kb_run km [0x2A] kb im s = Some (kb\<lparr>shiftPressed := True\<rparr>, im, s)"
  "kb_run km [0xAA] kb im s = Some (kb\<lparr>shiftPressed := False\<rparr>, im, s)"
  by (simp_all add: kb_OnInterrupt_def modifier_key_def)

lemma kb_shift_fields [simp]:
  "kb_inv (kb\<lparr>shiftPressed := b\<rparr>) = kb_inv kb" "kb_events (kb\<lparr>shiftPressed := b\<rparr>) = kb_events kb"
  by (simp_all add: kb_inv_def kb_events_def)

section \<open>A typist\<close>

text \<open>
  The keyboard as it is printed: rows of keys with consecutive scancodes, their characters without and with shift (IBM PC, US).  A key
  sends its scancode when it goes down and the scancode plus 128 when it goes up; the typist holds the left shift key around a shifted
  one.
\<close>

definition us_rows :: "(nat \<times> string \<times> string) list" where
  "us_rows =
     [(0x02, ''1234567890-='', ''!@#$%^&*()_+''),
      (0x10, ''qwertyuiop[]'', ''QWERTYUIOP{}''),
      (0x1E, ''asdfghjkl;'' @ [CHR 0x27, CHR 0x60], ''ASDFGHJKL:'' @ [CHR 0x22, CHR 0x7E]),
      (0x2B, [CHR 0x5C] @ ''zxcvbnm,./'', ''|ZXCVBNM<>?''),
      (0x39, '' '', [])]"

definition keycaps :: "(char \<times> nat \<times> bool) list" where
  "keycaps = concat (map (\<lambda>(k, lower, upper).
     zip lower (map (\<lambda>i. (i, False)) [k..<k + length lower]) @ zip upper (map (\<lambda>i. (i, True)) [k..<k + length upper])) us_rows)"

definition typed :: "char \<Rightarrow> u8 list" where
  "typed c =
     (case map_of keycaps c of
        None \<Rightarrow> []
      | Some (k, False) \<Rightarrow> [word_of_nat k, word_of_nat (k + 128)]
      | Some (k, True) \<Rightarrow> [0x2A, word_of_nat k, word_of_nat (k + 128), 0xAA])"

definition printable :: "char \<Rightarrow> bool" where
  "printable c \<longleftrightarrow> 32 \<le> (of_char c :: nat) \<and> (of_char c :: nat) < 127"

text \<open>The layout of the boot agrees with the printed keys.\<close>

lemma keycaps_layout:
  "\<forall>(c, k, sh) \<in> set keycaps. (if sh then (k, of_char c) \<in> set us_shift \<or> letter_key k \<and> (k, of_char c + 32) \<in> set us_normal \<and> 65 \<le> (of_char c :: nat)
      else (k, of_char c) \<in> set us_normal) \<and> k < 128 \<and> \<not> IsModifier k"
  by (simp add: keycaps_def us_rows_def us_normal_def us_shift_def letter_key_def IsModifier_def upt_conv_Cons)

lemma keycaps_all: "{32..<127} \<subseteq> (of_char :: char \<Rightarrow> nat) ` fst ` set keycaps"
proof -
  have "\<forall>c \<in> set [32..<127]. c \<in> (of_char :: char \<Rightarrow> nat) ` fst ` set keycaps"
    by (simp add: keycaps_def us_rows_def upt_conv_Cons)
  then show ?thesis unfolding atLeastLessThan_upt [of 32 127] by (auto simp del: upt_rec_numeral upt.simps set_upt)
qed

lemma printable_key:
  assumes "printable c"
  obtains k sh where "map_of keycaps c = Some (k, sh)" "k < 128" "\<not> IsModifier k" "Translate keymap_Init k sh False False = of_char c"
    "c \<noteq> CHR 0x00"
proof -
  have "(of_char c :: nat) \<in> of_char ` fst ` set keycaps" using keycaps_all assms unfolding printable_def by (meson atLeastLessThan_iff subsetD)
  then have "c \<in> fst ` set keycaps" by (auto simp: image_iff)
  then obtain k sh where k: "map_of keycaps c = Some (k, sh)" by (metis map_of_eq_None_iff not_None_eq prod.collapse)
  then have "(c, k, sh) \<in> set keycaps" by (rule map_of_SomeD)
  with keycaps_layout have L: "if sh then (k, of_char c) \<in> set us_shift \<or> letter_key k \<and> (k, of_char c + 32) \<in> set us_normal \<and> 65 \<le> (of_char c :: nat)
      else (k, of_char c) \<in> set us_normal" "k < 128" "\<not> IsModifier k" by fastforce+
  have c: "32 \<le> (of_char c :: nat)" "(of_char c :: nat) < 127" using assms by (simp_all add: printable_def)
  have "Translate keymap_Init k sh False False = of_char c"
  proof (cases sh)
    case False
    with L show ?thesis by (simp add: Translate_def us_normal_nth del: InitKeymap_fields)
  next
    case True
    with L have "km_shift InitKeymapUS ! k = of_char c"
      using c by (auto simp: us_shift_nth us_letter_nth us_normal_nth simp del: InitKeymap_fields)
    with True L(2) c show ?thesis by (simp add: Translate_def)
  qed
  moreover have "c \<noteq> CHR 0x00" using c by auto
  ultimately show thesis using that k L by blast
qed

definition kb_boot :: keyboard where
  "kb_boot = \<lparr>kb_buffer = replicate EVENT_BUFFER_SIZE \<lparr>ie_type = KEY_PRESS, ie_keycode = 0, ie_scancode_raw = 0,
     ie_ascii = CHR 0x00, ie_mouse_x = 0, ie_mouse_y = 0, ie_mouse_buttons = 0\<rparr>, kb_read = 0, kb_write = 0,
     shiftPressed = False, capsLock = False, ctrlPressed = False, altPressed = False\<rparr>"

definition plain :: "keyboard \<Rightarrow> bool" where
  "plain kb \<longleftrightarrow> \<not> shiftPressed kb \<and> \<not> altPressed kb \<and> \<not> capsLock kb"

text \<open>One key, down and up: two events, the character and nothing.\<close>

lemma key_pair:
  assumes "kb_inv kb" and "g_compositorPID im = 0" and "\<not> altPressed kb" "\<not> capsLock kb" and "k < 128" "\<not> IsModifier k"
    and "Translate km k (shiftPressed kb) False False = of_char c"
  shows "\<exists>kb1 im1. kb_run km [word_of_nat k, word_of_nat (k + 128)] kb im s = Some (kb1, im1, s) \<and> kb_inv kb1 \<and>
     g_compositorPID im1 = 0 \<and> shiftPressed kb1 = shiftPressed kb \<and> \<not> altPressed kb1 \<and> \<not> capsLock kb1 \<and>
     map event_char (kb_events kb1) = take 63 (map event_char (kb_events kb) @ [c, CHR 0x00])"
proof -
  from key_step [OF assms(1,2), of "word_of_nat k" km s] scancode_bits(1) [OF assms(5)] assms(6) obtain kb1 im1 where
    1: "kb_run km [word_of_nat k] kb im s = Some (kb1, im1, s)" "kb_inv kb1" "g_compositorPID im1 = 0"
    "shiftPressed kb1 = shiftPressed kb" "altPressed kb1 = altPressed kb" "capsLock kb1 = capsLock kb"
    "kb_events kb1 = take 63 (kb_events kb @ [key_event km (word_of_nat k) kb])" by auto
  from key_step [OF 1(2,3), of "word_of_nat (k + 128)" km s] break_bits(1) [OF assms(5)] assms(6) obtain kb2 im2 where
    2: "kb_run km [word_of_nat (k + 128)] kb1 im1 s = Some (kb2, im2, s)" "kb_inv kb2" "g_compositorPID im2 = 0"
    "shiftPressed kb2 = shiftPressed kb1" "altPressed kb2 = altPressed kb1" "capsLock kb2 = capsLock kb1"
    "kb_events kb2 = take 63 (kb_events kb1 @ [key_event km (word_of_nat (k + 128)) kb1])"
    unfolding break_bits(1) [OF assms(5)] by blast
  have "kb_run km ([word_of_nat k] @ [word_of_nat (k + 128)]) kb im s = Some (kb2, im2, s)"
    unfolding kb_run_append 1(1) bind.bind_lunit prod.case by (rule 2(1))
  moreover have "event_char (key_event km (word_of_nat k) kb) = c" using assms(3,4,7) by (intro press_char [OF assms(5)]) simp
  moreover have "event_char (key_event km (word_of_nat (k + 128)) kb1) = CHR 0x00" by (rule release_char [OF assms(5)])
  ultimately show ?thesis using 1(4-7) 2(2-7) assms(3,4)
    by (intro exI [of _ kb2] exI [of _ im2]) (simp add: take_map [symmetric] take_Cons')
qed

lemma type_char:
  assumes "printable c" and "kb_inv kb" and "plain kb" and "g_compositorPID im = 0"
  shows "\<exists>kb1 im1. kb_run keymap_Init (typed c) kb im s = Some (kb1, im1, s) \<and> kb_inv kb1 \<and> g_compositorPID im1 = 0 \<and>
     plain kb1 \<and> map event_char (kb_events kb1) = take 63 (map event_char (kb_events kb) @ [c, CHR 0x00])"
proof -
  obtain k sh where k: "map_of keycaps c = Some (k, sh)" "k < 128" "\<not> IsModifier k" "Translate keymap_Init k sh False False = of_char c"
    by (rule printable_key [OF assms(1)])
  have p: "\<not> shiftPressed kb" "\<not> altPressed kb" "\<not> capsLock kb" using assms(3) by (simp_all add: plain_def)
  show ?thesis
  proof (cases sh)
    case False
    with key_pair [OF assms(2,4) p(2,3) k(2,3), of keymap_Init c s] k p show ?thesis
      by (auto simp: typed_def plain_def)
  next
    case True
    let ?kb = "kb\<lparr>shiftPressed := True\<rparr>"
    from key_pair [of ?kb im k keymap_Init c s] assms k p True obtain kb1 im1 where
      r: "kb_run keymap_Init [word_of_nat k, word_of_nat (k + 128)] ?kb im s = Some (kb1, im1, s)" "kb_inv kb1"
      "g_compositorPID im1 = 0" "\<not> altPressed kb1" "\<not> capsLock kb1"
      "map event_char (kb_events kb1) = take 63 (map event_char (kb_events kb) @ [c, CHR 0x00])" by auto
    have "typed c = [0x2A] @ [word_of_nat k, word_of_nat (k + 128)] @ [0xAA]" using k(1) True by (simp add: typed_def)
    then have "kb_run keymap_Init (typed c) kb im s = Some (kb1\<lparr>shiftPressed := False\<rparr>, im1, s)"
      by (simp only: kb_run_append shift_steps bind.bind_lunit prod.case r(1))
    with r show ?thesis by (intro exI [of _ "kb1\<lparr>shiftPressed := False\<rparr>"] exI [of _ im1]) (simp add: plain_def)
  qed
qed

lemma type_text:
  assumes "list_all printable line" and "kb_inv kb" and "plain kb" and "g_compositorPID im = 0"
  shows "\<exists>kb1 im1. kb_run keymap_Init (concat (map typed line)) kb im s = Some (kb1, im1, s) \<and> kb_inv kb1 \<and>
     map event_char (kb_events kb1) = take 63 (map event_char (kb_events kb) @ concat (map (\<lambda>c. [c, CHR 0x00]) line))"
  using assms
proof (induction line arbitrary: kb im)
  case Nil
  with kbq.bounded [OF Nil(2)] show ?case by simp
next
  case (Cons c line)
  then have "printable c" by simp
  from type_char [OF this Cons.prems(2-4)] obtain kb1 im1 where
    k: "kb_run keymap_Init (typed c) kb im s = Some (kb1, im1, s)" "kb_inv kb1" "g_compositorPID im1 = 0" "plain kb1"
    "map event_char (kb_events kb1) = take 63 (map event_char (kb_events kb) @ [c, CHR 0x00])" by blast
  have "list_all printable line" using Cons.prems(1) by simp
  from Cons.IH [OF this k(2,4,3)] obtain kb2 im2 where
    k2: "kb_run keymap_Init (concat (map typed line)) kb1 im1 s = Some (kb2, im2, s)" "kb_inv kb2"
    "map event_char (kb_events kb2) = take 63 (map event_char (kb_events kb1) @ concat (map (\<lambda>c. [c, CHR 0x00]) line))" by blast
  have "kb_run keymap_Init (concat (map typed (c # line))) kb im s = Some (kb2, im2, s)"
    by (simp only: list.map concat.simps kb_run_append k(1) bind.bind_lunit prod.case k2(1))
  moreover have "take 63 (take 63 xs @ ys) = take 63 (xs @ ys)" for xs ys :: string by (simp add: min_def)
  then have "map event_char (kb_events kb2) = take 63 (map event_char (kb_events kb) @ concat (map (\<lambda>c. [c, CHR 0x00]) (c # line)))"
    unfolding k2(3) k(5) by (simp only: list.map concat.simps append_assoc)
  ultimately show ?case using k2(2) by blast
qed

lemma read_chars_spec:
  assumes "im_devices im = Some kb_device # ds" and "0 < im_deviceCount im" and "kb_inv kb"
  shows "read_chars (length (kb_events kb)) im kb = map event_char (kb_events kb)"
proof -
  have "read_chars (length es) im kb = map event_char es" if "kb_inv kb" "kb_events kb = es" for es kb
    using that
  proof (induction es arbitrary: kb)
    case Nil
    then show ?case by simp
  next
    case (Cons e es)
    from kbq.pop_front [OF Cons.prems] obtain kb1 where
      q: "kb_PollEvent kb = Some (e, kb1)" "kb_events kb1 = es" "kb_inv kb1" by blast
    have "take (im_deviceCount im) (im_devices im) = Some kb_device # take (im_deviceCount im - 1) ds"
      using assms(1,2) by (cases "im_deviceCount im") simp_all
    then have "GetChar im kb = (event_char e, kb1)" using q(1)
      by (simp add: GetChar_def PollEvent_def kb_device_def event_char_def)
    with Cons.IH [OF q(3,2)] show ?case by simp
  qed
  with assms(3) show ?thesis by blast
qed

lemma char_pairs:
  "list_all printable line \<Longrightarrow> filter (\<lambda>c. c \<noteq> CHR 0x00) (take n (concat (map (\<lambda>c. [c, CHR 0x00]) line))) = take ((n + 1) div 2) line"
proof (induction line arbitrary: n)
  case Nil
  then show ?case by simp
next
  case (Cons c line)
  have c: "c \<noteq> CHR 0x00" using Cons.prems by (auto simp: printable_def)
  consider "n = 0" | "n = 1" | m where "n = Suc (Suc m)" by (metis One_nat_def not0_implies_Suc)
  then show ?case
    by cases (use Cons c in \<open>simp_all add: numeral_2_eq_2 [symmetric]\<close>)
qed

section \<open>Properties\<close>

text \<open>C25. A line of printable ASCII characters is typed on a US keyboard after the boot: every key sends its make and its break
  code, with the left shift key held where the character needs it.  The ring keeps the first 63 of the events.  A kernel thread that then
  calls \<^verbatim>\<open>GetChar\<close> for each of them, on an input manager whose first device is the keyboard, gets
  the first 32 characters of the line in order, each followed by a NUL for the release of its key; a line of at most 31 characters
  is read completely.\<close>

theorem typed_text_is_read:
  assumes "list_all printable line" and "g_compositorPID im = 0"
  shows "\<exists>kb im1. kb_run keymap_Init (concat (map typed line)) kb_boot im s = Some (kb, im1, s) \<and>
    (\<forall>im2. hd (im_devices im2) = Some kb_device \<longrightarrow> 0 < im_deviceCount im2 \<longrightarrow> im_devices im2 \<noteq> [] \<longrightarrow>
       (let chars = read_chars (min 63 (2 * length line)) im2 kb
        in chars = take 63 (concat (map (\<lambda>c. [c, CHR 0x00]) line)) \<and> filter (\<lambda>c. c \<noteq> CHR 0x00) chars = take 32 line))"
proof -
  have inv: "kb_inv kb_boot" and e: "kb_events kb_boot = []" and pl: "plain kb_boot"
    by (simp_all add: kb_boot_def kb_inv_def kb_events_def ht_len_def plain_def)
  let ?cs = "take 63 (concat (map (\<lambda>c. [c, CHR 0x00]) line))"
  from type_text [OF assms(1) inv pl assms(2), of s] e obtain kb im1 where
    k: "kb_run keymap_Init (concat (map typed line)) kb_boot im s = Some (kb, im1, s)" "kb_inv kb"
    "map event_char (kb_events kb) = ?cs" by auto
  have "length (concat (map (\<lambda>c. [c, CHR 0x00]) line)) = 2 * length line" by (induction line) simp_all
  then have len: "length (kb_events kb) = min 63 (2 * length line)" using arg_cong [OF k(3), of length] by simp
  have "let chars = read_chars (min 63 (2 * length line)) im2 kb in chars = ?cs \<and> filter (\<lambda>c. c \<noteq> CHR 0x00) chars = take 32 line"
    if "hd (im_devices im2) = Some kb_device" "0 < im_deviceCount im2" "im_devices im2 \<noteq> []" for im2
  proof -
    have "im_devices im2 = Some kb_device # tl (im_devices im2)" using that by (metis list.collapse)
    from read_chars_spec [OF this that(2) k(2)] have "read_chars (min 63 (2 * length line)) im2 kb = ?cs" unfolding len k(3) .
    then show ?thesis using char_pairs [OF assms(1), of 63] by (simp add: Let_def)
  qed
  with k(1) show ?thesis by blast
qed

definition kb_demo_im :: "keyboard input_manager" where
  "kb_demo_im = \<lparr>im_devices = [Some kb_device], im_deviceCount = 1, g_eventStash = [], g_stashHead = 0, g_stashTail = 0,
     g_stashCount = 0, g_compositorPID = 0\<rparr>"

theorem typed_text_is_read_witness:
  "\<exists>kb im1. kb_run keymap_Init (concat (map typed ''Hi!'')) kb_boot kb_demo_im (demo_sched 0 READY) = Some (kb, im1, demo_sched 0 READY) \<and>
     read_chars 6 kb_demo_im kb = [CHR ''H'', CHR 0x00, CHR ''i'', CHR 0x00, CHR ''!'', CHR 0x00]"
proof -
  have p: "list_all printable ''Hi!''" "g_compositorPID kb_demo_im = 0"
    by (simp_all add: printable_def kb_demo_im_def)
  have "hd (im_devices kb_demo_im) = Some kb_device" "0 < im_deviceCount kb_demo_im" "im_devices kb_demo_im \<noteq> []"
    by (simp_all add: kb_demo_im_def)
  then show ?thesis using typed_text_is_read [OF p, of "demo_sched 0 READY"] by (fastforce simp: Let_def)
qed

lemma typed_demo: "typed CHR ''H'' = [0x2A, 0x23, 0xA3, 0xAA]" "typed CHR ''i'' = [0x17, 0x97]"
  by (simp_all add: typed_def keycaps_def us_rows_def upt_conv_Cons)

text \<open>The character of a key above ASCII reaches user space with its sign extended: the letter on the key
  right of L on the Spanish layout, \<^verbatim>\<open>0xF1\<close>, arrives as \<^verbatim>\<open>0xFFFFFFF1\<close>.\<close>

lemma ascii_sign_extended:
  "os_ascii (key_os_event (key_event (keymap_Init\<lparr>currentKeymap := Some InitKeymapES\<rparr>) 0x27 kb_boot) kb_boot) = 0xFFFFFFF1"
proof -
  have "distinct (map fst es_normal)" "(0x27, 0xF1) \<in> set es_normal" by (simp_all add: es_normal_def)
  then have "km_normal InitKeymapES ! 0x27 = 0xF1" by (simp add: assign_keys_nth)
  then have "Translate (keymap_Init\<lparr>currentKeymap := Some InitKeymapES\<rparr>) 39 False False False = 0xF1"
    by (simp add: Translate_def del: InitKeymap_fields)
  moreover have "schar (char_of (241 :: nat)) = - 15" by code_simp
  ultimately show ?thesis by (simp add: key_event_def key_os_event_def kb_boot_def Let_def)
qed

end
