(* ===== verification/Graphics.thy ===== *)
theory Graphics
  imports Prelude
begin

text \<open>
  Drawing: the alpha table of \<^verbatim>\<open>kernel/hal/video/alpha_lut.cpp\<close>, the copy and fill routines of
  \<^verbatim>\<open>kernel/hal/video/blit_fast.S\<close> and the primitives of \<^verbatim>\<open>kernel/hal/video/graphics.cpp\<close>.  A pixel buffer is a block
  named by its base address and indexed by pixel; \<^verbatim>\<open>&buffer[k]\<close> is the pair of the base and \<open>k\<close>.  Coordinates
  are natural numbers below \<open>2^32\<close> and their sums and products wrap as \<^verbatim>\<open>uint32_t\<close>.
\<close>

section \<open>Pixel memory\<close>

type_synonym pixels = "addr \<Rightarrow> nat \<Rightarrow> u32"

text \<open>\<^verbatim>\<open>rep stosl\<close>\<close>

fun memset_fast_32 :: "addr \<Rightarrow> nat \<Rightarrow> u32 \<Rightarrow> nat \<Rightarrow> pixels \<Rightarrow> pixels" where
  "memset_fast_32 b i v 0 m = m"
| "memset_fast_32 b i v (Suc n) m = memset_fast_32 b (i + 1) v n (m(b := (m b)(i := v)))"

text \<open>\<^verbatim>\<open>rep movsl\<close>: forward, one pixel after the other.  \<^verbatim>\<open>rep movsq\<close> moves two.\<close>

fun blit_fast_32 :: "addr \<Rightarrow> nat \<Rightarrow> addr \<Rightarrow> nat \<Rightarrow> nat \<Rightarrow> pixels \<Rightarrow> pixels" where
  "blit_fast_32 d i s j 0 m = m"
| "blit_fast_32 d i s j (Suc n) m = blit_fast_32 d (i + 1) s (j + 1) n (m(d := (m d)(i := m s j)))"

fun blit_fast_64 :: "addr \<Rightarrow> nat \<Rightarrow> addr \<Rightarrow> nat \<Rightarrow> nat \<Rightarrow> pixels \<Rightarrow> pixels" where
  "blit_fast_64 d i s j 0 m = m"
| "blit_fast_64 d i s j (Suc n) m =
     blit_fast_64 d (i + 2) s (j + 2) n (m(d := (m d)(i := m s j, i + 1 := m s (j + 1))))"

text \<open>\<^verbatim>\<open>(y) * width + (x)\<close> in 32 bits\<close>

definition idx32 :: "nat \<Rightarrow> nat \<Rightarrow> nat \<Rightarrow> nat" where
  "idx32 W x y = add32 (mul32 y W) x"

section \<open>Alpha blending\<close>

definition InitLUT :: "nat \<Rightarrow> nat" where
  "InitLUT k = (k div 256) * (k mod 256) div 256"

definition chan :: "nat \<Rightarrow> u32 \<Rightarrow> nat" where
  "chan k c = unat (drop_bit k c AND 0xFF)"

definition pack_rgb :: "nat \<Rightarrow> nat \<Rightarrow> nat \<Rightarrow> u32" where
  "pack_rgb r g b = 0xFF000000 OR push_bit 16 (word_of_nat r) OR push_bit 8 (word_of_nat g) OR word_of_nat b"

text \<open>The sum of two entries of the table, stored in 8 bits.\<close>

definition lut_mix :: "(nat \<Rightarrow> nat) \<Rightarrow> nat \<Rightarrow> nat \<Rightarrow> nat \<Rightarrow> nat" where
  "lut_mix lut a f b = (lut (a * 256 + f) + lut ((255 - a) * 256 + b)) mod 256"

definition BlendAlpha :: "(nat \<Rightarrow> nat) option \<Rightarrow> u32 \<Rightarrow> u32 \<Rightarrow> nat \<Rightarrow> u32" where
  "BlendAlpha lut fg bg a =
     (case lut of
        None \<Rightarrow> fg
      | Some t \<Rightarrow>
          if a = 255 then fg else if a = 0 then bg
          else pack_rgb (lut_mix t a (chan 16 fg) (chan 16 bg)) (lut_mix t a (chan 8 fg) (chan 8 bg))
                 (lut_mix t a (chan 0 fg) (chan 0 bg)))"

definition Blend :: "(nat \<Rightarrow> nat) option \<Rightarrow> u32 \<Rightarrow> u32 \<Rightarrow> u32" where
  "Blend lut fg bg = BlendAlpha lut fg bg (chan 24 fg)"

fun BlendRow :: "(nat \<Rightarrow> nat) option \<Rightarrow> addr \<Rightarrow> nat \<Rightarrow> addr \<Rightarrow> nat \<Rightarrow> nat \<Rightarrow> nat \<Rightarrow> pixels \<Rightarrow> pixels" where
  "BlendRow lut d i s j 0 a m = m"
| "BlendRow lut d i s j (Suc n) a m =
     BlendRow lut d (i + 1) s (j + 1) n a (m(d := (m d)(i := BlendAlpha lut (m s j) (m d i) a)))"

definition BlendPixelRaw :: "u32 \<Rightarrow> u32 \<Rightarrow> u32" where
  "BlendPixelRaw bg fg =
     (let a = chan 24 fg
      in if a = 0 then bg else if a = 255 then fg
         else pack_rgb ((chan 16 fg * a + chan 16 bg * (255 - a)) div 256)
                ((chan 8 fg * a + chan 8 bg * (255 - a)) div 256) ((chan 0 fg * a + chan 0 bg * (255 - a)) div 256))"

section \<open>The screen\<close>

record graphics =
  g_vram :: addr
  g_draw :: addr
  g_width :: nat
  g_height :: nat
  g_pitch :: nat
  g_drm :: bool
  g_px :: pixels

record FramebufferInfo =
  fb_base :: addr
  fb_width :: nat
  fb_height :: nat
  fb_ppsl :: nat
  fb_bpp :: nat

definition gfx_Init :: "FramebufferInfo option \<Rightarrow> graphics \<Rightarrow> graphics" where
  "gfx_Init fb g =
     (case fb of
        None \<Rightarrow> g
      | Some f \<Rightarrow> g\<lparr>g_vram := fb_base f, g_width := fb_width f, g_height := fb_height f,
                     g_pitch := mul32 (fb_ppsl f) (fb_bpp f), g_draw := fb_base f\<rparr>)"

definition GetWidth :: "graphics \<Rightarrow> nat" where "GetWidth g = g_width g"
definition GetHeight :: "graphics \<Rightarrow> nat" where "GetHeight g = g_height g"
definition GetPitch :: "graphics \<Rightarrow> nat" where "GetPitch g = g_pitch g"
definition GetVRAM :: "graphics \<Rightarrow> addr" where "GetVRAM g = g_vram g"

definition GetDrawBuffer :: "graphics \<Rightarrow> addr" where
  "GetDrawBuffer g = (if g_draw g \<noteq> 0 then g_draw g else g_vram g)"

definition SetDrawBuffer :: "addr \<Rightarrow> graphics \<Rightarrow> graphics" where
  "SetDrawBuffer b g = g\<lparr>g_draw := b\<rparr>"

definition upd_px :: "(pixels \<Rightarrow> pixels) \<Rightarrow> graphics \<Rightarrow> graphics" where
  "upd_px f g = g\<lparr>g_px := f (g_px g)\<rparr>"

definition PutPixel :: "nat \<Rightarrow> nat \<Rightarrow> u32 \<Rightarrow> graphics \<Rightarrow> graphics" where
  "PutPixel x y c g =
     (if g_draw g = 0 \<or> x \<ge> g_width g \<or> y \<ge> g_height g then g
      else upd_px (\<lambda>m. m(g_draw g := (m (g_draw g))(idx32 (g_width g) x y := c))) g)"

text \<open>\<^verbatim>\<open>if (x + w > width) w = width - x;\<close>\<close>

definition clip_len :: "nat \<Rightarrow> nat \<Rightarrow> nat \<Rightarrow> nat" where
  "clip_len limit x w = (if add32 x w > limit then sub32 limit x else w)"

definition FillRect :: "nat \<Rightarrow> nat \<Rightarrow> nat \<Rightarrow> nat \<Rightarrow> u32 \<Rightarrow> graphics \<Rightarrow> graphics" where
  "FillRect x y w h c g =
     (if g_draw g = 0 \<or> x \<ge> g_width g \<or> y \<ge> g_height g then g
      else let w1 = clip_len (g_width g) x w; h1 = clip_len (g_height g) y h
           in upd_px (\<lambda>m. foldl (\<lambda>m iy. memset_fast_32 (g_draw g) (idx32 (g_width g) x (add32 y iy)) c w1 m) m [0..<h1]) g)"

definition DrawRect :: "nat \<Rightarrow> nat \<Rightarrow> nat \<Rightarrow> nat \<Rightarrow> u32 \<Rightarrow> graphics \<Rightarrow> graphics" where
  "DrawRect x y w h c g =
     FillRect (sub32 (add32 x w) 1) y 1 h c (FillRect x y 1 h c
       (FillRect x (sub32 (add32 y h) 1) w 1 c (FillRect x y w 1 c g)))"

definition DrawImage :: "nat \<Rightarrow> nat \<Rightarrow> nat \<Rightarrow> nat \<Rightarrow> addr \<Rightarrow> graphics \<Rightarrow> graphics" where
  "DrawImage x y w h data g =
     (if g_draw g = 0 \<or> data = 0 \<or> x \<ge> g_width g \<or> y \<ge> g_height g then g
      else let w1 = clip_len (g_width g) x w; h1 = clip_len (g_height g) y h
           in upd_px (\<lambda>m. foldl (\<lambda>m iy. blit_fast_32 (g_draw g) (idx32 (g_width g) x (add32 y iy)) data (mul32 iy w) w1 m) m [0..<h1]) g)"

definition DrawImageCentered :: "nat \<Rightarrow> nat \<Rightarrow> addr \<Rightarrow> graphics \<Rightarrow> graphics" where
  "DrawImageCentered w h data g =
     DrawImage (sub32 (g_width g) w div 2) (sub32 (g_height g) h div 2) w h data g"

definition BlendPixel :: "nat \<Rightarrow> nat \<Rightarrow> u32 \<Rightarrow> graphics \<Rightarrow> graphics" where
  "BlendPixel x y c g =
     (if g_draw g = 0 \<or> x \<ge> g_width g \<or> y \<ge> g_height g then g
      else let k = idx32 (g_width g) x y
           in upd_px (\<lambda>m. m(g_draw g := (m (g_draw g))(k := BlendPixelRaw (m (g_draw g) k) c))) g)"

section \<open>Spans and rectangles\<close>

text \<open>Every routine that draws row by row rewrites a span of each row by a function of the pixel's place in
  it and its old value.\<close>

definition span :: "nat \<Rightarrow> nat \<Rightarrow> (nat \<Rightarrow> u32 \<Rightarrow> u32) \<Rightarrow> (nat \<Rightarrow> u32) \<Rightarrow> nat \<Rightarrow> u32" where
  "span i n f row k = (if i \<le> k \<and> k < i + n then f (k - i) (row k) else row k)"

definition rect_upd :: "nat \<Rightarrow> nat \<Rightarrow> nat \<Rightarrow> nat \<Rightarrow> nat \<Rightarrow> (nat \<Rightarrow> nat \<Rightarrow> u32 \<Rightarrow> u32) \<Rightarrow> (nat \<Rightarrow> u32) \<Rightarrow> (nat \<Rightarrow> u32)" where
  "rect_upd W x y w h F buf = foldl (\<lambda>b iy. span ((y + iy) * W + x) w (F iy) b) buf [0..<h]"

lemma span_0 [simp]: "span i 0 f row = row"
  by (rule ext) (auto simp: span_def)

lemma span_Suc: "span i (Suc n) f row = span (i + 1) n (\<lambda>k. f (Suc k)) (row(i := f 0 (row i)))"
proof
  fix k
  show "span i (Suc n) f row k = span (i + 1) n (\<lambda>k. f (Suc k)) (row(i := f 0 (row i))) k"
    by (cases "k \<le> i") (auto simp: span_def Suc_diff_Suc)
qed

lemma memset_fast_32_span: "memset_fast_32 b i v n m = m(b := span i n (\<lambda>_ _. v) (m b))"
  by (induction n arbitrary: i m) (simp_all add: span_Suc)

lemma blit_fast_32_span: "d \<noteq> s \<Longrightarrow> blit_fast_32 d i s j n m = m(d := span i n (\<lambda>k _. m s (j + k)) (m d))"
  by (induction n arbitrary: i j m) (simp_all add: span_Suc)

lemma blit_fast_64_eq: "blit_fast_64 d i s j n m = blit_fast_32 d i s j (2 * n) m" if "d \<noteq> s"
  using that by (induction n arbitrary: i j m) (simp_all add: fun_upd_upd)

lemma rect_upd_Suc: "rect_upd W x y w (Suc h) F buf = span ((y + h) * W + x) w (F h) (rect_upd W x y w h F buf)"
  by (simp add: rect_upd_def)

lemma rect_upd_0 [simp]: "rect_upd W x y w 0 F buf = buf"
  by (simp add: rect_upd_def)

lemma in_row:
  assumes "x + w \<le> W" and "0 < W"
  shows "Y * W + x \<le> k \<and> k < Y * W + x + w \<longleftrightarrow> k div W = Y \<and> x \<le> k mod W \<and> k mod W < (x + w :: nat)"
proof
  assume a: "Y * W + x \<le> k \<and> k < Y * W + x + w"
  then have lo: "Y * W \<le> k" and hi: "k < Y * W + W" using assms(1) by linarith+
  have "k div W = Y" using lo hi by (intro div_nat_eqI) (simp_all add: mult.commute)
  moreover from this have "k = Y * W + k mod W" by (metis div_mult_mod_eq)
  ultimately show "k div W = Y \<and> x \<le> k mod W \<and> k mod W < x + w" using a by linarith
next
  assume a: "k div W = Y \<and> x \<le> k mod W \<and> k mod W < x + w"
  then have "k = Y * W + k mod W" by (metis div_mult_mod_eq)
  with a show "Y * W + x \<le> k \<and> k < Y * W + x + w" by linarith
qed

text \<open>The pixel at column \<open>k mod W\<close> of row \<open>k div W\<close> after the rows were drawn.\<close>

lemma rect_upd_pixel:
  assumes "x + w \<le> W" and "0 < W"
  shows "rect_upd W x y w h F buf k =
    (if x \<le> k mod W \<and> k mod W < x + w \<and> y \<le> k div W \<and> k div W < y + h
     then F (k div W - y) (k mod W - x) (buf k) else buf k)"
proof (induction h)
  case 0
  then show ?case by auto
next
  case (Suc h)
  have sp: "span ((y + h) * W + x) w f b k =
      (if k div W = y + h \<and> x \<le> k mod W \<and> k mod W < x + w then f (k mod W - x) (b k) else b k)" for f b
  proof (cases "k div W = y + h \<and> x \<le> k mod W \<and> k mod W < x + w")
    case True
    then have "(y + h) * W + x \<le> k \<and> k < (y + h) * W + x + w" using in_row [OF assms, of "y + h" k] by simp
    moreover have "k - ((y + h) * W + x) = k mod W - x"
      using True div_mult_mod_eq [of k W] by (metis add_diff_cancel_left' diff_diff_eq)
    ultimately show ?thesis using True by (simp add: span_def)
  next
    case False
    then have "\<not> ((y + h) * W + x \<le> k \<and> k < (y + h) * W + x + w)" using in_row [OF assms, of "y + h" k] by simp
    then have "span ((y + h) * W + x) w f b k = b k" unfolding span_def by (rule if_not_P)
    then show ?thesis using False by (simp only: if_False)
  qed
  show ?case unfolding rect_upd_Suc sp by (cases "k div W = y + h") (auto simp: Suc)
qed

text \<open>A row loop whose indices do not wrap is such an update.\<close>

lemma idx32_eq: "y < H \<Longrightarrow> x < W \<Longrightarrow> W * H < u32_limit \<Longrightarrow> idx32 W x y = y * W + x"
proof -
  assume a: "y < H" "x < W" "W * H < u32_limit"
  have "Suc y * W \<le> H * W" using a(1) by (intro mult_le_mono1) simp
  then have "y * W + x < u32_limit" using a by (simp add: mult.commute)
  then show ?thesis by (simp add: idx32_def mul32_def add32_def)
qed

lemma foldl_rows_cong:
  "(\<And>b iy. iy < h \<Longrightarrow> f b iy = g b iy) \<Longrightarrow> foldl f b [0..<h] = foldl g b [0..<h]" for h :: nat
  by (rule foldl_cong) simp_all

lemma foldl_on_block:
  "(\<And>m iy. iy < h \<Longrightarrow> f m iy = m(b := span (p iy) w (F iy) (m b))) \<Longrightarrow>
   foldl f m [0..<h] = m(b := foldl (\<lambda>r iy. span (p iy) w (F iy) r) (m b) [0..<h])" for h :: nat
  by (induction h) simp_all

text \<open>The same when the new pixels come from another block.\<close>

lemma foldl_on_block_from:
  fixes h :: nat
  assumes "\<And>m iy. iy < h \<Longrightarrow> m s = S \<Longrightarrow> f m iy = m(b := span (p iy) w (F iy) (m b))" and "b \<noteq> s" and "m s = S"
  shows "foldl f m [0..<h] = m(b := foldl (\<lambda>r iy. span (p iy) w (F iy) r) (m b) [0..<h])"
  using assms(1,3)
proof (induction h)
  case 0
  then show ?case by simp
next
  case (Suc h)
  let ?r = "foldl (\<lambda>r iy. span (p iy) w (F iy) r) (m b) [0..<h]"
  have ih: "foldl f m [0..<h] = m(b := ?r)" by (rule Suc.IH) (use Suc.prems in simp_all)
  have "foldl f m [0..<Suc h] = f (m(b := ?r)) h" unfolding ih [symmetric] by simp
  also have "\<dots> = (m(b := ?r))(b := span (p h) w (F h) ((m(b := ?r)) b))"
    by (rule Suc.prems(1)) (use Suc.prems(2) assms(2) in simp_all)
  finally show ?case by simp
qed

lemma span_split: "c \<le> n \<Longrightarrow> span i n f row = span (i + c) (n - c) (\<lambda>k. f (c + k)) (span i c f row)"
  by (rule ext) (auto simp: span_def)

lemma span_cong:
  assumes "\<And>k. k < n \<Longrightarrow> f k (row (i + k)) = g k (row (i + k))"
  shows "span i n f row = span i n g row"
proof
  fix x
  show "span i n f row x = span i n g row x" using assms [of "x - i"] by (auto simp: span_def)
qed

lemma add32_small: "a + b < u32_limit \<Longrightarrow> add32 a b = a + b"
  by (simp add: add32_def)

lemma clip_len_eq:
  assumes "x < limit" and "x + w < u32_limit" and "limit < u32_limit"
  shows "clip_len limit x w = min w (limit - x)"
  using assms by (auto simp: clip_len_def add32_small sub32_eq)

definition screen_ok :: "graphics \<Rightarrow> bool" where
  "screen_ok g \<longleftrightarrow> g_draw g \<noteq> 0 \<and> 0 < g_width g \<and> 0 < g_height g \<and> g_width g * g_height g < u32_limit"

lemma screen_okD:
  assumes "screen_ok g"
  shows "g_width g < u32_limit" "g_height g < u32_limit" "g_draw g \<noteq> 0"
proof -
  from assms have wh: "0 < g_width g" "0 < g_height g" "g_width g * g_height g < u32_limit" and d: "g_draw g \<noteq> 0"
    by (simp_all add: screen_ok_def)
  have "g_width g \<le> g_width g * g_height g" "g_height g \<le> g_width g * g_height g" using wh(1,2) by simp_all
  then show "g_width g < u32_limit" "g_height g < u32_limit" "g_draw g \<noteq> 0"
    using wh(3) d by (metis order_le_less_trans)+
qed

text \<open>A clipped row loop that starts on the screen.\<close>

lemma row_loop_rect:
  assumes "screen_ok g" and "x < g_width g" and "y < g_height g" and "h \<le> g_height g - y"
    and "\<And>m iy. iy < h \<Longrightarrow> f m iy = m(g_draw g := span (idx32 (g_width g) x (add32 y iy)) w (F iy) (m (g_draw g)))"
  shows "foldl f m [0..<h] = m(g_draw g := rect_upd (g_width g) x y w h F (m (g_draw g)))"
proof -
  have "f m iy = m(g_draw g := span ((y + iy) * g_width g + x) w (F iy) (m (g_draw g)))" if "iy < h" for m iy
  proof -
    have "y + iy < g_height g" using assms(3,4) that by linarith
    then have "idx32 (g_width g) x (add32 y iy) = (y + iy) * g_width g + x"
      using assms(1,2) screen_okD(2) [OF assms(1)] idx32_eq [of "y + iy" "g_height g" x "g_width g"]
      by (simp add: screen_ok_def add32_small)
    with assms(5) [OF that] show ?thesis by simp
  qed
  then show ?thesis unfolding rect_upd_def by (rule foldl_on_block)
qed

section \<open>Properties\<close>

text \<open>\<^verbatim>\<open>FillRect\<close> with coordinates whose sums fit in 32 bits colours exactly the part of the rectangle that is
  on the screen, and writes nothing else: no pixel past the last row and no other buffer.\<close>

theorem FillRect_correct:
  assumes "screen_ok g" and "x + w < u32_limit" and "y + h < u32_limit"
  shows "g_px (FillRect x y w h c g) b k =
    (if b = g_draw g \<and> k < g_width g * g_height g \<and> x \<le> k mod g_width g \<and> k mod g_width g < x + w \<and>
        y \<le> k div g_width g \<and> k div g_width g < y + h
     then c else g_px g b k)"
proof (cases "x < g_width g \<and> y < g_height g")
  case True
  let ?W = "g_width g" and ?w = "min w (g_width g - x)" and ?h = "min h (g_height g - y)"
  note s = screen_okD [OF assms(1)]
  have cl: "clip_len (g_width g) x w = ?w" "clip_len (g_height g) y h = ?h"
    using True assms s by (simp_all add: clip_len_eq)
  have "foldl (\<lambda>m iy. memset_fast_32 (g_draw g) (idx32 ?W x (add32 y iy)) c ?w m) (g_px g) [0..<?h] =
      (g_px g)(g_draw g := rect_upd ?W x y ?w ?h (\<lambda>_ _ _. c) (g_px g (g_draw g)))"
    using True by (intro row_loop_rect [OF assms(1)]) (simp_all add: memset_fast_32_span)
  then have px: "g_px (FillRect x y w h c g) = (g_px g)(g_draw g := rect_upd ?W x y ?w ?h (\<lambda>_ _ _. c) (g_px g (g_draw g)))"
    using True s(3) by (simp add: FillRect_def cl upd_px_def Let_def)
  have W: "0 < ?W" using True by simp
  have row: "k div ?W < g_height g \<longleftrightarrow> k < ?W * g_height g" using W by (simp add: div_less_iff_less_mult mult.commute)
  have col: "k mod ?W < ?W" using W by simp
  have "x + ?w \<le> ?W" using True by linarith
  from rect_upd_pixel [OF this W, of y ?h "\<lambda>_ _ _. c" "g_px g (g_draw g)" k] show ?thesis
    unfolding px using row col by (cases "b = g_draw g") auto
next
  case False
  then have "FillRect x y w h c g = g" by (auto simp: FillRect_def)
  moreover have "\<not> (k < g_width g * g_height g \<and> x \<le> k mod g_width g \<and> y \<le> k div g_width g)"
  proof
    assume a: "k < g_width g * g_height g \<and> x \<le> k mod g_width g \<and> y \<le> k div g_width g"
    have W: "0 < g_width g" using assms(1) by (simp add: screen_ok_def)
    then have "k mod g_width g < g_width g" "k div g_width g < g_height g"
      using a by (simp_all add: div_less_iff_less_mult mult.commute)
    with a False show False by linarith
  qed
  ultimately show ?thesis by auto
qed

definition demo_gfx :: graphics where
  "demo_gfx = \<lparr>g_vram = 4096, g_draw = 4096, g_width = 8, g_height = 4, g_pitch = 32, g_drm = False, g_px = (\<lambda>_ _. 0)\<rparr>"

theorem FillRect_correct_witness: "g_px (FillRect 6 1 5 1 7 demo_gfx) 4096 15 = 7 \<and> g_px (FillRect 6 1 5 1 7 demo_gfx) 4096 16 = 0"
proof -
  have "screen_ok demo_gfx" by (simp add: screen_ok_def demo_gfx_def)
  from FillRect_correct [OF this, of 6 5 1 1 7 4096 15] FillRect_correct [OF this, of 6 5 1 1 7 4096 16]
  show ?thesis by (simp add: demo_gfx_def)
qed

text \<open>Without the bound the sum \<^verbatim>\<open>x + w\<close> wraps below the width, the rectangle is not clipped, and the fill runs
  over the following rows and past the end of the buffer.\<close>

lemma FillRect_wraps:
  assumes "screen_ok g" and "0 < x" and "x < g_width g" and "y < g_height g" and "y + 1 < u32_limit"
    and "x + w = u32_limit" and "k < w"
  shows "g_px (FillRect x y w 1 c g) (g_draw g) (y * g_width g + x + k) = c"
proof -
  note s = screen_okD [OF assms(1)]
  have w: "clip_len (g_width g) x w = w" unfolding clip_len_def add32_def assms(6) by simp
  have h: "clip_len (g_height g) y 1 = 1" using assms(4,5) s by (simp add: clip_len_eq)
  have i: "idx32 (g_width g) x (add32 y 0) = y * g_width g + x"
    using assms(1,3,4) s idx32_eq [of y "g_height g" x "g_width g"] by (simp add: add32_def screen_ok_def)
  have on: "\<not> (g_draw g = 0 \<or> g_width g \<le> x \<or> g_height g \<le> y)" using assms(3,4) s(3) by simp
  have "g_px (FillRect x y w 1 c g) = (g_px g)(g_draw g := span (y * g_width g + x) w (\<lambda>_ _. c) (g_px g (g_draw g)))"
    unfolding FillRect_def if_not_P [OF on] Let_def w h upd_px_def by (simp add: memset_fast_32_span i del: memset_fast_32.simps)
  then show ?thesis using assms(7) by (simp only: fun_upd_same span_def) simp
qed

text \<open>The blended channels never carry into the next one, and never exceed the brighter of the two.\<close>

lemma div_add1_le: "a div c + b div c \<le> (a + b) div c" for a b c :: nat
  by (subst div_add1_eq) simp

lemma lut_mix_bounds:
  assumes "a < 256" and "f < 256" and "b < 256"
  shows "lut_mix InitLUT a f b = a * f div 256 + (255 - a) * b div 256" and "lut_mix InitLUT a f b \<le> max f b"
proof -
  have l: "InitLUT (p * 256 + q) = p * q div 256" if "q < 256" for p q using that by (simp add: InitLUT_def)
  have "a * f \<le> a * max f b" "(255 - a) * b \<le> (255 - a) * max f b" by (simp_all add: mult_le_mono2)
  moreover have "a * max f b + (255 - a) * max f b = 255 * max f b"
    using assms(1) by (simp flip: add_mult_distrib)
  ultimately have le: "a * f + (255 - a) * b \<le> 255 * max f b" by linarith
  have "a * f div 256 + (255 - a) * b div 256 \<le> (a * f + (255 - a) * b) div 256" by (rule div_add1_le)
  also have "\<dots> \<le> 255 * max f b div 256" using le by (rule div_le_mono)
  finally have m: "a * f div 256 + (255 - a) * b div 256 \<le> max f b" by linarith
  moreover have "max f b < 256" using assms by simp
  ultimately show "lut_mix InitLUT a f b = a * f div 256 + (255 - a) * b div 256"
    using assms by (simp add: lut_mix_def l)
  with m show "lut_mix InitLUT a f b \<le> max f b" by simp
qed

end
