(* ===== verification/Font.thy ===== *)
theory Font
  imports Graphics KStd
begin

text \<open>
  Text drawing, \<^verbatim>\<open>kernel/hal/video/font_renderer.cpp\<close>.  The table of the built-in 8x16 font
  (\<^verbatim>\<open>font.cpp\<close>) and the bytes of a loaded PSF2 file are arguments: \<open>builtin\<close> and \<open>data\<close>.
  The messages on the early terminal and the glyph cache, which is never filled, are not modelled.
\<close>

record PSF2Header =
  p_magic :: nat
  p_version :: nat
  p_headerSize :: nat
  p_flags :: nat
  p_numGlyphs :: nat
  p_bytesPerGlyph :: nat
  p_height :: nat
  p_width :: nat

record font_renderer =
  fontHeader :: "PSF2Header option"
  glyphData :: "(nat \<Rightarrow> u8) option"
  useBuiltinFont :: bool
  fontWidth :: nat
  fontHeight :: nat

abbreviation PSF2_MAGIC :: nat where "PSF2_MAGIC \<equiv> 0x864ab572"

definition font_Init :: "font_renderer \<Rightarrow> font_renderer" where
  "font_Init f = f\<lparr>fontHeader := None, glyphData := None, useBuiltinFont := True\<rparr>"

definition word_at :: "(nat \<Rightarrow> u8) \<Rightarrow> nat \<Rightarrow> nat" where
  "word_at d k = unat (d k) + 256 * unat (d (k + 1)) + 65536 * unat (d (k + 2)) + 16777216 * unat (d (k + 3))"

definition read_header :: "(nat \<Rightarrow> u8) \<Rightarrow> PSF2Header" where
  "read_header d = \<lparr>p_magic = word_at d 0, p_version = word_at d 4, p_headerSize = word_at d 8, p_flags = word_at d 12,
     p_numGlyphs = word_at d 16, p_bytesPerGlyph = word_at d 20, p_height = word_at d 24, p_width = word_at d 28\<rparr>"

definition LoadFont :: "(nat \<Rightarrow> u8) \<Rightarrow> nat \<Rightarrow> font_renderer \<Rightarrow> bool \<times> font_renderer" where
  "LoadFont d sz f =
     (if sz < 32 then (False, f)
      else let h = read_header d
           in if p_magic h \<noteq> PSF2_MAGIC then (False, f)
              else (True, f\<lparr>fontHeader := Some h, glyphData := Some (\<lambda>k. d (p_headerSize h + k)),
                      fontWidth := p_width h, fontHeight := p_height h, useBuiltinFont := False\<rparr>))"

definition GetBuiltinGlyph :: "(nat \<Rightarrow> u8) \<Rightarrow> nat \<Rightarrow> (nat \<Rightarrow> u8)" where
  "GetBuiltinGlyph builtin c = (let c1 = (if c \<ge> 256 then 63 else c) in (\<lambda>k. builtin (c1 * 16 + k)))"

definition GetPSF2Glyph :: "font_renderer \<Rightarrow> nat \<Rightarrow> (nat \<Rightarrow> u8) option" where
  "GetPSF2Glyph f c =
     (case (fontHeader f, glyphData f) of
        (Some h, Some d) \<Rightarrow>
          let c1 = (if c \<ge> p_numGlyphs h then 63 else c) in Some (\<lambda>k. d (mul32 c1 (p_bytesPerGlyph h) + k))
      | _ \<Rightarrow> None)"

text \<open>\<^verbatim>\<open>row & (0x80 >> px)\<close>; a pixel of colour 0 is not drawn.\<close>

definition glyph_pixel :: "u8 \<Rightarrow> nat \<Rightarrow> u32 \<Rightarrow> u32 \<Rightarrow> u32" where
  "glyph_pixel row px color bg = (if row AND drop_bit px 0x80 \<noteq> 0 then color else bg)"

fun glyph_row :: "addr \<Rightarrow> nat \<Rightarrow> nat \<Rightarrow> nat \<Rightarrow> u8 \<Rightarrow> u32 \<Rightarrow> u32 \<Rightarrow> nat \<Rightarrow> nat \<Rightarrow> pixels \<Rightarrow> pixels" where
  "glyph_row b W x yy row color bg px 0 m = m"
| "glyph_row b W x yy row color bg px (Suc n) m =
     (if add32 x px < W
      then let p = glyph_pixel row px color bg
           in glyph_row b W x yy row color bg (px + 1) n
                (if p \<noteq> 0 then m(b := (m b)(idx32 W (add32 x px) yy := p)) else m)
      else m)"

fun glyph_rows :: "addr \<Rightarrow> nat \<Rightarrow> nat \<Rightarrow> nat \<Rightarrow> nat \<Rightarrow> (nat \<Rightarrow> u8) \<Rightarrow> u32 \<Rightarrow> u32 \<Rightarrow> nat \<Rightarrow> nat \<Rightarrow> nat \<Rightarrow> pixels \<Rightarrow> pixels" where
  "glyph_rows b W H x y glyph color bg w py 0 m = m"
| "glyph_rows b W H x y glyph color bg w py (Suc n) m =
     (if add32 y py < H
      then glyph_rows b W H x y glyph color bg w (py + 1) n (glyph_row b W x (add32 y py) (glyph py) color bg 0 w m)
      else m)"

definition DrawChar ::
  "(nat \<Rightarrow> u8) \<Rightarrow> font_renderer \<Rightarrow> addr \<Rightarrow> nat \<Rightarrow> nat \<Rightarrow> nat \<Rightarrow> nat \<Rightarrow> nat \<Rightarrow> u32 \<Rightarrow> u32 \<Rightarrow> pixels \<Rightarrow> nat \<times> pixels" where
  "DrawChar builtin f b W H x y c color bg m =
     (let (glyph, w, h) = (if useBuiltinFont f then (Some (GetBuiltinGlyph builtin c), 8, 16)
                           else (GetPSF2Glyph f c, fontWidth f, fontHeight f))
      in case glyph of
           None \<Rightarrow> (0, m)
         | Some g \<Rightarrow> (w, glyph_rows b W H x y g color bg w 0 h m))"

text \<open>\<^verbatim>\<open>*text\<close> is a signed \<^verbatim>\<open>char\<close> converted to 32 bits.\<close>

fun text_loop ::
  "(nat \<Rightarrow> u8) \<Rightarrow> font_renderer \<Rightarrow> addr \<Rightarrow> nat \<Rightarrow> nat \<Rightarrow> nat \<Rightarrow> nat \<Rightarrow> nat \<Rightarrow> string \<Rightarrow> u32 \<Rightarrow> u32 \<Rightarrow> pixels \<Rightarrow> nat \<times> pixels" where
  "text_loop builtin f b W H startX x y [] color bg m = (sub32 x startX, m)"
| "text_loop builtin f b W H startX x y (c # cs) color bg m =
     (if c = CHR 0x0A then text_loop builtin f b W H startX startX (add32 y (fontHeight f)) cs color bg m
      else let (w, m1) = DrawChar builtin f b W H x y (u32_of (schar c)) color bg m
           in text_loop builtin f b W H startX (add32 x w) y cs color bg m1)"

definition DrawText ::
  "(nat \<Rightarrow> u8) \<Rightarrow> font_renderer \<Rightarrow> addr \<Rightarrow> nat \<Rightarrow> nat \<Rightarrow> nat \<Rightarrow> nat \<Rightarrow> string \<Rightarrow> u32 \<Rightarrow> u32 \<Rightarrow> pixels \<Rightarrow> nat \<times> pixels" where
  "DrawText builtin f b W H x y str color bg m = text_loop builtin f b W H x x y str color bg m"

definition hal_draw_text ::
  "(nat \<Rightarrow> u8) \<Rightarrow> font_renderer \<Rightarrow> addr \<Rightarrow> nat \<Rightarrow> nat \<Rightarrow> nat \<Rightarrow> nat \<Rightarrow> string \<Rightarrow> u32 \<Rightarrow> nat \<Rightarrow> pixels \<Rightarrow> pixels" where
  "hal_draw_text builtin f b W H x y str color sz m = snd (DrawText builtin f b W H x y str color 0 m)"

definition GetTextWidth :: "font_renderer \<Rightarrow> string \<Rightarrow> nat" where
  "GetTextWidth f str = mul32 (kstrlen str) (fontWidth f)"

definition GetFontHeight :: "font_renderer \<Rightarrow> nat" where
  "GetFontHeight f = fontHeight f"

section \<open>Drawing stays on the screen\<close>

definition keeps_outside :: "addr \<Rightarrow> nat \<Rightarrow> pixels \<Rightarrow> pixels \<Rightarrow> bool" where
  "keeps_outside b limit m m' \<longleftrightarrow> (\<forall>a k. a \<noteq> b \<or> limit \<le> k \<longrightarrow> m' a k = m a k)"

lemma keeps_outside_refl [simp]: "keeps_outside b limit m m"
  by (simp add: keeps_outside_def)

lemma keeps_outside_trans: "keeps_outside b limit m m1 \<Longrightarrow> keeps_outside b limit m1 m2 \<Longrightarrow> keeps_outside b limit m m2"
  by (simp add: keeps_outside_def)

lemma idx32_less:
  assumes "x < W" and "y < H" and "W * H < u32_limit"
  shows "idx32 W x y < W * H"
proof -
  have "Suc y * W \<le> H * W" using assms(2) by (intro mult_le_mono1) simp
  then have "y * W + x < W * H" using assms(1) by (simp add: mult.commute)
  then show ?thesis using idx32_eq [OF assms(2,1,3)] by simp
qed

lemma glyph_row_inside:
  "yy < H \<Longrightarrow> W * H < u32_limit \<Longrightarrow> keeps_outside b (W * H) m (glyph_row b W x yy row color bg px n m)"
proof (induction n arbitrary: px m)
  case 0
  then show ?case by simp
next
  case (Suc n)
  show ?case
  proof (cases "add32 x px < W")
    case True
    let ?m = "if glyph_pixel row px color bg \<noteq> 0 then m(b := (m b)(idx32 W (add32 x px) yy := glyph_pixel row px color bg)) else m"
    have "keeps_outside b (W * H) m ?m" using idx32_less [OF True Suc.prems] by (simp add: keeps_outside_def)
    from keeps_outside_trans [OF this Suc.IH [OF Suc.prems]] True show ?thesis by (simp add: Let_def)
  next
    case False
    then show ?thesis by simp
  qed
qed

lemma glyph_rows_inside:
  "W * H < u32_limit \<Longrightarrow> keeps_outside b (W * H) m (glyph_rows b W H x y glyph color bg w py n m)"
proof (induction n arbitrary: py m)
  case 0
  then show ?case by simp
next
  case (Suc n)
  show ?case
  proof (cases "add32 y py < H")
    case True
    from keeps_outside_trans [OF glyph_row_inside [OF True Suc.prems] Suc.IH [OF Suc.prems]] True show ?thesis by simp
  next
    case False
    then show ?thesis by simp
  qed
qed

lemma DrawChar_inside:
  "W * H < u32_limit \<Longrightarrow> keeps_outside b (W * H) m (snd (DrawChar builtin f b W H x y c color bg m))"
  by (auto simp: DrawChar_def glyph_rows_inside split: option.split)

lemma text_loop_inside:
  "W * H < u32_limit \<Longrightarrow> keeps_outside b (W * H) m (snd (text_loop builtin f b W H startX x y str color bg m))"
proof (induction str arbitrary: x y m)
  case Nil
  then show ?case by simp
next
  case (Cons c cs)
  show ?case
  proof (cases "c = CHR 0x0A")
    case True
    with Cons show ?thesis by simp
  next
    case False
    obtain w m1 where d: "DrawChar builtin f b W H x y (u32_of (schar c)) color bg m = (w, m1)" by (rule prod.exhaust)
    from DrawChar_inside [OF Cons.prems] d have "keeps_outside b (W * H) m m1" by (metis snd_conv)
    from keeps_outside_trans [OF this Cons.IH [OF Cons.prems]] False d show ?thesis by simp
  qed
qed

text \<open>Whatever the position, the text, the font and the colours, drawing text changes only pixels of the
  buffer it is given.\<close>

theorem DrawText_inside:
  assumes "W * H < u32_limit" and "a \<noteq> b \<or> W * H \<le> k"
  shows "snd (DrawText builtin f b W H x y str color bg m) a k = m a k"
  using text_loop_inside [OF assms(1), of b m builtin f x x y str color bg] assms(2)
  by (auto simp: DrawText_def keeps_outside_def)

theorem DrawText_inside_witness:
  "snd (DrawText (\<lambda>_. 255) \<lparr>fontHeader = None, glyphData = None, useBuiltinFont = True, fontWidth = 8, fontHeight = 16\<rparr>
         4096 8 4 6 2 ''ab'' 7 0 (\<lambda>_ _. 0)) 4096 32 = 0"
  by (subst DrawText_inside [of 8 4]) simp_all

text \<open>A character above ASCII is negative as a signed \<^verbatim>\<open>char\<close>: its code is at least 256 and the built-in font
  draws a question mark.\<close>

lemma accents_drawn_as_question_mark:
  assumes "128 \<le> (of_char c :: nat)"
  shows "GetBuiltinGlyph builtin (u32_of (schar c)) = GetBuiltinGlyph builtin (of_char CHR ''?'')"
proof -
  have "(of_char c :: nat) \<in> {0..<256}" by (simp flip: range_nat_of_char)
  then have "(of_char c :: nat) < 256" by simp
  then have u: "uchar c = int (of_char c)" by (simp add: uchar_def of_nat_of_char)
  then have "schar c = int (of_char c) - 256" using assms by (simp add: schar_def)
  then have "schar c mod 4294967296 = schar c + 4294967296"
    using mod_add_self2 [of "schar c" 4294967296] mod_pos_pos_trivial [of "schar c + 4294967296" 4294967296] assms
      \<open>(of_char c :: nat) < 256\<close> by linarith
  then have "256 \<le> u32_of (schar c)" using \<open>schar c = int (of_char c) - 256\<close> by (simp add: u32_of_def)
  then show ?thesis by (simp add: GetBuiltinGlyph_def)
qed

end
