(* ===== verification/Insertion_Sort.thy ===== *)
theory Insertion_Sort
  imports Main "HOL-Library.Multiset"
begin

text \<open>
  The insertion sort that the kernel compositor and the buffer manager run on small arrays of pointers, and the
  proof that it is the stable sort by its key.
\<close>

text \<open>The inner loop of the insertion sort on an array: \<open>n\<close> is \<^verbatim>\<open>j + 1\<close>.\<close>

fun shift_loop :: "('b \<Rightarrow> nat) \<Rightarrow> 'b \<Rightarrow> nat \<Rightarrow> 'b list \<Rightarrow> 'b list" where
  "shift_loop z key 0 a = a[0 := key]"
| "shift_loop z key (Suc j) a =
     (if z (a ! j) > z key then shift_loop z key j (a[Suc j := a ! j]) else a[Suc j := key])"

definition insertion_sort :: "('b \<Rightarrow> nat) \<Rightarrow> 'b list \<Rightarrow> 'b list" where
  "insertion_sort z a = foldl (\<lambda>a i. shift_loop z (a ! i) i a) a [1..<length a]"

section \<open>The sort is stable\<close>

lemma shift_loop_sorted:
  "sorted (map z xs) \<Longrightarrow> shift_loop z key (length xs) (xs @ c # ys) =
     takeWhile (\<lambda>x. z x \<le> z key) xs @ key # dropWhile (\<lambda>x. z x \<le> z key) xs @ ys"
proof (induction xs arbitrary: c ys rule: rev_induct)
  case Nil
  then show ?case by simp
next
  case (snoc x xs)
  let ?P = "\<lambda>x. z x \<le> z key"
  from snoc.prems have srt: "sorted (map z xs)" and le: "\<forall>y \<in> set xs. z y \<le> z x" by (auto simp: sorted_append)
  show ?case
  proof (cases "z key < z x")
    case True
    have "((xs @ [x]) @ c # ys)[Suc (length xs) := x] = xs @ x # x # ys" by (simp add: list_update_append)
    with True snoc.IH [OF srt, of x "x # ys"] have
      "shift_loop z key (length (xs @ [x])) ((xs @ [x]) @ c # ys) = takeWhile ?P xs @ key # dropWhile ?P xs @ x # ys"
      by (simp add: nth_append)
    moreover have "takeWhile ?P (xs @ [x]) = takeWhile ?P xs \<and> dropWhile ?P (xs @ [x]) = dropWhile ?P xs @ [x]"
      using True by (induction xs) auto
    ultimately show ?thesis by simp
  next
    case False
    then have all: "\<forall>y \<in> set (xs @ [x]). ?P y" using le by auto
    have "((xs @ [x]) @ c # ys)[Suc (length xs) := key] = xs @ x # key # ys" by (simp add: list_update_append)
    with False have "shift_loop z key (length (xs @ [x])) ((xs @ [x]) @ c # ys) = xs @ x # key # ys"
      by (simp add: nth_append)
    moreover have "takeWhile ?P (xs @ [x]) = xs @ [x]" using all by (simp only: takeWhile_eq_all_conv)
    moreover have "dropWhile ?P (xs @ [x]) = []" using all by (simp only: dropWhile_eq_Nil_conv)
    ultimately show ?thesis by simp
  qed
qed

lemma sorted_insert_mid:
  fixes z :: "'b \<Rightarrow> 'c :: linorder"
  assumes "sorted (map z ts) \<and> sorted (map z ds) \<and> R" and "\<forall>y \<in> set ts. z y \<le> z k" and "\<forall>y \<in> set ds. z k < z y"
  shows "sorted (map z (ts @ k # ds))"
proof -
  have "z x \<le> z y" if "x \<in> set ts" "y \<in> set ds" for x y using that assms(2,3) by (meson le_less_trans less_imp_le)
  with assms show ?thesis by (auto simp: sorted_append less_imp_le)
qed

lemma insert_after_equals:
  "takeWhile (\<lambda>x. z x \<le> z key) (sort_key z p) @ key # dropWhile (\<lambda>x. z x \<le> z key) (sort_key z p) = sort_key z (p @ [key])"
proof -
  let ?P = "\<lambda>x. z x \<le> z key" and ?s = "sort_key z p"
  let ?r = "takeWhile ?P ?s @ key # dropWhile ?P ?s"
  have parts: "takeWhile ?P ?s @ dropWhile ?P ?s = ?s" by (rule takeWhile_dropWhile_id)
  have "sorted (map z (takeWhile ?P ?s) @ map z (dropWhile ?P ?s))" by (simp only: parts sorted_sort_key flip: map_append)
  note srt = this [unfolded sorted_append]
  have late: "\<forall>y \<in> set (dropWhile ?P ?s). z key < z y"
  proof (cases "dropWhile ?P ?s")
    case Nil
    show ?thesis unfolding Nil by simp
  next
    case (Cons y ys)
    then have "z key < z y" using hd_dropWhile [of ?P ?s] by auto
    moreover have "\<forall>x \<in> set ys. z y \<le> z x" using srt unfolding Cons by auto
    ultimately show ?thesis using Cons by auto
  qed
  have early: "\<forall>y \<in> set (takeWhile ?P ?s). z y \<le> z key" by (auto dest: set_takeWhileD)
  have "sort_key z (p @ [key]) = ?r"
  proof (rule properties_for_sort_key)
    have "mset ?r = add_mset key (mset (takeWhile ?P ?s) + mset (dropWhile ?P ?s))" by simp
    also have "\<dots> = add_mset key (mset p)" unfolding mset_append [symmetric] parts mset_sort ..
    finally show "mset ?r = mset (p @ [key])" by simp
    show "sorted (map z ?r)" by (rule sorted_insert_mid [OF srt early late])
    fix k
    have nil: "filter (\<lambda>x. z k = z x) (dropWhile ?P ?s) = []" if "z k = z key" using late that by (auto simp: filter_empty_conv)
    have "filter (\<lambda>x. z k = z x) (takeWhile ?P ?s) @ filter (\<lambda>x. z k = z x) (dropWhile ?P ?s) = filter (\<lambda>x. z k = z x) p"
      unfolding filter_append [symmetric] parts using sort_key_stable [of z "z k" p] by (simp add: eq_commute)
    then show "filter (\<lambda>x. z k = z x) ?r = filter (\<lambda>x. z k = z x) (p @ [key])" using nil by auto
  qed
  then show ?thesis by simp
qed

lemma insertion_sort_prefix:
  assumes "k < length a"
  shows "foldl (\<lambda>a i. shift_loop z (a ! i) i a) a [1..<Suc k] = sort_key z (take (Suc k) a) @ drop (Suc k) a"
  using assms
proof (induction k)
  case 0
  then show ?case by (cases a) simp_all
next
  case (Suc k)
  let ?p = "sort_key z (take (Suc k) a)"
  have d: "drop (Suc k) a = a ! Suc k # drop (Suc (Suc k)) a" and t0: "take (Suc (Suc k)) a = take (Suc k) a @ [a ! Suc k]"
    using Suc.prems by (simp_all add: Cons_nth_drop_Suc take_Suc_conv_app_nth)
  have len: "length ?p = Suc k" using Suc.prems by simp
  have "foldl (\<lambda>a i. shift_loop z (a ! i) i a) a [1..<Suc (Suc k)] =
      shift_loop z ((?p @ drop (Suc k) a) ! Suc k) (Suc k) (?p @ drop (Suc k) a)"
    using Suc by simp
  also have "(?p @ drop (Suc k) a) ! Suc k = a ! Suc k" using len d by (simp add: nth_append)
  also have "shift_loop z (a ! Suc k) (Suc k) (?p @ drop (Suc k) a) = sort_key z (take (Suc (Suc k)) a) @ drop (Suc (Suc k)) a"
    using shift_loop_sorted [of z ?p "a ! Suc k" "a ! Suc k" "drop (Suc (Suc k)) a"] len
    unfolding d t0 insert_after_equals [symmetric] by (simp only: sorted_sort_key append_assoc append_Cons simp_thms)
  finally show ?case .
qed

lemma insertion_sort_stable: "insertion_sort z a = sort_key z a"
proof (cases a)
  case Nil
  then show ?thesis by (simp add: insertion_sort_def)
next
  case (Cons x xs)
  then show ?thesis using insertion_sort_prefix [of "length xs" a z] by (simp add: insertion_sort_def)
qed

end
