(* ===== verification/Compositor.thy ===== *)
theory Compositor
  imports Font KHeap Insertion_Sort
begin

text \<open>
  The kernel compositor, first half of \<^verbatim>\<open>kernel/hal/video/compositor.cpp\<close>: the array of layers, the dirty
  rectangles, the order of the layers and the composition of their pixels into the draw buffer.  Layers live in
  a store from addresses; their pixels are blocks of the pixel memory of theory \<open>Graphics\<close>.  Drawing the text of
  a window title is the text renderer of theory \<open>Font\<close>.  The spin lock around the operations is not modelled.
  Sums of 32-bit coordinates wrap (\<open>wrap32\<close>).  A rectangle whose end fits is \<open>span32\<close>.
\<close>

section \<open>State\<close>

datatype LayerType = WALLPAPER | WINDOW | APP_WINDOW | CURSOR | OVERLAY

fun type_code :: "LayerType \<Rightarrow> nat" where
  "type_code WALLPAPER = 0" | "type_code WINDOW = 1" | "type_code APP_WINDOW = 2" | "type_code CURSOR = 3" | "type_code OVERLAY = 4"

record Layer =
  l_name :: string
  l_type :: LayerType
  l_z :: nat
  l_x :: int
  l_y :: int
  l_width :: nat
  l_height :: nat
  l_buffer :: addr
  l_visible :: bool
  l_dirty :: bool
  l_has_alpha :: bool
  l_frame_ready :: bool
  l_next :: addr

record DirtyRect =
  d_x :: nat
  d_y :: nat
  d_w :: nat
  d_h :: nat
  d_valid :: bool

record compositor =
  cp_layer :: "addr \<Rightarrow> Layer"
  layers :: "addr list"
  dirtyRects :: "DirtyRect list"
  wallpaperLayer :: addr
  cursorLayer :: addr
  overlayLayer :: addr
  debugOverlayVisible :: bool
  userspaceMode :: bool
  frameCount :: nat
  cp_gfx :: graphics
  cp_lut :: "(nat \<Rightarrow> nat) option"
  cp_font :: font_renderer
  cp_heap :: kheap

abbreviation MAX_LAYERS :: nat where "MAX_LAYERS \<equiv> 16"
abbreviation MAX_DIRTY :: nat where "MAX_DIRTY \<equiv> 32"
abbreviation LAYER_SIZE :: nat where "LAYER_SIZE \<equiv> 64"
abbreviation TITLE_BAR_HEIGHT :: nat where "TITLE_BAR_HEIGHT \<equiv> 26"
abbreviation BORDER_WIDTH :: nat where "BORDER_WIDTH \<equiv> 1"

definition zero_layer :: Layer where
  "zero_layer = \<lparr>l_name = [], l_type = WALLPAPER, l_z = 0, l_x = 0, l_y = 0, l_width = 0, l_height = 0, l_buffer = 0,
     l_visible = False, l_dirty = False, l_has_alpha = False, l_frame_ready = False, l_next = 0\<rparr>"

definition upd_layer :: "addr \<Rightarrow> (Layer \<Rightarrow> Layer) \<Rightarrow> 'a compositor_scheme \<Rightarrow> 'a compositor_scheme" where
  "upd_layer a f s = s\<lparr>cp_layer := (cp_layer s)(a := f (cp_layer s a))\<rparr>"

definition on_pixels :: "(pixels \<Rightarrow> pixels) \<Rightarrow> 'a compositor_scheme \<Rightarrow> 'a compositor_scheme" where
  "on_pixels f s = s\<lparr>cp_gfx := upd_px f (cp_gfx s)\<rparr>"

section \<open>Dirty rectangles\<close>

definition rects_touch :: "nat \<Rightarrow> nat \<Rightarrow> nat \<Rightarrow> nat \<Rightarrow> DirtyRect \<Rightarrow> bool" where
  "rects_touch x y w h r \<longleftrightarrow> \<not> (x > add32 (d_x r) (d_w r) \<or> add32 x w < d_x r \<or> y > add32 (d_y r) (d_h r) \<or> add32 y h < d_y r)"

definition union_rect :: "nat \<Rightarrow> nat \<Rightarrow> nat \<Rightarrow> nat \<Rightarrow> DirtyRect \<Rightarrow> DirtyRect" where
  "union_rect x y w h r =
     (let minX = (if x < d_x r then x else d_x r);
          minY = (if y < d_y r then y else d_y r);
          maxX = (if add32 x w > add32 (d_x r) (d_w r) then add32 x w else add32 (d_x r) (d_w r));
          maxY = (if add32 y h > add32 (d_y r) (d_h r) then add32 y h else add32 (d_y r) (d_h r))
      in r\<lparr>d_x := minX, d_y := minY, d_w := sub32 maxX minX, d_h := sub32 maxY minY\<rparr>)"

text \<open>\<^verbatim>\<open>dirtyRects\<close> holds the first \<^verbatim>\<open>dirtyCount\<close> entries of the array.\<close>

definition cp_MarkDirty :: "nat \<Rightarrow> nat \<Rightarrow> nat \<Rightarrow> nat \<Rightarrow> 'a compositor_scheme \<Rightarrow> 'a compositor_scheme" where
  "cp_MarkDirty x y w h s =
     (case first_slot (\<lambda>r. d_valid r \<and> rects_touch x y w h r) (dirtyRects s) of
        Some i \<Rightarrow> s\<lparr>dirtyRects := (dirtyRects s)[i := union_rect x y w h (dirtyRects s ! i)]\<rparr>
      | None \<Rightarrow>
          if length (dirtyRects s) \<ge> MAX_DIRTY
          then s\<lparr>dirtyRects := [\<lparr>d_x = 0, d_y = 0, d_w = GetWidth (cp_gfx s), d_h = GetHeight (cp_gfx s), d_valid = True\<rparr>]\<rparr>
          else s\<lparr>dirtyRects := dirtyRects s @ [\<lparr>d_x = x, d_y = y, d_w = w, d_h = h, d_valid = True\<rparr>]\<rparr>)"

definition MarkLayerDirty :: "addr \<Rightarrow> 'a compositor_scheme \<Rightarrow> 'a compositor_scheme" where
  "MarkLayerDirty a s =
     (if a = 0 then s
      else cp_MarkDirty (u32_of (l_x (cp_layer s a))) (u32_of (l_y (cp_layer s a))) (l_width (cp_layer s a)) (l_height (cp_layer s a)) s)"

definition cp_ClearDirtyRects :: "'a compositor_scheme \<Rightarrow> 'a compositor_scheme" where
  "cp_ClearDirtyRects s = s\<lparr>dirtyRects := []\<rparr>"

section \<open>Layers\<close>

definition clear_block :: "addr \<Rightarrow> nat \<Rightarrow> pixels \<Rightarrow> pixels" where
  "clear_block b n m = m(b := (\<lambda>k. if k < n then 0 else m b k))"

definition CreateLayer :: "string \<Rightarrow> LayerType \<Rightarrow> nat \<Rightarrow> nat \<Rightarrow> 'a compositor_scheme \<Rightarrow> (addr \<times> 'a compositor_scheme) option" where
  "CreateLayer name ty w h s =
     (if length (layers s) \<ge> MAX_LAYERS then Some (0, s)
      else Option.bind (kmalloc (cp_heap s) LAYER_SIZE) (\<lambda>(layer, h1).
        if layer = 0 then Some (0, s\<lparr>cp_heap := h1\<rparr>)
        else Option.bind (kmalloc h1 (mul64 (mul32 w h) 4)) (\<lambda>(buf, h2).
          let fields = zero_layer\<lparr>l_name := copy_name 15 name, l_type := ty, l_z := type_code ty * 10,
                 l_width := w, l_height := h, l_visible := True, l_dirty := True, l_buffer := buf\<rparr>
          in if buf = 0 then Some (0, upd_layer layer (\<lambda>_. fields) (s\<lparr>cp_heap := kfree h2 layer\<rparr>))
             else Some (layer, on_pixels (clear_block buf (mul32 w h))
                   (upd_layer layer (\<lambda>_. fields) (s\<lparr>cp_heap := h2, layers := layers s @ [layer]\<rparr>))))))"

definition DestroyLayer :: "addr \<Rightarrow> 'a compositor_scheme \<Rightarrow> 'a compositor_scheme" where
  "DestroyLayer a s =
     (if a = 0 then s
      else let h1 = (if l_buffer (cp_layer s a) \<noteq> 0 then kfree (cp_heap s) (l_buffer (cp_layer s a)) else cp_heap s)
           in s\<lparr>layers := remove1 a (layers s), cp_heap := kfree h1 a\<rparr>)"

definition SetLayerPosition :: "addr \<Rightarrow> int \<Rightarrow> int \<Rightarrow> 'a compositor_scheme \<Rightarrow> 'a compositor_scheme" where
  "SetLayerPosition a x y s =
     (if a = 0 then s
      else upd_layer a (\<lambda>l. l\<lparr>l_x := x, l_y := y, l_dirty := True\<rparr>) (MarkLayerDirty a s))"

definition SetLayerVisible :: "addr \<Rightarrow> bool \<Rightarrow> 'a compositor_scheme \<Rightarrow> 'a compositor_scheme" where
  "SetLayerVisible a v s = (if a = 0 then s else upd_layer a (\<lambda>l. l\<lparr>l_visible := v, l_dirty := True\<rparr>) s)"

definition SetLayerZOrder :: "addr \<Rightarrow> nat \<Rightarrow> 'a compositor_scheme \<Rightarrow> 'a compositor_scheme" where
  "SetLayerZOrder a z s = (if a = 0 then s else upd_layer a (\<lambda>l. l\<lparr>l_z := z\<rparr>) s)"

definition GetWallpaperLayer :: "'a compositor_scheme \<Rightarrow> addr" where "GetWallpaperLayer s = wallpaperLayer s"
definition GetCursorLayer :: "'a compositor_scheme \<Rightarrow> addr" where "GetCursorLayer s = cursorLayer s"
definition GetOverlayLayer :: "'a compositor_scheme \<Rightarrow> addr" where "GetOverlayLayer s = overlayLayer s"

definition MarkLayerReady :: "addr \<Rightarrow> 'a compositor_scheme \<Rightarrow> 'a compositor_scheme" where
  "MarkLayerReady buf s =
     (case first_slot (\<lambda>a. a \<noteq> 0 \<and> l_buffer (cp_layer s a) = buf) (layers s) of
        None \<Rightarrow> s
      | Some i \<Rightarrow> upd_layer (layers s ! i) (\<lambda>l. l\<lparr>l_frame_ready := True\<rparr>) s)"

definition ToggleDebugOverlay :: "'a compositor_scheme \<Rightarrow> 'a compositor_scheme" where
  "ToggleDebugOverlay s =
     (let v = (\<not> debugOverlayVisible s); s1 = s\<lparr>debugOverlayVisible := v\<rparr>
      in if overlayLayer s = 0 then s1 else upd_layer (overlayLayer s) (\<lambda>l. l\<lparr>l_visible := v\<rparr>) s1)"

definition IsDebugOverlayVisible :: "'a compositor_scheme \<Rightarrow> bool" where
  "IsDebugOverlayVisible s = debugOverlayVisible s"

definition EnableUserspaceMode :: "'a compositor_scheme \<Rightarrow> 'a compositor_scheme" where
  "EnableUserspaceMode s = s\<lparr>userspaceMode := True\<rparr>"

section \<open>The order of the layers\<close>

definition SortLayers :: "'a compositor_scheme \<Rightarrow> 'a compositor_scheme" where
  "SortLayers s = s\<lparr>layers := insertion_sort (\<lambda>a. l_z (cp_layer s a)) (layers s)\<rparr>"

section \<open>Composition\<close>

text \<open>Clipping of one axis: the offset into the source, the place on the screen and the length; the sums are of \<^verbatim>\<open>int32_t\<close>.\<close>

definition clip_axis :: "int \<Rightarrow> int \<Rightarrow> int \<Rightarrow> int \<times> int \<times> int" where
  "clip_axis d n limit =
     (let (s0, d0, n0) = (if d < 0 then (wrap32 (- d), 0, wrap32 (n + d)) else (0, d, n))
      in (s0, d0, if wrap32 (d0 + n0) > limit then wrap32 (limit - d0) else n0))"

function opaque_end :: "(nat \<Rightarrow> u32) \<Rightarrow> nat \<Rightarrow> nat \<Rightarrow> nat" where
  "opaque_end row n x = (if x < n \<and> chan 24 (row x) = 255 then opaque_end row n (x + 1) else x)"
  by pat_completeness auto
termination by (relation "measure (\<lambda>(row, n, x). n - x)") auto

declare opaque_end.simps [simp del]

fun copy_span :: "addr \<Rightarrow> nat \<Rightarrow> addr \<Rightarrow> nat \<Rightarrow> nat \<Rightarrow> pixels \<Rightarrow> pixels" where
  "copy_span d i s j 0 m = m"
| "copy_span d i s j (Suc n) m = copy_span d (i + 1) s (j + 1) n (m(d := (m d)(i := m s j)))"

lemma opaque_end_ge: "x \<le> opaque_end row n x"
  by (induction row n x rule: opaque_end.induct) (subst opaque_end.simps, auto)

lemma opaque_end_gt: "x < n \<Longrightarrow> chan 24 (row x) = 255 \<Longrightarrow> x < opaque_end row n x"
  using opaque_end_ge [of "x + 1" row n] by (subst opaque_end.simps) simp

text \<open>One row: \<open>i\<close> and \<open>j\<close> are the indices of \<^verbatim>\<open>dstRow\<close> and \<^verbatim>\<open>srcRow\<close>.\<close>

function blit_row :: "(nat \<Rightarrow> nat) option \<Rightarrow> addr \<Rightarrow> nat \<Rightarrow> addr \<Rightarrow> nat \<Rightarrow> nat \<Rightarrow> nat \<Rightarrow> pixels \<Rightarrow> pixels" where
  "blit_row lut d i s j n x m =
     (if x < n
      then let p = m s (j + x); alpha = chan 24 p
           in if alpha = 0 then blit_row lut d i s j n (x + 1) m
              else if alpha = 255
              then let e = opaque_end (\<lambda>k. m s (j + k)) n x; cnt = e - x
                   in blit_row lut d i s j n e
                        (if cnt \<ge> 4 then blit_fast_32 d (i + x) s (j + x) cnt m else copy_span d (i + x) s (j + x) cnt m)
              else blit_row lut d i s j n (x + 1) (m(d := (m d)(i + x := Blend lut p (m d (i + x)))))
      else m)"
  by pat_completeness auto
termination by (relation "measure (\<lambda>(lut, d, i, s, j, n, x, m). n - x)")
    (auto simp: diff_less_mono2 opaque_end_gt)

declare blit_row.simps [simp del]

definition BlitTransparent ::
  "(nat \<Rightarrow> nat) option \<Rightarrow> nat \<Rightarrow> addr \<Rightarrow> nat \<Rightarrow> addr \<Rightarrow> nat \<Rightarrow> nat \<Rightarrow> int \<Rightarrow> int \<Rightarrow> pixels \<Rightarrow> pixels" where
  "BlitTransparent lut screen_h dest pitch src src_w src_h dx dy m =
     (let (srcX, x0, renderW) = clip_axis dx (i32_of src_w) (i32_of pitch);
          (srcY, y0, renderH) = clip_axis dy (i32_of src_h) (i32_of screen_h)
      in if renderW \<le> 0 \<or> renderH \<le> 0 then m
         else foldl (\<lambda>m y. blit_row lut dest (idx32 pitch (u32_of x0) (u32_of (y0 + int y)))
                             src (idx32 src_w (u32_of srcX) (u32_of (srcY + int y))) (nat renderW) 0 m) m [0..<nat renderH])"

text \<open>The opaque copy of \<^verbatim>\<open>Compose\<close>: unsigned arithmetic, and the row loop stops at the first row below the screen.\<close>

fun compose_rows :: "addr \<Rightarrow> nat \<Rightarrow> nat \<Rightarrow> Layer \<Rightarrow> nat \<Rightarrow> nat \<Rightarrow> nat \<Rightarrow> pixels \<Rightarrow> pixels" where
  "compose_rows back pitch H l safeW y 0 m = m"
| "compose_rows back pitch H l safeW y (Suc n) m =
     (if add32 (u32_of (l_y l)) y < H
      then compose_rows back pitch H l safeW (y + 1) n
             (blit_fast_32 back (idx32 pitch (u32_of (l_x l)) (add32 (u32_of (l_y l)) y)) (l_buffer l) (mul32 y (l_width l)) safeW m)
      else m)"

definition compose_opaque :: "addr \<Rightarrow> nat \<Rightarrow> nat \<Rightarrow> Layer \<Rightarrow> pixels \<Rightarrow> pixels" where
  "compose_opaque back W H l m =
     (let safeW = (if add32 (u32_of (l_x l)) (l_width l) > W then sub32 W (u32_of (l_x l)) else l_width l)
      in compose_rows back W H l safeW 0 (l_height l) m)"

text \<open>Both pointers 8-byte aligned: \<^verbatim>\<open>&buffer[k]\<close> is at \<open>buffer + 4 k\<close>.\<close>

definition aligned8 :: "addr \<Rightarrow> nat \<Rightarrow> bool" where
  "aligned8 b k \<longleftrightarrow> (b + 4 * k) mod 8 = 0"

definition blit_clipped :: "addr \<Rightarrow> nat \<Rightarrow> nat \<Rightarrow> Layer \<Rightarrow> pixels \<Rightarrow> pixels" where
  "blit_clipped back pitch screenH l m =
     (let (srcX, dstX, copyW) = clip_axis (l_x l) (i32_of (l_width l)) (i32_of pitch);
          (srcY, dstY, copyH) = clip_axis (l_y l) (i32_of (l_height l)) (i32_of screenH)
      in if copyW \<le> 0 \<or> copyH \<le> 0 then m
         else foldl (\<lambda>m y.
           let i = idx32 pitch (u32_of dstX) (u32_of (dstY + int y));
               j = idx32 (l_width l) (u32_of srcX) (u32_of (srcY + int y)); n = nat copyW
           in if even n \<and> aligned8 back i \<and> aligned8 (l_buffer l) j
              then blit_fast_64 back i (l_buffer l) j (n div 2) m else blit_fast_32 back i (l_buffer l) j n m) m [0..<nat copyH])"

section \<open>Decorations\<close>

definition draw_button :: "nat \<Rightarrow> nat \<Rightarrow> graphics \<Rightarrow> graphics" where
  "draw_button bx bY g =
     FillRect (add32 bx 13) bY 1 14 0xFF2A2A2A (FillRect bx bY 1 14 0xFF2A2A2A
       (FillRect bx (add32 bY 13) 14 1 0xFF2A2A2A (FillRect bx bY 14 1 0xFF2A2A2A (FillRect bx bY 14 14 0xFF1A1A1A g))))"

definition DrawWindowDecoration :: "(nat \<Rightarrow> u8) \<Rightarrow> font_renderer \<Rightarrow> Layer \<Rightarrow> graphics \<Rightarrow> graphics" where
  "DrawWindowDecoration builtin font l g =
     (let lx = u32_of (l_x l); ly = u32_of (l_y l); lw = l_width l; lh = l_height l;
          top = sub32 ly TITLE_BAR_HEIGHT; left = sub32 lx BORDER_WIDTH; full = add32 lw (2 * BORDER_WIDTH)
      in if ly < TITLE_BAR_HEIGHT then g
         else
           let g1 = FillRect left top full TITLE_BAR_HEIGHT 0xFF121212 g;
               g2 = FillRect left ly BORDER_WIDTH lh 0xFF2A2A2A g1;
               g3 = FillRect (add32 lx lw) ly BORDER_WIDTH lh 0xFF2A2A2A g2;
               g4 = FillRect left (add32 ly lh) full BORDER_WIDTH 0xFF2A2A2A g3;
               g5 = FillRect lx (sub32 ly 2) lw 1 0xFF4080A0 g4;
               g6 = upd_px (\<lambda>m. snd (DrawText builtin font (GetDrawBuffer g5) (GetWidth g5) (GetHeight g5)
                              (add32 lx 8) (add32 top 6) (l_name l) 0xFFE0E0E0 0 m)) g5;
               bx = sub32 (add32 lx lw) 20; bY = add32 top 6;
               g7 = FillRect (add32 bx 4) (add32 bY 4) 6 6 0xFFB04040 (draw_button bx bY g6);
               bx2 = sub32 bx 20;
               g8 = FillRect (add32 bx2 4) (add32 bY 4) 6 6 0xFF4040B0 (draw_button bx2 bY g7);
               bx3 = sub32 bx2 20
           in FillRect (add32 bx3 4) (add32 bY 8) 6 2 0xFFEAEAEA (draw_button bx3 bY g8))"

section \<open>Composing all layers\<close>

text \<open>One layer of \<^verbatim>\<open>Compose\<close>.  \<open>builtin\<close> is the table of the built-in font.\<close>

definition compose_layer :: "(nat \<Rightarrow> u8) \<Rightarrow> addr \<Rightarrow> 'a compositor_scheme \<Rightarrow> 'a compositor_scheme" where
  "compose_layer builtin a s =
     (let l = cp_layer s a; g = cp_gfx s; back = GetDrawBuffer g
      in if a = 0 \<or> \<not> l_visible l \<or> l_buffer l = 0 then s
         else if userspaceMode s \<and> l_type l \<noteq> APP_WINDOW then s
         else let s1 = on_pixels (if l_has_alpha l
                  then BlitTransparent (cp_lut s) (GetHeight g) back (GetWidth g) (l_buffer l) (l_width l) (l_height l) (l_x l) (l_y l)
                  else compose_opaque back (GetWidth g) (GetHeight g) l) s
              in if l_type l = APP_WINDOW
                 then s1\<lparr>cp_gfx := DrawWindowDecoration builtin (cp_font s) l (cp_gfx s1)\<rparr> else s1)"

definition Compose :: "(nat \<Rightarrow> u8) \<Rightarrow> 'a compositor_scheme \<Rightarrow> 'a compositor_scheme" where
  "Compose builtin s =
     (let s1 = SortLayers s; s2 = foldl (\<lambda>s a. compose_layer builtin a s) s1 (layers s1)
      in cp_ClearDirtyRects (s2\<lparr>frameCount := add32 (frameCount s2) 1\<rparr>))"

text \<open>One layer of \<^verbatim>\<open>ComposeAppWindowsOnly\<close>.  The region it marks in the display driver, which is not part of this state, is in
  \<open>app_window_marks\<close>.\<close>

definition off_screen :: "int \<Rightarrow> int \<Rightarrow> int \<Rightarrow> bool" where
  "off_screen pos len limit \<longleftrightarrow> wrap32 (pos + len) \<le> 0 \<or> pos \<ge> limit"

definition compose_window :: "(nat \<Rightarrow> u8) \<Rightarrow> addr \<Rightarrow> 'a compositor_scheme \<Rightarrow> 'a compositor_scheme" where
  "compose_window builtin a s =
     (let l = cp_layer s a; g = cp_gfx s; back = GetDrawBuffer g; W = GetWidth g; H = GetHeight g
      in if a = 0 \<or> l_type l \<noteq> APP_WINDOW \<or> \<not> l_visible l \<or> \<not> l_frame_ready l then s
         else if off_screen (l_x l) (i32_of (l_width l)) (i32_of W) \<or> off_screen (l_y l) (i32_of (l_height l)) (i32_of H) then s
         else if l_has_alpha l
         then let s1 = (if l_x l \<ge> 0 \<and> l_y l \<ge> 0
                        then on_pixels (BlitTransparent (cp_lut s) H back W (l_buffer l) (l_width l) (l_height l) (l_x l) (l_y l)) s else s)
              in s1\<lparr>cp_gfx := DrawWindowDecoration builtin (cp_font s) l (cp_gfx s1)\<rparr>
         else if snd (snd (clip_axis (l_x l) (i32_of (l_width l)) (i32_of W))) \<le> 0 \<or>
                 snd (snd (clip_axis (l_y l) (i32_of (l_height l)) (i32_of H))) \<le> 0 then s
         else let s1 = on_pixels (blit_clipped back W H l) s
              in s1\<lparr>cp_gfx := DrawWindowDecoration builtin (cp_font s) l (cp_gfx s1)\<rparr>)"

text \<open>\<open>draw_cursor\<close> is \<^verbatim>\<open>Mouse::DrawCursor\<close> on the draw buffer.\<close>

definition ComposeAppWindowsOnly ::
  "(nat \<Rightarrow> u8) \<Rightarrow> (addr \<Rightarrow> nat \<Rightarrow> nat \<Rightarrow> pixels \<Rightarrow> pixels) \<Rightarrow> 'a compositor_scheme \<Rightarrow> 'a compositor_scheme" where
  "ComposeAppWindowsOnly builtin draw_cursor s =
     (if GetDrawBuffer (cp_gfx s) = 0 then s
      else let s1 = SortLayers s; s2 = foldl (\<lambda>s a. compose_window builtin a s) s1 (layers s1); g = cp_gfx s2
           in if userspaceMode s then s2 else on_pixels (draw_cursor (GetDrawBuffer g) (GetWidth g) (GetHeight g)) s2)"

text \<open>The layers whose regions \<^verbatim>\<open>ComposeAppWindowsOnly\<close> gives to \<^verbatim>\<open>Graphics::MarkDirty\<close>, in the order of the calls: before any
  clipping, and only from non-negative positions.  The caller, who has the display driver's state, makes the calls.\<close>

definition app_window_marks :: "'a compositor_scheme \<Rightarrow> Layer list" where
  "app_window_marks s =
     (if GetDrawBuffer (cp_gfx s) = 0 then []
      else filter (\<lambda>l. l_x l \<ge> 0 \<and> l_y l \<ge> 0)
             (map (cp_layer s) (filter (\<lambda>a. a \<noteq> 0 \<and> l_type (cp_layer s a) = APP_WINDOW \<and> l_visible (cp_layer s a) \<and>
                l_frame_ready (cp_layer s a)) (layers (SortLayers s)))))"

definition region_blend :: "u32 \<Rightarrow> u32 \<Rightarrow> u32" where
  "region_blend p bg =
     (let a = chan 24 p; mix = (\<lambda>k. (chan k p * a + chan k bg * (255 - a)) div 255)
      in if a = 0 then bg else if a = 255 then p else pack_rgb (mix 16) (mix 8) (mix 0))"

definition region_layer :: "nat \<Rightarrow> nat \<Rightarrow> nat \<Rightarrow> nat \<Rightarrow> addr \<Rightarrow> nat \<Rightarrow> Layer \<Rightarrow> pixels \<Rightarrow> pixels" where
  "region_layer rx ry rw rh back pitch l m =
     (let X = u32_of (l_x l); Y = u32_of (l_y l); w = l_width l; h = l_height l
      in if X \<ge> add32 rx rw \<or> add32 X w \<le> rx \<or> Y \<ge> add32 ry rh \<or> add32 Y h \<le> ry then m
         else
           let startX = (if X > rx then 0 else sub32 rx X); startY = (if Y > ry then 0 else sub32 ry Y);
               endX = (if add32 X w < add32 rx rw then w else sub32 (add32 rx rw) X);
               endY = (if add32 Y h < add32 ry rh then h else sub32 (add32 ry rh) Y)
           in foldl (\<lambda>m ly. foldl (\<lambda>m lx.
                let k = idx32 pitch (add32 X lx) (add32 Y ly); p = m (l_buffer l) (idx32 w lx ly)
                in m(back := (m back)(k := if l_has_alpha l then region_blend p (m back k) else p)))
                m [startX..<endX]) m [startY..<endY])"

definition ComposeRegion :: "nat \<Rightarrow> nat \<Rightarrow> nat \<Rightarrow> nat \<Rightarrow> 'a compositor_scheme \<Rightarrow> 'a compositor_scheme" where
  "ComposeRegion rx ry rw0 rh0 s =
     (let g = cp_gfx s; back = GetDrawBuffer g; pitch = GetWidth g;
          rw = clip_len pitch rx rw0; rh = clip_len (GetHeight g) ry rh0
      in if userspaceMode s then s
         else let s1 = SortLayers s
              in foldl (\<lambda>s a. if a = 0 \<or> \<not> l_visible (cp_layer s a) \<or> l_buffer (cp_layer s a) = 0 then s
                               else on_pixels (region_layer rx ry rw rh back pitch (cp_layer s a)) s) s1 (layers s1))"

section \<open>Initialisation and the debug overlay\<close>

definition gradient :: "nat \<Rightarrow> nat \<Rightarrow> u32" where
  "gradient h y = 0xFF000000 OR push_bit 16 (word_of_nat (mul32 y 40 div h)) OR push_bit 8 (word_of_nat (mul32 y 60 div h)) OR
     word_of_nat (add32 80 (mul32 y 50 div h))"

definition fill_gradient :: "addr \<Rightarrow> nat \<Rightarrow> nat \<Rightarrow> pixels \<Rightarrow> pixels" where
  "fill_gradient b w h m =
     foldl (\<lambda>m y. foldl (\<lambda>m x. m(b := (m b)(idx32 w x y := gradient h y))) m [0..<w]) m [0..<h]"

definition draw_arrow :: "addr \<Rightarrow> pixels \<Rightarrow> pixels" where
  "draw_arrow b m =
     foldl (\<lambda>m y. foldl (\<lambda>m x. m(b := (m b)(y * 16 + x := 0xFFFFFFFF))) m [0..<min (y + 1) 8]) (clear_block b 256 m) [0..<12]"

definition cp_Init :: "'a compositor_scheme \<Rightarrow> 'a compositor_scheme option" where
  "cp_Init s0 =
     (let s = s0\<lparr>layers := [], dirtyRects := []\<rparr>; w = GetWidth (cp_gfx s); h = GetHeight (cp_gfx s)
      in Option.bind (CreateLayer ''wallpaper'' WALLPAPER w h s) (\<lambda>(wall, s1).
           let s2 = (if wall = 0 then s1
                     else on_pixels (fill_gradient (l_buffer (cp_layer s1 wall)) w h) (upd_layer wall (\<lambda>l. l\<lparr>l_z := 0\<rparr>) s1))
           in Option.bind (CreateLayer ''cursor'' CURSOR 16 16 s2) (\<lambda>(cur, s3).
                let s4 = (if cur = 0 then s3
                          else on_pixels (draw_arrow (l_buffer (cp_layer s3 cur))) (upd_layer cur (\<lambda>l. l\<lparr>l_z := 100, l_has_alpha := True\<rparr>) s3))
                in Option.bind (CreateLayer ''debug'' OVERLAY w 100 s4) (\<lambda>(ovl, s5).
                     let s6 = (if ovl = 0 then s5
                               else on_pixels (\<lambda>m. let b = l_buffer (cp_layer s5 ovl)
                                                  in m(b := (\<lambda>k. if k < mul32 w 100 then 0x80000000 else m b k)))
                                      (upd_layer ovl (\<lambda>l. l\<lparr>l_z := 200, l_has_alpha := True, l_visible := False\<rparr>) s5))
                     in Some (s6\<lparr>wallpaperLayer := wall, cursorLayer := cur, overlayLayer := ovl\<rparr>)))))"

definition fill_box :: "addr \<Rightarrow> nat \<Rightarrow> nat \<Rightarrow> nat \<Rightarrow> nat \<Rightarrow> nat \<Rightarrow> u32 \<Rightarrow> pixels \<Rightarrow> pixels" where
  "fill_box b w x0 x1 y0 y1 c m = foldl (\<lambda>m y. foldl (\<lambda>m x. m(b := (m b)(idx32 w x y := c))) m [x0..<x1]) m [y0..<y1]"

definition UpdateDebugOverlay :: "'a compositor_scheme \<Rightarrow> 'a compositor_scheme" where
  "UpdateDebugOverlay s =
     (if overlayLayer s = 0 \<or> \<not> debugOverlayVisible s then s
      else let l = cp_layer s (overlayLayer s); w = l_width l; h = l_height l; b = l_buffer l; bar = frameCount s mod 200
           in on_pixels (\<lambda>m.
             let m1 = m(b := (\<lambda>k. if k < mul32 w h then 0xC0101020 else m b k));
                 m2 = foldl (\<lambda>m x. m(b := (m b)(x := 0xFF00FFFF, idx32 w x (sub32 h 1) := 0xFF00FFFF))) m1 [0..<w]
             in fill_box b w 10 (min (10 + bar) (sub32 w 10)) 80 90 0xFFFF00FF (fill_box b w 10 100 60 75 0xFF00FFFF
                  (fill_box b w 10 120 35 50 0xFFFFFF00 (fill_box b w 10 80 10 25 0xFF00FF00 m2)))) s)"

text \<open>\<^verbatim>\<open>SortLayers\<close> sorts by z-order and keeps the order of layers with the same z-order.\<close>

theorem SortLayers_stable_sort:
  "layers (SortLayers s) = sort_key (\<lambda>a. l_z (cp_layer s a)) (layers s)"
  by (simp add: SortLayers_def insertion_sort_stable)

section \<open>Blending a layer onto the screen\<close>

definition over :: "(nat \<Rightarrow> nat) option \<Rightarrow> u32 \<Rightarrow> u32 \<Rightarrow> u32" where
  "over lut p bg = (let a = chan 24 p in if a = 0 then bg else if a = 255 then p else Blend lut p bg)"

lemma copy_span_eq: "copy_span d i s j n m = blit_fast_32 d i s j n m"
  by (induction n arbitrary: i j m) simp_all

lemma opaque_end_le: "x \<le> n \<Longrightarrow> opaque_end row n x \<le> n"
  by (induction row n x rule: opaque_end.induct) (subst opaque_end.simps, auto)

lemma opaque_end_opaque: "x \<le> k \<Longrightarrow> k < opaque_end row n x \<Longrightarrow> chan 24 (row k) = 255"
proof (induction row n x rule: opaque_end.induct)
  case (1 row n x)
  show ?case
  proof (cases "x < n \<and> chan 24 (row x) = 255")
    case True
    with 1 show ?thesis by (cases "k = x") (auto simp: opaque_end.simps [of row n x])
  next
    case False
    with 1 show ?thesis by (auto simp: opaque_end.simps [of row n x])
  qed
qed

lemma blit_row_span:
  "d \<noteq> s \<Longrightarrow> x \<le> n \<Longrightarrow>
   blit_row lut d i s j n x m = m(d := span (i + x) (n - x) (\<lambda>k. over lut (m s (j + x + k))) (m d))"
proof (induction "n - x" arbitrary: x m rule: less_induct)
  case less
  show ?case
  proof (cases "x < n")
    case False
    with less.prems show ?thesis by (subst blit_row.simps) simp
  next
    case True
    let ?p = "m s (j + x)" and ?f = "\<lambda>k. over lut (m s (j + x + k))"
    have one: "span (i + x) (n - x) ?f (m d) = span (i + x + 1) (n - (x + 1)) (\<lambda>k. over lut (m s (j + (x + 1) + k))) ((m d)(i + x := ?f 0 (m d (i + x))))"
      using span_Suc [of "i + x" "n - (x + 1)" ?f "m d"] True by (simp add: Suc_diff_Suc)
    have ih1: "blit_row lut d i s j n (x + 1) m' = m'(d := span (i + (x + 1)) (n - (x + 1)) (\<lambda>k. over lut (m' s (j + (x + 1) + k))) (m' d))" for m'
      using less.hyps [of "x + 1" m'] True less.prems by simp
    consider (clear) "chan 24 ?p = 0" | (opaque) "chan 24 ?p = 255" | (mixed) "chan 24 ?p \<noteq> 0" "chan 24 ?p \<noteq> 255" by blast
    then show ?thesis
    proof cases
      case clear
      then have "blit_row lut d i s j n x m = blit_row lut d i s j n (x + 1) m"
        using True by (subst blit_row.simps) (simp add: Let_def)
      moreover have "(m d)(i + x := ?f 0 (m d (i + x))) = m d" using clear by (simp add: over_def)
      ultimately show ?thesis using ih1 [of m] one by (simp add: add.assoc)
    next
      case mixed
      then have "blit_row lut d i s j n x m = blit_row lut d i s j n (x + 1) (m(d := (m d)(i + x := Blend lut ?p (m d (i + x)))))"
        using True by (subst blit_row.simps) (simp add: Let_def)
      moreover have "?f 0 (m d (i + x)) = Blend lut ?p (m d (i + x))" using mixed by (simp add: over_def)
      ultimately show ?thesis using ih1 one less.prems(1) by (simp add: add.assoc)
    next
      case opaque
      define e where "e = opaque_end (\<lambda>k. m s (j + k)) n x"
      have e: "x < e" "e \<le> n" using opaque_end_gt [of x n "\<lambda>k. m s (j + k)"] opaque_end_le [of x n] True opaque by (simp_all add: e_def)
      let ?m = "blit_fast_32 d (i + x) s (j + x) (e - x) m"
      have step: "blit_row lut d i s j n x m = blit_row lut d i s j n e ?m"
        using True opaque by (subst blit_row.simps) (simp add: Let_def copy_span_eq e_def)
      have m1: "?m = m(d := span (i + x) (e - x) ?f (m d))"
      proof -
        have "span (i + x) (e - x) (\<lambda>k _. m s (j + x + k)) (m d) = span (i + x) (e - x) ?f (m d)"
        proof (rule span_cong)
          fix k
          assume "k < e - x"
          then have "chan 24 (m s (j + (x + k))) = 255"
            using opaque_end_opaque [of x "x + k" "\<lambda>k. m s (j + k)" n] by (simp add: e_def)
          then show "m s (j + x + k) = ?f k (m d (i + x + k))" by (simp add: over_def add.assoc)
        qed
        then show ?thesis using less.prems(1) by (simp add: blit_fast_32_span)
      qed
      have "blit_row lut d i s j n e ?m = ?m(d := span (i + e) (n - e) (\<lambda>k. over lut (?m s (j + e + k))) (?m d))"
        using less.hyps [of e ?m] less.prems(1) e by simp
      also have "\<dots> = m(d := span (i + e) (n - e) (\<lambda>k. over lut (m s (j + e + k))) (span (i + x) (e - x) ?f (m d)))"
        using less.prems(1) by (simp add: m1)
      also have "\<dots> = m(d := span (i + x) (n - x) ?f (m d))"
        using span_split [of "e - x" "n - x" "i + x" ?f "m d"] e by (simp add: add.assoc)
      finally show ?thesis using step by simp
    qed
  qed
qed

lemma clip_axis_spec:
  assumes "0 \<le> n" and "0 < limit" and "clip_axis d n limit = (s0, d0, n0)" and "span32 d n" and "limit < 2147483648"
  shows "0 \<le> s0" "0 \<le> d0" "s0 = d0 - d" "d0 + n0 \<le> limit" "s0 + n0 \<le> n" "s0 = 0 \<or> d0 = 0"
    and "0 < n0 \<Longrightarrow> (d0 \<le> X \<and> X < d0 + n0 \<longleftrightarrow> 0 \<le> X \<and> X < limit \<and> d \<le> X \<and> X < d + n)"
    and "n0 \<le> 0 \<Longrightarrow> \<not> (0 \<le> X \<and> X < limit \<and> d \<le> X \<and> X < d + n)"
  using assms by (auto simp: clip_axis_def span32_def Let_def wrap32_id split: if_splits)

text \<open>Near the end of the range the right edge is not clipped: the width 100 is left for a screen of 800.\<close>

lemma clip_axis_overflow: "clip_axis 2147483647 100 800 = (0, 2147483647, 100)"
  by (simp add: clip_axis_def wrap32_def)

text \<open>C26. \<^verbatim>\<open>BlitTransparent\<close> puts every source pixel that falls on the screen over the pixel below it, and changes
  nothing else: the clipping at the four edges and the runs of opaque pixels that are copied at once make no
  difference.  The rectangle is any whose position and ends are 32-bit integers; the code adds \<^verbatim>\<open>dx\<close> and the width in \<^verbatim>\<open>int32_t\<close>, and
  where that overflows it does not clip (\<open>clip_axis_overflow\<close>).\<close>

theorem BlitTransparent_correct:
  assumes "dest \<noteq> src" and "0 < W" and "0 < H" and "W * H < u32_limit" and "W < 2147483648" and "H < 2147483648"
    and "w < 2147483648" and "h < 2147483648" and "w * h < u32_limit"
    and "span32 dx (int w)" and "span32 dy (int h)"
  shows "BlitTransparent lut H dest W src w h dx dy m b k =
    (let X = int (k mod W); Y = int (k div W)
     in if b = dest \<and> k < W * H \<and> dx \<le> X \<and> X < dx + int w \<and> dy \<le> Y \<and> Y < dy + int h
        then over lut (m src (nat (Y - dy) * w + nat (X - dx))) (m dest k) else m b k)"
proof -
  obtain srcX x0 rw where cx: "clip_axis dx (int w) (int W) = (srcX, x0, rw)" by (rule prod_cases3)
  obtain srcY y0 rh where cy: "clip_axis dy (int h) (int H) = (srcY, y0, rh)" by (rule prod_cases3)
  have lim: "int W < 2147483648" "int H < 2147483648" using assms(5,6) by simp_all
  note xs = clip_axis_spec [OF _ _ cx assms(10) lim(1)] and ys = clip_axis_spec [OF _ _ cy assms(11) lim(2)]
  have conv: "i32_of w = int w" "i32_of h = int h" "i32_of W = int W" "i32_of H = int H"
    using assms by (simp_all add: i32_of_small)
  have row: "k div W < H \<longleftrightarrow> k < W * H" using assms(2) by (simp add: div_less_iff_less_mult mult.commute)
  have X: "0 \<le> int (k mod W)" "int (k mod W) < int W" using assms(2) by simp_all
  show ?thesis
  proof (cases "rw \<le> 0 \<or> rh \<le> 0")
    case True
    then have "BlitTransparent lut H dest W src w h dx dy m = m"
      by (auto simp: BlitTransparent_def conv cx cy)
    moreover have "\<not> (k < W * H \<and> dx \<le> int (k mod W) \<and> int (k mod W) < dx + int w \<and> dy \<le> int (k div W) \<and> int (k div W) < dy + int h)"
      using True xs(8) [of "int (k mod W)"] ys(8) [of "int (k div W)"] assms(2,3) X row by auto
    ultimately show ?thesis by (auto simp: Let_def)
  next
    case False
    then have pos: "0 < rw" "0 < rh" by simp_all
    have nn: "0 \<le> srcX" "0 \<le> x0" "0 \<le> srcY" "0 \<le> y0" "srcX = x0 - dx" "srcY = y0 - dy" "x0 + rw \<le> int W" "y0 + rh \<le> int H"
      "srcX + rw \<le> int w" "srcY + rh \<le> int h" using xs ys assms(2,3) by auto
    let ?x0 = "nat x0" and ?y0 = "nat y0" and ?sx = "nat srcX" and ?sy = "nat srcY" and ?rw = "nat rw" and ?rh = "nat rh"
    let ?F = "\<lambda>y k. over lut (m src ((?sy + y) * w + ?sx + k))"
    have rowstep: "blit_row lut dest (idx32 W (u32_of x0) (u32_of (y0 + int y))) src (idx32 w (u32_of srcX) (u32_of (srcY + int y))) ?rw 0 m1 =
        m1(dest := span ((?y0 + y) * W + ?x0) ?rw (?F y) (m1 dest))" if y: "y < ?rh" and same: "m1 src = m src" for m1 y
    proof -
      have u: "u32_of x0 = ?x0" "u32_of (y0 + int y) = ?y0 + y" "u32_of srcX = ?sx" "u32_of (srcY + int y) = ?sy + y"
        using nn y pos assms(5-8) by (simp_all add: u32_of_def nat_add_distrib)
      have "idx32 W ?x0 (?y0 + y) = (?y0 + y) * W + ?x0"
        using nn y pos assms(4) by (intro idx32_eq [of _ H]) linarith+
      moreover have "idx32 w ?sx (?sy + y) = (?sy + y) * w + ?sx"
        using nn y pos assms(9) by (intro idx32_eq [of _ h]) linarith+
      ultimately show ?thesis unfolding u by (simp add: blit_row_span [OF assms(1)] same)
    qed
    have "BlitTransparent lut H dest W src w h dx dy m = m(dest := rect_upd W ?x0 ?y0 ?rw ?rh ?F (m dest))"
      unfolding BlitTransparent_def conv cx cy Let_def prod.case rect_upd_def if_not_P [OF False]
      by (rule foldl_on_block_from [where s = src and S = "m src"]) (use rowstep assms(1) in auto)
    moreover have "?x0 + ?rw \<le> W" using nn pos by linarith
    note rect_upd_pixel [OF this assms(2), of ?y0 ?rh ?F "m dest" k]
    moreover have "?x0 \<le> k mod W \<and> k mod W < ?x0 + ?rw \<longleftrightarrow> dx \<le> int (k mod W) \<and> int (k mod W) < dx + int w"
      using xs(7) [OF _ _ pos(1), of "int (k mod W)"] assms(2) X nn pos by linarith
    moreover have "?y0 \<le> k div W \<and> k div W < ?y0 + ?rh \<longleftrightarrow> k < W * H \<and> dy \<le> int (k div W) \<and> int (k div W) < dy + int h"
      using ys(7) [OF _ _ pos(2), of "int (k div W)"] assms(3) row nn pos by linarith
    moreover have "(?sy + (k div W - ?y0)) * w + ?sx + (k mod W - ?x0) = nat (int (k div W) - dy) * w + nat (int (k mod W) - dx)"
      if "?y0 \<le> k div W" "?x0 \<le> k mod W"
    proof -
      have "?sy + (k div W - ?y0) = nat (int (k div W) - dy)" "?sx + (k mod W - ?x0) = nat (int (k mod W) - dx)"
        using that nn by linarith+
      then show ?thesis by (metis add.assoc)
    qed
    ultimately show ?thesis by (auto simp: Let_def)
  qed
qed

definition demo_pixels :: pixels where
  "demo_pixels = (\<lambda>b k. if b = 4096 then 0xFF112233 else 7)"

theorem BlitTransparent_correct_witness:
  "BlitTransparent None 2 8192 3 4096 2 2 2 1 demo_pixels 8192 5 = 0xFF112233 \<and>
   BlitTransparent None 2 8192 3 4096 2 2 2 1 demo_pixels 8192 4 = 7"
proof -
  note t = BlitTransparent_correct [of 8192 4096 3 2 2 2 2 1 None demo_pixels 8192]
  show ?thesis using t [of 5] t [of 4] by (simp add: demo_pixels_def over_def chan_def span32_def Let_def)
qed

end
