(* ===== verification/Compositor_Windows.thy ===== *)
theory Compositor_Windows
  imports Compositor PMM
begin

text \<open>
  The windows of the kernel compositor, second half of \<^verbatim>\<open>kernel/hal/video/compositor.cpp\<close>: the table of 16
  windows, their layers, and the mouse (title-bar buttons and dragging).  A \<^verbatim>\<open>Window*\<close> is an index into the table;
  pixels of a window come from the physical memory manager.  \<open>None\<close> is a write through a null layer pointer,
  or an allocation that does not return.
\<close>

section \<open>State\<close>

record Window =
  w_id :: nat
  w_layer :: addr
  w_width :: nat
  w_height :: nat
  w_buffer :: addr
  w_phys :: addr
  w_owner :: nat

record wm = compositor +
  windows :: "Window list"
  windowCount :: nat
  nextWindowInfoId :: nat
  dragWindow :: "nat option"
  dragOffsetX :: int
  dragOffsetY :: int
  wasLeftDown :: bool
  wm_pmm :: pmm

abbreviation MAX_WINDOWS :: nat where "MAX_WINDOWS \<equiv> 16"

definition GetWindow :: "nat \<Rightarrow> wm \<Rightarrow> nat option" where
  "GetWindow i s = first_slot (\<lambda>w. w_id w = i) (windows s)"

section \<open>Operations\<close>

definition centre :: "nat \<Rightarrow> nat \<Rightarrow> int" where
  "centre screen n = (if screen > n then int ((screen - n) div 2) else 0)"

definition window_layer :: "nat \<Rightarrow> nat \<Rightarrow> addr \<Rightarrow> wm \<Rightarrow> Layer" where
  "window_layer w h phys s = zero_layer\<lparr>l_name := ''Window'', l_type := APP_WINDOW, l_width := w, l_height := h, l_buffer := phys,
     l_visible := True, l_dirty := True, l_x := centre (GetWidth (cp_gfx s)) w, l_y := centre (GetHeight (cp_gfx s)) h,
     l_z := (50 + windowCount s) mod 65536\<rparr>"

text \<open>The last part: the layer is in the array, the window takes the first free slot.\<close>

definition register_window :: "nat \<Rightarrow> nat \<Rightarrow> addr \<Rightarrow> nat \<Rightarrow> addr \<Rightarrow> wm \<Rightarrow> nat option \<times> wm" where
  "register_window w h phys pid layer s0 =
     (let s = upd_layer layer (\<lambda>_. window_layer w h phys s0) (s0\<lparr>layers := layers s0 @ [layer]\<rparr>)
      in case first_slot (\<lambda>w. w_id w = 0) (windows s) of
           None \<Rightarrow> (None, s)
         | Some i \<Rightarrow>
             (Some i, s\<lparr>windows := (windows s)[i := \<lparr>w_id = nextWindowInfoId s, w_layer = layer, w_width = w, w_height = h,
                          w_buffer = phys, w_phys = phys, w_owner = pid\<rparr>],
                        windowCount := add32 (windowCount s) 1, nextWindowInfoId := add64 (nextWindowInfoId s) 1\<rparr>))"

definition CreateWindow :: "nat \<Rightarrow> nat \<Rightarrow> nat \<Rightarrow> nat \<Rightarrow> wm \<Rightarrow> (nat option \<times> wm) option" where
  "CreateWindow w h flags pid s =
     (if windowCount s \<ge> MAX_WINDOWS then Some (None, s)
      else
        let size = mul64 (mul64 w h) 4; pages = add64 size 4095 div 4096
        in Option.bind (AllocContiguous (wm_pmm s) pages) (\<lambda>(phys, p1).
             if phys = 0 then Some (None, s\<lparr>wm_pmm := p1\<rparr>)
             else
               let s2 = on_pixels (clear_block phys (size div 4)) (s\<lparr>wm_pmm := p1\<rparr>)
               in if length (layers s2) \<ge> MAX_LAYERS then Some (None, s2)
                  else Option.bind (kmalloc (cp_heap s2) LAYER_SIZE) (\<lambda>(layer, h1).
                    if layer = 0 then Some (None, s2\<lparr>cp_heap := h1\<rparr>)
                    else Some (register_window w h phys pid layer (s2\<lparr>cp_heap := h1\<rparr>)))))"

definition mark_frame :: "int \<Rightarrow> int \<Rightarrow> Window \<Rightarrow> wm \<Rightarrow> wm" where
  "mark_frame x y win s =
     cp_MarkDirty (sub32 (u32_of x) BORDER_WIDTH) (sub32 (u32_of y) TITLE_BAR_HEIGHT) (add32 (w_width win) (2 * BORDER_WIDTH))
       (add32 (w_height win) (TITLE_BAR_HEIGHT + BORDER_WIDTH)) s"

definition UpdateWindow :: "nat \<Rightarrow> nat \<Rightarrow> nat \<Rightarrow> nat \<Rightarrow> nat \<Rightarrow> nat \<Rightarrow> wm \<Rightarrow> wm" where
  "UpdateWindow i x y w h flags s =
     (case GetWindow i s of
        None \<Rightarrow> s
      | Some k \<Rightarrow>
          let win = windows s ! k; a = w_layer win
          in if a = 0 then s
             else let s1 = upd_layer a (\<lambda>l. l\<lparr>l_visible := odd flags\<rparr>) (SetLayerPosition a (i32_of x) (i32_of y) s)
                  in upd_layer a (\<lambda>l. l\<lparr>l_dirty := True\<rparr>) (mark_frame (i32_of x) (i32_of y) win s1))"

record WindowInfo =
  wi_id :: nat
  wi_x :: nat
  wi_y :: nat
  wi_w :: nat
  wi_h :: nat
  wi_flags :: nat
  wi_title :: string
  wi_pid :: nat

definition window_info :: "wm \<Rightarrow> Window \<Rightarrow> WindowInfo" where
  "window_info s w =
     (let l = cp_layer s (w_layer w)
      in \<lparr>wi_id = w_id w, wi_x = u32_of (l_x l), wi_y = u32_of (l_y l), wi_w = w_width w, wi_h = w_height w,
          wi_flags = (if l_visible l then 1 else 0), wi_title = copy_name 31 (l_name l), wi_pid = w_owner w\<rparr>)"

text \<open>The entries written to the user's buffer.\<close>

definition GetWindowList :: "addr \<Rightarrow> nat \<Rightarrow> wm \<Rightarrow> WindowInfo list" where
  "GetWindowList user_buf max_count s =
     (if user_buf = 0 then []
      else let ordered = filter (\<lambda>k. w_id (windows s ! k) \<noteq> 0 \<and> w_layer (windows s ! k) \<noteq> 0) [0..<length (windows s)];
               sorted = insertion_sort (\<lambda>k. l_z (cp_layer s (w_layer (windows s ! k)))) ordered
           in map (\<lambda>k. window_info s (windows s ! k)) (take max_count sorted))"

definition DestroyWindow :: "nat \<Rightarrow> wm \<Rightarrow> wm option" where
  "DestroyWindow i s =
     (case GetWindow i s of
        None \<Rightarrow> Some s
      | Some k \<Rightarrow>
          let win = windows s ! k
          in if w_layer win = 0 then None
             else let s1 = upd_layer (w_layer win) (\<lambda>l. l\<lparr>l_visible := False\<rparr>) s
                  in Some (s1\<lparr>windows := (windows s)[k := win\<lparr>w_layer := 0, w_id := 0\<rparr>], windowCount := sub32 (windowCount s) 1\<rparr>))"

section \<open>The mouse\<close>

definition in_title_bar :: "int \<Rightarrow> int \<Rightarrow> Layer \<Rightarrow> bool" where
  "in_title_bar x y l \<longleftrightarrow>
     (let titleX = i32_of (sub32 (u32_of (l_x l)) BORDER_WIDTH); titleY = i32_of (sub32 (u32_of (l_y l)) TITLE_BAR_HEIGHT);
          titleW = i32_of (add32 (l_width l) (2 * BORDER_WIDTH)); titleH = int TITLE_BAR_HEIGHT
      in x \<ge> titleX \<and> x < titleX + titleW \<and> y \<ge> titleY \<and> y < titleY + titleH)"

definition close_x :: "Layer \<Rightarrow> int" where
  "close_x l = i32_of (sub32 (sub32 (add32 (u32_of (l_x l)) (l_width l)) 6) 14)"

definition in_button :: "int \<Rightarrow> int \<Rightarrow> int \<Rightarrow> Layer \<Rightarrow> bool" where
  "in_button x y bx l \<longleftrightarrow> (let bY = l_y l - 26 + (26 - 14) div 2 in x \<ge> bx \<and> x < bx + 14 \<and> y \<ge> bY \<and> y < bY + 14)"

text \<open>The search for the window whose title bar was hit, from the top layer down, and what the click does.\<close>

definition hit_layer :: "int \<Rightarrow> int \<Rightarrow> wm \<Rightarrow> addr option" where
  "hit_layer x y s =
     find (\<lambda>a. a \<noteq> 0 \<and> l_visible (cp_layer s a) \<and> l_type (cp_layer s a) = APP_WINDOW \<and> in_title_bar x y (cp_layer s a)) (rev (layers s))"

definition title_click :: "int \<Rightarrow> int \<Rightarrow> addr \<Rightarrow> wm \<Rightarrow> wm option" where
  "title_click x y a s =
     (let l = cp_layer s a
      in case first_slot (\<lambda>w. w_layer w = a) (windows s) of
           None \<Rightarrow> Some s
         | Some k \<Rightarrow>
             if in_button x y (close_x l) l then DestroyWindow (w_id (windows s ! k)) s
             else if in_button x y (close_x l - 20) l
             then Some (SetLayerPosition a (i32_of (sub32 (GetWidth (cp_gfx s)) (l_width l) div 2))
                          (i32_of (sub32 (GetHeight (cp_gfx s)) (l_height l) div 2)) s)
             else if in_button x y (close_x l - 40) l then Some (SetLayerVisible a False s)
             else Some (SetLayerZOrder a 60 (s\<lparr>dragWindow := Some k, dragOffsetX := x - l_x l, dragOffsetY := y - l_y l\<rparr>)))"

definition drag_step :: "int \<Rightarrow> int \<Rightarrow> bool \<Rightarrow> nat \<Rightarrow> wm \<Rightarrow> wm" where
  "drag_step x y leftDown k s =
     (if leftDown
      then let win = windows s ! k; newX = x - dragOffsetX s; newY = y - dragOffsetY s
           in mark_frame newX newY win (SetLayerPosition (w_layer win) newX newY s)
      else s\<lparr>dragWindow := None\<rparr>)"

definition ProcessMouseEvent :: "int \<Rightarrow> int \<Rightarrow> u8 \<Rightarrow> wm \<Rightarrow> (bool \<times> wm) option" where
  "ProcessMouseEvent x y buttons s =
     (if userspaceMode s then Some (False, s)
      else let leftDown = (buttons AND 1 \<noteq> 0)
           in case dragWindow s of
                Some k \<Rightarrow> Some (True, drag_step x y leftDown k s)
              | None \<Rightarrow>
                  if leftDown \<and> \<not> wasLeftDown s
                  then let s1 = SortLayers s
                       in case hit_layer x y s1 of
                            Some a \<Rightarrow> map_option (Pair True) (title_click x y a s1)
                          | None \<Rightarrow> Some (False, s1\<lparr>wasLeftDown := leftDown\<rparr>)
                  else Some (False, s\<lparr>wasLeftDown := leftDown\<rparr>))"

section \<open>The table of windows\<close>

definition wm_view :: "wm \<Rightarrow> Window list \<times> nat \<times> nat \<times> addr set \<times> nat" where
  "wm_view s = (windows s, windowCount s, nextWindowInfoId s, set (layers s), length (layers s))"

lemma wm_view_drawing [simp]:
  "wm_view (upd_layer a f s) = wm_view s" "wm_view (on_pixels g s) = wm_view s" "wm_view (cp_MarkDirty x y w h s) = wm_view s"
  "wm_view (mark_frame p q win s) = wm_view s" "wm_view (MarkLayerDirty a s) = wm_view s"
  "wm_view (SetLayerPosition a p q s) = wm_view s" "wm_view (SetLayerVisible a v s) = wm_view s" "wm_view (SetLayerZOrder a z s) = wm_view s"
  by (simp_all add: wm_view_def upd_layer_def on_pixels_def cp_MarkDirty_def mark_frame_def MarkLayerDirty_def
      SetLayerPosition_def SetLayerVisible_def SetLayerZOrder_def Let_def split: option.split)

lemma drag_drawing [simp]:
  "dragWindow (upd_layer a f s) = dragWindow s" "dragWindow (on_pixels g s) = dragWindow s" "dragWindow (cp_MarkDirty x y w h s) = dragWindow s"
  "dragWindow (mark_frame p q win s) = dragWindow s" "dragWindow (MarkLayerDirty a s) = dragWindow s"
  "dragWindow (SetLayerPosition a p q s) = dragWindow s" "dragWindow (SetLayerVisible a v s) = dragWindow s"
  "dragWindow (SetLayerZOrder a z s) = dragWindow s" "dragWindow (SortLayers s) = dragWindow s"
  by (simp_all add: upd_layer_def on_pixels_def cp_MarkDirty_def mark_frame_def MarkLayerDirty_def
      SetLayerPosition_def SetLayerVisible_def SetLayerZOrder_def SortLayers_def Let_def split: option.split)

lemma wm_view_SortLayers [simp]: "wm_view (SortLayers s) = wm_view s"
  by (simp add: wm_view_def SortLayers_stable_sort) (simp add: SortLayers_def)

definition wm_inv :: "wm \<Rightarrow> bool" where
  "wm_inv s \<longleftrightarrow> length (windows s) = MAX_WINDOWS \<and> windowCount s = count_if (\<lambda>w. w_id w \<noteq> 0) (windows s) \<and>
     (\<forall>w \<in> set (windows s). (w_id w \<noteq> 0 \<longleftrightarrow> w_layer w \<noteq> 0) \<and> w_id w < nextWindowInfoId s \<and> (w_layer w \<noteq> 0 \<longrightarrow> w_layer w \<in> set (layers s))) \<and>
     (\<forall>i < MAX_WINDOWS. \<forall>j < MAX_WINDOWS. w_id (windows s ! i) = w_id (windows s ! j) \<longrightarrow> w_id (windows s ! i) \<noteq> 0 \<longrightarrow> i = j) \<and>
     length (layers s) \<le> MAX_LAYERS \<and> 0 < nextWindowInfoId s \<and>
     nextWindowInfoId s + MAX_LAYERS < u64_limit + length (layers s) \<and> (\<forall>k. dragWindow s = Some k \<longrightarrow> k < MAX_WINDOWS)"

lemma wm_inv_view: "wm_view s' = wm_view s \<Longrightarrow> (\<And>k. dragWindow s' = Some k \<Longrightarrow> k < MAX_WINDOWS) \<Longrightarrow> wm_inv s \<Longrightarrow> wm_inv s'"
  by (simp add: wm_view_def wm_inv_def)

lemma wm_inv_drag: "wm_inv s \<Longrightarrow> dragWindow s = Some k \<Longrightarrow> k < MAX_WINDOWS"
  by (simp add: wm_inv_def)

lemma wm_view_simp: "wm_view (s\<lparr>dragWindow := d\<rparr>) = wm_view s" "wm_view (s\<lparr>dragOffsetX := p\<rparr>) = wm_view s"
  "wm_view (s\<lparr>dragOffsetY := q\<rparr>) = wm_view s" "wm_view (s\<lparr>wasLeftDown := b\<rparr>) = wm_view s" "wm_view (s\<lparr>wm_pmm := p'\<rparr>) = wm_view s"
  "wm_view (s\<lparr>cp_heap := h\<rparr>) = wm_view s"
  by (simp_all add: wm_view_def)

text \<open>Registering a window in a free slot, and clearing the slot of a window.\<close>

lemma wm_inv_register:
  assumes "wm_inv s" and "first_slot (\<lambda>w. w_id w = 0) (windows s) = Some i" and "layer \<noteq> 0" and "length (layers s) < MAX_LAYERS"
    and "w_id win = nextWindowInfoId s" and "w_layer win = layer"
    and "wm_view s' = ((windows s)[i := win], add32 (windowCount s) 1, add64 (nextWindowInfoId s) 1, insert layer (set (layers s)), Suc (length (layers s)))"
    and "dragWindow s' = dragWindow s"
  shows "wm_inv s'"
proof -
  from first_slot_SomeD [OF assms(2)] have i: "i < length (windows s)" "w_id (windows s ! i) = 0" by simp_all
  from assms(1) have inv: "length (windows s) = 16" "windowCount s = count_if (\<lambda>w. w_id w \<noteq> 0) (windows s)" "0 < nextWindowInfoId s"
    "nextWindowInfoId s + 16 < u64_limit + length (layers s)"
    and each: "\<And>w. w \<in> set (windows s) \<Longrightarrow> (w_id w \<noteq> 0 \<longleftrightarrow> w_layer w \<noteq> 0) \<and> w_id w < nextWindowInfoId s \<and> (w_layer w \<noteq> 0 \<longrightarrow> w_layer w \<in> set (layers s))"
    and uniq: "\<And>p q. p < 16 \<Longrightarrow> q < 16 \<Longrightarrow> w_id (windows s ! p) = w_id (windows s ! q) \<Longrightarrow> w_id (windows s ! p) \<noteq> 0 \<Longrightarrow> p = q"
    and drag: "\<And>k. dragWindow s = Some k \<Longrightarrow> k < 16"
    by (simp_all add: wm_inv_def)
  have nxt: "add64 (nextWindowInfoId s) 1 = nextWindowInfoId s + 1" using inv(4) assms(4) by (simp add: add64_def)
  have "count_if (\<lambda>w. w_id w \<noteq> 0) (windows s) \<le> 16" using count_if_le [of _ "windows s"] inv(1) by metis
  then have cnt: "add32 (windowCount s) 1 = count_if (\<lambda>w. w_id w \<noteq> 0) ((windows s)[i := win])"
    using count_if_set [of i "windows s" "\<lambda>w. w_id w \<noteq> 0" win] i inv(2,3) assms(5) by (simp add: add32_def)
  have v: "windows s' = (windows s)[i := win]" "windowCount s' = count_if (\<lambda>w. w_id w \<noteq> 0) ((windows s)[i := win])"
    "nextWindowInfoId s' = nextWindowInfoId s + 1" "set (layers s') = insert layer (set (layers s))"
    "length (layers s') = Suc (length (layers s))"
    using assms(7) unfolding wm_view_def nxt cnt by simp_all
  have e1: "(w_id w \<noteq> 0 \<longleftrightarrow> w_layer w \<noteq> 0) \<and> w_id w < nextWindowInfoId s' \<and> (w_layer w \<noteq> 0 \<longrightarrow> w_layer w \<in> set (layers s'))"
    if "w \<in> set (windows s')" for w
  proof -
    from that have "w = win \<or> w \<in> set (windows s)" unfolding v(1) using set_update_subset_insert by fast
    then show ?thesis using each [of w] assms(3,5,6) inv(3) unfolding v by auto
  qed
  have fresh: "w_id (windows s ! p) \<noteq> nextWindowInfoId s" if "p < 16" for p using each [of "windows s ! p"] that inv(1) by auto
  have u1: "p = q" if "p < 16" "q < 16" "w_id (windows s' ! p) = w_id (windows s' ! q)" "w_id (windows s' ! p) \<noteq> 0" for p q
  proof (cases "p = i \<or> q = i")
    case True
    with that fresh [of p] fresh [of q] i(1) assms(5) show ?thesis unfolding v(1) by (metis nth_list_update_eq nth_list_update_neq)
  next
    case False
    with that uniq [of p q] show ?thesis unfolding v(1) by simp
  qed
  show ?thesis unfolding wm_inv_def
    using e1 u1 drag inv(1,4) assms(4,8) v by (auto simp: wm_inv_def)
qed

lemma wm_inv_unregister:
  assumes "wm_inv s" and "k < MAX_WINDOWS" and "w_id (windows s ! k) \<noteq> 0"
    and "wm_view s' = ((windows s)[k := (windows s ! k)\<lparr>w_layer := 0, w_id := 0\<rparr>], sub32 (windowCount s) 1, nextWindowInfoId s, set (layers s), length (layers s))"
    and "dragWindow s' = dragWindow s"
  shows "wm_inv s'"
proof -
  let ?z = "(windows s ! k)\<lparr>w_layer := 0, w_id := 0\<rparr>"
  from assms(1) have inv: "length (windows s) = 16" "windowCount s = count_if (\<lambda>w. w_id w \<noteq> 0) (windows s)"
    and each: "\<And>w. w \<in> set (windows s) \<Longrightarrow> (w_id w \<noteq> 0 \<longleftrightarrow> w_layer w \<noteq> 0) \<and> w_id w < nextWindowInfoId s \<and> (w_layer w \<noteq> 0 \<longrightarrow> w_layer w \<in> set (layers s))"
    and uniq: "\<And>p q. p < 16 \<Longrightarrow> q < 16 \<Longrightarrow> w_id (windows s ! p) = w_id (windows s ! q) \<Longrightarrow> w_id (windows s ! p) \<noteq> 0 \<Longrightarrow> p = q"
    and rest: "length (layers s) \<le> 16" "0 < nextWindowInfoId s" "nextWindowInfoId s + 16 < u64_limit + length (layers s)"
      "\<And>k. dragWindow s = Some k \<Longrightarrow> k < 16"
    by (simp_all add: wm_inv_def)
  have "count_if (\<lambda>w. w_id w \<noteq> 0) (windows s) \<le> 16" using count_if_le [of _ "windows s"] inv(1) by metis
  then have cnt: "sub32 (windowCount s) 1 = count_if (\<lambda>w. w_id w \<noteq> 0) ((windows s)[k := ?z])"
    using count_if_unset [of k "windows s" "\<lambda>w. w_id w \<noteq> 0" ?z] assms(2,3) inv by (simp add: sub32_eq)
  have v: "windows s' = (windows s)[k := ?z]" "windowCount s' = count_if (\<lambda>w. w_id w \<noteq> 0) ((windows s)[k := ?z])"
    "nextWindowInfoId s' = nextWindowInfoId s" "set (layers s') = set (layers s)" "length (layers s') = length (layers s)"
    using assms(4) unfolding wm_view_def cnt by simp_all
  have e1: "(w_id w \<noteq> 0 \<longleftrightarrow> w_layer w \<noteq> 0) \<and> w_id w < nextWindowInfoId s' \<and> (w_layer w \<noteq> 0 \<longrightarrow> w_layer w \<in> set (layers s'))"
    if "w \<in> set (windows s')" for w
  proof -
    from that have "w = ?z \<or> w \<in> set (windows s)" unfolding v(1) using set_update_subset_insert by fast
    then show ?thesis using each [of w] rest(2) unfolding v by auto
  qed
  have u1: "p = q" if "p < 16" "q < 16" "w_id (windows s' ! p) = w_id (windows s' ! q)" "w_id (windows s' ! p) \<noteq> 0" for p q
  proof -
    have "p \<noteq> k" "q \<noteq> k" using that inv(1) unfolding v(1) by auto
    with that uniq [of p q] show ?thesis unfolding v(1) by simp
  qed
  show ?thesis using e1 u1 rest inv(1) assms(5) v by (auto simp: wm_inv_def)
qed

lemma DestroyWindow_ok:
  assumes "wm_inv s" and "i \<noteq> 0"
  shows "\<exists>s'. DestroyWindow i s = Some s' \<and> wm_inv s' \<and> layers s' = layers s"
proof (cases "GetWindow i s")
  case None
  with assms show ?thesis by (simp add: DestroyWindow_def)
next
  case (Some k)
  then have k: "k < length (windows s)" "w_id (windows s ! k) = i"
    unfolding GetWindow_def by (auto dest: first_slot_SomeD)
  have len: "length (windows s) = 16" using assms(1) by (simp add: wm_inv_def)
  have "windows s ! k \<in> set (windows s)" using k(1) by simp
  then have la: "w_layer (windows s ! k) \<noteq> 0" using assms k(2) by (auto simp: wm_inv_def)
  let ?s1 = "upd_layer (w_layer (windows s ! k)) (\<lambda>l. l\<lparr>l_visible := False\<rparr>) s"
  let ?s' = "?s1\<lparr>windows := (windows s)[k := (windows s ! k)\<lparr>w_layer := 0, w_id := 0\<rparr>], windowCount := sub32 (windowCount s) 1\<rparr>"
  have eq: "DestroyWindow i s = Some ?s'" using Some la by (simp add: DestroyWindow_def Let_def)
  have "wm_inv ?s'"
    by (rule wm_inv_unregister [OF assms(1), of k]) (use k len assms(2) in \<open>simp_all add: wm_view_def upd_layer_def\<close>)
  moreover have "layers ?s' = layers s" by (simp add: upd_layer_def)
  ultimately show ?thesis using eq by blast
qed

text \<open>The outcomes of a creation: refused with the table untouched, or registered with one more layer.\<close>

lemma register_window_inv:
  assumes "wm_inv s" and "layer \<noteq> 0" and "length (layers s) < MAX_LAYERS" and "windowCount s < MAX_WINDOWS"
    and "register_window w h phys pid layer s = (r, s')"
  shows "wm_inv s' \<and> r \<noteq> None \<and> length (layers s') = Suc (length (layers s))"
proof -
  have "first_slot (\<lambda>w. w_id w = 0) (windows s) \<noteq> None"
  proof
    assume "first_slot (\<lambda>w. w_id w = 0) (windows s) = None"
    then have "count_if (\<lambda>w. w_id w \<noteq> 0) (windows s) = length (windows s)" by (auto simp: first_slot_None count_if_full)
    with assms(1,4) show False by (simp add: wm_inv_def)
  qed
  then obtain i where i: "first_slot (\<lambda>w. w_id w = 0) (windows s) = Some i" by blast
  define win where "win = \<lparr>w_id = nextWindowInfoId s, w_layer = layer, w_width = w, w_height = h, w_buffer = phys, w_phys = phys, w_owner = pid\<rparr>"
  have r: "r = Some i" and view: "wm_view s' = ((windows s)[i := win], add32 (windowCount s) 1, add64 (nextWindowInfoId s) 1,
      insert layer (set (layers s)), Suc (length (layers s)))" and drag: "dragWindow s' = dragWindow s"
    using assms(5) i by (auto simp: register_window_def upd_layer_def wm_view_def win_def Let_def)
  have "w_id win = nextWindowInfoId s" "w_layer win = layer" by (simp_all add: win_def)
  from wm_inv_register [OF assms(1) i assms(2,3) this view drag] r view show ?thesis by (simp add: wm_view_def)
qed

lemma on_pixels_fields [simp]:
  "layers (on_pixels f s) = layers s" "cp_heap (on_pixels f s) = cp_heap s" "windowCount (on_pixels f s) = windowCount s"
  by (simp_all add: on_pixels_def)

lemma CreateWindow_inv:
  assumes "wm_inv s" and "CreateWindow w h flags pid s = Some (r, s')"
  shows "wm_inv s' \<and> length (layers s) + (if r = None then 0 else 1) \<le> length (layers s')"
proof -
  have same: "wm_inv s1" if "wm_view s1 = wm_view s" "dragWindow s1 = dragWindow s" for s1
    using that(2) wm_inv_drag [OF assms(1)] by (intro wm_inv_view [OF that(1) _ assms(1)]) simp
  define sz where "sz = mul64 (mul64 w h) 4"
  show ?thesis
  proof (cases "windowCount s \<ge> MAX_WINDOWS")
    case True
    with assms show ?thesis by (simp add: CreateWindow_def)
  next
    case cnt: False
    with assms(2) obtain phys p1 where al: "AllocContiguous (wm_pmm s) (add64 sz 4095 div 4096) = Some (phys, p1)"
      by (auto simp: CreateWindow_def sz_def Let_def split: Option.bind_splits)
    define s1 where "s1 = s\<lparr>wm_pmm := p1\<rparr>"
    define s2 where "s2 = on_pixels (clear_block phys (sz div 4)) s1"
    have v: "wm_view s1 = wm_view s" "dragWindow s1 = dragWindow s" "wm_view s2 = wm_view s" "dragWindow s2 = dragWindow s"
      by (simp_all add: s1_def s2_def wm_view_simp)
    have len: "length (layers s2) = length (layers s)" "windowCount s2 = windowCount s" by (simp_all add: s1_def s2_def)
    have eq: "CreateWindow w h flags pid s = (if phys = 0 then Some (None, s1)
        else if length (layers s2) \<ge> MAX_LAYERS then Some (None, s2)
        else Option.bind (kmalloc (cp_heap s2) LAYER_SIZE) (\<lambda>(layer, h1).
          if layer = 0 then Some (None, s2\<lparr>cp_heap := h1\<rparr>) else Some (register_window w h phys pid layer (s2\<lparr>cp_heap := h1\<rparr>))))"
      using cnt al unfolding CreateWindow_def s1_def s2_def sz_def by (simp add: Let_def)
    consider (refused) "r = None" "s' = s1 \<or> s' = s2" | (heap) layer h1 where "length (layers s2) < MAX_LAYERS"
        "kmalloc (cp_heap s2) LAYER_SIZE = Some (layer, h1)"
        "(if layer = 0 then (None, s2\<lparr>cp_heap := h1\<rparr>) else register_window w h phys pid layer (s2\<lparr>cp_heap := h1\<rparr>)) = (r, s')"
      using assms(2) unfolding eq by (auto split: if_splits Option.bind_splits)
    then show ?thesis
    proof cases
      case refused
      then show ?thesis using same [of s1] same [of s2] v len by (auto simp: wm_view_def)
    next
      case heap
      let ?s3 = "s2\<lparr>cp_heap := h1\<rparr>"
      have inv3: "wm_inv ?s3" using v by (intro same) (simp_all add: wm_view_simp)
      show ?thesis
      proof (cases "layer = 0")
        case True
        with heap(3) inv3 len show ?thesis by auto
      next
        case False
        from heap(3) False have "register_window w h phys pid layer ?s3 = (r, s')" by simp
        from register_window_inv [OF inv3 False _ _ this] heap(1) cnt len show ?thesis by simp
      qed
    qed
  qed
qed

lemma title_click_ok:
  assumes "wm_inv s" and "a \<noteq> 0"
  shows "\<exists>s'. title_click x y a s = Some s' \<and> wm_inv s' \<and> length (layers s') = length (layers s)"
proof (cases "first_slot (\<lambda>w. w_layer w = a) (windows s)")
  case None
  with assms show ?thesis by (simp add: title_click_def Let_def)
next
  case (Some k)
  then have k: "k < length (windows s)" "w_layer (windows s ! k) = a" by (auto dest: first_slot_SomeD)
  have len: "length (windows s) = 16" and drag: "\<And>k. dragWindow s = Some k \<Longrightarrow> k < MAX_WINDOWS"
    using assms(1) by (simp_all add: wm_inv_def)
  have "windows s ! k \<in> set (windows s)" using k(1) by simp
  then have id0: "w_id (windows s ! k) \<noteq> 0" using assms k(2) by (auto simp: wm_inv_def)
  have keep: "wm_inv s' \<and> length (layers s') = length (layers s)" if "wm_view s' = wm_view s" "\<And>k. dragWindow s' = Some k \<Longrightarrow> k < MAX_WINDOWS" for s'
    using wm_inv_view [OF that(1,2) assms(1)] that(1) by (simp add: wm_view_def)
  show ?thesis
  proof (cases "in_button x y (close_x (cp_layer s a)) (cp_layer s a)")
    case True
    from DestroyWindow_ok [OF assms(1) id0] obtain s' where "DestroyWindow (w_id (windows s ! k)) s = Some s'" "wm_inv s'" "layers s' = layers s"
      by blast
    with True Some show ?thesis by (simp add: title_click_def Let_def)
  next
    case False
    then have "\<exists>s'. title_click x y a s = Some s' \<and> wm_view s' = wm_view s \<and> (dragWindow s' = dragWindow s \<or> dragWindow s' = Some k)"
      using Some by (cases "in_button x y (close_x (cp_layer s a) - 20) (cp_layer s a)";
          cases "in_button x y (close_x (cp_layer s a) - 40) (cp_layer s a)") (simp_all add: title_click_def Let_def wm_view_simp)
    then obtain s' where s': "title_click x y a s = Some s'" "wm_view s' = wm_view s" "dragWindow s' = dragWindow s \<or> dragWindow s' = Some k"
      by blast
    then show ?thesis using keep [of s'] drag k(1) len by auto
  qed
qed

text \<open>An interrupt of the mouse never writes through a null pointer, and keeps the table.\<close>

lemma ProcessMouseEvent_ok:
  assumes "wm_inv s"
  shows "\<exists>r s'. ProcessMouseEvent x y b s = Some (r, s') \<and> wm_inv s' \<and> length (layers s') = length (layers s)"
proof -
  have drag: "\<And>k. dragWindow s = Some k \<Longrightarrow> k < MAX_WINDOWS" using assms by (simp add: wm_inv_def)
  have keep: "wm_inv s' \<and> length (layers s') = length (layers s)" if "wm_view s' = wm_view s" "dragWindow s' = dragWindow s \<or> dragWindow s' = None" for s'
    using wm_inv_view [OF that(1) _ assms] that drag by (auto simp: wm_view_def)
  consider (user) "userspaceMode s" | (dragging) k where "\<not> userspaceMode s" "dragWindow s = Some k"
    | (click) "\<not> userspaceMode s" "dragWindow s = None" "b AND 1 \<noteq> 0" "\<not> wasLeftDown s"
    | (other) "\<not> userspaceMode s" "dragWindow s = None" "\<not> (b AND 1 \<noteq> 0 \<and> \<not> wasLeftDown s)"
    by (cases "dragWindow s") auto
  then show ?thesis
  proof cases
    case user
    with assms show ?thesis by (intro exI [of _ False] exI [of _ s]) (simp add: ProcessMouseEvent_def)
  next
    case dragging
    let ?s = "drag_step x y (b AND 1 \<noteq> 0) k s"
    have "wm_view ?s = wm_view s" "dragWindow ?s = dragWindow s \<or> dragWindow ?s = None"
      by (simp_all add: drag_step_def Let_def wm_view_simp)
    from keep [OF this] show ?thesis using dragging
      by (intro exI [of _ True] exI [of _ ?s]) (simp add: ProcessMouseEvent_def Let_def)
  next
    case other
    then show ?thesis using keep [of "s\<lparr>wasLeftDown := (b AND 1 \<noteq> 0)\<rparr>"]
      by (intro exI [of _ False] exI [of _ "s\<lparr>wasLeftDown := (b AND 1 \<noteq> 0)\<rparr>"]) (auto simp: ProcessMouseEvent_def Let_def wm_view_simp)
  next
    case click
    have inv1: "wm_inv (SortLayers s)" and len1: "length (layers (SortLayers s)) = length (layers s)"
      using keep [of "SortLayers s"] by simp_all
    show ?thesis
    proof (cases "hit_layer x y (SortLayers s)")
      case None
      then show ?thesis using click keep [of "(SortLayers s)\<lparr>wasLeftDown := True\<rparr>"]
        by (intro exI [of _ False] exI [of _ "(SortLayers s)\<lparr>wasLeftDown := True\<rparr>"]) (simp add: ProcessMouseEvent_def Let_def wm_view_simp)
    next
      case (Some a)
      then have "a \<noteq> 0" by (auto simp: hit_layer_def find_Some_iff)
      from title_click_ok [OF inv1 this] obtain s' where "title_click x y a (SortLayers s) = Some s'" "wm_inv s'"
        "length (layers s') = length (layers (SortLayers s))" by blast
      with Some click len1 show ?thesis
        by (intro exI [of _ True] exI [of _ s']) (simp add: ProcessMouseEvent_def Let_def)
    qed
  qed
qed

lemma UpdateWindow_ok: "wm_inv s \<Longrightarrow> wm_inv (UpdateWindow i x y w h flags s) \<and> length (layers (UpdateWindow i x y w h flags s)) = length (layers s)"
proof -
  assume a: "wm_inv s"
  have "wm_view (UpdateWindow i x y w h flags s) = wm_view s \<and> dragWindow (UpdateWindow i x y w h flags s) = dragWindow s"
    by (simp add: UpdateWindow_def Let_def split: option.split)
  then show ?thesis using wm_inv_view [of "UpdateWindow i x y w h flags s" s] a wm_inv_drag [OF a] by (simp add: wm_view_def)
qed

section \<open>Properties\<close>

datatype wm_op = WCreate nat nat nat nat | WUpdate nat nat nat nat nat nat | WDestroy nat | WMouse int int u8

fun wm_step :: "wm_op \<Rightarrow> wm \<Rightarrow> (nat \<times> wm) option" where
  "wm_step (WCreate w h flags pid) s = map_option (\<lambda>(r, s1). (if r = None then 0 else 1, s1)) (CreateWindow w h flags pid s)"
| "wm_step (WUpdate i x y w h flags) s = Some (0, UpdateWindow i x y w h flags s)"
| "wm_step (WDestroy i) s = map_option (Pair 0) (DestroyWindow i s)"
| "wm_step (WMouse x y b) s = map_option (\<lambda>(r, s1). (0, s1)) (ProcessMouseEvent x y b s)"

text \<open>The number of windows created, and the state after the calls.\<close>

fun run_wm :: "wm_op list \<Rightarrow> wm \<Rightarrow> (nat \<times> wm) option" where
  "run_wm [] s = Some (0, s)"
| "run_wm (c # cs) s = Option.bind (wm_step c s) (\<lambda>(n, s1). map_option (\<lambda>(k, s2). (n + k, s2)) (run_wm cs s1))"

lemma DestroyWindow_0: "wm_inv s \<Longrightarrow> DestroyWindow 0 s = Some s' \<Longrightarrow> s' = s"
proof (cases "GetWindow 0 s")
  case None
  then show "DestroyWindow 0 s = Some s' \<Longrightarrow> s' = s" by (simp add: DestroyWindow_def)
next
  case (Some k)
  assume inv: "wm_inv s" and d: "DestroyWindow 0 s = Some s'"
  from Some have k: "k < length (windows s)" "w_id (windows s ! k) = 0" unfolding GetWindow_def by (auto dest: first_slot_SomeD)
  then have "windows s ! k \<in> set (windows s)" by simp
  then have "w_layer (windows s ! k) = 0" using inv k(2) by (auto simp: wm_inv_def)
  with Some d show ?thesis by (simp add: DestroyWindow_def Let_def)
qed

lemma wm_step_inv:
  "wm_inv s \<Longrightarrow> wm_step c s = Some (n, s') \<Longrightarrow> wm_inv s' \<and> length (layers s) + n \<le> length (layers s')"
proof (cases c)
  case (WCreate w h flags pid)
  assume "wm_inv s" and "wm_step c s = Some (n, s')"
  then show ?thesis using CreateWindow_inv [of s w h flags pid] WCreate by fastforce
next
  case (WUpdate i x y w h flags)
  assume "wm_inv s" and "wm_step c s = Some (n, s')"
  then show ?thesis using UpdateWindow_ok [of s i x y w h flags] WUpdate by simp
next
  case (WDestroy i)
  assume a: "wm_inv s" and "wm_step c s = Some (n, s')"
  then have n: "n = 0" "DestroyWindow i s = Some s'" using WDestroy by auto
  then show ?thesis using DestroyWindow_ok [OF a, of i] DestroyWindow_0 [OF a, of s'] a by (cases "i = 0") auto
next
  case (WMouse x y b)
  assume "wm_inv s" and "wm_step c s = Some (n, s')"
  then show ?thesis using ProcessMouseEvent_ok [of s x y b] WMouse by fastforce
qed

text \<open>C27. Over any sequence of creations, updates, destructions and mouse events the table stays consistent (the
  counter is the number of windows, their ids differ, each has its layer), and the number of windows that are
  ever created is bounded by the free places of the layer array: closing a window does not give its place back.\<close>

theorem window_table_invariant:
  assumes "wm_inv s" and "run_wm cs s = Some (n, s')"
  shows "wm_inv s' \<and> n \<le> MAX_LAYERS - length (layers s)"
proof -
  have "wm_inv s' \<and> length (layers s) + n \<le> length (layers s')"
    using assms
  proof (induction cs arbitrary: s n)
    case Nil
    then show ?case by simp
  next
    case (Cons c cs)
    from Cons.prems(2) obtain n1 s1 n2 where c: "wm_step c s = Some (n1, s1)" "run_wm cs s1 = Some (n2, s')" "n = n1 + n2"
      by (auto split: Option.bind_splits)
    from wm_step_inv [OF Cons.prems(1) c(1)] Cons.IH [OF _ c(2)] c(3) show ?case by auto
  qed
  moreover from this have "length (layers s') \<le> MAX_LAYERS" by (simp add: wm_inv_def)
  ultimately show ?thesis by linarith
qed

text \<open>Two windows on top of each other, the second in front.\<close>

definition demo_layer :: "nat \<Rightarrow> Layer" where
  "demo_layer z = zero_layer\<lparr>l_name := ''Window'', l_type := APP_WINDOW, l_z := z, l_x := 100, l_y := 100, l_width := 80,
     l_height := 60, l_buffer := 4096, l_visible := True\<rparr>"

definition demo_wm :: wm where
  "demo_wm =
     \<lparr>cp_layer = (\<lambda>a. if a = 64 then demo_layer 50 else if a = 128 then demo_layer 51 else zero_layer), layers = [64, 128],
      dirtyRects = [], wallpaperLayer = 0, cursorLayer = 0, overlayLayer = 0, debugOverlayVisible = False, userspaceMode = False,
      frameCount = 0, cp_gfx = demo_gfx, cp_lut = None, cp_font = \<lparr>fontHeader = None, glyphData = None, useBuiltinFont = True,
      fontWidth = 8, fontHeight = 16\<rparr>, cp_heap = kheap_Init (\<lambda>_. undefined) 65536 32768,
      windows = [\<lparr>w_id = 1, w_layer = 64, w_width = 80, w_height = 60, w_buffer = 4096, w_phys = 4096, w_owner = 2\<rparr>,
                 \<lparr>w_id = 2, w_layer = 128, w_width = 80, w_height = 60, w_buffer = 8192, w_phys = 8192, w_owner = 3\<rparr>] @
                replicate 14 \<lparr>w_id = 0, w_layer = 0, w_width = 0, w_height = 0, w_buffer = 0, w_phys = 0, w_owner = 0\<rparr>,
      windowCount = 2, nextWindowInfoId = 3, dragWindow = None, dragOffsetX = 0, dragOffsetY = 0, wasLeftDown = False,
      wm_pmm = zero_pmm\<rparr>"

lemma demo_wm_fields:
  "windows demo_wm = [\<lparr>w_id = 1, w_layer = 64, w_width = 80, w_height = 60, w_buffer = 4096, w_phys = 4096, w_owner = 2\<rparr>,
                 \<lparr>w_id = 2, w_layer = 128, w_width = 80, w_height = 60, w_buffer = 8192, w_phys = 8192, w_owner = 3\<rparr>] @
                replicate 14 \<lparr>w_id = 0, w_layer = 0, w_width = 0, w_height = 0, w_buffer = 0, w_phys = 0, w_owner = 0\<rparr>"
  "windowCount demo_wm = 2" "nextWindowInfoId demo_wm = 3" "layers demo_wm = [64, 128]" "dragWindow demo_wm = None"
  "userspaceMode demo_wm = False" "wasLeftDown demo_wm = False"
  by (simp_all add: demo_wm_def)

lemma demo_wm_inv: "wm_inv demo_wm"
proof -
  have l: "length (windows demo_wm) = 16" by (simp add: demo_wm_fields)
  have nth: "w_id (windows demo_wm ! i) = (if i = 0 then 1 else if i = 1 then 2 else 0)" if i: "i < 16" for i
  proof -
    consider "i = 0" | "i = 1" | "2 \<le> i" by linarith
    then show ?thesis
    proof cases
      case 3
      then have k: "i = Suc (Suc (i - 2))" "i - 2 < 14" using i by linarith+
      have "windows demo_wm ! i = replicate 14 \<lparr>w_id = 0, w_layer = 0, w_width = 0, w_height = 0, w_buffer = 0, w_phys = 0, w_owner = 0\<rparr> ! (i - 2)"
        by (subst k(1)) (simp only: demo_wm_fields(1) append_Cons append_Nil nth_Cons_Suc)
      also have "\<dots> = \<lparr>w_id = 0, w_layer = 0, w_width = 0, w_height = 0, w_buffer = 0, w_phys = 0, w_owner = 0\<rparr>"
        by (rule nth_replicate [OF k(2)])
      finally have "w_id (windows demo_wm ! i) = 0" by (simp only: Window.simps)
      with 3 show ?thesis by simp
    qed (simp_all add: demo_wm_fields)
  qed
  have u: "\<forall>i < 16. \<forall>j < 16. w_id (windows demo_wm ! i) = w_id (windows demo_wm ! j) \<longrightarrow> w_id (windows demo_wm ! i) \<noteq> 0 \<longrightarrow> i = j"
  proof (intro allI impI)
    fix i j
    assume b: "i < 16" "j < (16 :: nat)" and e: "w_id (windows demo_wm ! i) = w_id (windows demo_wm ! j)" "w_id (windows demo_wm ! i) \<noteq> 0"
    show "i = j" using e unfolding nth [OF b(1)] nth [OF b(2)] by (simp split: if_split_asm)
  qed
  have c: "windowCount demo_wm = count_if (\<lambda>w. w_id w \<noteq> 0) (windows demo_wm)"
    by (simp add: demo_wm_fields count_if_def filter_replicate)
  have e: "\<forall>w \<in> set (windows demo_wm). (w_id w \<noteq> 0 \<longleftrightarrow> w_layer w \<noteq> 0) \<and> w_id w < nextWindowInfoId demo_wm \<and>
      (w_layer w \<noteq> 0 \<longrightarrow> w_layer w \<in> set (layers demo_wm))"
    by (simp add: demo_wm_fields)
  have r: "length (layers demo_wm) \<le> MAX_LAYERS \<and> 0 < nextWindowInfoId demo_wm \<and>
      nextWindowInfoId demo_wm + MAX_LAYERS < u64_limit + length (layers demo_wm) \<and> (\<forall>k. dragWindow demo_wm = Some k \<longrightarrow> k < MAX_WINDOWS)"
    by (simp add: demo_wm_fields)
  show ?thesis unfolding wm_inv_def by (rule conjI [OF l conjI [OF c conjI [OF e conjI [OF u r]]]])
qed

theorem window_table_invariant_witness:
  "\<exists>s'. run_wm [WDestroy 2, WMouse 0 0 0] demo_wm = Some (0, s') \<and> wm_inv s' \<and> w_id (windows s' ! 1) = 0"
proof -
  have g: "GetWindow 2 demo_wm = Some 1" by (simp add: GetWindow_def demo_wm_fields)
  define s1 where "s1 = (upd_layer 128 (\<lambda>l. l\<lparr>l_visible := False\<rparr>) demo_wm)\<lparr>windows := (windows demo_wm)[1 := (windows demo_wm ! 1)\<lparr>w_layer := 0, w_id := 0\<rparr>],
      windowCount := sub32 (windowCount demo_wm) 1\<rparr>"
  have w1: "w_layer (windows demo_wm ! 1) = 128" by (simp add: demo_wm_fields)
  have d: "wm_step (WDestroy 2) demo_wm = Some (0, s1)" by (simp add: DestroyWindow_def g w1 [unfolded One_nat_def] s1_def Let_def)
  have "userspaceMode s1 = False" "dragWindow s1 = None" "wasLeftDown s1 = False" by (simp_all add: s1_def upd_layer_def demo_wm_fields)
  then have m: "wm_step (WMouse 0 0 0) s1 = Some (0, s1\<lparr>wasLeftDown := False\<rparr>)" by (simp add: ProcessMouseEvent_def)
  have r: "run_wm [WDestroy 2, WMouse 0 0 0] demo_wm = Some (0, s1\<lparr>wasLeftDown := False\<rparr>)" by (simp add: d m del: wm_step.simps)
  have "w_id (windows (s1\<lparr>wasLeftDown := False\<rparr>) ! 1) = 0" by (simp add: s1_def demo_wm_fields)
  with window_table_invariant [OF demo_wm_inv r] r show ?thesis by blast
qed

text \<open>A press that closes or hides a window, or recentres it, is not recorded: the next packet of the mouse, with the
  button still down, is taken for a new press and hits the title bar that is now in front.\<close>

lemma title_click_keeps_button: "title_click x y a s = Some s' \<Longrightarrow> wasLeftDown s' = wasLeftDown s"
  by (auto simp: title_click_def DestroyWindow_def SetLayerPosition_def SetLayerVisible_def SetLayerZOrder_def MarkLayerDirty_def
      cp_MarkDirty_def upd_layer_def Let_def split: option.splits if_splits)

lemma press_not_recorded:
  assumes "ProcessMouseEvent x y b s = Some (True, s1)" and "\<not> userspaceMode s" and "dragWindow s = None"
  shows "\<not> wasLeftDown s1"
proof -
  from assms obtain a where "\<not> wasLeftDown s" "title_click x y a (SortLayers s) = Some s1"
    by (auto simp: ProcessMouseEvent_def Let_def split: if_splits option.splits)
  with title_click_keeps_button [of x y a "SortLayers s" s1] show ?thesis by (simp add: SortLayers_def)
qed

text \<open>Dragging gives the window z-order 60.  When the window above it was dragged before it has the same z-order, and
  the stable sort leaves it above.\<close>

lemma filter_eq_appendE:
  assumes "filter P r = xs @ ys"
  obtains r1 r2 where "r = r1 @ r2" "filter P r1 = xs" "filter P r2 = ys"
  using assms
proof (induction r arbitrary: xs thesis)
  case Nil
  then show ?case by simp
next
  case (Cons c r)
  show ?case
  proof (cases "xs = []")
    case True
    with Cons.prems show ?thesis by (metis append_Nil filter.simps(1))
  next
    case False
    show ?thesis
    proof (cases "P c")
      case True
      with Cons.prems(2) False obtain xs' where xs: "xs = c # xs'" "filter P r = xs' @ ys" by (cases xs) auto
      from Cons.IH [OF _ xs(2)] obtain r1 r2 where "r = r1 @ r2" "filter P r1 = xs'" "filter P r2 = ys" by blast
      with Cons.prems(1) [of "c # r1" r2] True xs show ?thesis by simp
    next
      case nP: False
      with Cons.prems(2) have "filter P r = xs @ ys" by simp
      from Cons.IH [OF _ this] obtain r1 r2 where "r = r1 @ r2" "filter P r1 = xs" "filter P r2 = ys" by blast
      with Cons.prems(1) [of "c # r1" r2] nP show ?thesis by simp
    qed
  qed
qed

lemma dragged_window_stays_below:
  assumes "layers s = xs @ b # ys @ a # zs" and "distinct (layers s)" and "l_z (cp_layer s a) = 60" and "b \<noteq> 0"
  shows "\<exists>us vs ws. layers (SortLayers (SetLayerZOrder b 60 s)) = us @ b # vs @ a # ws"
proof -
  let ?s = "SetLayerZOrder b 60 s" and ?z = "\<lambda>c. l_z (cp_layer (SetLayerZOrder b 60 s) c)"
  have ab: "a \<noteq> b" using assms(1,2) by auto
  have z: "?z a = 60" "?z b = 60" using assms(3,4) ab by (simp_all add: SetLayerZOrder_def upd_layer_def)
  have l: "layers ?s = layers s" by (simp add: SetLayerZOrder_def upd_layer_def)
  let ?r = "layers (SortLayers ?s)"
  have "filter (\<lambda>c. ?z c = 60) ?r = filter (\<lambda>c. ?z c = 60) (layers s)"
    unfolding SortLayers_stable_sort l by (rule sort_key_stable)
  also have "\<dots> = filter (\<lambda>c. ?z c = 60) xs @ b # filter (\<lambda>c. ?z c = 60) ys @ a # filter (\<lambda>c. ?z c = 60) zs"
    using z by (simp add: assms(1))
  finally have f: "filter (\<lambda>c. ?z c = 60) ?r = filter (\<lambda>c. ?z c = 60) xs @ b # (filter (\<lambda>c. ?z c = 60) ys @ a # filter (\<lambda>c. ?z c = 60) zs)" .
  then obtain r1 r2 where
    r: "?r = r1 @ r2" "filter (\<lambda>c. ?z c = 60) r2 = b # (filter (\<lambda>c. ?z c = 60) ys @ a # filter (\<lambda>c. ?z c = 60) zs)"
    by (elim filter_eq_appendE)
  from filter_eq_ConsD [OF r(2)] obtain u v where r2: "r2 = u @ b # v"
    "filter (\<lambda>c. ?z c = 60) ys @ a # filter (\<lambda>c. ?z c = 60) zs = filter (\<lambda>c. ?z c = 60) v" by auto
  have "a \<in> set (filter (\<lambda>c. ?z c = 60) v)" unfolding r2(2) [symmetric] by simp
  then have "a \<in> set v" by simp
  then obtain v1 v2 where "v = v1 @ a # v2" by (meson split_list)
  then have "?r = (r1 @ u) @ b # v1 @ a # v2" using r(1) r2(1) by simp
  then show ?thesis by blast
qed

end
