(* ===== verification/Early_Term.thy ===== *)
theory Early_Term
  imports Graphics
begin

text \<open>
  The boot terminal, \<^verbatim>\<open>kernel/hal/video/early_term.cpp\<close>, and the coloured log lines of
  \<^verbatim>\<open>kernel/hal/video/verbose.cpp\<close>.  The terminal draws 8x16 glyphs straight into the frame buffer, a block of
  the pixel memory of theory \<open>Graphics\<close>; \<open>builtin\<close> is the font table of \<^verbatim>\<open>font.cpp\<close>.
\<close>

section \<open>State\<close>

record early_term =
  et_fb :: "FramebufferInfo option"
  cursorX :: nat
  cursorY :: nat
  widthChars :: nat
  heightChars :: nat
  colorFG :: u32
  colorBG :: u32
  et_enabled :: bool
  et_px :: pixels

definition et_Clear :: "early_term \<Rightarrow> early_term" where
  "et_Clear t =
     (case et_fb t of
        None \<Rightarrow> t
      | Some f \<Rightarrow>
          t\<lparr>et_px := foldl (\<lambda>m i. m(fb_base f := (m (fb_base f))(i := colorBG t))) (et_px t) [0..<fb_width f * fb_height f],
            cursorX := 0, cursorY := 0\<rparr>)"

definition et_Init :: "FramebufferInfo \<Rightarrow> early_term \<Rightarrow> early_term" where
  "et_Init f t = et_Clear (t\<lparr>et_fb := Some f, widthChars := fb_width f div 8, heightChars := fb_height f div 16\<rparr>)"

section \<open>Drawing\<close>

definition et_PutPixel :: "FramebufferInfo \<Rightarrow> nat \<Rightarrow> nat \<Rightarrow> u32 \<Rightarrow> pixels \<Rightarrow> pixels" where
  "et_PutPixel f x y c m =
     (if x \<ge> fb_width f \<or> y \<ge> fb_height f then m
      else m(fb_base f := (m (fb_base f))(idx32 (fb_ppsl f) x y := c)))"

text \<open>The 8x16 pixels of a character cell, \<open>pic y x\<close> being the colour in its row \<open>y\<close> and column \<open>x\<close>.\<close>

definition draw_cell :: "FramebufferInfo \<Rightarrow> nat \<Rightarrow> nat \<Rightarrow> (nat \<Rightarrow> nat \<Rightarrow> u32) \<Rightarrow> pixels \<Rightarrow> pixels" where
  "draw_cell f cx cy pic m =
     foldl (\<lambda>m y. foldl (\<lambda>m x. et_PutPixel f (add32 (mul32 cx 8) x) (add32 (mul32 cy 16) y) (pic y x) m) m [0..<8]) m [0..<16]"

text \<open>\<^verbatim>\<open>(row >> (7 - x)) & 1\<close> chooses the colour.\<close>

definition glyph_pic :: "(nat \<Rightarrow> u8) \<Rightarrow> char \<Rightarrow> u32 \<Rightarrow> u32 \<Rightarrow> nat \<Rightarrow> nat \<Rightarrow> u32" where
  "glyph_pic builtin c fg bg y x = (if drop_bit (7 - x) (builtin (of_char c * 16 + y)) AND 1 \<noteq> 0 then fg else bg)"

definition Scroll :: "FramebufferInfo \<Rightarrow> early_term \<Rightarrow> early_term" where
  "Scroll f t =
     (let b = fb_base f; stride = fb_ppsl f; copyHeight = mul32 (sub32 (heightChars t) 1) 16;
          m1 = foldl (\<lambda>m y. foldl (\<lambda>m x. m(b := (m b)(idx32 stride x y := m b (idx32 stride x (add32 y 16))))) m [0..<fb_width f])
                 (et_px t) [0..<copyHeight];
          m2 = foldl (\<lambda>m y. foldl (\<lambda>m x. m(b := (m b)(idx32 stride x y := colorBG t))) m [0..<fb_width f]) m1 [copyHeight..<fb_height f]
      in t\<lparr>et_px := m2\<rparr>)"

text \<open>What a character does before the checks for the end of the line and of the screen.\<close>

definition put_glyph :: "(nat \<Rightarrow> u8) \<Rightarrow> FramebufferInfo \<Rightarrow> char \<Rightarrow> early_term \<Rightarrow> early_term" where
  "put_glyph builtin f c t =
     (if c = CHR 0x0A then t\<lparr>cursorX := 0, cursorY := add32 (cursorY t) 1\<rparr>
      else if c = CHR 0x08
      then if cursorX t > 0
           then let x = cursorX t - 1
                in t\<lparr>cursorX := x, et_px := draw_cell f x (cursorY t) (\<lambda>_ _. colorBG t) (et_px t)\<rparr>
           else t
      else if c = CHR 0x0D then t\<lparr>cursorX := 0\<rparr>
      else if c = CHR 0x09 then t\<lparr>cursorX := add32 (cursorX t) 4 div 4 * 4\<rparr>
      else t\<lparr>et_px := draw_cell f (cursorX t) (cursorY t) (glyph_pic builtin c (colorFG t) (colorBG t)) (et_px t),
             cursorX := add32 (cursorX t) 1\<rparr>)"

definition end_of_line :: "early_term \<Rightarrow> early_term" where
  "end_of_line t = (if cursorX t \<ge> widthChars t then t\<lparr>cursorX := 0, cursorY := add32 (cursorY t) 1\<rparr> else t)"

definition PutChar :: "(nat \<Rightarrow> u8) \<Rightarrow> char \<Rightarrow> early_term \<Rightarrow> early_term" where
  "PutChar builtin c t =
     (case et_fb t of
        None \<Rightarrow> t
      | Some f \<Rightarrow>
          if \<not> et_enabled t then t
          else let t1 = end_of_line (put_glyph builtin f c t)
               in if cursorY t1 \<ge> heightChars t1
                  then (Scroll f t1)\<lparr>cursorY := sub32 (heightChars t1) 1\<rparr> else t1)"

definition Print :: "(nat \<Rightarrow> u8) \<Rightarrow> string \<Rightarrow> early_term \<Rightarrow> early_term" where
  "Print builtin str t = (if \<not> et_enabled t then t else foldl (\<lambda>t c. PutChar builtin c t) t str)"

definition et_Disable :: "early_term \<Rightarrow> early_term" where "et_Disable t = t\<lparr>et_enabled := False\<rparr>"
definition et_IsEnabled :: "early_term \<Rightarrow> bool" where "et_IsEnabled t = et_enabled t"
definition ForceEnable :: "early_term \<Rightarrow> early_term" where
  "ForceEnable t = t\<lparr>et_enabled := True, cursorX := 0, cursorY := 0\<rparr>"
definition SetColor :: "u32 \<Rightarrow> u32 \<Rightarrow> early_term \<Rightarrow> early_term" where
  "SetColor fg bg t = t\<lparr>colorFG := fg, colorBG := bg\<rparr>"

text \<open>The digits as the loops put them into the buffer, the last one first.\<close>

fun dec_buffer :: "nat \<Rightarrow> string" where
  "dec_buffer v = (if v = 0 then [] else char_of (v mod 10 + 48) # dec_buffer (v div 10))"

declare dec_buffer.simps [simp del]

definition PrintDec :: "(nat \<Rightarrow> u8) \<Rightarrow> nat \<Rightarrow> early_term \<Rightarrow> early_term" where
  "PrintDec builtin v t =
     (if v = 0 then PutChar builtin CHR ''0'' t else foldl (\<lambda>t c. PutChar builtin c t) t (rev (dec_buffer v)))"

fun hex_buffer :: "nat \<Rightarrow> nat \<Rightarrow> string" where
  "hex_buffer 0 v = []"
| "hex_buffer (Suc n) v = ''0123456789ABCDEF'' ! (v mod 16) # hex_buffer n (v div 16)"

definition PrintHex :: "(nat \<Rightarrow> u8) \<Rightarrow> nat \<Rightarrow> early_term \<Rightarrow> early_term" where
  "PrintHex builtin v t = Print builtin (rev (hex_buffer 16 v)) (Print builtin ''0x'' t)"

fun print_at_loop :: "(nat \<Rightarrow> u8) \<Rightarrow> FramebufferInfo \<Rightarrow> nat \<Rightarrow> nat \<Rightarrow> string \<Rightarrow> early_term \<Rightarrow> early_term" where
  "print_at_loop builtin f x y [] t = t"
| "print_at_loop builtin f x y (c # cs) t =
     print_at_loop builtin f (add32 x 1) y cs
       (t\<lparr>et_px := draw_cell f x y (glyph_pic builtin c (colorFG t) (colorBG t)) (et_px t)\<rparr>)"

definition PrintAt :: "(nat \<Rightarrow> u8) \<Rightarrow> nat \<Rightarrow> nat \<Rightarrow> string \<Rightarrow> early_term \<Rightarrow> early_term" where
  "PrintAt builtin x y str t = (case et_fb t of None \<Rightarrow> t | Some f \<Rightarrow> print_at_loop builtin f x y str t)"

section \<open>Log lines\<close>

datatype LogLevel = LL_OK | LL_WARN | LL_ERR | LL_INFO | LL_DEBUG

fun level_style :: "LogLevel \<Rightarrow> u32 \<times> string" where
  "level_style LL_OK = (0xFF00FF00, ''[OK] '')"
| "level_style LL_WARN = (0xFF00FFFF, ''[WARN] '')"
| "level_style LL_ERR = (0xFF0000FF, ''[ERR] '')"
| "level_style LL_INFO = (0xFFFFFF00, ''[INFO] '')"
| "level_style LL_DEBUG = (0xFF808080, ''[DBG] '')"

text \<open>The first argument of \<open>Log\<close> is the switch \<^verbatim>\<open>Verbose::enabled\<close>.\<close>

definition Log :: "(nat \<Rightarrow> u8) \<Rightarrow> bool \<Rightarrow> LogLevel \<Rightarrow> string \<Rightarrow> string \<Rightarrow> early_term \<Rightarrow> early_term" where
  "Log builtin enabled level tag message t =
     (if \<not> enabled then t
      else let (col, pre) = level_style level;
               t1 = Print builtin pre (t\<lparr>colorFG := col\<rparr>);
               t2 = Print builtin '': '' (Print builtin tag (t1\<lparr>colorFG := 0xFFFFFFFF\<rparr>));
               t3 = Print builtin [CHR 0x0A] (Print builtin message t2)
           in t3\<lparr>colorFG := colorFG t\<rparr>)"

definition PrintColor :: "(nat \<Rightarrow> u8) \<Rightarrow> u32 \<Rightarrow> string \<Rightarrow> early_term \<Rightarrow> early_term" where
  "PrintColor builtin col str t = (Print builtin str (t\<lparr>colorFG := col\<rparr>))\<lparr>colorFG := colorFG t\<rparr>"

definition PrintHexColor :: "(nat \<Rightarrow> u8) \<Rightarrow> u32 \<Rightarrow> nat \<Rightarrow> early_term \<Rightarrow> early_term" where
  "PrintHexColor builtin col v t = (PrintHex builtin v (t\<lparr>colorFG := col\<rparr>))\<lparr>colorFG := colorFG t\<rparr>"

section \<open>What the loops draw\<close>

lemma span_snoc: "span i (Suc n) f row = (span i n f row)(i + n := f n (row (i + n)))"
  by (rule ext) (auto simp: span_def)

lemma foldl_span:
  fixes n :: nat
  assumes "\<And>m x. x < n \<Longrightarrow> f m x = m(b := (m b)(i + x := g x))"
  shows "foldl f m [0..<n] = m(b := span i n (\<lambda>k _. g k) (m b))"
  using assms by (induction n) (simp_all add: span_snoc)

text \<open>A copy inside one block whose source lies behind its target.\<close>

lemma foldl_span_self:
  fixes n :: nat
  assumes "\<And>m x. x < n \<Longrightarrow> f m x = m(b := (m b)(i + x := m b (j + x)))" and "i + n \<le> j"
  shows "foldl f m [0..<n] = m(b := span i n (\<lambda>k _. m b (j + k)) (m b))"
  using assms
proof (induction n)
  case 0
  then show ?case by simp
next
  case (Suc n)
  let ?m = "m(b := span i n (\<lambda>k _. m b (j + k)) (m b))"
  have ih: "foldl f m [0..<n] = ?m" by (rule Suc.IH) (use Suc.prems in simp_all)
  have "?m b (j + n) = m b (j + n)" using Suc.prems(2) by (simp add: span_def)
  moreover have "f ?m n = ?m(b := (?m b)(i + n := ?m b (j + n)))" by (rule Suc.prems(1)) simp
  ultimately have "f ?m n = m(b := (span i n (\<lambda>k _. m b (j + k)) (m b))(i + n := m b (j + n)))"
    by (simp only: fun_upd_same fun_upd_upd)
  then show ?case unfolding span_snoc by (simp add: ih del: fun_upd_apply)
qed

text \<open>A frame buffer whose pixel indices fit in 32 bits.\<close>

definition fb_ok :: "FramebufferInfo \<Rightarrow> bool" where
  "fb_ok f \<longleftrightarrow> 8 \<le> fb_width f \<and> 16 \<le> fb_height f \<and> fb_width f \<le> fb_ppsl f \<and> fb_ppsl f * fb_height f < u32_limit"

lemma fb_okD:
  assumes "fb_ok f"
  shows "0 < fb_ppsl f" "fb_ppsl f < u32_limit" "fb_height f < u32_limit" "fb_width f < u32_limit"
    "0 < fb_width f div 8" "0 < fb_height f div 16"
proof -
  from assms have a: "8 \<le> fb_width f" "16 \<le> fb_height f" "fb_width f \<le> fb_ppsl f" "fb_ppsl f * fb_height f < u32_limit"
    by (simp_all add: fb_ok_def)
  have "fb_ppsl f \<le> fb_ppsl f * fb_height f" "fb_height f \<le> fb_ppsl f * fb_height f" using a(1,2,3) by simp_all
  with a show "0 < fb_ppsl f" "fb_ppsl f < u32_limit" "fb_height f < u32_limit" "fb_width f < u32_limit"
    "0 < fb_width f div 8" "0 < fb_height f div 16" by (linarith | simp add: div_greater_zero_iff)+
qed

lemma fb_index:
  assumes "fb_ok f" and "x < fb_width f" and "y < fb_height f"
  shows "idx32 (fb_ppsl f) x y = y * fb_ppsl f + x"
  using assms idx32_eq [of y "fb_height f" x "fb_ppsl f"] by (simp add: fb_ok_def)

lemma cell_inside:
  assumes "fb_ok f" and "cx < fb_width f div 8" and "cy < fb_height f div 16"
  shows "cx * 8 + 8 \<le> fb_width f" "cy * 16 + 16 \<le> fb_height f"
proof -
  have "Suc cx * 8 \<le> fb_width f div 8 * 8" "Suc cy * 16 \<le> fb_height f div 16 * 16" using assms(2,3) by (intro mult_le_mono1; simp)+
  moreover have "fb_width f div 8 * 8 \<le> fb_width f" "fb_height f div 16 * 16 \<le> fb_height f" by simp_all
  ultimately show "cx * 8 + 8 \<le> fb_width f" "cy * 16 + 16 \<le> fb_height f" by simp_all
qed

lemma draw_cell_rect:
  assumes ok: "fb_ok f" and cx: "cx < fb_width f div 8" and cy: "cy < fb_height f div 16"
  shows "draw_cell f cx cy pic m =
    m(fb_base f := rect_upd (fb_ppsl f) (cx * 8) (cy * 16) 8 16 (\<lambda>y x _. pic y x) (m (fb_base f)))"
proof -
  note i = cell_inside [OF ok cx cy] and d = fb_okD [OF ok]
  have px: "et_PutPixel f (add32 (mul32 cx 8) x) (add32 (mul32 cy 16) y) (pic y x) m =
      m(fb_base f := (m (fb_base f))((cy * 16 + y) * fb_ppsl f + cx * 8 + x := pic y x))"
    if "x < 8" "y < 16" for x y m
  proof -
    have "add32 (mul32 cx 8) x = cx * 8 + x" "add32 (mul32 cy 16) y = cy * 16 + y"
      using i d that by (simp_all add: wrap_simps)
    moreover have "cx * 8 + x < fb_width f" "cy * 16 + y < fb_height f" using i that by linarith+
    ultimately show ?thesis using fb_index [OF ok] by (simp add: et_PutPixel_def add.assoc)
  qed
  have "foldl (\<lambda>m x. et_PutPixel f (add32 (mul32 cx 8) x) (add32 (mul32 cy 16) y) (pic y x) m) m [0..<8] =
      m(fb_base f := span ((cy * 16 + y) * fb_ppsl f + cx * 8) 8 (\<lambda>x _. pic y x) (m (fb_base f)))" if "y < 16" for y m
    by (rule foldl_span) (simp add: px that)
  then show ?thesis unfolding draw_cell_def rect_upd_def by (rule foldl_on_block)
qed

text \<open>The pixel of column \<open>X\<close> and row \<open>Y\<close>.\<close>

abbreviation pixel_at :: "FramebufferInfo \<Rightarrow> pixels \<Rightarrow> nat \<Rightarrow> nat \<Rightarrow> u32" where
  "pixel_at f m X Y \<equiv> m (fb_base f) (Y * fb_ppsl f + X)"

lemma row_col: "X < S \<Longrightarrow> (Y * S + X) div S = Y \<and> (Y * S + X) mod S = X" for S :: nat
  by simp

lemma draw_cell_pixel:
  assumes "fb_ok f" and "cx < fb_width f div 8" and "cy < fb_height f div 16" and "X < fb_width f"
  shows "pixel_at f (draw_cell f cx cy pic m) X Y =
    (if X div 8 = cx \<and> Y div 16 = cy then pic (Y mod 16) (X mod 8) else pixel_at f m X Y)"
proof -
  note i = cell_inside [OF assms(1-3)] and d = fb_okD [OF assms(1)]
  have S: "cx * 8 + 8 \<le> fb_ppsl f" "X < fb_ppsl f" using i assms(1,4) by (simp_all add: fb_ok_def)
  have "X div 8 = cx \<longleftrightarrow> cx * 8 \<le> X \<and> X < cx * 8 + 8" "Y div 16 = cy \<longleftrightarrow> cy * 16 \<le> Y \<and> Y < cy * 16 + 16" by auto
  moreover have "X - cx * 8 = X mod 8" if "X div 8 = cx" using that minus_div_mult_eq_mod [of X 8] by simp
  moreover have "Y - cy * 16 = Y mod 16" if "Y div 16 = cy" using that minus_div_mult_eq_mod [of Y 16] by simp
  ultimately show ?thesis
    using rect_upd_pixel [OF S(1) d(1), of "cy * 16" 16 "\<lambda>y x _. pic y x" "m (fb_base f)" "Y * fb_ppsl f + X"] row_col [OF S(2), of Y]
    by (simp add: draw_cell_rect [OF assms(1-3)])
qed

section \<open>Scrolling\<close>

lemma scroll_copy:
  fixes n :: nat and m :: pixels
  assumes ok: "fb_ok f" and n: "n + 16 \<le> fb_height f"
  shows "foldl (\<lambda>m y. foldl (\<lambda>m x. m(fb_base f := (m (fb_base f))(idx32 (fb_ppsl f) x y :=
             m (fb_base f) (idx32 (fb_ppsl f) x (add32 y 16))))) m [0..<fb_width f]) m [0..<n] =
    m(fb_base f := (\<lambda>k. if k div fb_ppsl f < n \<and> k mod fb_ppsl f < fb_width f
                          then m (fb_base f) (k + 16 * fb_ppsl f) else m (fb_base f) k))"
  using n
proof (induction n)
  case 0
  then show ?case by simp
next
  case (Suc n)
  let ?S = "fb_ppsl f" and ?W = "fb_width f" and ?b = "fb_base f"
  let ?m = "m(?b := (\<lambda>k. if k div ?S < n \<and> k mod ?S < ?W then m ?b (k + 16 * ?S) else m ?b k))"
  note d = fb_okD [OF ok]
  have W: "?W \<le> ?S" using ok by (simp add: fb_ok_def)
  have px: "idx32 ?S x n = n * ?S + x" "idx32 ?S x (add32 n 16) = (n + 16) * ?S + x" if "x < ?W" for x
    using that fb_index [OF ok] Suc.prems d by (simp_all add: wrap_simps)
  have far: "n * ?S + ?W \<le> (n + 16) * ?S" using W by (simp add: add_mult_distrib)
  have row: "foldl (\<lambda>m x. m(?b := (m ?b)(idx32 ?S x n := m ?b (idx32 ?S x (add32 n 16))))) ?m [0..<?W] =
      ?m(?b := span (n * ?S) ?W (\<lambda>k _. ?m ?b ((n + 16) * ?S + k)) (?m ?b))"
    by (rule foldl_span_self [OF _ far]) (simp add: px)
  have "span (n * ?S) ?W (\<lambda>k _. ?m ?b ((n + 16) * ?S + k)) (?m ?b) k =
      (if k div ?S < Suc n \<and> k mod ?S < ?W then m ?b (k + 16 * ?S) else m ?b k)" for k
  proof (cases "n * ?S \<le> k \<and> k < n * ?S + ?W")
    case True
    then have r: "k div ?S = n" "k mod ?S < ?W" using in_row [of 0 ?W ?S n k] W d(1) by simp_all
    have e: "(n + 16) * ?S + (k - n * ?S) = k + 16 * ?S" using True by (simp add: add_mult_distrib)
    have nlt: "\<not> (k + 16 * ?S) div ?S < n" using d(1) r(1) by simp
    have "span (n * ?S) ?W (\<lambda>k _. ?m ?b ((n + 16) * ?S + k)) (?m ?b) k = ?m ?b (k + 16 * ?S)"
      by (simp only: span_def True e simp_thms if_True)
    also have "\<dots> = m ?b (k + 16 * ?S)" using nlt by (simp only: fun_upd_same simp_thms if_False)
    finally show ?thesis using r by simp
  next
    case False
    then have "span (n * ?S) ?W (\<lambda>k _. ?m ?b ((n + 16) * ?S + k)) (?m ?b) k = ?m ?b k"
      unfolding span_def by (rule if_not_P)
    moreover have "k div ?S < Suc n \<and> k mod ?S < ?W \<longleftrightarrow> k div ?S < n \<and> k mod ?S < ?W"
      using False in_row [of 0 ?W ?S n k] W d(1) by (auto simp: less_Suc_eq)
    ultimately show ?thesis by simp
  qed
  then have sp: "span (n * ?S) ?W (\<lambda>k _. ?m ?b ((n + 16) * ?S + k)) (?m ?b) =
      (\<lambda>k. if k div ?S < Suc n \<and> k mod ?S < ?W then m ?b (k + 16 * ?S) else m ?b k)" by (rule ext)
  have n16: "n + 16 \<le> fb_height f" using Suc.prems by simp
  show ?case
    unfolding upt_Suc_append [OF le0] foldl_append foldl.simps Suc.IH [OF n16] row sp fun_upd_upd ..
qed

lemma scroll_clear:
  fixes m :: pixels
  assumes ok: "fb_ok f"
  shows "foldl (\<lambda>m y. foldl (\<lambda>m x. m(fb_base f := (m (fb_base f))(idx32 (fb_ppsl f) x y := c))) m [0..<fb_width f]) m [h..<fb_height f] =
    m(fb_base f := (\<lambda>k. if h \<le> k div fb_ppsl f \<and> k div fb_ppsl f < fb_height f \<and> k mod fb_ppsl f < fb_width f
                          then c else m (fb_base f) k))"
proof -
  let ?S = "fb_ppsl f" and ?W = "fb_width f" and ?b = "fb_base f" and ?H = "fb_height f"
  have W: "?W \<le> ?S" "0 < ?S" using ok fb_okD(1) [OF ok] by (simp_all add: fb_ok_def)
  have "foldl (\<lambda>m y. foldl (\<lambda>m x. m(?b := (m ?b)(idx32 ?S x y := c))) m [0..<?W]) m [h..<h + n] =
      m(?b := (\<lambda>k. if h \<le> k div ?S \<and> k div ?S < h + n \<and> k mod ?S < ?W then c else m ?b k))" if "h + n \<le> ?H" for n
    using that
  proof (induction n)
    case 0
    have "(\<lambda>k. if h \<le> k div ?S \<and> k div ?S < h + 0 \<and> k mod ?S < ?W then c else m ?b k) = m ?b" by (rule ext) auto
    then show ?case by (simp only: add_0_right upt_rec [of h h] less_irrefl if_False foldl.simps fun_upd_triv)
  next
    case (Suc n)
    let ?m = "m(?b := (\<lambda>k. if h \<le> k div ?S \<and> k div ?S < h + n \<and> k mod ?S < ?W then c else m ?b k))"
    have row: "foldl (\<lambda>m x. m(?b := (m ?b)(idx32 ?S x (h + n) := c))) ?m [0..<?W] =
        ?m(?b := span ((h + n) * ?S) ?W (\<lambda>_ _. c) (?m ?b))"
      by (rule foldl_span) (use fb_index [OF ok] Suc.prems in simp)
    have "span ((h + n) * ?S) ?W (\<lambda>_ _. c) (?m ?b) k =
        (if h \<le> k div ?S \<and> k div ?S < Suc (h + n) \<and> k mod ?S < ?W then c else m ?b k)" for k
    proof (cases "(h + n) * ?S \<le> k \<and> k < (h + n) * ?S + ?W")
      case True
      then have r: "k div ?S = h + n" "k mod ?S < ?W" using in_row [of 0 ?W ?S "h + n" k] W by simp_all
      have "span ((h + n) * ?S) ?W (\<lambda>_ _. c) (?m ?b) k = c" unfolding span_def by (rule if_P) (rule True)
      with r show ?thesis by simp
    next
      case False
      then have "span ((h + n) * ?S) ?W (\<lambda>_ _. c) (?m ?b) k = ?m ?b k" unfolding span_def by (rule if_not_P)
      moreover have "k div ?S < Suc (h + n) \<and> k mod ?S < ?W \<longleftrightarrow> k div ?S < h + n \<and> k mod ?S < ?W"
        using False in_row [of 0 ?W ?S "h + n" k] W by (auto simp: less_Suc_eq)
      ultimately show ?thesis by simp
    qed
    then have sp: "span ((h + n) * ?S) ?W (\<lambda>_ _. c) (?m ?b) =
        (\<lambda>k. if h \<le> k div ?S \<and> k div ?S < Suc (h + n) \<and> k mod ?S < ?W then c else m ?b k)" by (rule ext)
    have hn: "h + n \<le> ?H" using Suc.prems by simp
    show ?case
      unfolding add_Suc_right upt_Suc_append [OF le_add1] foldl_append foldl.simps Suc.IH [OF hn] row sp fun_upd_upd ..
  qed
  from this [of "?H - h"] show ?thesis
  proof (cases "h \<le> ?H")
    case False
    then have "(\<lambda>k. if h \<le> k div ?S \<and> k div ?S < ?H \<and> k mod ?S < ?W then c else m ?b k) = m ?b" by (intro ext) auto
    with False show ?thesis by (simp only: upt_conv_Nil nle_le foldl.simps fun_upd_triv)
  qed simp
qed

lemma Scroll_pixels:
  assumes ok: "fb_ok f" and h: "heightChars t = fb_height f div 16"
  shows "X < fb_width f \<Longrightarrow> Y < fb_height f \<Longrightarrow> pixel_at f (et_px (Scroll f t)) X Y =
      (if Y < (fb_height f div 16 - 1) * 16 then pixel_at f (et_px t) X (Y + 16) else colorBG t)"
    and "b \<noteq> fb_base f \<or> fb_width f \<le> k mod fb_ppsl f \<or> fb_height f \<le> k div fb_ppsl f \<Longrightarrow>
      et_px (Scroll f t) b k = et_px t b k"
    and "Scroll f t = t\<lparr>et_px := et_px (Scroll f t)\<rparr>"
proof -
  let ?S = "fb_ppsl f" and ?b = "fb_base f" and ?h = "(fb_height f div 16 - 1) * 16"
  note d = fb_okD [OF ok]
  have W: "fb_width f \<le> ?S" using ok by (simp add: fb_ok_def)
  have "fb_height f div 16 * 16 \<le> fb_height f" by simp
  moreover have "fb_height f div 16 * 16 = ?h + 16" using d(6) by (simp add: algebra_simps)
  ultimately have h16: "?h + 16 \<le> fb_height f" by linarith
  have ch: "mul32 (sub32 (heightChars t) 1) 16 = ?h" using h d(3,6) h16 by (simp add: sub32_eq mul32_def)
  have px: "et_px (Scroll f t) = (et_px t)(?b := (\<lambda>k. if ?h \<le> k div ?S \<and> k div ?S < fb_height f \<and> k mod ?S < fb_width f then colorBG t
      else if k div ?S < ?h \<and> k mod ?S < fb_width f then et_px t ?b (k + 16 * ?S) else et_px t ?b k))"
    unfolding Scroll_def Let_def ch scroll_copy [OF ok h16] scroll_clear [OF ok] by (simp only: fun_upd_upd fun_upd_same) simp
  show "pixel_at f (et_px (Scroll f t)) X Y =
      (if Y < ?h then pixel_at f (et_px t) X (Y + 16) else colorBG t)" if "X < fb_width f" "Y < fb_height f"
  proof -
    have "(Y * ?S + X) div ?S = Y" "(Y * ?S + X) mod ?S = X" using row_col [of X ?S Y] that(1) W by simp_all
    moreover have "Y * ?S + X + 16 * ?S = (Y + 16) * ?S + X" by (simp add: add_mult_distrib)
    moreover have "et_px t ?b (Y * ?S + X + 16 * ?S) = pixel_at f (et_px t) X (Y + 16)" by (rule arg_cong) (rule calculation(3))
    ultimately show ?thesis using that unfolding px by simp
  qed
  show "et_px (Scroll f t) b k = et_px t b k" if "b \<noteq> ?b \<or> fb_width f \<le> k mod ?S \<or> fb_height f \<le> k div ?S"
    using that h16 unfolding px by auto
  show "Scroll f t = t\<lparr>et_px := et_px (Scroll f t)\<rparr>" by (simp add: Scroll_def Let_def)
qed

section \<open>The text screen\<close>

text \<open>The terminal as its user sees it: a grid of cells, each holding the picture of its 8x16 pixels, and a
  cursor.  \<open>G x y\<close> is the picture in column \<open>x\<close> and row \<open>y\<close>.\<close>

type_synonym screen = "nat \<Rightarrow> nat \<Rightarrow> nat \<Rightarrow> nat \<Rightarrow> u32"

definition set_cell :: "nat \<Rightarrow> nat \<Rightarrow> (nat \<Rightarrow> nat \<Rightarrow> u32) \<Rightarrow> screen \<Rightarrow> screen" where
  "set_cell cx cy pic G = (\<lambda>x y. if x = cx \<and> y = cy then pic else G x y)"

definition vt_write :: "(nat \<Rightarrow> u8) \<Rightarrow> u32 \<Rightarrow> u32 \<Rightarrow> char \<Rightarrow> screen \<times> nat \<times> nat \<Rightarrow> screen \<times> nat \<times> nat" where
  "vt_write builtin fg bg c = (\<lambda>(G, x, y).
     if c = CHR 0x0A then (G, 0, y + 1)
     else if c = CHR 0x08 then (if x > 0 then (set_cell (x - 1) y (\<lambda>_ _. bg) G, x - 1, y) else (G, x, y))
     else if c = CHR 0x0D then (G, 0, y)
     else if c = CHR 0x09 then (G, (x div 4 + 1) * 4, y)
     else (set_cell x y (glyph_pic builtin c fg bg) G, x + 1, y))"

definition vt_wrap :: "nat \<Rightarrow> nat \<Rightarrow> u32 \<Rightarrow> screen \<times> nat \<times> nat \<Rightarrow> screen \<times> nat \<times> nat" where
  "vt_wrap cols rows bg = (\<lambda>(G, x, y).
     let (x1, y1) = (if x \<ge> cols then (0, y + 1) else (x, y))
     in if y1 \<ge> rows then ((\<lambda>cx cy. if cy + 1 < rows then G cx (cy + 1) else (\<lambda>_ _. bg)), x1, rows - 1) else (G, x1, y1))"

definition vt_put :: "(nat \<Rightarrow> u8) \<Rightarrow> nat \<Rightarrow> nat \<Rightarrow> u32 \<Rightarrow> u32 \<Rightarrow> screen \<times> nat \<times> nat \<Rightarrow> char \<Rightarrow> screen \<times> nat \<times> nat" where
  "vt_put builtin cols rows fg bg v c = vt_wrap cols rows bg (vt_write builtin fg bg c v)"

definition term_ok :: "FramebufferInfo \<Rightarrow> early_term \<Rightarrow> bool" where
  "term_ok f t \<longleftrightarrow> fb_ok f \<and> et_fb t = Some f \<and> et_enabled t \<and> widthChars t = fb_width f div 8 \<and>
     heightChars t = fb_height f div 16"

definition view_ok :: "FramebufferInfo \<Rightarrow> pixels \<Rightarrow> screen \<Rightarrow> bool" where
  "view_ok f m G \<longleftrightarrow> (\<forall>X < fb_width f div 8 * 8. \<forall>Y < fb_height f div 16 * 16.
     pixel_at f m X Y = G (X div 8) (Y div 16) (Y mod 16) (X mod 8))"

definition term_shows :: "FramebufferInfo \<Rightarrow> early_term \<Rightarrow> screen \<times> nat \<times> nat \<Rightarrow> bool" where
  "term_shows f t = (\<lambda>(G, x, y). term_ok f t \<and> cursorX t = x \<and> cursorY t = y \<and> view_ok f (et_px t) G)"

text \<open>Pixels outside the visible part of the frame buffer.\<close>

definition off_fb :: "FramebufferInfo \<Rightarrow> addr \<Rightarrow> nat \<Rightarrow> bool" where
  "off_fb f b k \<longleftrightarrow> b \<noteq> fb_base f \<or> fb_width f \<le> k mod fb_ppsl f \<or> fb_height f \<le> k div fb_ppsl f"

lemma visible: "X < fb_width f div 8 * 8 \<Longrightarrow> X < fb_width f" "Y < fb_height f div 16 * 16 \<Longrightarrow> Y < fb_height f"
  by (metis div_times_less_eq_dividend order_less_le_trans)+

lemma draw_cell_view:
  assumes "fb_ok f" and "cx < fb_width f div 8" and "cy < fb_height f div 16" and "view_ok f m G"
  shows "view_ok f (draw_cell f cx cy pic m) (set_cell cx cy pic G)"
  using assms(4) by (auto simp: view_ok_def set_cell_def draw_cell_pixel [OF assms(1-3)] visible)

lemma draw_cell_off:
  assumes "fb_ok f" and "cx < fb_width f div 8" and "cy < fb_height f div 16" and "off_fb f b k"
  shows "draw_cell f cx cy pic m b k = m b k"
proof -
  note i = cell_inside [OF assms(1-3)]
  have S: "cx * 8 + 8 \<le> fb_ppsl f" using i assms(1) by (simp add: fb_ok_def)
  have "\<not> (b = fb_base f \<and> k mod fb_ppsl f < cx * 8 + 8 \<and> k div fb_ppsl f < cy * 16 + 16)"
    using assms(4) i unfolding off_fb_def by linarith
  then show ?thesis
    using rect_upd_pixel [OF S fb_okD(1) [OF assms(1)], of "cy * 16" 16 "\<lambda>y x _. pic y x" "m (fb_base f)" k]
    by (auto simp: draw_cell_rect [OF assms(1-3)])
qed

lemma put_glyph_shows:
  assumes sh: "term_shows f t v" and x: "cursorX t < widthChars t" "cursorY t < heightChars t"
  shows "term_shows f (put_glyph builtin f c t) (vt_write builtin (colorFG t) (colorBG t) c v)"
    and "off_fb f b k \<Longrightarrow> et_px (put_glyph builtin f c t) b k = et_px t b k"
    and "snd (snd (vt_write builtin (colorFG t) (colorBG t) c v)) \<le> cursorY t + 1"
    and "colorFG (put_glyph builtin f c t) = colorFG t" "colorBG (put_glyph builtin f c t) = colorBG t"
proof -
  obtain G where v: "v = (G, cursorX t, cursorY t)" using sh by (cases v) (simp add: term_shows_def)
  have ok: "term_ok f t" and vw: "view_ok f (et_px t) G" using sh v by (simp_all add: term_shows_def)
  have fb: "fb_ok f" and dim: "widthChars t = fb_width f div 8" "heightChars t = fb_height f div 16"
    using ok by (simp_all add: term_ok_def)
  note d = fb_okD [OF fb]
  have c: "cursorX t < fb_width f div 8" "cursorY t < fb_height f div 16" using x dim by simp_all
  note in_cell = cell_inside [OF fb c]
  have c1: "cursorX t - 1 < fb_width f div 8" using c by linarith
  have no_wrap: "add32 (cursorX t) 4 = cursorX t + 4" "add32 (cursorX t) 1 = cursorX t + 1" "add32 (cursorY t) 1 = cursorY t + 1"
    using in_cell d by (simp_all add: wrap_simps)
  have tab: "(cursorX t + 4) div 4 * 4 = (cursorX t div 4 + 1) * 4" using div_add_self2 [of 4 "cursorX t"] by simp
  show "term_shows f (put_glyph builtin f c t) (vt_write builtin (colorFG t) (colorBG t) c v)"
    using ok vw draw_cell_view [OF fb c vw] draw_cell_view [OF fb c1 c(2) vw] no_wrap [unfolded One_nat_def]
    by (cases "cursorX t = 0") (simp_all add: v term_shows_def term_ok_def put_glyph_def vt_write_def tab [simplified] Let_def)
  show "et_px (put_glyph builtin f c t) b k = et_px t b k" if "off_fb f b k"
    using draw_cell_off [OF fb c that] draw_cell_off [OF fb c1 c(2) that] by (cases "cursorX t = 0") (simp_all add: put_glyph_def Let_def)
  show "snd (snd (vt_write builtin (colorFG t) (colorBG t) c v)) \<le> cursorY t + 1" by (simp_all add: v vt_write_def)
  show "colorFG (put_glyph builtin f c t) = colorFG t" "colorBG (put_glyph builtin f c t) = colorBG t"
    by (simp_all add: put_glyph_def Let_def)
qed

definition in_grid :: "early_term \<Rightarrow> bool" where
  "in_grid t \<longleftrightarrow> cursorX t < widthChars t \<and> cursorY t < heightChars t"

lemma Scroll_view:
  assumes fb: "fb_ok f" and h: "heightChars t = fb_height f div 16" and v: "view_ok f (et_px t) G"
  shows "view_ok f (et_px (Scroll f t)) (\<lambda>cx cy. if cy + 1 < fb_height f div 16 then G cx (cy + 1) else (\<lambda>_ _. colorBG t))"
  unfolding view_ok_def
proof (intro allI impI)
  fix X Y
  let ?R = "fb_height f div 16"
  assume X: "X < fb_width f div 8 * 8" and Y: "Y < ?R * 16"
  have px: "pixel_at f (et_px (Scroll f t)) X Y = (if Y < (?R - 1) * 16 then pixel_at f (et_px t) X (Y + 16) else colorBG t)"
    by (rule Scroll_pixels(1) [OF fb h visible(1) [OF X] visible(2) [OF Y]])
  have row: "Y < (?R - 1) * 16 \<longleftrightarrow> Y div 16 + 1 < ?R"
    using less_mult_imp_div_less [of Y "?R - 1" 16] div_less_iff_less_mult [of 16 Y "?R - 1"] by auto
  show "pixel_at f (et_px (Scroll f t)) X Y =
      (if Y div 16 + 1 < ?R then G (X div 8) (Y div 16 + 1) else (\<lambda>_ _. colorBG t)) (Y mod 16) (X mod 8)"
  proof (cases "Y div 16 + 1 < ?R")
    case True
    then have "Y + 16 < ?R * 16" using row fb_okD(6) [OF fb] by (simp add: diff_mult_distrib)
    then have "pixel_at f (et_px t) X (Y + 16) = G (X div 8) ((Y + 16) div 16) ((Y + 16) mod 16) (X mod 8)"
      using v X unfolding view_ok_def by blast
    then show ?thesis using px row True div_add_self2 [of 16 Y] by simp
  qed (use px row in simp)
qed

lemma end_of_line_simps:
  "end_of_line t = t\<lparr>cursorX := if cursorX t \<ge> widthChars t then 0 else cursorX t,
     cursorY := if cursorX t \<ge> widthChars t then add32 (cursorY t) 1 else cursorY t\<rparr>"
  by (simp add: end_of_line_def)

lemma PutChar_shows:
  assumes sh: "term_shows f t v" and g: "in_grid t"
  shows "term_shows f (PutChar builtin c t)
           (vt_put builtin (widthChars t) (heightChars t) (colorFG t) (colorBG t) v c)" (is ?A)
    and "in_grid (PutChar builtin c t)" (is ?B)
    and "off_fb f b k \<Longrightarrow> et_px (PutChar builtin c t) b k = et_px t b k"
    and "colorFG (PutChar builtin c t) = colorFG t \<and> colorBG (PutChar builtin c t) = colorBG t \<and>
         widthChars (PutChar builtin c t) = widthChars t \<and> heightChars (PutChar builtin c t) = heightChars t \<and>
         et_enabled (PutChar builtin c t)" (is ?D)
proof -
  let ?t = "put_glyph builtin f c t" and ?v = "vt_write builtin (colorFG t) (colorBG t) c v"
  let ?e = "end_of_line ?t"
  have ok: "term_ok f t" using sh by (cases v) (simp add: term_shows_def)
  then have fb: "fb_ok f" and dim: "widthChars t = fb_width f div 8" "heightChars t = fb_height f div 16"
    by (simp_all add: term_ok_def)
  have xy: "cursorX t < widthChars t" "cursorY t < heightChars t" using g by (simp_all add: in_grid_def)
  note p = put_glyph_shows [OF sh xy, where builtin = builtin and c = c]
  obtain G x y where vw: "?v = (G, x, y)" by (metis prod_cases3)
  have t1: "term_ok f ?t" "cursorX ?t = x" "cursorY ?t = y" "view_ok f (et_px ?t) G"
    using p(1) by (simp_all add: vw term_shows_def)
  have dim1: "widthChars ?t = widthChars t" "heightChars ?t = heightChars t"
    using t1(1) dim by (simp_all add: term_ok_def)
  have "fb_height f div 16 \<le> fb_height f" by simp
  then have y: "y \<le> heightChars t" "y + 1 < u32_limit"
    using p(3) xy dim fb_okD(3,4) [OF fb] fb by (simp_all add: vw fb_ok_def)
  have y1: "add32 y 1 = y + 1" using y(2) by (simp add: wrap_simps)
  have hpos: "0 < heightChars t" "heightChars t < u32_limit" using dim fb_okD(3,6) [OF fb] by (auto intro: le_less_trans [OF div_le_dividend])
  have h1: "sub32 (heightChars t) 1 = heightChars t - 1" using hpos by (simp add: sub32_eq)
  have wpos: "0 < widthChars t" using dim fb_okD(5) [OF fb] by simp
  have pc: "PutChar builtin c t = (if cursorY ?e \<ge> heightChars ?e then (Scroll f ?e)\<lparr>cursorY := sub32 (heightChars ?e) 1\<rparr> else ?e)"
    using ok by (simp add: PutChar_def term_ok_def Let_def)
  have ef: "et_px ?e = et_px ?t" "heightChars ?e = heightChars t" "widthChars ?e = widthChars t" "colorBG ?e = colorBG t"
    "colorFG ?e = colorFG t" "et_fb ?e = Some f" "et_enabled ?e"
    using dim1 p(4,5) t1(1) by (simp_all add: end_of_line_simps term_ok_def)
  have ec: "cursorX ?e = (if x \<ge> widthChars t then 0 else x)" "cursorY ?e = (if x \<ge> widthChars t then y + 1 else y)"
    using dim1 t1 y1 by (simp_all add: end_of_line_simps)
  have eh: "heightChars ?e = fb_height f div 16" using ef dim by simp
  note sc = Scroll_pixels [OF fb eh]
  have sf: "heightChars (Scroll f ?e) = heightChars t" "widthChars (Scroll f ?e) = widthChars t" "colorBG (Scroll f ?e) = colorBG t"
    "colorFG (Scroll f ?e) = colorFG t" "et_fb (Scroll f ?e) = Some f" "et_enabled (Scroll f ?e)" "cursorX (Scroll f ?e) = cursorX ?e"
    using ef by (subst sc(3); simp)+
  have sv: "view_ok f (et_px (Scroll f ?e)) (\<lambda>cx cy. if cy + 1 < heightChars t then G cx (cy + 1) else (\<lambda>_ _. colorBG t))"
    using Scroll_view [OF fb eh, of G] t1(4) unfolding ef(1,4) dim(2) by blast
  show ?A
    using sf sv ef ec t1(4) fb dim h1 unfolding pc vt_put_def vw vt_wrap_def
    by (auto simp: term_shows_def term_ok_def Let_def)
  show ?B using sf ef ec wpos hpos h1 unfolding pc by (auto simp: in_grid_def)
  show "et_px (PutChar builtin c t) b k = et_px t b k" if "off_fb f b k"
    using p(2) [OF that] sc(2) [of b k] that ef(1) unfolding pc off_fb_def by auto
  show ?D using sf ef unfolding pc by auto
qed

section \<open>Properties\<close>

text \<open>C28. Printing a string on a terminal draws what the grid of cells says: characters advance the cursor, a full
  line continues on the next one, the lines move up when the last one is left, backspace blanks the cell
  before the cursor and tabs stop at multiples of four.  Nothing outside the visible part of the frame buffer
  is written, whatever the string, and the cursor stays inside the grid.\<close>

theorem Print_refines_text_screen:
  assumes "term_shows f t v" and "in_grid t"
  shows "term_shows f (Print builtin str t)
           (foldl (vt_put builtin (widthChars t) (heightChars t) (colorFG t) (colorBG t)) v str) \<and>
    in_grid (Print builtin str t) \<and> (\<forall>b k. off_fb f b k \<longrightarrow> et_px (Print builtin str t) b k = et_px t b k)"
proof -
  have "term_shows f (foldl (\<lambda>t c. PutChar builtin c t) t str)
           (foldl (vt_put builtin (widthChars t) (heightChars t) (colorFG t) (colorBG t)) v str) \<and>
    in_grid (foldl (\<lambda>t c. PutChar builtin c t) t str) \<and>
    (\<forall>b k. off_fb f b k \<longrightarrow> et_px (foldl (\<lambda>t c. PutChar builtin c t) t str) b k = et_px t b k)"
    using assms
  proof (induction str arbitrary: t v)
    case Nil
    then show ?case by simp
  next
    case (Cons c cs)
    note p = PutChar_shows [OF Cons.prems, where builtin = builtin and c = c]
    from Cons.IH [OF p(1,2)] p(3,4) show ?case by simp
  qed
  moreover have "et_enabled t" using assms(1) by (cases v) (simp add: term_shows_def term_ok_def)
  ultimately show ?thesis by (simp add: Print_def)
qed

definition demo_fb :: FramebufferInfo where
  "demo_fb = \<lparr>fb_base = 4096, fb_width = 20, fb_height = 40, fb_ppsl = 24, fb_bpp = 4\<rparr>"

definition demo_term :: early_term where
  "demo_term = \<lparr>et_fb = Some demo_fb, cursorX = 1, cursorY = 1, widthChars = 2, heightChars = 2, colorFG = 7, colorBG = 1,
     et_enabled = True, et_px = (\<lambda>_ _. 1)\<rparr>"

theorem Print_refines_text_screen_witness:
  "in_grid (Print (\<lambda>_. 255) ''ab'' demo_term) \<and> et_px (Print (\<lambda>_. 255) ''ab'' demo_term) 4096 960 = 1"
proof -
  have "term_shows demo_fb demo_term ((\<lambda>_ _ _ _. 1), 1, 1)" and "in_grid demo_term"
    by (simp_all add: term_shows_def term_ok_def view_ok_def fb_ok_def demo_fb_def demo_term_def in_grid_def)
  moreover have "off_fb demo_fb 4096 960" by (simp add: off_fb_def demo_fb_def)
  moreover have "et_px demo_term 4096 960 = 1" by (simp add: demo_term_def)
  ultimately show ?thesis using Print_refines_text_screen [of demo_fb demo_term "((\<lambda>_ _ _ _. 1), 1, 1)" "\<lambda>_. 255" "''ab''"] by simp
qed

text \<open>\<^verbatim>\<open>Clear\<close> fills the first \<open>width * height\<close> pixels in a row: when a scan line is longer than the visible
  part it does not reach the last lines of the screen.\<close>

lemma Clear_misses_last_lines:
  assumes "et_fb t = Some f" and "fb_width f * fb_height f \<le> k"
  shows "et_px (et_Clear t) (fb_base f) k = et_px t (fb_base f) k"
proof -
  have "foldl (\<lambda>m i. m(b := (m b)(i := c))) m [0..<n] b k = m b k" if "n \<le> k" for m :: pixels and b c and n :: nat
    using that by (induction n) auto
  then show ?thesis using assms by (simp add: et_Clear_def)
qed

end
