(* ===== verification/Buffer_Manager.thy ===== *)
theory Buffer_Manager
  imports KHeap MMU Graphics Insertion_Sort
begin

text \<open>
  The shared window buffers, \<^verbatim>\<open>kernel/hal/drm/buffer_manager.cpp\<close>: a table of 64 buffers from the kernel heap
  with the producer/consumer flags of their frames.  A pointer to a table entry is its index.  The spin lock
  and the messages are not modelled.  The invariant is established by \<^verbatim>\<open>Init\<close> and kept by every operation.
\<close>

section \<open>State\<close>

record SharedBuffer =
  sb_id :: nat
  sb_width :: nat
  sb_height :: nat
  sb_pitch :: nat
  sb_kernel_addr :: addr
  sb_phys_addr :: nat
  sb_user_addr :: nat
  sb_owner_pid :: nat
  sb_x :: int
  sb_y :: int
  sb_z_order :: nat
  sb_visible :: bool
  sb_ready :: bool
  sb_consumed :: bool
  sb_dirty :: "(int \<times> int \<times> int \<times> int) list"
  sb_dirty_count :: nat
  sb_submit_time :: nat
  sb_display_time :: nat

record bufman =
  bm_buffers :: "SharedBuffer list"
  active_buffer_count :: nat
  next_buffer_id :: nat
  bm_heap :: kheap
  bm_px :: pixels

abbreviation MAX_BUFFERS :: nat where "MAX_BUFFERS \<equiv> 64"

definition upd_buf :: "nat \<Rightarrow> (SharedBuffer \<Rightarrow> SharedBuffer) \<Rightarrow> bufman \<Rightarrow> bufman" where
  "upd_buf i f s = s\<lparr>bm_buffers := (bm_buffers s)[i := f (bm_buffers s ! i)]\<rparr>"

definition bm_Init :: "bufman \<Rightarrow> bufman" where
  "bm_Init s = s\<lparr>bm_buffers := map (\<lambda>b. b\<lparr>sb_id := 0, sb_kernel_addr := 0\<rparr>) (bm_buffers s),
     active_buffer_count := 0, next_buffer_id := 1\<rparr>"

definition bm_Shutdown :: "bufman \<Rightarrow> bufman" where
  "bm_Shutdown s0 =
     (let s = foldl (\<lambda>s i. let b = bm_buffers s ! i
                       in if sb_id b \<noteq> 0 \<and> sb_kernel_addr b \<noteq> 0
                          then upd_buf i (\<lambda>b. b\<lparr>sb_kernel_addr := 0, sb_id := 0\<rparr>) (s\<lparr>bm_heap := kheap_Free (bm_heap s) (sb_kernel_addr b)\<rparr>)
                          else s) s0 [0..<MAX_BUFFERS]
      in s\<lparr>active_buffer_count := 0\<rparr>)"

section \<open>Life of a buffer\<close>

definition CreateBuffer :: "nat \<Rightarrow> nat \<Rightarrow> nat \<Rightarrow> bufman \<Rightarrow> (nat option \<times> bufman) option" where
  "CreateBuffer w h owner s =
     (if w = 0 \<or> h = 0 \<or> w > 4096 \<or> h > 4096 then Some (None, s)
      else if active_buffer_count s \<ge> MAX_BUFFERS then Some (None, s)
      else case first_slot (\<lambda>b. sb_id b = 0) (bm_buffers s) of
          None \<Rightarrow> Some (None, s)
        | Some i \<Rightarrow>
            let pitch = mul32 w 4; sz = pitch * h
            in Option.bind (kheap_Allocate (bm_heap s) sz) (\<lambda>(mem, heap).
                 if mem = 0 then Some (None, s\<lparr>bm_heap := heap\<rparr>)
                 else Some (Some i,
                   (upd_buf i (\<lambda>b. b\<lparr>sb_id := next_buffer_id s, sb_width := w, sb_height := h, sb_pitch := pitch,
                        sb_kernel_addr := mem, sb_phys_addr := 0, sb_user_addr := 0, sb_owner_pid := owner, sb_x := 0,
                        sb_y := 0, sb_z_order := 0, sb_visible := False, sb_ready := False, sb_consumed := True,
                        sb_submit_time := 0, sb_display_time := 0, sb_dirty_count := 0\<rparr>) s)
                     \<lparr>bm_heap := heap, next_buffer_id := add64 (next_buffer_id s) 1,
                      active_buffer_count := add32 (active_buffer_count s) 1,
                      bm_px := (bm_px s)(mem := (\<lambda>k. if k < sz div 4 then 0xFF000000 else bm_px s mem k))\<rparr>)))"

definition DestroyBuffer :: "nat \<Rightarrow> bufman \<Rightarrow> bufman" where
  "DestroyBuffer i s =
     (let b = bm_buffers s ! i
      in if sb_id b = 0 then s
         else let s1 = (if sb_kernel_addr b \<noteq> 0
                        then upd_buf i (\<lambda>b. b\<lparr>sb_kernel_addr := 0\<rparr>) (s\<lparr>bm_heap := kheap_Free (bm_heap s) (sb_kernel_addr b)\<rparr>)
                        else s)
              in (upd_buf i (\<lambda>b. b\<lparr>sb_id := 0\<rparr>) s1)\<lparr>active_buffer_count := sub32 (active_buffer_count s1) 1\<rparr>)"

definition GetBuffer :: "nat \<Rightarrow> bufman \<Rightarrow> nat option" where
  "GetBuffer i s = (if i = 0 then None else first_slot (\<lambda>b. sb_id b = i) (bm_buffers s))"

definition GetBufferByPID :: "nat \<Rightarrow> bufman \<Rightarrow> nat option" where
  "GetBufferByPID pid s = first_slot (\<lambda>b. sb_id b \<noteq> 0 \<and> sb_owner_pid b = pid) (bm_buffers s)"

section \<open>Frames, dirty regions, position\<close>

definition bm_MarkReady :: "nat \<Rightarrow> bufman \<Rightarrow> bufman" where
  "bm_MarkReady i = upd_buf i (\<lambda>b. b\<lparr>sb_ready := True, sb_consumed := False\<rparr>)"

definition MarkConsumed :: "nat \<Rightarrow> bufman \<Rightarrow> bufman" where
  "MarkConsumed i = upd_buf i (\<lambda>b. b\<lparr>sb_consumed := True, sb_ready := False\<rparr>)"

definition IsReady :: "nat \<Rightarrow> bufman \<Rightarrow> bool" where "IsReady i s = sb_ready (bm_buffers s ! i)"
definition IsConsumed :: "nat \<Rightarrow> bufman \<Rightarrow> bool" where "IsConsumed i s = sb_consumed (bm_buffers s ! i)"

definition bm_MarkDirty :: "nat \<Rightarrow> int \<Rightarrow> int \<Rightarrow> int \<Rightarrow> int \<Rightarrow> bufman \<Rightarrow> bufman" where
  "bm_MarkDirty i x y w h =
     upd_buf i (\<lambda>b. if sb_dirty_count b < 8
       then b\<lparr>sb_dirty := (sb_dirty b)[sb_dirty_count b := (x, y, w, h)], sb_dirty_count := sb_dirty_count b + 1\<rparr>
       else b\<lparr>sb_dirty := (sb_dirty b)[0 := (0, 0, i32_of (sb_width b), i32_of (sb_height b))], sb_dirty_count := 1\<rparr>)"

definition bm_ClearDirty :: "nat \<Rightarrow> bufman \<Rightarrow> bufman" where
  "bm_ClearDirty i = upd_buf i (\<lambda>b. b\<lparr>sb_dirty_count := 0\<rparr>)"

definition SetPosition :: "nat \<Rightarrow> int \<Rightarrow> int \<Rightarrow> nat \<Rightarrow> bool \<Rightarrow> bufman \<Rightarrow> bufman" where
  "SetPosition i x y z v = upd_buf i (\<lambda>b. b\<lparr>sb_x := x, sb_y := y, sb_z_order := z, sb_visible := v\<rparr>)"

definition SortBuffersByZ :: "bufman \<Rightarrow> nat list \<Rightarrow> nat list" where
  "SortBuffersByZ s = insertion_sort (\<lambda>i. sb_z_order (bm_buffers s ! i))"

definition GetReadyBuffers :: "nat \<Rightarrow> bufman \<Rightarrow> nat list" where
  "GetReadyBuffers mx s =
     SortBuffersByZ s (take mx (filter (\<lambda>i. let b = bm_buffers s ! i in sb_id b \<noteq> 0 \<and> sb_visible b \<and> sb_ready b) [0..<MAX_BUFFERS]))"

definition GetVisibleBuffers :: "nat \<Rightarrow> bufman \<Rightarrow> nat list" where
  "GetVisibleBuffers mx s =
     SortBuffersByZ s (take mx (filter (\<lambda>i. let b = bm_buffers s ! i in sb_id b \<noteq> 0 \<and> sb_visible b) [0..<MAX_BUFFERS]))"

section \<open>Mapping into a task\<close>

text \<open>The loop over the pages; as in the code, \<^verbatim>\<open>MapPage\<close> gets the physical address as its first argument.\<close>

fun map_buffer_loop :: "addr \<Rightarrow> nat \<Rightarrow> nat \<Rightarrow> nat \<Rightarrow> mmu \<Rightarrow> bool \<times> mmu" where
  "map_buffer_loop k user_base i 0 m = (True, m)"
| "map_buffer_loop k user_base i (Suc n) m =
     (let p = GetPhysical m (word_of_nat (add64 k (i * 4096)))
      in if p = 0 then (False, m)
         else map_buffer_loop k user_base (i + 1) n (snd (MapPage m p (word_of_nat (add64 user_base (i * 4096))) 7)))"

definition MapToUser :: "nat \<Rightarrow> bufman \<Rightarrow> mmu \<Rightarrow> nat \<times> bufman \<times> mmu" where
  "MapToUser i s m =
     (let b = bm_buffers s ! i
      in if sb_kernel_addr b = 0 then (0, s, m)
         else if sb_user_addr b \<noteq> 0 then (sb_user_addr b, s, m)
         else let pages = (sb_pitch b * sb_height b + 4095) div 4096;
                  user_base = add64 0x80000000 (mul64 (sb_id b) 0x1000000);
                  (ok, m1) = map_buffer_loop (sb_kernel_addr b) user_base 0 pages m
              in if \<not> ok then (0, s, m1) else (user_base, upd_buf i (\<lambda>b. b\<lparr>sb_user_addr := user_base\<rparr>) s, m1))"

section \<open>The table and the heap\<close>

lemma upd_buf_simps [simp]:
  "length (bm_buffers (upd_buf i f s)) = length (bm_buffers s)"
  "i < length (bm_buffers s) \<Longrightarrow> bm_buffers (upd_buf i f s) ! j = (if j = i then f (bm_buffers s ! i) else bm_buffers s ! j)"
  "bm_heap (upd_buf i f s) = bm_heap s" "next_buffer_id (upd_buf i f s) = next_buffer_id s"
  "active_buffer_count (upd_buf i f s) = active_buffer_count s" "bm_px (upd_buf i f s) = bm_px s"
  by (simp_all add: upd_buf_def nth_list_update)

definition used_slots :: "bufman \<Rightarrow> nat set" where
  "used_slots s = {i. i < MAX_BUFFERS \<and> sb_id (bm_buffers s ! i) \<noteq> 0}"

definition buf_block :: "SharedBuffer \<Rightarrow> addr \<times> nat" where
  "buf_block b = (sb_kernel_addr b, sb_pitch b * sb_height b)"

definition owns_block :: "kheap \<Rightarrow> SharedBuffer \<Rightarrow> bool" where
  "owns_block h b \<longleftrightarrow> (\<exists>k \<ge> sb_pitch b * sb_height b. (sb_kernel_addr b, k) \<in> heap_live h)"

definition bm_inv :: "bufman \<Rightarrow> bool" where
  "bm_inv s \<longleftrightarrow> length (bm_buffers s) = MAX_BUFFERS \<and> heap_inv (bm_heap s) \<and> active_buffer_count s = card (used_slots s) \<and>
     0 < next_buffer_id s \<and> (\<forall>i \<in> used_slots s. sb_id (bm_buffers s ! i) < next_buffer_id s \<and>
        sb_kernel_addr (bm_buffers s ! i) \<noteq> 0 \<and> owns_block (bm_heap s) (bm_buffers s ! i)) \<and>
     inj_on (\<lambda>i. sb_id (bm_buffers s ! i)) (used_slots s) \<and> inj_on (\<lambda>i. sb_kernel_addr (bm_buffers s ! i)) (used_slots s)"

lemma finite_used [simp]: "finite (used_slots s)"
  by (simp add: used_slots_def)

lemma card_used_le: "card (used_slots s) \<le> MAX_BUFFERS"
proof -
  have "used_slots s \<subseteq> {0..<MAX_BUFFERS}" by (auto simp: used_slots_def)
  from card_mono [OF _ this] show ?thesis by simp
qed

lemma bm_invD:
  assumes "bm_inv s"
  shows "length (bm_buffers s) = MAX_BUFFERS" "heap_inv (bm_heap s)" "active_buffer_count s = card (used_slots s)" "0 < next_buffer_id s"
    "\<And>i. i \<in> used_slots s \<Longrightarrow> sb_id (bm_buffers s ! i) < next_buffer_id s \<and> sb_kernel_addr (bm_buffers s ! i) \<noteq> 0 \<and>
       owns_block (bm_heap s) (bm_buffers s ! i)"
    "inj_on (\<lambda>i. sb_id (bm_buffers s ! i)) (used_slots s)" "inj_on (\<lambda>i. sb_kernel_addr (bm_buffers s ! i)) (used_slots s)"
  using assms by (simp_all add: bm_inv_def)

text \<open>Operations that leave the identity and the block of a buffer alone.\<close>

lemma bm_inv_upd:
  assumes "bm_inv s" and "i < MAX_BUFFERS"
    and "\<And>b. sb_id (f b) = sb_id b \<and> sb_kernel_addr (f b) = sb_kernel_addr b \<and> sb_pitch (f b) = sb_pitch b \<and> sb_height (f b) = sb_height b"
  shows "bm_inv (upd_buf i f s)" "next_buffer_id (upd_buf i f s) = next_buffer_id s"
proof -
  have i: "i < length (bm_buffers s)" using bm_invD(1) [OF assms(1)] assms(2) by simp
  have e: "sb_id (bm_buffers (upd_buf i f s) ! j) = sb_id (bm_buffers s ! j)"
    "sb_kernel_addr (bm_buffers (upd_buf i f s) ! j) = sb_kernel_addr (bm_buffers s ! j)"
    "owns_block h (bm_buffers (upd_buf i f s) ! j) = owns_block h (bm_buffers s ! j)" for j h
    using i assms(3) by (simp_all add: owns_block_def)
  have u: "used_slots (upd_buf i f s) = used_slots s" by (simp add: used_slots_def e)
  show "bm_inv (upd_buf i f s)" using assms(1) by (simp add: bm_inv_def u e)
  show "next_buffer_id (upd_buf i f s) = next_buffer_id s" by simp
qed

lemma CreateBuffer_inv:
  assumes inv: "bm_inv s" and nx: "next_buffer_id s + 1 < u64_limit"
  shows "\<exists>r s'. CreateBuffer w h owner s = Some (r, s') \<and> bm_inv s' \<and> next_buffer_id s' \<le> next_buffer_id s + 1"
proof -
  note I = bm_invD [OF inv]
  show ?thesis
  proof (cases "w = 0 \<or> h = 0 \<or> w > 4096 \<or> h > 4096 \<or> active_buffer_count s \<ge> MAX_BUFFERS \<or>
      first_slot (\<lambda>b. sb_id b = 0) (bm_buffers s) = None")
    case True
    then have "CreateBuffer w h owner s = Some (None, s)" by (auto simp: CreateBuffer_def)
    with inv show ?thesis by simp
  next
    case False
    then obtain i where slot: "first_slot (\<lambda>b. sb_id b = 0) (bm_buffers s) = Some i" by auto
    have i: "i < 64" "sb_id (bm_buffers s ! i) = 0" using first_slot_length [OF slot] first_slot_holds [OF slot] I(1) by simp_all
    then have fresh: "i \<notin> used_slots s" by (simp add: used_slots_def)
    let ?sz = "mul32 w 4 * h"
    have wh: "w \<le> 4096" "h \<le> 4096" using False by auto
    have "mul32 w 4 = w * 4" using wh by (simp add: mul32_def)
    moreover have "w * 4 * h \<le> 16384 * 4096" using mult_le_mono [of "w * 4" 16384 h 4096] wh by simp
    ultimately have sz: "?sz \<le> kheap_max" by simp
    obtain mem heap where al: "kheap_Allocate (bm_heap s) ?sz = Some (mem, heap)" using kheap.alloc_total [OF I(2) sz] by blast
    have h': "heap_inv heap" by (rule kheap.alloc_inv [OF I(2) sz al])
    show ?thesis
    proof (cases "mem = 0")
      case True
      have lv: "heap_live heap = heap_live (bm_heap s)" using kheap.alloc_null [OF I(2) sz] al True by simp
      have "CreateBuffer w h owner s = Some (None, s\<lparr>bm_heap := heap\<rparr>)" using False slot al True by (simp add: CreateBuffer_def Let_def)
      moreover have "bm_inv (s\<lparr>bm_heap := heap\<rparr>)" using inv h' lv by (simp add: bm_inv_def used_slots_def owns_block_def)
      ultimately show ?thesis by simp
    next
      case mem: False
      from kheap.alloc_live [OF I(2) sz al mem] obtain k where k: "mem \<notin> fst ` heap_live (bm_heap s)" "?sz \<le> k"
        "heap_live heap = insert (mem, k) (heap_live (bm_heap s))" by blast
      obtain s' where c: "CreateBuffer w h owner s = Some (Some i, s')" and
        s': "length (bm_buffers s') = 64" "bm_heap s' = heap" "next_buffer_id s' = add64 (next_buffer_id s) 1"
          "active_buffer_count s' = add32 (active_buffer_count s) 1" "\<And>j. j \<noteq> i \<Longrightarrow> bm_buffers s' ! j = bm_buffers s ! j"
          "sb_id (bm_buffers s' ! i) = next_buffer_id s" "sb_kernel_addr (bm_buffers s' ! i) = mem"
          "sb_pitch (bm_buffers s' ! i) * sb_height (bm_buffers s' ! i) = ?sz"
        using False slot al mem I(1) i by (simp add: CreateBuffer_def Let_def)
      have nx': "next_buffer_id s' = next_buffer_id s + 1" using nx s'(3) by (simp add: wrap_simps)
      have u: "used_slots s' = insert i (used_slots s)"
      proof -
        have "j \<in> used_slots s' \<longleftrightarrow> j = i \<or> j \<in> used_slots s" for j
          by (cases "j = i") (use s'(5,6) i I(4) in \<open>simp_all add: used_slots_def\<close>)
        then show ?thesis by blast
      qed
      have cnt: "active_buffer_count s' = card (used_slots s')"
        using s'(4) I(3) u fresh card_used_le [of s] by (simp add: add32_def)
      have old: "bm_buffers s' ! j = bm_buffers s ! j" "sb_id (bm_buffers s ! j) < next_buffer_id s" "sb_kernel_addr (bm_buffers s ! j) \<noteq> 0"
        "owns_block heap (bm_buffers s ! j)" "sb_kernel_addr (bm_buffers s ! j) \<noteq> mem" if "j \<in> used_slots s" for j
      proof -
        show "bm_buffers s' ! j = bm_buffers s ! j" using s'(5) fresh that by metis
        show "sb_id (bm_buffers s ! j) < next_buffer_id s" "sb_kernel_addr (bm_buffers s ! j) \<noteq> 0" using I(5) [OF that] by simp_all
        have o: "owns_block (bm_heap s) (bm_buffers s ! j)" using I(5) [OF that] by simp
        then show "owns_block heap (bm_buffers s ! j)" using k(3) by (auto simp: owns_block_def)
        show "sb_kernel_addr (bm_buffers s ! j) \<noteq> mem" using o k(1) by (force simp: owns_block_def)
      qed
      have "inj_on (\<lambda>i. sb_id (bm_buffers s' ! i)) (used_slots s')" "inj_on (\<lambda>i. sb_kernel_addr (bm_buffers s' ! i)) (used_slots s')"
        unfolding u inj_on_insert using I(6,7) old s'(6,7) fresh by (auto simp: inj_on_def) (metis less_irrefl)+
      moreover have "owns_block heap (bm_buffers s' ! i)" using k s'(7,8) by (auto simp: owns_block_def)
      ultimately have "bm_inv s'"
        unfolding bm_inv_def using s'(1,2,6,7) h' cnt nx' old mem u I(4) by (auto intro: less_SucI)
      with c nx' show ?thesis by auto
    qed
  qed
qed

lemma DestroyBuffer_inv:
  assumes inv: "bm_inv s" and i: "i < MAX_BUFFERS"
  shows "bm_inv (DestroyBuffer i s) \<and> next_buffer_id (DestroyBuffer i s) = next_buffer_id s"
proof (cases "sb_id (bm_buffers s ! i) = 0")
  case True
  with inv show ?thesis by (simp add: DestroyBuffer_def)
next
  case False
  note I = bm_invD [OF inv]
  let ?b = "bm_buffers s ! i"
  have iu: "i \<in> used_slots s" using False i by (simp add: used_slots_def)
  have ka: "sb_kernel_addr ?b \<noteq> 0" "owns_block (bm_heap s) ?b" using I(5) [OF iu] by simp_all
  then obtain k where k: "(sb_kernel_addr ?b, k) \<in> heap_live (bm_heap s)" by (auto simp: owns_block_def)
  let ?h = "kheap_Free (bm_heap s) (sb_kernel_addr ?b)"
  note hf = kheap.free_inv [OF I(2) k] kheap.free_live [OF I(2) k]
  obtain s' where d: "DestroyBuffer i s = s'" and
    s': "length (bm_buffers s') = 64" "bm_heap s' = ?h" "next_buffer_id s' = next_buffer_id s"
      "active_buffer_count s' = sub32 (active_buffer_count s) 1" "\<And>j. j \<noteq> i \<Longrightarrow> bm_buffers s' ! j = bm_buffers s ! j"
      "sb_id (bm_buffers s' ! i) = 0"
    using False ka I(1) i by (simp add: DestroyBuffer_def Let_def)
  have u: "used_slots s' = used_slots s - {i}"
  proof -
    have "j \<in> used_slots s' \<longleftrightarrow> j \<noteq> i \<and> j \<in> used_slots s" for j
      by (cases "j = i") (use s'(5,6) in \<open>simp_all add: used_slots_def\<close>)
    then show ?thesis by blast
  qed
  have "0 < card (used_slots s)" using iu by (auto simp: card_gt_0_iff)
  then have cnt: "active_buffer_count s' = card (used_slots s')"
    using s'(4) I(3) u iu card_used_le [of s] by (simp add: sub32_eq)
  have old: "bm_buffers s' ! j = bm_buffers s ! j" "owns_block ?h (bm_buffers s ! j)" if j: "j \<in> used_slots s - {i}" for j
  proof -
    show "bm_buffers s' ! j = bm_buffers s ! j" using s'(5) j by simp
    have "sb_kernel_addr (bm_buffers s ! j) \<noteq> sb_kernel_addr ?b" using I(7) iu j by (auto simp: inj_on_def)
    then show "owns_block ?h (bm_buffers s ! j)" using I(5) [of j] j hf(2) by (auto simp: owns_block_def)
  qed
  have "inj_on (\<lambda>i. sb_id (bm_buffers s' ! i)) (used_slots s')" "inj_on (\<lambda>i. sb_kernel_addr (bm_buffers s' ! i)) (used_slots s')"
    unfolding u using I(6,7) old(1) by (simp_all add: inj_on_def)
  then have "bm_inv s'" unfolding bm_inv_def using s'(1,2,3) hf(1) cnt I(4,5) old u by auto
  with d s'(3) show ?thesis by simp
qed

section \<open>Properties\<close>

datatype bm_op = BCreate nat nat nat | BDestroy nat | BReady nat | BConsumed nat | BDirty nat int int int int | BClear nat
  | BPlace nat int int nat bool

fun bm_step :: "bm_op \<Rightarrow> bufman \<Rightarrow> bufman option" where
  "bm_step (BCreate w h owner) s = map_option snd (CreateBuffer w h owner s)"
| "bm_step (BDestroy i) s = Some (if i < MAX_BUFFERS then DestroyBuffer i s else s)"
| "bm_step (BReady i) s = Some (if i < MAX_BUFFERS then bm_MarkReady i s else s)"
| "bm_step (BConsumed i) s = Some (if i < MAX_BUFFERS then MarkConsumed i s else s)"
| "bm_step (BDirty i x y w h) s = Some (if i < MAX_BUFFERS then bm_MarkDirty i x y w h s else s)"
| "bm_step (BClear i) s = Some (if i < MAX_BUFFERS then bm_ClearDirty i s else s)"
| "bm_step (BPlace i x y z v) s = Some (if i < MAX_BUFFERS then SetPosition i x y z v s else s)"

fun run_bm :: "bm_op list \<Rightarrow> bufman \<Rightarrow> bufman option" where
  "run_bm [] s = Some s"
| "run_bm (p # ps) s = Option.bind (bm_step p s) (run_bm ps)"

lemma bm_step_inv:
  assumes "bm_inv s" and "next_buffer_id s + 1 < u64_limit"
  shows "\<exists>s'. bm_step p s = Some s' \<and> bm_inv s' \<and> next_buffer_id s' \<le> next_buffer_id s + 1"
proof (cases p)
  case (BCreate w h owner)
  then show ?thesis using CreateBuffer_inv [OF assms, of w h owner] by auto
next
  case (BDestroy i)
  then show ?thesis using DestroyBuffer_inv [OF assms(1), of i] assms(1) by simp
next
  case (BReady i)
  then show ?thesis using bm_inv_upd [OF assms(1), of i] assms(1) by (simp add: bm_MarkReady_def)
next
  case (BConsumed i)
  then show ?thesis using bm_inv_upd [OF assms(1), of i] assms(1) by (simp add: MarkConsumed_def)
next
  case (BDirty i x y w h)
  then show ?thesis using bm_inv_upd [OF assms(1), of i] assms(1) by (simp add: bm_MarkDirty_def)
next
  case (BClear i)
  then show ?thesis using bm_inv_upd [OF assms(1), of i] assms(1) by (simp add: bm_ClearDirty_def)
next
  case (BPlace i x y z v)
  then show ?thesis using bm_inv_upd [OF assms(1), of i] assms(1) by (simp add: SetPosition_def)
qed

lemma bm_Init_inv:
  assumes "length (bm_buffers s) = MAX_BUFFERS" and "heap_inv (bm_heap s)"
  shows "bm_inv (bm_Init s)"
proof -
  have "used_slots (bm_Init s) = {}" using assms(1) by (auto simp: used_slots_def bm_Init_def)
  with assms show ?thesis by (simp add: bm_inv_def) (simp add: bm_Init_def)
qed

lemma run_bm_inv:
  assumes "bm_inv s" and "next_buffer_id s + length ps < u64_limit"
  shows "\<exists>s'. run_bm ps s = Some s' \<and> bm_inv s' \<and>
    (\<forall>i \<in> used_slots s'. \<forall>j \<in> used_slots s'. i \<noteq> j \<longrightarrow>
       \<not> overlap (buf_block (bm_buffers s' ! i)) (buf_block (bm_buffers s' ! j)))"
  using assms
proof (induction ps arbitrary: s)
  case Nil
  note I = bm_invD [OF Nil.prems(1)]
  have "\<not> overlap (buf_block (bm_buffers s ! i)) (buf_block (bm_buffers s ! j))"
    if ij: "i \<in> used_slots s" "j \<in> used_slots s" "i \<noteq> j" for i j
  proof -
    let ?b = "bm_buffers s ! i" and ?c = "bm_buffers s ! j"
    obtain k l where kl: "(sb_kernel_addr ?b, k) \<in> heap_live (bm_heap s)" "(sb_kernel_addr ?c, l) \<in> heap_live (bm_heap s)"
      "sb_pitch ?b * sb_height ?b \<le> k" "sb_pitch ?c * sb_height ?c \<le> l" using I(5) [OF ij(1)] I(5) [OF ij(2)] unfolding owns_block_def by blast
    have "sb_kernel_addr ?b \<noteq> sb_kernel_addr ?c" using I(7) ij by (auto simp: inj_on_def)
    then have "\<not> overlap (sb_kernel_addr ?b, k) (sb_kernel_addr ?c, l)"
      using pairwise_disjointD [OF kheap.disjoint [OF I(2)] kl(1,2)] by simp
    then show ?thesis using kl(3,4) by (auto simp: overlap_def buf_block_def)
  qed
  with Nil.prems show ?case by simp
next
  case (Cons p ps)
  obtain s1 where s1: "bm_step p s = Some s1" "bm_inv s1" "next_buffer_id s1 \<le> next_buffer_id s + 1"
    using bm_step_inv [OF Cons.prems(1), of p] Cons.prems(2) by auto
  have "next_buffer_id s1 + length ps < u64_limit" using s1(3) Cons.prems(2) by simp
  from Cons.IH [OF s1(2) this] s1(1) show ?case by simp
qed

text \<open>C29. From \<^verbatim>\<open>Init\<close>, over any sequence of fewer than \<open>2 ^ 64 - 1\<close> buffer operations every operation returns, the
  table keeps its invariant (each buffer in use owns a heap block of its size), the counter
  is the number of buffers in use, their ids are distinct and not 0, and the pixels
  of two buffers in use never overlap.\<close>

theorem shared_buffers_never_overlap:
  assumes "length (bm_buffers s) = MAX_BUFFERS" and "heap_inv (bm_heap s)" and "1 + length ps < u64_limit"
  shows "\<exists>s'. run_bm ps (bm_Init s) = Some s' \<and> bm_inv s' \<and>
    active_buffer_count s' = card {i. i < MAX_BUFFERS \<and> sb_id (bm_buffers s' ! i) \<noteq> 0} \<and>
    (\<forall>i \<in> used_slots s'. \<forall>j \<in> used_slots s'. i \<noteq> j \<longrightarrow>
       sb_id (bm_buffers s' ! i) \<noteq> sb_id (bm_buffers s' ! j) \<and>
       \<not> overlap (buf_block (bm_buffers s' ! i)) (buf_block (bm_buffers s' ! j)))"
proof -
  have "next_buffer_id (bm_Init s) + length ps < u64_limit" using assms(3) by (simp add: bm_Init_def)
  from run_bm_inv [OF bm_Init_inv [OF assms(1,2)] this] obtain s' where r: "run_bm ps (bm_Init s) = Some s'" "bm_inv s'"
    "\<forall>i \<in> used_slots s'. \<forall>j \<in> used_slots s'. i \<noteq> j \<longrightarrow>
       \<not> overlap (buf_block (bm_buffers s' ! i)) (buf_block (bm_buffers s' ! j))" by blast
  have "active_buffer_count s' = card {i. i < MAX_BUFFERS \<and> sb_id (bm_buffers s' ! i) \<noteq> 0}"
    using bm_invD(3) [OF r(2)] by (simp only: used_slots_def)
  moreover have "\<forall>i \<in> used_slots s'. \<forall>j \<in> used_slots s'. i \<noteq> j \<longrightarrow> sb_id (bm_buffers s' ! i) \<noteq> sb_id (bm_buffers s' ! j)"
    using bm_invD(6) [OF r(2)] by (auto simp: inj_on_def)
  ultimately show ?thesis using r by blast
qed

definition empty_bufman :: bufman where
  "empty_bufman = \<lparr>bm_buffers = replicate 64 \<lparr>sb_id = 0, sb_width = 0, sb_height = 0, sb_pitch = 0, sb_kernel_addr = 0, sb_phys_addr = 0,
       sb_user_addr = 0, sb_owner_pid = 0, sb_x = 0, sb_y = 0, sb_z_order = 0, sb_visible = False, sb_ready = False, sb_consumed = False,
       sb_dirty = replicate 8 (0, 0, 0, 0), sb_dirty_count = 0, sb_submit_time = 0, sb_display_time = 0\<rparr>,
     active_buffer_count = 0, next_buffer_id = 1, bm_heap = kheap_Init (\<lambda>_. undefined) 4096 65536, bm_px = (\<lambda>_ _. 0)\<rparr>"

lemma empty_bufman_inv: "bm_inv empty_bufman"
proof -
  have u: "used_slots empty_bufman = {}" by (auto simp: used_slots_def empty_bufman_def)
  have "heap_inv (kheap_Init (\<lambda>_. undefined) 4096 65536)"
    using kheap_Init_ok [of 4096 65536 "\<lambda>_. undefined"] heap_ok_inv by auto
  then show ?thesis by (simp add: bm_inv_def u) (simp add: empty_bufman_def)
qed

theorem shared_buffers_never_overlap_witness:
  "\<exists>s'. run_bm [BCreate 8 8 1, BCreate 4 4 2, BDestroy 0] (bm_Init empty_bufman) = Some s' \<and> bm_inv s'"
proof -
  have l: "length (bm_buffers empty_bufman) = MAX_BUFFERS" "heap_inv (bm_heap empty_bufman)"
    using bm_invD(1,2) [OF empty_bufman_inv] by simp_all
  have "1 + length [BCreate 8 8 1, BCreate 4 4 2, BDestroy 0] < u64_limit" by simp
  from shared_buffers_never_overlap [OF l this] show ?thesis by blast
qed

text \<open>\<^verbatim>\<open>MapToUser\<close> passes the physical address as the virtual one: for a buffer of one page it returns
  \<^verbatim>\<open>user_base\<close>, but what the page tables now translate is the buffer's physical address, to \<^verbatim>\<open>user_base\<close>; an
  address in another page, \<^verbatim>\<open>user_base\<close> included, translates as before.\<close>

lemma MapToUser_swaps_arguments:
  assumes wf: "pt_wf m L" and b: "b = bm_buffers s ! i" "sb_kernel_addr b \<noteq> 0" "sb_user_addr b = 0"
    and page: "0 < sb_pitch b * sb_height b" "sb_pitch b * sb_height b \<le> 4096"
    and p: "p = GetPhysical m (word_of_nat (sb_kernel_addr b mod u64_limit))" "p \<noteq> 0"
    and u: "u = add64 0x80000000 (mul64 (sb_id b) 0x1000000)"
    and ok: "MapPage m p (word_of_nat u) 7 = (True, m')"
  shows "fst (MapToUser i s m) = u \<and> snd (snd (MapToUser i s m)) = m' \<and>
    GetPhysical m' p = (word_of_nat u AND PTE_ADDR_MASK) OR (p AND 0xFFF) \<and>
    (\<forall>v sl. leaf_slot m v = Some sl \<longrightarrow> leaf_slot m' p \<noteq> Some sl \<longrightarrow> GetPhysical m' v = GetPhysical m v)"
proof -
  have pages: "(sb_pitch b * sb_height b + 4095) div 4096 = 1" using page by (intro div_nat_eqI) simp_all
  have a0: "add64 (sb_kernel_addr b) 0 = sb_kernel_addr b mod u64_limit" "add64 u 0 = u" by (simp_all add: add64_def u)
  have "map_buffer_loop (sb_kernel_addr b) u 0 (Suc 0) m = (True, m')"
    using p ok by (simp add: a0 Let_def)
  then have "fst (MapToUser i s m) = u \<and> snd (snd (MapToUser i s m)) = m'"
    using b pages by (simp add: MapToUser_def Let_def u)
  with MapPage_effect [OF wf ok] show ?thesis by simp
qed

end
