(* ===== verification/Drm.thy ===== *)
theory Drm
  imports Buffer_Manager Bounded_Fifo
begin

text \<open>
  The display manager, \<^verbatim>\<open>kernel/hal/drm/drm.cpp\<close>: the compositor's buffer, the dirty regions, presenting them on the
  screen, the queue of display events and the frame buffers.  Pixels are blocks of the pixel memory that the
  buffer manager's state carries, together with the kernel heap.  Ports are sequences of the values they return;
  the time is an argument.  Sums of coordinates are 32-bit sums (\<open>wrap32\<close>).
\<close>

section \<open>State\<close>

datatype PixelFormat = FORMAT_ARGB8888 | FORMAT_XRGB8888 | FORMAT_RGB888
datatype BufferMode = DOUBLE_BUFFER | TRIPLE_BUFFER

record Framebuffer =
  fr_id :: nat
  fr_width :: nat
  fr_height :: nat
  fr_pitch :: nat
  fr_format :: PixelFormat
  fr_buffer :: addr
  fr_phys_addr :: nat
  fr_owner_pid :: nat
  fr_ready :: bool
  fr_displayed :: bool

text \<open>A pointer to a frame buffer is its index in the table.\<close>

record CRTC =
  ct_id :: nat
  front_fb :: "nat option"
  back_fb :: "nat option"
  render_fb :: "nat option"
  ct_width :: nat
  ct_height :: nat
  refresh_hz :: nat
  vsync_enabled :: bool
  vblank_count :: nat
  buffer_mode :: BufferMode
  last_frame_time_us :: nat
  avg_frame_time_us :: nat

record DRect =
  dx_x :: int
  dx_y :: int
  dx_w :: int
  dx_h :: int
  dx_active :: bool

record UapiEvent =
  ue_type :: nat
  ue_flags :: nat
  ue_sequence :: nat
  ue_timestamp :: nat

record drm =
  d_bm :: bufman
  framebuffers :: "Framebuffer list"
  framebuffer_count :: nat
  next_fb_id :: nat
  d_crtc :: CRTC
  crtc_count :: nat
  primary_crtc :: bool
  compositor_buffer :: addr
  vram_buffer :: addr
  screen_width :: nat
  screen_height :: nat
  screen_pitch :: nat
  d_rects :: "DRect list"
  dirty_count :: nat
  full_dirty :: bool
  uapi_events :: "UapiEvent list"
  uapi_event_head :: nat
  uapi_event_tail :: nat
  uapi_event_count :: nat
  last_vblank_sequence :: nat
  last_flip_sequence :: nat
  gpu_enabled :: bool

abbreviation MAX_FRAMEBUFFERS :: nat where "MAX_FRAMEBUFFERS \<equiv> 64"
abbreviation MAX_DRECTS :: nat where "MAX_DRECTS \<equiv> 16"
abbreviation MAX_UAPI_EVENTS :: nat where "MAX_UAPI_EVENTS \<equiv> 128"

abbreviation d_px :: "drm \<Rightarrow> pixels" where "d_px s \<equiv> bm_px (d_bm s)"

definition d_draw :: "(pixels \<Rightarrow> pixels) \<Rightarrow> drm \<Rightarrow> drm" where
  "d_draw f s = s\<lparr>d_bm := (d_bm s)\<lparr>bm_px := f (bm_px (d_bm s))\<rparr>\<rparr>"

definition d_set_heap :: "kheap \<Rightarrow> drm \<Rightarrow> drm" where
  "d_set_heap h s = s\<lparr>d_bm := (d_bm s)\<lparr>bm_heap := h\<rparr>\<rparr>"

section \<open>Frame buffers\<close>

definition CreateFramebuffer :: "nat \<Rightarrow> nat \<Rightarrow> PixelFormat \<Rightarrow> nat \<Rightarrow> drm \<Rightarrow> (nat option \<times> drm) option" where
  "CreateFramebuffer w h format owner s =
     (if framebuffer_count s \<ge> MAX_FRAMEBUFFERS then Some (None, s)
      else case first_slot (\<lambda>b. fr_id b = 0) (framebuffers s) of
          None \<Rightarrow> Some (None, s)
        | Some i \<Rightarrow>
            let bpp = (if format = FORMAT_RGB888 then 3 else 4); pitch = mul32 w bpp
            in Option.bind (kheap_Allocate (bm_heap (d_bm s)) (pitch * h)) (\<lambda>(buffer, heap).
                 let s1 = d_set_heap heap s
                 in if buffer = 0 then Some (None, s1)
                    else Some (Some i, s1\<lparr>framebuffers := (framebuffers s)[i :=
                           \<lparr>fr_id = next_fb_id s, fr_width = w, fr_height = h, fr_pitch = pitch, fr_format = format, fr_buffer = buffer,
                            fr_phys_addr = 0, fr_owner_pid = owner, fr_ready = False, fr_displayed = False\<rparr>],
                         next_fb_id := add64 (next_fb_id s) 1, framebuffer_count := add32 (framebuffer_count s) 1\<rparr>)))"

definition DestroyFramebuffer :: "nat \<Rightarrow> drm \<Rightarrow> drm" where
  "DestroyFramebuffer i s =
     (let fb = framebuffers s ! i
      in if fr_id fb = 0 then s
         else let s1 = (if fr_buffer fb \<noteq> 0 \<and> fr_buffer fb \<noteq> compositor_buffer s
                        then d_set_heap (kheap_Free (bm_heap (d_bm s)) (fr_buffer fb)) s else s)
              in s1\<lparr>framebuffers := (framebuffers s)[i := fb\<lparr>fr_id := 0, fr_buffer := 0\<rparr>],
                    framebuffer_count := sub32 (framebuffer_count s) 1\<rparr>)"

definition GetFramebuffer :: "nat \<Rightarrow> drm \<Rightarrow> nat option" where
  "GetFramebuffer i s = first_slot (\<lambda>b. fr_id b = i) (framebuffers s)"

definition drm_MarkReady :: "nat option \<Rightarrow> drm \<Rightarrow> drm" where
  "drm_MarkReady fb s =
     (case fb of None \<Rightarrow> s | Some i \<Rightarrow> s\<lparr>framebuffers := (framebuffers s)[i := (framebuffers s ! i)\<lparr>fr_ready := True\<rparr>]\<rparr>)"

section \<open>Initialisation\<close>

definition drm_Init :: "addr \<Rightarrow> nat \<Rightarrow> nat \<Rightarrow> nat \<Rightarrow> drm \<Rightarrow> drm option" where
  "drm_Init vram width height pitch s0 =
     (let s = s0\<lparr>d_bm := bm_Init (d_bm s0), vram_buffer := vram, screen_width := width, screen_height := height, screen_pitch := pitch\<rparr>
      in Option.bind (kheap_Allocate (bm_heap (d_bm s)) (mul64 (mul64 width height) 4)) (\<lambda>(buf, heap).
           let s1 = (d_set_heap heap s)\<lparr>compositor_buffer := buf\<rparr>
           in if buf = 0 then Some s1
              else
                let s2 = d_draw (\<lambda>m. m(buf := (\<lambda>k. if k < mul32 width height then 0xFF181818 else m buf k))) s1;
                    s3 = s2\<lparr>primary_crtc := True,
                           d_crtc := (d_crtc s2)\<lparr>ct_id := 1, ct_width := width, ct_height := height, refresh_hz := 60, vsync_enabled := True,
                              vblank_count := 0, buffer_mode := DOUBLE_BUFFER, last_frame_time_us := 0, avg_frame_time_us := 8000\<rparr>\<rparr>
                in Option.bind (CreateFramebuffer width height FORMAT_ARGB8888 0 s3) (\<lambda>(fb, s4).
                     let s5 = (case fb of None \<Rightarrow> s4
                               | Some i \<Rightarrow> s4\<lparr>framebuffers := (framebuffers s4)[i := (framebuffers s4 ! i)\<lparr>fr_buffer := buf\<rparr>]\<rparr>)
                     in Some (s5\<lparr>d_crtc := (d_crtc s5)\<lparr>front_fb := fb, back_fb := None, render_fb := None\<rparr>, crtc_count := 1,
                            gpu_enabled := False, full_dirty := True, dirty_count := 0,
                            d_rects := map (\<lambda>r. r\<lparr>dx_active := False\<rparr>) (d_rects s5)\<rparr>))))"

definition drm_Shutdown :: "drm \<Rightarrow> drm" where
  "drm_Shutdown s =
     (let s1 = (if compositor_buffer s \<noteq> 0
                then (d_set_heap (kheap_Free (bm_heap (d_bm s)) (compositor_buffer s)) s)\<lparr>compositor_buffer := 0\<rparr> else s)
      in s1\<lparr>framebuffer_count := 0, crtc_count := 0, primary_crtc := False\<rparr>)"

section \<open>Display events\<close>

definition QueueUapiEventLocked :: "nat \<Rightarrow> nat \<Rightarrow> nat \<Rightarrow> nat \<Rightarrow> drm \<Rightarrow> drm" where
  "QueueUapiEventLocked ticks ty flags sequence s =
     (let s1 = (if uapi_event_count s = MAX_UAPI_EVENTS
                then s\<lparr>uapi_event_tail := (uapi_event_tail s + 1) mod MAX_UAPI_EVENTS, uapi_event_count := uapi_event_count s - 1\<rparr> else s)
      in s1\<lparr>uapi_events := (uapi_events s1)[uapi_event_head s1 :=
               \<lparr>ue_type = ty, ue_flags = flags, ue_sequence = sequence, ue_timestamp = ticks\<rparr>],
             uapi_event_head := (uapi_event_head s1 + 1) mod MAX_UAPI_EVENTS, uapi_event_count := uapi_event_count s1 + 1\<rparr>)"

definition PollUapiEvent :: "drm \<Rightarrow> (UapiEvent \<times> drm) option" where
  "PollUapiEvent s =
     (if uapi_event_count s = 0 then None
      else Some (uapi_events s ! uapi_event_tail s,
             s\<lparr>uapi_event_tail := (uapi_event_tail s + 1) mod MAX_UAPI_EVENTS, uapi_event_count := uapi_event_count s - 1\<rparr>))"

record UapiCaps =
  uc_major :: nat
  uc_minor :: nat
  uc_flags :: nat
  uc_max_width :: nat
  uc_max_height :: nat
  uc_preferred_format :: nat
  uc_formats_mask :: nat
  uc_reserved :: nat

definition GetUapiCaps :: "drm \<Rightarrow> UapiCaps" where
  "GetUapiCaps s =
     \<lparr>uc_major = 1, uc_minor = 0, uc_flags = 1 + 2 + 4 + 8 + 16, uc_max_width = screen_width s, uc_max_height = screen_height s,
      uc_preferred_format = 1, uc_formats_mask = 1 + 2 + 4, uc_reserved = 0\<rparr>"

section \<open>Waiting for the retrace\<close>

text \<open>\<^verbatim>\<open>while (test(inb(0x3DA)) && --timeout) pause;\<close> on the sequence \<open>test\<close> of outcomes from the \<open>k\<close>-th read on;
  the result is the number of reads so far.\<close>

fun wait_phase :: "(nat \<Rightarrow> bool) \<Rightarrow> nat \<Rightarrow> nat \<Rightarrow> nat" where
  "wait_phase test k 0 = k + 1"
| "wait_phase test k (Suc timeout) = (if test k \<and> timeout \<noteq> 0 then wait_phase test (k + 1) timeout else k + 1)"

definition WaitVBlankVGA :: "(nat \<Rightarrow> u8) \<Rightarrow> nat" where
  "WaitVBlankVGA port = wait_phase (\<lambda>k. port k AND 8 = 0) (wait_phase (\<lambda>k. port k AND 8 \<noteq> 0) 0 2000) 50000"

text \<open>Waiting changes nothing in the state.\<close>

definition PageFlip :: "bool \<Rightarrow> nat option \<Rightarrow> drm \<Rightarrow> bool \<times> drm" where
  "PageFlip crtc fb s =
     (if \<not> crtc \<or> fb = None then (False, s)
      else (True, s\<lparr>d_crtc := (d_crtc s)\<lparr>front_fb := fb, vblank_count := add64 (vblank_count (d_crtc s)) 1\<rparr>\<rparr>))"

definition GetVBlankCount :: "bool \<Rightarrow> drm \<Rightarrow> nat" where
  "GetVBlankCount crtc s = (if crtc then vblank_count (d_crtc s) else 0)"

section \<open>Drawing into the compositor's buffer\<close>

definition drm_Blit :: "addr \<Rightarrow> nat \<Rightarrow> nat \<Rightarrow> int \<Rightarrow> int \<Rightarrow> bool \<Rightarrow> drm \<Rightarrow> drm" where
  "drm_Blit src src_w src_h dst_x dst_y blend s =
     (if src = 0 \<or> compositor_buffer s = 0 then s
      else let W = screen_width s; b = compositor_buffer s;
               start_x = (if dst_x < 0 then - dst_x else 0); start_y = (if dst_y < 0 then - dst_y else 0);
               end_x = (if dst_x + i32_of src_w > i32_of W then i32_of W - dst_x else i32_of src_w);
               end_y = (if dst_y + i32_of src_h > i32_of (screen_height s) then i32_of (screen_height s) - dst_y else i32_of src_h)
           in if end_x \<le> start_x \<or> end_y \<le> start_y then s
              else if blend
              then d_draw (\<lambda>m. foldl (\<lambda>m y. foldl (\<lambda>m x.
                     let p = m src (idx32 src_w (u32_of x) (u32_of y)); k = idx32 W (u32_of (dst_x + x)) (u32_of (dst_y + y))
                     in m(b := (m b)(k := BlendPixelRaw (m b k) p))) m [start_x..end_x - 1]) m [start_y..end_y - 1]) s
              else d_draw (\<lambda>m. foldl (\<lambda>m y.
                     blit_fast_32 b (add32 (mul32 (u32_of (dst_y + y)) W) (u32_of (dst_x + start_x))) src
                       (idx32 src_w (u32_of start_x) (u32_of y)) (nat (end_x - start_x)) m) m [start_y..end_y - 1]) s)"

section \<open>Dirty regions and presenting\<close>

definition drm_MarkDirty :: "int \<Rightarrow> int \<Rightarrow> int \<Rightarrow> int \<Rightarrow> drm \<Rightarrow> drm" where
  "drm_MarkDirty x0 y0 w0 h0 s =
     (let (x, w1) = (if x0 < 0 then (0, wrap32 (w0 + x0)) else (x0, w0));
          (y, h1) = (if y0 < 0 then (0, wrap32 (h0 + y0)) else (y0, h0));
          w = (if wrap32 (x + w1) > i32_of (screen_width s) then wrap32 (i32_of (screen_width s) - x) else w1);
          h = (if wrap32 (y + h1) > i32_of (screen_height s) then wrap32 (i32_of (screen_height s) - y) else h1)
      in if w \<le> 0 \<or> h \<le> 0 then s
         else if dirty_count s < MAX_DRECTS
         then case first_slot (\<lambda>r. \<not> dx_active r) (d_rects s) of
                None \<Rightarrow> s
              | Some i \<Rightarrow> s\<lparr>d_rects := (d_rects s)[i := \<lparr>dx_x = x, dx_y = y, dx_w = w, dx_h = h, dx_active = True\<rparr>],
                           dirty_count := dirty_count s + 1\<rparr>
         else s\<lparr>full_dirty := True\<rparr>)"

definition drm_ClearDirty :: "drm \<Rightarrow> drm" where
  "drm_ClearDirty s = s\<lparr>d_rects := map (\<lambda>r. r\<lparr>dx_active := False\<rparr>) (d_rects s), dirty_count := 0, full_dirty := False\<rparr>"

definition copy_rect :: "addr \<Rightarrow> addr \<Rightarrow> nat \<Rightarrow> DRect \<Rightarrow> pixels \<Rightarrow> pixels" where
  "copy_rect vram src W r m =
     foldl (\<lambda>m y. let k = idx32 W (u32_of (dx_x r)) (u32_of (dx_y r + int y)) in blit_fast_32 vram k src k (nat (dx_w r)) m)
       m [0..<nat (dx_h r)]"

definition copy_dirty :: "drm \<Rightarrow> pixels \<Rightarrow> pixels" where
  "copy_dirty s m =
     (let v = vram_buffer s; c = compositor_buffer s; W = screen_width s
      in if full_dirty s then blit_fast_32 v 0 c 0 (mul32 W (screen_height s)) m
         else if dirty_count s > 0
         then foldl (\<lambda>m r. if dx_active r then copy_rect v c W r m else m) m (d_rects s)
         else m)"

definition Present :: "nat \<Rightarrow> bool \<Rightarrow> drm \<Rightarrow> bool \<times> drm" where
  "Present ticks vsync s =
     (if compositor_buffer s = 0 \<or> vram_buffer s = 0 then (False, s)
      else let s1 = drm_ClearDirty (d_draw (copy_dirty s) s)
           in (True, if primary_crtc s1
                     then let n = add64 (vblank_count (d_crtc s1)) 1
                          in QueueUapiEventLocked ticks 1 (if vsync then 1 else 0) n
                               (s1\<lparr>d_crtc := (d_crtc s1)\<lparr>vblank_count := n\<rparr>, last_vblank_sequence := n\<rparr>)
                     else s1))"

section \<open>Atomic requests\<close>

record AtomicRequest =
  ar_wait_vsync :: bool
  ar_full_update :: bool
  ar_has_damage :: bool
  ar_x :: int
  ar_y :: int
  ar_w :: nat
  ar_h :: nat

definition NormalizeDamageRect :: "drm \<Rightarrow> AtomicRequest \<Rightarrow> (int \<times> int \<times> nat \<times> nat) option" where
  "NormalizeDamageRect s req =
     (if ar_w req = 0 \<or> ar_h req = 0 then None
      else let W = int (screen_width s); H = int (screen_height s);
               x1 = ar_x req; y1 = ar_y req; x2 = x1 + int (ar_w req); y2 = y1 + int (ar_h req)
           in if x2 \<le> 0 \<or> y2 \<le> 0 \<or> x1 \<ge> W \<or> y1 \<ge> H then None
              else let x1' = (if x1 < 0 then 0 else x1); y1' = (if y1 < 0 then 0 else y1);
                       x2' = (if x2 > W then W else x2); y2' = (if y2 > H then H else y2)
                   in if x2' \<le> x1' \<or> y2' \<le> y1' then None else Some (x1', y1', nat (x2' - x1'), nat (y2' - y1')))"

definition AtomicTest :: "AtomicRequest \<Rightarrow> drm \<Rightarrow> bool" where
  "AtomicTest req s \<longleftrightarrow>
     primary_crtc s \<and> (ar_full_update req \<or> \<not> ar_has_damage req \<or> NormalizeDamageRect s req \<noteq> None)"

definition AtomicCommit :: "nat \<Rightarrow> AtomicRequest \<Rightarrow> drm \<Rightarrow> bool \<times> drm" where
  "AtomicCommit ticks req s =
     (if \<not> AtomicTest req s then (False, s)
      else let s1 = (if ar_full_update req
                     then Some (s\<lparr>full_dirty := True, dirty_count := 0, d_rects := map (\<lambda>r. r\<lparr>dx_active := False\<rparr>) (d_rects s)\<rparr>)
                     else if ar_has_damage req
                     then (case NormalizeDamageRect s req of
                             None \<Rightarrow> None
                           | Some (x, y, w, h) \<Rightarrow> Some (drm_MarkDirty x y (i32_of w) (i32_of h) s))
                     else Some s)
           in case s1 of
                None \<Rightarrow> (False, s)
              | Some s1 \<Rightarrow>
                  let (ok, s2) = Present ticks (ar_wait_vsync req) s1
                  in if \<not> ok then (False, s2)
                     else let n = (if primary_crtc s2 then vblank_count (d_crtc s2) else add64 (last_flip_sequence s2) 1)
                          in (True, QueueUapiEventLocked ticks 2
                               ((if ar_wait_vsync req then 1 else 0) + (if ar_full_update req then 2 else 0)) n
                               (s2\<lparr>last_flip_sequence := n\<rparr>)))"

section \<open>Frame times\<close>

definition RecordFrameTime :: "nat \<Rightarrow> drm \<Rightarrow> drm" where
  "RecordFrameTime render_time s =
     (if \<not> primary_crtc s then s
      else let avg = add64 (mul64 (avg_frame_time_us (d_crtc s)) 7) render_time div 8;
               mode = buffer_mode (d_crtc s);
               mode' = (if avg > 11666 then (if mode = DOUBLE_BUFFER then TRIPLE_BUFFER else mode)
                        else if avg < 6666 then (if mode = TRIPLE_BUFFER then DOUBLE_BUFFER else mode) else mode)
           in s\<lparr>d_crtc := (d_crtc s)\<lparr>last_frame_time_us := render_time, avg_frame_time_us := avg, buffer_mode := mode'\<rparr>\<rparr>)"

definition GetBufferMode :: "drm \<Rightarrow> BufferMode" where
  "GetBufferMode s = (if primary_crtc s then buffer_mode (d_crtc s) else DOUBLE_BUFFER)"

definition SetBufferMode :: "BufferMode \<Rightarrow> drm \<Rightarrow> drm" where
  "SetBufferMode mode s = (if primary_crtc s then s\<lparr>d_crtc := (d_crtc s)\<lparr>buffer_mode := mode\<rparr>\<rparr> else s)"

section \<open>What presenting copies\<close>

definition in_drect :: "nat \<Rightarrow> DRect \<Rightarrow> nat \<Rightarrow> bool" where
  "in_drect W r k \<longleftrightarrow> dx_x r \<le> int (k mod W) \<and> int (k mod W) < dx_x r + dx_w r \<and>
     dx_y r \<le> int (k div W) \<and> int (k div W) < dx_y r + dx_h r"

definition drect_ok :: "nat \<Rightarrow> nat \<Rightarrow> DRect \<Rightarrow> bool" where
  "drect_ok W H r \<longleftrightarrow> 0 \<le> dx_x r \<and> 0 \<le> dx_y r \<and> 0 < dx_w r \<and> 0 < dx_h r \<and> dx_x r + dx_w r \<le> int W \<and> dx_y r + dx_h r \<le> int H"

text \<open>The screen and its compositor buffer are there, and the table of regions is sound.\<close>

definition drm_ok :: "drm \<Rightarrow> bool" where
  "drm_ok s \<longleftrightarrow> 0 < screen_width s \<and> 0 < screen_height s \<and> screen_width s * screen_height s < u32_limit \<and>
     screen_width s < 2147483648 \<and> screen_height s < 2147483648 \<and>
     vram_buffer s \<noteq> 0 \<and> compositor_buffer s \<noteq> 0 \<and> vram_buffer s \<noteq> compositor_buffer s \<and>
     length (d_rects s) = MAX_DRECTS \<and> dirty_count s = count_if dx_active (d_rects s) \<and>
     (\<forall>r \<in> set (d_rects s). dx_active r \<longrightarrow> drect_ok (screen_width s) (screen_height s) r)"

definition marked :: "drm \<Rightarrow> nat \<Rightarrow> bool" where
  "marked s k \<longleftrightarrow> full_dirty s \<or> (\<exists>r \<in> set (d_rects s). dx_active r \<and> in_drect (screen_width s) r k)"

lemma copy_rect_eq:
  fixes m :: pixels
  assumes r: "drect_ok W H r" and W: "0 < W" "W * H < u32_limit" "W < 2147483648" "H < 2147483648" and v: "v \<noteq> c"
  shows "copy_rect v c W r m = m(v := (\<lambda>k. if in_drect W r k then m c k else m v k))"
proof -
  let ?x = "nat (dx_x r)" and ?y = "nat (dx_y r)" and ?w = "nat (dx_w r)" and ?h = "nat (dx_h r)"
  have d: "0 \<le> dx_x r" "0 \<le> dx_y r" "0 < dx_w r" "0 < dx_h r" "dx_x r + dx_w r \<le> int W" "dx_y r + dx_h r \<le> int H"
    using r by (simp_all add: drect_ok_def)
  have xw: "?x + ?w \<le> W" using d by linarith
  have idx: "idx32 W (u32_of (dx_x r)) (u32_of (dx_y r + int iy)) = (?y + iy) * W + ?x" if "iy < ?h" for iy
  proof -
    have "int (?y + iy) = dx_y r + int iy" "int ?x = dx_x r" using d by simp_all
    moreover have lt: "?y + iy < H" "?x < W" using d that by linarith+
    ultimately have "u32_of (dx_y r + int iy) = ?y + iy" "u32_of (dx_x r) = ?x"
      using u32_of_nat [of "?y + iy"] u32_of_nat [of ?x] W by simp_all
    then show ?thesis using idx32_eq [OF lt W(2)] by simp
  qed
  have "copy_rect v c W r m = m(v := foldl (\<lambda>b iy. span ((?y + iy) * W + ?x) ?w (\<lambda>j _. m c ((?y + iy) * W + ?x + j)) b) (m v) [0..<?h])"
    unfolding copy_rect_def by (rule foldl_on_block_from [where s = c, OF _ v refl]) (simp add: idx blit_fast_32_span v Let_def)
  also have "\<dots> = m(v := rect_upd W ?x ?y ?w ?h (\<lambda>iy j _. m c ((?y + iy) * W + ?x + j)) (m v))"
    by (simp add: rect_upd_def)
  also have "rect_upd W ?x ?y ?w ?h (\<lambda>iy j _. m c ((?y + iy) * W + ?x + j)) (m v) = (\<lambda>k. if in_drect W r k then m c k else m v k)"
  proof
    fix k
    have iff: "?x \<le> k mod W \<and> k mod W < ?x + ?w \<and> ?y \<le> k div W \<and> k div W < ?y + ?h \<longleftrightarrow> in_drect W r k"
      using d unfolding in_drect_def by linarith
    have "(?y + (k div W - ?y)) * W + ?x + (k mod W - ?x) = k" if "?y \<le> k div W" "?x \<le> k mod W"
      using that div_mult_mod_eq [of k W] by simp
    then show "rect_upd W ?x ?y ?w ?h (\<lambda>iy j _. m c ((?y + iy) * W + ?x + j)) (m v) k = (if in_drect W r k then m c k else m v k)"
      unfolding rect_upd_pixel [OF xw W(1)] iff [symmetric] by (simp split: if_split)
  qed
  finally show ?thesis .
qed

lemma copy_rects_eq:
  assumes "\<forall>r \<in> set rs. dx_active r \<longrightarrow> drect_ok W H r" and W: "0 < W" "W * H < u32_limit" "W < 2147483648" "H < 2147483648" and v: "v \<noteq> c"
  shows "foldl (\<lambda>m r. if dx_active r then copy_rect v c W r m else m) m rs =
    m(v := (\<lambda>k. if \<exists>r \<in> set rs. dx_active r \<and> in_drect W r k then m c k else m v k))"
  using assms(1)
proof (induction rs arbitrary: m)
  case Nil
  then show ?case by simp
next
  case (Cons r rs)
  let ?m = "if dx_active r then copy_rect v c W r m else m"
  have m: "?m = m(v := (\<lambda>k. if dx_active r \<and> in_drect W r k then m c k else m v k))"
    using Cons.prems copy_rect_eq [OF _ W v, of r m] by auto
  have "foldl (\<lambda>m r. if dx_active r then copy_rect v c W r m else m) m (r # rs) =
      ?m(v := (\<lambda>k. if \<exists>r \<in> set rs. dx_active r \<and> in_drect W r k then ?m c k else ?m v k))"
    unfolding foldl.simps by (rule Cons.IH) (use Cons.prems in simp)
  also have "\<dots> = m(v := (\<lambda>k. if \<exists>r \<in> set (r # rs). dx_active r \<and> in_drect W r k then m c k else m v k))"
    unfolding m using v by (auto simp: fun_eq_iff)
  finally show ?case .
qed

lemma copy_dirty_eq:
  assumes ok: "drm_ok s"
  shows "copy_dirty s m = m(vram_buffer s := (\<lambda>k. if k < screen_width s * screen_height s \<and> marked s k
    then m (compositor_buffer s) k else m (vram_buffer s) k))"
proof -
  let ?W = "screen_width s" and ?H = "screen_height s" and ?v = "vram_buffer s" and ?c = "compositor_buffer s"
  have W: "0 < ?W" "?W * ?H < u32_limit" "?W < 2147483648" "?H < 2147483648" "?v \<noteq> ?c" and
    rs: "\<forall>r \<in> set (d_rects s). dx_active r \<longrightarrow> drect_ok ?W ?H r" and cnt: "dirty_count s = count_if dx_active (d_rects s)"
    using ok by (simp_all add: drm_ok_def)
  show ?thesis
  proof (cases "full_dirty s")
    case True
    have "mul32 ?W ?H = ?W * ?H" using W(2) by (rule mul32_eq)
    moreover have "span 0 n (\<lambda>k _. m ?c (0 + k)) (m ?v) = (\<lambda>k. if k < n then m ?c k else m ?v k)" for n
      by (rule ext) (simp add: span_def)
    ultimately show ?thesis using True unfolding copy_dirty_def Let_def blit_fast_32_span [OF W(5)] by (simp add: marked_def)
  next
    case False
    have inside: "k < ?W * ?H" if "r \<in> set (d_rects s)" "dx_active r" "in_drect ?W r k" for r k
    proof -
      have "k div ?W < ?H" using rs that by (auto simp: drect_ok_def in_drect_def)
      then show ?thesis using W(1) by (simp add: div_less_iff_less_mult mult.commute)
    qed
    have "copy_dirty s m = foldl (\<lambda>m r. if dx_active r then copy_rect ?v ?c ?W r m else m) m (d_rects s)"
    proof (cases "dirty_count s > 0")
      case True
      with False show ?thesis by (simp add: copy_dirty_def Let_def)
    next
      case no: False
      then have "\<forall>r \<in> set (d_rects s). \<not> dx_active r" using cnt by (simp add: count_if_def filter_empty_conv)
      moreover have "\<forall>r \<in> set rs. \<not> dx_active r \<Longrightarrow> foldl (\<lambda>m r. if dx_active r then copy_rect ?v ?c ?W r m else m) m rs = m" for m rs
        by (induction rs) simp_all
      ultimately have "foldl (\<lambda>m r. if dx_active r then copy_rect ?v ?c ?W r m else m) m (d_rects s) = m" by blast
      with False no show ?thesis by (simp add: copy_dirty_def Let_def)
    qed
    also have "\<dots> = m(?v := (\<lambda>k. if \<exists>r \<in> set (d_rects s). dx_active r \<and> in_drect ?W r k then m ?c k else m ?v k))"
      by (rule copy_rects_eq [OF rs W])
    also have "(\<lambda>k. if \<exists>r \<in> set (d_rects s). dx_active r \<and> in_drect ?W r k then m ?c k else m ?v k) =
        (\<lambda>k. if k < ?W * ?H \<and> marked s k then m ?c k else m ?v k)"
      using False inside by (auto simp: marked_def fun_eq_iff)
    finally show ?thesis .
  qed
qed

section \<open>Marking covers what was drawn\<close>

definition in_area :: "nat \<Rightarrow> int \<Rightarrow> int \<Rightarrow> int \<Rightarrow> int \<Rightarrow> nat \<Rightarrow> bool" where
  "in_area W x y w h k \<longleftrightarrow> x \<le> int (k mod W) \<and> int (k mod W) < x + w \<and> y \<le> int (k div W) \<and> int (k div W) < y + h"

lemma count_if_free: "count_if P xs < length xs \<Longrightarrow> \<exists>i. first_slot (\<lambda>x. \<not> P x) xs = Some i"
  using count_if_full [of P xs] first_slot_None [of "\<lambda>x. \<not> P x" xs] by (cases "first_slot (\<lambda>x. \<not> P x) xs") auto

lemma bex_update: "i < length xs \<Longrightarrow> \<not> P (xs ! i) \<Longrightarrow> (\<exists>x \<in> set (xs[i := y]). P x) \<longleftrightarrow> P y \<or> (\<exists>x \<in> set xs. P x)"
  by (induction xs arbitrary: i) (auto split: nat.splits)

lemma drm_MarkDirty_marks:
  assumes ok: "drm_ok s" and span: "span32 x w" "span32 y h"
  shows "drm_ok (drm_MarkDirty x y w h s)" (is ?A)
    and "marked s k \<Longrightarrow> marked (drm_MarkDirty x y w h s) k"
    and "k < screen_width s * screen_height s \<Longrightarrow> in_area (screen_width s) x y w h k \<Longrightarrow> marked (drm_MarkDirty x y w h s) k"
    and "d_bm (drm_MarkDirty x y w h s) = d_bm s \<and> screen_width (drm_MarkDirty x y w h s) = screen_width s \<and>
      screen_height (drm_MarkDirty x y w h s) = screen_height s \<and> vram_buffer (drm_MarkDirty x y w h s) = vram_buffer s \<and>
      compositor_buffer (drm_MarkDirty x y w h s) = compositor_buffer s" (is ?D)
proof -
  let ?W = "screen_width s" and ?H = "screen_height s"
  define x1 w1 y1 h1 where c: "x1 = (if x < 0 then 0 else x)" "w1 = (if x < 0 then w + x else w)"
    "y1 = (if y < 0 then 0 else y)" "h1 = (if y < 0 then h + y else h)"
  define w2 h2 where c2: "w2 = (if x1 + w1 > int ?W then int ?W - x1 else w1)" "h2 = (if y1 + h1 > int ?H then int ?H - y1 else h1)"
  let ?r = "\<lparr>dx_x = x1, dx_y = y1, dx_w = w2, dx_h = h2, dx_active = True\<rparr>"
  have W: "0 < ?W" "?W < 2147483648" "?H < 2147483648" and rs: "length (d_rects s) = MAX_DRECTS"
    "dirty_count s = count_if dx_active (d_rects s)" "\<forall>r \<in> set (d_rects s). dx_active r \<longrightarrow> drect_ok ?W ?H r"
    using ok by (simp_all add: drm_ok_def)
  have i32: "i32_of ?W = int ?W" "i32_of ?H = int ?H" using W by (simp_all add: i32_of_small)
  have eq: "drm_MarkDirty x y w h s =
     (if w2 \<le> 0 \<or> h2 \<le> 0 then s
      else if dirty_count s < MAX_DRECTS
      then case first_slot (\<lambda>r. \<not> dx_active r) (d_rects s) of None \<Rightarrow> s
           | Some i \<Rightarrow> s\<lparr>d_rects := (d_rects s)[i := ?r], dirty_count := dirty_count s + 1\<rparr>
      else s\<lparr>full_dirty := True\<rparr>)"
  proof -
    have "wrap32 (w + x) = w + x" "wrap32 (h + y) = h + y" using span by (simp_all add: span32_def wrap32_id)
    moreover have "x1 + w1 = x + w" "y1 + h1 = y + h" by (simp_all add: c)
    then have "wrap32 (x1 + w1) = x1 + w1" "wrap32 (y1 + h1) = y1 + h1" using span by (simp_all add: span32_def wrap32_id)
    moreover have "0 \<le> x1" "0 \<le> y1" "x1 < 2147483648" "y1 < 2147483648" using span by (simp_all add: c span32_def)
    then have "wrap32 (int ?W - x1) = int ?W - x1" "wrap32 (int ?H - y1) = int ?H - y1" using W by (simp_all add: wrap32_id)
    moreover have "drm_MarkDirty x y w h s =
       (let u1 = (if x < 0 then wrap32 (w + x) else w); v1 = (if y < 0 then wrap32 (h + y) else h);
            w = (if wrap32 (x1 + u1) > int ?W then wrap32 (int ?W - x1) else u1);
            h = (if wrap32 (y1 + v1) > int ?H then wrap32 (int ?H - y1) else v1)
        in if w \<le> 0 \<or> h \<le> 0 then s
           else if dirty_count s < MAX_DRECTS
           then case first_slot (\<lambda>r. \<not> dx_active r) (d_rects s) of None \<Rightarrow> s
                | Some i \<Rightarrow> s\<lparr>d_rects := (d_rects s)[i := \<lparr>dx_x = x1, dx_y = y1, dx_w = w, dx_h = h, dx_active = True\<rparr>],
                            dirty_count := dirty_count s + 1\<rparr>
           else s\<lparr>full_dirty := True\<rparr>)"
      unfolding drm_MarkDirty_def i32 c by (cases "x < 0"; cases "y < 0") (simp_all only: if_True if_False Let_def prod.case)
    ultimately show ?thesis by (simp only: c(2,4) [symmetric] c2 [symmetric] Let_def)
  qed
  have area: "in_area ?W x y w h k \<Longrightarrow> k < ?W * ?H \<Longrightarrow> 0 < w2 \<and> 0 < h2 \<and> in_drect ?W ?r k" for k
  proof -
    assume a: "in_area ?W x y w h k" "k < ?W * ?H"
    have "k mod ?W < ?W" "k div ?W < ?H" using W(1) a(2) by (simp_all add: div_less_iff_less_mult mult.commute)
    then show "0 < w2 \<and> 0 < h2 \<and> in_drect ?W ?r k" using a(1) unfolding c c2 in_area_def in_drect_def by auto
  qed
  show ?D unfolding eq by (auto split: option.splits)
  show ?A
  proof (cases "w2 \<le> 0 \<or> h2 \<le> 0 \<or> \<not> dirty_count s < MAX_DRECTS")
    case True
    with ok show ?thesis unfolding eq by (auto simp: drm_ok_def)
  next
    case False
    then obtain i where i: "first_slot (\<lambda>r. \<not> dx_active r) (d_rects s) = Some i"
      using count_if_free [of dx_active "d_rects s"] rs by auto
    have il: "i < length (d_rects s)" "\<not> dx_active (d_rects s ! i)" using first_slot_length [OF i] first_slot_holds [OF i] by simp_all
    have "drect_ok ?W ?H ?r" using False unfolding drect_ok_def c c2 by auto
    then have "\<forall>r \<in> set ((d_rects s)[i := ?r]). dx_active r \<longrightarrow> drect_ok ?W ?H r"
      using rs(3) set_update_subset_insert [of "d_rects s" i ?r] by auto
    then show ?thesis using False ok i il rs(1,2) count_if_set [OF il(1), of dx_active ?r] unfolding eq by (simp add: drm_ok_def)
  qed
  have slots: "(\<exists>r \<in> set ((d_rects s)[i := ?r]). dx_active r \<and> in_drect ?W r k) \<longleftrightarrow>
      in_drect ?W ?r k \<or> (\<exists>r \<in> set (d_rects s). dx_active r \<and> in_drect ?W r k)"
    if "first_slot (\<lambda>r. \<not> dx_active r) (d_rects s) = Some i" for i k
  proof -
    have il: "i < length (d_rects s)" "\<not> dx_active (d_rects s ! i)" using first_slot_length [OF that] first_slot_holds [OF that] by simp_all
    show ?thesis using bex_update [OF il(1), of "\<lambda>r. dx_active r \<and> in_drect ?W r k" ?r] il(2) by simp
  qed
  show "marked (drm_MarkDirty x y w h s) k" if "marked s k"
    using that slots [of _ k] unfolding eq by (auto simp: marked_def split: option.splits)
  show "marked (drm_MarkDirty x y w h s) k" if k: "k < ?W * ?H" "in_area ?W x y w h k"
  proof (cases "dirty_count s < MAX_DRECTS")
    case True
    then obtain i where i: "first_slot (\<lambda>r. \<not> dx_active r) (d_rects s) = Some i"
      using count_if_free [of dx_active "d_rects s"] rs by auto
    with True area [OF k(2,1)] slots [OF i, of k] show ?thesis unfolding eq by (simp add: marked_def)
  next
    case False
    with area [OF k(2,1)] show ?thesis unfolding eq by (simp add: marked_def)
  qed
qed

section \<open>The event queue\<close>

definition display_events :: "drm \<Rightarrow> UapiEvent list" where
  "display_events s = ring (uapi_events s) (uapi_event_tail s) (uapi_event_count s)"

definition events_ok :: "drm \<Rightarrow> bool" where
  "events_ok s \<longleftrightarrow> length (uapi_events s) = MAX_UAPI_EVENTS \<and> uapi_event_tail s < MAX_UAPI_EVENTS \<and>
     uapi_event_count s \<le> MAX_UAPI_EVENTS \<and> uapi_event_head s = (uapi_event_tail s + uapi_event_count s) mod MAX_UAPI_EVENTS"

lemma Poll_events:
  assumes "events_ok s"
  shows "PollUapiEvent s = None \<longleftrightarrow> display_events s = []"
    and "display_events s = e # es \<Longrightarrow> \<exists>s'. PollUapiEvent s = Some (e, s') \<and> display_events s' = es \<and> events_ok s'"
proof -
  have len: "length (uapi_events s) = 128" "uapi_event_tail s < 128" "uapi_event_count s \<le> 128"
    "uapi_event_head s = (uapi_event_tail s + uapi_event_count s) mod 128" using assms by (simp_all add: events_ok_def)
  have nil: "display_events s = [] \<longleftrightarrow> uapi_event_count s = 0"
    using length_ring [of "uapi_events s" "uapi_event_tail s" "uapi_event_count s"] unfolding display_events_def by (metis length_0_conv)
  then show "PollUapiEvent s = None \<longleftrightarrow> display_events s = []" by (simp add: PollUapiEvent_def)
  show "\<exists>s'. PollUapiEvent s = Some (e, s') \<and> display_events s' = es \<and> events_ok s'" if c: "display_events s = e # es"
  proof -
    have cnt: "0 < uapi_event_count s" using nil c by simp
    from ring_pop [OF cnt, of "uapi_events s" "uapi_event_tail s"] len c have
      "uapi_events s ! uapi_event_tail s = e"
      "ring (uapi_events s) ((uapi_event_tail s + 1) mod 128) (uapi_event_count s - 1) = es" by (simp_all add: display_events_def)
    moreover have "((uapi_event_tail s + 1) mod 128 + (uapi_event_count s - 1)) mod 128 = (uapi_event_tail s + uapi_event_count s) mod 128"
      using cnt mod_add_left_eq [of "uapi_event_tail s + 1" 128 "uapi_event_count s - 1"] by simp
    ultimately show ?thesis using cnt len by (simp add: PollUapiEvent_def display_events_def events_ok_def)
  qed
qed

lemma Queue_events:
  assumes ok: "events_ok s"
  shows "events_ok (QueueUapiEventLocked ticks ty fl sq s)" (is ?A)
    and "display_events (QueueUapiEventLocked ticks ty fl sq s) =
      drop (length (display_events s) + 1 - 128) (display_events s @ [\<lparr>ue_type = ty, ue_flags = fl, ue_sequence = sq, ue_timestamp = ticks\<rparr>])" (is ?B)
proof -
  let ?e = "\<lparr>ue_type = ty, ue_flags = fl, ue_sequence = sq, ue_timestamp = ticks\<rparr>"
  have push: "events_ok t \<and> display_events t = display_events u @ [?e]"
    if u: "events_ok u" "uapi_event_count u < 128" and
      t: "t = u\<lparr>uapi_events := (uapi_events u)[uapi_event_head u := ?e], uapi_event_head := (uapi_event_head u + 1) mod MAX_UAPI_EVENTS,
        uapi_event_count := uapi_event_count u + 1\<rparr>" for t u
  proof -
    have len: "length (uapi_events u) = 128" "uapi_event_tail u < 128" "uapi_event_head u = (uapi_event_tail u + uapi_event_count u) mod 128"
      using u(1) by (simp_all add: events_ok_def)
    have "((uapi_event_tail u + uapi_event_count u) mod 128 + 1) mod 128 = (uapi_event_tail u + (uapi_event_count u + 1)) mod 128"
      by (simp add: mod_Suc_eq)
    moreover have "uapi_event_count u < length (uapi_events u)" using u(2) len by simp
    from ring_push [OF this, of "uapi_event_tail u" ?e] have
      "display_events t = display_events u @ [?e]" using len by (simp add: display_events_def t)
    ultimately show ?thesis using len u(2) by (simp add: t events_ok_def)
  qed
  have len: "length (display_events s) = uapi_event_count s" "uapi_event_count s \<le> 128"
    using ok by (simp_all add: display_events_def events_ok_def)
  show ?A and ?B
  proof (atomize (full), cases "uapi_event_count s = 128")
    case False
    then have "uapi_event_count s < 128" using len(2) by simp
    from push [OF ok this refl] False len show "?A \<and> ?B" by (simp add: QueueUapiEventLocked_def)
  next
    case True
    let ?u = "s\<lparr>uapi_event_tail := (uapi_event_tail s + 1) mod MAX_UAPI_EVENTS, uapi_event_count := uapi_event_count s - 1\<rparr>"
    obtain e es where c: "display_events s = e # es" using True len(1) by (cases "display_events s") simp_all
    have "PollUapiEvent s = Some (uapi_events s ! uapi_event_tail s, ?u)" using True by (simp add: PollUapiEvent_def)
    with Poll_events(2) [OF ok c] have u: "events_ok ?u" "display_events ?u = es" by auto
    have "uapi_event_count ?u < 128" using True by simp
    from push [OF u(1) this refl] True len u(2) c show "?A \<and> ?B" by (simp add: QueueUapiEventLocked_def Let_def)
  qed
qed

section \<open>Properties\<close>

definition d_comp :: "drm \<Rightarrow> nat \<Rightarrow> u32" where "d_comp s = d_px s (compositor_buffer s)"
definition d_vram :: "drm \<Rightarrow> nat \<Rightarrow> u32" where "d_vram s = d_px s (vram_buffer s)"

text \<open>Every pixel on which the screen is out of date is marked.\<close>

definition synced :: "drm \<Rightarrow> bool" where
  "synced s \<longleftrightarrow> (\<forall>k < screen_width s * screen_height s. \<not> marked s k \<longrightarrow> d_vram s k = d_comp s k)"

text \<open>A client draws a picture inside a rectangle of the compositor's buffer, then marks the rectangle dirty.\<close>

definition paint :: "int \<times> int \<times> int \<times> int \<times> (nat \<Rightarrow> u32) \<Rightarrow> drm \<Rightarrow> drm" where
  "paint p s = (case p of (x, y, w, h, pic) \<Rightarrow>
     drm_MarkDirty x y w h (d_draw (\<lambda>m. m(compositor_buffer s :=
       (\<lambda>k. if in_area (screen_width s) x y w h k then pic k else m (compositor_buffer s) k))) s))"

text \<open>The position, the size and the end of the rectangle are 32-bit integers.\<close>

definition paint_ok :: "int \<times> int \<times> int \<times> int \<times> (nat \<Rightarrow> u32) \<Rightarrow> bool" where
  "paint_ok = (\<lambda>(x, y, w, h, pic). span32 x w \<and> span32 y h)"

lemma paint_synced:
  assumes ok: "drm_ok s" and sy: "synced s" and pok: "paint_ok p"
  shows "drm_ok (paint p s) \<and> synced (paint p s) \<and> screen_width (paint p s) = screen_width s \<and>
    screen_height (paint p s) = screen_height s \<and> vram_buffer (paint p s) = vram_buffer s \<and>
    compositor_buffer (paint p s) = compositor_buffer s"
proof -
  obtain x y w h pic where p: "p = (x, y, w, h, pic)" by (metis prod_cases5)
  let ?s1 = "d_draw (\<lambda>m. m(compositor_buffer s :=
       (\<lambda>k. if in_area (screen_width s) x y w h k then pic k else m (compositor_buffer s) k))) s"
  have f: "screen_width ?s1 = screen_width s" "screen_height ?s1 = screen_height s" "vram_buffer ?s1 = vram_buffer s"
    "compositor_buffer ?s1 = compositor_buffer s" "full_dirty ?s1 = full_dirty s" "d_rects ?s1 = d_rects s" "dirty_count ?s1 = dirty_count s"
    by (simp_all add: d_draw_def)
  have ok1: "drm_ok ?s1" using ok by (simp add: drm_ok_def f)
  have "span32 x w" "span32 y h" using pok by (simp_all add: p paint_ok_def)
  note m = drm_MarkDirty_marks [OF ok1 this]
  have mk: "marked ?s1 k = marked s k" for k by (simp add: marked_def f)
  have e: "paint p s = drm_MarkDirty x y w h ?s1" by (simp add: p paint_def)
  have vc: "vram_buffer s \<noteq> compositor_buffer s" using ok by (simp add: drm_ok_def)
  have "d_vram (paint p s) k = d_comp (paint p s) k"
    if k: "k < screen_width s * screen_height s" "\<not> marked (paint p s) k" for k
  proof -
    have n: "\<not> in_area (screen_width s) x y w h k" "\<not> marked s k" using m(2,3) [of k] k mk unfolding e f by auto
    have "d_px (paint p s) = d_px ?s1" using m(4) by (simp add: e)
    then have "d_vram (paint p s) k = d_vram s k" "d_comp (paint p s) k = d_comp s k"
      using m(4) n(1) vc by (simp_all add: d_vram_def d_comp_def e f) (simp_all add: d_draw_def)
    then show ?thesis using sy k(1) n(2) by (simp add: synced_def)
  qed
  then show ?thesis using m(1,4) f by (simp add: synced_def e)
qed

lemma paint_all_synced:
  assumes "drm_ok s" and "synced s" and "\<forall>p \<in> set ps. paint_ok p"
  shows "drm_ok (foldl (\<lambda>s p. paint p s) s ps) \<and> synced (foldl (\<lambda>s p. paint p s) s ps) \<and>
    screen_width (foldl (\<lambda>s p. paint p s) s ps) = screen_width s \<and> screen_height (foldl (\<lambda>s p. paint p s) s ps) = screen_height s"
  using assms
proof (induction ps arbitrary: s)
  case Nil
  then show ?case by simp
next
  case (Cons p ps)
  from paint_synced [OF Cons.prems(1,2), of p] Cons.IH [of "paint p s"] Cons.prems(3) show ?case by simp
qed

lemma Queue_fields [simp]:
  "d_bm (QueueUapiEventLocked ticks ty fl sq s) = d_bm s" "screen_width (QueueUapiEventLocked ticks ty fl sq s) = screen_width s"
  "screen_height (QueueUapiEventLocked ticks ty fl sq s) = screen_height s" "vram_buffer (QueueUapiEventLocked ticks ty fl sq s) = vram_buffer s"
  "compositor_buffer (QueueUapiEventLocked ticks ty fl sq s) = compositor_buffer s" "d_rects (QueueUapiEventLocked ticks ty fl sq s) = d_rects s"
  "dirty_count (QueueUapiEventLocked ticks ty fl sq s) = dirty_count s" "full_dirty (QueueUapiEventLocked ticks ty fl sq s) = full_dirty s"
  by (simp_all add: QueueUapiEventLocked_def Let_def)

lemma Present_effect:
  assumes ok: "drm_ok s" and sy: "synced s" and p: "Present ticks vsync s = (r, s')"
  shows "r \<and> drm_ok s' \<and> (\<forall>k < screen_width s * screen_height s. d_vram s' k = d_comp s k \<and> d_comp s' k = d_comp s k) \<and>
    (\<forall>b k. b \<noteq> vram_buffer s \<or> screen_width s * screen_height s \<le> k \<longrightarrow> d_px s' b k = d_px s b k) \<and>
    (\<forall>k. \<not> marked s' k) \<and> synced s'"
proof -
  let ?n = "screen_width s * screen_height s"
  let ?px = "copy_dirty s (d_px s)"
  have vc: "vram_buffer s \<noteq> compositor_buffer s" and nz: "compositor_buffer s \<noteq> 0" "vram_buffer s \<noteq> 0"
    using ok by (simp_all add: drm_ok_def)
  let ?s1 = "drm_ClearDirty (d_draw (copy_dirty s) s)"
  let ?s2 = "if primary_crtc ?s1 then let n = add64 (vblank_count (d_crtc ?s1)) 1
      in QueueUapiEventLocked ticks 1 (if vsync then 1 else 0) n
             (?s1\<lparr>d_crtc := (d_crtc ?s1)\<lparr>vblank_count := n\<rparr>, last_vblank_sequence := n\<rparr>) else ?s1"
  have "Present ticks vsync s = (True, ?s2)" unfolding Present_def Let_def using nz by (simp only: simp_thms if_False)
  then have s': "s' = ?s2" and r: r using p by (simp_all only: prod.inject simp_thms)
  have f: "d_px s' = ?px" "r" "screen_width s' = screen_width s" "screen_height s' = screen_height s" "vram_buffer s' = vram_buffer s"
    "compositor_buffer s' = compositor_buffer s" "d_rects s' = map (\<lambda>r. r\<lparr>dx_active := False\<rparr>) (d_rects s)" "dirty_count s' = 0" "\<not> full_dirty s'"
    using r unfolding s' by (simp_all add: drm_ClearDirty_def d_draw_def Let_def)
  have c0: "count_if dx_active (map (\<lambda>r. r\<lparr>dx_active := False\<rparr>) rs) = 0" for rs by (induction rs) simp_all
  have ok': "drm_ok s'" using ok c0 [of "d_rects s"] by (simp add: drm_ok_def f)
  have nm: "\<not> marked s' k" for k using f by (simp add: marked_def)
  have px: "?px = (d_px s)(vram_buffer s := (\<lambda>k. if k < ?n \<and> marked s k then d_px s (compositor_buffer s) k else d_px s (vram_buffer s) k))"
    by (rule copy_dirty_eq [OF ok])
  have "d_vram s' k = d_comp s k" if "k < ?n" for k
    using sy that by (cases "marked s k") (simp_all add: d_vram_def d_comp_def f px synced_def)
  moreover have "d_comp s' k = d_comp s k" for k using vc by (simp add: d_comp_def f px)
  moreover have "d_px s' b k = d_px s b k" if "b \<noteq> vram_buffer s \<or> ?n \<le> k" for b k using that by (auto simp: f px)
  ultimately show ?thesis using ok' nm f(2,3,4) by (simp add: synced_def)
qed

text \<open>Where the end of the rectangle overflows, \<^verbatim>\<open>MarkDirty\<close> does not clamp it: the rectangle it stores lies far outside the
  screen, and \<^verbatim>\<open>Present\<close> will copy it.\<close>

lemma drm_MarkDirty_overflow:
  "screen_width s = 800 \<Longrightarrow> screen_height s = 600 \<Longrightarrow> dirty_count s = 0 \<Longrightarrow> d_rects s = r # rs \<Longrightarrow> \<not> dx_active r \<Longrightarrow>
   hd (d_rects (drm_MarkDirty 2147483647 0 100 1 s)) = \<lparr>dx_x = 2147483647, dx_y = 0, dx_w = 100, dx_h = 1, dx_active = True\<rparr>"
  by (simp add: drm_MarkDirty_def wrap32_def i32_of_small)

text \<open>C30. However a client draws, as long as it marks every rectangle it draws in (in any number, inside the screen or
  not, each with a position, a size and an end that are 32-bit integers), presenting brings the whole screen up to date with the compositor's buffer, changes nothing else in
  memory and leaves nothing marked.\<close>

theorem marked_drawing_is_shown:
  assumes "drm_ok s" and "synced s" and "\<forall>p \<in> set ps. paint_ok p" and "Present ticks vsync (foldl (\<lambda>s p. paint p s) s ps) = (r, s')"
  shows "r \<and> (\<forall>k < screen_width s * screen_height s. d_vram s' k = d_comp (foldl (\<lambda>s p. paint p s) s ps) k) \<and>
    (\<forall>b k. b \<noteq> vram_buffer (foldl (\<lambda>s p. paint p s) s ps) \<or> screen_width s * screen_height s \<le> k \<longrightarrow>
       d_px s' b k = d_px (foldl (\<lambda>s p. paint p s) s ps) b k) \<and> synced s' \<and> drm_ok s'"
proof -
  note p = paint_all_synced [OF assms(1,2,3)]
  from Present_effect [OF _ _ assms(4)] p show ?thesis by simp
qed

definition demo_drm :: drm where
  "demo_drm = \<lparr>d_bm = empty_bufman, framebuffers = [], framebuffer_count = 0, next_fb_id = 1,
     d_crtc = \<lparr>ct_id = 1, front_fb = None, back_fb = None, render_fb = None, ct_width = 4, ct_height = 3, refresh_hz = 60, vsync_enabled = True,
       vblank_count = 0, buffer_mode = DOUBLE_BUFFER, last_frame_time_us = 0, avg_frame_time_us = 8000\<rparr>,
     crtc_count = 1, primary_crtc = True, compositor_buffer = 8192, vram_buffer = 4096, screen_width = 4, screen_height = 3, screen_pitch = 16,
     d_rects = replicate 16 \<lparr>dx_x = 0, dx_y = 0, dx_w = 0, dx_h = 0, dx_active = False\<rparr>, dirty_count = 0, full_dirty = False,
     uapi_events = replicate 128 \<lparr>ue_type = 0, ue_flags = 0, ue_sequence = 0, ue_timestamp = 0\<rparr>,
     uapi_event_head = 0, uapi_event_tail = 0, uapi_event_count = 0, last_vblank_sequence = 0, last_flip_sequence = 0, gpu_enabled = False\<rparr>"

lemma demo_drm_ok: "drm_ok demo_drm \<and> synced demo_drm"
  by (simp add: drm_ok_def synced_def demo_drm_def d_vram_def d_comp_def empty_bufman_def count_if_def)

theorem marked_drawing_is_shown_witness:
  "d_vram (snd (Present 0 True (paint (1, 1, 2, 1, \<lambda>_. 7) demo_drm))) 5 = 7"
proof -
  let ?s = "paint (1, 1, 2, 1, \<lambda>_. 7) demo_drm"
  obtain r s' where p: "Present 0 True ?s = (r, s')" by (rule prod.exhaust)
  have n: "5 < screen_width demo_drm * screen_height demo_drm" by (simp add: demo_drm_def)
  have "paint_ok (1, 1, 2, 1, \<lambda>_. 7)" by (simp add: paint_ok_def span32_def)
  with marked_drawing_is_shown [of demo_drm "[(1, 1, 2, 1, \<lambda>_. 7)]" 0 True r s'] demo_drm_ok p n
  have "d_vram s' 5 = d_comp ?s 5" by simp
  moreover have "d_comp ?s 5 = 7"
    by (simp add: paint_def wrap32_def d_comp_def d_draw_def in_area_def drm_MarkDirty_def demo_drm_def i32_of_small count_if_def Let_def split: option.split)
  ultimately show ?thesis using p by simp
qed

text \<open>C31. The queue of display events keeps the last 128 of them, in order: what is pushed is never refused, the oldest
  event makes room, and polling returns the oldest one left.\<close>

theorem display_events_keep_the_last:
  assumes "events_ok s"
  shows "events_ok (foldl (\<lambda>s (t0, ty, fl, sq). QueueUapiEventLocked t0 ty fl sq s) s es) \<and>
    display_events (foldl (\<lambda>s (t0, ty, fl, sq). QueueUapiEventLocked t0 ty fl sq s) s es) =
      drop (length (display_events s) + length es - 128) (display_events s @
        map (\<lambda>(t0, ty, fl, sq). \<lparr>ue_type = ty, ue_flags = fl, ue_sequence = sq, ue_timestamp = t0\<rparr>) es) \<and>
    (\<forall>e rest. display_events s = e # rest \<longrightarrow>
       (\<exists>s'. PollUapiEvent s = Some (e, s') \<and> display_events s' = rest \<and> events_ok s'))"
proof -
  have "events_ok (foldl (\<lambda>s (t0, ty, fl, sq). QueueUapiEventLocked t0 ty fl sq s) s es) \<and>
    display_events (foldl (\<lambda>s (t0, ty, fl, sq). QueueUapiEventLocked t0 ty fl sq s) s es) =
      drop (length (display_events s) + length es - 128) (display_events s @
        map (\<lambda>(t0, ty, fl, sq). \<lparr>ue_type = ty, ue_flags = fl, ue_sequence = sq, ue_timestamp = t0\<rparr>) es)"
    using assms
  proof (induction es arbitrary: s)
    case Nil
    then show ?case by (simp add: display_events_def events_ok_def)
  next
    case (Cons e es)
    obtain t0 ty fl sq where e: "e = (t0, ty, fl, sq)" by (metis prod_cases4)
    let ?s = "QueueUapiEventLocked t0 ty fl sq s" and ?e = "\<lparr>ue_type = ty, ue_flags = fl, ue_sequence = sq, ue_timestamp = t0\<rparr>"
    note q = Queue_events [OF Cons.prems, of t0 ty fl sq]
    let ?n = "length (display_events s)" and ?m = "map (\<lambda>(t0, ty, fl, sq). \<lparr>ue_type = ty, ue_flags = fl, ue_sequence = sq, ue_timestamp = t0\<rparr>) es"
    have le: "?n \<le> 128" using Cons.prems by (simp add: display_events_def events_ok_def)
    have l: "length (display_events ?s) = ?n + 1 - (?n + 1 - 128)" unfolding q(2) by simp
    have "drop (length (display_events ?s) + length es - 128) (display_events ?s @ ?m) =
        drop (?n + length (e # es) - 128) (display_events s @ ?e # ?m)"
    proof (cases "?n = 128")
      case True
      then obtain a as where a: "display_events s = a # as" "length as = 127" by (cases "display_events s") simp_all
      then show ?thesis unfolding l q(2) by simp
    next
      case False
      then have "?n + 1 - 128 = 0" using le by simp
      then show ?thesis unfolding l q(2) by simp
    qed
    then show ?case using Cons.IH [OF q(1)] by (simp add: e)
  qed
  with Poll_events(2) [OF assms] show ?thesis by blast
qed

theorem display_events_keep_the_last_witness:
  "length (display_events (foldl (\<lambda>s (t0, ty, fl, sq). QueueUapiEventLocked t0 ty fl sq s) demo_drm (replicate 200 (0, 1, 0, 5)))) = 128"
proof -
  have "events_ok demo_drm" "display_events demo_drm = []" by (simp_all add: events_ok_def demo_drm_def display_events_def)
  with display_events_keep_the_last [of demo_drm "replicate 200 (0, 1, 0, 5)"] show ?thesis by simp
qed

text \<open>The wait for the retrace is bounded whatever the port returns.\<close>

lemma wait_phase_bounded: "wait_phase test k n \<le> k + n + 1"
proof (induction n arbitrary: k)
  case (Suc n)
  then show ?case using Suc.IH [of "Suc k"] by simp
qed simp

lemma WaitVBlankVGA_bounded: "WaitVBlankVGA port \<le> 52002"
  using wait_phase_bounded [of "\<lambda>k. port k AND 8 = 0" "wait_phase (\<lambda>k. port k AND 8 \<noteq> 0) 0 2000" 50000]
    wait_phase_bounded [of "\<lambda>k. port k AND 8 \<noteq> 0" 0 2000] by (simp add: WaitVBlankVGA_def)

end
