(* ===== verification/Page_Runs.thy ===== *)
theory Page_Runs
  imports MMU
begin

text \<open>
  Mapping consecutive pages, the loop \<^verbatim>\<open>for (i = 0; i < pages; i++) MMU::MapPage(virt + i * 4096, phys + i * 4096, flags)\<close>
  that the system calls and the package loader share.  In a tree of page tables without shared tables two
  addresses of different pages resolve to different slots, so each page of the run keeps the frame it was given.
\<close>

text \<open>As in the callers, the results of \<^verbatim>\<open>MapPage\<close> do not stop the loop.  The flag returned is whether all of
  them succeeded.\<close>

fun map_pages :: "u32 \<Rightarrow> nat \<Rightarrow> nat \<Rightarrow> nat \<Rightarrow> mmu \<Rightarrow> bool \<times> mmu" where
  "map_pages flags virt phys 0 m = (True, m)"
| "map_pages flags virt phys (Suc n) m =
     (let (ok, m1) = MapPage m (word_of_nat virt) (word_of_nat phys) flags;
          (ok', m2) = map_pages flags (add64 virt 4096) (add64 phys 4096) n m1
      in (ok \<and> ok', m2))"

section \<open>Slots of different pages\<close>

definition pt_tree :: "mmu \<Rightarrow> bool" where
  "pt_tree m \<longleftrightarrow> (\<exists>L. pt_wf m L \<and> unshared m L)"

definition same_page :: "u64 \<Rightarrow> u64 \<Rightarrow> bool" where
  "same_page v w \<longleftrightarrow> PML4_INDEX v = PML4_INDEX w \<and> PDPT_INDEX v = PDPT_INDEX w \<and> PD_INDEX v = PD_INDEX w \<and> PT_INDEX v = PT_INDEX w"

lemma leaf_slot_same_page: "same_page v w \<Longrightarrow> leaf_slot m v = leaf_slot m w"
  by (auto simp: leaf_slot_def same_page_def Let_def)

lemma leaf_slot_inj:
  assumes wf: "pt_wf m L" and u: "unshared m L" and v: "leaf_slot m v = Some sl" and w: "leaf_slot m w = Some sl"
  shows "same_page v w"
proof -
  obtain t i where sl: "sl = (t, i)" by (rule prod.exhaust)
  obtain r a b where v: "i = PT_INDEX v" "r = GetCurrentPageTable m" "leads m 1 r (PML4_INDEX v) a"
    "leads m 2 a (PDPT_INDEX v) b" "leads m 3 b (PD_INDEX v) t"
    by (rule leaf_slotE [OF v [unfolded sl]]) (auto simp: leads_def is_huge_def)
  obtain r' a' b' where w: "i = PT_INDEX w" "r' = GetCurrentPageTable m" "leads m 1 r' (PML4_INDEX w) a'"
    "leads m 2 a' (PDPT_INDEX w) b'" "leads m 3 b' (PD_INDEX w) t"
    by (rule leaf_slotE [OF w [unfolded sl]]) (auto simp: leads_def is_huge_def)
  note child = pt_wf_child [OF wf]
  have lc: "c \<in> L (Suc n)" if "leads m n t i c" "t \<in> L n" "n \<in> {1, 2, 3}" "i < 512" for n t i c
    using child [OF that(3,2,4)] that(1) by (auto simp: leads_def)
  have r: "r \<in> L 1" "r' \<in> L 1" using root_level [OF wf] v(2) w(2) by simp_all
  have a: "a \<in> L 2" "a' \<in> L 2" using lc [OF v(3) r(1)] lc [OF w(3) r(2)] by (simp_all add: numeral_2_eq_2)
  have b: "b \<in> L 3" "b' \<in> L 3" using lc [OF v(4) a(1)] lc [OF w(4) a(2)] by (simp_all add: numeral_3_eq_3 numeral_2_eq_2)
  have 3: "b = b' \<and> PD_INDEX v = PD_INDEX w"
    by (rule unsharedD [OF u _ b table_index_less table_index_less v(5) w(5)]) simp
  then have "leads m 2 a' (PDPT_INDEX w) b" using w(4) by simp
  then have 2: "a = a' \<and> PDPT_INDEX v = PDPT_INDEX w"
    by (intro unsharedD [OF u _ a table_index_less table_index_less v(4)]) simp_all
  then have "leads m 1 r' (PML4_INDEX w) a" using w(3) by simp
  then have "r = r' \<and> PML4_INDEX v = PML4_INDEX w"
    by (intro unsharedD [OF u _ r table_index_less table_index_less v(3)]) simp_all
  with 2 3 v(1) w(1) show ?thesis by (simp add: same_page_def)
qed

lemma table_index_nat:
  assumes "a < 2 ^ 64"
  shows "table_index k (word_of_nat a) = (a div 2 ^ k) mod 512"
proof -
  have m: "(0x1FF :: u64) = mask 9" by (simp add: mask_eq_exp_minus_1)
  have ua: "unat (word_of_nat a :: u64) = a" using assms by (simp add: unsigned_of_nat take_bit_nat_eq_self)
  have "table_index k (word_of_nat a) = take_bit 9 (drop_bit k a)"
    unfolding table_index_def m take_bit_eq_mask [symmetric]
    by (simp add: unsigned_take_bit_eq unsigned_drop_bit_eq ua take_bit_nat_eq_self [OF assms])
  then show ?thesis by (simp add: take_bit_eq_mod drop_bit_eq_div)
qed

lemma same_page_nat:
  assumes "a < 2 ^ 48" and "b < 2 ^ 48"
  shows "same_page (word_of_nat a) (word_of_nat b) \<longleftrightarrow> a div 4096 = b div 4096"
proof -
  have s: "a < 2 ^ 64" "b < 2 ^ 64" using assms by simp_all
  have split: "n = n mod 512 + 512 * ((n div 512) mod 512) + 262144 * ((n div 262144) mod 512) + 134217728 * ((n div 134217728) mod 512)"
    if "n < 68719476736" for n :: nat
  proof -
    have 1: "n = n mod 512 + 512 * (n div 512)" by simp
    have 2: "n div 512 = (n div 512) mod 512 + 512 * (n div 262144)"
      using div_mult2_eq [of n 512 512] mod_mult_div_eq [of "n div 512" 512] by simp
    have 3: "n div 262144 = (n div 262144) mod 512 + 512 * (n div 134217728)"
      using div_mult2_eq [of n 262144 512] mod_mult_div_eq [of "n div 262144" 512] by simp
    have 4: "n div 134217728 = (n div 134217728) mod 512" using that by (simp add: div_less_iff_less_mult)
    from 1 2 3 4 show ?thesis by linarith
  qed
  have d: "n div 2 ^ 12 div 512 = n div 2 ^ 21" "n div 2 ^ 12 div 262144 = n div 2 ^ 30" "n div 2 ^ 12 div 134217728 = n div 2 ^ 39"
    for n :: nat by (simp_all add: div_mult2_eq [symmetric])
  let ?x = "a div 2 ^ 12" and ?y = "b div 2 ^ 12"
  have xy: "?x < 68719476736" "?y < 68719476736" using assms by (simp_all add: less_mult_imp_div_less)
  have "same_page (word_of_nat a) (word_of_nat b) \<longleftrightarrow> ?x = ?y"
    unfolding same_page_def table_index_nat [OF s(1)] table_index_nat [OF s(2)] d [symmetric]
    using split [OF xy(1)] split [OF xy(2)] by metis
  then show ?thesis by simp
qed

lemma frame_offset:
  assumes "p < 2 ^ 52" and "p mod 4096 = 0"
  shows "((word_of_nat p :: u64) AND PTE_ADDR_MASK) OR (word_of_nat a AND 0xFFF) = word_of_nat (p + a mod 4096)"
proof -
  have m: "(0xFFF :: u64) = mask 12" by (simp add: mask_eq_exp_minus_1)
  from assms(2) obtain q where q: "p = q * 4096" by auto
  have 1: "(word_of_nat p :: u64) AND PTE_ADDR_MASK = word_of_nat p" by (rule masked_page [OF assms])
  have 2: "(word_of_nat p :: u64) = push_bit 12 (word_of_nat q)" by (simp add: q push_bit_eq_mult)
  have 3: "take_bit 12 (word_of_nat a :: u64) = word_of_nat (take_bit 12 a)" by (simp only: take_bit_of_nat)
  have "(word_of_nat p :: u64) OR take_bit 12 (word_of_nat a) = word_of_nat p + take_bit 12 (word_of_nat a)"
    unfolding 2 by (rule disjunctive_add [symmetric]) (auto simp: bit_push_bit_iff bit_take_bit_iff)
  also have "\<dots> = word_of_nat (p + a mod 4096)" unfolding 3 by (simp add: take_bit_eq_mod)
  finally have "(word_of_nat p :: u64) OR take_bit 12 (word_of_nat a) = word_of_nat (p + a mod 4096)" .
  then show ?thesis unfolding 1 m by (simp only: take_bit_eq_mask)
qed


section \<open>One page, then many\<close>

lemma MapPage_tree:
  assumes wf: "pt_wf m L" and u: "unshared m L" and r: "MapPage m virt phys flags = (ok, m')"
  shows "pt_tree m'" and "leaf_slot m v = Some sl \<Longrightarrow> leaf_slot m' v = Some sl" and "ok \<Longrightarrow> leaf_slot m' virt \<noteq> None"
proof -
  from MapPage_walk [OF wf r] obtain s3 L' where w: "map_walk_ok L m virt phys flags ok m' s3 L'" by blast
  then have wf3: "pt_wf s3 L'" and k: "pt_keeps L m s3" and u3: "unshared s3 L'" using u by (simp_all add: map_walk_ok_def)
  have "pt_tree m' \<and> (leaf_slot m v = Some sl \<longrightarrow> leaf_slot m' v = Some sl) \<and> (ok \<longrightarrow> leaf_slot m' virt \<noteq> None)"
  proof (cases ok)
    case False
    with w have "m' = s3" by (simp add: map_walk_ok_def)
    with False wf3 u3 leaf_slot_keeps [OF wf k] show ?thesis by (auto simp: pt_tree_def)
  next
    case True
    with w obtain pt where pt: "leaf_slot s3 virt = Some (pt, PT_INDEX virt)"
      and m': "m' = EnableWriteProtect (FlushTLB virt (set_entry pt (PT_INDEX virt) ((phys AND PTE_ADDR_MASK) OR ConvertFlags flags) s3))"
      by (auto simp: map_walk_ok_def)
    let ?s4 = "set_entry pt (PT_INDEX virt) ((phys AND PTE_ADDR_MASK) OR ConvertFlags flags) s3"
    have p4: "pt \<in> L' 4" using leaf_slot_level [OF wf3 pt] by simp
    note sl = set_leaf_wf [OF wf3 p4]
    have u4: "unshared ?s4 L'"
    proof (rule unshared_leads [OF u3])
      fix n t i c assume n: "n \<in> {1, 2, 3 :: nat}" "t \<in> L' n" and l: "leads ?s4 n t i c"
      have "t \<noteq> pt" using pt_wf_disjoint [OF wf3, of n 4] n p4 by auto
      with l show "leads s3 n t i c" by (simp add: leads_def set_entry_mem)
    qed
    have f: "pg_mem m' = pg_mem ?s4" "cr3 m' = cr3 ?s4" "mm_pmm m' = mm_pmm ?s4"
      by (simp_all add: m' EnableWriteProtect_def FlushTLB_def)
    have "pt_wf m' L'" using sl(1) pt_wf_fields [OF f] by simp
    moreover have "unshared m' L'" by (rule unshared_fields [OF f(1) u4])
    moreover have "leaf_slot m' w = leaf_slot s3 w" for w
      using leaf_slot_fields [OF f(1,2)] sl(2) by simp
    ultimately show ?thesis using pt leaf_slot_keeps [OF wf k] by (auto simp: pt_tree_def)
  qed
  then show "pt_tree m'" "leaf_slot m v = Some sl \<Longrightarrow> leaf_slot m' v = Some sl" "ok \<Longrightarrow> leaf_slot m' virt \<noteq> None" by blast+
qed

lemma MapPage_leaf:
  assumes wf: "pt_wf m L" and r: "MapPage m virt phys flags = (True, m')" and sl: "leaf_slot m' virt = Some (t, i)"
  shows "pg_mem m' t i AND PTE_PRESENT \<noteq> 0 \<and> pg_mem m' t i AND PTE_ADDR_MASK = phys AND PTE_ADDR_MASK"
proof -
  from MapPage_walk [OF wf r] obtain s3 L' pt where wf3: "pt_wf s3 L'" and pt: "leaf_slot s3 virt = Some (pt, PT_INDEX virt)"
    and m': "m' = EnableWriteProtect (FlushTLB virt (set_entry pt (PT_INDEX virt) ((phys AND PTE_ADDR_MASK) OR ConvertFlags flags) s3))"
    by (auto simp: map_walk_ok_def)
  let ?s4 = "set_entry pt (PT_INDEX virt) ((phys AND PTE_ADDR_MASK) OR ConvertFlags flags) s3"
  have f: "pg_mem m' = pg_mem ?s4" "cr3 m' = cr3 ?s4" by (simp_all add: m' EnableWriteProtect_def FlushTLB_def)
  have "pt \<in> L' 4" using leaf_slot_level [OF wf3 pt] by simp
  then have "leaf_slot m' virt = leaf_slot s3 virt" using leaf_slot_fields [OF f] set_leaf_wf(2) [OF wf3] by simp
  with pt sl have "t = pt" "i = PT_INDEX virt" by simp_all
  then have "pg_mem m' t i = (phys AND PTE_ADDR_MASK) OR ConvertFlags flags" by (simp add: f(1) set_entry_mem)
  with leaf_entry [of phys flags] show ?thesis by simp
qed

text \<open>The bytes of the page get the bytes of the frame, in order; every other mapped address keeps its own.\<close>

abbreviation phys_of :: "mmu \<Rightarrow> nat \<Rightarrow> u64" where "phys_of m a \<equiv> GetPhysical m (word_of_nat a)"
abbreviation has_slot :: "mmu \<Rightarrow> nat \<Rightarrow> bool" where "has_slot m a \<equiv> leaf_slot m (word_of_nat a) \<noteq> None"

lemma MapPage_page:
  assumes t: "pt_tree m" and r: "MapPage m (word_of_nat virt) (word_of_nat phys) flags = (True, m')"
    and v: "virt mod 4096 = 0" "virt < 2 ^ 47" and p: "phys mod 4096 = 0" "phys < 2 ^ 52"
  shows "virt \<le> a \<Longrightarrow> a < virt + 4096 \<Longrightarrow> phys_of m' a = word_of_nat (phys + (a - virt)) \<and> has_slot m' a"
    and "\<not> (virt \<le> a \<and> a < virt + 4096) \<Longrightarrow> a < 2 ^ 48 \<Longrightarrow> has_slot m a \<Longrightarrow> has_slot m' a \<and> phys_of m' a = phys_of m a"
proof -
  let ?v = "word_of_nat virt :: u64" and ?p = "word_of_nat phys :: u64" and ?a = "word_of_nat a :: u64"
  from t obtain L where wf: "pt_wf m L" and u: "unshared m L" by (auto simp: pt_tree_def)
  note tree = MapPage_tree [OF wf u r]
  from tree(1) obtain L' where wf': "pt_wf m' L'" and u': "unshared m' L'" by (auto simp: pt_tree_def)
  note eff = MapPage_effect [OF wf r]
  obtain t4 i where sl: "leaf_slot m' ?v = Some (t4, i)" using tree(3) by fastforce
  from v(1) obtain q where q: "virt = 4096 * q" by (auto simp: mod_eq_0_iff_dvd dvd_def)
  have div: "a div 4096 = q \<longleftrightarrow> virt \<le> a \<and> a < virt + 4096" for a unfolding q by linarith
  have page: "same_page ?a ?v \<longleftrightarrow> virt \<le> a \<and> a < virt + 4096" if "a < 2 ^ 48"
    using same_page_nat [OF that, of virt] v(2) div [of a] by (simp add: q)
  show "phys_of m' a = word_of_nat (phys + (a - virt)) \<and> has_slot m' a" if a: "virt \<le> a" "a < virt + 4096"
  proof -
    have "a < 2 ^ 48" using a v(2) by simp
    then have sp: "same_page ?a ?v" using page a by blast
    then have la: "leaf_slot m' ?a = Some (t4, i)" using leaf_slot_same_page [OF sp, of m'] sl by simp
    note g = GetPhysical_leaf [OF la root_nonnull [OF wf']] GetPhysical_leaf [OF sl root_nonnull [OF wf']]
    have pr: "pg_mem m' t4 i AND PTE_PRESENT \<noteq> 0 \<and> pg_mem m' t4 i AND PTE_ADDR_MASK = ?p AND PTE_ADDR_MASK"
      by (rule MapPage_leaf [OF wf r sl])
    have "a mod 4096 = a - virt" using a q by (metis div minus_mult_div_eq_mod mult.commute)
    with g(1) pr frame_offset [OF p(2,1), of a] la show ?thesis by simp
  qed
  show "has_slot m' a \<and> phys_of m' a = phys_of m a" if a: "\<not> (virt \<le> a \<and> a < virt + 4096)" "a < 2 ^ 48" "has_slot m a"
  proof -
    from a(3) obtain s where s: "leaf_slot m ?a = Some s" by blast
    have s': "leaf_slot m' ?a = Some s" by (rule tree(2) [OF s])
    have "leaf_slot m' ?v \<noteq> Some s"
    proof
      assume "leaf_slot m' ?v = Some s"
      from leaf_slot_inj [OF wf' u' s' this] page [OF a(2)] a(1) show False by blast
    qed
    with eff s s' show ?thesis by blast
  qed
qed

lemma MapPage_pmm_tree: "pt_wf m L \<Longrightarrow> unshared m L \<Longrightarrow> MapPage m virt phys flags = (ok, m') \<Longrightarrow> pt_tree m'"
  by (rule MapPage_tree(1))

lemma map_pages_spec:
  assumes "pt_tree m" and "map_pages flags virt phys n m = (True, m')"
    and "virt mod 4096 = 0" and "virt + n * 4096 \<le> 2 ^ 47" and "phys mod 4096 = 0" and "phys + n * 4096 \<le> 2 ^ 52"
  shows "pt_tree m' \<and>
    (\<forall>a. virt \<le> a \<longrightarrow> a < virt + n * 4096 \<longrightarrow> phys_of m' a = word_of_nat (phys + (a - virt)) \<and> has_slot m' a) \<and>
    (\<forall>a < 2 ^ 48. \<not> (virt \<le> a \<and> a < virt + n * 4096) \<longrightarrow> has_slot m a \<longrightarrow> has_slot m' a \<and> phys_of m' a = phys_of m a)"
  using assms
proof (induction n arbitrary: virt phys m)
  case 0
  then show ?case by simp
next
  case (Suc n)
  obtain ok m1 where m1: "MapPage m (word_of_nat virt) (word_of_nat phys) flags = (ok, m1)" by (rule prod.exhaust)
  have lim: "virt + 4096 < u64_limit" "phys + 4096 < u64_limit" using Suc.prems(4,6) by simp_all
  have nx: "add64 virt 4096 = virt + 4096" "add64 phys 4096 = phys + 4096" using lim by (simp_all add: add64_def)
  obtain ok' m2 where m2: "map_pages flags (virt + 4096) (phys + 4096) n m1 = (ok', m2)" by (rule prod.exhaust)
  with Suc.prems(2) m1 nx have oks: "ok" "ok'" "m' = m2" by auto
  have v: "virt < 2 ^ 47" "phys < 2 ^ 52" using Suc.prems(4,6) by simp_all
  note m1' = m1 [unfolded eqTrueI [OF oks(1)]] and m2' = m2 [unfolded eqTrueI [OF oks(2)] oks(3) [symmetric]]
  note page = MapPage_page [OF Suc.prems(1) m1' Suc.prems(3) v(1) Suc.prems(5) v(2)]
  from Suc.prems(1) obtain L where "pt_wf m L" "unshared m L" by (auto simp: pt_tree_def)
  then have t1: "pt_tree m1" by (rule MapPage_pmm_tree [OF _ _ m1])
  have al: "(virt + 4096) mod 4096 = 0" "(phys + 4096) mod 4096 = 0" using Suc.prems(3,5) by simp_all
  have bd: "virt + 4096 + n * 4096 \<le> 2 ^ 47" "phys + 4096 + n * 4096 \<le> 2 ^ 52" using Suc.prems(4,6) by simp_all
  note ih = Suc.IH [OF t1 m2' al(1) bd(1) al(2) bd(2)]
  have in_run: "phys_of m' a = word_of_nat (phys + (a - virt)) \<and> has_slot m' a" if a: "virt \<le> a" "a < virt + Suc n * 4096" for a
  proof (cases "a < virt + 4096")
    case True
    have "a < 2 ^ 48" using True v by simp
    moreover have "\<not> (virt + 4096 \<le> a \<and> a < virt + 4096 + n * 4096)" using True by simp
    ultimately show ?thesis using ih page(1) [OF a(1) True] by fastforce
  next
    case False
    then have "virt + 4096 \<le> a" "a < virt + 4096 + n * 4096" using a by simp_all
    moreover from False have "phys + 4096 + (a - (virt + 4096)) = phys + (a - virt)" by linarith
    ultimately show ?thesis using ih by metis
  qed
  have other: "has_slot m' a \<and> phys_of m' a = phys_of m a"
    if a: "a < 2 ^ 48" "\<not> (virt \<le> a \<and> a < virt + Suc n * 4096)" "has_slot m a" for a
  proof -
    have o: "\<not> (virt \<le> a \<and> a < virt + 4096)" "\<not> (virt + 4096 \<le> a \<and> a < virt + 4096 + n * 4096)" using a(2) by auto
    from page(2) [OF o(1) a(1,3)] have 1: "has_slot m1 a" "phys_of m1 a = phys_of m a" by blast+
    from ih a(1) o(2) 1(1) have "has_slot m' a \<and> phys_of m' a = phys_of m1 a" by blast
    with 1(2) show ?thesis by simp
  qed
  from ih in_run other show ?case by blast
qed

lemma MapPage_used:
  assumes "pt_wf m L" and "MapPage m virt phys flags = (ok, m')" and "page_used (mm_pmm m) q"
  shows "page_used (mm_pmm m') q"
proof -
  from MapPage_walk [OF assms(1,2)] obtain s3 L' where w: "map_walk_ok L m virt phys flags ok m' s3 L'" by blast
  then have "page_used (mm_pmm s3) q" using assms(3) by (simp add: map_walk_ok_def)
  moreover from w have "mm_pmm m' = mm_pmm s3"
    by (auto simp: map_walk_ok_def EnableWriteProtect_def FlushTLB_def split: if_splits)
  ultimately show ?thesis by simp
qed

text \<open>Taking a frame keeps the tables.\<close>

lemma AllocPage_tree:
  assumes t: "pt_tree m" and al: "AllocPage (mm_pmm m) = (p, pm)" and p: "p \<noteq> 0"
  shows "pt_tree (m\<lparr>mm_pmm := pm\<rparr>)" and "p mod 4096 = 0" and "p < 2 ^ 52" and "\<not> page_used (mm_pmm m) (p div 4096)"
    and "page_used pm q \<longleftrightarrow> q = p div 4096 \<or> page_used (mm_pmm m) q"
proof -
  from t obtain L where wf: "pt_wf m L" and u: "unshared m L" by (auto simp: pt_tree_def)
  note inv = pt_wf_pmm [OF wf]
  have "pmm_inv pm \<and> p mod 4096 = 0 \<and> p < 2 ^ 52 \<and> \<not> page_used (mm_pmm m) (p div 4096) \<and> highestAddr pm = highestAddr (mm_pmm m) \<and>
    (\<forall>q. page_used pm q \<longleftrightarrow> q = p div 4096 \<or> page_used (mm_pmm m) q)"
  proof (rule AllocPage_cases [OF conjunct1 [OF inv]])
    fix k assume a: "AllocPage (mm_pmm m) = (k * 4096, take_page (mm_pmm m) k)" "k < page_limit (mm_pmm m)" "\<not> page_used (mm_pmm m) k" "k \<noteq> 0"
    have "k * 4096 < 2 ^ 52" using a(2) inv by (simp add: page_limit_def) linarith
    moreover have e: "p = k * 4096" "pm = take_page (mm_pmm m) k" using a(1) al by simp_all
    moreover have "highestAddr pm = highestAddr (mm_pmm m)" unfolding e by (simp add: take_page_def)
    moreover have "pmm_inv pm" unfolding e using inv a(2,3) pmm_inv_take_page [of "mm_pmm m" k] by blast
    moreover have "\<forall>q. page_used pm q \<longleftrightarrow> q = k \<or> page_used (mm_pmm m) q"
      unfolding e by (auto simp only: page_used_take_page)
    ultimately show ?thesis using a(3) by simp
  qed (use al p in simp)
  then have a: "pmm_inv pm" "p mod 4096 = 0" "p < 2 ^ 52" "\<not> page_used (mm_pmm m) (p div 4096)" "highestAddr pm = highestAddr (mm_pmm m)"
    "\<And>q. page_used pm q \<longleftrightarrow> q = p div 4096 \<or> page_used (mm_pmm m) q" by blast+
  show "p mod 4096 = 0" "p < 2 ^ 52" "\<not> page_used (mm_pmm m) (p div 4096)" "page_used pm q \<longleftrightarrow> q = p div 4096 \<or> page_used (mm_pmm m) q"
    using a by blast+
  have "pt_wf (m\<lparr>mm_pmm := pm\<rparr>) L" using wf a(1,5,6) by (simp add: pt_wf_def GetCurrentPageTable_def)
  moreover have "unshared (m\<lparr>mm_pmm := pm\<rparr>) L" using u by (simp add: unshared_def leads_def)
  ultimately show "pt_tree (m\<lparr>mm_pmm := pm\<rparr>)" by (auto simp: pt_tree_def)
qed
end
