(* ===== verification/Mouse.thy ===== *)
theory Mouse
  imports Evdev Input_Manager Buffer_Manager Compositor_Windows
begin

text \<open>
  The PS/2 mouse driver, \<^verbatim>\<open>kernel/hal/input/mouse.cpp\<close>, and the focus manager it feeds,
  \<^verbatim>\<open>kernel/hal/input/focus_manager.cpp\<close>.  The bytes the controller holds are a list of pairs: the AUX bit of
  the status port (the byte is the mouse's) and the byte; an empty list is the status bit "output buffer full"
  being clear.  An interrupt consumes a part of that list and updates the focus manager, the kernel compositor,
  the event queues of theory \<open>Input_Manager\<close> and the ring of theory \<open>Evdev\<close>.  The position of the cursor is an
  \<^verbatim>\<open>int32_t\<close> that is clamped to the screen before it is stored, so it is an integer here.  The commands
  sent at start-up and the functions with an empty body are not modelled.
\<close>

section \<open>The focus manager\<close>

record FocusState =
  focused_pid :: nat
  focused_buffer_id :: nat
  mouse_owner_pid :: nat
  mouse_x :: int
  mouse_y :: int
  fs_dragging :: bool
  drag_buffer_id :: nat
  drag_offset_x :: int
  drag_offset_y :: int

definition fm_Init :: "graphics \<Rightarrow> FocusState \<Rightarrow> FocusState" where
  "fm_Init g s = s\<lparr>focused_pid := 0, focused_buffer_id := 0, mouse_x := int (GetWidth g div 2),
     mouse_y := int (GetHeight g div 2), fs_dragging := False, mouse_owner_pid := 0\<rparr>"

definition SetFocus :: "nat \<Rightarrow> nat \<Rightarrow> FocusState \<times> bufman \<Rightarrow> FocusState \<times> bufman" where
  "SetFocus pid buffer_id = (\<lambda>(s, b).
     if focused_pid s = pid \<and> focused_buffer_id s = buffer_id then (s, b)
     else (s\<lparr>focused_pid := pid, focused_buffer_id := buffer_id\<rparr>,
           case GetBuffer buffer_id b of Some i \<Rightarrow> upd_buf i (\<lambda>x. x\<lparr>sb_z_order := 100\<rparr>) b | None \<Rightarrow> b))"

text \<open>The two tests of the code in their order: below zero first, then beyond the edge.\<close>

definition clamp_axis :: "int \<Rightarrow> int \<Rightarrow> int" where
  "clamp_axis n v = (let v1 = (if v < 0 then 0 else v) in if v1 \<ge> n then n - 1 else v1)"

definition under_cursor :: "int \<Rightarrow> int \<Rightarrow> SharedBuffer \<Rightarrow> bool" where
  "under_cursor x y b \<longleftrightarrow>
     x \<ge> sb_x b \<and> x < wrap32 (sb_x b + i32_of (sb_width b)) \<and> y \<ge> sb_y b \<and> y < wrap32 (sb_y b + i32_of (sb_height b))"

definition HandleMouse :: "graphics \<Rightarrow> int \<Rightarrow> int \<Rightarrow> u8 \<Rightarrow> FocusState \<times> bufman \<Rightarrow> FocusState \<times> bufman" where
  "HandleMouse g delta_x delta_y buttons = (\<lambda>(s0, b).
     let s = s0\<lparr>mouse_x := clamp_axis (i32_of (GetWidth g)) (mouse_x s0 + delta_x),
                mouse_y := clamp_axis (i32_of (GetHeight g)) (mouse_y s0 + delta_y)\<rparr>
     in case find (\<lambda>i. under_cursor (mouse_x s) (mouse_y s) (bm_buffers b ! i)) (rev (GetVisibleBuffers 64 b)) of
          None \<Rightarrow> (s\<lparr>mouse_owner_pid := 0\<rparr>, b)
        | Some i \<Rightarrow>
            let hit = bm_buffers b ! i; s1 = s\<lparr>mouse_owner_pid := sb_owner_pid hit\<rparr>
            in if buttons AND 1 \<noteq> 0 \<and> focused_pid s1 \<noteq> sb_owner_pid hit
               then SetFocus (sb_owner_pid hit) (sb_id hit) (s1, b) else (s1, b))"

section \<open>State of the driver\<close>

datatype CursorVisibility = HIDDEN | VISIBLE_TEXT | VISIBLE_GUI
datatype VisualContext = TEXT_SHELL | GRAPHICAL_GUI

record mouse =
  posX :: int
  posY :: int
  ms_buttons :: u8
  lastButtons :: u8
  maxX :: nat
  maxY :: nat
  ms_visible :: bool
  cycle :: nat
  packet :: "u8 list"
  cursorVisibility :: CursorVisibility
  currentContext :: VisualContext

text \<open>Everything an interrupt of the mouse reaches.\<close>

record 'w mouse_sys =
  my_mouse :: mouse
  my_focus :: FocusState
  my_bufs :: bufman
  my_wm :: wm
  my_im :: "'w input_manager"
  my_sched :: sched
  my_evdev :: evdev

definition i16_of :: "int \<Rightarrow> int" where
  "i16_of v = sint (word_of_int v :: u16)"

definition ms_Init :: "mouse \<Rightarrow> mouse" where
  "ms_Init m = m\<lparr>cycle := 0, posX := int (maxX m div 2), posY := int (maxY m div 2)\<rparr>"

definition SetBounds :: "nat \<Rightarrow> nat \<Rightarrow> mouse \<Rightarrow> mouse" where
  "SetBounds w h m = m\<lparr>maxX := w, maxY := h, posX := (if posX m \<ge> int w then i16_of (int w - 1) else posX m),
     posY := (if posY m \<ge> int h then i16_of (int h - 1) else posY m)\<rparr>"

definition SetVisibility :: "CursorVisibility \<Rightarrow> mouse \<Rightarrow> mouse" where
  "SetVisibility st m = m\<lparr>cursorVisibility := st, ms_visible := (st = VISIBLE_GUI)\<rparr>"

definition SetVisualContext :: "VisualContext \<Rightarrow> mouse \<Rightarrow> mouse" where
  "SetVisualContext mode m = m\<lparr>currentContext := mode\<rparr>"

definition SetCursorVisible :: "bool \<Rightarrow> mouse \<Rightarrow> mouse" where
  "SetCursorVisible v m = m\<lparr>ms_visible := v\<rparr>"

definition IsLeftPressed :: "mouse \<Rightarrow> bool" where "IsLeftPressed m \<longleftrightarrow> ms_buttons m AND 1 \<noteq> 0"
definition IsRightPressed :: "mouse \<Rightarrow> bool" where "IsRightPressed m \<longleftrightarrow> ms_buttons m AND 2 \<noteq> 0"

section \<open>The interrupt handler\<close>

text \<open>A 9-bit two's complement movement: the byte, with the sign of the first byte spread over the upper
  half of an \<^verbatim>\<open>int16_t\<close>.\<close>

definition rel_of :: "bool \<Rightarrow> u8 \<Rightarrow> int" where
  "rel_of negative b = (if negative then sint (ucast b OR 0xFF00 :: u16) else uint b)"

definition mouse_event :: "nat \<Rightarrow> int \<Rightarrow> int \<Rightarrow> u8 \<Rightarrow> nat \<Rightarrow> OSEvent" where
  "mouse_event ty dx dy b junk = \<lparr>os_type = ty, os_dx = dx, os_dy = dy, os_buttons = unat b, os_scancode = 0, os_ascii = junk\<rparr>"

definition push_to_userspace :: "OSEvent \<Rightarrow> 'w mouse_sys \<Rightarrow> 'w mouse_sys option" where
  "push_to_userspace ev s =
     map_option (\<lambda>(im, sc). s\<lparr>my_im := im, my_sched := sc\<rparr>) (im_PushEvent ev (my_im s) (my_sched s))"

definition button_changes :: "nat \<Rightarrow> u8 \<Rightarrow> u8 \<Rightarrow> evdev \<Rightarrow> evdev" where
  "button_changes now b lst e0 =
     (let changed = b XOR lst;
          e1 = (if changed AND 1 \<noteq> 0 then PushButton now 0x110 (b AND 1 \<noteq> 0) e0 else e0);
          e2 = (if changed AND 2 \<noteq> 0 then PushButton now 0x111 (b AND 2 \<noteq> 0) e1 else e1);
          e3 = (if changed AND 4 \<noteq> 0 then PushButton now 0x112 (b AND 4 \<noteq> 0) e2 else e2)
      in PushSync now e3)"

definition click_part :: "nat \<Rightarrow> nat \<Rightarrow> u8 \<Rightarrow> 'w mouse_sys \<Rightarrow> 'w mouse_sys option" where
  "click_part now junk b s =
     (if b = lastButtons (my_mouse s) then Some s
      else map_option (\<lambda>s1. s1\<lparr>my_evdev := button_changes now b (lastButtons (my_mouse s1)) (my_evdev s1),
                               my_mouse := (my_mouse s1)\<lparr>lastButtons := b\<rparr>\<rparr>)
             (push_to_userspace (mouse_event 2 0 0 b junk) s))"

text \<open>A complete packet.  \<open>True\<close> is the early return of a packet that the compositor handled itself.
  \<open>now\<close> is the time of the interrupt; \<open>junk\<close> is what the field \<^verbatim>\<open>ascii\<close> of the events holds, which the code
  leaves uninitialised.\<close>

definition complete_packet :: "nat \<Rightarrow> nat \<Rightarrow> 'w mouse_sys \<Rightarrow> (bool \<times> 'w mouse_sys) option" where
  "complete_packet now junk s0 =
     (let p = packet (my_mouse s0);
          rel_x = rel_of (p ! 0 AND 0x10 \<noteq> 0) (p ! 1);
          rel_y = rel_of (p ! 0 AND 0x20 \<noteq> 0) (p ! 2);
          b = p ! 0 AND 0x07
      in Option.bind (click_part now junk b (s0\<lparr>my_mouse := (my_mouse s0)\<lparr>ms_buttons := b\<rparr>\<rparr>)) (\<lambda>s1.
           let (f, bufs) = HandleMouse (cp_gfx (my_wm s1)) rel_x (- rel_y) b (my_focus s1, my_bufs s1);
               s2 = s1\<lparr>my_focus := f, my_bufs := bufs,
                       my_mouse := (my_mouse s1)\<lparr>posX := i16_of (mouse_x f), posY := i16_of (mouse_y f)\<rparr>\<rparr>
           in Option.bind (ProcessMouseEvent (posX (my_mouse s2)) (posY (my_mouse s2)) b (my_wm s2)) (\<lambda>(handled, w).
                let s3 = s2\<lparr>my_wm := w\<rparr>
                in if handled then Some (True, s3\<lparr>my_mouse := (my_mouse s3)\<lparr>lastButtons := b\<rparr>\<rparr>)
                   else map_option (\<lambda>s4. (False, s4\<lparr>my_evdev := PushSync now (PushRelativeMotion now rel_x (- rel_y) (my_evdev s4))\<rparr>))
                          (push_to_userspace (mouse_event 1 rel_x (- rel_y) b junk) s3))))"

text \<open>One round of the loop, on the byte \<open>data\<close>.\<close>

definition on_byte :: "nat \<Rightarrow> nat \<Rightarrow> bool \<times> u8 \<Rightarrow> 'w mouse_sys \<Rightarrow> (bool \<times> 'w mouse_sys) option" where
  "on_byte now junk = (\<lambda>(isMouseData, data) s.
     let m = my_mouse s
     in if \<not> isMouseData \<and> cycle m = 0 then Some (False, s)
        else if cycle m = 0 \<and> data AND 0x08 = 0 then Some (False, s)
        else let m1 = m\<lparr>packet := (packet m)[cycle m := data], cycle := cycle m + 1\<rparr>
             in if cycle m1 < 3 then Some (False, s\<lparr>my_mouse := m1\<rparr>)
                else let s2 = s\<lparr>my_mouse := m1\<lparr>cycle := 0\<rparr>\<rparr>
                     in if packet m1 ! 0 AND 0x08 = 0 then Some (False, s2)
                        else if packet m1 ! 0 AND 0xC0 \<noteq> 0 then Some (False, s2)
                        else complete_packet now junk s2)"

abbreviation MAX_DRAIN :: nat where "MAX_DRAIN \<equiv> 16"

fun irq_loop :: "nat \<Rightarrow> nat \<Rightarrow> nat \<Rightarrow> (bool \<times> u8) list \<Rightarrow> 'w mouse_sys \<Rightarrow> ((bool \<times> u8) list \<times> 'w mouse_sys) option" where
  "irq_loop now junk 0 bs s = Some (bs, s)"
| "irq_loop now junk (Suc n) [] s = Some ([], s)"
| "irq_loop now junk (Suc n) (b # bs) s =
     Option.bind (on_byte now junk b s) (\<lambda>(stop, s1). if stop then Some (bs, s1) else irq_loop now junk n bs s1)"

definition ms_OnInterrupt ::
  "nat \<Rightarrow> nat \<Rightarrow> (bool \<times> u8) list \<Rightarrow> 'w mouse_sys \<Rightarrow> ((bool \<times> u8) list \<times> 'w mouse_sys) option" where
  "ms_OnInterrupt now junk bs s = irq_loop now junk MAX_DRAIN bs s"

section \<open>The cursor sprite\<close>

text \<open>The rows of the arrow: 0 is transparent, 1 white, 2 black.\<close>

definition cursor_bitmap :: "nat list list" where
  "cursor_bitmap =
     [[2,0,0,0,0,0,0,0,0,0,0,0], [2,2,0,0,0,0,0,0,0,0,0,0], [2,1,2,0,0,0,0,0,0,0,0,0], [2,1,1,2,0,0,0,0,0,0,0,0],
      [2,1,1,1,2,0,0,0,0,0,0,0], [2,1,1,1,1,2,0,0,0,0,0,0], [2,1,1,1,1,1,2,0,0,0,0,0], [2,1,1,1,1,1,1,2,0,0,0,0],
      [2,1,1,1,1,1,1,1,2,0,0,0], [2,1,1,1,1,1,1,1,1,2,0,0], [2,1,1,1,1,1,2,2,2,2,2,0], [2,1,1,2,1,1,2,0,0,0,0,0],
      [2,1,2,0,2,1,1,2,0,0,0,0], [2,2,0,0,2,1,1,2,0,0,0,0], [2,0,0,0,0,2,1,1,2,0,0,0], [0,0,0,0,0,2,1,1,2,0,0,0],
      [0,0,0,0,0,0,2,2,0,0,0,0], [0,0,0,0,0,0,0,0,0,0,0,0]]"

definition draw_cursor_pixel :: "addr \<Rightarrow> nat \<Rightarrow> nat \<Rightarrow> mouse \<Rightarrow> nat \<times> nat \<Rightarrow> pixels \<Rightarrow> pixels" where
  "draw_cursor_pixel buffer w h m = (\<lambda>(cy, cx) px.
     let x = posX m + int cx; y = posY m + int cy; code = cursor_bitmap ! cy ! cx
     in if x < 0 \<or> x \<ge> i32_of w \<or> y < 0 \<or> y \<ge> i32_of h then px
        else if code = 1 then px(buffer := (px buffer)(idx32 w (nat x) (nat y) := 0xFFFFFFFF))
        else if code = 2 then px(buffer := (px buffer)(idx32 w (nat x) (nat y) := 0xFF000000))
        else px)"

definition DrawCursor :: "addr \<Rightarrow> nat \<Rightarrow> nat \<Rightarrow> mouse \<Rightarrow> pixels \<Rightarrow> pixels" where
  "DrawCursor buffer w h m px =
     (if \<not> ms_visible m \<or> buffer = 0 then px
      else fold (draw_cursor_pixel buffer w h m) (List.product [0..<18] [0..<12]) px)"


section \<open>Packets\<close>

text \<open>What a mouse sends for a movement and the state of its buttons (y counts upwards).\<close>

record motion =
  mo_dx :: int
  mo_dy :: int
  mo_buttons :: u8

definition motion_ok :: "motion \<Rightarrow> bool" where
  "motion_ok q \<longleftrightarrow> -256 \<le> mo_dx q \<and> mo_dx q < 256 \<and> -256 \<le> mo_dy q \<and> mo_dy q < 256 \<and> mo_buttons q AND 0xF8 = 0"

definition packet_of :: "motion \<Rightarrow> u8 list" where
  "packet_of q = [0x08 OR mo_buttons q OR (if mo_dx q < 0 then 0x10 else 0) OR (if mo_dy q < 0 then 0x20 else 0),
     word_of_int (mo_dx q), word_of_int (mo_dy q)]"

lemma rel_of_packet:
  assumes "-256 \<le> d" and "d < 256"
  shows "rel_of (d < 0) (word_of_int d) = d"
proof -
  have h: "\<forall>d \<in> set [-256..255]. rel_of (d < 0) (word_of_int d) = d" by code_simp
  have "d \<in> set [-256..255]" unfolding set_upto atLeastAtMost_iff using assms by linarith
  with h show ?thesis by (rule bspec)
qed

lemma packet_bits:
  assumes "b AND 0xF8 = (0 :: u8)"
  shows "(0x08 OR b OR (if nx then 0x10 else 0) OR (if ny then 0x20 else 0)) AND 0x08 \<noteq> 0"
    and "(0x08 OR b OR (if nx then 0x10 else 0) OR (if ny then 0x20 else 0)) AND 0xC0 = 0"
    and "((0x08 OR b OR (if nx then 0x10 else 0) OR (if ny then 0x20 else 0)) AND 0x10 \<noteq> 0) = nx"
    and "((0x08 OR b OR (if nx then 0x10 else 0) OR (if ny then 0x20 else 0)) AND 0x20 \<noteq> 0) = ny"
    and "(0x08 OR b OR (if nx then 0x10 else 0) OR (if ny then 0x20 else 0)) AND 0x07 = b"
proof -
  have h: "\<forall>n \<in> set [0..<256]. \<forall>nx \<in> {True, False}. \<forall>ny \<in> {True, False}.
     let b = word_of_nat n; v = (0x08 OR b OR (if nx then 0x10 else 0) OR (if ny then 0x20 else 0)) :: u8
     in b AND 0xF8 = 0 \<longrightarrow> v AND 0x08 \<noteq> 0 \<and> v AND 0xC0 = 0 \<and> (v AND 0x10 \<noteq> 0) = nx \<and> (v AND 0x20 \<noteq> 0) = ny \<and> v AND 0x07 = b"
    by code_simp
  have "unat b < 2 ^ LENGTH(8)" by (rule unsigned_less)
  then have "unat b \<in> set [0..<256]" by simp
  with h have "\<forall>nx \<in> {True, False}. \<forall>ny \<in> {True, False}.
     let b = word_of_nat (unat b); v = (0x08 OR b OR (if nx then 0x10 else 0) OR (if ny then 0x20 else 0)) :: u8
     in b AND 0xF8 = 0 \<longrightarrow> v AND 0x08 \<noteq> 0 \<and> v AND 0xC0 = 0 \<and> (v AND 0x10 \<noteq> 0) = nx \<and> (v AND 0x20 \<noteq> 0) = ny \<and> v AND 0x07 = b"
    by (rule bspec)
  moreover have "nx \<in> {True, False}" "ny \<in> {True, False}" by simp_all
  moreover have e: "word_of_nat (unat b) = b" by simp
  ultimately have "let v = (0x08 OR b OR (if nx then 0x10 else 0) OR (if ny then 0x20 else 0)) :: u8
     in v AND 0x08 \<noteq> 0 \<and> v AND 0xC0 = 0 \<and> (v AND 0x10 \<noteq> 0) = nx \<and> (v AND 0x20 \<noteq> 0) = ny \<and> v AND 0x07 = b"
    using assms unfolding Let_def e by blast
  then show "(0x08 OR b OR (if nx then 0x10 else 0) OR (if ny then 0x20 else 0)) AND 0x08 \<noteq> 0"
    and "(0x08 OR b OR (if nx then 0x10 else 0) OR (if ny then 0x20 else 0)) AND 0xC0 = 0"
    and "((0x08 OR b OR (if nx then 0x10 else 0) OR (if ny then 0x20 else 0)) AND 0x10 \<noteq> 0) = nx"
    and "((0x08 OR b OR (if nx then 0x10 else 0) OR (if ny then 0x20 else 0)) AND 0x20 \<noteq> 0) = ny"
    and "(0x08 OR b OR (if nx then 0x10 else 0) OR (if ny then 0x20 else 0)) AND 0x07 = b"
    by (unfold Let_def) blast+
qed

section \<open>The driver under a running desktop\<close>

text \<open>The desktop \<open>x\<close> is the registered compositor process and owns the screen of \<open>W\<close> by \<open>V\<close> pixels.\<close>

definition desk_ok :: "'w mouse_sys \<Rightarrow> addr list \<Rightarrow> addr \<Rightarrow> nat \<Rightarrow> nat \<Rightarrow> bool" where
  "desk_ok s ts x W V \<longleftrightarrow>
     userspaceMode (my_wm s) \<and> GetWidth (cp_gfx (my_wm s)) = W \<and> GetHeight (cp_gfx (my_wm s)) = V \<and>
     0 < W \<and> W \<le> 32767 \<and> 0 < V \<and> V \<le> 32767 \<and> 0 < g_compositorPID (my_im s) \<and> ring_ok (my_sched s) ts \<and>
     find (\<lambda>y. t_id (sc_task (my_sched s) y) = g_compositorPID (my_im s)) ts = Some x \<and>
     queue_inv (sc_task (my_sched s) x) \<and> length (packet (my_mouse s)) = 3 \<and> cycle (my_mouse s) < 3"

definition desktop_queue :: "addr \<Rightarrow> 'w mouse_sys \<Rightarrow> OSEvent list" where
  "desktop_queue x s = map (\<lambda>e. e\<lparr>os_ascii := 0\<rparr>) (task_events (sc_task (my_sched s) x))"

text \<open>A queue of 127 places that drops what does not fit.\<close>

definition enqueue :: "OSEvent \<Rightarrow> OSEvent list \<Rightarrow> OSEvent list" where
  "enqueue e q = (if length q < 127 then q @ [e] else q)"

lemma push_ok:
  assumes "desk_ok s ts x W V"
  obtains s' where "push_to_userspace ev s = Some s'" "desk_ok s' ts x W V" "my_mouse s' = my_mouse s"
    "my_focus s' = my_focus s" "my_bufs s' = my_bufs s" "my_wm s' = my_wm s" "my_evdev s' = my_evdev s"
    "desktop_queue x s' = enqueue (ev\<lparr>os_ascii := 0\<rparr>) (desktop_queue x s)"
proof -
  from assms have pid: "0 < g_compositorPID (my_im s)" by (simp add: desk_ok_def)
  from assms have a: "ring_ok (my_sched s) ts"
    "find (\<lambda>y. t_id (sc_task (my_sched s) y) = g_compositorPID (my_im s)) ts = Some x"
    "queue_inv (sc_task (my_sched s) x)" by (simp_all add: desk_ok_def)
  obtain sc where p: "PushEventToTask (g_compositorPID (my_im s)) ev (my_sched s)
      = Some (length (task_events (sc_task (my_sched s) x)) < 127, sc)"
    and q: "if length (task_events (sc_task (my_sched s) x)) < 127
     then task_events (sc_task sc x) = task_events (sc_task (my_sched s) x) @ [ev] \<and> t_state (sc_task sc x) \<noteq> SLEEPING
     else sc_task sc x = sc_task (my_sched s) x \<and> eventDropCount sc = add64 (eventDropCount (my_sched s)) 1"
    and r: "ring_ok sc ts" "find (\<lambda>y. t_id (sc_task sc y) = g_compositorPID (my_im s)) ts = Some x" "queue_inv (sc_task sc x)"
    by (rule PushEventToTask_step [OF a, where ev = ev])
  let ?s = "s\<lparr>my_im := my_im s, my_sched := sc\<rparr>"
  have "push_to_userspace ev s = Some ?s" using pid p by (simp add: push_to_userspace_def im_PushEvent_def)
  moreover have "desk_ok ?s ts x W V" using assms r by (simp add: desk_ok_def)
  moreover have "desktop_queue x ?s = enqueue (ev\<lparr>os_ascii := 0\<rparr>) (desktop_queue x s)"
    using q by (simp add: desktop_queue_def enqueue_def split: if_splits)
  ultimately show ?thesis using that by simp
qed

text \<open>The fields of the state that carry no part of the invariant.\<close>

lemma desk_ok_simps [simp]:
  "desk_ok (s\<lparr>my_evdev := e\<rparr>) ts x W V = desk_ok s ts x W V"
  "desk_ok (s\<lparr>my_focus := f\<rparr>) ts x W V = desk_ok s ts x W V"
  "desk_ok (s\<lparr>my_bufs := b\<rparr>) ts x W V = desk_ok s ts x W V"
  "desk_ok (s\<lparr>my_mouse := (my_mouse s)\<lparr>ms_buttons := u\<rparr>\<rparr>) ts x W V = desk_ok s ts x W V"
  "desk_ok (s\<lparr>my_mouse := (my_mouse s)\<lparr>lastButtons := u\<rparr>\<rparr>) ts x W V = desk_ok s ts x W V"
  "desk_ok (s\<lparr>my_mouse := (my_mouse s)\<lparr>posX := px, posY := py\<rparr>\<rparr>) ts x W V = desk_ok s ts x W V"
  "desktop_queue x (s\<lparr>my_evdev := e\<rparr>) = desktop_queue x s"
  "desktop_queue x (s\<lparr>my_focus := f\<rparr>) = desktop_queue x s"
  "desktop_queue x (s\<lparr>my_bufs := b\<rparr>) = desktop_queue x s"
  "desktop_queue x (s\<lparr>my_mouse := m\<rparr>) = desktop_queue x s"
  by (simp_all add: desk_ok_def desktop_queue_def)

lemma SetFocus_position:
  "mouse_x (fst (SetFocus p i (f, b))) = mouse_x f \<and> mouse_y (fst (SetFocus p i (f, b))) = mouse_y f"
  by (simp add: SetFocus_def)

lemma HandleMouse_position:
  assumes "HandleMouse g dx dy b (f, bufs) = (f', bufs')"
  shows "mouse_x f' = clamp_axis (i32_of (GetWidth g)) (mouse_x f + dx) \<and>
     mouse_y f' = clamp_axis (i32_of (GetHeight g)) (mouse_y f + dy)"
proof -
  define s where "s = f\<lparr>mouse_x := clamp_axis (i32_of (GetWidth g)) (mouse_x f + dx),
                mouse_y := clamp_axis (i32_of (GetHeight g)) (mouse_y f + dy)\<rparr>"
  have f: "f' = fst (HandleMouse g dx dy b (f, bufs))" using assms by simp
  have "mouse_x f' = mouse_x s \<and> mouse_y f' = mouse_y s"
    unfolding f HandleMouse_def prod.case Let_def s_def [symmetric]
    by (simp add: SetFocus_position split: option.split)
  then show ?thesis by (simp add: s_def)
qed

lemma i16_small: "-32768 \<le> v \<Longrightarrow> v < 32768 \<Longrightarrow> i16_of v = v"
  unfolding i16_of_def by (simp add: signed_of_int signed_take_bit_int_eq_self)

definition click_events :: "u8 \<Rightarrow> u8 \<Rightarrow> OSEvent list" where
  "click_events lst b = (if b = lst then [] else [mouse_event 2 0 0 b 0])"

lemma click_part_ok:
  assumes "desk_ok s ts x W V"
  obtains s' where "click_part now junk b s = Some s'" "desk_ok s' ts x W V" "lastButtons (my_mouse s') = b"
    "my_mouse s' = (my_mouse s)\<lparr>lastButtons := b\<rparr>"
    "my_focus s' = my_focus s" "my_bufs s' = my_bufs s" "my_wm s' = my_wm s"
    "desktop_queue x s' = fold enqueue (click_events (lastButtons (my_mouse s)) b) (desktop_queue x s)"
proof (cases "b = lastButtons (my_mouse s)")
  case True
  show ?thesis by (rule that [of s]) (simp_all add: True assms click_part_def click_events_def)
next
  case False
  obtain s1 where s1: "push_to_userspace (mouse_event 2 0 0 b junk) s = Some s1" "desk_ok s1 ts x W V" "my_mouse s1 = my_mouse s"
    "my_focus s1 = my_focus s" "my_bufs s1 = my_bufs s" "my_wm s1 = my_wm s" "my_evdev s1 = my_evdev s"
    "desktop_queue x s1 = enqueue ((mouse_event 2 0 0 b junk)\<lparr>os_ascii := 0\<rparr>) (desktop_queue x s)"
    by (rule push_ok [OF assms])
  let ?s = "s1\<lparr>my_evdev := button_changes now b (lastButtons (my_mouse s1)) (my_evdev s1),
               my_mouse := (my_mouse s1)\<lparr>lastButtons := b\<rparr>\<rparr>"
  have "click_part now junk b s = Some ?s" using False s1(1) by (simp add: click_part_def)
  moreover have "desk_ok ?s ts x W V" using s1(2) by (simp add: desk_ok_def)
  ultimately show ?thesis using that [of ?s] s1(3-6,8) False by (simp add: click_events_def mouse_event_def)
qed

section \<open>From bytes to the desktop\<close>

definition move_event :: "motion \<Rightarrow> OSEvent" where
  "move_event q = mouse_event 1 (mo_dx q) (- mo_dy q) (mo_buttons q) 0"

lemma complete_packet_ok:
  assumes ok: "desk_ok s ts x W V" and q: "motion_ok q" and p: "packet (my_mouse s) = packet_of q"
  obtains s' where "complete_packet now junk s = Some (False, s')" "desk_ok s' ts x W V"
    "cycle (my_mouse s') = cycle (my_mouse s)" "lastButtons (my_mouse s') = mo_buttons q" "ms_buttons (my_mouse s') = mo_buttons q"
    "mouse_x (my_focus s') = clamp_axis (int W) (mouse_x (my_focus s) + mo_dx q)"
    "mouse_y (my_focus s') = clamp_axis (int V) (mouse_y (my_focus s) - mo_dy q)"
    "posX (my_mouse s') = mouse_x (my_focus s')" "posY (my_mouse s') = mouse_y (my_focus s')"
    "desktop_queue x s' = fold enqueue (click_events (lastButtons (my_mouse s)) (mo_buttons q) @ [move_event q]) (desktop_queue x s)"
proof -
  let ?b = "mo_buttons q" and ?s0 = "s\<lparr>my_mouse := (my_mouse s)\<lparr>ms_buttons := mo_buttons q\<rparr>\<rparr>"
  have bits: "packet_of q ! 0 AND 0x07 = ?b" "(packet_of q ! 0 AND 0x10 \<noteq> 0) = (mo_dx q < 0)"
    "(packet_of q ! 0 AND 0x20 \<noteq> 0) = (mo_dy q < 0)"
    using packet_bits [of "mo_buttons q" "mo_dx q < 0" "mo_dy q < 0"] q by (simp_all add: packet_of_def motion_ok_def)
  have rel: "rel_of (mo_dx q < 0) (packet_of q ! 1) = mo_dx q" "rel_of (mo_dy q < 0) (packet_of q ! 2) = mo_dy q"
    using rel_of_packet q by (simp_all add: packet_of_def motion_ok_def)
  have ok0: "desk_ok ?s0 ts x W V" using ok by simp
  obtain s1 where s1: "click_part now junk ?b ?s0 = Some s1" "desk_ok s1 ts x W V" "lastButtons (my_mouse s1) = ?b"
    "my_mouse s1 = (my_mouse ?s0)\<lparr>lastButtons := ?b\<rparr>" "my_focus s1 = my_focus ?s0" "my_bufs s1 = my_bufs ?s0"
    "my_wm s1 = my_wm ?s0"
    "desktop_queue x s1 = fold enqueue (click_events (lastButtons (my_mouse ?s0)) ?b) (desktop_queue x ?s0)"
    by (rule click_part_ok [OF ok0])
  obtain f bufs where h: "HandleMouse (cp_gfx (my_wm s1)) (mo_dx q) (- mo_dy q) ?b (my_focus s1, my_bufs s1) = (f, bufs)"
    by (rule prod.exhaust)
  define s2 where "s2 = s1\<lparr>my_focus := f, my_bufs := bufs,
      my_mouse := (my_mouse s1)\<lparr>posX := i16_of (mouse_x f), posY := i16_of (mouse_y f)\<rparr>\<rparr>"
  have ok2: "desk_ok s2 ts x W V" using s1(2) by (simp add: s2_def desk_ok_def)
  have um: "userspaceMode (my_wm s2)" using ok2 by (simp add: desk_ok_def)
  let ?s3 = "s2\<lparr>my_wm := my_wm s2\<rparr>"
  obtain s4 where s4: "push_to_userspace (mouse_event 1 (mo_dx q) (- mo_dy q) ?b junk) ?s3 = Some s4" "desk_ok s4 ts x W V"
    "my_mouse s4 = my_mouse ?s3" "my_focus s4 = my_focus ?s3" "my_bufs s4 = my_bufs ?s3" "my_wm s4 = my_wm ?s3"
    "my_evdev s4 = my_evdev ?s3"
    "desktop_queue x s4 = enqueue ((mouse_event 1 (mo_dx q) (- mo_dy q) ?b junk)\<lparr>os_ascii := 0\<rparr>) (desktop_queue x ?s3)"
    using ok2 by (rule_tac push_ok [of ?s3 ts x W V]) auto
  let ?s5 = "s4\<lparr>my_evdev := PushSync now (PushRelativeMotion now (mo_dx q) (- mo_dy q) (my_evdev s4))\<rparr>"
  have run: "complete_packet now junk s = Some (False, ?s5)"
    using s1(1) h s4(1) um
    by (simp add: complete_packet_def p bits rel [unfolded One_nat_def] Let_def ProcessMouseEvent_def s2_def)
  have dims: "i32_of (GetWidth (cp_gfx (my_wm s1))) = int W" "i32_of (GetHeight (cp_gfx (my_wm s1))) = int V"
    using s1(2) by (simp_all add: desk_ok_def i32_of_small)
  have pos: "mouse_x f = clamp_axis (int W) (mouse_x (my_focus s) + mo_dx q)"
    "mouse_y f = clamp_axis (int V) (mouse_y (my_focus s) - mo_dy q)"
    using HandleMouse_position [OF h] dims s1(5) by simp_all
  have "0 \<le> mouse_x f" "mouse_x f < 32767" "0 \<le> mouse_y f" "mouse_y f < 32767"
    using pos s1(2) by (auto simp: clamp_axis_def desk_ok_def Let_def)
  then have i: "i16_of (mouse_x f) = mouse_x f" "i16_of (mouse_y f) = mouse_y f" by (simp_all add: i16_small)
  show ?thesis
    by (rule that [OF run])
      (use s4 s1 pos i in \<open>simp_all add: s2_def move_event_def mouse_event_def desktop_queue_def\<close>)
qed

lemma packet_bytes:
  assumes ok: "desk_ok s ts x W V" and q: "motion_ok q" and c: "cycle (my_mouse s) = 0"
  obtains s1 s2 s' where "on_byte n1 j1 (True, packet_of q ! 0) s = Some (False, s1)"
    "on_byte n2 j2 (True, packet_of q ! 1) s1 = Some (False, s2)" "on_byte n3 j3 (True, packet_of q ! 2) s2 = Some (False, s')"
    "desk_ok s' ts x W V" "cycle (my_mouse s') = 0" "lastButtons (my_mouse s') = mo_buttons q" "ms_buttons (my_mouse s') = mo_buttons q"
    "mouse_x (my_focus s') = clamp_axis (int W) (mouse_x (my_focus s) + mo_dx q)"
    "mouse_y (my_focus s') = clamp_axis (int V) (mouse_y (my_focus s) - mo_dy q)"
    "posX (my_mouse s') = mouse_x (my_focus s')" "posY (my_mouse s') = mouse_y (my_focus s')"
    "desktop_queue x s' = fold enqueue (click_events (lastButtons (my_mouse s)) (mo_buttons q) @ [move_event q]) (desktop_queue x s)"
proof -
  let ?m = "my_mouse s"
  have bits: "packet_of q ! 0 AND 0x08 \<noteq> 0" "packet_of q ! 0 AND 0xC0 = 0"
    using packet_bits [of "mo_buttons q" "mo_dx q < 0" "mo_dy q < 0"] q by (simp_all add: packet_of_def motion_ok_def)
  from ok have "length (packet ?m) = Suc (Suc (Suc 0))" by (simp add: desk_ok_def)
  then obtain a b d where p: "packet ?m = [a, b, d]" by (auto simp: length_Suc_conv)
  have pq: "packet_of q = [packet_of q ! 0, packet_of q ! 1, packet_of q ! 2]" by (simp add: packet_of_def)
  define s1 where "s1 = s\<lparr>my_mouse := ?m\<lparr>packet := [packet_of q ! 0, b, d], cycle := 1\<rparr>\<rparr>"
  define s2 where "s2 = s\<lparr>my_mouse := ?m\<lparr>packet := [packet_of q ! 0, packet_of q ! 1, d], cycle := 2\<rparr>\<rparr>"
  define s3 where "s3 = s\<lparr>my_mouse := ?m\<lparr>packet := packet_of q, cycle := 0\<rparr>\<rparr>"
  have r1: "on_byte n1 j1 (True, packet_of q ! 0) s = Some (False, s1)"
    using bits(1) c p by (simp add: on_byte_def s1_def)
  have r2: "on_byte n2 j2 (True, packet_of q ! 1) s1 = Some (False, s2)"
    by (simp add: on_byte_def s1_def s2_def Let_def)
  have r3: "on_byte n3 j3 (True, packet_of q ! 2) s2 = complete_packet n3 j3 s3"
    using bits pq by (simp add: on_byte_def s2_def s3_def Let_def)
  have ok3: "desk_ok s3 ts x W V" using ok by (simp add: s3_def desk_ok_def packet_of_def)
  have p3: "packet (my_mouse s3) = packet_of q" by (simp add: s3_def)
  show ?thesis
    by (rule complete_packet_ok [OF ok3 q p3, of n3 j3], rule that [OF r1 r2])
      (simp_all add: r3 s3_def desktop_queue_def)
qed

text \<open>Every three bytes with bit 3 set and no overflow bit are the packet of some motion.\<close>

lemma packet_decodes:
  assumes "length p = 3" and b: "p ! 0 AND 0x08 \<noteq> 0" "p ! 0 AND 0xC0 = 0"
  obtains q where "motion_ok q" "packet_of q = p"
proof -
  from assms(1) have "length p = Suc (Suc (Suc 0))" by simp
  then obtain f d e where p: "p = [f, d, e]" by (auto simp: length_Suc_conv)
  have h: "\<forall>n \<in> set [0..<256]. let b = word_of_nat n :: u8 in
      (\<forall>neg \<in> {True, False}. let v = rel_of neg b in word_of_int v = b \<and> (v < 0) = neg \<and> -256 \<le> v \<and> v < 256) \<and>
      (b AND 0x08 \<noteq> 0 \<and> b AND 0xC0 = 0 \<longrightarrow>
         0x08 OR (b AND 0x07) OR (if b AND 0x10 \<noteq> 0 then 0x10 else 0) OR (if b AND 0x20 \<noteq> 0 then 0x20 else 0) = b) \<and>
      (b AND 0x07) AND 0xF8 = 0" by code_simp
  have all: "let b = u in (\<forall>neg \<in> {True, False}. let v = rel_of neg b in word_of_int v = b \<and> (v < 0) = neg \<and> -256 \<le> v \<and> v < 256) \<and>
      (b AND 0x08 \<noteq> 0 \<and> b AND 0xC0 = 0 \<longrightarrow>
         0x08 OR (b AND 0x07) OR (if b AND 0x10 \<noteq> 0 then 0x10 else 0) OR (if b AND 0x20 \<noteq> 0 then 0x20 else 0) = b) \<and>
      (b AND 0x07) AND 0xF8 = 0" for u :: u8
  proof -
    have "unat u < 2 ^ LENGTH(8)" by (rule unsigned_less)
    then have "unat u \<in> set [0..<256]" by simp
    from bspec [OF h this] have "let b = word_of_nat (unat u) :: u8 in
      (\<forall>neg \<in> {True, False}. let v = rel_of neg b in word_of_int v = b \<and> (v < 0) = neg \<and> -256 \<le> v \<and> v < 256) \<and>
      (b AND 0x08 \<noteq> 0 \<and> b AND 0xC0 = 0 \<longrightarrow>
         0x08 OR (b AND 0x07) OR (if b AND 0x10 \<noteq> 0 then 0x10 else 0) OR (if b AND 0x20 \<noteq> 0 then 0x20 else 0) = b) \<and>
      (b AND 0x07) AND 0xF8 = 0" .
    moreover have "word_of_nat (unat u) = u" by simp
    ultimately show ?thesis by (simp only:)
  qed
  have nx: "(f AND 0x10 \<noteq> 0) \<in> {True, False}" "(f AND 0x20 \<noteq> 0) \<in> {True, False}" by simp_all
  let ?q = "\<lparr>mo_dx = rel_of (f AND 0x10 \<noteq> 0) d, mo_dy = rel_of (f AND 0x20 \<noteq> 0) e, mo_buttons = f AND 0x07\<rparr>"
  note D = bspec [OF conjunct1 [OF all [of d, unfolded Let_def]] nx(1), unfolded Let_def]
  note E = bspec [OF conjunct1 [OF all [of e, unfolded Let_def]] nx(2), unfolded Let_def]
  note F = conjunct2 [OF all [of f, unfolded Let_def]]
  have f: "f AND 0x08 \<noteq> 0" "f AND 0xC0 = 0" using b by (simp_all add: p)
  have lt: "(rel_of (f AND 0x10 \<noteq> 0) d < 0) = (f AND 0x10 \<noteq> 0)" "(rel_of (f AND 0x20 \<noteq> 0) e < 0) = (f AND 0x20 \<noteq> 0)"
    using D E by blast+
  have "motion_ok ?q" using D E F unfolding motion_ok_def motion.select_convs by blast
  moreover have "packet_of ?q = p"
    unfolding packet_of_def motion.select_convs lt p using D E F f by (simp only: list.inject simp_thms)
  ultimately show ?thesis by (rule that)
qed

lemma on_byte_ok:
  assumes ok: "desk_ok s ts x W V"
  obtains s' where "on_byte now junk b s = Some (False, s')" "desk_ok s' ts x W V"
proof -
  obtain aux d where b: "b = (aux, d)" by (rule prod.exhaust)
  let ?m = "my_mouse s" let ?p = "(packet ?m)[cycle ?m := d]"
  have l: "length ?p = 3" "cycle ?m < 3" using ok by (simp_all add: desk_ok_def)
  consider (skip) "\<not> aux \<and> cycle ?m = 0 \<or> cycle ?m = 0 \<and> d AND 0x08 = 0" | (more) "\<not> (\<not> aux \<and> cycle ?m = 0)"
      "\<not> (cycle ?m = 0 \<and> d AND 0x08 = 0)" "cycle ?m < 2" | (bad) "cycle ?m = 2" "?p ! 0 AND 0x08 = 0 \<or> ?p ! 0 AND 0xC0 \<noteq> 0"
    | (full) "cycle ?m = 2" "?p ! 0 AND 0x08 \<noteq> 0" "?p ! 0 AND 0xC0 = 0"
    using l by linarith
  then show ?thesis
  proof cases
    case skip
    then have "on_byte now junk b s = Some (False, s)" by (auto simp: on_byte_def b Let_def)
    with ok that show ?thesis by blast
  next
    case more
    then have "on_byte now junk b s = Some (False, s\<lparr>my_mouse := ?m\<lparr>packet := ?p, cycle := cycle ?m + 1\<rparr>\<rparr>)"
      by (auto simp: on_byte_def b Let_def)
    moreover have "desk_ok (s\<lparr>my_mouse := ?m\<lparr>packet := ?p, cycle := cycle ?m + 1\<rparr>\<rparr>) ts x W V"
      using ok more by (simp add: desk_ok_def)
    ultimately show ?thesis using that by blast
  next
    case bad
    then have "on_byte now junk b s = Some (False, s\<lparr>my_mouse := ?m\<lparr>packet := ?p, cycle := 0\<rparr>\<rparr>)"
      by (auto simp: on_byte_def b Let_def)
    moreover have "desk_ok (s\<lparr>my_mouse := ?m\<lparr>packet := ?p, cycle := 0\<rparr>\<rparr>) ts x W V" using ok by (simp add: desk_ok_def)
    ultimately show ?thesis using that by blast
  next
    case full
    let ?s = "s\<lparr>my_mouse := ?m\<lparr>packet := ?p, cycle := 0\<rparr>\<rparr>"
    obtain q where q: "motion_ok q" "packet_of q = ?p" by (rule packet_decodes [OF l(1) full(2,3)])
    have "desk_ok ?s ts x W V" using ok by (simp add: desk_ok_def)
    from complete_packet_ok [OF this q(1), of now junk] q(2) obtain s' where
      "complete_packet now junk ?s = Some (False, s')" "desk_ok s' ts x W V" by auto
    moreover have "on_byte now junk b s = complete_packet now junk ?s"
      using full by (simp add: on_byte_def b Let_def)
    ultimately show ?thesis using that by simp
  qed
qed

section \<open>Interrupts\<close>

text \<open>The interrupts as they come: the time, what the uninitialised field holds, and the bytes that have arrived
  since the last one; each reads up to 16 of the bytes that are pending.\<close>

fun run_irqs :: "(nat \<times> nat \<times> (bool \<times> u8) list) list \<Rightarrow> (bool \<times> u8) list \<Rightarrow> 'w mouse_sys
    \<Rightarrow> ((bool \<times> u8) list \<times> 'w mouse_sys) option" where
  "run_irqs [] pend s = Some (pend, s)"
| "run_irqs ((now, junk, bs) # irqs) pend s =
     Option.bind (ms_OnInterrupt now junk (pend @ bs) s) (\<lambda>(rest, s1). run_irqs irqs rest s1)"

text \<open>The machine that takes one byte at a time, each with the time of the interrupt that reads it.\<close>

fun feed :: "(nat \<times> nat \<times> bool \<times> u8) list \<Rightarrow> 'w mouse_sys \<Rightarrow> 'w mouse_sys option" where
  "feed [] s = Some s"
| "feed ((now, junk, b) # es) s = Option.bind (on_byte now junk b s) (\<lambda>(stop, s1). feed es s1)"

abbreviation bytes_of :: "(nat \<times> nat \<times> 'b) list \<Rightarrow> 'b list" where
  "bytes_of \<equiv> map (\<lambda>e. snd (snd e))"

lemma irq_loop_feed:
  assumes "desk_ok s ts x W V"
  shows "\<exists>es rest s'. irq_loop now junk n bs s = Some (rest, s') \<and> bs = bytes_of es @ rest \<and> feed es s = Some s' \<and> desk_ok s' ts x W V"
  using assms
proof (induction n arbitrary: bs s)
  case 0
  then show ?case by (intro exI [of _ "[]"] exI [of _ bs] exI [of _ s]) simp
next
  case (Suc n)
  show ?case
  proof (cases bs)
    case Nil
    with Suc.prems show ?thesis by (intro exI [of _ "[]"] exI [of _ s]) simp
  next
    case (Cons b cs)
    obtain s1 where s1: "on_byte now junk b s = Some (False, s1)" "desk_ok s1 ts x W V" by (rule on_byte_ok [OF Suc.prems])
    from Suc.IH [OF s1(2), of cs] obtain es rest s' where
      "irq_loop now junk n cs s1 = Some (rest, s')" "cs = bytes_of es @ rest" "feed es s1 = Some s'" "desk_ok s' ts x W V" by blast
    with s1 Cons show ?thesis by (intro exI [of _ "(now, junk, b) # es"]) simp
  qed
qed

lemma feed_append: "feed (es @ fs) s = Option.bind (feed es s) (feed fs)"
  by (induction es s rule: feed.induct) (simp_all split: Option.bind_split prod.split)

lemma run_irqs_feed:
  assumes "desk_ok s ts x W V"
  shows "\<exists>es rest s'. run_irqs irqs pend s = Some (rest, s') \<and> pend @ concat (bytes_of irqs) = bytes_of es @ rest \<and>
    feed es s = Some s' \<and> desk_ok s' ts x W V"
  using assms
proof (induction irqs arbitrary: pend s)
  case Nil
  then show ?case by (intro exI [of _ "[]"] exI [of _ pend] exI [of _ s]) simp
next
  case (Cons i irqs)
  obtain now junk bs where i: "i = (now, junk, bs)" by (metis prod_cases3)
  from irq_loop_feed [OF Cons.prems, of now junk 16 "pend @ bs"] obtain es rest s1 where
    1: "irq_loop now junk 16 (pend @ bs) s = Some (rest, s1)" "pend @ bs = bytes_of es @ rest" "feed es s = Some s1"
      "desk_ok s1 ts x W V" by blast
  from Cons.IH [OF 1(4), of rest] obtain fs rest' s' where
    2: "run_irqs irqs rest s1 = Some (rest', s')" "rest @ concat (bytes_of irqs) = bytes_of fs @ rest'" "feed fs s1 = Some s'"
      "desk_ok s' ts x W V" by blast
  have "run_irqs (i # irqs) pend s = Some (rest', s')" using 1(1) 2(1) unfolding i run_irqs.simps ms_OnInterrupt_def by simp
  moreover have "pend @ concat (bytes_of (i # irqs)) = bytes_of (es @ fs) @ rest'"
    using 1(2) 2(2) unfolding i by (simp, metis append.assoc)
  moreover have "feed (es @ fs) s = Some s'" using 1(3) 2(3) by (simp add: feed_append)
  ultimately show ?case using 2(4) by blast
qed

text \<open>A stream of packets, each preceded by noise: keyboard bytes, and bytes that cannot begin a packet.\<close>

definition noise :: "(bool \<times> u8) list \<Rightarrow> bool" where
  "noise bs \<longleftrightarrow> (\<forall>(aux, d) \<in> set bs. \<not> aux \<or> d AND 0x08 = 0)"

definition stream_bytes :: "((bool \<times> u8) list \<times> motion) list \<Rightarrow> (bool \<times> u8) list" where
  "stream_bytes qs = concat (map (\<lambda>(ns, q). ns @ map (Pair True) (packet_of q)) qs)"

lemma feed_noise:
  assumes "cycle (my_mouse s) = 0"
  shows "noise (bytes_of es) \<Longrightarrow> feed es s = Some s"
proof (induction es)
  case (Cons e es)
  obtain now junk aux d where e: "e = (now, junk, aux, d)" by (metis prod_cases4)
  have "on_byte now junk (aux, d) s = Some (False, s)"
    using assms Cons.prems by (auto simp: on_byte_def noise_def e Let_def)
  moreover have "noise (bytes_of es)" using Cons.prems by (simp add: noise_def)
  ultimately show ?case using Cons.IH by (simp add: e)
qed simp

text \<open>What the desktop should see: the cursor, and the events in its queue.\<close>

definition move_cursor :: "nat \<Rightarrow> nat \<Rightarrow> motion \<Rightarrow> int \<times> int \<Rightarrow> int \<times> int" where
  "move_cursor W V q = (\<lambda>(cx, cy). (clamp_axis (int W) (cx + mo_dx q), clamp_axis (int V) (cy - mo_dy q)))"

fun desktop_events :: "u8 \<Rightarrow> motion list \<Rightarrow> OSEvent list" where
  "desktop_events b [] = []"
| "desktop_events b (q # qs) = click_events b (mo_buttons q) @ move_event q # desktop_events (mo_buttons q) qs"

abbreviation cursor :: "'w mouse_sys \<Rightarrow> int \<times> int" where
  "cursor s \<equiv> (mouse_x (my_focus s), mouse_y (my_focus s))"

lemma feed_stream:
  assumes "desk_ok s ts x W V" and "cycle (my_mouse s) = 0" and "\<forall>(ns, q) \<in> set qs. noise ns \<and> motion_ok q"
    and "bytes_of es = stream_bytes qs" and "(posX (my_mouse s), posY (my_mouse s)) = cursor s"
  shows "\<exists>s'. feed es s = Some s' \<and> cycle (my_mouse s') = 0 \<and> cursor s' = fold (move_cursor W V) (map snd qs) (cursor s) \<and>
    (posX (my_mouse s'), posY (my_mouse s')) = cursor s' \<and>
    desktop_queue x s' = fold enqueue (desktop_events (lastButtons (my_mouse s)) (map snd qs)) (desktop_queue x s)"
  using assms
proof (induction qs arbitrary: es s)
  case Nil
  then show ?case by (simp add: stream_bytes_def)
next
  case (Cons nq qs)
  obtain ns q where nq: "nq = (ns, q)" by (rule prod.exhaust)
  have q: "motion_ok q" and ns: "noise ns" using Cons.prems(3) by (auto simp: nq)
  have mp: "map (Pair True) (packet_of q) = [(True, packet_of q ! 0), (True, packet_of q ! 1), (True, packet_of q ! 2)]"
    by (simp add: packet_of_def)
  have sb: "bytes_of es = ns @ (True, packet_of q ! 0) # (True, packet_of q ! 1) # (True, packet_of q ! 2) # stream_bytes qs"
    using Cons.prems(4) by (simp add: stream_bytes_def nq mp)
  obtain e0 n1 j1 n2 j2 n3 j3 es' where es: "es = e0 @ (n1, j1, True, packet_of q ! 0) # (n2, j2, True, packet_of q ! 1) #
      (n3, j3, True, packet_of q ! 2) # es'" and e0: "bytes_of e0 = ns" and es': "bytes_of es' = stream_bytes qs"
    using sb by (auto simp: map_eq_append_conv map_eq_Cons_conv)
  obtain s1 s2 s3 where r: "on_byte n1 j1 (True, packet_of q ! 0) s = Some (False, s1)"
    "on_byte n2 j2 (True, packet_of q ! 1) s1 = Some (False, s2)" "on_byte n3 j3 (True, packet_of q ! 2) s2 = Some (False, s3)"
    and t: "desk_ok s3 ts x W V" "cycle (my_mouse s3) = 0" "lastButtons (my_mouse s3) = mo_buttons q" "ms_buttons (my_mouse s3) = mo_buttons q"
    "mouse_x (my_focus s3) = clamp_axis (int W) (mouse_x (my_focus s) + mo_dx q)"
    "mouse_y (my_focus s3) = clamp_axis (int V) (mouse_y (my_focus s) - mo_dy q)"
    "posX (my_mouse s3) = mouse_x (my_focus s3)" "posY (my_mouse s3) = mouse_y (my_focus s3)"
    "desktop_queue x s3 = fold enqueue (click_events (lastButtons (my_mouse s)) (mo_buttons q) @ [move_event q]) (desktop_queue x s)"
    by (rule packet_bytes [OF Cons.prems(1) q Cons.prems(2), of n1 j1 n2 j2 n3 j3])
  have f: "feed es s = feed es' s3"
    using feed_noise [OF Cons.prems(2), of e0] ns r unfolding e0 [symmetric] es feed_append by simp
  have cur: "cursor s3 = move_cursor W V q (cursor s)" using t(5,6) by (simp add: move_cursor_def)
  have rest: "\<forall>(ns, q) \<in> set qs. noise ns \<and> motion_ok q" using Cons.prems(3) by simp
  have sync: "(posX (my_mouse s3), posY (my_mouse s3)) = cursor s3" using t(7,8) by simp
  from Cons.IH [OF t(1,2) rest es' sync] obtain s' where ih: "feed es' s3 = Some s'" "cycle (my_mouse s') = 0"
    "cursor s' = fold (move_cursor W V) (map snd qs) (cursor s3)" "(posX (my_mouse s'), posY (my_mouse s')) = cursor s'"
    "desktop_queue x s' = fold enqueue (desktop_events (lastButtons (my_mouse s3)) (map snd qs)) (desktop_queue x s3)" by blast
  have "cursor s' = fold (move_cursor W V) (map snd (nq # qs)) (cursor s)"
    unfolding ih(3) cur by (simp add: nq)
  moreover have "desktop_queue x s' = fold enqueue (desktop_events (lastButtons (my_mouse s)) (map snd (nq # qs))) (desktop_queue x s)"
    unfolding ih(5) t(3,9) by (simp add: nq)
  moreover have "feed es s = Some s'" using f ih(1) by simp
  ultimately show ?case using ih(2,4) by blast
qed

section \<open>The theorem\<close>

text \<open>C33. However the bytes of a stream of mouse packets are spread over interrupts, and whatever keyboard
  bytes and garbage stand between the packets: every interrupt returns, and once all bytes have been read the
  cursor is where the clamped sum of the motions puts it and the queue of the desktop got, in order, a
  click event for each change of the buttons and a move event for each packet (up to its capacity).\<close>

theorem mouse_stream_reaches_desktop:
  assumes "desk_ok s ts x W V" and "cycle (my_mouse s) = 0" and "\<forall>(ns, q) \<in> set qs. noise ns \<and> motion_ok q"
    and "concat (bytes_of irqs) = stream_bytes qs" and "(posX (my_mouse s), posY (my_mouse s)) = cursor s"
  shows "\<exists>rest s'. run_irqs irqs [] s = Some (rest, s') \<and> desk_ok s' ts x W V \<and>
    (rest = [] \<longrightarrow> cursor s' = fold (move_cursor W V) (map snd qs) (cursor s) \<and>
       (posX (my_mouse s'), posY (my_mouse s')) = cursor s' \<and>
       desktop_queue x s' = fold enqueue (desktop_events (lastButtons (my_mouse s)) (map snd qs)) (desktop_queue x s))"
proof -
  from run_irqs_feed [OF assms(1), of irqs "[]"] obtain es rest s' where
    r: "run_irqs irqs [] s = Some (rest, s')" "concat (bytes_of irqs) = bytes_of es @ rest" "feed es s = Some s'"
      "desk_ok s' ts x W V" by auto
  show ?thesis
  proof (cases "rest = []")
    case True
    with r(2) assms(4) have "bytes_of es = stream_bytes qs" by simp
    from feed_stream [OF assms(1-3) this assms(5)] r True show ?thesis by auto
  next
    case False
    with r show ?thesis by blast
  qed
qed

lemma irq_loop_rest:
  assumes "desk_ok s ts x W V" and "irq_loop now junk n bs s = Some (rest, s')"
  shows "rest = drop n bs \<and> desk_ok s' ts x W V"
  using assms
proof (induction n arbitrary: bs s)
  case (Suc n)
  show ?case
  proof (cases bs)
    case (Cons b cs)
    obtain s1 where s1: "on_byte now junk b s = Some (False, s1)" "desk_ok s1 ts x W V" by (rule on_byte_ok [OF Suc.prems(1)])
    with Suc.prems(2) Cons have "irq_loop now junk n cs s1 = Some (rest, s')" by simp
    from Suc.IH [OF s1(2) this] Cons show ?thesis by simp
  qed (use Suc.prems in simp)
qed simp

text \<open>A desktop on a screen of 640 by 480 with the cursor at (100, 100).\<close>

definition demo_mouse_sys :: "unit mouse_sys" where
  "demo_mouse_sys =
     \<lparr>my_mouse = \<lparr>posX = 100, posY = 100, ms_buttons = 0, lastButtons = 0, maxX = 1024, maxY = 768, ms_visible = True, cycle = 0,
        packet = [0, 0, 0], cursorVisibility = HIDDEN, currentContext = TEXT_SHELL\<rparr>,
      my_focus = \<lparr>focused_pid = 0, focused_buffer_id = 0, mouse_owner_pid = 0, mouse_x = 100, mouse_y = 100, fs_dragging = False,
        drag_buffer_id = 0, drag_offset_x = 0, drag_offset_y = 0\<rparr>,
      my_bufs = \<lparr>bm_buffers = [], active_buffer_count = 0, next_buffer_id = 1, bm_heap = kheap_Init (\<lambda>_. undefined) 65536 32768,
        bm_px = (\<lambda>_ _. 0)\<rparr>,
      my_wm = demo_wm\<lparr>userspaceMode := True, cp_gfx := demo_gfx\<lparr>g_width := 640, g_height := 480\<rparr>\<rparr>,
      my_im = demo_im\<lparr>g_compositorPID := 2\<rparr>, my_sched = demo_sched 4096 READY, my_evdev = demo_evdev\<rparr>"

lemma demo_desk_ok: "desk_ok demo_mouse_sys [4096, 8192, 12288] 12288 640 480"
  using demo_ring [of 4096 READY]
  by (simp add: desk_ok_def demo_mouse_sys_def GetWidth_def GetHeight_def queue_inv_def demo_sched_def demo_task_def zero_task_def
      task_events_def queue_len_def demo_im_def)

text \<open>A key, then a packet in two parts: left button down, 5 to the right, 2 down.\<close>

theorem mouse_stream_reaches_desktop_witness:
  "\<exists>s'. run_irqs [(10, 7, [(False, 0x1E), (True, 0x29)]), (11, 9, [(True, 0x05), (True, 0xFE)])] [] demo_mouse_sys = Some ([], s') \<and>
     cursor s' = (105, 102) \<and> length (task_events (sc_task (my_sched s') 12288)) = 2"
proof -
  let ?q = "\<lparr>mo_dx = 5, mo_dy = -2, mo_buttons = 1\<rparr>"
  let ?irqs = "[(10, 7, [(False, 0x1E), (True, 0x29)]), (11, 9, [(True, 0x05), (True, 0xFE)])] :: (nat \<times> nat \<times> (bool \<times> u8) list) list"
  have a: "\<forall>(ns, q) \<in> set [([(False, 0x1E)], ?q)]. noise ns \<and> motion_ok q" by (simp add: noise_def motion_ok_def)
  have b: "concat (bytes_of ?irqs) = stream_bytes [([(False, 0x1E)], ?q)]" by (simp add: stream_bytes_def packet_of_def)
  have c: "cycle (my_mouse demo_mouse_sys) = 0"
    "(posX (my_mouse demo_mouse_sys), posY (my_mouse demo_mouse_sys)) = cursor demo_mouse_sys"
    "cursor demo_mouse_sys = (100, 100)" "lastButtons (my_mouse demo_mouse_sys) = 0" by (simp_all add: demo_mouse_sys_def)
  have q: "desktop_queue 12288 demo_mouse_sys = []"
    by (simp add: desktop_queue_def demo_mouse_sys_def demo_sched_def demo_task_def zero_task_def task_events_def queue_len_def)
  from mouse_stream_reaches_desktop [OF demo_desk_ok c(1) a b c(2)] obtain rest s' where
    r: "run_irqs ?irqs [] demo_mouse_sys = Some (rest, s')"
    and t: "rest = [] \<longrightarrow> cursor s' = fold (move_cursor 640 480) [?q] (100, 100) \<and>
       desktop_queue 12288 s' = fold enqueue (desktop_events 0 [?q]) []"
    unfolding q c(3,4) by auto
  from r obtain s1 where "irq_loop 10 7 16 ([] @ [(False, 0x1E), (True, 0x29)]) demo_mouse_sys = Some (s1)"
    unfolding run_irqs.simps ms_OnInterrupt_def by (auto split: Option.bind_splits)
  moreover obtain r1 s2 where "s1 = (r1, s2)" by (rule prod.exhaust)
  ultimately have i1: "irq_loop 10 7 16 ([] @ [(False, 0x1E), (True, 0x29)]) demo_mouse_sys = Some (r1, s2)" by simp
  note o1 = irq_loop_rest [OF demo_desk_ok i1]
  from r i1 o1 have "irq_loop 11 9 16 ([] @ [(True, 0x05), (True, 0xFE)]) s2 = Some (rest, s')"
    unfolding run_irqs.simps ms_OnInterrupt_def by (auto split: Option.bind_splits)
  from irq_loop_rest [OF conjunct2 [OF o1] this] have "rest = []" by simp
  moreover have "length (desktop_queue 12288 s') = length (task_events (sc_task (my_sched s') 12288))"
    by (simp add: desktop_queue_def)
  ultimately show ?thesis using r t
    by (auto simp: move_cursor_def clamp_axis_def enqueue_def click_events_def)
qed
end
