(* ===== verification/Rtc.thy ===== *)
theory Rtc
  imports Prelude
begin

text \<open>
  The real-time clock reader of \<^verbatim>\<open>kernel/hal/arch/x86_64/syscall.cpp\<close> (\<^verbatim>\<open>CmosRead\<close> to
  \<^verbatim>\<open>ReadRtcStable\<close>).  The chip is a function from the number of reads made so far and the register to the
  value read, so its contents may change between any two reads; the reader threads that count.  The
  loops that wait for the update flag without a bound are a partial function: \<open>None\<close> means that the
  call does not return, which a clock that is always updating causes.
\<close>

section \<open>Reading the chip\<close>

type_synonym cmos = "nat \<Rightarrow> nat \<Rightarrow> u8"

record MorphicDateTime =
  dt_year :: u16
  dt_month :: u8
  dt_day :: u8
  dt_hour :: u8
  dt_minute :: u8
  dt_second :: u8
  dt_valid :: u8
  dt_reserved0 :: u8

definition CmosRead :: "cmos \<Rightarrow> nat \<Rightarrow> nat \<Rightarrow> u8 \<times> nat" where
  "CmosRead c reg t = (c t reg, t + 1)"

definition RtcUpdateInProgress :: "cmos \<Rightarrow> nat \<Rightarrow> bool \<times> nat" where
  "RtcUpdateInProgress c t = (let (v, t1) = CmosRead c 0x0A t in (v AND 0x80 \<noteq> 0, t1))"

definition FromBcd :: "u8 \<Rightarrow> u8" where
  "FromBcd v = (v AND 0x0F) + drop_bit 4 v * 10"

text \<open>The bounded wait; \<open>n\<close> is the number of rounds left.\<close>

fun bounded_wait :: "nat \<Rightarrow> cmos \<Rightarrow> nat \<Rightarrow> nat" where
  "bounded_wait 0 c t = t"
| "bounded_wait (Suc n) c t =
     (let (busy, t1) = RtcUpdateInProgress c t in if \<not> busy then t1 else bounded_wait n c t1)"

partial_function (option) wait_update :: "cmos \<Rightarrow> nat \<Rightarrow> nat option" where
  "wait_update c t =
     (let (busy, t1) = RtcUpdateInProgress c t in if busy then wait_update c t1 else Some t1)"

text \<open>One round of reads: seconds, minutes, hours, day, month, year, century, register B.\<close>

record snapshot =
  r_sec :: u8
  r_min :: u8
  r_hour :: u8
  r_day :: u8
  r_mon :: u8
  r_year :: u8
  r_cent :: u8
  r_regB :: u8

definition read_round :: "cmos \<Rightarrow> nat \<Rightarrow> snapshot \<times> nat" where
  "read_round c t =
     (let (sec, t1) = CmosRead c 0x00 t; (min, t2) = CmosRead c 0x02 t1; (hour, t3) = CmosRead c 0x04 t2;
          (day, t4) = CmosRead c 0x07 t3; (mon, t5) = CmosRead c 0x08 t4; (year, t6) = CmosRead c 0x09 t5;
          (cent, t7) = CmosRead c 0x32 t6; (regB, t8) = CmosRead c 0x0B t7
      in (\<lparr>r_sec = sec, r_min = min, r_hour = hour, r_day = day, r_mon = mon, r_year = year, r_cent = cent,
           r_regB = regB\<rparr>, t8))"

text \<open>The loop over the attempts: it leaves with the second round of the first attempt whose two rounds
  agree, or with that of the last attempt.\<close>

fun attempt_loop :: "nat \<Rightarrow> cmos \<Rightarrow> nat \<Rightarrow> snapshot \<Rightarrow> (snapshot \<times> nat) option" where
  "attempt_loop 0 c t lst = Some (lst, t)"
| "attempt_loop (Suc n) c t lst =
     Option.bind (wait_update c t) (\<lambda>t1. let (s1, t2) = read_round c t1 in
       Option.bind (wait_update c t2) (\<lambda>t3. let (s2, t4) = read_round c t3 in
         if s1 = s2 then Some (s2, t4) else attempt_loop n c t4 s2))"

section \<open>Decoding\<close>

definition decode_byte :: "bool \<Rightarrow> u8 \<Rightarrow> u8" where
  "decode_byte isBinary v = (if isBinary then v else FromBcd v)"

definition decode_hour :: "bool \<Rightarrow> bool \<Rightarrow> u8 \<Rightarrow> u8" where
  "decode_hour isBinary is24h hourRaw =
     (if \<not> is24h
      then let pm = hourRaw AND 0x80 \<noteq> 0;
               hour = decode_byte isBinary (hourRaw AND 0x7F);
               hour1 = (if hour = 12 then 0 else hour)
           in if pm then hour1 + 12 else hour1
      else decode_byte isBinary hourRaw)"

definition decode :: "snapshot \<Rightarrow> MorphicDateTime" where
  "decode s =
     (let isBinary = r_regB s AND 0x04 \<noteq> 0;
          is24h = r_regB s AND 0x02 \<noteq> 0;
          year = decode_byte isBinary (r_year s);
          cent = decode_byte isBinary (r_cent s);
          fullYear = (if cent \<noteq> 0 then ucast cent * 100 + ucast year else 2000 + ucast year :: u16)
      in \<lparr>dt_year = fullYear, dt_month = decode_byte isBinary (r_mon s), dt_day = decode_byte isBinary (r_day s),
          dt_hour = decode_hour isBinary is24h (r_hour s), dt_minute = decode_byte isBinary (r_min s),
          dt_second = decode_byte isBinary (r_sec s), dt_valid = 1, dt_reserved0 = 0\<rparr>)"

text \<open>\<open>undef\<close> stands for the uninitialised locals, which the first attempt overwrites.\<close>

definition ReadRtcStable :: "snapshot \<Rightarrow> cmos \<Rightarrow> nat \<Rightarrow> (MorphicDateTime \<times> nat) option" where
  "ReadRtcStable undef c t =
     Option.bind (attempt_loop 8 c (bounded_wait 100000 c t) undef) (\<lambda>(s, t1). Some (decode s, t1))"

section \<open>What a chip in one of the four formats holds\<close>

text \<open>A calendar time and the bytes that show it: binary or BCD, 24 hours or 12 hours with the PM flag in bit
  7, with the century register in use or left at 0.\<close>

record moment =
  m_year :: nat
  m_month :: nat
  m_day :: nat
  m_hour :: nat
  m_minute :: nat
  m_second :: nat

definition moment_ok :: "moment \<Rightarrow> bool" where
  "moment_ok d \<longleftrightarrow> m_year d \<in> {100..9999} \<and> m_month d \<in> {1..12} \<and> m_day d \<in> {1..31} \<and> m_hour d < 24 \<and>
     m_minute d < 60 \<and> m_second d < 60"

definition enc :: "bool \<Rightarrow> nat \<Rightarrow> u8" where
  "enc bin v = word_of_nat (if bin then v else 16 * (v div 10) + v mod 10)"

definition enc_hour :: "bool \<Rightarrow> bool \<Rightarrow> nat \<Rightarrow> u8" where
  "enc_hour bin h24 h =
     (if h24 then enc bin h
      else enc bin (if h mod 12 = 0 then 12 else h mod 12) OR (if h \<ge> 12 then 0x80 else 0))"

definition shows_moment :: "cmos \<Rightarrow> nat \<Rightarrow> bool \<Rightarrow> bool \<Rightarrow> bool \<Rightarrow> moment \<Rightarrow> bool" where
  "shows_moment c t bin h24 century d \<longleftrightarrow>
     c t 0x00 = enc bin (m_second d) \<and> c t 0x02 = enc bin (m_minute d) \<and> c t 0x04 = enc_hour bin h24 (m_hour d) \<and>
     c t 0x07 = enc bin (m_day d) \<and> c t 0x08 = enc bin (m_month d) \<and> c t 0x09 = enc bin (m_year d mod 100) \<and>
     c t 0x32 = (if century then enc bin (m_year d div 100) else 0) \<and>
     (c t 0x0B AND 0x04 \<noteq> 0 \<longleftrightarrow> bin) \<and> (c t 0x0B AND 0x02 \<noteq> 0 \<longleftrightarrow> h24)"

lemma decode_enc: "v < 100 \<Longrightarrow> decode_byte bin (enc bin v) = word_of_nat v"
proof -
  assume v: "v < 100"
  have "\<forall>v \<in> set [0..<100]. decode_byte False (enc False v) = (word_of_nat v :: u8)" by code_simp
  with v show ?thesis by (cases bin) (auto simp: decode_byte_def enc_def)
qed

lemma decode_enc_hour: "h < 24 \<Longrightarrow> decode_hour bin h24 (enc_hour bin h24 h) = word_of_nat h"
proof -
  assume h: "h < 24"
  have "\<forall>h \<in> set [0..<24]. \<forall>bin \<in> {True, False}. decode_hour bin False (enc_hour bin False h) = (word_of_nat h :: u8)"
    by code_simp
  with h show ?thesis using decode_enc [of h bin] by (cases h24; cases bin) (auto simp: decode_hour_def enc_hour_def)
qed


definition date_of :: "moment \<Rightarrow> MorphicDateTime" where
  "date_of d = \<lparr>dt_year = word_of_nat (m_year d), dt_month = word_of_nat (m_month d), dt_day = word_of_nat (m_day d),
     dt_hour = word_of_nat (m_hour d), dt_minute = word_of_nat (m_minute d), dt_second = word_of_nat (m_second d),
     dt_valid = 1, dt_reserved0 = 0\<rparr>"

text \<open>A clock: at every time it shows a valid moment in one fixed format, its update flag goes down again and
  again, and when the flag is down the contents stay as they are for the next eight reads (the chip
  announces an update 244 microseconds ahead).\<close>

definition clock :: "cmos \<Rightarrow> bool \<Rightarrow> bool \<Rightarrow> bool \<Rightarrow> (nat \<Rightarrow> moment) \<Rightarrow> bool" where
  "clock c bin h24 century m \<longleftrightarrow>
     (\<forall>t. moment_ok (m t) \<and> shows_moment c t bin h24 century (m t)) \<and>
     (\<forall>t. century \<or> m_year (m t) div 100 = 20) \<and>
     (\<forall>t. \<exists>t' \<ge> t. c t' 0x0A AND 0x80 = 0) \<and>
     (\<forall>t. c t 0x0A AND 0x80 = 0 \<longrightarrow> (\<forall>i \<le> 8. m (t + i) = m t))"

lemma bounded_wait_ge: "t \<le> bounded_wait n c t"
  by (induction n arbitrary: t)
    (auto simp: RtcUpdateInProgress_def CmosRead_def intro: Suc_leD)

lemma wait_update_returns:
  "c (t + k) 0x0A AND 0x80 = 0 \<Longrightarrow> \<exists>t1. wait_update c t = Some (t1 + 1) \<and> t \<le> t1 \<and> c t1 0x0A AND 0x80 = 0"
proof (induction k arbitrary: t)
  case 0
  then show ?case by (subst wait_update.simps) (simp add: RtcUpdateInProgress_def CmosRead_def)
next
  case (Suc k)
  show ?case
  proof (cases "c t 0x0A AND 0x80 = 0")
    case True
    then show ?thesis by (subst wait_update.simps) (simp add: RtcUpdateInProgress_def CmosRead_def)
  next
    case False
    from Suc.IH [of "t + 1"] Suc.prems obtain t1 where
      "wait_update c (t + 1) = Some (t1 + 1)" "t + 1 \<le> t1" "c t1 0x0A AND 0x80 = 0" by auto
    with False show ?thesis
      by (subst wait_update.simps) (auto simp: RtcUpdateInProgress_def CmosRead_def)
  qed
qed

lemma clock_wait:
  assumes "clock c bin h24 century m"
  obtains t1 where "wait_update c t = Some (t1 + 1)" "t \<le> t1" "\<forall>i \<le> 8. m (t1 + i) = m t1"
proof -
  from assms obtain t' where "t' \<ge> t" "c t' 0x0A AND 0x80 = 0" unfolding clock_def by blast
  with wait_update_returns [of c t "t' - t"] obtain t1 where
    "wait_update c t = Some (t1 + 1)" "t \<le> t1" "c t1 0x0A AND 0x80 = 0" by auto
  with assms that show ?thesis unfolding clock_def by blast
qed

text \<open>A quiet round decodes to the moment shown.\<close>

lemma decode_year:
  assumes "y \<in> {100..9999}" and "century \<or> y div 100 = 20"
  shows "(let cent = decode_byte bin (if century then enc bin (y div 100) else 0)
          in if cent \<noteq> 0 then ucast cent * 100 + ucast (decode_byte bin (enc bin (y mod 100)))
             else 2000 + ucast (decode_byte bin (enc bin (y mod 100)))) = (word_of_nat y :: u16)"
proof -
  have "\<forall>v \<in> set [0..<100]. ucast (word_of_nat v :: u8) = (word_of_nat v :: u16)" by code_simp
  then have small: "ucast (word_of_nat v :: u8) = (word_of_nat v :: u16)" if "v < 100" for v using that by simp
  have y: "y = 100 * (y div 100) + y mod 100" by simp
  have yw: "(word_of_nat y :: u16) = word_of_nat (y div 100) * 100 + word_of_nat (y mod 100)"
    by (subst y, simp only: of_nat_add of_nat_mult) (simp add: mult.commute)
  have nz: "(word_of_nat (y div 100) :: u8) \<noteq> 0" if "y div 100 < 100" using that assms(1)
    by (simp add: of_nat_eq_iff word_unat_eq_iff unsigned_of_nat take_bit_nat_eq_self div_eq_0_iff)
  have l: "y div 100 < 100" "y mod 100 < 100" using assms(1) by (auto simp: less_mult_imp_div_less)
  have z: "decode_byte bin (0 :: u8) = 0" by (simp add: decode_byte_def FromBcd_def)
  show ?thesis
  proof (cases century)
    case True
    with l nz [OF l(1)] show ?thesis by (simp add: decode_enc small yw Let_def)
  next
    case False
    with assms have "y div 100 = 20" by simp
    with False l z show ?thesis by (simp add: decode_enc small yw Let_def)
  qed
qed

lemma quiet_round:
  assumes "clock c bin h24 century m" and q: "\<forall>i \<le> 8. m (t1 + i) = m t1" and "read_round c (t1 + 1) = (s, t2)"
  shows "decode s = date_of (m t1) \<and> t2 = t1 + 9"
proof -
  have s: "shows_moment c (t1 + i) bin h24 century (m t1)" if "i \<le> 8" for i
    using assms(1) q that unfolding clock_def by metis
  have ok: "moment_ok (m t1)" "century \<or> m_year (m t1) div 100 = 20" using assms(1) unfolding clock_def by blast+
  have st: "t2 = t1 + 9" and eq: "s = \<lparr>r_sec = c (t1 + 1) 0x00, r_min = c (t1 + 2) 0x02, r_hour = c (t1 + 3) 0x04,
      r_day = c (t1 + 4) 0x07, r_mon = c (t1 + 5) 0x08, r_year = c (t1 + 6) 0x09, r_cent = c (t1 + 7) 0x32,
      r_regB = c (t1 + 8) 0x0B\<rparr>"
    using assms(3) by (auto simp: read_round_def CmosRead_def numeral_eq_Suc)
  have v: "s = \<lparr>r_sec = enc bin (m_second (m t1)), r_min = enc bin (m_minute (m t1)),
      r_hour = enc_hour bin h24 (m_hour (m t1)), r_day = enc bin (m_day (m t1)), r_mon = enc bin (m_month (m t1)),
      r_year = enc bin (m_year (m t1) mod 100), r_cent = (if century then enc bin (m_year (m t1) div 100) else 0),
      r_regB = c (t1 + 8) 0x0B\<rparr>"
    using s [of 1] s [of 2] s [of 3] s [of 4] s [of 5] s [of 6] s [of 7] unfolding eq shows_moment_def by simp
  have b: "(c (t1 + 8) 0x0B AND 0x04 \<noteq> 0) = bin" "(c (t1 + 8) 0x0B AND 0x02 \<noteq> 0) = h24"
    using s [of 8] unfolding shows_moment_def by simp_all
  have r: "m_month (m t1) < 100" "m_day (m t1) < 100" "m_hour (m t1) < 24" "m_minute (m t1) < 100" "m_second (m t1) < 100"
    "m_year (m t1) \<in> {100..9999}"
    using ok(1) by (auto simp: moment_ok_def)
  show ?thesis
    unfolding st decode_def v snapshot.select_convs b date_of_def Let_def
    using decode_year [OF r(6) ok(2), of bin, unfolded Let_def] r
    by (simp only: decode_enc decode_enc_hour simp_thms MorphicDateTime.ext_inject)
qed

lemma attempt_loop_clock:
  assumes "clock c bin h24 century m"
  shows "\<exists>s t1 t0. attempt_loop (Suc n) c t lst = Some (s, t1) \<and> t \<le> t0 \<and> decode s = date_of (m t0)"
proof (induction n arbitrary: t lst)
  case (0 t lst)
  obtain a where a: "wait_update c t = Some (a + 1)" "t \<le> a" "\<forall>i \<le> 8. m (a + i) = m a"
    by (rule clock_wait [OF assms])
  obtain s1 t2 where r1: "read_round c (a + 1) = (s1, t2)" by (rule prod.exhaust)
  obtain b where b: "wait_update c t2 = Some (b + 1)" "t2 \<le> b" "\<forall>i \<le> 8. m (b + i) = m b"
    by (rule clock_wait [OF assms])
  obtain s2 t4 where r2: "read_round c (b + 1) = (s2, t4)" by (rule prod.exhaust)
  note d = quiet_round [OF assms a(3) r1] quiet_round [OF assms b(3) r2]
  have l: "t \<le> a" "t \<le> b" using a b d by simp_all
  have "attempt_loop (Suc 0) c t lst = Some (s2, t4)" using a(1) b(1) r1 r2 by simp
  with d l show ?case by blast
next
  case (Suc n t lst)
  obtain a where a: "wait_update c t = Some (a + 1)" "t \<le> a" "\<forall>i \<le> 8. m (a + i) = m a"
    by (rule clock_wait [OF assms])
  obtain s1 t2 where r1: "read_round c (a + 1) = (s1, t2)" by (rule prod.exhaust)
  obtain b where b: "wait_update c t2 = Some (b + 1)" "t2 \<le> b" "\<forall>i \<le> 8. m (b + i) = m b"
    by (rule clock_wait [OF assms])
  obtain s2 t4 where r2: "read_round c (b + 1) = (s2, t4)" by (rule prod.exhaust)
  note d = quiet_round [OF assms a(3) r1] quiet_round [OF assms b(3) r2]
  have l: "t \<le> b" "t \<le> t4" using a b d by simp_all
  have step: "attempt_loop (Suc (Suc n)) c t lst = (if s1 = s2 then Some (s2, t4) else attempt_loop (Suc n) c t4 s2)"
    using a(1) b(1) r1 r2 by (simp add: attempt_loop.simps(2) [of "Suc n"] del: attempt_loop.simps)
  show ?case
  proof (cases "s1 = s2")
    case True
    with step d l show ?thesis by auto
  next
    case False
    from Suc.IH [of t4 s2] l(2) step False show ?thesis by (auto intro: order_trans)
  qed
qed

section \<open>The theorem\<close>

text \<open>C32. Reading the clock returns, and what it returns is the calendar time the chip showed at one moment
  during the call, whatever of the four formats the chip is in and even when it ticks between the reads.\<close>

theorem ReadRtcStable_reads_clock:
  assumes "clock c bin h24 century m"
  shows "\<exists>t0 \<ge> t. \<exists>t1. ReadRtcStable undef c t = Some (date_of (m t0), t1)"
proof -
  define u where "u = bounded_wait 100000 c t"
  have e: "(8::nat) = Suc 7" by simp
  from attempt_loop_clock [OF assms, of 7 u undef] obtain s t1 t0 where
    "attempt_loop 8 c u undef = Some (s, t1)" "u \<le> t0" "decode s = date_of (m t0)" unfolding e by blast
  moreover from bounded_wait_ge have "t \<le> u" unfolding u_def .
  ultimately show ?thesis unfolding ReadRtcStable_def u_def [symmetric]
    by (intro exI [of _ t0] conjI exI [of _ t1]) simp_all
qed

text \<open>A chip in BCD, 12-hour format: 23:59:58 on 31 December 2025, with the update flag up during the first
  read.\<close>

definition demo_cmos :: cmos where
  "demo_cmos t reg = (if reg = 0x00 then 0x58 else if reg = 0x02 then 0x59 else if reg = 0x04 then 0x91
     else if reg = 0x07 then 0x31 else if reg = 0x08 then 0x12 else if reg = 0x09 then 0x25 else if reg = 0x32 then 0x20
     else if reg = 0x0A then (if t = 0 then 0x80 else 0) else 0)"

theorem ReadRtcStable_reads_clock_witness:
  "\<forall>undef. \<exists>t1. ReadRtcStable undef demo_cmos 0 = Some (\<lparr>dt_year = 2025, dt_month = 12, dt_day = 31, dt_hour = 23,
     dt_minute = 59, dt_second = 58, dt_valid = 1, dt_reserved0 = 0\<rparr>, t1)"
proof
  fix undef :: snapshot
  let ?d = "\<lparr>m_year = 2025, m_month = 12, m_day = 31, m_hour = 23, m_minute = 59, m_second = 58\<rparr>"
  have "\<exists>t' \<ge> t. demo_cmos t' 0x0A AND 0x80 = 0" for t
    by (rule exI [of _ "t + 1"]) (simp add: demo_cmos_def)
  moreover have "moment_ok ?d" by (simp add: moment_ok_def)
  moreover have "shows_moment demo_cmos t False False True ?d" for t
    by (simp add: shows_moment_def demo_cmos_def enc_def enc_hour_def)
  ultimately have "clock demo_cmos False False True (\<lambda>_. ?d)" by (simp add: clock_def)
  from ReadRtcStable_reads_clock [OF this, of 0 undef] show "\<exists>t1. ReadRtcStable undef demo_cmos 0 = Some (\<lparr>dt_year = 2025, dt_month = 12, dt_day = 31, dt_hour = 23,
     dt_minute = 59, dt_second = 58, dt_valid = 1, dt_reserved0 = 0\<rparr>, t1)" by (auto simp: date_of_def)
qed
end
