(* ===== verification/User_Memory.thy ===== *)
theory User_Memory
  imports Page_Runs Mouse Keyboard Early_Term Drm VFS Mount_Manager Rtc
begin

text \<open>
  The state a system call works on, and the memory of the calling task as the kernel sees it: an address is
  looked up in the page tables of theory \<open>MMU\<close> (user space is mapped in 4 KB pages only, so the processor's
  walk is that of \<open>GetPhysical\<close>), and the bytes behind it are those of physical memory, which the virtual
  file system keeps.  Touching an address that is not mapped is a page fault, which stops the kernel: \<open>None\<close>.
  The kernel has one heap and one frame allocator; the scheduler's state holds them, and a component that
  uses them gets them for the length of a call.  The same holds for the memory of pixels, which the display's state
  holds; it is kept apart from the bytes a task writes.
\<close>

section \<open>State\<close>

record ('w, 'd) kernel =
  k_sched :: sched
  k_vfs :: vfs
  k_im :: "'w input_manager"
  k_dev :: 'w
  k_keymap :: keymap_hal
  k_wm :: wm
  k_drm :: drm
  k_term :: early_term
  k_mounts :: "'d mount_world"
  k_mouse :: mouse
  k_cmos_reads :: nat
  s_userHeapBump :: nat

text \<open>What is outside the kernel during a call: the font, the clock chip, the \<^verbatim>\<open>cpuid\<close> instruction (EAX, EBX,
  ECX and EDX of a leaf), the timer, the display's status port and the timer while the call polls them (as functions of the
  number of accesses so far), the uninitialised locals of the clock reader and of the loader, and what the read and write pointers
  of a file do.\<close>

record environment =
  e_font :: "nat \<Rightarrow> u8"
  e_cmos :: cmos
  e_ticks :: nat
  e_locals :: snapshot
  e_stack :: "nat \<Rightarrow> u8"
  e_cpuid :: "nat \<Rightarrow> nat \<times> nat \<times> nat \<times> nat"
  e_vga_status :: "nat \<Rightarrow> u8"
  e_clock :: "nat \<Rightarrow> nat"
  e_read :: "addr \<Rightarrow> addr \<Rightarrow> nat \<Rightarrow> nat \<Rightarrow> u8 list"
  e_write :: "addr \<Rightarrow> addr \<Rightarrow> nat \<Rightarrow> u8 list \<Rightarrow> nat"

abbreviation k_mmu :: "('w, 'd) kernel \<Rightarrow> mmu" where "k_mmu k \<equiv> sc_mmu (k_sched k)"
abbreviation k_heap :: "('w, 'd) kernel \<Rightarrow> kheap" where "k_heap k \<equiv> sc_heap (k_sched k)"
abbreviation k_bufs :: "('w, 'd) kernel \<Rightarrow> bufman" where "k_bufs k \<equiv> d_bm (k_drm k)"
abbreviation k_px :: "('w, 'd) kernel \<Rightarrow> pixels" where "k_px k \<equiv> bm_px (k_bufs k)"
abbreviation k_bytes :: "('w, 'd) kernel \<Rightarrow> bytes" where "k_bytes k \<equiv> vf_bytes (k_vfs k)"

definition set_mmu :: "mmu \<Rightarrow> ('w, 'd) kernel \<Rightarrow> ('w, 'd) kernel" where
  "set_mmu m k = k\<lparr>k_sched := (k_sched k)\<lparr>sc_mmu := m\<rparr>\<rparr>"

definition set_heap :: "kheap \<Rightarrow> ('w, 'd) kernel \<Rightarrow> ('w, 'd) kernel" where
  "set_heap h k = k\<lparr>k_sched := (k_sched k)\<lparr>sc_heap := h\<rparr>\<rparr>"

definition with_vfs :: "(vfs \<Rightarrow> ('a \<times> vfs) option) \<Rightarrow> ('w, 'd) kernel \<Rightarrow> ('a \<times> ('w, 'd) kernel) option" where
  "with_vfs f k = map_option (\<lambda>(r, v). (r, set_heap (vf_heap v) (k\<lparr>k_vfs := v\<rparr>))) (f ((k_vfs k)\<lparr>vf_heap := k_heap k\<rparr>))"

definition set_px :: "pixels \<Rightarrow> ('w, 'd) kernel \<Rightarrow> ('w, 'd) kernel" where
  "set_px m k = k\<lparr>k_drm := (k_drm k)\<lparr>d_bm := (k_bufs k)\<lparr>bm_px := m\<rparr>\<rparr>\<rparr>"

definition with_wm :: "(wm \<Rightarrow> ('a \<times> wm) option) \<Rightarrow> ('w, 'd) kernel \<Rightarrow> ('a \<times> ('w, 'd) kernel) option" where
  "with_wm f k =
     map_option (\<lambda>(r, w). (r, set_px (g_px (cp_gfx w)) (set_mmu ((k_mmu k)\<lparr>mm_pmm := wm_pmm w\<rparr>) (set_heap (cp_heap w) (k\<lparr>k_wm := w\<rparr>)))))
       (f ((k_wm k)\<lparr>cp_heap := k_heap k, wm_pmm := mm_pmm (k_mmu k), cp_gfx := (cp_gfx (k_wm k))\<lparr>g_px := k_px k\<rparr>\<rparr>))"

text \<open>Drawing by the compositor, and by the terminal.\<close>

definition draw_wm :: "(wm \<Rightarrow> wm) \<Rightarrow> ('w, 'd) kernel \<Rightarrow> ('w, 'd) kernel" where
  "draw_wm f k =
     (let w = f ((k_wm k)\<lparr>cp_gfx := (cp_gfx (k_wm k))\<lparr>g_px := k_px k\<rparr>\<rparr>) in set_px (g_px (cp_gfx w)) (k\<lparr>k_wm := w\<rparr>))"

definition draw_term :: "(early_term \<Rightarrow> early_term) \<Rightarrow> ('w, 'd) kernel \<Rightarrow> ('w, 'd) kernel" where
  "draw_term f k = (let t = f ((k_term k)\<lparr>et_px := k_px k\<rparr>) in set_px (et_px t) (k\<lparr>k_term := t\<rparr>))"

definition with_bufs :: "(bufman \<Rightarrow> ('a \<times> bufman) option) \<Rightarrow> ('w, 'd) kernel \<Rightarrow> ('a \<times> ('w, 'd) kernel) option" where
  "with_bufs f k =
     map_option (\<lambda>(r, b). (r, set_heap (bm_heap b) (k\<lparr>k_drm := (k_drm k)\<lparr>d_bm := b\<rparr>\<rparr>))) (f ((k_bufs k)\<lparr>bm_heap := k_heap k\<rparr>))"

section \<open>User memory\<close>

abbreviation kUserSpaceMin :: nat where "kUserSpaceMin \<equiv> 0x600000000000"
abbreviation kUserSpaceMax :: nat where "kUserSpaceMax \<equiv> 0x7FFFFFFFFFFF"

definition IsUserPtr :: "nat \<Rightarrow> bool" where
  "IsUserPtr ptr \<longleftrightarrow> ptr \<ge> kUserSpaceMin \<and> ptr \<le> kUserSpaceMax"

definition ClampU32 :: "nat \<Rightarrow> nat \<Rightarrow> nat \<Rightarrow> nat" where
  "ClampU32 v lo hi = (if v < lo then lo else if v > hi then hi else v)"

definition user_phys :: "('w, 'd) kernel \<Rightarrow> nat \<Rightarrow> nat" where
  "user_phys k v = unat (GetPhysical (k_mmu k) (word_of_nat v))"

definition load_byte :: "nat \<Rightarrow> ('w, 'd) kernel \<Rightarrow> u8 option" where
  "load_byte v k = (let p = user_phys k v in if p = 0 then None else Some (k_bytes k p))"

definition store_byte :: "nat \<Rightarrow> u8 \<Rightarrow> ('w, 'd) kernel \<Rightarrow> ('w, 'd) kernel option" where
  "store_byte v b k =
     (let p = user_phys k v
      in if p = 0 then None else Some (k\<lparr>k_vfs := (k_vfs k)\<lparr>vf_bytes := (k_bytes k)(p := b)\<rparr>\<rparr>))"

fun load_user :: "nat \<Rightarrow> nat \<Rightarrow> ('w, 'd) kernel \<Rightarrow> u8 list option" where
  "load_user v 0 k = Some []"
| "load_user v (Suc n) k =
     Option.bind (load_byte v k) (\<lambda>b. map_option (Cons b) (load_user (add64 v 1) n k))"

fun store_user :: "nat \<Rightarrow> u8 list \<Rightarrow> ('w, 'd) kernel \<Rightarrow> ('w, 'd) kernel option" where
  "store_user v [] k = Some k"
| "store_user v (b # bs) k = Option.bind (store_byte v b k) (store_user (add64 v 1) bs)"

text \<open>The copy of a path into a kernel buffer: at most \<open>n\<close> characters, up to the terminating zero.\<close>

fun load_path :: "nat \<Rightarrow> nat \<Rightarrow> ('w, 'd) kernel \<Rightarrow> string option" where
  "load_path 0 v k = Some []"
| "load_path (Suc n) v k =
     Option.bind (load_byte v k) (\<lambda>b.
       if b = 0 then Some [] else map_option (Cons (char_of (unat b))) (load_path n (add64 v 1) k))"

text \<open>Little-endian fields of the structures that cross the border.\<close>

definition le_bytes :: "nat \<Rightarrow> nat \<Rightarrow> u8 list" where
  "le_bytes n v = map (\<lambda>i. word_of_nat (v div 256 ^ i)) [0..<n]"

definition of_le :: "u8 list \<Rightarrow> nat" where
  "of_le bs = foldr (\<lambda>b v. unat b + 256 * v) bs 0"

definition char_bytes :: "string \<Rightarrow> u8 list" where
  "char_bytes = map (\<lambda>c. word_of_nat (of_char c))"

text \<open>\<^verbatim>\<open>PAGE_USER | PAGE_WRITABLE | PAGE_PRESENT\<close>\<close>

abbreviation USER_RW :: u32 where "USER_RW \<equiv> 7"

section \<open>Facts about user memory\<close>

lemma set_simps [simp]:
  "k_sched (set_mmu m k) = (k_sched k)\<lparr>sc_mmu := m\<rparr>" "k_vfs (set_mmu m k) = k_vfs k" "k_drm (set_mmu m k) = k_drm k"
  "k_sched (set_heap h k) = (k_sched k)\<lparr>sc_heap := h\<rparr>" "k_vfs (set_heap h k) = k_vfs k" "k_drm (set_heap h k) = k_drm k"
  "k_sched (set_px p k) = k_sched k" "k_vfs (set_px p k) = k_vfs k" "bm_buffers (k_bufs (set_px p k)) = bm_buffers (k_bufs k)"
  by (simp_all add: set_mmu_def set_heap_def set_px_def)

lemma user_phys_bytes [simp]: "user_phys (k\<lparr>k_vfs := v\<rparr>) a = user_phys k a"
  by (simp add: user_phys_def)

lemma store_byte_Some:
  "store_byte v b k = Some k' \<longleftrightarrow>
     user_phys k v \<noteq> 0 \<and> k' = k\<lparr>k_vfs := (k_vfs k)\<lparr>vf_bytes := (k_bytes k)(user_phys k v := b)\<rparr>\<rparr>"
  by (auto simp: store_byte_def Let_def)

lemma store_user_frame:
  "store_user v bs k = Some k' \<Longrightarrow> \<exists>m. k' = k\<lparr>k_vfs := (k_vfs k)\<lparr>vf_bytes := m\<rparr>\<rparr>"
proof (induction v bs k rule: store_user.induct)
  case (1 v k)
  then show ?case by (intro exI [of _ "k_bytes k"]) simp
next
  case (2 v b bs k)
  then obtain k1 where k1: "store_byte v b k = Some k1" "store_user (add64 v 1) bs k1 = Some k'"
    by (auto simp: bind_eq_Some_conv)
  from "2.IH" [OF k1] obtain m where "k' = k1\<lparr>k_vfs := (k_vfs k1)\<lparr>vf_bytes := m\<rparr>\<rparr>" by blast
  with k1(1) show ?case unfolding store_byte_Some by (intro exI [of _ m]) simp
qed

text \<open>The address range \<open>v\<close>, ..., \<open>v + n - 1\<close> is mapped, to distinct bytes.\<close>

definition mapped_range :: "('w, 'd) kernel \<Rightarrow> nat \<Rightarrow> nat \<Rightarrow> bool" where
  "mapped_range k v n \<longleftrightarrow> v + n \<le> kUserSpaceMax \<and> (\<forall>i < n. user_phys k (v + i) \<noteq> 0) \<and>
     inj_on (\<lambda>i. user_phys k (v + i)) {..<n}"

lemma mapped_range_tl: "mapped_range k v (Suc n) \<Longrightarrow> mapped_range k (v + 1) n"
  unfolding mapped_range_def
proof (intro conjI allI impI; (elim conjE)?)
  assume i: "inj_on (\<lambda>i. user_phys k (v + i)) {..<Suc n}"
  show "inj_on (\<lambda>i. user_phys k (v + 1 + i)) {..<n}"
  proof (rule inj_onI)
    fix a b assume "a \<in> {..<n}" "b \<in> {..<n}" "user_phys k (v + 1 + a) = user_phys k (v + 1 + b)"
    with inj_onD [OF i, of "Suc a" "Suc b"] show "a = b" by simp
  qed
qed auto

lemma store_user_spec:
  assumes "mapped_range k v (length bs)"
  shows "\<exists>m. store_user v bs k = Some (k\<lparr>k_vfs := (k_vfs k)\<lparr>vf_bytes := m\<rparr>\<rparr>) \<and>
    (\<forall>i < length bs. m (user_phys k (v + i)) = bs ! i) \<and>
    (\<forall>p. (\<forall>i < length bs. p \<noteq> user_phys k (v + i)) \<longrightarrow> m p = k_bytes k p)"
  using assms
proof (induction bs arbitrary: v k)
  case Nil
  show ?case by (intro exI [of _ "k_bytes k"]) simp
next
  case (Cons b bs)
  let ?k1 = "k\<lparr>k_vfs := (k_vfs k)\<lparr>vf_bytes := (k_bytes k)(user_phys k v := b)\<rparr>\<rparr>"
  have m: "mapped_range ?k1 (v + 1) (length bs)" using mapped_range_tl [of k v "length bs"] Cons.prems by (simp add: mapped_range_def)
  have v: "user_phys k v \<noteq> 0" "v + Suc (length bs) \<le> kUserSpaceMax" using Cons.prems by (auto simp: mapped_range_def)
  have a: "add64 v 1 = v + 1" using v(2) by (simp add: add64_def)
  from Cons.IH [OF m] obtain m' where
    s: "store_user (v + 1) bs ?k1 = Some (?k1\<lparr>k_vfs := (k_vfs ?k1)\<lparr>vf_bytes := m'\<rparr>\<rparr>)"
    and w: "\<forall>i < length bs. m' (user_phys k (v + 1 + i)) = bs ! i"
    and o: "\<forall>p. (\<forall>i < length bs. p \<noteq> user_phys k (v + 1 + i)) \<longrightarrow> m' p = k_bytes ?k1 p" by auto
  have inj: "inj_on (\<lambda>i. user_phys k (v + i)) {..<Suc (length bs)}" using Cons.prems by (simp add: mapped_range_def)
  have d: "user_phys k v \<noteq> user_phys k (v + 1 + i)" if "i < length bs" for i
    using inj_onD [OF inj, of 0 "Suc i"] that by auto
  have h: "m' (user_phys k v) = b" using o d by simp
  have "store_user v (b # bs) k = Some (k\<lparr>k_vfs := (k_vfs k)\<lparr>vf_bytes := m'\<rparr>\<rparr>)"
    using s v a by (simp add: store_byte_def)
  moreover have "\<forall>i < length (b # bs). m' (user_phys k (v + i)) = (b # bs) ! i"
    using h w by (auto simp: less_Suc_eq_0_disj)
  moreover have "m' p = k_bytes k p" if p: "\<forall>i < length (b # bs). p \<noteq> user_phys k (v + i)" for p
  proof -
    have "p \<noteq> user_phys k v" using p by (metis add_0_right length_Cons zero_less_Suc)
    moreover have "\<forall>i < length bs. p \<noteq> user_phys k (v + 1 + i)" using p by (metis Suc_less_eq add.assoc length_Cons plus_1_eq_Suc)
    ultimately show ?thesis using o by simp
  qed
  ultimately show ?case by blast
qed

lemma load_user_spec:
  assumes "mapped_range k v n"
  shows "load_user v n k = Some (map (\<lambda>i. k_bytes k (user_phys k (v + i))) [0..<n])"
  using assms
proof (induction n arbitrary: v)
  case (Suc n)
  have v: "user_phys k v \<noteq> 0" "v + Suc n \<le> kUserSpaceMax" using Suc.prems by (auto simp: mapped_range_def)
  have a: "add64 v 1 = v + 1" using v(2) by (simp add: add64_def)
  from Suc.IH [OF mapped_range_tl [OF Suc.prems]]
  have "load_user v (Suc n) k = Some (k_bytes k (user_phys k v) # map (\<lambda>i. k_bytes k (user_phys k (v + 1 + i))) [0..<n])"
    using v(1) a by (simp add: load_byte_def Let_def)
  also have "\<dots> = Some (map (\<lambda>i. k_bytes k (user_phys k (v + i))) [0..<Suc n])"
    by (simp add: map_upt_Suc del: upt_Suc)
  finally show ?case .
qed simp

end
