(* ===== verification/Loader.thy ===== *)
theory Loader
  imports User_Memory
begin

text \<open>
  The package loader, \<^verbatim>\<open>kernel/core/loader.cpp\<close>: an MPK file is copied into contiguous frames, which are mapped
  from the base address of the task on, and a stack of 16 pages is mapped below 0x6FFFFFFF0000.  The loader
  writes to physical memory through the identity map.
\<close>

record MPKHeader =
  mk_magic :: "u8 list"
  mk_manifest_off :: nat
  mk_code_off :: nat
  mk_code_size :: nat
  mk_assets_off :: nat
  mk_assets_size :: nat

record LoadedProcess =
  entry_point :: nat
  stack_top :: nat
  error_code :: int
  lp_arg1 :: nat

definition VerifyMagic :: "MPKHeader \<Rightarrow> bool" where
  "VerifyMagic h \<longleftrightarrow> mk_magic h = [0x4D, 0x50, 0x4B, 0x31]"

text \<open>The header buffer: what the read delivered, and beyond it what the stack held.\<close>

definition parse_header :: "environment \<Rightarrow> u8 list \<Rightarrow> MPKHeader" where
  "parse_header e got =
     (let b = map (\<lambda>i. if i < length got then got ! i else e_stack e i) [0..<24]
      in \<lparr>mk_magic = take 4 b, mk_manifest_off = le32 b 4, mk_code_off = le32 b 8, mk_code_size = le32 b 12,
          mk_assets_off = le32 b 16, mk_assets_size = le32 b 20\<rparr>)"

definition put_bytes :: "addr \<Rightarrow> u8 list \<Rightarrow> bytes \<Rightarrow> bytes" where
  "put_bytes p bs m = (\<lambda>a. if p \<le> a \<and> a < p + length bs then bs ! (a - p) else m a)"

definition set_bytes :: "(bytes \<Rightarrow> bytes) \<Rightarrow> ('w, 'd) kernel \<Rightarrow> ('w, 'd) kernel" where
  "set_bytes f k = k\<lparr>k_vfs := (k_vfs k)\<lparr>vf_bytes := f (k_bytes k)\<rparr>\<rparr>"

abbreviation BSS_RESERVE :: nat where "BSS_RESERVE \<equiv> 0x400000"
abbreviation ASSETS_GAP :: nat where "ASSETS_GAP \<equiv> 0x400000"
abbreviation USER_STACK_TOP :: nat where "USER_STACK_TOP \<equiv> 0x6FFFFFFF0000"

definition failed :: "int \<Rightarrow> LoadedProcess" where
  "failed c = \<lparr>entry_point = 0, stack_top = 0, error_code = c, lp_arg1 = 0\<rparr>"

definition page_align :: "nat \<Rightarrow> nat" where
  "page_align a = add64 a 0xFFF div 4096 * 4096"

text \<open>The offset of the assets from the start of the image.\<close>

definition assets_offset :: "MPKHeader \<Rightarrow> nat \<Rightarrow> nat" where
  "assets_offset h phys_base = page_align (phys_base + mk_code_size h + BSS_RESERVE + ASSETS_GAP) - phys_base"

definition pages_needed :: "MPKHeader \<Rightarrow> nat" where
  "pages_needed h = (mk_code_size h + BSS_RESERVE + ASSETS_GAP + mk_assets_size h + 0xFFF) div 0x1000"

text \<open>Clearing the frames and reading code and assets into them.\<close>

definition fill_image :: "environment \<Rightarrow> MPKHeader \<Rightarrow> addr \<Rightarrow> nat \<Rightarrow> ('w, 'd) kernel \<Rightarrow> ('w, 'd) kernel" where
  "fill_image e h node phys_base k0 =
     (let k1 = set_bytes (\<lambda>m. kmemset m phys_base 0 (pages_needed h * 0x1000)) k0;
          k2 = set_bytes (put_bytes phys_base (vfs_Read (e_read e) (k_vfs k1) node (mk_code_off h) (mk_code_size h))) k1
      in if mk_assets_size h > 0
         then set_bytes (put_bytes (phys_base + assets_offset h phys_base)
                (vfs_Read (e_read e) (k_vfs k2) node (mk_assets_off h) (mk_assets_size h))) k2
         else k2)"

text \<open>The pages of the stack: the error code and the tables.\<close>

fun stack_loop :: "nat \<Rightarrow> nat \<Rightarrow> mmu \<Rightarrow> int \<times> mmu" where
  "stack_loop virt 0 m = (0, m)"
| "stack_loop virt (Suc n) m =
     (let (p, pm) = AllocPage (mm_pmm m); m1 = m\<lparr>mm_pmm := pm\<rparr>
      in if p = 0 then (-5, m1)
         else let (ok, m2) = MapPage m1 (word_of_nat virt) (word_of_nat p) USER_RW
              in if \<not> ok then (-6, m2) else stack_loop (virt + 4096) n m2)"

text \<open>The part after the frames have been found.\<close>

definition load_image :: "environment \<Rightarrow> MPKHeader \<Rightarrow> addr \<Rightarrow> nat \<Rightarrow> nat \<Rightarrow> ('w, 'd) kernel \<Rightarrow> LoadedProcess \<times> ('w, 'd) kernel" where
  "load_image e h node phys_base base_addr k0 =
     (let k1 = fill_image e h node phys_base k0;
          user_base = (if base_addr = 0 then 0x600000000000 else base_addr);
          m1 = snd (map_pages 0xF user_base phys_base (pages_needed h) (k_mmu k1));
          (err, m2) = stack_loop (USER_STACK_TOP - 16 * 4096) 16 m1;
          k2 = set_mmu m2 k1
      in if err \<noteq> 0 then (failed err, k2)
         else (\<lparr>entry_point = user_base, stack_top = USER_STACK_TOP, error_code = 0,
                lp_arg1 = add64 user_base (assets_offset h phys_base)\<rparr>, k2))"

definition Load :: "environment \<Rightarrow> string \<Rightarrow> nat \<Rightarrow> ('w, 'd) kernel \<Rightarrow> (LoadedProcess \<times> ('w, 'd) kernel) option" where
  "Load e path base_addr k =
     Option.bind (vfs_Open (k_vfs k) path) (\<lambda>node.
       let sz = n_size (vn (k_vfs k) node)
       in if node = 0 then Some (failed (-1), k)
          else if sz < 24 then Some (failed (-1), k)
          else let h = parse_header e (vfs_Read (e_read e) (k_vfs k) node 0 (min sz 64))
               in if \<not> VerifyMagic h then Some (failed (-3), k)
                  else if mk_code_off h > sz \<or> add32 (mk_code_off h) (mk_code_size h) > sz then Some (failed (-4), k)
                  else Option.bind (AllocContiguous (mm_pmm (k_mmu k)) (pages_needed h)) (\<lambda>(phys_base, pm).
                         let k1 = set_mmu ((k_mmu k)\<lparr>mm_pmm := pm\<rparr>) k
                         in if phys_base = 0 then Some (failed (-5), k1)
                            else if phys_base < 0x10000000 then Some (failed (-10), k1)
                            else Some (load_image e h node phys_base base_addr k1)))"

section \<open>What is loaded\<close>

text \<open>The file of \<open>node\<close> is plain data, and the frames from \<open>phys_base\<close> on do not hold it.\<close>

definition file_apart :: "('w, 'd) kernel \<Rightarrow> addr \<Rightarrow> nat \<Rightarrow> nat \<Rightarrow> bool" where
  "file_apart k node phys_base len \<longleftrightarrow>
     (let n = vn (k_vfs k) node in node \<noteq> 0 \<and> n_type n = FILE \<and> n_read n = 0 \<and> n_data n \<noteq> 0 \<and>
        (n_data n + n_size n \<le> phys_base \<or> phys_base + len \<le> n_data n))"

definition file_byte :: "('w, 'd) kernel \<Rightarrow> addr \<Rightarrow> nat \<Rightarrow> u8" where
  "file_byte k node i = k_bytes k (n_data (vn (k_vfs k) node) + i)"

lemma set_bytes_simps [simp]:
  "vn (k_vfs (set_bytes f k)) = vn (k_vfs k)" "k_bytes (set_bytes f k) = f (k_bytes k)" "k_mmu (set_bytes f k) = k_mmu k"
  by (simp_all add: set_bytes_def)

text \<open>A file system read of plain data, its length and its bytes.\<close>

lemma vfs_Read_plain:
  assumes "node \<noteq> 0" and "n_type (vn s node) = FILE" and "n_read (vn s node) = 0" and "n_data (vn s node) \<noteq> 0"
  shows "vfs_Read call s node off sz =
    map (\<lambda>i. vf_bytes s (n_data (vn s node) + off + i)) [0..<min sz (n_size (vn s node) - off)]"
  using assms by (auto simp: vfs_Read_def Let_def min_def)

lemma read_apart:
  assumes f: "file_apart k node p len" and v: "vn (k_vfs k') = vn (k_vfs k)"
    and same: "\<And>a. a < p \<or> p + len \<le> a \<Longrightarrow> k_bytes k' a = k_bytes k a"
  shows "vfs_Read call (k_vfs k') node off sz = map (\<lambda>i. file_byte k node (off + i)) [0..<min sz (n_size (vn (k_vfs k) node) - off)]"
proof -
  let ?n = "vn (k_vfs k) node"
  have n: "node \<noteq> 0" "n_type ?n = FILE" "n_read ?n = 0" "n_data ?n \<noteq> 0"
    and a: "n_data ?n + n_size ?n \<le> p \<or> p + len \<le> n_data ?n" using f by (simp_all add: file_apart_def Let_def)
  have "k_bytes k' (n_data ?n + off + i) = file_byte k node (off + i)" if "i < min sz (n_size ?n - off)" for i
  proof -
    have "n_data ?n + off + i < n_data ?n + n_size ?n" using that by linarith
    with a have "n_data ?n + off + i < p \<or> p + len \<le> n_data ?n + off + i" by linarith
    from same [OF this] show ?thesis by (simp add: file_byte_def add.assoc)
  qed
  then show ?thesis using vfs_Read_plain [of node "k_vfs k'" call off sz] n by (simp add: v)
qed

text \<open>\<^verbatim>\<open>fill_image\<close> on a file whose assets fit: the code, zeros up to the assets, the assets, zeros.\<close>

definition image_byte :: "('w, 'd) kernel \<Rightarrow> addr \<Rightarrow> MPKHeader \<Rightarrow> nat \<Rightarrow> nat \<Rightarrow> u8" where
  "image_byte k node h aoff i =
     (if i < mk_code_size h then file_byte k node (mk_code_off h + i)
      else if aoff \<le> i \<and> i < aoff + mk_assets_size h then file_byte k node (mk_assets_off h + (i - aoff))
      else 0)"

definition in_file :: "('w, 'd) kernel \<Rightarrow> addr \<Rightarrow> MPKHeader \<Rightarrow> bool" where
  "in_file k node h \<longleftrightarrow> mk_code_off h + mk_code_size h \<le> n_size (vn (k_vfs k) node) \<and>
     mk_assets_off h + mk_assets_size h \<le> n_size (vn (k_vfs k) node)"

lemma assets_offset_ge:
  assumes "phys_base + mk_code_size h + 0x800FFF < u64_limit"
  shows "mk_code_size h + 0x800000 \<le> assets_offset h phys_base"
proof -
  have "add64 (phys_base + mk_code_size h + BSS_RESERVE + ASSETS_GAP) 0xFFF = phys_base + mk_code_size h + 0x800FFF"
    using assms by (simp add: add64_def)
  moreover have "(phys_base + mk_code_size h + 0x800FFF) div 4096 * 4096 + 4095 \<ge> phys_base + mk_code_size h + 0x800FFF"
    using div_mult_mod_eq [of "phys_base + mk_code_size h + 0x800FFF" 4096] mod_less_divisor [of 4096 "phys_base + mk_code_size h + 0x800FFF"]
    by linarith
  ultimately show ?thesis unfolding assets_offset_def page_align_def by linarith
qed

lemma fill_image_bytes:
  assumes f: "file_apart k node p len" and inf: "in_file k node h" and len: "len = pages_needed h * 4096"
    and fit: "assets_offset h p + mk_assets_size h \<le> len" and lim: "p + mk_code_size h + 0x800FFF < u64_limit" and i: "i < len"
  shows "k_bytes (fill_image e h node p k) (p + i) = image_byte k node h (assets_offset h p) i"
proof -
  let ?a = "assets_offset h p" and ?cs = "mk_code_size h" and ?as = "mk_assets_size h"
  define k1 where "k1 = set_bytes (\<lambda>m. kmemset m p 0 len) k"
  define code where "code = vfs_Read (e_read e) (k_vfs k1) node (mk_code_off h) ?cs"
  define k2 where "k2 = set_bytes (put_bytes p code) k1"
  define assets where "assets = vfs_Read (e_read e) (k_vfs k2) node (mk_assets_off h) ?as"
  have k1: "k_bytes k1 a = (if p \<le> a \<and> a < p + len then 0 else k_bytes k a)" for a
    by (simp add: k1_def kmemset_spec)
  have len_c: "?cs \<le> n_size (vn (k_vfs k) node) - mk_code_off h" and len_a: "?as \<le> n_size (vn (k_vfs k) node) - mk_assets_off h"
    using inf unfolding in_file_def by linarith+
  have v1: "vn (k_vfs k1) = vn (k_vfs k)" by (simp add: k1_def)
  have out1: "k_bytes k1 a = k_bytes k a" if "a < p \<or> p + len \<le> a" for a using k1 that by auto
  have c: "code = map (\<lambda>i. file_byte k node (mk_code_off h + i)) [0..<?cs]"
    unfolding code_def using read_apart [OF f v1 out1, of "e_read e" "mk_code_off h" ?cs] len_c by (simp add: min_absorb1)
  have ge: "?cs + 0x800000 \<le> ?a" by (rule assets_offset_ge [OF lim])
  have k2: "k_bytes k2 (p + j) = (if j < ?cs then file_byte k node (mk_code_off h + j) else if j < len then 0 else k_bytes k (p + j))" for j
    by (simp add: k2_def put_bytes_def c k1)
  have out: "k_bytes k2 a = k_bytes k a" if "a < p \<or> p + len \<le> a" for a
  proof -
    have "\<not> (p \<le> a \<and> a < p + ?cs)" using that ge fit by linarith
    then show ?thesis using that by (auto simp: k2_def put_bytes_def c k1)
  qed
  have v2: "vn (k_vfs k2) = vn (k_vfs k)" by (simp add: k1_def k2_def)
  have a: "assets = map (\<lambda>i. file_byte k node (mk_assets_off h + i)) [0..<?as]"
    unfolding assets_def using read_apart [OF f v2 out, of "e_read e" "mk_assets_off h" ?as] len_a by (simp add: min_absorb1)
  have img: "fill_image e h node p k = (if ?as > 0 then set_bytes (put_bytes (p + ?a) assets) k2 else k2)"
    unfolding fill_image_def assets_def k2_def code_def k1_def len Let_def by simp
  show ?thesis
  proof (cases "?a \<le> i \<and> i < ?a + ?as")
    case True
    then have b: "\<not> i < ?cs" "i - ?a < ?as" "0 < ?as" using ge by linarith+
    have "k_bytes (fill_image e h node p k) (p + i) = assets ! (i - ?a)"
      using True b(3) unfolding img by (simp add: put_bytes_def a)
    also have "\<dots> = file_byte k node (mk_assets_off h + (i - ?a))" unfolding a using b(2) by (simp only: nth_map_upt add_0 diff_zero)
    finally show ?thesis using True b(1) by (simp add: image_byte_def)
  next
    case False
    then have "k_bytes (fill_image e h node p k) (p + i) = k_bytes k2 (p + i)"
      by (auto simp: img put_bytes_def a)
    with False i show ?thesis by (auto simp: k2 image_byte_def)
  qed
qed


section \<open>Properties\<close>

text \<open>C39. When the assets fit into the frames, the image in the frames is, byte for byte, the code of the
  package, zeros up to the assets, the assets, and zeros up to the end, whatever the frames held.\<close>

theorem loaded_image:
  assumes "file_apart k node p (pages_needed h * 4096)" and "in_file k node h"
    and "assets_offset h p + mk_assets_size h \<le> pages_needed h * 4096" and "p + mk_code_size h + 0x800FFF < u64_limit"
    and "i < pages_needed h * 4096"
  shows "k_bytes (fill_image e h node p k) (p + i) = image_byte k node h (assets_offset h p) i"
  by (rule fill_image_bytes [OF assms(1,2) refl assms(3-5)])

definition demo_package :: vfs where
  "demo_package = \<lparr>vn = (\<lambda>_. zero_node\<lparr>n_type := FILE, n_size := 6000, n_data := 8192\<rparr>), rootNode = 64,
     vf_heap = kheap_Init (\<lambda>_. undefined) 65536 32768, vf_bytes = (\<lambda>a. word_of_nat a)\<rparr>"

definition demo_header :: MPKHeader where
  "demo_header = \<lparr>mk_magic = [0x4D, 0x50, 0x4B, 0x31], mk_manifest_off = 0, mk_code_off = 24, mk_code_size = 4096,
     mk_assets_off = 4120, mk_assets_size = 100\<rparr>"

lemma demo_pages: "pages_needed demo_header = 2050"
  by (simp add: pages_needed_def demo_header_def)

lemma demo_offset: "assets_offset demo_header 0x10000000 = 0x801000"
  by (simp add: assets_offset_def page_align_def add64_def demo_header_def)

theorem loaded_image_witness:
  "\<forall>k :: (unit, unit) kernel. \<forall>e. k_bytes (fill_image e demo_header 64 0x10000000 (k\<lparr>k_vfs := demo_package\<rparr>)) (0x10000000 + 5) = 29 \<and>
     k_bytes (fill_image e demo_header 64 0x10000000 (k\<lparr>k_vfs := demo_package\<rparr>)) (0x10000000 + 5000) = 0"
proof (intro allI)
  fix k :: "(unit, unit) kernel" and e
  let ?k = "k\<lparr>k_vfs := demo_package\<rparr>"
  have a: "file_apart ?k 64 0x10000000 (pages_needed demo_header * 4096)"
    unfolding demo_pages by (simp add: file_apart_def demo_package_def zero_node_def)
  have b: "in_file ?k 64 demo_header" by (simp add: in_file_def demo_package_def demo_header_def zero_node_def)
  have c: "assets_offset demo_header 0x10000000 + mk_assets_size demo_header \<le> pages_needed demo_header * 4096"
    unfolding demo_pages demo_offset by (simp add: demo_header_def)
  have d: "0x10000000 + mk_code_size demo_header + 0x800FFF < u64_limit" by (simp add: demo_header_def)
  have "5 < pages_needed demo_header * 4096" "5000 < pages_needed demo_header * 4096" unfolding demo_pages by simp_all
  from loaded_image [OF a b c d this(1), of e] loaded_image [OF a b c d this(2), of e]
  show "k_bytes (fill_image e demo_header 64 0x10000000 ?k) (0x10000000 + 5) = 29 \<and>
     k_bytes (fill_image e demo_header 64 0x10000000 ?k) (0x10000000 + 5000) = 0"
    unfolding demo_offset by (simp add: image_byte_def file_byte_def demo_header_def demo_package_def zero_node_def)
qed

text \<open>The assets need not fit: the size of the frames is rounded up once for code and assets together, but
  the assets start at a page boundary of their own.  When code and assets end \<open>r\<close> and \<open>t\<close> bytes into a page
  with \<open>0 < r\<close>, \<open>0 < t\<close> and \<open>r + t\<close> at most a page, the last \<open>t\<close> bytes of the assets are written beyond the frames that were
  allocated.\<close>

theorem assets_beyond_frames:
  assumes "p mod 4096 = 0" and "p + mk_code_size h + 0x800FFF < u64_limit"
    and "0 < mk_code_size h mod 4096" and "0 < mk_assets_size h mod 4096" and "mk_code_size h mod 4096 + mk_assets_size h mod 4096 \<le> 4096"
  shows "assets_offset h p + mk_assets_size h = pages_needed h * 4096 + mk_assets_size h mod 4096"
proof -
  define c r a t q where d: "c = mk_code_size h div 4096" "r = mk_code_size h mod 4096" "a = mk_assets_size h div 4096"
    "t = mk_assets_size h mod 4096" "q = p div 4096"
  have cs: "mk_code_size h = 4096 * c + r" and as: "mk_assets_size h = 4096 * a + t" by (simp_all add: d)
  have p: "p = 4096 * q" using assms(1) mult_div_mod_eq [of 4096 p] unfolding d(5) by linarith
  have rt: "0 < r" "0 < t" "r + t \<le> 4096" using assms(3-5) by (simp_all add: d)
  have "add64 (p + mk_code_size h + BSS_RESERVE + ASSETS_GAP) 0xFFF = 4096 * (q + c + 0x801) + (r - 1)"
    using assms(2) rt(1) by (simp add: add64_def cs p)
  moreover have "(4096 * (q + c + 0x801) + (r - 1)) div 4096 = q + c + 0x801" using rt by simp
  ultimately have "assets_offset h p = 4096 * (c + 0x801)"
    unfolding assets_offset_def page_align_def by (simp add: p)
  moreover have "pages_needed h = c + a + 0x801"
  proof -
    have "mk_code_size h + BSS_RESERVE + ASSETS_GAP + mk_assets_size h + 0xFFF = 4096 * (c + a + 0x801) + (r + t - 1)"
      using rt by (simp add: cs as)
    moreover have "(4096 * (c + a + 0x801) + (r + t - 1)) div 4096 = c + a + 0x801" using rt by simp
    ultimately show ?thesis unfolding pages_needed_def by simp
  qed
  moreover have "t mod 4096 = t" by (simp add: d(4))
  ultimately show ?thesis by (simp add: as)
qed

theorem assets_beyond_frames_witness:
  "let h = \<lparr>mk_magic = [0x4D, 0x50, 0x4B, 0x31], mk_manifest_off = 0, mk_code_off = 64, mk_code_size = 100, mk_assets_off = 164, mk_assets_size = 50\<rparr>
   in assets_offset h 0x10000000 + 50 = pages_needed h * 4096 + 50"
  using assets_beyond_frames [where p = "0x10000000" and h = "\<lparr>mk_magic = [0x4D, 0x50, 0x4B, 0x31], mk_manifest_off = 0, mk_code_off = 64,
    mk_code_size = 100, mk_assets_off = 164, mk_assets_size = 50\<rparr>"] by (simp add: Let_def)
end
