(* ===== verification/Syscall.thy ===== *)
theory Syscall
  imports Loader
begin

text \<open>
  The system calls, \<^verbatim>\<open>syscall_handler\<close> of \<^verbatim>\<open>kernel/hal/arch/x86_64/syscall.cpp\<close>: one definition per case, composed
  by \<open>syscall_handler\<close>.  A result is the value left in RAX and the new state; \<open>None\<close> is a call that faults or does
  not return.  The flushes of the translation buffer and the serial log are not modelled.
\<close>

type_synonym ('w, 'd) outcome = "(nat \<times> ('w, 'd) kernel) option"

abbreviation SYS_ERR :: nat where "SYS_ERR \<equiv> 18446744073709551615"

section \<open>Files\<close>

text \<open>\<^verbatim>\<open>Scheduler::GetCurrentTask()\<close> and its descriptor table; a null task has none.\<close>

definition cur_fd :: "nat \<Rightarrow> ('w, 'd) kernel \<Rightarrow> FileDescriptor" where
  "cur_fd fd k = fdTable (sc_task (k_sched k) (currentTask (k_sched k))) ! fd"

definition upd_fd :: "nat \<Rightarrow> (FileDescriptor \<Rightarrow> FileDescriptor) \<Rightarrow> ('w, 'd) kernel \<Rightarrow> ('w, 'd) kernel" where
  "upd_fd fd f k =
     k\<lparr>k_sched := upd_task (currentTask (k_sched k)) (\<lambda>t. t\<lparr>fdTable := (fdTable t)[fd := f (fdTable t ! fd)]\<rparr>) (k_sched k)\<rparr>"

definition fd_open :: "nat \<Rightarrow> ('w, 'd) kernel \<Rightarrow> bool" where
  "fd_open fd k \<longleftrightarrow> currentTask (k_sched k) \<noteq> 0 \<and> in_use (cur_fd fd k) \<and> fd_node (cur_fd fd k) \<noteq> 0"

fun put_chars :: "(nat \<Rightarrow> u8) \<Rightarrow> u8 list \<Rightarrow> early_term \<Rightarrow> early_term" where
  "put_chars font [] t = t"
| "put_chars font (b # bs) t = put_chars font bs (PutChar font (char_of (unat b)) t)"

definition write_terminal :: "environment \<Rightarrow> nat \<Rightarrow> nat \<Rightarrow> ('w, 'd) kernel \<Rightarrow> ('w, 'd) outcome" where
  "write_terminal e buf n k =
     map_option (\<lambda>bs. (n, draw_term (put_chars (e_font e) bs) k)) (load_user buf n k)"

text \<open>The user's buffer is read only by a file's write pointer.\<close>

definition write_file :: "environment \<Rightarrow> nat \<Rightarrow> nat \<Rightarrow> nat \<Rightarrow> ('w, 'd) kernel \<Rightarrow> ('w, 'd) outcome" where
  "write_file e fd buf n k =
     (let node = fd_node (cur_fd fd k)
      in Option.bind (if n_write (vn (k_vfs k) node) = 0 then Some [] else load_user buf (n mod u32_limit) k) (\<lambda>bs.
           let written = vfs_Write (e_write e) (k_vfs k) node (fd_offset (cur_fd fd k)) bs
           in Some (written, upd_fd fd (\<lambda>d. d\<lparr>fd_offset := add32 (fd_offset d) written\<rparr>) k)))"

definition sys_write :: "environment \<Rightarrow> nat \<Rightarrow> nat \<Rightarrow> nat \<Rightarrow> ('w, 'd) kernel \<Rightarrow> ('w, 'd) outcome" where
  "sys_write e fd buf n k =
     (if fd = 1 \<or> fd = 2 then (if \<not> IsUserPtr buf then Some (SYS_ERR, k) else write_terminal e buf n k)
      else if fd \<ge> 3 \<and> fd < MAX_PROCESS_FDS
      then (if \<not> fd_open fd k then Some (SYS_ERR, k)
            else if \<not> IsUserPtr buf then Some (SYS_ERR, k)
            else write_file e fd buf n k)
      else if IsUserPtr fd then write_terminal e fd n k
      else Some (SYS_ERR, k))"

text \<open>The characters waiting, at most \<open>n\<close>.\<close>

fun stdin_chars :: "'w input_manager \<Rightarrow> nat \<Rightarrow> 'w \<Rightarrow> string \<times> 'w" where
  "stdin_chars im 0 w = ([], w)"
| "stdin_chars im (Suc n) w =
     (let (c, w1) = GetChar im w
      in if c = CHR 0x00 then ([], w1) else let (cs, w2) = stdin_chars im n w1 in (c # cs, w2))"

definition read_stdin :: "nat \<Rightarrow> nat \<Rightarrow> ('w, 'd) kernel \<Rightarrow> ('w, 'd) outcome" where
  "read_stdin buf n k =
     (if \<not> IsUserPtr buf \<or> n = 0 then Some (0, k)
      else let (cs, w) = stdin_chars (k_im k) n (k_dev k)
           in map_option (\<lambda>k1. (length cs, k1)) (store_user buf (char_bytes cs) (k\<lparr>k_dev := w\<rparr>)))"

definition read_file :: "environment \<Rightarrow> nat \<Rightarrow> nat \<Rightarrow> nat \<Rightarrow> ('w, 'd) kernel \<Rightarrow> ('w, 'd) outcome" where
  "read_file e fd buf n k =
     (let bs = vfs_Read (e_read e) (k_vfs k) (fd_node (cur_fd fd k)) (fd_offset (cur_fd fd k)) (n mod u32_limit)
      in map_option (\<lambda>k1. (length bs, upd_fd fd (\<lambda>d. d\<lparr>fd_offset := add32 (fd_offset d) (length bs)\<rparr>) k1)) (store_user buf bs k))"

definition sys_read :: "environment \<Rightarrow> nat \<Rightarrow> nat \<Rightarrow> nat \<Rightarrow> ('w, 'd) kernel \<Rightarrow> ('w, 'd) outcome" where
  "sys_read e fd buf n k =
     (if fd = 0 then read_stdin buf n k
      else if fd \<ge> 3 \<and> fd < MAX_PROCESS_FDS
      then (if \<not> fd_open fd k then Some (SYS_ERR, k)
            else if \<not> IsUserPtr buf then Some (SYS_ERR, k)
            else read_file e fd buf n k)
      else Some (SYS_ERR, k))"

definition free_fd :: "('w, 'd) kernel \<Rightarrow> nat option" where
  "free_fd k = find (\<lambda>i. \<not> in_use (cur_fd i k)) [3..<MAX_PROCESS_FDS]"

definition sys_open :: "nat \<Rightarrow> nat \<Rightarrow> ('w, 'd) kernel \<Rightarrow> ('w, 'd) outcome" where
  "sys_open path flags k =
     (if \<not> IsUserPtr path then Some (SYS_ERR, k)
      else if currentTask (k_sched k) = 0 then Some (SYS_ERR, k)
      else case free_fd k of
          None \<Rightarrow> Some (SYS_ERR, k)
        | Some fd \<Rightarrow>
            Option.bind (load_path 255 path k) (\<lambda>path_buf.
            Option.bind (vfs_Open (k_vfs k) path_buf) (\<lambda>node.
              if node = 0 \<or> n_type (vn (k_vfs k) node) \<noteq> FILE then Some (SYS_ERR, k)
              else Some (fd, upd_fd fd (\<lambda>d. d\<lparr>fd_node := node, fd_offset := 0, fd_flags := flags mod u32_limit, in_use := True\<rparr>) k))))"

definition sys_close :: "nat \<Rightarrow> ('w, 'd) kernel \<Rightarrow> ('w, 'd) outcome" where
  "sys_close a k =
     (let fd = i32_of a
      in if fd < 3 \<or> fd \<ge> 32 then Some (SYS_ERR, k)
         else if currentTask (k_sched k) = 0 \<or> \<not> in_use (cur_fd (nat fd) k) then Some (SYS_ERR, k)
         else Some (0, upd_fd (nat fd) (\<lambda>d. d\<lparr>in_use := False, fd_node := 0, fd_offset := 0\<rparr>) k))"

text \<open>\<^verbatim>\<open>SYS_READ_FILE\<close>: the whole file at once.\<close>

definition sys_read_file :: "environment \<Rightarrow> nat \<Rightarrow> nat \<Rightarrow> nat \<Rightarrow> ('w, 'd) kernel \<Rightarrow> ('w, 'd) outcome" where
  "sys_read_file e path buf max_size k =
     (if path < kUserSpaceMin \<or> buf < kUserSpaceMin then Some (SYS_ERR, k)
      else Option.bind (load_path 255 path k) (\<lambda>path_buf.
           Option.bind (vfs_Open (k_vfs k) path_buf) (\<lambda>node.
             if node = 0 \<or> n_type (vn (k_vfs k) node) \<noteq> FILE then Some (SYS_ERR, k)
             else let n = (if max_size > n_size (vn (k_vfs k) node) then n_size (vn (k_vfs k) node) else max_size);
                      bs = vfs_Read (e_read e) (k_vfs k) node 0 (n mod u32_limit)
                  in map_option (\<lambda>k1. (length bs, k1)) (store_user buf bs k))))"

section \<open>Directories and mounts\<close>

abbreviation DIRENTRY_SIZE :: nat where "DIRENTRY_SIZE \<equiv> 72"

text \<open>One entry: the name with its final zero (nothing when it is empty), the type and the size.\<close>

definition store_entry :: "nat \<Rightarrow> VFSNode \<Rightarrow> ('w, 'd) kernel \<Rightarrow> ('w, 'd) kernel option" where
  "store_entry p node k =
     (let name = copy_name 63 (n_name node)
      in Option.bind (store_user p (if name = [] then [] else char_bytes name @ [0]) k) (\<lambda>k1.
         Option.bind (store_user (add64 p 64) (le_bytes 4 (if n_type node = DIRECTORY then 1 else 0)) k1)
           (store_user (add64 p 68) (le_bytes 4 (n_size node)))))"

fun store_entries :: "nat \<Rightarrow> VFSNode list \<Rightarrow> ('w, 'd) kernel \<Rightarrow> ('w, 'd) kernel option" where
  "store_entries p [] k = Some k"
| "store_entries p (n # ns) k = Option.bind (store_entry p n k) (store_entries (add64 p DIRENTRY_SIZE) ns)"

text \<open>\<^verbatim>\<open>ListDir\<close> puts the children into a block of the heap, which the call gives back at the end: \<open>block\<close> is
  the pointer that allocation returned.\<close>

definition sys_readdir :: "nat \<Rightarrow> nat \<Rightarrow> nat \<Rightarrow> ('w, 'd) kernel \<Rightarrow> ('w, 'd) outcome" where
  "sys_readdir path buf mx k =
     (if path < kUserSpaceMin \<or> buf < kUserSpaceMin then Some (0, k)
      else Option.bind (load_path 127 path k) (\<lambda>path_buf.
           Option.bind (vfs_Open (k_vfs k) path_buf) (\<lambda>dir.
             if dir = 0 \<or> n_type (vn (k_vfs k) dir) \<noteq> DIRECTORY then Some (0, k)
             else Option.bind (with_vfs (\<lambda>s. ListDir s dir) k) (\<lambda>(children, k1).
               if children = [] then Some (0, k1)
               else let block = (case kmalloc (k_heap k) (length children * 8) of Some (p, h) \<Rightarrow> p | None \<Rightarrow> 0);
                        shown = take (mx mod u32_limit) (map (vn (k_vfs k1)) children)
                    in map_option (\<lambda>k2. (length shown, set_heap (kfree (k_heap k2) block) k2)) (store_entries buf shown k1)))))"

definition store_mount :: "nat \<Rightarrow> MountInfo \<Rightarrow> ('w, 'd) kernel \<Rightarrow> ('w, 'd) kernel option" where
  "store_mount p info k =
     Option.bind (store_user p (char_bytes (take 31 (mi_path info))) k) (\<lambda>k1.
     Option.bind (store_user (add64 p 31) [0] k1) (\<lambda>k2.
     Option.bind (store_user (add64 p 32) (char_bytes (take 15 (mi_fstype info))) k2)
       (store_user (add64 p 47) [0])))"

fun list_mounts :: "nat \<Rightarrow> nat \<Rightarrow> nat list \<Rightarrow> ('w, 'd) kernel \<Rightarrow> ('w, 'd) outcome" where
  "list_mounts p cnt [] k = Some (cnt, k)"
| "list_mounts p cnt (i # is) k =
     (case GetMountInfo (int i) (k_mounts k) of
        None \<Rightarrow> list_mounts p cnt is k
      | Some info \<Rightarrow> Option.bind (store_mount (add64 p (48 * cnt)) info k) (list_mounts p (cnt + 1) is))"

definition sys_list_mounts :: "nat \<Rightarrow> nat \<Rightarrow> ('w, 'd) kernel \<Rightarrow> ('w, 'd) outcome" where
  "sys_list_mounts buf mx k =
     (if buf < kUserSpaceMin then Some (0, k)
      else list_mounts buf 0 [0..<min (mm_GetMountCount (k_mounts k)) (mx mod u32_limit)] k)"


section \<open>Memory\<close>

text \<open>The loop of \<^verbatim>\<open>SYS_MALLOC\<close>: a cleared frame per page.  The flag is whether the frames sufficed; as in the code, the
  result of \<^verbatim>\<open>MapPage\<close> is dropped.\<close>

fun malloc_loop :: "nat \<Rightarrow> nat \<Rightarrow> ('w, 'd) kernel \<Rightarrow> bool \<times> ('w, 'd) kernel" where
  "malloc_loop virt 0 k = (True, k)"
| "malloc_loop virt (Suc n) k =
     (let (p, pm) = AllocPage (mm_pmm (k_mmu k)); k1 = set_mmu ((k_mmu k)\<lparr>mm_pmm := pm\<rparr>) k
      in if p = 0 then (False, k1)
         else let k2 = set_bytes (\<lambda>m. kmemset m p 0 4096) k1;
                  m = snd (MapPage (k_mmu k2) (word_of_nat virt) (word_of_nat p) USER_RW)
              in malloc_loop (add64 virt 4096) n (set_mmu m k2))"

definition sys_malloc :: "nat \<Rightarrow> ('w, 'd) kernel \<Rightarrow> ('w, 'd) outcome" where
  "sys_malloc sz k =
     (if sz = 0 \<or> sz > 64 * 1024 * 1024 then Some (0, k)
      else let pages = (sz + 4095) div 4096; user_virt = s_userHeapBump k; (enough, k1) = malloc_loop user_virt pages k
           in if \<not> enough then Some (0, k1)
              else Some (user_virt, k1\<lparr>s_userHeapBump := add64 user_virt (pages * 4096)\<rparr>))"

text \<open>\<^verbatim>\<open>SYS_ALLOC_BACKBUFFER\<close>: frames at a fixed address, not cleared.\<close>

fun backbuffer_loop :: "nat \<Rightarrow> nat \<Rightarrow> mmu \<Rightarrow> bool \<times> mmu" where
  "backbuffer_loop virt 0 m = (True, m)"
| "backbuffer_loop virt (Suc n) m =
     (let (p, pm) = AllocPage (mm_pmm m); m1 = m\<lparr>mm_pmm := pm\<rparr>
      in if p = 0 then (False, m1)
         else backbuffer_loop (add64 virt 4096) n (snd (MapPage m1 (word_of_nat virt) (word_of_nat p) USER_RW)))"

definition sys_alloc_backbuffer :: "nat \<Rightarrow> ('w, 'd) kernel \<Rightarrow> ('w, 'd) outcome" where
  "sys_alloc_backbuffer sz k =
     (let (ok, m) = backbuffer_loop 0x600200000000 (add64 sz 4095 div 4096) (k_mmu k)
      in Some (if ok then 0x600200000000 else 0, set_mmu m k))"

text \<open>The pages of a window buffer at \<open>virt\<close>.\<close>

definition map_buffer :: "nat \<Rightarrow> nat \<Rightarrow> nat \<Rightarrow> ('w, 'd) kernel \<Rightarrow> ('w, 'd) kernel" where
  "map_buffer virt phys bytes k = set_mmu (snd (map_pages USER_RW virt phys ((bytes + 4095) div 4096) (k_mmu k))) k"

definition sys_video_map :: "('w, 'd) kernel \<Rightarrow> ('w, 'd) outcome" where
  "sys_video_map k =
     (let g = cp_gfx (k_wm k); c = compositor_buffer (k_drm k);
          g1 = (if c \<noteq> 0 then SetDrawBuffer c g else g);
          buf = (if c \<noteq> 0 then c else GetDrawBuffer g);
          k1 = k\<lparr>k_wm := (k_wm k)\<lparr>cp_gfx := g1\<rparr>\<rparr>;
          q = unat (GetPhysical (k_mmu k) (word_of_nat buf));
          phys = (if q = 0 \<and> buf < 0x100000000 then buf else q)
      in if buf = 0 \<or> phys = 0 then Some (0, k1)
         else Some (0x600100000000, map_buffer 0x600100000000 phys (GetWidth g * GetHeight g * 4) k1))"

section \<open>Processes and events\<close>

definition event_of :: "u8 list \<Rightarrow> OSEvent" where
  "event_of b = \<lparr>os_type = le32 b 0, os_dx = i32_of (le32 b 4), os_dy = i32_of (le32 b 8), os_buttons = le32 b 12,
     os_scancode = le32 b 16, os_ascii = le32 b 20\<rparr>"

definition event_bytes :: "OSEvent \<Rightarrow> u8 list" where
  "event_bytes e = le_bytes 4 (os_type e) @ le_bytes 4 (u32_of (os_dx e)) @ le_bytes 4 (u32_of (os_dy e)) @
     le_bytes 4 (os_buttons e) @ le_bytes 4 (os_scancode e) @ le_bytes 4 (os_ascii e)"

definition sys_get_event :: "nat \<Rightarrow> ('w, 'd) kernel \<Rightarrow> ('w, 'd) outcome" where
  "sys_get_event p k =
     (if \<not> IsUserPtr p then Some (0, k)
      else case GetNextOSEvent (k_sched k) of
          None \<Rightarrow> Some (0, k)
        | Some (ev, s) \<Rightarrow> map_option (Pair 1) (store_user p (event_bytes ev) (k\<lparr>k_sched := s\<rparr>)))"

definition sys_post_message :: "nat \<Rightarrow> nat \<Rightarrow> ('w, 'd) kernel \<Rightarrow> ('w, 'd) outcome" where
  "sys_post_message target p k =
     (if p < kUserSpaceMin then Some (0, k)
      else Option.bind (load_user p 24 k) (\<lambda>b.
           map_option (\<lambda>(ok, s). (1, k\<lparr>k_sched := s\<rparr>)) (PushEventToTask target (event_of b) (k_sched k))))"

definition sys_register_compositor :: "('w, 'd) kernel \<Rightarrow> ('w, 'd) outcome" where
  "sys_register_compositor k =
     map_option (\<lambda>(im, s). (0, k\<lparr>k_im := im, k_sched := s, k_wm := EnableUserspaceMode (k_wm k), k_term := et_Disable (k_term k)\<rparr>))
       (SetCompositorPID (GetCurrentTaskId (k_sched k)) (k_im k) (k_sched k))"

definition sys_get_mouse_state :: "('w, 'd) kernel \<Rightarrow> ('w, 'd) outcome" where
  "sys_get_mouse_state k =
     (let b = unat (ms_buttons (k_mouse k)); x = u32_of (posX (k_mouse k)); y = u32_of (posY (k_mouse k));
          packed = push_bit 56 (word_of_nat b) OR push_bit 32 (word_of_nat x) OR (word_of_nat y :: u64)
      in Some (unat packed, k))"

text \<open>\<^verbatim>\<open>SYS_SPAWN\<close>: the path is copied while the caller's tables are still in use.\<close>

definition sys_spawn :: "environment \<Rightarrow> nat \<Rightarrow> ('w, 'd) kernel \<Rightarrow> ('w, 'd) outcome" where
  "sys_spawn e path k =
     Option.bind (load_path 255 path k) (\<lambda>path_buf.
       let (newCR3, m) = CreatePageTable (k_mmu k)
       in if newCR3 = 0 then Some (SYS_ERR, set_mmu m k)
          else Option.bind (Load e path_buf 0x600000000000 (set_mmu (SwitchPageTable m newCR3) k)) (\<lambda>(lp, k1).
                 let k2 = set_mmu (SwitchPageTable (k_mmu k1) (GetCurrentPageTable m)) k1
                 in if error_code lp = 0
                    then map_option (\<lambda>s. (0, k2\<lparr>k_sched := s\<rparr>))
                           (CreateUserTask (entry_point lp) (stack_top lp) newCR3 (lp_arg1 lp) (k_sched k2))
                    else Some (nat (error_code lp mod 18446744073709551616), set_mmu (DestroyPageTable (k_mmu k2) newCR3) k2)))"

section \<open>Information\<close>

definition date_bytes :: "MorphicDateTime \<Rightarrow> u8 list" where
  "date_bytes d = le_bytes 2 (unat (dt_year d)) @
     [dt_month d, dt_day d, dt_hour d, dt_minute d, dt_second d, dt_valid d, dt_reserved0 d]"

definition sys_get_rtc :: "environment \<Rightarrow> nat \<Rightarrow> ('w, 'd) kernel \<Rightarrow> ('w, 'd) outcome" where
  "sys_get_rtc e p k =
     (if \<not> IsUserPtr p then Some (0, k)
      else Option.bind (ReadRtcStable (e_locals e) (e_cmos e) (k_cmos_reads k)) (\<lambda>(d, t).
           map_option (Pair 1) (store_user p (date_bytes d) (k\<lparr>k_cmos_reads := t\<rparr>))))"

text \<open>The largest device; the file system's free space is reported as 0.\<close>

definition largest_device :: "'d storage \<Rightarrow> nat" where
  "largest_device st = foldl (\<lambda>m i. case GetDeviceByIndex i st of
      Some d \<Rightarrow> (if bd_total_bytes d > m then bd_total_bytes d else m) | None \<Rightarrow> m) 0 [0..<sm_GetDeviceCount st]"

text \<open>\<^verbatim>\<open>GetCpuVendor\<close>, and \<^verbatim>\<open>GetCpuBrand\<close> into a cleared field.\<close>

definition cpu_vendor :: "environment \<Rightarrow> u8 list" where
  "cpu_vendor e = (case e_cpuid e 0 of (eax, ebx, ecx, edx) \<Rightarrow> le_bytes 4 ebx @ le_bytes 4 edx @ le_bytes 4 ecx @ [0])"

definition cpu_brand :: "environment \<Rightarrow> u8 list" where
  "cpu_brand e =
     (if fst (e_cpuid e 0x80000000) < 0x80000004 then replicate 49 0
      else concat (map (\<lambda>leaf. case e_cpuid e leaf of (eax, ebx, ecx, edx) \<Rightarrow>
             le_bytes 4 eax @ le_bytes 4 ebx @ le_bytes 4 ecx @ le_bytes 4 edx) [0x80000002, 0x80000003, 0x80000004]) @ [0])"

definition sys_get_system_info :: "environment \<Rightarrow> nat \<Rightarrow> ('w, 'd) kernel \<Rightarrow> ('w, 'd) outcome" where
  "sys_get_system_info e p k =
     (if \<not> IsUserPtr p then Some (0, k)
      else let g = cp_gfx (k_wm k); pm = mm_pmm (k_mmu k);
               info = cpu_vendor e @ cpu_brand e @ le_bytes 8 (GetTotalMemory pm) @ le_bytes 8 (GetFreeMemory pm) @
                 le_bytes 4 (GetWidth g) @ le_bytes 4 (GetHeight g) @ le_bytes 4 (GetPitch g) @ le_bytes 4 32 @
                 le_bytes 8 (largest_device (mw_storage (k_mounts k))) @ le_bytes 8 0
           in map_option (Pair 1) (store_user p info k))"

definition sys_set_keymap :: "nat \<Rightarrow> ('w, 'd) kernel \<Rightarrow> ('w, 'd) outcome" where
  "sys_set_keymap p k =
     (if p < kUserSpaceMin then Some (0, k)
      else map_option (\<lambda>b. let (ok, km) = SetKeymap (map (\<lambda>x. char_of (unat x)) (takeWhile (\<lambda>x. x \<noteq> 0) b)) (k_keymap k)
                           in (if ok then 1 else 0, k\<lparr>k_keymap := km\<rparr>)) (load_user p 3 k))"

partial_function (option) scan_string :: "nat \<Rightarrow> ('w, 'd) kernel \<Rightarrow> unit option" where
  "scan_string v k = Option.bind (load_byte v k) (\<lambda>b. if b = 0 then Some () else scan_string (add64 v 1) k)"

definition sys_debug_print :: "nat \<Rightarrow> ('w, 'd) kernel \<Rightarrow> ('w, 'd) outcome" where
  "sys_debug_print p k = (if p = 0 then Some (0, k) else map_option (\<lambda>_. (0, k)) (scan_string p k))"

section \<open>Windows\<close>

definition window_bytes :: "nat \<Rightarrow> nat \<Rightarrow> nat" where "window_bytes w h = w * h * 4"

definition sys_create_window :: "nat \<Rightarrow> nat \<Rightarrow> nat \<Rightarrow> ('w, 'd) kernel \<Rightarrow> ('w, 'd) outcome" where
  "sys_create_window a b c k =
     (let w = a mod u32_limit; h = b mod u32_limit
      in if w = 0 \<or> h = 0 \<or> w > 4096 \<or> h > 4096 then Some (0, k)
         else map_option (\<lambda>(r, k1).
                case r of
                  None \<Rightarrow> (0, k1)
                | Some i \<Rightarrow>
                    let win = windows (k_wm k1) ! i; v = add64 0x600100000000 (mul64 (w_id win) 0x1000000)
                    in (v, map_buffer v (w_phys win) (window_bytes w h) k1))
                (with_wm (CreateWindow w h (c mod u32_limit) (GetCurrentTaskId (k_sched k))) k))"

definition sys_map_window :: "nat \<Rightarrow> ('w, 'd) kernel \<Rightarrow> ('w, 'd) outcome" where
  "sys_map_window i k =
     (case GetWindow i (k_wm k) of
        None \<Rightarrow> Some (0, k)
      | Some j \<Rightarrow>
          let win = windows (k_wm k) ! j; v = add64 0x700000000000 (mul64 i 0x1000000)
          in Some (v, map_buffer v (w_phys win) (window_bytes (w_width win) (w_height win)) k))"

text \<open>One \<^verbatim>\<open>WindowInfo\<close> of 72 bytes; only the characters of the title and its zero are written.\<close>

definition store_window :: "nat \<Rightarrow> WindowInfo \<Rightarrow> ('w, 'd) kernel \<Rightarrow> ('w, 'd) kernel option" where
  "store_window p w k =
     Option.bind (store_user p (le_bytes 8 (wi_id w) @ le_bytes 4 (wi_x w) @ le_bytes 4 (wi_y w) @ le_bytes 4 (wi_w w) @
         le_bytes 4 (wi_h w) @ le_bytes 4 (wi_flags w) @ char_bytes (wi_title w) @ [0]) k)
       (store_user (add64 p 64) (le_bytes 8 (wi_pid w)))"

fun store_windows :: "nat \<Rightarrow> WindowInfo list \<Rightarrow> ('w, 'd) kernel \<Rightarrow> ('w, 'd) kernel option" where
  "store_windows p [] k = Some k"
| "store_windows p (w # ws) k = Option.bind (store_window p w k) (store_windows (add64 p 72) ws)"

definition sys_get_window_list :: "nat \<Rightarrow> nat \<Rightarrow> ('w, 'd) kernel \<Rightarrow> ('w, 'd) outcome" where
  "sys_get_window_list p mx k =
     (let ws = GetWindowList p (mx mod u32_limit) (k_wm k) in map_option (Pair (length ws)) (store_windows p ws k))"

definition sys_update_window :: "nat \<Rightarrow> nat \<Rightarrow> nat \<Rightarrow> ('w, 'd) kernel \<Rightarrow> ('w, 'd) outcome" where
  "sys_update_window i pos sz k =
     Some (0, k\<lparr>k_wm := UpdateWindow i (pos div u32_limit) (pos mod u32_limit) (sz div 2 ^ 40) (sz div 2 ^ 16 mod 2 ^ 24) (sz mod 2 ^ 16)
       (k_wm k)\<rparr>)"

section \<open>Shared buffers and the display\<close>

text \<open>A call on the buffer \<open>i\<close>, for its owner only; \<open>bad\<close> is the result for everybody else.\<close>

definition owned_buffer :: "nat \<Rightarrow> ('w, 'd) kernel \<Rightarrow> nat option" where
  "owned_buffer i k =
     (case GetBuffer i (k_bufs k) of
        Some b \<Rightarrow> (if sb_owner_pid (bm_buffers (k_bufs k) ! b) = GetCurrentTaskId (k_sched k) then Some b else None)
      | None \<Rightarrow> None)"

definition sys_drm_create_buffer :: "nat \<Rightarrow> nat \<Rightarrow> ('w, 'd) kernel \<Rightarrow> ('w, 'd) outcome" where
  "sys_drm_create_buffer w h k =
     map_option (\<lambda>(r, k1). (case r of Some b \<Rightarrow> sb_id (bm_buffers (k_bufs k1) ! b) | None \<Rightarrow> 0, k1))
       (with_bufs (CreateBuffer (w mod u32_limit) (h mod u32_limit) (GetCurrentTaskId (k_sched k))) k)"

definition sys_drm_destroy_buffer :: "nat \<Rightarrow> ('w, 'd) kernel \<Rightarrow> ('w, 'd) outcome" where
  "sys_drm_destroy_buffer i k =
     (case owned_buffer i k of
        None \<Rightarrow> Some (SYS_ERR, k)
      | Some b \<Rightarrow> with_bufs (\<lambda>s. Some (0, DestroyBuffer b s)) k)"

definition sys_drm_map_buffer :: "nat \<Rightarrow> ('w, 'd) kernel \<Rightarrow> ('w, 'd) outcome" where
  "sys_drm_map_buffer i k =
     (case owned_buffer i k of
        None \<Rightarrow> Some (0, k)
      | Some b \<Rightarrow>
          let (v, s, m) = MapToUser b (k_bufs k) (k_mmu k)
          in Some (v, set_mmu m (k\<lparr>k_drm := (k_drm k)\<lparr>d_bm := s\<rparr>\<rparr>)))"

definition on_buffer :: "(nat \<Rightarrow> bufman \<Rightarrow> bufman) \<Rightarrow> nat \<Rightarrow> ('w, 'd) kernel \<Rightarrow> ('w, 'd) outcome" where
  "on_buffer f i k =
     (case owned_buffer i k of
        None \<Rightarrow> Some (SYS_ERR, k)
      | Some b \<Rightarrow> Some (0, k\<lparr>k_drm := (k_drm k)\<lparr>d_bm := f b (k_bufs k)\<rparr>\<rparr>))"

text \<open>\<^verbatim>\<open>(int16_t)(v >> shift)\<close>\<close>

definition packed16 :: "nat \<Rightarrow> nat \<Rightarrow> int" where
  "packed16 sh v = sint (word_of_nat (v div 2 ^ sh) :: u16)"

definition sys_drm_mark_dirty_rect :: "nat \<Rightarrow> nat \<Rightarrow> nat \<Rightarrow> ('w, 'd) kernel \<Rightarrow> ('w, 'd) outcome" where
  "sys_drm_mark_dirty_rect i pos sz =
     on_buffer (\<lambda>b. bm_MarkDirty b (packed16 0 pos) (packed16 16 pos) (packed16 0 sz) (packed16 16 sz)) i"

definition sys_drm_mark_compositor_dirty :: "nat \<Rightarrow> nat \<Rightarrow> ('w, 'd) kernel \<Rightarrow> ('w, 'd) outcome" where
  "sys_drm_mark_compositor_dirty pos sz k =
     Some (0, k\<lparr>k_drm := drm_MarkDirty (packed16 0 pos) (packed16 16 pos) (packed16 0 sz) (packed16 16 sz) (k_drm k)\<rparr>)"

definition sys_drm_get_caps :: "nat \<Rightarrow> ('w, 'd) kernel \<Rightarrow> ('w, 'd) outcome" where
  "sys_drm_get_caps p k =
     (if \<not> IsUserPtr p then Some (0, k)
      else let c = GetUapiCaps (k_drm k)
           in map_option (Pair 1) (store_user p (le_bytes 2 (uc_major c) @ le_bytes 2 (uc_minor c) @ le_bytes 4 (uc_flags c) @
                le_bytes 4 (uc_max_width c) @ le_bytes 4 (uc_max_height c) @ le_bytes 4 (uc_preferred_format c) @
                le_bytes 4 (uc_formats_mask c) @ le_bytes 4 (uc_reserved c)) k))"

definition sys_drm_poll_event :: "nat \<Rightarrow> ('w, 'd) kernel \<Rightarrow> ('w, 'd) outcome" where
  "sys_drm_poll_event p k =
     (if \<not> IsUserPtr p then Some (0, k)
      else case PollUapiEvent (k_drm k) of
          None \<Rightarrow> Some (0, k)
        | Some (ev, d) \<Rightarrow>
            map_option (Pair 1) (store_user p (le_bytes 4 (ue_type ev) @ le_bytes 4 (ue_flags ev) @ le_bytes 8 (ue_sequence ev) @
              le_bytes 8 (ue_timestamp ev)) (k\<lparr>k_drm := d\<rparr>)))"

definition atomic_request :: "nat \<Rightarrow> nat \<Rightarrow> nat \<Rightarrow> AtomicRequest" where
  "atomic_request pos sz flags =
     (let w = sz mod 65536; h = sz div 65536 mod 65536
      in \<lparr>ar_wait_vsync = odd flags, ar_full_update = odd (flags div 2), ar_has_damage = (w > 0 \<and> h > 0),
          ar_x = packed16 0 pos, ar_y = packed16 16 pos, ar_w = w, ar_h = h\<rparr>)"

section \<open>Presenting\<close>

text \<open>\<^verbatim>\<open>Graphics::MarkDirty\<close> and \<^verbatim>\<open>Graphics::Flip\<close>.\<close>

definition gfx_MarkDirty :: "nat \<Rightarrow> nat \<Rightarrow> nat \<Rightarrow> nat \<Rightarrow> ('w, 'd) kernel \<Rightarrow> ('w, 'd) kernel" where
  "gfx_MarkDirty x y w h k =
     (if g_drm (cp_gfx (k_wm k)) then k\<lparr>k_drm := drm_MarkDirty (i32_of x) (i32_of y) (i32_of w) (i32_of h) (k_drm k)\<rparr> else k)"

text \<open>\<^verbatim>\<open>ComposeAppWindowsOnly\<close> with its calls of \<^verbatim>\<open>Graphics::MarkDirty\<close>.\<close>

definition sys_compose_layers :: "environment \<Rightarrow> ('w, 'd) kernel \<Rightarrow> ('w, 'd) outcome" where
  "sys_compose_layers e k =
     Some (0, foldl (\<lambda>k l. gfx_MarkDirty (u32_of (l_x l)) (u32_of (l_y l)) (l_width l) (l_height l) k)
       (draw_wm (ComposeAppWindowsOnly (e_font e) (\<lambda>b w h. DrawCursor b w h (k_mouse k))) k) (app_window_marks (k_wm k)))"

definition gfx_Flip :: "nat \<Rightarrow> ('w, 'd) kernel \<Rightarrow> ('w, 'd) kernel" where
  "gfx_Flip ticks k = (if g_drm (cp_gfx (k_wm k)) then k\<lparr>k_drm := snd (Present ticks False (k_drm k))\<rparr> else k)"

definition sys_update_screen :: "environment \<Rightarrow> ('w, 'd) kernel \<Rightarrow> ('w, 'd) outcome" where
  "sys_update_screen e k =
     (let k1 = draw_wm (Compose (e_font e)) k in Some (0, k1\<lparr>k_drm := snd (Present (e_ticks e) True (k_drm k1))\<rparr>))"

definition sys_video_flip :: "environment \<Rightarrow> nat \<Rightarrow> nat \<Rightarrow> ('w, 'd) kernel \<Rightarrow> ('w, 'd) outcome" where
  "sys_video_flip e buffer flags k =
     (if buffer = 0x600100000000
      then let g = cp_gfx (k_wm k); k1 = (if odd flags then gfx_MarkDirty 0 0 (GetWidth g) (GetHeight g) k else k)
           in Some (1, gfx_Flip (e_ticks e) k1)
      else let phys = user_phys k buffer in Some (0, if phys \<noteq> 0 then k\<lparr>k_wm := MarkLayerReady phys (k_wm k)\<rparr> else k))"

text \<open>A loop of \<^verbatim>\<open>WaitVBlankTimeoutMs\<close>: it polls the port until \<open>wait\<close> ends, and after each poll looks at the timer; \<open>t\<close> counts
  the accesses.  Interrupts are masked during a call, so whether the timer advances is up to the machine.\<close>

partial_function (option) vblank_phase :: "(u8 \<Rightarrow> bool) \<Rightarrow> environment \<Rightarrow> nat \<Rightarrow> nat \<Rightarrow> (bool \<times> nat) option" where
  "vblank_phase wait e deadline t =
     (if wait (e_vga_status e t)
      then (if e_clock e (t + 1) \<ge> deadline then Some (False, t + 2) else vblank_phase wait e deadline (t + 2))
      else Some (True, t + 1))"

definition WaitVBlankTimeoutMs :: "environment \<Rightarrow> nat \<Rightarrow> bool option" where
  "WaitVBlankTimeoutMs e timeout_ms =
     (let deadline = add64 (e_clock e 0) timeout_ms
      in Option.bind (vblank_phase (\<lambda>b. b AND 8 \<noteq> 0) e deadline 1) (\<lambda>(ok, t).
           if \<not> ok then Some False else map_option fst (vblank_phase (\<lambda>b. b AND 8 = 0) e deadline t)))"

definition copy_user_row :: "addr \<Rightarrow> nat \<Rightarrow> nat \<Rightarrow> nat \<Rightarrow> ('w, 'd) kernel \<Rightarrow> ('w, 'd) kernel option" where
  "copy_user_row dest dst_off src n k =
     map_option (\<lambda>bs. set_px ((k_px k)(dest := (\<lambda>i. if dst_off \<le> i \<and> i < dst_off + n then word_of_nat (le32 bs (4 * (i - dst_off)))
                                             else k_px k dest i))) k) (load_user src (4 * n) k)"

fun copy_user_rows :: "addr \<Rightarrow> nat \<Rightarrow> nat \<Rightarrow> nat \<Rightarrow> nat \<Rightarrow> nat \<Rightarrow> nat \<Rightarrow> nat \<Rightarrow> ('w, 'd) kernel \<Rightarrow> ('w, 'd) kernel option" where
  "copy_user_rows dest pitch src fb_w x y w 0 k = Some k"
| "copy_user_rows dest pitch src fb_w x y w (Suc h) k =
     Option.bind (copy_user_row dest (y * pitch + x) (add64 src (4 * (y * fb_w + x))) w k) (copy_user_rows dest pitch src fb_w x (add32 y 1) w h)"

definition sys_video_flip_rect :: "environment \<Rightarrow> nat \<Rightarrow> nat \<Rightarrow> nat \<Rightarrow> ('w, 'd) kernel \<Rightarrow> ('w, 'd) outcome" where
  "sys_video_flip_rect e src pos sz k =
     (let g = cp_gfx (k_wm k); dest = GetDrawBuffer g; fb_w = GetWidth g; fb_h = GetHeight g;
          x = pos div u32_limit; y = pos mod u32_limit; w = sz div u32_limit; h = sz mod u32_limit
      in if src < kUserSpaceMin \<or> dest = 0 \<or> fb_w = 0 \<or> fb_h = 0 \<or> x \<ge> fb_w \<or> y \<ge> fb_h \<or> w = 0 \<or> h = 0 then Some (0, k)
         else Option.bind (WaitVBlankTimeoutMs e 2) (\<lambda>vsynced.
              map_option (Pair (if vsynced then 1 else 0))
                (copy_user_rows dest (GetPitch g) src fb_w x y (clip_len fb_w x w) (clip_len fb_h y h) k)))"

section \<open>The dispatcher\<close>

text \<open>Shutdown (72) and reboot (73) do not return.  The beep (12) changes nothing but the speaker's ports.\<close>

definition syscall_handler ::
  "environment \<Rightarrow> nat \<Rightarrow> nat \<Rightarrow> nat \<Rightarrow> nat \<Rightarrow> ('w, 'd) kernel \<Rightarrow> ('w, 'd) outcome" where
  "syscall_handler e num a1 a2 a3 k =
     (if num = 0 then Some (0, k\<lparr>k_sched := sched_Exit (k_sched k)\<rparr>)
      else if num = 1 then sys_write e a1 a2 a3 k
      else if num = 2 then sys_read e a1 a2 a3 k
      else if num = 3 then sys_malloc a1 k
      else if num = 4 then Some (0, k)
      else if num = 5 then sys_open a1 a2 k
      else if num = 6 then sys_close a1 k
      else if num = 10 then sys_update_screen e k
      else if num = 12 then Some (0, k)
      else if num = 11 then Some (GetWidth (cp_gfx (k_wm k)) * 2 ^ 32 + GetHeight (cp_gfx (k_wm k)), k)
      else if num = 13 then Some (0, k\<lparr>k_sched := sched_Sleep (e_ticks e) a1 (k_sched k)\<rparr>)
      else if num = 21 then sys_get_event a1 k
      else if num = 20 then Some (e_ticks e, k)
      else if num = 82 then sys_get_mouse_state k
      else if num = 83 then Some (GetCurrentTaskId (k_sched k), k)
      else if num = 84 then Some (GetCompositorPID (k_im k), k)
      else if num = 55 then sys_get_rtc e a1 k
      else if num = 56 then sys_get_system_info e a1 k
      else if num = 53 then sys_alloc_backbuffer a1 k
      else if num = 50 then sys_video_map k
      else if num = 51 then sys_video_flip e a1 a2 k
      else if num = 54 then sys_video_flip_rect e a1 a2 a3 k
      else if num = 52 then Some (0, k)
      else if num = 65 then sys_post_message a1 a2 k
      else if num = 66 then sys_compose_layers e k
      else if num = 67 then sys_get_window_list a1 a2 k
      else if num = 68 then sys_update_window a1 a2 a3 k
      else if num = 70 then sys_set_keymap a1 k
      else if num = 62 then sys_create_window a1 a2 a3 k
      else if num = 60 then sys_spawn e a1 k
      else if num = 61 then sys_debug_print a1 k
      else if num = 63 then sys_register_compositor k
      else if num = 64 then sys_map_window a1 k
      else if num = 71 then sys_readdir a1 a2 a3 k
      else if num = 74 then sys_read_file e a1 a2 a3 k
      else if num = 80 then Some (0, k)
      else if num = 81 then sys_list_mounts a1 a2 k
      else if num = 90 then sys_drm_create_buffer a1 a2 k
      else if num = 91 then sys_drm_destroy_buffer a1 k
      else if num = 92 then sys_drm_map_buffer a1 k
      else if num = 93 then on_buffer bm_MarkReady a1 k
      else if num = 94 then sys_drm_mark_dirty_rect a1 a2 a3 k
      else if num = 95
      then (let (ok, d) = Present (e_ticks e) (odd a1) (k_drm k) in Some (if ok then 1 else 0, k\<lparr>k_drm := d\<rparr>))
      else if num = 96 then sys_drm_mark_compositor_dirty a1 a2 k
      else if num = 97 then sys_drm_get_caps a1 k
      else if num = 98 then sys_drm_poll_event a1 k
      else if num = 99 then Some (eventDropCount (k_sched k), k)
      else if num = 100 then Some (if AtomicTest (atomic_request a1 a2 a3) (k_drm k) then 1 else 0, k)
      else if num = 101
      then (let (ok, d) = AtomicCommit (e_ticks e) (atomic_request a1 a2 a3) (k_drm k) in Some (if ok then 1 else 0, k\<lparr>k_drm := d\<rparr>))
      else if num = 72 \<or> num = 73 then None
      else Some (SYS_ERR, k))"
end
