(* ===== verification/Syscall_Safety.thy ===== *)
theory Syscall_Safety
  imports Syscall
begin

text \<open>
  What holds over every system call: bad pointers are refused without effect, the open descriptors of a task
  name files, and the buffers of other tasks are left alone.  The proofs go through each case of the dispatcher
  with a rule for every way a call is put together (\<open>ok\<close>).
\<close>

section \<open>A call at a time\<close>

text \<open>Every result of the call satisfies \<open>P\<close>.\<close>

definition ok :: "('k \<Rightarrow> bool) \<Rightarrow> ('r \<times> 'k) option \<Rightarrow> bool" where
  "ok P m \<longleftrightarrow> (\<forall>r k. m = Some (r, k) \<longrightarrow> P k)"

named_theorems ok_rules

lemma okI [intro?]: "(\<And>r k. m = Some (r, k) \<Longrightarrow> P k) \<Longrightarrow> ok P m"
  by (simp add: ok_def)

lemma ok_simps [simp]: "ok P None" "ok P (Some (r, k)) \<longleftrightarrow> P k"
  by (simp_all add: ok_def)

lemma ok_if [ok_rules]: "(c \<Longrightarrow> ok P x) \<Longrightarrow> (\<not> c \<Longrightarrow> ok P y) \<Longrightarrow> ok P (if c then x else y)"
  by simp

lemma ok_bind [ok_rules]: "(\<And>x. m = Some x \<Longrightarrow> ok P (f x)) \<Longrightarrow> ok P (Option.bind m f)"
  by (auto simp: ok_def bind_eq_Some_conv)

lemma ok_map [ok_rules]: "(\<And>x. m = Some x \<Longrightarrow> P (snd (f x))) \<Longrightarrow> ok P (map_option f m)"
  by (auto simp: ok_def)

lemma ok_case_option [ok_rules]:
  "(m = None \<Longrightarrow> ok P x) \<Longrightarrow> (\<And>a. m = Some a \<Longrightarrow> ok P (f a)) \<Longrightarrow> ok P (case m of None \<Rightarrow> x | Some a \<Rightarrow> f a)"
  by (cases m) auto

lemma ok_case_prod [ok_rules]: "(\<And>a b. p = (a, b) \<Longrightarrow> ok P (f a b)) \<Longrightarrow> ok P (case p of (a, b) \<Rightarrow> f a b)"
  by (cases p) auto

section \<open>Calls that touch neither descriptors nor buffers\<close>

definition keeps :: "('w, 'd) kernel \<Rightarrow> ('w, 'd) kernel \<Rightarrow> bool" where
  "keeps k k' \<longleftrightarrow> vn (k_vfs k') = vn (k_vfs k) \<and> bm_buffers (k_bufs k') = bm_buffers (k_bufs k) \<and>
     (\<forall>a. fdTable (sc_task (k_sched k') a) = fdTable (sc_task (k_sched k) a)) \<and> currentTask (k_sched k') = currentTask (k_sched k)"

lemma keeps_refl [simp]: "keeps k k"
  by (simp add: keeps_def)

lemma keeps_trans [trans]: "keeps k1 k2 \<Longrightarrow> keeps k2 k3 \<Longrightarrow> keeps k1 k3"
  by (simp add: keeps_def)

lemma keeps_store: "store_user v bs k = Some k' \<Longrightarrow> keeps k k'"
  using store_user_frame [of v bs k k'] by (auto simp: keeps_def)

lemma keeps_updates [simp]:
  "keeps k (set_mmu m k)" "keeps k (set_heap h k)" "keeps k (set_px p k)" "keeps k (set_bytes f k)"
  "keeps k (k\<lparr>k_wm := w\<rparr>)" "keeps k (k\<lparr>k_term := t\<rparr>)" "keeps k (k\<lparr>k_im := im\<rparr>)" "keeps k (k\<lparr>k_dev := d\<rparr>)"
  "keeps k (k\<lparr>k_keymap := km\<rparr>)" "keeps k (k\<lparr>k_cmos_reads := n\<rparr>)" "keeps k (k\<lparr>s_userHeapBump := n\<rparr>)"
  by (simp_all add: keeps_def set_mmu_def set_heap_def set_px_def set_bytes_def)

text \<open>The scheduler's part.\<close>

definition same_fds :: "sched \<Rightarrow> sched \<Rightarrow> bool" where
  "same_fds s s' \<longleftrightarrow> (\<forall>a. fdTable (sc_task s' a) = fdTable (sc_task s a)) \<and> currentTask s' = currentTask s"

lemma keeps_sched: "same_fds (k_sched k) s \<Longrightarrow> keeps k (k\<lparr>k_sched := s\<rparr>)"
  by (simp add: keeps_def same_fds_def)

lemma same_fds_refl [simp]: "same_fds s s"
  by (simp add: same_fds_def)

lemma same_fds_trans: "same_fds s1 s2 \<Longrightarrow> same_fds s2 s3 \<Longrightarrow> same_fds s1 s3"
  by (simp add: same_fds_def)

lemma same_fds_Exit: "same_fds s (sched_Exit s)"
  by (simp add: same_fds_def sched_Exit_def)

lemma same_fds_Sleep: "same_fds s (sched_Sleep now ms s)"
  by (simp add: same_fds_def sched_Sleep_def)

lemma same_fds_Push: "PushEventToTask i ev s = Some (r, s') \<Longrightarrow> same_fds s s'"
  by (auto simp: PushEventToTask_def task_push_def same_fds_def bind_eq_Some_conv Let_def upd_task_def split: if_splits)

lemma same_fds_Next: "GetNextOSEvent s = Some (ev, s') \<Longrightarrow> same_fds s s'"
  by (auto simp: GetNextOSEvent_def PopEventFromCurrentTask_def task_pop_def same_fds_def upd_task_def split: if_splits option.splits)

lemma same_fds_drain: "drain_loop im s = Some (im', s') \<Longrightarrow> same_fds s s'"
proof (induction im s rule: drain_loop.induct)
  case (1 im s)
  show ?case
  proof (cases "stash_pop im")
    case None
    with "1.prems" show ?thesis by (simp add: drain_loop.simps)
  next
    case (Some p)
    obtain ev im1 where p: "p = (ev, im1)" by (rule prod.exhaust)
    from "1.prems" obtain r s1 where push: "PushEventToTask (g_compositorPID im) ev s = Some (r, s1)"
      and rest: "(if \<not> r then Some (im1\<lparr>g_stashCount := 0\<rparr>, s1) else drain_loop im1 s1) = Some (im', s')"
      unfolding drain_loop.simps [of im s] Some p by (auto simp: bind_eq_Some_conv)
    note s1 = same_fds_Push [OF push]
    show ?thesis
    proof (cases r)
      case True
      with rest have "drain_loop im1 s1 = Some (im', s')" by simp
      with True have "same_fds s1 s'" using "1.IH" [OF Some p [symmetric] push] by simp
      with s1 show ?thesis by (rule same_fds_trans)
    next
      case False
      with rest s1 show ?thesis by simp
    qed
  qed
qed

lemma same_fds_SetCompositorPID: "SetCompositorPID pid im s = Some (im', s') \<Longrightarrow> same_fds s s'"
  by (auto simp: SetCompositorPID_def Let_def dest: same_fds_drain split: if_splits)


section \<open>The quiet calls\<close>

text \<open>Writing results into user memory, in all the shapes the calls use.\<close>

lemma keeps_store_entries: "store_entries p ns k = Some k' \<Longrightarrow> keeps k k'"
proof (induction p ns k rule: store_entries.induct)
  case (2 p n ns k)
  then obtain k1 where k1: "store_entry p n k = Some k1" "store_entries (add64 p DIRENTRY_SIZE) ns k1 = Some k'"
    by (auto simp: bind_eq_Some_conv)
  have "keeps k k1" using k1(1) unfolding store_entry_def Let_def
    by (auto simp only: bind_eq_Some_conv dest!: keeps_store intro: keeps_trans)
  from this "2.IH" [OF k1] show ?case by (rule keeps_trans)
qed simp

lemma keeps_store_windows: "store_windows p ws k = Some k' \<Longrightarrow> keeps k k'"
proof (induction p ws k rule: store_windows.induct)
  case (2 p w ws k)
  then obtain k1 where k1: "store_window p w k = Some k1" "store_windows (add64 p 72) ws k1 = Some k'"
    by (auto simp: bind_eq_Some_conv)
  have "keeps k k1" using k1(1) unfolding store_window_def
    by (auto simp only: bind_eq_Some_conv dest!: keeps_store intro: keeps_trans)
  from this "2.IH" [OF k1] show ?case by (rule keeps_trans)
qed simp

lemma keeps_store_mount: "store_mount p info k = Some k' \<Longrightarrow> keeps k k'"
  unfolding store_mount_def by (auto simp only: bind_eq_Some_conv dest!: keeps_store intro: keeps_trans)

lemma ok_list_mounts: "ok (keeps k) (list_mounts p cnt is k)"
proof (induction p cnt "is" k rule: list_mounts.induct)
  case (2 p cnt i js k)
  show ?case
  proof (cases "GetMountInfo (int i) (k_mounts k)")
    case None
    with "2.IH"(1) [OF None] show ?thesis by simp
  next
    case (Some info)
    have "ok (keeps k) (list_mounts p (cnt + 1) js k1)" if k1: "store_mount (add64 p (48 * cnt)) info k = Some k1" for k1
    proof -
      have "ok (keeps k1) (list_mounts p (cnt + 1) js k1)" by (rule "2.IH"(2) [OF Some k1])
      with keeps_store_mount [OF k1] show ?thesis unfolding ok_def by (blast intro: keeps_trans)
    qed
    with Some show ?thesis by (simp add: ok_bind)
  qed
qed simp

lemma keeps_malloc_loop: "malloc_loop virt n k = (a, k') \<Longrightarrow> keeps k k'"
proof (induction n arbitrary: virt k a k')
  case (Suc n)
  obtain p pm where p: "AllocPage (mm_pmm (k_mmu k)) = (p, pm)" by (rule prod.exhaust)
  let ?k1 = "set_mmu ((k_mmu k)\<lparr>mm_pmm := pm\<rparr>) k" and ?k2 = "set_bytes (\<lambda>m. kmemset m p 0 4096) (set_mmu ((k_mmu k)\<lparr>mm_pmm := pm\<rparr>) k)"
  obtain r m where m: "MapPage (k_mmu ?k2) (word_of_nat virt) (word_of_nat p) USER_RW = (r, m)" by (rule prod.exhaust)
  obtain c k3 where l: "malloc_loop (add64 virt 4096) n (set_mmu m ?k2) = (c, k3)" by (rule prod.exhaust)
  have "keeps k ?k2" by (rule keeps_trans [of _ ?k1]) simp_all
  also have "keeps ?k2 (set_mmu m ?k2)" by simp
  also have "keeps (set_mmu m ?k2) k3" by (rule Suc.IH [OF l])
  finally have "keeps k k3" .
  with Suc.prems show ?case unfolding malloc_loop.simps p Let_def prod.case m snd_conv l by (auto split: if_splits)
qed simp

lemma keeps_copy_user_rows: "copy_user_rows dest pitch src fb_w x y w h k = Some k' \<Longrightarrow> keeps k k'"
proof (induction h arbitrary: y k)
  case (Suc h)
  then obtain k1 where k1: "copy_user_row dest (y * pitch + x) (add64 src (4 * (y * fb_w + x))) w k = Some k1"
    "copy_user_rows dest pitch src fb_w x (add32 y 1) w h k1 = Some k'" by (auto simp: bind_eq_Some_conv)
  have "keeps k k1" using k1(1) unfolding copy_user_row_def by auto
  with Suc.IH [OF k1(2)] show ?case by (blast intro: keeps_trans)
qed simp

lemma ListDir_vn:
  assumes "ListDir s dir = Some (xs, s')"
  shows "vn s' = vn s"
proof (cases "dir = 0 \<or> n_type (vn s dir) \<noteq> DIRECTORY")
  case False
  with assms obtain ys where y: "(if ys = [] then Some ([], s)
        else Option.bind (kmalloc (vf_heap s) (length ys * 8)) (\<lambda>(p, h). Some (if p = 0 then [] else ys, s\<lparr>vf_heap := h\<rparr>))) = Some (xs, s')"
    unfolding ListDir_def by (auto simp only: bind_eq_Some_conv if_False)
  show ?thesis
  proof (cases "ys = []")
    case False
    with y show ?thesis by (auto simp: bind_eq_Some_conv)
  qed (use y in simp)
qed (use assms in \<open>simp add: ListDir_def\<close>)

lemma keeps_with_vfs_ListDir: "with_vfs (\<lambda>s. ListDir s dir) k = Some (xs, k') \<Longrightarrow> keeps k k'"
  unfolding with_vfs_def by (auto simp only: map_option_eq_Some dest!: ListDir_vn) (simp add: keeps_def set_heap_def)

lemma keeps_with_wm: "with_wm f k = Some (r, k') \<Longrightarrow> keeps k k'"
  unfolding with_wm_def by (auto simp: keeps_def set_heap_def set_mmu_def set_px_def)

lemma keeps_draw [simp]: "keeps k (draw_wm f k)" "keeps k (draw_term g k)"
  by (simp_all add: keeps_def draw_wm_def draw_term_def set_px_def Let_def)

text \<open>The display keeps the table of buffers.\<close>

lemma keeps_drm: "bm_buffers (d_bm d) = bm_buffers (k_bufs k) \<Longrightarrow> keeps k (k\<lparr>k_drm := d\<rparr>)"
  by (simp add: keeps_def)

lemma bm_if: "d_bm a = z \<Longrightarrow> d_bm b = z \<Longrightarrow> d_bm (if c then a else b) = z"
  by simp

lemma bm_option: "d_bm a = z \<Longrightarrow> (\<And>i. d_bm (f i) = z) \<Longrightarrow> d_bm (case x of None \<Rightarrow> a | Some i \<Rightarrow> f i) = z"
  by (cases x) simp_all

lemma bm_drm_MarkDirty [simp]: "d_bm (drm_MarkDirty x y w h d) = d_bm d"
  unfolding drm_MarkDirty_def Let_def case_prod_beta by (intro bm_if bm_option) simp_all

lemma bm_Queue [simp]: "d_bm (QueueUapiEventLocked t ty f q d) = d_bm d"
  by (simp add: QueueUapiEventLocked_def Let_def)

lemma bm_Present [simp]: "bm_buffers (d_bm (snd (Present t v d))) = bm_buffers (d_bm d)"
  by (simp add: Present_def Let_def d_draw_def bm_Queue drm_ClearDirty_def)

lemma bm_PollUapiEvent: "PollUapiEvent d = Some (ev, d') \<Longrightarrow> d_bm d' = d_bm d"
  by (auto simp: PollUapiEvent_def split: if_splits)

lemma bm_Present': "Present t v d = (r, d') \<Longrightarrow> bm_buffers (d_bm d') = bm_buffers (d_bm d)"
  using bm_Present [of t v d] by simp

lemma bm_AtomicCommit: "AtomicCommit t q d = (r, d') \<Longrightarrow> bm_buffers (d_bm d') = bm_buffers (d_bm d)"
  unfolding AtomicCommit_def Let_def
  by (auto split: if_splits option.splits prod.splits dest!: bm_Present')

definition quiet :: "nat \<Rightarrow> bool" where
  "quiet num \<longleftrightarrow> num \<notin> {1, 2, 5, 6, 60, 90, 91, 92, 93, 94}"

named_theorems quiet_calls

lemma quiet_malloc [quiet_calls]: "ok (keeps k) (sys_malloc n k)"
  unfolding sys_malloc_def Let_def
  by (intro ok_rules) (auto dest!: keeps_malloc_loop intro: keeps_trans [OF _ keeps_updates(11)])

lemma quiet_get_event [quiet_calls]: "ok (keeps k) (sys_get_event p k)"
  unfolding sys_get_event_def
  by (intro ok_rules) (auto dest!: keeps_store same_fds_Next intro: keeps_trans [OF keeps_sched])

lemma quiet_post_message [quiet_calls]: "ok (keeps k) (sys_post_message i p k)"
  unfolding sys_post_message_def by (intro ok_rules) (auto intro!: keeps_sched dest: same_fds_Push)

lemma quiet_register [quiet_calls]: "ok (keeps k) (sys_register_compositor k)"
  unfolding sys_register_compositor_def
  by (intro ok_rules) (auto simp: keeps_def same_fds_def dest!: same_fds_SetCompositorPID)

lemma quiet_get_rtc [quiet_calls]: "ok (keeps k) (sys_get_rtc e p k)"
  unfolding sys_get_rtc_def by (intro ok_rules) (auto dest!: keeps_store intro: keeps_trans [OF keeps_updates(10)])

lemma quiet_get_system_info [quiet_calls]: "ok (keeps k) (sys_get_system_info e p k)"
  unfolding sys_get_system_info_def Let_def by (intro ok_rules) (auto dest: keeps_store)

lemma quiet_set_keymap [quiet_calls]: "ok (keeps k) (sys_set_keymap p k)"
  unfolding sys_set_keymap_def by (intro ok_rules) (auto simp: Let_def split: prod.splits)

lemma quiet_debug_print [quiet_calls]: "ok (keeps k) (sys_debug_print p k)"
  unfolding sys_debug_print_def by (intro ok_rules) auto

lemma quiet_create_window [quiet_calls]: "ok (keeps k) (sys_create_window a b c k)"
  unfolding sys_create_window_def Let_def map_buffer_def
  by (intro ok_rules) (auto dest!: keeps_with_wm intro: keeps_trans [OF _ keeps_updates(1)] split: option.splits)

lemma quiet_map_window [quiet_calls]: "ok (keeps k) (sys_map_window i k)"
  unfolding sys_map_window_def Let_def map_buffer_def by (intro ok_rules) auto

lemma quiet_get_window_list [quiet_calls]: "ok (keeps k) (sys_get_window_list p mx k)"
  unfolding sys_get_window_list_def Let_def by (intro ok_rules) (auto dest: keeps_store_windows)

lemma quiet_update_window [quiet_calls]: "ok (keeps k) (sys_update_window i pos sz k)"
  by (simp add: sys_update_window_def)

lemma quiet_read_file [quiet_calls]: "ok (keeps k) (sys_read_file e path buf mx k)"
  unfolding sys_read_file_def Let_def by (intro ok_rules) (auto dest: keeps_store)

lemma quiet_readdir [quiet_calls]: "ok (keeps k) (sys_readdir path buf mx k)"
  unfolding sys_readdir_def Let_def
  by (intro ok_rules) (auto dest!: keeps_with_vfs_ListDir keeps_store_entries intro: keeps_trans [OF keeps_trans keeps_updates(2)])

lemma quiet_list_mounts [quiet_calls]: "ok (keeps k) (sys_list_mounts buf mx k)"
  unfolding sys_list_mounts_def by (intro ok_rules) (simp_all add: ok_list_mounts)

lemma quiet_alloc_backbuffer [quiet_calls]: "ok (keeps k) (sys_alloc_backbuffer n k)"
  unfolding sys_alloc_backbuffer_def Let_def by (intro ok_rules) simp

lemma quiet_video_map [quiet_calls]: "ok (keeps k) (sys_video_map k)"
  unfolding sys_video_map_def Let_def map_buffer_def
  by (intro ok_rules) (simp_all add: keeps_trans [OF keeps_updates(5) keeps_updates(1)])

lemma keeps_gfx [simp]: "keeps k (gfx_Flip t k)" "keeps k (gfx_MarkDirty x y w h k)"
  by (simp_all add: gfx_Flip_def gfx_MarkDirty_def keeps_drm)

lemma keeps_marks: "keeps k k1 \<Longrightarrow> keeps k (foldl (\<lambda>k l. gfx_MarkDirty (x l) (y l) (w l) (h l) k) k1 ls)"
proof (induction ls arbitrary: k1)
  case (Cons l ls)
  have "keeps k (gfx_MarkDirty (x l) (y l) (w l) (h l) k1)" by (rule keeps_trans [OF Cons.prems]) simp
  from Cons.IH [OF this] show ?case by simp
qed simp

lemma quiet_compose_layers [quiet_calls]: "ok (keeps k) (sys_compose_layers e k)"
  by (simp add: sys_compose_layers_def ok_def keeps_marks)

lemma quiet_video_flip [quiet_calls]: "ok (keeps k) (sys_video_flip e b f k)"
  unfolding sys_video_flip_def Let_def by (intro ok_rules) (auto intro: keeps_trans [OF keeps_gfx(2) keeps_gfx(1)])

lemma quiet_video_flip_rect [quiet_calls]: "ok (keeps k) (sys_video_flip_rect e src pos sz k)"
  unfolding sys_video_flip_rect_def Let_def by (intro ok_rules) (auto dest: keeps_copy_user_rows)

lemma quiet_update_screen [quiet_calls]: "ok (keeps k) (sys_update_screen e k)"
  unfolding sys_update_screen_def Let_def by (simp add: keeps_trans [OF keeps_draw(1) keeps_drm])

lemma quiet_get_mouse_state [quiet_calls]: "ok (keeps k) (sys_get_mouse_state k)"
  by (simp add: sys_get_mouse_state_def Let_def)

lemma quiet_get_caps [quiet_calls]: "ok (keeps k) (sys_drm_get_caps p k)"
  unfolding sys_drm_get_caps_def Let_def by (intro ok_rules) (auto dest: keeps_store)

lemma quiet_poll_event [quiet_calls]: "ok (keeps k) (sys_drm_poll_event p k)"
  unfolding sys_drm_poll_event_def
  by (intro ok_rules) (auto dest!: bm_PollUapiEvent keeps_store intro: keeps_trans [OF keeps_drm] simp: keeps_def)

lemma quiet_mark_compositor_dirty [quiet_calls]: "ok (keeps k) (sys_drm_mark_compositor_dirty pos sz k)"
  by (simp add: sys_drm_mark_compositor_dirty_def keeps_drm)

lemma keeps_present: "Present t v (k_drm k) = (r, d) \<Longrightarrow> keeps k (k\<lparr>k_drm := d\<rparr>)"
  by (rule keeps_drm) (rule bm_Present')

lemma keeps_commit: "AtomicCommit t q (k_drm k) = (r, d) \<Longrightarrow> keeps k (k\<lparr>k_drm := d\<rparr>)"
  by (rule keeps_drm) (rule bm_AtomicCommit)

lemma quiet_syscall:
  assumes q: "quiet num" and r: "syscall_handler e num a1 a2 a3 k = Some (r, k')"
  shows "keeps k k'"
proof -
  have n: "num \<noteq> 1" "num \<noteq> 2" "num \<noteq> 5" "num \<noteq> 6" "num \<noteq> 60" "num \<noteq> 90" "num \<noteq> 91" "num \<noteq> 92" "num \<noteq> 93" "num \<noteq> 94"
    using q by (simp_all add: quiet_def)
  have "ok (keeps k) (syscall_handler e num a1 a2 a3 k)"
    unfolding syscall_handler_def if_not_P [OF n(1)] if_not_P [OF n(2)] if_not_P [OF n(3)] if_not_P [OF n(4)] if_not_P [OF n(5)]
      if_not_P [OF n(6)] if_not_P [OF n(7)] if_not_P [OF n(8)] if_not_P [OF n(9)] if_not_P [OF n(10)] Let_def
    by (intro ok_if ok_case_prod quiet_calls; simp (no_asm_simp) add: keeps_sched same_fds_Exit same_fds_Sleep keeps_present keeps_commit)
  with r show ?thesis by (simp add: ok_def)
qed

section \<open>Bad pointers\<close>

text \<open>The calls that check their first and their second argument.\<close>

definition checked_first :: "nat list" where "checked_first = [5, 21, 54, 55, 56, 70, 71, 74, 81, 97, 98]"
definition checked_second :: "nat list" where "checked_second = [65, 71, 74]"

text \<open>C34. A pointer below user space is refused: whatever the call, nothing changes, and the result is the
  error of the call (0 or -1).  The pointers checked are the first argument of \<^verbatim>\<open>OPEN\<close>, \<^verbatim>\<open>GET_EVENT\<close>, the flip of a
  rectangle, the clock, the system information, \<^verbatim>\<open>SET_KEYMAP\<close>, \<^verbatim>\<open>READDIR\<close>, \<^verbatim>\<open>READ_FILE\<close>, \<^verbatim>\<open>LIST_MOUNTS\<close> and the two
  display queries, the second argument of \<^verbatim>\<open>READDIR\<close>, \<^verbatim>\<open>READ_FILE\<close> and \<^verbatim>\<open>POST_MESSAGE\<close>, and the buffer of \<^verbatim>\<open>READ\<close> and \<^verbatim>\<open>WRITE\<close>.\<close>

theorem bad_pointer_refused:
  assumes "p < kUserSpaceMin"
  shows "(num \<in> set checked_first \<longrightarrow> syscall_handler e num p a2 a3 k = Some (if num = 5 \<or> num = 74 then SYS_ERR else 0, k)) \<and>
    (num \<in> set checked_second \<longrightarrow> syscall_handler e num a1 p a3 k = Some (if num = 74 then SYS_ERR else 0, k)) \<and>
    (fd < MAX_PROCESS_FDS \<longrightarrow> syscall_handler e 2 fd p a3 k = Some (if fd = 0 then 0 else SYS_ERR, k) \<and>
       syscall_handler e 1 fd p a3 k = Some (SYS_ERR, k))"
proof -
  have u: "\<not> IsUserPtr p" using assms by (simp add: IsUserPtr_def)
  have 1: "syscall_handler e num p a2 a3 k = Some (if num = 5 \<or> num = 74 then SYS_ERR else 0, k)" if "num \<in> set checked_first"
    using that u assms unfolding checked_first_def
    by (simp only: list.set insert_iff empty_iff, elim disjE; simp add: syscall_handler_def sys_open_def sys_get_event_def sys_video_flip_rect_def sys_get_rtc_def
      sys_get_system_info_def sys_set_keymap_def sys_readdir_def sys_read_file_def sys_list_mounts_def sys_drm_get_caps_def sys_drm_poll_event_def)
  have 2: "syscall_handler e num a1 p a3 k = Some (if num = 74 then SYS_ERR else 0, k)" if "num \<in> set checked_second"
    using that u assms unfolding checked_second_def
    by (simp only: list.set insert_iff empty_iff, elim disjE; simp add: syscall_handler_def sys_post_message_def sys_readdir_def sys_read_file_def)
  have f: "fd < MAX_PROCESS_FDS \<Longrightarrow> \<not> IsUserPtr fd" by (simp add: IsUserPtr_def)
  have 3: "syscall_handler e 2 fd p a3 k = Some (if fd = 0 then 0 else SYS_ERR, k) \<and> syscall_handler e 1 fd p a3 k = Some (SYS_ERR, k)"
    if "fd < MAX_PROCESS_FDS"
    using u f that by (simp add: syscall_handler_def sys_read_def sys_write_def read_stdin_def)
  from 1 2 3 show ?thesis by blast
qed

theorem bad_pointer_refused_witness:
  "\<forall>e. \<forall>k :: (unit, unit) kernel. syscall_handler e 74 0x600000000000 4096 100 k = Some (SYS_ERR, k)"
proof (intro allI)
  fix e and k :: "(unit, unit) kernel"
  have "(4096 :: nat) < kUserSpaceMin" by simp
  from bad_pointer_refused [OF this, of 74 e _ 100 k "0x600000000000" 0]
  show "syscall_handler e 74 0x600000000000 4096 100 k = Some (SYS_ERR, k)" by (simp add: checked_second_def)
qed

section \<open>Other tasks' buffers\<close>

text \<open>The calls on buffers, and the calls on descriptors, leave the slots of other tasks alone.\<close>

definition foreign :: "('w, 'd) kernel \<Rightarrow> nat \<Rightarrow> bool" where
  "foreign k b \<longleftrightarrow> b < length (bm_buffers (k_bufs k)) \<and> sb_id (bm_buffers (k_bufs k) ! b) \<noteq> 0 \<and>
     sb_owner_pid (bm_buffers (k_bufs k) ! b) \<noteq> GetCurrentTaskId (k_sched k)"

definition same_buffer :: "nat \<Rightarrow> ('w, 'd) kernel \<Rightarrow> ('w, 'd) kernel \<Rightarrow> bool" where
  "same_buffer b k k' \<longleftrightarrow> bm_buffers (k_bufs k') ! b = bm_buffers (k_bufs k) ! b"

lemma keeps_same_buffer: "keeps k k' \<Longrightarrow> same_buffer b k k'"
  by (simp add: keeps_def same_buffer_def)

lemma owned_buffer_D:
  assumes "owned_buffer i k = Some j" and "foreign k b"
  shows "j < length (bm_buffers (k_bufs k)) \<and> j \<noteq> b"
  using assms by (auto simp: owned_buffer_def foreign_def GetBuffer_def split: option.splits if_splits dest: first_slot_SomeD)

lemma upd_buf_other: "j < length (bm_buffers s) \<Longrightarrow> j \<noteq> b \<Longrightarrow> bm_buffers (upd_buf j f s) ! b = bm_buffers s ! b"
  by simp

lemma ok_on_buffer:
  assumes "foreign k b" and "\<And>j s. j < length (bm_buffers s) \<Longrightarrow> j \<noteq> b \<Longrightarrow> bm_buffers (f j s) ! b = bm_buffers s ! b"
  shows "ok (same_buffer b k) (on_buffer f i k)"
  unfolding on_buffer_def
  by (intro ok_rules) (auto simp: same_buffer_def dest: owned_buffer_D [OF _ assms(1)] intro: assms(2))

lemma ok_drm_create_buffer:
  assumes f: "foreign k b"
  shows "ok (same_buffer b k) (sys_drm_create_buffer w h k)"
proof -
  have "bm_buffers s' ! b = bm_buffers s ! b"
    if "CreateBuffer w' h' pid s = Some (r, s')" and "sb_id (bm_buffers s ! b) \<noteq> 0" for w' h' pid s r s'
  proof -
    have ne: "i \<noteq> b" if "first_slot (\<lambda>b. sb_id b = 0) (bm_buffers s) = Some i" for i
      using first_slot_holds [OF that] \<open>sb_id (bm_buffers s ! b) \<noteq> 0\<close> by auto
    show ?thesis using that(1)
      by (auto simp: CreateBuffer_def bind_eq_Some_conv Let_def upd_buf_def split: if_splits option.splits dest!: ne)
  qed
  from this [of _ _ _ "(k_bufs k)\<lparr>bm_heap := k_heap k\<rparr>"] f show ?thesis
    unfolding sys_drm_create_buffer_def with_bufs_def
    by (intro ok_rules) (auto simp: same_buffer_def foreign_def set_heap_def)
qed

lemma DestroyBuffer_other:
  "j < length (bm_buffers s) \<Longrightarrow> j \<noteq> b \<Longrightarrow> bm_buffers (DestroyBuffer j s) ! b = bm_buffers s ! b"
  by (simp add: DestroyBuffer_def Let_def upd_buf_def)

lemma ok_drm_destroy_buffer:
  assumes f: "foreign k b"
  shows "ok (same_buffer b k) (sys_drm_destroy_buffer i k)"
  unfolding sys_drm_destroy_buffer_def with_bufs_def
  by (intro ok_rules)
    (auto simp: same_buffer_def set_heap_def DestroyBuffer_other dest!: owned_buffer_D [OF _ f])

lemma ok_drm_map_buffer:
  assumes f: "foreign k b"
  shows "ok (same_buffer b k) (sys_drm_map_buffer i k)"
proof -
  have "bm_buffers s' ! b = bm_buffers s ! b" if "MapToUser j s m = (v, s', m')" "j < length (bm_buffers s)" "j \<noteq> b" for j s m v s' m'
    using that by (auto simp: MapToUser_def Let_def split: if_splits prod.splits)
  then show ?thesis unfolding sys_drm_map_buffer_def Let_def
    by (intro ok_rules) (auto simp: same_buffer_def set_mmu_def dest!: owned_buffer_D [OF _ f])
qed

section \<open>Descriptors\<close>

text \<open>A table of 32 descriptors in which the ones a task has opened (from 3 on) name files.\<close>

definition fds_typed :: "(addr \<Rightarrow> VFSNode) \<Rightarrow> FileDescriptor list \<Rightarrow> bool" where
  "fds_typed N fds \<longleftrightarrow> length fds = MAX_PROCESS_FDS \<and>
     (\<forall>i \<in> {3..<MAX_PROCESS_FDS}. in_use (fds ! i) \<longrightarrow> fd_node (fds ! i) \<noteq> 0 \<and> n_type (N (fd_node (fds ! i))) = FILE)"

definition files_typed :: "('w, 'd) kernel \<Rightarrow> bool" where
  "files_typed k \<longleftrightarrow> (\<forall>a. fds_typed (vn (k_vfs k)) (fdTable (sc_task (k_sched k) a)))"

definition fd_step :: "('w, 'd) kernel \<Rightarrow> ('w, 'd) kernel \<Rightarrow> bool" where
  "fd_step k k' \<longleftrightarrow> vn (k_vfs k') = vn (k_vfs k) \<and> bm_buffers (k_bufs k') = bm_buffers (k_bufs k) \<and> (files_typed k \<longrightarrow> files_typed k')"

lemma keeps_fd_step: "keeps k k' \<Longrightarrow> fd_step k k'"
  by (simp add: keeps_def fd_step_def files_typed_def)

lemma fd_step_refl [simp]: "fd_step k k"
  by (simp add: fd_step_def)

lemma fd_step_trans: "fd_step k1 k2 \<Longrightarrow> fd_step k2 k3 \<Longrightarrow> fd_step k1 k3"
  by (simp add: fd_step_def)

lemma fds_typed_update:
  assumes "fds_typed N fds" and "3 \<le> i \<Longrightarrow> i < MAX_PROCESS_FDS \<Longrightarrow> in_use d \<Longrightarrow> fd_node d \<noteq> 0 \<and> n_type (N (fd_node d)) = FILE"
  shows "fds_typed N (fds[i := d])"
  unfolding fds_typed_def
proof (intro conjI ballI impI)
  show l: "length (fds[i := d]) = MAX_PROCESS_FDS" using assms(1) by (simp add: fds_typed_def)
  fix j assume j: "j \<in> {3..<MAX_PROCESS_FDS}" "in_use (fds[i := d] ! j)"
  have "fd_node (fds[i := d] ! j) \<noteq> 0 \<and> n_type (N (fd_node (fds[i := d] ! j))) = FILE"
  proof (cases "j = i")
    case True
    with assms(2) j l show ?thesis by simp
  next
    case False
    with assms(1) j show ?thesis by (simp add: fds_typed_def)
  qed
  then show "fd_node (fds[i := d] ! j) \<noteq> 0" "n_type (N (fd_node (fds[i := d] ! j))) = FILE" by simp_all
qed

lemma upd_fd_simps [simp]:
  "k_vfs (upd_fd i f k) = k_vfs k" "k_drm (upd_fd i f k) = k_drm k" "k_mmu (upd_fd i f k) = k_mmu k"
  "currentTask (k_sched (upd_fd i f k)) = currentTask (k_sched k)"
  by (simp_all add: upd_fd_def)

lemma fd_step_upd:
  assumes "\<And>d. 3 \<le> i \<Longrightarrow> in_use (f d) \<Longrightarrow>
    (in_use d \<and> fd_node (f d) = fd_node d) \<or> (fd_node (f d) \<noteq> 0 \<and> n_type (vn (k_vfs k) (fd_node (f d))) = FILE)"
  shows "fd_step k (upd_fd i f k)"
proof -
  have "fds_typed (vn (k_vfs k)) ((fdTable t)[i := f (fdTable t ! i)])" if t: "fds_typed (vn (k_vfs k)) (fdTable t)" for t
  proof (rule fds_typed_update [OF t])
    assume i: "3 \<le> i" "i < MAX_PROCESS_FDS" "in_use (f (fdTable t ! i))"
    with assms [OF i(1,3)] t show "fd_node (f (fdTable t ! i)) \<noteq> 0 \<and> n_type (vn (k_vfs k) (fd_node (f (fdTable t ! i)))) = FILE"
      by (auto simp: fds_typed_def)
  qed
  then show ?thesis by (auto simp: fd_step_def files_typed_def upd_fd_def)
qed

lemma ok_fd_write: "ok (fd_step k) (sys_write e fd buf n k)"
  unfolding sys_write_def write_terminal_def write_file_def Let_def
  by (intro ok_rules) (auto intro: keeps_fd_step fd_step_upd)

lemma ok_fd_read: "ok (fd_step k) (sys_read e fd buf n k)"
  unfolding sys_read_def read_stdin_def read_file_def Let_def
  by (intro ok_rules)
    (auto dest!: keeps_store intro: keeps_fd_step keeps_trans [OF keeps_updates(8)] fd_step_trans [OF keeps_fd_step fd_step_upd])

lemma ok_fd_open: "ok (fd_step k) (sys_open path flags k)"
  unfolding sys_open_def by (intro ok_rules) (auto intro: fd_step_upd)

lemma ok_fd_close: "ok (fd_step k) (sys_close a k)"
  unfolding sys_close_def Let_def by (intro ok_rules) (auto intro: fd_step_upd)

text \<open>Creating a task: its table is cleared, and the tables of the others stay.\<close>

lemma fds_typed_std: "fds_typed N (fdTable (std_streams t)) \<longleftrightarrow> fds_typed N (fdTable t)"
  by (simp add: fds_typed_def std_streams_def)

lemma fds_typed_zero: "fds_typed N (fdTable zero_task)"
  by (simp add: fds_typed_def zero_task_def)

lemma link_task_fds [simp]: "fdTable (sc_task (link_task a s) b) = fdTable (sc_task s b)"
  by (simp add: link_task_def Let_def)

lemma CreateUserTask_typed:
  assumes t: "\<forall>a. fds_typed N (fdTable (sc_task s a))" and c: "CreateUserTask entry stack table arg s = Some s'"
  shows "\<forall>a. fds_typed N (fdTable (sc_task s' a))"
  using t c by (auto simp: CreateUserTask_def bind_eq_Some_conv Let_def fds_typed_std fds_typed_zero split: if_splits)

lemma keeps_Load:
  fixes k :: "('w, 'd) kernel"
  shows "Load e path base k = Some (lp, k') \<Longrightarrow> keeps k k'"
proof -
  have f: "keeps k (fill_image e h n p k)" for h n p and k :: "('w, 'd) kernel"
    by (auto simp: keeps_def set_bytes_def fill_image_def Let_def)
  have i: "keeps k (snd (load_image e h n p b k))" for h n p b and k :: "('w, 'd) kernel"
    unfolding load_image_def Let_def by (auto intro: keeps_trans [OF f keeps_updates(1)] split: prod.splits)
  have "keeps k k'" if "load_image e h n p b (set_mmu m k) = (lp, k')" for h n p b m lp k'
    using i [of "set_mmu m k" h n p b] that by (metis keeps_trans keeps_updates(1) snd_conv)
  then have "ok (keeps k) (Load e path base k)"
    unfolding Load_def Let_def by (intro ok_rules) (auto intro!: okI)
  then show "Load e path base k = Some (lp, k') \<Longrightarrow> keeps k k'" by (simp add: ok_def)
qed

lemma fd_step_CreateUserTask:
  assumes "CreateUserTask entry stack table arg (k_sched k) = Some s"
  shows "fd_step k (k\<lparr>k_sched := s\<rparr>)"
  using CreateUserTask_typed [OF _ assms] by (simp add: fd_step_def files_typed_def)

lemma ok_fd_spawn: "ok (fd_step k) (sys_spawn e path k)"
proof -
  have s: "fd_step k k'" if l: "Load e p b (set_mmu m k) = Some (lp, k1)"
      and k': "k' = set_mmu m2 (set_mmu m1 k1) \<or> (\<exists>s. CreateUserTask en st tb ar (k_sched (set_mmu m1 k1)) = Some s \<and> k' = (set_mmu m1 k1)\<lparr>k_sched := s\<rparr>)"
    for p b m lp k1 k' m1 m2 en st tb ar
  proof -
    have k1: "keeps k (set_mmu m1 k1)" by (rule keeps_trans [OF keeps_updates(1) keeps_trans [OF keeps_Load [OF l] keeps_updates(1)]])
    from k' show ?thesis
    proof
      assume "k' = set_mmu m2 (set_mmu m1 k1)"
      with keeps_trans [OF k1 keeps_updates(1)] show ?thesis by (simp add: keeps_fd_step)
    next
      assume "\<exists>s. CreateUserTask en st tb ar (k_sched (set_mmu m1 k1)) = Some s \<and> k' = (set_mmu m1 k1)\<lparr>k_sched := s\<rparr>"
      then show ?thesis using fd_step_CreateUserTask fd_step_trans [OF keeps_fd_step [OF k1]] by blast
    qed
  qed
  show ?thesis unfolding sys_spawn_def Let_def
    by (intro ok_rules) (auto simp del: set_simps intro: keeps_fd_step s)
qed

lemma with_bufs_frame:
  "with_bufs f k = Some (r, k') \<Longrightarrow> k_vfs k' = k_vfs k \<and> sc_task (k_sched k') = sc_task (k_sched k)"
  by (auto simp: with_bufs_def set_heap_def)

text \<open>C35. The descriptors a task has opened name files: no call, with whatever arguments, leaves a descriptor
  from 3 on in use with a null node or with a node that is not a file, nor changes the size of a table.\<close>

theorem open_files_are_files:
  assumes t: "files_typed k" and r: "syscall_handler e num a1 a2 a3 k = Some (r, k')"
  shows "files_typed k'"
proof -
  have via: "files_typed k'" if "ok (fd_step k) m" "syscall_handler e num a1 a2 a3 k = m" for m
    using that(1) [folded that(2)] r t by (simp add: ok_def fd_step_def)
  have buf: "files_typed k'" if "num \<in> {90, 91, 92, 93, 94}"
  proof -
    have b: "ok (\<lambda>k'. vn (k_vfs k') = vn (k_vfs k) \<and> sc_task (k_sched k') = sc_task (k_sched k)) (syscall_handler e num a1 a2 a3 k)"
      using that unfolding insert_iff empty_iff
      by (elim disjE FalseE; simp add: syscall_handler_def sys_drm_create_buffer_def sys_drm_destroy_buffer_def sys_drm_map_buffer_def
        sys_drm_mark_dirty_rect_def on_buffer_def Let_def; intro ok_rules okI; auto simp: set_mmu_def dest!: with_bufs_frame split: prod.splits)
    with r t show ?thesis by (simp add: ok_def files_typed_def)
  qed
  consider "num = 1" | "num = 2" | "num = 5" | "num = 6" | "num = 60" | "num \<in> {90, 91, 92, 93, 94}" | "quiet num"
    by (auto simp: quiet_def)
  then show ?thesis
  proof cases
    case 1
    then show ?thesis by (intro via [OF ok_fd_write]) (simp add: syscall_handler_def)
  next
    case 2
    then show ?thesis by (intro via [OF ok_fd_read]) (simp add: syscall_handler_def)
  next
    case 3
    then show ?thesis by (intro via [OF ok_fd_open]) (simp add: syscall_handler_def)
  next
    case 4
    then show ?thesis by (intro via [OF ok_fd_close]) (simp add: syscall_handler_def)
  next
    case 5
    then show ?thesis by (intro via [OF ok_fd_spawn]) (simp add: syscall_handler_def)
  next
    case 6
    then show ?thesis by (rule buf)
  next
    case 7
    with keeps_fd_step [OF quiet_syscall [OF 7 r]] t show ?thesis by (simp add: fd_step_def)
  qed
qed

text \<open>C36. The shared buffers of other tasks are safe: whatever a task calls, the slot of a live buffer owned by
  another task keeps its identity, owner, memory, size, readiness and damage.\<close>

theorem foreign_buffers_untouched:
  assumes f: "foreign k b" and r: "syscall_handler e num a1 a2 a3 k = Some (r, k')"
  shows "bm_buffers (k_bufs k') ! b = bm_buffers (k_bufs k) ! b"
proof -
  have via: ?thesis if "ok (same_buffer b k) m" "syscall_handler e num a1 a2 a3 k = m" for m
    using that(1) [folded that(2)] r by (simp add: ok_def same_buffer_def)
  have fds: ?thesis if "ok (fd_step k) m" "syscall_handler e num a1 a2 a3 k = m" for m
    using that(1) [folded that(2)] r by (simp add: ok_def fd_step_def)
  consider "num = 1" | "num = 2" | "num = 5" | "num = 6" | "num = 60" | "num = 90" | "num = 91" | "num = 92" | "num = 93" | "num = 94" | "quiet num"
    by (auto simp: quiet_def)
  then show ?thesis
  proof cases
    case 1
    then show ?thesis by (intro fds [OF ok_fd_write]) (simp add: syscall_handler_def)
  next
    case 2
    then show ?thesis by (intro fds [OF ok_fd_read]) (simp add: syscall_handler_def)
  next
    case 3
    then show ?thesis by (intro fds [OF ok_fd_open]) (simp add: syscall_handler_def)
  next
    case 4
    then show ?thesis by (intro fds [OF ok_fd_close]) (simp add: syscall_handler_def)
  next
    case 5
    then show ?thesis by (intro fds [OF ok_fd_spawn]) (simp add: syscall_handler_def)
  next
    case 6
    then show ?thesis by (intro via [OF ok_drm_create_buffer [OF f]]) (simp add: syscall_handler_def)
  next
    case 7
    then show ?thesis by (intro via [OF ok_drm_destroy_buffer [OF f]]) (simp add: syscall_handler_def)
  next
    case 8
    then show ?thesis by (intro via [OF ok_drm_map_buffer [OF f]]) (simp add: syscall_handler_def)
  next
    case 9
    then show ?thesis
      by (intro via [OF ok_on_buffer [OF f, where f = bm_MarkReady]]) (simp_all add: syscall_handler_def bm_MarkReady_def)
  next
    case 10
    then show ?thesis
      by (intro via [OF ok_on_buffer [OF f, where f = "\<lambda>b. bm_MarkDirty b (packed16 0 a2) (packed16 16 a2) (packed16 0 a3) (packed16 16 a3)"]])
        (simp_all add: syscall_handler_def sys_drm_mark_dirty_rect_def bm_MarkDirty_def)
  next
    case 11
    from keeps_same_buffer [OF quiet_syscall [OF 11 r]] show ?thesis by (simp add: same_buffer_def)
  qed
qed

text \<open>A running main task whose descriptor 3 is an open file.\<close>

definition demo_open :: "(unit, unit) kernel \<Rightarrow> (unit, unit) kernel" where
  "demo_open k = upd_fd 3 (\<lambda>d. d\<lparr>fd_node := 64, in_use := True\<rparr>) (k\<lparr>k_sched := demo_sched 4096 READY, k_vfs := demo_package\<rparr>)"

lemma demo_open_typed: "files_typed (demo_open k)"
proof -
  let ?k = "k\<lparr>k_sched := demo_sched 4096 READY, k_vfs := demo_package\<rparr>"
  have "files_typed ?k" by (simp add: files_typed_def fds_typed_def demo_sched_def demo_task_def zero_task_def)
  moreover have "fd_step ?k (demo_open k)"
    unfolding demo_open_def by (rule fd_step_upd) (simp add: demo_package_def zero_node_def)
  ultimately show ?thesis by (simp add: fd_step_def)
qed

theorem open_files_are_files_witness:
  "\<forall>e k. \<exists>k'. syscall_handler e 6 3 0 0 (demo_open k) = Some (0, k') \<and> files_typed k'"
proof (intro allI)
  fix e k
  have "\<exists>k'. syscall_handler e 6 3 0 0 (demo_open k) = Some (0, k')"
    by (simp add: syscall_handler_def sys_close_def Let_def demo_open_def upd_fd_def cur_fd_def demo_sched_def demo_task_def zero_task_def i32_of_def)
  then obtain k' where k': "syscall_handler e 6 3 0 0 (demo_open k) = Some (0, k')" by blast
  from open_files_are_files [OF demo_open_typed k'] k'
  show "\<exists>k'. syscall_handler e 6 3 0 0 (demo_open k) = Some (0, k') \<and> files_typed k'" by blast
qed

text \<open>One buffer, number 9, of the task 3, while task 0 runs.\<close>

definition demo_foreign :: "(unit, unit) kernel \<Rightarrow> (unit, unit) kernel" where
  "demo_foreign k = k\<lparr>k_sched := demo_sched 4096 READY,
     k_drm := demo_drm\<lparr>d_bm := empty_bufman\<lparr>bm_buffers := [(bm_buffers empty_bufman ! 0)\<lparr>sb_id := 9, sb_owner_pid := 3\<rparr>]\<rparr>\<rparr>\<rparr>"

theorem foreign_buffers_untouched_witness:
  "\<forall>e k. \<exists>k'. syscall_handler e 93 9 0 0 (demo_foreign k) = Some (SYS_ERR, k') \<and>
     bm_buffers (k_bufs k') ! 0 = bm_buffers (k_bufs (demo_foreign k)) ! 0"
proof (intro allI)
  fix e k
  have f: "foreign (demo_foreign k) 0"
    by (simp add: foreign_def demo_foreign_def GetCurrentTaskId_def demo_sched_def demo_task_def)
  have "\<exists>k'. syscall_handler e 93 9 0 0 (demo_foreign k) = Some (SYS_ERR, k')"
    by (simp add: syscall_handler_def on_buffer_def owned_buffer_def GetBuffer_def demo_foreign_def GetCurrentTaskId_def demo_sched_def demo_task_def)
  then obtain k' where k': "syscall_handler e 93 9 0 0 (demo_foreign k) = Some (SYS_ERR, k')" by blast
  from foreign_buffers_untouched [OF f k'] k'
  show "\<exists>k'. syscall_handler e 93 9 0 0 (demo_foreign k) = Some (SYS_ERR, k') \<and>
     bm_buffers (k_bufs k') ! 0 = bm_buffers (k_bufs (demo_foreign k)) ! 0" by blast
qed
end
