(* ===== verification/Map_Limits.thy ===== *)
theory Map_Limits
  imports Page_Runs
begin

text \<open>
  When \<^verbatim>\<open>MapPage\<close> fails: either no frame was left for a table, or a huge page lies over the address.  Callers which
  ignore its result, as \<^verbatim>\<open>SYS_MALLOC\<close> does, rely on neither happening.
\<close>

section \<open>Huge pages on the way\<close>

text \<open>The walk to the page table of an address meets a huge page.\<close>

definition huge_over :: "mmu \<Rightarrow> u64 \<Rightarrow> bool" where
  "huge_over s v =
     (let e1 = pg_mem s (GetCurrentPageTable s) (PML4_INDEX v);
          e2 = pg_mem s (e1 AND PTE_ADDR_MASK) (PDPT_INDEX v);
          e3 = pg_mem s (e2 AND PTE_ADDR_MASK) (PD_INDEX v)
      in e1 AND PTE_PRESENT \<noteq> 0 \<and> e2 AND PTE_PRESENT \<noteq> 0 \<and> (is_huge 2 e2 \<or> e3 AND PTE_PRESENT \<noteq> 0 \<and> is_huge 3 e3))"

definition no_frames :: "mmu \<Rightarrow> bool" where
  "no_frames s \<longleftrightarrow> (\<forall>q < page_limit (mm_pmm s). page_used (mm_pmm s) q)"

lemma huge_over_fields:
  "pg_mem s' = pg_mem s \<Longrightarrow> cr3 s' = cr3 s \<Longrightarrow> huge_over s' v = huge_over s v"
  by (simp add: huge_over_def GetCurrentPageTable_def)

text \<open>Huge pages stay.\<close>

lemma huge_over_keeps:
  assumes wf: "pt_wf s L" and h: "huge_over s v" and root: "GetCurrentPageTable s' = GetCurrentPageTable s"
    and k: "\<And>n t i. n \<in> {1, 2, 3} \<Longrightarrow> t \<in> L n \<Longrightarrow> i < 512 \<Longrightarrow> same_target (pg_mem s t i) (pg_mem s' t i)"
  shows "huge_over s' v"
proof -
  define t1 e1 t2 e2 t3 e3 where d: "t1 = GetCurrentPageTable s" "e1 = pg_mem s t1 (PML4_INDEX v)" "t2 = e1 AND PTE_ADDR_MASK"
    "e2 = pg_mem s t2 (PDPT_INDEX v)" "t3 = e2 AND PTE_ADDR_MASK" "e3 = pg_mem s t3 (PD_INDEX v)"
  have p: "e1 AND PTE_PRESENT \<noteq> 0" "e2 AND PTE_PRESENT \<noteq> 0" "is_huge 2 e2 \<or> e3 AND PTE_PRESENT \<noteq> 0 \<and> is_huge 3 e3"
    using h by (simp_all add: huge_over_def Let_def d)
  have l1: "t1 \<in> L 1" using root_level [OF wf] d(1) by simp
  from pt_wf_child [OF wf _ this _ p(1) [unfolded d(2)]] have "t2 \<in> L (Suc 1)" by (simp add: is_huge_def d)
  then have l2: "t2 \<in> L 2" by (simp add: numeral_2_eq_2)
  note k1 = same_targetD [OF k [OF _ l1 table_index_less] p(1) [unfolded d(2)]]
  note k2 = same_targetD [OF k [OF _ l2 table_index_less] p(2) [unfolded d(4)]]
  have root: "GetCurrentPageTable s' = t1" using root d(1) by simp
  have t2': "pg_mem s' t1 (PML4_INDEX v) AND PTE_ADDR_MASK = t2" using k1 d(2,3) by simp
  have t3': "pg_mem s' t2 (PDPT_INDEX v) AND PTE_ADDR_MASK = t3" using k2 d(4,5) by simp
  show ?thesis
  proof (cases "is_huge 2 e2")
    case True
    then have "is_huge 2 (pg_mem s' t2 (PDPT_INDEX v))" using k2 d(4) by simp
    with k1(1) k2(1) show ?thesis by (simp add: huge_over_def Let_def root t2')
  next
    case False
    with p have p3: "e3 AND PTE_PRESENT \<noteq> 0" "is_huge 3 e3" by simp_all
    from pt_wf_child [OF wf _ l2 _ p(2) [unfolded d(4)]] False d have l3: "t3 \<in> L 3" by simp
    note k3 = same_targetD [OF k [OF _ l3 table_index_less] p3(1) [unfolded d(6)]]
    then have "is_huge 3 (pg_mem s' t3 (PD_INDEX v))" using p3(2) d(6) by simp
    with k1(1) k2(1) k3(1) show ?thesis by (simp add: huge_over_def Let_def root t2' t3')
  qed
qed

lemma huge_over_set_leaf:
  assumes wf: "pt_wf s L" and t: "t \<in> L 4" and h: "huge_over s v"
  shows "huge_over (set_entry t i e s) v"
proof (rule huge_over_keeps [OF wf h])
  fix n u j assume "n \<in> {1, 2, 3 :: nat}" "u \<in> L n"
  then have "u \<noteq> t" using pt_wf_disjoint [OF wf, of n 4] t by auto
  then show "same_target (pg_mem s u j) (pg_mem (set_entry t i e s) u j)" by (simp add: set_entry_mem same_target_def)
qed (simp add: set_entry_def GetCurrentPageTable_def)

lemma MapPage_huge:
  assumes wf: "pt_wf s L" and r: "MapPage s virt phys flags = (ok, s')" and h: "huge_over s v"
  shows "huge_over s' v"
proof -
  from MapPage_walk [OF wf r] obtain s3 L' where w: "map_walk_ok L s virt phys flags ok s' s3 L'" by blast
  then have wf3: "pt_wf s3 L'" and k: "pt_keeps L s s3" by (simp_all add: map_walk_ok_def)
  have h3: "huge_over s3 v" by (rule huge_over_keeps [OF wf h pt_keeps_root [OF k] pt_keepsD [OF k]])
  show ?thesis
  proof (cases ok)
    case False
    with w h3 show ?thesis by (simp add: map_walk_ok_def)
  next
    case True
    with w obtain pt where pt: "leaf_slot s3 virt = Some (pt, PT_INDEX virt)" and
      s': "s' = EnableWriteProtect (FlushTLB virt (set_entry pt (PT_INDEX virt) ((phys AND PTE_ADDR_MASK) OR ConvertFlags flags) s3))"
      by (auto simp: map_walk_ok_def)
    have "pt \<in> L' 4" using leaf_slot_level [OF wf3 pt] by simp
    from huge_over_set_leaf [OF wf3 this h3] have
      "huge_over (set_entry pt (PT_INDEX virt) ((phys AND PTE_ADDR_MASK) OR ConvertFlags flags) s3) v" .
    then show ?thesis unfolding s' by (subst huge_over_fields) (simp_all add: EnableWriteProtect_def FlushTLB_def)
  qed
qed

section \<open>Why a mapping fails\<close>

lemma AllocateTable_none:
  assumes wf: "pt_wf s L" and al: "AllocateTable s = (0, s1)"
  shows "s1 = s \<and> no_frames s"
proof
  show "s1 = s" by (rule AllocateTable_fail [OF wf al])
  show "no_frames s" unfolding no_frames_def
  proof (rule AllocPage_cases [OF conjunct1 [OF pt_wf_pmm [OF wf]]])
    assume "\<forall>q < page_limit (mm_pmm s). page_used (mm_pmm s) q"
    then show "\<forall>q < page_limit (mm_pmm s). page_used (mm_pmm s) q" .
  next
    fix p assume p: "AllocPage (mm_pmm s) = (p * 4096, take_page (mm_pmm s) p)" "p < page_limit (mm_pmm s)" "\<not> page_used (mm_pmm s) p"
    have "s = s1" by (rule AllocateTable_fail [OF wf al, symmetric])
    moreover have "page_used (mm_pmm s1) p"
    proof (cases "p = 0")
      case True
      then show ?thesis using pt_wf_pmm [OF wf] p by (auto simp: pmm_inv_def)
    next
      case False
      have "p * 4096 < 2 ^ 52" using p(2) pt_wf_pmm [OF wf] by (simp add: page_limit_def) linarith
      from unat_page [OF this] have "(word_of_nat (p * 4096) :: u64) \<noteq> 0" using False by auto
      with p(1) al False show ?thesis by (simp add: AllocateTable_def Let_def)
    qed
    ultimately show "\<forall>q < page_limit (mm_pmm s). page_used (mm_pmm s) q" using p by simp
  qed
qed

lemma map_level_None:
  assumes wf: "pt_wf s L" and r: "map_level huge restore d ex t i s = (None, s')"
  shows "mm_pmm s' = mm_pmm s \<and> pg_mem s' = pg_mem s \<and> cr3 s' = cr3 s \<and>
    (no_frames s \<or> huge \<and> pg_mem s t i AND PTE_PRESENT \<noteq> 0 \<and> pg_mem s t i AND PTE_HUGE \<noteq> 0)"
proof (cases "pg_mem s t i AND PTE_PRESENT = 0")
  case True
  obtain n s1 where al: "AllocateTable s = (n, s1)" by (rule prod.exhaust)
  with True r have "n = 0" "s' = s1" by (auto simp: map_level_def split: if_splits)
  with AllocateTable_none [OF wf] al show ?thesis by simp
next
  case False
  with r show ?thesis by (auto simp: map_level_def Let_def split: if_splits)
qed

lemma MapPage_fails:
  assumes wf: "pt_wf s L" and r: "MapPage s virt phys flags = (False, s')"
  shows "no_frames s' \<or> huge_over s' virt"
proof -
  let ?d = "dir_flags_of flags" and ?x = "flags AND PAGE_EXECUTABLE \<noteq> 0"
  let ?s = "DisableWriteProtect s" and ?root = "GetCurrentPageTable s"
  have root: "GetCurrentPageTable ?s = ?root" by (simp add: GetCurrentPageTable_def)
  have wf0: "pt_wf ?s L" using wf pt_wf_fields [of ?s s L] by simp
  have one: "(1::nat) \<in> {1, 2, 3}" "(2::nat) \<in> {1, 2, 3}" "(3::nat) \<in> {1, 2, 3}" by simp_all
  have lv: "(2 \<le> (1::nat)) = False" "(2 \<le> (2::nat)) = True" "(2 \<le> (3::nat)) = True" by simp_all
  obtain r1 s1 where m1: "map_level False False ?d ?x ?root (PML4_INDEX virt) ?s = (r1, s1)" by (rule prod.exhaust)
  from map_level_ok [OF wf0 root_level [OF wf] one(1) table_index_less, unfolded lv, OF m1]
  obtain L1 where l1: "level_ok L 1 ?root (PML4_INDEX virt) ?s r1 s1 L1" by blast
  have nf: "no_frames t \<Longrightarrow> mm_pmm t' = mm_pmm t \<Longrightarrow> no_frames t'" for t t' by (simp add: no_frames_def)
  show ?thesis
  proof (cases r1)
    case None
    then have "s' = s1" using r m1 root_nonnull [OF wf] by (auto simp: MapPage_def Let_def root root_masked)
    moreover have "no_frames s1" using map_level_None [OF wf0 m1 [unfolded None]] by (simp add: no_frames_def)
    ultimately show ?thesis by simp
  next
    case (Some pdpt)
    with l1 have p1: "pt_wf s1 L1" "pdpt \<in> L1 2" "pg_mem s1 ?root (PML4_INDEX virt) AND PTE_PRESENT \<noteq> 0"
      "pg_mem s1 ?root (PML4_INDEX virt) AND PTE_ADDR_MASK = pdpt" "pt_keeps L ?s s1" "\<And>n. L n \<subseteq> L1 n"
      unfolding level_ok_def by (simp_all add: numeral_2_eq_2)
    have root1: "GetCurrentPageTable s1 = ?root" using pt_keeps_root [OF p1(5)] root by simp
    obtain r2 s2 where m2: "map_level True False ?d ?x pdpt (PDPT_INDEX virt) s1 = (r2, s2)" by (rule prod.exhaust)
    from map_level_ok [OF p1(1,2) one(2) table_index_less, unfolded lv, OF m2]
    obtain L2 where l2: "level_ok L1 2 pdpt (PDPT_INDEX virt) s1 r2 s2 L2" by blast
    show ?thesis
    proof (cases r2)
      case None
      then have s': "s' = s2" using r m1 m2 Some root_nonnull [OF wf] by (auto simp: MapPage_def Let_def root root_masked)
      note n = map_level_None [OF p1(1) m2 [unfolded None]]
      show ?thesis
      proof (cases "no_frames s1")
        case True
        with nf n s' show ?thesis by simp
      next
        case False
        with n have "huge_over s2 virt \<longleftrightarrow> huge_over s1 virt" by (intro huge_over_fields) simp_all
        moreover have "huge_over s1 virt" using n False p1(3,4) by (simp add: huge_over_def Let_def root1 is_huge_def)
        ultimately show ?thesis using s' by simp
      qed
    next
      case Some2: (Some pd)
      with l2 have p2: "pt_wf s2 L2" "pg_mem s2 pdpt (PDPT_INDEX virt) AND PTE_PRESENT \<noteq> 0"
        "pg_mem s2 pdpt (PDPT_INDEX virt) AND PTE_ADDR_MASK = pd" "pt_keeps L1 s1 s2"
        unfolding level_ok_def by simp_all
      have root2: "GetCurrentPageTable s2 = ?root" using pt_keeps_root [OF p2(4)] root1 by simp
      have "?root \<in> L1 1" using root_level [OF wf] p1(6) by blast
      note e1 = same_targetD [OF pt_keepsD [OF p2(4) this table_index_less] p1(3)]
      obtain r3 s3 where m3: "map_level True True ?d ?x pd (PD_INDEX virt) s2 = (r3, s3)" by (rule prod.exhaust)
      have "r3 = None" "s' = s3"
        using r m1 m2 m3 Some Some2 root_nonnull [OF wf] by (auto simp: MapPage_def Let_def root root_masked split: option.splits)
      note n = map_level_None [OF p2(1) m3 [unfolded this(1)]]
      show ?thesis
      proof (cases "no_frames s2")
        case True
        with nf n \<open>s' = s3\<close> show ?thesis by simp
      next
        case False
        with n have "huge_over s3 virt \<longleftrightarrow> huge_over s2 virt" by (intro huge_over_fields) simp_all
        moreover have "huge_over s2 virt" using n False e1 p1(4) p2(2,3) by (simp add: huge_over_def Let_def root2 is_huge_def)
        ultimately show ?thesis using \<open>s' = s3\<close> by simp
      qed
    qed
  qed
qed

lemma AllocPage_no_frames:
  assumes "pmm_inv p" and "\<forall>q < page_limit p. page_used p q"
  shows "fst (AllocPage p) = 0"
  by (rule AllocPage_cases [OF assms(1)]) (use assms(2) in auto)

end
