(* ===== verification/Syscall_Memory.thy ===== *)
theory Syscall_Memory
  imports Syscall_Safety Map_Limits
begin

text \<open>
  What the calls on memory and files promise to the task: memory from \<^verbatim>\<open>SYS_MALLOC\<close> is zeroed, private and
  leaves everything else in place whenever the pages could be mapped, and \<^verbatim>\<open>SYS_READ\<close> delivers a file piece by piece.
\<close>

section \<open>Memory for a task\<close>

lemma GetPhysical_pmm [simp]: "GetPhysical (m\<lparr>mm_pmm := pm\<rparr>) v = GetPhysical m v"
  by (simp add: GetPhysical_def GetCurrentPageTable_def Let_def)

lemma leaf_slot_pmm [simp]: "leaf_slot (m\<lparr>mm_pmm := pm\<rparr>) v = leaf_slot m v"
  by (simp add: leaf_slot_def GetCurrentPageTable_def Let_def)

text \<open>The pages from \<open>virt\<close> on are mapped to cleared frames that nobody used.\<close>

definition fresh_pages :: "('w, 'd) kernel \<Rightarrow> nat \<Rightarrow> nat \<Rightarrow> ('w, 'd) kernel \<Rightarrow> bool" where
  "fresh_pages k virt n k' \<longleftrightarrow> (\<forall>a. virt \<le> a \<and> a < virt + n * 4096 \<longrightarrow>
     has_slot (k_mmu k') a \<and> \<not> page_used (mm_pmm (k_mmu k)) (user_phys k' a div 4096) \<and>
     page_used (mm_pmm (k_mmu k')) (user_phys k' a div 4096) \<and> user_phys k' a mod 4096 = a mod 4096 \<and> k_bytes k' (user_phys k' a) = 0)"

definition private_pages :: "nat \<Rightarrow> nat \<Rightarrow> ('w, 'd) kernel \<Rightarrow> bool" where
  "private_pages virt n k' \<longleftrightarrow> inj_on (user_phys k') {virt..<virt + n * 4096}"

text \<open>Everything else is as before: the other pages of the task, and the contents of the frames in use.\<close>

definition rest_kept :: "('w, 'd) kernel \<Rightarrow> nat \<Rightarrow> nat \<Rightarrow> ('w, 'd) kernel \<Rightarrow> bool" where
  "rest_kept k virt n k' \<longleftrightarrow>
     (\<forall>a < 2 ^ 48. \<not> (virt \<le> a \<and> a < virt + n * 4096) \<longrightarrow> has_slot (k_mmu k) a \<longrightarrow>
        has_slot (k_mmu k') a \<and> user_phys k' a = user_phys k a) \<and>
     (\<forall>p. page_used (mm_pmm (k_mmu k)) (p div 4096) \<longrightarrow> k_bytes k' p = k_bytes k p) \<and>
     (\<forall>q. page_used (mm_pmm (k_mmu k)) q \<longrightarrow> page_used (mm_pmm (k_mmu k')) q)"

lemma k_mmu_simps [simp]:
  "k_mmu (set_mmu m k) = m" "k_mmu (set_bytes f k) = k_mmu k" "k_mmu (k\<lparr>s_userHeapBump := b\<rparr>) = k_mmu k"
  "k_bytes (k\<lparr>s_userHeapBump := b\<rparr>) = k_bytes k"
  by (simp_all add: set_mmu_def)

lemma user_phys_mmu: "user_phys k a = unat (phys_of (k_mmu k) a)"
  by (simp add: user_phys_def)

lemma malloc_page:
  assumes t: "pt_tree (k_mmu k)" and p: "AllocPage (mm_pmm (k_mmu k)) = (p, pm)" "p \<noteq> 0"
    and v: "virt mod 4096 = 0" "virt < 2 ^ 47"
    and k2: "k2 = set_bytes (\<lambda>m. kmemset m p 0 4096) (set_mmu ((k_mmu k)\<lparr>mm_pmm := pm\<rparr>) k)"
    and m: "MapPage (k_mmu k2) (word_of_nat virt) (word_of_nat p) USER_RW = (True, m)"
  shows "pt_tree m" and "fresh_pages k virt 1 (set_mmu m k2)" and "rest_kept k virt 1 (set_mmu m k2)"
    and "virt \<le> a \<Longrightarrow> a < virt + 4096 \<Longrightarrow> user_phys (set_mmu m k2) a = p + (a - virt)"
proof -
  note tree = AllocPage_tree [OF t p]
  have mk: "k_mmu k2 = (k_mmu k)\<lparr>mm_pmm := pm\<rparr>" by (simp add: k2)
  have t2: "pt_tree (k_mmu k2)" unfolding mk by (rule tree(1))
  note page = MapPage_page [OF t2 m v tree(2,3)]
  from t2 obtain L where wf: "pt_wf (k_mmu k2) L" and u: "unshared (k_mmu k2) L" by (auto simp: pt_tree_def)
  show "pt_tree m" by (rule MapPage_tree(1) [OF wf u m])
  have mono: "page_used (mm_pmm m) q" if "page_used pm q" for q
    using MapPage_used [OF wf m, of q] that by (simp add: mk)
  have bytes: "k_bytes (set_mmu m k2) x = (if p \<le> x \<and> x < p + 4096 then 0 else k_bytes k x)" for x
    by (simp add: k2 kmemset_spec)
  define q where "q = p div 4096"
  have q: "p = q * 4096" using tree(2) div_mult_mod_eq [of p 4096] unfolding q_def by linarith
  have up: "user_phys (set_mmu m k2) a = p + (a - virt)" if "virt \<le> a" "a < virt + 4096" for a
  proof -
    have "p + (a - virt) < 2 ^ 64" using tree(3) that by simp
    then have "unat (word_of_nat (p + (a - virt)) :: u64) = p + (a - virt)" unfolding unat_of_nat by simp
    with page(1) [OF that] show ?thesis by (simp only: user_phys_mmu k_mmu_simps)
  qed
  then show "virt \<le> a \<Longrightarrow> a < virt + 4096 \<Longrightarrow> user_phys (set_mmu m k2) a = p + (a - virt)" .
  have off: "(p + (a - virt)) div 4096 = q" "(p + (a - virt)) mod 4096 = a mod 4096" if "virt \<le> a" "a < virt + 4096" for a
  proof -
    define w d where wd: "w = virt div 4096" "d = a - virt"
    have w: "virt = w * 4096" using v(1) div_mult_mod_eq [of virt 4096] unfolding wd(1) by linarith
    have d: "a = w * 4096 + d" "d < 4096" "p + (a - virt) = q * 4096 + d" using that w q unfolding wd(2) by linarith+
    show "(p + (a - virt)) div 4096 = q" "(p + (a - virt)) mod 4096 = a mod 4096" using d(2) unfolding d(3) by (simp_all add: d(1))
  qed
  have pd: "p div 4096 = q" by (simp add: q)
  show "fresh_pages k virt 1 (set_mmu m k2)" unfolding fresh_pages_def
  proof (intro allI impI, elim conjE)
    fix a assume a: "virt \<le> a" "a < virt + 1 * 4096"
    then have a': "a < virt + 4096" by simp
    have b: "k_bytes (set_mmu m k2) (p + (a - virt)) = 0" 
    proof -
      have "p \<le> p + (a - virt) \<and> p + (a - virt) < p + 4096" using a a' by linarith
      then show ?thesis by (simp only: bytes if_True simp_thms)
    qed
    have "page_used (mm_pmm m) q" by (rule mono) (simp add: tree(5) pd)
    then show "has_slot (k_mmu (set_mmu m k2)) a \<and> \<not> page_used (mm_pmm (k_mmu k)) (user_phys (set_mmu m k2) a div 4096) \<and>
      page_used (mm_pmm (k_mmu (set_mmu m k2))) (user_phys (set_mmu m k2) a div 4096) \<and>
      user_phys (set_mmu m k2) a mod 4096 = a mod 4096 \<and> k_bytes (set_mmu m k2) (user_phys (set_mmu m k2) a) = 0"
      using page(1) [OF a(1) a'] tree(4) b unfolding up [OF a(1) a'] off(1) [OF a(1) a'] off(2) [OF a(1) a'] k_mmu_simps pd by blast
  qed
  have kept: "k_bytes (set_mmu m k2) x = k_bytes k x" if "page_used (mm_pmm (k_mmu k)) (x div 4096)" for x
  proof -
    have "\<not> (p \<le> x \<and> x < p + 4096)"
    proof
      assume x: "p \<le> x \<and> x < p + 4096"
      then have "x div 4096 = q" unfolding q by linarith
      with that tree(4) pd show False by simp
    qed
    then show ?thesis by (simp only: bytes) simp
  qed
  show "rest_kept k virt 1 (set_mmu m k2)" unfolding rest_kept_def
  proof (intro conjI allI impI)
    fix a :: nat assume a: "a < 2 ^ 48" "\<not> (virt \<le> a \<and> a < virt + 1 * 4096)" "has_slot (k_mmu k) a"
    have "\<not> (virt \<le> a \<and> a < virt + 4096)" "has_slot (k_mmu k2) a" using a(2,3) by (simp_all add: mk)
    from page(2) [OF this(1) a(1) this(2)]
    show "has_slot (k_mmu (set_mmu m k2)) a" "user_phys (set_mmu m k2) a = user_phys k a"
      by (simp_all add: user_phys_mmu mk)
  next
    fix x assume "page_used (mm_pmm (k_mmu k)) (x div 4096)"
    then show "k_bytes (set_mmu m k2) x = k_bytes k x" by (rule kept)
  next
    fix x assume "page_used (mm_pmm (k_mmu k)) x"
    then have "page_used pm x" by (simp add: tree(5))
    then show "page_used (mm_pmm (k_mmu (set_mmu m k2))) x" by (simp add: mono)
  qed
qed


text \<open>What the call leaves behind rules out that a page was not mapped: a huge page would still be there, and no frame would
  be left.\<close>

definition reachable_pages :: "nat \<Rightarrow> nat \<Rightarrow> mmu \<Rightarrow> bool" where
  "reachable_pages virt n m \<longleftrightarrow> \<not> no_frames m \<and> (\<forall>a. virt \<le> a \<and> a < virt + n * 4096 \<longrightarrow> \<not> huge_over m (word_of_nat a))"

lemma malloc_step:
  assumes t: "pt_tree (k_mmu k)" and p: "AllocPage (mm_pmm (k_mmu k)) = (p, pm)" "p \<noteq> 0"
    and k2: "k2 = set_bytes (\<lambda>m. kmemset m p 0 4096) (set_mmu ((k_mmu k)\<lparr>mm_pmm := pm\<rparr>) k)"
    and m: "MapPage (k_mmu k2) v (word_of_nat p) USER_RW = (mapped, m)"
  shows "pt_tree m" and "\<not> mapped \<Longrightarrow> no_frames m \<or> huge_over m v"
    and "huge_over (k_mmu k) w \<Longrightarrow> huge_over m w"
proof -
  have mk: "k_mmu k2 = (k_mmu k)\<lparr>mm_pmm := pm\<rparr>" by (simp add: k2)
  have t2: "pt_tree (k_mmu k2)" unfolding mk by (rule AllocPage_tree(1) [OF t p])
  then obtain L where wf: "pt_wf (k_mmu k2) L" and u: "unshared (k_mmu k2) L" by (auto simp: pt_tree_def)
  show "pt_tree m" by (rule MapPage_tree(1) [OF wf u m])
  show "\<not> mapped \<Longrightarrow> no_frames m \<or> huge_over m v" using MapPage_fails [OF wf, of v "word_of_nat p" USER_RW m] m by simp
  have "huge_over (k_mmu k2) w = huge_over (k_mmu k) w" by (rule huge_over_fields) (simp_all add: mk)
  then show "huge_over (k_mmu k) w \<Longrightarrow> huge_over m w" using MapPage_huge [OF wf m] by simp
qed

lemma malloc_loop_huge:
  assumes "pt_tree (k_mmu k)" and "malloc_loop virt n k = (en, k')" and "huge_over (k_mmu k) w"
  shows "huge_over (k_mmu k') w"
  using assms
proof (induction n arbitrary: virt k)
  case 0
  then show ?case by simp
next
  case (Suc n)
  obtain p pm where p: "AllocPage (mm_pmm (k_mmu k)) = (p, pm)" by (rule prod.exhaust)
  define k2 where "k2 = set_bytes (\<lambda>m. kmemset m p 0 4096) (set_mmu ((k_mmu k)\<lparr>mm_pmm := pm\<rparr>) k)"
  obtain mapped m where m: "MapPage (k_mmu k2) (word_of_nat virt) (word_of_nat p) USER_RW = (mapped, m)" by (rule prod.exhaust)
  show ?case
  proof (cases "p = 0")
    case True
    then have "k' = set_mmu ((k_mmu k)\<lparr>mm_pmm := pm\<rparr>) k" using Suc.prems(2) p by simp
    moreover have "huge_over ((k_mmu k)\<lparr>mm_pmm := pm\<rparr>) w = huge_over (k_mmu k) w" by (rule huge_over_fields) simp_all
    ultimately show ?thesis using Suc.prems(3) by simp
  next
    case False
    have l: "malloc_loop (add64 virt 4096) n (set_mmu m k2) = (en, k')"
      using Suc.prems(2) False unfolding malloc_loop.simps p Let_def prod.case k2_def [symmetric] m snd_conv by simp
    note st = malloc_step [OF Suc.prems(1) p False k2_def m]
    from Suc.IH [OF _ l] st(1,3) Suc.prems(3) show ?thesis by simp
  qed
qed

text \<open>In a run that succeeds and leaves a frame, each mapping succeeds.\<close>

lemma malloc_step_ok:
  assumes t: "pt_tree (k_mmu k)" and p: "AllocPage (mm_pmm (k_mmu k)) = (p, pm)" "p \<noteq> 0"
    and k2: "k2 = set_bytes (\<lambda>m. kmemset m p 0 4096) (set_mmu ((k_mmu k)\<lparr>mm_pmm := pm\<rparr>) k)"
    and m: "MapPage (k_mmu k2) (word_of_nat virt) (word_of_nat p) USER_RW = (mapped, m)"
    and l: "malloc_loop virt' n (set_mmu m k2) = (True, k')" and r: "reachable_pages virt (Suc n) (k_mmu k')"
  shows mapped
proof (rule ccontr)
  assume no: "\<not> mapped"
  note st = malloc_step [OF t p k2 m]
  from st(2) [OF no] show False
  proof
    assume nf: "no_frames m"
    show False
    proof (cases n)
      case 0
      with l have "k' = set_mmu m k2" by simp
      with nf r show False by (simp add: reachable_pages_def)
    next
      case (Suc j)
      from st(1) obtain L where "pt_wf m L" by (auto simp: pt_tree_def)
      then have "pmm_inv (mm_pmm m)" using pt_wf_pmm by blast
      from AllocPage_no_frames [OF this] nf have "fst (AllocPage (mm_pmm m)) = 0" by (simp add: no_frames_def)
      with l Suc show False by (simp add: split_beta Let_def)
    qed
  next
    assume "huge_over m (word_of_nat virt)"
    with malloc_loop_huge [OF _ l, of "word_of_nat virt"] st(1) have "huge_over (k_mmu k') (word_of_nat virt)" by simp
    with r show False by (auto simp: reachable_pages_def)
  qed
qed

lemma malloc_loop_spec:
  assumes "pt_tree (k_mmu k)" and "malloc_loop virt n k = (True, k')" and "virt mod 4096 = 0" and "virt + n * 4096 \<le> 2 ^ 47"
    and "reachable_pages virt n (k_mmu k')"
  shows "fresh_pages k virt n k' \<and> private_pages virt n k' \<and> rest_kept k virt n k'"
  using assms
proof (induction n arbitrary: virt k)
  case 0
  then have "k' = k" by simp
  moreover have "fresh_pages k virt 0 k" unfolding fresh_pages_def by (intro allI impI) linarith
  ultimately show ?case by (simp add: private_pages_def rest_kept_def)
next
  case (Suc n)
  obtain p pm where p: "AllocPage (mm_pmm (k_mmu k)) = (p, pm)" by (rule prod.exhaust)
  define k2 where "k2 = set_bytes (\<lambda>m. kmemset m p 0 4096) (set_mmu ((k_mmu k)\<lparr>mm_pmm := pm\<rparr>) k)"
  obtain ok m where m: "MapPage (k_mmu k2) (word_of_nat virt) (word_of_nat p) USER_RW = (ok, m)" by (rule prod.exhaust)
  have nz: "p \<noteq> 0" and l: "malloc_loop (add64 virt 4096) n (set_mmu m k2) = (True, k')"
    using Suc.prems(2) unfolding malloc_loop.simps p Let_def prod.case k2_def [symmetric] m snd_conv by (auto split: if_splits)
  have step: ok by (rule malloc_step_ok [OF Suc.prems(1) p nz k2_def m l Suc.prems(5)])
  have v: "virt < 2 ^ 47" "add64 virt 4096 = virt + 4096" using Suc.prems(4) by (simp_all add: add64_def)
  have re: "reachable_pages (virt + 4096) n (k_mmu k')" using Suc.prems(5) by (auto simp: reachable_pages_def)
  note page = malloc_page [OF Suc.prems(1) p nz Suc.prems(3) v(1) k2_def m [unfolded step [THEN eq_True [THEN iffD2]]]]
  let ?k1 = "set_mmu m k2"
  have ih: "fresh_pages ?k1 (virt + 4096) n k'" "private_pages (virt + 4096) n k'" "rest_kept ?k1 (virt + 4096) n k'"
    using Suc.IH [of ?k1 "virt + 4096"] page(1) l re v(2) Suc.prems(3,4) by auto
  have first: "has_slot (k_mmu k') a" "user_phys k' a = user_phys ?k1 a" if "virt \<le> a" "a < virt + 4096" for a
    using ih(3) page(2) that v(1) unfolding rest_kept_def fresh_pages_def by auto
  have used1: "page_used (mm_pmm (k_mmu ?k1)) (user_phys ?k1 a div 4096)" if "virt \<le> a" "a < virt + 4096" for a
    using page(2) that unfolding fresh_pages_def by auto
  have "fresh_pages k virt (Suc n) k'" unfolding fresh_pages_def
  proof (intro allI impI)
    fix a assume a: "virt \<le> a \<and> a < virt + Suc n * 4096"
    show "has_slot (k_mmu k') a \<and> \<not> page_used (mm_pmm (k_mmu k)) (user_phys k' a div 4096) \<and>
      page_used (mm_pmm (k_mmu k')) (user_phys k' a div 4096) \<and> user_phys k' a mod 4096 = a mod 4096 \<and> k_bytes k' (user_phys k' a) = 0"
    proof (cases "a < virt + 4096")
      case True
      with a have a1: "virt \<le> a" "a < virt + 4096" by auto
      have f: "\<not> page_used (mm_pmm (k_mmu k)) (user_phys ?k1 a div 4096) \<and> user_phys ?k1 a mod 4096 = a mod 4096 \<and>
          k_bytes ?k1 (user_phys ?k1 a) = 0"
        using page(2) a1 unfolding fresh_pages_def by auto
      moreover have "k_bytes k' (user_phys ?k1 a) = k_bytes ?k1 (user_phys ?k1 a)" "page_used (mm_pmm (k_mmu k')) (user_phys ?k1 a div 4096)"
        using ih(3) used1 [OF a1] unfolding rest_kept_def by blast+
      ultimately show ?thesis using first [OF a1] by simp
    next
      case False
      with a have "virt + 4096 \<le> a" "a < virt + 4096 + n * 4096" by auto
      with ih(1) have f: "has_slot (k_mmu k') a \<and> \<not> page_used (mm_pmm (k_mmu ?k1)) (user_phys k' a div 4096) \<and>
        page_used (mm_pmm (k_mmu k')) (user_phys k' a div 4096) \<and> user_phys k' a mod 4096 = a mod 4096 \<and> k_bytes k' (user_phys k' a) = 0"
        unfolding fresh_pages_def by blast
      moreover have "\<not> page_used (mm_pmm (k_mmu k)) (user_phys k' a div 4096)"
        using page(3) f unfolding rest_kept_def by blast
      ultimately show ?thesis by blast
    qed
  qed
  moreover have "private_pages virt (Suc n) k'" unfolding private_pages_def
  proof (rule inj_onI)
    have lo: "user_phys k' a = p + (a - virt)" if "virt \<le> a" "a < virt + 4096" for a
      using first(2) [OF that] page(4) [OF that] by simp
    have cross: False if "virt \<le> a" "a < virt + 4096" "virt + 4096 \<le> b" "b < virt + 4096 + n * 4096" "user_phys k' a = user_phys k' b" for a b
    proof -
      have "\<not> page_used (mm_pmm (k_mmu ?k1)) (user_phys k' b div 4096)" using ih(1) that(3,4) unfolding fresh_pages_def by blast
      with used1 [OF that(1,2)] first(2) [OF that(1,2)] that(5) show False by simp
    qed
    fix a b assume ab: "a \<in> {virt..<virt + Suc n * 4096}" "b \<in> {virt..<virt + Suc n * 4096}" "user_phys k' a = user_phys k' b"
    consider "a < virt + 4096" "b < virt + 4096" | "a < virt + 4096" "virt + 4096 \<le> b" | "virt + 4096 \<le> a" "b < virt + 4096"
      | "virt + 4096 \<le> a" "virt + 4096 \<le> b" by linarith
    then show "a = b"
    proof cases
      case 1
      with ab lo [of a] lo [of b] show ?thesis by auto
    next
      case 2
      with ab cross [of a b] show ?thesis by auto
    next
      case 3
      with ab cross [of b a] show ?thesis by auto
    next
      case 4
      with ab inj_onD [OF ih(2) [unfolded private_pages_def], of a b] show ?thesis by auto
    qed
  qed
  moreover have "rest_kept k virt (Suc n) k'" unfolding rest_kept_def
  proof (intro conjI allI impI)
    fix a :: nat assume a: "a < 2 ^ 48" "\<not> (virt \<le> a \<and> a < virt + Suc n * 4096)" "has_slot (k_mmu k) a"
    have o: "\<not> (virt \<le> a \<and> a < virt + 1 * 4096)" "\<not> (virt + 4096 \<le> a \<and> a < virt + 4096 + n * 4096)" using a(2) by auto
    from page(3) a(1,3) o(1) have 1: "has_slot (k_mmu ?k1) a" "user_phys ?k1 a = user_phys k a" unfolding rest_kept_def by blast+
    from ih(3) a(1) o(2) 1(1) have "has_slot (k_mmu k') a \<and> user_phys k' a = user_phys ?k1 a" unfolding rest_kept_def by blast
    with 1(2) show "has_slot (k_mmu k') a" "user_phys k' a = user_phys k a" by simp_all
  next
    fix x assume x: "page_used (mm_pmm (k_mmu k)) (x div 4096)"
    with page(3) have "k_bytes ?k1 x = k_bytes k x" "page_used (mm_pmm (k_mmu ?k1)) (x div 4096)" unfolding rest_kept_def by blast+
    with ih(3) show "k_bytes k' x = k_bytes k x" unfolding rest_kept_def by simp
  next
    fix q assume "page_used (mm_pmm (k_mmu k)) q"
    with page(3) ih(3) show "page_used (mm_pmm (k_mmu k')) q" unfolding rest_kept_def by blast
  qed
  ultimately show ?case by blast
qed

text \<open>C37. Memory for a task.  When \<^verbatim>\<open>SYS_MALLOC\<close> returns a non-null address, a physical frame is still free afterwards and no huge
  page lies over the block, then the address is the next one of the task heap, every byte of the block
  is mapped, reads as zero, lies in a frame nobody used before, and shares its storage with no other byte of
  the block; all other addresses of the task translate as before, and nothing stored in a frame in use has changed.
  The next block starts behind this one.  The two conditions stand for the result of \<^verbatim>\<open>MapPage\<close>, which the code ignores:
  when the very last frame went into the last page, its page table may be missing although the call succeeds.\<close>

theorem malloc_fresh_zeroed:
  assumes "pt_tree (k_mmu k)" and "s_userHeapBump k mod 4096 = 0" and "s_userHeapBump k + 64 * 1024 * 1024 \<le> 2 ^ 47"
    and "syscall_handler e 3 sz a2 a3 k = Some (r, k')" and "r \<noteq> 0"
    and "\<exists>q < page_limit (mm_pmm (k_mmu k')). \<not> page_used (mm_pmm (k_mmu k')) q"
    and "\<forall>a. r \<le> a \<and> a < r + (sz + 4095) div 4096 * 4096 \<longrightarrow> \<not> huge_over (k_mmu k') (word_of_nat a)"
  shows "r = s_userHeapBump k \<and> 0 < sz \<and> sz \<le> 64 * 1024 * 1024 \<and>
    s_userHeapBump k' = r + (sz + 4095) div 4096 * 4096 \<and>
    fresh_pages k r ((sz + 4095) div 4096) k' \<and> private_pages r ((sz + 4095) div 4096) k' \<and>
    rest_kept k r ((sz + 4095) div 4096) k'"
proof -
  let ?n = "(sz + 4095) div 4096" and ?b = "s_userHeapBump k"
  obtain en k1 where l: "malloc_loop ?b ?n k = (en, k1)" by (rule prod.exhaust)
  have h: "syscall_handler e 3 sz a2 a3 k = sys_malloc sz k" by (simp add: syscall_handler_def)
  have sz: "0 < sz" "sz \<le> 64 * 1024 * 1024" and en: en and r: "r = ?b" and k': "k' = k1\<lparr>s_userHeapBump := add64 ?b (?n * 4096)\<rparr>"
    using assms(4,5) l unfolding h sys_malloc_def by (auto simp: Let_def split: if_splits)
  have "?n \<le> (64 * 1024 * 1024 + 4095) div 4096" by (rule div_le_mono) (use sz in simp)
  then have n: "?b + ?n * 4096 \<le> 2 ^ 47" using assms(3) by simp
  have m: "k_mmu k' = k_mmu k1" by (simp add: k')
  have "reachable_pages ?b ?n (k_mmu k1)"
    using assms(6,7) unfolding m r by (auto simp: reachable_pages_def no_frames_def)
  with malloc_loop_spec [OF assms(1) _ assms(2) n] l en have spec:
    "fresh_pages k ?b ?n k1 \<and> private_pages ?b ?n k1 \<and> rest_kept k ?b ?n k1" by simp
  have "add64 ?b (?n * 4096) = ?b + ?n * 4096" using n by (simp add: add64_def)
  moreover have "user_phys (k1\<lparr>s_userHeapBump := b\<rparr>) = user_phys k1" for b by (simp add: fun_eq_iff user_phys_def)
  ultimately show ?thesis using spec sz r unfolding fresh_pages_def private_pages_def rest_kept_def k' by simp
qed

text \<open>A machine with two free frames, 5 and 6.\<close>

definition two_pmm :: pmm where
  "two_pmm = tiny_pmm\<lparr>pm_bitmap := bitmap_Set (pm_bitmap tiny_pmm) 6 False\<rparr>"

definition two_mmu :: mmu where
  "two_mmu = demo_mmu\<lparr>mm_pmm := two_pmm\<rparr>"

lemma two_pmm_used: "page_used two_pmm p \<longleftrightarrow> p \<noteq> 5 \<and> p \<noteq> 6 \<and> p < 4104"
  using tiny_pmm_used [of p] by (auto simp: page_used_def two_pmm_def tiny_pmm_def)

lemma two_pmm_inv: "pmm_inv two_pmm"
  by (simp add: pmm_inv_def two_pmm_used page_limit_def) (simp add: two_pmm_def tiny_pmm_def bitmap_Init_def)

lemma two_tree: "pt_tree two_mmu"
proof -
  have "pt_wf two_mmu demo_levels"
    unfolding pt_wf_def
    by (intro conjI) (auto simp: two_mmu_def demo_mmu_def demo_levels_def two_pmm_inv two_pmm_used GetCurrentPageTable_def
        is_huge_def, simp add: two_pmm_def tiny_pmm_def)
  moreover have "unshared two_mmu demo_levels"
    unfolding unshared_def leads_def by (auto simp: two_mmu_def demo_mmu_def demo_levels_def split: if_splits)
  ultimately show ?thesis by (auto simp: pt_tree_def)
qed

definition demo_malloc :: "(unit, unit) kernel \<Rightarrow> (unit, unit) kernel" where
  "demo_malloc k = k\<lparr>k_sched := (demo_sched 4096 READY)\<lparr>sc_mmu := two_mmu\<rparr>, s_userHeapBump := 0x2000\<rparr>"

lemma AllocPage_two: "\<exists>p. (p = 5 \<or> p = 6) \<and> AllocPage two_pmm = (p * 4096, take_page two_pmm p)"
proof -
  have l: "page_limit two_pmm = 4096" by (simp add: page_limit_def two_pmm_def tiny_pmm_def)
  show ?thesis
  proof (rule AllocPage_cases [OF two_pmm_inv])
    fix p assume p: "AllocPage two_pmm = (p * 4096, take_page two_pmm p)" "p < page_limit two_pmm" "\<not> page_used two_pmm p"
    then have "p = 5 \<or> p = 6" by (auto simp: two_pmm_used l)
    with p(1) show ?thesis by blast
  next
    assume "\<forall>p < page_limit two_pmm. page_used two_pmm p"
    then have "page_used two_pmm 5" by (simp add: l)
    then show ?thesis by (simp add: two_pmm_used)
  qed
qed

lemma has_slot_not_huge: "leaf_slot m v \<noteq> None \<Longrightarrow> \<not> huge_over m v"
  by (auto simp: leaf_slot_def huge_over_def Let_def split: if_splits)

theorem malloc_fresh_zeroed_witness:
  "\<forall>e k. \<exists>k'. syscall_handler e 3 100 0 0 (demo_malloc k) = Some (0x2000, k') \<and> s_userHeapBump k' = 0x3000 \<and>
     fresh_pages (demo_malloc k) 0x2000 1 k'"
proof (intro allI)
  fix e k
  have mmu: "k_mmu (demo_malloc k) = two_mmu" by (simp add: demo_malloc_def)
  obtain p where p: "p = 5 \<or> p = 6" and al: "AllocPage (mm_pmm two_mmu) = (p * 4096, take_page two_pmm p)"
    using AllocPage_two by (auto simp: two_mmu_def)
  let ?m0 = "two_mmu\<lparr>mm_pmm := take_page two_pmm p\<rparr>"
  obtain ok m where m: "MapPage ?m0 0x2000 (word_of_nat (p * 4096)) 7 = (ok, m)" by (rule prod.exhaust)
  have "fst (MapPage ?m0 0x2000 (word_of_nat (p * 4096)) 7) \<and> mm_pmm (snd (MapPage ?m0 0x2000 (word_of_nat (p * 4096)) 7)) = take_page two_pmm p"
    by (simp add: MapPage_def two_mmu_def demo_mmu_def map_level_def set_entry_def DisableWriteProtect_def EnableWriteProtect_def
        FlushTLB_def Let_def GetCurrentPageTable_def table_index_def dir_flags_of_def)
  with m have ok and pm: "mm_pmm m = take_page two_pmm p" by simp_all
  define k2 where "k2 = set_bytes (\<lambda>b. kmemset b (p * 4096) 0 4096) (set_mmu ?m0 (demo_malloc k))"
  let ?k' = "(set_mmu m k2)\<lparr>s_userHeapBump := 0x3000\<rparr>"
  have nz: "p * 4096 \<noteq> 0" using p by auto
  have "malloc_loop 0x2000 (Suc 0) (demo_malloc k) = (True, set_mmu m k2)"
    using m nz by (simp add: mmu al Let_def k2_def)
  then have call: "syscall_handler e 3 100 0 0 (demo_malloc k) = Some (0x2000, ?k')"
    by (simp add: syscall_handler_def sys_malloc_def demo_malloc_def Let_def add64_def)
  note t0 = AllocPage_tree [OF two_tree al nz]
  have ph: "p * 4096 mod 4096 = 0" "p * 4096 < 2 ^ 52" using p by auto
  have slot: "has_slot m a" if "0x2000 \<le> a" "a < 0x3000" for a
    using MapPage_page(1) [OF t0(1), where virt = "0x2000" and phys = "p * 4096" and flags = 7 and m' = m and a = a] m \<open>ok\<close> ph that by simp
  have free: "\<exists>q < page_limit (mm_pmm (k_mmu ?k')). \<not> page_used (mm_pmm (k_mmu ?k')) q"
  proof (intro exI conjI)
    let ?q = "if p = 5 then 6 else 5 :: nat"
    show "?q < page_limit (mm_pmm (k_mmu ?k'))" by (simp add: pm page_limit_def take_page_def two_pmm_def tiny_pmm_def)
    have "page_used (take_page two_pmm p) ?q \<longleftrightarrow> ?q = p \<or> page_used two_pmm ?q"
      using t0(5) [of ?q] p by (auto simp: two_mmu_def)
    then show "\<not> page_used (mm_pmm (k_mmu ?k')) ?q" using p by (auto simp: pm two_pmm_used)
  qed
  have nh: "\<forall>a. 0x2000 \<le> a \<and> a < 0x2000 + (100 + 4095) div 4096 * 4096 \<longrightarrow> \<not> huge_over (k_mmu ?k') (word_of_nat a)"
    using slot has_slot_not_huge by simp
  have b: "s_userHeapBump (demo_malloc k) mod 4096 = 0" "s_userHeapBump (demo_malloc k) + 64 * 1024 * 1024 \<le> 2 ^ 47"
    by (simp_all add: demo_malloc_def)
  have "pt_tree (k_mmu (demo_malloc k))" unfolding mmu by (rule two_tree)
  from malloc_fresh_zeroed [OF this b call _ free nh] have "fresh_pages (demo_malloc k) 0x2000 1 ?k'" by simp
  with call show "\<exists>k'. syscall_handler e 3 100 0 0 (demo_malloc k) = Some (0x2000, k') \<and> s_userHeapBump k' = 0x3000 \<and>
     fresh_pages (demo_malloc k) 0x2000 1 k'" by (intro exI [of _ ?k']) simp
qed

section \<open>Reading a file piece by piece\<close>

text \<open>Successive calls of \<^verbatim>\<open>SYS_READ\<close> on one descriptor, each into a buffer of its own: what the task finds in the
  buffers after each call, put together.\<close>

fun read_calls :: "environment \<Rightarrow> nat \<Rightarrow> (nat \<times> nat) list \<Rightarrow> ('w, 'd) kernel \<Rightarrow> (u8 list \<times> ('w, 'd) kernel) option" where
  "read_calls e fd [] k = Some ([], k)"
| "read_calls e fd ((buf, n) # rs) k =
     Option.bind (syscall_handler e 2 fd buf n k) (\<lambda>(r, k1).
     Option.bind (load_user buf r k1) (\<lambda>bs.
     map_option (\<lambda>(cs, k2). (bs @ cs, k2)) (read_calls e fd rs k1)))"

definition contents :: "('w, 'd) kernel \<Rightarrow> addr \<Rightarrow> u8 list" where
  "contents k node = map (file_byte k node) [0..<n_size (vn (k_vfs k) node)]"

text \<open>The descriptor is open on a file kept as plain data, and the buffers lie apart from that data.\<close>

definition plain_open :: "('w, 'd) kernel \<Rightarrow> nat \<Rightarrow> addr \<Rightarrow> bool" where
  "plain_open k fd node \<longleftrightarrow> (let n = vn (k_vfs k) node in
     3 \<le> fd \<and> fd < MAX_PROCESS_FDS \<and> fd < length (fdTable (sc_task (k_sched k) (currentTask (k_sched k)))) \<and> fd_open fd k \<and>
     fd_node (cur_fd fd k) = node \<and> n_type n = FILE \<and> n_read n = 0 \<and> n_data n \<noteq> 0 \<and> n_size n < u32_limit \<and>
     fd_offset (cur_fd fd k) < u32_limit)"

definition user_buffer :: "('w, 'd) kernel \<Rightarrow> addr \<Rightarrow> nat \<times> nat \<Rightarrow> bool" where
  "user_buffer k node = (\<lambda>(buf, n). let d = vn (k_vfs k) node in
     kUserSpaceMin \<le> buf \<and> n < u32_limit \<and> mapped_range k buf n \<and>
     (\<forall>i < n. user_phys k (buf + i) < n_data d \<or> n_data d + n_size d \<le> user_phys k (buf + i)))"

lemma user_phys_upd_fd [simp]: "user_phys (upd_fd fd f k) a = user_phys k a"
  by (simp add: user_phys_def)

lemma cur_fd_upd:
  "fd < length (fdTable (sc_task (k_sched k) (currentTask (k_sched k)))) \<Longrightarrow> cur_fd fd (upd_fd fd f k) = f (cur_fd fd k)"
  by (simp add: cur_fd_def upd_fd_def)

lemma mapped_range_prefix: "mapped_range k v n \<Longrightarrow> m \<le> n \<Longrightarrow> mapped_range k v m"
  unfolding mapped_range_def by (auto intro: inj_on_subset)

lemma read_step:
  assumes o: "plain_open k fd node" and u: "user_buffer k node (buf, n)"
  defines "off \<equiv> fd_offset (cur_fd fd k)"
  defines "r \<equiv> min n (n_size (vn (k_vfs k) node) - off)"
  shows "\<exists>k1. syscall_handler e 2 fd buf n k = Some (r, k1) \<and> load_user buf r k1 = Some (take n (drop off (contents k node))) \<and>
    plain_open k1 fd node \<and> contents k1 node = contents k node \<and> fd_offset (cur_fd fd k1) = off + r \<and>
    (\<forall>b. user_buffer k1 node b = user_buffer k node b)"
proof -
  let ?d = "vn (k_vfs k) node"
  have od: "3 \<le> fd" "fd < MAX_PROCESS_FDS" "fd < length (fdTable (sc_task (k_sched k) (currentTask (k_sched k))))" "fd_open fd k"
    "fd_node (cur_fd fd k) = node" "n_type ?d = FILE" "n_read ?d = 0" "n_data ?d \<noteq> 0" "n_size ?d < u32_limit" "off < u32_limit"
    using o by (simp_all add: plain_open_def Let_def off_def)
  have nz: "node \<noteq> 0" using od(4,5) by (simp add: fd_open_def)
  have ub: "kUserSpaceMin \<le> buf" "n < u32_limit" "mapped_range k buf n"
    "\<And>i. i < n \<Longrightarrow> user_phys k (buf + i) < n_data ?d \<or> n_data ?d + n_size ?d \<le> user_phys k (buf + i)"
    using u by (simp_all add: user_buffer_def Let_def)
  define bs where "bs = vfs_Read (e_read e) (k_vfs k) node off n"
  have bs: "bs = map (\<lambda>i. file_byte k node (off + i)) [0..<r]"
    unfolding bs_def r_def using vfs_Read_plain [OF nz od(6-8), of "e_read e" off n] by (simp add: file_byte_def add.assoc)
  have len: "length bs = r" by (simp add: bs)
  have slice: "bs = take n (drop off (contents k node))"
    by (rule nth_equalityI) (auto simp: bs contents_def r_def)
  have rn: "r \<le> n" by (simp add: r_def)
  have mr: "mapped_range k buf (length bs)" using mapped_range_prefix [OF ub(3) rn] by (simp add: len)
  from store_user_spec [OF mr] obtain m where
    st: "store_user buf bs k = Some (k\<lparr>k_vfs := (k_vfs k)\<lparr>vf_bytes := m\<rparr>\<rparr>)"
    and w: "\<And>i. i < length bs \<Longrightarrow> m (user_phys k (buf + i)) = bs ! i"
    and ot: "\<And>p. (\<forall>i < length bs. p \<noteq> user_phys k (buf + i)) \<Longrightarrow> m p = k_bytes k p" by blast
  define ks where "ks = k\<lparr>k_vfs := (k_vfs k)\<lparr>vf_bytes := m\<rparr>\<rparr>"
  define k1 where "k1 = upd_fd fd (\<lambda>d. d\<lparr>fd_offset := add32 (fd_offset d) r\<rparr>) ks"
  have up: "user_phys k1 a = user_phys k a" for a by (simp add: k1_def ks_def)
  have ip: "IsUserPtr buf" using ub(1,3) by (simp add: IsUserPtr_def mapped_range_def)
  have call: "syscall_handler e 2 fd buf n k = Some (r, k1)"
    using od(1,2,4,5) ip ub(2) st unfolding bs_def off_def
    by (simp add: syscall_handler_def sys_read_def read_file_def Let_def k1_def ks_def len [unfolded bs_def off_def])
  have kb: "k_bytes k1 = m" by (simp add: k1_def ks_def)
  have vn1: "vn (k_vfs k1) = vn (k_vfs k)" by (simp add: k1_def ks_def)
  have mr1: "mapped_range k1 buf r" using mr by (simp add: mapped_range_def up len)
  have "load_user buf r k1 = Some bs"
    unfolding load_user_spec [OF mr1] kb up by (simp, rule nth_equalityI) (simp_all add: len w)
  moreover have fb: "file_byte k1 node i = file_byte k node i" if "i < n_size ?d" for i
  proof -
    have "\<forall>j < length bs. n_data ?d + i \<noteq> user_phys k (buf + j)"
    proof (intro allI impI)
      fix j assume "j < length bs"
      then have "j < n" using rn len by simp
      from ub(4) [OF this] that show "n_data ?d + i \<noteq> user_phys k (buf + j)" by linarith
    qed
    from ot [OF this] show ?thesis by (simp add: file_byte_def kb vn1)
  qed
  then have "contents k1 node = contents k node" by (simp add: contents_def vn1)
  moreover have off': "fd_offset (cur_fd fd k1) = off + r"
  proof -
    have "cur_fd fd k1 = (cur_fd fd ks)\<lparr>fd_offset := add32 (fd_offset (cur_fd fd ks)) r\<rparr>"
      unfolding k1_def by (rule cur_fd_upd) (use od(3) in \<open>simp add: ks_def\<close>)
    moreover have "cur_fd fd ks = cur_fd fd k" by (simp add: ks_def cur_fd_def)
    moreover have "off + r < u32_limit" using od(9,10) unfolding r_def by (cases "off \<le> n_size ?d") (auto simp: min_def)
    ultimately show ?thesis by (simp add: add32_def off_def)
  qed
  moreover have "plain_open k1 fd node"
  proof -
    have "cur_fd fd k1 = (cur_fd fd k)\<lparr>fd_offset := add32 (fd_offset (cur_fd fd k)) r\<rparr>"
      unfolding k1_def by (subst cur_fd_upd) (use od(3) in \<open>simp_all add: ks_def cur_fd_def\<close>)
    moreover have "length (fdTable (sc_task (k_sched k1) (currentTask (k_sched k1)))) = length (fdTable (sc_task (k_sched k) (currentTask (k_sched k))))"
      "currentTask (k_sched k1) = currentTask (k_sched k)"
      by (simp_all add: k1_def ks_def upd_fd_def)
    ultimately show ?thesis using o by (simp add: plain_open_def fd_open_def vn1 Let_def add32_def)
  qed
  moreover have "user_buffer k1 node b = user_buffer k node b" for b
    by (simp add: user_buffer_def mapped_range_def up vn1 split: prod.splits)
  ultimately show ?thesis using call slice by blast
qed

text \<open>C38. A task that reads a plain file through \<^verbatim>\<open>SYS_READ\<close>, in pieces of any sizes, into mapped buffers that
  are not the file's own storage, gets exactly the file's bytes from the descriptor's offset on, in order and without a gap or a
  repetition, up to the end of the file, and the offset has moved behind them.\<close>

theorem reads_deliver_file:
  assumes "plain_open k fd node" and "\<forall>b \<in> set rs. user_buffer k node b"
  defines "off \<equiv> fd_offset (cur_fd fd k)"
  shows "\<exists>k'. read_calls e fd rs k = Some (take (sum_list (map snd rs)) (drop off (contents k node)), k') \<and>
    contents k' node = contents k node \<and> fd_offset (cur_fd fd k') = off + min (sum_list (map snd rs)) (n_size (vn (k_vfs k) node) - off)"
  using assms(1,2) unfolding off_def
proof (induction rs arbitrary: k)
  case Nil
  then show ?case by simp
next
  case (Cons b rs)
  obtain buf n where b: "b = (buf, n)" by (rule prod.exhaust)
  let ?o = "fd_offset (cur_fd fd k)" and ?z = "n_size (vn (k_vfs k) node)" and ?s = "sum_list (map snd rs)"
  have ub: "user_buffer k node (buf, n)" using Cons.prems(2) b by simp
  from read_step [OF Cons.prems(1) ub, of e] obtain k1 where
    s: "syscall_handler e 2 fd buf n k = Some (min n (?z - ?o), k1)" "load_user buf (min n (?z - ?o)) k1 = Some (take n (drop ?o (contents k node)))"
    and p: "plain_open k1 fd node" "contents k1 node = contents k node" "fd_offset (cur_fd fd k1) = ?o + min n (?z - ?o)"
    and ub1: "\<forall>b. user_buffer k1 node b = user_buffer k node b" by blast
  have z: "n_size (vn (k_vfs k1) node) = ?z" using arg_cong [OF p(2), of length] by (simp add: contents_def)
  from Cons.IH [OF p(1)] Cons.prems(2) ub1 obtain k' where
    r: "read_calls e fd rs k1 = Some (take ?s (drop (?o + min n (?z - ?o)) (contents k node)), k')"
    "contents k' node = contents k node" "fd_offset (cur_fd fd k') = ?o + min n (?z - ?o) + min ?s (?z - (?o + min n (?z - ?o)))"
    unfolding p(2,3) z by auto
  have l: "length (contents k node) = ?z" by (simp add: contents_def)
  have "take n (drop ?o (contents k node)) @ take ?s (drop (?o + min n (?z - ?o)) (contents k node)) = take (n + ?s) (drop ?o (contents k node))"
  proof (cases "n \<le> ?z - ?o")
    case True
    then show ?thesis by (simp add: min_def take_add add.commute)
  next
    case False
    then show ?thesis by (auto simp: min_def l)
  qed
  moreover have "?o + min n (?z - ?o) + min ?s (?z - (?o + min n (?z - ?o))) = ?o + min (n + ?s) (?z - ?o)" by (auto simp: min_def)
  ultimately show ?case using s r b by simp
qed

text \<open>The page 0x600000000000 is mapped to the frame 0x5000; the file is that of \<open>demo_package\<close>, at 0x2000.\<close>

definition demo_reader :: "(unit, unit) kernel \<Rightarrow> (unit, unit) kernel" where
  "demo_reader k = set_mmu (demo_mmu\<lparr>pg_mem := (\<lambda>t i. if t = 0x10000 \<and> i = 192 then 0x11007 else if t = 0x11000 \<and> i = 0 then 0x12007
     else if t = 0x12000 \<and> i = 0 then 0x13007 else if t = 0x13000 \<and> i = 0 then 0x5007 else 0)\<rparr>) (demo_open k)"

lemma demo_reader_phys:
  "user_phys (demo_reader k) 0x600000000000 = 0x5000" "user_phys (demo_reader k) 0x600000000001 = 0x5001"
  "user_phys (demo_reader k) 0x600000000010 = 0x5010" "user_phys (demo_reader k) 0x600000000011 = 0x5011"
  by (simp_all add: user_phys_def demo_reader_def demo_mmu_def GetPhysical_def GetCurrentPageTable_def table_index_def Let_def)

lemma demo_reader_buffer:
  "user_buffer (demo_reader k) 64 (0x600000000000, 2)" "user_buffer (demo_reader k) 64 (0x600000000010, 2)"
proof -
  have all2: "(\<forall>i < (2::nat). P i) \<longleftrightarrow> P 0 \<and> P 1" for P by (auto simp: numeral_2_eq_2 All_less_Suc)
  have inj2: "inj_on f {..<(2::nat)} \<longleftrightarrow> f 0 \<noteq> f 1" for f :: "nat \<Rightarrow> nat"
    by (auto simp: numeral_2_eq_2 lessThan_Suc inj_on_def)
  have v: "vn (k_vfs (demo_reader k)) 64 = zero_node\<lparr>n_type := FILE, n_size := 6000, n_data := 8192\<rparr>"
    by (simp add: demo_reader_def demo_open_def demo_package_def)
  show "user_buffer (demo_reader k) 64 (0x600000000000, 2)" "user_buffer (demo_reader k) 64 (0x600000000010, 2)"
    by (simp_all add: user_buffer_def mapped_range_def all2 inj2 v demo_reader_phys Let_def zero_node_def del: One_nat_def)
qed

theorem reads_deliver_file_witness:
  "\<forall>e k. \<exists>k'. read_calls e 3 [(0x600000000000, 2), (0x600000000010, 2)] (demo_reader k) = Some ([0, 1, 2, 3], k')"
proof (intro allI)
  fix e k
  have v: "vn (k_vfs (demo_reader k)) 64 = zero_node\<lparr>n_type := FILE, n_size := 6000, n_data := 8192\<rparr>"
    "k_bytes (demo_reader k) = word_of_nat"
    by (simp_all add: demo_reader_def demo_open_def demo_package_def)
  have c: "cur_fd 3 (demo_reader k) = \<lparr>fd_node = 64, fd_offset = 0, fd_flags = 0, in_use = True\<rparr>"
    by (simp add: demo_reader_def demo_open_def cur_fd_def upd_fd_def demo_sched_def demo_task_def zero_task_def)
  have t: "currentTask (k_sched (demo_reader k)) = 4096" "length (fdTable (sc_task (k_sched (demo_reader k)) 4096)) = 32"
    by (simp_all add: demo_reader_def demo_open_def upd_fd_def demo_sched_def demo_task_def zero_task_def)
  have o: "plain_open (demo_reader k) 3 64" by (simp add: plain_open_def v c t fd_open_def Let_def zero_node_def)
  have z: "n_size (vn (k_vfs (demo_reader k)) 64) = 6000" by (simp add: v)
  have f: "file_byte (demo_reader k) 64 = (\<lambda>i. word_of_nat (8192 + i))" by (simp add: fun_eq_iff file_byte_def v)
  have "take 4 [0..<6000] = [0..<4 :: nat]" unfolding take_upt [of 0 4 6000, simplified] by simp
  moreover have "map (\<lambda>i. word_of_nat (8192 + i)) [0..<4] = [0, 1, 2, 3 :: u8]" by code_simp
  ultimately have s: "take 4 (contents (demo_reader k) 64) = [0, 1, 2, 3]"
    unfolding contents_def z f take_map by (simp only:)
  have "\<forall>b \<in> set [(0x600000000000, 2), (0x600000000010, 2)]. user_buffer (demo_reader k) 64 b" using demo_reader_buffer by simp
  from reads_deliver_file [OF o this, of e] obtain k' where
    "read_calls e 3 [(0x600000000000, 2), (0x600000000010, 2)] (demo_reader k) = Some (take (2 + 2) (contents (demo_reader k) 64), k')"
    by (auto simp: c)
  then show "\<exists>k'. read_calls e 3 [(0x600000000000, 2), (0x600000000010, 2)] (demo_reader k) = Some ([0, 1, 2, 3], k')"
    by (simp add: s)
qed
end
