(* ===== verification/Toolkit.thy ===== *)
theory Toolkit
  imports Compositor_Windows Rtc
begin

text \<open>
  The drawing toolkit of the desktop, \<^verbatim>\<open>userspace/sdk/gui/compositor.cpp\<close>: two buffers (the shared one and a
  scratch one), a clip rectangle for partial redraws, rectangles, text, task bar and windows.  Coordinates are C \<^verbatim>\<open>int\<close>s
  and are modelled by \<open>int\<close>: a sum beyond 32 bits is undefined in C, and the model does not say what it does.  What the kernel
  answers to a system call is an argument, \<open>sys\<close>, of the call's number and arguments; the font is an argument too.
\<close>

section \<open>State\<close>

datatype BackendType = SOFTWARE | GPU_EXPERIMENTAL

record toolkit =
  tk_front :: addr
  tk_back :: addr
  tk_cur :: addr
  tk_width :: int
  tk_height :: int
  clipEnabled :: bool
  clipX :: int
  clipY :: int
  clipW :: int
  clipH :: int
  backend_requested :: BackendType
  backend_active :: BackendType
  gpu_atomic_supported :: bool
  tk_px :: pixels

record TkWindow =
  tw_x :: int
  tw_y :: int
  tw_width :: int
  tw_height :: int
  tw_color :: u32
  tw_title :: string
  tw_is_dragging :: bool
  tw_minimized :: bool
  tw_maximized :: bool
  tw_restore_x :: int
  tw_restore_y :: int
  tw_restore_w :: int
  tw_restore_h :: int

definition SetBackend :: "BackendType \<Rightarrow> toolkit \<Rightarrow> toolkit" where
  "SetBackend b t = t\<lparr>backend_requested := b, backend_active := b\<rparr>"

definition IsBackendAccelerated :: "toolkit \<Rightarrow> bool" where
  "IsBackendAccelerated t \<longleftrightarrow> backend_active t = GPU_EXPERIMENTAL"

definition GetBackendName :: "toolkit \<Rightarrow> string" where
  "GetBackendName t =
     (if backend_active t = GPU_EXPERIMENTAL then ''backend_gpu_experimental''
      else if backend_requested t = GPU_EXPERIMENTAL \<and> backend_active t = SOFTWARE then ''backend_sw_fallback''
      else ''backend_sw'')"

text \<open>\<open>info\<close>, \<open>mapped\<close>, \<open>map_direct\<close> and \<open>addr\<close> are what the screen query, the two mapping calls and the allocation return;
  \<open>caps\<close> is the flags word of the capabilities when the query succeeds.  The debug messages are not modelled.\<close>

definition tk_Initialize :: "nat \<Rightarrow> nat \<Rightarrow> nat \<Rightarrow> nat \<Rightarrow> nat option \<Rightarrow> toolkit \<Rightarrow> bool \<times> toolkit" where
  "tk_Initialize info mapped map_direct a caps t0 =
     (let t1 = t0\<lparr>tk_width := i32_of (info div u32_limit), tk_height := i32_of (info mod u32_limit)\<rparr>
      in if tk_width t1 = 0 \<or> tk_height t1 = 0 then (False, t1)
         else let front = (if mapped = 0 then map_direct else mapped); t2 = t1\<lparr>tk_front := front\<rparr>
              in if front = 0 then (False, t2)
                 else let back = (if a \<noteq> 0 \<and> tk_width t2 * tk_height t2 mod 18446744073709551616 \<le> 3840 * 2160 then a else front);
                          gpu = (backend_requested t2 = GPU_EXPERIMENTAL);
                          atomic = (gpu \<and> (case caps of Some f \<Rightarrow> odd (f div 16) | None \<Rightarrow> False))
                      in (True, t2\<lparr>tk_back := back, tk_cur := back,
                            backend_active := (if gpu \<and> \<not> atomic then SOFTWARE else backend_requested t2),
                            gpu_atomic_supported := atomic\<rparr>))"

datatype RenderTarget = BACK_BUFFER | FRONT_BUFFER

definition SetRenderTarget :: "RenderTarget \<Rightarrow> toolkit \<Rightarrow> toolkit" where
  "SetRenderTarget r t = t\<lparr>tk_cur := (case r of BACK_BUFFER \<Rightarrow> tk_back t | FRONT_BUFFER \<Rightarrow> tk_front t)\<rparr>"

definition SetClip :: "int \<Rightarrow> int \<Rightarrow> int \<Rightarrow> int \<Rightarrow> toolkit \<Rightarrow> toolkit" where
  "SetClip x y w h t = t\<lparr>clipEnabled := True, clipX := x, clipY := y, clipW := w, clipH := h\<rparr>"

definition ClearClip :: "toolkit \<Rightarrow> toolkit" where
  "ClearClip t = t\<lparr>clipEnabled := False\<rparr>"

definition IntersectsClip :: "int \<Rightarrow> int \<Rightarrow> int \<Rightarrow> int \<Rightarrow> toolkit \<Rightarrow> bool" where
  "IntersectsClip x y w h t \<longleftrightarrow> (clipEnabled t \<longrightarrow>
     \<not> (x + w \<le> clipX t \<or> x \<ge> clipX t + clipW t \<or> y + h \<le> clipY t \<or> y \<ge> clipY t + clipH t))"

section \<open>Rectangles\<close>

definition i_max :: "int \<Rightarrow> int \<Rightarrow> int" where "i_max a b = (if a > b then a else b)"
definition i_min :: "int \<Rightarrow> int \<Rightarrow> int" where "i_min a b = (if a < b then a else b)"

text \<open>A segment of an axis cut to \<open>[0, limit)\<close>, and to the clip.\<close>

definition cut_axis :: "int \<Rightarrow> int \<Rightarrow> int \<Rightarrow> int \<times> int" where
  "cut_axis limit x w = (let (x, w) = (if x < 0 then (0, w + x) else (x, w)) in (x, if x + w > limit then limit - x else w))"

definition clip_seg :: "bool \<Rightarrow> int \<Rightarrow> int \<Rightarrow> int \<times> int \<Rightarrow> int \<times> int" where
  "clip_seg on cx cw = (\<lambda>(x, w). if on then let nx = i_max x cx in (nx, i_min (x + w) (cx + cw) - nx) else (x, w))"

text \<open>Two pixels at a time, and the last one of an odd row.\<close>

fun fill_pairs :: "addr \<Rightarrow> nat \<Rightarrow> u32 \<Rightarrow> nat \<Rightarrow> pixels \<Rightarrow> pixels" where
  "fill_pairs b i c 0 m = m"
| "fill_pairs b i c (Suc n) m = fill_pairs b (i + 2) c n (m(b := (m b)(i := c, i + 1 := c)))"

definition fill_row :: "addr \<Rightarrow> nat \<Rightarrow> nat \<Rightarrow> u32 \<Rightarrow> pixels \<Rightarrow> pixels" where
  "fill_row b i w c m =
     (if w \<ge> 4 \<and> (b + 4 * i) mod 8 = 0
      then let m1 = fill_pairs b i c (w div 2) m in if odd w then m1(b := (m1 b)(i + w - 1 := c)) else m1
      else memset_fast_32 b i c w m)"

definition FillRectClipped :: "int \<Rightarrow> int \<Rightarrow> int \<Rightarrow> int \<Rightarrow> u32 \<Rightarrow> toolkit \<Rightarrow> toolkit" where
  "FillRectClipped x0 y0 w0 h0 c t =
     (if tk_cur t = 0 \<or> w0 \<le> 0 \<or> h0 \<le> 0 then t
      else let (x1, w1) = cut_axis (tk_width t) x0 w0; (y1, h1) = cut_axis (tk_height t) y0 h0
           in if w1 \<le> 0 \<or> h1 \<le> 0 then t
              else let (x, w) = clip_seg (clipEnabled t) (clipX t) (clipW t) (x1, w1);
                       (y, h) = clip_seg (clipEnabled t) (clipY t) (clipH t) (y1, h1)
                   in if w \<le> 0 \<or> h \<le> 0 then t
                      else t\<lparr>tk_px := foldl (\<lambda>m j.
                               let offset = (y + int j) * tk_width t + x
                               in if offset < 0 \<or> offset \<ge> tk_width t * tk_height t then m
                                  else fill_row (tk_cur t) (nat offset) (nat w) c m) (tk_px t) [0..<nat h]\<rparr>)"

definition DrawRectClipped :: "int \<Rightarrow> int \<Rightarrow> int \<Rightarrow> int \<Rightarrow> u32 \<Rightarrow> toolkit \<Rightarrow> toolkit" where
  "DrawRectClipped x y w h c t =
     FillRectClipped (x + w - 1) y 1 h c (FillRectClipped x y 1 h c (FillRectClipped x (y + h - 1) w 1 c (FillRectClipped x y w 1 c t)))"

section \<open>Cursor\<close>

definition tk_cursor_bitmap :: "nat list" where
  "tk_cursor_bitmap = [
    2,0,0,0,0,0,0,0,0,0,0,0, 2,2,0,0,0,0,0,0,0,0,0,0, 2,1,2,0,0,0,0,0,0,0,0,0, 2,1,1,2,0,0,0,0,0,0,0,0,
    2,1,1,1,2,0,0,0,0,0,0,0, 2,1,1,1,1,2,0,0,0,0,0,0, 2,1,1,1,1,1,2,0,0,0,0,0, 2,1,1,1,1,1,1,2,0,0,0,0,
    2,1,1,1,1,1,1,1,2,0,0,0, 2,1,1,1,1,1,1,1,1,2,0,0, 2,1,1,1,1,1,2,2,2,2,2,0, 2,1,1,2,1,1,2,0,0,0,0,0,
    2,1,2,0,2,1,1,2,0,0,0,0, 2,2,0,0,2,1,1,2,0,0,0,0, 2,0,0,0,0,2,1,1,2,0,0,0, 0,0,0,0,0,2,1,1,2,0,0,0,
    0,0,0,0,0,0,2,2,0,0,0,0, 0,0,0,0,0,0,0,0,0,0,0,0]"

definition cursor_color :: "nat \<Rightarrow> u32 option" where
  "cursor_color code = (if code = 1 then Some 0xFFFFFFFF else if code = 2 then Some 0xFF000000 else None)"

definition in_clip :: "toolkit \<Rightarrow> int \<Rightarrow> int \<Rightarrow> bool" where
  "in_clip t px py \<longleftrightarrow> (clipEnabled t \<longrightarrow> clipX t \<le> px \<and> px < clipX t + clipW t \<and> clipY t \<le> py \<and> py < clipY t + clipH t)"

definition cursor_pixel :: "int \<Rightarrow> int \<Rightarrow> nat \<times> nat \<Rightarrow> toolkit \<Rightarrow> toolkit" where
  "cursor_pixel x y = (\<lambda>(cy, cx) t.
     let px = x + int cx; py = y + int cy
     in if px < 0 \<or> px \<ge> tk_width t \<or> py < 0 \<or> py \<ge> tk_height t \<or> \<not> in_clip t px py then t
        else case cursor_color (tk_cursor_bitmap ! (cy * 12 + cx)) of
            None \<Rightarrow> t
          | Some c \<Rightarrow> if tk_cur t = 0 then t
                      else t\<lparr>tk_px := (tk_px t)(tk_cur t := (tk_px t (tk_cur t))(nat (py * tk_width t + px) := c))\<rparr>)"

abbreviation cursor_cells :: "(nat \<times> nat) list" where
  "cursor_cells \<equiv> List.product [0..<18] [0..<12]"

definition DrawCursorClipped :: "int \<Rightarrow> int \<Rightarrow> toolkit \<Rightarrow> toolkit" where
  "DrawCursorClipped x y t = fold (cursor_pixel x y) cursor_cells t"

definition front_pixel :: "int \<Rightarrow> int \<Rightarrow> nat \<times> nat \<Rightarrow> toolkit \<Rightarrow> toolkit" where
  "front_pixel x y = (\<lambda>(cy, cx) t.
     let px = x + int cx; py = y + int cy
     in if px < 0 \<or> px \<ge> tk_width t \<or> py < 0 \<or> py \<ge> tk_height t then t
        else case cursor_color (tk_cursor_bitmap ! (cy * 12 + cx)) of
            None \<Rightarrow> t
          | Some c \<Rightarrow> t\<lparr>tk_px := (tk_px t)(tk_front t := (tk_px t (tk_front t))(nat (py * tk_width t + px) := c))\<rparr>)"

definition DrawCursorToFront :: "int \<Rightarrow> int \<Rightarrow> toolkit \<Rightarrow> toolkit" where
  "DrawCursorToFront x y t = (if tk_front t = 0 then t else fold (front_pixel x y) cursor_cells t)"

section \<open>Whole buffers\<close>

definition tk_Clear :: "u32 \<Rightarrow> toolkit \<Rightarrow> toolkit" where
  "tk_Clear c t =
     (if tk_cur t = 0 then t
      else let n = nat (tk_width t * tk_height t); m1 = fill_pairs (tk_cur t) 0 c (n div 2) (tk_px t)
           in t\<lparr>tk_px := (if odd n then m1(tk_cur t := (m1 (tk_cur t))(n - 1 := c)) else m1)\<rparr>)"

definition tk_Flush :: "toolkit \<Rightarrow> toolkit" where
  "tk_Flush t =
     (if tk_back t = 0 \<or> tk_front t = 0 \<or> tk_back t = tk_front t then t
      else let n = nat (tk_width t * tk_height t); m1 = blit_fast_64 (tk_front t) 0 (tk_back t) 0 (n div 2) (tk_px t)
           in t\<lparr>tk_px := (if odd n then m1(tk_front t := (m1 (tk_front t))(n - 1 := m1 (tk_back t) (n - 1))) else m1)\<rparr>)"

definition copy_row :: "addr \<Rightarrow> addr \<Rightarrow> nat \<Rightarrow> nat \<Rightarrow> pixels \<Rightarrow> pixels" where
  "copy_row f b i w m =
     (if (b + 4 * i) mod 8 = 0 \<and> (f + 4 * i) mod 8 = 0 \<and> w \<ge> 2
      then let m1 = blit_fast_64 f i b i (w div 2) m in if odd w then m1(f := (m1 f)(i + w - 1 := m1 b (i + w - 1))) else m1
      else blit_fast_32 f i b i w m)"

definition FlushRect :: "int \<Rightarrow> int \<Rightarrow> int \<Rightarrow> int \<Rightarrow> toolkit \<Rightarrow> toolkit" where
  "FlushRect x0 y0 w0 h0 t =
     (if tk_back t = 0 \<or> tk_front t = 0 \<or> tk_back t = tk_front t then t
      else let (x, w) = cut_axis (tk_width t) x0 w0; (y, h) = cut_axis (tk_height t) y0 h0
           in if w \<le> 0 \<or> h \<le> 0 then t
              else t\<lparr>tk_px := foldl (\<lambda>m row. copy_row (tk_front t) (tk_back t) (nat ((y + int row) * tk_width t + x)) (nat w) m)
                     (tk_px t) [0..<nat h]\<rparr>)"

section \<open>Presenting\<close>

text \<open>\<open>junk\<close> is what the register of the second argument holds: the stub of \<^verbatim>\<open>sys_video_flip\<close> does not set it.\<close>

definition tk_Present :: "(nat \<Rightarrow> nat \<Rightarrow> nat \<Rightarrow> nat \<Rightarrow> nat) \<Rightarrow> nat \<Rightarrow> toolkit \<Rightarrow> bool" where
  "tk_Present sys junk t =
     (if tk_front t = 0 then False
      else if backend_active t = GPU_EXPERIMENTAL \<and> gpu_atomic_supported t then sys 101 0 0 3 \<noteq> 0
      else sys 51 (tk_front t) junk 0 \<noteq> 0)"

definition PresentFullDirty :: "(nat \<Rightarrow> nat \<Rightarrow> nat \<Rightarrow> nat \<Rightarrow> nat) \<Rightarrow> toolkit \<Rightarrow> bool" where
  "PresentFullDirty sys t =
     (if tk_front t = 0 then False
      else if backend_active t = GPU_EXPERIMENTAL \<and> gpu_atomic_supported t then sys 101 0 0 3 \<noteq> 0
      else sys 51 (tk_front t) 1 0 \<noteq> 0)"

definition SwapBuffers :: "(nat \<Rightarrow> nat \<Rightarrow> nat \<Rightarrow> nat \<Rightarrow> nat) \<Rightarrow> nat \<Rightarrow> toolkit \<Rightarrow> bool \<times> toolkit" where
  "SwapBuffers sys junk t = (let t1 = tk_Flush t in (tk_Present sys junk t1, t1))"

text \<open>\<^verbatim>\<open>PackPos16\<close>, and \<^verbatim>\<open>PackSize16\<close> of sizes.\<close>

definition pack16 :: "int \<Rightarrow> int \<Rightarrow> nat" where
  "pack16 x y = nat (y mod 65536) * 65536 + nat (x mod 65536)"

definition SwapBuffersRect :: "(nat \<Rightarrow> nat \<Rightarrow> nat \<Rightarrow> nat \<Rightarrow> nat) \<Rightarrow> int \<Rightarrow> int \<Rightarrow> int \<Rightarrow> int \<Rightarrow> toolkit \<Rightarrow> bool \<times> toolkit" where
  "SwapBuffersRect sys x0 y0 w0 h0 t0 =
     (let t = FlushRect x0 y0 w0 h0 t0
      in (if tk_front t = 0 then False
          else if backend_active t = GPU_EXPERIMENTAL \<and> gpu_atomic_supported t
          then let (x, w) = cut_axis (tk_width t) x0 w0; (y, h) = cut_axis (tk_height t) y0 h0
               in if w \<le> 0 \<or> h \<le> 0 then sys 101 0 0 3 \<noteq> 0
                  else sys 101 (pack16 x y) (pack16 w h) 1 \<noteq> 0 \<or> sys 101 0 0 3 \<noteq> 0
          else sys 54 (tk_front t) (u32_of x0 * u32_limit + u32_of y0) (u32_of w0 * u32_limit + u32_of h0) \<noteq> 0, t))"

section \<open>Seven-segment digits\<close>

definition DrawSevenSegSegment :: "int \<Rightarrow> int \<Rightarrow> int \<Rightarrow> int \<Rightarrow> u32 \<Rightarrow> toolkit \<Rightarrow> toolkit" where
  "DrawSevenSegSegment x0 y0 w0 h0 c t =
     (if tk_back t = 0 \<or> w0 \<le> 0 \<or> h0 \<le> 0 then t
      else let (x1, w1) = cut_axis (tk_width t) x0 w0; (y1, h1) = cut_axis (tk_height t) y0 h0
           in if w1 \<le> 0 \<or> h1 \<le> 0 then t
              else let (x, w2) = clip_seg (clipEnabled t) (clipX t) (clipW t) (x1, w1);
                       (y, h2) = clip_seg (clipEnabled t) (clipY t) (clipH t) (y1, h1)
                   in if w2 \<le> 0 \<or> h2 \<le> 0 \<or> x \<ge> tk_width t \<or> y \<ge> tk_height t then t
                      else let w = (if x + w2 > tk_width t then tk_width t - x else w2);
                               h = (if y + h2 > tk_height t then tk_height t - y else h2)
                           in t\<lparr>tk_px := foldl (\<lambda>m j.
                                let offset = (y + int j) * tk_width t + x
                                in if offset < 0 \<or> offset \<ge> tk_width t * tk_height t then m
                                   else memset_fast_32 (tk_back t) (nat offset) c (nat w) m) (tk_px t) [0..<nat h]\<rparr>)"

text \<open>The segments A to G, most significant bit first.\<close>

definition seven_seg :: "nat list" where
  "seven_seg = [126, 48, 109, 121, 51, 91, 95, 112, 127, 123]"

definition DrawSevenSegDigit :: "int \<Rightarrow> int \<Rightarrow> int \<Rightarrow> int \<Rightarrow> u32 \<Rightarrow> u32 \<Rightarrow> toolkit \<Rightarrow> toolkit" where
  "DrawSevenSegDigit x y scale digit on off t0 =
     (let msk = seven_seg ! nat (if digit < 0 \<or> digit > 9 then 0 else digit); th = 2 * scale; l = 6 * scale; gap = 2 * scale;
          c = (\<lambda>b. if odd (msk div b) then on else off)
      in fold (\<lambda>(sx, sy, w, h, b). DrawSevenSegSegment sx sy w h (c b))
           [(x + gap, y, l, th, 64), (x + gap + l, y + gap, th, l, 32), (x + gap + l, y + gap + l + th, th, l, 16),
            (x + gap, y + 2 * gap + 2 * l + th, l, th, 8), (x, y + gap + l + th, th, l, 4), (x, y + gap, th, l, 2),
            (x + gap, y + gap + l, l, th, 1)] t0)"

section \<open>Text\<close>

definition glyph_cell :: "(nat \<Rightarrow> u8) \<Rightarrow> char \<Rightarrow> int \<Rightarrow> int \<Rightarrow> u32 \<Rightarrow> int \<Rightarrow> nat \<times> nat \<Rightarrow> toolkit \<Rightarrow> toolkit" where
  "glyph_cell font ch x y c scale = (\<lambda>(row, col) t.
     if font (of_char ch * 16 + row) AND drop_bit col 0x80 = 0 then t
     else if scale = 1 then FillRectClipped (x + int col) (y + int row) 1 1 c t
     else FillRectClipped (x + int col * scale) (y + int row * scale) scale scale c t)"

definition tk_DrawChar :: "(nat \<Rightarrow> u8) \<Rightarrow> int \<Rightarrow> int \<Rightarrow> char \<Rightarrow> u32 \<Rightarrow> int \<Rightarrow> toolkit \<Rightarrow> toolkit" where
  "tk_DrawChar font x y ch c scale t =
     (if tk_back t = 0 then t
      else fold (glyph_cell font ch x y c (if scale < 1 then 1 else scale)) (List.product [0..<16] [0..<8]) t)"

fun tk_text_loop :: "(nat \<Rightarrow> u8) \<Rightarrow> int \<Rightarrow> u32 \<Rightarrow> int \<Rightarrow> int \<Rightarrow> int \<Rightarrow> string \<Rightarrow> toolkit \<Rightarrow> toolkit" where
  "tk_text_loop font startX c scale cx y [] t = t"
| "tk_text_loop font startX c scale cx y (ch # chs) t =
     (if ch = CHR 0x0A then tk_text_loop font startX c scale startX (y + 16 * scale) chs t
      else tk_text_loop font startX c scale (cx + 8 * scale) y chs (tk_DrawChar font cx y ch c scale t))"

definition tk_DrawText :: "(nat \<Rightarrow> u8) \<Rightarrow> int \<Rightarrow> int \<Rightarrow> string \<Rightarrow> u32 \<Rightarrow> int \<Rightarrow> toolkit \<Rightarrow> toolkit" where
  "tk_DrawText font x y txt c scale = tk_text_loop font x c scale x y txt"

definition two_digits :: "nat \<Rightarrow> string" where
  "two_digits n = [char_of (48 + n div 10 mod 10), char_of (48 + n mod 10)]"

definition clock_text :: "nat \<Rightarrow> nat \<Rightarrow> nat \<Rightarrow> nat \<Rightarrow> nat \<Rightarrow> string" where
  "clock_text hh mm ss dd mo =
     two_digits hh @ '':'' @ two_digits mm @ '':'' @ two_digits ss @ '' '' @ two_digits dd @ ''/'' @ two_digits mo"

definition DrawClockText :: "(nat \<Rightarrow> u8) \<Rightarrow> int \<Rightarrow> int \<Rightarrow> nat \<Rightarrow> nat \<Rightarrow> nat \<Rightarrow> nat \<Rightarrow> nat \<Rightarrow> toolkit \<Rightarrow> toolkit" where
  "DrawClockText font rightX y hh mm ss dd mo =
     (let buf = clock_text hh mm ss dd mo in tk_DrawText font (rightX - int (length buf) * 6) y buf 0xFFEAEAEA 1)"

section \<open>Menu, task bar, windows\<close>

text \<open>A filled box with a border of one pixel.\<close>

definition bordered :: "int \<Rightarrow> int \<Rightarrow> int \<Rightarrow> int \<Rightarrow> u32 \<Rightarrow> u32 \<Rightarrow> toolkit \<Rightarrow> toolkit" where
  "bordered x y w h c b t = DrawRectClipped x y w h b (FillRectClipped x y w h c t)"

definition RenderMenu :: "bool \<Rightarrow> toolkit \<Rightarrow> toolkit" where
  "RenderMenu menuOpen t =
     (if \<not> menuOpen then t
      else let y = tk_height t - 40 - 180 - 8
           in fold (\<lambda>i. bordered (10 + 12) (y + 12 + int i * 46) (220 - 24) 36 0xFF1E1E1E 0xFF2A2A2A) [0..<4]
                (bordered 10 y 220 180 0xFF141414 0xFF2A2A2A t))"

definition solid :: "u32 \<Rightarrow> u32" where
  "solid c = (c AND 0x00FFFFFF) OR 0xFF000000"

definition window_icon :: "int \<Rightarrow> int \<Rightarrow> TkWindow \<Rightarrow> toolkit \<Rightarrow> toolkit" where
  "window_icon y iconX win t =
     (let t1 = DrawRectClipped iconX (y + 8) 24 24 0xFF2A2A2A
                 (FillRectClipped (iconX + 4) (y + 12) 16 16 (solid (tw_color win)) (FillRectClipped iconX (y + 8) 24 24 0xFF1A1A1A t))
      in if tw_minimized win then FillRectClipped (iconX + 6) (y + 26) 12 2 0xFFEAEAEA t1 else t1)"

fun window_icons :: "int \<Rightarrow> int \<Rightarrow> TkWindow list \<Rightarrow> toolkit \<Rightarrow> int \<times> toolkit" where
  "window_icons y iconX [] t = (iconX, t)"
| "window_icons y iconX (w # ws) t = window_icons y (iconX + 30) ws (window_icon y iconX w t)"

definition ext_color :: "string \<Rightarrow> u32" where
  "ext_color title = (if take 1 title = ''C'' then 0xFF40AA40 else if take 1 title = ''T'' then 0xFF4040AA else 0xFF408040)"

definition ext_icon :: "int \<Rightarrow> int \<Rightarrow> WindowInfo \<Rightarrow> toolkit \<Rightarrow> toolkit" where
  "ext_icon y iconX e t =
     DrawRectClipped iconX (y + 8) 24 24 0xFF3E3E3E
       (FillRectClipped (iconX + 6) (y + 14) 12 12 (ext_color (wi_title e)) (FillRectClipped iconX (y + 8) 24 24 0xFF1A1A1A t))"

fun ext_icons :: "int \<Rightarrow> int \<Rightarrow> WindowInfo list \<Rightarrow> toolkit \<Rightarrow> toolkit" where
  "ext_icons y iconX [] t = t"
| "ext_icons y iconX (e # es) t =
     (if wi_flags e = 0 then ext_icons y iconX es t else ext_icons y (iconX + 30) es (ext_icon y iconX e t))"

definition RenderTaskbar :: "(nat \<Rightarrow> u8) \<Rightarrow> TkWindow list \<Rightarrow> WindowInfo list \<Rightarrow> MorphicDateTime \<Rightarrow> toolkit \<Rightarrow> toolkit" where
  "RenderTaskbar font ws exts dt t =
     (let y = tk_height t - 40;
          t1 = bordered 0 y (tk_width t) 40 0xFF101010 0xFF1E1E1E t;
          t2 = bordered 10 (y + 8) 28 24 0xFF1A1A1A 0xFF2A2A2A t1;
          (iconX, t3) = window_icons y 48 ws t2
      in DrawClockText font (tk_width t - 10) (y + 12) (unat (dt_hour dt)) (unat (dt_minute dt)) (unat (dt_second dt))
           (if dt_day dt > 0 then unat (dt_day dt) else 1) (if dt_month dt > 0 then unat (dt_month dt) else 1) (ext_icons y iconX exts t3))"

definition render_window :: "TkWindow \<Rightarrow> toolkit \<Rightarrow> toolkit" where
  "render_window win t =
     (let x = tw_x win; y = tw_y win; w = tw_width win; h = tw_height win; bx = x + w - 6 - 14; b_y = y + 6
      in fold (\<lambda>f. f)
           [bordered x y w h 0xFF1C1C1C 0xFF2A2A2A, bordered x y w 26 0xFF121212 0xFF2A2A2A,
            FillRectClipped (x + 1) (y + 26 - 2) (w - 2) 1 (solid (tw_color win)),
            bordered bx b_y 14 14 0xFF1A1A1A 0xFF2A2A2A, FillRectClipped (bx + 4) (b_y + 4) 6 6 0xFFB04040,
            bordered (bx - 20) b_y 14 14 0xFF1A1A1A 0xFF2A2A2A, FillRectClipped (bx - 20 + 4) (b_y + 4) 6 6 0xFF4040B0,
            bordered (bx - 40) b_y 14 14 0xFF1A1A1A 0xFF2A2A2A, FillRectClipped (bx - 40 + 4) (b_y + 14 - 6) 6 2 0xFFEAEAEA,
            FillRectClipped (x + 10) (y + 26 + 10) (w - 20) (h - 26 - 20) 0xFF161616] t)"

definition scene_window :: "TkWindow \<Rightarrow> toolkit \<Rightarrow> toolkit" where
  "scene_window win t =
     (if tw_minimized win \<or> \<not> IntersectsClip (tw_x win) (tw_y win) (tw_width win) (tw_height win) t then t else render_window win t)"

definition RenderScene :: "TkWindow list \<Rightarrow> toolkit \<Rightarrow> toolkit" where
  "RenderScene ws t = fold scene_window ws (FillRectClipped 0 0 (tk_width t) (tk_height t) 0xFF181818 t)"

section \<open>Pixels\<close>

text \<open>A screen of \<open>W\<close> by \<open>H\<close> pixels with somewhere to draw; the pixels of a rectangle; the pixels a drawing call may change.\<close>

definition tk_screen :: "nat \<Rightarrow> nat \<Rightarrow> toolkit \<Rightarrow> bool" where
  "tk_screen W H t \<longleftrightarrow> tk_width t = int W \<and> tk_height t = int H \<and> 0 < W \<and> tk_cur t \<noteq> 0 \<and> tk_back t \<noteq> 0"

definition at_box :: "nat \<Rightarrow> int \<Rightarrow> int \<Rightarrow> int \<Rightarrow> int \<Rightarrow> nat \<Rightarrow> bool" where
  "at_box W x y w h k \<longleftrightarrow> x \<le> int (k mod W) \<and> int (k mod W) < x + w \<and> y \<le> int (k div W) \<and> int (k div W) < y + h"

definition visible :: "nat \<Rightarrow> nat \<Rightarrow> toolkit \<Rightarrow> nat \<Rightarrow> bool" where
  "visible W H t k \<longleftrightarrow> k < W * H \<and> in_clip t (int (k mod W)) (int (k div W))"

lemma fill_pairs_memset: "fill_pairs b i c n m = memset_fast_32 b i c (2 * n) m"
  by (induction n arbitrary: i m) (simp_all add: fun_upd_upd)

lemma fill_row_span: "fill_row b i w c m = m(b := span i w (\<lambda>_ _. c) (m b))"
proof (cases "odd w")
  case True
  then have "2 * (w div 2) = w - 1" "0 < w" by (auto elim: oddE)
  then have "(span i (w - 1) (\<lambda>_ _. c) (m b))(i + w - 1 := c) = span i w (\<lambda>_ _. c) (m b)"
    by (auto simp: span_def fun_eq_iff)
  then show ?thesis using True \<open>2 * (w div 2) = w - 1\<close> by (simp add: fill_row_def Let_def fill_pairs_memset memset_fast_32_span)
next
  case False
  then have "2 * (w div 2) = w" by simp
  then show ?thesis using False by (simp add: fill_row_def Let_def fill_pairs_memset memset_fast_32_span)
qed

lemma copy_pairs_span:
  assumes "f \<noteq> b"
  shows "(let m1 = blit_fast_64 f i b i (w div 2) m in if odd w then m1(f := (m1 f)(i + w - 1 := m1 b (i + w - 1))) else m1) =
    m(f := span i w (\<lambda>k _. m b (i + k)) (m f))"
proof (cases "odd w")
  case True
  then have e: "2 * (w div 2) = w - 1" "0 < w" by (auto elim: oddE)
  then have "(span i (w - 1) (\<lambda>k _. m b (i + k)) (m f))(i + w - 1 := m b (i + w - 1)) = span i w (\<lambda>k _. m b (i + k)) (m f)"
    by (auto simp: span_def fun_eq_iff)
  then show ?thesis using True e assms by (simp add: Let_def blit_fast_64_eq blit_fast_32_span)
next
  case False
  then have "2 * (w div 2) = w" by simp
  then show ?thesis using False assms by (simp add: Let_def blit_fast_64_eq blit_fast_32_span)
qed

lemma copy_row_span:
  assumes "f \<noteq> b"
  shows "copy_row f b i w m = m(f := span i w (\<lambda>k _. m b (i + k)) (m f))"
  unfolding copy_row_def copy_pairs_span [OF assms] blit_fast_32_span [OF assms] if_cancel ..

text \<open>Cutting a segment keeps exactly the coordinates of the screen, and of the clip.\<close>

lemma cut_axis_range:
  assumes "cut_axis limit x w = (x', w')"
  shows "0 \<le> x' \<and> x' + w' \<le> limit \<and> (\<forall>k. 0 \<le> k \<longrightarrow> k < limit \<longrightarrow> (x' \<le> k \<and> k < x' + w' \<longleftrightarrow> x \<le> k \<and> k < x + w))"
  using assms by (auto simp: cut_axis_def Let_def split: if_splits)

lemma clip_seg_range:
  assumes "clip_seg on cx cw (x, w) = (x', w')" and "0 \<le> x" and "x + w \<le> limit"
  shows "0 \<le> x' \<and> x' + w' \<le> limit \<and>
    (\<forall>k. x' \<le> k \<and> k < x' + w' \<longleftrightarrow> x \<le> k \<and> k < x + w \<and> (on \<longrightarrow> cx \<le> k \<and> k < cx + cw))"
  using assms by (auto simp: clip_seg_def Let_def i_max_def i_min_def split: if_splits)

lemma nat_offset: "0 \<le> y \<Longrightarrow> 0 \<le> x \<Longrightarrow> nat ((y + int j) * int W + x) = (nat y + j) * W + nat x"
  by (simp add: nat_add_distrib nat_mult_distrib)

text \<open>A rectangle inside the screen, row by row.\<close>

lemma fill_rows:
  assumes "0 \<le> x" and "x + w \<le> int W" and "0 \<le> y" and "y + h \<le> int H" and "0 < W" and "0 \<le> w"
  shows "foldl (\<lambda>m j. let offset = (y + int j) * int W + x
      in if offset < 0 \<or> offset \<ge> int W * int H then m else fill_row b (nat offset) (nat w) c m) m [0..<nat h] =
    m(b := \<lambda>k. if at_box W x y w h k then c else m b k)"
proof (cases "w = 0")
  case True
  have "fill_row b i 0 c m' = m'" for i and m' :: pixels by (simp add: fill_row_span)
  then have "foldl (\<lambda>m j. let offset = (y + int j) * int W + x
      in if offset < 0 \<or> offset \<ge> int W * int H then m else fill_row b (nat offset) (nat w) c m) m [0..<n] = m" for n
    using True by (induction n) (simp_all add: Let_def)
  moreover have "\<not> at_box W x y w h k" for k using True by (simp add: at_box_def)
  ultimately show ?thesis by simp
next
  case False
  have bx: "nat x + nat w \<le> W" using assms by linarith
  have row: "(let offset = (y + int j) * int W + x
      in if offset < 0 \<or> offset \<ge> int W * int H then m else fill_row b (nat offset) (nat w) c m) =
    m(b := span ((nat y + j) * W + nat x) (nat w) (\<lambda>_ _. c) (m b))" if "j < nat h" for m :: pixels and j
  proof -
    have "y + int j \<le> int H - 1" using that assms by linarith
    then have "(y + int j) * int W \<le> (int H - 1) * int W" by (rule mult_right_mono) simp
    moreover have "(int H - 1) * int W = int W * int H - int W" by (simp add: algebra_simps)
    ultimately have "(y + int j) * int W + x < int W * int H" using assms False by linarith
    moreover have "0 \<le> (y + int j) * int W + x" using assms by simp
    ultimately have "\<not> ((y + int j) * int W + x < 0 \<or> (y + int j) * int W + x \<ge> int W * int H)" by linarith
    then show ?thesis unfolding Let_def if_not_P using assms by (simp add: fill_row_span nat_offset del: de_Morgan_disj)
  qed
  have "foldl (\<lambda>m j. let offset = (y + int j) * int W + x
      in if offset < 0 \<or> offset \<ge> int W * int H then m else fill_row b (nat offset) (nat w) c m) m [0..<nat h] =
    m(b := rect_upd W (nat x) (nat y) (nat w) (nat h) (\<lambda>_ _ _. c) (m b))"
    unfolding rect_upd_def by (rule foldl_on_block) (rule row)
  also have "rect_upd W (nat x) (nat y) (nat w) (nat h) (\<lambda>_ _ _. c) (m b) = (\<lambda>k. if at_box W x y w h k then c else m b k)"
    using assms by (auto simp: fun_eq_iff rect_upd_pixel [OF bx assms(5)] at_box_def)
  finally show ?thesis .
qed

text \<open>\<^verbatim>\<open>FillRectClipped\<close> colours exactly the visible pixels of the rectangle.\<close>

lemma FillRectClipped_pixels:
  assumes "tk_screen W H t"
  shows "FillRectClipped x y w h c t =
    t\<lparr>tk_px := (tk_px t)(tk_cur t := \<lambda>k. if visible W H t k \<and> at_box W x y w h k then c else tk_px t (tk_cur t) k)\<rparr>"
proof -
  have W: "tk_width t = int W" "tk_height t = int H" "0 < W" "tk_cur t \<noteq> 0" using assms by (simp_all add: tk_screen_def)
  obtain x1 w1 where cx: "cut_axis (int W) x w = (x1, w1)" by (rule prod.exhaust)
  obtain y1 h1 where cy: "cut_axis (int H) y h = (y1, h1)" by (rule prod.exhaust)
  obtain x2 w2 where sx: "clip_seg (clipEnabled t) (clipX t) (clipW t) (x1, w1) = (x2, w2)" by (rule prod.exhaust)
  obtain y2 h2 where sy: "clip_seg (clipEnabled t) (clipY t) (clipH t) (y1, h1) = (y2, h2)" by (rule prod.exhaust)
  note rx = cut_axis_range [OF cx] and ry = cut_axis_range [OF cy]
  have sx2: "0 \<le> x2" "x2 + w2 \<le> int W"
    and kx: "x2 \<le> k \<and> k < x2 + w2 \<longleftrightarrow> x1 \<le> k \<and> k < x1 + w1 \<and> (clipEnabled t \<longrightarrow> clipX t \<le> k \<and> k < clipX t + clipW t)" for k
    using clip_seg_range [OF sx, of "int W"] rx by blast+
  have sy2: "0 \<le> y2" "y2 + h2 \<le> int H"
    and ky: "y2 \<le> k \<and> k < y2 + h2 \<longleftrightarrow> y1 \<le> k \<and> k < y1 + h1 \<and> (clipEnabled t \<longrightarrow> clipY t \<le> k \<and> k < clipY t + clipH t)" for k
    using clip_seg_range [OF sy, of "int H"] ry by blast+
  have box: "at_box W x2 y2 w2 h2 k \<longleftrightarrow> visible W H t k \<and> at_box W x y w h k" for k
  proof -
    have c: "0 \<le> int (k mod W)" "int (k mod W) < int W" "0 \<le> int (k div W)" using W(3) by simp_all
    have r: "int (k div W) < int H \<longleftrightarrow> k < W * H" using W(3) by (simp add: div_less_iff_less_mult mult.commute)
    have X: "x1 \<le> int (k mod W) \<and> int (k mod W) < x1 + w1 \<longleftrightarrow> x \<le> int (k mod W) \<and> int (k mod W) < x + w"
      using rx c by blast
    show ?thesis
    proof (cases "k < W * H")
      case True
      then have "y1 \<le> int (k div W) \<and> int (k div W) < y1 + h1 \<longleftrightarrow> y \<le> int (k div W) \<and> int (k div W) < y + h"
        using ry c r by blast
      with X show ?thesis using True kx [of "int (k mod W)"] ky [of "int (k div W)"]
        unfolding at_box_def visible_def in_clip_def by blast
    next
      case False
      then have "\<not> int (k div W) < y2 + h2" using sy2(2) r by linarith
      then show ?thesis using False by (simp add: at_box_def visible_def)
    qed
  qed
  show ?thesis
  proof (cases "w \<le> 0 \<or> h \<le> 0 \<or> w1 \<le> 0 \<or> h1 \<le> 0 \<or> w2 \<le> 0 \<or> h2 \<le> 0")
    case True
    then have "FillRectClipped x y w h c t = t" by (auto simp: FillRectClipped_def W cx cy sx sy)
    moreover have "\<not> at_box W x2 y2 w2 h2 k" for k
      using True kx [of "int (k mod W)"] ky [of "int (k div W)"] box [of k] unfolding at_box_def by linarith
    then have "(visible W H t k \<and> at_box W x y w h k) = False" for k using box by blast
    ultimately show ?thesis by (simp only: if_False fun_upd_triv) simp
  next
    case False
    then have g: "\<not> (tk_cur t = 0 \<or> w \<le> 0 \<or> h \<le> 0)" "\<not> (w1 \<le> 0 \<or> h1 \<le> 0)" "\<not> (w2 \<le> 0 \<or> h2 \<le> 0)" "0 \<le> w2"
      using W(4) by auto
    have "FillRectClipped x y w h c t = t\<lparr>tk_px := foldl (\<lambda>m j. let offset = (y2 + int j) * int W + x2
      in if offset < 0 \<or> offset \<ge> int W * int H then m else fill_row (tk_cur t) (nat offset) (nat w2) c m) (tk_px t) [0..<nat h2]\<rparr>"
      unfolding FillRectClipped_def if_not_P [OF g(1)] W(1,2) cx cy Let_def prod.case if_not_P [OF g(2)] sx sy if_not_P [OF g(3)] ..
    then show ?thesis using fill_rows [OF sx2 sy2 W(3) g(4)] box by simp
  qed
qed

text \<open>One pixel of the cursor.\<close>

lemma cursor_pixel_pixels:
  assumes "tk_screen W H t"
  shows "cursor_pixel x y (cy, cx) t =
    t\<lparr>tk_px := (tk_px t)(tk_cur t := \<lambda>k. if visible W H t k \<and> at_box W (x + int cx) (y + int cy) 1 1 k
      then (case cursor_color (tk_cursor_bitmap ! (cy * 12 + cx)) of None \<Rightarrow> tk_px t (tk_cur t) k | Some c \<Rightarrow> c)
      else tk_px t (tk_cur t) k)\<rparr>"
proof -
  have W: "tk_width t = int W" "tk_height t = int H" "0 < W" "tk_cur t \<noteq> 0" using assms by (simp_all add: tk_screen_def)
  let ?x = "x + int cx" and ?y = "y + int cy"
  have b: "at_box W ?x ?y 1 1 k \<longleftrightarrow> int (k mod W) = ?x \<and> int (k div W) = ?y" for k by (auto simp: at_box_def)
  have r: "k < W * H \<longleftrightarrow> k div W < H" for k using W(3) by (simp add: div_less_iff_less_mult mult.commute)
  show ?thesis
  proof (cases "?x < 0 \<or> ?x \<ge> int W \<or> ?y < 0 \<or> ?y \<ge> int H \<or> \<not> in_clip t ?x ?y")
    case True
    have "\<not> (visible W H t k \<and> at_box W ?x ?y 1 1 k)" for k
    proof
      assume a: "visible W H t k \<and> at_box W ?x ?y 1 1 k"
      then have e: "int (k mod W) = ?x" "int (k div W) = ?y" and "k div W < H" and "in_clip t ?x ?y" using b r by (auto simp: visible_def)
      moreover have "k mod W < W" using W(3) by simp
      ultimately show False using True by linarith
    qed
    then have "(visible W H t k \<and> at_box W ?x ?y 1 1 k) = False" for k by blast
    moreover have "cursor_pixel x y (cy, cx) t = t" using True by (auto simp: cursor_pixel_def Let_def W)
    ultimately show ?thesis by (simp only: if_False fun_upd_triv) simp
  next
    case False
    then obtain X Y where XY: "?x = int X" "?y = int Y" "X < W" "Y < H" by (metis linorder_not_less nonneg_int_cases of_nat_less_iff)
    have "k div W = Y \<and> k mod W = X \<longleftrightarrow> k = Y * W + X" for k
      using XY(3) div_mult_mod_eq [of k W] by (auto simp: mult.commute)
    then have v: "visible W H t k \<and> at_box W ?x ?y 1 1 k \<longleftrightarrow> k = Y * W + X" for k
      using False XY unfolding b visible_def r by auto
    have n: "nat (int Y * int W + int X) = Y * W + X" by (simp flip: of_nat_mult of_nat_add)
    have e: "cursor_pixel x y (cy, cx) t = (case cursor_color (tk_cursor_bitmap ! (cy * 12 + cx)) of
            None \<Rightarrow> t
          | Some c \<Rightarrow> t\<lparr>tk_px := (tk_px t)(tk_cur t := (tk_px t (tk_cur t))(Y * W + X := c))\<rparr>)"
      using False W(4) unfolding cursor_pixel_def prod.case Let_def W(1,2) if_not_P [OF False] XY(1,2) n
      by (simp split: option.split)
    show ?thesis
    proof (cases "cursor_color (tk_cursor_bitmap ! (cy * 12 + cx))")
      case None
      then show ?thesis unfolding e unfolding v None option.case if_cancel fun_upd_triv by simp
    next
      case (Some c)
      then show ?thesis unfolding e unfolding v Some option.case by (simp add: fun_upd_def)
    qed
  qed
qed

section \<open>Copying to the shared buffer\<close>

lemma copy_rows:
  assumes "0 \<le> x" and "x + w \<le> int W" and "0 \<le> y" and "y + h \<le> int H" and "0 < W" and "f \<noteq> b"
  shows "foldl (\<lambda>m j. copy_row f b (nat ((y + int j) * int W + x)) (nat w) m) m [0..<nat h] =
    m(f := \<lambda>k. if at_box W x y w h k then m b k else m f k)"
proof -
  show ?thesis
  proof (cases "w \<le> 0")
    case True
    then have "copy_row f b i (nat w) m' = m'" for i and m' :: pixels using assms(6) by (simp add: copy_row_span)
    then have "foldl (\<lambda>m j. copy_row f b (nat ((y + int j) * int W + x)) (nat w) m) m [0..<n] = m" for n
      by (induction n) simp_all
    moreover have "\<not> at_box W x y w h k" for k using True by (simp add: at_box_def)
    ultimately show ?thesis by simp
  next
    case False
    have bx: "nat x + nat w \<le> W" using assms False by linarith
    have e: "foldl (\<lambda>m j. copy_row f b (nat ((y + int j) * int W + x)) (nat w) m) m [0..<nat h] =
      m(f := rect_upd W (nat x) (nat y) (nat w) (nat h) (\<lambda>iy k _. m b ((nat y + iy) * W + nat x + k)) (m f))"
      unfolding rect_upd_def
      by (rule foldl_on_block_from [where s = b and S = "m b"]) (use assms in \<open>simp_all add: copy_row_span nat_offset\<close>)
    have "rect_upd W (nat x) (nat y) (nat w) (nat h) (\<lambda>iy k _. m b ((nat y + iy) * W + nat x + k)) (m f) k =
        (if at_box W x y w h k then m b k else m f k)" for k
    proof (cases "at_box W x y w h k")
      case True
      then have r: "nat x \<le> k mod W \<and> k mod W < nat x + nat w \<and> nat y \<le> k div W \<and> k div W < nat y + nat h"
        using assms False by (auto simp: at_box_def)
      then have "(nat y + (k div W - nat y)) * W + nat x + (k mod W - nat x) = k div W * W + k mod W" by simp
      then have "(nat y + (k div W - nat y)) * W + nat x + (k mod W - nat x) = k" by (simp only: div_mult_mod_eq)
      then show ?thesis using True unfolding rect_upd_pixel [OF bx assms(5)] if_P [OF r] by simp
    next
      case F: False
      then have "\<not> (nat x \<le> k mod W \<and> k mod W < nat x + nat w \<and> nat y \<le> k div W \<and> k div W < nat y + nat h)"
        using assms False by (auto simp: at_box_def)
      then show ?thesis using F unfolding rect_upd_pixel [OF bx assms(5)] by (simp only: if_False)
    qed
    then show ?thesis unfolding e by presburger
  qed
qed

lemma FlushRect_pixels:
  assumes "tk_width t = int W" and "tk_height t = int H" and "0 < W"
    and "tk_back t \<noteq> 0" and "tk_front t \<noteq> 0" and "tk_back t \<noteq> tk_front t"
  shows "FlushRect x y w h t = t\<lparr>tk_px := (tk_px t)(tk_front t := \<lambda>k. if k < W * H \<and> at_box W x y w h k
    then tk_px t (tk_back t) k else tk_px t (tk_front t) k)\<rparr>"
proof -
  obtain x1 w1 where cx: "cut_axis (int W) x w = (x1, w1)" by (rule prod.exhaust)
  obtain y1 h1 where cy: "cut_axis (int H) y h = (y1, h1)" by (rule prod.exhaust)
  note rx = cut_axis_range [OF cx] and ry = cut_axis_range [OF cy]
  have box: "at_box W x1 y1 w1 h1 k \<longleftrightarrow> k < W * H \<and> at_box W x y w h k" for k
  proof -
    have c: "0 \<le> int (k mod W)" "int (k mod W) < int W" "0 \<le> int (k div W)" using assms(3) by simp_all
    have r: "int (k div W) < int H \<longleftrightarrow> k < W * H" using assms(3) by (simp add: div_less_iff_less_mult mult.commute)
    show ?thesis
    proof (cases "k < W * H")
      case True
      then show ?thesis using rx ry c r unfolding at_box_def by blast
    next
      case False
      then have "\<not> int (k div W) < y1 + h1" using ry r by linarith
      then show ?thesis using False by (simp add: at_box_def)
    qed
  qed
  have g: "\<not> (tk_back t = 0 \<or> tk_front t = 0 \<or> tk_back t = tk_front t)" using assms by simp
  show ?thesis
  proof (cases "w1 \<le> 0 \<or> h1 \<le> 0")
    case True
    then have "FlushRect x y w h t = t" using g by (auto simp: FlushRect_def assms(1,2) cx cy)
    moreover have "\<not> at_box W x1 y1 w1 h1 k" for k using True unfolding at_box_def by linarith
    then have "(k < W * H \<and> at_box W x y w h k) = False" for k using box by blast
    ultimately show ?thesis by (simp only: if_False fun_upd_triv) simp
  next
    case False
    then have "FlushRect x y w h t = t\<lparr>tk_px := foldl (\<lambda>m j. copy_row (tk_front t) (tk_back t) (nat ((y1 + int j) * int W + x1)) (nat w1) m)
        (tk_px t) [0..<nat h1]\<rparr>"
      unfolding FlushRect_def if_not_P [OF g] assms(1,2) cx cy Let_def prod.case by simp
    then show ?thesis using copy_rows [of x1 w1 W y1 h1 H "tk_front t" "tk_back t" "tk_px t"] rx ry assms(3,6) by (simp add: box)
  qed
qed

lemma tk_Flush_pixels:
  assumes "tk_width t = int W" and "tk_height t = int H"
    and "tk_back t \<noteq> 0" and "tk_front t \<noteq> 0" and "tk_back t \<noteq> tk_front t"
  shows "tk_Flush t = t\<lparr>tk_px := (tk_px t)(tk_front t := \<lambda>k. if k < W * H then tk_px t (tk_back t) k else tk_px t (tk_front t) k)\<rparr>"
proof -
  let ?n = "W * H" and ?m = "tk_px t" and ?f = "tk_front t" and ?b = "tk_back t"
  have n: "nat (tk_width t * tk_height t) = ?n" by (simp add: assms nat_mult_distrib)
  have f: "?f \<noteq> ?b" using assms(5) by simp
  have "(let m1 = blit_fast_64 ?f 0 ?b 0 (?n div 2) ?m in if odd ?n then m1(?f := (m1 ?f)(?n - 1 := m1 ?b (?n - 1))) else m1) =
      ?m(?f := span 0 ?n (\<lambda>k _. ?m ?b k) (?m ?f))"
    using copy_pairs_span [OF f, of 0 ?n ?m] by (simp only: add_0)
  also have "span 0 ?n (\<lambda>k _. ?m ?b k) (?m ?f) = (\<lambda>k. if k < ?n then ?m ?b k else ?m ?f k)"
    by (auto simp: span_def)
  finally have e: "(let m1 = blit_fast_64 ?f 0 ?b 0 (?n div 2) ?m in if odd ?n then m1(?f := (m1 ?f)(?n - 1 := m1 ?b (?n - 1))) else m1) =
      ?m(?f := \<lambda>k. if k < ?n then ?m ?b k else ?m ?f k)" .
  have g: "\<not> (?b = 0 \<or> ?f = 0 \<or> ?b = ?f)" using assms by simp
  show ?thesis unfolding tk_Flush_def if_not_P [OF g] n e [symmetric] Let_def ..
qed

section \<open>Painters\<close>

text \<open>A drawing operation is a painter inside \<open>P\<close> when what it does to a visible pixel is a function of the pixel and its old
  colour only, the same function whatever the clip is, and the identity outside \<open>P\<close>.\<close>

definition painted :: "nat \<Rightarrow> nat \<Rightarrow> (nat \<Rightarrow> u32 \<Rightarrow> u32) \<Rightarrow> toolkit \<Rightarrow> toolkit" where
  "painted W H F t = t\<lparr>tk_px := (tk_px t)(tk_cur t := \<lambda>k. if visible W H t k then F k (tk_px t (tk_cur t) k) else tk_px t (tk_cur t) k)\<rparr>"

definition painter :: "nat \<Rightarrow> nat \<Rightarrow> (nat \<Rightarrow> bool) \<Rightarrow> (toolkit \<Rightarrow> toolkit) \<Rightarrow> bool" where
  "painter W H P f \<longleftrightarrow> (\<exists>F. (\<forall>k v. \<not> P k \<longrightarrow> F k v = v) \<and> (\<forall>t. tk_screen W H t \<longrightarrow> f t = painted W H F t))"

lemma painterI: "(\<And>k v. \<not> P k \<Longrightarrow> F k v = v) \<Longrightarrow> (\<And>t. tk_screen W H t \<Longrightarrow> f t = painted W H F t) \<Longrightarrow> painter W H P f"
  unfolding painter_def by blast

lemma painted_facts [simp]:
  "tk_screen W H (painted W H F t) = tk_screen W H t" "visible W H (painted W H F t) = visible W H t"
  "tk_width (painted W H F t) = tk_width t" "tk_height (painted W H F t) = tk_height t"
  by (auto simp: painted_def tk_screen_def visible_def in_clip_def fun_eq_iff)

lemma painted_comp: "painted W H G (painted W H F t) = painted W H (\<lambda>k v. G k (F k v)) t"
proof -
  have "visible W H (t\<lparr>tk_px := m\<rparr>) k = visible W H t k" for m k by (simp add: visible_def in_clip_def)
  then show ?thesis unfolding painted_def by (auto intro!: arg_cong [where f = "\<lambda>m. t\<lparr>tk_px := m\<rparr>"] simp: fun_eq_iff)
qed

lemma painted_id: "(\<And>k. visible W H t k \<Longrightarrow> F k (tk_px t (tk_cur t) k) = tk_px t (tk_cur t) k) \<Longrightarrow> painted W H F t = t"
proof -
  assume "\<And>k. visible W H t k \<Longrightarrow> F k (tk_px t (tk_cur t) k) = tk_px t (tk_cur t) k"
  then have "(if visible W H t k then F k (tk_px t (tk_cur t) k) else tk_px t (tk_cur t) k) = tk_px t (tk_cur t) k" for k by simp
  then show ?thesis unfolding painted_def by simp
qed

lemma painter_comp:
  assumes "painter W H P g" and "painter W H P f"
  shows "painter W H P (g \<circ> f)"
proof -
  obtain F where F: "\<And>k v. \<not> P k \<Longrightarrow> F k v = v" "\<And>t. tk_screen W H t \<Longrightarrow> f t = painted W H F t"
    using assms(2) unfolding painter_def by blast
  obtain G where G: "\<And>k v. \<not> P k \<Longrightarrow> G k v = v" "\<And>t. tk_screen W H t \<Longrightarrow> g t = painted W H G t"
    using assms(1) unfolding painter_def by blast
  show ?thesis by (rule painterI [where F = "\<lambda>k v. G k (F k v)"]) (simp_all add: F G painted_comp)
qed

lemma painter_mono:
  assumes "painter W H P f" and "\<And>k. P k \<Longrightarrow> Q k"
  shows "painter W H Q f"
proof -
  obtain F where F: "\<And>k v. \<not> P k \<Longrightarrow> F k v = v" "\<And>t. tk_screen W H t \<Longrightarrow> f t = painted W H F t"
    using assms(1) unfolding painter_def by blast
  show ?thesis by (rule painterI [where F = F, OF _ F(2)]) (use F(1) assms(2) in blast)
qed

lemma painter_cong:
  assumes "\<And>t. tk_screen W H t \<Longrightarrow> f t = g t" and "painter W H P g"
  shows "painter W H P f"
proof -
  obtain F where F: "\<And>k v. \<not> P k \<Longrightarrow> F k v = v" "\<And>t. tk_screen W H t \<Longrightarrow> g t = painted W H F t"
    using assms(2) unfolding painter_def by blast
  show ?thesis by (rule painterI [where F = F, OF F(1)]) (simp_all add: assms(1) F(2))
qed

lemma painter_skip: "painter W H P id"
  by (rule painterI [where F = "\<lambda>_ v. v"]) (simp_all add: painted_id)

lemma painter_fold: "(\<And>x. x \<in> set xs \<Longrightarrow> painter W H P (f x)) \<Longrightarrow> painter W H P (fold f xs)"
proof (induction xs)
  case Nil
  then show ?case by (simp add: painter_skip [unfolded id_def])
next
  case (Cons x xs)
  from painter_comp [OF Cons.IH Cons.prems [of x]] Cons.prems show ?case by (simp add: comp_def)
qed

lemma painter_FillRectClipped:
  assumes "\<And>k. at_box W x y w h k \<Longrightarrow> P k"
  shows "painter W H P (FillRectClipped x y w h c)"
proof (rule painterI [where F = "\<lambda>k v. if at_box W x y w h k then c else v"])
  show "(if at_box W x y w h k then c else v) = v" if "\<not> P k" for k v using that assms by auto
qed (simp only: FillRectClipped_pixels painted_def if_if_eq_conj)

lemma at_box_sub: "x' \<le> x \<Longrightarrow> x + w \<le> x' + w' \<Longrightarrow> y' \<le> y \<Longrightarrow> y + h \<le> y' + h' \<Longrightarrow> at_box W x y w h k \<Longrightarrow> at_box W x' y' w' h' k"
  by (simp add: at_box_def)

lemma painter_fill_in:
  "x' \<le> x \<Longrightarrow> x + w \<le> x' + w' \<Longrightarrow> y' \<le> y \<Longrightarrow> y + h \<le> y' + h' \<Longrightarrow> painter W H (at_box W x' y' w' h') (FillRectClipped x y w h c)"
  by (rule painter_FillRectClipped) (rule at_box_sub)

lemma bordered_comp: "bordered x y w h c d = FillRectClipped (x + w - 1) y 1 h d \<circ> FillRectClipped x y 1 h d \<circ>
    FillRectClipped x (y + h - 1) w 1 d \<circ> FillRectClipped x y w 1 d \<circ> FillRectClipped x y w h c"
  by (simp add: fun_eq_iff bordered_def DrawRectClipped_def)

lemma painter_bordered_in:
  assumes "x' \<le> x" "x + w \<le> x' + w'" "y' \<le> y" "y + h \<le> y' + h'" "1 \<le> w" "1 \<le> h"
  shows "painter W H (at_box W x' y' w' h') (bordered x y w h c d)"
  unfolding bordered_comp using assms by (intro painter_comp painter_fill_in) linarith+

lemma painter_any_fill: "painter W H (\<lambda>_. True) (FillRectClipped x y w h c)"
  by (rule painter_FillRectClipped) simp

lemma painter_any_bordered: "painter W H (\<lambda>_. True) (bordered x y w h c d)"
  unfolding bordered_comp by (intro painter_comp painter_any_fill)

lemma painter_any_DrawRect: "painter W H (\<lambda>_. True) (DrawRectClipped x y w h c)"
proof -
  have "DrawRectClipped x y w h c = FillRectClipped (x + w - 1) y 1 h c \<circ> FillRectClipped x y 1 h c \<circ>
    FillRectClipped x (y + h - 1) w 1 c \<circ> FillRectClipped x y w 1 c"
    by (simp add: fun_eq_iff DrawRectClipped_def)
  then show ?thesis by (simp only:) (intro painter_comp painter_any_fill)
qed

lemma painter_cursor_pixel: "painter W H (\<lambda>_. True) (cursor_pixel x y (cy, cx))"
  by (rule painterI [where F = "\<lambda>k v. if at_box W (x + int cx) (y + int cy) 1 1 k
      then (case cursor_color (tk_cursor_bitmap ! (cy * 12 + cx)) of None \<Rightarrow> v | Some c \<Rightarrow> c) else v"])
    (simp_all only: cursor_pixel_pixels painted_def if_if_eq_conj not_True_eq_False)

lemma painter_DrawCursorClipped: "painter W H (\<lambda>_. True) (DrawCursorClipped x y)"
proof -
  have "DrawCursorClipped x y = fold (cursor_pixel x y) cursor_cells" by (simp add: fun_eq_iff DrawCursorClipped_def)
  moreover have "painter W H (\<lambda>_. True) (cursor_pixel x y c)" for c by (cases c) (simp only: painter_cursor_pixel)
  ultimately show ?thesis by (simp only:) (intro painter_fold)
qed

text \<open>Text, menu and task bar paint anywhere; a window that is not narrower than its three buttons nor lower than its title
  paints inside its rectangle.\<close>

lemma painter_glyph_cell: "painter W H (\<lambda>_. True) (glyph_cell font ch x y c scale (row, col))"
proof -
  have e: "glyph_cell font ch x y c scale (row, col) =
      (if font (of_char ch * 16 + row) AND drop_bit col 0x80 = 0 then id
       else if scale = 1 then FillRectClipped (x + int col) (y + int row) 1 1 c
       else FillRectClipped (x + int col * scale) (y + int row * scale) scale scale c)"
    by (simp add: fun_eq_iff glyph_cell_def)
  show ?thesis unfolding e by (simp only: painter_skip painter_any_fill split: if_split) simp
qed

lemma painter_tk_DrawChar: "painter W H (\<lambda>_. True) (tk_DrawChar font x y ch c scale)"
proof (rule painter_cong)
  show "tk_DrawChar font x y ch c scale t =
      fold (glyph_cell font ch x y c (if scale < 1 then 1 else scale)) (List.product [0..<16] [0..<8]) t" if "tk_screen W H t" for t
    using that by (simp add: tk_DrawChar_def tk_screen_def)
  have "painter W H (\<lambda>_. True) (glyph_cell font ch x y c (if scale < 1 then 1 else scale) p)" for p
    by (cases p) (simp only: painter_glyph_cell)
  then show "painter W H (\<lambda>_. True) (fold (glyph_cell font ch x y c (if scale < 1 then 1 else scale)) (List.product [0..<16] [0..<8]))"
    by (rule painter_fold)
qed

lemma painter_tk_text_loop: "painter W H (\<lambda>_. True) (tk_text_loop font startX c scale cx y chs)"
proof (induction chs arbitrary: cx y)
  case Nil
  have "tk_text_loop font startX c scale cx y [] = id" by (simp add: fun_eq_iff)
  then show ?case by (simp only: painter_skip)
next
  case (Cons ch chs)
  have "tk_text_loop font startX c scale cx y (ch # chs) =
      (if ch = CHR 0x0A then tk_text_loop font startX c scale startX (y + 16 * scale) chs
       else tk_text_loop font startX c scale (cx + 8 * scale) y chs \<circ> tk_DrawChar font cx y ch c scale)"
    by (simp add: fun_eq_iff)
  then show ?case using painter_comp [OF Cons painter_tk_DrawChar] Cons by presburger
qed

lemma painter_tk_DrawText: "painter W H (\<lambda>_. True) (tk_DrawText font x y chs c scale)"
  unfolding tk_DrawText_def by (rule painter_tk_text_loop)

lemma painter_DrawClockText: "painter W H (\<lambda>_. True) (DrawClockText font x y hh mm ss dd mo)"
proof -
  have "DrawClockText font x y hh mm ss dd mo =
      tk_DrawText font (x - int (length (clock_text hh mm ss dd mo)) * 6) y (clock_text hh mm ss dd mo) 0xFFEAEAEA 1"
    by (simp add: fun_eq_iff DrawClockText_def Let_def)
  then show ?thesis by (simp only: painter_tk_DrawText)
qed

lemma painter_RenderMenu: "painter W H (\<lambda>_. True) (RenderMenu menuOpen)"
proof (cases menuOpen)
  case True
  let ?y = "int H - 40 - 180 - 8"
  show ?thesis
  proof (rule painter_cong)
    show "RenderMenu menuOpen t = (fold (\<lambda>i. bordered (10 + 12) (?y + 12 + int i * 46) (220 - 24) 36 0xFF1E1E1E 0xFF2A2A2A) [0..<4] \<circ>
        bordered 10 ?y 220 180 0xFF141414 0xFF2A2A2A) t" if "tk_screen W H t" for t
      using that True by (simp only: RenderMenu_def tk_screen_def Let_def comp_def if_False not_True_eq_False)
    show "painter W H (\<lambda>_. True) (fold (\<lambda>i. bordered (10 + 12) (?y + 12 + int i * 46) (220 - 24) 36 0xFF1E1E1E 0xFF2A2A2A) [0..<4] \<circ>
        bordered 10 ?y 220 180 0xFF141414 0xFF2A2A2A)"
      by (intro painter_comp painter_fold painter_any_bordered)
  qed
next
  case False
  then have "RenderMenu menuOpen = id" by (simp add: fun_eq_iff RenderMenu_def)
  then show ?thesis by (simp only: painter_skip)
qed

lemma painter_window_icon: "painter W H (\<lambda>_. True) (window_icon y iconX win)"
proof -
  have e: "window_icon y iconX win =
      (if tw_minimized win then FillRectClipped (iconX + 6) (y + 26) 12 2 0xFFEAEAEA else id) \<circ> DrawRectClipped iconX (y + 8) 24 24 0xFF2A2A2A \<circ>
      FillRectClipped (iconX + 4) (y + 12) 16 16 (solid (tw_color win)) \<circ> FillRectClipped iconX (y + 8) 24 24 0xFF1A1A1A"
    by (simp add: fun_eq_iff window_icon_def Let_def)
  have "painter W H (\<lambda>_. True) (if tw_minimized win then FillRectClipped (iconX + 6) (y + 26) 12 2 0xFFEAEAEA else id)"
    by (simp only: painter_any_fill painter_skip split: if_split) simp
  then show ?thesis unfolding e by (intro painter_comp painter_any_fill painter_any_DrawRect)
qed

text \<open>Where the icons of the windows end does not depend on the pixels.\<close>

lemma window_icons_eq:
  "window_icons y iconX ws t = (iconX + 30 * int (length ws),
     fold (\<lambda>i. window_icon y (iconX + 30 * int i) (ws ! i)) [0..<length ws] t)"
proof (induction ws arbitrary: iconX t)
  case (Cons w ws)
  have "[0..<length (w # ws)] = 0 # map Suc [0..<length ws]" by (simp only: upt_conv_Cons length_Cons map_Suc_upt zero_less_Suc)
  then show ?case by (simp only: window_icons.simps Cons fold_Cons_rev fold_map comp_def) (simp add: algebra_simps fold_map comp_def)
qed simp

lemma painter_ext_icon: "painter W H (\<lambda>_. True) (ext_icon y iconX e)"
proof -
  have "ext_icon y iconX e = DrawRectClipped iconX (y + 8) 24 24 0xFF3E3E3E \<circ>
      FillRectClipped (iconX + 6) (y + 14) 12 12 (ext_color (wi_title e)) \<circ> FillRectClipped iconX (y + 8) 24 24 0xFF1A1A1A"
    by (simp add: fun_eq_iff ext_icon_def)
  then show ?thesis by (simp only:) (intro painter_comp painter_any_fill painter_any_DrawRect)
qed

lemma painter_ext_icons: "painter W H (\<lambda>_. True) (ext_icons y iconX es)"
proof (induction es arbitrary: iconX)
  case Nil
  have "ext_icons y iconX [] = id" by (simp add: fun_eq_iff)
  then show ?case by (simp only: painter_skip)
next
  case (Cons e es)
  have "ext_icons y iconX (e # es) =
      (if wi_flags e = 0 then ext_icons y iconX es else ext_icons y (iconX + 30) es \<circ> ext_icon y iconX e)"
    by (simp add: fun_eq_iff)
  then show ?case using painter_comp [OF Cons painter_ext_icon] Cons by presburger
qed

lemma painter_RenderTaskbar: "painter W H (\<lambda>_. True) (RenderTaskbar font ws exts dt)"
proof (rule painter_cong)
  let ?y = "int H - 40"
  let ?f = "DrawClockText font (int W - 10) (?y + 12) (unat (dt_hour dt)) (unat (dt_minute dt)) (unat (dt_second dt))
      (if dt_day dt > 0 then unat (dt_day dt) else 1) (if dt_month dt > 0 then unat (dt_month dt) else 1) \<circ>
    ext_icons ?y (48 + 30 * int (length ws)) exts \<circ> fold (\<lambda>i. window_icon ?y (48 + 30 * int i) (ws ! i)) [0..<length ws] \<circ>
    bordered 10 (?y + 8) 28 24 0xFF1A1A1A 0xFF2A2A2A \<circ> bordered 0 ?y (int W) 40 0xFF101010 0xFF1E1E1E"
  show "RenderTaskbar font ws exts dt t = ?f t" if "tk_screen W H t" for t
    using that by (simp only: RenderTaskbar_def tk_screen_def Let_def comp_def window_icons_eq prod.case)
  show "painter W H (\<lambda>_. True) ?f"
    by (intro painter_comp painter_fold painter_DrawClockText painter_ext_icons painter_window_icon painter_any_bordered)
qed

definition wide_enough :: "TkWindow \<Rightarrow> bool" where
  "wide_enough w \<longleftrightarrow> 60 \<le> tw_width w \<and> 26 \<le> tw_height w"

lemma painter_render_window:
  assumes "wide_enough w"
  shows "painter W H (at_box W (tw_x w) (tw_y w) (tw_width w) (tw_height w)) (render_window w)"
proof -
  let ?x = "tw_x w" and ?y = "tw_y w" and ?w = "tw_width w" and ?h = "tw_height w"
  let ?b = "?x + ?w - 6 - 14"
  let ?content = "FillRectClipped (?x + 10) (?y + 26 + 10) (?w - 20) (?h - 26 - 20) 0xFF161616"
  have e: "render_window w = ?content \<circ> FillRectClipped (?b - 40 + 4) (?y + 6 + 14 - 6) 6 2 0xFFEAEAEA \<circ>
      bordered (?b - 40) (?y + 6) 14 14 0xFF1A1A1A 0xFF2A2A2A \<circ> FillRectClipped (?b - 20 + 4) (?y + 6 + 4) 6 6 0xFF4040B0 \<circ>
      bordered (?b - 20) (?y + 6) 14 14 0xFF1A1A1A 0xFF2A2A2A \<circ> FillRectClipped (?b + 4) (?y + 6 + 4) 6 6 0xFFB04040 \<circ>
      bordered ?b (?y + 6) 14 14 0xFF1A1A1A 0xFF2A2A2A \<circ> FillRectClipped (?x + 1) (?y + 26 - 2) (?w - 2) 1 (solid (tw_color w)) \<circ>
      bordered ?x ?y ?w 26 0xFF121212 0xFF2A2A2A \<circ> bordered ?x ?y ?w ?h 0xFF1C1C1C 0xFF2A2A2A"
    by (rule ext) (simp only: render_window_def Let_def fold_simps comp_def id_apply)
  have s: "60 \<le> ?w" "26 \<le> ?h" using assms by (simp_all add: wide_enough_def)
  have "painter W H (at_box W ?x ?y ?w ?h) ?content"
  proof (cases "?h \<le> 46")
    case True
    then show ?thesis by (intro painter_FillRectClipped) (simp add: at_box_def)
  next
    case False
    then show ?thesis by (intro painter_fill_in) simp_all
  qed
  then show ?thesis unfolding e using s by (intro painter_comp painter_bordered_in painter_fill_in) (assumption | linarith)+
qed

lemma visible_box: "tk_screen W H t \<Longrightarrow> visible W H t k \<Longrightarrow> at_box W x y w h k \<Longrightarrow> IntersectsClip x y w h t"
  by (auto simp: visible_def in_clip_def at_box_def IntersectsClip_def)

lemma painter_scene_window:
  assumes "tw_minimized w \<or> wide_enough w"
  shows "painter W H (\<lambda>_. True) (scene_window w)"
proof (cases "tw_minimized w")
  case True
  then have "scene_window w = id" by (simp add: fun_eq_iff scene_window_def)
  then show ?thesis by (simp only: painter_skip)
next
  case False
  let ?P = "at_box W (tw_x w) (tw_y w) (tw_width w) (tw_height w)"
  from assms False painter_render_window obtain F
    where F: "\<And>k v. \<not> ?P k \<Longrightarrow> F k v = v" "\<And>t. tk_screen W H t \<Longrightarrow> render_window w t = painted W H F t"
    unfolding painter_def by blast
  show ?thesis
  proof (rule painterI [where F = F])
    fix t assume t: "tk_screen W H t"
    show "scene_window w t = painted W H F t"
    proof (cases "IntersectsClip (tw_x w) (tw_y w) (tw_width w) (tw_height w) t")
      case True
      then show ?thesis using False by (simp add: scene_window_def F(2) [OF t])
    next
      case no: False
      then have "painted W H F t = t" using visible_box [OF t] F(1) by (intro painted_id) blast
      then show ?thesis using no by (simp add: scene_window_def)
    qed
  qed simp
qed

lemma painter_RenderScene:
  assumes "\<forall>w\<in>set ws. tw_minimized w \<or> wide_enough w"
  shows "painter W H (\<lambda>_. True) (RenderScene ws)"
proof (rule painter_cong)
  show "RenderScene ws t = (fold scene_window ws \<circ> FillRectClipped 0 0 (int W) (int H) 0xFF181818) t" if "tk_screen W H t" for t
    using that by (simp add: RenderScene_def tk_screen_def)
  show "painter W H (\<lambda>_. True) (fold scene_window ws \<circ> FillRectClipped 0 0 (int W) (int H) 0xFF181818)"
    using assms by (intro painter_comp painter_fold painter_any_fill painter_scene_window) blast
qed
end
