(* ===== verification/Desktop.thy ===== *)
theory Desktop
  imports Toolkit
begin

text \<open>
  The desktop, \<^verbatim>\<open>userspace/apps/desktop/desktop.cpp\<close>: its own windows, the rectangle it collects of what changed since
  the last frame, and the drawing of a frame into the scratch buffer and from there into the shared one, up to the call that has
  the kernel put the applications' windows on top.  The texts of the \<^verbatim>\<open>System\<close> and installer windows are an argument,
  the list of drawing calls they make.  As in \<open>Toolkit\<close>, coordinates are
  \<^verbatim>\<open>int\<close>s whose sums do not overflow.
\<close>

section \<open>Windows\<close>

abbreviation TASK_H :: int where "TASK_H \<equiv> 40"

record PrevWindow =
  pw_x :: int
  pw_y :: int
  pw_w :: int
  pw_h :: int
  pw_min :: bool
  pw_max :: bool

record UiDirtyRect =
  dx_x :: int
  dx_y :: int
  dx_w :: int
  dx_h :: int
  dx_valid :: bool

text \<open>The globals and the loop's locals.  \<open>d_prev\<close> is the arrays \<^verbatim>\<open>prev_wx\<close> to \<^verbatim>\<open>prev_max\<close>: an entry
  not written yet is whatever was on the stack.\<close>

record desktop =
  d_windows :: "TkWindow list"
  d_prev :: "nat \<Rightarrow> PrevWindow"
  menu_open :: bool
  prev_menu_open :: bool
  ui_dirty :: bool
  first_frame :: bool
  externalWindows :: "WindowInfo list"
  prevExternalWindows :: "WindowInfo list"
  mouse_x :: int
  mouse_y :: int
  prev_mouse_x :: int
  prev_mouse_y :: int
  now_sec :: nat
  prev_clock_sec :: nat
  g_last_clock_sec :: nat
  g_dirty :: UiDirtyRect
  drag_target_idx :: "nat option"
  drag_offset_x :: int
  drag_offset_y :: int

definition new_window :: "int \<Rightarrow> int \<Rightarrow> int \<Rightarrow> int \<Rightarrow> u32 \<Rightarrow> string \<Rightarrow> TkWindow" where
  "new_window x y w h c title =
     \<lparr>tw_x = x, tw_y = y, tw_width = w, tw_height = h, tw_color = c, tw_title = title, tw_is_dragging = False,
      tw_minimized = False, tw_maximized = False, tw_restore_x = 0, tw_restore_y = 0, tw_restore_w = 0, tw_restore_h = 0\<rparr>"

definition InitWindows :: "desktop \<Rightarrow> desktop" where
  "InitWindows s = s\<lparr>d_windows := [new_window 160 160 520 260 0xFF4080A0 ''System'']\<rparr>"

definition BringToFront :: "nat \<Rightarrow> desktop \<Rightarrow> desktop" where
  "BringToFront i s =
     (let ws = d_windows s
      in if i \<ge> length ws \<or> i = length ws - 1 then s
         else s\<lparr>d_windows := take i ws @ drop (i + 1) ws @ [ws ! i], ui_dirty := True\<rparr>)"

fun same_title :: "string \<Rightarrow> nat \<Rightarrow> TkWindow list \<Rightarrow> nat option" where
  "same_title title i [] = None"
| "same_title title i (w # ws) = (if take 1 (tw_title w) = take 1 title then Some i else same_title title (i + 1) ws)"

definition OpenWindow :: "string \<Rightarrow> int \<Rightarrow> int \<Rightarrow> u32 \<Rightarrow> desktop \<Rightarrow> desktop" where
  "OpenWindow title w h c s =
     (let n = length (d_windows s)
      in if n \<ge> 10 then s
         else case same_title title 0 (d_windows s) of
             Some i \<Rightarrow> BringToFront i (s\<lparr>d_windows := (d_windows s)[i := (d_windows s ! i)\<lparr>tw_minimized := False\<rparr>]\<rparr>)
           | None \<Rightarrow> s\<lparr>d_windows := d_windows s @ [new_window (100 + int n * 20) (100 + int n * 20) w h c title], ui_dirty := True\<rparr>)"

definition HitRect :: "int \<Rightarrow> int \<Rightarrow> int \<Rightarrow> int \<Rightarrow> int \<Rightarrow> int \<Rightarrow> bool" where
  "HitRect px py x y w h \<longleftrightarrow> px \<ge> x \<and> px < x + w \<and> py \<ge> y \<and> py < y + h"

definition toggle_maximize :: "int \<Rightarrow> int \<Rightarrow> TkWindow \<Rightarrow> TkWindow" where
  "toggle_maximize W H w =
     (if \<not> tw_maximized w
      then w\<lparr>tw_restore_x := tw_x w, tw_restore_y := tw_y w, tw_restore_w := tw_width w, tw_restore_h := tw_height w,
             tw_x := 0, tw_y := 0, tw_width := W, tw_height := H - TASK_H, tw_maximized := True\<rparr>
      else w\<lparr>tw_x := tw_restore_x w, tw_y := tw_restore_y w, tw_width := tw_restore_w w, tw_height := tw_restore_h w,
             tw_maximized := False\<rparr>)"

definition upd_window :: "nat \<Rightarrow> (TkWindow \<Rightarrow> TkWindow) \<Rightarrow> desktop \<Rightarrow> desktop" where
  "upd_window i f s = s\<lparr>d_windows := (d_windows s)[i := f (d_windows s ! i)], ui_dirty := True\<rparr>"

text \<open>A click on the desktop's own windows, the topmost first.\<close>

fun window_click :: "int \<Rightarrow> int \<Rightarrow> int \<Rightarrow> int \<Rightarrow> nat \<Rightarrow> desktop \<Rightarrow> desktop" where
  "window_click W H cx cy 0 s = s"
| "window_click W H cx cy (Suc i) s =
     (let w = d_windows s ! i; b_y = tw_y w + (26 - 14) div 2; bxClose = tw_x w + tw_width w - 6 - 14;
          bxMax = bxClose - (14 + 6); bxMin = bxMax - (14 + 6)
      in if tw_minimized w then window_click W H cx cy i s
         else if HitRect cx cy bxClose b_y 14 14 then (upd_window i (\<lambda>w. w\<lparr>tw_minimized := True\<rparr>) s)\<lparr>drag_target_idx := None\<rparr>
         else if HitRect cx cy bxMax b_y 14 14 then BringToFront i (upd_window i (toggle_maximize W H) s)
         else if HitRect cx cy bxMin b_y 14 14 then (upd_window i (\<lambda>w. w\<lparr>tw_minimized := True\<rparr>) s)\<lparr>drag_target_idx := None\<rparr>
         else if cx \<ge> tw_x w \<and> cx < tw_x w + tw_width w \<and> cy \<ge> tw_y w \<and> cy < tw_y w + 25
         then (BringToFront i (s\<lparr>drag_offset_x := cx - tw_x w, drag_offset_y := cy - tw_y w\<rparr>))
                \<lparr>drag_target_idx := Some (length (d_windows s) - 1)\<rparr>
         else window_click W H cx cy i s)"

section \<open>What changed\<close>

definition DirtyInit :: UiDirtyRect where
  "DirtyInit = \<lparr>dx_x = 0, dx_y = 0, dx_w = 0, dx_h = 0, dx_valid = False\<rparr>"

definition DirtyAdd :: "int \<Rightarrow> int \<Rightarrow> int \<Rightarrow> int \<Rightarrow> UiDirtyRect \<Rightarrow> UiDirtyRect" where
  "DirtyAdd x y w h r =
     (if w \<le> 0 \<or> h \<le> 0 then r
      else if \<not> dx_valid r then \<lparr>dx_x = x, dx_y = y, dx_w = w, dx_h = h, dx_valid = True\<rparr>
      else let x2 = dx_x r + dx_w r; y2 = dx_y r + dx_h r;
               nx = (if x < dx_x r then x else dx_x r); ny = (if y < dx_y r then y else dx_y r);
               nx2 = (if x + w > x2 then x + w else x2); ny2 = (if y + h > y2 then y + h else y2)
           in r\<lparr>dx_x := nx, dx_y := ny, dx_w := nx2 - nx, dx_h := ny2 - ny\<rparr>)"

definition needsFullFlush :: "desktop \<Rightarrow> bool" where
  "needsFullFlush s \<longleftrightarrow> menu_open s \<or> (\<not> menu_open s \<and> prev_menu_open s) \<or> externalWindows s \<noteq> []"

text \<open>The arguments are unsigned sums converted to \<^verbatim>\<open>int\<close>.\<close>

definition add_external :: "WindowInfo \<Rightarrow> UiDirtyRect \<Rightarrow> UiDirtyRect" where
  "add_external w = DirtyAdd (i32_of (sub32 (wi_x w) 2)) (i32_of (sub32 (wi_y w) 26)) (i32_of (add32 (wi_w w) 4)) (i32_of (add32 (wi_h w) 30))"

fun find_external :: "nat \<Rightarrow> WindowInfo list \<Rightarrow> WindowInfo option" where
  "find_external i [] = None"
| "find_external i (w # ws) = (if wi_id w = i then Some w else find_external i ws)"

definition mark_external :: "WindowInfo list \<Rightarrow> WindowInfo \<Rightarrow> UiDirtyRect \<Rightarrow> UiDirtyRect" where
  "mark_external prev w d =
     (if wi_flags w = 0 then d
      else let d1 = add_external w d
           in case find_external (wi_id w) prev of
               None \<Rightarrow> d1
             | Some p \<Rightarrow> if wi_x p \<noteq> wi_x w \<or> wi_y p \<noteq> wi_y w \<or> wi_w p \<noteq> wi_w w \<or> wi_h p \<noteq> wi_h w
                         then add_external p d1 else d1)"

definition mark_closed :: "WindowInfo list \<Rightarrow> WindowInfo \<Rightarrow> UiDirtyRect \<Rightarrow> UiDirtyRect" where
  "mark_closed cur p d = (if find_external (wi_id p) cur = None \<and> wi_flags p \<noteq> 0 then add_external p d else d)"

definition add_both :: "PrevWindow \<Rightarrow> TkWindow \<Rightarrow> UiDirtyRect \<Rightarrow> UiDirtyRect" where
  "add_both p w d =
     DirtyAdd (tw_x w - 2) (tw_y w - 2) (tw_width w + 4) (tw_height w + 4)
       (DirtyAdd (pw_x p - 2) (pw_y p - 2) (pw_w p + 4) (pw_h p + 4) d)"

definition state_changed :: "PrevWindow \<Rightarrow> TkWindow \<Rightarrow> bool" where
  "state_changed p w \<longleftrightarrow> tw_minimized w \<noteq> pw_min p \<or> tw_maximized w \<noteq> pw_max p"

definition moved :: "PrevWindow \<Rightarrow> TkWindow \<Rightarrow> bool" where
  "moved p w \<longleftrightarrow> tw_x w \<noteq> pw_x p \<or> tw_y w \<noteq> pw_y p \<or> tw_width w \<noteq> pw_w p \<or> tw_height w \<noteq> pw_h p"

definition mark_window :: "desktop \<Rightarrow> nat \<Rightarrow> UiDirtyRect \<times> bool \<Rightarrow> UiDirtyRect \<times> bool" where
  "mark_window s i = (\<lambda>(d, ui).
     let w = d_windows s ! i; p = d_prev s i;
         (d1, ui1) = (if state_changed p w then (add_both p w d, True) else (d, ui))
     in (if moved p w then add_both p w d1 else d1, ui1))"

definition add_taskbar :: "int \<Rightarrow> int \<Rightarrow> UiDirtyRect \<Rightarrow> UiDirtyRect" where
  "add_taskbar W H = DirtyAdd 0 (H - TASK_H) W TASK_H"

definition collect_dirty :: "int \<Rightarrow> int \<Rightarrow> desktop \<Rightarrow> desktop" where
  "collect_dirty W H s =
     (let full = DirtyAdd 0 0 W H;
          d1 = (if first_frame s then full (g_dirty s) else g_dirty s);
          d2 = (if needsFullFlush s then full d1 else d1);
          d3 = fold (mark_external (prevExternalWindows s)) (externalWindows s) d2;
          d4 = fold (mark_closed (externalWindows s)) (prevExternalWindows s) d3;
          d5 = DirtyAdd (mouse_x s - 2) (mouse_y s - 2) 16 22 (DirtyAdd (prev_mouse_x s - 2) (prev_mouse_y s - 2) 16 22 d4);
          (d6, ui) = fold (mark_window s) [0..<length (d_windows s)] (d5, ui_dirty s);
          d7 = (if now_sec s \<noteq> prev_clock_sec s \<or> menu_open s \<noteq> prev_menu_open s then add_taskbar W H d6 else d6);
          d8 = (if now_sec s \<noteq> g_last_clock_sec s then add_taskbar W H d7 else d7);
          d9 = (if ui then add_taskbar W H d8 else d8);
          d10 = (if \<not> dx_valid d9 then DirtyAdd (mouse_x s - 2) (mouse_y s - 2) 16 22 d9 else d9)
      in s\<lparr>g_dirty := d10, ui_dirty := ui, g_last_clock_sec := now_sec s\<rparr>)"

section \<open>A frame\<close>

datatype content = TextLine int int string u32 int | Box int int int int u32

fun draw_content :: "(nat \<Rightarrow> u8) \<Rightarrow> content \<Rightarrow> toolkit \<Rightarrow> toolkit" where
  "draw_content font (TextLine x y txt c scale) t = tk_DrawText font x y txt c scale t"
| "draw_content font (Box x y w h c) t = FillRectClipped x y w h c t"

definition render_frame :: "(nat \<Rightarrow> u8) \<Rightarrow> MorphicDateTime \<Rightarrow> content list \<Rightarrow> desktop \<Rightarrow> toolkit \<Rightarrow> toolkit" where
  "render_frame font dt cs s t =
     fold (draw_content font) (if menu_open s then [] else cs)
       (RenderTaskbar font (d_windows s) (externalWindows s) dt (RenderScene (d_windows s) t))"

definition frame_clip :: "desktop \<Rightarrow> toolkit \<Rightarrow> toolkit" where
  "frame_clip s t =
     (if needsFullFlush s then SetClip 0 0 (tk_width t) (tk_height t) t
      else SetClip (dx_x (g_dirty s)) (dx_y (g_dirty s)) (dx_w (g_dirty s)) (dx_h (g_dirty s)) t)"

definition frame_flush :: "desktop \<Rightarrow> toolkit \<Rightarrow> toolkit" where
  "frame_flush s t =
     (let t1 = (if needsFullFlush s then tk_Flush t
                else if dx_valid (g_dirty s)
                then FlushRect (dx_x (g_dirty s)) (dx_y (g_dirty s)) (dx_w (g_dirty s)) (dx_h (g_dirty s)) t
                else t)
      in if prev_mouse_x s \<noteq> mouse_x s \<or> prev_mouse_y s \<noteq> mouse_y s then FlushRect (prev_mouse_x s) (prev_mouse_y s) 12 18 t1 else t1)"

definition desktop_frame :: "(nat \<Rightarrow> u8) \<Rightarrow> MorphicDateTime \<Rightarrow> content list \<Rightarrow> desktop \<Rightarrow> toolkit \<Rightarrow> desktop \<times> toolkit" where
  "desktop_frame font dt cs s t =
     (let s1 = collect_dirty (tk_width t) (tk_height t) s
      in (s1, frame_flush s1 (ClearClip (render_frame font dt cs s1 (frame_clip s1 t)))))"

text \<open>The end of a frame: this frame's windows and cursor become the previous ones.\<close>

definition end_frame :: "desktop \<Rightarrow> desktop" where
  "end_frame s =
     s\<lparr>prev_mouse_x := mouse_x s, prev_mouse_y := mouse_y s, prev_clock_sec := now_sec s, prev_menu_open := menu_open s,
       first_frame := False, ui_dirty := False,
       d_prev := (\<lambda>i. if i < length (d_windows s)
         then (let w = d_windows s ! i in \<lparr>pw_x = tw_x w, pw_y = tw_y w, pw_w = tw_width w, pw_h = tw_height w,
                 pw_min = tw_minimized w, pw_max = tw_maximized w\<rparr>)
         else d_prev s i),
       prevExternalWindows := take 32 (externalWindows s)\<rparr>"

section \<open>The rectangle covers what was marked\<close>

definition at_dirty :: "nat \<Rightarrow> UiDirtyRect \<Rightarrow> nat \<Rightarrow> bool" where
  "at_dirty W d k \<longleftrightarrow> dx_valid d \<and> at_box W (dx_x d) (dx_y d) (dx_w d) (dx_h d) k"

lemma DirtyAdd_covers: "at_dirty W d k \<or> at_box W x y w h k \<Longrightarrow> at_dirty W (DirtyAdd x y w h d) k"
  by (auto simp: at_dirty_def at_box_def DirtyAdd_def Let_def)

lemmas DirtyAdd_keeps = DirtyAdd_covers [OF disjI1]
lemmas DirtyAdd_new = DirtyAdd_covers [OF disjI2]

lemma mark_external_keeps: "at_dirty W d k \<Longrightarrow> at_dirty W (mark_external prev w d) k"
  by (simp add: mark_external_def add_external_def Let_def DirtyAdd_keeps split: option.split)

lemma mark_closed_keeps: "at_dirty W d k \<Longrightarrow> at_dirty W (mark_closed cur p d) k"
  by (simp add: mark_closed_def add_external_def DirtyAdd_keeps)

lemma add_both_keeps: "at_dirty W d k \<Longrightarrow> at_dirty W (add_both p w d) k"
  by (simp add: add_both_def DirtyAdd_keeps)

lemma add_both_new:
  "at_box W (pw_x p - 2) (pw_y p - 2) (pw_w p + 4) (pw_h p + 4) k \<or> at_box W (tw_x w - 2) (tw_y w - 2) (tw_width w + 4) (tw_height w + 4) k
    \<Longrightarrow> at_dirty W (add_both p w d) k"
  unfolding add_both_def by (auto intro: DirtyAdd_new DirtyAdd_keeps)

lemma mark_window_keeps: "at_dirty W (fst du) k \<Longrightarrow> at_dirty W (fst (mark_window s i du)) k"
  by (cases du) (simp add: mark_window_def Let_def add_both_keeps)

lemma mark_window_new:
  assumes "state_changed (d_prev s i) (d_windows s ! i) \<or> moved (d_prev s i) (d_windows s ! i)"
    and "at_box W (pw_x (d_prev s i) - 2) (pw_y (d_prev s i) - 2) (pw_w (d_prev s i) + 4) (pw_h (d_prev s i) + 4) k \<or>
      at_box W (tw_x (d_windows s ! i) - 2) (tw_y (d_windows s ! i) - 2) (tw_width (d_windows s ! i) + 4) (tw_height (d_windows s ! i) + 4) k"
  shows "at_dirty W (fst (mark_window s i du)) k"
  using assms(1) add_both_new [OF assms(2)] by (cases du) (auto simp: mark_window_def Let_def add_both_keeps)

lemma mark_windows_keep: "at_dirty W (fst du) k \<Longrightarrow> at_dirty W (fst (fold (mark_window s) js du)) k"
  by (induction js arbitrary: du) (simp_all add: mark_window_keeps)

lemma mark_windows_new:
  assumes "i < n" and "\<And>du. at_dirty W (fst (mark_window s i du)) k"
  shows "at_dirty W (fst (fold (mark_window s) [0..<n] du)) k"
proof -
  have "[0..<n] = [0..<i] @ i # [Suc i..<n]" using assms(1) upt_add_eq_append [of 0 i "n - i"] by (simp add: upt_conv_Cons)
  then show ?thesis using mark_windows_keep assms(2) by simp
qed

text \<open>After collecting: the cursor's old and new place and every window that changed are inside.\<close>

lemma collect_dirty_covers:
  fixes s :: desktop
  assumes "at_box W (prev_mouse_x s - 2) (prev_mouse_y s - 2) 16 22 k \<or> at_box W (mouse_x s - 2) (mouse_y s - 2) 16 22 k \<or>
    (\<exists>i < length (d_windows s). \<forall>du. at_dirty W (fst (mark_window s i du)) k)"
  shows "at_dirty W (g_dirty (collect_dirty X Y s)) k"
proof -
  define d5 where "d5 = DirtyAdd (mouse_x s - 2) (mouse_y s - 2) 16 22 (DirtyAdd (prev_mouse_x s - 2) (prev_mouse_y s - 2) 16 22
    (fold (mark_closed (externalWindows s)) (prevExternalWindows s)
      (fold (mark_external (prevExternalWindows s)) (externalWindows s)
        (if needsFullFlush s then DirtyAdd 0 0 X Y (if first_frame s then DirtyAdd 0 0 X Y (g_dirty s) else g_dirty s)
         else if first_frame s then DirtyAdd 0 0 X Y (g_dirty s) else g_dirty s))))"
  define du where "du = fold (mark_window s) [0..<length (d_windows s)] (d5, ui_dirty s)"
  have "at_dirty W (fst du) k"
  proof (cases "at_dirty W d5 k")
    case True
    then show ?thesis unfolding du_def by (intro mark_windows_keep) simp
  next
    case False
    then have "\<exists>i < length (d_windows s). \<forall>du. at_dirty W (fst (mark_window s i du)) k"
      using assms unfolding d5_def by (meson DirtyAdd_new DirtyAdd_keeps)
    then show ?thesis unfolding du_def using mark_windows_new by blast
  qed
  moreover have "g_dirty (collect_dirty X Y s) =
    (let d7 = (if now_sec s \<noteq> prev_clock_sec s \<or> menu_open s \<noteq> prev_menu_open s then add_taskbar X Y (fst du) else fst du);
         d8 = (if now_sec s \<noteq> g_last_clock_sec s then add_taskbar X Y d7 else d7);
         d9 = (if snd du then add_taskbar X Y d8 else d8)
     in if \<not> dx_valid d9 then DirtyAdd (mouse_x s - 2) (mouse_y s - 2) 16 22 d9 else d9)"
    unfolding collect_dirty_def Let_def d5_def [symmetric] du_def [symmetric] by (simp add: split_beta)
  ultimately show ?thesis by (simp add: Let_def add_taskbar_def DirtyAdd_keeps)
qed

section \<open>A partial frame\<close>

lemma painter_render_frame:
  assumes "\<forall>w\<in>set (d_windows s). tw_minimized w \<or> wide_enough w"
  shows "painter W H (\<lambda>_. True) (render_frame font dt cs s)"
proof -
  have e: "render_frame font dt cs s = fold (draw_content font) (if menu_open s then [] else cs) \<circ>
      RenderTaskbar font (d_windows s) (externalWindows s) dt \<circ> RenderScene (d_windows s)"
    by (simp add: fun_eq_iff render_frame_def)
  have "painter W H (\<lambda>_. True) (draw_content font c)" for c
  proof (cases c)
    case (TextLine x y tx col scale)
    then have "draw_content font c = tk_DrawText font x y tx col scale" by (simp add: fun_eq_iff)
    then show ?thesis by (simp only: painter_tk_DrawText)
  next
    case (Box x y w h col)
    then have "draw_content font c = FillRectClipped x y w h col" by (simp add: fun_eq_iff)
    then show ?thesis by (simp only: painter_any_fill)
  qed
  then show ?thesis unfolding e
    by (intro painter_comp painter_fold painter_RenderTaskbar painter_RenderScene [OF assms])
qed

lemma clip_facts [simp]:
  "tk_screen W H (frame_clip s t) = tk_screen W H t" "tk_px (frame_clip s t) = tk_px t" "tk_cur (frame_clip s t) = tk_cur t"
  "tk_back (frame_clip s t) = tk_back t" "tk_front (frame_clip s t) = tk_front t"
  "tk_screen W H (ClearClip t) = tk_screen W H t" "tk_px (ClearClip t) = tk_px t" "tk_cur (ClearClip t) = tk_cur t"
  "tk_back (ClearClip t) = tk_back t" "tk_front (ClearClip t) = tk_front t"
  "tk_width (ClearClip t) = tk_width t" "tk_height (ClearClip t) = tk_height t"
  by (auto simp: frame_clip_def SetClip_def ClearClip_def tk_screen_def)

lemma screen_px [simp]: "tk_screen W H (t\<lparr>tk_px := m\<rparr>) = tk_screen W H t"
  by (simp add: tk_screen_def)

lemma ClearClip_px: "ClearClip (t\<lparr>tk_px := m\<rparr>) = (ClearClip t)\<lparr>tk_px := m\<rparr>"
  by (simp add: ClearClip_def)

text \<open>The pixels a frame's clip shows.\<close>

lemma visible_frame_clip:
  assumes "tk_screen W H t" and "dx_valid (g_dirty s)"
  shows "visible W H (frame_clip s t) k \<longleftrightarrow> k < W * H \<and> (needsFullFlush s \<or> at_dirty W (g_dirty s) k)"
proof -
  have W: "tk_width t = int W" "tk_height t = int H" "0 < W" using assms(1) by (simp_all add: tk_screen_def)
  have "int (k mod W) < int W" "k < W * H \<Longrightarrow> int (k div W) < int H"
    using W(3) by (simp_all add: div_less_iff_less_mult mult.commute)
  then show ?thesis using assms(2)
    by (auto simp: visible_def in_clip_def frame_clip_def SetClip_def at_dirty_def at_box_def W)
qed

text \<open>Flushing what was drawn in the clip: the shared buffer has the drawn pixels there and is unchanged elsewhere.\<close>

lemma frame_flush_pixels:
  assumes "tk_screen W H t" and "tk_front t \<noteq> 0" and "tk_front t \<noteq> tk_back t" and "dx_valid (g_dirty s)"
    and cur: "\<And>k. at_box W (prev_mouse_x s) (prev_mouse_y s) 12 18 k \<Longrightarrow> at_dirty W (g_dirty s) k"
  shows "tk_px (frame_flush s t) = (tk_px t)(tk_front t := \<lambda>k.
    if k < W * H \<and> (needsFullFlush s \<or> at_dirty W (g_dirty s) k) then tk_px t (tk_back t) k else tk_px t (tk_front t) k)"
proof -
  have W: "tk_width t = int W" "tk_height t = int H" "0 < W" "tk_back t \<noteq> 0" using assms(1) by (simp_all add: tk_screen_def)
  define m where "m = (\<lambda>k. if k < W * H \<and> (needsFullFlush s \<or> at_dirty W (g_dirty s) k)
    then tk_px t (tk_back t) k else tk_px t (tk_front t) k)"
  define u where "u = t\<lparr>tk_px := (tk_px t)(tk_front t := m)\<rparr>"
  have "(if needsFullFlush s then tk_Flush t
      else if dx_valid (g_dirty s) then FlushRect (dx_x (g_dirty s)) (dx_y (g_dirty s)) (dx_w (g_dirty s)) (dx_h (g_dirty s)) t
      else t) = u"
    using tk_Flush_pixels [OF W(1,2,4) assms(2)] FlushRect_pixels [OF W(1-4) assms(2)] assms(3,4)
    by (simp add: u_def m_def at_dirty_def)
  then have e: "frame_flush s t = (if prev_mouse_x s \<noteq> mouse_x s \<or> prev_mouse_y s \<noteq> mouse_y s
      then FlushRect (prev_mouse_x s) (prev_mouse_y s) 12 18 u else u)"
    unfolding frame_flush_def Let_def by (simp only:)
  have u: "tk_width u = int W" "tk_height u = int H" "tk_back u = tk_back t" "tk_front u = tk_front t" "tk_px u = (tk_px t)(tk_front t := m)"
    by (simp_all add: u_def W)
  have "FlushRect (prev_mouse_x s) (prev_mouse_y s) 12 18 u = u\<lparr>tk_px := (tk_px u)(tk_front u :=
      \<lambda>k. if k < W * H \<and> at_box W (prev_mouse_x s) (prev_mouse_y s) 12 18 k then tk_px u (tk_back u) k else tk_px u (tk_front u) k)\<rparr>"
    by (rule FlushRect_pixels) (use W assms(2,3) in \<open>simp_all add: u\<close>)
  moreover have "(\<lambda>k. if k < W * H \<and> at_box W (prev_mouse_x s) (prev_mouse_y s) 12 18 k then tk_px u (tk_back u) k
      else tk_px u (tk_front u) k) = m"
    using cur assms(3) by (auto simp: u m_def fun_eq_iff)
  moreover have "u\<lparr>tk_px := (tk_px u)(tk_front u := m)\<rparr> = u" by (simp add: u_def)
  ultimately have "FlushRect (prev_mouse_x s) (prev_mouse_y s) 12 18 u = u" by simp
  then show ?thesis unfolding e by (simp add: u_def m_def)
qed

lemma collect_dirty_facts [simp]:
  "needsFullFlush (collect_dirty X Y s) = needsFullFlush s" "d_windows (collect_dirty X Y s) = d_windows s"
  "menu_open (collect_dirty X Y s) = menu_open s" "externalWindows (collect_dirty X Y s) = externalWindows s"
  "prev_mouse_x (collect_dirty X Y s) = prev_mouse_x s" "prev_mouse_y (collect_dirty X Y s) = prev_mouse_y s"
  by (simp_all add: collect_dirty_def Let_def split_beta needsFullFlush_def)

lemma render_frame_collect [simp]: "render_frame font dt cs (collect_dirty X Y s) = render_frame font dt cs s"
  by (simp add: fun_eq_iff render_frame_def)

lemma collect_dirty_valid: "dx_valid (g_dirty (collect_dirty X Y s))"
proof -
  have b: "k < 1 \<Longrightarrow> at_box 1 0 0 16 22 k" for k by (simp add: at_box_def)
  have v: "dx_valid (DirtyAdd x y w h d)" if "dx_valid d \<or> 0 < w \<and> 0 < h" for x y w h d
    using that by (auto simp: DirtyAdd_def Let_def)
  show ?thesis by (simp add: collect_dirty_def Let_def split_beta v)
qed

text \<open>C40. A frame of the desktop redraws only what changed, and shows what a full redraw would.  For windows not narrower than their
  buttons nor lower than their title bar: every pixel of the collected rectangle (every pixel of the screen, when the launcher
  or an application's window forces a full frame) has in the shared buffer the colour a redraw without any clip would give it,
  every other pixel keeps its colour, and no other buffer is written.  The rectangle contains, with a border of two pixels, the
  old and the new place of every window that moved, changed its size, or was minimised or maximised, and of the cursor.
\<close>

theorem partial_frame_is_full_frame:
  assumes "tk_screen W H t" and "tk_cur t = tk_back t" and "tk_front t \<noteq> 0" and "tk_front t \<noteq> tk_back t"
    and "\<forall>w\<in>set (d_windows s). tw_minimized w \<or> wide_enough w"
    and "desktop_frame font dt cs s t = (s1, t1)"
  shows "(\<forall>k < W * H. tk_px t1 (tk_front t) k =
      (if needsFullFlush s \<or> at_dirty W (g_dirty s1) k then tk_px (render_frame font dt cs s (ClearClip t)) (tk_back t) k
       else tk_px t (tk_front t) k)) \<and>
    (\<forall>b k. b \<notin> {tk_front t, tk_back t} \<or> W * H \<le> k \<longrightarrow> tk_px t1 b k = tk_px t b k) \<and>
    (\<forall>i < length (d_windows s). let w = d_windows s ! i; p = d_prev s i
      in state_changed p w \<or> moved p w \<longrightarrow>
        (\<forall>k. at_box W (pw_x p - 2) (pw_y p - 2) (pw_w p + 4) (pw_h p + 4) k \<or>
             at_box W (tw_x w - 2) (tw_y w - 2) (tw_width w + 4) (tw_height w + 4) k \<longrightarrow> at_dirty W (g_dirty s1) k)) \<and>
    (\<forall>k. at_box W (prev_mouse_x s - 2) (prev_mouse_y s - 2) 16 22 k \<or> at_box W (mouse_x s - 2) (mouse_y s - 2) 16 22 k \<longrightarrow>
      at_dirty W (g_dirty s1) k)"
proof -
  obtain F where F: "\<And>t. tk_screen W H t \<Longrightarrow> render_frame font dt cs s t = painted W H F t"
    using painter_render_frame [OF assms(5), of W H font dt cs] unfolding painter_def by blast
  define u where "u = ClearClip (painted W H F (frame_clip s1 t))"
  have s1: "s1 = collect_dirty (tk_width t) (tk_height t) s" and t1: "t1 = frame_flush s1 u"
    using assms(6) F assms(1) by (auto simp: desktop_frame_def Let_def u_def)
  have v: "dx_valid (g_dirty s1)" and nf: "needsFullFlush s1 = needsFullFlush s" unfolding s1 by (simp_all add: collect_dirty_valid)
  have old: "at_dirty W (g_dirty s1) k"
    if "at_box W (prev_mouse_x s - 2) (prev_mouse_y s - 2) 16 22 k \<or> at_box W (mouse_x s - 2) (mouse_y s - 2) 16 22 k" for k
    unfolding s1 using that by (intro collect_dirty_covers) blast
  have u: "u = (ClearClip (frame_clip s1 t))\<lparr>tk_px := (tk_px t)(tk_back t := \<lambda>k. if k < W * H \<and> (needsFullFlush s \<or> at_dirty W (g_dirty s1) k)
      then F k (tk_px t (tk_back t) k) else tk_px t (tk_back t) k)\<rparr>"
    unfolding u_def painted_def visible_frame_clip [OF assms(1) v] nf clip_facts assms(2) by (rule ClearClip_px)
  have "tk_px t1 = (tk_px u)(tk_front u := \<lambda>k.
      if k < W * H \<and> (needsFullFlush s1 \<or> at_dirty W (g_dirty s1) k) then tk_px u (tk_back u) k else tk_px u (tk_front u) k)"
    unfolding t1
  proof (rule frame_flush_pixels)
    show "tk_screen W H u" "tk_front u \<noteq> 0" "tk_front u \<noteq> tk_back u" "dx_valid (g_dirty s1)"
      using assms(1,3,4) v by (simp_all add: u)
    show "at_dirty W (g_dirty s1) k" if "at_box W (prev_mouse_x s1) (prev_mouse_y s1) 12 18 k" for k
      using that unfolding s1 collect_dirty_facts by (intro old [unfolded s1] disjI1) (simp add: at_box_def)
  qed
  moreover have bf: "tk_back u = tk_back t" "tk_front u = tk_front t" by (simp_all add: u)
  ultimately have px: "tk_px t1 = (tk_px u)(tk_front t := \<lambda>k. if k < W * H \<and> (needsFullFlush s \<or> at_dirty W (g_dirty s1) k)
      then tk_px u (tk_back t) k else tk_px u (tk_front t) k)"
    by (simp only: nf bf)
  have full: "tk_px (render_frame font dt cs s (ClearClip t)) (tk_back t) k = F k (tk_px t (tk_back t) k)" if "k < W * H" for k
    using that assms(1,2) F [of "ClearClip t"] by (simp add: painted_def visible_def in_clip_def) (simp add: ClearClip_def)
  have "\<forall>k < W * H. tk_px t1 (tk_front t) k =
      (if needsFullFlush s \<or> at_dirty W (g_dirty s1) k then tk_px (render_frame font dt cs s (ClearClip t)) (tk_back t) k
       else tk_px t (tk_front t) k)"
    using assms(4) by (simp add: px u full)
  moreover have "\<forall>b k. b \<notin> {tk_front t, tk_back t} \<or> W * H \<le> k \<longrightarrow> tk_px t1 b k = tk_px t b k"
    by (auto simp: px u)
  moreover have "at_dirty W (g_dirty s1) k" if "i < length (d_windows s)"
    "state_changed (d_prev s i) (d_windows s ! i) \<or> moved (d_prev s i) (d_windows s ! i)"
    "at_box W (pw_x (d_prev s i) - 2) (pw_y (d_prev s i) - 2) (pw_w (d_prev s i) + 4) (pw_h (d_prev s i) + 4) k \<or>
      at_box W (tw_x (d_windows s ! i) - 2) (tw_y (d_windows s ! i) - 2) (tw_width (d_windows s ! i) + 4) (tw_height (d_windows s ! i) + 4) k"
    for i k
    unfolding s1 using mark_window_new [OF that(2,3)] that(1) by (intro collect_dirty_covers) blast
  ultimately show ?thesis using old unfolding Let_def by blast
qed

text \<open>A screen of 4 by 2 pixels, all grey in the shared buffer at address 8; the cursor has not moved, and a window beyond the left edge
  has moved by one pixel: the second row keeps its colour and the rectangle's pixels have the colours of a full redraw.\<close>

definition demo_toolkit :: toolkit where
  "demo_toolkit = \<lparr>tk_front = 8, tk_back = 4096, tk_cur = 4096, tk_width = 4, tk_height = 2, clipEnabled = False, clipX = 0, clipY = 0,
     clipW = 0, clipH = 0, backend_requested = SOFTWARE, backend_active = SOFTWARE, gpu_atomic_supported = False,
     tk_px = (\<lambda>b. if b = 8 then (\<lambda>_. 7) else (\<lambda>_. 0))\<rparr>"

definition demo_desktop :: desktop where
  "demo_desktop = \<lparr>d_windows = [new_window (-60) (-27) 61 26 0xFF4080A0 ''System''],
     d_prev = (\<lambda>_. \<lparr>pw_x = -61, pw_y = -27, pw_w = 61, pw_h = 26, pw_min = False, pw_max = False\<rparr>),
     menu_open = False, prev_menu_open = False, ui_dirty = False, first_frame = False, externalWindows = [], prevExternalWindows = [],
     mouse_x = -20, mouse_y = -21, prev_mouse_x = -20, prev_mouse_y = -21, now_sec = 5, prev_clock_sec = 5, g_last_clock_sec = 5,
     g_dirty = DirtyInit, drag_target_idx = None, drag_offset_x = 0, drag_offset_y = 0\<rparr>"

lemma demo_collect: "g_dirty (collect_dirty 4 2 demo_desktop) = \<lparr>dx_x = -63, dx_y = -29, dx_w = 66, dx_h = 30, dx_valid = True\<rparr>"
  by code_simp

theorem partial_frame_is_full_frame_witness:
  "\<forall>font dt. tk_px (snd (desktop_frame font dt [] demo_desktop demo_toolkit)) 8 1 =
       tk_px (render_frame font dt [] demo_desktop (ClearClip demo_toolkit)) 4096 1 \<and>
     tk_px (snd (desktop_frame font dt [] demo_desktop demo_toolkit)) 8 4 = 7"
proof (intro allI)
  fix font dt
  obtain s1 t1 where f: "desktop_frame font dt [] demo_desktop demo_toolkit = (s1, t1)" by (rule prod.exhaust)
  have s1: "s1 = collect_dirty 4 2 demo_desktop" using f by (simp add: desktop_frame_def Let_def demo_toolkit_def)
  have n: "\<not> needsFullFlush demo_desktop" by (simp add: needsFullFlush_def demo_desktop_def)
  have d: "at_dirty 4 (g_dirty s1) 1" "\<not> at_dirty 4 (g_dirty s1) 4" unfolding s1 demo_collect by (simp_all add: at_dirty_def at_box_def)
  have "\<forall>k < 4 * 2. tk_px t1 (tk_front demo_toolkit) k =
      (if needsFullFlush demo_desktop \<or> at_dirty 4 (g_dirty s1) k
       then tk_px (render_frame font dt [] demo_desktop (ClearClip demo_toolkit)) (tk_back demo_toolkit) k
       else tk_px demo_toolkit (tk_front demo_toolkit) k)"
    by (rule partial_frame_is_full_frame [THEN conjunct1, OF _ _ _ _ _ f])
      (simp_all add: demo_toolkit_def demo_desktop_def tk_screen_def new_window_def wide_enough_def)
  then show "tk_px (snd (desktop_frame font dt [] demo_desktop demo_toolkit)) 8 1 =
       tk_px (render_frame font dt [] demo_desktop (ClearClip demo_toolkit)) 4096 1 \<and>
     tk_px (snd (desktop_frame font dt [] demo_desktop demo_toolkit)) 8 4 = 7"
    using n d by (simp add: f) (simp add: demo_toolkit_def)
qed
end
