(* ===== verification/Spec2Isabelle.thy ===== *)
theory Spec2Isabelle
  imports Scheduler Evdev Input_Manager InitRD Mount_Manager FAT32_Alloc User_Heap_Safety Audio Dirty_Rects
    Keyboard Compositor_Windows Early_Term Drm Syscall_Memory Desktop
begin

text \<open>
  MorphicOS: the kernel's memory, task, file, input, sound and display managers, and the system calls that
  put them together; and the desktop that draws over them.

  \<^bold>\<open>How the program is put together.\<close>  The kernel (\<^verbatim>\<open>src/kernel\<close>) hands out page frames
  (\<^verbatim>\<open>mm/pmm.cpp\<close>), builds page tables from them (\<^verbatim>\<open>hal/arch/x86_64/mmu.cpp\<close>) and carves a fixed region into heap
  blocks (\<^verbatim>\<open>mm/heap.cpp\<close>).  Tasks, file nodes, layers, shared buffers and sectors live in heap blocks.  The timer
  interrupt runs \<^verbatim>\<open>Scheduler::Schedule\<close>; keyboard and mouse interrupts feed the input manager, which sends events to the
  queue of the task that registered as compositor, or stashes them before there is one.  Files are nodes of the virtual
  file system, filled from a TAR archive at boot or read through a mount table, drivers and a sector cache.
  Windows and shared buffers are memory blocks that the compositor and the display manager copy to the screen.  A task
  reaches all of this through \<^verbatim>\<open>syscall_handler\<close>.  One task is the desktop (\<^verbatim>\<open>src/userspace\<close>): it draws its
  windows and its task bar into a scratch buffer and copies what changed to the buffer it shares with the kernel.

  \<^bold>\<open>How it is modelled.\<close>  Each component is a \<^theory_text>\<open>record\<close> of its static variables and a definition per
  function that takes the state and returns it changed; structures that the code links by pointers live in a map from addresses
  to records, with the pointers as fields.  \<open>nat\<close> values of type \<^verbatim>\<open>size_t\<close> or \<^verbatim>\<open>uint32_t\<close> wrap
  through \<open>add64\<close>, \<open>sub32\<close> and so on (theory \<open>Prelude\<close>); sums of \<^verbatim>\<open>int32_t\<close> coordinates in the kernel wrap
  through \<open>wrap32\<close>, as the compiler's additions do, and \<open>span32\<close> states that a rectangle's end fits; flags, page table entries, bytes and pixels are
  words.  Results that the code signals by null, false or a code are ordinary values.  \<open>None\<close> of an \<open>option\<close> result
  of an operation is a call that does not return (an endless loop, a lock taken twice, a page fault, a hang on purpose): it comes
  from \<^theory_text>\<open>partial_function (option)\<close> or from a case the code does not survive, and a property that says a call
  returns proves \<open>Some\<close>.  Where the code counts a loop down (64 tasks to reap, 8 attempts at the clock, 16 bytes of
  mouse data, the waits on the display), the count is in the model as it is in the code; there is no fuel of the model's own.

  \<^bold>\<open>Theories, in the order of the code.\<close>
  \<^item> \<open>Prelude\<close>: word types, wrap-around arithmetic, slot search; \<open>Insertion_Sort\<close>: the sort shared by both compositors.
  \<^item> Memory: \<open>Bitmap\<close> (\<^verbatim>\<open>utils/bitmap.h\<close>), \<open>PMM\<close> (\<^verbatim>\<open>mm/pmm.cpp\<close>), \<open>KHeap\<close>
    (\<^verbatim>\<open>mm/heap.cpp\<close>), \<open>User_Heap\<close> and \<open>User_Heap_Safety\<close> (\<^verbatim>\<open>mm/user_heap.cpp\<close>), \<open>MMU\<close>
    (\<^verbatim>\<open>hal/arch/x86_64/mmu.cpp\<close>), \<open>Page_Runs\<close> (the loop that maps consecutive pages),
    \<open>Map_Limits\<close> (when \<^verbatim>\<open>MapPage\<close> fails), \<open>KStd\<close> (\<^verbatim>\<open>utils/std.cpp\<close>).
  \<^item> Tasks and locks: \<open>Scheduler\<close> (\<^verbatim>\<open>process/scheduler.cpp\<close>), \<open>Locks\<close> (\<^verbatim>\<open>arch/common/spinlock.h\<close>).
  \<^item> Files: \<open>VFS\<close> (\<^verbatim>\<open>fs/vfs.cpp\<close>), \<open>InitRD\<close> (\<^verbatim>\<open>fs/initrd.cpp\<close>), \<open>Mount\<close> (\<^verbatim>\<open>fs/mount.cpp\<close>),
    \<open>Block_Device\<close> and \<open>Storage\<close> (\<^verbatim>\<open>hal/storage/\<close>), \<open>Ramdisk\<close> (\<^verbatim>\<open>drivers/ramdisk.cpp\<close>), \<open>FAT32\<close>, \<open>FAT32_Read\<close>
    and \<open>FAT32_Alloc\<close> (\<^verbatim>\<open>fs/drivers/fat32.cpp\<close>), \<open>Mount_Manager\<close> (\<^verbatim>\<open>fs/mount_manager.cpp\<close>, partitions, NTFS stub).
  \<^item> Input: \<open>Evdev\<close>, \<open>Input_Manager\<close>, \<open>Keymap\<close>, \<open>Mouse\<close> (\<^verbatim>\<open>hal/input/\<close>), \<open>Keyboard\<close>
    (\<^verbatim>\<open>drivers/x86/keyboard.cpp\<close>).
  \<^item> Sound: \<open>Audio\<close> (\<^verbatim>\<open>hal/audio/ring_buffer.h\<close>, \<^verbatim>\<open>mixer.cpp\<close>).
  \<^item> Screen: \<open>Graphics\<close>, \<open>Font\<close>, \<open>Dirty_Rects\<close>, \<open>Compositor\<close>, \<open>Compositor_Windows\<close>, \<open>Early_Term\<close>
    (\<^verbatim>\<open>hal/video/\<close>), \<open>Buffer_Manager\<close> and \<open>Drm\<close> (\<^verbatim>\<open>hal/drm/\<close>).
  \<^item> Border to the tasks: \<open>Rtc\<close>, \<open>User_Memory\<close>, \<open>Loader\<close> (\<^verbatim>\<open>core/loader.cpp\<close>), \<open>Syscall\<close>,
    \<open>Syscall_Safety\<close> and \<open>Syscall_Memory\<close> (\<^verbatim>\<open>hal/arch/x86_64/syscall.cpp\<close>).
  \<^item> Desktop: \<open>Toolkit\<close> (\<^verbatim>\<open>userspace/sdk/gui/compositor.cpp\<close>), \<open>Desktop\<close>
    (\<^verbatim>\<open>userspace/apps/desktop/desktop.cpp\<close>).

  \<^bold>\<open>Interfaces.\<close>  \<open>Heap_Interface\<close> is the contract of a heap (blocks handed out are apart, until freed), proved
  for the kernel heap and for the user heap; \<open>Page_Allocator\<close> the contract of a frame allocator, proved for the physical
  memory manager; \<open>Bounded_Fifo\<close> that of a bounded queue, proved for the event device, the queues of the tasks, the
  stash of early events, the ring of the keyboard and the audio ring; the locale of \<open>Locks\<close> that of a lock, proved for all three;
  \<open>Block_Device\<close> that of a block device, proved for the RAM disk, on which the
  cache, the storage manager and FAT32 rest; \<open>Insertion_Sort\<close> relates the in-place sorts to the library's stable sort.

  \<^bold>\<open>What is proved.\<close>
  \<^item> Invariants kept by every operation, over any sequence of requests: frames, kernel blocks, user blocks and shared buffers
    never overlap; the table of windows stays consistent; open descriptors name files.  The heaps do not check their arithmetic, so
    their theorems bound the sizes asked for, and lemmas beside them show what larger ones do.
  \<^item> Refinement: the linked headers of the kernel heap implement a list of segments; cache and storage manager an array of
    sectors; the mount table sixteen places; the boot terminal a grid of character cells.
  \<^item> What each operation computes, errors included: page tables translate as told and nothing else changes; a
    file read returns the slice asked for; the longest mounted prefix is found; the files of an archive, described by
    the TAR format and not by the parser, appear in the tree with their contents.
  \<^item> Equivalence of an optimised routine with its plain meaning: the spans of the blitter, the mixer (each
    channel's part added and cut to 16 bits), insertion sort,
    and a clipped redraw of the desktop, which shows what a full one would.
  \<^item> Ordering and liveness: round robin with a bound on the waiting time, fair ticket locks, events delivered in order and
    once, for any interleaving.
  \<^item> Whole paths: typing on the keyboard, make and break codes, to \<^verbatim>\<open>GetChar\<close>, mouse packets to the desktop's queue, drawing to the screen,
    a package file to the frames of a task, \<^verbatim>\<open>SYS_READ\<close> to the bytes of a file, \<^verbatim>\<open>SYS_MALLOC\<close> to fresh zeroed pages (as far as the mapping, whose result it ignores, succeeds).
  \<^item> Safety of the border: pointers below user space are refused by every call that looks at them, and a task cannot
    change a shared buffer of another one.

  \<^bold>\<open>Assumptions.\<close>  Read and write pointers of file nodes, block devices other than the RAM disk, the built-in font, the clock chip,
  the timer, the status port of the display, the \<^verbatim>\<open>cpuid\<close> instruction and, for the desktop, the kernel's answers and the
  texts of its windows are arguments of the model.  Interrupts do not
  arrive inside an operation, except in \<open>Locks\<close> and \<open>Audio\<close>, where the interleavings are explicit.  Three views of memory are kept
  apart: the words of page tables, the bytes of files and tasks, and pixels; two of them never share a frame in the properties.
  Log messages are left out; the flushes of the translation buffer are
  recorded in \<open>MMU\<close> and left out elsewhere.  The kernel reads user memory through \<^verbatim>\<open>GetPhysical\<close>'s
  walk, so large pages do not occur in user space, as in the code.

  \<^bold>\<open>Not modelled.\<close>  The UEFI loader and the boot protocol (firmware calls, and copying its tables); start-up, panic
  and boot screen (a sequence of calls that are modelled one by one, and drawing); descriptor tables, interrupt entry and the switch to user mode
  (processor registers and assembly); the drivers of IDE, PIT, UART, PCI and the BGA display (sequences of port accesses
  whose meaning is the device's); the kernel shell and its command language, the desktop's launcher and
  client protocol, and the other applications in \<^verbatim>\<open>src/userspace\<close> (text and drawing over the modelled interfaces); the arm64 stub (empty).  Of the modelled files: the C++ support stubs, the
  glyph cache that nothing fills, and the setting of the model-specific registers for system calls.
\<close>

end
